(* ===== verification/Prelude.thy ===== *)
theory Prelude
  imports Main "HOL-Library.Word" "HOL-Library.Monad_Syntax" "HOL-Library.List_Lexorder"
begin

unbundle bit_operations_syntax

section \<open>Types, byte strings and lemmas the components share\<close>

text \<open>
  The names of the model's machine types, little- and big-endian byte order, checked reads and
  writes of a byte slice (\<open>None\<close> stands for a Rust panic on an index out of range), and the
  generic lemmas on words and lists that the component theories use.
  A \<^verbatim>\<open>usize\<close> is a \<open>nat\<close>; a \<^verbatim>\<open>&[u8]\<close> or \<^verbatim>\<open>Vec<u8>\<close> is a \<open>bytes\<close>.
\<close>

type_synonym u8 = "8 word"
type_synonym u16 = "16 word"
type_synonym u32 = "32 word"
type_synonym u64 = "64 word"
type_synonym bytes = "u8 list"

named_theorems byte_simps \<open>lengths and shapes of encoded byte strings\<close>

text \<open>Text of the source as bytes: a Rust byte-string literal.\<close>

definition bstr :: "string \<Rightarrow> bytes" where
  "bstr s = map (\<lambda>c. of_nat (of_char c)) s"

subsection \<open>Byte order\<close>

fun le_bytes :: "nat \<Rightarrow> 'a::len word \<Rightarrow> bytes" where
  "le_bytes 0 w = []"
| "le_bytes (Suc n) w = ucast w # le_bytes n (drop_bit 8 w)"

fun from_le :: "bytes \<Rightarrow> 'a::len word" where
  "from_le [] = 0"
| "from_le (b # bs) = ucast b OR push_bit 8 (from_le bs)"

definition be_bytes :: "nat \<Rightarrow> 'a::len word \<Rightarrow> bytes" where
  "be_bytes n w = rev (le_bytes n w)"

definition from_be :: "bytes \<Rightarrow> 'a::len word" where
  "from_be bs = from_le (rev bs)"

lemma length_le_bytes [simp, byte_simps]: "length (le_bytes n w) = n"
  by (induction n arbitrary: w) auto

lemma length_be_bytes [simp, byte_simps]: "length (be_bytes n w) = n"
  by (simp add: be_bytes_def)

lemma from_le_le_bytes: "from_le (le_bytes n w) = take_bit (8 * n) w"
proof (induction n arbitrary: w)
  case 0
  then show ?case by simp
next
  case (Suc n)
  have "ucast (ucast w :: u8) OR push_bit 8 (take_bit (8 * n) (drop_bit 8 w)) = take_bit (8 + 8 * n) w"
    by (rule bit_word_eqI) (auto simp: bit_simps)
  then show ?case by (simp add: Suc)
qed

lemma le_bytes_from_le:
  "8 * length bs \<le> LENGTH('a::len) \<Longrightarrow> le_bytes (length bs) (from_le bs :: 'a word) = bs"
proof (induction bs)
  case Nil
  then show ?case by simp
next
  case (Cons b bs)
  let ?w = "from_le bs :: 'a word"
  have IH: "le_bytes (length bs) ?w = bs"
    using Cons by simp
  have w: "?w = take_bit (8 * length bs) ?w"
    using from_le_le_bytes [of "length bs" ?w] IH by simp
  have small: "8 + 8 * length bs \<le> LENGTH('a)" using Cons.prems by simp
  have lo: "ucast (ucast b OR push_bit 8 ?w) = b"
    by (rule bit_word_eqI) (use small in \<open>auto simp: bit_simps\<close>)
  have hi: "drop_bit 8 (ucast b OR push_bit 8 ?w) = ?w"
  proof (rule bit_word_eqI)
    fix i assume i: "i < LENGTH('a)"
    have "bit ?w i \<Longrightarrow> i < 8 * length bs"
      by (subst (asm) w) (simp add: bit_simps)
    then show "bit (drop_bit 8 (ucast b OR push_bit 8 ?w)) i = bit ?w i"
      using i small by (auto simp: bit_simps dest: bit_imp_le_length)
  qed
  show ?case by (simp only: list.size from_le.simps le_bytes.simps add_0_right add_Suc_right lo hi IH)
qed

lemma from_le_le_bytes_16 [simp]: "from_le (le_bytes 2 (w::u16)) = w"
  by (simp only: from_le_le_bytes) (simp add: take_bit_word_eq_self)

lemma from_le_le_bytes_32 [simp]: "from_le (le_bytes 4 (w::u32)) = w"
  by (simp only: from_le_le_bytes) (simp add: take_bit_word_eq_self)

lemma from_le_le_bytes_64 [simp]: "from_le (le_bytes 8 (w::u64)) = w"
  by (simp only: from_le_le_bytes) (simp add: take_bit_word_eq_self)

subsection \<open>Checked slices\<close>

text \<open>\<open>&xs[off..off + n]\<close>, and a copy of \<open>ys\<close> into \<open>xs\<close> at \<open>off\<close>.\<close>

definition slice_at :: "'a list \<Rightarrow> nat \<Rightarrow> nat \<Rightarrow> 'a list option" where
  "slice_at xs off n = (if off + n \<le> length xs then Some (take n (drop off xs)) else None)"

definition copy_at :: "'a list \<Rightarrow> nat \<Rightarrow> 'a list \<Rightarrow> 'a list option" where
  "copy_at xs off ys =
     (if off + length ys \<le> length xs then Some (take off xs @ ys @ drop (off + length ys) xs) else None)"

definition nth_opt :: "'a list \<Rightarrow> nat \<Rightarrow> 'a option" where
  "nth_opt xs i = (if i < length xs then Some (xs ! i) else None)"

lemma slice_at_length [byte_simps]: "slice_at xs off n = Some ys \<Longrightarrow> length ys = n"
  by (auto simp: slice_at_def split: if_splits)

lemma copy_at_length [byte_simps]: "copy_at xs off ys = Some zs \<Longrightarrow> length zs = length xs"
  by (auto simp: copy_at_def split: if_splits)

lemma slice_at_append1 [simp]: "length xs = off \<Longrightarrow> length ys = n \<Longrightarrow> slice_at (xs @ ys @ zs) off n = Some ys"
  by (simp add: slice_at_def)

lemma copy_then_slice: "copy_at xs off ys = Some zs \<Longrightarrow> slice_at zs off (length ys) = Some ys"
  by (auto simp: slice_at_def copy_at_def split: if_splits)

lemma copy_then_slice_before:
  "copy_at xs off ys = Some zs \<Longrightarrow> i + n \<le> off \<Longrightarrow> slice_at zs i n = slice_at xs i n"
  by (auto simp: slice_at_def copy_at_def drop_take min_def split: if_splits)

lemma copy_then_slice_apart:
  assumes c: "copy_at xs off ys = Some zs" and "i + n \<le> off \<or> off + length ys \<le> i"
  shows "slice_at zs i n = slice_at xs i n"
proof (cases "i + n \<le> off")
  case False
  then have i: "off + length ys \<le> i" using assms(2) by simp
  have z: "off + length ys \<le> length xs" "zs = take off xs @ ys @ drop (off + length ys) xs" using c by (auto simp: copy_at_def split: if_splits)
  have "drop i zs = drop i xs" using i z by simp
  then show ?thesis using z by (simp add: slice_at_def)
qed (rule copy_then_slice_before [OF c])

subsection \<open>Code that does not panic\<close>

text \<open>Rules that take a body in the option monad apart, one call at a time.\<close>

named_theorems no_panic \<open>calls that return\<close>

lemma bind_no_panic [no_panic]:
  "m \<noteq> None \<Longrightarrow> (\<And>x. m = Some x \<Longrightarrow> f x \<noteq> None) \<Longrightarrow> Option.bind m f \<noteq> None"
  by (cases m) auto

lemma Let_no_panic [no_panic]: "(\<And>x. x = a \<Longrightarrow> f x \<noteq> None) \<Longrightarrow> Let a f \<noteq> None"
  by simp

lemma prod_no_panic [no_panic]: "(\<And>a b. p = (a, b) \<Longrightarrow> f a b \<noteq> None) \<Longrightarrow> case_prod f p \<noteq> None"
  by (cases p) auto

lemma prod_no_panic2 [no_panic]: "(\<And>a b. p = (a, b) \<Longrightarrow> f a b x \<noteq> None) \<Longrightarrow> case_prod f p x \<noteq> None"
  by (cases p) auto

lemma if_no_panic [no_panic]: "(b \<Longrightarrow> x \<noteq> None) \<Longrightarrow> (\<not> b \<Longrightarrow> y \<noteq> None) \<Longrightarrow> (if b then x else y) \<noteq> None"
  by simp

lemma Some_no_panic [no_panic]: "Some x \<noteq> None"
  by simp

lemma slice_at_no_panic [no_panic]: "off + n \<le> length xs \<Longrightarrow> slice_at xs off n \<noteq> None"
  by (simp add: slice_at_def)

lemma nth_opt_no_panic [no_panic]: "i < length xs \<Longrightarrow> nth_opt xs i \<noteq> None"
  by (simp add: nth_opt_def)

subsection \<open>Rounding\<close>

text \<open>\<open>usize::next_multiple_of\<close> and \<open>div_ceil\<close>.\<close>

definition next_multiple_of :: "nat \<Rightarrow> nat \<Rightarrow> nat" where
  "next_multiple_of n a = (n + a - 1) div a * a"

definition div_ceil :: "nat \<Rightarrow> nat \<Rightarrow> nat" where
  "div_ceil n a = (n + a - 1) div a"

lemma next_multiple_of_bounds:
  assumes "0 < a"
  shows "n \<le> next_multiple_of n a \<and> next_multiple_of n a < n + a"
proof -
  have "(n + a - 1) div a * a + (n + a - 1) mod a = n + a - 1" by simp
  moreover have "(n + a - 1) mod a < a" using assms by simp
  ultimately show ?thesis using assms unfolding next_multiple_of_def by linarith
qed

lemma next_multiple_of_ge: "0 < a \<Longrightarrow> n \<le> next_multiple_of n a"
  using next_multiple_of_bounds by blast

lemma next_multiple_of_lt: "0 < a \<Longrightarrow> next_multiple_of n a < n + a"
  using next_multiple_of_bounds by blast

lemma next_multiple_of_dvd: "a dvd next_multiple_of n a"
  by (simp add: next_multiple_of_def)

text \<open>\<open>Vec::resize(len.next_multiple_of(n), 0)\<close>.\<close>

definition pad_to :: "bytes \<Rightarrow> nat \<Rightarrow> bytes" where
  "pad_to bs n = bs @ replicate (next_multiple_of (length bs) n - length bs) 0"

lemma length_pad_to [simp, byte_simps]: "0 < n \<Longrightarrow> length (pad_to bs n) = next_multiple_of (length bs) n"
  by (simp add: pad_to_def next_multiple_of_ge)

subsection \<open>Words as numbers\<close>

lemma unat_two_power [simp]: "k < LENGTH('a::len) \<Longrightarrow> unat (2 ^ k :: 'a word) = 2 ^ k"
  by (metis of_nat_numeral of_nat_power power_strict_increasing_iff one_less_numeral_iff semiring_norm(76)
      take_bit_nat_eq_self unsigned_of_nat)

lemma unat_plus_small: "unat (a :: 'a::len word) + unat b < 2 ^ LENGTH('a) \<Longrightarrow> unat (a + b) = unat a + unat b"
  by (rule iffD1 [OF unat_add_lem])

lemma unat_of_nat_small: "n < 2 ^ LENGTH('a::len) \<Longrightarrow> unat (of_nat n :: 'a word) = n"
  by (simp add: unat_of_nat take_bit_nat_eq_self)

lemma unat_u8_less: "unat (b :: u8) < 256"
  using unsigned_less [of b, where 'a = nat] by simp

lemma unat_ucast_u8: "8 \<le> LENGTH('a::len) \<Longrightarrow> unat (ucast (b :: u8) :: 'a word) = unat b"
proof -
  assume l: "8 \<le> LENGTH('a)"
  have "(2::nat) ^ 8 \<le> 2 ^ LENGTH('a)" by (rule power_increasing [OF l]) simp
  then have "unat b < 2 ^ LENGTH('a)" using unat_u8_less [of b] by simp
  then show ?thesis by (simp add: unsigned_ucast_eq take_bit_nat_eq_self)
qed

lemma unat_and_not_mask:
  fixes x :: u64
  assumes "k < 64"
  shows "unat (x AND NOT (mask k)) = unat x div 2 ^ k * 2 ^ k"
proof -
  have "x AND NOT (mask k) = push_bit k (drop_bit k x)"
    by (rule bit_word_eqI) (auto simp: bit_simps)
  also have "\<dots> = drop_bit k x * 2 ^ k" by (simp add: push_bit_eq_mult)
  finally have e: "x AND NOT (mask k) = drop_bit k x * 2 ^ k" .
  have d: "unat (drop_bit k x) = unat x div 2 ^ k"
    by (subst unat_drop_bit_eq) (simp add: drop_bit_eq_div)
  have p: "unat (2 ^ k :: u64) = 2 ^ k"
    using assms by simp
  have "unat x div 2 ^ k * 2 ^ k \<le> unat x" by simp
  also have "\<dots> < 2 ^ 64" using unsigned_less [of x] by simp
  finally show ?thesis by (simp add: e unat_word_ariths d p)
qed

lemma bit_less_exp: "(w :: 'a::len word) < 2 ^ k \<Longrightarrow> bit w i \<Longrightarrow> i < k"
proof -
  assume "w < 2 ^ k" and b: "bit w i"
  then have "w AND mask k = w" by (simp add: less_mask_eq)
  with b have "bit (w AND mask k) i" by simp
  then show "i < k" by (simp add: bit_and_iff bit_mask_iff)
qed

text \<open>An opcode in the high half of a byte, and its immediate in the low half.\<close>

lemma nibble:
  assumes "(v :: u8) < 16"
  shows "v AND 0xf = v" and "v AND 0xf0 = 0"
proof -
  have m: "(0xf :: u8) = mask 4" "(0xf0 :: u8) = push_bit 4 (mask 4)" by (simp_all add: mask_eq_exp_minus_1)
  have i: "bit v n \<Longrightarrow> n < 4" for n by (rule bit_less_exp [of v 4]) (use assms in simp_all)
  show "v AND 0xf = v" unfolding m by (rule bit_word_eqI) (auto simp: bit_simps dest: i)
  show "v AND 0xf0 = 0" unfolding m by (rule bit_word_eqI) (auto simp: bit_simps dest: i)
qed

lemma opcode_or:
  assumes "(v :: u8) < 16"
  shows "(v OR c) AND 0xf0 = c AND 0xf0" and "(v OR c) AND 0xf = v OR (c AND 0xf)"
    and "(c OR v) AND 0xf0 = c AND 0xf0" and "(c OR v) AND 0xf = v OR (c AND 0xf)"
  by (simp_all add: bit.conj_disj_distrib2 nibble [OF assms] or.commute)

lemma of_nat_nibble: "n < 16 \<Longrightarrow> (of_nat n :: u8) < 16 \<and> unat (of_nat n :: u8) = n"
  by (simp add: word_less_nat_alt unat_of_nat take_bit_nat_eq_self)

text \<open>The value of a big-endian byte string, and its order.\<close>

fun be_val :: "bytes \<Rightarrow> nat" where
  "be_val [] = 0"
| "be_val (b # bs) = unat b * 256 ^ length bs + be_val bs"

lemma be_val_less: "be_val bs < 256 ^ length bs"
proof (induction bs)
  case Nil
  then show ?case by simp
next
  case (Cons b bs)
  have "unat b \<le> 255" using unat_u8_less [of b] by simp
  then have "unat b * 256 ^ length bs \<le> 255 * 256 ^ length bs" by (rule mult_le_mono1)
  then have "unat b * 256 ^ length bs + be_val bs < 255 * 256 ^ length bs + 256 ^ length bs"
    using Cons by (rule add_le_less_mono)
  then show ?case by simp
qed

lemma be_val_append: "be_val (xs @ [b]) = be_val xs * 256 + unat b"
  by (induction xs) (auto simp: algebra_simps)

lemma unat_from_le: "8 * length bs \<le> LENGTH('a::len) \<Longrightarrow> unat (from_le bs :: 'a word) = be_val (rev bs)"
proof (induction bs)
  case Nil
  then show ?case by simp
next
  case (Cons b bs)
  let ?w = "from_le bs :: 'a word"
  have IH: "unat ?w = be_val (rev bs)" using Cons by simp
  have l: "8 \<le> LENGTH('a)" using Cons.prems by simp
  have "ucast b OR push_bit 8 ?w = ucast b + push_bit 8 ?w"
    by (rule disjunctive_add_eq_or [symmetric]) (rule bit_word_eqI, auto simp: bit_simps dest: bit_imp_le_length)
  moreover have "unat (ucast b :: 'a word) = unat b" using l by (rule unat_ucast_u8)
  moreover have "push_bit 8 ?w = ?w * 256" by (simp add: push_bit_eq_mult)
  moreover have "be_val (rev bs) * 256 + unat b < 2 ^ LENGTH('a)"
  proof -
    have "be_val (rev bs @ [b]) < 256 ^ (length bs + 1)" using be_val_less [of "rev bs @ [b]"] by simp
    also have "\<dots> = (2 ^ 8) ^ (length bs + 1)" by simp
    also have "\<dots> = 2 ^ (8 * (length bs + 1))" by (rule power_mult [symmetric])
    also have "\<dots> \<le> 2 ^ LENGTH('a)" using Cons.prems by (intro power_increasing) auto
    finally show ?thesis by (simp add: be_val_append)
  qed
  ultimately show ?case
    by (simp add: be_val_append unat_word_ariths IH take_bit_eq_mod mod_simps add.commute)
qed

lemma be_val_lex: "length xs = length ys \<Longrightarrow> be_val xs < be_val ys \<longleftrightarrow> xs < ys"
proof (induction xs ys rule: list_induct2)
  case Nil
  then show ?case by simp
next
  case (Cons x xs y ys)
  let ?p = "256 ^ length ys :: nat"
  have bx: "be_val xs < ?p" and by': "be_val ys < ?p"
    using be_val_less [of xs] be_val_less [of ys] Cons.hyps by simp_all
  have key: "unat x * ?p + be_val xs < unat y * ?p + be_val ys" if "x < y" "be_val xs < ?p" for x y :: u8 and xs ys
  proof -
    have "unat x + 1 \<le> unat y" using that(1) by (simp add: word_less_nat_alt)
    then have "(unat x + 1) * ?p \<le> unat y * ?p" by (rule mult_le_mono1)
    then show ?thesis using that(2) by simp
  qed
  consider "x < y" | "x = y" | "y < x" by (metis linorder_less_linear)
  then show ?case
  proof cases
    case 1
    then show ?thesis using key [OF 1 bx, of ys] Cons.hyps by simp
  next
    case 2
    then show ?thesis using Cons by simp
  next
    case 3
    then show ?thesis using key [OF 3 by', of xs] Cons.hyps by auto
  qed
qed

subsection \<open>Lists of optional results\<close>

lemma those_Some: "those xs = Some ys \<Longrightarrow> xs = map Some ys"
  by (induction xs arbitrary: ys) (auto split: option.splits)

lemma those_map_Some [simp]: "those (map Some xs) = Some xs"
  by (induction xs) auto

lemma those_map_total: "(\<And>x. x \<in> set xs \<Longrightarrow> f x = Some (g x)) \<Longrightarrow> those (map f xs) = Some (map g xs)"
  by (induction xs) auto

lemma those_append: "those (xs @ ys) = (case those xs of None \<Rightarrow> None | Some a \<Rightarrow> map_option ((@) a) (those ys))"
  by (induction xs; cases "those ys") (auto split: option.splits)

end
