(* ===== verification/Util.thy ===== *)
theory Util
  imports Prelude
begin

section \<open>The helpers of \<open>macho/util/mod.rs\<close>\<close>

text \<open>
  Rounding, bit fields, little-endian access, LEB128, name sort keys, and the line and white-space
  helpers. Loops of the source are recursive functions; a read or write past the end of a slice,
  which panics in Rust, is \<open>None\<close>. The build is a release build, so machine arithmetic wraps.
  The interface \<open>codec\<close> collects what users of a self-delimiting encoding rely on; the LEB128 and
  fixed-width encodings below are its providers.
\<close>

subsection \<open>Rounding and bit fields\<close>

definition align_to :: "u64 \<Rightarrow> u64 \<Rightarrow> u64" where
  "align_to value align =
     (if align = 0 then value else (value + align - 1) AND NOT (align - 1))"

definition align_to_mod :: "u64 \<Rightarrow> u64 \<Rightarrow> u64 \<Rightarrow> u64" where
  "align_to_mod val align modulus =
     (if val \<le> modulus then modulus else align_to (val - modulus) align + modulus)"

definition bits :: "u64 \<Rightarrow> nat \<Rightarrow> nat \<Rightarrow> u64" where
  "bits value hi lo = drop_bit lo value AND (push_bit (hi - lo + 1) 1 - 1)"

definition sign_extend :: "u64 \<Rightarrow> nat \<Rightarrow> u64" where
  "sign_extend value n = signed_drop_bit (64 - n) (push_bit (64 - n) value)"

subsection \<open>Little-endian access\<close>

definition read16 :: "bytes \<Rightarrow> u16 option" where
  "read16 loc = map_option from_le (slice_at loc 0 2)"

definition read32 :: "bytes \<Rightarrow> u32 option" where
  "read32 loc = map_option from_le (slice_at loc 0 4)"

definition read64 :: "bytes \<Rightarrow> u64 option" where
  "read64 loc = map_option from_le (slice_at loc 0 8)"

definition write32 :: "bytes \<Rightarrow> u32 \<Rightarrow> bytes option" where
  "write32 loc val = copy_at loc 0 (le_bytes 4 val)"

definition write64 :: "bytes \<Rightarrow> u64 \<Rightarrow> bytes option" where
  "write64 loc val = copy_at loc 0 (le_bytes 8 val)"

definition push16 :: "bytes \<Rightarrow> u16 \<Rightarrow> bytes" where
  "push16 buf val = buf @ le_bytes 2 val"

definition push32 :: "bytes \<Rightarrow> u32 \<Rightarrow> bytes" where
  "push32 buf val = buf @ le_bytes 4 val"

definition push64 :: "bytes \<Rightarrow> u64 \<Rightarrow> bytes" where
  "push64 buf val = buf @ le_bytes 8 val"

subsection \<open>Name sort keys\<close>

definition name_sort_key :: "bytes \<Rightarrow> u64 \<times> bytes" where
  "name_sort_key name =
     (let n = min (length name) 8; p = take n name @ replicate (8 - n) 0
      in (from_be p, name))"

subsection \<open>LEB128\<close>

text \<open>What \<open>encode_uleb\<close> and \<open>encode_sleb\<close> append to their buffer.\<close>

lemma drop_bit_7_less: "drop_bit 7 (v :: u64) \<noteq> 0 \<Longrightarrow> unat (drop_bit 7 v) < unat v"
proof -
  assume nz: "drop_bit 7 v \<noteq> 0"
  have e: "unat (drop_bit 7 v) = unat v div 128"
    by (subst unat_drop_bit_eq) (simp add: drop_bit_eq_div)
  have "unat v \<noteq> 0" using nz by (auto simp: unat_eq_0)
  then show ?thesis unfolding e by simp
qed

function encode_uleb :: "u64 \<Rightarrow> bytes" where
  "encode_uleb value =
     (let byte = ucast (value AND 0x7f); value' = drop_bit 7 value
      in if value' = 0 then [byte] else (byte OR 0x80) # encode_uleb value')"
  by pat_completeness auto
termination
  by (relation "measure unat") (auto simp: drop_bit_7_less)

declare encode_uleb.simps [simp del]

definition sleb_measure :: "u64 \<Rightarrow> nat" where
  "sleb_measure v = nat (if 0 \<le> sint v then sint v else - sint v - 1)"

lemma sleb_measure_decreases:
  fixes v :: u64
  assumes "\<not> (signed_drop_bit 7 v = 0 \<and> (ucast (v AND 0x7f) :: u8) AND 0x40 = 0
            \<or> signed_drop_bit 7 v = - 1 \<and> (ucast (v AND 0x7f) :: u8) AND 0x40 \<noteq> 0)"
  shows "sleb_measure (signed_drop_bit 7 v) < sleb_measure v"
proof -
  have "v \<noteq> 0" and "v \<noteq> - 1" using assms by auto
  then have "sint v \<noteq> sint (0 :: u64)" and "sint v \<noteq> sint (- 1 :: u64)"
    by (metis signed_word_eqI)+
  then have ne: "sint v \<noteq> 0" "sint v \<noteq> - 1" by simp_all
  have "sint (signed_drop_bit 7 v) = sint v div 128"
    by (subst sint_signed_drop_bit_eq) (simp add: drop_bit_eq_div)
  then show ?thesis using ne unfolding sleb_measure_def by auto
qed

function encode_sleb :: "u64 \<Rightarrow> bytes" where
  "encode_sleb value =
     (let byte = ucast (value AND 0x7f) :: u8;
          value' = signed_drop_bit 7 value;
          negative = (byte AND 0x40 \<noteq> 0)
      in if (value' = 0 \<and> \<not> negative) \<or> (value' = - 1 \<and> negative) then [byte]
         else (byte OR 0x80) # encode_sleb value')"
  by pat_completeness auto
termination
  by (relation "measure sleb_measure") (simp_all add: sleb_measure_decreases)

declare encode_sleb.simps [simp del]

text \<open>\<open>write_uleb\<close> writes at the start of a slice and returns the length.\<close>

function write_uleb_loop :: "bytes \<Rightarrow> nat \<Rightarrow> u64 \<Rightarrow> (bytes \<times> nat) option" where
  "write_uleb_loop buf i value =
     (let byte = ucast (value AND 0x7f);
          value' = drop_bit 7 value;
          byte' = (if value' \<noteq> 0 then byte OR 0x80 else byte)
      in if i < length buf
         then if value' = 0 then Some (buf[i := byte'], i + 1)
              else write_uleb_loop (buf[i := byte']) (i + 1) value'
         else None)"
  by pat_completeness auto
termination
  by (relation "measure (\<lambda>(buf, i, v). unat v)") (auto simp: drop_bit_7_less)

declare write_uleb_loop.simps [simp del]

definition write_uleb :: "bytes \<Rightarrow> u64 \<Rightarrow> (bytes \<times> nat) option" where
  "write_uleb buf value = write_uleb_loop buf 0 value"

function uleb_size_loop :: "u64 \<Rightarrow> nat \<Rightarrow> nat" where
  "uleb_size_loop value len =
     (if value \<ge> 0x80 then uleb_size_loop (drop_bit 7 value) (len + 1) else len)"
  by pat_completeness auto
termination
proof (relation "measure (\<lambda>(v, len). unat v)")
  fix v :: u64 and len :: nat
  assume "0x80 \<le> v"
  then have "128 \<le> unat v" by (simp add: word_le_nat_alt)
  moreover have "unat (drop_bit 7 v) = unat v div 128"
    by (subst unat_drop_bit_eq) (simp add: drop_bit_eq_div)
  ultimately show "((drop_bit 7 v, len + 1), (v, len)) \<in> measure (\<lambda>(v, len). unat v)"
    by simp
qed simp

declare uleb_size_loop.simps [simp del]

definition uleb_size :: "u64 \<Rightarrow> nat" where
  "uleb_size value = uleb_size_loop value 1"

text \<open>\<open>read_uleb\<close> returns the value and what is left; it panics on truncated input.\<close>

fun read_uleb_loop :: "u64 \<Rightarrow> nat \<Rightarrow> bytes \<Rightarrow> (u64 \<times> bytes) option" where
  "read_uleb_loop value shift [] = None"
| "read_uleb_loop value shift (byte # rest) =
     (let value' = (if shift < 64 then value OR push_bit shift (ucast (byte AND 0x7f)) else value)
      in if byte AND 0x80 = 0 then Some (value', rest)
         else read_uleb_loop value' (shift + 7) rest)"

definition read_uleb :: "bytes \<Rightarrow> (u64 \<times> bytes) option" where
  "read_uleb bs = read_uleb_loop 0 0 bs"

subsection \<open>Text\<close>

definition is_space :: "u8 \<Rightarrow> bool" where
  "is_space c \<longleftrightarrow> c \<in> {0x20, 0x09, 0x0a, 0x0b, 0x0c, 0x0d}"

fun trim_start :: "bytes \<Rightarrow> bytes" where
  "trim_start [] = []"
| "trim_start (c # rest) = (if is_space c then trim_start rest else c # rest)"

function trim_end :: "bytes \<Rightarrow> bytes" where
  "trim_end bs = (if bs \<noteq> [] \<and> is_space (last bs) then trim_end (butlast bs) else bs)"
  by pat_completeness auto
termination
  by (relation "measure length") auto

declare trim_end.simps [simp del]

definition trim_space :: "bytes \<Rightarrow> bytes" where
  "trim_space bs = trim_end (trim_start bs)"

fun split_bytes :: "u8 \<Rightarrow> bytes \<Rightarrow> bytes list" where
  "split_bytes sep [] = [[]]"
| "split_bytes sep (c # cs) =
     (if c = sep then [] # split_bytes sep cs
      else case split_bytes sep cs of [] \<Rightarrow> [[c]] | w # ws \<Rightarrow> (c # w) # ws)"

definition strip_suffix :: "bytes \<Rightarrow> bytes \<Rightarrow> bytes option" where
  "strip_suffix bs suf =
     (if length suf \<le> length bs \<and> drop (length bs - length suf) bs = suf
      then Some (take (length bs - length suf) bs) else None)"

definition unwrap_or :: "'a option \<Rightarrow> 'a \<Rightarrow> 'a" where
  "unwrap_or x d = (case x of None \<Rightarrow> d | Some y \<Rightarrow> y)"

definition lines :: "bytes \<Rightarrow> bytes list" where
  "lines text =
     (let stripped = unwrap_or (strip_suffix text [0x0a]) text;
          ls = (if text = [] then [] else split_bytes 0x0a stripped)
      in map (\<lambda>line. unwrap_or (strip_suffix line [0x0d]) line) ls)"

text \<open>\<open>memchr\<close> is the byte search of the \<^verbatim>\<open>memchr\<close> crate, a parameter.\<close>

definition split_once :: "(u8 \<Rightarrow> bytes \<Rightarrow> nat option) \<Rightarrow> bytes \<Rightarrow> u8 \<Rightarrow> (bytes \<times> bytes) option" where
  "split_once memchr bs sep =
     (case memchr sep bs of None \<Rightarrow> None | Some i \<Rightarrow> Some (take i bs, drop (i + 1) bs))"

subsection \<open>LEB128 round trips\<close>

lemma mask_7f: "(0x7f :: 'a::len word) = mask 7"
  by (simp add: mask_eq_exp_minus_1)

lemma bit_40: "bit (0x40 :: 'a::len word) i \<longleftrightarrow> i = 6 \<and> 6 < LENGTH('a)"
proof -
  have e: "(0x40 :: 'a word) = 2 ^ 6" by simp
  show ?thesis by (simp only: e bit_exp_iff) auto
qed

lemma bit_80: "bit (0x80 :: 'a::len word) i \<longleftrightarrow> i = 7 \<and> 7 < LENGTH('a)"
proof -
  have e: "(0x80 :: 'a word) = 2 ^ 7" by simp
  show ?thesis by (simp only: e bit_exp_iff) auto
qed

lemma bit_40_int: "bit (0x40 :: int) i \<longleftrightarrow> i = 6"
  using bit_exp_iff [where 'a = int, of 6 i] by auto

lemma bit_80_int: "bit (0x80 :: int) i \<longleftrightarrow> i = 7"
  using bit_exp_iff [where 'a = int, of 7 i] by auto

lemmas leb_bits = bit_simps bit_80 bit_40 bit_80_int bit_40_int mask_7f

lemma leb_last_byte: "(ucast (v AND 0x7f :: u64) :: u8) AND 0x80 = 0"
  by (rule bit_word_eqI) (auto simp: leb_bits)

lemma leb_cont_byte: "((b :: u8) OR 0x80) AND 0x80 \<noteq> 0"
proof
  assume "(b OR 0x80) AND 0x80 = 0"
  then have "bit ((b OR 0x80) AND 0x80) 7 = bit (0::u8) 7" by simp
  then show False by (simp add: leb_bits)
qed

lemma leb_payload: "ucast ((ucast (v AND 0x7f :: u64) :: u8) AND 0x7f) = v AND (0x7f :: u64)"
  by (rule bit_word_eqI) (auto simp: leb_bits)

lemma leb_payload_cont: "ucast (((ucast (v AND 0x7f :: u64) :: u8) OR 0x80) AND 0x7f) = v AND (0x7f :: u64)"
  by (rule bit_word_eqI) (auto simp: leb_bits)

lemma leb_join: "push_bit s (v AND 0x7f) OR push_bit (s + 7) (drop_bit 7 v) = push_bit s (v :: u64)"
proof (rule bit_word_eqI)
  fix n :: nat
  have "7 + (n - (s + 7)) = n - s" if "\<not> n < s + 7" using that by simp
  then show "bit (push_bit s (v AND 0x7f) OR push_bit (s + 7) (drop_bit 7 v)) n = bit (push_bit s v) n"
    by (cases "n < s + 7") (auto simp: leb_bits)
qed

lemma drop_bit_7_eq: "unat (drop_bit 7 (v :: u64)) = unat v div 128"
  by (subst unat_drop_bit_eq) (simp add: drop_bit_eq_div)

lemma read_uleb_loop_encode:
  "s < 64 \<Longrightarrow> unat v < 2 ^ (64 - s) \<Longrightarrow>
   read_uleb_loop val s (encode_uleb v @ rest) = Some (val OR push_bit s v, rest)"
proof (induction v arbitrary: val s rule: encode_uleb.induct)
  case (1 v)
  let ?v' = "drop_bit 7 v"
  show ?case
  proof (cases "?v' = 0")
    case True
    have "push_bit s (v AND 0x7f) = push_bit s v"
      using leb_join [of s v] True by simp
    with True "1.prems" show ?thesis
      by (simp add: encode_uleb.simps [of v] leb_last_byte leb_payload)
  next
    case False
    have "0 < unat v div 128" using False drop_bit_7_eq [of v] by (metis neq0_conv unat_eq_0)
    then have "2 ^ 7 \<le> unat v" by simp
    then have "(2::nat) ^ 7 < 2 ^ (64 - s)" using "1.prems" by linarith
    then have s: "s + 7 < 64" by (simp only: power_strict_increasing_iff)
    have "(2::nat) ^ (64 - s) = 2 ^ (64 - (s + 7)) * 2 ^ 7"
      using s by (simp only: power_add [symmetric]) simp
    then have "unat ?v' < 2 ^ (64 - (s + 7))"
      using "1.prems" drop_bit_7_eq [of v] by (simp add: less_mult_imp_div_less)
    from "1.IH" [OF _ refl False s this] False "1.prems" show ?thesis
      by (simp add: encode_uleb.simps [of v] leb_cont_byte leb_payload_cont or.assoc leb_join
          del: push_bit_and)
  qed
qed

lemma read_encode_uleb: "read_uleb (encode_uleb v @ rest) = Some (v, rest)"
proof -
  have "unat v < 2 ^ (64 - 0)" using unsigned_less [of v] by simp
  then show ?thesis by (simp add: read_uleb_def read_uleb_loop_encode)
qed

lemma uleb_size_loop_eq: "uleb_size_loop v n + 1 = n + length (encode_uleb v)"
proof (induction v arbitrary: n rule: encode_uleb.induct)
  case (1 v)
  have ge: "0x80 \<le> v \<longleftrightarrow> drop_bit 7 v \<noteq> 0"
    using drop_bit_7_eq [of v] by (auto simp: word_le_nat_alt unat_eq_0 [symmetric] div_eq_0_iff simp del: unat_eq_0)
  show ?case
  proof (cases "drop_bit 7 v = 0")
    case True
    with ge show ?thesis by (simp add: uleb_size_loop.simps [of v] encode_uleb.simps [of v])
  next
    case False
    with ge "1.IH" [OF _ refl False, of _ "n + 1"] show ?thesis
      by (simp add: uleb_size_loop.simps [of v] encode_uleb.simps [of v])
  qed
qed

lemma uleb_size_eq: "uleb_size v = length (encode_uleb v)"
  using uleb_size_loop_eq [of v 1] by (simp add: uleb_size_def)

lemma write_uleb_loop_eq:
  "write_uleb_loop buf i v =
     map_option (\<lambda>b. (b, i + length (encode_uleb v))) (copy_at buf i (encode_uleb v))"
proof (induction v arbitrary: buf i rule: encode_uleb.induct)
  case (1 v)
  let ?byte = "ucast (v AND 0x7f) :: u8"
  show ?case
  proof (cases "drop_bit 7 v = 0")
    case True
    then show ?thesis
      by (simp add: write_uleb_loop.simps [of buf i v] encode_uleb.simps [of v] copy_at_def
          upd_conv_take_nth_drop)
  next
    case False
    then have w: "write_uleb_loop buf i v =
      (if i < length buf then write_uleb_loop (buf[i := ?byte OR 0x80]) (i + 1) (drop_bit 7 v) else None)"
      by (simp add: write_uleb_loop.simps [of buf i v])
    show ?thesis
      using False
      by (auto simp: w "1.IH" [OF refl refl False] encode_uleb.simps [of v] copy_at_def
          upd_conv_take_nth_drop take_Suc_conv_app_nth add.commute)
  qed
qed

lemma write_uleb_eq:
  "write_uleb buf v = map_option (\<lambda>b. (b, length (encode_uleb v))) (copy_at buf 0 (encode_uleb v))"
  by (simp add: write_uleb_def write_uleb_loop_eq)

text \<open>
  C26. The four unsigned LEB128 routines agree: \<open>read_uleb\<close> takes back exactly what \<open>encode_uleb\<close>
  appends, \<open>uleb_size\<close> is its length, and \<open>write_uleb\<close> puts the same bytes at the start of a slice
  and returns that length, or panics when the slice is shorter.
\<close>

theorem uleb_codec:
  "read_uleb (encode_uleb v @ rest) = Some (v, rest) \<and> uleb_size v = length (encode_uleb v)
   \<and> write_uleb buf v = map_option (\<lambda>b. (b, length (encode_uleb v))) (copy_at buf 0 (encode_uleb v))"
  by (simp add: read_encode_uleb uleb_size_eq write_uleb_eq)

subsection \<open>Rounding\<close>

lemma align_to_next_multiple:
  assumes "k < 64" and "unat v + 2 ^ k \<le> 2 ^ 64"
  shows "unat (align_to v (2 ^ k)) = next_multiple_of (unat v) (2 ^ k)"
proof -
  have p: "unat (2 ^ k :: u64) = 2 ^ k" using assms by simp
  have nz: "(2 ^ k :: u64) \<noteq> 0" using p by (metis power_not_zero unsigned_0 zero_neq_numeral)
  have m: "(2 ^ k :: u64) - 1 = mask k" by (simp add: mask_eq_exp_minus_1)
  have "unat (mask k :: u64) = 2 ^ k - 1"
    by (metis m nz p unat_minus_one)
  moreover have "v + 2 ^ k - 1 = v + mask k" by (simp add: m [symmetric])
  moreover have "unat v + (2 ^ k - 1) < 2 ^ 64"
    using assms(2) zero_less_power [of "2::nat" k] by linarith
  ultimately have u: "unat (v + 2 ^ k - 1) = unat v + 2 ^ k - 1"
    using zero_less_power [of "2::nat" k] by (simp only: unat_word_ariths) simp
  show ?thesis
    using nz u by (simp add: align_to_def m unat_and_not_mask assms next_multiple_of_def)
qed

lemma align_to_props:
  assumes "k < 64" and "unat v + 2 ^ k \<le> 2 ^ 64"
  shows "2 ^ k dvd unat (align_to v (2 ^ k)) \<and> unat v \<le> unat (align_to v (2 ^ k))
    \<and> unat (align_to v (2 ^ k)) < unat v + 2 ^ k"
  using align_to_next_multiple [OF assms] next_multiple_of_bounds [of "2 ^ k" "unat v"]
  by (simp add: next_multiple_of_dvd)

text \<open>
  C27. \<open>align_to_mod val align modulus\<close> is the least value at or above \<open>val\<close> that is congruent to
  \<open>modulus\<close> modulo the power of two \<open>align\<close> (as its comment promises), while nothing overflows.
\<close>

theorem align_to_mod_least:
  assumes k: "k < 64" and v: "unat v + 2 ^ k \<le> 2 ^ 64" and m: "unat m < 2 ^ k"
  shows "unat v \<le> unat (align_to_mod v (2 ^ k) m)
    \<and> unat (align_to_mod v (2 ^ k) m) mod 2 ^ k = unat m
    \<and> (unat v \<le> x \<and> x mod 2 ^ k = unat m \<longrightarrow> unat (align_to_mod v (2 ^ k) m) \<le> x)"
proof (cases "v \<le> m")
  case True
  then show ?thesis using m
    by (auto simp: align_to_mod_def word_le_nat_alt) (metis mod_less_eq_dividend)
next
  case False
  then have lt: "unat m < unat v" by (simp add: word_le_nat_alt)
  have d: "unat (v - m) = unat v - unat m" using lt by (simp add: unat_sub word_le_nat_alt)
  let ?a = "align_to (v - m) (2 ^ k)"
  have b: "unat (v - m) + 2 ^ k \<le> 2 ^ 64" using d v by simp
  have a: "unat ?a = next_multiple_of (unat v - unat m) (2 ^ k)"
    using align_to_next_multiple [OF k b] d by simp
  have bd: "unat v - unat m \<le> unat ?a" "unat ?a < unat v - unat m + 2 ^ k" "2 ^ k dvd unat ?a"
    using align_to_props [OF k b] d by auto
  have sum: "unat (?a + m) = unat ?a + unat m"
    using bd lt v by (simp add: unat_word_ariths)
  have r: "unat (align_to_mod v (2 ^ k) m) = unat ?a + unat m"
    using False sum by (simp add: align_to_mod_def)
  have "unat ?a + unat m \<le> x" if x: "unat v \<le> x" "x mod 2 ^ k = unat m" for x
  proof -
    have "2 ^ k dvd x - unat m" using x(2) by (metis dvd_minus_mod)
    then obtain q where q: "x - unat m = 2 ^ k * q" by blast
    obtain c where c: "unat ?a = 2 ^ k * c" using bd(3) by blast
    have "unat v - unat m \<le> 2 ^ k * q" using x(1) q by simp
    then have "2 ^ k * c < 2 ^ k * q + 2 ^ k" using bd(2) c by linarith
    then have "2 ^ k * c < 2 ^ k * (q + 1)" by simp
    then have "c < q + 1" by (metis mult_less_cancel1)
    then have "c \<le> q" by simp
    then have "2 ^ k * c \<le> 2 ^ k * q" by (rule mult_le_mono2)
    then show ?thesis using q c x(1) lt by linarith
  qed
  moreover have "(unat ?a + unat m) mod 2 ^ k = unat m"
    using bd(3) m by (metis mod_add_left_eq dvd_imp_mod_0 add_0 mod_less)
  ultimately show ?thesis using bd(1) lt by (simp add: r)
qed

lemma align_to_mod_least_witness:
  "unat (100 :: u64) \<le> unat (align_to_mod 100 (2 ^ 4) 5)
    \<and> unat (align_to_mod 100 (2 ^ 4) 5) mod 2 ^ 4 = unat (5 :: u64)
    \<and> unat (align_to_mod 100 (2 ^ 4) 5) \<le> 117"
  using align_to_mod_least [of 4 100 5 117] by simp

subsection \<open>Name sort keys order names\<close>

text \<open>The order of a Rust tuple: its first field, then its second.\<close>

definition key_less :: "u64 \<times> bytes \<Rightarrow> u64 \<times> bytes \<Rightarrow> bool" where
  "key_less a b \<longleftrightarrow> fst a < fst b \<or> fst a = fst b \<and> snd a < snd b"

lemma pad_lex: "(xs :: bytes) < ys \<Longrightarrow> take n xs @ replicate (n - length xs) 0 \<le> take n ys @ replicate (n - length ys) 0"
proof (induction n arbitrary: xs ys)
  case 0
  then show ?case by simp
next
  case (Suc n)
  have nil: "replicate m 0 \<le> (zs :: bytes)" if "length zs = m" for m zs
    using that
  proof (induction m arbitrary: zs)
    case (Suc m)
    then obtain z zs' where "zs = z # zs'" "replicate m 0 \<le> zs'" by (auto simp: length_Suc_conv)
    then show ?case by (cases "z = 0") (auto simp: word_gt_0)
  qed simp
  show ?case
  proof (cases xs)
    case Nil
    have "replicate (Suc n) 0 \<le> take (Suc n) ys @ replicate (Suc n - length ys) 0"
      by (rule nil) simp
    then show ?thesis by (simp only: Nil take_Nil append_Nil list.size diff_zero)
  next
    case (Cons x xs')
    with Suc.prems obtain y ys' where y: "ys = y # ys'" by (cases ys) auto
    show ?thesis
      using Suc.prems Suc.IH [of xs' ys'] by (auto simp: Cons y)
  qed
qed

text \<open>
  C28. Sort keys order names as the names themselves: comparing the pairs \<open>name_sort_key\<close> makes, first
  the integer and then the name, is comparing the names byte by byte, NUL bytes or not.
\<close>

theorem name_sort_key_order: "key_less (name_sort_key a) (name_sort_key b) \<longleftrightarrow> a < b"
proof -
  let ?p = "\<lambda>x :: bytes. take (min (length x) 8) x @ replicate (8 - min (length x) 8) 0"
  let ?q = "\<lambda>x :: bytes. take 8 x @ replicate (8 - length x) 0"
  have pq: "?p x = ?q x" for x :: bytes by (auto simp: min_def)
  have l: "length (?q x) = 8" for x :: bytes by simp
  have v: "unat (from_be (?q x) :: u64) = be_val (?q x)" for x :: bytes
    by (simp add: from_be_def unat_from_le)
  have lt: "from_be (?q x) < (from_be (?q y) :: u64) \<longleftrightarrow> ?q x < ?q y" for x y
    by (simp only: word_less_nat_alt v be_val_lex l)
  have less: "fst (name_sort_key x) < fst (name_sort_key y) \<longleftrightarrow> ?q x < ?q y" for x y
    by (simp only: name_sort_key_def Let_def fst_conv pq lt)
  have eq: "fst (name_sort_key x) = fst (name_sort_key y) \<longleftrightarrow> ?q x = ?q y" for x y
    using less [of x y] less [of y x] by (metis less_irrefl linorder_less_linear)
  have snd: "snd (name_sort_key x) = x" for x by (simp add: name_sort_key_def Let_def)
  show ?thesis
    unfolding key_less_def less eq snd
    using pad_lex [of a b 8] pad_lex [of b a 8] by (metis leD linorder_less_linear order_le_less less_irrefl)
qed

subsection \<open>Lines and white space\<close>

lemma split_bytes_cons: "sep \<notin> set l \<Longrightarrow> split_bytes sep (l @ sep # rest) = l # split_bytes sep rest"
  by (induction l) auto

lemma split_bytes_none: "sep \<notin> set l \<Longrightarrow> split_bytes sep l = [l]"
  by (induction l) auto

lemma strip_suffix_snoc [simp]: "strip_suffix (xs @ suf) suf = Some xs"
  by (simp add: strip_suffix_def)

lemma strip_suffix_one: "strip_suffix bs [c] = (if bs \<noteq> [] \<and> last bs = c then Some (butlast bs) else None)"
  by (cases bs rule: rev_cases) (auto simp: strip_suffix_def)

text \<open>A text file: each line with its own line ending, LF or CR LF.\<close>

definition file_of_lines :: "(bytes \<times> bool) list \<Rightarrow> bytes" where
  "file_of_lines ls = concat (map (\<lambda>(l, crlf). l @ (if crlf then [0x0d] else []) @ [0x0a]) ls)"

lemma split_joined:
  "ls \<noteq> [] \<Longrightarrow> \<forall>l \<in> set ls. sep \<notin> set l \<Longrightarrow>
   split_bytes sep (butlast (concat (map (\<lambda>l. l @ [sep]) ls))) = ls"
proof (induction ls)
  case Nil
  then show ?case by simp
next
  case (Cons l ls)
  show ?case
  proof (cases "ls = []")
    case True
    then show ?thesis using Cons.prems by (simp add: split_bytes_none)
  next
    case False
    then have ne: "concat (map (\<lambda>l. l @ [sep]) ls) \<noteq> []" by (cases ls) auto
    have "butlast (concat (map (\<lambda>l. l @ [sep]) (l # ls))) = l @ sep # butlast (concat (map (\<lambda>l. l @ [sep]) ls))"
      using ne by (simp add: butlast_append)
    then show ?thesis
      using Cons.prems Cons.IH False by (simp only: split_bytes_cons) (auto simp: split_bytes_cons)
  qed
qed

text \<open>
  \<open>lines\<close> recovers the lines of any text file whose lines, ended by LF or CR LF, hold no LF, and
  no final CR before a bare LF.
\<close>

theorem lines_of_file:
  assumes "\<forall>(l, crlf) \<in> set ls. 0x0a \<notin> set l \<and> (crlf \<or> l = [] \<or> last l \<noteq> 0x0d)"
  shows "lines (file_of_lines ls) = map fst ls"
proof (cases "ls = []")
  case True
  then show ?thesis by (simp add: lines_def file_of_lines_def)
next
  case False
  let ?raw = "map (\<lambda>(l, crlf). l @ (if crlf then [0x0d] else [])) ls"
  have f: "file_of_lines ls = concat (map (\<lambda>l. l @ [0x0a]) ?raw)"
    unfolding file_of_lines_def by (rule arg_cong [where f = concat]) (auto split: prod.splits)
  have ne: "file_of_lines ls \<noteq> []" using False by (cases ls) (auto simp: file_of_lines_def)
  have last: "last (file_of_lines ls) = 0x0a"
    using False by (cases ls rule: rev_cases) (auto simp: file_of_lines_def)
  have "\<forall>l \<in> set ?raw. 0x0a \<notin> set l" using assms by auto
  then have s: "split_bytes 0x0a (butlast (file_of_lines ls)) = ?raw"
    unfolding f using False by (intro split_joined) auto
  have "lines (file_of_lines ls) = map (\<lambda>line. unwrap_or (strip_suffix line [0x0d]) line) ?raw"
    using ne last by (simp add: lines_def strip_suffix_one unwrap_or_def s)
  also have "\<dots> = map fst ls"
    unfolding map_map
  proof (rule map_cong [OF refl])
    fix x assume x: "x \<in> set ls"
    obtain l crlf where lc: "x = (l, crlf)" by (cases x)
    with bspec [OF assms x] have "crlf \<or> l = [] \<or> last l \<noteq> 0x0d" by simp
    then show "((\<lambda>line. unwrap_or (strip_suffix line [0x0d]) line) \<circ>
        (\<lambda>(l, crlf). l @ (if crlf then [0x0d] else []))) x = fst x"
      by (cases crlf) (auto simp: lc strip_suffix_one unwrap_or_def)
  qed
  finally show ?thesis .
qed

lemma lines_of_file_witness:
  "lines (file_of_lines [([0x61], False), ([], True), ([0x62, 0x0d], True)]) = [[0x61], [], [0x62, 0x0d]]"
  using lines_of_file [of "[([0x61], False), ([], True), ([0x62, 0x0d], True)]"] by simp

lemma trim_start_alt: "trim_start bs = dropWhile is_space bs"
  by (induction bs) auto

lemma trim_end_alt: "trim_end bs = rev (dropWhile is_space (rev bs))"
proof (induction bs rule: trim_end.induct)
  case (1 bs)
  show ?case
  proof (cases bs rule: rev_cases)
    case Nil
    then show ?thesis by (subst trim_end.simps) simp
  next
    case (snoc ys y)
    with "1" show ?thesis by (subst trim_end.simps) auto
  qed
qed

text \<open>
  \<open>trim_space\<close> cuts white space, and nothing else, off both ends, and leaves none there.
\<close>

theorem trim_space_spec:
  "\<exists>pre post. bs = pre @ trim_space bs @ post \<and> (\<forall>c \<in> set (pre @ post). is_space c)
     \<and> (trim_space bs \<noteq> [] \<longrightarrow> \<not> is_space (hd (trim_space bs)) \<and> \<not> is_space (last (trim_space bs)))"
proof -
  let ?a = "trim_start bs"
  let ?pre = "takeWhile is_space bs"
  let ?post = "rev (takeWhile is_space (rev ?a))"
  have "trim_end ?a @ ?post = ?a"
    by (metis trim_end_alt rev_append rev_rev_ident takeWhile_dropWhile_id)
  moreover have "bs = ?pre @ ?a" by (simp add: trim_start_alt)
  ultimately have "bs = ?pre @ trim_space bs @ ?post" by (simp add: trim_space_def)
  moreover have "\<forall>c \<in> set (?pre @ ?post). is_space c" by (auto dest: set_takeWhileD)
  moreover have "\<not> is_space (last (trim_space bs))" if "trim_space bs \<noteq> []"
    using that by (simp add: trim_space_def trim_end_alt last_rev hd_dropWhile)
  moreover have "\<not> is_space (hd (trim_space bs))" if ne: "trim_space bs \<noteq> []"
  proof -
    have "?a \<noteq> []" using ne by (auto simp: trim_space_def trim_end_alt)
    then have "\<not> is_space (hd ?a)" by (simp add: trim_start_alt hd_dropWhile)
    moreover have "hd (trim_space bs) = hd ?a"
      using ne \<open>trim_end ?a @ ?post = ?a\<close> by (metis hd_append2 trim_space_def)
    ultimately show ?thesis by simp
  qed
  ultimately show ?thesis by blast
qed

subsection \<open>Self-delimiting encodings\<close>

text \<open>
  The interface of an encoding read back from the front of a byte string: what a client that writes
  records one after another, and a reader that takes them off again, rely on.
\<close>

fun decode_many :: "(bytes \<Rightarrow> ('a \<times> bytes) option) \<Rightarrow> nat \<Rightarrow> bytes \<Rightarrow> ('a list \<times> bytes) option" where
  "decode_many dec 0 bs = Some ([], bs)"
| "decode_many dec (Suc n) bs =
     (case dec bs of None \<Rightarrow> None
      | Some (x, rest) \<Rightarrow> map_option (\<lambda>(xs, r). (x # xs, r)) (decode_many dec n rest))"

locale codec =
  fixes enc :: "'a \<Rightarrow> bytes" and dec :: "bytes \<Rightarrow> ('a \<times> bytes) option" and valid :: "'a \<Rightarrow> bool"
  assumes dec_enc: "valid x \<Longrightarrow> dec (enc x @ rest) = Some (x, rest)"
begin

lemma enc_prefix_free: "valid x \<Longrightarrow> valid y \<Longrightarrow> enc x @ r = enc y @ s \<Longrightarrow> x = y \<and> r = s"
  using dec_enc [of x r] dec_enc [of y s] by (metis option.inject prod.inject)

lemma enc_inj: "valid x \<Longrightarrow> valid y \<Longrightarrow> enc x = enc y \<Longrightarrow> x = y"
  using enc_prefix_free [of x y "[]" "[]"] by blast

lemma decode_many_enc:
  "\<forall>x \<in> set xs. valid x \<Longrightarrow> decode_many dec (length xs) (concat (map enc xs) @ rest) = Some (xs, rest)"
  by (induction xs) (simp_all add: dec_enc)

lemma concat_enc_inj:
  "\<forall>x \<in> set xs. valid x \<Longrightarrow> \<forall>y \<in> set ys. valid y \<Longrightarrow> length xs = length ys \<Longrightarrow>
   concat (map enc xs) = concat (map enc ys) \<Longrightarrow> xs = ys"
  using decode_many_enc [of xs "[]"] decode_many_enc [of ys "[]"] by (metis option.inject prod.inject)

end

text \<open>The providers: LEB128 and the fixed-width little-endian integers.\<close>

definition take_le :: "nat \<Rightarrow> bytes \<Rightarrow> ('a::len word \<times> bytes) option" where
  "take_le n bs = (if n \<le> length bs then Some (from_le (take n bs), drop n bs) else None)"

interpretation uleb: codec encode_uleb read_uleb "\<lambda>_. True"
  by unfold_locales (rule read_encode_uleb)

interpretation le16: codec "le_bytes 2" "take_le 2 :: bytes \<Rightarrow> (u16 \<times> bytes) option" "\<lambda>_. True"
  by unfold_locales (simp add: take_le_def)

interpretation le32: codec "le_bytes 4" "take_le 4 :: bytes \<Rightarrow> (u32 \<times> bytes) option" "\<lambda>_. True"
  by unfold_locales (simp add: take_le_def)

interpretation le64: codec "le_bytes 8" "take_le 8 :: bytes \<Rightarrow> (u64 \<times> bytes) option" "\<lambda>_. True"
  by unfold_locales (simp add: take_le_def)

subsection \<open>Readers move on\<close>

lemma map_option_as_bind: "map_option f m = Option.bind m (\<lambda>x. Some (f x))"
  by (cases m) auto

lemma read_uleb_loop_shorter: "read_uleb_loop v sh bs = Some (w, rest) \<Longrightarrow> length rest < length bs"
proof (induction bs arbitrary: v sh)
  case (Cons b bs)
  then show ?case by (fastforce simp: Let_def split: if_splits)
qed simp

lemma read_uleb_shorter: "read_uleb bs = Some (w, rest) \<Longrightarrow> length rest < length bs"
  unfolding read_uleb_def by (rule read_uleb_loop_shorter)

text \<open>A NUL-terminated string at the front.\<close>

fun read_cstr :: "bytes \<Rightarrow> (bytes \<times> bytes) option" where
  "read_cstr [] = None"
| "read_cstr (b # bs) = (if b = 0 then Some ([], bs) else map_option (\<lambda>(s, rest). (b # s, rest)) (read_cstr bs))"

lemma read_cstr_shorter: "read_cstr bs = Some (s, rest) \<Longrightarrow> length rest < length bs"
  by (induction bs arbitrary: s) (fastforce split: if_splits)+

lemma read_cstr_append: "0 \<notin> set s \<Longrightarrow> read_cstr (s @ 0 # rest) = Some (s, rest)"
  by (induction s) auto

end
