(* ===== verification/Hashes.thy ===== *)
theory Hashes
  imports Util
begin

unbundle bit_operations_syntax

section \<open>SipHash and CityHash\<close>

text \<open>
  \<^verbatim>\<open>macho/util/siphash.rs\<close>: the configurable SipHash the linker hashes sections with, as a record
  updated by each method, proved equal to hashing the whole message at once however it is fed in.
  \<^verbatim>\<open>macho/util/cityhash.rs\<close>: libc++'s string hash, with every slice access checked; it never goes out
  of range.
\<close>

subsection \<open>\<open>as_chunks\<close> of a slice\<close>

function as_chunks :: "nat \<Rightarrow> 'a list \<Rightarrow> 'a list list \<times> 'a list" where
  "as_chunks n xs =
     (if n = 0 \<or> length xs < n then ([], xs)
      else (take n xs # fst (as_chunks n (drop n xs)), snd (as_chunks n (drop n xs))))"
  by pat_completeness auto
termination
  by (relation "measure (\<lambda>(n, xs). length xs)") auto

declare as_chunks.simps [simp del]

lemma as_chunks_short: "length xs < n \<Longrightarrow> as_chunks n xs = ([], xs)"
  by (simp add: as_chunks.simps)

lemma as_chunks_cons: "0 < n \<Longrightarrow> length xs = n \<Longrightarrow>
   as_chunks n (xs @ ys) = (xs # fst (as_chunks n ys), snd (as_chunks n ys))"
  by (subst as_chunks.simps) simp

lemma as_chunks_append:
  "as_chunks n (xs @ ys) =
     (fst (as_chunks n xs) @ fst (as_chunks n (snd (as_chunks n xs) @ ys)), snd (as_chunks n (snd (as_chunks n xs) @ ys)))"
proof (induction n xs rule: as_chunks.induct)
  case (1 n xs)
  show ?case
  proof (cases "n = 0 \<or> length xs < n")
    case True
    then show ?thesis by (simp add: as_chunks.simps [of n xs])
  next
    case False
    have "as_chunks n (xs @ ys) = as_chunks n (take n xs @ (drop n xs @ ys))"
      by (metis append_assoc append_take_drop_id)
    also have "\<dots> = (take n xs # fst (as_chunks n (drop n xs @ ys)), snd (as_chunks n (drop n xs @ ys)))"
      using False by (intro as_chunks_cons) auto
    finally show ?thesis
      using 1 [OF False] False by (simp add: as_chunks.simps [of n xs])
  qed
qed

lemma as_chunks_rest: "0 < n \<Longrightarrow> length (snd (as_chunks n xs)) = length xs mod n"
proof (induction n xs rule: as_chunks.induct)
  case (1 n xs)
  then show ?case
    by (cases "length xs < n") (auto simp: as_chunks.simps [of n xs] le_mod_geq not_less)
qed

lemma as_chunks_sizes: "c \<in> set (fst (as_chunks n xs)) \<Longrightarrow> length c = n"
proof (induction n xs rule: as_chunks.induct)
  case (1 n xs)
  then show ?case
    by (cases "n = 0 \<or> length xs < n") (auto simp: as_chunks.simps [of n xs])
qed

subsection \<open>SipHash\<close>

record hasher =
  v0 :: u64
  v1 :: u64
  v2 :: u64
  v3 :: u64
  buf :: bytes
  buflen :: u8
  sip_sum :: u8

definition sip_new :: "nat \<Rightarrow> bytes \<Rightarrow> hasher" where
  "sip_new outlen key =
     (let k0 = from_le (take 8 key); k1 = from_le (drop 8 key);
          h = \<lparr>v0 = 0x736f6d6570736575 XOR k0, v1 = 0x646f72616e646f6d XOR k1,
               v2 = 0x6c7967656e657261 XOR k0, v3 = 0x7465646279746573 XOR k1,
               buf = replicate 8 0, buflen = 0, sip_sum = 0\<rparr>
      in if outlen = 128 then h\<lparr>v1 := v1 h XOR 0xee\<rparr> else h)"

definition sip_round :: "hasher \<Rightarrow> hasher" where
  "sip_round h =
     (let h = h\<lparr>v0 := v0 h + v1 h\<rparr>;
          h = h\<lparr>v1 := word_rotl 13 (v1 h)\<rparr>;
          h = h\<lparr>v1 := v1 h XOR v0 h\<rparr>;
          h = h\<lparr>v0 := word_rotl 32 (v0 h)\<rparr>;
          h = h\<lparr>v2 := v2 h + v3 h\<rparr>;
          h = h\<lparr>v3 := word_rotl 16 (v3 h)\<rparr>;
          h = h\<lparr>v3 := v3 h XOR v2 h\<rparr>;
          h = h\<lparr>v0 := v0 h + v3 h\<rparr>;
          h = h\<lparr>v3 := word_rotl 21 (v3 h)\<rparr>;
          h = h\<lparr>v3 := v3 h XOR v0 h\<rparr>;
          h = h\<lparr>v2 := v2 h + v1 h\<rparr>;
          h = h\<lparr>v1 := word_rotl 17 (v1 h)\<rparr>;
          h = h\<lparr>v1 := v1 h XOR v2 h\<rparr>;
          h = h\<lparr>v2 := word_rotl 32 (v2 h)\<rparr>
      in h)"

definition sip_compress :: "nat \<Rightarrow> u64 \<Rightarrow> hasher \<Rightarrow> hasher" where
  "sip_compress c_rounds m h =
     (let h = h\<lparr>v3 := v3 h XOR m\<rparr>; h = (sip_round ^^ c_rounds) h in h\<lparr>v0 := v0 h XOR m\<rparr>)"

definition sip_finalize :: "nat \<Rightarrow> hasher \<Rightarrow> hasher" where
  "sip_finalize d_rounds h = (sip_round ^^ d_rounds) h"

text \<open>The part of \<open>update\<close> after the partial buffer is empty.\<close>

definition sip_words :: "nat \<Rightarrow> bytes \<Rightarrow> hasher \<Rightarrow> hasher" where
  "sip_words c_rounds msg h =
     (let (ws, rest) = as_chunks 8 msg;
          h = fold (\<lambda>w. sip_compress c_rounds (from_le w)) ws h
      in h\<lparr>buf := rest @ drop (length rest) (buf h), buflen := of_nat (length rest)\<rparr>)"

definition sip_update :: "nat \<Rightarrow> bytes \<Rightarrow> hasher \<Rightarrow> hasher" where
  "sip_update c_rounds msg h0 =
     (let h = h0\<lparr>sip_sum := sip_sum h0 + of_nat (length msg)\<rparr>
      in if buflen h \<noteq> 0 then
           let n0 = unat (buflen h)
           in if n0 + length msg < 8 then
                h\<lparr>buf := take n0 (buf h) @ msg @ drop (n0 + length msg) (buf h),
                  buflen := buflen h + of_nat (length msg)\<rparr>
              else
                let n = 8 - n0;
                    h = h\<lparr>buf := take n0 (buf h) @ take n msg\<rparr>;
                    h = sip_compress c_rounds (from_le (buf h)) h
                in sip_words c_rounds (drop n msg) (h\<lparr>buflen := 0\<rparr>)
         else sip_words c_rounds msg h)"

definition sip_update_u64 :: "nat \<Rightarrow> u64 \<Rightarrow> hasher \<Rightarrow> hasher" where
  "sip_update_u64 c_rounds word h =
     (if buflen h \<noteq> 0 then sip_update c_rounds (le_bytes 8 word) h
      else sip_compress c_rounds word (h\<lparr>sip_sum := sip_sum h + 8\<rparr>))"

definition sip_digest :: "hasher \<Rightarrow> bytes" where
  "sip_digest h = le_bytes 8 (v0 h XOR v1 h XOR v2 h XOR v3 h)"

text \<open>\<open>finish\<close> into a buffer of \<open>outsize\<close> bytes; the assertion on its size is the \<open>None\<close>.\<close>

definition sip_finish :: "nat \<Rightarrow> nat \<Rightarrow> nat \<Rightarrow> nat \<Rightarrow> hasher \<Rightarrow> bytes option" where
  "sip_finish c_rounds d_rounds outlen outsize h =
     (if outsize * 8 \<noteq> outlen then None
      else
        let h = h\<lparr>buf := take (unat (buflen h)) (buf h) @ replicate (length (buf h) - unat (buflen h)) 0\<rparr>;
            h = sip_compress c_rounds (push_bit 56 (ucast (sip_sum h)) OR from_le (buf h)) h;
            h = h\<lparr>v2 := v2 h XOR (if outlen = 128 then 0xee else 0xff)\<rparr>;
            h = sip_finalize d_rounds h;
            out = sip_digest h
        in if outlen = 128 then
             let h = h\<lparr>v1 := v1 h XOR 0xdd\<rparr>; h = sip_finalize d_rounds h in Some (out @ sip_digest h)
           else Some out)"

subsection \<open>Hashing in pieces\<close>

text \<open>
  The reference: the message's whole words, then one word of what is left over, zero padded, with
  the length's low byte on top.
\<close>

definition sip_reference :: "nat \<Rightarrow> nat \<Rightarrow> nat \<Rightarrow> bytes \<Rightarrow> bytes \<Rightarrow> bytes" where
  "sip_reference c_rounds d_rounds outlen key data =
     (let (ws, rest) = as_chunks 8 data;
          h = fold (\<lambda>w. sip_compress c_rounds (from_le w)) ws (sip_new outlen key);
          h = sip_compress c_rounds
                (push_bit 56 (of_nat (length data mod 256)) OR from_le (rest @ replicate (8 - length rest) 0)) h;
          h = sip_finalize d_rounds (h\<lparr>v2 := v2 h XOR (if outlen = 128 then 0xee else 0xff)\<rparr>)
      in if outlen = 128 then sip_digest h @ sip_digest (sip_finalize d_rounds (h\<lparr>v1 := v1 h XOR 0xdd\<rparr>))
         else sip_digest h)"

text \<open>One call of a client of the hasher.\<close>

datatype sip_op = Update bytes | UpdateU64 u64

fun sip_apply :: "nat \<Rightarrow> sip_op \<Rightarrow> hasher \<Rightarrow> hasher" where
  "sip_apply c_rounds (Update msg) h = sip_update c_rounds msg h"
| "sip_apply c_rounds (UpdateU64 w) h = sip_update_u64 c_rounds w h"

fun op_bytes :: "sip_op \<Rightarrow> bytes" where
  "op_bytes (Update msg) = msg"
| "op_bytes (UpdateU64 w) = le_bytes 8 w"

text \<open>The four words of the state do not depend on the buffer, the length or the sum.\<close>

definition core :: "hasher \<Rightarrow> u64 \<times> u64 \<times> u64 \<times> u64" where
  "core h = (v0 h, v1 h, v2 h, v3 h)"

definition with_buf :: "bytes \<Rightarrow> u8 \<Rightarrow> u8 \<Rightarrow> hasher \<Rightarrow> hasher" where
  "with_buf b l s h = h\<lparr>buf := b, buflen := l, sip_sum := s\<rparr>"

lemma with_buf_sel [simp]:
  "buf (with_buf b l s h) = b" "buflen (with_buf b l s h) = l" "sip_sum (with_buf b l s h) = s"
  "with_buf b l s (with_buf b' l' s' h) = with_buf b l s h"
  "with_buf b l s h\<lparr>buf := b2\<rparr> = with_buf b2 l s h"
  "with_buf b l s h\<lparr>buflen := l2\<rparr> = with_buf b l2 s h"
  "with_buf b l s h\<lparr>sip_sum := s2\<rparr> = with_buf b l s2 h"
  by (simp_all add: with_buf_def)

lemma with_buf_self: "h = with_buf (buf h) (buflen h) (sip_sum h) h"
  by (simp add: with_buf_def)

lemma round_with_buf: "sip_round (with_buf b l s h) = with_buf b l s (sip_round h)"
  by (simp add: sip_round_def Let_def with_buf_def)

lemma rounds_with_buf: "(sip_round ^^ k) (with_buf b l s h) = with_buf b l s ((sip_round ^^ k) h)"
  by (induction k) (simp_all add: round_with_buf)

lemma compress_with_buf [simp]: "sip_compress c m (with_buf b l s h) = with_buf b l s (sip_compress c m h)"
proof -
  have "with_buf b l s h\<lparr>v3 := x\<rparr> = with_buf b l s (h\<lparr>v3 := x\<rparr>)" for x by (simp add: with_buf_def)
  moreover have "with_buf b l s g\<lparr>v0 := x\<rparr> = with_buf b l s (g\<lparr>v0 := x\<rparr>)" for x g by (simp add: with_buf_def)
  moreover have "v0 (with_buf b l s g) = v0 g" "v3 (with_buf b l s g) = v3 g" for g by (simp_all add: with_buf_def)
  ultimately show ?thesis by (simp add: sip_compress_def Let_def rounds_with_buf)
qed

lemma fold_compress_with_buf [simp]:
  "fold (\<lambda>w. sip_compress c (from_le w)) ws (with_buf b l s h) =
   with_buf b l s (fold (\<lambda>w. sip_compress c (from_le w)) ws h)"
  by (induction ws arbitrary: h) simp_all

text \<open>The state after the message \<open>data\<close>, up to the stale bytes of the buffer.\<close>

definition sip_holds :: "nat \<Rightarrow> nat \<Rightarrow> bytes \<Rightarrow> bytes \<Rightarrow> hasher \<Rightarrow> bool" where
  "sip_holds c outlen key data h \<longleftrightarrow>
     (\<exists>junk. length (snd (as_chunks 8 data) @ junk) = 8
        \<and> h = with_buf (snd (as_chunks 8 data) @ junk) (of_nat (length (snd (as_chunks 8 data))))
              (of_nat (length data))
              (fold (\<lambda>w. sip_compress c (from_le w)) (fst (as_chunks 8 data)) (sip_new outlen key)))"

lemma sip_holds_new: "sip_holds c outlen key [] (sip_new outlen key)"
proof -
  have "sip_new outlen key = with_buf (replicate 8 0) 0 0 (sip_new outlen key)"
    by (simp add: sip_new_def with_buf_def Let_def)
  then show ?thesis by (auto simp: sip_holds_def as_chunks_short intro!: exI [of _ "replicate 8 0"])
qed

lemma sip_words_holds:
  assumes "length b = 8"
  shows "\<exists>junk. length (snd (as_chunks 8 msg) @ junk) = 8 \<and>
     sip_words c msg (with_buf b l s h) =
       with_buf (snd (as_chunks 8 msg) @ junk) (of_nat (length (snd (as_chunks 8 msg)))) s
         (fold (\<lambda>w. sip_compress c (from_le w)) (fst (as_chunks 8 msg)) h)"
proof -
  have "length (snd (as_chunks 8 msg)) < 8" by (simp add: as_chunks_rest)
  then show ?thesis
    using assms by (auto simp: sip_words_def Let_def case_prod_unfold
        intro!: exI [of _ "drop (length (snd (as_chunks 8 msg))) b"])
qed

lemma sip_update_holds:
  assumes "sip_holds c outlen key data h"
  shows "sip_holds c outlen key (data @ msg) (sip_update c msg h)"
proof -
  define rest where "rest = snd (as_chunks 8 data)"
  define g where "g = fold (\<lambda>w. sip_compress c (from_le w)) (fst (as_chunks 8 data)) (sip_new outlen key)"
  obtain junk where junk: "length (rest @ junk) = 8"
    and h: "h = with_buf (rest @ junk) (of_nat (length rest)) (of_nat (length data)) g"
    using assms by (auto simp: sip_holds_def rest_def g_def)
  have small: "length rest < 8" by (simp add: rest_def as_chunks_rest)
  then have len: "unat (of_nat (length rest) :: u8) = length rest"
    by (simp add: unat_of_nat take_bit_nat_eq_self)
  have nz: "(of_nat (length rest) :: u8) \<noteq> 0 \<longleftrightarrow> rest \<noteq> []"
    using len by (simp only: unat_eq_zero [symmetric]) simp
  have all: "as_chunks 8 (data @ msg) =
      (fst (as_chunks 8 data) @ fst (as_chunks 8 (rest @ msg)), snd (as_chunks 8 (rest @ msg)))"
    unfolding rest_def by (rule as_chunks_append)
  have goal: "sip_holds c outlen key (data @ msg) x \<longleftrightarrow>
      (\<exists>junk. length (snd (as_chunks 8 (rest @ msg)) @ junk) = 8 \<and>
        x = with_buf (snd (as_chunks 8 (rest @ msg)) @ junk) (of_nat (length (snd (as_chunks 8 (rest @ msg)))))
             (of_nat (length data) + of_nat (length msg))
             (fold (\<lambda>w. sip_compress c (from_le w)) (fst (as_chunks 8 (rest @ msg))) g))" for x
    by (simp add: sip_holds_def all g_def)
  show ?thesis
  proof (cases "rest = []")
    case True
    then have "sip_update c msg h =
        sip_words c msg (with_buf (rest @ junk) 0 (of_nat (length data) + of_nat (length msg)) g)"
      by (simp add: sip_update_def h Let_def)
    with sip_words_holds [OF junk] True show ?thesis unfolding goal by simp
  next
    case ne: False
    show ?thesis
    proof (cases "length rest + length msg < 8")
      case True
      then have "sip_update c msg h = with_buf ((rest @ msg) @ drop (length msg) junk)
          (of_nat (length (rest @ msg))) (of_nat (length data) + of_nat (length msg)) g"
        using ne nz len by (simp add: sip_update_def h Let_def)
      moreover have "length ((rest @ msg) @ drop (length msg) junk) = 8" using True junk by simp
      moreover have "as_chunks 8 (rest @ msg) = ([], rest @ msg)" using True by (simp add: as_chunks_short)
      ultimately show ?thesis
        unfolding goal by (intro exI [of _ "drop (length msg) junk"]) simp
    next
      case False
      let ?n = "8 - length rest"
      let ?w = "rest @ take ?n msg"
      have w: "length ?w = 8" using False small by simp
      have ch: "as_chunks 8 (rest @ msg) = (?w # fst (as_chunks 8 (drop ?n msg)), snd (as_chunks 8 (drop ?n msg)))"
        using as_chunks_cons [OF _ w, of "drop ?n msg"] by simp
      have "sip_update c msg h = sip_words c (drop ?n msg)
          (with_buf ?w 0 (of_nat (length data) + of_nat (length msg)) (sip_compress c (from_le ?w) g))"
        using ne nz len False by (simp add: sip_update_def h Let_def)
      with sip_words_holds [OF w] ch show ?thesis unfolding goal by simp
    qed
  qed
qed

lemma sip_update_u64_holds:
  assumes "sip_holds c outlen key data h"
  shows "sip_holds c outlen key (data @ le_bytes 8 w) (sip_update_u64 c w h)"
proof (cases "buflen h = 0")
  case False
  with sip_update_holds [OF assms] show ?thesis by (simp add: sip_update_u64_def)
next
  case True
  have one: "as_chunks 8 (le_bytes 8 w) = ([le_bytes 8 w], [])"
    using as_chunks_cons [of 8 "le_bytes 8 w" "[]"] by (simp add: as_chunks_short)
  obtain b s g where h: "h = with_buf b 0 s g" using True with_buf_self [of h] by metis
  have "sip_update_u64 c w h = sip_update c (le_bytes 8 w) h"
    by (simp add: h sip_update_u64_def sip_update_def sip_words_def one)
  with sip_update_holds [OF assms] show ?thesis by simp
qed

lemma sip_ops_holds:
  "sip_holds c outlen key data h \<Longrightarrow>
   sip_holds c outlen key (data @ concat (map op_bytes ops)) (fold (sip_apply c) ops h)"
proof (induction ops arbitrary: data h)
  case Nil
  then show ?case by simp
next
  case (Cons op ops)
  have "sip_holds c outlen key (data @ op_bytes op) (sip_apply c op h)"
    using Cons.prems by (cases op) (simp_all add: sip_update_holds sip_update_u64_holds)
  from Cons.IH [OF this] show ?case by simp
qed

text \<open>
  C25. However a client cuts a message into \<open>update\<close> and \<open>update_u64\<close> calls, \<open>finish\<close> gives the digest
  of the whole message.
\<close>

theorem siphash_streaming:
  "sip_finish c_rounds d_rounds (8 * outsize) outsize (fold (sip_apply c_rounds) ops (sip_new (8 * outsize) key))
   = Some (sip_reference c_rounds d_rounds (8 * outsize) key (concat (map op_bytes ops)))"
proof -
  let ?data = "concat (map op_bytes ops)"
  let ?rest = "snd (as_chunks 8 ?data)"
  let ?g = "fold (\<lambda>w. sip_compress c_rounds (from_le w)) (fst (as_chunks 8 ?data)) (sip_new (8 * outsize) key)"
  obtain junk where junk: "length (?rest @ junk) = 8"
    and h: "fold (sip_apply c_rounds) ops (sip_new (8 * outsize) key) =
      with_buf (?rest @ junk) (of_nat (length ?rest)) (of_nat (length ?data)) ?g"
    using sip_ops_holds [OF sip_holds_new, of c_rounds "8 * outsize" key ops] by (auto simp: sip_holds_def)
  have small: "length ?rest < 8" by (simp add: as_chunks_rest)
  then have len: "unat (of_nat (length ?rest) :: u8) = length ?rest"
    by (simp add: unat_of_nat take_bit_nat_eq_self)
  have sum: "ucast (of_nat (length ?data) :: u8) = (of_nat (length ?data mod 256) :: u64)"
    by (rule word_unat_eq_iff [THEN iffD2]) (simp add: unat_ucast_u8 unat_of_nat take_bit_eq_mod)
  have jl: "length junk = 8 - length ?rest" using junk by simp
  have fin: "(sip_round ^^ k) (with_buf b l s x) = with_buf b l s ((sip_round ^^ k) x)" for k b l s x
    by (rule rounds_with_buf)
  have sel: "with_buf b l s x\<lparr>v2 := y\<rparr> = with_buf b l s (x\<lparr>v2 := y\<rparr>)"
    "with_buf b l s x\<lparr>v1 := y\<rparr> = with_buf b l s (x\<lparr>v1 := y\<rparr>)"
    "v0 (with_buf b l s x) = v0 x" "v1 (with_buf b l s x) = v1 x"
    "v2 (with_buf b l s x) = v2 x" "v3 (with_buf b l s x) = v3 x" for b l s x y
    by (simp_all add: with_buf_def)
  show ?thesis
    unfolding h sip_finish_def sip_reference_def Let_def case_prod_unfold
    by (simp add: len jl sum sel fin sip_finalize_def sip_digest_def)
qed

subsection \<open>CityHash\<close>

definition K0 :: u64 where "K0 = 0xc3a5c85c97cb3127"
definition K1 :: u64 where "K1 = 0xb492b66fbe98f273"
definition K2 :: u64 where "K2 = 0x9ae16a3b2f90404f"
definition K3 :: u64 where "K3 = 0xc949d7c7509e6557"

definition load64 :: "bytes \<Rightarrow> nat \<Rightarrow> u64 option" where
  "load64 s at = map_option from_le (slice_at s at 8)"

definition load32 :: "bytes \<Rightarrow> nat \<Rightarrow> u32 option" where
  "load32 s at = map_option from_le (slice_at s at 4)"

definition shift_mix :: "u64 \<Rightarrow> u64" where
  "shift_mix val = val XOR drop_bit 47 val"

definition hash_len_16 :: "u64 \<Rightarrow> u64 \<Rightarrow> u64" where
  "hash_len_16 u v =
     (let mul = 0x9ddfea08eb382d69;
          a = (u XOR v) * mul; a = a XOR drop_bit 47 a;
          b = (v XOR a) * mul; b = b XOR drop_bit 47 b
      in b * mul)"

definition hash_len_0_to_16 :: "bytes \<Rightarrow> u64 option" where
  "hash_len_0_to_16 s =
     (let len = length s in
      if 8 < len then
        do { a \<leftarrow> load64 s 0; b \<leftarrow> load64 s (len - 8);
             Some (hash_len_16 a (word_rotr len (b + of_nat len)) XOR b) }
      else if 4 \<le> len then
        do { a \<leftarrow> load32 s 0; b \<leftarrow> load32 s (len - 4);
             Some (hash_len_16 (of_nat len + ucast (push_bit 3 a)) (ucast b)) }
      else if 0 < len then
        do { a \<leftarrow> nth_opt s 0; b \<leftarrow> nth_opt s (len div 2); c \<leftarrow> nth_opt s (len - 1);
             let y = (ucast a :: u32) + push_bit 8 (ucast b);
                 z = (of_nat len :: u32) + push_bit 2 (ucast c)
             in Some (shift_mix (ucast y * K2 XOR ucast z * K3) * K2) }
      else Some K2)"

definition hash_len_17_to_32 :: "bytes \<Rightarrow> u64 option" where
  "hash_len_17_to_32 s =
     (let len = length s in
      do { a0 \<leftarrow> load64 s 0; let a = a0 * K1 in
      do { b \<leftarrow> load64 s 8; c0 \<leftarrow> load64 s (len - 8); d0 \<leftarrow> load64 s (len - 16);
           let c = c0 * K2; d = d0 * K0
           in Some (hash_len_16 (word_rotr 43 (a - b) + word_rotr 30 c + d)
                (a + word_rotr 20 (b XOR K3) - c + of_nat len)) } })"

definition weak_hash_len_32_with_seeds :: "bytes \<Rightarrow> u64 \<Rightarrow> u64 \<Rightarrow> (u64 \<times> u64) option" where
  "weak_hash_len_32_with_seeds s a b =
     do { w \<leftarrow> load64 s 0; x \<leftarrow> load64 s 8; y \<leftarrow> load64 s 16; z \<leftarrow> load64 s 24;
          let a = a + w;
              b = word_rotr 21 (b + a + z);
              c = a;
              a = a + x + y;
              b = b + word_rotr 44 a
          in Some (a + z, b + c) }"

definition hash_len_33_to_64 :: "bytes \<Rightarrow> u64 option" where
  "hash_len_33_to_64 s =
     (let len = length s in
      do { z \<leftarrow> load64 s 24; s0 \<leftarrow> load64 s 0; e16 \<leftarrow> load64 s (len - 16);
           s8 \<leftarrow> load64 s 8; s16 \<leftarrow> load64 s 16;
           e32 \<leftarrow> load64 s (len - 32); e8 \<leftarrow> load64 s (len - 8); e24 \<leftarrow> load64 s (len - 24);
           let a = s0 + (of_nat len + e16) * K0;
               b = word_rotr 52 (a + z);
               c = word_rotr 37 a;
               a = a + s8;
               c = c + word_rotr 7 a;
               a = a + s16;
               vf = a + z;
               vs = b + word_rotr 31 a + c;
               a = s16 + e32;
               z = z + e8;
               b = word_rotr 52 (a + z);
               c = word_rotr 37 a;
               a = a + e24;
               c = c + word_rotr 7 a;
               a = a + e16;
               wf = a + z;
               ws = b + word_rotr 31 a + c;
               r = shift_mix ((vf + ws) * K2 + (wf + vs) * K0)
           in Some (shift_mix (r * K0 + vs) * K2) })"

type_synonym city_state = "(u64 \<times> u64) \<times> (u64 \<times> u64) \<times> u64 \<times> u64 \<times> u64"

text \<open>One 64-byte chunk of a long string, over the state \<open>(v, w, x, y, z)\<close>.\<close>

definition city_chunk :: "bytes \<Rightarrow> city_state \<Rightarrow> city_state option" where
  "city_chunk c = (\<lambda>((v0, v1), (w0, w1), x, y, z).
     do { c8 \<leftarrow> load64 c 8; c48 \<leftarrow> load64 c 48; c40 \<leftarrow> load64 c 40; c16 \<leftarrow> load64 c 16;
          let x = word_rotr 37 (x + y + v0 + c8) * K1;
              y = word_rotr 42 (y + v1 + c48) * K1;
              x = x XOR w1;
              y = y + v0 + c40;
              z = word_rotr 33 (z + w0) * K1
          in do { v \<leftarrow> weak_hash_len_32_with_seeds c (v1 * K1) (x + w0);
                  let seed = y + c16 in
                  do { tail \<leftarrow> slice_at c 32 (length c - 32);
                       w \<leftarrow> weak_hash_len_32_with_seeds tail (z + w1) seed;
                       Some (v, w, z, y, x) } } })"

fun city_chunks :: "bytes list \<Rightarrow> city_state \<Rightarrow> city_state option" where
  "city_chunks [] st = Some st"
| "city_chunks (c # cs) st = do { st' \<leftarrow> city_chunk c st; city_chunks cs st' }"

definition city_hash :: "bytes \<Rightarrow> u64 option" where
  "city_hash s =
     (let len = length s in
      if len \<le> 16 then hash_len_0_to_16 s
      else if len \<le> 32 then hash_len_17_to_32 s
      else if len \<le> 64 then hash_len_33_to_64 s
      else
        do { let n = of_nat len in
        do { x \<leftarrow> load64 s (len - 40); e16 \<leftarrow> load64 s (len - 16); e56 \<leftarrow> load64 s (len - 56);
             e48 \<leftarrow> load64 s (len - 48); e24 \<leftarrow> load64 s (len - 24);
             let y = e16 + e56; z = hash_len_16 (e48 + n) e24 in
        do { v \<leftarrow> weak_hash_len_32_with_seeds (drop (len - 64) s) n z;
             w \<leftarrow> weak_hash_len_32_with_seeds (drop (len - 32) s) (y + K1) x;
             s0 \<leftarrow> load64 s 0;
             let x = x * K1 + s0 in
        do { (v, w, x, y, z) \<leftarrow> city_chunks (fst (as_chunks 64 (take ((len - 1) div 64 * 64) s))) (v, w, x, y, z);
             Some (hash_len_16 (hash_len_16 (fst v) (fst w) + shift_mix y * K1 + z)
                     (hash_len_16 (snd v) (snd w) + x)) } } } })"

lemma load64_no_panic [no_panic]: "at + 8 \<le> length s \<Longrightarrow> load64 s at \<noteq> None"
  by (simp add: load64_def slice_at_def)

lemma load32_no_panic [no_panic]: "at + 4 \<le> length s \<Longrightarrow> load32 s at \<noteq> None"
  by (simp add: load32_def slice_at_def)

lemma weak_hash_no_panic [no_panic]: "32 \<le> length s \<Longrightarrow> weak_hash_len_32_with_seeds s a b \<noteq> None"
  unfolding weak_hash_len_32_with_seeds_def by (intro no_panic) simp_all

lemma city_chunk_no_panic: "length c = 64 \<Longrightarrow> city_chunk c st \<noteq> None"
  unfolding city_chunk_def by (intro no_panic) (auto dest: slice_at_length)

lemma city_chunks_no_panic [no_panic]: "(\<And>c. c \<in> set cs \<Longrightarrow> length c = 64) \<Longrightarrow> city_chunks cs st \<noteq> None"
proof (induction cs arbitrary: st)
  case Nil
  then show ?case by simp
next
  case (Cons c cs)
  then show ?case
    unfolding city_chunks.simps by (intro no_panic) (simp_all add: city_chunk_no_panic)
qed

text \<open>C29. The string hash reads only inside the string, whatever its length.\<close>

theorem city_hash_total: "city_hash s \<noteq> None"
proof -
  have "hash_len_0_to_16 s \<noteq> None" if "length s \<le> 16"
    unfolding hash_len_0_to_16_def using that by (intro no_panic) auto
  moreover have "hash_len_17_to_32 s \<noteq> None" if "16 < length s"
    unfolding hash_len_17_to_32_def using that by (intro no_panic) auto
  moreover have "hash_len_33_to_64 s \<noteq> None" if "32 < length s"
    unfolding hash_len_33_to_64_def using that by (intro no_panic) auto
  ultimately show ?thesis
    unfolding city_hash_def by (intro no_panic) (auto simp: as_chunks_sizes)
qed

end
