(* ===== verification/Glob.thy ===== *)
theory Glob
  imports Util
begin

unbundle bit_operations_syntax

section \<open>Glob patterns: \<open>Pattern\<close> of \<open>macho/util/glob.rs\<close>\<close>

text \<open>
  The tokens a pattern is compiled to, the compiler, bracket expressions, and the backtracking
  matcher with its one saved retry position. The matcher's loop is a step function on the locals
  \<open>(x, y, next)\<close>, run by a partial function whose value \<open>None\<close> would be a loop that never ends.
  Its specification is the language of the pattern text, one item per character of the pattern.
  The table of a bracket expression, \<^verbatim>\<open>[bool; 256]\<close>, is a function of the byte that indexes it.
\<close>

datatype token = Str bytes | Star | Question | Bracket "u8 \<Rightarrow> bool"

record pattern =
  tokens :: "token list"
  pat_value :: int

subsection \<open>Compiling\<close>

definition push_char :: "token list \<Rightarrow> u8 \<Rightarrow> token list" where
  "push_char toks c =
     (if toks = [] then [Str [c]]
      else case last toks of Str literal \<Rightarrow> butlast toks @ [Str (literal @ [c])]
           | _ \<Rightarrow> toks @ [Str [c]])"

text \<open>\<open>bracket\<close>: the loop over the class, with the character before the current one.\<close>

fun bracket_loop :: "(u8 \<Rightarrow> bool) \<Rightarrow> u8 option \<Rightarrow> bytes \<Rightarrow> (u8 \<Rightarrow> bool) option" where
  "bracket_loop chars prev [] = Some chars"
| "bracket_loop chars prev (c # rest) =
     (if c = 0x2d then
        (case (prev, rest) of
           (Some start, end # rest') \<Rightarrow>
             bracket_loop (\<lambda>x. chars x \<or> start \<le> x \<and> x \<le> end) (Some c) rest'
         | _ \<Rightarrow> None)
      else bracket_loop (chars(c := True)) (Some c) rest)"

definition bracket :: "bytes \<Rightarrow> (u8 \<Rightarrow> bool) option" where
  "bracket class = bracket_loop (\<lambda>_. False) None class"

definition position :: "('a \<Rightarrow> bool) \<Rightarrow> 'a list \<Rightarrow> nat option" where
  "position P xs = (let n = length (takeWhile (\<lambda>x. \<not> P x) xs) in if n < length xs then Some n else None)"

function compile_loop :: "token list \<Rightarrow> bytes \<Rightarrow> token list option" where
  "compile_loop toks [] = Some toks"
| "compile_loop toks (c # pat) =
     (if c = 0x5b then
        (case position (\<lambda>c. c = 0x5d) pat of None \<Rightarrow> None
         | Some end \<Rightarrow>
             (case bracket (take end pat) of None \<Rightarrow> None
              | Some chars \<Rightarrow> compile_loop (toks @ [Bracket chars]) (drop (end + 1) pat)))
      else if c = 0x3f then compile_loop (toks @ [Question]) pat
      else if c = 0x2a then
        compile_loop (if toks \<noteq> [] \<and> last toks = Star then toks else toks @ [Star]) pat
      else if c = 0x5c then
        (case pat of escaped # rest \<Rightarrow> compile_loop (push_char toks escaped) rest
         | [] \<Rightarrow> compile_loop (push_char toks c) [])
      else compile_loop (push_char toks c) pat)"
  by pat_completeness auto
termination
  by (relation "measure (\<lambda>(toks, pat). length pat)") auto

definition pattern_compile :: "bytes \<Rightarrow> int \<Rightarrow> pattern option" where
  "pattern_compile pat val =
     map_option (\<lambda>toks. \<lparr>tokens = toks, pat_value = val\<rparr>) (compile_loop [] pat)"

subsection \<open>Matching\<close>

definition starts_with :: "bytes \<Rightarrow> bytes \<Rightarrow> bool" where
  "starts_with s p \<longleftrightarrow> take (length p) s = p"

definition ends_with :: "bytes \<Rightarrow> bytes \<Rightarrow> bool" where
  "ends_with s p \<longleftrightarrow> length p \<le> length s \<and> drop (length s - length p) s = p"

type_synonym match_state = "nat \<times> nat \<times> (nat \<times> nat) option"

definition retry :: "bytes \<Rightarrow> (nat \<times> nat) option \<Rightarrow> match_state + bool" where
  "retry s next =
     (case next of
        Some (nx, ny) \<Rightarrow> if nx \<le> length s then Inl (nx, ny, next) else Inr False
      | None \<Rightarrow> Inr False)"

text \<open>\<open>find\<close> is \<^verbatim>\<open>memmem::find\<close> of the \<^verbatim>\<open>memchr\<close> crate, a parameter of the model.\<close>

text \<open>One round of the loop: \<open>Inl\<close> goes on with new locals, \<open>Inr\<close> returns.\<close>

definition match_step :: "(bytes \<Rightarrow> bytes \<Rightarrow> nat option) \<Rightarrow> token list \<Rightarrow> bytes \<Rightarrow> match_state \<Rightarrow> match_state + bool" where
  "match_step search toks s = (\<lambda>(x, y, next).
     if x < length s \<or> y < length toks then
       if y < length toks then
         (case toks ! y of
            Str literal \<Rightarrow>
              if starts_with (drop x s) literal then Inl (x + length literal, y + 1, next)
              else retry s next
          | Star \<Rightarrow>
              (case nth_opt toks (y + 1) of
                 Some (Str literal) \<Rightarrow>
                   (case search (drop x s) literal of
                      None \<Rightarrow> Inr False
                    | Some pos \<Rightarrow> Inl (x + pos + length literal, y + 2, Some (x + pos + 1, y)))
               | _ \<Rightarrow> Inl (x, y + 1, Some (x + 1, y)))
          | Question \<Rightarrow> if x < length s then Inl (x + 1, y + 1, next) else retry s next
          | Bracket chars \<Rightarrow>
              if x < length s \<and> chars (s ! x) then Inl (x + 1, y + 1, next) else retry s next)
       else retry s next
     else Inr True)"

partial_function (option) match_loop ::
  "(bytes \<Rightarrow> bytes \<Rightarrow> nat option) \<Rightarrow> token list \<Rightarrow> bytes \<Rightarrow> match_state \<Rightarrow> bool option" where
  "match_loop search toks s st =
     (case match_step search toks s st of Inl st' \<Rightarrow> match_loop search toks s st' | Inr b \<Rightarrow> Some b)"

definition pattern_matches :: "(bytes \<Rightarrow> bytes \<Rightarrow> nat option) \<Rightarrow> pattern \<Rightarrow> bytes \<Rightarrow> bool option" where
  "pattern_matches search p s =
     (if (case tokens p of [] \<Rightarrow> False
          | _ # _ \<Rightarrow> (case last (tokens p) of Str suffix \<Rightarrow> \<not> ends_with s suffix | _ \<Rightarrow> False))
      then Some False
      else match_loop search (tokens p) s (0, 0, None))"

subsection \<open>The language of a pattern\<close>

datatype item = Chr "u8 \<Rightarrow> bool" | Any

function items_of :: "bytes \<Rightarrow> item list option" where
  "items_of [] = Some []"
| "items_of (c # pat) =
     (if c = 0x5b then
        (case position (\<lambda>c. c = 0x5d) pat of None \<Rightarrow> None
         | Some end \<Rightarrow>
             (case bracket (take end pat) of None \<Rightarrow> None
              | Some chars \<Rightarrow> map_option ((#) (Chr chars)) (items_of (drop (end + 1) pat))))
      else if c = 0x3f then map_option ((#) (Chr (\<lambda>_. True))) (items_of pat)
      else if c = 0x2a then map_option ((#) Any) (items_of pat)
      else if c = 0x5c then
        (case pat of e # rest \<Rightarrow> map_option ((#) (Chr (\<lambda>x. x = e))) (items_of rest)
         | [] \<Rightarrow> Some [Chr (\<lambda>x. x = c)])
      else map_option ((#) (Chr (\<lambda>x. x = c))) (items_of pat))"
  by pat_completeness auto
termination
  by (relation "measure length") auto

fun glob_lang :: "item list \<Rightarrow> bytes \<Rightarrow> bool" where
  "glob_lang [] s \<longleftrightarrow> s = []"
| "glob_lang (Chr f # is) [] \<longleftrightarrow> False"
| "glob_lang (Chr f # is) (c # s) \<longleftrightarrow> f c \<and> glob_lang is s"
| "glob_lang (Any # is) [] \<longleftrightarrow> glob_lang is []"
| "glob_lang (Any # is) (c # s) \<longleftrightarrow> glob_lang is (c # s) \<or> glob_lang (Any # is) s"

fun token_items :: "token \<Rightarrow> item list" where
  "token_items (Str l) = map (\<lambda>c. Chr (\<lambda>x. x = c)) l"
| "token_items Star = [Any]"
| "token_items Question = [Chr (\<lambda>_. True)]"
| "token_items (Bracket f) = [Chr f]"

abbreviation tokens_items :: "token list \<Rightarrow> item list" where
  "tokens_items toks \<equiv> concat (map token_items toks)"

lemma glob_lang_Any: "glob_lang (Any # is) s \<longleftrightarrow> (\<exists>k \<le> length s. glob_lang is (drop k s))"
proof (induction s)
  case Nil
  then show ?case by simp
next
  case (Cons c s)
  have "(\<exists>k \<le> length (c # s). glob_lang is (drop k (c # s))) \<longleftrightarrow>
        glob_lang is (c # s) \<or> (\<exists>k \<le> length s. glob_lang is (drop k s))"
    by (metis Suc_le_mono drop0 drop_Suc_Cons length_Cons not0_implies_Suc zero_le)
  with Cons show ?case by simp
qed

lemma glob_lang_Any_Any: "glob_lang (Any # Any # is) s \<longleftrightarrow> glob_lang (Any # is) s"
proof (induction s)
  case Nil
  then show ?case by simp
next
  case (Cons c s)
  then show ?case by auto
qed

lemma glob_lang_cong_suffix:
  "(\<And>s. glob_lang is s = glob_lang js s) \<Longrightarrow> glob_lang (pre @ is) s = glob_lang (pre @ js) s"
proof (induction pre arbitrary: s)
  case Nil
  then show ?case by simp
next
  case (Cons p pre)
  then have IH: "glob_lang (pre @ is) s = glob_lang (pre @ js) s" for s by blast
  show ?case
  proof (cases p)
    case (Chr f)
    then show ?thesis by (cases s) (simp_all add: IH)
  next
    case Any
    then show ?thesis by (simp only: append_Cons glob_lang_Any IH)
  qed
qed

lemma glob_lang_Str:
  "glob_lang (map (\<lambda>c. Chr (\<lambda>x. x = c)) l @ is) s \<longleftrightarrow> starts_with s l \<and> glob_lang is (drop (length l) s)"
proof (induction l arbitrary: s)
  case Nil
  then show ?case by (simp add: starts_with_def)
next
  case (Cons a l)
  then show ?case by (cases s) (auto simp: starts_with_def)
qed

lemma push_char_items: "tokens_items (push_char toks c) = tokens_items toks @ [Chr (\<lambda>x. x = c)]"
  by (cases toks rule: rev_cases) (auto simp: push_char_def split: token.splits)

lemma star_items:
  "glob_lang (tokens_items (if toks \<noteq> [] \<and> last toks = Star then toks else toks @ [Star]) @ is) s
   = glob_lang (tokens_items toks @ Any # is) s"
proof (cases "toks \<noteq> [] \<and> last toks = Star")
  case True
  then obtain ts where ts: "toks = ts @ [Star]" by (metis append_butlast_last_id)
  show ?thesis
    using glob_lang_cong_suffix [of "Any # is" "Any # Any # is" "tokens_items ts" s]
    by (simp add: ts glob_lang_Any_Any)
next
  case False
  then show ?thesis by auto
qed

lemma compile_loop_items:
  "case compile_loop toks pat of
     None \<Rightarrow> items_of pat = None
   | Some toks' \<Rightarrow> (\<exists>is. items_of pat = Some is
        \<and> (\<forall>s. glob_lang (tokens_items toks') s = glob_lang (tokens_items toks @ is) s))"
proof (induction toks pat rule: compile_loop.induct)
  case (1 toks)
  then show ?case by simp
next
  case (2 toks c pat)
  consider "c = 0x5b" | "c = 0x3f" | "c = 0x2a" | "c = 0x5c" | "c \<notin> {0x5b, 0x3f, 0x2a, 0x5c}"
    by blast
  then show ?case
  proof cases
    case 1
    then show ?thesis
      using "2.IH"(1) by (fastforce split: option.splits)
  next
    case 2
    then show ?thesis using "2.IH"(2) by (fastforce split: option.splits)
  next
    case 3
    define t where "t = (if toks \<noteq> [] \<and> last toks = Star then toks else toks @ [Star])"
    have st: "glob_lang (tokens_items t @ is) s = glob_lang (tokens_items toks @ Any # is) s" for "is" s
      unfolding t_def by (rule star_items)
    have "compile_loop toks (c # pat) = compile_loop t pat" using 3 by (simp add: t_def)
    moreover have "items_of (c # pat) = map_option ((#) Any) (items_of pat)" using 3 by simp
    ultimately show ?thesis
      using "2.IH"(3) 3 unfolding t_def [symmetric] by (auto simp: st split: option.splits)
  next
    case 4
    then show ?thesis
      using "2.IH"(4,5) by (cases pat) (fastforce split: option.splits simp: push_char_items)+
  next
    case 5
    then have ne: "c \<noteq> 0x5b" "c \<noteq> 0x3f" "c \<noteq> 0x2a" "c \<noteq> 0x5c" by auto
    then show ?thesis using "2.IH"(6) [OF ne] by (auto split: option.splits simp: push_char_items)
  qed
qed


subsection \<open>The matcher is the language\<close>

text \<open>\<open>M toks s y x\<close>: the tokens from \<open>y\<close> on match the input from \<open>x\<close> on.\<close>

definition M :: "token list \<Rightarrow> bytes \<Rightarrow> nat \<Rightarrow> nat \<Rightarrow> bool" where
  "M toks s y x = glob_lang (tokens_items (drop y toks)) (drop x s)"

lemma tokens_items_drop:
  "y < length toks \<Longrightarrow> tokens_items (drop y toks) = token_items (toks ! y) @ tokens_items (drop (Suc y) toks)"
  by (subst Cons_nth_drop_Suc [symmetric]) auto

lemma M_end: "length toks \<le> y \<Longrightarrow> M toks s y x \<longleftrightarrow> length s \<le> x"
  by (simp add: M_def)

lemma M_Str:
  "y < length toks \<Longrightarrow> toks ! y = Str l \<Longrightarrow>
   M toks s y x \<longleftrightarrow> starts_with (drop x s) l \<and> M toks s (Suc y) (x + length l)"
  by (simp add: M_def tokens_items_drop glob_lang_Str add.commute)

lemma M_Star:
  assumes "y < length toks" and "toks ! y = Star" and "x \<le> length s"
  shows "M toks s y x \<longleftrightarrow> (\<exists>x'. x \<le> x' \<and> x' \<le> length s \<and> M toks s (Suc y) x')"
proof -
  have "M toks s y x \<longleftrightarrow> (\<exists>k \<le> length s - x. M toks s (Suc y) (x + k))"
    using assms by (simp add: M_def tokens_items_drop glob_lang_Any add.commute)
  also have "\<dots> \<longleftrightarrow> (\<exists>x'. x \<le> x' \<and> x' \<le> length s \<and> M toks s (Suc y) x')"
    using assms(3) by (metis add_le_cancel_left le_add1 le_add_diff_inverse)
  finally show ?thesis .
qed

lemma M_one:
  assumes "y < length toks" and "toks ! y = Question \<and> f = (\<lambda>_. True) \<or> toks ! y = Bracket f"
  shows "M toks s y x \<longleftrightarrow> x < length s \<and> f (s ! x) \<and> M toks s (Suc y) (Suc x)"
proof (cases "x < length s")
  case True
  then show ?thesis
    using assms by (auto simp: M_def tokens_items_drop Cons_nth_drop_Suc [symmetric])
next
  case False
  then show ?thesis using assms by (auto simp: M_def tokens_items_drop)
qed

fun token_width :: "token \<Rightarrow> nat" where
  "token_width (Str l) = length l"
| "token_width Star = 0"
| "token_width _ = 1"

text \<open>Between its star and \<open>y\<close> no star stands, so every way to match those tokens is as long.\<close>

definition no_star :: "token list \<Rightarrow> nat \<Rightarrow> nat \<Rightarrow> bool" where
  "no_star toks i y \<longleftrightarrow> (\<forall>j. i \<le> j \<and> j < y \<longrightarrow> toks ! j \<noteq> Star)"

definition width :: "token list \<Rightarrow> nat \<Rightarrow> nat \<Rightarrow> nat" where
  "width toks i y = sum_list (map token_width (take (y - i) (drop i toks)))"

lemma width_Suc: "i \<le> y \<Longrightarrow> y < length toks \<Longrightarrow> width toks i (Suc y) = width toks i y + token_width (toks ! y)"
  by (simp add: width_def Suc_diff_le take_Suc_conv_app_nth)

lemma starts_with_len: "starts_with (drop x s) l \<Longrightarrow> x \<le> length s \<Longrightarrow> x + length l \<le> length s"
proof -
  assume "starts_with (drop x s) l" and x: "x \<le> length s"
  then have "length (take (length l) (drop x s)) = length l" by (simp add: starts_with_def)
  then show ?thesis using x by (simp add: min_def split: if_splits)
qed

lemma M_segment:
  "i \<le> y \<Longrightarrow> y \<le> length toks \<Longrightarrow> no_star toks i y \<Longrightarrow> p \<le> length s \<Longrightarrow> M toks s i p \<Longrightarrow>
   p + width toks i y \<le> length s \<and> M toks s y (p + width toks i y)"
proof (induction y rule: dec_induct)
  case base
  then show ?case by (simp add: width_def)
next
  case (step y)
  then have IH: "p + width toks i y \<le> length s" "M toks s y (p + width toks i y)"
    by (auto simp: no_star_def)
  have y: "y < length toks" "toks ! y \<noteq> Star" using step by (auto simp: no_star_def)
  show ?case
  proof (cases "toks ! y")
    case (Str l)
    with IH y step.hyps show ?thesis
      by (auto simp: width_Suc M_Str add.assoc dest: starts_with_len)
  next
    case Star
    with y show ?thesis by simp
  next
    case Question
    with IH y step.hyps M_one [of y toks "\<lambda>_. True" s] show ?thesis by (auto simp: width_Suc)
  next
    case (Bracket f)
    with IH y step.hyps M_one [of y toks f s] show ?thesis by (auto simp: width_Suc)
  qed
qed

text \<open>
  The loop's invariant (which keeps every slice of the source in range), what its locals still
  promise, and the order in which they go down: the star to retry moves right, then the input it
  has taken grows, then the tokens left get fewer.
\<close>

fun match_inv :: "token list \<Rightarrow> bytes \<Rightarrow> match_state \<Rightarrow> bool" where
  "match_inv toks s (x, y, None) \<longleftrightarrow> x \<le> length s \<and> y \<le> length toks"
| "match_inv toks s (x, y, Some (nx, ny)) \<longleftrightarrow> x \<le> length s \<and> y \<le> length toks
     \<and> ny < length toks \<and> toks ! ny = Star \<and> nx \<le> length s + 1
     \<and> (y = ny \<and> x = nx
        \<or> ny < y \<and> no_star toks (Suc ny) y \<and> x + 1 = nx + width toks (Suc ny) y)"

fun alive :: "token list \<Rightarrow> bytes \<Rightarrow> match_state \<Rightarrow> bool" where
  "alive toks s (x, y, None) \<longleftrightarrow> M toks s y x"
| "alive toks s (x, y, Some (nx, ny)) \<longleftrightarrow> M toks s y x \<or> nx \<le> length s \<and> M toks s ny nx"

fun match_rank :: "token list \<Rightarrow> bytes \<Rightarrow> match_state \<Rightarrow> nat \<times> nat \<times> nat" where
  "match_rank toks s (x, y, None) = (length toks + 1, 0, length toks - y)"
| "match_rank toks s (x, y, Some (nx, ny)) =
     (length toks - ny, 2 * (length s + 1 - nx) + (if ny < y then 1 else 0), length toks - y)"

definition match_order :: "token list \<Rightarrow> bytes \<Rightarrow> (match_state \<times> match_state) set" where
  "match_order toks s = inv_image (less_than <*lex*> less_than <*lex*> less_than) (match_rank toks s)"

definition step_ok :: "token list \<Rightarrow> bytes \<Rightarrow> match_state \<Rightarrow> match_state + bool \<Rightarrow> bool" where
  "step_ok toks s st r \<longleftrightarrow>
     (case r of Inl st' \<Rightarrow> match_inv toks s st' \<and> alive toks s st' = alive toks s st
                  \<and> (st', st) \<in> match_order toks s
      | Inr b \<Rightarrow> b = alive toks s st)"

lemma star_absorbs:
  assumes inv: "match_inv toks s (x, y, Some (nx, ny))"
    and y: "y < length toks" "toks ! y = Star" and nx: "nx \<le> length s" "M toks s ny nx"
  shows "M toks s y x"
proof (cases "y = ny")
  case True
  with inv nx show ?thesis by auto
next
  case False
  with inv have i: "ny < y" "no_star toks (Suc ny) y" "x + 1 = nx + width toks (Suc ny) y"
    "ny < length toks" "toks ! ny = Star" "x \<le> length s" by auto
  from nx M_Star [OF i(4,5) nx(1)] obtain p where p: "nx \<le> p" "p \<le> length s" "M toks s (Suc ny) p"
    by auto
  from M_segment [of "Suc ny" y toks p s] i y p
  have "p + width toks (Suc ny) y \<le> length s" "M toks s y (p + width toks (Suc ny) y)" by auto
  moreover have "x \<le> p + width toks (Suc ny) y" using i(3) p(1) by simp
  ultimately show ?thesis using M_Star [OF y] i(6) by (meson le_trans)
qed

lemma retry_ok:
  assumes inv: "match_inv toks s (x, y, next)" and dead: "\<not> M toks s y x"
    and y: "y < length toks \<Longrightarrow> toks ! y \<noteq> Star"
  shows "step_ok toks s (x, y, next) (retry s next)"
proof (cases "next")
  case None
  with dead show ?thesis by (simp add: step_ok_def retry_def)
next
  case (Some n)
  then obtain nx ny where n: "next = Some (nx, ny)" by (cases n) auto
  with inv y have "ny < y" by auto
  with inv dead show ?thesis
    by (auto simp: n step_ok_def retry_def match_order_def)
qed

lemma forward_ok:
  assumes inv: "match_inv toks s (x, y, next)" and y: "y < length toks" "toks ! y \<noteq> Star"
    and m: "M toks s y x \<longleftrightarrow> M toks s (Suc y) (x + token_width (toks ! y))"
    and l: "x + token_width (toks ! y) \<le> length s"
  shows "step_ok toks s (x, y, next) (Inl (x + token_width (toks ! y), Suc y, next))"
proof (cases "next")
  case None
  with assms show ?thesis by (auto simp: step_ok_def match_order_def)
next
  case (Some n)
  then obtain nx ny where n: "next = Some (nx, ny)" by (cases n) auto
  with inv y have "ny < y" by auto
  with inv y m l show ?thesis
    by (auto simp: n step_ok_def match_order_def width_Suc no_star_def less_Suc_eq)
qed

lemma star_ok:
  assumes inv: "match_inv toks s (x, y, next)" and y: "y < length toks" "toks ! y = Star"
    and inv': "match_inv toks s (x', y', Some (nx', y))" and nx': "x < nx'" and y': "y < y'"
    and m: "M toks s y x \<longleftrightarrow> alive toks s (x', y', Some (nx', y))"
  shows "step_ok toks s (x, y, next) (Inl (x', y', Some (nx', y)))"
proof (cases "next")
  case None
  with inv' m show ?thesis by (auto simp: step_ok_def match_order_def simp del: match_inv.simps)
next
  case (Some n)
  then obtain nx ny where n: "next = Some (nx, ny)" by (cases n) auto
  have a: "alive toks s (x, y, next) = M toks s y x"
    using star_absorbs [of toks s x y nx ny] inv y by (auto simp: n)
  have x: "x \<le> length s" and ny: "ny < length toks" and c: "ny = y \<and> nx = x \<or> ny < y"
    using inv by (auto simp: n)
  have "length s + 1 - nx' < length s + 1 - x" using x nx' by simp
  then have "((x', y', Some (nx', y)), (x, y, next)) \<in> match_order toks s"
    using c y ny y' by (auto simp: n match_order_def)
  with inv' m a show ?thesis by (simp add: step_ok_def del: match_inv.simps alive.simps)
qed

lemma star_plain_ok:
  assumes inv: "match_inv toks s (x, y, next)" and y: "y < length toks" "toks ! y = Star"
  shows "step_ok toks s (x, y, next) (Inl (x, Suc y, Some (x + 1, y)))"
proof -
  have x: "x \<le> length s" using inv by (cases "next") auto
  have eq: "M toks s y x \<longleftrightarrow> M toks s (Suc y) x \<or> x + 1 \<le> length s \<and> M toks s y (x + 1)"
  proof (cases "x + 1 \<le> length s")
    case True
    then show ?thesis using M_Star [OF y x] M_Star [OF y True]
      by (metis Suc_eq_plus1 Suc_leD Suc_leI le_neq_implies_less order_refl x)
  next
    case False
    then show ?thesis using M_Star [OF y x] by (metis Suc_eq_plus1 le_antisym not_less_eq_eq x)
  qed
  show ?thesis
    by (rule star_ok [OF inv y]) (use x y eq in \<open>auto simp: no_star_def width_def\<close>)
qed

lemma wf_match_order: "wf (match_order toks s)"
  by (auto simp: match_order_def)

lemma ends_with_Cons: "ends_with s l \<Longrightarrow> ends_with (c # s) l"
  by (auto simp: ends_with_def Suc_diff_le)

lemma lang_suffix: "glob_lang (pre @ map (\<lambda>c. Chr (\<lambda>x. x = c)) l) s \<Longrightarrow> ends_with s l"
proof (induction pre s rule: glob_lang.induct)
  case (1 s)
  then show ?case using glob_lang_Str [of l "[]" s]
    by (auto simp: ends_with_def starts_with_def)
qed (auto simp: ends_with_Cons)

text \<open>
  What the matcher relies on of the substring search: it returns the first place the string occurs,
  and nothing only when there is none.
\<close>

locale substring_search =
  fixes search :: "bytes \<Rightarrow> bytes \<Rightarrow> nat option"
  assumes find_Some: "search s l = Some pos \<Longrightarrow>
      pos \<le> length s \<and> starts_with (drop pos s) l \<and> (\<forall>q. q < pos \<longrightarrow> \<not> starts_with (drop q s) l)"
    and find_None: "search s l = None \<Longrightarrow> q \<le> length s \<Longrightarrow> \<not> starts_with (drop q s) l"
begin

lemma star_literal_ok:
  assumes inv: "match_inv toks s (x, y, next)" and y: "y < length toks" "toks ! y = Star"
    and l: "Suc y < length toks" "toks ! Suc y = Str l" and f: "search (drop x s) l = Some pos"
  shows "step_ok toks s (x, y, next) (Inl (x + pos + length l, Suc (Suc y), Some (x + pos + 1, y)))"
proof -
  have x: "x \<le> length s" using inv by (cases "next") auto
  have f': "pos \<le> length s - x" "starts_with (drop (x + pos) s) l"
    "\<And>q. q < pos \<Longrightarrow> \<not> starts_with (drop (x + q) s) l"
    using find_Some [OF f] by (auto simp: add.commute)
  have len: "x + pos + length l \<le> length s"
    using starts_with_len [OF f'(2)] f'(1) x by simp
  have first: "x + pos \<le> p" if "x \<le> p" "M toks s (Suc y) p" for p
    using f'(3) [of "p - x"] that M_Str [OF l] by (metis add.commute diff_less_mono le_add_diff_inverse leI less_diff_conv2 le_add1 add_diff_cancel_left')
  have eq: "M toks s y x \<longleftrightarrow> M toks s (Suc (Suc y)) (x + pos + length l)
      \<or> x + pos + 1 \<le> length s \<and> M toks s y (x + pos + 1)"
  proof -
    have "M toks s y x \<longleftrightarrow> (\<exists>p. x + pos \<le> p \<and> p \<le> length s \<and> M toks s (Suc y) p)"
      using M_Star [OF y x] first by (meson le_add1 le_trans)
    also have "\<dots> \<longleftrightarrow> M toks s (Suc y) (x + pos) \<or> x + pos + 1 \<le> length s \<and> M toks s y (x + pos + 1)"
    proof (cases "x + pos + 1 \<le> length s")
      case True
      then show ?thesis using M_Star [OF y True]
        by (metis Suc_eq_plus1 Suc_leD Suc_leI le_neq_implies_less order_refl)
    next
      case False
      then show ?thesis by (metis Suc_eq_plus1 le_antisym not_less_eq_eq len add_leD1 order_refl)
    qed
    also have "M toks s (Suc y) (x + pos) \<longleftrightarrow> M toks s (Suc (Suc y)) (x + pos + length l)"
      using M_Str [OF l] f'(2) by simp
    finally show ?thesis .
  qed
  have w: "width toks (Suc y) (Suc (Suc y)) = length l"
    using width_Suc [of "Suc y" "Suc y" toks] l by (simp add: width_def)
  have ns: "no_star toks (Suc y) (Suc (Suc y))"
    using l by (auto simp: no_star_def less_Suc_eq)
  show ?thesis
    by (rule star_ok [OF inv y]) (use x y l len eq w ns in auto)
qed

lemma match_step_ok:
  assumes inv: "match_inv toks s (x, y, next)"
  shows "step_ok toks s (x, y, next) (match_step search toks s (x, y, next))"
proof (cases "y < length toks")
  case False
  have y: "y = length toks" using inv False by (cases "next") auto
  show ?thesis
  proof (cases "x < length s")
    case True
    then have "\<not> M toks s y x" by (simp add: y M_end)
    from retry_ok [OF inv this] True y show ?thesis by (simp add: match_step_def)
  next
    case x: False
    then have "M toks s y x" by (simp add: y M_end)
    then have "alive toks s (x, y, next)" by (cases "next") auto
    with x y show ?thesis by (simp add: match_step_def step_ok_def)
  qed
next
  case y: True
  have x: "x \<le> length s" using inv by (cases "next") auto
  show ?thesis
  proof (cases "toks ! y")
    case (Str l)
    then show ?thesis
      using retry_ok [OF inv] forward_ok [OF inv y] M_Str [OF y Str] x y starts_with_len [of x s l]
      by (auto simp: match_step_def)
  next
    case Question
    then show ?thesis
      using retry_ok [OF inv] forward_ok [OF inv y] M_one [OF y, of "\<lambda>_. True" s x] y
      by (auto simp: match_step_def)
  next
    case (Bracket f)
    then show ?thesis
      using retry_ok [OF inv] forward_ok [OF inv y] M_one [OF y, of f s x] y
      by (auto simp: match_step_def)
  next
    case Star
    show ?thesis
    proof (cases "\<exists>l. Suc y < length toks \<and> toks ! Suc y = Str l")
      case False
      then have "match_step search toks s (x, y, next) = Inl (x, Suc y, Some (x + 1, y))"
        using y Star by (auto simp: match_step_def nth_opt_def split: token.splits)
      then show ?thesis using star_plain_ok [OF inv y Star] by simp
    next
      case True
      then obtain l where l: "Suc y < length toks" "toks ! Suc y = Str l" by blast
      show ?thesis
      proof (cases "search (drop x s) l")
        case (Some pos)
        then show ?thesis
          using star_literal_ok [OF inv y Star l Some] y Star l by (simp add: match_step_def nth_opt_def)
      next
        case None
        have "\<not> M toks s y x"
        proof
          assume "M toks s y x"
          then obtain p where p: "x \<le> p" "p \<le> length s" "M toks s (Suc y) p"
            using M_Star [OF y Star x] by blast
          then have "starts_with (drop (p - x) (drop x s)) l" using M_Str [OF l] by simp
          with find_None [OF None, of "p - x"] p show False by simp
        qed
        then have "\<not> alive toks s (x, y, next)"
        proof (cases "next")
          case (Some n)
          then show ?thesis using star_absorbs [of toks s x y "fst n" "snd n"] inv y Star \<open>\<not> M toks s y x\<close>
            by (cases n) auto
        qed simp
        then show ?thesis using y Star l None by (simp add: match_step_def nth_opt_def step_ok_def)
      qed
    qed
  qed
qed

lemma match_loop_alive: "match_inv toks s st \<Longrightarrow> match_loop search toks s st = Some (alive toks s st)"
proof (induction st rule: wf_induct_rule [OF wf_match_order [of toks s]])
  case (1 st)
  obtain x y n where st: "st = (x, y, n)" by (cases st) auto
  have ok: "step_ok toks s st (match_step search toks s st)"
    using match_step_ok "1.prems" unfolding st by blast
  show ?case
  proof (cases "match_step search toks s st")
    case (Inl st')
    with ok "1.IH" [of st'] show ?thesis
      by (simp add: match_loop.simps [of search toks s st] step_ok_def)
  next
    case (Inr b)
    with ok show ?thesis by (simp add: match_loop.simps [of search toks s st] step_ok_def)
  qed
qed

lemma pattern_matches_lang: "pattern_matches search p s = Some (glob_lang (tokens_items (tokens p)) s)"
proof -
  have loop: "match_loop search (tokens p) s (0, 0, None) = Some (glob_lang (tokens_items (tokens p)) s)"
    using match_loop_alive [of "tokens p" s "(0, 0, None)"] by (simp add: M_def)
  have "\<not> glob_lang (tokens_items (tokens p)) s"
    if h: "tokens p \<noteq> []" "last (tokens p) = Str l" "\<not> ends_with s l" for l
  proof -
    define ts where "ts = butlast (tokens p)"
    have "tokens p = ts @ [Str l]" using append_butlast_last_id [OF h(1)] h(2) by (simp add: ts_def)
    then have "tokens_items (tokens p) = tokens_items ts @ map (\<lambda>c. Chr (\<lambda>x. x = c)) l" by simp
    then show ?thesis using lang_suffix [of "tokens_items ts" l s] h(3) by auto
  qed
  then show ?thesis
    by (auto simp: pattern_matches_def loop split: list.splits token.splits)
qed

end

text \<open>The naive search keeps that promise, so the assumption can be met.\<close>

fun memmem_find :: "bytes \<Rightarrow> bytes \<Rightarrow> nat option" where
  "memmem_find [] p = (if p = [] then Some 0 else None)"
| "memmem_find (c # s) p = (if starts_with (c # s) p then Some 0 else map_option Suc (memmem_find s p))"

lemma memmem_find_Some:
  "memmem_find s l = Some pos \<Longrightarrow>
   pos \<le> length s \<and> starts_with (drop pos s) l \<and> (\<forall>q < pos. \<not> starts_with (drop q s) l)"
proof (induction s arbitrary: pos)
  case Nil
  then show ?case by (simp add: starts_with_def split: if_splits)
next
  case (Cons c s)
  show ?case
  proof (cases "starts_with (c # s) l")
    case True
    with Cons.prems show ?thesis by simp
  next
    case False
    with Cons.prems obtain k where k: "memmem_find s l = Some k" "pos = Suc k" by auto
    from Cons.IH [OF k(1)] False show ?thesis by (auto simp: k(2) less_Suc_eq_0_disj)
  qed
qed

lemma memmem_find_None: "memmem_find s l = None \<Longrightarrow> q \<le> length s \<Longrightarrow> \<not> starts_with (drop q s) l"
proof (induction s arbitrary: q)
  case Nil
  then show ?case by (auto simp: starts_with_def split: if_splits)
next
  case (Cons c s)
  then show ?case by (cases q) (auto split: if_splits)
qed

interpretation memmem: substring_search memmem_find
  by unfold_locales (simp_all add: memmem_find_Some memmem_find_None)

subsection \<open>What a pattern means\<close>

text \<open>
  The languages of bracket expressions and of patterns as grammars, apart from the compiler. In a
  class, a character stands for itself and \<open>-e\<close> for the characters from the one before it up to
  \<open>e\<close>, where after a range the one before is the \<open>-\<close>; a \<open>-\<close> first or last is in no class.
\<close>

inductive class_means :: "u8 option \<Rightarrow> bytes \<Rightarrow> u8 set \<Rightarrow> bool" where
  class_end: "class_means before [] {}"
| class_char: "c \<noteq> 0x2d \<Longrightarrow> class_means (Some c) class A \<Longrightarrow> class_means before (c # class) (insert c A)"
| class_range: "class_means (Some 0x2d) class A \<Longrightarrow> class_means (Some a) (0x2d # e # class) ({a..e} \<union> A)"

inductive pattern_means :: "bytes \<Rightarrow> item list \<Rightarrow> bool" where
  means_empty: "pattern_means [] []"
| means_star: "pattern_means pat is \<Longrightarrow> pattern_means (0x2a # pat) (Any # is)"
| means_any: "pattern_means pat is \<Longrightarrow> pattern_means (0x3f # pat) (Chr (\<lambda>_. True) # is)"
| means_escape: "pattern_means pat is \<Longrightarrow> pattern_means (0x5c # c # pat) (Chr (\<lambda>x. x = c) # is)"
| means_backslash: "pattern_means [0x5c] [Chr (\<lambda>x. x = 0x5c)]"
| means_char: "c \<notin> {0x5b, 0x3f, 0x2a, 0x5c} \<Longrightarrow> pattern_means pat is \<Longrightarrow> pattern_means (c # pat) (Chr (\<lambda>x. x = c) # is)"
| means_class: "0x5d \<notin> set class \<Longrightarrow> class_means None class A \<Longrightarrow> pattern_means pat is \<Longrightarrow>
    pattern_means (0x5b # class @ 0x5d # pat) (Chr (\<lambda>x. x \<in> A) # is)"

lemma bracket_loop_sound:
  "class_means before class A \<Longrightarrow> bracket_loop chars before class = Some (\<lambda>x. chars x \<or> x \<in> A)"
  by (induction arbitrary: chars rule: class_means.induct) (auto simp: fun_eq_iff)

lemma bracket_loop_complete:
  "bracket_loop chars before class = Some f \<Longrightarrow> \<exists>A. class_means before class A"
proof (induction chars before "class" rule: bracket_loop.induct)
  case (1 chars before)
  then show ?case by (blast intro: class_end)
next
  case (2 chars before c rest)
  show ?case
  proof (cases "c = 0x2d")
    case True
    with "2.prems" obtain a e rest' where r: "before = Some a" "rest = e # rest'"
      and l: "bracket_loop (\<lambda>x. chars x \<or> a \<le> x \<and> x \<le> e) (Some c) rest' = Some f"
      by (auto split: option.splits list.splits)
    from "2.IH"(1) [OF True refl r l] show ?thesis unfolding r True by (blast intro: class_range)
  next
    case False
    with "2.prems" have "bracket_loop (chars(c := True)) (Some c) rest = Some f" by simp
    from "2.IH"(2) [OF False this] show ?thesis using False by (blast intro: class_char)
  qed
qed

lemma position_split: "position (\<lambda>c. c = a) (xs @ a # ys) = Some (length xs)" if "a \<notin> set xs"
proof -
  have "takeWhile (\<lambda>x. x \<noteq> a) (xs @ a # ys) = xs" using that by (induction xs) auto
  then show ?thesis by (simp add: position_def)
qed

lemma position_Some: "position (\<lambda>c. c = a) xs = Some n \<Longrightarrow> xs = take n xs @ a # drop (n + 1) xs \<and> a \<notin> set (take n xs)"
proof -
  let ?t = "takeWhile (\<lambda>x. x \<noteq> a) xs"
  assume "position (\<lambda>c. c = a) xs = Some n"
  then have n: "n = length ?t" "n < length xs" by (auto simp: position_def Let_def split: if_splits)
  have t: "take n xs = ?t" unfolding n(1) by (metis takeWhile_eq_take)
  have "xs ! n = a" using nth_length_takeWhile [of "\<lambda>x. x \<noteq> a" xs] n by simp
  then show ?thesis using id_take_nth_drop [OF n(2)] by (auto simp: t dest: set_takeWhileD)
qed

lemma means_items: "pattern_means pat is \<Longrightarrow> items_of pat = Some is"
proof (induction rule: pattern_means.induct)
  case (means_class "class" A pat "is")
  then show ?case using bracket_loop_sound [OF means_class.hyps(2), of "\<lambda>_. False"] by (simp add: position_split bracket_def)
qed auto

lemma items_means: "items_of pat = Some is \<Longrightarrow> pattern_means pat is"
proof (induction pat arbitrary: "is" rule: items_of.induct)
  case 1
  then show ?case by (simp add: pattern_means.intros)
next
  case (2 c pat)
  consider "c = 0x5b" | "c = 0x3f" | "c = 0x2a" | "c = 0x5c" | "c \<notin> {0x5b, 0x3f, 0x2a, 0x5c}" by blast
  then show ?case
  proof cases
    case 1
    with "2.prems" obtain n chars js where n: "position (\<lambda>c. c = 0x5d) pat = Some n" and b: "bracket (take n pat) = Some chars"
      and j: "items_of (drop (n + 1) pat) = Some js" "is = Chr chars # js"
      by (auto split: option.splits)
    obtain A where A: "class_means None (take n pat) A" using bracket_loop_complete [OF b [unfolded bracket_def]] by blast
    then have "chars = (\<lambda>x. x \<in> A)" using bracket_loop_sound [OF A, of "\<lambda>_. False"] b by (simp add: bracket_def)
    moreover have "pattern_means (drop (n + 1) pat) js" using "2.IH"(1) [OF 1 n b j(1)] .
    moreover note means_class [OF conjunct2 [OF position_Some [OF n]] A]
    ultimately have "pattern_means (0x5b # take n pat @ 0x5d # drop (n + 1) pat) is" unfolding j(2) by blast
    then show ?thesis using position_Some [OF n] unfolding 1 by metis
  qed (use 2 in \<open>auto intro: pattern_means.intros split: list.splits\<close>)
qed

text \<open>
  C8. A compiled pattern matches exactly the strings the pattern means, and the matcher always
  returns; compiling fails exactly on the patterns that mean nothing, and keeps the value. What a
  pattern means is given by the grammars above, of patterns and of bracket expressions.
\<close>

theorem pattern_correct:
  assumes "substring_search search"
  shows "case pattern_compile pat v of
     None \<Rightarrow> \<not> (\<exists>is. pattern_means pat is)
   | Some p \<Rightarrow> pat_value p = v \<and> (\<exists>is. pattern_means pat is) \<and>
       (\<forall>is s. pattern_means pat is \<longrightarrow> pattern_matches search p s = Some (glob_lang is s))"
proof -
  have e: "pattern_means pat is \<longleftrightarrow> items_of pat = Some is" for "is" using items_means means_items by blast
  show ?thesis
    unfolding e using compile_loop_items [where toks = "[]" and pat = pat]
    by (auto simp: pattern_compile_def substring_search.pattern_matches_lang [OF assms] split: option.splits)
qed

theorem pattern_correct_witness:
  "\<exists>p. pattern_compile (bstr ''[a-c]*'') 3 = Some p \<and> pat_value p = 3 \<and>
     pattern_matches memmem_find p (bstr ''c.o'') = Some True \<and> pattern_matches memmem_find p (bstr ''d.o'') = Some False"
proof -
  have "class_means None (0x61 # 0x2d # 0x63 # []) (insert 0x61 ({0x61..0x63} \<union> {}))"
    by (intro class_means.intros) simp
  then have "class_means None (bstr ''a-c'') (insert 0x61 {0x61..0x63})" by (simp add: bstr_def)
  then have m: "pattern_means (0x5b # bstr ''a-c'' @ 0x5d # [0x2a]) [Chr (\<lambda>x. x \<in> insert 0x61 {0x61..0x63}), Any]"
    by (intro pattern_means.intros) (auto simp: bstr_def)
  have b: "0x5b # bstr ''a-c'' @ 0x5d # [0x2a] = bstr ''[a-c]*''" by code_simp
  have "\<not> (case pattern_compile (bstr ''[a-c]*'') 3 of None \<Rightarrow> True | Some p \<Rightarrow> False)" by code_simp
  then obtain p where p: "pattern_compile (bstr ''[a-c]*'') 3 = Some p" by (auto split: option.splits)
  show ?thesis
    using pattern_correct [OF memmem.substring_search_axioms, of "bstr ''[a-c]*''" 3] m unfolding b p
    by (auto simp: bstr_def)
qed

end
