(* ===== verification/GlobNfa.thy ===== *)
theory GlobNfa
  imports Glob
begin

unbundle bit_operations_syntax

section \<open>The bit-parallel NFA of \<open>macho/util/glob.rs\<close>\<close>

text \<open>
  \<open>Nfa\<close> matches many patterns at once, one bit per state, in vectors of 64-bit words. The
  compiler's nested loops thread the vectors and the next free state; the matcher shifts the state
  vector with a carry for every input byte. Every index the compiler computes is in range
  (\<open>nfa_compile_bits\<close> below rests on it), so a list update is the source's indexed assignment.
\<close>

record nfa =
  initial_states :: "u64 list"
  star_states :: "u64 list"
  accept_states :: "u64 list"
  char_masks :: "u64 list"
  nfa_values :: "int list"

definition set_bit_at :: "u64 list \<Rightarrow> nat \<Rightarrow> u64 list" where
  "set_bit_at vec pos = vec[pos div 64 := vec ! (pos div 64) OR push_bit (pos mod 64) 1]"

fun token_states :: "token \<Rightarrow> nat" where
  "token_states (Str literal) = length literal"
| "token_states Star = 0"
| "token_states _ = 1"

definition count_states :: "pattern list \<Rightarrow> nat" where
  "count_states pats = sum_list (map (\<lambda>p. 1 + sum_list (map token_states (tokens p))) pats)"

text \<open>\<open>char_masks[c * num_words + state / 64] |= 1 << (state % 64)\<close>.\<close>

definition set_mask :: "nat \<Rightarrow> nat \<Rightarrow> nat \<Rightarrow> nfa \<Rightarrow> nfa" where
  "set_mask num_words state c n =
     (let i = c * num_words + state div 64
      in n\<lparr>char_masks := (char_masks n)[i := char_masks n ! i OR push_bit (state mod 64) 1]\<rparr>)"

fun nfa_token :: "nat \<Rightarrow> token \<Rightarrow> nfa \<times> nat \<Rightarrow> nfa \<times> nat" where
  "nfa_token num_words (Str literal) (n, state) =
     fold (\<lambda>c (n, state). (set_mask num_words (state + 1) (unat c) n, state + 1)) literal (n, state)"
| "nfa_token num_words Star (n, state) =
     (n\<lparr>star_states := set_bit_at (star_states n) state\<rparr>, state)"
| "nfa_token num_words Question (n, state) =
     (fold (\<lambda>c n. set_mask num_words (state + 1) c n) [0..<256] n, state + 1)"
| "nfa_token num_words (Bracket chars) (n, state) =
     (fold (\<lambda>c n. if chars (of_nat c) then set_mask num_words (state + 1) c n else n) [0..<256] n,
      state + 1)"

definition nfa_pattern :: "nat \<Rightarrow> pattern \<Rightarrow> nfa \<times> nat \<Rightarrow> nfa \<times> nat" where
  "nfa_pattern num_words p = (\<lambda>(n, state).
     let n1 = n\<lparr>initial_states := set_bit_at (initial_states n) state\<rparr>;
         (n2, state2) = fold (nfa_token num_words) (tokens p) (n1, state)
     in (n2\<lparr>accept_states := set_bit_at (accept_states n2) state2,
            nfa_values := (nfa_values n2)[state2 := pat_value p]\<rparr>, state2 + 1))"

definition nfa_compile :: "pattern list \<Rightarrow> nfa" where
  "nfa_compile pats =
     (let num_states = count_states pats;
          num_words = div_ceil num_states 64;
          n = \<lparr>initial_states = replicate num_words 0, star_states = replicate num_words 0,
               accept_states = replicate num_words 0, char_masks = replicate (256 * num_words) 0,
               nfa_values = replicate num_states (- 1)\<rparr>
      in fst (fold (nfa_pattern num_words) pats (n, 0)))"

subsection \<open>Matching\<close>

fun nfa_shift :: "u64 \<Rightarrow> u64 list \<Rightarrow> u64 list \<Rightarrow> u64 list \<Rightarrow> u64 list" where
  "nfa_shift carry (old # states) (star # stars) (m # ms) =
     ((old AND star) OR ((push_bit 1 old OR carry) AND m))
       # nfa_shift (drop_bit 63 old) states stars ms"
| "nfa_shift carry _ _ _ = []"

definition nfa_run :: "nfa \<Rightarrow> bytes \<Rightarrow> u64 list" where
  "nfa_run n s =
     (let num_words = length (initial_states n)
      in foldl (\<lambda>states c. nfa_shift 0 states (star_states n)
            (take num_words (drop (unat c * num_words) (char_masks n))))
          (initial_states n) s)"

definition trailing_zeros :: "u64 \<Rightarrow> nat" where
  "trailing_zeros w = length (takeWhile (\<lambda>i. \<not> bit w i) [0..<64])"

text \<open>Clearing the lowest set bit, so that the loop over the accepting states ends.\<close>

lemma clear_lowest_less: "(w :: u64) \<noteq> 0 \<Longrightarrow> unat (w AND (w - 1)) < unat w"
proof -
  assume nz: "w \<noteq> 0"
  have "w AND (w - 1) \<le> w - 1" by (rule word_and_le1)
  then have "unat (w AND (w - 1)) \<le> unat w - 1"
    using unat_minus_one [OF nz] by (simp add: word_le_nat_alt)
  moreover have "0 < unat w" using nz by (simp add: unat_gt_0)
  ultimately show ?thesis by linarith
qed

function nfa_best_word :: "int list \<Rightarrow> nat \<Rightarrow> u64 \<Rightarrow> int \<Rightarrow> int" where
  "nfa_best_word vals i word val =
     (if word \<noteq> 0 then
        nfa_best_word vals i (word AND (word - 1)) (max val (vals ! (i * 64 + trailing_zeros word)))
      else val)"
  by pat_completeness auto
termination
  by (relation "measure (\<lambda>(vals, i, word, val). unat word)") (auto simp: clear_lowest_less)

declare nfa_best_word.simps [simp del]

definition nfa_matches :: "nfa \<Rightarrow> bytes \<Rightarrow> int" where
  "nfa_matches n s =
     fold (\<lambda>(i, state) val. nfa_best_word (nfa_values n) i (state AND accept_states n ! i) val)
       (enumerate 0 (nfa_run n s)) (- 1)"

subsection \<open>Bits of a vector of words\<close>

definition vbit :: "u64 list \<Rightarrow> nat \<Rightarrow> bool" where
  "vbit v k \<longleftrightarrow> k div 64 < length v \<and> bit (v ! (k div 64)) (k mod 64)"

lemma vbit_replicate_0 [simp]: "\<not> vbit (replicate n 0) k"
  by (simp add: vbit_def)

lemma length_set_bit_at [simp]: "length (set_bit_at v pos) = length v"
  by (simp add: set_bit_at_def)

lemma bit_or_single: "m < 64 \<Longrightarrow> bit (w OR push_bit m 1 :: u64) i \<longleftrightarrow> bit w i \<or> i = m"
  by (auto simp: bit_or_iff bit_push_bit_iff bit_1_iff simp del: push_bit_of_1)

lemma div_mod_64: "(a :: nat) div 64 = b div 64 \<Longrightarrow> a mod 64 = b mod 64 \<Longrightarrow> a = b"
  by (metis div_mult_mod_eq)

lemma vbit_set_bit_at: "pos div 64 < length v \<Longrightarrow> vbit (set_bit_at v pos) k \<longleftrightarrow> vbit v k \<or> k = pos"
  by (auto simp: vbit_def set_bit_at_def nth_list_update bit_or_single simp del: push_bit_of_1 dest: div_mod_64)

lemma length_nfa_shift: "length v = n \<Longrightarrow> length st = n \<Longrightarrow> length mk = n \<Longrightarrow> length (nfa_shift c v st mk) = n"
  by (induction c v st mk arbitrary: n rule: nfa_shift.induct) auto

lemma bit_carry: "bit (push_bit 1 old OR c :: u64) i \<longleftrightarrow> (0 < i \<and> i < 64 \<and> bit old (i - 1)) \<or> bit c i"
  by (simp only: bit_or_iff bit_push_bit_iff) (auto dest: bit_imp_le_length)

lemma bit_top: "bit (drop_bit 63 (old :: u64)) i \<longleftrightarrow> i = 0 \<and> bit old 63"
proof -
  have "i = 0" if "bit old (63 + i)" using bit_imp_le_length [OF that] by simp
  then show ?thesis by (auto simp: bit_drop_bit_eq)
qed

text \<open>One round of the shift, on bits; \<open>c\<close> is the carry into the first word.\<close>

lemma vbit_nfa_shift:
  "length v = n \<Longrightarrow> length st = n \<Longrightarrow> length mk = n \<Longrightarrow> (\<forall>i. bit c i \<longrightarrow> i = 0) \<Longrightarrow> k < 64 * n \<Longrightarrow>
   vbit (nfa_shift c v st mk) k \<longleftrightarrow>
     vbit v k \<and> vbit st k \<or> vbit mk k \<and> (if k = 0 then bit c 0 else vbit v (k - 1))"
proof (induction c v st mk arbitrary: n k rule: nfa_shift.induct)
  case (1 carry old states star stars m ms)
  show ?case
  proof (cases "k < 64")
    case True
    then show ?thesis
      using "1.prems" by (auto simp: vbit_def bit_or_iff bit_and_iff bit_push_bit_iff simp del: One_nat_def)
  next
    case False
    then obtain j where j: "k = 64 + j" using le_Suc_ex not_less by blast
    have d: "(64 + j) div 64 = Suc (j div 64)" "(64 + j) mod 64 = j mod 64" by auto
    have e: "vbit (nfa_shift (drop_bit 63 old) states stars ms) j \<longleftrightarrow>
        vbit states j \<and> vbit stars j \<or> vbit ms j \<and>
        (if j = 0 then bit (drop_bit 63 old) 0 else vbit states (j - 1))"
      by (rule "1.IH" [of "n - 1"]) (use "1.prems" j in \<open>auto simp: bit_top\<close>)
    show ?thesis
    proof (cases "j = 0")
      case True
      with e j show ?thesis by (simp add: vbit_def bit_top)
    next
      case False
      then obtain i where i: "j = Suc i" using not0_implies_Suc by blast
      have d': "(64 + i) div 64 = Suc (i div 64)" "(64 + i) mod 64 = i mod 64" by auto
      have "vbit (old # states) (k - 1) \<longleftrightarrow> vbit states i"
        using d' j i by (simp add: vbit_def)
      with e j i d show ?thesis by (simp add: vbit_def)
    qed
  qed
qed (auto simp: vbit_def)

subsection \<open>States of a pattern\<close>

fun star_at :: "item list \<Rightarrow> nat \<Rightarrow> bool" where
  "star_at [] j \<longleftrightarrow> False"
| "star_at (Any # is) j \<longleftrightarrow> j = 0 \<or> star_at is j"
| "star_at (Chr f # is) 0 \<longleftrightarrow> False"
| "star_at (Chr f # is) (Suc j) \<longleftrightarrow> star_at is j"

fun chars_at :: "item list \<Rightarrow> nat \<Rightarrow> u8 \<Rightarrow> bool" where
  "chars_at [] j c \<longleftrightarrow> False"
| "chars_at (Any # is) j c \<longleftrightarrow> chars_at is j c"
| "chars_at (Chr f # is) 0 c \<longleftrightarrow> f c"
| "chars_at (Chr f # is) (Suc j) c \<longleftrightarrow> chars_at is j c"

fun nchars :: "item list \<Rightarrow> nat" where
  "nchars [] = 0"
| "nchars (Any # is) = nchars is"
| "nchars (Chr f # is) = Suc (nchars is)"

text \<open>The items up to state \<open>j\<close>: \<open>j\<close> characters and the stars right after them.\<close>

fun upto_state :: "item list \<Rightarrow> nat \<Rightarrow> item list" where
  "upto_state [] j = []"
| "upto_state (Any # is) j = Any # upto_state is j"
| "upto_state (Chr f # is) 0 = []"
| "upto_state (Chr f # is) (Suc j) = Chr f # upto_state is j"

lemma upto_state_all: "nchars is \<le> j \<Longrightarrow> upto_state is j = is"
  by (induction "is" j rule: upto_state.induct) auto

lemma upto_state_Nil: "j \<le> nchars is \<Longrightarrow> glob_lang (upto_state is j) [] \<longleftrightarrow> j = 0"
  by (induction "is" j rule: upto_state.induct) auto

lemma star_at_append: "star_at (xs @ ys) j \<longleftrightarrow> star_at xs j \<or> nchars xs \<le> j \<and> star_at ys (j - nchars xs)"
  by (induction xs j rule: star_at.induct) auto

lemma chars_at_append:
  "chars_at (xs @ ys) j c \<longleftrightarrow> (if j < nchars xs then chars_at xs j c else chars_at ys (j - nchars xs) c)"
  by (induction xs j c rule: chars_at.induct) auto

lemma nchars_append: "nchars (xs @ ys) = nchars xs + nchars ys"
  by (induction xs rule: nchars.induct) auto

lemma chars_at_less: "chars_at is j c \<Longrightarrow> j < nchars is"
  by (induction "is" j c rule: chars_at.induct) auto

lemma star_at_le: "star_at is j \<Longrightarrow> j \<le> nchars is"
  by (induction "is" j rule: star_at.induct) auto

text \<open>How reading one more byte moves a pattern's states.\<close>

lemma glob_lang_Any_snoc:
  "glob_lang (Any # is) (s @ [c]) \<longleftrightarrow> glob_lang is [] \<or> (\<exists>k \<le> length s. glob_lang is (drop k s @ [c]))"
proof (induction s)
  case Nil
  then show ?case by auto
next
  case (Cons a s)
  have "(\<exists>k \<le> length (a # s). glob_lang is (drop k (a # s) @ [c])) \<longleftrightarrow>
        glob_lang is (a # s @ [c]) \<or> (\<exists>k \<le> length s. glob_lang is (drop k s @ [c]))"
    (is "?l \<longleftrightarrow> ?r")
  proof
    assume ?l
    then obtain k where k: "k \<le> length (a # s)" "glob_lang is (drop k (a # s) @ [c])" by blast
    then show ?r by (cases k) auto
  next
    assume ?r
    then show ?l
    proof
      assume "glob_lang is (a # s @ [c])"
      then show ?l by (intro exI [of _ 0]) simp
    next
      assume "\<exists>k \<le> length s. glob_lang is (drop k s @ [c])"
      then obtain k where "k \<le> length s" "glob_lang is (drop k s @ [c])" by blast
      then show ?l by (intro exI [of _ "Suc k"]) simp
    qed
  qed
  with Cons show ?case by auto
qed

lemma upto_state_snoc:
  "j \<le> nchars is \<Longrightarrow>
   glob_lang (upto_state is j) (s @ [c]) \<longleftrightarrow>
     star_at is j \<and> glob_lang (upto_state is j) s
     \<or> (\<exists>i. j = Suc i \<and> chars_at is i c \<and> glob_lang (upto_state is i) s)"
proof (induction "is" j arbitrary: s rule: upto_state.induct)
  case (1 j)
  then show ?case by simp
next
  case (2 "is" j)
  have le: "j \<le> nchars is" using "2.prems" by simp
  show ?case
  proof (cases j)
    case 0
    have any: "glob_lang (Any # upto_state is 0) t" for t
    proof -
      have "glob_lang (upto_state is 0) (drop (length t) t)" by (simp add: upto_state_Nil)
      then show ?thesis using glob_lang_Any by blast
    qed
    show ?thesis by (simp add: 0 any)
  next
    case (Suc i)
    have nil: "\<not> glob_lang (upto_state is j) []" using upto_state_Nil [OF le] Suc by simp
    have "glob_lang (upto_state (Any # is) j) (s @ [c]) \<longleftrightarrow>
        (\<exists>k \<le> length s. glob_lang (upto_state is j) (drop k s @ [c]))"
      by (simp only: upto_state.simps glob_lang_Any_snoc nil simp_thms)
    also have "\<dots> \<longleftrightarrow> (\<exists>k \<le> length s. star_at is j \<and> glob_lang (upto_state is j) (drop k s)
        \<or> chars_at is i c \<and> glob_lang (upto_state is i) (drop k s))"
      using "2.IH" [OF le] Suc by simp
    also have "\<dots> \<longleftrightarrow> star_at is j \<and> glob_lang (Any # upto_state is j) s
        \<or> chars_at is i c \<and> glob_lang (Any # upto_state is i) s"
      unfolding glob_lang_Any by blast
    finally show ?thesis using Suc by simp
  qed
next
  case (3 f "is")
  then show ?case by simp
next
  case (4 f "is" j)
  then have le: "j \<le> nchars is" by simp
  show ?case
  proof (cases s)
    case Nil
    show ?thesis
      using upto_state_Nil [OF le] by (cases j) (auto simp: Nil)
  next
    case (Cons d s')
    show ?thesis
      using "4.IH" [OF le, of s'] by (cases j) (auto simp: Cons)
  qed
qed

subsection \<open>What the compiler's loops set\<close>

definition nfa_mask :: "nat \<Rightarrow> nfa \<Rightarrow> nat \<Rightarrow> u64 list" where
  "nfa_mask W n c = take W (drop (c * W) (char_masks n))"

definition nfa_wf :: "nat \<Rightarrow> nfa \<Rightarrow> bool" where
  "nfa_wf W n \<longleftrightarrow> length (initial_states n) = W \<and> length (star_states n) = W
     \<and> length (accept_states n) = W \<and> length (char_masks n) = 256 * W"

lemma pair_index: "(i :: nat) < W \<Longrightarrow> j < W \<Longrightarrow> c * W + i = d * W + j \<longleftrightarrow> c = d \<and> i = j"
proof
  assume l: "i < W" "j < W" and e: "c * W + i = d * W + j"
  have "c = (c * W + i) div W" "i = (c * W + i) mod W" "d = (d * W + j) div W" "j = (d * W + j) mod W"
    using l by auto
  then show "c = d \<and> i = j" using e by simp
qed auto

lemma pair_index_less: "(c :: nat) < 256 \<Longrightarrow> i < W \<Longrightarrow> c * W + i < 256 * W"
proof -
  assume "c < 256" "i < W"
  then have "c * W + i < (c + 1) * W" by simp
  also have "(c + 1) * W \<le> 256 * W" using \<open>c < 256\<close> by (intro mult_le_mono1) simp
  finally show ?thesis .
qed

lemma length_nfa_mask: "nfa_wf W n \<Longrightarrow> c < 256 \<Longrightarrow> length (nfa_mask W n c) = W"
proof -
  assume "nfa_wf W n" "c < 256"
  then have "(c + 1) * W \<le> length (char_masks n)" by (auto simp: nfa_wf_def intro: mult_le_mono1)
  then show ?thesis by (simp add: nfa_mask_def)
qed

lemma vbit_nfa_mask:
  "nfa_wf W n \<Longrightarrow> c < 256 \<Longrightarrow>
   vbit (nfa_mask W n c) k \<longleftrightarrow> k div 64 < W \<and> bit (char_masks n ! (c * W + k div 64)) (k mod 64)"
  by (auto simp: vbit_def length_nfa_mask) (auto simp: nfa_mask_def nfa_wf_def)

text \<open>\<open>same\<close>: the parts of the automaton an operation on characters leaves alone.\<close>

definition same_but_chars :: "nfa \<Rightarrow> nfa \<Rightarrow> bool" where
  "same_but_chars n n' \<longleftrightarrow> initial_states n' = initial_states n \<and> accept_states n' = accept_states n
     \<and> nfa_values n' = nfa_values n"

lemma set_mask_bits:
  assumes "nfa_wf W n" "c < 256" "st < 64 * W"
  shows "nfa_wf W (set_mask W st c n)"
    and "same_but_chars n (set_mask W st c n)" and "star_states (set_mask W st c n) = star_states n"
    and "d < 256 \<Longrightarrow> vbit (nfa_mask W (set_mask W st c n) d) k \<longleftrightarrow> vbit (nfa_mask W n d) k \<or> d = c \<and> k = st"
proof -
  show wf: "nfa_wf W (set_mask W st c n)"
    using assms(1) by (simp add: nfa_wf_def set_mask_def Let_def)
  show "same_but_chars n (set_mask W st c n)" "star_states (set_mask W st c n) = star_states n"
    by (simp_all add: same_but_chars_def set_mask_def Let_def)
  assume d: "d < 256"
  have w: "st div 64 < W" using assms(3) by simp
  have l: "c * W + st div 64 < length (char_masks n)"
    using pair_index_less [OF assms(2) w] assms(1) by (simp add: nfa_wf_def)
  have m: "st mod 64 < 64" by simp
  have eq: "k div 64 < W \<Longrightarrow> d * W + k div 64 = c * W + st div 64 \<longleftrightarrow> d = c \<and> k div 64 = st div 64"
    using pair_index [OF _ w] by blast
  have eq': "k div 64 < W \<Longrightarrow> c * W + st div 64 = d * W + k div 64 \<longleftrightarrow> d = c \<and> k div 64 = st div 64"
    using eq by metis
  show "vbit (nfa_mask W (set_mask W st c n) d) k \<longleftrightarrow> vbit (nfa_mask W n d) k \<or> d = c \<and> k = st"
  proof (cases "k div 64 < W")
    case False
    then show ?thesis
      using w by (auto simp: vbit_nfa_mask [OF wf d] vbit_nfa_mask [OF assms(1) d])
  next
    case True
    have "bit (char_masks (set_mask W st c n) ! (d * W + k div 64)) (k mod 64) \<longleftrightarrow>
        bit (char_masks n ! (d * W + k div 64)) (k mod 64) \<or> (d = c \<and> k div 64 = st div 64) \<and> k mod 64 = st mod 64"
      using l by (auto simp: set_mask_def Let_def nth_list_update eq' [OF True] bit_or_single [OF m]
          simp del: push_bit_of_1)
    also have "\<dots> \<longleftrightarrow> bit (char_masks n ! (d * W + k div 64)) (k mod 64) \<or> d = c \<and> k = st"
      using div_mod_64 [of k st] by blast
    finally show ?thesis
      using True by (auto simp: vbit_nfa_mask [OF wf d] vbit_nfa_mask [OF assms(1) d])
  qed
qed

text \<open>
  \<open>adds W n st is n' st'\<close>: starting from \<open>n\<close> at state \<open>st\<close>, compiling the items \<open>is\<close> leaves \<open>n'\<close>
  at \<open>st'\<close> with exactly the items' stars and characters added.
\<close>

definition adds :: "nat \<Rightarrow> nfa \<Rightarrow> nat \<Rightarrow> item list \<Rightarrow> nfa \<Rightarrow> nat \<Rightarrow> bool" where
  "adds W n st is n' st' \<longleftrightarrow> st' = st + nchars is \<and> nfa_wf W n' \<and> same_but_chars n n'
     \<and> (\<forall>k. vbit (star_states n') k \<longleftrightarrow> vbit (star_states n) k \<or> st \<le> k \<and> star_at is (k - st))
     \<and> (\<forall>c < 256. \<forall>k. vbit (nfa_mask W n' c) k \<longleftrightarrow>
           vbit (nfa_mask W n c) k \<or> st < k \<and> chars_at is (k - Suc st) (of_nat c))"

lemma adds_Nil: "nfa_wf W n \<Longrightarrow> adds W n st [] n st"
  by (simp add: adds_def same_but_chars_def)

lemma adds_trans:
  assumes "adds W n s0 is n1 s1" and "adds W n1 s1 js n2 s2"
  shows "adds W n s0 (is @ js) n2 s2"
proof -
  have s1: "s1 = s0 + nchars is" using assms(1) by (simp add: adds_def)
  have star: "s0 \<le> k \<and> star_at (is @ js) (k - s0) \<longleftrightarrow> s0 \<le> k \<and> star_at is (k - s0) \<or> s1 \<le> k \<and> star_at js (k - s1)" for k
    by (auto simp: star_at_append s1)
  have chr: "s0 < k \<and> chars_at (is @ js) (k - Suc s0) c \<longleftrightarrow>
      s0 < k \<and> chars_at is (k - Suc s0) c \<or> s1 < k \<and> chars_at js (k - Suc s1) c" for k c
    using chars_at_less [of "is" "k - Suc s0" c] by (auto simp: chars_at_append s1 not_less split: if_splits)
  show ?thesis
    using assms unfolding adds_def star chr
    by (auto simp: nchars_append same_but_chars_def)
qed

lemma adds_char:
  assumes "nfa_wf W n" "st + 1 < 64 * W" "set cs \<subseteq> {..<256}" "\<And>c. c < 256 \<Longrightarrow> f (of_nat c) \<longleftrightarrow> c \<in> set cs"
  shows "adds W n st [Chr f] (fold (\<lambda>c n. set_mask W (st + 1) c n) cs n) (st + 1)"
proof -
  have "nfa_wf W n \<Longrightarrow> let n' = fold (\<lambda>c n. set_mask W (st + 1) c n) cs n in
      nfa_wf W n' \<and> same_but_chars n n' \<and> star_states n' = star_states n
      \<and> (\<forall>d < 256. \<forall>k. vbit (nfa_mask W n' d) k \<longleftrightarrow> vbit (nfa_mask W n d) k \<or> d \<in> set cs \<and> k = st + 1)" for n
    using assms(3)
  proof (induction cs arbitrary: n)
    case Nil
    then show ?case by (simp add: same_but_chars_def)
  next
    case (Cons c cs)
    have c: "c < 256" using Cons.prems by simp
    note sm = set_mask_bits [OF Cons.prems(1) c assms(2)]
    from Cons.IH [OF sm(1)] Cons.prems(2) sm show ?case
      by (auto simp: Let_def same_but_chars_def)
  qed
  note all = this [OF assms(1), unfolded Let_def]
  have one: "chars_at [Chr f] j x \<longleftrightarrow> j = 0 \<and> f x" "\<not> star_at [Chr f] j" for j x
    by (cases j; simp)+
  have pos: "st < k \<and> k - Suc st = 0 \<longleftrightarrow> k = st + 1" for k by auto
  have "vbit (nfa_mask W n c) k \<or> c \<in> set cs \<and> k = st + 1 \<longleftrightarrow>
      vbit (nfa_mask W n c) k \<or> st < k \<and> chars_at [Chr f] (k - Suc st) (of_nat c)" if "c < 256" for c k
    unfolding one using assms(4) [OF that] pos by metis
  with all show ?thesis by (auto simp: adds_def one(2))
qed

lemma adds_Star:
  "nfa_wf W n \<Longrightarrow> st < 64 * W \<Longrightarrow> adds W n st [Any] (n\<lparr>star_states := set_bit_at (star_states n) st\<rparr>) st"
  by (auto simp: adds_def nfa_wf_def same_but_chars_def vbit_set_bit_at nfa_mask_def)

lemma fold_if: "fold (\<lambda>c n. if P c then g c n else n) cs n = fold g (List.filter P cs) n"
  by (induction cs arbitrary: n) auto

lemma u8_of_unat: "of_nat (unat c) = (c :: u8)" by simp

lemma of_nat_u8_eq: "c < 256 \<Longrightarrow> of_nat c = (d :: u8) \<longleftrightarrow> c = unat d"
  by (auto simp: unat_of_nat take_bit_nat_eq_self)

lemma adds_Str:
  "nfa_wf W n \<Longrightarrow> st + length l < 64 * W \<Longrightarrow>
   fold (\<lambda>c (n, st). (set_mask W (st + 1) (unat c) n, st + 1)) l (n, st) = (n', st') \<Longrightarrow>
   adds W n st (token_items (Str l)) n' st'"
proof (induction l arbitrary: n st)
  case Nil
  then show ?case by (simp add: adds_Nil)
next
  case (Cons c l)
  have "adds W n st [Chr (\<lambda>x. x = c)] (fold (\<lambda>c n. set_mask W (st + 1) c n) [unat c] n) (st + 1)"
    by (rule adds_char) (use Cons.prems unat_u8_less [of c] in \<open>auto simp: of_nat_u8_eq\<close>)
  then have one: "adds W n st [Chr (\<lambda>x. x = c)] (set_mask W (st + 1) (unat c) n) (st + 1)" by simp
  then have "nfa_wf W (set_mask W (st + 1) (unat c) n)" by (simp add: adds_def)
  from Cons.IH [OF this, of "st + 1"] Cons.prems
  have "adds W (set_mask W (st + 1) (unat c) n) (st + 1) (token_items (Str l)) n' st'" by simp
  from adds_trans [OF one this] show ?case by simp
qed

lemma token_states_nchars: "token_states t = nchars (token_items t)"
proof (cases t)
  case (Str l)
  have "length l = nchars (map (\<lambda>c. Chr (\<lambda>x. x = c)) l)" by (induction l) auto
  with Str show ?thesis by simp
qed auto

lemma adds_token:
  assumes "nfa_wf W n" "st + token_states t < 64 * W" "nfa_token W t (n, st) = (n', st')"
  shows "adds W n st (token_items t) n' st'"
proof (cases t)
  case (Str l)
  show ?thesis
    unfolding Str by (rule adds_Str) (use assms Str in auto)
next
  case Star
  with assms adds_Star show ?thesis by auto
next
  case Question
  have "adds W n st [Chr (\<lambda>_. True)] (fold (\<lambda>c n. set_mask W (st + 1) c n) [0..<256] n) (st + 1)"
    by (rule adds_char) (use assms Question in auto)
  moreover have "n' = fold (\<lambda>c n. set_mask W (st + 1) c n) [0..<256] n" "st' = st + 1"
    using assms(3) Question by (auto simp del: upt_rec_numeral)
  ultimately show ?thesis using Question by (simp del: upt_rec_numeral)
next
  case (Bracket f)
  let ?cs = "List.filter (\<lambda>c. f (of_nat c)) [0..<256]"
  have "adds W n st [Chr f] (fold (\<lambda>c n. set_mask W (st + 1) c n) ?cs n) (st + 1)"
    by (rule adds_char) (use assms Bracket in auto)
  moreover have "n' = fold (\<lambda>c n. set_mask W (st + 1) c n) ?cs n" "st' = st + 1"
    using assms(3) Bracket by (auto simp: fold_if simp del: upt_rec_numeral)
  ultimately show ?thesis using Bracket by (simp del: upt_rec_numeral)
qed

lemma adds_tokens:
  "nfa_wf W n \<Longrightarrow> st + sum_list (map token_states ts) < 64 * W \<Longrightarrow> fold (nfa_token W) ts (n, st) = (n', st') \<Longrightarrow>
   adds W n st (tokens_items ts) n' st'"
proof (induction ts arbitrary: n st)
  case Nil
  then show ?case by (simp add: adds_Nil)
next
  case (Cons t ts)
  obtain n1 s1 where one: "nfa_token W t (n, st) = (n1, s1)" by fastforce
  have a: "adds W n st (token_items t) n1 s1"
    by (rule adds_token [OF Cons.prems(1) _ one]) (use Cons.prems in simp)
  then have "nfa_wf W n1" "s1 = st + token_states t" by (simp_all add: adds_def token_states_nchars)
  with Cons.IH [of n1 s1] Cons.prems one have "adds W n1 s1 (tokens_items ts) n' st'" by simp
  from adds_trans [OF a this] show ?case by simp
qed

subsection \<open>The compiled automaton\<close>

abbreviation pat_items :: "pattern \<Rightarrow> item list" where
  "pat_items p \<equiv> tokens_items (tokens p)"

text \<open>A property of a global state, as one of a pattern and a state of that pattern.\<close>

fun at :: "(pattern \<Rightarrow> nat \<Rightarrow> bool) \<Rightarrow> pattern list \<Rightarrow> nat \<Rightarrow> bool" where
  "at P [] k \<longleftrightarrow> False"
| "at P (p # ps) k \<longleftrightarrow>
     (if k \<le> nchars (pat_items p) then P p k else at P ps (k - Suc (nchars (pat_items p))))"

lemma sum_token_states: "sum_list (map token_states ts) = nchars (tokens_items ts)"
  by (induction ts) (auto simp: nchars_append token_states_nchars)

lemma count_states_simps [simp]:
  "count_states [] = 0" "count_states (p # ps) = Suc (nchars (pat_items p)) + count_states ps"
  "count_states (ps @ qs) = count_states ps + count_states qs"
  by (simp_all add: count_states_def sum_token_states)

lemma at_append:
  "at P (ps @ qs) k \<longleftrightarrow> (if k < count_states ps then at P ps k else at P qs (k - count_states ps))"
  by (induction ps arbitrary: k) auto

lemma at_less: "at P ps k \<Longrightarrow> k < count_states ps"
proof (induction ps arbitrary: k)
  case (Cons p ps)
  show ?case
  proof (cases "k \<le> nchars (pat_items p)")
    case False
    then have "k - Suc (nchars (pat_items p)) < count_states ps" using Cons by simp
    then show ?thesis using False by simp
  qed simp
qed simp

lemma at_conj: "at P ps k \<and> at Q ps k \<longleftrightarrow> at (\<lambda>p j. P p j \<and> Q p j) ps k"
  by (induction ps arbitrary: k) auto

lemma at_cong: "(\<And>p j. j \<le> nchars (pat_items p) \<Longrightarrow> P p j \<longleftrightarrow> Q p j) \<Longrightarrow> at P ps k \<longleftrightarrow> at Q ps k"
  by (induction ps arbitrary: k) auto

lemma at_final:
  "(\<exists>k. at (\<lambda>p j. j = nchars (pat_items p) \<and> Q p) ps k \<and> at (\<lambda>p j. f k = v p) ps k \<and> f k = x)
   \<Longrightarrow> \<exists>p \<in> set ps. Q p \<and> v p = x"
proof (induction ps arbitrary: f)
  case Nil
  then show ?case by simp
next
  case (Cons p ps)
  then obtain k where k: "at (\<lambda>p j. j = nchars (pat_items p) \<and> Q p) (p # ps) k"
      "at (\<lambda>p j. f k = v p) (p # ps) k" "f k = x" by blast
  show ?case
  proof (cases "k \<le> nchars (pat_items p)")
    case True
    with k show ?thesis by auto
  next
    case False
    let ?n = "Suc (nchars (pat_items p))"
    have "k - ?n + ?n = k" using False by simp
    then have "\<exists>p \<in> set ps. Q p \<and> v p = x"
      using False k by (intro Cons.IH [of "\<lambda>i. f (i + ?n)"] exI [of _ "k - ?n"]) simp
    then show ?thesis by auto
  qed
qed

lemma at_final_ex:
  assumes "p \<in> set ps" "Q p"
  shows "\<exists>k. at (\<lambda>p j. j = nchars (pat_items p) \<and> Q p) ps k \<and> (\<forall>R. at (\<lambda>p j. R p) ps k = R p)"
  using assms
proof (induction ps)
  case Nil
  then show ?case by simp
next
  case (Cons q ps)
  show ?case
  proof (cases "p = q")
    case True
    then show ?thesis using Cons.prems by (intro exI [of _ "nchars (pat_items q)"]) auto
  next
    case False
    with Cons obtain k where "at (\<lambda>p j. j = nchars (pat_items p) \<and> Q p) ps k"
      "\<forall>R. at (\<lambda>p j. R p) ps k = R p" by auto
    then show ?thesis by (intro exI [of _ "k + Suc (nchars (pat_items q))"]) auto
  qed
qed

lemma at_initial: "ps \<noteq> [] \<Longrightarrow> (\<And>p. P p 0 \<longleftrightarrow> c) \<Longrightarrow> at P ps 0 \<longleftrightarrow> c"
  by (cases ps) auto

text \<open>One byte moves the states of all patterns as \<open>upto_state_snoc\<close> says.\<close>

abbreviation reach :: "bytes \<Rightarrow> pattern \<Rightarrow> nat \<Rightarrow> bool" where
  "reach s p j \<equiv> glob_lang (upto_state (pat_items p) j) s"

lemma at_reach_snoc:
  "at (reach (s @ [c])) ps k \<longleftrightarrow>
     at (reach s) ps k \<and> at (\<lambda>p j. star_at (pat_items p) j) ps k
     \<or> 0 < k \<and> at (\<lambda>p j. 0 < j \<and> chars_at (pat_items p) (j - 1) c) ps k \<and> at (reach s) ps (k - 1)"
proof (induction ps arbitrary: k)
  case Nil
  then show ?case by simp
next
  case (Cons p ps)
  let ?m = "nchars (pat_items p)"
  show ?case
  proof (cases "k \<le> ?m")
    case True
    then show ?thesis using upto_state_snoc [OF True, of s c] by (cases k) auto
  next
    case False
    show ?thesis
    proof (cases "k = Suc ?m")
      case True
      have no: "\<not> at (\<lambda>p j. 0 < j \<and> chars_at (pat_items p) (j - 1) c) ps 0"
        by (cases ps) auto
      show ?thesis using Cons [of 0] no by (simp add: True)
    next
      case False
      with \<open>\<not> k \<le> ?m\<close> have g: "\<not> k - 1 \<le> ?m" "0 < k" "0 < k - Suc ?m" "k - 1 - Suc ?m = k - Suc ?m - 1" by auto
      have st: "at P (p # ps) k \<longleftrightarrow> at P ps (k - Suc ?m)" for P using \<open>\<not> k \<le> ?m\<close> by simp
      have st1: "at P (p # ps) (k - 1) \<longleftrightarrow> at P ps (k - Suc ?m - 1)" for P using g by simp
      show ?thesis unfolding st st1 using Cons [of "k - Suc ?m"] g by simp
    qed
  qed
qed

text \<open>The invariant of the compiler's outer loop.\<close>

definition compiled :: "nat \<Rightarrow> nat \<Rightarrow> pattern list \<Rightarrow> nfa \<Rightarrow> nat \<Rightarrow> bool" where
  "compiled W N ps n st \<longleftrightarrow> st = count_states ps \<and> nfa_wf W n \<and> length (nfa_values n) = N
     \<and> (\<forall>k. vbit (initial_states n) k \<longleftrightarrow> at (\<lambda>p j. j = 0) ps k)
     \<and> (\<forall>k. vbit (star_states n) k \<longleftrightarrow> at (\<lambda>p j. star_at (pat_items p) j) ps k)
     \<and> (\<forall>k. vbit (accept_states n) k \<longleftrightarrow> at (\<lambda>p j. j = nchars (pat_items p)) ps k)
     \<and> (\<forall>c < 256. \<forall>k. vbit (nfa_mask W n c) k \<longleftrightarrow>
           at (\<lambda>p j. 0 < j \<and> chars_at (pat_items p) (j - 1) (of_nat c)) ps k)
     \<and> (\<forall>k. at (\<lambda>p j. j = nchars (pat_items p)) ps k \<longrightarrow> at (\<lambda>p j. nfa_values n ! k = pat_value p) ps k)"

lemma at_snoc:
  assumes "\<And>j. P p j \<Longrightarrow> j \<le> nchars (pat_items p)"
  shows "at P (ps @ [p]) k \<longleftrightarrow> at P ps k \<or> count_states ps \<le> k \<and> P p (k - count_states ps)"
  using at_less [of P ps k] assms by (auto simp: at_append split: if_splits)

lemma compiled_step:
  assumes c: "compiled W N ps n st" and N: "count_states (ps @ [p]) \<le> N" "N \<le> 64 * W"
    and r: "nfa_pattern W p (n, st) = (n', st')"
  shows "compiled W N (ps @ [p]) n' st'"
proof -
  let ?n1 = "n\<lparr>initial_states := set_bit_at (initial_states n) st\<rparr>"
  obtain n2 s2 where f: "fold (nfa_token W) (tokens p) (?n1, st) = (n2, s2)" by fastforce
  have st: "st = count_states ps" and wf: "nfa_wf W n" and vals: "length (nfa_values n) = N"
    using c by (simp_all add: compiled_def)
  have wf1: "nfa_wf W ?n1" using wf by (simp add: nfa_wf_def)
  have a: "adds W ?n1 st (pat_items p) n2 s2"
    by (rule adds_tokens [OF wf1 _ f]) (use N st in \<open>simp add: sum_token_states\<close>)
  have s2: "s2 = count_states ps + nchars (pat_items p)" using a st by (simp add: adds_def)
  have n': "n' = n2\<lparr>accept_states := set_bit_at (accept_states n2) s2, nfa_values := (nfa_values n2)[s2 := pat_value p]\<rparr>"
    and st': "st' = s2 + 1"
    using r f by (auto simp: nfa_pattern_def Let_def)
  have wf2: "nfa_wf W n2" and same: "same_but_chars ?n1 n2" using a by (simp_all add: adds_def)
  have s2l: "s2 div 64 < length (accept_states n)" "st div 64 < length (initial_states n)" "s2 < N"
    using N s2 st wf by (auto simp: nfa_wf_def)
  have initial: "vbit (initial_states n') k \<longleftrightarrow> at (\<lambda>p j. j = 0) (ps @ [p]) k" for k
  proof -
    have "vbit (initial_states n') k \<longleftrightarrow> vbit (initial_states n) k \<or> k = st"
      using same s2l by (simp add: n' same_but_chars_def vbit_set_bit_at)
    then show ?thesis using c by (subst at_snoc) (auto simp: compiled_def st)
  qed
  have accept: "vbit (accept_states n') k \<longleftrightarrow> at (\<lambda>p j. j = nchars (pat_items p)) (ps @ [p]) k" for k
  proof -
    have "vbit (accept_states n') k \<longleftrightarrow> vbit (accept_states n) k \<or> k = s2"
      using same s2l by (simp add: n' same_but_chars_def vbit_set_bit_at)
    then show ?thesis using c by (subst at_snoc) (auto simp: compiled_def s2)
  qed
  have star: "vbit (star_states n') k \<longleftrightarrow> at (\<lambda>p j. star_at (pat_items p) j) (ps @ [p]) k" for k
    using a c by (subst at_snoc) (auto simp: n' adds_def compiled_def st star_at_le)
  have chars: "vbit (nfa_mask W n' c) k \<longleftrightarrow>
      at (\<lambda>p j. 0 < j \<and> chars_at (pat_items p) (j - 1) (of_nat c)) (ps @ [p]) k" if "c < 256" for c k
  proof -
    have m: "nfa_mask W n' c = nfa_mask W n2 c" "nfa_mask W ?n1 c = nfa_mask W n c"
      by (simp_all add: n' nfa_mask_def)
    have "vbit (nfa_mask W n' c) k \<longleftrightarrow> vbit (nfa_mask W n c) k \<or> st < k \<and> chars_at (pat_items p) (k - Suc st) (of_nat c)"
      using a that unfolding m by (simp add: adds_def m)
    also have "vbit (nfa_mask W n c) k \<longleftrightarrow> at (\<lambda>p j. 0 < j \<and> chars_at (pat_items p) (j - 1) (of_nat c)) ps k"
      using c that by (simp add: compiled_def)
    finally have v: "vbit (nfa_mask W n' c) k \<longleftrightarrow> at (\<lambda>p j. 0 < j \<and> chars_at (pat_items p) (j - 1) (of_nat c)) ps k
        \<or> st < k \<and> chars_at (pat_items p) (k - Suc st) (of_nat c)" .
    have le: "0 < j \<and> chars_at (pat_items p) (j - 1) x \<Longrightarrow> j \<le> nchars (pat_items p)" for p j x
      using chars_at_less [of "pat_items p" "j - 1" x] by auto
    show ?thesis by (subst at_snoc) (use v le in \<open>auto simp: st\<close>)
  qed
  have vals': "at (\<lambda>p j. nfa_values n' ! k = pat_value p) (ps @ [p]) k"
    if k: "at (\<lambda>p j. j = nchars (pat_items p)) (ps @ [p]) k" for k
  proof (cases "k < count_states ps")
    case True
    then have "nfa_values n' ! k = nfa_values n ! k"
      using same by (simp add: n' same_but_chars_def s2)
    moreover have "at (\<lambda>p j. nfa_values n ! k = pat_value p) ps k"
      using c k True by (simp add: compiled_def at_append)
    ultimately show ?thesis using True by (simp add: at_append)
  next
    case False
    then have "k = s2" using k by (auto simp: at_append s2 split: if_splits)
    then show ?thesis using same vals s2l(3) by (simp add: at_append n' same_but_chars_def s2)
  qed
  show ?thesis
    unfolding compiled_def using initial accept star chars vals' wf2 same vals st' s2
    by (auto simp: n' nfa_wf_def same_but_chars_def)
qed

lemma compiled_all:
  "compiled W N done n st \<Longrightarrow> count_states (done @ ps) \<le> N \<Longrightarrow> N \<le> 64 * W \<Longrightarrow>
   fold (nfa_pattern W) ps (n, st) = (n', st') \<Longrightarrow> compiled W N (done @ ps) n' st'"
proof (induction ps arbitrary: "done" n st)
  case Nil
  then show ?case by simp
next
  case (Cons p ps)
  obtain n1 s1 where one: "nfa_pattern W p (n, st) = (n1, s1)" by fastforce
  have "compiled W N (done @ [p]) n1 s1"
    by (rule compiled_step [OF Cons.prems(1) _ Cons.prems(3) one]) (use Cons.prems in simp)
  from Cons.IH [OF this] Cons.prems one show ?case by simp
qed

lemma div_ceil_64: "n \<le> 64 * div_ceil n 64"
proof -
  have "(n + 63) div 64 * 64 + (n + 63) mod 64 = n + 63" by simp
  moreover have "(n + 63) mod 64 < 64" by simp
  ultimately show ?thesis unfolding div_ceil_def by linarith
qed

lemma nfa_compile_compiled:
  "\<exists>st. compiled (div_ceil (count_states ps) 64) (count_states ps) ps (nfa_compile ps) st"
proof -
  let ?N = "count_states ps" and ?W = "div_ceil (count_states ps) 64"
  let ?n = "\<lparr>initial_states = replicate ?W 0, star_states = replicate ?W 0, accept_states = replicate ?W 0,
      char_masks = replicate (256 * ?W) 0, nfa_values = replicate ?N (- 1)\<rparr>"
  obtain n' st' where f: "fold (nfa_pattern ?W) ps (?n, 0) = (n', st')" by fastforce
  have "compiled ?W ?N [] ?n 0"
    by (simp add: compiled_def nfa_wf_def nfa_mask_def)
  from compiled_all [OF this _ div_ceil_64 f] f show ?thesis
    by (auto simp: nfa_compile_def Let_def)
qed

text \<open>After reading \<open>s\<close>, the state vector holds exactly the states some pattern reaches on \<open>s\<close>.\<close>

lemma nfa_run_states:
  assumes "compiled W N ps n st"
  shows "length (nfa_run n s) = W \<and> (\<forall>k. vbit (nfa_run n s) k \<longleftrightarrow> k < 64 * W \<and> at (reach s) ps k)"
proof (induction s rule: rev_induct)
  case Nil
  have "at (\<lambda>p j. j = 0) ps k = at (reach []) ps k" for k
    by (rule at_cong) (simp add: upto_state_Nil)
  moreover have "vbit (initial_states n) k \<Longrightarrow> k < 64 * W" for k
    using assms by (auto simp: vbit_def compiled_def nfa_wf_def)
  ultimately show ?case
    using assms by (auto simp: nfa_run_def compiled_def nfa_wf_def)
next
  case (snoc c s)
  let ?v = "nfa_run n s" and ?m = "nfa_mask W n (unat c)"
  have wf: "nfa_wf W n" using assms by (simp add: compiled_def)
  have run: "nfa_run n (s @ [c]) = nfa_shift 0 ?v (star_states n) ?m"
    using wf by (simp add: nfa_run_def nfa_mask_def nfa_wf_def Let_def)
  have v: "vbit ?v k \<longleftrightarrow> k < 64 * W \<and> at (reach s) ps k" for k using snoc by blast
  have len: "length ?v = W" "length (star_states n) = W" "length ?m = W"
    using snoc wf length_nfa_mask [OF wf unat_u8_less] by (simp_all add: nfa_wf_def)
  have l: "length (nfa_run n (s @ [c])) = W" unfolding run by (rule length_nfa_shift [OF len])
  have out: "vbit (nfa_run n (s @ [c])) k \<Longrightarrow> k < 64 * W" for k
    using l by (auto simp: vbit_def)
  have chr: "vbit ?m k \<longleftrightarrow> at (\<lambda>p j. 0 < j \<and> chars_at (pat_items p) (j - 1) c) ps k" for k
    using assms unat_u8_less [of c] by (simp add: compiled_def)
  have star: "vbit (star_states n) k \<longleftrightarrow> at (\<lambda>p j. star_at (pat_items p) j) ps k" for k
    using assms by (simp add: compiled_def)
  have "vbit (nfa_run n (s @ [c])) k \<longleftrightarrow> at (reach (s @ [c])) ps k" if k: "k < 64 * W" for k
  proof -
    have "vbit (nfa_run n (s @ [c])) k \<longleftrightarrow> vbit ?v k \<and> vbit (star_states n) k
        \<or> vbit ?m k \<and> 0 < k \<and> vbit ?v (k - 1)"
      unfolding run using vbit_nfa_shift [OF len _ k, of 0] by (cases "k = 0") auto
    also have "\<dots> \<longleftrightarrow> at (reach (s @ [c])) ps k"
      unfolding at_reach_snoc chr star v using k by auto
    finally show ?thesis .
  qed
  with l out show ?case by blast
qed

subsection \<open>Reading off the answer\<close>

lemma trailing_zeros_bit:
  assumes "w \<noteq> 0"
  shows "trailing_zeros w < 64 \<and> bit w (trailing_zeros w) \<and> (\<forall>i < trailing_zeros w. \<not> bit w i)"
proof -
  let ?t = "takeWhile (\<lambda>i. \<not> bit w i) [0..<64]"
  have "\<exists>i. bit w i" using assms bit_word_eqI [of w 0] by auto
  then obtain i where i: "bit w i" by blast
  then have i64: "i < 64" using bit_imp_le_length [OF i] by simp
  have "dropWhile (\<lambda>i. \<not> bit w i) [0..<64] \<noteq> []"
    using i i64 by (auto simp: dropWhile_eq_Nil_conv simp del: upt_rec_numeral)
  moreover have "length ?t + length (dropWhile (\<lambda>i. \<not> bit w i) [0..<64]) = 64"
    by (metis length_append takeWhile_dropWhile_id length_upt diff_zero)
  ultimately have "length ?t < 64" by (cases "dropWhile (\<lambda>i. \<not> bit w i) [0..<64]") auto
  moreover from this have "bit w ([0..<64] ! length ?t)"
    using nth_length_takeWhile [of "\<lambda>i. \<not> bit w i" "[0..<64]"] by (simp del: upt_rec_numeral)
  moreover have "\<not> bit w i" if "i < length ?t" for i
  proof -
    have "?t ! i = i" using that \<open>length ?t < 64\<close> by (metis add_0 less_trans nth_upt takeWhile_nth)
    then show ?thesis using that nth_mem [OF that] by (metis (no_types, lifting) set_takeWhileD)
  qed
  ultimately show ?thesis by (simp add: trailing_zeros_def del: upt_rec_numeral)
qed

lemma low_bits_zero: "(\<And>i. i < t \<Longrightarrow> \<not> bit w i) \<Longrightarrow> take_bit t (w :: u64) = 0"
  by (rule bit_word_eqI) (auto simp: bit_simps)

lemma bit_clear_lowest:
  fixes w :: u64
  assumes "t < 64" "bit w t" "\<And>i. i < t \<Longrightarrow> \<not> bit w i"
  shows "bit (w AND (w - 1)) i \<longleftrightarrow> bit w i \<and> i \<noteq> t"
proof -
  let ?h = "w AND NOT (mask (Suc t))"
  have w: "w = ?h OR 2 ^ t"
    using assms by (intro bit_word_eqI) (auto simp: bit_simps not_less_eq less_Suc_eq, metis linorder_neqE_nat)
  have d: "?h AND 2 ^ t = 0" by (rule bit_word_eqI) (auto simp: bit_simps)
  have "w = ?h + 2 ^ t" using disjunctive_add_eq_or [OF d] w by simp
  then have "w - 1 = ?h + (2 ^ t - 1)" by simp
  also have "2 ^ t - 1 = (mask t :: u64)" by (simp add: mask_eq_exp_minus_1)
  also have "?h + mask t = ?h OR mask t"
    by (rule disjunctive_add_eq_or) (rule bit_word_eqI, auto simp: bit_simps)
  finally have m: "w - 1 = ?h OR mask t" .
  show ?thesis
    unfolding m using assms
    by (auto simp: bit_and_iff bit_or_iff bit_not_iff bit_mask_iff less_Suc_eq dest: bit_imp_le_length)
qed

lemma nfa_best_word_Max:
  "nfa_best_word vals i w v = Max (insert v {vals ! (i * 64 + b) | b. bit w b})"
proof (induction vals i w v rule: nfa_best_word.induct)
  case (1 vals i w v)
  show ?case
  proof (cases "w = 0")
    case True
    then show ?thesis by (simp add: nfa_best_word.simps)
  next
    case False
    let ?t = "trailing_zeros w"
    have fin: "finite {vals ! (i * 64 + b) | b. bit x b}" for x :: u64
      by (rule finite_surj [of "{..<64}" _ "\<lambda>b. vals ! (i * 64 + b)"]) (auto dest: bit_imp_le_length)
    have t: "?t < 64" "bit w ?t" "\<And>i. i < ?t \<Longrightarrow> \<not> bit w i"
      using trailing_zeros_bit [OF False] by auto
    have clear: "bit (w AND (w - 1)) b \<longleftrightarrow> bit w b \<and> b \<noteq> ?t" for b
      by (rule bit_clear_lowest) (use t in auto)
    let ?x = "vals ! (i * 64 + ?t)" and ?S = "{vals ! (i * 64 + b) | b. bit (w AND (w - 1)) b}"
    have S: "insert v {vals ! (i * 64 + b) | b. bit w b} = insert v (insert ?x ?S)"
      unfolding clear using t by blast
    have "nfa_best_word vals i w v = Max (insert (max v ?x) ?S)"
      using 1 False by (simp add: nfa_best_word.simps [of vals i w v])
    also have "\<dots> = Max (insert v (insert ?x ?S))"
      using fin by (cases "?S = {}") (auto simp: Max_insert max.assoc max.left_commute)
    finally show ?thesis unfolding S .
  qed
qed

lemma fold_Max:
  assumes "\<And>x v. x \<in> set xs \<Longrightarrow> f x v = Max (insert (v :: int) (S x))" "\<And>x. x \<in> set xs \<Longrightarrow> finite (S x)"
  shows "fold f xs v = Max (insert v (\<Union>x \<in> set xs. S x))"
  using assms
proof (induction xs arbitrary: v)
  case Nil
  then show ?case by simp
next
  case (Cons x xs)
  let ?U = "\<Union>x \<in> set xs. S x"
  have fin: "finite (S x)" "finite ?U" using Cons.prems by auto
  have "fold f (x # xs) v = Max (insert (Max (insert v (S x))) ?U)"
    using Cons by simp
  also have "\<dots> = Max (insert v (S x) \<union> ?U)"
  proof (cases "?U = {}")
    case False
    then show ?thesis using fin by (subst Max_Un) (auto simp: Max_insert)
  qed simp
  finally show ?case by (simp add: Un_assoc)
qed

lemma nfa_matches_Max:
  assumes "length (accept_states n) = length (nfa_run n s)"
  shows "nfa_matches n s = Max (insert (- 1) {nfa_values n ! k | k. vbit (nfa_run n s) k \<and> vbit (accept_states n) k})"
proof -
  let ?v = "nfa_run n s" and ?a = "accept_states n"
  let ?S = "\<lambda>(i, w :: u64). {nfa_values n ! (i * 64 + b) | b. bit (w AND ?a ! i) b}"
  have fin: "finite (?S x)" for x
    by (cases x, clarify, rule finite_surj [of "{..<64}" _ "\<lambda>b. nfa_values n ! (fst x * 64 + b)"])
      (auto dest: bit_imp_le_length)
  have "nfa_matches n s = Max (insert (- 1) (\<Union>x \<in> set (enumerate 0 ?v). ?S x))"
    unfolding nfa_matches_def by (rule fold_Max) (use fin in \<open>auto simp: nfa_best_word_Max\<close>)
  also have "(\<Union>x \<in> set (enumerate 0 ?v). ?S x) = {nfa_values n ! k | k. vbit ?v k \<and> vbit ?a k}"
    (is "?L = ?R")
  proof (intro equalityI subsetI)
    fix x assume "x \<in> ?L"
    then obtain i b where h: "i < length ?v" "bit (?v ! i) b" "bit (?a ! i) b" "x = nfa_values n ! (i * 64 + b)"
      by (auto simp: in_set_enumerate_eq bit_and_iff)
    then have "b < 64" using bit_imp_le_length [of "?v ! i" b] by simp
    then have "(i * 64 + b) div 64 = i" "(i * 64 + b) mod 64 = b" by auto
    with h assms show "x \<in> ?R" by (auto simp: vbit_def intro!: exI [of _ "i * 64 + b"])
  next
    fix x assume "x \<in> ?R"
    then obtain k where k: "vbit ?v k" "vbit ?a k" "x = nfa_values n ! k" by blast
    then have "(k div 64, ?v ! (k div 64)) \<in> set (enumerate 0 ?v)"
      by (auto simp: in_set_enumerate_eq vbit_def)
    moreover have "x \<in> ?S (k div 64, ?v ! (k div 64))"
      using k by (auto simp: vbit_def bit_and_iff intro!: exI [of _ "k mod 64"])
    ultimately show "x \<in> ?L" by blast
  qed
  finally show ?thesis .
qed

text \<open>C7. The parallel automaton gives the largest value among the patterns whose language holds
  the string, and -1 when there is none.\<close>

theorem nfa_correct:
  "nfa_matches (nfa_compile ps) s =
     Max (insert (- 1) (set (map pat_value (List.filter (\<lambda>p. glob_lang (tokens_items (tokens p)) s) ps))))"
proof -
  let ?n = "nfa_compile ps"
  obtain st where c: "compiled (div_ceil (count_states ps) 64) (count_states ps) ps ?n st"
    using nfa_compile_compiled by blast
  note run = nfa_run_states [OF c, of s]
  have len: "length (accept_states ?n) = length (nfa_run ?n s)"
    using c run by (simp add: compiled_def nfa_wf_def)
  let ?F = "\<lambda>p j. j = nchars (pat_items p) \<and> glob_lang (pat_items p) s"
  have bits: "vbit (nfa_run ?n s) k \<and> vbit (accept_states ?n) k \<longleftrightarrow> at ?F ps k" for k
  proof -
    have "at (reach s) ps k \<and> at (\<lambda>p j. j = nchars (pat_items p)) ps k \<longleftrightarrow> at ?F ps k"
      unfolding at_conj by (rule at_cong) (auto simp: upto_state_all)
    moreover have "at ?F ps k \<Longrightarrow> k < 64 * div_ceil (count_states ps) 64"
      using at_less [of ?F ps k] div_ceil_64 [of "count_states ps"] by linarith
    ultimately show ?thesis using c run by (auto simp: compiled_def)
  qed
  have vals: "at (\<lambda>p j. nfa_values ?n ! k = pat_value p) ps k" if "at ?F ps k" for k
  proof -
    have "at (\<lambda>p j. j = nchars (pat_items p)) ps k"
      using that at_conj [of "\<lambda>p j. j = nchars (pat_items p)" ps k "\<lambda>p j. glob_lang (pat_items p) s"] by simp
    with c show ?thesis by (simp add: compiled_def)
  qed
  have "{nfa_values ?n ! k | k. at ?F ps k} = pat_value ` {p \<in> set ps. glob_lang (pat_items p) s}"
    (is "?L = ?R")
  proof (intro equalityI subsetI)
    fix x assume "x \<in> ?L"
    then obtain k where k: "at ?F ps k" "nfa_values ?n ! k = x" by blast
    have "\<exists>k. at ?F ps k \<and> at (\<lambda>p j. nfa_values ?n ! k = pat_value p) ps k \<and> nfa_values ?n ! k = x"
      using vals [OF k(1)] k by blast
    from at_final [of "\<lambda>p. glob_lang (pat_items p) s" ps "\<lambda>k. nfa_values ?n ! k" pat_value x, OF this]
    have "\<exists>p \<in> set ps. glob_lang (pat_items p) s \<and> pat_value p = x" .
    then show "x \<in> ?R" by auto
  next
    fix x assume "x \<in> ?R"
    then obtain p where p: "p \<in> set ps" "glob_lang (pat_items p) s" "x = pat_value p" by blast
    from at_final_ex [of p ps "\<lambda>p. glob_lang (pat_items p) s", OF p(1,2)]
    obtain k where k: "at ?F ps k" "\<forall>R. at (\<lambda>p j. R p) ps k = R p" by blast
    have "nfa_values ?n ! k = pat_value p" 
      using vals [OF k(1)] k(2) [THEN spec, of "\<lambda>p. nfa_values ?n ! k = pat_value p"] by simp
    with k(1) p show "x \<in> ?L" by (auto intro!: exI [of _ k])
  qed
  then show ?thesis
    unfolding nfa_matches_Max [OF len] bits by simp
qed

end
