(* ===== verification/MachoConsts.thy ===== *)
theory MachoConsts
  imports Prelude
begin

unbundle bit_operations_syntax

section \<open>The constants of \<open>macho/macho_consts.rs\<close>\<close>

text \<open>Magic numbers, flags and opcodes of the file format, by the names and types the source gives them.\<close>

abbreviation (input) MH_MAGIC_64 :: u32 where "MH_MAGIC_64 \<equiv> 0xfeedfacf"
abbreviation (input) FAT_MAGIC :: u32 where "FAT_MAGIC \<equiv> 0xcafebabe"
abbreviation (input) CPU_TYPE_I386 :: u32 where "CPU_TYPE_I386 \<equiv> 7"
abbreviation (input) CPU_TYPE_X86_64 :: u32 where "CPU_TYPE_X86_64 \<equiv> 0x01000007"
abbreviation (input) CPU_TYPE_ARM :: u32 where "CPU_TYPE_ARM \<equiv> 12"
abbreviation (input) CPU_TYPE_ARM64 :: u32 where "CPU_TYPE_ARM64 \<equiv> 0x0100000c"
abbreviation (input) CPU_TYPE_ARM64_32 :: u32 where "CPU_TYPE_ARM64_32 \<equiv> 0x0200000c"
abbreviation (input) CPU_TYPE_POWERPC :: u32 where "CPU_TYPE_POWERPC \<equiv> 18"
abbreviation (input) CPU_SUBTYPE_MASK :: u32 where "CPU_SUBTYPE_MASK \<equiv> 0xff000000"
abbreviation (input) CPU_SUBTYPE_X86_64_ALL :: u32 where "CPU_SUBTYPE_X86_64_ALL \<equiv> 3"
abbreviation (input) CPU_SUBTYPE_X86_64_H :: u32 where "CPU_SUBTYPE_X86_64_H \<equiv> 8"
abbreviation (input) CPU_SUBTYPE_ARM64_ALL :: u32 where "CPU_SUBTYPE_ARM64_ALL \<equiv> 0"
abbreviation (input) CPU_SUBTYPE_ARM64E :: u32 where "CPU_SUBTYPE_ARM64E \<equiv> 2"
abbreviation (input) MH_OBJECT :: u32 where "MH_OBJECT \<equiv> 1"
abbreviation (input) MH_EXECUTE :: u32 where "MH_EXECUTE \<equiv> 2"
abbreviation (input) MH_PRELOAD :: u32 where "MH_PRELOAD \<equiv> 5"
abbreviation (input) MH_DYLIB :: u32 where "MH_DYLIB \<equiv> 6"
abbreviation (input) MH_DYLINKER :: u32 where "MH_DYLINKER \<equiv> 7"
abbreviation (input) MH_DSYM :: u32 where "MH_DSYM \<equiv> 10"
abbreviation (input) MH_BUNDLE :: u32 where "MH_BUNDLE \<equiv> 8"
abbreviation (input) MH_KEXT_BUNDLE :: u32 where "MH_KEXT_BUNDLE \<equiv> 11"
abbreviation (input) MH_NOUNDEFS :: u32 where "MH_NOUNDEFS \<equiv> 0x1"
abbreviation (input) MH_BINDATLOAD :: u32 where "MH_BINDATLOAD \<equiv> 0x8"
abbreviation (input) MH_APP_EXTENSION_SAFE :: u32 where "MH_APP_EXTENSION_SAFE \<equiv> 0x02000000"
abbreviation (input) MH_SIM_SUPPORT :: u32 where "MH_SIM_SUPPORT \<equiv> 0x08000000"
abbreviation (input) MH_DYLDLINK :: u32 where "MH_DYLDLINK \<equiv> 0x4"
abbreviation (input) MH_TWOLEVEL :: u32 where "MH_TWOLEVEL \<equiv> 0x80"
abbreviation (input) MH_NOFIXPREBINDING :: u32 where "MH_NOFIXPREBINDING \<equiv> 0x400"
abbreviation (input) MH_PIE :: u32 where "MH_PIE \<equiv> 0x200000"
abbreviation (input) MH_HAS_TLV_DESCRIPTORS :: u32 where "MH_HAS_TLV_DESCRIPTORS \<equiv> 0x800000"
abbreviation (input) MH_NO_REEXPORTED_DYLIBS :: u32 where "MH_NO_REEXPORTED_DYLIBS \<equiv> 0x100000"
abbreviation (input) MH_DEAD_STRIPPABLE_DYLIB :: u32 where "MH_DEAD_STRIPPABLE_DYLIB \<equiv> 0x400000"
abbreviation (input) MH_SUBSECTIONS_VIA_SYMBOLS :: u32 where "MH_SUBSECTIONS_VIA_SYMBOLS \<equiv> 0x2000"
abbreviation (input) MH_WEAK_DEFINES :: u32 where "MH_WEAK_DEFINES \<equiv> 0x8000"
abbreviation (input) MH_BINDS_TO_WEAK :: u32 where "MH_BINDS_TO_WEAK \<equiv> 0x10000"
abbreviation (input) LC_REQ_DYLD :: u32 where "LC_REQ_DYLD \<equiv> 0x80000000"
abbreviation (input) LC_SYMTAB :: u32 where "LC_SYMTAB \<equiv> 0x2"
abbreviation (input) LC_DYSYMTAB :: u32 where "LC_DYSYMTAB \<equiv> 0xb"
abbreviation (input) LC_LOAD_DYLIB :: u32 where "LC_LOAD_DYLIB \<equiv> 0xc"
abbreviation (input) LC_ID_DYLIB :: u32 where "LC_ID_DYLIB \<equiv> 0xd"
abbreviation (input) LC_LOAD_DYLINKER :: u32 where "LC_LOAD_DYLINKER \<equiv> 0xe"
abbreviation (input) LC_ID_DYLINKER :: u32 where "LC_ID_DYLINKER \<equiv> 0xf"
abbreviation (input) LC_UNIXTHREAD :: u32 where "LC_UNIXTHREAD \<equiv> 0x5"
abbreviation (input) LC_LOAD_WEAK_DYLIB :: u32 where "LC_LOAD_WEAK_DYLIB \<equiv> 0x18 OR LC_REQ_DYLD"
abbreviation (input) LC_SEGMENT_64 :: u32 where "LC_SEGMENT_64 \<equiv> 0x19"
abbreviation (input) LC_ROUTINES_64 :: u32 where "LC_ROUTINES_64 \<equiv> 0x1a"
abbreviation (input) LC_UUID :: u32 where "LC_UUID \<equiv> 0x1b"
abbreviation (input) LC_RPATH :: u32 where "LC_RPATH \<equiv> 0x1c OR LC_REQ_DYLD"
abbreviation (input) LC_SUB_FRAMEWORK :: u32 where "LC_SUB_FRAMEWORK \<equiv> 0x12"
abbreviation (input) LC_SUB_CLIENT :: u32 where "LC_SUB_CLIENT \<equiv> 0x14"
abbreviation (input) LC_SEGMENT_SPLIT_INFO :: u32 where "LC_SEGMENT_SPLIT_INFO \<equiv> 0x1e"
abbreviation (input) LC_CODE_SIGNATURE :: u32 where "LC_CODE_SIGNATURE \<equiv> 0x1d"
abbreviation (input) LC_REEXPORT_DYLIB :: u32 where "LC_REEXPORT_DYLIB \<equiv> 0x1f OR LC_REQ_DYLD"
abbreviation (input) LC_LOAD_UPWARD_DYLIB :: u32 where "LC_LOAD_UPWARD_DYLIB \<equiv> 0x23 OR LC_REQ_DYLD"
abbreviation (input) DYLIB_USE_MARKER :: u32 where "DYLIB_USE_MARKER \<equiv> 0x1a741800"
abbreviation (input) DYLIB_USE_WEAK_LINK :: u32 where "DYLIB_USE_WEAK_LINK \<equiv> 0x1"
abbreviation (input) DYLIB_USE_REEXPORT :: u32 where "DYLIB_USE_REEXPORT \<equiv> 0x2"
abbreviation (input) DYLIB_USE_UPWARD :: u32 where "DYLIB_USE_UPWARD \<equiv> 0x4"
abbreviation (input) DYLIB_USE_DELAYED_INIT :: u32 where "DYLIB_USE_DELAYED_INIT \<equiv> 0x8"
abbreviation (input) LC_DYLD_INFO :: u32 where "LC_DYLD_INFO \<equiv> 0x22"
abbreviation (input) LC_DYLD_INFO_ONLY :: u32 where "LC_DYLD_INFO_ONLY \<equiv> 0x22 OR LC_REQ_DYLD"
abbreviation (input) LC_VERSION_MIN_MACOSX :: u32 where "LC_VERSION_MIN_MACOSX \<equiv> 0x24"
abbreviation (input) LC_VERSION_MIN_IPHONEOS :: u32 where "LC_VERSION_MIN_IPHONEOS \<equiv> 0x25"
abbreviation (input) LC_FUNCTION_STARTS :: u32 where "LC_FUNCTION_STARTS \<equiv> 0x26"
abbreviation (input) LC_DYLD_ENVIRONMENT :: u32 where "LC_DYLD_ENVIRONMENT \<equiv> 0x27"
abbreviation (input) LC_MAIN :: u32 where "LC_MAIN \<equiv> 0x28 OR LC_REQ_DYLD"
abbreviation (input) LC_DATA_IN_CODE :: u32 where "LC_DATA_IN_CODE \<equiv> 0x29"
abbreviation (input) LC_LINKER_OPTIMIZATION_HINT :: u32 where "LC_LINKER_OPTIMIZATION_HINT \<equiv> 0x2e"
abbreviation (input) LC_SOURCE_VERSION :: u32 where "LC_SOURCE_VERSION \<equiv> 0x2a"
abbreviation (input) LC_ENCRYPTION_INFO_64 :: u32 where "LC_ENCRYPTION_INFO_64 \<equiv> 0x2c"
abbreviation (input) LC_LINKER_OPTION :: u32 where "LC_LINKER_OPTION \<equiv> 0x2d"
abbreviation (input) LC_VERSION_MIN_TVOS :: u32 where "LC_VERSION_MIN_TVOS \<equiv> 0x2f"
abbreviation (input) LC_VERSION_MIN_WATCHOS :: u32 where "LC_VERSION_MIN_WATCHOS \<equiv> 0x30"
abbreviation (input) LC_BUILD_VERSION :: u32 where "LC_BUILD_VERSION \<equiv> 0x32"
abbreviation (input) LC_DYLD_EXPORTS_TRIE :: u32 where "LC_DYLD_EXPORTS_TRIE \<equiv> 0x33 OR LC_REQ_DYLD"
abbreviation (input) LC_DYLD_CHAINED_FIXUPS :: u32 where "LC_DYLD_CHAINED_FIXUPS \<equiv> 0x34 OR LC_REQ_DYLD"
abbreviation (input) LC_LAZY_LOAD_DYLIB_INFO :: u32 where "LC_LAZY_LOAD_DYLIB_INFO \<equiv> 0x3a"
abbreviation (input) LC_ATOM_INFO :: u32 where "LC_ATOM_INFO \<equiv> 0x36"
abbreviation (input) PLATFORM_MACOS :: u32 where "PLATFORM_MACOS \<equiv> 1"
abbreviation (input) PLATFORM_IOS :: u32 where "PLATFORM_IOS \<equiv> 2"
abbreviation (input) PLATFORM_TVOS :: u32 where "PLATFORM_TVOS \<equiv> 3"
abbreviation (input) PLATFORM_WATCHOS :: u32 where "PLATFORM_WATCHOS \<equiv> 4"
abbreviation (input) PLATFORM_BRIDGEOS :: u32 where "PLATFORM_BRIDGEOS \<equiv> 5"
abbreviation (input) PLATFORM_MACCATALYST :: u32 where "PLATFORM_MACCATALYST \<equiv> 6"
abbreviation (input) PLATFORM_IOSSIMULATOR :: u32 where "PLATFORM_IOSSIMULATOR \<equiv> 7"
abbreviation (input) PLATFORM_TVOSSIMULATOR :: u32 where "PLATFORM_TVOSSIMULATOR \<equiv> 8"
abbreviation (input) PLATFORM_WATCHOSSIMULATOR :: u32 where "PLATFORM_WATCHOSSIMULATOR \<equiv> 9"
abbreviation (input) PLATFORM_DRIVERKIT :: u32 where "PLATFORM_DRIVERKIT \<equiv> 10"
abbreviation (input) PLATFORM_VISIONOS :: u32 where "PLATFORM_VISIONOS \<equiv> 11"
abbreviation (input) PLATFORM_VISIONOSSIMULATOR :: u32 where "PLATFORM_VISIONOSSIMULATOR \<equiv> 12"
abbreviation (input) PLATFORM_FIRMWARE :: u32 where "PLATFORM_FIRMWARE \<equiv> 13"
abbreviation (input) PLATFORM_SEPOS :: u32 where "PLATFORM_SEPOS \<equiv> 14"
abbreviation (input) VM_PROT_READ :: u32 where "VM_PROT_READ \<equiv> 1"
abbreviation (input) VM_PROT_WRITE :: u32 where "VM_PROT_WRITE \<equiv> 2"
abbreviation (input) VM_PROT_EXECUTE :: u32 where "VM_PROT_EXECUTE \<equiv> 4"
abbreviation (input) SECTION_TYPE :: u32 where "SECTION_TYPE \<equiv> 0xff"
abbreviation (input) S_REGULAR :: u32 where "S_REGULAR \<equiv> 0x0"
abbreviation (input) S_ZEROFILL :: u32 where "S_ZEROFILL \<equiv> 0x1"
abbreviation (input) S_CSTRING_LITERALS :: u32 where "S_CSTRING_LITERALS \<equiv> 0x2"
abbreviation (input) S_4BYTE_LITERALS :: u32 where "S_4BYTE_LITERALS \<equiv> 0x3"
abbreviation (input) S_8BYTE_LITERALS :: u32 where "S_8BYTE_LITERALS \<equiv> 0x4"
abbreviation (input) S_LITERAL_POINTERS :: u32 where "S_LITERAL_POINTERS \<equiv> 0x5"
abbreviation (input) S_NON_LAZY_SYMBOL_POINTERS :: u32 where "S_NON_LAZY_SYMBOL_POINTERS \<equiv> 0x6"
abbreviation (input) S_LAZY_SYMBOL_POINTERS :: u32 where "S_LAZY_SYMBOL_POINTERS \<equiv> 0x7"
abbreviation (input) S_SYMBOL_STUBS :: u32 where "S_SYMBOL_STUBS \<equiv> 0x8"
abbreviation (input) S_MOD_INIT_FUNC_POINTERS :: u32 where "S_MOD_INIT_FUNC_POINTERS \<equiv> 0x9"
abbreviation (input) S_MOD_TERM_FUNC_POINTERS :: u32 where "S_MOD_TERM_FUNC_POINTERS \<equiv> 0xa"
abbreviation (input) S_COALESCED :: u32 where "S_COALESCED \<equiv> 0xb"
abbreviation (input) S_GB_ZEROFILL :: u32 where "S_GB_ZEROFILL \<equiv> 0xc"
abbreviation (input) S_16BYTE_LITERALS :: u32 where "S_16BYTE_LITERALS \<equiv> 0xe"
abbreviation (input) S_DTRACE_DOF :: u32 where "S_DTRACE_DOF \<equiv> 0xf"
abbreviation (input) S_THREAD_LOCAL_REGULAR :: u32 where "S_THREAD_LOCAL_REGULAR \<equiv> 0x11"
abbreviation (input) S_THREAD_LOCAL_ZEROFILL :: u32 where "S_THREAD_LOCAL_ZEROFILL \<equiv> 0x12"
abbreviation (input) S_THREAD_LOCAL_VARIABLES :: u32 where "S_THREAD_LOCAL_VARIABLES \<equiv> 0x13"
abbreviation (input) S_THREAD_LOCAL_VARIABLE_POINTERS :: u32 where "S_THREAD_LOCAL_VARIABLE_POINTERS \<equiv> 0x14"
abbreviation (input) S_INIT_FUNC_OFFSETS :: u32 where "S_INIT_FUNC_OFFSETS \<equiv> 0x16"
abbreviation (input) S_ATTR_PURE_INSTRUCTIONS :: u32 where "S_ATTR_PURE_INSTRUCTIONS \<equiv> 0x80000000"
abbreviation (input) S_ATTR_NO_DEAD_STRIP :: u32 where "S_ATTR_NO_DEAD_STRIP \<equiv> 0x10000000"
abbreviation (input) S_ATTR_LIVE_SUPPORT :: u32 where "S_ATTR_LIVE_SUPPORT \<equiv> 0x08000000"
abbreviation (input) S_ATTR_DEBUG :: u32 where "S_ATTR_DEBUG \<equiv> 0x02000000"
abbreviation (input) S_ATTR_SOME_INSTRUCTIONS :: u32 where "S_ATTR_SOME_INSTRUCTIONS \<equiv> 0x00000400"
abbreviation (input) S_ATTR_NO_TOC :: u32 where "S_ATTR_NO_TOC \<equiv> 0x40000000"
abbreviation (input) S_ATTR_STRIP_STATIC_SYMS :: u32 where "S_ATTR_STRIP_STATIC_SYMS \<equiv> 0x20000000"
abbreviation (input) S_ATTR_SELF_MODIFYING_CODE :: u32 where "S_ATTR_SELF_MODIFYING_CODE \<equiv> 0x04000000"
abbreviation (input) S_ATTR_EXT_RELOC :: u32 where "S_ATTR_EXT_RELOC \<equiv> 0x00000200"
abbreviation (input) S_ATTR_LOC_RELOC :: u32 where "S_ATTR_LOC_RELOC \<equiv> 0x00000100"
abbreviation (input) N_STAB :: u8 where "N_STAB \<equiv> 0xe0"
abbreviation (input) N_PEXT :: u8 where "N_PEXT \<equiv> 0x10"
abbreviation (input) N_TYPE :: u8 where "N_TYPE \<equiv> 0x0e"
abbreviation (input) N_EXT :: u8 where "N_EXT \<equiv> 0x01"
abbreviation (input) N_UNDF :: u8 where "N_UNDF \<equiv> 0x0"
abbreviation (input) N_ABS :: u8 where "N_ABS \<equiv> 0x2"
abbreviation (input) N_SECT :: u8 where "N_SECT \<equiv> 0xe"
abbreviation (input) N_INDR :: u8 where "N_INDR \<equiv> 0xa"
abbreviation (input) N_GSYM :: u8 where "N_GSYM \<equiv> 0x20"
abbreviation (input) N_AST :: u8 where "N_AST \<equiv> 0x32"
abbreviation (input) N_FUN :: u8 where "N_FUN \<equiv> 0x24"
abbreviation (input) N_STSYM :: u8 where "N_STSYM \<equiv> 0x26"
abbreviation (input) N_SO :: u8 where "N_SO \<equiv> 0x64"
abbreviation (input) N_OSO :: u8 where "N_OSO \<equiv> 0x66"
abbreviation (input) N_LCSYM :: u8 where "N_LCSYM \<equiv> 0x28"
abbreviation (input) N_BNSYM :: u8 where "N_BNSYM \<equiv> 0x2e"
abbreviation (input) N_SLINE :: u8 where "N_SLINE \<equiv> 0x44"
abbreviation (input) N_ENSYM :: u8 where "N_ENSYM \<equiv> 0x4e"
abbreviation (input) N_ECOMM :: u8 where "N_ECOMM \<equiv> 0xe4"
abbreviation (input) N_ECOML :: u8 where "N_ECOML \<equiv> 0xe8"
abbreviation (input) N_WEAK_REF :: u16 where "N_WEAK_REF \<equiv> 0x0040"
abbreviation (input) N_WEAK_DEF :: u16 where "N_WEAK_DEF \<equiv> 0x0080"
abbreviation (input) N_NO_DEAD_STRIP :: u16 where "N_NO_DEAD_STRIP \<equiv> 0x0020"
abbreviation (input) N_ALT_ENTRY :: u16 where "N_ALT_ENTRY \<equiv> 0x0200"
abbreviation (input) N_COLD_FUNC :: u16 where "N_COLD_FUNC \<equiv> 0x0400"
abbreviation (input) N_SYMBOL_RESOLVER :: u16 where "N_SYMBOL_RESOLVER \<equiv> 0x0100"
abbreviation (input) REFERENCED_DYNAMICALLY :: u16 where "REFERENCED_DYNAMICALLY \<equiv> 0x0010"
abbreviation (input) ARM64_RELOC_UNSIGNED :: u8 where "ARM64_RELOC_UNSIGNED \<equiv> 0"
abbreviation (input) ARM64_RELOC_SUBTRACTOR :: u8 where "ARM64_RELOC_SUBTRACTOR \<equiv> 1"
abbreviation (input) ARM64_RELOC_BRANCH26 :: u8 where "ARM64_RELOC_BRANCH26 \<equiv> 2"
abbreviation (input) ARM64_RELOC_PAGE21 :: u8 where "ARM64_RELOC_PAGE21 \<equiv> 3"
abbreviation (input) ARM64_RELOC_PAGEOFF12 :: u8 where "ARM64_RELOC_PAGEOFF12 \<equiv> 4"
abbreviation (input) ARM64_RELOC_GOT_LOAD_PAGE21 :: u8 where "ARM64_RELOC_GOT_LOAD_PAGE21 \<equiv> 5"
abbreviation (input) ARM64_RELOC_GOT_LOAD_PAGEOFF12 :: u8 where "ARM64_RELOC_GOT_LOAD_PAGEOFF12 \<equiv> 6"
abbreviation (input) ARM64_RELOC_POINTER_TO_GOT :: u8 where "ARM64_RELOC_POINTER_TO_GOT \<equiv> 7"
abbreviation (input) ARM64_RELOC_TLVP_LOAD_PAGE21 :: u8 where "ARM64_RELOC_TLVP_LOAD_PAGE21 \<equiv> 8"
abbreviation (input) ARM64_RELOC_TLVP_LOAD_PAGEOFF12 :: u8 where "ARM64_RELOC_TLVP_LOAD_PAGEOFF12 \<equiv> 9"
abbreviation (input) ARM64_RELOC_ADDEND :: u8 where "ARM64_RELOC_ADDEND \<equiv> 10"
abbreviation (input) LOH_ARM64_ADRP_ADRP :: u8 where "LOH_ARM64_ADRP_ADRP \<equiv> 1"
abbreviation (input) LOH_ARM64_ADRP_LDR :: u8 where "LOH_ARM64_ADRP_LDR \<equiv> 2"
abbreviation (input) LOH_ARM64_ADRP_ADD_LDR :: u8 where "LOH_ARM64_ADRP_ADD_LDR \<equiv> 3"
abbreviation (input) LOH_ARM64_ADRP_LDR_GOT_LDR :: u8 where "LOH_ARM64_ADRP_LDR_GOT_LDR \<equiv> 4"
abbreviation (input) LOH_ARM64_ADRP_ADD_STR :: u8 where "LOH_ARM64_ADRP_ADD_STR \<equiv> 5"
abbreviation (input) LOH_ARM64_ADRP_LDR_GOT_STR :: u8 where "LOH_ARM64_ADRP_LDR_GOT_STR \<equiv> 6"
abbreviation (input) LOH_ARM64_ADRP_ADD :: u8 where "LOH_ARM64_ADRP_ADD \<equiv> 7"
abbreviation (input) LOH_ARM64_ADRP_LDR_GOT :: u8 where "LOH_ARM64_ADRP_LDR_GOT \<equiv> 8"
abbreviation (input) X86_64_RELOC_UNSIGNED :: u8 where "X86_64_RELOC_UNSIGNED \<equiv> 0"
abbreviation (input) X86_64_RELOC_SIGNED :: u8 where "X86_64_RELOC_SIGNED \<equiv> 1"
abbreviation (input) X86_64_RELOC_BRANCH :: u8 where "X86_64_RELOC_BRANCH \<equiv> 2"
abbreviation (input) X86_64_RELOC_GOT_LOAD :: u8 where "X86_64_RELOC_GOT_LOAD \<equiv> 3"
abbreviation (input) X86_64_RELOC_GOT :: u8 where "X86_64_RELOC_GOT \<equiv> 4"
abbreviation (input) X86_64_RELOC_SUBTRACTOR :: u8 where "X86_64_RELOC_SUBTRACTOR \<equiv> 5"
abbreviation (input) X86_64_RELOC_SIGNED_1 :: u8 where "X86_64_RELOC_SIGNED_1 \<equiv> 6"
abbreviation (input) X86_64_RELOC_SIGNED_2 :: u8 where "X86_64_RELOC_SIGNED_2 \<equiv> 7"
abbreviation (input) X86_64_RELOC_SIGNED_4 :: u8 where "X86_64_RELOC_SIGNED_4 \<equiv> 8"
abbreviation (input) X86_64_RELOC_TLV :: u8 where "X86_64_RELOC_TLV \<equiv> 9"
abbreviation (input) CSMAGIC_EMBEDDED_SIGNATURE :: u32 where "CSMAGIC_EMBEDDED_SIGNATURE \<equiv> 0xfade0cc0"
abbreviation (input) CSMAGIC_CODEDIRECTORY :: u32 where "CSMAGIC_CODEDIRECTORY \<equiv> 0xfade0c02"
abbreviation (input) CSSLOT_CODEDIRECTORY :: u32 where "CSSLOT_CODEDIRECTORY \<equiv> 0"
abbreviation (input) CSSLOT_ALTERNATE_CODEDIRECTORIES :: u32 where "CSSLOT_ALTERNATE_CODEDIRECTORIES \<equiv> 0x1000"
abbreviation (input) CS_ADHOC :: u32 where "CS_ADHOC \<equiv> 0x2"
abbreviation (input) CS_LINKER_SIGNED :: u32 where "CS_LINKER_SIGNED \<equiv> 0x20000"
abbreviation (input) CS_SUPPORTSEXECSEG :: u32 where "CS_SUPPORTSEXECSEG \<equiv> 0x20400"
abbreviation (input) CS_HASHTYPE_SHA1 :: u8 where "CS_HASHTYPE_SHA1 \<equiv> 1"
abbreviation (input) CS_HASHTYPE_SHA256 :: u8 where "CS_HASHTYPE_SHA256 \<equiv> 2"
abbreviation (input) CS_EXECSEG_MAIN_BINARY :: u64 where "CS_EXECSEG_MAIN_BINARY \<equiv> 0x1"
abbreviation (input) SHA1_SIZE :: nat where "SHA1_SIZE \<equiv> 20"
abbreviation (input) SHA256_SIZE :: nat where "SHA256_SIZE \<equiv> 32"
abbreviation (input) CS_PAGE_SIZE :: u64 where "CS_PAGE_SIZE \<equiv> 4096"
abbreviation (input) BIND_SPECIAL_DYLIB_SELF :: int where "BIND_SPECIAL_DYLIB_SELF \<equiv> 0"
abbreviation (input) BIND_SPECIAL_DYLIB_MAIN_EXECUTABLE :: int where "BIND_SPECIAL_DYLIB_MAIN_EXECUTABLE \<equiv> - 1"
abbreviation (input) BIND_SPECIAL_DYLIB_FLAT_LOOKUP :: int where "BIND_SPECIAL_DYLIB_FLAT_LOOKUP \<equiv> - 2"
abbreviation (input) BIND_SPECIAL_DYLIB_WEAK_LOOKUP :: int where "BIND_SPECIAL_DYLIB_WEAK_LOOKUP \<equiv> - 3"
abbreviation (input) BIND_OPCODE_SET_DYLIB_SPECIAL_IMM :: u8 where "BIND_OPCODE_SET_DYLIB_SPECIAL_IMM \<equiv> 0x30"
abbreviation (input) SG_NORELOC :: u32 where "SG_NORELOC \<equiv> 0x4"
abbreviation (input) SG_READ_ONLY :: u32 where "SG_READ_ONLY \<equiv> 0x10"
abbreviation (input) BIND_TYPE_POINTER :: u8 where "BIND_TYPE_POINTER \<equiv> 1"
abbreviation (input) BIND_OPCODE_DONE :: u8 where "BIND_OPCODE_DONE \<equiv> 0x00"
abbreviation (input) BIND_OPCODE_SET_DYLIB_ORDINAL_IMM :: u8 where "BIND_OPCODE_SET_DYLIB_ORDINAL_IMM \<equiv> 0x10"
abbreviation (input) BIND_OPCODE_SET_DYLIB_ORDINAL_ULEB :: u8 where "BIND_OPCODE_SET_DYLIB_ORDINAL_ULEB \<equiv> 0x20"
abbreviation (input) BIND_OPCODE_SET_SYMBOL_TRAILING_FLAGS_IMM :: u8 where "BIND_OPCODE_SET_SYMBOL_TRAILING_FLAGS_IMM \<equiv> 0x40"
abbreviation (input) BIND_OPCODE_SET_TYPE_IMM :: u8 where "BIND_OPCODE_SET_TYPE_IMM \<equiv> 0x50"
abbreviation (input) BIND_OPCODE_SET_ADDEND_SLEB :: u8 where "BIND_OPCODE_SET_ADDEND_SLEB \<equiv> 0x60"
abbreviation (input) BIND_OPCODE_SET_SEGMENT_AND_OFFSET_ULEB :: u8 where "BIND_OPCODE_SET_SEGMENT_AND_OFFSET_ULEB \<equiv> 0x70"
abbreviation (input) BIND_OPCODE_ADD_ADDR_ULEB :: u8 where "BIND_OPCODE_ADD_ADDR_ULEB \<equiv> 0x80"
abbreviation (input) BIND_OPCODE_DO_BIND :: u8 where "BIND_OPCODE_DO_BIND \<equiv> 0x90"
abbreviation (input) BIND_OPCODE_DO_BIND_ADD_ADDR_ULEB :: u8 where "BIND_OPCODE_DO_BIND_ADD_ADDR_ULEB \<equiv> 0xa0"
abbreviation (input) BIND_OPCODE_DO_BIND_ADD_ADDR_IMM_SCALED :: u8 where "BIND_OPCODE_DO_BIND_ADD_ADDR_IMM_SCALED \<equiv> 0xb0"
abbreviation (input) BIND_OPCODE_DO_BIND_ULEB_TIMES_SKIPPING_ULEB :: u8 where "BIND_OPCODE_DO_BIND_ULEB_TIMES_SKIPPING_ULEB \<equiv> 0xc0"
abbreviation (input) BIND_SYMBOL_FLAGS_WEAK_IMPORT :: u8 where "BIND_SYMBOL_FLAGS_WEAK_IMPORT \<equiv> 0x1"
abbreviation (input) BIND_SYMBOL_FLAGS_NON_WEAK_DEFINITION :: u8 where "BIND_SYMBOL_FLAGS_NON_WEAK_DEFINITION \<equiv> 0x8"
abbreviation (input) REBASE_TYPE_POINTER :: u8 where "REBASE_TYPE_POINTER \<equiv> 1"
abbreviation (input) REBASE_OPCODE_DONE :: u8 where "REBASE_OPCODE_DONE \<equiv> 0x00"
abbreviation (input) REBASE_OPCODE_SET_TYPE_IMM :: u8 where "REBASE_OPCODE_SET_TYPE_IMM \<equiv> 0x10"
abbreviation (input) REBASE_OPCODE_SET_SEGMENT_AND_OFFSET_ULEB :: u8 where "REBASE_OPCODE_SET_SEGMENT_AND_OFFSET_ULEB \<equiv> 0x20"
abbreviation (input) REBASE_OPCODE_ADD_ADDR_ULEB :: u8 where "REBASE_OPCODE_ADD_ADDR_ULEB \<equiv> 0x30"
abbreviation (input) REBASE_OPCODE_ADD_ADDR_IMM_SCALED :: u8 where "REBASE_OPCODE_ADD_ADDR_IMM_SCALED \<equiv> 0x40"
abbreviation (input) REBASE_OPCODE_DO_REBASE_IMM_TIMES :: u8 where "REBASE_OPCODE_DO_REBASE_IMM_TIMES \<equiv> 0x50"
abbreviation (input) REBASE_OPCODE_DO_REBASE_ULEB_TIMES :: u8 where "REBASE_OPCODE_DO_REBASE_ULEB_TIMES \<equiv> 0x60"
abbreviation (input) REBASE_OPCODE_DO_REBASE_ADD_ADDR_ULEB :: u8 where "REBASE_OPCODE_DO_REBASE_ADD_ADDR_ULEB \<equiv> 0x70"
abbreviation (input) REBASE_OPCODE_DO_REBASE_ULEB_TIMES_SKIPPING_ULEB :: u8 where "REBASE_OPCODE_DO_REBASE_ULEB_TIMES_SKIPPING_ULEB \<equiv> 0x80"
abbreviation (input) UNWIND_SECTION_VERSION :: u32 where "UNWIND_SECTION_VERSION \<equiv> 1"
abbreviation (input) UNWIND_SECOND_LEVEL_REGULAR :: u32 where "UNWIND_SECOND_LEVEL_REGULAR \<equiv> 2"
abbreviation (input) UNWIND_SECOND_LEVEL_COMPRESSED :: u32 where "UNWIND_SECOND_LEVEL_COMPRESSED \<equiv> 3"
abbreviation (input) UNWIND_HAS_LSDA :: u32 where "UNWIND_HAS_LSDA \<equiv> 0x40000000"
abbreviation (input) UNWIND_PERSONALITY_MASK :: u32 where "UNWIND_PERSONALITY_MASK \<equiv> 0x30000000"
abbreviation (input) UNWIND_MODE_MASK :: u32 where "UNWIND_MODE_MASK \<equiv> 0x0f000000"
abbreviation (input) UNWIND_ARM64_MODE_DWARF :: u32 where "UNWIND_ARM64_MODE_DWARF \<equiv> 0x03000000"
abbreviation (input) UNWIND_X86_64_MODE_STACK_IND :: u32 where "UNWIND_X86_64_MODE_STACK_IND \<equiv> 0x03000000"
abbreviation (input) UNWIND_X86_64_MODE_DWARF :: u32 where "UNWIND_X86_64_MODE_DWARF \<equiv> 0x04000000"
abbreviation (input) EXPORT_SYMBOL_FLAGS_KIND_MASK :: u32 where "EXPORT_SYMBOL_FLAGS_KIND_MASK \<equiv> 0x03"
abbreviation (input) EXPORT_SYMBOL_FLAGS_KIND_THREAD_LOCAL :: u32 where "EXPORT_SYMBOL_FLAGS_KIND_THREAD_LOCAL \<equiv> 0x01"
abbreviation (input) EXPORT_SYMBOL_FLAGS_KIND_ABSOLUTE :: u32 where "EXPORT_SYMBOL_FLAGS_KIND_ABSOLUTE \<equiv> 0x02"
abbreviation (input) EXPORT_SYMBOL_FLAGS_WEAK_DEFINITION :: u32 where "EXPORT_SYMBOL_FLAGS_WEAK_DEFINITION \<equiv> 0x04"
abbreviation (input) EXPORT_SYMBOL_FLAGS_REEXPORT :: u32 where "EXPORT_SYMBOL_FLAGS_REEXPORT \<equiv> 0x08"
abbreviation (input) DYLD_CACHE_ADJ_V2_FORMAT :: u8 where "DYLD_CACHE_ADJ_V2_FORMAT \<equiv> 0x7f"
abbreviation (input) DYLD_CACHE_ADJ_V2_POINTER_32 :: u8 where "DYLD_CACHE_ADJ_V2_POINTER_32 \<equiv> 0x01"
abbreviation (input) DYLD_CACHE_ADJ_V2_POINTER_64 :: u8 where "DYLD_CACHE_ADJ_V2_POINTER_64 \<equiv> 0x02"
abbreviation (input) DYLD_CACHE_ADJ_V2_DELTA_32 :: u8 where "DYLD_CACHE_ADJ_V2_DELTA_32 \<equiv> 0x03"
abbreviation (input) DYLD_CACHE_ADJ_V2_DELTA_64 :: u8 where "DYLD_CACHE_ADJ_V2_DELTA_64 \<equiv> 0x04"
abbreviation (input) DYLD_CACHE_ADJ_V2_ARM64_ADRP :: u8 where "DYLD_CACHE_ADJ_V2_ARM64_ADRP \<equiv> 0x05"
abbreviation (input) DYLD_CACHE_ADJ_V2_ARM64_OFF12 :: u8 where "DYLD_CACHE_ADJ_V2_ARM64_OFF12 \<equiv> 0x06"
abbreviation (input) DYLD_CACHE_ADJ_V2_ARM64_BR26 :: u8 where "DYLD_CACHE_ADJ_V2_ARM64_BR26 \<equiv> 0x07"
abbreviation (input) DYLD_CACHE_ADJ_V2_IMAGE_OFF_32 :: u8 where "DYLD_CACHE_ADJ_V2_IMAGE_OFF_32 \<equiv> 0x0c"
abbreviation (input) DYLD_CHAINED_PTR_64 :: u16 where "DYLD_CHAINED_PTR_64 \<equiv> 2"
abbreviation (input) DYLD_CHAINED_PTR_64_OFFSET :: u16 where "DYLD_CHAINED_PTR_64_OFFSET \<equiv> 6"
abbreviation (input) DYLD_CHAINED_PTR_START_NONE :: u16 where "DYLD_CHAINED_PTR_START_NONE \<equiv> 0xffff"
abbreviation (input) DYLD_CHAINED_IMPORT :: u32 where "DYLD_CHAINED_IMPORT \<equiv> 1"
abbreviation (input) DYLD_CHAINED_IMPORT_ADDEND :: u32 where "DYLD_CHAINED_IMPORT_ADDEND \<equiv> 2"
abbreviation (input) DYLD_CHAINED_IMPORT_ADDEND64 :: u32 where "DYLD_CHAINED_IMPORT_ADDEND64 \<equiv> 3"
abbreviation (input) INDIRECT_SYMBOL_LOCAL :: u32 where "INDIRECT_SYMBOL_LOCAL \<equiv> 0x80000000"
abbreviation (input) INDIRECT_SYMBOL_ABS :: u32 where "INDIRECT_SYMBOL_ABS \<equiv> 0x40000000"
abbreviation (input) OBJC_HAS_CATEGORY_CLASS_PROPERTIES :: u32 where "OBJC_HAS_CATEGORY_CLASS_PROPERTIES \<equiv> 0x40"
abbreviation (input) OBJC_SIGNED_CLASS_RO :: u32 where "OBJC_SIGNED_CLASS_RO \<equiv> 0x10"

end
