(* ===== verification/Macho.thy ===== *)
theory Macho
  imports Glob MachoConsts
begin

unbundle bit_operations_syntax

section \<open>The records of \<open>macho/macho.rs\<close>\<close>

text \<open>
  The load commands, section headers, symbols and relocations of a Mach-O file. The trait
  \<^verbatim>\<open>FileRecord\<close> is the record of functions \<open>file_rec\<close> (a type's size, its bytes in memory order, and the
  value its bytes stand for), and the locale \<open>file_record\<close> states what the trait's safety comment asks
  for: no padding, and any bit pattern a valid value. Each type of the source is an interpretation.
  A \<^verbatim>\<open>[u8; 16]\<close> is a list whose length the predicate \<open>fr_ok\<close> fixes.
\<close>

subsection \<open>The trait\<close>

record 'r file_rec =
  fr_size :: nat
  fr_ok :: "'r \<Rightarrow> bool"
  fr_bytes :: "'r \<Rightarrow> bytes"
  fr_of :: "bytes \<Rightarrow> 'r"

definition slice_from :: "'a list \<Rightarrow> nat \<Rightarrow> 'a list option" where
  "slice_from xs off = (if off \<le> length xs then Some (drop off xs) else None)"

definition read_from :: "'r file_rec \<Rightarrow> bytes \<Rightarrow> 'r option" where
  "read_from T buf = (if fr_size T \<le> length buf then Some (fr_of T buf) else None)"

definition write_to :: "'r file_rec \<Rightarrow> 'r \<Rightarrow> bytes \<Rightarrow> bytes option" where
  "write_to T r buf =
     (if fr_size T \<le> length buf then Some (fr_bytes T r @ drop (fr_size T) buf) else None)"

definition as_bytes :: "'r file_rec \<Rightarrow> 'r \<Rightarrow> bytes" where
  "as_bytes T r = fr_bytes T r"

fun read_array :: "'r file_rec \<Rightarrow> bytes \<Rightarrow> nat \<Rightarrow> nat \<Rightarrow> 'r list option" where
  "read_array T buf off 0 = Some []"
| "read_array T buf off (Suc n) =
     do { rs \<leftarrow> read_array T buf off n;
          rest \<leftarrow> slice_from buf (off + n * fr_size T);
          r \<leftarrow> read_from T rest;
          Some (rs @ [r]) }"

fun write_array_loop :: "'r file_rec \<Rightarrow> bytes \<Rightarrow> nat \<Rightarrow> nat \<Rightarrow> 'r list \<Rightarrow> bytes option" where
  "write_array_loop T buf off i [] = Some buf"
| "write_array_loop T buf off i (r # rs) =
     do { rest \<leftarrow> slice_from buf (off + i * fr_size T);
          rest' \<leftarrow> write_to T r rest;
          write_array_loop T (take (off + i * fr_size T) buf @ rest') off (i + 1) rs }"

definition write_array :: "'r file_rec \<Rightarrow> bytes \<Rightarrow> nat \<Rightarrow> 'r list \<Rightarrow> bytes option" where
  "write_array T buf off records = write_array_loop T buf off 0 records"

locale file_record =
  fixes T :: "'r file_rec"
  assumes bytes_size: "fr_ok T r \<Longrightarrow> length (fr_bytes T r) = fr_size T"
    and of_bytes: "fr_ok T r \<Longrightarrow> fr_of T (fr_bytes T r @ rest) = r"
    and any_bits: "fr_size T \<le> length bs \<Longrightarrow>
      fr_ok T (fr_of T bs) \<and> fr_bytes T (fr_of T bs) = take (fr_size T) bs"
begin

lemma read_write:
  "fr_ok T r \<Longrightarrow> write_to T r buf = Some buf' \<Longrightarrow> read_from T buf' = Some r \<and> length buf' = length buf"
  by (auto simp: write_to_def read_from_def of_bytes bytes_size split: if_splits)

lemma write_read: "read_from T buf = Some r \<Longrightarrow> write_to T r buf = Some buf"
  using any_bits [of buf] by (auto simp: write_to_def read_from_def split: if_splits)

lemma write_array_loop_eq:
  "\<forall>r \<in> set rs. fr_ok T r \<Longrightarrow> off + (i + length rs) * fr_size T \<le> length buf \<Longrightarrow>
   write_array_loop T buf off i rs =
     Some (take (off + i * fr_size T) buf @ concat (map (fr_bytes T) rs)
           @ drop (off + (i + length rs) * fr_size T) buf)"
proof (induction rs arbitrary: buf i)
  case Nil
  then show ?case by simp
next
  case (Cons r rs)
  let ?a = "off + i * fr_size T"
  let ?buf = "take ?a buf @ fr_bytes T r @ drop (?a + fr_size T) buf"
  have len: "?a + fr_size T + length rs * fr_size T \<le> length buf"
    using Cons.prems(2) by (simp add: algebra_simps)
  have r: "length (fr_bytes T r) = fr_size T" using Cons.prems by (simp add: bytes_size)
  have "write_array_loop T buf off i (r # rs) = write_array_loop T ?buf off (i + 1) rs"
  proof -
    have a: "?a \<le> length buf" "fr_size T \<le> length buf - ?a" using len by simp_all
    then show ?thesis by (simp add: slice_from_def write_to_def add.commute)
  qed
  also have "\<dots> = Some (take (off + (i + 1) * fr_size T) ?buf @ concat (map (fr_bytes T) rs)
      @ drop (off + (i + 1 + length rs) * fr_size T) ?buf)"
    using Cons.prems(1) len r by (intro Cons.IH) (auto simp: algebra_simps)
  also have "take (off + (i + 1) * fr_size T) ?buf = take ?a buf @ fr_bytes T r"
    using len r by (simp add: algebra_simps min_def)
  also have "drop (off + (i + 1 + length rs) * fr_size T) ?buf = drop (off + (i + length (r # rs)) * fr_size T) buf"
    using len r by (simp add: algebra_simps min_def)
  finally show ?case by simp
qed

lemma read_array_eq:
  "\<forall>r \<in> set rs. fr_ok T r \<Longrightarrow> length pre = off \<Longrightarrow>
   read_array T (pre @ concat (map (fr_bytes T) rs) @ post) off (length rs) = Some rs"
proof (induction rs arbitrary: post rule: rev_induct)
  case Nil
  then show ?case by simp
next
  case (snoc r rs)
  have l: "length (concat (map (fr_bytes T) rs)) = length rs * fr_size T" if "\<forall>r \<in> set rs. fr_ok T r" for rs
    using that by (induction rs) (auto simp: bytes_size)
  have "read_array T (pre @ concat (map (fr_bytes T) rs) @ fr_bytes T r @ post) off (length rs) = Some rs"
    using snoc by simp
  moreover have "fr_ok T r" using snoc.prems by simp
  ultimately show ?case
    using snoc.prems l [of rs] by (simp add: slice_from_def read_from_def bytes_size of_bytes)
qed

lemma array_round_trip:
  assumes "\<forall>r \<in> set rs. fr_ok T r" and "off + length rs * fr_size T \<le> length buf"
  shows "\<exists>buf'. write_array T buf off rs = Some buf' \<and> read_array T buf' off (length rs) = Some rs
     \<and> length buf' = length buf \<and> take off buf' = take off buf
     \<and> drop (off + length rs * fr_size T) buf' = drop (off + length rs * fr_size T) buf"
proof -
  let ?b = "concat (map (fr_bytes T) rs)"
  have l: "length ?b = length rs * fr_size T" using assms(1) by (induction rs) (auto simp: bytes_size)
  have "write_array T buf off rs = Some (take off buf @ ?b @ drop (off + length rs * fr_size T) buf)"
    unfolding write_array_def using write_array_loop_eq [of rs off 0 buf] assms by simp
  moreover have "read_array T (take off buf @ ?b @ drop (off + length rs * fr_size T) buf) off (length rs) = Some rs"
    by (rule read_array_eq) (use assms in auto)
  ultimately show ?thesis using assms(2) l by auto
qed

end

subsection \<open>Fields\<close>

named_theorems record_simps \<open>reading the fields of a record back\<close>

definition get_le :: "nat \<Rightarrow> bytes \<Rightarrow> nat \<Rightarrow> 'a::len word" where
  "get_le k bs off = from_le (take k (drop off bs))"

definition get_words :: "nat \<Rightarrow> bytes \<Rightarrow> nat \<Rightarrow> u64 list" where
  "get_words n bs off = map (\<lambda>i. get_le 8 bs (off + 8 * i)) [0..<n]"

lemma get_le_here [record_simps]: "8 * k = LENGTH('a::len) \<Longrightarrow> get_le k (le_bytes k (w :: 'a word) @ bs) 0 = w"
  by (simp add: get_le_def from_le_le_bytes take_bit_word_eq_self)

lemma get_le_skip [record_simps]: "length xs \<le> off \<Longrightarrow> get_le k (xs @ bs) off = get_le k bs (off - length xs)"
  by (simp add: get_le_def)

lemma le_bytes_get_le [record_simps]:
  "8 * k = LENGTH('a::len) \<Longrightarrow> off + k \<le> length bs \<Longrightarrow> le_bytes k (get_le k bs off :: 'a word) = take k (drop off bs)"
proof -
  assume k: "8 * k = LENGTH('a)" and "off + k \<le> length bs"
  then have l: "length (take k (drop off bs)) = k" by simp
  have "8 * length (take k (drop off bs)) \<le> LENGTH('a)" unfolding l using k by simp
  from le_bytes_from_le [OF this] show ?thesis unfolding l get_le_def .
qed

definition byte1 :: "u8 \<Rightarrow> bytes" where
  "byte1 b = [b]"

definition get_byte :: "bytes \<Rightarrow> nat \<Rightarrow> u8" where
  "get_byte bs off = bs ! off"

lemma length_byte1 [record_simps]: "length (byte1 b) = 1"
  by (simp add: byte1_def)

lemma get_byte_here [record_simps]: "get_byte (byte1 b @ bs) 0 = b"
  by (simp add: byte1_def get_byte_def)

lemma get_byte_skip [record_simps]: "length xs \<le> off \<Longrightarrow> get_byte (xs @ bs) off = get_byte bs (off - length xs)"
  by (simp add: get_byte_def nth_append)

lemma byte1_get_byte [record_simps]: "off + 1 \<le> length bs \<Longrightarrow> byte1 (get_byte bs off) = take 1 (drop off bs)"
  by (simp add: byte1_def get_byte_def take_Suc hd_drop_conv_nth)

lemma take_drop_join [record_simps]:
  "b = a + n \<Longrightarrow> take n (drop a bs) @ take m (drop b bs) = take (n + m) (drop a bs)"
  by (simp add: take_add) (simp add: add.commute)

lemma take_join [record_simps]: "take a bs @ take m (drop a bs) = take (a + m) bs"
  by (simp add: take_add)

lemma words_bytes_get [record_simps]:
  "off + 8 * n \<le> length bs \<Longrightarrow> concat (map (le_bytes 8) (get_words n bs off)) = take (8 * n) (drop off bs)"
proof (induction n)
  case 0
  then show ?case by (simp add: get_words_def)
next
  case (Suc n)
  have "concat (map (le_bytes 8) (get_words (Suc n) bs off)) =
      take (8 * n) (drop off bs) @ take 8 (drop (off + 8 * n) bs)"
    using Suc by (simp add: get_words_def le_bytes_get_le)
  then show ?case by (simp add: take_drop_join add.commute)
qed

lemma get_words_here [record_simps]:
  "length ws = n \<Longrightarrow> get_words n (concat (map (le_bytes 8) ws) @ bs) 0 = ws"
proof -
  have "get_words (length ws) (concat (map (le_bytes 8) ws) @ bs) 0 = ws" for bs
  proof (induction ws)
    case Nil
    then show ?case by (simp add: get_words_def)
  next
    case (Cons w ws)
    have "get_words (length (w # ws)) (concat (map (le_bytes 8) (w # ws)) @ bs) 0 =
        get_le 8 (concat (map (le_bytes 8) (w # ws)) @ bs) 0
        # map (\<lambda>i. get_le 8 (concat (map (le_bytes 8) (w # ws)) @ bs) (8 * Suc i)) [0..<length ws]"
      by (simp add: get_words_def upt_conv_Cons map_Suc_upt [symmetric] del: upt_Suc)
    also have "\<dots> = w # get_words (length ws) (concat (map (le_bytes 8) ws) @ bs) 0"
      by (simp add: get_words_def get_le_here get_le_skip)
    finally show ?case using Cons by simp
  qed
  then show "length ws = n \<Longrightarrow> get_words n (concat (map (le_bytes 8) ws) @ bs) 0 = ws" by blast
qed

lemma get_words_skip [record_simps]: "length xs \<le> off \<Longrightarrow> get_words n (xs @ bs) off = get_words n bs (off - length xs)"
  by (auto simp: get_words_def get_le_skip)

lemma length_get_words [record_simps]: "length (get_words n bs off) = n"
  by (simp add: get_words_def)

lemma length_words [record_simps]: "length (concat (map (le_bytes 8) ws)) = 8 * length ws"
  by (induction ws) auto

subsection \<open>The records\<close>

record mach_header =
  mh_magic :: u32
  mh_cputype :: u32
  mh_cpusubtype :: u32
  mh_filetype :: u32
  mh_ncmds :: u32
  mh_sizeofcmds :: u32
  mh_flags :: u32
  mh_reserved :: u32

definition mach_header_rec :: "mach_header file_rec" where
  "mach_header_rec =
     \<lparr>fr_size = 32,
      fr_ok = (\<lambda>r. True),
      fr_bytes = (\<lambda>r.
         le_bytes 4 (mh_magic r) @ le_bytes 4 (mh_cputype r) @ le_bytes 4 (mh_cpusubtype r) @
         le_bytes 4 (mh_filetype r) @ le_bytes 4 (mh_ncmds r) @ le_bytes 4 (mh_sizeofcmds r) @
         le_bytes 4 (mh_flags r) @ le_bytes 4 (mh_reserved r)),
      fr_of = (\<lambda>bs.
         \<lparr>mh_magic = get_le 4 bs 0, mh_cputype = get_le 4 bs 4, mh_cpusubtype = get_le 4 bs 8,
         mh_filetype = get_le 4 bs 12, mh_ncmds = get_le 4 bs 16,
         mh_sizeofcmds = get_le 4 bs 20, mh_flags = get_le 4 bs 24, mh_reserved = get_le 4 bs 28\<rparr>)\<rparr>"

interpretation mach_header: file_record mach_header_rec
  by unfold_locales (simp_all add: mach_header_rec_def record_simps)

record load_command =
  lc_cmd :: u32
  lc_cmdsize :: u32

definition load_command_rec :: "load_command file_rec" where
  "load_command_rec =
     \<lparr>fr_size = 8,
      fr_ok = (\<lambda>r. True),
      fr_bytes = (\<lambda>r.
         le_bytes 4 (lc_cmd r) @ le_bytes 4 (lc_cmdsize r)),
      fr_of = (\<lambda>bs.
         \<lparr>lc_cmd = get_le 4 bs 0, lc_cmdsize = get_le 4 bs 4\<rparr>)\<rparr>"

interpretation load_command: file_record load_command_rec
  by unfold_locales (simp_all add: load_command_rec_def record_simps)

record segment_command =
  seg_cmd :: u32
  seg_cmdsize :: u32
  seg_segname :: bytes
  seg_vmaddr :: u64
  seg_vmsize :: u64
  seg_fileoff :: u64
  seg_filesize :: u64
  seg_maxprot :: u32
  seg_initprot :: u32
  seg_nsects :: u32
  seg_flags :: u32

definition segment_command_rec :: "segment_command file_rec" where
  "segment_command_rec =
     \<lparr>fr_size = 72,
      fr_ok = (\<lambda>r. length (seg_segname r) = 16),
      fr_bytes = (\<lambda>r.
         le_bytes 4 (seg_cmd r) @ le_bytes 4 (seg_cmdsize r) @ seg_segname r @
         le_bytes 8 (seg_vmaddr r) @ le_bytes 8 (seg_vmsize r) @ le_bytes 8 (seg_fileoff r) @
         le_bytes 8 (seg_filesize r) @ le_bytes 4 (seg_maxprot r) @ le_bytes 4 (seg_initprot r)
         @ le_bytes 4 (seg_nsects r) @ le_bytes 4 (seg_flags r)),
      fr_of = (\<lambda>bs.
         \<lparr>seg_cmd = get_le 4 bs 0, seg_cmdsize = get_le 4 bs 4,
         seg_segname = take 16 (drop 8 bs), seg_vmaddr = get_le 8 bs 24,
         seg_vmsize = get_le 8 bs 32, seg_fileoff = get_le 8 bs 40,
         seg_filesize = get_le 8 bs 48, seg_maxprot = get_le 4 bs 56,
         seg_initprot = get_le 4 bs 60, seg_nsects = get_le 4 bs 64, seg_flags = get_le 4 bs 68\<rparr>)\<rparr>"

interpretation segment_command: file_record segment_command_rec
  by unfold_locales (simp_all add: segment_command_rec_def record_simps)

record mach_section =
  ms_sectname :: bytes
  ms_segname :: bytes
  ms_addr :: u64
  ms_size :: u64
  ms_offset :: u32
  ms_p2align :: u32
  ms_reloff :: u32
  ms_nreloc :: u32
  ms_flags :: u32
  ms_reserved1 :: u32
  ms_reserved2 :: u32
  ms_reserved3 :: u32

definition mach_section_rec :: "mach_section file_rec" where
  "mach_section_rec =
     \<lparr>fr_size = 80,
      fr_ok = (\<lambda>r. length (ms_sectname r) = 16 \<and> length (ms_segname r) = 16),
      fr_bytes = (\<lambda>r.
         ms_sectname r @ ms_segname r @ le_bytes 8 (ms_addr r) @ le_bytes 8 (ms_size r) @
         le_bytes 4 (ms_offset r) @ le_bytes 4 (ms_p2align r) @ le_bytes 4 (ms_reloff r) @
         le_bytes 4 (ms_nreloc r) @ le_bytes 4 (ms_flags r) @ le_bytes 4 (ms_reserved1 r) @
         le_bytes 4 (ms_reserved2 r) @ le_bytes 4 (ms_reserved3 r)),
      fr_of = (\<lambda>bs.
         \<lparr>ms_sectname = take 16 (drop 0 bs), ms_segname = take 16 (drop 16 bs),
         ms_addr = get_le 8 bs 32, ms_size = get_le 8 bs 40, ms_offset = get_le 4 bs 48,
         ms_p2align = get_le 4 bs 52, ms_reloff = get_le 4 bs 56, ms_nreloc = get_le 4 bs 60,
         ms_flags = get_le 4 bs 64, ms_reserved1 = get_le 4 bs 68,
         ms_reserved2 = get_le 4 bs 72, ms_reserved3 = get_le 4 bs 76\<rparr>)\<rparr>"

interpretation mach_section: file_record mach_section_rec
  by unfold_locales (simp_all add: mach_section_rec_def record_simps)

record symtab_command =
  st_cmd :: u32
  st_cmdsize :: u32
  st_symoff :: u32
  st_nsyms :: u32
  st_stroff :: u32
  st_strsize :: u32

definition symtab_command_rec :: "symtab_command file_rec" where
  "symtab_command_rec =
     \<lparr>fr_size = 24,
      fr_ok = (\<lambda>r. True),
      fr_bytes = (\<lambda>r.
         le_bytes 4 (st_cmd r) @ le_bytes 4 (st_cmdsize r) @ le_bytes 4 (st_symoff r) @
         le_bytes 4 (st_nsyms r) @ le_bytes 4 (st_stroff r) @ le_bytes 4 (st_strsize r)),
      fr_of = (\<lambda>bs.
         \<lparr>st_cmd = get_le 4 bs 0, st_cmdsize = get_le 4 bs 4, st_symoff = get_le 4 bs 8,
         st_nsyms = get_le 4 bs 12, st_stroff = get_le 4 bs 16, st_strsize = get_le 4 bs 20\<rparr>)\<rparr>"

interpretation symtab_command: file_record symtab_command_rec
  by unfold_locales (simp_all add: symtab_command_rec_def record_simps)

record dysymtab_command =
  dys_cmd :: u32
  dys_cmdsize :: u32
  dys_ilocalsym :: u32
  dys_nlocalsym :: u32
  dys_iextdefsym :: u32
  dys_nextdefsym :: u32
  dys_iundefsym :: u32
  dys_nundefsym :: u32
  dys_tocoff :: u32
  dys_ntoc :: u32
  dys_modtaboff :: u32
  dys_nmodtab :: u32
  dys_extrefsymoff :: u32
  dys_nextrefsyms :: u32
  dys_indirectsymoff :: u32
  dys_nindirectsyms :: u32
  dys_extreloff :: u32
  dys_nextrel :: u32
  dys_locreloff :: u32
  dys_nlocrel :: u32

definition dysymtab_command_rec :: "dysymtab_command file_rec" where
  "dysymtab_command_rec =
     \<lparr>fr_size = 80,
      fr_ok = (\<lambda>r. True),
      fr_bytes = (\<lambda>r.
         le_bytes 4 (dys_cmd r) @ le_bytes 4 (dys_cmdsize r) @ le_bytes 4 (dys_ilocalsym r) @
         le_bytes 4 (dys_nlocalsym r) @ le_bytes 4 (dys_iextdefsym r) @
         le_bytes 4 (dys_nextdefsym r) @ le_bytes 4 (dys_iundefsym r) @
         le_bytes 4 (dys_nundefsym r) @ le_bytes 4 (dys_tocoff r) @ le_bytes 4 (dys_ntoc r) @
         le_bytes 4 (dys_modtaboff r) @ le_bytes 4 (dys_nmodtab r) @
         le_bytes 4 (dys_extrefsymoff r) @ le_bytes 4 (dys_nextrefsyms r) @
         le_bytes 4 (dys_indirectsymoff r) @ le_bytes 4 (dys_nindirectsyms r) @
         le_bytes 4 (dys_extreloff r) @ le_bytes 4 (dys_nextrel r) @
         le_bytes 4 (dys_locreloff r) @ le_bytes 4 (dys_nlocrel r)),
      fr_of = (\<lambda>bs.
         \<lparr>dys_cmd = get_le 4 bs 0, dys_cmdsize = get_le 4 bs 4, dys_ilocalsym = get_le 4 bs 8,
         dys_nlocalsym = get_le 4 bs 12, dys_iextdefsym = get_le 4 bs 16,
         dys_nextdefsym = get_le 4 bs 20, dys_iundefsym = get_le 4 bs 24,
         dys_nundefsym = get_le 4 bs 28, dys_tocoff = get_le 4 bs 32, dys_ntoc = get_le 4 bs 36,
         dys_modtaboff = get_le 4 bs 40, dys_nmodtab = get_le 4 bs 44,
         dys_extrefsymoff = get_le 4 bs 48, dys_nextrefsyms = get_le 4 bs 52,
         dys_indirectsymoff = get_le 4 bs 56, dys_nindirectsyms = get_le 4 bs 60,
         dys_extreloff = get_le 4 bs 64, dys_nextrel = get_le 4 bs 68,
         dys_locreloff = get_le 4 bs 72, dys_nlocrel = get_le 4 bs 76\<rparr>)\<rparr>"

interpretation dysymtab_command: file_record dysymtab_command_rec
  by unfold_locales (simp_all add: dysymtab_command_rec_def record_simps)

record dylib_command =
  dy_cmd :: u32
  dy_cmdsize :: u32
  dy_nameoff :: u32
  dy_timestamp :: u32
  dy_current_version :: u32
  dy_compatibility_version :: u32

definition dylib_command_rec :: "dylib_command file_rec" where
  "dylib_command_rec =
     \<lparr>fr_size = 24,
      fr_ok = (\<lambda>r. True),
      fr_bytes = (\<lambda>r.
         le_bytes 4 (dy_cmd r) @ le_bytes 4 (dy_cmdsize r) @ le_bytes 4 (dy_nameoff r) @
         le_bytes 4 (dy_timestamp r) @ le_bytes 4 (dy_current_version r) @
         le_bytes 4 (dy_compatibility_version r)),
      fr_of = (\<lambda>bs.
         \<lparr>dy_cmd = get_le 4 bs 0, dy_cmdsize = get_le 4 bs 4, dy_nameoff = get_le 4 bs 8,
         dy_timestamp = get_le 4 bs 12, dy_current_version = get_le 4 bs 16,
         dy_compatibility_version = get_le 4 bs 20\<rparr>)\<rparr>"

interpretation dylib_command: file_record dylib_command_rec
  by unfold_locales (simp_all add: dylib_command_rec_def record_simps)

record dylinker_command =
  dl_cmd :: u32
  dl_cmdsize :: u32
  dl_nameoff :: u32

definition dylinker_command_rec :: "dylinker_command file_rec" where
  "dylinker_command_rec =
     \<lparr>fr_size = 12,
      fr_ok = (\<lambda>r. True),
      fr_bytes = (\<lambda>r.
         le_bytes 4 (dl_cmd r) @ le_bytes 4 (dl_cmdsize r) @ le_bytes 4 (dl_nameoff r)),
      fr_of = (\<lambda>bs.
         \<lparr>dl_cmd = get_le 4 bs 0, dl_cmdsize = get_le 4 bs 4, dl_nameoff = get_le 4 bs 8\<rparr>)\<rparr>"

interpretation dylinker_command: file_record dylinker_command_rec
  by unfold_locales (simp_all add: dylinker_command_rec_def record_simps)

record uuid_command =
  uu_cmd :: u32
  uu_cmdsize :: u32
  uu_uuid :: bytes

definition uuid_command_rec :: "uuid_command file_rec" where
  "uuid_command_rec =
     \<lparr>fr_size = 24,
      fr_ok = (\<lambda>r. length (uu_uuid r) = 16),
      fr_bytes = (\<lambda>r.
         le_bytes 4 (uu_cmd r) @ le_bytes 4 (uu_cmdsize r) @ uu_uuid r),
      fr_of = (\<lambda>bs.
         \<lparr>uu_cmd = get_le 4 bs 0, uu_cmdsize = get_le 4 bs 4, uu_uuid = take 16 (drop 8 bs)\<rparr>)\<rparr>"

interpretation uuid_command: file_record uuid_command_rec
  by unfold_locales (simp_all add: uuid_command_rec_def record_simps)

record build_version_command =
  bv_cmd :: u32
  bv_cmdsize :: u32
  bv_platform :: u32
  bv_minos :: u32
  bv_sdk :: u32
  bv_ntools :: u32

definition build_version_command_rec :: "build_version_command file_rec" where
  "build_version_command_rec =
     \<lparr>fr_size = 24,
      fr_ok = (\<lambda>r. True),
      fr_bytes = (\<lambda>r.
         le_bytes 4 (bv_cmd r) @ le_bytes 4 (bv_cmdsize r) @ le_bytes 4 (bv_platform r) @
         le_bytes 4 (bv_minos r) @ le_bytes 4 (bv_sdk r) @ le_bytes 4 (bv_ntools r)),
      fr_of = (\<lambda>bs.
         \<lparr>bv_cmd = get_le 4 bs 0, bv_cmdsize = get_le 4 bs 4, bv_platform = get_le 4 bs 8,
         bv_minos = get_le 4 bs 12, bv_sdk = get_le 4 bs 16, bv_ntools = get_le 4 bs 20\<rparr>)\<rparr>"

interpretation build_version_command: file_record build_version_command_rec
  by unfold_locales (simp_all add: build_version_command_rec_def record_simps)

record version_min_command =
  vm_cmd :: u32
  vm_cmdsize :: u32
  vm_version :: u32
  vm_sdk :: u32

definition version_min_command_rec :: "version_min_command file_rec" where
  "version_min_command_rec =
     \<lparr>fr_size = 16,
      fr_ok = (\<lambda>r. True),
      fr_bytes = (\<lambda>r.
         le_bytes 4 (vm_cmd r) @ le_bytes 4 (vm_cmdsize r) @ le_bytes 4 (vm_version r) @
         le_bytes 4 (vm_sdk r)),
      fr_of = (\<lambda>bs.
         \<lparr>vm_cmd = get_le 4 bs 0, vm_cmdsize = get_le 4 bs 4, vm_version = get_le 4 bs 8,
         vm_sdk = get_le 4 bs 12\<rparr>)\<rparr>"

interpretation version_min_command: file_record version_min_command_rec
  by unfold_locales (simp_all add: version_min_command_rec_def record_simps)

record source_version_command =
  sv_cmd :: u32
  sv_cmdsize :: u32
  sv_version :: u64

definition source_version_command_rec :: "source_version_command file_rec" where
  "source_version_command_rec =
     \<lparr>fr_size = 16,
      fr_ok = (\<lambda>r. True),
      fr_bytes = (\<lambda>r.
         le_bytes 4 (sv_cmd r) @ le_bytes 4 (sv_cmdsize r) @ le_bytes 8 (sv_version r)),
      fr_of = (\<lambda>bs.
         \<lparr>sv_cmd = get_le 4 bs 0, sv_cmdsize = get_le 4 bs 4, sv_version = get_le 8 bs 8\<rparr>)\<rparr>"

interpretation source_version_command: file_record source_version_command_rec
  by unfold_locales (simp_all add: source_version_command_rec_def record_simps)

record entry_point_command =
  ep_cmd :: u32
  ep_cmdsize :: u32
  ep_entryoff :: u64
  ep_stacksize :: u64

definition entry_point_command_rec :: "entry_point_command file_rec" where
  "entry_point_command_rec =
     \<lparr>fr_size = 24,
      fr_ok = (\<lambda>r. True),
      fr_bytes = (\<lambda>r.
         le_bytes 4 (ep_cmd r) @ le_bytes 4 (ep_cmdsize r) @ le_bytes 8 (ep_entryoff r) @
         le_bytes 8 (ep_stacksize r)),
      fr_of = (\<lambda>bs.
         \<lparr>ep_cmd = get_le 4 bs 0, ep_cmdsize = get_le 4 bs 4, ep_entryoff = get_le 8 bs 8,
         ep_stacksize = get_le 8 bs 16\<rparr>)\<rparr>"

interpretation entry_point_command: file_record entry_point_command_rec
  by unfold_locales (simp_all add: entry_point_command_rec_def record_simps)

record routines_command_64 =
  rt_cmd :: u32
  rt_cmdsize :: u32
  rt_init_address :: u64
  rt_init_module :: u64
  rt_reserved :: "u64 list"

definition routines_command_64_rec :: "routines_command_64 file_rec" where
  "routines_command_64_rec =
     \<lparr>fr_size = 72,
      fr_ok = (\<lambda>r. length (rt_reserved r) = 6),
      fr_bytes = (\<lambda>r.
         le_bytes 4 (rt_cmd r) @ le_bytes 4 (rt_cmdsize r) @ le_bytes 8 (rt_init_address r) @
         le_bytes 8 (rt_init_module r) @ concat (map (le_bytes 8) (rt_reserved r))),
      fr_of = (\<lambda>bs.
         \<lparr>rt_cmd = get_le 4 bs 0, rt_cmdsize = get_le 4 bs 4, rt_init_address = get_le 8 bs 8,
         rt_init_module = get_le 8 bs 16, rt_reserved = get_words 6 bs 24\<rparr>)\<rparr>"

interpretation routines_command_64: file_record routines_command_64_rec
  by unfold_locales (simp_all add: routines_command_64_rec_def record_simps)

record link_edit_data_command =
  led_cmd :: u32
  led_cmdsize :: u32
  led_dataoff :: u32
  led_datasize :: u32

definition link_edit_data_command_rec :: "link_edit_data_command file_rec" where
  "link_edit_data_command_rec =
     \<lparr>fr_size = 16,
      fr_ok = (\<lambda>r. True),
      fr_bytes = (\<lambda>r.
         le_bytes 4 (led_cmd r) @ le_bytes 4 (led_cmdsize r) @ le_bytes 4 (led_dataoff r) @
         le_bytes 4 (led_datasize r)),
      fr_of = (\<lambda>bs.
         \<lparr>led_cmd = get_le 4 bs 0, led_cmdsize = get_le 4 bs 4, led_dataoff = get_le 4 bs 8,
         led_datasize = get_le 4 bs 12\<rparr>)\<rparr>"

interpretation link_edit_data_command: file_record link_edit_data_command_rec
  by unfold_locales (simp_all add: link_edit_data_command_rec_def record_simps)

record dyld_info_command =
  di_cmd :: u32
  di_cmdsize :: u32
  di_rebase_off :: u32
  di_rebase_size :: u32
  di_bind_off :: u32
  di_bind_size :: u32
  di_weak_bind_off :: u32
  di_weak_bind_size :: u32
  di_lazy_bind_off :: u32
  di_lazy_bind_size :: u32
  di_export_off :: u32
  di_export_size :: u32

definition dyld_info_command_rec :: "dyld_info_command file_rec" where
  "dyld_info_command_rec =
     \<lparr>fr_size = 48,
      fr_ok = (\<lambda>r. True),
      fr_bytes = (\<lambda>r.
         le_bytes 4 (di_cmd r) @ le_bytes 4 (di_cmdsize r) @ le_bytes 4 (di_rebase_off r) @
         le_bytes 4 (di_rebase_size r) @ le_bytes 4 (di_bind_off r) @
         le_bytes 4 (di_bind_size r) @ le_bytes 4 (di_weak_bind_off r) @
         le_bytes 4 (di_weak_bind_size r) @ le_bytes 4 (di_lazy_bind_off r) @
         le_bytes 4 (di_lazy_bind_size r) @ le_bytes 4 (di_export_off r) @
         le_bytes 4 (di_export_size r)),
      fr_of = (\<lambda>bs.
         \<lparr>di_cmd = get_le 4 bs 0, di_cmdsize = get_le 4 bs 4, di_rebase_off = get_le 4 bs 8,
         di_rebase_size = get_le 4 bs 12, di_bind_off = get_le 4 bs 16,
         di_bind_size = get_le 4 bs 20, di_weak_bind_off = get_le 4 bs 24,
         di_weak_bind_size = get_le 4 bs 28, di_lazy_bind_off = get_le 4 bs 32,
         di_lazy_bind_size = get_le 4 bs 36, di_export_off = get_le 4 bs 40,
         di_export_size = get_le 4 bs 44\<rparr>)\<rparr>"

interpretation dyld_info_command: file_record dyld_info_command_rec
  by unfold_locales (simp_all add: dyld_info_command_rec_def record_simps)

record mach_sym =
  sym_stroff :: u32
  sym_n_type :: u8
  sym_sect :: u8
  sym_desc :: u16
  sym_value :: u64

definition mach_sym_rec :: "mach_sym file_rec" where
  "mach_sym_rec =
     \<lparr>fr_size = 16,
      fr_ok = (\<lambda>r. True),
      fr_bytes = (\<lambda>r.
         le_bytes 4 (sym_stroff r) @ byte1 (sym_n_type r) @ byte1 (sym_sect r) @
         le_bytes 2 (sym_desc r) @ le_bytes 8 (sym_value r)),
      fr_of = (\<lambda>bs.
         \<lparr>sym_stroff = get_le 4 bs 0, sym_n_type = get_byte bs 4, sym_sect = get_byte bs 5,
         sym_desc = get_le 2 bs 6, sym_value = get_le 8 bs 8\<rparr>)\<rparr>"

interpretation mach_sym: file_record mach_sym_rec
  by unfold_locales (simp_all add: mach_sym_rec_def record_simps)

record mach_rel =
  rel_offset :: u32
  rel_bits :: u32

definition mach_rel_rec :: "mach_rel file_rec" where
  "mach_rel_rec =
     \<lparr>fr_size = 8,
      fr_ok = (\<lambda>r. True),
      fr_bytes = (\<lambda>r.
         le_bytes 4 (rel_offset r) @ le_bytes 4 (rel_bits r)),
      fr_of = (\<lambda>bs.
         \<lparr>rel_offset = get_le 4 bs 0, rel_bits = get_le 4 bs 4\<rparr>)\<rparr>"

interpretation mach_rel: file_record mach_rel_rec
  by unfold_locales (simp_all add: mach_rel_rec_def record_simps)

subsection \<open>Section and segment names\<close>

definition name_to_bytes :: "bytes \<Rightarrow> bytes" where
  "name_to_bytes name = (let len = unwrap_or (position (\<lambda>b. b = 0) name) 16 in take len name)"

definition name_is :: "bytes \<Rightarrow> bytes \<Rightarrow> bool" where
  "name_is name s \<longleftrightarrow>
     starts_with name s \<and> (case nth_opt name (length s) of None \<Rightarrow> True | Some b \<Rightarrow> b = 0)"

definition bytes_to_name :: "bytes \<Rightarrow> bytes option" where
  "bytes_to_name s = copy_at (replicate 16 0) 0 s"

definition cut_name :: "bytes \<Rightarrow> bytes" where
  "cut_name name = take (min (length name) 16) name"

subsection \<open>Sections\<close>

definition ms_sectname_bytes :: "mach_section \<Rightarrow> bytes" where
  "ms_sectname_bytes s = name_to_bytes (ms_sectname s)"

definition ms_segname_bytes :: "mach_section \<Rightarrow> bytes" where
  "ms_segname_bytes s = name_to_bytes (ms_segname s)"

definition sectname_is :: "mach_section \<Rightarrow> bytes \<Rightarrow> bool" where
  "sectname_is sec s = name_is (ms_sectname sec) s"

definition segname_is :: "mach_section \<Rightarrow> bytes \<Rightarrow> bool" where
  "segname_is sec s = name_is (ms_segname sec) s"

definition section_type :: "mach_section \<Rightarrow> u32" where
  "section_type s = ms_flags s AND SECTION_TYPE"

definition is_zerofill :: "mach_section \<Rightarrow> bool" where
  "is_zerofill s \<longleftrightarrow> section_type s \<in> {S_ZEROFILL, S_GB_ZEROFILL, S_THREAD_LOCAL_ZEROFILL}"

subsection \<open>Symbols\<close>

definition is_stab :: "mach_sym \<Rightarrow> bool" where
  "is_stab s \<longleftrightarrow> sym_n_type s AND N_STAB \<noteq> 0"

definition is_extern :: "mach_sym \<Rightarrow> bool" where
  "is_extern s \<longleftrightarrow> sym_n_type s AND N_EXT \<noteq> 0"

definition sym_ty :: "mach_sym \<Rightarrow> u8" where
  "sym_ty s = sym_n_type s AND N_TYPE"

definition is_common :: "mach_sym \<Rightarrow> bool" where
  "is_common s \<longleftrightarrow> \<not> is_stab s \<and> sym_ty s = N_UNDF \<and> is_extern s \<and> sym_value s \<noteq> 0"

definition is_undef :: "mach_sym \<Rightarrow> bool" where
  "is_undef s \<longleftrightarrow> \<not> is_stab s \<and> is_extern s \<and> sym_ty s = N_UNDF"

definition is_weak_def :: "mach_sym \<Rightarrow> bool" where
  "is_weak_def s \<longleftrightarrow> \<not> is_stab s \<and> is_extern s \<and> sym_ty s = N_SECT \<and> sym_desc s AND N_WEAK_DEF \<noteq> 0"

definition common_p2align :: "mach_sym \<Rightarrow> u8" where
  "common_p2align s = ucast (drop_bit 8 (sym_desc s) AND 0xf)"

subsection \<open>Relocations\<close>

definition rel_idx :: "mach_rel \<Rightarrow> u32" where
  "rel_idx r = rel_bits r AND 0xffffff"

definition rel_sect :: "mach_rel \<Rightarrow> u32" where
  "rel_sect r = rel_bits r AND 0xff"

definition is_pcrel :: "mach_rel \<Rightarrow> bool" where
  "is_pcrel r \<longleftrightarrow> rel_bits r AND push_bit 24 1 \<noteq> 0"

definition p2size :: "mach_rel \<Rightarrow> u32" where
  "p2size r = drop_bit 25 (rel_bits r) AND 3"

definition rel_is_extern :: "mach_rel \<Rightarrow> bool" where
  "rel_is_extern r \<longleftrightarrow> rel_bits r AND push_bit 27 1 \<noteq> 0"

definition rel_ty :: "mach_rel \<Rightarrow> u8" where
  "rel_ty r = ucast (drop_bit 28 (rel_bits r))"

subsection \<open>Versions and platforms\<close>

text \<open>\<^verbatim>\<open>{}\<close> of an unsigned integer.\<close>

fun dec :: "nat \<Rightarrow> bytes" where
  "dec n = (if n < 10 then [of_nat (48 + n)] else dec (n div 10) @ [of_nat (48 + n mod 10)])"

declare dec.simps [simp del]

definition encode_version :: "u32 \<Rightarrow> u32 \<Rightarrow> u32 \<Rightarrow> u32" where
  "encode_version major minor patch = push_bit 16 major OR push_bit 8 minor OR patch"

definition format_version :: "u32 \<Rightarrow> bytes" where
  "format_version version =
     (let major = drop_bit 16 version;
          minor = drop_bit 8 version AND 0xff;
          patch = version AND 0xff
      in if patch = 0 then dec (unat major) @ bstr ''.'' @ dec (unat minor)
         else dec (unat major) @ bstr ''.'' @ dec (unat minor) @ bstr ''.'' @ dec (unat patch))"

definition platform_name :: "u32 \<Rightarrow> bytes" where
  "platform_name platform =
     (if platform = PLATFORM_MACOS then bstr ''macOS''
      else if platform = PLATFORM_IOS then bstr ''iOS''
      else if platform = PLATFORM_TVOS then bstr ''tvOS''
      else if platform = PLATFORM_WATCHOS then bstr ''watchOS''
      else if platform = PLATFORM_BRIDGEOS then bstr ''bridgeOS''
      else if platform = PLATFORM_MACCATALYST then bstr ''macCatalyst''
      else if platform = PLATFORM_IOSSIMULATOR then bstr ''iOS-simulator''
      else if platform = PLATFORM_TVOSSIMULATOR then bstr ''tvOS-simulator''
      else if platform = PLATFORM_WATCHOSSIMULATOR then bstr ''watchOS-simulator''
      else if platform = PLATFORM_DRIVERKIT then bstr ''driverKit''
      else if platform = PLATFORM_VISIONOS then bstr ''visionOS''
      else if platform = PLATFORM_VISIONOSSIMULATOR then bstr ''visionOS-simulator''
      else if platform = PLATFORM_FIRMWARE then bstr ''firmware''
      else if platform = PLATFORM_SEPOS then bstr ''sepOS''
      else bstr ''unknown platform ('' @ dec (unat platform) @ bstr '')'')"

definition is_supported_platform :: "u32 \<Rightarrow> bool" where
  "is_supported_platform platform \<longleftrightarrow>
     platform \<in> {PLATFORM_MACOS, PLATFORM_IOS, PLATFORM_IOSSIMULATOR, PLATFORM_TVOS,
       PLATFORM_TVOSSIMULATOR, PLATFORM_VISIONOS, PLATFORM_VISIONOSSIMULATOR, PLATFORM_FIRMWARE}"

definition is_simulator :: "u32 \<Rightarrow> bool" where
  "is_simulator platform \<longleftrightarrow>
     platform \<in> {PLATFORM_IOSSIMULATOR, PLATFORM_TVOSSIMULATOR, PLATFORM_WATCHOSSIMULATOR,
       PLATFORM_VISIONOSSIMULATOR}"

fun join :: "bytes \<Rightarrow> bytes list \<Rightarrow> bytes" where
  "join sep [] = []"
| "join sep [x] = x"
| "join sep (x # y # xs) = x @ sep @ join sep (y # xs)"

definition platforms_name :: "u32 list \<Rightarrow> bytes" where
  "platforms_name platforms = join (bstr '' '') (map platform_name platforms)"

subsection \<open>Arrays, names and bitfields read back\<close>

text \<open>
  C30. For every record type that satisfies the trait's contract, an array written into a large
  enough buffer reads back, and no byte outside it changes.
\<close>

theorem write_read_array:
  assumes "file_record T" and "\<forall>r \<in> set rs. fr_ok T r" and "off + length rs * fr_size T \<le> length buf"
  shows "\<exists>buf'. write_array T buf off rs = Some buf' \<and> read_array T buf' off (length rs) = Some rs
     \<and> length buf' = length buf \<and> take off buf' = take off buf
     \<and> drop (off + length rs * fr_size T) buf' = drop (off + length rs * fr_size T) buf"
  by (rule file_record.array_round_trip [OF assms])

theorem write_read_array_witness:
  "\<exists>buf'. write_array mach_rel_rec (replicate 20 7) 2 [\<lparr>rel_offset = 1, rel_bits = 2\<rparr>, \<lparr>rel_offset = 3, rel_bits = 4\<rparr>] = Some buf'
     \<and> read_array mach_rel_rec buf' 2 2 = Some [\<lparr>rel_offset = 1, rel_bits = 2\<rparr>, \<lparr>rel_offset = 3, rel_bits = 4\<rparr>]"
  using write_read_array [OF mach_rel.file_record_axioms, of
      "[\<lparr>rel_offset = 1, rel_bits = 2\<rparr>, \<lparr>rel_offset = 3, rel_bits = 4\<rparr>]" 2 "replicate 20 7"]
  by (auto simp: mach_rel_rec_def numeral_2_eq_2)

lemma position_none: "position P xs = None \<longleftrightarrow> (\<forall>x \<in> set xs. \<not> P x)"
proof -
  have "length (takeWhile (\<lambda>x. \<not> P x) xs) = length xs \<longleftrightarrow> (\<forall>x \<in> set xs. \<not> P x)"
    by (induction xs) auto
  then show ?thesis using length_takeWhile_le [of "\<lambda>x. \<not> P x" xs] by (auto simp: position_def Let_def)
qed

lemma take_position: "position P xs = Some n \<Longrightarrow> take n xs = takeWhile (\<lambda>x. \<not> P x) xs"
  by (auto simp: position_def Let_def takeWhile_eq_take [symmetric] split: if_splits)

lemma name_to_bytes_eq: "length name = 16 \<Longrightarrow> name_to_bytes name = takeWhile (\<lambda>b. b \<noteq> 0) name"
proof (cases "position (\<lambda>b. b = 0) name")
  case None
  assume "length name = 16"
  with None show ?thesis
    by (simp add: name_to_bytes_def unwrap_or_def) (metis position_none takeWhile_eq_all_conv)
next
  case (Some n)
  then show ?thesis by (simp add: name_to_bytes_def unwrap_or_def take_position)
qed

text \<open>
  C31. The quick test of a section or segment name is the comparison with the name's bytes, a name
  made of at most 16 bytes reads back, and one an option gives is cut to what a header holds.
\<close>

theorem name_fields:
  assumes "length name = 16" and "0 \<notin> set s"
  shows "(name_is name s \<longleftrightarrow> name_to_bytes name = s)
    \<and> (\<exists>field. bytes_to_name (cut_name s) = Some field \<and> length field = 16 \<and> name_to_bytes field = take 16 s)"
proof
  have eqv: "takeWhile (\<lambda>b. b \<noteq> 0) name = s \<longleftrightarrow> take (length s) name = s \<and> (length s < length name \<longrightarrow> name ! length s = 0)"
  proof
    assume eq: "takeWhile (\<lambda>b. b \<noteq> 0) name = s"
    then have "length s < length name \<Longrightarrow> name ! length s = 0"
      using nth_length_takeWhile [of "\<lambda>b. b \<noteq> 0" name] by auto
    then show "take (length s) name = s \<and> (length s < length name \<longrightarrow> name ! length s = 0)"
      using eq by (metis takeWhile_eq_take)
  next
    assume r: "take (length s) name = s \<and> (length s < length name \<longrightarrow> name ! length s = 0)"
    have nz: "\<And>x. x \<in> set s \<Longrightarrow> x \<noteq> 0" using assms(2) by metis
    show "takeWhile (\<lambda>b. b \<noteq> 0) name = s"
    proof (cases "length s < length name")
      case True
      then have "drop (length s) name = 0 # drop (Suc (length s)) name"
        using r by (metis Cons_nth_drop_Suc)
      then obtain rest where n: "name = s @ 0 # rest"
        using r append_take_drop_id [of "length s" name] by metis
      have "takeWhile (\<lambda>b. b \<noteq> 0) (s @ 0 # rest) = s @ takeWhile (\<lambda>b. b \<noteq> 0) (0 # rest)"
        by (rule takeWhile_append2) (rule nz)
      then show ?thesis unfolding n by simp
    next
      case False
      then have "name = s" using r by simp
      then show ?thesis using nz by (simp add: takeWhile_eq_all_conv)
    qed
  qed
  show "name_is name s \<longleftrightarrow> name_to_bytes name = s"
    unfolding name_to_bytes_eq [OF assms(1)] eqv
    by (cases "length s < length name") (simp_all add: name_is_def starts_with_def nth_opt_def)
next
  let ?c = "take 16 s" and ?field = "take 16 s @ replicate (16 - length (take 16 s)) 0"
  have c: "cut_name s = ?c" by (simp add: cut_name_def min_def)
  have b: "bytes_to_name (cut_name s) = Some ?field"
    by (simp add: c bytes_to_name_def copy_at_def)
  have "takeWhile (\<lambda>b. b \<noteq> 0) ?field = ?c"
  proof -
    have "\<And>x. x \<in> set ?c \<Longrightarrow> x \<noteq> 0" using assms(2) by (metis in_set_takeD)
    then show ?thesis by (simp add: takeWhile_append2)
  qed
  moreover have l: "length ?field = 16" by simp
  ultimately have n: "name_to_bytes ?field = ?c" by (simp only: name_to_bytes_eq)
  show "\<exists>field. bytes_to_name (cut_name s) = Some field \<and> length field = 16 \<and> name_to_bytes field = take 16 s"
    by (intro exI [of _ ?field] conjI) (rule b, rule l, rule n)
qed

theorem name_fields_witness:
  "(name_is (bstr ''__text'' @ replicate 10 0) (bstr ''__text'')
      \<longleftrightarrow> name_to_bytes (bstr ''__text'' @ replicate 10 0) = bstr ''__text'')
    \<and> (\<exists>field. bytes_to_name (cut_name (bstr ''__text'')) = Some field \<and> length field = 16
        \<and> name_to_bytes field = take 16 (bstr ''__text''))"
  by (rule name_fields) (simp_all add: bstr_def)

lemma bit_and_exp: "(w :: u32) AND push_bit k 1 \<noteq> 0 \<longleftrightarrow> k < 32 \<and> bit w k"
proof
  assume ne: "w AND push_bit k 1 \<noteq> 0"
  then obtain i where i: "bit (w AND push_bit k 1) i" using bit_word_eqI [of "w AND push_bit k 1" 0] by auto
  then have "i = k \<and> bit w i \<and> i < 32"
    by (auto simp: bit_and_iff bit_push_bit_iff bit_1_iff simp del: push_bit_of_1 dest: bit_imp_le_length)
  then show "k < 32 \<and> bit w k" by auto
next
  assume "k < 32 \<and> bit w k"
  then have "bit (w AND push_bit k 1) k"
    by (auto simp: bit_and_iff bit_push_bit_iff bit_1_iff simp del: push_bit_of_1)
  then show "w AND push_bit k 1 \<noteq> 0" by auto
qed

text \<open>A version with two-digit-hexadecimal minor and patch parts prints as it was put together.\<close>

theorem version_round_trip:
  assumes "unat major < 2 ^ 16" and "unat minor < 2 ^ 8" and "unat patch < 2 ^ 8"
  shows "format_version (encode_version major minor patch) =
     dec (unat major) @ bstr ''.'' @ dec (unat minor)
       @ (if patch = 0 then [] else bstr ''.'' @ dec (unat patch))"
proof -
  have small: "bit w i \<Longrightarrow> i < k" if "unat (w :: u32) < 2 ^ k" for w i k
  proof (rule ccontr)
    assume b: "bit w i" and "\<not> i < k"
    have "take_bit k (unat w) = unat w" using that by (rule take_bit_nat_eq_self)
    then have "\<not> bit (unat w) i" using \<open>\<not> i < k\<close> by (metis bit_take_bit_iff)
    with b show False by (simp add: bit_unsigned_iff)
  qed
  note s1 = small [OF assms(1)] and s2 = small [OF assms(2)] and s3 = small [OF assms(3)]
  have ff: "(0xff :: u32) = mask 8" by (simp add: mask_eq_exp_minus_1)
  let ?v = "push_bit 16 major OR push_bit 8 minor OR patch"
  have "drop_bit 16 ?v = major"
    by (rule bit_word_eqI) (auto simp: bit_simps dest: s2 s3 bit_imp_le_length; use s1 in fastforce)
  moreover have "drop_bit 8 ?v AND 0xff = minor"
    unfolding ff by (rule bit_word_eqI) (auto simp: bit_simps dest: s2 s3)
  moreover have "?v AND 0xff = patch"
    unfolding ff by (rule bit_word_eqI) (auto simp: bit_simps dest: s3)
  ultimately show ?thesis by (simp add: format_version_def encode_version_def Let_def)
qed

theorem version_round_trip_witness:
  "format_version (encode_version 14 2 0) = dec 14 @ bstr ''.'' @ dec 2"
  using version_round_trip [of 14 2 0] by simp

end
