(* ===== verification/Chunks.thy ===== *)
theory Chunks
  imports Macho
begin

unbundle bit_operations_syntax

section \<open>Output chunks and segments (\<open>macho/chunks/mod.rs\<close>)\<close>

text \<open>
  A chunk's header, the identifiers of chunks and their packing into a word, and the segments with
  the lookup of the segment that holds an address.
\<close>

subsection \<open>Chunk headers\<close>

record chunk_header =
  ch_segname :: bytes
  ch_sectname :: bytes
  ch_addr :: u64
  ch_fileoff :: u64
  ch_size :: u64
  ch_p2align :: u32
  ch_flags :: u32
  ch_reserved1 :: u32
  ch_reserved2 :: u32
  ch_is_sect :: bool
  ch_sect_idx :: u8

definition chunk_header_new :: "bytes \<Rightarrow> bytes \<Rightarrow> chunk_header" where
  "chunk_header_new segname sectname =
     \<lparr>ch_segname = segname, ch_sectname = sectname, ch_addr = 0, ch_fileoff = 0, ch_size = 0,
      ch_p2align = 0, ch_flags = 0, ch_reserved1 = 0, ch_reserved2 = 0, ch_is_sect = True,
      ch_sect_idx = 0\<rparr>"

definition chunk_header_linkedit :: chunk_header where
  "chunk_header_linkedit = (chunk_header_new (bstr ''__LINKEDIT'') [])\<lparr>ch_is_sect := False\<rparr>"

definition ch_is_zerofill :: "chunk_header \<Rightarrow> bool" where
  "ch_is_zerofill hdr \<longleftrightarrow> ch_flags hdr AND SECTION_TYPE \<in> {S_ZEROFILL, S_THREAD_LOCAL_ZEROFILL}"

definition ch_is_thread_local :: "chunk_header \<Rightarrow> bool" where
  "ch_is_thread_local hdr \<longleftrightarrow> ch_flags hdr AND SECTION_TYPE \<in> {S_THREAD_LOCAL_REGULAR, S_THREAD_LOCAL_ZEROFILL}"

subsection \<open>Chunk identifiers\<close>

text \<open>An output section's id is its index; the source's niche encoding only rules out the last one.\<close>

datatype chunk_id = ChMachHeader | ChOutput u32 | ChStubs | ChStubHelper | ChLazyPtrs | ChGot
  | ChDelayStubs | ChDelayHelper | ChLazyHelpers | ChLazyLoadGot | ChObjcStubs | ChObjcMethlist
  | ChObjcImageInfo | ChSectCreate u32 | ChInitOffsets | ChChainStarts | ChUnwindInfo | ChEhFrame
  | ChRebaseInfo | ChBindInfo | ChWeakBindInfo | ChLazyBindInfo | ChChainedFixups | ChExportTrie
  | ChLocalRelocs | ChExternRelocs | ChFunctionStarts | ChDataInCode | ChMergeableRecord
  | ChSplitInfo | ChLazyLoadInfo | ChIndirectSymtab | ChSymtab | ChStrtab | ChCodeSignature

definition chunk_units :: "chunk_id list" where
  "chunk_units =
     [ChMachHeader, ChStubs, ChStubHelper, ChLazyPtrs, ChGot, ChDelayStubs, ChDelayHelper,
      ChLazyHelpers, ChLazyLoadGot, ChObjcStubs, ChObjcMethlist, ChObjcImageInfo, ChInitOffsets,
      ChChainStarts, ChUnwindInfo, ChEhFrame, ChRebaseInfo, ChBindInfo, ChWeakBindInfo,
      ChLazyBindInfo, ChChainedFixups, ChExportTrie, ChLocalRelocs, ChExternRelocs,
      ChFunctionStarts, ChDataInCode, ChMergeableRecord, ChSplitInfo, ChLazyLoadInfo,
      ChIndirectSymtab, ChSymtab, ChStrtab, ChCodeSignature]"

definition output_section_id :: "u32 \<Rightarrow> u32 option" where
  "output_section_id index = (if index = - 1 then None else Some index)"

definition chunk_pack :: "chunk_id \<Rightarrow> u32 option" where
  "chunk_pack c =
     (case c of
        ChOutput i \<Rightarrow> if i < push_bit 30 1 then Some i else None
      | ChSectCreate i \<Rightarrow> Some (push_bit 30 1 OR i)
      | _ \<Rightarrow> map_option (\<lambda>n. push_bit 30 2 OR of_nat n) (position (\<lambda>d. d = c) chunk_units))"

definition chunk_unpack :: "u32 \<Rightarrow> chunk_id option" where
  "chunk_unpack v =
     (let i = v AND (push_bit 30 1 - 1); k = drop_bit 30 v
      in if k = 0 then map_option ChOutput (output_section_id i)
         else if k = 1 then Some (ChSectCreate i)
         else nth_opt chunk_units (unat i))"

lemma mask_30: "(push_bit 30 1 - 1 :: u32) = mask 30"
  by (simp add: mask_eq_exp_minus_1)

lemma tag_or:
  fixes i :: u32
  assumes "i < 2 ^ 30"
  shows "(push_bit 30 k OR i) AND mask 30 = i" and "drop_bit 30 (push_bit 30 k OR i) = take_bit 2 k"
proof -
  note i = bit_less_exp [OF assms]
  show "(push_bit 30 k OR i) AND mask 30 = i"
    by (rule bit_word_eqI) (auto simp: bit_simps dest: i)
  show "drop_bit 30 (push_bit 30 k OR i) = take_bit 2 k"
    by (rule bit_word_eqI) (auto simp: bit_simps dest: i bit_imp_le_length)
qed

lemma position_distinct:
  "distinct xs \<Longrightarrow> i < length xs \<Longrightarrow> position (\<lambda>d. d = xs ! i) xs = Some i"
proof -
  assume d: "distinct xs" and i: "i < length xs"
  have "length (takeWhile (\<lambda>d. d \<noteq> xs ! i) xs) = i"
    using d i
  proof (induction xs arbitrary: i)
    case Nil
    then show ?case by simp
  next
    case (Cons x xs)
    then show ?case by (cases i) auto
  qed
  with i show ?thesis by (simp add: position_def Let_def)
qed

lemma unpack_unit:
  assumes "n < 33"
  shows "chunk_unpack (push_bit 30 2 OR of_nat n) = Some (chunk_units ! n)"
proof -
  have u: "unat (of_nat n :: u32) = n" using assms by (simp add: unat_of_nat take_bit_nat_eq_self)
  then have s: "(of_nat n :: u32) < 2 ^ 30" using assms by (simp add: word_less_nat_alt)
  have l: "length chunk_units = 33" by (simp add: chunk_units_def)
  show ?thesis
    unfolding chunk_unpack_def Let_def mask_30 using tag_or [OF s, of 2] assms
    by (simp add: u nth_opt_def l del: push_bit_numeral)
qed

text \<open>
  C33. A chunk's identifier comes back from the word it is packed into, as long as a section's index
  leaves the two tag bits free; the word is never the one an absent identifier stands for.
\<close>

theorem chunk_pack_unpack:
  assumes "\<And>i. c = ChOutput i \<or> c = ChSectCreate i \<Longrightarrow> i < 2 ^ 30"
  shows "\<exists>v. chunk_pack c = Some v \<and> v \<noteq> - 1 \<and> chunk_unpack v = Some c"
proof -
  have top: "v \<noteq> - 1" if "drop_bit 30 v \<noteq> 3" for v :: u32
  proof
    assume "v = - 1"
    then have "drop_bit 30 v = 3" by (simp add: mask_eq_exp_minus_1)
    with that show False by simp
  qed
  have unit: ?thesis if c: "c \<in> set chunk_units" and p: "chunk_pack c = map_option (\<lambda>n. push_bit 30 2 OR of_nat n) (position (\<lambda>d. d = c) chunk_units)"
  proof -
    obtain n where n: "n < length chunk_units" "c = chunk_units ! n" using c by (metis in_set_conv_nth)
    have d: "distinct chunk_units" by (simp add: chunk_units_def)
    have n33: "n < 33" using n(1) by (simp add: chunk_units_def)
    then have "unat (of_nat n :: u32) = n" by (simp add: unat_of_nat take_bit_nat_eq_self)
    then have s: "(of_nat n :: u32) < 2 ^ 30" using n33 by (simp add: word_less_nat_alt)
    have "chunk_pack c = Some (push_bit 30 2 OR of_nat n)" using p position_distinct [OF d n(1)] n(2) by simp
    moreover have "push_bit 30 2 OR (of_nat n :: u32) \<noteq> - 1"
      by (rule top) (simp only: tag_or(2) [OF s], simp)
    ultimately show ?thesis using unpack_unit [OF n33] n(2) by blast
  qed
  show ?thesis
  proof (cases c)
    case (ChOutput i)
    with assms have i: "i < 2 ^ 30" by blast
    have z: "i AND mask 30 = i" "drop_bit 30 i = 0" using tag_or [OF i, of 0] by simp_all
    have ne: "i \<noteq> - 1" by (rule top) (simp add: z)
    have "chunk_unpack i = Some (ChOutput i)"
      unfolding chunk_unpack_def Let_def mask_30 z using ne by (simp add: output_section_id_def)
    with i ne ChOutput show ?thesis by (simp add: chunk_pack_def)
  next
    case (ChSectCreate i)
    with assms have i: "i < 2 ^ 30" by blast
    note t = tag_or [OF i, of 1]
    have "push_bit 30 1 OR i \<noteq> - 1" by (rule top) (simp only: t, simp)
    moreover have "chunk_unpack (push_bit 30 1 OR i) = Some (ChSectCreate i)"
      unfolding chunk_unpack_def Let_def mask_30 t by simp
    ultimately show ?thesis using ChSectCreate by (simp add: chunk_pack_def)
  qed (rule unit; simp add: chunk_units_def chunk_pack_def)+
qed

theorem chunk_pack_unpack_witness: "\<exists>v. chunk_pack (ChSectCreate 5) = Some v \<and> v \<noteq> - 1 \<and> chunk_unpack v = Some (ChSectCreate 5)"
  by (rule chunk_pack_unpack) auto

subsection \<open>Segments\<close>

record out_segment =
  os_name :: bytes
  os_chunks :: "chunk_id list"
  os_cmd :: segment_command

definition segment_prot :: "bytes \<Rightarrow> u32" where
  "segment_prot name =
     (if name = bstr ''__PAGEZERO'' then 0
      else if name = bstr ''__TEXT'' \<or> name = bstr ''__TEXT_EXEC'' then VM_PROT_READ OR VM_PROT_EXECUTE
      else if name = bstr ''__LINKEDIT'' then VM_PROT_READ
      else VM_PROT_READ OR VM_PROT_WRITE)"

text \<open>The loop over \<open>ctx.segments\<close>; \<open>None\<close> is the \<^verbatim>\<open>unreachable!\<close>.\<close>

fun segment_and_offset_loop :: "nat \<Rightarrow> out_segment list \<Rightarrow> u64 \<Rightarrow> (nat \<times> u64) option" where
  "segment_and_offset_loop i [] addr = None"
| "segment_and_offset_loop i (seg # segs) addr =
     (if seg_vmaddr (os_cmd seg) \<le> addr \<and> addr < seg_vmaddr (os_cmd seg) + seg_vmsize (os_cmd seg)
         \<and> os_name seg \<noteq> bstr ''__PAGEZERO''
      then Some (i, addr - seg_vmaddr (os_cmd seg))
      else segment_and_offset_loop (i + 1) segs addr)"

definition segment_and_offset :: "out_segment list \<Rightarrow> u64 \<Rightarrow> (nat \<times> u64) option" where
  "segment_and_offset segs addr = segment_and_offset_loop 0 segs addr"

lemma segment_and_offset_loop_Some:
  "segment_and_offset_loop i segs addr = Some (k, off) \<Longrightarrow>
   i \<le> k \<and> k - i < length segs \<and> off = addr - seg_vmaddr (os_cmd (segs ! (k - i)))
   \<and> seg_vmaddr (os_cmd (segs ! (k - i))) \<le> addr
   \<and> addr < seg_vmaddr (os_cmd (segs ! (k - i))) + seg_vmsize (os_cmd (segs ! (k - i)))"
proof (induction i segs addr rule: segment_and_offset_loop.induct)
  case (1 i addr)
  then show ?case by simp
next
  case (2 i seg segs addr)
  show ?case
  proof (cases "seg_vmaddr (os_cmd seg) \<le> addr \<and> addr < seg_vmaddr (os_cmd seg) + seg_vmsize (os_cmd seg)
         \<and> os_name seg \<noteq> bstr ''__PAGEZERO''")
    case True
    then show ?thesis using "2.prems" by auto
  next
    case False
    with 2 have "Suc i \<le> k \<and> k - Suc i < length segs \<and> off = addr - seg_vmaddr (os_cmd (segs ! (k - Suc i)))
      \<and> seg_vmaddr (os_cmd (segs ! (k - Suc i))) \<le> addr
      \<and> addr < seg_vmaddr (os_cmd (segs ! (k - Suc i))) + seg_vmsize (os_cmd (segs ! (k - Suc i)))"
      by (simp del: One_nat_def) simp
    moreover from this have "(seg # segs) ! (k - i) = segs ! (k - Suc i)"
      by (metis Suc_diff_le diff_Suc_Suc nth_Cons_Suc)
    ultimately show ?thesis by auto
  qed
qed

lemma segment_and_offset_Some:
  "segment_and_offset segs addr = Some (k, off) \<Longrightarrow>
   k < length segs \<and> off = addr - seg_vmaddr (os_cmd (segs ! k)) \<and> seg_vmaddr (os_cmd (segs ! k)) \<le> addr
   \<and> addr < seg_vmaddr (os_cmd (segs ! k)) + seg_vmsize (os_cmd (segs ! k))"
  unfolding segment_and_offset_def by (drule segment_and_offset_loop_Some) simp

text \<open>A segment with nothing but a place, for concrete instances.\<close>

definition segment_at :: "bytes \<Rightarrow> u64 \<Rightarrow> u64 \<Rightarrow> out_segment" where
  "segment_at name addr sz =
     \<lparr>os_name = name, os_chunks = [],
      os_cmd = \<lparr>seg_cmd = 0, seg_cmdsize = 0, seg_segname = replicate 16 0, seg_vmaddr = addr, seg_vmsize = sz,
        seg_fileoff = 0, seg_filesize = 0, seg_maxprot = 0, seg_initprot = 0, seg_nsects = 0, seg_flags = 0\<rparr>\<rparr>"

end
