(* ===== verification/RebaseInfo.thy ===== *)
theory RebaseInfo
  imports Chunks
begin

unbundle bit_operations_syntax

section \<open>The rebase opcode stream (\<open>macho/chunks/rebase_info.rs\<close>)\<close>

text \<open>
  The linker sorts the addresses dyld has to slide, turns them into opcodes and encodes those. The
  specification is dyld's side: a machine that reads the stream byte by byte, with its bounds check,
  and lists the addresses it rebases.
\<close>

datatype rebase_op = RSegOffset nat u64 | RAddAddr u64 | Rebase u64

definition encode_rebase_op :: "rebase_op \<Rightarrow> bytes" where
  "encode_rebase_op op =
     (case op of
        RSegOffset seg off \<Rightarrow> (REBASE_OPCODE_SET_SEGMENT_AND_OFFSET_ULEB OR of_nat seg) # encode_uleb off
      | RAddAddr delta \<Rightarrow>
          if delta \<le> 15 * 8 \<and> delta mod 8 = 0 then [REBASE_OPCODE_ADD_ADDR_IMM_SCALED OR ucast (delta div 8)]
          else REBASE_OPCODE_ADD_ADDR_ULEB # encode_uleb delta
      | Rebase count \<Rightarrow>
          if count \<le> 15 then [REBASE_OPCODE_DO_REBASE_IMM_TIMES OR ucast count]
          else REBASE_OPCODE_DO_REBASE_ULEB_TIMES # encode_uleb count)"

text \<open>The inner loop of \<open>rebase_ops\<close>: how many pointers follow one another from \<open>addr\<close>.\<close>

fun rebase_run :: "u64 \<Rightarrow> u64 \<Rightarrow> nat \<Rightarrow> u64 list \<Rightarrow> nat" where
  "rebase_run addr seg_end n [] = n"
| "rebase_run addr seg_end n (l # ls) =
     (if l = addr + of_nat n * 8 \<and> l < seg_end then rebase_run addr seg_end (n + 1) ls else n)"

lemma rebase_run_ge: "n \<le> rebase_run addr seg_end n ls"
  by (induction addr seg_end n ls rule: rebase_run.induct) auto

text \<open>The outer loop, over the locations still to list; \<open>None\<close> when no segment holds one.\<close>

function rebase_ops_loop ::
  "out_segment list \<Rightarrow> u64 \<Rightarrow> u64 \<Rightarrow> u64 \<Rightarrow> u64 list \<Rightarrow> rebase_op list option" where
  "rebase_ops_loop segs seg_start seg_end cur_addr [] = Some []"
| "rebase_ops_loop segs seg_start seg_end cur_addr (addr # locs) =
     do { (ops, seg_start, seg_end) \<leftarrow>
            (if addr < seg_start \<or> seg_end \<le> addr then
               do { (seg, off) \<leftarrow> segment_and_offset segs addr;
                    let seg_start = addr - off
                    in Some ([RSegOffset seg off], seg_start, seg_start + seg_vmsize (os_cmd (segs ! seg))) }
             else Some (if addr \<noteq> cur_addr then [RAddAddr (addr - cur_addr)] else [], seg_start, seg_end));
          let n = rebase_run addr seg_end 1 locs
          in do { rest \<leftarrow> rebase_ops_loop segs seg_start seg_end (addr + of_nat n * 8) (drop (n - 1) locs);
                  Some (ops @ [Rebase (of_nat n)] @ rest) } }"
  by pat_completeness auto
termination
  by (relation "measure (\<lambda>(segs, s, e, c, locs). length locs)") auto

definition rebase_ops :: "out_segment list \<Rightarrow> u64 list \<Rightarrow> rebase_op list option" where
  "rebase_ops segs locs = rebase_ops_loop segs 0 0 0 locs"

definition is_never_slid :: "u32 \<Rightarrow> bool \<Rightarrow> bool \<Rightarrow> bool" where
  "is_never_slid output_type pie static_link \<longleftrightarrow> output_type = MH_EXECUTE \<and> \<not> pie \<and> \<not> static_link"

text \<open>\<open>construct\<close>, with the locations the chunks list and whether the image is never slid as arguments.\<close>

definition rebase_construct :: "bool \<Rightarrow> out_segment list \<Rightarrow> u64 list \<Rightarrow> bytes option" where
  "rebase_construct never_slid segs rebase_locations =
     (if never_slid then Some []
      else if rebase_locations = [] then Some []
      else
        do { ops \<leftarrow> rebase_ops segs (sort rebase_locations);
             let buf = [REBASE_OPCODE_SET_TYPE_IMM OR REBASE_TYPE_POINTER]
                       @ concat (map encode_rebase_op ops) @ [REBASE_OPCODE_DONE]
             in Some (pad_to buf 8) })"

subsection \<open>dyld's machine\<close>

text \<open>
  The state is the current segment's bounds and the address; a stream ends with its \<open>DONE\<close>. Every
  rebased address has to lie in the segment.
\<close>

record rebase_vm =
  rv_start :: u64
  rv_end :: u64
  rv_addr :: u64

definition rebase_times :: "nat \<Rightarrow> rebase_vm \<Rightarrow> (u64 list \<times> rebase_vm) option" where
  "rebase_times n vm =
     (let addrs = map (\<lambda>i. rv_addr vm + of_nat i * 8) [0..<n]
      in if list_all (\<lambda>a. rv_start vm \<le> a \<and> a < rv_end vm) addrs
         then Some (addrs, vm\<lparr>rv_addr := rv_addr vm + of_nat n * 8\<rparr>) else None)"

function (sequential) rebase_exec :: "out_segment list \<Rightarrow> rebase_vm \<Rightarrow> bytes \<Rightarrow> u64 list option" where
  "rebase_exec segs vm [] = None"
| "rebase_exec segs vm (b # bs) =
     (let opcode = b AND 0xf0; imm = b AND 0xf in
      if opcode = REBASE_OPCODE_DONE then Some []
      else if opcode = REBASE_OPCODE_SET_TYPE_IMM then
        (if imm = REBASE_TYPE_POINTER then rebase_exec segs vm bs else None)
      else if opcode = REBASE_OPCODE_SET_SEGMENT_AND_OFFSET_ULEB then
        (case read_uleb bs of None \<Rightarrow> None
         | Some (off, rest) \<Rightarrow>
             if unat imm < length segs then
               let cmd = os_cmd (segs ! unat imm)
               in rebase_exec segs \<lparr>rv_start = seg_vmaddr cmd, rv_end = seg_vmaddr cmd + seg_vmsize cmd,
                    rv_addr = seg_vmaddr cmd + off\<rparr> rest
             else None)
      else if opcode = REBASE_OPCODE_ADD_ADDR_ULEB then
        (case read_uleb bs of None \<Rightarrow> None
         | Some (delta, rest) \<Rightarrow> rebase_exec segs (vm\<lparr>rv_addr := rv_addr vm + delta\<rparr>) rest)
      else if opcode = REBASE_OPCODE_ADD_ADDR_IMM_SCALED then
        rebase_exec segs (vm\<lparr>rv_addr := rv_addr vm + ucast imm * 8\<rparr>) bs
      else if opcode = REBASE_OPCODE_DO_REBASE_IMM_TIMES then
        (case rebase_times (unat imm) vm of None \<Rightarrow> None
         | Some (addrs, vm') \<Rightarrow> map_option (\<lambda>more. addrs @ more) (rebase_exec segs vm' bs))
      else if opcode = REBASE_OPCODE_DO_REBASE_ULEB_TIMES then
        (case read_uleb bs of None \<Rightarrow> None
         | Some (count, rest) \<Rightarrow>
             (case rebase_times (unat count) vm of None \<Rightarrow> None
              | Some (addrs, vm') \<Rightarrow> map_option (\<lambda>more. addrs @ more) (rebase_exec segs vm' rest)))
      else None)"
  by pat_completeness auto
termination
  by (relation "measure (\<lambda>(segs, vm, bs). length bs)") (auto dest!: read_uleb_shorter)

text \<open>What one opcode does, before its encoding.\<close>

fun rebase_step :: "out_segment list \<Rightarrow> rebase_op \<Rightarrow> rebase_vm \<Rightarrow> (u64 list \<times> rebase_vm) option" where
  "rebase_step segs (RSegOffset seg off) vm =
     Some ([], \<lparr>rv_start = seg_vmaddr (os_cmd (segs ! seg)),
        rv_end = seg_vmaddr (os_cmd (segs ! seg)) + seg_vmsize (os_cmd (segs ! seg)),
        rv_addr = seg_vmaddr (os_cmd (segs ! seg)) + off\<rparr>)"
| "rebase_step segs (RAddAddr delta) vm = Some ([], vm\<lparr>rv_addr := rv_addr vm + delta\<rparr>)"
| "rebase_step segs (Rebase count) vm = rebase_times (unat count) vm"

lemma small_imm:
  assumes "(x :: u64) \<le> 15"
  shows "(ucast x :: u8) < 16" and "ucast (ucast x :: u8) = x" and "unat (ucast x :: u8) = unat x"
proof -
  have x: "unat x \<le> 15" using assms by (simp add: word_le_nat_alt)
  show u: "unat (ucast x :: u8) = unat x"
    using x by (simp add: unsigned_ucast_eq take_bit_nat_eq_self)
  show "(ucast x :: u8) < 16" using x u by (simp add: word_less_nat_alt)
  show "ucast (ucast x :: u8) = x"
    by (rule word_unat_eq_iff [THEN iffD2]) (simp add: unat_ucast_u8 u)
qed

lemma exec_encoded:
  assumes "case op of RSegOffset seg off \<Rightarrow> seg < 16 \<and> seg < length segs | _ \<Rightarrow> True"
  shows "rebase_exec segs vm (encode_rebase_op op @ rest) =
    do { (addrs, vm') \<leftarrow> rebase_step segs op vm;
         more \<leftarrow> rebase_exec segs vm' rest; Some (addrs @ more) }"
proof (cases op)
  case (RSegOffset seg off)
  have s: "(of_nat seg :: u8) < 16" "unat (of_nat seg :: u8) = seg" "seg < length segs"
    using of_nat_nibble [of seg] assms RSegOffset by simp_all
  show ?thesis
    unfolding RSegOffset by (simp add: encode_rebase_op_def Let_def opcode_or [OF s(1)] s read_encode_uleb)
next
  case (RAddAddr delta)
  show ?thesis
  proof (cases "delta \<le> 15 * 8 \<and> delta mod 8 = 0")
    case True
    have le: "delta div 8 \<le> 15"
      using True div_le_mono [of "unat delta" 120 8] by (simp add: word_le_nat_alt unat_div)
    have "delta div 8 * 8 = delta" using True by (metis add.right_neutral div_mult_mod_eq)
    then show ?thesis
      unfolding RAddAddr using True small_imm [OF le]
      by (simp add: encode_rebase_op_def Let_def opcode_or)
  next
    case False
    then have e: "encode_rebase_op (RAddAddr delta) = 0x30 # encode_uleb delta"
      by (auto simp: encode_rebase_op_def)
    show ?thesis unfolding RAddAddr e by (simp add: Let_def read_encode_uleb)
  qed
next
  case (Rebase count)
  show ?thesis
  proof (cases "count \<le> 15")
    case True
    then show ?thesis
      unfolding Rebase using small_imm [OF True]
      by (simp add: encode_rebase_op_def Let_def opcode_or map_option_as_bind split: option.splits)
  next
    case False
    then show ?thesis
      unfolding Rebase by (simp add: encode_rebase_op_def Let_def read_encode_uleb map_option_as_bind split: option.splits)
  qed
qed

text \<open>A run of pointers the linker found is one dyld rebases.\<close>

lemma rebase_run_spec:
  "let n = rebase_run addr seg_end m ls in
   n - m \<le> length ls \<and> take (n - m) ls = map (\<lambda>i. addr + of_nat i * 8) [m..<n]
   \<and> (\<forall>a \<in> set (take (n - m) ls). a < seg_end)"
proof (induction addr seg_end m ls rule: rebase_run.induct)
  case (1 addr seg_end m)
  then show ?case by simp
next
  case (2 addr seg_end m l ls)
  show ?case
  proof (cases "l = addr + of_nat m * 8 \<and> l < seg_end")
    case True
    let ?n = "rebase_run addr seg_end (m + 1) ls"
    have ge: "m + 1 \<le> ?n" by (rule rebase_run_ge)
    then have d: "?n - m = Suc (?n - (m + 1))" by simp
    have u: "[m..<?n] = m # [m + 1..<?n]" using ge by (simp add: upt_conv_Cons)
    from 2 True show ?thesis by (simp add: Let_def d u del: One_nat_def)
  next
    case False
    then have "rebase_run addr seg_end m (l # ls) = m" by auto
    then show ?thesis by (simp only: Let_def) simp
  qed
qed

lemma rebase_exec_ops:
  assumes "sorted locs" and "length locs < 2 ^ 64" and "length segs \<le> 16"
    and "rebase_ops_loop segs s e c locs = Some ops"
  shows "rebase_exec segs \<lparr>rv_start = s, rv_end = e, rv_addr = c\<rparr> (concat (map encode_rebase_op ops) @ 0 # rest)
    = Some locs"
  using assms
proof (induction "length locs" arbitrary: locs s e c ops rule: less_induct)
  case less
  show ?case
  proof (cases locs)
    case Nil
    with less.prems show ?thesis by (simp add: Let_def)
  next
    case (Cons addr locs')
    let ?moved = "addr < s \<or> e \<le> addr"
    from less.prems(4) obtain ops1 s1 e1 more where
      first: "(if ?moved then do { (seg, off) \<leftarrow> segment_and_offset segs addr;
                    let seg_start = addr - off
                    in Some ([RSegOffset seg off], seg_start, seg_start + seg_vmsize (os_cmd (segs ! seg))) }
             else Some (if addr \<noteq> c then [RAddAddr (addr - c)] else [], s, e)) = Some (ops1, s1, e1)"
      and n: "rebase_ops_loop segs s1 e1 (addr + of_nat (rebase_run addr e1 1 locs') * 8)
                (drop (rebase_run addr e1 1 locs' - 1) locs') = Some more"
      and ops: "ops = ops1 @ [Rebase (of_nat (rebase_run addr e1 1 locs'))] @ more"
      unfolding Cons by (auto simp: bind_eq_Some_conv Let_def)
    let ?n = "rebase_run addr e1 1 locs'"
    let ?vm = "\<lparr>rv_start = s1, rv_end = e1, rv_addr = addr\<rparr>"
    have there: "s1 \<le> addr \<and> addr < e1" and
      pre: "rebase_exec segs \<lparr>rv_start = s, rv_end = e, rv_addr = c\<rparr> (concat (map encode_rebase_op ops1) @ r)
        = rebase_exec segs ?vm r" for r
    proof -
      have "s1 \<le> addr \<and> addr < e1 \<and> (\<forall>r. rebase_exec segs \<lparr>rv_start = s, rv_end = e, rv_addr = c\<rparr>
          (concat (map encode_rebase_op ops1) @ r) = rebase_exec segs ?vm r)"
      proof (cases ?moved)
        case True
        then obtain seg off where so: "segment_and_offset segs addr = Some (seg, off)"
          and eq: "ops1 = [RSegOffset seg off]" "s1 = addr - off" "e1 = s1 + seg_vmsize (os_cmd (segs ! seg))"
          using first by (auto simp: bind_eq_Some_conv Let_def)
        note at = segment_and_offset_Some [OF so]
        then show ?thesis
          using eq less.prems(3) by (simp add: exec_encoded bind_eq_Some_conv)
      next
        case False
        with first have eq: "ops1 = (if addr \<noteq> c then [RAddAddr (addr - c)] else [])" "s1 = s" "e1 = e"
          by auto
        then show ?thesis using False by (auto simp: exec_encoded)
      qed
      then show "s1 \<le> addr \<and> addr < e1" and
        "rebase_exec segs \<lparr>rv_start = s, rv_end = e, rv_addr = c\<rparr> (concat (map encode_rebase_op ops1) @ r)
          = rebase_exec segs ?vm r" by blast+
    qed
    have run: "?n - 1 \<le> length locs'" "take (?n - 1) locs' = map (\<lambda>i. addr + of_nat i * 8) [1..<?n]"
      "\<forall>a \<in> set (take (?n - 1) locs'). a < e1"
      using rebase_run_spec [of addr e1 1 locs'] unfolding Let_def by blast+
    have n1: "1 \<le> ?n" by (rule rebase_run_ge)
    have run_all: "map (\<lambda>i. addr + of_nat i * 8) [0..<?n] = addr # take (?n - 1) locs'"
      using n1 run(2) by (simp add: upt_conv_Cons)
    have "?n < 2 ^ 64" using run(1) n1 less.prems(2) Cons by simp
    then have un: "unat (of_nat ?n :: u64) = ?n" by (simp add: unat_of_nat take_bit_nat_eq_self)
    have above: "\<forall>a \<in> set (take (?n - 1) locs'). s1 \<le> a"
    proof
      fix a assume "a \<in> set (take (?n - 1) locs')"
      then have "a \<in> set locs'" by (rule in_set_takeD)
      then have "addr \<le> a" using less.prems(1) Cons by simp
      then show "s1 \<le> a" using there order_trans by blast
    qed
    have times: "rebase_step segs (Rebase (of_nat ?n)) ?vm =
        Some (addr # take (?n - 1) locs', ?vm\<lparr>rv_addr := addr + of_nat ?n * 8\<rparr>)"
      using above run(3) there by (simp add: un rebase_times_def run_all list_all_iff del: One_nat_def set_upt list.set_map)
    have rest: "rebase_exec segs \<lparr>rv_start = s1, rv_end = e1, rv_addr = addr + of_nat ?n * 8\<rparr>
        (concat (map encode_rebase_op more) @ 0 # rest) = Some (drop (?n - 1) locs')"
    proof (rule less.hyps [OF _ _ _ _ n])
      show "length (drop (?n - 1) locs') < length locs" by (simp add: Cons)
      show "sorted (drop (?n - 1) locs')" using less.prems(1) Cons by (simp add: sorted_wrt_drop)
      show "length (drop (?n - 1) locs') < 2 ^ 64" using less.prems(2) Cons by simp
      show "length segs \<le> 16" by (rule less.prems(3))
    qed
    show ?thesis
      unfolding ops using rest times by (simp add: pre exec_encoded Cons)
  qed
qed

text \<open>
  C2. Reading the rebase stream, dyld slides exactly the listed pointers, in order of their
  addresses, each of them inside the segment it has set; there are at most 16 segments, which is
  what the stream's 4-bit segment number can name.
\<close>

theorem rebase_stream_correct:
  assumes "rebase_construct never_slid segs locs = Some buf" and "buf \<noteq> []"
    and "length segs \<le> 16" and "length locs < 2 ^ 64"
  shows "rebase_exec segs \<lparr>rv_start = 0, rv_end = 0, rv_addr = 0\<rparr> buf = Some (sort locs) \<and> length buf mod 8 = 0"
proof -
  obtain ops where ops: "rebase_ops_loop segs 0 0 0 (sort locs) = Some ops"
    and buf: "buf = pad_to ([0x11] @ concat (map encode_rebase_op ops) @ [0]) 8"
    using assms(1,2) by (auto simp: rebase_construct_def rebase_ops_def bind_eq_Some_conv Let_def split: if_splits)
  obtain pad where pad: "buf = 0x11 # concat (map encode_rebase_op ops) @ 0 # pad"
    unfolding buf pad_to_def by simp
  have "length buf = next_multiple_of (length ([0x11] @ concat (map encode_rebase_op ops) @ [0])) 8"
    unfolding buf by (rule length_pad_to) simp
  moreover have "rebase_exec segs \<lparr>rv_start = 0, rv_end = 0, rv_addr = 0\<rparr> (concat (map encode_rebase_op ops) @ 0 # pad)
      = Some (sort locs)"
    by (rule rebase_exec_ops [OF _ _ assms(3) ops]) (use assms(4) in simp_all)
  ultimately show ?thesis by (simp add: pad Let_def next_multiple_of_def)
qed

theorem rebase_stream_correct_witness:
  "rebase_exec [segment_at (bstr ''__TEXT'') 0x1000 0x1000, segment_at (bstr ''__DATA'') 0x2000 0x1000]
     \<lparr>rv_start = 0, rv_end = 0, rv_addr = 0\<rparr>
     [0x11, 0x20, 0xf0, 0x1f, 0x51, 0x21, 0, 0x53, 0, 0, 0, 0, 0, 0, 0, 0] = Some [0x1ff0, 0x2000, 0x2008, 0x2010]"
proof -
  let ?segs = "[segment_at (bstr ''__TEXT'') 0x1000 0x1000, segment_at (bstr ''__DATA'') 0x2000 0x1000]"
  let ?locs = "[0x2010, 0x2000, 0x2008, 0x1ff0] :: u64 list"
  have "rebase_construct False ?segs ?locs = Some [0x11, 0x20, 0xf0, 0x1f, 0x51, 0x21, 0, 0x53, 0, 0, 0, 0, 0, 0, 0, 0]"
    by code_simp
  from rebase_stream_correct [OF this] show ?thesis by simp
qed

end
