(* ===== verification/Sleb.thy ===== *)
theory Sleb
  imports Util
begin

unbundle bit_operations_syntax

section \<open>Signed LEB128 read back\<close>

text \<open>
  A reader of signed LEB128 at the front of a byte string, as the format defines it, and the
  interpretation of the encoding interface on \<open>encode_sleb\<close>.
\<close>

fun read_sleb_loop :: "u64 \<Rightarrow> nat \<Rightarrow> bytes \<Rightarrow> (u64 \<times> bytes) option" where
  "read_sleb_loop val shift [] = None"
| "read_sleb_loop val shift (b # rest) =
     (let val' = (if shift < 64 then val OR push_bit shift (ucast (b AND 0x7f)) else val);
          shift' = shift + 7
      in if b AND 0x80 = 0 then
           Some (if shift' < 64 \<and> b AND 0x40 \<noteq> 0 then val' OR push_bit shift' (- 1) else val', rest)
         else read_sleb_loop val' shift' rest)"

definition read_sleb :: "bytes \<Rightarrow> (u64 \<times> bytes) option" where
  "read_sleb bs = read_sleb_loop 0 0 bs"

lemma sleb_bit_40: "(ucast (v AND 0x7f :: u64) :: u8) AND 0x40 = 0 \<longleftrightarrow> \<not> bit v 6"
proof
  assume z: "(ucast (v AND 0x7f :: u64) :: u8) AND 0x40 = 0"
  show "\<not> bit v 6"
  proof
    assume "bit v 6"
    then have "bit ((ucast (v AND 0x7f :: u64) :: u8) AND 0x40) 6" by (simp add: leb_bits)
    with z show False by simp
  qed
next
  assume "\<not> bit v 6"
  then show "(ucast (v AND 0x7f :: u64) :: u8) AND 0x40 = 0"
    by (intro bit_word_eqI) (auto simp: leb_bits)
qed

lemma bit_sdrop:
  assumes "i < 64"
  shows "bit (signed_drop_bit k (v :: u64)) i \<longleftrightarrow> bit v (if i + k < 64 then i + k else 63)"
  using assms by (auto simp: bit_signed_drop_bit_iff add.commute simp flip: One_nat_def)

lemma sleb_join: "push_bit s (v AND 0x7f) OR push_bit (s + 7) (signed_drop_bit 7 v) = push_bit s (v :: u64)"
proof (rule bit_word_eqI)
  fix n assume n: "n < LENGTH(64)"
  then show "bit (push_bit s (v AND 0x7f) OR push_bit (s + 7) (signed_drop_bit 7 v)) n = bit (push_bit s v) n"
    by (cases "n < s + 7") (auto simp: bit_or_iff bit_push_bit_iff bit_sdrop bit_and_iff mask_7f bit_mask_iff)
qed

lemma read_sleb_loop_high:
  "64 \<le> s \<Longrightarrow> read_sleb_loop val s (encode_sleb v @ rest) = Some (val, rest)"
proof (induction v arbitrary: s rule: encode_sleb.induct)
  case (1 v)
  show ?case
  proof (cases "(signed_drop_bit 7 v = 0 \<and> \<not> bit v 6) \<or> (signed_drop_bit 7 v = - 1 \<and> bit v 6)")
    case True
    then show ?thesis
      using "1.prems" by (subst encode_sleb.simps) (auto simp: sleb_bit_40 leb_last_byte Let_def)
  next
    case False
    have "read_sleb_loop val (s + 7) (encode_sleb (signed_drop_bit 7 v) @ rest) = Some (val, rest)"
      by (rule "1.IH" [OF refl refl refl]) (use False "1.prems" sleb_bit_40 in auto)
    then show ?thesis
      using False "1.prems" by (subst encode_sleb.simps) (auto simp: sleb_bit_40 leb_cont_byte Let_def)
  qed
qed

lemma read_sleb_loop_encode:
  "s < 64 \<Longrightarrow> read_sleb_loop val s (encode_sleb v @ rest) = Some (val OR push_bit s v, rest)"
proof (induction v arbitrary: val s rule: encode_sleb.induct)
  case (1 v)
  let ?v' = "signed_drop_bit 7 v" and ?b = "ucast (v AND 0x7f) :: u8"
  have join: "push_bit s (v AND 0x7f) OR push_bit (s + 7) ?v' = push_bit s v" by (rule sleb_join)
  show ?case
  proof (cases "(?v' = 0 \<and> \<not> bit v 6) \<or> (?v' = - 1 \<and> bit v 6)")
    case True
    then have e: "encode_sleb v = [?b]"
      by (subst encode_sleb.simps) (auto simp: sleb_bit_40 Let_def)
    have r: "read_sleb_loop val s (?b # rest) =
        Some (if s + 7 < 64 \<and> bit v 6 then val OR push_bit s (v AND 0x7f) OR push_bit (s + 7) (- 1)
              else val OR push_bit s (v AND 0x7f), rest)"
      using "1.prems" by (simp add: sleb_bit_40 leb_last_byte leb_payload Let_def or.assoc del: push_bit_and)
    have big: "push_bit (s + 7) x = 0" if "\<not> s + 7 < 64" for x :: u64
      using that by (intro bit_word_eqI) (auto simp: bit_push_bit_iff)
    show ?thesis
      unfolding e using r join True big [of "- 1"] by (auto simp: or.assoc simp del: push_bit_and split: if_splits)
  next
    case False
    then have e: "encode_sleb v = (?b OR 0x80) # encode_sleb ?v'"
      by (subst encode_sleb.simps) (auto simp: sleb_bit_40 Let_def)
    have r: "read_sleb_loop val s ((?b OR 0x80) # bs) = read_sleb_loop (val OR push_bit s (v AND 0x7f)) (s + 7) bs" for bs
      using "1.prems" by (simp add: leb_cont_byte leb_payload_cont Let_def del: push_bit_and)
    show ?thesis
    proof (cases "s + 7 < 64")
      case True
      have "read_sleb_loop (val OR push_bit s (v AND 0x7f)) (s + 7) (encode_sleb ?v' @ rest) =
          Some ((val OR push_bit s (v AND 0x7f)) OR push_bit (s + 7) ?v', rest)"
        by (rule "1.IH" [OF refl refl refl]) (use False True sleb_bit_40 in auto)
      then show ?thesis using join unfolding e append_Cons r by (simp add: or.assoc del: push_bit_and)
    next
      case big: False
      then have "push_bit (s + 7) ?v' = 0"
        by (intro bit_word_eqI) (auto simp: bit_push_bit_iff)
      then show ?thesis
        using join read_sleb_loop_high [of "s + 7" "val OR push_bit s (v AND 0x7f)" ?v' rest] big
        unfolding e append_Cons r by (simp del: push_bit_and)
    qed
  qed
qed

lemma read_encode_sleb: "read_sleb (encode_sleb v @ rest) = Some (v, rest)"
  using read_sleb_loop_encode [of 0 0 v rest] by (simp add: read_sleb_def)

lemma read_sleb_loop_shorter: "read_sleb_loop v sh bs = Some (w, rest) \<Longrightarrow> length rest < length bs"
proof (induction bs arbitrary: v sh)
  case (Cons b bs)
  then show ?case by (fastforce simp: Let_def split: if_splits)
qed simp

lemma read_sleb_shorter: "read_sleb bs = Some (w, rest) \<Longrightarrow> length rest < length bs"
  unfolding read_sleb_def by (rule read_sleb_loop_shorter)

interpretation sleb: codec encode_sleb read_sleb
  by unfold_locales (rule read_encode_sleb)

end
