(* ===== verification/BindInfo.thy ===== *)
theory BindInfo
  imports Chunks Sleb "HOL-Library.Multiset"
begin

unbundle bit_operations_syntax

section \<open>The bind opcode streams\<close>

text \<open>
  \<^verbatim>\<open>macho/chunks/bind_info.rs\<close>, \<^verbatim>\<open>weak_bind_info.rs\<close> and \<^verbatim>\<open>lazy_bind_info.rs\<close>: the opcodes that
  tell dyld which slots to fill with which imported symbol. The specification is dyld's bind machine,
  which reads the stream byte by byte and lists every bind with the library ordinal, name, flags and
  addend it has at that moment.

  What the source reads of a symbol through the link's context (its name, the library it binds to,
  its flags) is an argument of the definitions.
\<close>

datatype bind_op = BDylib "32 word" | BSymbol bytes u8 | BType | BSegOffset nat u64 | BAddAddr u64
  | BAddend u64 | BBind

definition encode_bind_op :: "bind_op \<Rightarrow> bytes" where
  "encode_bind_op op =
     (case op of
        BDylib ord \<Rightarrow>
          if sint ord \<le> 0 then [BIND_OPCODE_SET_DYLIB_SPECIAL_IMM OR ucast (ord AND 0xf)]
          else if sint ord < 16 then [BIND_OPCODE_SET_DYLIB_ORDINAL_IMM OR ucast ord]
          else BIND_OPCODE_SET_DYLIB_ORDINAL_ULEB # encode_uleb (scast ord)
      | BSymbol name flags \<Rightarrow> (BIND_OPCODE_SET_SYMBOL_TRAILING_FLAGS_IMM OR flags) # name @ [0]
      | BType \<Rightarrow> [BIND_OPCODE_SET_TYPE_IMM OR BIND_TYPE_POINTER]
      | BSegOffset seg off \<Rightarrow> (BIND_OPCODE_SET_SEGMENT_AND_OFFSET_ULEB OR of_nat seg) # encode_uleb off
      | BAddAddr delta \<Rightarrow> BIND_OPCODE_ADD_ADDR_ULEB # encode_uleb delta
      | BAddend addend \<Rightarrow> BIND_OPCODE_SET_ADDEND_SLEB # encode_sleb addend
      | BBind \<Rightarrow> [BIND_OPCODE_DO_BIND])"

definition bind_encode :: "bind_op list \<Rightarrow> bytes" where
  "bind_encode ops = pad_to (concat (map encode_bind_op ops) @ [BIND_OPCODE_DONE]) 8"

text \<open>The locals of \<open>bind_ops\<close>.\<close>

record 'id bind_state =
  cur_ordinal :: "32 word option"
  cur_symbol :: "('id \<times> u8) option"
  cur_seg :: "nat option"
  cur_addr :: u64
  cur_addend :: u64

definition bind_step ::
  "out_segment list \<Rightarrow> ('id \<Rightarrow> bytes) \<Rightarrow> ('id \<Rightarrow> 32 word option) \<Rightarrow> ('id \<Rightarrow> u8)
   \<Rightarrow> u64 \<times> 'id \<times> u64 \<Rightarrow> 'id bind_state \<Rightarrow> (bind_op list \<times> 'id bind_state) option" where
  "bind_step segs name ordinal flags = (\<lambda>(addr, sid, addend) st.
     let (ops1, st) =
           (case ordinal sid of
              Some ord \<Rightarrow> if cur_ordinal st \<noteq> Some ord then ([BDylib ord], st\<lparr>cur_ordinal := Some ord\<rparr>) else ([], st)
            | None \<Rightarrow> ([], st));
         (ops2, st) =
           (if cur_symbol st \<noteq> Some (sid, flags sid) then
              (BSymbol (name sid) (flags sid) # (if cur_symbol st = None then [BType] else []),
               st\<lparr>cur_symbol := Some (sid, flags sid)\<rparr>)
            else ([], st))
     in do { (ops3, st) \<leftarrow>
               (if cur_seg st = None \<or> addr \<noteq> cur_addr st then
                  do { (seg, off) \<leftarrow> segment_and_offset segs addr;
                       Some (if cur_seg st = Some seg then ([BAddAddr (addr - cur_addr st)], st)
                             else ([BSegOffset seg off], st\<lparr>cur_seg := Some seg\<rparr>)) }
                else Some ([], st));
             let (ops4, st) =
                   (if addend \<noteq> cur_addend st then ([BAddend addend], st\<lparr>cur_addend := addend\<rparr>) else ([], st))
             in Some (ops1 @ ops2 @ ops3 @ ops4 @ [BBind], st\<lparr>cur_addr := addr + 8\<rparr>) })"

fun bind_ops_loop ::
  "out_segment list \<Rightarrow> ('id \<Rightarrow> bytes) \<Rightarrow> ('id \<Rightarrow> 32 word option) \<Rightarrow> ('id \<Rightarrow> u8)
   \<Rightarrow> 'id bind_state \<Rightarrow> (u64 \<times> 'id \<times> u64) list \<Rightarrow> bind_op list option" where
  "bind_ops_loop segs name ordinal flags st [] = Some []"
| "bind_ops_loop segs name ordinal flags st (b # binds) =
     do { (ops, st') \<leftarrow> bind_step segs name ordinal flags b st;
          more \<leftarrow> bind_ops_loop segs name ordinal flags st' binds;
          Some (ops @ more) }"

definition bind_ops ::
  "out_segment list \<Rightarrow> ('id \<Rightarrow> bytes) \<Rightarrow> ('id \<Rightarrow> 32 word option) \<Rightarrow> ('id \<Rightarrow> u8)
   \<Rightarrow> (u64 \<times> 'id \<times> u64) list \<Rightarrow> bind_op list option" where
  "bind_ops segs name ordinal flags binds =
     bind_ops_loop segs name ordinal flags
       \<lparr>cur_ordinal = None, cur_symbol = None, cur_seg = None, cur_addr = 0, cur_addend = 0\<rparr> binds"

text \<open>
  The end of \<open>bind_info::construct\<close>: the collected binds sorted by library, name, addend and address
  (a stable sort, as \<^verbatim>\<open>sort_by\<close> is), and encoded.
\<close>

definition bind_le :: "('id \<Rightarrow> bytes) \<Rightarrow> ('id \<Rightarrow> 32 word) \<Rightarrow> u64 \<times> 'id \<times> u64 \<Rightarrow> u64 \<times> 'id \<times> u64 \<Rightarrow> bool" where
  "bind_le name ordinal = (\<lambda>(addr1, id1, addend1) (addr2, id2, addend2).
     sint (ordinal id1) < sint (ordinal id2) \<or> ordinal id1 = ordinal id2 \<and>
       (name id1 < name id2 \<or> name id1 = name id2 \<and>
         (sint addend1 < sint addend2 \<or> addend1 = addend2 \<and> addr1 \<le> addr2)))"

fun insert_by :: "('a \<Rightarrow> 'a \<Rightarrow> bool) \<Rightarrow> 'a \<Rightarrow> 'a list \<Rightarrow> 'a list" where
  "insert_by le x [] = [x]"
| "insert_by le x (y # ys) = (if le x y then x # y # ys else y # insert_by le x ys)"

fun sort_by :: "('a \<Rightarrow> 'a \<Rightarrow> bool) \<Rightarrow> 'a list \<Rightarrow> 'a list" where
  "sort_by le [] = []"
| "sort_by le (x # xs) = insert_by le x (sort_by le xs)"

definition bind_construct ::
  "out_segment list \<Rightarrow> ('id \<Rightarrow> bytes) \<Rightarrow> ('id \<Rightarrow> 32 word) \<Rightarrow> ('id \<Rightarrow> bool)
   \<Rightarrow> (u64 \<times> 'id \<times> u64) list \<Rightarrow> bytes option" where
  "bind_construct segs name ordinal is_weak_ref binds =
     (if binds = [] then Some []
      else map_option bind_encode
        (bind_ops segs name (\<lambda>sid. Some (ordinal sid))
          (\<lambda>sid. if is_weak_ref sid then BIND_SYMBOL_FLAGS_WEAK_IMPORT else 0)
          (sort_by (bind_le name ordinal) binds)))"

text \<open>\<open>weak_bind_info::construct\<close> once the weak binds and the overriding definitions are collected.\<close>

definition weak_bind_construct ::
  "out_segment list \<Rightarrow> ('id \<Rightarrow> bytes) \<Rightarrow> 'id list \<Rightarrow> ('id \<times> u64) list \<Rightarrow> bytes option" where
  "weak_bind_construct segs name overrides binds =
     (if binds = [] \<and> overrides = [] then Some []
      else
        let overrides = sort_by (\<lambda>a b. name a \<le> name b) overrides;
            binds = sort_by (\<lambda>(i, a) (j, b). name i < name j \<or> name i = name j \<and> a \<le> b) binds;
            ops = map (\<lambda>sid. BSymbol (name sid) BIND_SYMBOL_FLAGS_NON_WEAK_DEFINITION) overrides
        in map_option (\<lambda>more. bind_encode (ops @ more))
             (bind_ops segs name (\<lambda>_. None) (\<lambda>_. 0) (map (\<lambda>(sid, addr). (addr, sid, 0)) binds)))"

text \<open>
  \<open>lazy_bind_info::construct\<close>: a stub is its lazy pointer's address, the library ordinal, the name
  and whether the reference is weak.
\<close>

record lazy_stub =
  ls_addr :: u64
  ls_ordinal :: "32 word"
  ls_name :: bytes
  ls_weak :: bool

definition lazy_record :: "out_segment list \<Rightarrow> lazy_stub \<Rightarrow> bytes option" where
  "lazy_record segs s =
     do { (seg, off) \<leftarrow> segment_and_offset segs (ls_addr s);
          let flags = (if ls_weak s then BIND_SYMBOL_FLAGS_WEAK_IMPORT else 0);
              ops = [BSegOffset seg off, BDylib (ls_ordinal s), BSymbol (ls_name s) flags, BBind]
          in Some (concat (map encode_bind_op ops) @ [BIND_OPCODE_DONE]) }"

fun lazy_bind_loop :: "out_segment list \<Rightarrow> lazy_stub list \<Rightarrow> bytes \<Rightarrow> u32 list \<Rightarrow> (bytes \<times> u32 list) option" where
  "lazy_bind_loop segs [] buf offsets = Some (buf, offsets)"
| "lazy_bind_loop segs (s # stubs) buf offsets =
     do { r \<leftarrow> lazy_record segs s;
          lazy_bind_loop segs stubs (buf @ r) (offsets @ [of_nat (length buf)]) }"

definition lazy_bind_construct :: "out_segment list \<Rightarrow> lazy_stub list \<Rightarrow> (bytes \<times> u32 list) option" where
  "lazy_bind_construct segs stubs =
     (if stubs = [] then Some ([], [])
      else do { (buf, offsets) \<leftarrow> lazy_bind_loop segs stubs [] []; Some (pad_to buf 8, offsets) })"

subsection \<open>dyld's machine\<close>

record bind_vm =
  bm_ordinal :: "32 word option"
  bm_symbol :: "(bytes \<times> u8) option"
  bm_typed :: bool
  bm_start :: u64
  bm_end :: u64
  bm_addr :: u64
  bm_addend :: u64

text \<open>A bind: where, from which library, by which name and flags, plus what.\<close>

type_synonym bound = "u64 \<times> 32 word option \<times> bytes \<times> u8 \<times> u64"

definition do_bind :: "bool \<Rightarrow> bind_vm \<Rightarrow> (bound \<times> bind_vm) option" where
  "do_bind typed vm =
     (case bm_symbol vm of None \<Rightarrow> None
      | Some (name, flags) \<Rightarrow>
          if (bm_typed vm \<or> \<not> typed) \<and> bm_start vm \<le> bm_addr vm \<and> bm_addr vm < bm_end vm
          then Some ((bm_addr vm, bm_ordinal vm, name, flags, bm_addend vm), vm\<lparr>bm_addr := bm_addr vm + 8\<rparr>)
          else None)"

text \<open>\<open>typed\<close>: whether a bind needs a type set first, as it does outside the lazy stream.\<close>

function (sequential) bind_exec :: "bool \<Rightarrow> out_segment list \<Rightarrow> bind_vm \<Rightarrow> bytes \<Rightarrow> bound list option" where
  "bind_exec typed segs vm [] = None"
| "bind_exec typed segs vm (b # bs) =
     (let opcode = b AND 0xf0; imm = b AND 0xf in
      if opcode = BIND_OPCODE_DONE then Some []
      else if opcode = BIND_OPCODE_SET_DYLIB_ORDINAL_IMM then
        bind_exec typed segs (vm\<lparr>bm_ordinal := Some (ucast imm)\<rparr>) bs
      else if opcode = BIND_OPCODE_SET_DYLIB_ORDINAL_ULEB then
        (case read_uleb bs of None \<Rightarrow> None
         | Some (ord, rest) \<Rightarrow> bind_exec typed segs (vm\<lparr>bm_ordinal := Some (ucast ord)\<rparr>) rest)
      else if opcode = BIND_OPCODE_SET_DYLIB_SPECIAL_IMM then
        bind_exec typed segs
          (vm\<lparr>bm_ordinal := Some (if imm = 0 then 0 else scast (imm OR 0xf0))\<rparr>) bs
      else if opcode = BIND_OPCODE_SET_SYMBOL_TRAILING_FLAGS_IMM then
        (case read_cstr bs of None \<Rightarrow> None
         | Some (name, rest) \<Rightarrow> bind_exec typed segs (vm\<lparr>bm_symbol := Some (name, imm)\<rparr>) rest)
      else if opcode = BIND_OPCODE_SET_TYPE_IMM then
        (if imm = BIND_TYPE_POINTER then bind_exec typed segs (vm\<lparr>bm_typed := True\<rparr>) bs else None)
      else if opcode = BIND_OPCODE_SET_ADDEND_SLEB then
        (case read_sleb bs of None \<Rightarrow> None
         | Some (addend, rest) \<Rightarrow> bind_exec typed segs (vm\<lparr>bm_addend := addend\<rparr>) rest)
      else if opcode = BIND_OPCODE_SET_SEGMENT_AND_OFFSET_ULEB then
        (case read_uleb bs of None \<Rightarrow> None
         | Some (off, rest) \<Rightarrow>
             if unat imm < length segs then
               let cmd = os_cmd (segs ! unat imm)
               in bind_exec typed segs (vm\<lparr>bm_start := seg_vmaddr cmd, bm_end := seg_vmaddr cmd + seg_vmsize cmd,
                    bm_addr := seg_vmaddr cmd + off\<rparr>) rest
             else None)
      else if opcode = BIND_OPCODE_ADD_ADDR_ULEB then
        (case read_uleb bs of None \<Rightarrow> None
         | Some (delta, rest) \<Rightarrow> bind_exec typed segs (vm\<lparr>bm_addr := bm_addr vm + delta\<rparr>) rest)
      else if opcode = BIND_OPCODE_DO_BIND then
        (case do_bind typed vm of None \<Rightarrow> None
         | Some (x, vm') \<Rightarrow> map_option (\<lambda>more. x # more) (bind_exec typed segs vm' bs))
      else None)"
  by pat_completeness auto
termination
  by (relation "measure (\<lambda>(typed, segs, vm, bs). length bs)")
    (auto dest!: read_uleb_shorter read_sleb_shorter read_cstr_shorter)

definition bind_vm_start :: bind_vm where
  "bind_vm_start = \<lparr>bm_ordinal = None, bm_symbol = None, bm_typed = False, bm_start = 0, bm_end = 0,
     bm_addr = 0, bm_addend = 0\<rparr>"

text \<open>What one opcode does, before its encoding.\<close>

fun bind_sem :: "bool \<Rightarrow> out_segment list \<Rightarrow> bind_op \<Rightarrow> bind_vm \<Rightarrow> (bound list \<times> bind_vm) option" where
  "bind_sem typed segs (BDylib ord) vm = Some ([], vm\<lparr>bm_ordinal := Some ord\<rparr>)"
| "bind_sem typed segs (BSymbol name flags) vm = Some ([], vm\<lparr>bm_symbol := Some (name, flags)\<rparr>)"
| "bind_sem typed segs BType vm = Some ([], vm\<lparr>bm_typed := True\<rparr>)"
| "bind_sem typed segs (BSegOffset seg off) vm =
     (let cmd = os_cmd (segs ! seg)
      in Some ([], vm\<lparr>bm_start := seg_vmaddr cmd, bm_end := seg_vmaddr cmd + seg_vmsize cmd,
           bm_addr := seg_vmaddr cmd + off\<rparr>))"
| "bind_sem typed segs (BAddAddr delta) vm = Some ([], vm\<lparr>bm_addr := bm_addr vm + delta\<rparr>)"
| "bind_sem typed segs (BAddend addend) vm = Some ([], vm\<lparr>bm_addend := addend\<rparr>)"
| "bind_sem typed segs BBind vm = map_option (\<lambda>(x, vm'). ([x], vm')) (do_bind typed vm)"

text \<open>What an opcode's operands have to fit in.\<close>

fun op_fits :: "nat \<Rightarrow> bind_op \<Rightarrow> bool" where
  "op_fits nsegs (BDylib ord) \<longleftrightarrow> - 16 < sint ord"
| "op_fits nsegs (BSymbol name flags) \<longleftrightarrow> 0 \<notin> set name \<and> flags < 16"
| "op_fits nsegs (BSegOffset seg off) \<longleftrightarrow> seg < nsegs \<and> nsegs \<le> 16"
| "op_fits nsegs _ \<longleftrightarrow> True"

lemma special_ordinal:
  assumes "- 16 < sint (ord :: 32 word)" "sint ord \<le> 0"
  shows "let imm = ucast (ord AND 0xf) :: u8 in imm < 16 \<and> (if imm = 0 then 0 else scast (imm OR 0xf0)) = ord"
proof -
  have "sint ord \<in> {- 15..0}" using assms by auto
  also have "{- 15..0} = {- 15, - 14, - 13, - 12, - 11, - 10, - 9, - 8, - 7, - 6, - 5, - 4, - 3, - 2, - 1, 0 :: int}"
    by (rule set_eqI, simp, presburger)
  finally have "word_of_int (sint ord) \<in> (word_of_int :: int \<Rightarrow> 32 word) `
      {- 15, - 14, - 13, - 12, - 11, - 10, - 9, - 8, - 7, - 6, - 5, - 4, - 3, - 2, - 1, 0}"
    by (rule imageI)
  then have "ord \<in> {- 15, - 14, - 13, - 12, - 11, - 10, - 9, - 8, - 7, - 6, - 5, - 4, - 3, - 2, - 1, 0}"
    by simp
  then show ?thesis by (elim insertE; simp add: Let_def)
qed

lemma small_ordinal:
  assumes "0 < sint (ord :: 32 word)"
  shows "ucast (scast ord :: u64) = ord" and "sint ord < 16 \<Longrightarrow> (ucast ord :: u8) < 16 \<and> ucast (ucast ord :: u8) = ord"
proof -
  show "ucast (scast ord :: u64) = ord"
    by (rule bit_word_eqI) (simp add: bit_simps)
next
  assume l: "sint ord < 16"
  have "uint ord = uint (word_of_int (sint ord) :: 32 word)" by simp
  also have "\<dots> = sint ord"
    using assms l by (simp only: uint_word_of_int) (simp add: take_bit_eq_mod)
  finally have u: "unat ord < 16" using l by (simp add: unat_eq_nat_uint)
  then have v: "unat (ucast ord :: u8) = unat ord" by (simp add: unsigned_ucast_eq take_bit_nat_eq_self)
  then show "(ucast ord :: u8) < 16 \<and> ucast (ucast ord :: u8) = ord"
    using u by (simp add: word_less_nat_alt word_unat_eq_iff unat_ucast_u8)
qed

lemma bind_exec_op:
  assumes "op_fits (length segs) op"
  shows "bind_exec typed segs vm (encode_bind_op op @ rest) =
    do { (xs, vm') \<leftarrow> bind_sem typed segs op vm; more \<leftarrow> bind_exec typed segs vm' rest; Some (xs @ more) }"
proof (cases op)
  case (BDylib ord)
  with assms have lo: "- 16 < sint ord" by simp
  consider "sint ord \<le> 0" | "0 < sint ord" "sint ord < 16" | "16 \<le> sint ord" by linarith
  then show ?thesis
  proof cases
    case 1
    with special_ordinal [OF lo] show ?thesis
      unfolding BDylib by (simp add: encode_bind_op_def Let_def opcode_or del: scast_id)
  next
    case 2
    with small_ordinal(2) [of ord] show ?thesis
      unfolding BDylib by (simp add: encode_bind_op_def Let_def opcode_or)
  next
    case 3
    with small_ordinal(1) [of ord] show ?thesis
      unfolding BDylib by (simp add: encode_bind_op_def Let_def read_encode_uleb)
  qed
next
  case (BSymbol name flags)
  with assms show ?thesis
    by (simp add: encode_bind_op_def Let_def opcode_or read_cstr_append)
next
  case BType
  then show ?thesis by (simp add: encode_bind_op_def Let_def)
next
  case (BSegOffset seg off)
  have s: "(of_nat seg :: u8) < 16" "unat (of_nat seg :: u8) = seg" "seg < length segs"
    using of_nat_nibble [of seg] assms BSegOffset by simp_all
  show ?thesis
    unfolding BSegOffset by (simp add: encode_bind_op_def Let_def opcode_or [OF s(1)] s read_encode_uleb)
next
  case (BAddAddr delta)
  then show ?thesis by (simp add: encode_bind_op_def Let_def read_encode_uleb)
next
  case (BAddend addend)
  then show ?thesis by (simp add: encode_bind_op_def Let_def read_encode_sleb)
next
  case BBind
  then show ?thesis
    by (simp add: encode_bind_op_def Let_def map_option_as_bind split: option.splits)
qed

subsection \<open>The stream binds what was listed\<close>

fun bind_sems :: "bool \<Rightarrow> out_segment list \<Rightarrow> bind_op list \<Rightarrow> bind_vm \<Rightarrow> (bound list \<times> bind_vm) option" where
  "bind_sems typed segs [] vm = Some ([], vm)"
| "bind_sems typed segs (op # ops) vm =
     do { (xs, vm1) \<leftarrow> bind_sem typed segs op vm; (ys, vm2) \<leftarrow> bind_sems typed segs ops vm1; Some (xs @ ys, vm2) }"

lemma bind_exec_ops:
  "list_all (op_fits (length segs)) ops \<Longrightarrow>
   bind_exec typed segs vm (concat (map encode_bind_op ops) @ rest) =
     do { (xs, vm') \<leftarrow> bind_sems typed segs ops vm; more \<leftarrow> bind_exec typed segs vm' rest; Some (xs @ more) }"
proof (induction ops arbitrary: vm)
  case Nil
  then show ?case by (cases "bind_exec typed segs vm rest") auto
next
  case (Cons op ops)
  show ?case
  proof (cases "bind_sem typed segs op vm")
    case None
    then show ?thesis using Cons by (simp add: bind_exec_op)
  next
    case (Some p)
    obtain xs vm1 where p: "p = (xs, vm1)" by (cases p)
    then show ?thesis
      using Some Cons by (cases "bind_sems typed segs ops vm1"; cases "bind_exec typed segs (snd (the (bind_sems typed segs ops vm1))) rest")
        (auto simp: bind_exec_op)
  qed
qed

lemma bind_sems_append:
  "bind_sems typed segs (ops @ ops') vm =
     do { (xs, vm1) \<leftarrow> bind_sems typed segs ops vm; (ys, vm2) \<leftarrow> bind_sems typed segs ops' vm1; Some (xs @ ys, vm2) }"
proof (induction ops arbitrary: vm)
  case Nil
  then show ?case by (cases "bind_sems typed segs ops' vm") auto
next
  case (Cons op ops)
  show ?case
  proof (cases "bind_sem typed segs op vm")
    case None
    then show ?thesis by simp
  next
    case (Some p)
    obtain xs vm1 where p: "p = (xs, vm1)" by (cases p)
    then show ?thesis
      using Some Cons by (cases "bind_sems typed segs ops vm1"; cases "bind_sems typed segs ops' (snd (the (bind_sems typed segs ops vm1)))")
        auto
  qed
qed

definition same_seg :: "out_segment list \<Rightarrow> u64 \<Rightarrow> u64 \<Rightarrow> bool" where
  "same_seg segs a b \<longleftrightarrow> map_option fst (segment_and_offset segs a) = map_option fst (segment_and_offset segs b)"

definition in_seg :: "out_segment list \<Rightarrow> bind_vm \<Rightarrow> nat \<Rightarrow> bool" where
  "in_seg segs vm seg \<longleftrightarrow> seg < length segs \<and> bm_start vm = seg_vmaddr (os_cmd (segs ! seg))
     \<and> bm_end vm = seg_vmaddr (os_cmd (segs ! seg)) + seg_vmsize (os_cmd (segs ! seg))"

text \<open>The machine agrees with the locals of the loop; the last slot was in the current segment.\<close>

definition bind_sim :: "out_segment list \<Rightarrow> ('id \<Rightarrow> bytes) \<Rightarrow> 'id bind_state \<Rightarrow> bind_vm \<Rightarrow> bool" where
  "bind_sim segs name st vm \<longleftrightarrow>
     (\<forall>ord. cur_ordinal st = Some ord \<longrightarrow> bm_ordinal vm = Some ord)
     \<and> (\<forall>i f. cur_symbol st = Some (i, f) \<longrightarrow> bm_symbol vm = Some (name i, f) \<and> bm_typed vm)
     \<and> (\<forall>seg. cur_seg st = Some seg \<longrightarrow> in_seg segs vm seg \<and> bm_addr vm = cur_addr st
            \<and> map_option fst (segment_and_offset segs (cur_addr st - 8)) = Some seg)
     \<and> bm_addend vm = cur_addend st"

lemma bind_step_sim:
  assumes sim: "bind_sim segs name st vm"
    and step: "bind_step segs name ordinal flags (addr, sid, addend) st = Some (ops, st')"
    and fits: "0 \<notin> set (name sid)" "flags sid < 16" "\<And>ord. ordinal sid = Some ord \<Longrightarrow> - 16 < sint ord" "length segs \<le> 16"
    and nxt: "cur_seg st \<noteq> None \<Longrightarrow> addr = cur_addr st \<Longrightarrow> same_seg segs (addr - 8) addr"
  shows "list_all (op_fits (length segs)) ops
    \<and> (\<exists>vm'. bind_sems True segs ops vm =
          Some ([(addr, (case ordinal sid of Some ord \<Rightarrow> Some ord | None \<Rightarrow> bm_ordinal vm), name sid, flags sid, addend)], vm')
        \<and> bind_sim segs name st' vm' \<and> (ordinal sid = None \<longrightarrow> bm_ordinal vm' = bm_ordinal vm))
    \<and> cur_seg st' \<noteq> None \<and> cur_addr st' = addr + 8"
proof -
  define ord' where "ord' = (case ordinal sid of Some ord \<Rightarrow> Some ord | None \<Rightarrow> bm_ordinal vm)"
  define ops1 st1 where "ops1 = (case ordinal sid of Some ord \<Rightarrow> if cur_ordinal st \<noteq> Some ord then [BDylib ord] else [] | None \<Rightarrow> [])"
    and "st1 = (case ordinal sid of Some ord \<Rightarrow> st\<lparr>cur_ordinal := Some ord\<rparr> | None \<Rightarrow> st)"
  define ops2 st2 where "ops2 = (if cur_symbol st \<noteq> Some (sid, flags sid)
      then BSymbol (name sid) (flags sid) # (if cur_symbol st = None then [BType] else []) else [])"
    and "st2 = st1\<lparr>cur_symbol := Some (sid, flags sid)\<rparr>"
  define vm2 where "vm2 = vm\<lparr>bm_ordinal := ord', bm_symbol := Some (name sid, flags sid), bm_typed := True\<rparr>"
  have e1: "(case ordinal sid of
      Some ord \<Rightarrow> if cur_ordinal st \<noteq> Some ord then ([BDylib ord], st\<lparr>cur_ordinal := Some ord\<rparr>) else ([], st)
    | None \<Rightarrow> ([], st)) = (ops1, st1)"
    by (auto simp: ops1_def st1_def split: option.splits)
  have s1: "cur_symbol st1 = cur_symbol st" "cur_seg st1 = cur_seg st" "cur_addr st1 = cur_addr st" "cur_addend st1 = cur_addend st"
    by (auto simp: st1_def split: option.splits)
  have r1: "bind_sems True segs ops1 vm = Some ([], vm\<lparr>bm_ordinal := ord'\<rparr>)" "list_all (op_fits (length segs)) ops1"
    using sim fits by (auto simp: ops1_def ord'_def bind_sim_def split: option.splits)
  have r2: "bind_sems True segs ops2 (vm\<lparr>bm_ordinal := ord'\<rparr>) = Some ([], vm2)" "list_all (op_fits (length segs)) ops2"
    using sim fits by (auto simp: ops2_def vm2_def bind_sim_def)
  have e2: "(if cur_symbol st1 \<noteq> Some (sid, flags sid) then
        (BSymbol (name sid) (flags sid) # (if cur_symbol st1 = None then [BType] else []), st1\<lparr>cur_symbol := Some (sid, flags sid)\<rparr>)
      else ([], st1)) = (ops2, st2)"
    by (auto simp: ops2_def st2_def s1)
  have s2: "cur_seg st2 = cur_seg st" "cur_addr st2 = cur_addr st" "cur_addend st2 = cur_addend st"
    by (simp_all add: st2_def s1)
  obtain ops3 st3 where e3: "(if cur_seg st2 = None \<or> addr \<noteq> cur_addr st2 then
        do { (seg, off) \<leftarrow> segment_and_offset segs addr;
             Some (if cur_seg st2 = Some seg then ([BAddAddr (addr - cur_addr st2)], st2)
                   else ([BSegOffset seg off], st2\<lparr>cur_seg := Some seg\<rparr>)) }
      else Some ([], st2)) = Some (ops3, st3)"
    and out: "ops = ops1 @ ops2 @ ops3 @ (if addend \<noteq> cur_addend st3 then [BAddend addend] else []) @ [BBind]"
      "st' = (if addend \<noteq> cur_addend st3 then st3\<lparr>cur_addend := addend\<rparr> else st3)\<lparr>cur_addr := addr + 8\<rparr>"
    using step unfolding bind_step_def prod.case e1 Let_def e2
    by (auto simp: bind_eq_Some_conv split: if_splits)
  have r3: "\<exists>seg vm3. bind_sems True segs ops3 vm2 = Some ([], vm3) \<and> list_all (op_fits (length segs)) ops3
      \<and> vm3 = vm2\<lparr>bm_start := bm_start vm3, bm_end := bm_end vm3, bm_addr := addr\<rparr> \<and> in_seg segs vm3 seg
      \<and> bm_start vm3 \<le> addr \<and> addr < bm_end vm3 \<and> st3 = st2\<lparr>cur_seg := Some seg\<rparr>
      \<and> map_option fst (segment_and_offset segs addr) = Some seg"
  proof (cases "cur_seg st = None \<or> addr \<noteq> cur_addr st")
    case True
    then obtain seg off where so: "segment_and_offset segs addr = Some (seg, off)"
      and o3: "(ops3, st3) = (if cur_seg st2 = Some seg then ([BAddAddr (addr - cur_addr st2)], st2)
                   else ([BSegOffset seg off], st2\<lparr>cur_seg := Some seg\<rparr>))"
      using e3 s2 by (auto simp: bind_eq_Some_conv)
    note at = segment_and_offset_Some [OF so]
    show ?thesis
    proof (cases "cur_seg st = Some seg")
      case True
      then have "in_seg segs vm seg" "bm_addr vm = cur_addr st" using sim by (auto simp: bind_sim_def)
      with True o3 s2 at so show ?thesis by (auto simp: vm2_def in_seg_def)
    next
      case False
      with o3 s2 at so fits(4) show ?thesis by (auto simp: vm2_def in_seg_def Let_def)
    qed
  next
    case False
    then obtain seg where seg: "cur_seg st = Some seg" and a: "addr = cur_addr st" by auto
    with sim have v: "in_seg segs vm seg" "bm_addr vm = addr" "map_option fst (segment_and_offset segs (addr - 8)) = Some seg"
      by (auto simp: bind_sim_def)
    have "map_option fst (segment_and_offset segs addr) = Some seg"
      using nxt seg a v(3) by (simp add: same_seg_def)
    then obtain off where so: "segment_and_offset segs addr = Some (seg, off)"
      by (cases "segment_and_offset segs addr") auto
    note at = segment_and_offset_Some [OF so]
    have "ops3 = []" "st3 = st2" using e3 False s2 by auto
    with v at so seg s2 show ?thesis by (auto simp: vm2_def in_seg_def)
  qed
  then obtain seg vm3 where r3: "bind_sems True segs ops3 vm2 = Some ([], vm3)" "list_all (op_fits (length segs)) ops3"
      "vm3 = vm2\<lparr>bm_start := bm_start vm3, bm_end := bm_end vm3, bm_addr := addr\<rparr>" "in_seg segs vm3 seg"
      "bm_start vm3 \<le> addr" "addr < bm_end vm3" "st3 = st2\<lparr>cur_seg := Some seg\<rparr>"
      "map_option fst (segment_and_offset segs addr) = Some seg" by blast
  have f3: "bm_ordinal vm3 = ord'" "bm_symbol vm3 = Some (name sid, flags sid)" "bm_typed vm3" "bm_addr vm3 = addr"
      "bm_addend vm3 = bm_addend vm"
    by (subst r3(3), simp add: vm2_def)+
  have ad: "bm_addend vm = cur_addend st" using sim by (simp add: bind_sim_def)
  let ?vm4 = "vm3\<lparr>bm_addend := addend, bm_addr := addr + 8\<rparr>"
  define R where "R = (if addend \<noteq> cur_addend st3 then [BAddend addend] else []) @ [BBind]"
  have r4: "bind_sems True segs R vm3 =
      Some ([(addr, ord', name sid, flags sid, addend)], ?vm4)"
    using r3(5,6) f3 ad r3(7) s2 by (auto simp: do_bind_def R_def)
  have out': "ops = ops1 @ ops2 @ ops3 @ R" by (simp add: out R_def)
  have "bind_sems True segs ops vm = Some ([(addr, ord', name sid, flags sid, addend)], ?vm4)"
    unfolding out' by (simp add: bind_sems_append r1 r2 r3(1) r4)
  moreover have "list_all (op_fits (length segs)) ops" using r1 r2 r3(2) by (simp add: out)
  moreover have "bind_sim segs name st' ?vm4"
    using f3 r3(4,7,8) sim
    by (auto simp: bind_sim_def out in_seg_def st2_def st1_def ord'_def split: option.splits)
  moreover have "ordinal sid = None \<longrightarrow> bm_ordinal ?vm4 = bm_ordinal vm" using f3 by (simp add: ord'_def)
  moreover have "cur_seg st' \<noteq> None \<and> cur_addr st' = addr + 8" using r3(7) by (simp add: out)
  ultimately show ?thesis unfolding ord'_def [symmetric] by (intro conjI exI [of _ ?vm4]) simp_all
qed

definition bound_of :: "('id \<Rightarrow> bytes) \<Rightarrow> ('id \<Rightarrow> 32 word option) \<Rightarrow> ('id \<Rightarrow> u8) \<Rightarrow> u64 \<times> 'id \<times> u64 \<Rightarrow> bound" where
  "bound_of name ordinal flags = (\<lambda>(addr, sid, addend). (addr, ordinal sid, name sid, flags sid, addend))"

text \<open>What the operands of a list of binds have to fit in.\<close>

definition binds_fit ::
  "out_segment list \<Rightarrow> ('id \<Rightarrow> bytes) \<Rightarrow> ('id \<Rightarrow> 32 word option) \<Rightarrow> ('id \<Rightarrow> u8) \<Rightarrow> (u64 \<times> 'id \<times> u64) set \<Rightarrow> bool" where
  "binds_fit segs name ordinal flags B \<longleftrightarrow> length segs \<le> 16 \<and>
     (\<forall>(addr, sid, addend) \<in> B. 0 \<notin> set (name sid) \<and> flags sid < 16
        \<and> (case ordinal sid of None \<Rightarrow> True | Some ord \<Rightarrow> - 16 < sint ord)
        \<and> (\<forall>(addr', sid', addend') \<in> B. addr' = addr + 8 \<longrightarrow> same_seg segs addr addr'))"

lemma bind_ops_loop_run:
  assumes "bind_sim segs name st vm" and "bind_ops_loop segs name ordinal flags st (binds @ rest) = Some ops"
    and "binds_fit segs name ordinal flags B" and "set binds \<subseteq> B"
    and "cur_seg st \<noteq> None \<Longrightarrow> \<exists>sid addend. (cur_addr st - 8, sid, addend) \<in> B"
    and "(\<forall>sid. ordinal sid \<noteq> None) \<or> (\<forall>sid. ordinal sid = None) \<and> bm_ordinal vm = None"
  shows "\<exists>ops1 ops2 st' vm'. ops = ops1 @ ops2 \<and> bind_ops_loop segs name ordinal flags st' rest = Some ops2
    \<and> list_all (op_fits (length segs)) ops1 \<and> bind_sems True segs ops1 vm = Some (map (bound_of name ordinal flags) binds, vm')
    \<and> bind_sim segs name st' vm' \<and> (binds \<noteq> [] \<longrightarrow> cur_seg st' \<noteq> None \<and> cur_addr st' = fst (last binds) + 8)"
  using assms
proof (induction binds arbitrary: st vm ops)
  case Nil
  then show ?case by (intro exI [of _ "[]"] exI [of _ ops] exI [of _ st] exI [of _ vm]) simp
next
  case (Cons b binds)
  obtain addr sid addend where b: "b = (addr, sid, addend)" by (cases b)
  from Cons.prems(2) obtain ops1 st1 more where step: "bind_step segs name ordinal flags (addr, sid, addend) st = Some (ops1, st1)"
    and more: "bind_ops_loop segs name ordinal flags st1 (binds @ rest) = Some more" and ops: "ops = ops1 @ more"
    by (auto simp: b bind_eq_Some_conv)
  have mem: "(addr, sid, addend) \<in> B" using Cons.prems(4) b by simp
  have fit: "0 \<notin> set (name sid)" "flags sid < 16" "\<And>ord. ordinal sid = Some ord \<Longrightarrow> - 16 < sint ord" "length segs \<le> 16"
    using Cons.prems(3) mem by (fastforce simp: binds_fit_def)+
  have near: "same_seg segs (addr - 8) addr" if h: "cur_seg st \<noteq> None" "addr = cur_addr st"
  proof -
    obtain sid0 addend0 where m0: "(addr - 8, sid0, addend0) \<in> B"
      using Cons.prems(5) [OF h(1)] unfolding h(2) by blast
    have "\<forall>(addr', sid', addend') \<in> B. addr' = (addr - 8) + 8 \<longrightarrow> same_seg segs (addr - 8) addr'"
      using Cons.prems(3) m0 unfolding binds_fit_def by blast
    from bspec [OF this mem] show ?thesis by simp
  qed
  have "list_all (op_fits (length segs)) ops1
    \<and> (\<exists>vm'. bind_sems True segs ops1 vm =
          Some ([(addr, (case ordinal sid of Some ord \<Rightarrow> Some ord | None \<Rightarrow> bm_ordinal vm), name sid, flags sid, addend)], vm')
        \<and> bind_sim segs name st1 vm' \<and> (ordinal sid = None \<longrightarrow> bm_ordinal vm' = bm_ordinal vm))
    \<and> cur_seg st1 \<noteq> None \<and> cur_addr st1 = addr + 8"
    by (rule bind_step_sim [OF Cons.prems(1) step fit(1,2)]) (fact fit, fact fit, fact near)
  then obtain vm1 where s1: "list_all (op_fits (length segs)) ops1"
      "bind_sems True segs ops1 vm = Some ([(addr, (case ordinal sid of Some ord \<Rightarrow> Some ord | None \<Rightarrow> bm_ordinal vm), name sid, flags sid, addend)], vm1)"
      "bind_sim segs name st1 vm1" "ordinal sid = None \<longrightarrow> bm_ordinal vm1 = bm_ordinal vm"
      "cur_seg st1 \<noteq> None" "cur_addr st1 = addr + 8"
    by (elim conjE exE) (rule that, assumption+)
  have ord: "(case ordinal sid of Some ord \<Rightarrow> Some ord | None \<Rightarrow> bm_ordinal vm) = ordinal sid"
  proof (cases "ordinal sid")
    case None
    then have "bm_ordinal vm = None" using Cons.prems(6) by blast
    with None show ?thesis by simp
  qed simp
  have IH: "\<exists>ops2 ops3 st' vm'. more = ops2 @ ops3 \<and> bind_ops_loop segs name ordinal flags st' rest = Some ops3
    \<and> list_all (op_fits (length segs)) ops2 \<and> bind_sems True segs ops2 vm1 = Some (map (bound_of name ordinal flags) binds, vm')
    \<and> bind_sim segs name st' vm' \<and> (binds \<noteq> [] \<longrightarrow> cur_seg st' \<noteq> None \<and> cur_addr st' = fst (last binds) + 8)"
  proof (rule Cons.IH [OF s1(3) more Cons.prems(3)])
    show "set binds \<subseteq> B" using Cons.prems(4) by simp
    show "\<exists>sid addend. (cur_addr st1 - 8, sid, addend) \<in> B" using s1(6) mem by auto
    show "(\<forall>sid. ordinal sid \<noteq> None) \<or> (\<forall>sid. ordinal sid = None) \<and> bm_ordinal vm1 = None"
      using Cons.prems(6) s1(4) by auto
  qed
  then obtain ops2 ops3 st' vm' where m: "more = ops2 @ ops3" "bind_ops_loop segs name ordinal flags st' rest = Some ops3"
    "list_all (op_fits (length segs)) ops2" "bind_sems True segs ops2 vm1 = Some (map (bound_of name ordinal flags) binds, vm')"
    "bind_sim segs name st' vm'" "binds \<noteq> [] \<longrightarrow> cur_seg st' \<noteq> None \<and> cur_addr st' = fst (last binds) + 8" by blast
  show ?case
  proof (cases "binds = []")
    case True
    then show ?thesis
      using s1 more Cons.prems(2) by (intro exI [of _ ops1] exI [of _ more] exI [of _ st1] exI [of _ vm1]) (simp add: ops b bound_of_def ord)
  next
    case False
    then show ?thesis
      using s1 m by (intro exI [of _ "ops1 @ ops2"] exI [of _ ops3] exI [of _ st'] exI [of _ vm']) (simp add: ops bind_sems_append b bound_of_def ord)
  qed
qed

lemma bind_ops_loop_sim:
  assumes "bind_sim segs name st vm" and "bind_ops_loop segs name ordinal flags st binds = Some ops"
    and "binds_fit segs name ordinal flags B" and "set binds \<subseteq> B"
    and "cur_seg st \<noteq> None \<Longrightarrow> \<exists>sid addend. (cur_addr st - 8, sid, addend) \<in> B"
    and "(\<forall>sid. ordinal sid \<noteq> None) \<or> (\<forall>sid. ordinal sid = None) \<and> bm_ordinal vm = None"
  shows "list_all (op_fits (length segs)) ops
    \<and> (\<exists>vm'. bind_sems True segs ops vm = Some (map (bound_of name ordinal flags) binds, vm'))"
  using bind_ops_loop_run [OF assms(1) _ assms(3-6), where rest = "[]"] assms(2) by fastforce

lemma bind_ops_fit:
  assumes "bind_ops segs name ordinal flags binds = Some ops" and "binds_fit segs name ordinal flags (set binds)"
    and "(\<forall>sid. ordinal sid \<noteq> None) \<or> (\<forall>sid. ordinal sid = None)"
  shows "list_all (op_fits (length segs)) ops"
proof -
  let ?st = "\<lparr>cur_ordinal = None, cur_symbol = None, cur_seg = None, cur_addr = 0, cur_addend = 0\<rparr>"
  have sim: "bind_sim segs name ?st bind_vm_start" by (simp add: bind_sim_def bind_vm_start_def)
  show ?thesis
    using bind_ops_loop_sim [OF sim _ assms(2)] assms(1,3) by (auto simp: bind_ops_def bind_vm_start_def)
qed

lemma bind_stream:
  assumes "bind_ops segs name ordinal flags binds = Some ops" and "binds_fit segs name ordinal flags (set binds)"
    and "(\<forall>sid. ordinal sid \<noteq> None) \<or> (\<forall>sid. ordinal sid = None)"
    and "\<forall>(n, f) \<in> set pre. 0 \<notin> set n \<and> f < 16"
  shows "bind_exec True segs bind_vm_start (bind_encode (map (\<lambda>(n, f). BSymbol n f) pre @ ops)) =
     Some (map (bound_of name ordinal flags) binds)"
proof -
  let ?pre = "map (\<lambda>(n, f). BSymbol n f) pre"
  have "list_all (op_fits (length segs)) ?pre" using assms(4) by (auto simp: list_all_iff)
  have pre: "\<exists>s. bind_sems True segs ?pre vm = Some ([], vm\<lparr>bm_symbol := s\<rparr>)" for vm
  proof (induction pre arbitrary: vm)
    case Nil
    then show ?case by (auto intro: exI [of _ "bm_symbol vm"])
  next
    case (Cons p pre)
    obtain n f where p: "p = (n, f)" by (cases p)
    obtain s where "bind_sems True segs (map (\<lambda>(n, f). BSymbol n f) pre) (vm\<lparr>bm_symbol := Some (n, f)\<rparr>) =
        Some ([], vm\<lparr>bm_symbol := Some (n, f), bm_symbol := s\<rparr>)" using Cons by blast
    then show ?case by (auto simp: p)
  qed
  obtain s where s: "bind_sems True segs ?pre bind_vm_start = Some ([], bind_vm_start\<lparr>bm_symbol := s\<rparr>)" using pre by blast
  let ?st = "\<lparr>cur_ordinal = None, cur_symbol = None, cur_seg = None, cur_addr = 0, cur_addend = 0\<rparr>"
  let ?vm = "bind_vm_start\<lparr>bm_symbol := s\<rparr>"
  have sim: "bind_sim segs name ?st ?vm" by (simp add: bind_sim_def bind_vm_start_def)
  have "list_all (op_fits (length segs)) ops
    \<and> (\<exists>vm'. bind_sems True segs ops ?vm = Some (map (bound_of name ordinal flags) binds, vm'))"
    by (rule bind_ops_loop_sim [OF sim _ assms(2)]) (use assms(1,3) in \<open>auto simp: bind_ops_def bind_vm_start_def\<close>)
  then obtain vm' where ok: "list_all (op_fits (length segs)) ops"
    and run: "bind_sems True segs ops ?vm = Some (map (bound_of name ordinal flags) binds, vm')" by blast
  obtain pad where "bind_encode (?pre @ ops) = concat (map encode_bind_op (?pre @ ops)) @ 0 # pad"
    unfolding bind_encode_def pad_to_def by simp
  then show ?thesis
    using bind_exec_ops [of segs "?pre @ ops" True bind_vm_start "0 # pad"] ok \<open>list_all (op_fits (length segs)) ?pre\<close> s run
    by (simp add: bind_sems_append Let_def)
qed

text \<open>The sort the constructors use only reorders, and sorts.\<close>

lemma mset_sort_by [simp]: "mset (sort_by le xs) = mset xs"
proof (induction xs)
  case (Cons x xs)
  have "mset (insert_by le y ys) = add_mset y (mset ys)" for y ys
    by (induction ys) auto
  with Cons show ?case by simp
qed simp

lemma set_sort_by [simp]: "set (sort_by le xs) = set xs"
  by (metis mset_sort_by set_mset_mset)

lemma sorted_sort_by:
  assumes "\<And>x y. le x y \<or> le y x" and "\<And>x y z. le x y \<Longrightarrow> le y z \<Longrightarrow> le x z"
  shows "sorted_wrt le (sort_by le xs)"
proof (induction xs)
  case (Cons x xs)
  have set: "set (insert_by le y ys) = insert y (set ys)" for y ys
    by (induction ys) auto
  have "sorted_wrt le ys \<Longrightarrow> sorted_wrt le (insert_by le y ys)" for y ys
  proof (induction ys)
    case (Cons z zs)
    then show ?case using assms by (auto simp: set)
  qed simp
  with Cons show ?case by simp
qed simp

lemma bind_le_linear:
  "bind_le name ordinal x y \<or> bind_le name ordinal y x"
  "bind_le name ordinal x y \<Longrightarrow> bind_le name ordinal y z \<Longrightarrow> bind_le name ordinal x z"
proof -
  obtain a1 i1 d1 a2 i2 d2 where xy: "x = (a1, i1, d1)" "y = (a2, i2, d2)" by (metis surj_pair)
  have eq: "sint u = sint v \<longleftrightarrow> u = v" for u v :: "'z::len word" by (metis signed_word_eqI)
  show "bind_le name ordinal x y \<or> bind_le name ordinal y x"
    unfolding xy bind_le_def prod.case using eq [of "ordinal i1" "ordinal i2"] eq [of d1 d2]
    by (metis linorder_less_linear linorder_le_cases)
  obtain a3 i3 d3 where z: "z = (a3, i3, d3)" by (metis surj_pair)
  show "bind_le name ordinal x y \<Longrightarrow> bind_le name ordinal y z \<Longrightarrow> bind_le name ordinal x z"
    unfolding xy z bind_le_def prod.case by (auto dest: less_trans order_trans)
qed

text \<open>
  C3. Reading the bind stream, dyld makes exactly the binds that were listed, each at its address with
  its library, name, flags and addend, ordered by library, name, addend and address. The operands
  have to fit their fields, and two slots that meet at a segment's boundary must not both be bound.
\<close>

theorem bind_stream_correct:
  fixes segs name ordinal weak
  defines "flags \<equiv> (\<lambda>sid. if weak sid then BIND_SYMBOL_FLAGS_WEAK_IMPORT else 0)"
  assumes "bind_construct segs name ordinal weak binds = Some buf" and "binds \<noteq> []"
    and "binds_fit segs name (\<lambda>sid. Some (ordinal sid)) flags (set binds)"
  shows "\<exists>order. mset order = mset binds \<and> sorted_wrt (bind_le name ordinal) order
    \<and> bind_exec True segs bind_vm_start buf = Some (map (bound_of name (\<lambda>sid. Some (ordinal sid)) flags) order)"
proof -
  let ?order = "sort_by (bind_le name ordinal) binds"
  obtain ops where ops: "bind_ops segs name (\<lambda>sid. Some (ordinal sid)) flags ?order = Some ops"
    and buf: "buf = bind_encode ops"
    using assms(2,3) unfolding bind_construct_def flags_def by auto
  have "bind_exec True segs bind_vm_start (bind_encode (map (\<lambda>(n, f). BSymbol n f) [] @ ops)) =
      Some (map (bound_of name (\<lambda>sid. Some (ordinal sid)) flags) ?order)"
    by (rule bind_stream [OF ops]) (use assms(4) in simp_all)
  then show ?thesis
    using sorted_sort_by [of "bind_le name ordinal" binds, OF bind_le_linear] buf
    by (intro exI [of _ ?order]) auto
qed

text \<open>The symbols a stream announces, with their flags, in order.\<close>

function (sequential) announced :: "bytes \<Rightarrow> (bytes \<times> u8) list option" where
  "announced [] = None"
| "announced (b # bs) =
     (let opcode = b AND 0xf0; imm = b AND 0xf in
      if opcode = BIND_OPCODE_DONE then Some []
      else if opcode = BIND_OPCODE_SET_SYMBOL_TRAILING_FLAGS_IMM then
        (case read_cstr bs of None \<Rightarrow> None
         | Some (name, rest) \<Rightarrow> map_option ((#) (name, imm)) (announced rest))
      else if opcode \<in> {BIND_OPCODE_SET_DYLIB_ORDINAL_ULEB, BIND_OPCODE_SET_SEGMENT_AND_OFFSET_ULEB, BIND_OPCODE_ADD_ADDR_ULEB} then
        (case read_uleb bs of None \<Rightarrow> None | Some (_, rest) \<Rightarrow> announced rest)
      else if opcode = BIND_OPCODE_SET_ADDEND_SLEB then
        (case read_sleb bs of None \<Rightarrow> None | Some (_, rest) \<Rightarrow> announced rest)
      else announced bs)"
  by pat_completeness auto
termination
  by (relation "measure length") (auto dest!: read_uleb_shorter read_sleb_shorter read_cstr_shorter)

fun op_announces :: "bind_op \<Rightarrow> (bytes \<times> u8) list" where
  "op_announces (BSymbol name flags) = [(name, flags)]"
| "op_announces _ = []"

lemma announced_op:
  assumes "op_fits n op"
  shows "announced (encode_bind_op op @ rest) = map_option ((@) (op_announces op)) (announced rest)"
proof -
  have skip: "map_option ((@) []) x = x" for x :: "(bytes \<times> u8) list option" by (cases x) auto
  show ?thesis
  proof (cases op)
    case (BDylib ord)
    with assms have lo: "- 16 < sint ord" by simp
    consider "sint ord \<le> 0" | "0 < sint ord" "sint ord < 16" | "16 \<le> sint ord" by linarith
    then show ?thesis
    proof cases
      case 1
      with special_ordinal [OF lo] show ?thesis
        unfolding BDylib by (simp add: encode_bind_op_def Let_def opcode_or skip del: scast_id)
    next
      case 2
      with small_ordinal(2) [of ord] show ?thesis
        unfolding BDylib by (simp add: encode_bind_op_def Let_def opcode_or skip)
    next
      case 3
      then show ?thesis unfolding BDylib by (simp add: encode_bind_op_def Let_def read_encode_uleb skip)
    qed
  next
    case (BSymbol name flags)
    with assms show ?thesis
      by (cases "announced rest") (simp_all add: encode_bind_op_def Let_def opcode_or read_cstr_append)
  next
    case BType
    then show ?thesis by (simp add: encode_bind_op_def Let_def skip)
  next
    case (BSegOffset seg off)
    have s: "(of_nat seg :: u8) < 16" using of_nat_nibble [of seg] assms BSegOffset by simp
    show ?thesis unfolding BSegOffset by (simp add: encode_bind_op_def Let_def opcode_or [OF s] read_encode_uleb skip)
  next
    case (BAddAddr delta)
    then show ?thesis by (simp add: encode_bind_op_def Let_def read_encode_uleb skip)
  next
    case (BAddend addend)
    then show ?thesis by (simp add: encode_bind_op_def Let_def read_encode_sleb skip)
  next
    case BBind
    then show ?thesis by (simp add: encode_bind_op_def Let_def skip)
  qed
qed

lemma announced_ops:
  "list_all (op_fits n) ops \<Longrightarrow> announced (concat (map encode_bind_op ops) @ 0 # pad) = Some (concat (map op_announces ops))"
  by (induction ops) (simp_all add: announced_op [of n] Let_def)

lemma bind_ops_flags:
  "bind_ops_loop segs name ordinal (\<lambda>_. f) st binds = Some ops \<Longrightarrow> \<forall>(n, g) \<in> set (concat (map op_announces ops)). g = f"
  by (induction binds arbitrary: st ops) (fastforce simp: bind_step_def Let_def split: option.splits if_splits bind_splits)+

text \<open>
  C16. Reading the weak-bind stream, dyld makes exactly the listed binds, by name alone, ordered by
  name and address, as its walk over the images' streams needs them; and before them the stream
  announces each definition that overrides a library's weak one exactly once, by name and in order,
  as not weak, and nothing else so.
\<close>

theorem weak_bind_stream_correct:
  assumes "weak_bind_construct segs name overrides binds = Some buf" and "buf \<noteq> []"
    and "binds_fit segs name (\<lambda>_. None) (\<lambda>_. 0) ((\<lambda>(sid, addr). (addr, sid, 0)) ` set binds)"
    and "\<forall>sid \<in> set overrides. 0 \<notin> set (name sid)"
  shows "\<exists>order strong weak. mset order = mset binds
    \<and> sorted_wrt (\<lambda>(i, a) (j, b). name i < name j \<or> name i = name j \<and> a \<le> b) order
    \<and> bind_exec True segs bind_vm_start buf = Some (map (\<lambda>(sid, addr). (addr, None, name sid, 0, 0)) order)
    \<and> mset strong = mset (map name overrides) \<and> sorted strong
    \<and> announced buf = Some (map (\<lambda>n. (n, BIND_SYMBOL_FLAGS_NON_WEAK_DEFINITION)) strong @ map (\<lambda>n. (n, 0)) weak)"
proof -
  let ?le = "\<lambda>(i, a) (j, b). name i < name j \<or> name i = name j \<and> a \<le> b"
  let ?order = "sort_by ?le binds" and ?over = "sort_by (\<lambda>a b. name a \<le> name b) overrides"
  let ?pre = "map (\<lambda>sid. (name sid, 8 :: u8)) ?over"
  let ?binds = "map (\<lambda>(sid, addr). (addr, sid, 0)) ?order"
  obtain ops where ops: "bind_ops segs name (\<lambda>_. None) (\<lambda>_. 0) ?binds = Some ops"
    and buf: "buf = bind_encode (map (\<lambda>(n, f). BSymbol n f) ?pre @ ops)"
    using assms(1,2) by (auto simp: weak_bind_construct_def Let_def comp_def split: if_splits)
  have fit: "binds_fit segs name (\<lambda>_. None) (\<lambda>_. 0) (set ?binds)" "\<forall>(n, f) \<in> set ?pre. 0 \<notin> set n \<and> f < 16"
    using assms(3,4) by auto
  have run: "bind_exec True segs bind_vm_start buf = Some (map (bound_of name (\<lambda>_. None) (\<lambda>_. 0)) ?binds)"
    unfolding buf by (rule bind_stream [OF ops fit(1) _ fit(2)]) simp
  have "list_all (op_fits (length segs)) (map (\<lambda>(n, f). BSymbol n f) ?pre @ ops)"
    using bind_ops_fit [OF ops fit(1)] fit(2) by (auto simp: list_all_iff)
  note an = announced_ops [OF this]
  obtain pad where pad: "buf = concat (map encode_bind_op (map (\<lambda>(n, f). BSymbol n f) ?pre @ ops)) @ 0 # pad"
    unfolding buf bind_encode_def pad_to_def by simp
  define weak where "weak = map fst (concat (map op_announces ops))"
  have "\<forall>(n, g) \<in> set (concat (map op_announces ops)). g = 0"
    using ops unfolding bind_ops_def by (rule bind_ops_flags)
  then have "concat (map op_announces ops) = map (\<lambda>n. (n, 0)) weak"
    unfolding weak_def map_map by (intro map_idI [symmetric]) auto
  then have "announced buf = Some (map (\<lambda>n. (n, 8)) (map name ?over) @ map (\<lambda>n. (n, 0)) weak)"
    unfolding pad an by (simp add: comp_def)
  moreover have "sorted_wrt ?le ?order"
    by (rule sorted_sort_by) (auto dest: less_trans)
  moreover have "sorted (map name ?over)"
    unfolding sorted_map by (rule sorted_sort_by) auto
  moreover have "mset (map name ?over) = mset (map name overrides)" by simp
  moreover have "mset ?order = mset binds" by simp
  moreover have "bind_exec True segs bind_vm_start buf = Some (map (\<lambda>(sid, addr). (addr, None, name sid, 0, 0)) ?order)"
    using run by (simp add: bound_of_def comp_def case_prod_unfold)
  ultimately show ?thesis by blast
qed

subsection \<open>The lazy stream\<close>

definition stub_fits :: "out_segment list \<Rightarrow> lazy_stub \<Rightarrow> bool" where
  "stub_fits segs s \<longleftrightarrow> length segs \<le> 16 \<and> 0 \<notin> set (ls_name s) \<and> - 16 < sint (ls_ordinal s)"

definition stub_bound :: "lazy_stub \<Rightarrow> bound" where
  "stub_bound s = (ls_addr s, Some (ls_ordinal s), ls_name s, (if ls_weak s then 1 else 0), 0)"

lemma lazy_record_exec:
  assumes "lazy_record segs s = Some r" and "stub_fits segs s"
  shows "bind_exec False segs bind_vm_start (r @ rest) = Some [stub_bound s]"
proof -
  obtain seg off where so: "segment_and_offset segs (ls_addr s) = Some (seg, off)"
    and r: "r = concat (map encode_bind_op [BSegOffset seg off, BDylib (ls_ordinal s),
        BSymbol (ls_name s) (if ls_weak s then 1 else 0), BBind]) @ [0]"
    using assms(1) by (auto simp: lazy_record_def Let_def bind_eq_Some_conv)
  note at = segment_and_offset_Some [OF so]
  have fit: "list_all (op_fits (length segs)) [BSegOffset seg off, BDylib (ls_ordinal s),
        BSymbol (ls_name s) (if ls_weak s then 1 else 0), BBind]"
    using at assms(2) by (auto simp: stub_fits_def)
  show ?thesis
    unfolding r append_assoc bind_exec_ops [OF fit] using at
    by (simp add: Let_def do_bind_def stub_bound_def bind_vm_start_def)
qed

lemma lazy_bind_loop_spec:
  "lazy_bind_loop segs stubs buf offsets = Some (buf', offsets') \<Longrightarrow> list_all (stub_fits segs) stubs \<Longrightarrow>
   (\<exists>more. buf' = buf @ more) \<and> length offsets' = length offsets + length stubs
   \<and> take (length offsets) offsets' = offsets
   \<and> (\<forall>i < length stubs. \<exists>at. offsets' ! (length offsets + i) = of_nat at \<and> at \<le> length buf' \<and>
        (\<forall>pad. bind_exec False segs bind_vm_start (drop at buf' @ pad) = Some [stub_bound (stubs ! i)]))"
proof (induction stubs arbitrary: buf offsets)
  case Nil
  then show ?case by simp
next
  case (Cons s stubs)
  from Cons.prems(1) obtain r where r: "lazy_record segs s = Some r"
    and more: "lazy_bind_loop segs stubs (buf @ r) (offsets @ [of_nat (length buf)]) = Some (buf', offsets')"
    by (auto simp: bind_eq_Some_conv)
  have IH: "(\<exists>more. buf' = (buf @ r) @ more) \<and> length offsets' = length offsets + 1 + length stubs
   \<and> take (length offsets + 1) offsets' = offsets @ [of_nat (length buf)]
   \<and> (\<forall>i < length stubs. \<exists>at. offsets' ! (length offsets + 1 + i) = of_nat at \<and> at \<le> length buf' \<and>
        (\<forall>pad. bind_exec False segs bind_vm_start (drop at buf' @ pad) = Some [stub_bound (stubs ! i)]))"
    using Cons.IH [OF more] Cons.prems(2) by simp
  then obtain tail where buf': "buf' = buf @ r @ tail" by auto
  have o: "take (length offsets) offsets' = offsets" "offsets' ! length offsets = of_nat (length buf)"
  proof -
    have t: "take (length offsets + 1) offsets' = offsets @ [of_nat (length buf)]" using IH by blast
    have "take (length offsets) (take (length offsets + 1) offsets') = offsets" unfolding t by simp
    then show "take (length offsets) offsets' = offsets" by (simp add: min_def)
    have "take (length offsets + 1) offsets' ! length offsets = of_nat (length buf)" unfolding t by simp
    then show "offsets' ! length offsets = of_nat (length buf)" by simp
  qed
  have first: "bind_exec False segs bind_vm_start (drop (length buf) buf' @ pad) = Some [stub_bound s]" for pad
    using lazy_record_exec [OF r, of "tail @ pad"] Cons.prems(2) by (simp add: buf')
  have "\<exists>at. offsets' ! (length offsets + i) = of_nat at \<and> at \<le> length buf' \<and>
        (\<forall>pad. bind_exec False segs bind_vm_start (drop at buf' @ pad) = Some [stub_bound ((s # stubs) ! i)])"
    if "i < length (s # stubs)" for i
  proof (cases i)
    case 0
    then show ?thesis using o(2) first by (intro exI [of _ "length buf"]) (auto simp: buf')
  next
    case (Suc j)
    then show ?thesis using IH that by auto
  qed
  then show ?case using IH o(1) buf' by auto
qed

text \<open>
  C15. Entered at the offset its stub helper pushes, the lazy-bind stream binds that stub's pointer,
  and nothing else, to the stub's symbol.
\<close>

theorem lazy_bind_correct:
  assumes "lazy_bind_construct segs stubs = Some (buf, offsets)" and "list_all (stub_fits segs) stubs"
    and "length buf < 2 ^ 32" and "i < length stubs"
  shows "bind_exec False segs bind_vm_start (drop (unat (offsets ! i)) buf) = Some [stub_bound (stubs ! i)]"
proof -
  obtain buf0 where l: "lazy_bind_loop segs stubs [] [] = Some (buf0, offsets)" and buf: "buf = pad_to buf0 8"
    using assms(1,4) by (auto simp: lazy_bind_construct_def bind_eq_Some_conv split: if_splits)
  from lazy_bind_loop_spec [OF l assms(2)] assms(4)
  obtain at where at: "offsets ! i = of_nat at" "at \<le> length buf0"
      "\<forall>pad. bind_exec False segs bind_vm_start (drop at buf0 @ pad) = Some [stub_bound (stubs ! i)]" by auto
  have "length buf0 \<le> length buf" by (simp add: buf pad_to_def)
  then have "unat (offsets ! i) = at"
    using at(1,2) assms(3) by (simp add: unat_of_nat take_bit_nat_eq_self)
  then show ?thesis using at(2,3) by (simp add: buf pad_to_def)
qed

subsection \<open>Concrete streams\<close>

definition example_segs :: "out_segment list" where
  "example_segs = [segment_at (bstr ''__TEXT'') 0x1000 0x1000, segment_at (bstr ''__DATA_CONST'') 0x2000 0x1000,
     segment_at (bstr ''__DATA'') 0x3000 0x1000]"

theorem bind_stream_correct_witness:
  "\<exists>buf order. mset order = {#(0x3000, 1, 4), (0x2008, 0, 0), (0x2000, 0, 0 :: u64)#}
    \<and> bind_exec True example_segs bind_vm_start buf =
        Some (map (bound_of (\<lambda>i :: nat. [of_nat (0x61 + i)]) (\<lambda>i. Some (of_nat (i + 1))) (\<lambda>i. if i = 1 then 1 else 0)) order)"
proof -
  let ?name = "\<lambda>i :: nat. [of_nat (0x61 + i)] :: bytes" and ?ord = "\<lambda>i. of_nat (i + 1) :: 32 word"
  let ?b = "[(0x3000, 1, 4), (0x2008, 0, 0), (0x2000, 0, 0)] :: (u64 \<times> nat \<times> u64) list"
  have c: "\<exists>buf. bind_construct example_segs ?name ?ord (\<lambda>i. i = 1) ?b = Some buf"
    by (subst not_None_eq [symmetric]) code_simp
  then obtain buf where buf: "bind_construct example_segs ?name ?ord (\<lambda>i. i = 1) ?b = Some buf" by blast
  have "binds_fit example_segs ?name (\<lambda>i. Some (?ord i)) (\<lambda>i. if i = 1 then 1 else 0) (set ?b)"
    by code_simp
  from bind_stream_correct [OF buf _ this] show ?thesis by auto
qed

theorem weak_bind_stream_correct_witness:
  "\<exists>buf order strong weak. mset order = {#(1 :: nat, 0x2008 :: u64), (0, 0x2000)#}
    \<and> sorted_wrt (\<lambda>(i, a) (j, b). [of_nat (0x61 + i) :: u8] < [of_nat (0x61 + j)] \<or> [of_nat (0x61 + i) :: u8] = [of_nat (0x61 + j)] \<and> a \<le> b) order
    \<and> bind_exec True example_segs bind_vm_start buf =
        Some (map (\<lambda>(sid, addr). (addr, None, [of_nat (0x61 + sid)], 0, 0)) order)
    \<and> mset strong = {#[0x64], [0x63]#} \<and> sorted strong
    \<and> announced buf = Some (map (\<lambda>n. (n, BIND_SYMBOL_FLAGS_NON_WEAK_DEFINITION)) strong @ map (\<lambda>n. (n, 0)) weak)"
proof -
  let ?name = "\<lambda>i :: nat. [of_nat (0x61 + i)] :: bytes" and ?b = "[(1, 0x2008), (0, 0x2000)] :: (nat \<times> u64) list"
  have "\<exists>buf. weak_bind_construct example_segs ?name [3, 2] ?b = Some buf \<and> buf \<noteq> []"
    by (rule exI [of _ "the (weak_bind_construct example_segs ?name [3, 2] ?b)"]) code_simp
  then obtain buf where buf: "weak_bind_construct example_segs ?name [3, 2] ?b = Some buf" "buf \<noteq> []" by blast
  have "binds_fit example_segs ?name (\<lambda>_. None) (\<lambda>_. 0) ((\<lambda>(sid, addr). (addr, sid, 0)) ` set ?b)"
    by code_simp
  moreover have "\<forall>sid \<in> set [3, 2]. 0 \<notin> set (?name sid)" by simp
  moreover have "mset (map ?name [3, 2]) = {#[0x64], [0x63]#}" "mset ?b = {#(1, 0x2008), (0, 0x2000)#}" by simp_all
  ultimately show ?thesis using weak_bind_stream_correct [OF buf] by (intro exI [of _ buf]) auto
qed

theorem lazy_bind_correct_witness:
  "\<exists>buf offsets. lazy_bind_construct example_segs
       [\<lparr>ls_addr = 0x3000, ls_ordinal = 1, ls_name = [0x61], ls_weak = False\<rparr>,
        \<lparr>ls_addr = 0x3008, ls_ordinal = - 2, ls_name = [0x62], ls_weak = True\<rparr>] = Some (buf, offsets)
     \<and> bind_exec False example_segs bind_vm_start (drop (unat (offsets ! 1)) buf) = Some [(0x3008, Some (- 2), [0x62], 1, 0)]"
proof -
  let ?s = "[\<lparr>ls_addr = 0x3000, ls_ordinal = 1, ls_name = [0x61], ls_weak = False\<rparr>,
        \<lparr>ls_addr = 0x3008, ls_ordinal = - 2, ls_name = [0x62], ls_weak = True\<rparr>]"
  have "\<exists>p. lazy_bind_construct example_segs ?s = Some p \<and> length (fst p) < 64"
    by (rule exI [of _ "the (lazy_bind_construct example_segs ?s)"]) code_simp
  then obtain buf offsets where c: "lazy_bind_construct example_segs ?s = Some (buf, offsets)" and l: "length buf < 64" by auto
  from l have c2: "length buf < 2 ^ 32" by simp
  have "list_all (stub_fits example_segs) ?s" by code_simp
  from lazy_bind_correct [OF c this c2, of 1] c show ?thesis by (auto simp: stub_bound_def)
qed

text \<open>
  C24. Two slots that meet at a boundary: wherever in the sorted order a bind of the last slot of a
  segment is followed by one of the address after it, the address dyld has is already the second
  slot's, so the stream does not set its segment, and dyld's bounds check refuses the whole stream,
  even when the second slot is the first of the next segment and both binds are proper ones.
\<close>

theorem abutting_binds_refused:
  fixes segs name ordinal weak
  defines "flags \<equiv> (\<lambda>sid. if weak sid then BIND_SYMBOL_FLAGS_WEAK_IMPORT else 0)"
  assumes "bind_construct segs name ordinal weak binds = Some buf"
    and "sort_by (bind_le name ordinal) binds = pre @ (a, i, d) # (a + 8, j, e) # post"
    and "binds_fit segs name (\<lambda>sid. Some (ordinal sid)) flags (set (pre @ [(a, i, d)]))"
    and "0 \<notin> set (name j)" and "- 16 < sint (ordinal j)"
    and "segment_and_offset segs a = Some (k, off)"
    and "a + 8 = seg_vmaddr (os_cmd (segs ! k)) + seg_vmsize (os_cmd (segs ! k))"
  shows "bind_exec True segs bind_vm_start buf = None"
proof -
  let ?ord = "\<lambda>sid. Some (ordinal sid)" and ?x = "(a, i, d)" and ?y = "(a + 8, j, e)"
  let ?st = "\<lparr>cur_ordinal = None, cur_symbol = None, cur_seg = None, cur_addr = 0, cur_addend = 0\<rparr>"
  have ne: "binds \<noteq> []" using assms(3) by (metis append_is_Nil_conv list.distinct(1) sort_by.simps(1))
  obtain ops where ops: "bind_ops_loop segs name ?ord flags ?st ((pre @ [?x]) @ ?y # post) = Some ops" and buf: "buf = bind_encode ops"
    using assms(2) ne unfolding bind_construct_def flags_def bind_ops_def assms(3) by auto
  have sim: "bind_sim segs name ?st bind_vm_start" by (simp add: bind_sim_def bind_vm_start_def)
  obtain ops1 ops2 st vm where o: "ops = ops1 @ ops2" "bind_ops_loop segs name ?ord flags st (?y # post) = Some ops2"
    "list_all (op_fits (length segs)) ops1" "bind_sems True segs ops1 bind_vm_start = Some (map (bound_of name ?ord flags) (pre @ [?x]), vm)"
    "bind_sim segs name st vm" "cur_seg st \<noteq> None" "cur_addr st = a + 8"
    using bind_ops_loop_run [OF sim ops assms(4)] by (auto simp: bind_vm_start_def)
  obtain ops3 st3 more where y: "bind_step segs name ?ord flags ?y st = Some (ops3, st3)" "ops2 = ops3 @ more"
    using o(2) by (auto simp: bind_eq_Some_conv)
  have v: "bm_addr vm = a + 8" "bm_end vm = a + 8"
  proof -
    obtain y where y: "cur_seg st = Some y" using o(6) by blast
    then have b: "in_seg segs vm y" "bm_addr vm = cur_addr st" "map_option fst (segment_and_offset segs (cur_addr st - 8)) = Some y"
      using o(5) by (simp_all add: bind_sim_def)
    have "cur_addr st - 8 = a" using o(7) by simp
    then have "y = k" using b(3) assms(7) by simp
    then show "bm_addr vm = a + 8" "bm_end vm = a + 8" using b(1,2) o(7) assms(8) by (simp_all add: in_seg_def)
  qed
  define ops3a where "ops3a = (if cur_ordinal st \<noteq> Some (ordinal j) then [BDylib (ordinal j)] else []) @
     (if cur_symbol st \<noteq> Some (j, flags j) then BSymbol (name j) (flags j) # (if cur_symbol st = None then [BType] else []) else []) @
     (if e \<noteq> cur_addend st then [BAddend e] else [])"
  have s3: "ops3 = ops3a @ [BBind]"
    using y(1) o(6,7) by (auto simp: bind_step_def Let_def ops3a_def split: if_splits)
  have f: "flags sid < 16" for sid by (simp add: flags_def)
  have fit: "list_all (op_fits (length segs)) ops3" using assms(5,6) f by (simp add: s3 ops3a_def)
  have keeps: "bind_sems True segs ops3a vm = Some (xs, vm') \<Longrightarrow> bm_addr vm' = bm_addr vm \<and> bm_end vm' = bm_end vm" for xs vm'
    by (auto simp: ops3a_def split: if_splits)
  have "bind_sems True segs ops3 vm = None"
  proof (cases "bind_sems True segs ops3a vm")
    case (Some p)
    obtain xs vm' where p: "p = (xs, vm')" by (cases p)
    then have "bm_addr vm' = a + 8" "bm_end vm' = a + 8" using keeps Some v by auto
    then have "do_bind True vm' = None" by (simp add: do_bind_def split: option.splits)
    then show ?thesis by (simp add: s3 bind_sems_append Some p)
  qed (simp add: s3 bind_sems_append)
  then have none: "bind_sems True segs (ops1 @ ops3) bind_vm_start = None" by (simp add: bind_sems_append o(4))
  obtain pad where "buf = concat (map encode_bind_op (ops1 @ ops3)) @ concat (map encode_bind_op more) @ 0 # pad"
    unfolding buf bind_encode_def pad_to_def by (simp add: o(1) y(2))
  then show ?thesis
    using bind_exec_ops [of segs "ops1 @ ops3" True bind_vm_start] o(3) fit none by simp
qed

theorem abutting_binds_refused_witness:
  "\<exists>buf. bind_construct example_segs (\<lambda>i :: nat. [0x61]) (\<lambda>i. 1) (\<lambda>i. False) [(0x3000, 0, 0), (0x2ff8, 0, 0)] = Some buf \<and>
     bind_exec True example_segs bind_vm_start buf = None"
proof -
  let ?b = "[(0x3000, 0, 0), (0x2ff8, 0, 0)] :: (u64 \<times> nat \<times> u64) list"
  have "bind_construct example_segs (\<lambda>i :: nat. [0x61]) (\<lambda>i. 1) (\<lambda>i. False) ?b \<noteq> None" by code_simp
  then obtain buf where buf: "bind_construct example_segs (\<lambda>i :: nat. [0x61]) (\<lambda>i. 1) (\<lambda>i. False) ?b = Some buf" by blast
  obtain k off where k: "segment_and_offset example_segs 0x2ff8 = Some (k, off)"
    "(0x2ff8 + 8 :: u64) = seg_vmaddr (os_cmd (example_segs ! k)) + seg_vmsize (os_cmd (example_segs ! k))"
  proof -
    have "case segment_and_offset example_segs 0x2ff8 of None \<Rightarrow> False
      | Some (k, off) \<Rightarrow> (0x2ff8 + 8 :: u64) = seg_vmaddr (os_cmd (example_segs ! k)) + seg_vmsize (os_cmd (example_segs ! k))"
      by code_simp
    then show ?thesis by (auto intro: that split: option.splits)
  qed
  have s: "sort_by (bind_le (\<lambda>i :: nat. [0x61]) (\<lambda>i. 1)) ?b = [] @ (0x2ff8, 0, 0) # (0x2ff8 + 8, 0, 0) # []"
    by (simp add: bind_le_def)
  have fit: "binds_fit example_segs (\<lambda>i. [0x61]) (\<lambda>i. Some 1) (\<lambda>i. if False then BIND_SYMBOL_FLAGS_WEAK_IMPORT else 0) (set ([] @ [(0x2ff8, 0 :: nat, 0)]))"
    by code_simp
  have "bind_exec True example_segs bind_vm_start buf = None"
    by (rule abutting_binds_refused [OF buf s fit _ _ k]) simp_all
  then show ?thesis using buf by blast
qed

end
