(* ===== verification/CodeSignature.thy ===== *)
theory CodeSignature
  imports Chunks
begin

unbundle bit_operations_syntax

section \<open>The ad-hoc code signature (\<open>macho/chunks/code_signature.rs\<close>)\<close>

text \<open>
  The SHA-256 page hashes, their update after the header's last change, and the superblob with its one
  or two code directories. The digests are the parameters \<open>sha256\<close> and \<open>sha1\<close>; all the model needs of
  them is the length of their results. File offsets and sizes are natural numbers; the fields they
  are written to keep their widths. The specification reads a directory the way a loader does.
\<close>

record cs_ctx =
  cs_platform :: u32
  cs_minos :: u32
  cs_static_link :: bool
  cs_cputype :: u32
  cs_install_name :: bytes
  cs_output_type :: u32
  cs_fileoff :: nat
  cs_hdr_size :: nat
  cs_segments :: "out_segment list"
  cs_hdr_segname :: bytes
  cs_chunks :: "chunk_header list"

definition has_sha1_directory :: "cs_ctx \<Rightarrow> bool" where
  "has_sha1_directory ctx \<longleftrightarrow>
     cs_static_link ctx \<or>
     (if cs_platform ctx = PLATFORM_MACOS then cs_minos ctx < encode_version 10 11 4
      else if cs_platform ctx \<in> {PLATFORM_IOS, PLATFORM_TVOS} then cs_minos ctx < encode_version 11 0 0
      else if cs_platform ctx \<in> {PLATFORM_FIRMWARE, 0} then cs_cputype ctx = CPU_TYPE_X86_64
      else False)"

definition directory_size :: "bytes \<Rightarrow> nat \<Rightarrow> nat \<Rightarrow> nat" where
  "directory_size ident nblocks hash_size = 88 + length ident + 1 + nblocks * hash_size"

text \<open>What follows the last slash: the first item of \<^verbatim>\<open>rsplit\<close>.\<close>

definition cs_identifier :: "cs_ctx \<Rightarrow> bytes" where
  "cs_identifier ctx = rev (takeWhile (\<lambda>b. b \<noteq> 0x2f) (rev (cs_install_name ctx)))"

abbreviation (input) cs_page :: nat where "cs_page \<equiv> 4096"

definition superblob_size :: "cs_ctx \<Rightarrow> nat \<Rightarrow> nat" where
  "superblob_size ctx fileoff =
     (let ident = cs_identifier ctx;
          nblocks = div_ceil fileoff cs_page;
          sz = 12 + 8 + directory_size ident nblocks SHA256_SIZE
      in if has_sha1_directory ctx then sz + 8 + directory_size ident nblocks SHA1_SIZE else sz)"

definition signature_size :: "cs_ctx \<Rightarrow> nat \<Rightarrow> nat" where
  "signature_size ctx fileoff = next_multiple_of (superblob_size ctx fileoff) 8"

definition push_be32 :: "bytes \<Rightarrow> u32 \<Rightarrow> bytes" where
  "push_be32 buf val = buf @ be_bytes 4 val"

definition push_be64 :: "bytes \<Rightarrow> u64 \<Rightarrow> bytes" where
  "push_be64 buf val = buf @ be_bytes 8 val"

subsection \<open>Page hashes\<close>

text \<open>\<^verbatim>\<open>par_chunks\<close>: pieces of \<open>n\<close> bytes, the last one maybe short.\<close>

definition page_chunks :: "nat \<Rightarrow> bytes \<Rightarrow> bytes list" where
  "page_chunks n data = map (\<lambda>i. take n (drop (i * n) data)) [0..<div_ceil (length data) n]"

definition page_hashes :: "(bytes \<Rightarrow> bytes) \<Rightarrow> bytes \<Rightarrow> bytes list" where
  "page_hashes sha256 data = map sha256 (page_chunks cs_page data)"

fun rehash_loop :: "(bytes \<Rightarrow> bytes) \<Rightarrow> bytes \<Rightarrow> nat \<Rightarrow> bytes list \<Rightarrow> bytes list option" where
  "rehash_loop sha256 data i [] = Some []"
| "rehash_loop sha256 data i (h # hs) =
     (let start = i * cs_page; fin = min (start + cs_page) (length data)
      in do { page \<leftarrow> (if start \<le> fin then Some (take (fin - start) (drop start data)) else None);
              rest \<leftarrow> rehash_loop sha256 data (i + 1) hs;
              Some (sha256 page # rest) })"

definition rehash_pages :: "(bytes \<Rightarrow> bytes) \<Rightarrow> bytes \<Rightarrow> bytes list \<Rightarrow> nat \<Rightarrow> nat \<Rightarrow> bytes list option" where
  "rehash_pages sha256 data hashes range_start range_end =
     (let first = range_start div cs_page;
          last = min (div_ceil range_end cs_page) (length hashes)
      in if first \<le> last
         then do { mid \<leftarrow> rehash_loop sha256 data first (take (last - first) (drop first hashes));
                   Some (take first hashes @ mid @ drop last hashes) }
         else None)"

subsection \<open>The superblob\<close>

text \<open>The segment the header is in must be there: its lookup is unwrapped.\<close>

definition push_code_directory :: "cs_ctx \<Rightarrow> bytes \<Rightarrow> u8 \<Rightarrow> bytes \<Rightarrow> nat \<Rightarrow> bytes option" where
  "push_code_directory ctx sig0 hash_type hashes hash_size =
     (do { seg \<leftarrow> List.find (\<lambda>s. os_name s = cs_hdr_segname ctx) (cs_segments ctx);
      (let cs_off = cs_fileoff ctx;
          ident = cs_identifier ctx;
          ident_size = length ident + 1;
          nblocks = div_ceil cs_off cs_page;
          text_size = (case List.find (\<lambda>hdr. ch_segname hdr = bstr ''__TEXT'' \<and> ch_sectname hdr = bstr ''__text'') (cs_chunks ctx)
                       of None \<Rightarrow> 0 | Some hdr \<Rightarrow> ch_size hdr);
          sig = push_be32 sig0 CSMAGIC_CODEDIRECTORY;
          sig = push_be32 sig (of_nat (directory_size ident nblocks hash_size));
          sig = push_be32 sig CS_SUPPORTSEXECSEG;
          sig = push_be32 sig (CS_ADHOC OR CS_LINKER_SIGNED);
          sig = push_be32 sig (of_nat (88 + ident_size));
          sig = push_be32 sig 88;
          sig = push_be32 sig 0;
          sig = push_be32 sig (of_nat nblocks);
          sig = push_be32 sig (of_nat cs_off);
          sig = sig @ [of_nat hash_size];
          sig = sig @ [hash_type];
          sig = sig @ [0];
          sig = sig @ [12];
          sig = push_be32 sig 0;
          sig = push_be32 sig 0;
          sig = push_be32 sig 0;
          sig = push_be32 sig 0;
          sig = push_be64 sig 0;
          sig = push_be64 sig (seg_fileoff (os_cmd seg));
          sig = push_be64 sig text_size;
          sig = push_be64 sig (if cs_output_type ctx = MH_EXECUTE then CS_EXECSEG_MAIN_BINARY else 0)
      in Some (sig @ ident @ [0] @ hashes)) })"

definition superblob :: "(bytes \<Rightarrow> bytes) \<Rightarrow> cs_ctx \<Rightarrow> bytes \<Rightarrow> bytes list \<Rightarrow> bytes option" where
  "superblob sha1 ctx data hashes =
     (let cs_off = cs_fileoff ctx;
          sig = push_be32 [] CSMAGIC_EMBEDDED_SIGNATURE;
          sig = push_be32 sig (of_nat (superblob_size ctx cs_off))
      in do { sig \<leftarrow>
                (if has_sha1_directory ctx then
                   let sha1s = map sha1 (page_chunks cs_page (take cs_off data));
                       sig = push_be32 sig 2;
                       sig = push_be32 sig CSSLOT_CODEDIRECTORY;
                       sig = push_be32 sig 28;
                       sig = push_be32 sig CSSLOT_ALTERNATE_CODEDIRECTORIES;
                       sig = push_be32 sig (28 + of_nat (directory_size (cs_identifier ctx) (length sha1s) SHA1_SIZE))
                   in push_code_directory ctx sig CS_HASHTYPE_SHA1 (concat sha1s) SHA1_SIZE
                 else
                   let sig = push_be32 sig 1;
                       sig = push_be32 sig CSSLOT_CODEDIRECTORY
                   in Some (push_be32 sig 20));
              push_code_directory ctx sig CS_HASHTYPE_SHA256 (concat hashes) SHA256_SIZE })"

text \<open>\<open>write\<close>: the superblob resized to the chunk's size and copied to its place.\<close>

definition signature_write :: "(bytes \<Rightarrow> bytes) \<Rightarrow> cs_ctx \<Rightarrow> bytes \<Rightarrow> bytes list \<Rightarrow> bytes option" where
  "signature_write sha1 ctx data hashes =
     (if cs_fileoff ctx \<le> length data then
        do { sig \<leftarrow> superblob sha1 ctx data hashes;
             let sig = take (cs_hdr_size ctx) (sig @ replicate (cs_hdr_size ctx - length sig) 0);
             copy_at data (cs_fileoff ctx) sig }
      else None)"

subsection \<open>Rehashing\<close>

lemma div_ceil_bounds: "0 < n \<Longrightarrow> i < div_ceil m n \<longleftrightarrow> i * n < m"
proof -
  assume n: "0 < n"
  have "i < (m + n - 1) div n \<longleftrightarrow> Suc i \<le> (m + n - 1) div n" by auto
  also have "\<dots> \<longleftrightarrow> Suc i * n \<le> m + n - 1" using n by (simp add: less_eq_div_iff_mult_less_eq)
  also have "\<dots> \<longleftrightarrow> i * n < m" using n by auto
  finally show ?thesis by (simp add: div_ceil_def)
qed

lemma rehash_loop_eq:
  "i + length hs \<le> div_ceil (length data) cs_page \<Longrightarrow>
   rehash_loop sha256 data i hs =
     Some (map (\<lambda>j. sha256 (take cs_page (drop (j * cs_page) data))) [i..<i + length hs])"
proof (induction hs arbitrary: i)
  case Nil
  then show ?case by simp
next
  case (Cons h hs)
  have "i < div_ceil (length data) cs_page" using Cons.prems by simp
  then have lt: "i * cs_page < length data" by (simp add: div_ceil_bounds)
  have "take (min (i * cs_page + cs_page) (length data) - i * cs_page) (drop (i * cs_page) data)
      = take cs_page (drop (i * cs_page) data)"
    by (simp add: min_def)
  moreover have "rehash_loop sha256 data (i + 1) hs =
     Some (map (\<lambda>j. sha256 (take cs_page (drop (j * cs_page) data))) [i + 1..<i + 1 + length hs])"
    using Cons.prems by (intro Cons.IH) simp
  ultimately show ?case using lt by (simp add: Let_def upt_conv_Cons del: upt_Suc)
qed

lemma nth_three_parts:
  assumes "length xs = a" and "length ys = b - a" and "a \<le> b"
  shows "(xs @ ys @ zs) ! i = (if i < a then xs ! i else if i < b then ys ! (i - a) else zs ! (i - b))"
  using assms by (auto simp: nth_append)

lemma length_page_hashes: "length (page_hashes sha256 data) = div_ceil (length data) cs_page"
  by (simp add: page_hashes_def page_chunks_def)

lemma page_hashes_nth:
  "i < div_ceil (length data) cs_page \<Longrightarrow>
   page_hashes sha256 data ! i = sha256 (take cs_page (drop (i * cs_page) data))"
  by (simp add: page_hashes_def page_chunks_def)

text \<open>
  C10. Rehashing the pages that overlap the changed bytes brings the page hashes up to date with the
  changed file.
\<close>

theorem rehash_pages_correct:
  assumes "length new = length old" and "take a new = take a old" and "drop b new = drop b old"
    and "a \<le> b" and "b \<le> length old"
  shows "rehash_pages sha256 new (page_hashes sha256 old) a b = Some (page_hashes sha256 new)"
proof -
  let ?n = "div_ceil (length old) cs_page"
  let ?first = "a div cs_page" and ?last = "min (div_ceil b cs_page) ?n"
  have fl: "?first \<le> ?last"
  proof -
    have "?first \<le> div_ceil b cs_page" "?first \<le> ?n"
      using assms(4,5) unfolding div_ceil_def by (auto intro!: div_le_mono)
    then show ?thesis by simp
  qed
  have "rehash_loop sha256 new ?first (take (?last - ?first) (drop ?first (page_hashes sha256 old))) =
      Some (map (\<lambda>j. sha256 (take cs_page (drop (j * cs_page) new))) [?first..<?last])"
    using fl assms(1) by (subst rehash_loop_eq) (auto simp: length_page_hashes)
  then have r: "rehash_pages sha256 new (page_hashes sha256 old) a b =
      Some (take ?first (page_hashes sha256 old) @ map (\<lambda>j. sha256 (take cs_page (drop (j * cs_page) new))) [?first..<?last]
        @ drop ?last (page_hashes sha256 old))"
    using fl assms(1) by (simp add: rehash_pages_def length_page_hashes Let_def)
  have same: "take cs_page (drop (i * cs_page) new) = take cs_page (drop (i * cs_page) old)"
    if "i < ?n" "i < ?first \<or> ?last \<le> i" for i
  proof (cases "i < ?first")
    case True
    then have "Suc i * cs_page \<le> a" by (simp add: less_eq_div_iff_mult_less_eq [symmetric] Suc_le_eq)
    then have "take cs_page (drop (i * cs_page) new) = drop (i * cs_page) (take (i * cs_page + cs_page) (take a new))"
      by (simp add: drop_take min_def)
    also have "\<dots> = take cs_page (drop (i * cs_page) old)"
      unfolding assms(2) using \<open>Suc i * cs_page \<le> a\<close> by (simp add: drop_take min_def)
    finally show ?thesis .
  next
    case False
    with that have "\<not> i < div_ceil b cs_page" by auto
    then have "b \<le> i * cs_page" by (simp add: div_ceil_bounds)
    then have "drop (i * cs_page) new = drop (i * cs_page - b) (drop b new)" by simp
    then show ?thesis using \<open>b \<le> i * cs_page\<close> by (simp add: assms(3))
  qed
  have "take ?first (page_hashes sha256 old) @ map (\<lambda>j. sha256 (take cs_page (drop (j * cs_page) new))) [?first..<?last]
        @ drop ?last (page_hashes sha256 old) = page_hashes sha256 new"
  proof (rule nth_equalityI)
    show "length (take ?first (page_hashes sha256 old) @ map (\<lambda>j. sha256 (take cs_page (drop (j * cs_page) new))) [?first..<?last]
        @ drop ?last (page_hashes sha256 old)) = length (page_hashes sha256 new)"
      using fl assms(1) by (simp add: length_page_hashes min_def)
  next
    fix i assume "i < length (take ?first (page_hashes sha256 old) @ map (\<lambda>j. sha256 (take cs_page (drop (j * cs_page) new))) [?first..<?last]
        @ drop ?last (page_hashes sha256 old))"
    then have i: "i < ?n" using fl by (simp add: length_page_hashes min_def split: if_splits)
    have len: "length (take ?first (page_hashes sha256 old)) = ?first"
      using fl by (simp add: length_page_hashes)
    have "(take ?first (page_hashes sha256 old) @ map (\<lambda>j. sha256 (take cs_page (drop (j * cs_page) new))) [?first..<?last]
        @ drop ?last (page_hashes sha256 old)) ! i =
      (if i < ?first then page_hashes sha256 old ! i
       else if i < ?last then sha256 (take cs_page (drop (i * cs_page) new)) else page_hashes sha256 old ! i)"
      using i by (subst nth_three_parts [OF len _ fl]) (auto simp: length_page_hashes)
    then show "(take ?first (page_hashes sha256 old) @ map (\<lambda>j. sha256 (take cs_page (drop (j * cs_page) new))) [?first..<?last]
        @ drop ?last (page_hashes sha256 old)) ! i = page_hashes sha256 new ! i"
      using i same [of i] assms(1) by (auto simp: page_hashes_nth split: if_splits)
  qed
  with r show ?thesis by simp
qed

text \<open>A file of one changed byte on its second page.\<close>

theorem rehash_pages_correct_witness:
  "rehash_pages (take 2) (replicate 4097 1 @ [7, 1]) (page_hashes (take 2) (replicate 4097 1 @ [1, 1])) 4097 4098
     = Some (page_hashes (take 2) (replicate 4097 1 @ [7, 1]))"
  by (rule rehash_pages_correct) simp_all

subsection \<open>What a loader reads\<close>

definition be32_at :: "bytes \<Rightarrow> nat \<Rightarrow> nat" where
  "be32_at bs off = unat (from_be (take 4 (drop off bs)) :: u32)"

definition byte_at :: "bytes \<Rightarrow> nat \<Rightarrow> nat" where
  "byte_at bs off = unat (hd (drop off bs @ [0]))"

text \<open>A code directory at \<open>off\<close> covers the image and every one of its page hashes is the page's.\<close>

definition directory_ok :: "(bytes \<Rightarrow> bytes) \<Rightarrow> bytes \<Rightarrow> nat \<Rightarrow> bytes \<Rightarrow> bool" where
  "directory_ok digest bs off img \<longleftrightarrow>
     (let hash_off = off + be32_at bs (off + 16);
          nslots = be32_at bs (off + 28);
          hash_size = byte_at bs (off + 36);
          page = 2 ^ byte_at bs (off + 39)
      in be32_at bs off = 0xfade0c02 \<and> off + be32_at bs (off + 4) \<le> length bs \<and>
         be32_at bs (off + 32) = length img \<and> nslots = div_ceil (length img) page \<and>
         hash_off + nslots * hash_size = off + be32_at bs (off + 4) \<and>
         list_all (\<lambda>i. take hash_size (drop (hash_off + i * hash_size) bs) = digest (take page (drop (i * page) img)))
           [0..<nslots])"

definition directory_accepted :: "(bytes \<Rightarrow> bytes) \<Rightarrow> (bytes \<Rightarrow> bytes) \<Rightarrow> bytes \<Rightarrow> nat \<Rightarrow> bytes \<Rightarrow> bool" where
  "directory_accepted sha256 sha1 bs off img \<longleftrightarrow>
     (if byte_at bs (off + 37) = 1 then directory_ok sha1 bs off img
      else byte_at bs (off + 37) = 2 \<and> directory_ok sha256 bs off img)"

text \<open>The directory of every slot of the superblob is accepted, the first slot is the main one.\<close>

definition signature_accepted :: "(bytes \<Rightarrow> bytes) \<Rightarrow> (bytes \<Rightarrow> bytes) \<Rightarrow> bytes \<Rightarrow> bytes \<Rightarrow> bool" where
  "signature_accepted sha256 sha1 bs img \<longleftrightarrow>
     be32_at bs 0 = 0xfade0cc0 \<and> be32_at bs 4 \<le> length bs \<and> 0 < be32_at bs 8 \<and> be32_at bs 12 = 0 \<and>
     list_all (\<lambda>i. directory_accepted sha256 sha1 (take (be32_at bs 4) bs) (be32_at bs (16 + 8 * i)) img)
       [0..<be32_at bs 8]"

named_theorems cs_simps \<open>reading the pushed fields\<close>

lemma from_be_bytes_32 [cs_simps]: "from_be (be_bytes 4 (w :: u32)) = w"
  by (simp add: from_be_def be_bytes_def)

lemma be32_at_here [cs_simps]: "be32_at (be_bytes 4 (w :: u32) @ bs) 0 = unat w"
  by (simp add: be32_at_def cs_simps)

lemma be32_at_skip [cs_simps]: "length xs \<le> off \<Longrightarrow> be32_at (xs @ bs) off = be32_at bs (off - length xs)"
  by (simp add: be32_at_def)

lemma byte_at_here [cs_simps]: "byte_at ([b] @ bs) 0 = unat b"
  by (simp add: byte_at_def)

lemma byte_at_skip [cs_simps]: "length xs \<le> off \<Longrightarrow> byte_at (xs @ bs) off = byte_at bs (off - length xs)"
  by (simp add: byte_at_def)

lemma byte_at_Cons [cs_simps]: "byte_at (x # bs) off = (if off = 0 then unat x else byte_at bs (off - 1))"
  by (cases off) (simp_all add: byte_at_def)

text \<open>The bytes of a code directory, as the chain of pushes leaves them.\<close>

definition directory_bytes :: "cs_ctx \<Rightarrow> out_segment \<Rightarrow> u8 \<Rightarrow> bytes \<Rightarrow> nat \<Rightarrow> bytes" where
  "directory_bytes ctx seg hash_type hashes hash_size = the (push_code_directory (ctx\<lparr>cs_segments := [seg], cs_hdr_segname := os_name seg\<rparr>) [] hash_type hashes hash_size)"

lemma push_code_directory_eq:
  assumes "List.find (\<lambda>s. os_name s = cs_hdr_segname ctx) (cs_segments ctx) = Some seg"
  shows "push_code_directory ctx sig hash_type hashes hash_size = Some (sig @ directory_bytes ctx seg hash_type hashes hash_size)"
  using assms by (simp add: directory_bytes_def push_code_directory_def Let_def push_be32_def push_be64_def cs_identifier_def)

lemma length_directory_bytes:
  "length (directory_bytes ctx seg ty hs n) = 88 + length (cs_identifier ctx) + 1 + length hs"
  by (simp add: directory_bytes_def push_code_directory_def Let_def push_be32_def push_be64_def cs_identifier_def)

lemma directory_bytes_fields:
  "be32_at (directory_bytes ctx seg ty hs n @ rest) 0 = 0xfade0c02"
  "be32_at (directory_bytes ctx seg ty hs n @ rest) 4 = unat (of_nat (directory_size (cs_identifier ctx) (div_ceil (cs_fileoff ctx) cs_page) n) :: u32)"
  "be32_at (directory_bytes ctx seg ty hs n @ rest) 16 = unat (of_nat (88 + length (cs_identifier ctx) + 1) :: u32)"
  "be32_at (directory_bytes ctx seg ty hs n @ rest) 28 = unat (of_nat (div_ceil (cs_fileoff ctx) cs_page) :: u32)"
  "be32_at (directory_bytes ctx seg ty hs n @ rest) 32 = unat (of_nat (cs_fileoff ctx) :: u32)"
  "byte_at (directory_bytes ctx seg ty hs n @ rest) 36 = unat (of_nat n :: u8)"
  "byte_at (directory_bytes ctx seg ty hs n @ rest) 37 = unat ty"
  "byte_at (directory_bytes ctx seg ty hs n @ rest) 39 = 12"
  by (simp_all add: directory_bytes_def push_code_directory_def Let_def push_be32_def push_be64_def cs_identifier_def cs_simps
      del: of_nat_add of_nat_Suc)

lemma directory_bytes_hashes:
  "drop (89 + length (cs_identifier ctx)) (directory_bytes ctx seg ty hs n @ rest) = hs @ rest"
  by (simp add: directory_bytes_def push_code_directory_def Let_def push_be32_def push_be64_def cs_identifier_def drop_Cons')

lemma page_hashes_blocks:
  assumes "\<And>x. length (digest x) = n" and "i < length cs"
  shows "take n (drop (i * n) (concat (map digest cs) @ rest)) = digest (cs ! i)"
  using assms(2)
proof (induction cs arbitrary: i)
  case Nil
  then show ?case by simp
next
  case (Cons c cs)
  then show ?case by (cases i) (simp_all add: assms(1))
qed

lemma length_concat_digests: "(\<And>x. length (digest x) = n) \<Longrightarrow> length (concat (map digest cs)) = length cs * n"
  by (induction cs) auto

lemma be32_at_take: "off + 4 \<le> n \<Longrightarrow> be32_at (take n bs) off = be32_at bs off"
  by (simp add: be32_at_def drop_take)

lemma unat_of_nat_32: "n < 2 ^ 32 \<Longrightarrow> unat (of_nat n :: u32) = n"
  by (simp add: unat_of_nat take_bit_nat_eq_self)

lemma directory_ok_here:
  assumes "length (take (cs_fileoff ctx) data) = cs_fileoff ctx"
    and d: "\<And>x. length (digest x) = n" and "n < 256"
    and small: "off + directory_size (cs_identifier ctx) (div_ceil (cs_fileoff ctx) cs_page) n < 2 ^ 32"
    and "cs_fileoff ctx < 2 ^ 32" and off: "length pre = off"
  shows "directory_ok digest (pre @ directory_bytes ctx seg ty (concat (map digest (page_chunks cs_page (take (cs_fileoff ctx) data)))) n @ rest)
           off (take (cs_fileoff ctx) data)"
proof -
  let ?img = "take (cs_fileoff ctx) data" and ?k = "div_ceil (cs_fileoff ctx) cs_page"
  let ?cs = "page_chunks cs_page ?img" and ?id = "length (cs_identifier ctx)"
  let ?dir = "directory_bytes ctx seg ty (concat (map digest ?cs)) n"
  have lc: "length ?cs = ?k" using assms(1) by (simp add: page_chunks_def)
  have pc: "?cs ! i = take cs_page (drop (i * cs_page) ?img)" if "i < ?k" for i
    using that assms(1) by (simp add: page_chunks_def)
  have sz: "directory_size (cs_identifier ctx) ?k n = 89 + ?id + ?k * n" by (simp add: directory_size_def)
  have ld: "length ?dir = 89 + ?id + ?k * n"
    by (simp add: length_directory_bytes length_concat_digests [OF d] lc)
  have k: "?k < 2 ^ 32"
  proof -
    have "?k \<le> cs_fileoff ctx" by (simp add: div_ceil_def)
    with assms(5) show ?thesis by simp
  qed
  have f: "be32_at (pre @ ?dir @ rest) (off + j) = be32_at (?dir @ rest) j"
    "byte_at (pre @ ?dir @ rest) (off + j) = byte_at (?dir @ rest) j"
    "drop (off + j) (pre @ ?dir @ rest) = drop j (?dir @ rest)" for j
    using off by (simp_all add: cs_simps)
  have f0: "be32_at (pre @ ?dir @ rest) off = be32_at (?dir @ rest) 0" using f(1) [of 0] by simp
  have h: "drop (off + (88 + ?id + 1) + j) (pre @ ?dir @ rest) = drop j (concat (map digest ?cs) @ rest)" for j
  proof -
    have "drop (off + (88 + ?id + 1) + j) (pre @ ?dir @ rest) = drop j (drop (off + (89 + ?id)) (pre @ ?dir @ rest))"
      by (simp only: drop_drop) (simp add: add_ac)
    then show ?thesis by (simp only: f(3) directory_bytes_hashes)
  qed
  have fs: "unat (of_nat (directory_size (cs_identifier ctx) ?k n) :: u32) = 89 + ?id + ?k * n"
    "unat (of_nat (88 + ?id + 1) :: u32) = 88 + ?id + 1"
    "unat (of_nat ?k :: u32) = ?k" "unat (of_nat (cs_fileoff ctx) :: u32) = cs_fileoff ctx"
    using small k assms(5) unfolding sz by - (rule unat_of_nat_32, simp)+
  have n8: "unat (of_nat n :: u8) = n" using assms(3) by (simp add: unat_of_nat take_bit_nat_eq_self)
  have la: "list_all (\<lambda>i. take n (drop (off + (88 + ?id + 1) + i * n) (pre @ ?dir @ rest)) = digest (take cs_page (drop (i * cs_page) ?img))) [0..<?k]"
    unfolding list_all_iff by (intro ballI) (simp only: h page_hashes_blocks [OF d] lc pc set_upt atLeastLessThan_iff)
  have p: "(2 :: nat) ^ 12 = cs_page" by simp
  show ?thesis
    unfolding directory_ok_def Let_def f f0 directory_bytes_fields fs n8 assms(1) p
    by (intro conjI la) (simp_all add: ld off)
qed

text \<open>
  C4. The signature that is written, its SHA-1 directory included, is one a loader accepts: the
  superblob and its index name directories whose lengths, code limits and page hashes are those of the
  file before it; the rest of the file is unchanged.
\<close>

theorem signature_write_accepted:
  assumes "\<And>x. length (sha256 x) = SHA256_SIZE" and "\<And>x. length (sha1 x) = SHA1_SIZE"
    and seg: "List.find (\<lambda>s. os_name s = cs_hdr_segname ctx) (cs_segments ctx) = Some seg"
    and small: "superblob_size ctx (cs_fileoff ctx) < 2 ^ 32" "cs_fileoff ctx < 2 ^ 32"
    and hdr: "cs_hdr_size ctx = signature_size ctx (cs_fileoff ctx)"
    and room: "cs_fileoff ctx + cs_hdr_size ctx \<le> length data"
    and hashes: "hashes = page_hashes sha256 (take (cs_fileoff ctx) data)"
  shows "\<exists>sig. signature_write sha1 ctx data hashes =
           Some (take (cs_fileoff ctx) data @ sig @ drop (cs_fileoff ctx + cs_hdr_size ctx) data)
         \<and> length sig = cs_hdr_size ctx
         \<and> signature_accepted sha256 sha1 sig (take (cs_fileoff ctx) data)"
proof -
  let ?img = "take (cs_fileoff ctx) data" and ?k = "div_ceil (cs_fileoff ctx) cs_page"
  let ?id = "cs_identifier ctx" and ?sz = "superblob_size ctx (cs_fileoff ctx)"
  define d256 where "d256 = directory_bytes ctx seg CS_HASHTYPE_SHA256 (concat (map sha256 (page_chunks cs_page ?img))) SHA256_SIZE"
  define d1 where "d1 = directory_bytes ctx seg CS_HASHTYPE_SHA1 (concat (map sha1 (page_chunks cs_page ?img))) SHA1_SIZE"
  have li: "length ?img = cs_fileoff ctx" using room by simp
  have lc: "length (page_chunks cs_page ?img) = ?k" using li by (simp add: page_chunks_def)
  have l256: "length d256 = directory_size ?id ?k SHA256_SIZE" and l1: "length d1 = directory_size ?id ?k SHA1_SIZE"
    by (simp_all add: d256_def d1_def length_directory_bytes directory_size_def length_concat_digests assms(1,2) lc)
  have usz: "unat (of_nat ?sz :: u32) = ?sz" using small(1) by (rule unat_of_nat_32)
  obtain sb where sb: "superblob sha1 ctx data hashes = Some sb" "length sb = ?sz"
    and acc: "signature_accepted sha256 sha1 (sb @ pad) ?img" for pad
  proof (cases "has_sha1_directory ctx")
    case False
    define pre where "pre = be_bytes 4 (CSMAGIC_EMBEDDED_SIGNATURE :: u32) @ be_bytes 4 (of_nat ?sz :: u32) @ be_bytes 4 (1 :: u32)
        @ be_bytes 4 (CSSLOT_CODEDIRECTORY :: u32) @ be_bytes 4 (20 :: u32)"
    have sb: "superblob sha1 ctx data hashes = Some (pre @ d256)"
      using False by (simp add: superblob_def push_code_directory_eq [OF seg] Let_def push_be32_def pre_def d256_def hashes page_hashes_def)
    have sz: "?sz = 20 + directory_size ?id ?k SHA256_SIZE" using False by (simp add: superblob_size_def Let_def)
    have lp: "length pre = 20" by (simp add: pre_def)
    have ok: "directory_ok sha256 (pre @ d256 @ rest) 20 ?img" for rest
      unfolding d256_def by (rule directory_ok_here) (use li assms(1) small sz lp in simp_all)
    have f: "be32_at (pre @ x) 0 = 0xfade0cc0" "be32_at (pre @ x) 4 = ?sz" "be32_at (pre @ x) 8 = 1" "be32_at (pre @ x) 12 = 0" "be32_at (pre @ x) 16 = 20" for x
      by (simp_all add: pre_def cs_simps usz)
    have t: "byte_at (pre @ d256) 57 = 2"
      using directory_bytes_fields(7) [of ctx seg CS_HASHTYPE_SHA256 "concat (map sha256 (page_chunks cs_page ?img))" SHA256_SIZE "[]"]
      by (simp add: d256_def cs_simps lp)
    have "signature_accepted sha256 sha1 ((pre @ d256) @ pad) ?img" for pad
      using ok [of "[]"] by (simp add: signature_accepted_def f sz l256 lp directory_accepted_def t)
    then show ?thesis using that sb sz l256 lp by auto
  next
    case True
    define n1 where "n1 = directory_size ?id ?k SHA1_SIZE"
    define pre where "pre = be_bytes 4 (CSMAGIC_EMBEDDED_SIGNATURE :: u32) @ be_bytes 4 (of_nat ?sz :: u32) @ be_bytes 4 (2 :: u32)
        @ be_bytes 4 (CSSLOT_CODEDIRECTORY :: u32) @ be_bytes 4 (28 :: u32)
        @ be_bytes 4 (CSSLOT_ALTERNATE_CODEDIRECTORIES :: u32) @ be_bytes 4 (28 + of_nat n1 :: u32)"
    have sb: "superblob sha1 ctx data hashes = Some ((pre @ d1) @ d256)"
      using True by (simp add: superblob_def push_code_directory_eq [OF seg] Let_def push_be32_def pre_def d256_def d1_def n1_def lc hashes page_hashes_def)
    have sz: "?sz = 28 + n1 + directory_size ?id ?k SHA256_SIZE" using True by (simp add: superblob_size_def Let_def n1_def)
    have lp: "length pre = 28" by (simp add: pre_def)
    have ok1: "directory_ok sha1 (pre @ d1 @ rest) 28 ?img" for rest
      unfolding d1_def by (rule directory_ok_here) (use li assms(2) small sz lp in \<open>simp_all add: n1_def\<close>)
    have ok2: "directory_ok sha256 ((pre @ d1) @ d256 @ rest) (28 + n1) ?img" for rest
      unfolding d256_def by (rule directory_ok_here) (use li assms(1) small sz lp l1 in \<open>simp_all add: n1_def\<close>)
    have "unat (of_nat (28 + n1) :: u32) = 28 + n1" by (rule unat_of_nat_32) (use small sz in simp)
    then have u: "unat (28 + of_nat n1 :: u32) = 28 + n1" by simp
    have f: "be32_at (pre @ x) 0 = 0xfade0cc0" "be32_at (pre @ x) 4 = ?sz" "be32_at (pre @ x) 8 = 2" "be32_at (pre @ x) 12 = 0"
      "be32_at (pre @ x) 16 = 28" "be32_at (pre @ x) 24 = 28 + n1" for x
      by (simp_all add: pre_def cs_simps usz u)
    have t1: "byte_at (pre @ d1 @ x) 65 = 1" for x
      using directory_bytes_fields(7) [of ctx seg CS_HASHTYPE_SHA1 "concat (map sha1 (page_chunks cs_page ?img))" SHA1_SIZE x]
      by (simp add: d1_def cs_simps lp)
    have t2: "byte_at (pre @ d1 @ d256) (28 + n1 + 37) = 2"
      using directory_bytes_fields(7) [of ctx seg CS_HASHTYPE_SHA256 "concat (map sha256 (page_chunks cs_page ?img))" SHA256_SIZE "[]"]
      by (simp add: d256_def cs_simps lp l1 n1_def)
    have two: "[0..<2] = [0, Suc 0]" by (simp add: upt_rec)
    have "signature_accepted sha256 sha1 ((pre @ d1 @ d256) @ pad) ?img" for pad
      using ok1 [of d256] ok2 [of "[]"] t2
      by (simp add: signature_accepted_def f sz l256 l1 lp directory_accepted_def t1 two n1_def)
    then show ?thesis using that sb sz l256 l1 lp by (auto simp: n1_def)
  qed
  have ge: "?sz \<le> cs_hdr_size ctx" by (simp add: hdr signature_size_def next_multiple_of_ge)
  define sig where "sig = sb @ replicate (cs_hdr_size ctx - ?sz) 0"
  have ls: "length sig = cs_hdr_size ctx" using ge sb(2) by (simp add: sig_def)
  have "signature_write sha1 ctx data hashes = Some (?img @ sig @ drop (cs_fileoff ctx + cs_hdr_size ctx) data)"
    using room sb ls by (simp add: signature_write_def copy_at_def sig_def Let_def)
  with ls acc show ?thesis by (auto simp: sig_def)
qed

text \<open>A signature with both directories, with digests that keep a page's first bytes.\<close>

theorem signature_write_accepted_witness:
  "let seg = \<lparr>os_name = bstr ''__TEXT'', os_chunks = [],
              os_cmd = \<lparr>seg_cmd = 0, seg_cmdsize = 0, seg_segname = [], seg_vmaddr = 0, seg_vmsize = 0, seg_fileoff = 0,
                        seg_filesize = 0, seg_maxprot = 0, seg_initprot = 0, seg_nsects = 0, seg_flags = 0\<rparr>\<rparr>;
       ctx = \<lparr>cs_platform = 1, cs_minos = 0, cs_static_link = True, cs_cputype = 0, cs_install_name = bstr ''/a'',
              cs_output_type = 2, cs_fileoff = 10, cs_hdr_size = 264, cs_segments = [seg],
              cs_hdr_segname = bstr ''__TEXT'', cs_chunks = []\<rparr>;
       sha256 = (\<lambda>x. take 32 (x @ replicate 32 0)); sha1 = (\<lambda>x. take 20 (x @ replicate 20 1));
       data = replicate 300 5
   in \<exists>sig. signature_write sha1 ctx data (page_hashes sha256 (take 10 data)) =
            Some (take 10 data @ sig @ drop 274 data) \<and> signature_accepted sha256 sha1 sig (take 10 data)"
proof -
  let ?seg = "\<lparr>os_name = bstr ''__TEXT'', os_chunks = [],
              os_cmd = \<lparr>seg_cmd = 0, seg_cmdsize = 0, seg_segname = [], seg_vmaddr = 0, seg_vmsize = 0, seg_fileoff = 0,
                        seg_filesize = 0, seg_maxprot = 0, seg_initprot = 0, seg_nsects = 0, seg_flags = 0\<rparr>\<rparr>"
  let ?ctx = "\<lparr>cs_platform = 1, cs_minos = 0, cs_static_link = True, cs_cputype = 0, cs_install_name = bstr ''/a'',
              cs_output_type = 2, cs_fileoff = 10, cs_hdr_size = 264, cs_segments = [?seg],
              cs_hdr_segname = bstr ''__TEXT'', cs_chunks = []\<rparr>"
  have s: "superblob_size ?ctx 10 = 260" by code_simp
  have id: "signature_size ?ctx 10 = 264" by (simp add: signature_size_def s next_multiple_of_def)
  show ?thesis
    unfolding Let_def
    using signature_write_accepted [of "\<lambda>x. take 32 (x @ replicate 32 0)" "\<lambda>x. take 20 (x @ replicate 20 1)" ?ctx ?seg
      "replicate 300 5" "page_hashes (\<lambda>x. take 32 (x @ replicate 32 0)) (take 10 (replicate 300 5))"]
    by (simp add: s id min_def) (force simp: s id)
qed

end
