(* ===== verification/LinkeditTables.thy ===== *)
theory LinkeditTables
  imports Chunks "HOL-Library.Product_Lexorder" "HOL-Library.Multiset"
begin

unbundle bit_operations_syntax

section \<open>Small tables of \<open>__LINKEDIT\<close>\<close>

text \<open>
  The function starts (\<open>chunks/function_starts.rs\<close>), the data-in-code entries
  (\<open>chunks/data_in_code.rs\<close>) and the lazy-load records (\<open>chunks/lazy_load_info.rs\<close>), each with the
  reader its consumers use and the theorem that the reader gets back what was written. The pieces
  of an input section the code asks for are records; the lookup of a subsection by address is a
  parameter.
\<close>

subsection \<open>Function starts\<close>

record fs_isec =
  fi_size :: u32
  fi_offset :: u32
  fi_emitted :: bool
  fi_alive :: bool
  fi_output :: "chunk_header option"

record fs_thunk =
  ft_offset :: u64
  ft_nsyms :: nat

record fs_section =
  fo_hdr :: chunk_header
  fo_members :: "nat list"
  fo_thunks :: "fs_thunk list"

record fs_symbol =
  fy_value :: u64
  fy_in_obj :: bool
  fy_isec :: "nat option"

definition fs_is_code :: "chunk_header \<Rightarrow> bool" where
  "fs_is_code hdr \<longleftrightarrow> ch_flags hdr AND S_ATTR_PURE_INSTRUCTIONS \<noteq> 0"

definition fs_starts :: "u64 \<Rightarrow> fs_isec list \<Rightarrow> fs_section \<Rightarrow> u64 list" where
  "fs_starts thunk_size isecs osec =
     (let base = ch_addr (fo_hdr osec)
      in List.map_filter (\<lambda>id. let isec = isecs ! id in
            if fi_size isec \<noteq> 0 \<and> fi_emitted isec then Some (base + ucast (fi_offset isec)) else None) (fo_members osec)
         @ concat (map (\<lambda>t. map (\<lambda>i. base + ft_offset t + of_nat i * thunk_size) [0..<ft_nsyms t]) (fo_thunks osec)))"

definition fs_label :: "(nat \<Rightarrow> nat) \<Rightarrow> fs_isec list \<Rightarrow> fs_symbol \<Rightarrow> u64 option" where
  "fs_label resolve isecs sy =
     (if fy_value sy = 0 \<or> \<not> fy_in_obj sy then None
      else do { id \<leftarrow> fy_isec sy;
                let isec = isecs ! resolve id;
                osec \<leftarrow> fi_output isec;
                if fi_alive isec \<and> fs_is_code osec \<and> fy_value sy < ucast (fi_size isec)
                then Some (ch_addr osec + ucast (fi_offset isec) + fy_value sy) else None })"

definition fs_addrs :: "u64 \<Rightarrow> (nat \<Rightarrow> nat) \<Rightarrow> fs_isec list \<Rightarrow> fs_section list \<Rightarrow> fs_symbol list \<Rightarrow> u64 list" where
  "fs_addrs thunk_size resolve isecs osecs syms =
     concat (map (fs_starts thunk_size isecs) (filter (\<lambda>o'. fs_is_code (fo_hdr o')) osecs))
     @ List.map_filter (fs_label resolve isecs) syms"

fun fs_deltas :: "u64 \<Rightarrow> u64 list \<Rightarrow> bytes" where
  "fs_deltas prev [] = []"
| "fs_deltas prev (addr # addrs) = encode_uleb (addr - prev) @ fs_deltas addr addrs"

definition fs_encode :: "u64 \<Rightarrow> u64 list \<Rightarrow> bytes" where
  "fs_encode base addrs =
     (if addrs = [] then replicate 8 0
      else pad_to (fs_deltas base (remdups_adj (sort addrs)) @ [0]) 8)"

definition function_starts :: "bool \<Rightarrow> u64 \<Rightarrow> u64 \<Rightarrow> (nat \<Rightarrow> nat) \<Rightarrow> fs_isec list \<Rightarrow> fs_section list \<Rightarrow> fs_symbol list \<Rightarrow> bytes" where
  "function_starts enabled base thunk_size resolve isecs osecs syms =
     (if \<not> enabled then [] else fs_encode base (fs_addrs thunk_size resolve isecs osecs syms))"

text \<open>A debugger's reader: the deltas up to a zero, summed from the image's start.\<close>

function fs_decode :: "u64 \<Rightarrow> bytes \<Rightarrow> u64 list" where
  "fs_decode prev bs =
     (case read_uleb bs of None \<Rightarrow> []
      | Some (d, rest) \<Rightarrow> if d = 0 then [] else (prev + d) # fs_decode (prev + d) rest)"
  by pat_completeness auto
termination
  by (relation "measure (length \<circ> snd)") (auto dest: read_uleb_shorter)

declare fs_decode.simps [simp del]

lemma fs_decode_deltas:
  "sorted_wrt (<) (prev # addrs) \<Longrightarrow> fs_decode prev (fs_deltas prev addrs @ encode_uleb 0 @ pad) = addrs"
proof (induction addrs arbitrary: prev)
  case Nil
  show ?case by (subst fs_decode.simps) (simp add: read_encode_uleb)
next
  case (Cons a addrs)
  then have "a - prev \<noteq> 0" by auto
  with Cons show ?case by (subst fs_decode.simps) (simp add: read_encode_uleb)
qed

lemma encode_uleb_0: "encode_uleb 0 = [0]"
  by (subst encode_uleb.simps) simp

lemma sorted_distinct_less: "sorted xs \<Longrightarrow> distinct xs \<Longrightarrow> sorted_wrt (<) (xs :: 'a::linorder list)"
  by (simp add: strict_sorted_iff)

lemma sorted_remdups_adj_distinct: "sorted xs \<Longrightarrow> sorted_wrt (<) (remdups_adj (xs :: 'a::linorder list))"
proof (induction xs rule: remdups_adj.induct)
  case (3 x y xs)
  show ?case
  proof (cases "x = y")
    case True
    with 3 show ?thesis by simp
  next
    case False
    with 3 have "sorted_wrt (<) (remdups_adj (y # xs))" by simp
    moreover have "\<forall>z\<in>set (remdups_adj (y # xs)). x < z" using 3 False by (auto simp: less_le)
    ultimately show ?thesis using False by simp
  qed
qed simp_all

text \<open>
  C18. A reader of the function starts gets back exactly the distinct addresses, in increasing order;
  the table is a whole number of 8-byte words. Every address lies after the image's start, as the
  header does that is there.
\<close>

theorem function_starts_correct:
  assumes "\<And>a. a \<in> set (fs_addrs thunk_size resolve isecs osecs syms) \<Longrightarrow> base < a"
  shows "fs_decode base (function_starts True base thunk_size resolve isecs osecs syms) =
           sorted_list_of_set (set (fs_addrs thunk_size resolve isecs osecs syms))
         \<and> 8 dvd length (function_starts True base thunk_size resolve isecs osecs syms)"
proof (cases "fs_addrs thunk_size resolve isecs osecs syms = []")
  case True
  have "fs_decode base (replicate 8 0) = []"
    using fs_decode_deltas [of base "[]" "replicate 7 0"] by (simp add: encode_uleb_0 numeral_eq_Suc)
  with True show ?thesis by (simp add: function_starts_def fs_encode_def)
next
  case False
  let ?as = "fs_addrs thunk_size resolve isecs osecs syms"
  let ?ds = "remdups_adj (sort ?as)"
  have s: "sorted_wrt (<) ?ds" by (rule sorted_remdups_adj_distinct) simp
  have "sorted_wrt (<) (base # ?ds)" using s assms by simp
  then have "fs_decode base (fs_deltas base ?ds @ encode_uleb 0 @ pad) = ?ds" for pad by (rule fs_decode_deltas)
  moreover have "?ds = sorted_list_of_set (set ?as)"
    using s by (intro strict_sorted_equal) simp_all
  moreover have e: "function_starts True base thunk_size resolve isecs osecs syms = pad_to (fs_deltas base ?ds @ [0]) 8"
    using False by (simp add: function_starts_def fs_encode_def)
  moreover have "8 dvd length (function_starts True base thunk_size resolve isecs osecs syms)"
    unfolding e by (simp add: next_multiple_of_dvd)
  ultimately show ?thesis by (simp add: pad_to_def encode_uleb_0)
qed

text \<open>One code section at 0x1000 with two pieces, one of them with a thunk island after it and a label in it.\<close>

theorem function_starts_correct_witness:
  "let osec = (chunk_header_new (bstr ''__TEXT'') (bstr ''__text''))\<lparr>ch_addr := 0x1000, ch_flags := 0x80000000\<rparr>;
       isecs = [\<lparr>fi_size = 16, fi_offset = 0, fi_emitted = True, fi_alive = True, fi_output = Some osec\<rparr>,
                \<lparr>fi_size = 32, fi_offset = 16, fi_emitted = True, fi_alive = True, fi_output = Some osec\<rparr>];
       osecs = [\<lparr>fo_hdr = osec, fo_members = [1, 0], fo_thunks = [\<lparr>ft_offset = 48, ft_nsyms = 2\<rparr>]\<rparr>];
       syms = [\<lparr>fy_value = 4, fy_in_obj = True, fy_isec = Some 1\<rparr>, \<lparr>fy_value = 0, fy_in_obj = True, fy_isec = Some 0\<rparr>]
   in fs_decode 0x100 (function_starts True 0x100 12 id isecs osecs syms) = [0x1000, 0x1010, 0x1014, 0x1030, 0x103c]"
proof -
  let ?osec = "(chunk_header_new (bstr ''__TEXT'') (bstr ''__text''))\<lparr>ch_addr := 0x1000, ch_flags := 0x80000000\<rparr>"
  let ?isecs = "[\<lparr>fi_size = 16, fi_offset = 0, fi_emitted = True, fi_alive = True, fi_output = Some ?osec\<rparr>,
                \<lparr>fi_size = 32, fi_offset = 16, fi_emitted = True, fi_alive = True, fi_output = Some ?osec\<rparr>]"
  let ?osecs = "[\<lparr>fo_hdr = ?osec, fo_members = [1, 0], fo_thunks = [\<lparr>ft_offset = 48, ft_nsyms = 2\<rparr>]\<rparr>]"
  let ?syms = "[\<lparr>fy_value = 4, fy_in_obj = True, fy_isec = Some 1\<rparr>, \<lparr>fy_value = 0, fy_in_obj = True, fy_isec = Some 0\<rparr>]"
  have a: "fs_addrs 12 id ?isecs ?osecs ?syms = [0x1010, 0x1000, 0x1030, 0x103c, 0x1014]" by code_simp
  have "fs_decode 0x100 (function_starts True 0x100 12 id ?isecs ?osecs ?syms) = sorted_list_of_set (set (fs_addrs 12 id ?isecs ?osecs ?syms))"
    by (rule function_starts_correct [THEN conjunct1]) (unfold a, auto)
  also have "\<dots> = sort (remdups [0x1010, 0x1000, 0x1030, 0x103c, 0x1014])" unfolding a by (rule sorted_list_of_set_sort_remdups)
  also have "\<dots> = [0x1000, 0x1010, 0x1014, 0x1030, 0x103c]" by simp
  finally show ?thesis by (simp add: Let_def)
qed

subsection \<open>Data in code\<close>

type_synonym dice = "u32 \<times> u16 \<times> u16"

record dice_obj =
  do_reachable :: bool
  do_dice :: "dice list"
  do_find_subsec :: "u64 \<Rightarrow> (nat \<times> u64) option"

fun write_entries_loop :: "nat \<Rightarrow> dice list \<Rightarrow> bytes \<Rightarrow> bytes option" where
  "write_entries_loop p [] buf = Some buf"
| "write_entries_loop p ((off, len, kind) # entries) buf =
     do { buf \<leftarrow> copy_at buf p (le_bytes 4 off);
          buf \<leftarrow> copy_at buf (p + 4) (le_bytes 2 len);
          buf \<leftarrow> copy_at buf (p + 6) (le_bytes 2 kind);
          write_entries_loop (p + 8) entries buf }"

definition write_entries :: "dice list \<Rightarrow> bytes \<Rightarrow> bytes option" where
  "write_entries entries buf = write_entries_loop 0 entries buf"

text \<open>An entry whose subsection is in the image, with the offset within it.\<close>

definition live_entries :: "fs_isec list \<Rightarrow> dice_obj list \<Rightarrow> (fs_isec \<times> u64 \<times> u16 \<times> u16) list" where
  "live_entries isecs objs =
     concat (map (\<lambda>obj. List.map_filter (\<lambda>(off, len, kind).
         do { (id, off_in) \<leftarrow> do_find_subsec obj (ucast off);
              if fi_emitted (isecs ! id) then Some (isecs ! id, off_in, len, kind) else None }) (do_dice obj))
       (filter do_reachable objs))"

text \<open>\<^verbatim>\<open>construct\<close>; \<open>None\<close> is a live subsection in no output section.\<close>

definition dice_entry :: "(chunk_header \<Rightarrow> u64) \<Rightarrow> fs_isec \<times> u64 \<times> u16 \<times> u16 \<Rightarrow> dice option" where
  "dice_entry pos e =
     (case e of (isec, off_in, len, kind) \<Rightarrow>
        do { hdr \<leftarrow> fi_output isec;
             Some (ucast (pos hdr + ucast (fi_offset isec) + off_in), len, kind) })"

definition dice_construct :: "(chunk_header \<Rightarrow> u64) \<Rightarrow> fs_isec list \<Rightarrow> dice_obj list \<Rightarrow> dice list option" where
  "dice_construct pos isecs objs =
     map_option sort (those (map (dice_entry pos) (live_entries isecs objs)))"

definition read_entry :: "bytes \<Rightarrow> nat \<Rightarrow> dice" where
  "read_entry buf p = (from_le (take 4 (drop p buf)), from_le (take 2 (drop (p + 4) buf)), from_le (take 2 (drop (p + 6) buf)))"

definition entry_bytes :: "dice \<Rightarrow> bytes" where
  "entry_bytes e = (case e of (off, len, kind) \<Rightarrow> le_bytes 4 off @ le_bytes 2 len @ le_bytes 2 kind)"

lemma length_entry_bytes: "length (entry_bytes e) = 8"
  by (cases e) (simp add: entry_bytes_def)

lemma copy_at_end: "length pre = p \<Longrightarrow> length old = length new \<Longrightarrow> copy_at (pre @ old @ rest) p new = Some (pre @ new @ rest)"
  by (simp add: copy_at_def)

lemma split_block:
  assumes "n \<le> length rest"
  obtains a b where "rest = a @ b" and "length a = n"
  by (rule that [of "take n rest" "drop n rest"]) (use assms in auto)

lemma write_entries_loop_eq:
  "length pre = p \<Longrightarrow> 8 * length entries \<le> length rest \<Longrightarrow>
   write_entries_loop p entries (pre @ rest) =
     Some (pre @ concat (map entry_bytes entries) @ drop (8 * length entries) rest)"
proof (induction entries arbitrary: p pre rest)
  case Nil
  then show ?case by simp
next
  case (Cons e entries)
  obtain off len kind where e: "e = (off, len, kind)" by (cases e)
  obtain a b where ab: "rest = a @ b" "length a = 8" by (rule split_block [of 8 rest]) (use Cons.prems in auto)
  obtain a1 a' where a1: "a = a1 @ a'" "length a1 = 4" by (rule split_block [of 4 a]) (use ab in auto)
  obtain a2 a3 where a2: "a' = a2 @ a3" "length a2 = 2" by (rule split_block [of 2 a']) (use ab a1 in auto)
  have l3: "length a3 = 2" using ab a1 a2 by simp
  have "write_entries_loop p (e # entries) (pre @ rest) = write_entries_loop (p + 8) entries ((pre @ entry_bytes e) @ b)"
  proof -
    have "copy_at (pre @ a1 @ a2 @ a3 @ b) p (le_bytes 4 off) = Some (pre @ le_bytes 4 off @ a2 @ a3 @ b)"
      using Cons.prems a1 by (intro copy_at_end) auto
    moreover have "copy_at ((pre @ le_bytes 4 off) @ a2 @ a3 @ b) (p + 4) (le_bytes 2 len) = Some ((pre @ le_bytes 4 off) @ le_bytes 2 len @ a3 @ b)"
      using Cons.prems a2 by (intro copy_at_end) auto
    moreover have "copy_at ((pre @ le_bytes 4 off @ le_bytes 2 len) @ a3 @ b) (p + 6) (le_bytes 2 kind) = Some ((pre @ le_bytes 4 off @ le_bytes 2 len) @ le_bytes 2 kind @ b)"
      using Cons.prems l3 by (intro copy_at_end) auto
    ultimately show ?thesis by (simp add: e ab(1) a1(1) a2(1) entry_bytes_def)
  qed
  also have "\<dots> = Some ((pre @ entry_bytes e) @ concat (map entry_bytes entries) @ drop (8 * length entries) b)"
    using Cons.prems ab by (intro Cons.IH) (auto simp: length_entry_bytes)
  finally show ?case using ab by simp
qed

lemma read_entry_nth:
  "i < length entries \<Longrightarrow> read_entry (concat (map entry_bytes entries) @ rest) (8 * i) = entries ! i"
proof (induction entries arbitrary: i)
  case Nil
  then show ?case by simp
next
  case (Cons e entries)
  obtain off len kind where e: "e = (off, len, kind)" by (cases e)
  show ?case
  proof (cases i)
    case 0
    then show ?thesis by (simp add: e read_entry_def entry_bytes_def)
  next
    case (Suc j)
    then have "read_entry (concat (map entry_bytes (e # entries)) @ rest) (8 * i) = read_entry (concat (map entry_bytes entries) @ rest) (8 * j)"
      by (simp add: read_entry_def length_entry_bytes add.commute [of 4] add.commute [of 6])
    then show ?thesis using Cons Suc by simp
  qed
qed

text \<open>
  What becomes of a range that an object lists: it stays when the object is in the link and the
  subsection its address falls in is in the image, at that subsection's place in the output plus the
  offset within it.
\<close>

definition dice_stays :: "(chunk_header \<Rightarrow> u64) \<Rightarrow> fs_isec list \<Rightarrow> dice_obj \<Rightarrow> dice \<Rightarrow> dice \<Rightarrow> bool" where
  "dice_stays pos isecs obj d e \<longleftrightarrow>
     (case d of (off, len, kind) \<Rightarrow>
        do_reachable obj \<and>
        (\<exists>id off_in hdr. do_find_subsec obj (ucast off) = Some (id, off_in) \<and> fi_emitted (isecs ! id) \<and>
           fi_output (isecs ! id) = Some hdr \<and> e = (ucast (pos hdr + ucast (fi_offset (isecs ! id)) + off_in), len, kind)))"

lemma count_map_filter:
  "count (mset (map h (List.map_filter f xs))) y = card {i. i < length xs \<and> (\<exists>z. f (xs ! i) = Some z \<and> h z = y)}"
proof -
  have "count (mset (map h (List.map_filter f xs))) y = length (filter (\<lambda>x. \<exists>z. f x = Some z \<and> h z = y) xs)"
    by (induction xs) (auto simp: List.map_filter_def split: option.splits)
  then show ?thesis by (simp add: length_filter_conv_card)
qed

lemma count_concat: "count (mset (concat xss)) y = (\<Sum>i < length xss. count (mset (xss ! i)) y)"
proof -
  have "count (mset (concat xss)) y = sum_list (map (\<lambda>xs. count (mset xs) y) xss)" by (induction xss) auto
  then show ?thesis by (simp add: sum_list_sum_nth atLeast0LessThan)
qed

lemma dice_count:
  assumes "those (map (dice_entry pos) (live_entries isecs objs)) = Some es"
  shows "count (mset es) e =
    card {(o', d). o' < length objs \<and> d < length (do_dice (objs ! o')) \<and> dice_stays pos isecs (objs ! o') (do_dice (objs ! o') ! d) e}"
proof -
  define f :: "dice_obj \<Rightarrow> dice \<Rightarrow> (fs_isec \<times> u64 \<times> u16 \<times> u16) option" where "f obj = (\<lambda>(off, len, kind). do { (id, off_in) \<leftarrow> do_find_subsec obj (ucast off);
      if fi_emitted (isecs ! id) then Some (isecs ! id, off_in, len, kind) else None })" for obj
  define L where "L obj = (if do_reachable obj then map (dice_entry pos) (List.map_filter (f obj) (do_dice obj)) else [])" for obj
  have all: "map (dice_entry pos) (live_entries isecs objs) = concat (map L objs)"
    unfolding live_entries_def f_def [symmetric] L_def by (induction objs) simp_all
  have one: "count (mset (L obj)) (Some e) = card {d. d < length (do_dice obj) \<and> dice_stays pos isecs obj (do_dice obj ! d) e}" for obj
  proof (cases "do_reachable obj")
    case True
    have "(\<exists>z. f obj x = Some z \<and> dice_entry pos z = Some e) \<longleftrightarrow> dice_stays pos isecs obj x e" for x
    proof -
      obtain off len kind where x: "x = (off, len, kind)" by (cases x)
      show ?thesis
      proof (cases "do_find_subsec obj (ucast off)")
        case (Some p)
        then show ?thesis
          using True by (cases p) (auto simp: x f_def dice_entry_def dice_stays_def bind_eq_Some_conv)
      qed (simp add: x f_def dice_stays_def)
    qed
    then show ?thesis unfolding L_def if_P [OF True] count_map_filter by (simp only:)
  next
    case False
    then show ?thesis by (simp add: L_def dice_stays_def split: prod.splits)
  qed
  have "count (mset es) e = count (mset (map Some es)) (Some e)"
    by (induction es) auto
  also have "\<dots> = (\<Sum>o' < length objs. count (mset (L (objs ! o'))) (Some e))"
    unfolding those_Some [OF assms, symmetric] all by (simp add: count_concat)
  also have "\<dots> = card (SIGMA o' : {..<length objs}. {d. d < length (do_dice (objs ! o')) \<and> dice_stays pos isecs (objs ! o') (do_dice (objs ! o') ! d) e})"
    by (subst card_SigmaI) (simp_all add: one)
  also have "(SIGMA o' : {..<length objs}. {d. d < length (do_dice (objs ! o')) \<and> dice_stays pos isecs (objs ! o') (do_dice (objs ! o') ! d) e}) =
      {(o', d). o' < length objs \<and> d < length (do_dice (objs ! o')) \<and> dice_stays pos isecs (objs ! o') (do_dice (objs ! o') ! d) e}"
    by auto
  finally show ?thesis .
qed

text \<open>
  C20. The entries are sorted, and each occurs once for each range of an object in the link whose
  subsection is in the image, placed where that subsection is; no other range has one. The bytes
  written read back as the entries, and the rest of the buffer stays.
\<close>

theorem dice_round_trip:
  assumes "dice_construct pos isecs objs = Some entries" and "8 * length entries \<le> length buf"
  shows "sorted entries \<and>
    (\<forall>e. count (mset entries) e =
       card {(o', d). o' < length objs \<and> d < length (do_dice (objs ! o')) \<and> dice_stays pos isecs (objs ! o') (do_dice (objs ! o') ! d) e}) \<and>
    (\<exists>out. write_entries entries buf = Some out \<and> length out = length buf \<and>
       drop (8 * length entries) out = drop (8 * length entries) buf \<and>
       map (\<lambda>i. read_entry out (8 * i)) [0..<length entries] = entries)"
proof -
  obtain es where es: "those (map (dice_entry pos) (live_entries isecs objs)) = Some es" and s: "entries = sort es"
    using assms(1) by (auto simp: dice_construct_def)
  have w: "write_entries entries buf = Some (concat (map entry_bytes entries) @ drop (8 * length entries) buf)"
    using write_entries_loop_eq [of "[]" 0 entries buf] assms(2) by (simp add: write_entries_def)
  moreover have l: "length (concat (map entry_bytes entries)) = 8 * length entries"
    by (simp add: length_concat length_entry_bytes comp_def sum_list_triv)
  moreover have "map (\<lambda>i. read_entry (concat (map entry_bytes entries) @ rest) (8 * i)) [0..<length entries] = entries" for rest
    by (rule nth_equalityI) (simp_all add: read_entry_nth)
  ultimately show ?thesis using assms(2) s dice_count [OF es] by (auto simp: sorted_sort)
qed

theorem dice_round_trip_witness:
  "let hdr = (chunk_header_new (bstr ''__TEXT'') (bstr ''__text''))\<lparr>ch_fileoff := 0x1000\<rparr>;
       isecs = [\<lparr>fi_size = 16, fi_offset = 0x20, fi_emitted = True, fi_alive = True, fi_output = Some hdr\<rparr>,
                \<lparr>fi_size = 16, fi_offset = 0, fi_emitted = False, fi_alive = True, fi_output = Some hdr\<rparr>];
       objs = [\<lparr>do_reachable = True, do_dice = [(8, 4, 1), (0x40, 4, 1), (4, 4, 2)],
                 do_find_subsec = (\<lambda>a. if a < 0x40 then Some (0, a) else Some (1, a - 0x40))\<rparr>,
               \<lparr>do_reachable = False, do_dice = [(1, 1, 1)], do_find_subsec = (\<lambda>a. Some (0, a))\<rparr>];
       out = the (write_entries [(0x1024, 4, 2), (0x1028, 4, 1)] (replicate 20 9))
   in dice_construct ch_fileoff isecs objs = Some [(0x1024, 4, 2), (0x1028, 4, 1)] \<and>
      map (\<lambda>i. read_entry out (8 * i)) [0..<2] = [(0x1024, 4, 2), (0x1028, 4, 1)]"
proof -
  let ?hdr = "(chunk_header_new (bstr ''__TEXT'') (bstr ''__text''))\<lparr>ch_fileoff := 0x1000\<rparr>"
  let ?isecs = "[\<lparr>fi_size = 16, fi_offset = 0x20, fi_emitted = True, fi_alive = True, fi_output = Some ?hdr\<rparr>,
                \<lparr>fi_size = 16, fi_offset = 0, fi_emitted = False, fi_alive = True, fi_output = Some ?hdr\<rparr>]"
  let ?objs = "[\<lparr>do_reachable = True, do_dice = [(8, 4, 1), (0x40, 4, 1), (4, 4, 2)],
                 do_find_subsec = (\<lambda>a. if a < 0x40 then Some (0, a) else Some (1, a - 0x40))\<rparr>,
               \<lparr>do_reachable = False, do_dice = [(1, 1, 1)], do_find_subsec = (\<lambda>a. Some (0, a))\<rparr>]"
  have c: "dice_construct ch_fileoff ?isecs ?objs = Some [(0x1024, 4, 2), (0x1028, 4, 1)]" by code_simp
  show ?thesis
    using dice_round_trip [OF c, of "replicate 20 9"] c unfolding Let_def by (auto simp: numeral_2_eq_2)
qed

subsection \<open>Lazy-load records\<close>

record lazy_dylib =
  ld_install_name :: bytes
  ld_is_weak :: bool
  ld_flag_addr :: u64
  ld_got_addr :: u64
  ld_names :: "bytes list"
  ld_offset :: nat
  ld_size :: nat

definition record_size :: "bytes \<Rightarrow> bytes list \<Rightarrow> nat" where
  "record_size install_name names =
     next_multiple_of (24 + length names * 4 + length install_name + 1 + sum_list (map (\<lambda>n. length n + 1) names)) 8"

fun put_words :: "nat \<Rightarrow> u32 list \<Rightarrow> bytes \<Rightarrow> bytes option" where
  "put_words i [] rec = Some rec"
| "put_words i (w # ws) rec = do { rec \<leftarrow> copy_at rec (i * 4) (le_bytes 4 w); put_words (i + 1) ws rec }"

text \<open>The closure \<open>put\<close>: the string goes to \<open>strs\<close>, which moves past it and its NUL.\<close>

definition ld_put :: "nat \<Rightarrow> bytes \<Rightarrow> bytes \<Rightarrow> (bytes \<times> nat \<times> u32) option" where
  "ld_put strs rec s =
     do { rec \<leftarrow> copy_at rec strs s; Some (rec, strs + length s + 1, of_nat strs) }"

fun ld_names_loop :: "nat \<Rightarrow> nat \<Rightarrow> bytes list \<Rightarrow> bytes \<Rightarrow> bytes option" where
  "ld_names_loop i strs [] rec = Some rec"
| "ld_names_loop i strs (s # ss) rec =
     do { (rec, strs, off) \<leftarrow> ld_put strs rec s;
          rec \<leftarrow> copy_at rec (24 + i * 4) (le_bytes 4 off);
          ld_names_loop (i + 1) strs ss rec }"

definition write_record :: "u64 \<Rightarrow> lazy_dylib \<Rightarrow> bytes \<Rightarrow> bytes option" where
  "write_record base d rec =
     (let nsyms = length (ld_names d);
          strs = 24 + nsyms * 4;
          format = push_bit 16 (ucast (DYLD_CHAINED_PTR_64_OFFSET :: u16)) OR (if ld_is_weak d then 1 else 0)
      in do { rec \<leftarrow> put_words 0 [of_nat strs, ucast (ld_flag_addr d - base), format, ucast (ld_got_addr d - base),
                                 of_nat nsyms, 24] rec;
              (rec, strs, _) \<leftarrow> ld_put strs rec (ld_install_name d);
              ld_names_loop 0 strs (ld_names d) rec })"

fun lazy_load_copy :: "u64 \<Rightarrow> lazy_dylib list \<Rightarrow> bytes \<Rightarrow> bytes option" where
  "lazy_load_copy base [] buf = Some buf"
| "lazy_load_copy base (d # ds) buf =
     do { rec \<leftarrow> slice_at buf (ld_offset d) (ld_size d);
          rec \<leftarrow> write_record base d rec;
          buf \<leftarrow> copy_at buf (ld_offset d) rec;
          lazy_load_copy base ds buf }"

text \<open>The offsets of the names, and the bytes of a record.\<close>

fun ld_offsets :: "nat \<Rightarrow> bytes list \<Rightarrow> u32 list" where
  "ld_offsets strs [] = []"
| "ld_offsets strs (s # ss) = of_nat strs # ld_offsets (strs + length s + 1) ss"

abbreviation word_list :: "u32 list \<Rightarrow> bytes" where
  "word_list ws \<equiv> concat (map (le_bytes 4) ws)"

abbreviation cstrs :: "bytes list \<Rightarrow> bytes" where
  "cstrs ss \<equiv> concat (map (\<lambda>s. s @ [0]) ss)"

lemma length_word_list: "length (word_list ws) = 4 * length ws"
  by (induction ws) auto

lemma length_ld_offsets: "length (ld_offsets strs ss) = length ss"
  by (induction ss arbitrary: strs) auto

lemma length_cstrs: "length (cstrs ss) = sum_list (map (\<lambda>n. length n + 1) ss)"
  by (induction ss) auto

lemma zeros_split: "n \<le> m \<Longrightarrow> replicate m 0 = replicate n 0 @ replicate (m - n) 0"
  by (simp flip: replicate_add)

lemma put_words_eq:
  "length dn = i * 4 \<Longrightarrow> 4 * length ws \<le> m \<Longrightarrow>
   put_words i ws (dn @ replicate m 0) = Some (dn @ word_list ws @ replicate (m - 4 * length ws) 0)"
proof (induction ws arbitrary: i dn m)
  case Nil
  then show ?case by simp
next
  case (Cons w ws)
  have "copy_at (dn @ replicate 4 0 @ replicate (m - 4) 0) (i * 4) (le_bytes 4 w) = Some (dn @ le_bytes 4 w @ replicate (m - 4) 0)"
    using Cons.prems by (intro copy_at_end) auto
  then have "put_words i (w # ws) (dn @ replicate m 0) = put_words (i + 1) ws ((dn @ le_bytes 4 w) @ replicate (m - 4) 0)"
    using zeros_split [of 4 m, where 'a = u8] Cons.prems by simp
  also have "\<dots> = Some ((dn @ le_bytes 4 w) @ word_list ws @ replicate (m - 4 - 4 * length ws) 0)"
    using Cons.prems by (intro Cons.IH) auto
  finally show ?case by simp
qed

lemma ld_put_eq:
  assumes "length pre = strs" and "length s + 1 \<le> m"
  shows "ld_put strs (pre @ replicate m 0) s = Some (pre @ s @ [0] @ replicate (m - (length s + 1)) 0, strs + length s + 1, of_nat strs)"
proof -
  have "copy_at (pre @ replicate (length s) 0 @ replicate (m - length s) 0) strs s = Some (pre @ s @ replicate (m - length s) 0)"
    using assms by (intro copy_at_end) auto
  moreover have "replicate (m - length s) 0 = [0] @ replicate (m - (length s + 1)) (0 :: u8)"
    using zeros_split [of 1 "m - length s", where 'a = u8] assms(2) by simp
  ultimately show ?thesis using zeros_split [of "length s" m, where 'a = u8] assms(2) by (simp add: ld_put_def)
qed

lemma ld_names_loop_eq:
  "length H = 24 \<Longrightarrow> length dn = 4 * i \<Longrightarrow> strs = 24 + 4 * i + 4 * length ss + length S \<Longrightarrow>
   length (cstrs ss) \<le> m \<Longrightarrow>
   ld_names_loop i strs ss (H @ dn @ replicate (4 * length ss) 0 @ S @ replicate m 0) =
     Some (H @ dn @ word_list (ld_offsets strs ss) @ S @ cstrs ss @ replicate (m - length (cstrs ss)) 0)"
proof (induction ss arbitrary: i strs dn S m)
  case Nil
  then show ?case by simp
next
  case (Cons s ss)
  let ?z = "replicate (4 * length ss) 0 :: bytes" and ?m = "m - (length s + 1)"
  have p: "ld_put strs ((H @ dn @ replicate (4 * length (s # ss)) 0 @ S) @ replicate m 0) s =
      Some ((H @ dn @ replicate (4 * length (s # ss)) 0 @ S) @ s @ [0] @ replicate ?m 0, strs + length s + 1, of_nat strs)"
    using Cons.prems by (intro ld_put_eq) auto
  have z: "replicate (4 * length (s # ss)) 0 = replicate 4 0 @ ?z" by (simp flip: replicate_add)
  have c: "copy_at ((H @ dn) @ replicate 4 0 @ (?z @ S @ s @ [0] @ replicate ?m 0)) (24 + i * 4) (le_bytes 4 (of_nat strs :: u32)) =
      Some ((H @ dn) @ le_bytes 4 (of_nat strs :: u32) @ (?z @ S @ s @ [0] @ replicate ?m 0))"
    using Cons.prems by (intro copy_at_end) auto
  have "ld_names_loop i strs (s # ss) (H @ dn @ replicate (4 * length (s # ss)) 0 @ S @ replicate m 0) =
      ld_names_loop (i + 1) (strs + length s + 1) ss (H @ (dn @ le_bytes 4 (of_nat strs :: u32)) @ ?z @ (S @ s @ [0]) @ replicate ?m 0)"
    using p c unfolding z by simp
  also have "\<dots> = Some (H @ (dn @ le_bytes 4 (of_nat strs :: u32)) @ word_list (ld_offsets (strs + length s + 1) ss)
      @ (S @ s @ [0]) @ cstrs ss @ replicate (?m - length (cstrs ss)) 0)"
    using Cons.prems by (intro Cons.IH) auto
  finally show ?case by simp
qed

definition word_at :: "bytes \<Rightarrow> nat \<Rightarrow> u32" where
  "word_at rec i = from_le (take 4 (drop (4 * i) rec))"

lemma word_at_list: "i < length ws \<Longrightarrow> word_at (word_list ws @ rest) i = ws ! i"
proof (induction ws arbitrary: i)
  case (Cons w ws)
  then show ?case by (cases i) (simp_all add: word_at_def)
qed simp

lemma read_cstr_at_offset:
  "length pre = strs \<Longrightarrow> \<forall>s \<in> set ss. 0 \<notin> set s \<Longrightarrow> strs + length (cstrs ss) < 2 ^ 32 \<Longrightarrow> i < length ss \<Longrightarrow>
   map_option fst (read_cstr (drop (unat (ld_offsets strs ss ! i)) (pre @ cstrs ss @ rest))) = Some (ss ! i)"
proof (induction ss arbitrary: pre strs i)
  case Nil
  then show ?case by simp
next
  case (Cons s ss)
  show ?case
  proof (cases i)
    case 0
    have "unat (of_nat strs :: u32) = strs" using Cons.prems by (simp add: unat_of_nat take_bit_nat_eq_self)
    then show ?thesis using Cons.prems 0 by (simp add: read_cstr_append)
  next
    case (Suc j)
    have "map_option fst (read_cstr (drop (unat (ld_offsets (strs + length s + 1) ss ! j)) ((pre @ s @ [0]) @ cstrs ss @ rest))) = Some (ss ! j)"
      using Cons.prems Suc by (intro Cons.IH) auto
    then show ?thesis using Suc by simp
  qed
qed

text \<open>
  C21. A lazy-load record, written into its zeroed place, tells \<open>dyld\<close> what it needs: the header
  words, the install name at the offset the first word gives, and each symbol's name at the offset in
  its slot of the array. The record takes exactly the size \<open>record_size\<close> gives.
\<close>

theorem lazy_record_reads_back:
  assumes small: "record_size (ld_install_name d) (ld_names d) < 2 ^ 32"
    and nul: "\<forall>s \<in> set (ld_install_name d # ld_names d). 0 \<notin> set s"
  shows "\<exists>rec. write_record base d (replicate (record_size (ld_install_name d) (ld_names d)) 0) = Some rec
    \<and> length rec = record_size (ld_install_name d) (ld_names d) \<and> 8 dvd length rec
    \<and> unat (word_at rec 4) = length (ld_names d)
    \<and> word_at rec 1 = ucast (ld_flag_addr d - base) \<and> word_at rec 3 = ucast (ld_got_addr d - base)
    \<and> word_at rec 2 = (if ld_is_weak d then 0x60001 else 0x60000)
    \<and> map_option fst (read_cstr (drop (unat (word_at rec 0)) rec)) = Some (ld_install_name d)
    \<and> map (\<lambda>i. map_option fst (read_cstr (drop (unat (word_at rec (unat (word_at rec 5) div 4 + i))) rec))) [0..<length (ld_names d)]
        = map Some (ld_names d)"
proof -
  let ?n = "length (ld_names d)" and ?inst = "ld_install_name d" and ?sz = "record_size (ld_install_name d) (ld_names d)"
  let ?strs = "24 + ?n * 4" and ?all = "ld_install_name d # ld_names d"
  define fmt :: u32 where "fmt = (if ld_is_weak d then 0x60001 else 0x60000)"
  define hdr :: "u32 list" where "hdr = [of_nat ?strs, ucast (ld_flag_addr d - base), fmt, ucast (ld_got_addr d - base), of_nat ?n, 24]"
  define total where "total = 24 + ?n * 4 + length ?inst + 1 + length (cstrs (ld_names d))"
  have sz: "?sz = next_multiple_of total 8" by (simp add: record_size_def total_def length_cstrs)
  then have ge: "total \<le> ?sz" by (simp add: next_multiple_of_ge)
  let ?offs = "ld_offsets (?strs + length ?inst + 1) (ld_names d)"
  define rec where "rec = word_list hdr @ word_list ?offs @ (?inst @ [0]) @ cstrs (ld_names d) @ replicate (?sz - total) 0"
  have "write_record base d (replicate ?sz 0) = Some rec"
  proof -
    have f: "push_bit 16 (ucast (DYLD_CHAINED_PTR_64_OFFSET :: u16)) OR (if ld_is_weak d then 1 else 0) = fmt"
      by (simp add: fmt_def)
    have w: "put_words 0 hdr (replicate ?sz 0) = Some (word_list hdr @ replicate (?sz - 24) 0)"
      using put_words_eq [of "[]" 0 hdr ?sz] ge by (simp add: hdr_def total_def)
    have z: "replicate (?sz - 24) 0 = replicate (4 * ?n) 0 @ replicate (?sz - 24 - 4 * ?n) (0 :: u8)"
      using ge by (intro zeros_split) (simp add: total_def)
    have p: "ld_put ?strs ((word_list hdr @ replicate (4 * ?n) 0) @ replicate (?sz - 24 - 4 * ?n) 0) ?inst =
        Some ((word_list hdr @ replicate (4 * ?n) 0) @ ?inst @ [0] @ replicate (?sz - 24 - 4 * ?n - (length ?inst + 1)) 0,
          ?strs + length ?inst + 1, of_nat ?strs)"
      using ge by (intro ld_put_eq) (simp_all add: hdr_def total_def)
    have l: "ld_names_loop 0 (?strs + length ?inst + 1) (ld_names d)
        (word_list hdr @ [] @ replicate (4 * ?n) 0 @ (?inst @ [0]) @ replicate (?sz - 24 - 4 * ?n - (length ?inst + 1)) 0) =
        Some (word_list hdr @ [] @ word_list ?offs @ (?inst @ [0]) @ cstrs (ld_names d)
          @ replicate (?sz - 24 - 4 * ?n - (length ?inst + 1) - length (cstrs (ld_names d))) 0)"
      using ge by (intro ld_names_loop_eq) (simp_all add: hdr_def total_def)
    have t: "?sz - 24 - 4 * ?n - (length ?inst + 1) - length (cstrs (ld_names d)) = ?sz - total"
      by (simp add: total_def)
    show ?thesis
      using w p l unfolding write_record_def Let_def f hdr_def [symmetric] z t by (simp add: rec_def)
  qed
  moreover have lr: "length rec = ?sz"
    using ge by (simp add: rec_def length_word_list length_ld_offsets hdr_def total_def length_cstrs)
  moreover have "8 dvd length rec" unfolding lr sz by (rule next_multiple_of_dvd)
  moreover have h: "word_at rec i = hdr ! i" if "i < 6" for i
    unfolding rec_def by (rule word_at_list) (use that in \<open>simp add: hdr_def\<close>)
  moreover have small': "total < 2 ^ 32" using ge small by simp
  then have u: "unat (of_nat ?strs :: u32) = ?strs" "unat (of_nat ?n :: u32) = ?n"
    by (simp_all add: unat_of_nat take_bit_nat_eq_self total_def del: of_nat_add of_nat_mult)
  have offs: "ld_offsets ?strs ?all = of_nat ?strs # ?offs" by simp
  have str: "map_option fst (read_cstr (drop (unat (ld_offsets ?strs ?all ! i)) rec)) = Some (?all ! i)" if "i \<le> ?n" for i
  proof -
    have "rec = (word_list hdr @ word_list ?offs) @ cstrs ?all @ replicate (?sz - total) 0" by (simp add: rec_def)
    then show ?thesis
      using that nul small' by (simp only:) (rule read_cstr_at_offset, simp_all add: hdr_def length_word_list length_ld_offsets total_def)
  qed
  have s0: "map_option fst (read_cstr (drop (unat (word_at rec 0)) rec)) = Some ?inst"
    using str [of 0] h [of 0] u by (simp add: hdr_def)
  have off: "word_at rec (6 + i) = ?offs ! i" if "i < ?n" for i
  proof -
    have "rec = word_list (hdr @ ?offs) @ (?inst @ [0]) @ cstrs (ld_names d) @ replicate (?sz - total) 0" by (simp add: rec_def)
    moreover have "word_at (word_list (hdr @ ?offs) @ x) (6 + i) = (hdr @ ?offs) ! (6 + i)" for x
      by (rule word_at_list) (use that in \<open>simp add: hdr_def length_ld_offsets\<close>)
    ultimately show ?thesis by (simp add: nth_append hdr_def)
  qed
  have names: "map (\<lambda>i. map_option fst (read_cstr (drop (unat (word_at rec (6 + i))) rec))) [0..<?n] = map Some (ld_names d)"
  proof (rule nth_equalityI)
    fix i assume "i < length (map (\<lambda>i. map_option fst (read_cstr (drop (unat (word_at rec (6 + i))) rec))) [0..<?n])"
    then have i: "i < ?n" by simp
    then show "map (\<lambda>i. map_option fst (read_cstr (drop (unat (word_at rec (6 + i))) rec))) [0..<?n] ! i = map Some (ld_names d) ! i"
      using str [of "Suc i"] off [OF i] by simp
  qed simp
  have w5: "unat (word_at rec 5) div 4 = 6" using h [of 5] by (simp add: hdr_def)
  ultimately show ?thesis
    using s0 names u h [of 1] h [of 2] h [of 3] h [of 4] by (intro exI [of _ rec]) (simp add: hdr_def fmt_def w5)
qed

theorem lazy_record_reads_back_witness:
  "let d = \<lparr>ld_install_name = bstr ''/lib/a'', ld_is_weak = True, ld_flag_addr = 0x2000, ld_got_addr = 0x3000,
            ld_names = [bstr ''_f'', bstr ''_gg''], ld_offset = 0, ld_size = 48\<rparr>
   in \<exists>rec. write_record 0x1000 d (replicate 48 0) = Some rec \<and>
        map_option fst (read_cstr (drop (unat (word_at rec 0)) rec)) = Some (bstr ''/lib/a'') \<and>
        map (\<lambda>i. map_option fst (read_cstr (drop (unat (word_at rec (unat (word_at rec 5) div 4 + i))) rec))) [0..<2]
          = map Some [bstr ''_f'', bstr ''_gg'']"
proof -
  let ?d = "\<lparr>ld_install_name = bstr ''/lib/a'', ld_is_weak = True, ld_flag_addr = 0x2000, ld_got_addr = 0x3000,
            ld_names = [bstr ''_f'', bstr ''_gg''], ld_offset = 0, ld_size = 48\<rparr>"
  have s: "record_size (bstr ''/lib/a'') [bstr ''_f'', bstr ''_gg''] = 48" by code_simp
  have n: "\<forall>s\<in>set [bstr ''/lib/a'', bstr ''_f'', bstr ''_gg'']. 0 \<notin> set s" by code_simp
  obtain rec where r: "write_record 0x1000 ?d (replicate 48 0) = Some rec"
    "map_option fst (read_cstr (drop (unat (word_at rec 0)) rec)) = Some (bstr ''/lib/a'')"
    "map (\<lambda>i. map_option fst (read_cstr (drop (unat (word_at rec (unat (word_at rec 5) div 4 + i))) rec))) [0..<length [bstr ''_f'', bstr ''_gg'']]
          = map Some [bstr ''_f'', bstr ''_gg'']"
    using lazy_record_reads_back [of ?d "0x1000"] s n by auto
  have l: "length [bstr ''_f'', bstr ''_gg''] = 2" by simp
  show ?thesis unfolding Let_def using r(1,2) r(3) [unfolded l] by (intro exI [of _ rec] conjI)
qed

end
