(* ===== verification/Dwarf.thy ===== *)
theory Dwarf
  imports Macho Sleb
begin

unbundle bit_operations_syntax

section \<open>The DWARF reader (\<open>macho/dwarf.rs\<close>)\<close>

text \<open>
  The reader over a section's bytes, attribute values by their form, the search of an abbreviation
  table, and the name and directory of an object's first compile unit. Every \<open>?\<close> of the source is a
  branch to \<open>None\<close>. The interface \<open>field_reader\<close> is what the composite readers rely on: a read at an
  encoded field returns the field and stops right behind it.
\<close>

abbreviation (input) DW_TAG_COMPILE_UNIT :: u64 where "DW_TAG_COMPILE_UNIT \<equiv> 0x11"

abbreviation (input) DW_AT_NAME :: u64 where "DW_AT_NAME \<equiv> 0x03"

abbreviation (input) DW_AT_COMP_DIR :: u64 where "DW_AT_COMP_DIR \<equiv> 0x1b"

abbreviation (input) DW_AT_STR_OFFSETS_BASE :: u64 where "DW_AT_STR_OFFSETS_BASE \<equiv> 0x72"

abbreviation (input) DW_FORM_ADDR :: u64 where "DW_FORM_ADDR \<equiv> 0x01"

abbreviation (input) DW_FORM_BLOCK2 :: u64 where "DW_FORM_BLOCK2 \<equiv> 0x03"

abbreviation (input) DW_FORM_BLOCK4 :: u64 where "DW_FORM_BLOCK4 \<equiv> 0x04"

abbreviation (input) DW_FORM_DATA2 :: u64 where "DW_FORM_DATA2 \<equiv> 0x05"

abbreviation (input) DW_FORM_DATA4 :: u64 where "DW_FORM_DATA4 \<equiv> 0x06"

abbreviation (input) DW_FORM_DATA8 :: u64 where "DW_FORM_DATA8 \<equiv> 0x07"

abbreviation (input) DW_FORM_STRING :: u64 where "DW_FORM_STRING \<equiv> 0x08"

abbreviation (input) DW_FORM_BLOCK :: u64 where "DW_FORM_BLOCK \<equiv> 0x09"

abbreviation (input) DW_FORM_BLOCK1 :: u64 where "DW_FORM_BLOCK1 \<equiv> 0x0a"

abbreviation (input) DW_FORM_DATA1 :: u64 where "DW_FORM_DATA1 \<equiv> 0x0b"

abbreviation (input) DW_FORM_FLAG :: u64 where "DW_FORM_FLAG \<equiv> 0x0c"

abbreviation (input) DW_FORM_SDATA :: u64 where "DW_FORM_SDATA \<equiv> 0x0d"

abbreviation (input) DW_FORM_STRP :: u64 where "DW_FORM_STRP \<equiv> 0x0e"

abbreviation (input) DW_FORM_UDATA :: u64 where "DW_FORM_UDATA \<equiv> 0x0f"

abbreviation (input) DW_FORM_REF_ADDR :: u64 where "DW_FORM_REF_ADDR \<equiv> 0x10"

abbreviation (input) DW_FORM_REF1 :: u64 where "DW_FORM_REF1 \<equiv> 0x11"

abbreviation (input) DW_FORM_REF2 :: u64 where "DW_FORM_REF2 \<equiv> 0x12"

abbreviation (input) DW_FORM_REF4 :: u64 where "DW_FORM_REF4 \<equiv> 0x13"

abbreviation (input) DW_FORM_REF8 :: u64 where "DW_FORM_REF8 \<equiv> 0x14"

abbreviation (input) DW_FORM_REF_UDATA :: u64 where "DW_FORM_REF_UDATA \<equiv> 0x15"

abbreviation (input) DW_FORM_INDIRECT :: u64 where "DW_FORM_INDIRECT \<equiv> 0x16"

abbreviation (input) DW_FORM_SEC_OFFSET :: u64 where "DW_FORM_SEC_OFFSET \<equiv> 0x17"

abbreviation (input) DW_FORM_EXPRLOC :: u64 where "DW_FORM_EXPRLOC \<equiv> 0x18"

abbreviation (input) DW_FORM_FLAG_PRESENT :: u64 where "DW_FORM_FLAG_PRESENT \<equiv> 0x19"

abbreviation (input) DW_FORM_STRX :: u64 where "DW_FORM_STRX \<equiv> 0x1a"

abbreviation (input) DW_FORM_ADDRX :: u64 where "DW_FORM_ADDRX \<equiv> 0x1b"

abbreviation (input) DW_FORM_REF_SUP4 :: u64 where "DW_FORM_REF_SUP4 \<equiv> 0x1c"

abbreviation (input) DW_FORM_STRP_SUP :: u64 where "DW_FORM_STRP_SUP \<equiv> 0x1d"

abbreviation (input) DW_FORM_DATA16 :: u64 where "DW_FORM_DATA16 \<equiv> 0x1e"

abbreviation (input) DW_FORM_LINE_STRP :: u64 where "DW_FORM_LINE_STRP \<equiv> 0x1f"

abbreviation (input) DW_FORM_REF_SIG8 :: u64 where "DW_FORM_REF_SIG8 \<equiv> 0x20"

abbreviation (input) DW_FORM_IMPLICIT_CONST :: u64 where "DW_FORM_IMPLICIT_CONST \<equiv> 0x21"

abbreviation (input) DW_FORM_LOCLISTX :: u64 where "DW_FORM_LOCLISTX \<equiv> 0x22"

abbreviation (input) DW_FORM_RNGLISTX :: u64 where "DW_FORM_RNGLISTX \<equiv> 0x23"

abbreviation (input) DW_FORM_REF_SUP8 :: u64 where "DW_FORM_REF_SUP8 \<equiv> 0x24"

abbreviation (input) DW_FORM_STRX1 :: u64 where "DW_FORM_STRX1 \<equiv> 0x25"

abbreviation (input) DW_FORM_STRX2 :: u64 where "DW_FORM_STRX2 \<equiv> 0x26"

abbreviation (input) DW_FORM_STRX3 :: u64 where "DW_FORM_STRX3 \<equiv> 0x27"

abbreviation (input) DW_FORM_STRX4 :: u64 where "DW_FORM_STRX4 \<equiv> 0x28"

abbreviation (input) DW_FORM_ADDRX1 :: u64 where "DW_FORM_ADDRX1 \<equiv> 0x29"

abbreviation (input) DW_FORM_ADDRX2 :: u64 where "DW_FORM_ADDRX2 \<equiv> 0x2a"

abbreviation (input) DW_FORM_ADDRX3 :: u64 where "DW_FORM_ADDRX3 \<equiv> 0x2b"

abbreviation (input) DW_FORM_ADDRX4 :: u64 where "DW_FORM_ADDRX4 \<equiv> 0x2c"

subsection \<open>The reader\<close>

record reader =
  rd_data :: bytes
  rd_pos :: nat

definition rd_take :: "nat \<Rightarrow> reader \<Rightarrow> (bytes \<times> reader) option" where
  "rd_take n r = map_option (\<lambda>bs. (bs, r\<lparr>rd_pos := rd_pos r + n\<rparr>)) (slice_at (rd_data r) (rd_pos r) n)"

definition rd_u8 :: "reader \<Rightarrow> (u8 \<times> reader) option" where
  "rd_u8 r = map_option (\<lambda>(bs, r). (hd bs, r)) (rd_take 1 r)"

definition rd_u16 :: "reader \<Rightarrow> (u16 \<times> reader) option" where
  "rd_u16 r = map_option (\<lambda>(bs, r). (from_le bs, r)) (rd_take 2 r)"

definition rd_u32 :: "reader \<Rightarrow> (u32 \<times> reader) option" where
  "rd_u32 r = map_option (\<lambda>(bs, r). (from_le bs, r)) (rd_take 4 r)"

definition rd_u64 :: "reader \<Rightarrow> (u64 \<times> reader) option" where
  "rd_u64 r = map_option (\<lambda>(bs, r). (from_le bs, r)) (rd_take 8 r)"

lemma rd_u8_progress: "rd_u8 r = Some (b, r') \<Longrightarrow> length (rd_data r') - rd_pos r' < length (rd_data r) - rd_pos r"
  by (auto simp: rd_u8_def rd_take_def slice_at_def split: if_splits)

function rd_uleb_loop :: "u64 \<Rightarrow> nat \<Rightarrow> reader \<Rightarrow> (u64 \<times> reader) option" where
  "rd_uleb_loop val shift r =
     (case rd_u8 r of None \<Rightarrow> None
      | Some (b, r) \<Rightarrow>
          let val = (if shift < 64 then val OR push_bit shift (ucast (b AND 0x7f)) else val);
              shift = shift + 7
          in if b AND 0x80 = 0 then Some (val, r) else rd_uleb_loop val shift r)"
  by pat_completeness auto
termination
  by (relation "measure (\<lambda>(_, _, r). length (rd_data r) - rd_pos r)") (auto dest: rd_u8_progress)

definition rd_uleb :: "reader \<Rightarrow> (u64 \<times> reader) option" where
  "rd_uleb r = rd_uleb_loop 0 0 r"

function rd_sleb_loop :: "u64 \<Rightarrow> nat \<Rightarrow> reader \<Rightarrow> (u64 \<times> reader) option" where
  "rd_sleb_loop val shift r =
     (case rd_u8 r of None \<Rightarrow> None
      | Some (b, r) \<Rightarrow>
          let val = (if shift < 64 then val OR push_bit shift (ucast (b AND 0x7f)) else val);
              shift = shift + 7
          in if b AND 0x80 = 0 then
               Some (if shift < 64 \<and> b AND 0x40 \<noteq> 0 then val OR push_bit shift (- 1) else val, r)
             else rd_sleb_loop val shift r)"
  by pat_completeness auto
termination
  by (relation "measure (\<lambda>(_, _, r). length (rd_data r) - rd_pos r)") (auto dest: rd_u8_progress)

definition rd_sleb :: "reader \<Rightarrow> (u64 \<times> reader) option" where
  "rd_sleb r = rd_sleb_loop 0 0 r"

definition rd_skip :: "nat \<Rightarrow> reader \<Rightarrow> reader option" where
  "rd_skip n r = map_option snd (rd_take n r)"

definition rd_cstr :: "reader \<Rightarrow> (bytes \<times> reader) option" where
  "rd_cstr r =
     do { rest \<leftarrow> slice_from (rd_data r) (rd_pos r);
          n \<leftarrow> position (\<lambda>b. b = 0) rest;
          Some (take n rest, r\<lparr>rd_pos := rd_pos r + n + 1\<rparr>) }"

definition cstr_at :: "bytes \<Rightarrow> nat \<Rightarrow> bytes option" where
  "cstr_at data off = map_option fst (rd_cstr \<lparr>rd_data = data, rd_pos = off\<rparr>)"

declare rd_uleb_loop.simps [simp del] rd_sleb_loop.simps [simp del]

subsection \<open>Attribute values\<close>

datatype dw_value = Inline bytes | Strp u64 | LineStrp u64 | Strx u64 | Other u64

lemma rd_uleb_loop_progress:
  "rd_uleb_loop v s r = Some (x, r') \<Longrightarrow> length (rd_data r') - rd_pos r' < length (rd_data r) - rd_pos r"
proof (induction v s r rule: rd_uleb_loop.induct)
  case (1 v s r)
  show ?case
  proof (cases "rd_u8 r")
    case None
    with 1 show ?thesis by (subst (asm) rd_uleb_loop.simps) simp
  next
    case (Some p)
    obtain b r1 where p: "p = (b, r1)" by (cases p)
    note pr = rd_u8_progress [OF Some [unfolded p]]
    show ?thesis
    proof (cases "b AND 0x80 = 0")
      case True
      with 1(2) Some p pr show ?thesis by (subst (asm) rd_uleb_loop.simps) (auto simp: Let_def split: if_splits)
    next
      case False
      then have "rd_uleb_loop (if s < 64 then v OR push_bit s (ucast (b AND 0x7f)) else v) (s + 7) r1 = Some (x, r')"
        using 1(2) Some p by (subst (asm) rd_uleb_loop.simps) (auto simp: Let_def split: if_splits)
      then have "length (rd_data r') - rd_pos r' < length (rd_data r1) - rd_pos r1"
        by (rule "1.IH" [OF Some p [symmetric] refl refl False])
      with pr show ?thesis by simp
    qed
  qed
qed

lemma rd_uleb_progress: "rd_uleb r = Some (x, r') \<Longrightarrow> length (rd_data r') - rd_pos r' < length (rd_data r) - rd_pos r"
  unfolding rd_uleb_def by (rule rd_uleb_loop_progress)

lemma rd_sleb_loop_progress:
  "rd_sleb_loop v s r = Some (x, r') \<Longrightarrow> length (rd_data r') - rd_pos r' < length (rd_data r) - rd_pos r"
proof (induction v s r rule: rd_sleb_loop.induct)
  case (1 v s r)
  show ?case
  proof (cases "rd_u8 r")
    case None
    with 1 show ?thesis by (subst (asm) rd_sleb_loop.simps) simp
  next
    case (Some p)
    obtain b r1 where p: "p = (b, r1)" by (cases p)
    note pr = rd_u8_progress [OF Some [unfolded p]]
    show ?thesis
    proof (cases "b AND 0x80 = 0")
      case True
      with 1(2) Some p pr show ?thesis by (subst (asm) rd_sleb_loop.simps) (auto simp: Let_def split: if_splits)
    next
      case False
      then have "rd_sleb_loop (if s < 64 then v OR push_bit s (ucast (b AND 0x7f)) else v) (s + 7) r1 = Some (x, r')"
        using 1(2) Some p by (subst (asm) rd_sleb_loop.simps) (auto simp: Let_def split: if_splits)
      then have "length (rd_data r') - rd_pos r' < length (rd_data r1) - rd_pos r1"
        by (rule "1.IH" [OF Some p [symmetric] refl refl False])
      with pr show ?thesis by simp
    qed
  qed
qed

lemma rd_sleb_progress: "rd_sleb r = Some (x, r') \<Longrightarrow> length (rd_data r') - rd_pos r' < length (rd_data r) - rd_pos r"
  unfolding rd_sleb_def by (rule rd_sleb_loop_progress)

text \<open>\<open>implicit\<close> is the constant an abbreviation holds itself; the only recursion is for an indirect form.\<close>

function read_form :: "reader \<Rightarrow> u64 \<Rightarrow> nat \<Rightarrow> u64 \<Rightarrow> (dw_value \<times> reader) option" where
  "read_form r form addr_size implicit =
     (if form = DW_FORM_ADDR then
        (if addr_size = 4 then do { (v, r) \<leftarrow> rd_u32 r; Some (Other (ucast v), r) }
         else do { (v, r) \<leftarrow> rd_u64 r; Some (Other v, r) })
      else if form = DW_FORM_BLOCK2 then
        do { (n, r) \<leftarrow> rd_u16 r; r \<leftarrow> rd_skip (unat n) r; Some (Other 0, r) }
      else if form = DW_FORM_BLOCK4 then
        do { (n, r) \<leftarrow> rd_u32 r; r \<leftarrow> rd_skip (unat n) r; Some (Other 0, r) }
      else if form \<in> {DW_FORM_DATA2, DW_FORM_REF2} then
        do { (v, r) \<leftarrow> rd_u16 r; Some (Other (ucast v), r) }
      else if form \<in> {DW_FORM_DATA4, DW_FORM_REF4, DW_FORM_REF_ADDR, DW_FORM_SEC_OFFSET, DW_FORM_REF_SUP4, DW_FORM_STRP_SUP} then
        do { (v, r) \<leftarrow> rd_u32 r; Some (Other (ucast v), r) }
      else if form \<in> {DW_FORM_DATA8, DW_FORM_REF8, DW_FORM_REF_SIG8, DW_FORM_REF_SUP8} then
        do { (v, r) \<leftarrow> rd_u64 r; Some (Other v, r) }
      else if form = DW_FORM_STRING then do { (s, r) \<leftarrow> rd_cstr r; Some (Inline s, r) }
      else if form \<in> {DW_FORM_BLOCK, DW_FORM_EXPRLOC} then
        do { (n, r) \<leftarrow> rd_uleb r; r \<leftarrow> rd_skip (unat n) r; Some (Other 0, r) }
      else if form = DW_FORM_BLOCK1 then
        do { (n, r) \<leftarrow> rd_u8 r; r \<leftarrow> rd_skip (unat n) r; Some (Other 0, r) }
      else if form \<in> {DW_FORM_DATA1, DW_FORM_REF1, DW_FORM_FLAG} then
        do { (v, r) \<leftarrow> rd_u8 r; Some (Other (ucast v), r) }
      else if form = DW_FORM_SDATA then do { (v, r) \<leftarrow> rd_sleb r; Some (Other v, r) }
      else if form = DW_FORM_STRP then do { (v, r) \<leftarrow> rd_u32 r; Some (Strp (ucast v), r) }
      else if form = DW_FORM_LINE_STRP then do { (v, r) \<leftarrow> rd_u32 r; Some (LineStrp (ucast v), r) }
      else if form \<in> {DW_FORM_UDATA, DW_FORM_REF_UDATA, DW_FORM_ADDRX, DW_FORM_LOCLISTX, DW_FORM_RNGLISTX} then
        do { (v, r) \<leftarrow> rd_uleb r; Some (Other v, r) }
      else if form = DW_FORM_INDIRECT then
        (case rd_uleb r of None \<Rightarrow> None | Some (actual, r) \<Rightarrow> read_form r actual addr_size implicit)
      else if form = DW_FORM_FLAG_PRESENT then Some (Other 1, r)
      else if form = DW_FORM_STRX then do { (v, r) \<leftarrow> rd_uleb r; Some (Strx v, r) }
      else if form = DW_FORM_STRX1 then do { (v, r) \<leftarrow> rd_u8 r; Some (Strx (ucast v), r) }
      else if form = DW_FORM_STRX2 then do { (v, r) \<leftarrow> rd_u16 r; Some (Strx (ucast v), r) }
      else if form = DW_FORM_STRX3 then
        do { (b0, r) \<leftarrow> rd_u8 r; (b1, r) \<leftarrow> rd_u8 r; (b2, r) \<leftarrow> rd_u8 r;
             Some (Strx (ucast (from_le [b0, b1, b2, 0] :: u32)), r) }
      else if form = DW_FORM_STRX4 then do { (v, r) \<leftarrow> rd_u32 r; Some (Strx (ucast v), r) }
      else if form = DW_FORM_ADDRX1 then do { (v, r) \<leftarrow> rd_u8 r; Some (Other (ucast v), r) }
      else if form = DW_FORM_ADDRX2 then do { (v, r) \<leftarrow> rd_u16 r; Some (Other (ucast v), r) }
      else if form = DW_FORM_ADDRX3 then do { r \<leftarrow> rd_skip 3 r; Some (Other 0, r) }
      else if form = DW_FORM_ADDRX4 then do { (v, r) \<leftarrow> rd_u32 r; Some (Other (ucast v), r) }
      else if form = DW_FORM_DATA16 then do { r \<leftarrow> rd_skip 16 r; Some (Other 0, r) }
      else if form = DW_FORM_IMPLICIT_CONST then Some (Other implicit, r)
      else None)"
  by pat_completeness auto
termination
  by (relation "measure (\<lambda>(r, _). length (rd_data r) - rd_pos r)") (auto dest: rd_uleb_progress)

declare read_form.simps [simp del]

subsection \<open>Abbreviations\<close>

text \<open>The inner loop, which skips the attribute specifications of an entry.\<close>

function skip_specs :: "reader \<Rightarrow> reader option" where
  "skip_specs r =
     (case rd_uleb r of None \<Rightarrow> None
      | Some (attr, r1) \<Rightarrow>
          (case rd_uleb r1 of None \<Rightarrow> None
           | Some (form, r2) \<Rightarrow>
               if attr = 0 \<and> form = 0 then Some r2
               else if form = DW_FORM_IMPLICIT_CONST then
                 (case rd_sleb r2 of None \<Rightarrow> None | Some (_, r3) \<Rightarrow> skip_specs r3)
               else skip_specs r2))"
  by pat_completeness auto
termination
  by (relation "measure (\<lambda>r. length (rd_data r) - rd_pos r)") (auto dest!: rd_uleb_progress rd_sleb_progress)

declare skip_specs.simps [simp del]

lemma skip_specs_progress:
  "skip_specs r = Some r' \<Longrightarrow> length (rd_data r') - rd_pos r' < length (rd_data r) - rd_pos r"
proof (induction r rule: skip_specs.induct)
  case (1 r)
  then show ?case
    by (subst (asm) (3) skip_specs.simps)
       (fastforce dest: rd_uleb_progress rd_sleb_progress split: option.splits if_splits prod.splits)
qed

function find_abbrev_loop :: "u64 \<Rightarrow> reader \<Rightarrow> (u64 \<times> reader) option" where
  "find_abbrev_loop code r =
     (case rd_uleb r of None \<Rightarrow> None
      | Some (c, r1) \<Rightarrow>
          if c = 0 then None
          else (case rd_uleb r1 of None \<Rightarrow> None
                | Some (tag, r2) \<Rightarrow>
                    (case rd_u8 r2 of None \<Rightarrow> None
                     | Some (children, r3) \<Rightarrow>
                         if c = code then Some (tag, r3)
                         else (case skip_specs r3 of None \<Rightarrow> None | Some r4 \<Rightarrow> find_abbrev_loop code r4))))"
  by pat_completeness auto
termination
  by (relation "measure (\<lambda>(_, r). length (rd_data r) - rd_pos r)")
     (auto dest!: rd_uleb_progress rd_u8_progress skip_specs_progress)

declare find_abbrev_loop.simps [simp del]

definition find_abbrev :: "bytes \<Rightarrow> u64 \<Rightarrow> (u64 \<times> reader) option" where
  "find_abbrev table code = find_abbrev_loop code \<lparr>rd_data = table, rd_pos = 0\<rparr>"

subsection \<open>The first compile unit\<close>

text \<open>\<^verbatim>\<open>data.get(a..b)\<close>.\<close>

definition get_range :: "bytes \<Rightarrow> nat \<Rightarrow> nat \<Rightarrow> bytes option" where
  "get_range data a b = (if a \<le> b \<and> b \<le> length data then Some (take (b - a) (drop a data)) else None)"

definition dw_section :: "bytes \<Rightarrow> mach_section list \<Rightarrow> bytes \<Rightarrow> bytes option" where
  "dw_section file sects name =
     do { s \<leftarrow> List.find (\<lambda>s. ms_segname_bytes s = bstr ''__DWARF'' \<and> ms_sectname_bytes s = name) sects;
          get_range file (unat (ms_offset s)) (unat (ucast (ms_offset s) + ms_size s)) }"

text \<open>What the attributes of the unit have given so far: its name, directory and string-offsets base.\<close>

record dw_unit =
  du_name :: "dw_value option"
  du_comp_dir :: "dw_value option"
  du_str_offsets :: "u64 option"

definition dw_attr :: "u64 \<Rightarrow> dw_value \<Rightarrow> dw_unit \<Rightarrow> dw_unit" where
  "dw_attr attr val u =
     (if attr = DW_AT_NAME then u\<lparr>du_name := Some val\<rparr>
      else if attr = DW_AT_COMP_DIR then u\<lparr>du_comp_dir := Some val\<rparr>
      else if attr = DW_AT_STR_OFFSETS_BASE then
        (case val of Other v \<Rightarrow> u\<lparr>du_str_offsets := Some v\<rparr> | _ \<Rightarrow> u)
      else u)"

function dw_attrs_loop :: "nat \<Rightarrow> reader \<Rightarrow> reader \<Rightarrow> dw_unit \<Rightarrow> dw_unit option" where
  "dw_attrs_loop addr_size specs r u =
     (case rd_uleb specs of None \<Rightarrow> None
      | Some (attr, s1) \<Rightarrow>
          (case rd_uleb s1 of None \<Rightarrow> None
           | Some (form, s2) \<Rightarrow>
               if attr = 0 \<and> form = 0 then Some u
               else (case (if form = DW_FORM_IMPLICIT_CONST then rd_sleb s2 else Some (0, s2)) of
                       None \<Rightarrow> None
                     | Some (implicit, s3) \<Rightarrow>
                         (case read_form r form addr_size implicit of None \<Rightarrow> None
                          | Some (val, r1) \<Rightarrow> dw_attrs_loop addr_size s3 r1 (dw_attr attr val u)))))"
  by pat_completeness auto
termination
  by (relation "measure (\<lambda>(_, s, _). length (rd_data s) - rd_pos s)")
     (auto dest!: rd_uleb_progress rd_sleb_progress split: if_splits)

declare dw_attrs_loop.simps [simp del]

definition dw_resolve :: "bytes \<Rightarrow> bytes \<Rightarrow> bytes \<Rightarrow> u64 option \<Rightarrow> dw_value \<Rightarrow> bytes option" where
  "dw_resolve strs line_strs str_offsets base v =
     (case v of
        Inline b \<Rightarrow> Some b
      | Strp off \<Rightarrow> cstr_at strs (unat off)
      | LineStrp off \<Rightarrow> cstr_at line_strs (unat off)
      | Strx idx \<Rightarrow>
          do { let at = unwrap_or base 8 + idx * 4;
               bs \<leftarrow> get_range str_offsets (unat at) (unat (at + 4));
               cstr_at strs (unat (from_le bs :: u32)) }
      | Other _ \<Rightarrow> None)"

text \<open>The unit's header: its abbreviations' offset and its address size.\<close>

definition dw_header :: "reader \<Rightarrow> (nat \<times> nat \<times> reader) option" where
  "dw_header r =
     do { (len, r) \<leftarrow> rd_u32 r;
          if len = 0xffffffff then None
          else do { (version, r) \<leftarrow> rd_u16 r;
                    if 5 \<le> version
                    then do { (unit_type, r) \<leftarrow> rd_u8 r; (addr_size, r) \<leftarrow> rd_u8 r; (off, r) \<leftarrow> rd_u32 r;
                              Some (unat off, unat addr_size, r) }
                    else do { (off, r) \<leftarrow> rd_u32 r; (addr_size, r) \<leftarrow> rd_u8 r;
                              Some (unat off, unat addr_size, r) } } }"

definition compile_unit_name :: "bytes \<Rightarrow> mach_section list \<Rightarrow> (bytes \<times> bytes) option" where
  "compile_unit_name file sects =
     do { info \<leftarrow> dw_section file sects (bstr ''__debug_info'');
          abbrevs \<leftarrow> dw_section file sects (bstr ''__debug_abbrev'');
          let strs = unwrap_or (dw_section file sects (bstr ''__debug_str'')) [];
          let line_strs = unwrap_or (dw_section file sects (bstr ''__debug_line_str'')) [];
          let str_offsets = unwrap_or (dw_section file sects (bstr ''__debug_str_offs'')) [];
          (abbrev_off, addr_size, r) \<leftarrow> dw_header \<lparr>rd_data = info, rd_pos = 0\<rparr>;
          table \<leftarrow> slice_from abbrevs abbrev_off;
          (code, r) \<leftarrow> rd_uleb r;
          (tag, specs) \<leftarrow> find_abbrev table code;
          if tag \<noteq> DW_TAG_COMPILE_UNIT then None
          else do { u \<leftarrow> dw_attrs_loop addr_size specs r \<lparr>du_name = None, du_comp_dir = None, du_str_offsets = None\<rparr>;
                    let resolve = dw_resolve strs line_strs str_offsets (du_str_offsets u);
                    name \<leftarrow> Option.bind (du_name u) resolve;
                    Some (unwrap_or (Option.bind (du_comp_dir u) resolve) [], name) } }"

subsection \<open>Reading what was encoded\<close>

text \<open>A reader between what it has passed and what is left.\<close>

definition rd_at :: "bytes \<Rightarrow> bytes \<Rightarrow> reader" where
  "rd_at pre rest = \<lparr>rd_data = pre @ rest, rd_pos = length pre\<rparr>"

text \<open>The contract of a field's reader with its encoding, on the values \<open>ok\<close> allows.\<close>

locale field_reader =
  fixes get :: "reader \<Rightarrow> ('a \<times> reader) option" and enc :: "'a \<Rightarrow> bytes" and ok :: "'a \<Rightarrow> bool"
  assumes get_enc: "ok x \<Longrightarrow> get (rd_at pre (enc x @ rest)) = Some (x, rd_at (pre @ enc x) rest)"
begin

lemma get_then: "ok x \<Longrightarrow> Option.bind (get (rd_at pre (enc x @ rest))) f = f (x, rd_at (pre @ enc x) rest)"
  by (simp add: get_enc)

lemma get_end: "ok x \<Longrightarrow> get (rd_at pre (enc x)) = Some (x, rd_at (pre @ enc x) [])"
  using get_enc [of x pre "[]"] by simp

end

named_theorems reads \<open>reads of an encoded field\<close>

lemma rd_take_at: "length bs = n \<Longrightarrow> rd_take n (rd_at pre (bs @ rest)) = Some (bs, rd_at (pre @ bs) rest)"
  by (simp add: rd_take_def rd_at_def slice_at_def)

lemma rd_skip_at [reads]: "length bs = n \<Longrightarrow> rd_skip n (rd_at pre (bs @ rest)) = Some (rd_at (pre @ bs) rest)"
  by (simp add: rd_skip_def rd_take_at)

lemma rd_u8_at [reads]: "rd_u8 (rd_at pre (b # rest)) = Some (b, rd_at (pre @ [b]) rest)"
  using rd_take_at [of "[b]" 1 pre rest] by (simp add: rd_u8_def)

lemma rd_u8_none: "rd_u8 (rd_at pre []) = None"
  by (simp add: rd_u8_def rd_take_def rd_at_def slice_at_def)

lemma rd_uleb_loop_at:
  "rd_uleb_loop v s (rd_at pre bs) =
     map_option (\<lambda>(x, rest). (x, rd_at (pre @ take (length bs - length rest) bs) rest)) (read_uleb_loop v s bs)"
proof (induction bs arbitrary: v s pre)
  case Nil
  show ?case by (subst rd_uleb_loop.simps) (simp add: rd_u8_none)
next
  case (Cons b bs)
  show ?case
    by (subst rd_uleb_loop.simps)
       (auto simp: rd_u8_at Let_def Cons Suc_diff_le map_option_case split: option.splits
          dest!: read_uleb_loop_shorter intro!: arg_cong2 [where f = rd_at])
qed

lemma rd_sleb_loop_at:
  "rd_sleb_loop v s (rd_at pre bs) =
     map_option (\<lambda>(x, rest). (x, rd_at (pre @ take (length bs - length rest) bs) rest)) (read_sleb_loop v s bs)"
proof (induction bs arbitrary: v s pre)
  case Nil
  show ?case by (subst rd_sleb_loop.simps) (simp add: rd_u8_none)
next
  case (Cons b bs)
  show ?case
    by (subst rd_sleb_loop.simps)
       (auto simp: rd_u8_at Let_def Cons Suc_diff_le map_option_case split: option.splits
          dest!: read_sleb_loop_shorter intro!: arg_cong2 [where f = rd_at])
qed

lemma rd_uleb_at [reads]: "rd_uleb (rd_at pre (encode_uleb v @ rest)) = Some (v, rd_at (pre @ encode_uleb v) rest)"
  using read_encode_uleb [of v rest] unfolding read_uleb_def by (simp add: rd_uleb_def rd_uleb_loop_at)

lemma rd_sleb_at [reads]: "rd_sleb (rd_at pre (encode_sleb v @ rest)) = Some (v, rd_at (pre @ encode_sleb v) rest)"
  using read_encode_sleb [of v rest] unfolding read_sleb_def by (simp add: rd_sleb_def rd_sleb_loop_at)

lemma rd_cstr_at [reads]: "0 \<notin> set s \<Longrightarrow> rd_cstr (rd_at pre (s @ 0 # rest)) = Some (s, rd_at (pre @ s @ [0]) rest)"
proof -
  assume s: "0 \<notin> set s"
  then have t: "takeWhile (\<lambda>b. b \<noteq> 0) (s @ 0 # rest) = s" by (subst takeWhile_append2) auto
  show ?thesis by (simp add: rd_cstr_def rd_at_def slice_from_def position_def t)
qed

interpretation field_u8: field_reader rd_u8 "\<lambda>b. [b]" "\<lambda>_. True"
  by unfold_locales (simp add: reads)

interpretation field_u16: field_reader rd_u16 "le_bytes 2" "\<lambda>_. True"
  by unfold_locales (simp add: rd_u16_def rd_take_at)

interpretation field_u32: field_reader rd_u32 "le_bytes 4" "\<lambda>_. True"
  by unfold_locales (simp add: rd_u32_def rd_take_at)

interpretation field_u64: field_reader rd_u64 "le_bytes 8" "\<lambda>_. True"
  by unfold_locales (simp add: rd_u64_def rd_take_at)

interpretation field_uleb: field_reader rd_uleb encode_uleb "\<lambda>_. True"
  by unfold_locales (simp add: reads)

interpretation field_sleb: field_reader rd_sleb encode_sleb "\<lambda>_. True"
  by unfold_locales (simp add: reads)

interpretation field_cstr: field_reader rd_cstr "\<lambda>s. s @ [0]" "\<lambda>s. 0 \<notin> set s"
  by unfold_locales (simp add: reads)

lemmas field_reads = reads field_u16.get_enc field_u32.get_enc field_u64.get_enc

text \<open>
  The encodings of the forms, as the format defines them: \<open>encodes a i form bs v\<close> when \<open>bs\<close> is a value
  \<open>v\<close> of the form, in a unit of address size \<open>a\<close>, under an abbreviation that holds the constant \<open>i\<close>.
\<close>

inductive encodes :: "nat \<Rightarrow> u64 \<Rightarrow> u64 \<Rightarrow> bytes \<Rightarrow> dw_value \<Rightarrow> bool" where
  enc_addr4: "a = 4 \<Longrightarrow> encodes a i 0x01 (le_bytes 4 (w :: u32)) (Other (ucast w))"
| enc_addr8: "a \<noteq> 4 \<Longrightarrow> encodes a i 0x01 (le_bytes 8 (q :: u64)) (Other q)"
| enc_1: "f \<in> {0x0b, 0x11, 0x0c, 0x29} \<Longrightarrow> encodes a i f [b] (Other (ucast b))"
| enc_2: "f \<in> {0x05, 0x12, 0x2a} \<Longrightarrow> encodes a i f (le_bytes 2 (h :: u16)) (Other (ucast h))"
| enc_3: "length bs = 3 \<Longrightarrow> encodes a i 0x2b bs (Other 0)"
| enc_4: "f \<in> {0x06, 0x13, 0x10, 0x17, 0x1c, 0x1d, 0x2c} \<Longrightarrow> encodes a i f (le_bytes 4 (w :: u32)) (Other (ucast w))"
| enc_8: "f \<in> {0x07, 0x14, 0x20, 0x24} \<Longrightarrow> encodes a i f (le_bytes 8 (q :: u64)) (Other q)"
| enc_16: "length bs = 16 \<Longrightarrow> encodes a i 0x1e bs (Other 0)"
| enc_block1: "length bs = unat b \<Longrightarrow> encodes a i 0x0a (b # bs) (Other 0)"
| enc_block2: "length bs = unat h \<Longrightarrow> encodes a i 0x03 (le_bytes 2 (h :: u16) @ bs) (Other 0)"
| enc_block4: "length bs = unat w \<Longrightarrow> encodes a i 0x04 (le_bytes 4 (w :: u32) @ bs) (Other 0)"
| enc_block: "f \<in> {0x09, 0x18} \<Longrightarrow> length bs = unat q \<Longrightarrow> encodes a i f (encode_uleb q @ bs) (Other 0)"
| enc_string: "0 \<notin> set s \<Longrightarrow> encodes a i 0x08 (s @ [0]) (Inline s)"
| enc_sdata: "encodes a i 0x0d (encode_sleb q) (Other q)"
| enc_strp: "encodes a i 0x0e (le_bytes 4 (w :: u32)) (Strp (ucast w))"
| enc_line_strp: "encodes a i 0x1f (le_bytes 4 (w :: u32)) (LineStrp (ucast w))"
| enc_udata: "f \<in> {0x0f, 0x15, 0x1b, 0x22, 0x23} \<Longrightarrow> encodes a i f (encode_uleb q) (Other q)"
| enc_indirect: "encodes a i f bs v \<Longrightarrow> encodes a i 0x16 (encode_uleb f @ bs) v"
| enc_flag: "encodes a i 0x19 [] (Other 1)"
| enc_strx: "encodes a i 0x1a (encode_uleb q) (Strx q)"
| enc_strx1: "encodes a i 0x25 [b] (Strx (ucast b))"
| enc_strx2: "encodes a i 0x26 (le_bytes 2 (h :: u16)) (Strx (ucast h))"
| enc_strx3: "w < 2 ^ 24 \<Longrightarrow> encodes a i 0x27 (le_bytes 3 (w :: u32)) (Strx (ucast w))"
| enc_strx4: "encodes a i 0x28 (le_bytes 4 (w :: u32)) (Strx (ucast w))"
| enc_implicit: "encodes a i 0x21 [] (Other i)"

lemma from_le_3: "(w :: u32) < 2 ^ 24 \<Longrightarrow> from_le (le_bytes 3 w @ [0]) = w"
proof -
  assume "w < 2 ^ 24"
  then have "bit w n \<Longrightarrow> n < 24" for n by (rule bit_less_exp)
  then have "drop_bit 24 w = 0"
    by (intro bit_word_eqI) (fastforce simp: bit_simps)
  then have "le_bytes 3 w @ [0] = le_bytes 4 w" by (simp add: numeral_eq_Suc)
  then show ?thesis by simp
qed

lemma read_form_at:
  assumes "encodes addr_size implicit form bs v"
  shows "read_form (rd_at pre (bs @ rest)) form addr_size implicit = Some (v, rd_at (pre @ bs) rest)"
  using assms
proof (induction arbitrary: pre rule: encodes.induct)
  case (enc_block f bs q a i)
  then show ?case by (subst read_form.simps) (auto simp: field_reads)
next
  case (enc_strx3 w a i)
  obtain b0 b1 b2 where b: "le_bytes 3 w = [b0, b1, b2]" by (simp add: numeral_eq_Suc)
  then show ?case using from_le_3 [OF enc_strx3]
    by (subst read_form.simps) (simp add: field_reads del: from_le.simps)
next
  case (enc_indirect a i f bs v)
  then show ?case by (subst read_form.simps) (simp add: field_reads)
qed (subst read_form.simps, auto simp: field_reads rd_skip_at [of _ _ _ "[]", simplified])+

text \<open>
  C22. An attribute's value reads back, whatever its form, and the reader stops right behind it: a form
  the reader did not size right would shift every attribute after it.
\<close>

theorem read_form_correct:
  assumes "encodes addr_size implicit form bs v"
  shows "read_form (rd_at pre (bs @ rest)) form addr_size implicit = Some (v, rd_at (pre @ bs) rest)"
  using assms by (rule read_form_at)

theorem read_form_correct_witness:
  "read_form (rd_at [1] ([0x08, 0x61, 0] @ [2])) 0x16 8 0 = Some (Inline [0x61], rd_at ([1] @ [0x08, 0x61, 0]) [2])"
proof -
  have u: "encode_uleb 0x08 = [0x08]" by code_simp
  have "encodes 8 0 0x16 (encode_uleb 0x08 @ ([0x61] @ [0])) (Inline [0x61])"
    by (intro enc_indirect enc_string) simp
  then have "encodes 8 0 0x16 [0x08, 0x61, 0] (Inline [0x61])" unfolding u by simp
  then show ?thesis by (rule read_form_correct)
qed

text \<open>An abbreviation: code, tag, whether it has children, and its attribute specifications.\<close>

record dw_abbrev =
  da_code :: u64
  da_tag :: u64
  da_children :: u8
  da_specs :: "(u64 \<times> u64 \<times> u64) list"

definition spec_bytes :: "u64 \<times> u64 \<times> u64 \<Rightarrow> bytes" where
  "spec_bytes sp = (case sp of (attr, form, implicit) \<Rightarrow>
     encode_uleb attr @ encode_uleb form @ (if form = 0x21 then encode_sleb implicit else []))"

definition specs_bytes :: "(u64 \<times> u64 \<times> u64) list \<Rightarrow> bytes" where
  "specs_bytes specs = concat (map spec_bytes specs) @ encode_uleb 0 @ encode_uleb 0"

definition abbrev_bytes :: "dw_abbrev \<Rightarrow> bytes" where
  "abbrev_bytes ab = encode_uleb (da_code ab) @ encode_uleb (da_tag ab) @ [da_children ab] @ specs_bytes (da_specs ab)"

definition specs_ok :: "(u64 \<times> u64 \<times> u64) list \<Rightarrow> bool" where
  "specs_ok specs \<longleftrightarrow> (\<forall>(attr, form, implicit) \<in> set specs. attr \<noteq> 0 \<or> form \<noteq> 0)"

lemma skip_specs_at: "specs_ok specs \<Longrightarrow> skip_specs (rd_at pre (specs_bytes specs @ rest)) = Some (rd_at (pre @ specs_bytes specs) rest)"
proof (induction specs arbitrary: pre)
  case Nil
  show ?case by (subst skip_specs.simps) (simp add: specs_bytes_def reads)
next
  case (Cons sp specs)
  obtain attr form implicit where sp: "sp = (attr, form, implicit)" by (cases sp)
  have nz: "\<not> (attr = 0 \<and> form = 0)" and ok: "specs_ok specs" using Cons.prems by (auto simp: specs_ok_def sp)
  have "skip_specs (rd_at pre (specs_bytes (sp # specs) @ rest)) = skip_specs (rd_at (pre @ spec_bytes sp) (specs_bytes specs @ rest))"
    using nz by (subst skip_specs.simps) (auto simp: specs_bytes_def spec_bytes_def sp reads)
  then show ?case using Cons.IH [OF ok] by (simp add: specs_bytes_def)
qed

lemma find_abbrev_loop_at:
  "\<forall>ab \<in> set others. da_code ab \<noteq> 0 \<and> da_code ab \<noteq> code \<and> specs_ok (da_specs ab) \<Longrightarrow> da_code ab = code \<Longrightarrow> code \<noteq> 0 \<Longrightarrow>
   find_abbrev_loop code (rd_at pre (concat (map abbrev_bytes others) @ abbrev_bytes ab @ rest)) =
     Some (da_tag ab, rd_at (pre @ concat (map abbrev_bytes others) @ encode_uleb code @ encode_uleb (da_tag ab) @ [da_children ab])
       (specs_bytes (da_specs ab) @ rest))"
proof (induction others arbitrary: pre)
  case Nil
  then show ?case by (subst find_abbrev_loop.simps) (simp add: abbrev_bytes_def reads)
next
  case (Cons a others)
  have s: "skip_specs (rd_at p (specs_bytes (da_specs a) @ r)) = Some (rd_at (p @ specs_bytes (da_specs a)) r)" for p r
    using Cons.prems by (intro skip_specs_at) simp
  have "find_abbrev_loop code (rd_at pre (concat (map abbrev_bytes (a # others)) @ abbrev_bytes ab @ rest)) =
      find_abbrev_loop code (rd_at (pre @ abbrev_bytes a) (concat (map abbrev_bytes others) @ abbrev_bytes ab @ rest))"
    using Cons.prems by (subst find_abbrev_loop.simps) (simp add: abbrev_bytes_def [of a] reads s)
  then show ?case using Cons.IH [of "pre @ abbrev_bytes a"] Cons.prems by simp
qed

lemma find_abbrev_at:
  assumes "\<forall>ab \<in> set others. da_code ab \<noteq> 0 \<and> da_code ab \<noteq> code \<and> specs_ok (da_specs ab)" "da_code ab = code" "code \<noteq> 0"
  shows "find_abbrev (concat (map abbrev_bytes others) @ abbrev_bytes ab @ rest) code =
     Some (da_tag ab, rd_at (concat (map abbrev_bytes others) @ encode_uleb code @ encode_uleb (da_tag ab) @ [da_children ab])
       (specs_bytes (da_specs ab) @ rest))"
  using find_abbrev_loop_at [OF assms, of "[]" rest] by (simp add: find_abbrev_def rd_at_def)

text \<open>The attributes of a unit, folded in the order the abbreviation lists them.\<close>

fun dw_fold :: "(u64 \<times> u64 \<times> u64) list \<Rightarrow> dw_value list \<Rightarrow> dw_unit \<Rightarrow> dw_unit" where
  "dw_fold ((attr, _, _) # specs) (v # vs) u = dw_fold specs vs (dw_attr attr v u)"
| "dw_fold _ _ u = u"

text \<open>Values encoded one after another, each by its specification.\<close>

fun encodes_all :: "nat \<Rightarrow> (u64 \<times> u64 \<times> u64) list \<Rightarrow> bytes list \<Rightarrow> dw_value list \<Rightarrow> bool" where
  "encodes_all a [] [] [] = True"
| "encodes_all a ((attr, form, implicit) # specs) (bs # bss) (v # vs) \<longleftrightarrow>
     encodes a (if form = 0x21 then implicit else 0) form bs v \<and> encodes_all a specs bss vs"
| "encodes_all a _ _ _ = False"

lemma dw_attrs_loop_at:
  "encodes_all a specs bss vs \<Longrightarrow> specs_ok specs \<Longrightarrow>
   dw_attrs_loop a (rd_at pre (specs_bytes specs @ srest)) (rd_at ipre (concat bss @ irest)) u = Some (dw_fold specs vs u)"
proof (induction a specs bss vs arbitrary: pre ipre u rule: encodes_all.induct)
  case (1 a)
  show ?case by (subst dw_attrs_loop.simps) (simp add: specs_bytes_def reads)
next
  case (2 a attr form implicit specs bss0 bss v vs)
  let ?i = "if form = 0x21 then implicit else 0"
  have nz: "\<not> (attr = 0 \<and> form = 0)" and ok: "specs_ok specs" using "2.prems" by (auto simp: specs_ok_def)
  have e: "encodes a ?i form bss0 v" and es: "encodes_all a specs bss vs" using "2.prems" by simp_all
  have f: "read_form (rd_at ipre (bss0 @ r)) form a ?i = Some (v, rd_at (ipre @ bss0) r)" for r
    using e by (rule read_form_at)
  have "dw_attrs_loop a (rd_at pre (specs_bytes ((attr, form, implicit) # specs) @ srest)) (rd_at ipre (concat (bss0 # bss) @ irest)) u =
      dw_attrs_loop a (rd_at (pre @ spec_bytes (attr, form, implicit)) (specs_bytes specs @ srest)) (rd_at (ipre @ bss0) (concat bss @ irest)) (dw_attr attr v u)"
    using nz f [of "concat bss @ irest"] by (subst dw_attrs_loop.simps) (auto simp: specs_bytes_def spec_bytes_def reads)
  then show ?case using "2.IH" [OF es ok] by simp
qed simp_all

subsection \<open>What a unit says of itself\<close>

text \<open>The last value an attribute is given, and the string a value stands for.\<close>

definition attr_values :: "u64 \<Rightarrow> (u64 \<times> u64 \<times> u64) list \<Rightarrow> dw_value list \<Rightarrow> dw_value list" where
  "attr_values attr specs vs = map snd (filter (\<lambda>((a, _, _), v). a = attr) (zip specs vs))"

definition last_opt :: "'a list \<Rightarrow> 'a option" where
  "last_opt xs = (if xs = [] then None else Some (last xs))"

definition other_values :: "dw_value list \<Rightarrow> u64 list" where
  "other_values vs = List.map_filter (\<lambda>v. case v of Other x \<Rightarrow> Some x | _ \<Rightarrow> None) vs"

definition string_at :: "bytes \<Rightarrow> nat \<Rightarrow> bytes option" where
  "string_at data off = map_option fst (read_cstr (drop off data))"

definition dw_string :: "bytes \<Rightarrow> bytes \<Rightarrow> bytes \<Rightarrow> u64 option \<Rightarrow> dw_value \<Rightarrow> bytes option" where
  "dw_string strs line_strs offsets base v =
     (case v of
        Inline b \<Rightarrow> Some b
      | Strp off \<Rightarrow> string_at strs (unat off)
      | LineStrp off \<Rightarrow> string_at line_strs (unat off)
      | Strx idx \<Rightarrow>
          (let at = unat (unwrap_or base 8) + 4 * unat idx
           in if at + 4 \<le> length offsets then string_at strs (unat (from_le (take 4 (drop at offsets)) :: u32)) else None)
      | Other _ \<Rightarrow> None)"

lemma cstr_at_eq: "cstr_at data off = string_at data off"
proof -
  have p: "map_option (\<lambda>n. take n bs) (position (\<lambda>b. b = 0) bs) = map_option fst (read_cstr bs)" for bs :: bytes
  proof (induction bs)
    case Nil
    then show ?case by (simp add: position_def)
  next
    case (Cons b bs)
    show ?case
    proof (cases "b = 0")
      case True
      then show ?thesis by (simp add: position_def)
    next
      case False
      then have "position (\<lambda>b. b = 0) (b # bs) = map_option Suc (position (\<lambda>b. b = 0) bs)"
        by (simp add: position_def Let_def)
      with False have "map_option (\<lambda>n. take n (b # bs)) (position (\<lambda>b. b = 0) (b # bs)) =
          map_option ((#) b) (map_option (\<lambda>n. take n bs) (position (\<lambda>b. b = 0) bs))"
        by (simp add: option.map_comp comp_def)
      with Cons False show ?thesis by (simp add: option.map_comp comp_def case_prod_beta)
    qed
  qed
  show ?thesis
  proof (cases "off \<le> length data")
    case True
    then have "cstr_at data off = map_option (\<lambda>n. take n (drop off data)) (position (\<lambda>b. b = 0) (drop off data))"
      by (cases "position (\<lambda>b. b = 0) (drop off data)") (simp_all add: cstr_at_def rd_cstr_def slice_from_def)
    with p show ?thesis by (simp add: string_at_def)
  next
    case False
    then show ?thesis by (simp add: cstr_at_def rd_cstr_def slice_from_def string_at_def)
  qed
qed

definition no_wrap :: "u64 option \<Rightarrow> dw_value \<Rightarrow> bool" where
  "no_wrap base v \<longleftrightarrow> (case v of Strx idx \<Rightarrow> unat (unwrap_or base 8) + 4 * unat idx + 4 < 2 ^ 64 | _ \<Rightarrow> True)"

lemma dw_resolve_eq: "no_wrap base v \<Longrightarrow> dw_resolve strs line_strs offsets base v = dw_string strs line_strs offsets base v"
proof (cases v)
  case (Strx idx)
  assume "no_wrap base v"
  then have n: "unat (unwrap_or base 8) + 4 * unat idx + 4 < 2 ^ 64" by (simp add: no_wrap_def Strx)
  then have i: "unat (idx * 4) = 4 * unat idx" by (simp add: unat_word_ariths)
  have a: "unat (unwrap_or base 8 + idx * 4) = unat (unwrap_or base 8) + 4 * unat idx"
    using n by (subst unat_plus_simple [THEN iffD1]) (auto simp: i no_olen_add_nat)
  have b: "unat (unwrap_or base 8 + idx * 4 + 4) = unat (unwrap_or base 8) + 4 * unat idx + 4"
    using n by (subst unat_plus_simple [THEN iffD1]) (auto simp: a no_olen_add_nat)
  show ?thesis by (simp add: Strx dw_resolve_def dw_string_def get_range_def a b cstr_at_eq Let_def)
qed (simp_all add: dw_resolve_def dw_string_def cstr_at_eq)

lemma dw_fold_eq:
  "length specs = length vs \<Longrightarrow>
   du_name (dw_fold specs vs u) = (case last_opt (attr_values 0x03 specs vs) of None \<Rightarrow> du_name u | v \<Rightarrow> v) \<and>
   du_comp_dir (dw_fold specs vs u) = (case last_opt (attr_values 0x1b specs vs) of None \<Rightarrow> du_comp_dir u | v \<Rightarrow> v) \<and>
   du_str_offsets (dw_fold specs vs u) =
     (case last_opt (other_values (attr_values 0x72 specs vs)) of None \<Rightarrow> du_str_offsets u | v \<Rightarrow> v)"
proof (induction specs vs arbitrary: u rule: list_induct2)
  case Nil
  then show ?case by (simp add: attr_values_def last_opt_def other_values_def map_filter_simps)
next
  case (Cons sp specs v vs)
  obtain attr form implicit where sp: "sp = (attr, form, implicit)" by (cases sp)
  show ?case
    by (simp add: sp Cons.IH [of "dw_attr attr v u"])
       (auto simp: attr_values_def last_opt_def other_values_def map_filter_simps dw_attr_def split: dw_value.splits)
qed

lemma encodes_all_length: "encodes_all a specs bss vs \<Longrightarrow> length specs = length vs \<and> length bss = length vs"
  by (induction a specs bss vs rule: encodes_all.induct) auto

definition unit_header :: "u32 \<Rightarrow> u16 \<Rightarrow> u8 \<Rightarrow> u8 \<Rightarrow> u32 \<Rightarrow> bytes" where
  "unit_header len version unit_type addr_size off =
     le_bytes 4 len @ le_bytes 2 version @
     (if 5 \<le> version then [unit_type, addr_size] @ le_bytes 4 off else le_bytes 4 off @ [addr_size])"

lemma dw_header_at:
  "len \<noteq> 0xffffffff \<Longrightarrow> dw_header (rd_at pre (unit_header len version ut sz off @ rest)) =
     Some (unat off, unat sz, rd_at (pre @ unit_header len version ut sz off) rest)"
  by (auto simp: dw_header_def unit_header_def field_reads)

text \<open>
  C12. The source file and directory of an object's first compile unit, for any header the DWARF
  versions 2 to 5 have, any abbreviations before the unit's own, and any attributes around the two:
  the strings their last values stand for, inline, in a string section or through the string offsets.
\<close>

theorem compile_unit_name_correct:
  assumes info: "dw_section file sects (bstr ''__debug_info'') =
        Some (unit_header len version unit_type addr_size off @ encode_uleb (da_code ab) @ concat bss @ irest)"
    and abbr: "dw_section file sects (bstr ''__debug_abbrev'') =
        Some (before @ concat (map abbrev_bytes others) @ abbrev_bytes ab @ arest)"
    and off: "length before = unat off" and len: "len \<noteq> 0xffffffff"
    and code: "da_code ab \<noteq> 0" and tag: "da_tag ab = 0x11" and specs: "specs_ok (da_specs ab)"
    and others: "\<forall>a \<in> set others. da_code a \<noteq> 0 \<and> da_code a \<noteq> da_code ab \<and> specs_ok (da_specs a)"
    and enc: "encodes_all (unat addr_size) (da_specs ab) bss vs"
    and base: "base = last_opt (other_values (attr_values 0x72 (da_specs ab) vs))" and wrap: "\<forall>v \<in> set vs. no_wrap base v"
  shows "compile_unit_name file sects =
    (let str = dw_string (unwrap_or (dw_section file sects (bstr ''__debug_str'')) [])
                 (unwrap_or (dw_section file sects (bstr ''__debug_line_str'')) [])
                 (unwrap_or (dw_section file sects (bstr ''__debug_str_offs'')) []) base;
         name = Option.bind (last_opt (attr_values 0x03 (da_specs ab) vs)) str;
         dir = Option.bind (last_opt (attr_values 0x1b (da_specs ab) vs)) str
     in map_option (\<lambda>n. (unwrap_or dir [], n)) name)"
proof -
  let ?init = "\<lparr>du_name = None, du_comp_dir = None, du_str_offsets = None\<rparr>"
  let ?u = "dw_fold (da_specs ab) vs ?init"
  have h: "dw_header \<lparr>rd_data = unit_header len version unit_type addr_size off @ encode_uleb (da_code ab) @ concat bss @ irest, rd_pos = 0\<rparr> =
      Some (unat off, unat addr_size, rd_at (unit_header len version unit_type addr_size off) (encode_uleb (da_code ab) @ concat bss @ irest))"
    using dw_header_at [OF len, of "[]"] by (simp add: rd_at_def)
  have t: "slice_from (before @ concat (map abbrev_bytes others) @ abbrev_bytes ab @ arest) (unat off) =
      Some (concat (map abbrev_bytes others) @ abbrev_bytes ab @ arest)"
    by (simp add: slice_from_def flip: off)
  have a: "dw_attrs_loop (unat addr_size) (rd_at p (specs_bytes (da_specs ab) @ arest)) (rd_at q (concat bss @ irest)) ?init = Some ?u" for p q
    by (rule dw_attrs_loop_at [OF enc specs])
  have l: "length (da_specs ab) = length vs" using encodes_all_length [OF enc] by simp
  have u: "du_name ?u = last_opt (attr_values 0x03 (da_specs ab) vs)" "du_comp_dir ?u = last_opt (attr_values 0x1b (da_specs ab) vs)"
    "du_str_offsets ?u = base"
    using dw_fold_eq [OF l, of ?init] by (simp_all add: base split: option.splits)
  have "set (attr_values n (da_specs ab) vs) \<subseteq> set vs" for n
    by (auto simp: attr_values_def dest: set_zip_rightD)
  then have "last_opt (attr_values n (da_specs ab) vs) = Some v \<Longrightarrow> no_wrap base v" for n v
    using wrap by (auto simp: last_opt_def split: if_splits dest!: subsetD last_in_set)
  then have r: "Option.bind (last_opt (attr_values n (da_specs ab) vs)) (dw_resolve s ls so base) =
      Option.bind (last_opt (attr_values n (da_specs ab) vs)) (dw_string s ls so base)" for n s ls so
    by (cases "last_opt (attr_values n (da_specs ab) vs)") (simp_all add: dw_resolve_eq)
  have r': "Option.bind (last_opt (attr_values n (da_specs ab) vs)) (\<lambda>y. Option.bind (dw_resolve s ls so base y) g) =
      Option.bind (last_opt (attr_values n (da_specs ab) vs)) (\<lambda>y. Option.bind (dw_string s ls so base y) g)" for n s ls so and g :: "bytes \<Rightarrow> (bytes \<times> bytes) option"
    using r [of n s ls so] by (cases "last_opt (attr_values n (da_specs ab) vs)") simp_all
  show ?thesis
    by (simp add: compile_unit_name_def info abbr h t reads find_abbrev_at [OF others refl code] tag a u r r' Let_def map_option_as_bind)
qed

text \<open>A version 4 unit of name \<open>b\<close> in the string section and of directory \<open>a\<close>, its section at offset 0.\<close>

theorem compile_unit_name_correct_witness:
  "let sect = (\<lambda>name off size. \<lparr>ms_sectname = take 16 (name @ replicate 16 0), ms_segname = take 16 (bstr ''__DWARF'' @ replicate 16 0),
          ms_addr = 0, ms_size = size, ms_offset = off, ms_p2align = 0, ms_reloff = 0, ms_nreloc = 0,
          ms_flags = 0, ms_reserved1 = 0, ms_reserved2 = 0, ms_reserved3 = 0\<rparr>);
       sects = [sect (bstr ''__debug_info'') 0 18, sect (bstr ''__debug_abbrev'') 18 9, sect (bstr ''__debug_str'') 27 3]
   in compile_unit_name ([0, 0, 0, 0, 4, 0, 0, 0, 0, 0, 8, 1, 1, 0, 0, 0, 97, 0] @ [1, 0x11, 0, 3, 0x0e, 0x1b, 8, 0, 0] @ [120, 98, 0]) sects
        = Some ([97], [98])"
proof -
  define sect where "sect = (\<lambda>name off size. \<lparr>ms_sectname = take 16 (name @ replicate 16 0), ms_segname = take 16 (bstr ''__DWARF'' @ replicate 16 0),
          ms_addr = 0, ms_size = size, ms_offset = off, ms_p2align = 0, ms_reloff = 0, ms_nreloc = 0,
          ms_flags = 0, ms_reserved1 = 0, ms_reserved2 = 0, ms_reserved3 = 0\<rparr>)"
  let ?sects = "[sect (bstr ''__debug_info'') 0 18, sect (bstr ''__debug_abbrev'') 18 9, sect (bstr ''__debug_str'') 27 3]"
  let ?file = "[0, 0, 0, 0, 4, 0, 0, 0, 0, 0, 8, 1, 1, 0, 0, 0, 97, 0] @ [1, 0x11, 0, 3, 0x0e, 0x1b, 8, 0, 0] @ [120, 98, 0] :: bytes"
  let ?ab = "\<lparr>da_code = 1, da_tag = 0x11, da_children = 0, da_specs = [(3, 0x0e, 0), (0x1b, 8, 0)]\<rparr>"
  let ?vs = "[Strp (ucast (1 :: u32)), Inline [97]]" and ?bss = "[le_bytes 4 (1 :: u32), [97] @ [0]]"
  have s: "dw_section ?file ?sects (bstr ''__debug_info'') = Some (unit_header 0 4 0 8 0 @ encode_uleb (da_code ?ab) @ concat ?bss @ [])"
    "dw_section ?file ?sects (bstr ''__debug_abbrev'') = Some ([] @ concat (map abbrev_bytes []) @ abbrev_bytes ?ab @ [])"
    "dw_section ?file ?sects (bstr ''__debug_str'') = Some [120, 98, 0]" "dw_section ?file ?sects (bstr ''__debug_line_str'') = None"
    "dw_section ?file ?sects (bstr ''__debug_str_offs'') = None"
    unfolding sect_def by code_simp+
  have e: "encodes_all (unat (8 :: u8)) (da_specs ?ab) ?bss ?vs"
    by (simp only: dw_abbrev.simps encodes_all.simps) (intro conjI TrueI enc_strp enc_string, simp)
  have "compile_unit_name ?file ?sects =
    (let str = dw_string (unwrap_or (dw_section ?file ?sects (bstr ''__debug_str'')) [])
                 (unwrap_or (dw_section ?file ?sects (bstr ''__debug_line_str'')) [])
                 (unwrap_or (dw_section ?file ?sects (bstr ''__debug_str_offs'')) []) None;
         name = Option.bind (last_opt (attr_values 0x03 (da_specs ?ab) ?vs)) str;
         dir = Option.bind (last_opt (attr_values 0x1b (da_specs ?ab) ?vs)) str
     in map_option (\<lambda>n. (unwrap_or dir [], n)) name)"
    by (rule compile_unit_name_correct [OF s(1,2) _ _ _ _ _ _ e])
       (simp_all add: specs_ok_def attr_values_def other_values_def last_opt_def no_wrap_def map_filter_simps)
  also have "\<dots> = Some ([97], [98])" unfolding s(3-5) by code_simp
  finally show ?thesis unfolding Let_def sect_def .
qed

end
