(* ===== verification/InputFiles.thy ===== *)
theory InputFiles
  imports Macho
begin

unbundle bit_operations_syntax

section \<open>Input files: views, types, universal files and archives\<close>

text \<open>
  \<open>macho/mapped_file.rs\<close> (the views of a file; opening one is input and output and not modelled),
  \<open>macho/filetype.rs\<close> and \<open>macho/archive_file.rs\<close>. A file name is its bytes. The substring search of
  the \<^verbatim>\<open>memchr\<close> crate is a parameter, of which the theorems use the contract \<open>substring_search\<close>. The
  outer \<open>option\<close> of a result is a panic where the code can panic.
\<close>

subsection \<open>Views\<close>

datatype mapped_file =
  MappedFile (mf_name: bytes) (mf_data: bytes) (mf_parent: "mapped_file option") (mf_mtime: "nat option")

definition mf_size :: "mapped_file \<Rightarrow> nat" where
  "mf_size mf = length (mf_data mf)"

definition mf_part :: "mapped_file \<Rightarrow> bytes \<Rightarrow> nat \<Rightarrow> nat \<Rightarrow> nat option \<Rightarrow> mapped_file option" where
  "mf_part mf name start sz mtime =
     (if start \<le> mf_size mf \<and> sz \<le> mf_size mf - start
      then Some (MappedFile name (take sz (drop start (mf_data mf))) (Some mf) mtime) else None)"

definition mf_slice :: "mapped_file \<Rightarrow> bytes \<Rightarrow> nat \<Rightarrow> nat \<Rightarrow> mapped_file option" where
  "mf_slice mf name start sz = mf_part mf name start sz None"

definition mf_member :: "mapped_file \<Rightarrow> bytes \<Rightarrow> nat \<Rightarrow> nat \<Rightarrow> nat \<Rightarrow> mapped_file option" where
  "mf_member mf name start sz date = mf_part mf name start sz (Some date)"

definition mf_synthesized :: "bytes \<Rightarrow> bytes \<Rightarrow> mapped_file" where
  "mf_synthesized name data = MappedFile name data None None"

subsection \<open>File types\<close>

datatype file_type = FUnknown | FEmpty | FObject | FDylib | FArchive | FTapi | FFat | FLlvmBitcode

definition macho_header :: "bytes \<Rightarrow> mach_header option" where
  "macho_header data =
     (if length data < fr_size mach_header_rec then None
      else do { hdr \<leftarrow> read_from mach_header_rec data;
                if mh_magic hdr = MH_MAGIC_64 then Some hdr else None })"

record target =
  tgt_cputype :: u32
  tgt_name :: bytes

definition tgt_arm64 :: target where
  "tgt_arm64 = \<lparr>tgt_cputype = CPU_TYPE_ARM64, tgt_name = bstr ''arm64''\<rparr>"

definition tgt_x86_64 :: target where
  "tgt_x86_64 = \<lparr>tgt_cputype = CPU_TYPE_X86_64, tgt_name = bstr ''x86_64''\<rparr>"

definition cputype_name :: "u32 \<Rightarrow> bytes option" where
  "cputype_name cputype =
     (if cputype = tgt_cputype tgt_arm64 then Some (tgt_name tgt_arm64)
      else if cputype = tgt_cputype tgt_x86_64 then Some (tgt_name tgt_x86_64)
      else None)"

definition get_macho_target :: "bytes \<Rightarrow> bytes option" where
  "get_macho_target data = do { hdr \<leftarrow> macho_header data; cputype_name (mh_cputype hdr) }"

definition get_macho_filetype :: "bytes \<Rightarrow> u32 option" where
  "get_macho_filetype data = map_option mh_filetype (macho_header data)"

text \<open>\<^verbatim>\<open>Path::extension\<close>: what follows the last dot of the last component, unless the dot starts it.\<close>

definition path_extension :: "bytes \<Rightarrow> bytes option" where
  "path_extension name =
     (let comps = filter (\<lambda>c. c \<noteq> [] \<and> c \<noteq> bstr ''.'') (split_bytes 0x2f name)
      in if comps = [] \<or> last comps = bstr ''..'' then None
         else let leaf = last comps; ext = rev (takeWhile (\<lambda>c. c \<noteq> 0x2e) (rev leaf))
              in if length ext + 1 < length leaf then Some ext else None)"

text \<open>\<^verbatim>\<open>data.windows(n).any(|w| w == p)\<close>.\<close>

definition has_window :: "bytes \<Rightarrow> bytes \<Rightarrow> bool" where
  "has_window p data \<longleftrightarrow> list_ex (\<lambda>i. take (length p) (drop i data) = p) [0..<length data + 1 - length p]"

definition get_file_type :: "mapped_file \<Rightarrow> file_type" where
  "get_file_type mf =
     (let data = mf_data mf in
      if data = [] then FEmpty
      else if 8 \<le> length data \<and> take 8 data = bstr ''!<arch>'' @ [0x0a] then FArchive
      else if starts_with data (bstr ''--- !tapi-tbd'') \<or> starts_with data (bstr ''---'' @ [0x0a] @ bstr ''archs:'') then FTapi
      else if starts_with data (bstr ''{'') \<and>
              (path_extension (mf_name mf) = Some (bstr ''tbd'') \<or> has_window (bstr ''tapi_tbd_version'') data) then FTapi
      else if starts_with data (le_bytes 4 (0x0b17c0de :: u32)) then FLlvmBitcode
      else case macho_header data of
             Some hdr \<Rightarrow> if mh_filetype hdr = MH_OBJECT then FObject
                         else if mh_filetype hdr = MH_DYLIB then FDylib else FUnknown
           | None \<Rightarrow> if fr_size mach_header_rec \<le> length data \<and> starts_with data (be_bytes 4 FAT_MAGIC) then FFat
                     else FUnknown)"

subsection \<open>Architectures\<close>

definition arch_name :: "u32 \<Rightarrow> u32 \<Rightarrow> bytes" where
  "arch_name cputype cpusubtype =
     (let sub = cpusubtype AND NOT CPU_SUBTYPE_MASK in
      if cputype = CPU_TYPE_X86_64 then (if sub = CPU_SUBTYPE_X86_64_H then bstr ''x86_64h'' else bstr ''x86_64'')
      else if cputype = CPU_TYPE_ARM64 then (if sub = CPU_SUBTYPE_ARM64E then bstr ''arm64e'' else bstr ''arm64'')
      else bstr ''unknown'')"

definition takes_arch :: "target \<Rightarrow> u32 \<Rightarrow> u32 \<Rightarrow> u32 \<Rightarrow> bool" where
  "takes_arch E filetype cputype cpusubtype \<longleftrightarrow>
     (if filetype = MH_DYLIB then cputype = tgt_cputype E else arch_name cputype cpusubtype = tgt_name E)"

definition foreign_arch :: "target \<Rightarrow> mapped_file \<Rightarrow> bytes option option" where
  "foreign_arch E mf =
     do { hdr \<leftarrow> read_from mach_header_rec (mf_data mf);
          Some (if takes_arch E (mh_filetype hdr) (mh_cputype hdr) (mh_cpusubtype hdr) then None
                else Some (arch_name (mh_cputype hdr) (mh_cpusubtype hdr))) }"

definition is_subtype_mismatch :: "target \<Rightarrow> mapped_file \<Rightarrow> bool option" where
  "is_subtype_mismatch E mf =
     do { hdr \<leftarrow> read_from mach_header_rec (mf_data mf);
          Some (mh_cputype hdr = tgt_cputype E \<and> arch_name (mh_cputype hdr) (mh_cpusubtype hdr) \<noteq> bstr ''arm64e'') }"

subsection \<open>Universal files\<close>

type_synonym fat_arch = "u32 \<times> u32 \<times> nat \<times> nat"

definition read_be32 :: "bytes \<Rightarrow> nat \<Rightarrow> u32 option" where
  "read_be32 data off = map_option from_be (slice_at data off 4)"

fun fat_arches_loop :: "bytes \<Rightarrow> nat \<Rightarrow> nat \<Rightarrow> fat_arch list option" where
  "fat_arches_loop data i 0 = Some []"
| "fat_arches_loop data i (Suc n) =
     (let off = 8 + i * 20
      in do { cputype \<leftarrow> read_be32 data off;
              cpusubtype \<leftarrow> read_be32 data (off + 4);
              offset \<leftarrow> read_be32 data (off + 8);
              sz \<leftarrow> read_be32 data (off + 12);
              rest \<leftarrow> fat_arches_loop data (i + 1) n;
              Some ((cputype, cpusubtype, unat offset, unat sz) # rest) })"

definition fat_arches :: "mapped_file \<Rightarrow> fat_arch list option" where
  "fat_arches mf = do { n \<leftarrow> read_be32 (mf_data mf) 4; fat_arches_loop (mf_data mf) 0 (unat n) }"

definition fat_arch_names :: "mapped_file \<Rightarrow> bytes list option" where
  "fat_arch_names mf = map_option (map (\<lambda>(cputype, cpusubtype, _, _). arch_name cputype cpusubtype)) (fat_arches mf)"

text \<open>\<^verbatim>\<open>find\<close> with a test that can panic: it stops at the first hit.\<close>

fun find_panic :: "('a \<Rightarrow> bool option) \<Rightarrow> 'a list \<Rightarrow> 'a option option" where
  "find_panic P [] = Some None"
| "find_panic P (x # xs) = do { b \<leftarrow> P x; if b then Some (Some x) else find_panic P xs }"

definition dylib_slice :: "target \<Rightarrow> bool \<Rightarrow> mapped_file \<Rightarrow> fat_arch \<Rightarrow> bool option" where
  "dylib_slice E must_match mf s =
     (case s of (cputype, cpusubtype, off, _) \<Rightarrow>
        do { bytes \<leftarrow> slice_from (mf_data mf) off;
             hdr \<leftarrow> read_from mach_header_rec bytes;
             Some (\<not> must_match \<and> takes_arch E (mh_filetype hdr) cputype cpusubtype) })"

definition fat_slice :: "target \<Rightarrow> bool \<Rightarrow> bool \<Rightarrow> mapped_file \<Rightarrow> mapped_file option option" where
  "fat_slice E must_match allow_mismatch mf =
     do { slices \<leftarrow> fat_arches mf;
          found \<leftarrow>
            (case List.find (\<lambda>(cputype, cpusubtype, _, _). arch_name cputype cpusubtype = tgt_name E) slices of
               Some s \<Rightarrow> Some (Some s)
             | None \<Rightarrow>
                 do { d \<leftarrow> find_panic (dylib_slice E must_match mf) slices;
                      Some (case d of Some s \<Rightarrow> Some s
                            | None \<Rightarrow> List.find (\<lambda>(cputype, cpusubtype, _, _).
                                  allow_mismatch \<and> cputype = tgt_cputype E \<and> arch_name cputype cpusubtype \<noteq> bstr ''arm64e'') slices) });
          case found of
            None \<Rightarrow> Some None
          | Some (_, _, off, sz) \<Rightarrow>
              map_option Some (mf_slice mf (mf_name mf @ bstr ''(for architecture '' @ tgt_name E @ bstr '')'') off sz) }"

definition fat_tag :: bytes where
  "fat_tag = bstr ''(for architecture ''"

definition split_fat_arch :: "(bytes \<Rightarrow> bytes \<Rightarrow> nat option) \<Rightarrow> bytes \<Rightarrow> bytes \<times> bytes option" where
  "split_fat_arch search name =
     (case search name fat_tag of
        Some i \<Rightarrow> if strip_suffix name (bstr '')'') \<noteq> None
                  then (take i name, Some (drop (i + length fat_tag) (butlast name))) else (name, None)
      | None \<Rightarrow> (name, None))"

definition without_fat_arch :: "(bytes \<Rightarrow> bytes \<Rightarrow> nat option) \<Rightarrow> bytes \<Rightarrow> bytes" where
  "without_fat_arch search name =
     (case search name (bstr ''(for architecture'') of
        None \<Rightarrow> name
      | Some i \<Rightarrow>
          (case position (\<lambda>c. c = 0x29) (drop i name) of
             None \<Rightarrow> name
           | Some len \<Rightarrow> take i name @ drop (i + len + 1) name))"

subsection \<open>Archives\<close>

record ar_header =
  ah_name :: bytes
  ah_date :: nat
  ah_size :: nat

definition is_ascii_ws :: "u8 \<Rightarrow> bool" where
  "is_ascii_ws b \<longleftrightarrow> b \<in> {0x20, 0x09, 0x0a, 0x0c, 0x0d}"

definition is_digit :: "u8 \<Rightarrow> bool" where
  "is_digit b \<longleftrightarrow> 0x30 \<le> b \<and> b \<le> 0x39"

definition parse_decimal :: "bytes \<Rightarrow> nat" where
  "parse_decimal bs =
     foldl (\<lambda>acc b. acc * 10 + unat (b - 0x30)) 0 (takeWhile is_digit (dropWhile is_ascii_ws bs))"

definition ar_parse :: "bytes \<Rightarrow> ar_header option" where
  "ar_parse bs =
     do { bs \<leftarrow> slice_at bs 0 60;
          let date = parse_decimal (take 12 (drop 16 bs));
          let sz = parse_decimal (take 10 (drop 48 bs));
          Some \<lparr>ah_name = take 16 bs, ah_date = date, ah_size = sz\<rparr> }"

definition ar_is_strtab :: "ar_header \<Rightarrow> bool" where
  "ar_is_strtab hdr \<longleftrightarrow> starts_with (ah_name hdr) (bstr ''// '')"

definition ar_is_symtab :: "ar_header \<Rightarrow> bool" where
  "ar_is_symtab hdr \<longleftrightarrow> starts_with (ah_name hdr) (bstr ''/ '') \<or> starts_with (ah_name hdr) (bstr ''/SYM64/ '')"

definition strip_prefix :: "bytes \<Rightarrow> bytes \<Rightarrow> bytes option" where
  "strip_prefix bs p = (if starts_with bs p then Some (drop (length p) bs) else None)"

text \<open>The member's name, and the body after it.\<close>

definition ar_read_name :: "(bytes \<Rightarrow> bytes \<Rightarrow> nat option) \<Rightarrow> ar_header \<Rightarrow> bytes \<Rightarrow> bytes \<Rightarrow> bytes \<times> bytes" where
  "ar_read_name search hdr strtab body =
     (case strip_prefix (ah_name hdr) (bstr ''#1/'') of
        Some rest \<Rightarrow>
          (let n = min (parse_decimal rest) (length body)
           in (takeWhile (\<lambda>b. b \<noteq> 0) (take n body), drop n body))
      | None \<Rightarrow>
          (case strip_prefix (ah_name hdr) (bstr ''/'') of
             Some rest \<Rightarrow>
               (let start = unwrap_or (slice_from strtab (parse_decimal rest)) [];
                    fin = unwrap_or (search start (bstr ''/'' @ [0x0a])) (length start)
                in (take fin start, body))
           | None \<Rightarrow>
               (let fin = unwrap_or (position (\<lambda>b. b = 0x2f) (ah_name hdr)) (length (ah_name hdr))
                in (rev (dropWhile is_ascii_ws (rev (take fin (ah_name hdr)))), body))))"

lemma slice_60: "ar_parse (drop p data) = Some hdr \<Longrightarrow> p + 60 \<le> length data"
  by (auto simp: ar_parse_def slice_at_def split: if_splits)

text \<open>The members as the iterator gives them, each as its name, where its body starts, and its date.\<close>

function archive_loop :: "(bytes \<Rightarrow> bytes \<Rightarrow> nat option) \<Rightarrow> bytes \<Rightarrow> nat \<Rightarrow> bytes \<Rightarrow> (bytes \<times> nat \<times> bytes \<times> nat) list option" where
  "archive_loop search data pos strtab =
     (if length data < pos then None
      else if length data - pos < 2 then Some []
      else
        (let pos = (if pos mod 2 \<noteq> 0 then pos + 1 else pos)
         in case ar_parse (drop pos data) of
              None \<Rightarrow> Some []
            | Some hdr \<Rightarrow>
                (let body_start = pos + 60;
                     body_end = min (body_start + ah_size hdr) (length data);
                     body = take (body_end - body_start) (drop body_start data)
                 in if ar_is_strtab hdr then archive_loop search data body_end body
                    else if ar_is_symtab hdr then archive_loop search data body_end strtab
                    else (case ar_read_name search hdr strtab body of
                            (name, body) \<Rightarrow>
                              if starts_with name (bstr ''__.SYMDEF'') then archive_loop search data body_end strtab
                              else map_option ((#) (name, body_end - length body, body, ah_date hdr))
                                     (archive_loop search data body_end strtab)))))"
  by pat_completeness auto
termination
  by (relation "measure (\<lambda>(_, data, pos, _). length data - pos)") (auto dest!: slice_60 split: if_splits)

declare archive_loop.simps [simp del]

definition archive_members :: "(bytes \<Rightarrow> bytes \<Rightarrow> nat option) \<Rightarrow> mapped_file \<Rightarrow> (bytes \<times> nat \<times> bytes \<times> nat) list option" where
  "archive_members search mf = archive_loop search (mf_data mf) 8 []"

definition read_archive_members :: "(bytes \<Rightarrow> bytes \<Rightarrow> nat option) \<Rightarrow> mapped_file \<Rightarrow> mapped_file list option" where
  "read_archive_members search mf =
     do { ms \<leftarrow> archive_members search mf;
          those (map (\<lambda>(name, start, body, date).
            mf_member mf (mf_name mf @ bstr ''('' @ name @ bstr '')'') start (length body) date) ms) }"

subsection \<open>Universal files read back\<close>

definition fat_entry :: "u32 \<times> u32 \<times> u32 \<times> u32 \<times> u32 \<Rightarrow> bytes" where
  "fat_entry e = (case e of (cputype, cpusubtype, off, sz, align) \<Rightarrow>
     be_bytes 4 cputype @ be_bytes 4 cpusubtype @ be_bytes 4 off @ be_bytes 4 sz @ be_bytes 4 align)"

definition fat_header :: "(u32 \<times> u32 \<times> u32 \<times> u32 \<times> u32) list \<Rightarrow> bytes" where
  "fat_header es = be_bytes 4 FAT_MAGIC @ be_bytes 4 (of_nat (length es) :: u32) @ concat (map fat_entry es)"

definition fat_arch_of :: "u32 \<times> u32 \<times> u32 \<times> u32 \<times> u32 \<Rightarrow> fat_arch" where
  "fat_arch_of e = (case e of (cputype, cpusubtype, off, sz, align) \<Rightarrow> (cputype, cpusubtype, unat off, unat sz))"

lemma from_be_be_bytes [simp]: "from_be (be_bytes 4 (w :: u32)) = w"
  by (simp add: from_be_def be_bytes_def)

lemma read_be32_here: "length pre = off \<Longrightarrow> read_be32 (pre @ be_bytes 4 w @ rest) off = Some w"
  by (simp add: read_be32_def)

lemma length_fat_entry: "length (fat_entry e) = 20"
  by (cases e) (simp add: fat_entry_def)

lemma fat_arches_loop_eq:
  "length pre = 8 + i * 20 \<Longrightarrow>
   fat_arches_loop (pre @ concat (map fat_entry es) @ rest) i (length es) = Some (map fat_arch_of es)"
proof (induction es arbitrary: i pre)
  case Nil
  then show ?case by simp
next
  case (Cons e es)
  obtain ct sub off sz al where e: "e = (ct, sub, off, sz, al)" by (cases e)
  let ?data = "pre @ concat (map fat_entry (e # es)) @ rest"
  have r: "read_be32 ?data (8 + i * 20) = Some ct" "read_be32 ?data (8 + i * 20 + 4) = Some sub"
    "read_be32 ?data (8 + i * 20 + 8) = Some off" "read_be32 ?data (8 + i * 20 + 12) = Some sz"
    using Cons.prems read_be32_here [of pre _ ct] read_be32_here [of "pre @ be_bytes 4 ct" _ sub]
      read_be32_here [of "pre @ be_bytes 4 ct @ be_bytes 4 sub" _ off]
      read_be32_here [of "pre @ be_bytes 4 ct @ be_bytes 4 sub @ be_bytes 4 off" _ sz]
    by (simp_all add: e fat_entry_def)
  have "fat_arches_loop ((pre @ fat_entry e) @ concat (map fat_entry es) @ rest) (i + 1) (length es) = Some (map fat_arch_of es)"
    using Cons.prems by (intro Cons.IH) (simp add: length_fat_entry)
  then show ?case using r by (simp add: e fat_arch_of_def Let_def)
qed

lemma fat_arches_eq:
  assumes "mf_data mf = fat_header es @ rest" and "length es < 2 ^ 32"
  shows "fat_arches mf = Some (map fat_arch_of es)"
proof -
  have "read_be32 (mf_data mf) 4 = Some (of_nat (length es))"
    using read_be32_here [of "be_bytes 4 FAT_MAGIC" 4] assms by (simp add: fat_header_def)
  moreover have "unat (of_nat (length es) :: u32) = length es"
    using assms(2) by (simp add: unat_of_nat take_bit_nat_eq_self)
  moreover have "fat_arches_loop (mf_data mf) 0 (length es) = Some (map fat_arch_of es)"
    using fat_arches_loop_eq [of "be_bytes 4 FAT_MAGIC @ be_bytes 4 (of_nat (length es) :: u32)" 0 es rest] assms(1)
    by (simp add: fat_header_def)
  ultimately show ?thesis by (simp add: fat_arches_def)
qed

lemma find_first: "P x \<Longrightarrow> \<forall>y \<in> set ys. \<not> P y \<Longrightarrow> List.find P (ys @ x # zs) = Some x"
  by (induction ys) auto

text \<open>A tag does not overlap itself, so the first one behind a path without one is at the path's end.\<close>

lemma fat_tag_nth: "0 < k \<Longrightarrow> k < length fat_tag \<Longrightarrow> fat_tag ! k \<noteq> hd fat_tag"
proof -
  have "list_all (\<lambda>k. fat_tag ! k \<noteq> hd fat_tag) [1..<length fat_tag]" by code_simp
  then show "0 < k \<Longrightarrow> k < length fat_tag \<Longrightarrow> fat_tag ! k \<noteq> hd fat_tag" by (simp add: list_all_iff)
qed

lemma no_tag_before:
  assumes "\<forall>q \<le> length path. \<not> starts_with (drop q path) fat_tag" and "q < length path"
  shows "\<not> starts_with (drop q (path @ fat_tag @ rest)) fat_tag"
proof
  assume m: "starts_with (drop q (path @ fat_tag @ rest)) fat_tag"
  let ?k = "length path - q"
  show False
  proof (cases "length fat_tag \<le> ?k")
    case True
    then have "starts_with (drop q path) fat_tag" using m by (simp add: starts_with_def)
    with assms show False by simp
  next
    case False
    then have k: "?k < length fat_tag" "0 < ?k" using assms(2) by simp_all
    have "take (length fat_tag) (drop q (path @ fat_tag @ rest)) ! ?k = hd fat_tag"
      using k assms(2) by (simp add: nth_append fat_tag_def bstr_def)
    with m k fat_tag_nth [of ?k] show False by (simp add: starts_with_def)
  qed
qed

context substring_search
begin

lemma first_tag:
  assumes "\<forall>q \<le> length path. \<not> starts_with (drop q path) fat_tag"
  shows "search (path @ fat_tag @ rest) fat_tag = Some (length path)"
proof (cases "search (path @ fat_tag @ rest) fat_tag")
  case None
  then have "\<not> starts_with (drop (length path) (path @ fat_tag @ rest)) fat_tag"
    by (rule find_None) simp
  then show ?thesis by (simp add: starts_with_def)
next
  case (Some i)
  note f = find_Some [OF Some]
  have "\<not> i < length path" using f no_tag_before [OF assms, of i rest] by blast
  moreover have "\<not> length path < i"
    using f by (auto simp: starts_with_def dest!: spec [of _ "length path"])
  ultimately show ?thesis using Some by simp
qed

lemma split_fat_arch_eq:
  assumes "\<forall>q \<le> length path. \<not> starts_with (drop q path) fat_tag"
  shows "split_fat_arch search (path @ fat_tag @ arch @ bstr '')'') = (path, Some arch)"
proof -
  have "strip_suffix (path @ fat_tag @ arch @ bstr '')'') (bstr '')'') = Some (path @ fat_tag @ arch)"
    using strip_suffix_snoc [of "path @ fat_tag @ arch" "bstr '')''"] by simp
  then show ?thesis
    by (simp add: split_fat_arch_def first_tag [OF assms] butlast_append bstr_def)
qed

end

text \<open>
  C23. From a universal file the link takes the slice built for exactly its architecture, whatever
  other slices come before it and whatever the two options say: its bytes are those the header
  names, and the name it is given splits back into the file's path and the architecture.
\<close>

theorem fat_slice_exact:
  assumes search: "substring_search search"
    and data: "mf_data mf = fat_header (before @ (cputype, cpusubtype, off, sz, align) # others) @ rest"
    and n: "length before + length others + 1 < 2 ^ 32"
    and arch: "arch_name cputype cpusubtype = tgt_name E"
    and first: "\<forall>(ct, sub, _) \<in> set before. arch_name ct sub \<noteq> tgt_name E"
    and room: "unat off + unat sz \<le> length (mf_data mf)"
    and path: "\<forall>q \<le> length (mf_name mf). \<not> starts_with (drop q (mf_name mf)) fat_tag"
  shows "\<exists>slice. fat_slice E must_match allow_mismatch mf = Some (Some slice) \<and>
    mf_data slice = take (unat sz) (drop (unat off) (mf_data mf)) \<and> mf_parent slice = Some mf \<and>
    split_fat_arch search (mf_name slice) = (mf_name mf, Some (tgt_name E))"
proof -
  let ?es = "before @ (cputype, cpusubtype, off, sz, align) # others"
  have fa: "fat_arches mf = Some (map fat_arch_of ?es)"
    using data n by (intro fat_arches_eq) auto
  have fd: "List.find (\<lambda>(ct, sub, _, _). arch_name ct sub = tgt_name E) (map fat_arch_of ?es) =
      Some (cputype, cpusubtype, unat off, unat sz)"
    unfolding map_append list.map
    by (subst find_first) (use arch first in \<open>auto simp: fat_arch_of_def\<close>)
  let ?slice = "MappedFile (mf_name mf @ fat_tag @ tgt_name E @ bstr '')'') (take (unat sz) (drop (unat off) (mf_data mf))) (Some mf) None"
  have "fat_slice E must_match allow_mismatch mf = Some (Some ?slice)"
    using room by (simp add: fat_slice_def fa fd [simplified] mf_slice_def mf_part_def mf_size_def fat_tag_def)
  moreover have "split_fat_arch search (mf_name ?slice) = (mf_name mf, Some (tgt_name E))"
    using substring_search.split_fat_arch_eq [OF search path] by simp
  ultimately show ?thesis by (intro exI [of _ ?slice]) simp
qed

text \<open>An x86_64 link takes the second slice of a file for arm64 and x86_64.\<close>

theorem fat_slice_exact_witness:
  "let mf = MappedFile (bstr ''a.o'') (fat_header [(CPU_TYPE_ARM64, 0, 48, 1, 0), (CPU_TYPE_X86_64, 3, 49, 2, 0)] @ [1, 2, 3]) None None
   in \<exists>slice. fat_slice tgt_x86_64 False False mf = Some (Some slice) \<and>
        split_fat_arch memmem_find (mf_name slice) = (bstr ''a.o'', Some (bstr ''x86_64''))"
proof -
  let ?mf = "MappedFile (bstr ''a.o'') (fat_header ([(CPU_TYPE_ARM64, 0, 48, 1, 0)] @ (CPU_TYPE_X86_64, 3, 49, 2, 0) # []) @ [1, 2, 3]) None None"
  have "\<forall>q \<le> length (bstr ''a.o''). \<not> starts_with (drop q (bstr ''a.o'')) fat_tag"
    by (auto simp: starts_with_def fat_tag_def bstr_def dest: arg_cong [of _ _ length])
  moreover have "arch_name CPU_TYPE_X86_64 3 = bstr ''x86_64''" "arch_name CPU_TYPE_ARM64 0 \<noteq> bstr ''x86_64''" by code_simp+
  ultimately have "\<exists>slice. fat_slice tgt_x86_64 False False ?mf = Some (Some slice) \<and>
    mf_data slice = take (unat (2 :: u32)) (drop (unat (49 :: u32)) (mf_data ?mf)) \<and> mf_parent slice = Some ?mf \<and>
    split_fat_arch memmem_find (mf_name slice) = (mf_name ?mf, Some (tgt_name tgt_x86_64))"
    by (intro fat_slice_exact [OF memmem.substring_search_axioms, of ?mf "[(CPU_TYPE_ARM64, 0, 48, 1, 0)]" CPU_TYPE_X86_64 3 49 2 0 "[]" "[1, 2, 3]"])
       (simp_all add: tgt_x86_64_def fat_header_def fat_entry_def)
  then show ?thesis by (auto simp: tgt_x86_64_def Let_def)
qed

subsection \<open>Archives read back\<close>

text \<open>
  The archives the tools write: symbol tables, a string table of long names, and members whose names
  are in Apple's form (after the header), in the space-padded or slash-terminated form, or offsets
  into the string table.
\<close>

datatype ar_style = ArBsd nat | ArPlain | ArSlash | ArSysv nat

datatype ar_kind = KSymtab bool bytes | KStrtab bytes | KMember ar_style bytes bytes

record ar_item =
  ai_kind :: ar_kind
  ai_date :: nat
  ai_other :: bytes
  ai_end :: bytes
  ai_pad :: u8

definition pad_field :: "nat \<Rightarrow> bytes \<Rightarrow> bytes" where
  "pad_field n bs = bs @ replicate (n - length bs) 0x20"

fun ar_field :: "ar_kind \<Rightarrow> bytes" where
  "ar_field (KSymtab wide b) = (if wide then bstr ''/SYM64/'' else bstr ''/'')"
| "ar_field (KStrtab b) = bstr ''//''"
| "ar_field (KMember (ArBsd k) name b) = bstr ''#1/'' @ dec (length name + k)"
| "ar_field (KMember ArPlain name b) = name"
| "ar_field (KMember ArSlash name b) = name @ bstr ''/''"
| "ar_field (KMember (ArSysv off) name b) = bstr ''/'' @ dec off"

fun ar_payload :: "ar_kind \<Rightarrow> bytes" where
  "ar_payload (KSymtab wide b) = b"
| "ar_payload (KStrtab b) = b"
| "ar_payload (KMember (ArBsd k) name b) = name @ replicate k 0 @ b"
| "ar_payload (KMember _ name b) = b"

definition item_header :: "ar_item \<Rightarrow> bytes" where
  "item_header i = pad_field 16 (ar_field (ai_kind i)) @ pad_field 12 (dec (ai_date i)) @ ai_other i
     @ pad_field 10 (dec (length (ar_payload (ai_kind i)))) @ ai_end i"

definition item_bytes :: "ar_item \<Rightarrow> bytes" where
  "item_bytes i = item_header i @ ar_payload (ai_kind i) @ (if odd (length (ar_payload (ai_kind i))) then [ai_pad i] else [])"

fun kind_ok :: "bytes \<Rightarrow> ar_kind \<Rightarrow> bool" where
  "kind_ok strtab (KSymtab wide b) = True"
| "kind_ok strtab (KStrtab b) = True"
| "kind_ok strtab (KMember (ArBsd k) name b) \<longleftrightarrow> 0 \<notin> set name \<and> length name + k < 10 ^ 13"
| "kind_ok strtab (KMember ArPlain name b) \<longleftrightarrow> name \<noteq> [] \<and> length name \<le> 16 \<and> 0x2f \<notin> set name \<and> \<not> is_ascii_ws (last name)"
| "kind_ok strtab (KMember ArSlash name b) \<longleftrightarrow> name \<noteq> [] \<and> name \<noteq> bstr ''#1'' \<and> length name < 16 \<and> 0x2f \<notin> set name \<and> \<not> is_ascii_ws (last name)"
| "kind_ok strtab (KMember (ArSysv off) name b) \<longleftrightarrow>
     off < 10 ^ 15 \<and> 0x0a \<notin> set name \<and> take (length name + 2) (drop off strtab) = name @ [0x2f, 0x0a]"

definition item_ok :: "bytes \<Rightarrow> ar_item \<Rightarrow> bool" where
  "item_ok strtab i \<longleftrightarrow> kind_ok strtab (ai_kind i) \<and> ai_date i < 10 ^ 12 \<and> length (ar_payload (ai_kind i)) < 10 ^ 10
     \<and> length (ai_other i) = 20 \<and> length (ai_end i) = 2"

fun next_strtab :: "bytes \<Rightarrow> ar_kind \<Rightarrow> bytes" where
  "next_strtab strtab (KStrtab b) = b"
| "next_strtab strtab _ = strtab"

fun items_ok :: "bytes \<Rightarrow> ar_item list \<Rightarrow> bool" where
  "items_ok strtab [] = True"
| "items_ok strtab (i # is) \<longleftrightarrow> item_ok strtab i \<and> items_ok (next_strtab strtab (ai_kind i)) is"

text \<open>What the reader should give of an item whose bytes start at \<open>off\<close>.\<close>

fun item_member :: "nat \<Rightarrow> nat \<Rightarrow> ar_kind \<Rightarrow> (bytes \<times> nat \<times> bytes \<times> nat) list" where
  "item_member off date (KMember style name b) =
     (if starts_with name (bstr ''__.SYMDEF'') then []
      else [(name, off + 60 + length (ar_payload (KMember style name b)) - length b, b, date)])"
| "item_member off date _ = []"

fun items_members :: "nat \<Rightarrow> ar_item list \<Rightarrow> (bytes \<times> nat \<times> bytes \<times> nat) list" where
  "items_members off [] = []"
| "items_members off (i # is) = item_member off (ai_date i) (ai_kind i) @ items_members (off + length (item_bytes i)) is"

lemma is_digit_of: "d < 10 \<Longrightarrow> is_digit (of_nat (48 + d)) \<and> unat (of_nat (48 + d) - 0x30 :: u8) = d \<and> \<not> is_ascii_ws (of_nat (48 + d))"
proof -
  have "list_all (\<lambda>d. is_digit (of_nat (48 + d)) \<and> unat (of_nat (48 + d) - 0x30 :: u8) = d \<and> \<not> is_ascii_ws (of_nat (48 + d))) [0..<10]"
    by code_simp
  then show "d < 10 \<Longrightarrow> ?thesis" by (simp only: list_all_iff set_upt atLeastLessThan_iff) simp
qed

lemma dec_digits: "list_all is_digit (dec n) \<and> dec n \<noteq> [] \<and> \<not> is_ascii_ws (hd (dec n)) \<and> foldl (\<lambda>acc b. acc * 10 + unat (b - 0x30)) 0 (dec n) = n"
proof (induction n rule: dec.induct)
  case (1 n)
  show ?case
  proof (cases "n < 10")
    case True
    then show ?thesis using is_digit_of [OF True] by (subst (1 2 3 4) dec.simps) (simp del: of_nat_add)
  next
    case False
    note IH = "1.IH" [OF False] and d = is_digit_of [of "n mod 10"]
    have "dec n = dec (n div 10) @ [of_nat (48 + n mod 10)]" using False by (subst dec.simps) simp
    then show ?thesis using IH d by (simp del: of_nat_add)
  qed
qed

lemma length_dec: "0 < k \<Longrightarrow> n < 10 ^ k \<Longrightarrow> length (dec n) \<le> k"
proof (induction k arbitrary: n)
  case 0
  then show ?case by simp
next
  case (Suc k)
  show ?case
  proof (cases "n < 10")
    case True
    then show ?thesis by (subst dec.simps) simp
  next
    case False
    then have "0 < k" using Suc.prems by (cases k) auto
    moreover have "n div 10 < 10 ^ k" using Suc.prems by (simp add: less_mult_imp_div_less mult.commute)
    ultimately have "length (dec (n div 10)) \<le> k" by (rule Suc.IH)
    then show ?thesis using False by (subst dec.simps) simp
  qed
qed

lemma parse_decimal_dec: "parse_decimal (dec n @ replicate m 0x20) = n"
proof -
  have w: "dropWhile is_ascii_ws (dec n @ replicate m 0x20) = dec n @ replicate m 0x20"
    using dec_digits [of n] by (cases "dec n") auto
  have sp: "\<not> is_digit 0x20" by (simp add: is_digit_def)
  have "takeWhile is_digit (replicate m 0x20) = []" using sp by (cases m) simp_all
  moreover have "\<forall>x \<in> set (dec n). is_digit x" using dec_digits [of n] by (simp add: list_all_iff)
  ultimately have "takeWhile is_digit (dec n @ replicate m 0x20) = dec n" by simp
  then show ?thesis using dec_digits [of n] by (simp add: parse_decimal_def w)
qed

lemma parse_decimal_field: "parse_decimal (pad_field k (dec n)) = n"
  by (simp add: pad_field_def parse_decimal_dec)

lemma length_pad_field: "length bs \<le> k \<Longrightarrow> length (pad_field k bs) = k"
  by (simp add: pad_field_def)

lemma length_ar_field: "kind_ok strtab k \<Longrightarrow> length (ar_field k) \<le> 16"
proof (cases k)
  case (KMember style name b)
  assume "kind_ok strtab k"
  with KMember show ?thesis
    by (cases style) (use length_dec [of 13] length_dec [of 15] in \<open>force simp: bstr_def\<close>)+
qed (auto simp: bstr_def)

lemma item_header_parse:
  assumes "item_ok strtab i"
  shows "ar_parse (item_header i @ rest) =
      Some \<lparr>ah_name = pad_field 16 (ar_field (ai_kind i)), ah_date = ai_date i, ah_size = length (ar_payload (ai_kind i))\<rparr>"
    and "length (item_header i) = 60"
proof -
  let ?f = "pad_field 16 (ar_field (ai_kind i))" and ?d = "pad_field 12 (dec (ai_date i))"
    and ?s = "pad_field 10 (dec (length (ar_payload (ai_kind i))))"
  have l: "length ?f = 16" "length ?d = 12" "length ?s = 10" "length (ai_other i) = 20" "length (ai_end i) = 2"
    using assms length_ar_field [of strtab "ai_kind i"] length_dec [of 12 "ai_date i"] length_dec [of 10 "length (ar_payload (ai_kind i))"]
    by (simp_all add: item_ok_def length_pad_field)
  show len: "length (item_header i) = 60" using l by (simp add: item_header_def)
  have d: "take 12 (drop 16 (item_header i)) = ?d" and s: "take 10 (drop 48 (item_header i)) = ?s" and n: "take 16 (item_header i) = ?f"
    using l by (simp_all add: item_header_def)
  show "ar_parse (item_header i @ rest) =
      Some \<lparr>ah_name = pad_field 16 (ar_field (ai_kind i)), ah_date = ai_date i, ah_size = length (ar_payload (ai_kind i))\<rparr>"
    using len by (simp add: ar_parse_def slice_at_def d s n parse_decimal_field Let_def)
qed

lemma trim_pad: "name \<noteq> [] \<Longrightarrow> \<not> is_ascii_ws (last name) \<Longrightarrow> rev (dropWhile is_ascii_ws (rev (name @ replicate m 0x20))) = name"
proof -
  assume n: "name \<noteq> []" "\<not> is_ascii_ws (last name)"
  have "dropWhile is_ascii_ws (replicate m 0x20 @ rev name) = dropWhile is_ascii_ws (rev name)"
    by (rule dropWhile_append2) (auto simp: is_ascii_ws_def)
  moreover have "dropWhile is_ascii_ws (rev name) = rev name" using n by (cases name rule: rev_cases) auto
  ultimately show ?thesis by simp
qed

lemma position_none_iff: "position P xs = None \<longleftrightarrow> (\<forall>x \<in> set xs. \<not> P x)"
  by (rule position_none)

lemma position_first: "\<forall>x \<in> set xs. \<not> P x \<Longrightarrow> P y \<Longrightarrow> position P (xs @ y # zs) = Some (length xs)"
  by (simp add: position_def)

lemma starts_with_Cons: "starts_with (x # xs) (y # ys) \<longleftrightarrow> x = y \<and> starts_with xs ys"
  by (simp add: starts_with_def)

lemma starts_with_Nil: "starts_with xs []"
  by (simp add: starts_with_def)

lemma not_starts_with_slash: "0x2f \<notin> set xs \<Longrightarrow> 0x2f \<in> set p \<Longrightarrow> \<not> starts_with xs p"
  unfolding starts_with_def by (metis in_set_takeD)

lemma take_2_nth: "take 2 (drop i xs) = [a, b] \<Longrightarrow> xs ! Suc i = b"
proof -
  assume t: "take 2 (drop i xs) = [a, b]"
  then have "i \<le> length xs" by (cases "i \<le> length xs") auto
  then have "xs ! Suc i = drop i xs ! 1" by simp
  also have "\<dots> = take 2 (drop i xs) ! 1" by (rule nth_take [symmetric]) simp
  finally show ?thesis using t by simp
qed

context substring_search
begin

lemma search_line:
  assumes "0x0a \<notin> set name"
  shows "search (name @ 0x2f # 0x0a # rest) [0x2f, 0x0a] = Some (length name)"
proof (cases "search (name @ 0x2f # 0x0a # rest) [0x2f, 0x0a]")
  case None
  then have "\<not> starts_with (drop (length name) (name @ 0x2f # 0x0a # rest)) [0x2f, 0x0a]"
    by (rule find_None) simp
  then show ?thesis by (simp add: starts_with_def)
next
  case (Some i)
  note f = find_Some [OF Some]
  have "\<not> i < length name"
  proof
    assume i: "i < length name"
    have "length [0x2f :: u8, 0x0a] = 2" by simp
    then have "take 2 (drop i (name @ 0x2f # 0x0a # rest)) = [0x2f, 0x0a]" using f unfolding starts_with_def by metis
    then have "(name @ 0x2f # 0x0a # rest) ! Suc i = 0x0a" by (rule take_2_nth)
    moreover have "(name @ 0x2f # 0x0a # rest) ! Suc i \<in> insert 0x2f (set name)"
      using i by (cases "Suc i < length name") (auto simp: nth_append)
    ultimately show False using assms by auto
  qed
  moreover have "\<not> length name < i"
    using f by (auto simp: starts_with_def dest!: spec [of _ "length name"])
  ultimately show ?thesis using Some by simp
qed

lemma read_name_member:
  assumes "kind_ok strtab (KMember style name b)"
  shows "ar_read_name search \<lparr>ah_name = pad_field 16 (ar_field (KMember style name b)), ah_date = d, ah_size = n\<rparr> strtab
      (ar_payload (KMember style name b)) = (name, b)"
proof (cases style)
  case (ArBsd k)
  have "strip_prefix (pad_field 16 (bstr ''#1/'' @ dec (length name + k))) (bstr ''#1/'') =
      Some (dec (length name + k) @ replicate (13 - length (dec (length name + k))) 0x20)"
    by (simp add: strip_prefix_def starts_with_def pad_field_def bstr_def)
  moreover have "takeWhile (\<lambda>b. b \<noteq> 0) (name @ replicate k 0) = name"
  proof -
    have "\<forall>x \<in> set name. x \<noteq> 0" using assms ArBsd by auto
    moreover have "takeWhile (\<lambda>b. b \<noteq> 0) (replicate k 0) = []" by (cases k) simp_all
    ultimately show ?thesis by (simp add: takeWhile_append2)
  qed
  ultimately show ?thesis by (simp add: ar_read_name_def ArBsd parse_decimal_dec Let_def)
next
  case ArPlain
  let ?f = "pad_field 16 name"
  have s: "0x2f \<notin> set ?f" using assms ArPlain by (auto simp: pad_field_def)
  then have "position (\<lambda>b. b = 0x2f) ?f = None" by (auto simp: position_none)
  moreover have "strip_prefix ?f (bstr ''#1/'') = None" "strip_prefix ?f (bstr ''/'') = None"
    using not_starts_with_slash [OF s] by (simp_all add: strip_prefix_def bstr_def)
  ultimately show ?thesis using assms ArPlain
    by (simp add: ar_read_name_def unwrap_or_def Let_def pad_field_def trim_pad del: rev_append)
next
  case ArSlash
  let ?f = "pad_field 16 (name @ bstr ''/'')"
  have f: "?f = name @ 0x2f # replicate (15 - length name) 0x20" using assms ArSlash by (simp add: pad_field_def bstr_def)
  have n: "0x2f \<notin> set name" "name \<noteq> []" "name \<noteq> bstr ''#1''" "\<not> is_ascii_ws (last name)" using assms ArSlash by simp_all
  have "position (\<lambda>b. b = 0x2f) ?f = Some (length name)" unfolding f using n by (intro position_first) auto
  moreover have "strip_prefix ?f (bstr ''/'') = None"
    unfolding f using n by (cases name) (auto simp: strip_prefix_def bstr_def starts_with_Cons)
  moreover have "strip_prefix ?f (bstr ''#1/'') = None"
  proof -
    have "\<not> starts_with (name @ 0x2f # r) [0x23, 0x31, 0x2f]" for r
    proof
      assume s: "starts_with (name @ 0x2f # r) [0x23, 0x31, 0x2f]"
      consider "name = []" | x where "name = [x]" | x y where "name = [x, y]" | x y z zs where "name = x # y # z # zs"
        by (metis list.exhaust)
      then show False using s n by cases (auto simp: starts_with_Cons bstr_def)
    qed
    then show ?thesis unfolding f by (simp add: strip_prefix_def bstr_def)
  qed
  ultimately show ?thesis using trim_pad [of name 0] n
    by (simp add: ar_read_name_def ArSlash unwrap_or_def Let_def f [simplified])
next
  case (ArSysv off)
  have "strip_prefix (pad_field 16 (bstr ''/'' @ dec off)) (bstr ''/'') =
      Some (dec off @ replicate (15 - length (dec off)) 0x20)"
    and "strip_prefix (pad_field 16 (bstr ''/'' @ dec off)) (bstr ''#1/'') = None"
    by (simp_all add: strip_prefix_def starts_with_def pad_field_def bstr_def)
  moreover have t: "take (length name + 2) (drop off strtab) = name @ [0x2f, 0x0a]" "0x0a \<notin> set name"
    using assms ArSysv by simp_all
  then have "off \<le> length strtab" by (cases "off \<le> length strtab") auto
  moreover obtain rest where "drop off strtab = name @ 0x2f # 0x0a # rest"
    using t(1) append_take_drop_id [of "length name + 2" "drop off strtab"] by (metis append.assoc append_Cons append_Nil)
  ultimately show ?thesis using search_line [OF t(2)]
    by (simp add: ar_read_name_def ArSysv slice_from_def unwrap_or_def parse_decimal_dec Let_def bstr_def)
qed

end

lemma replicate_num: "replicate (numeral n) x = x # replicate (pred_numeral n) x"
  by (simp add: numeral_eq_Suc)

lemma kind_tables:
  assumes "kind_ok strtab k"
  shows "(ar_is_strtab \<lparr>ah_name = pad_field 16 (ar_field k), ah_date = d, ah_size = n\<rparr> \<longleftrightarrow> (\<exists>b. k = KStrtab b)) \<and>
    (ar_is_symtab \<lparr>ah_name = pad_field 16 (ar_field k), ah_date = d, ah_size = n\<rparr> \<longleftrightarrow> (\<exists>w b. k = KSymtab w b))"
proof -
  have digit: "\<exists>x xs. dec m = x # xs \<and> x \<noteq> 0x20 \<and> x \<noteq> 0x2f \<and> x \<noteq> 0x53" for m
    using dec_digits [of m] by (cases "dec m") (auto simp: is_digit_def)
  note simps = ar_is_strtab_def ar_is_symtab_def pad_field_def starts_with_Cons bstr_def
  show ?thesis
  proof (cases k)
    case (KMember style name b)
    show ?thesis
    proof (cases style)
      case (ArSysv off)
      obtain x xs where "dec off = x # xs" "x \<noteq> 0x20" "x \<noteq> 0x2f" "x \<noteq> 0x53" using digit by blast
      then show ?thesis by (simp add: KMember ArSysv simps)
    next
      case ArPlain
      obtain c cs where "name = c # cs" "c \<noteq> 0x2f" using assms KMember ArPlain by (cases name) auto
      then show ?thesis by (simp add: KMember ArPlain simps)
    next
      case ArSlash
      obtain c cs where "name = c # cs" "c \<noteq> 0x2f" using assms KMember ArSlash by (cases name) auto
      then show ?thesis by (simp add: KMember ArSlash simps)
    qed (simp add: KMember simps)
  qed (auto simp: simps replicate_num starts_with_Nil)
qed

context substring_search
begin

lemma archive_loop_step:
  assumes i: "item_ok strtab i" and even: "even (length pre)" and pos: "pos = length pre \<or> odd pos \<and> pos + 1 = length pre"
  shows "\<exists>pos'. (pos' = length (pre @ item_bytes i) \<or> odd pos' \<and> pos' + 1 = length (pre @ item_bytes i)) \<and>
    archive_loop search (pre @ item_bytes i @ rest) pos strtab =
      map_option (\<lambda>ms. item_member (length pre) (ai_date i) (ai_kind i) @ ms)
        (archive_loop search (pre @ item_bytes i @ rest) pos' (next_strtab strtab (ai_kind i)))"
proof -
  let ?k = "ai_kind i"
  define data where "data = pre @ item_bytes i @ rest"
  let ?pay = "ar_payload ?k"
  let ?hdr = "\<lparr>ah_name = pad_field 16 (ar_field ?k), ah_date = ai_date i, ah_size = length ?pay\<rparr>"
  have k: "kind_ok strtab ?k" using i by (simp add: item_ok_def)
  have lh: "length (item_header i) = 60" by (rule item_header_parse(2) [OF i])
  define pos' where "pos' = length pre + 60 + length ?pay"
  have pos': "pos' = length (pre @ item_bytes i) \<or> odd pos' \<and> pos' + 1 = length (pre @ item_bytes i)"
    using even by (simp add: pos'_def item_bytes_def lh)
  have p: "(if pos mod 2 \<noteq> 0 then pos + 1 else pos) = length pre"
  proof (cases "pos = length pre")
    case True
    with even show ?thesis by (simp add: even_iff_mod_2_eq_zero)
  next
    case False
    with pos show ?thesis by (simp add: odd_iff_mod_2_eq_one)
  qed
  have ge: "\<not> length data < pos" "\<not> length data - pos < 2"
    using pos lh by (auto simp: data_def item_bytes_def)
  have parse: "ar_parse (drop (length pre) data) = Some ?hdr"
    by (simp add: data_def item_bytes_def item_header_parse(1) [OF i])
  have be: "min (length pre + 60 + length ?pay) (length data) = pos'"
    by (simp add: data_def item_bytes_def lh pos'_def)
  have body: "take (pos' - (length pre + 60)) (drop (length pre + 60) data) = ?pay"
    by (simp add: data_def item_bytes_def lh pos'_def)
  note t = kind_tables [OF k, of "ai_date i" "length ?pay"]
  have unfold: "archive_loop search data pos strtab =
      (if ar_is_strtab ?hdr then archive_loop search data pos' ?pay
       else if ar_is_symtab ?hdr then archive_loop search data pos' strtab
       else (case ar_read_name search ?hdr strtab ?pay of
               (name, body) \<Rightarrow>
                 if starts_with name (bstr ''__.SYMDEF'') then archive_loop search data pos' strtab
                 else map_option ((#) (name, pos' - length body, body, ai_date i)) (archive_loop search data pos' strtab)))"
    by (subst archive_loop.simps) (simp only: ge p if_False Let_def parse option.case ar_header.simps be body)
  have "archive_loop search data pos strtab =
      map_option (\<lambda>ms. item_member (length pre) (ai_date i) ?k @ ms) (archive_loop search data pos' (next_strtab strtab ?k))"
  proof (cases ?k)
    case (KSymtab w b)
    then show ?thesis unfolding unfold using t by (simp add: option.map_ident)
  next
    case (KStrtab b)
    then show ?thesis unfolding unfold using t by (simp add: option.map_ident)
  next
    case (KMember style name b)
    have rn: "ar_read_name search ?hdr strtab ?pay = (name, b)"
      using read_name_member [of strtab style name b] k by (simp add: KMember)
    show ?thesis unfolding unfold rn using t
      by (auto simp: KMember pos'_def option.map_ident)
  qed
  with pos' show ?thesis unfolding data_def by blast
qed

lemma archive_loop_items:
  "items_ok strtab is \<Longrightarrow> even (length pre) \<Longrightarrow> pos = length pre \<or> odd pos \<and> pos + 1 = length pre \<Longrightarrow>
   archive_loop search (pre @ concat (map item_bytes is)) pos strtab = Some (items_members (length pre) is)"
proof (induction "is" arbitrary: pre pos strtab)
  case Nil
  then show ?case by (subst archive_loop.simps) auto
next
  case (Cons i "is")
  have i: "item_ok strtab i" and rest: "items_ok (next_strtab strtab (ai_kind i)) is" using Cons.prems by simp_all
  obtain pos' where pos': "pos' = length (pre @ item_bytes i) \<or> odd pos' \<and> pos' + 1 = length (pre @ item_bytes i)"
    and step: "archive_loop search (pre @ item_bytes i @ concat (map item_bytes is)) pos strtab =
      map_option (\<lambda>ms. item_member (length pre) (ai_date i) (ai_kind i) @ ms)
        (archive_loop search (pre @ item_bytes i @ concat (map item_bytes is)) pos' (next_strtab strtab (ai_kind i)))"
    using archive_loop_step [OF i Cons.prems(2,3), of "concat (map item_bytes is)"] by blast
  have "even (length (pre @ item_bytes i))"
    using Cons.prems(2) item_header_parse(2) [OF i] by (simp add: item_bytes_def)
  then have "archive_loop search ((pre @ item_bytes i) @ concat (map item_bytes is)) pos' (next_strtab strtab (ai_kind i)) =
      Some (items_members (length (pre @ item_bytes i)) is)"
    using rest pos' by (intro Cons.IH)
  with step show ?case by simp
qed

end

text \<open>What a link should see of an archive: its members but for the indexes, each under its own name.\<close>

fun item_view :: "mapped_file \<Rightarrow> ar_item \<Rightarrow> mapped_file list" where
  "item_view mf i =
     (case ai_kind i of
        KMember style name b \<Rightarrow>
          if starts_with name (bstr ''__.SYMDEF'') then []
          else [MappedFile (mf_name mf @ bstr ''('' @ name @ bstr '')'') b (Some mf) (Some (ai_date i))]
      | _ \<Rightarrow> [])"

lemma item_views:
  "mf_data mf = pre @ concat (map item_bytes is) \<Longrightarrow> items_ok strtab is \<Longrightarrow>
   those (map (\<lambda>(name, start, body, date). mf_member mf (mf_name mf @ bstr ''('' @ name @ bstr '')'') start (length body) date)
     (items_members (length pre) is)) = Some (concat (map (item_view mf) is))"
proof (induction "is" arbitrary: pre strtab)
  case Nil
  then show ?case by simp
next
  case (Cons i "is")
  let ?f = "\<lambda>(name, start, body, date). mf_member mf (mf_name mf @ bstr ''('' @ name @ bstr '')'') start (length body) date"
  have ok: "item_ok strtab i" "items_ok (next_strtab strtab (ai_kind i)) is" using Cons.prems by simp_all
  have "those (map ?f (items_members (length (pre @ item_bytes i)) is)) = Some (concat (map (item_view mf) is))"
    using Cons.prems ok(2) by (intro Cons.IH) simp_all
  moreover have "those (map ?f (item_member (length pre) (ai_date i) (ai_kind i))) = Some (item_view mf i)"
  proof (cases "ai_kind i")
    case (KMember style name b)
    obtain q where q: "ar_payload (ai_kind i) = q @ b" by (cases style) (auto simp: KMember)
    have lh: "length (item_header i) = 60" by (rule item_header_parse(2) [OF ok(1)])
    define st where "st = length pre + 60 + length q"
    have "take (length b) (drop st (mf_data mf)) = b" and "st \<le> length (mf_data mf)" and "length b \<le> length (mf_data mf) - st"
      using Cons.prems(1) q lh by (simp_all add: item_bytes_def st_def)
    moreover have "length pre + 60 + length (ar_payload (KMember style name b)) - length b = st"
      using q KMember by (simp add: st_def)
    ultimately show ?thesis using KMember
      by (simp add: mf_member_def mf_part_def mf_size_def)
  qed simp_all
  ultimately show ?case by (simp add: those_append del: item_view.simps)
qed

text \<open>
  C9. Of an archive the linker reads exactly the members, in order, each with its own name, contents
  and date: padding, long names in either form, indexes, symbol and string tables leave nothing behind
  and hide nothing.
\<close>

theorem archive_read_back:
  assumes "substring_search search"
    and "mf_data mf = bstr ''!<arch>'' @ [0x0a] @ concat (map item_bytes is)"
    and "items_ok [] is"
  shows "read_archive_members search mf = Some (concat (map (item_view mf) is))"
proof -
  have l: "length (bstr ''!<arch>'' @ [0x0a]) = 8" by (simp add: bstr_def)
  have "archive_loop search ((bstr ''!<arch>'' @ [0x0a]) @ concat (map item_bytes is)) 8 [] = Some (items_members 8 is)"
    using substring_search.archive_loop_items [OF assms(1,3), of "bstr ''!<arch>'' @ [0x0a]" 8] l by simp
  then have "archive_members search mf = Some (items_members 8 is)"
    by (simp add: archive_members_def assms(2))
  moreover have "those (map (\<lambda>(name, start, body, date). mf_member mf (mf_name mf @ bstr ''('' @ name @ bstr '')'') start (length body) date)
     (items_members 8 is)) = Some (concat (map (item_view mf) is))"
    using item_views [OF _ assms(3), of mf "bstr ''!<arch>'' @ [0x0a]"] assms(2) l by simp
  ultimately show ?thesis by (simp add: read_archive_members_def)
qed

text \<open>An index, a string table, and three members, one of odd length.\<close>

theorem archive_read_back_witness:
  "let mk = (\<lambda>k. \<lparr>ai_kind = k, ai_date = 7, ai_other = replicate 20 0x30, ai_end = [0x60, 0x0a], ai_pad = 0x0a\<rparr>);
       items = map mk [KMember (ArBsd 3) (bstr ''__.SYMDEF'') [1], KStrtab (bstr ''xa_long_name.o/'' @ [0x0a]),
                       KMember (ArBsd 1) (bstr ''a.o'') [2, 3], KMember ArSlash (bstr ''b.o'') [4],
                       KMember (ArSysv 1) (bstr ''a_long_name.o'') []];
       mf = MappedFile (bstr ''l.a'') (bstr ''!<arch>'' @ [0x0a] @ concat (map item_bytes items)) None None
   in map_option (map (\<lambda>m. (mf_name m, mf_data m))) (read_archive_members memmem_find mf) =
        Some [(bstr ''l.a(a.o)'', [2, 3]), (bstr ''l.a(b.o)'', [4]), (bstr ''l.a(a_long_name.o)'', [])]"
proof -
  define mk where "mk = (\<lambda>k. \<lparr>ai_kind = k, ai_date = 7, ai_other = replicate 20 0x30, ai_end = [0x60, 0x0a], ai_pad = 0x0a\<rparr>)"
  let ?items = "map mk [KMember (ArBsd 3) (bstr ''__.SYMDEF'') [1], KStrtab (bstr ''xa_long_name.o/'' @ [0x0a]),
                       KMember (ArBsd 1) (bstr ''a.o'') [2, 3], KMember ArSlash (bstr ''b.o'') [4],
                       KMember (ArSysv 1) (bstr ''a_long_name.o'') []]"
  let ?mf = "MappedFile (bstr ''l.a'') (bstr ''!<arch>'' @ [0x0a] @ concat (map item_bytes ?items)) None None"
  have ok: "items_ok [] ?items"
    by (simp add: mk_def item_ok_def is_ascii_ws_def bstr_def)
  have "read_archive_members memmem_find ?mf = Some (concat (map (item_view ?mf) ?items))"
    by (rule archive_read_back [OF memmem.substring_search_axioms _ ok]) simp
  moreover have "map (\<lambda>m. (mf_name m, mf_data m)) (concat (map (item_view ?mf) ?items)) =
      [(bstr ''l.a(a.o)'', [2, 3]), (bstr ''l.a(b.o)'', [4]), (bstr ''l.a(a_long_name.o)'', [])]"
    by (simp add: mk_def starts_with_def bstr_def)
  ultimately show ?thesis unfolding mk_def Let_def by (simp only: option.map)
qed

end
