(* ===== verification/LoadCommands.thy ===== *)
theory LoadCommands
  imports Chunks
begin

unbundle bit_operations_syntax

section \<open>The mach header and the load commands (\<open>macho/chunks/mod.rs\<close>)\<close>

text \<open>
  Each \<^verbatim>\<open>create_*_cmd\<close>, the list of load commands, the header's size and flags, its writing, and the
  later update of the UUID. \<open>lx\<close> holds what these functions read of the context: options, segments,
  dylibs, the chunks' headers (by the function \<open>lx_hdr\<close>, as \<^verbatim>\<open>ctx.chunk_header\<close>), and the few facts
  about symbols they ask for. \<open>None\<close> is a panic (a segment or section name over 16 bytes, a buffer
  that is too short, no \<open>__TEXT\<close> segment).
\<close>

subsection \<open>What is read of the context\<close>

record dylib_info =
  dyi_install_name :: bytes
  dyi_current_version :: u32
  dyi_compatibility_version :: u32
  dyi_dylib_idx :: int
  dyi_is_weak :: bool
  dyi_is_weak_asserted :: bool
  dyi_is_reexported :: bool
  dyi_is_upward :: bool
  dyi_has_delay_init :: bool
  dyi_is_bundle_loader :: bool
  dyi_is_lazy :: bool
  dyi_weak_exports :: "bytes list"

record sym_info =
  syi_name :: bytes
  syi_addr :: u64
  syi_stub_addr :: u64
  syi_is_imported :: bool
  syi_is_defined :: bool
  syi_is_used :: bool
  syi_dylib :: "nat option"
  syi_exports_weak_def :: bool
  syi_overrides_weak_export :: bool

record arch_info =
  ai_cputype :: u32
  ai_cpusubtype :: u32
  ai_state_flavor :: u32
  ai_state_count :: u32
  ai_sp_offset :: nat
  ai_pc_offset :: nat

record lx =
  lx_arch :: arch_info
  lx_output_type :: u32
  lx_static_link :: bool
  lx_is_kext :: bool
  lx_pie :: bool
  lx_relocatable :: bool
  lx_preload :: bool
  lx_fixup_chains :: bool
  lx_chains_disabled :: bool
  lx_fixup_chains_section :: bool
  lx_no_fixup_chains :: bool
  lx_legacy_linkedit :: bool
  lx_text_exec :: bool
  lx_shared_region :: bool
  lx_flat_namespace :: bool
  lx_simulator_support :: bool
  lx_application_extension :: bool
  lx_no_dynamic_access :: bool
  lx_segprots :: "(bytes \<times> u8 \<times> u8) list"
  lx_has_uuid :: bool
  lx_uuid :: bytes
  lx_platform :: u32
  lx_platform_minos :: u32
  lx_platform_sdk :: u32
  lx_version_load_command :: bool
  lx_source_version :: "u64 option"
  lx_unixthread :: bool
  lx_encryptable :: bool
  lx_segment_align :: u64
  lx_stack_size :: u64
  lx_install_name :: bytes
  lx_current_version :: u32
  lx_compatibility_version :: u32
  lx_rpaths :: "bytes list"
  lx_allowable_clients :: "bytes list"
  lx_umbrella :: "bytes option"
  lx_dyld_envs :: "bytes list"
  lx_function_starts :: bool
  lx_headerpad :: u64
  lx_headerpad_max :: bool
  lx_segments :: "out_segment list"
  lx_chunks :: "chunk_id list"
  lx_hdr :: "chunk_id \<Rightarrow> chunk_header"
  lx_moved_ro :: "u32 \<Rightarrow> bool"
  lx_dylibs :: "dylib_info list"
  lx_lazy_dylibs :: "(u32 \<times> u32) list"
  lx_entry :: "sym_info option"
  lx_init_routine :: "sym_info option"
  lx_syms :: "sym_info list"
  lx_weak_import :: bool
  lx_weak_bind_contents :: bytes
  lx_symtab_len :: nat
  lx_nlocal :: u32
  lx_nextdef :: u32
  lx_nundef :: u32
  lx_nlocrels :: nat
  lx_nextrels :: nat

definition lx_is_dylinker :: "lx \<Rightarrow> bool" where
  "lx_is_dylinker ctx \<longleftrightarrow> lx_output_type ctx = MH_DYLINKER"

definition lx_without_dyld :: "lx \<Rightarrow> bool" where
  "lx_without_dyld ctx \<longleftrightarrow> lx_static_link ctx \<or> lx_is_kext ctx"

definition lx_has_entry_point :: "lx \<Rightarrow> bool" where
  "lx_has_entry_point ctx \<longleftrightarrow> lx_output_type ctx = MH_EXECUTE \<and> \<not> lx_relocatable ctx \<or> lx_is_dylinker ctx"

definition use_chained_fixups :: "lx \<Rightarrow> bool" where
  "use_chained_fixups ctx \<longleftrightarrow> lx_fixup_chains ctx \<and> \<not> lx_chains_disabled ctx"

text \<open>\<^verbatim>\<open>u64::saturating_sub\<close>.\<close>

definition saturating_sub :: "u64 \<Rightarrow> u64 \<Rightarrow> u64" where
  "saturating_sub a b = (if a < b then 0 else a - b)"

subsection \<open>The commands\<close>

definition copy_contents :: "bytes \<Rightarrow> bytes \<Rightarrow> bytes option" where
  "copy_contents contents buf = copy_at buf 0 contents"

definition to_vec :: "'r file_rec \<Rightarrow> 'r \<Rightarrow> bytes" where
  "to_vec T r = as_bytes T r"

definition append_string :: "bytes \<Rightarrow> bytes \<Rightarrow> bytes option" where
  "append_string buf s =
     (let buf = pad_to (buf @ s @ [0]) 8; sz = of_nat (length buf) :: u32
      in copy_at buf 4 (le_bytes 4 sz))"

definition holds_moved_code :: "lx \<Rightarrow> out_segment \<Rightarrow> bool" where
  "holds_moved_code ctx seg \<longleftrightarrow>
     list_all (\<lambda>id. case id of ChOutput osec \<Rightarrow> lx_moved_ro ctx osec | _ \<Rightarrow> False) (os_chunks seg) \<and>
     list_ex (\<lambda>id. ch_flags (lx_hdr ctx id) AND S_ATTR_PURE_INSTRUCTIONS \<noteq> 0) (os_chunks seg)"

definition segment_prots :: "lx \<Rightarrow> out_segment \<Rightarrow> u32 \<times> u32" where
  "segment_prots ctx seg =
     (case List.find (\<lambda>(name, _, _). name = os_name seg) (lx_segprots ctx) of
        Some (_, mx, init) \<Rightarrow> (ucast mx, ucast init)
      | None \<Rightarrow>
          if os_name seg = bstr ''__TEXT'' \<and> lx_text_exec ctx then (VM_PROT_READ, VM_PROT_READ)
          else if holds_moved_code ctx seg then (VM_PROT_READ OR VM_PROT_EXECUTE, VM_PROT_READ OR VM_PROT_EXECUTE)
          else (segment_prot (os_name seg), segment_prot (os_name seg)))"

definition section_bytes :: "out_segment \<Rightarrow> chunk_header \<Rightarrow> bytes option" where
  "section_bytes seg hdr =
     do { sectname \<leftarrow> bytes_to_name (ch_sectname hdr);
          segname \<leftarrow> bytes_to_name (os_name seg);
          Some (as_bytes mach_section_rec
            \<lparr>ms_sectname = sectname, ms_segname = segname, ms_addr = ch_addr hdr, ms_size = ch_size hdr,
             ms_offset = (if ch_is_zerofill hdr then 0 else ucast (ch_fileoff hdr)),
             ms_p2align = ch_p2align hdr, ms_reloff = 0, ms_nreloc = 0, ms_flags = ch_flags hdr,
             ms_reserved1 = ch_reserved1 hdr, ms_reserved2 = ch_reserved2 hdr, ms_reserved3 = 0\<rparr>) }"

definition create_segment_cmd :: "lx \<Rightarrow> out_segment \<Rightarrow> bytes option" where
  "create_segment_cmd ctx seg =
     do { segname \<leftarrow> bytes_to_name (os_name seg);
          let sects = filter ch_is_sect (map (lx_hdr ctx) (os_chunks seg));
          let (maxprot, initprot) = segment_prots ctx seg;
          let cmd = (os_cmd seg)\<lparr>seg_cmd := LC_SEGMENT_64, seg_segname := segname,
                seg_nsects := of_nat (length sects),
                seg_cmdsize := of_nat (fr_size segment_command_rec + length sects * fr_size mach_section_rec),
                seg_maxprot := maxprot, seg_initprot := initprot\<rparr>;
          let cmd = (if os_name seg = bstr ''__DATA_CONST'' \<and> (\<not> lx_shared_region ctx \<or> lx_is_dylinker ctx)
                     then cmd\<lparr>seg_flags := SG_READ_ONLY\<rparr> else cmd);
          bss \<leftarrow> those (map (section_bytes seg) sects);
          Some (to_vec segment_command_rec cmd @ concat bss) }"

definition dyld_info_place :: "chunk_header \<Rightarrow> u32 \<times> u32" where
  "dyld_info_place hdr = (if ch_size hdr = 0 then (0, 0) else (ucast (ch_fileoff hdr), ucast (ch_size hdr)))"

definition create_dyld_info_cmd :: "lx \<Rightarrow> bytes" where
  "create_dyld_info_cmd ctx =
     (let (rebase_off, rebase_size) = dyld_info_place (lx_hdr ctx ChRebaseInfo);
          (bind_off, bind_size) = dyld_info_place (lx_hdr ctx ChBindInfo);
          (weak_bind_off, weak_bind_size) = dyld_info_place (lx_hdr ctx ChWeakBindInfo);
          (lazy_bind_off, lazy_bind_size) = dyld_info_place (lx_hdr ctx ChLazyBindInfo);
          (export_off, export_size) = dyld_info_place (lx_hdr ctx ChExportTrie)
      in to_vec dyld_info_command_rec
           \<lparr>di_cmd = LC_DYLD_INFO_ONLY, di_cmdsize = of_nat (fr_size dyld_info_command_rec),
            di_rebase_off = rebase_off, di_rebase_size = rebase_size, di_bind_off = bind_off, di_bind_size = bind_size,
            di_weak_bind_off = weak_bind_off, di_weak_bind_size = weak_bind_size,
            di_lazy_bind_off = lazy_bind_off, di_lazy_bind_size = lazy_bind_size,
            di_export_off = export_off, di_export_size = export_size\<rparr>)"

definition create_symtab_cmd :: "lx \<Rightarrow> bytes" where
  "create_symtab_cmd ctx =
     to_vec symtab_command_rec
       \<lparr>st_cmd = LC_SYMTAB, st_cmdsize = of_nat (fr_size symtab_command_rec),
        st_symoff = ucast (ch_fileoff (lx_hdr ctx ChSymtab)), st_nsyms = of_nat (lx_symtab_len ctx),
        st_stroff = ucast (ch_fileoff (lx_hdr ctx ChStrtab)), st_strsize = ucast (ch_size (lx_hdr ctx ChStrtab))\<rparr>"

definition create_dysymtab_cmd :: "lx \<Rightarrow> bytes" where
  "create_dysymtab_cmd ctx =
     (let cmd = \<lparr>dys_cmd = LC_DYSYMTAB, dys_cmdsize = of_nat (fr_size dysymtab_command_rec), dys_ilocalsym = 0,
            dys_nlocalsym = lx_nlocal ctx, dys_iextdefsym = lx_nlocal ctx, dys_nextdefsym = lx_nextdef ctx,
            dys_iundefsym = lx_nlocal ctx + lx_nextdef ctx, dys_nundefsym = lx_nundef ctx, dys_tocoff = 0,
            dys_ntoc = 0, dys_modtaboff = 0, dys_nmodtab = 0, dys_extrefsymoff = 0, dys_nextrefsyms = 0,
            dys_indirectsymoff = 0, dys_nindirectsyms = 0, dys_extreloff = 0, dys_nextrel = 0, dys_locreloff = 0,
            dys_nlocrel = 0\<rparr>;
          cmd = (if ChIndirectSymtab \<in> set (lx_chunks ctx)
                 then cmd\<lparr>dys_indirectsymoff := ucast (ch_fileoff (lx_hdr ctx ChIndirectSymtab)),
                          dys_nindirectsyms := ucast (ch_size (lx_hdr ctx ChIndirectSymtab) div 4)\<rparr> else cmd);
          cmd = (if ChLocalRelocs \<in> set (lx_chunks ctx) \<and> lx_nlocrels ctx \<noteq> 0
                 then cmd\<lparr>dys_locreloff := ucast (ch_fileoff (lx_hdr ctx ChLocalRelocs)),
                          dys_nlocrel := of_nat (lx_nlocrels ctx)\<rparr> else cmd);
          cmd = (if ChExternRelocs \<in> set (lx_chunks ctx) \<and> lx_nextrels ctx \<noteq> 0
                 then cmd\<lparr>dys_extreloff := ucast (ch_fileoff (lx_hdr ctx ChExternRelocs)),
                          dys_nextrel := of_nat (lx_nextrels ctx)\<rparr> else cmd)
      in to_vec dysymtab_command_rec cmd)"

definition create_uuid_cmd :: "lx \<Rightarrow> bytes" where
  "create_uuid_cmd ctx =
     to_vec uuid_command_rec \<lparr>uu_cmd = LC_UUID, uu_cmdsize = of_nat (fr_size uuid_command_rec), uu_uuid = lx_uuid ctx\<rparr>"

definition has_version_cmd :: "lx \<Rightarrow> bool" where
  "has_version_cmd ctx \<longleftrightarrow>
     (let without_dyld = lx_without_dyld ctx \<and> \<not> lx_relocatable ctx
      in lx_platform ctx \<noteq> 0 \<and>
         (lx_version_load_command ctx \<or> \<not> without_dyld \<and> lx_platform ctx \<noteq> PLATFORM_FIRMWARE))"

text \<open>A season's releases (\<open>macho/cmdline.rs\<close>).\<close>

record version_set =
  vs_macos :: u32
  vs_ios :: u32
  vs_visionos :: u32
  vs_firmware :: bool

definition version_set_new :: "u32 \<times> u32 \<Rightarrow> u32 \<times> u32 \<Rightarrow> u32 \<times> u32 \<Rightarrow> bool \<Rightarrow> version_set" where
  "version_set_new macos ios visionos firmware =
     \<lparr>vs_macos = encode_version (fst macos) (snd macos) 0, vs_ios = encode_version (fst ios) (snd ios) 0,
      vs_visionos = encode_version (fst visionos) (snd visionos) 0, vs_firmware = firmware\<rparr>"

definition VERSION_2012_FALL :: version_set where
  "VERSION_2012_FALL = version_set_new (10, 8) (6, 0) (0, 0) True"

definition VERSION_2013_FALL :: version_set where
  "VERSION_2013_FALL = version_set_new (10, 9) (7, 0) (0, 0) True"

definition VERSION_2018_FALL :: version_set where
  "VERSION_2018_FALL = version_set_new (10, 14) (12, 0) (0, 0) True"

definition VERSION_2019_FALL :: version_set where
  "VERSION_2019_FALL = version_set_new (10, 15) (13, 0) (0, 0) True"

definition VERSION_2020_FALL :: version_set where
  "VERSION_2020_FALL = version_set_new (11, 0) (14, 0) (0, 0) True"

definition VERSION_2021_FALL :: version_set where
  "VERSION_2021_FALL = version_set_new (12, 0) (15, 0) (0, 0) True"

definition VERSION_2024_SPRING :: version_set where
  "VERSION_2024_SPRING = version_set_new (14, 4) (17, 4) (1, 1) False"

definition VERSION_2024_FALL :: version_set where
  "VERSION_2024_FALL = version_set_new (15, 0) (18, 0) (2, 0) False"

definition VERSION_2026_FALL :: version_set where
  "VERSION_2026_FALL = version_set_new (27, 0) (27, 0) (27, 0) False"

definition reached_by :: "version_set \<Rightarrow> u32 \<Rightarrow> u32 \<Rightarrow> bool" where
  "reached_by vs platform minos =
     (if platform = PLATFORM_MACOS then vs_macos vs \<le> minos
      else if platform \<in> {PLATFORM_IOS, PLATFORM_IOSSIMULATOR, PLATFORM_TVOS, PLATFORM_TVOSSIMULATOR} then vs_ios vs \<le> minos
      else if platform \<in> {PLATFORM_VISIONOS, PLATFORM_VISIONOSSIMULATOR} then vs_visionos vs \<le> minos
      else if platform = PLATFORM_FIRMWARE then vs_firmware vs
      else False)"

definition create_version_cmd :: "u32 \<Rightarrow> u32 \<Rightarrow> u32 \<Rightarrow> u32 \<Rightarrow> bytes" where
  "create_version_cmd cputype platform minos sdk =
     (let legacy = (if platform = PLATFORM_MACOS \<and> minos \<noteq> 0 then Some LC_VERSION_MIN_MACOSX
                    else if platform \<in> {PLATFORM_IOS, PLATFORM_IOSSIMULATOR} then Some LC_VERSION_MIN_IPHONEOS
                    else if platform \<in> {PLATFORM_TVOS, PLATFORM_TVOSSIMULATOR} then Some LC_VERSION_MIN_TVOS
                    else None);
          arm64_on_mac = (cputype = CPU_TYPE_ARM64 \<and> (platform = PLATFORM_MACOS \<or> is_simulator platform));
          old = (\<not> arm64_on_mac \<and> \<not> reached_by VERSION_2018_FALL platform minos)
      in case (if old then legacy else None) of
           Some cmd \<Rightarrow>
             to_vec version_min_command_rec
               \<lparr>vm_cmd = cmd, vm_cmdsize = of_nat (fr_size version_min_command_rec), vm_version = minos, vm_sdk = sdk\<rparr>
         | None \<Rightarrow>
             to_vec build_version_command_rec
               \<lparr>bv_cmd = LC_BUILD_VERSION, bv_cmdsize = of_nat (fr_size build_version_command_rec + 8),
                bv_platform = platform, bv_minos = minos, bv_sdk = sdk, bv_ntools = 1\<rparr>
             @ le_bytes 4 (54321 :: u32) @ le_bytes 4 (1 :: u32))"

definition create_source_version_cmd :: "u64 \<Rightarrow> bytes" where
  "create_source_version_cmd version =
     to_vec source_version_command_rec
       \<lparr>sv_cmd = LC_SOURCE_VERSION, sv_cmdsize = of_nat (fr_size source_version_command_rec), sv_version = version\<rparr>"

definition dylib_use_flags :: "dylib_info \<Rightarrow> u32" where
  "dylib_use_flags dylib =
     foldl (\<lambda>flags (_, flag). flags OR flag) 0
       (filter fst
         [(dyi_is_weak dylib \<or> dyi_is_weak_asserted dylib, DYLIB_USE_WEAK_LINK),
          (dyi_is_reexported dylib, DYLIB_USE_REEXPORT),
          (dyi_is_upward dylib, DYLIB_USE_UPWARD),
          (dyi_has_delay_init dylib, DYLIB_USE_DELAYED_INIT)])"

definition count_ones :: "u32 \<Rightarrow> nat" where
  "count_ones w = length (filter (bit w) [0..<32])"

definition create_load_dylib_cmd :: "dylib_info \<Rightarrow> bytes option" where
  "create_load_dylib_cmd dylib =
     (let weak = (dyi_is_weak dylib \<or> dyi_is_weak_asserted dylib);
          flags = dylib_use_flags dylib;
          use_command = (1 < count_ones flags \<or> flags AND DYLIB_USE_DELAYED_INIT \<noteq> 0);
          flags = (if use_command then flags else 0);
          cmd = \<lparr>dy_cmd = (if flags AND DYLIB_USE_WEAK_LINK \<noteq> 0 then LC_LOAD_WEAK_DYLIB
                           else if flags \<noteq> 0 then LC_LOAD_DYLIB
                           else if dyi_is_reexported dylib then LC_REEXPORT_DYLIB
                           else if weak then LC_LOAD_WEAK_DYLIB
                           else if dyi_is_upward dylib then LC_LOAD_UPWARD_DYLIB
                           else LC_LOAD_DYLIB),
                 dy_cmdsize = 0, dy_nameoff = of_nat (fr_size dylib_command_rec), dy_timestamp = 2,
                 dy_current_version = dyi_current_version dylib,
                 dy_compatibility_version = dyi_compatibility_version dylib\<rparr>;
          cmd = (if flags = 0 then cmd
                 else cmd\<lparr>dy_nameoff := dy_nameoff cmd + 4, dy_timestamp := DYLIB_USE_MARKER,
                          dy_compatibility_version := encode_version 1 0 0\<rparr>);
          buf = to_vec dylib_command_rec cmd;
          buf = (if flags \<noteq> 0 then buf @ le_bytes 4 flags else buf)
      in append_string buf (dyi_install_name dylib))"

definition create_id_dylib_cmd :: "lx \<Rightarrow> bytes option" where
  "create_id_dylib_cmd ctx =
     append_string (to_vec dylib_command_rec
       \<lparr>dy_cmd = LC_ID_DYLIB, dy_cmdsize = 0, dy_nameoff = of_nat (fr_size dylib_command_rec), dy_timestamp = 1,
        dy_current_version = lx_current_version ctx, dy_compatibility_version = lx_compatibility_version ctx\<rparr>)
       (lx_install_name ctx)"

definition create_string_cmd :: "u32 \<Rightarrow> bytes \<Rightarrow> bytes option" where
  "create_string_cmd kind path =
     append_string (to_vec dylinker_command_rec
       \<lparr>dl_cmd = kind, dl_cmdsize = 0, dl_nameoff = of_nat (fr_size dylinker_command_rec)\<rparr>) path"

definition create_linker_option_cmd :: "bytes list \<Rightarrow> bytes option" where
  "create_linker_option_cmd opt =
     (let cmd = le_bytes 4 (LC_LINKER_OPTION :: u32) @ le_bytes 4 (0 :: u32) @ le_bytes 4 (of_nat (length opt) :: u32);
          cmd = foldl (\<lambda>cmd s. cmd @ s @ [0]) cmd opt;
          n = unat (align_to (of_nat (length cmd)) 8);
          cmd = take n (cmd @ replicate (n - length cmd) 0);
          cmdsize = of_nat (length cmd) :: u32
      in copy_at cmd 4 (le_bytes 4 cmdsize))"

definition entry_addr :: "lx \<Rightarrow> u64" where
  "entry_addr ctx =
     (if \<not> lx_has_entry_point ctx then 0
      else case lx_entry ctx of
             Some sy \<Rightarrow> if syi_is_imported sy then syi_stub_addr sy
                        else if syi_is_defined sy then syi_addr sy else 0
           | None \<Rightarrow> 0)"

definition create_main_cmd :: "lx \<Rightarrow> bytes option" where
  "create_main_cmd ctx =
     do { seg \<leftarrow> List.find (\<lambda>s. os_name s = bstr ''__TEXT'') (lx_segments ctx);
          Some (to_vec entry_point_command_rec
            \<lparr>ep_cmd = LC_MAIN, ep_cmdsize = of_nat (fr_size entry_point_command_rec),
             ep_entryoff = saturating_sub (entry_addr ctx) (seg_vmaddr (os_cmd seg)),
             ep_stacksize = lx_stack_size ctx\<rparr>) }"

definition create_routines_cmd :: "sym_info \<Rightarrow> bytes" where
  "create_routines_cmd sy =
     to_vec routines_command_64_rec
       \<lparr>rt_cmd = LC_ROUTINES_64, rt_cmdsize = of_nat (fr_size routines_command_64_rec), rt_init_address = syi_addr sy,
        rt_init_module = 0, rt_reserved = replicate 6 0\<rparr>"

definition create_unixthread_cmd :: "lx \<Rightarrow> bytes option" where
  "create_unixthread_cmd ctx =
     (let count = ai_state_count (lx_arch ctx);
          sz = 16 + unat count * 4;
          buf = concat (map (le_bytes 4) [LC_UNIXTHREAD :: u32, of_nat sz, ai_state_flavor (lx_arch ctx), count]);
          buf = take sz (buf @ replicate (sz - length buf) 0)
      in do { buf \<leftarrow> copy_at buf (16 + ai_pc_offset (lx_arch ctx)) (le_bytes 8 (entry_addr ctx));
              case List.find (\<lambda>s. os_name s = bstr ''__UNIXSTACK'') (lx_segments ctx) of
                None \<Rightarrow> Some buf
              | Some stack \<Rightarrow>
                  copy_at buf (16 + ai_sp_offset (lx_arch ctx))
                    (le_bytes 8 (seg_vmaddr (os_cmd stack) + seg_vmsize (os_cmd stack))) })"

definition create_encryption_info_cmd :: "lx \<Rightarrow> bytes" where
  "create_encryption_info_cmd ctx =
     (let sections = map (lx_hdr ctx) (filter (\<lambda>id. id \<noteq> ChMachHeader \<and> ch_segname (lx_hdr ctx id) = bstr ''__TEXT''
                        \<and> ch_sectname (lx_hdr ctx id) \<noteq> bstr ''__oslogstring'') (lx_chunks ctx));
          start = (if sections = [] then 0 else Min (set (map ch_fileoff sections)));
          fin = (if sections = [] then 0 else Max (set (map (\<lambda>hdr. ch_fileoff hdr + ch_size hdr) sections)));
          fin = align_to fin (lx_segment_align ctx)
      in concat (map (le_bytes 4) [LC_ENCRYPTION_INFO_64 :: u32, 24, ucast start, ucast (saturating_sub fin start), 0, 0]))"

definition create_linkedit_data_cmd :: "u32 \<Rightarrow> chunk_header \<Rightarrow> bytes" where
  "create_linkedit_data_cmd cmd hdr =
     to_vec link_edit_data_command_rec
       \<lparr>led_cmd = cmd, led_cmdsize = of_nat (fr_size link_edit_data_command_rec), led_dataoff = ucast (ch_fileoff hdr),
        led_datasize = ucast (ch_size hdr)\<rparr>"

subsection \<open>The list of commands\<close>

text \<open>
  In the order of the source, a list of optional commands per statement of it: those before the UUID's
  and those after it.
\<close>

definition cmd_if :: "bool \<Rightarrow> 'a \<Rightarrow> 'a list" where
  "cmd_if b c = (if b then [c] else [])"

definition dyld_cmds :: "lx \<Rightarrow> bytes list" where
  "dyld_cmds ctx =
     (if use_chained_fixups ctx then
        cmd_if (\<not> lx_preload ctx \<and> \<not> lx_fixup_chains_section ctx)
          (create_linkedit_data_cmd LC_DYLD_CHAINED_FIXUPS (lx_hdr ctx ChChainedFixups)) @
        cmd_if (\<not> lx_without_dyld ctx) (create_linkedit_data_cmd LC_DYLD_EXPORTS_TRIE (lx_hdr ctx ChExportTrie))
      else cmd_if (\<not> lx_legacy_linkedit ctx \<and> (\<not> lx_without_dyld ctx \<or> lx_no_fixup_chains ctx))
             (create_dyld_info_cmd ctx))"

definition linked_dylibs :: "lx \<Rightarrow> dylib_info list" where
  "linked_dylibs ctx =
     sort_key dyi_dylib_idx (filter (\<lambda>d. \<not> dyi_is_bundle_loader d \<and> \<not> dyi_is_lazy d) (lx_dylibs ctx))"

definition lazy_dylib_cmd :: "lx \<Rightarrow> u32 \<times> u32 \<Rightarrow> bytes" where
  "lazy_dylib_cmd ctx d =
     to_vec link_edit_data_command_rec
       \<lparr>led_cmd = LC_LAZY_LOAD_DYLIB_INFO, led_cmdsize = of_nat (fr_size link_edit_data_command_rec),
        led_dataoff = ucast (ch_fileoff (lx_hdr ctx ChLazyLoadInfo) + ucast (fst d)), led_datasize = snd d\<rparr>"

definition load_cmds_before :: "lx \<Rightarrow> bytes option list" where
  "load_cmds_before ctx =
     map (create_segment_cmd ctx) (filter (\<lambda>seg. \<not> (lx_preload ctx \<and> os_name seg = bstr ''__LINKEDIT'')) (lx_segments ctx)) @
     cmd_if (lx_output_type ctx = MH_DYLIB) (create_id_dylib_cmd ctx) @
     (case lx_init_routine ctx of None \<Rightarrow> [] | Some sy \<Rightarrow> [Some (create_routines_cmd sy)]) @
     map Some (dyld_cmds ctx) @
     [Some (create_symtab_cmd ctx)] @
     cmd_if (\<not> lx_static_link ctx \<or> lx_pie ctx) (Some (create_dysymtab_cmd ctx)) @
     (if lx_is_dylinker ctx then [create_string_cmd LC_ID_DYLINKER (bstr ''/usr/lib/dyld'')]
      else cmd_if (lx_output_type ctx = MH_EXECUTE \<and> \<not> lx_static_link ctx)
             (create_string_cmd LC_LOAD_DYLINKER (bstr ''/usr/lib/dyld'')))"

definition load_cmds_after :: "lx \<Rightarrow> bytes option list" where
  "load_cmds_after ctx =
     cmd_if (has_version_cmd ctx)
       (Some (create_version_cmd (ai_cputype (lx_arch ctx)) (lx_platform ctx) (lx_platform_minos ctx) (lx_platform_sdk ctx))) @
     (case lx_source_version ctx of None \<Rightarrow> [] | Some version \<Rightarrow> [Some (create_source_version_cmd version)]) @
     (if lx_unixthread ctx then [create_unixthread_cmd ctx]
      else cmd_if (lx_output_type ctx = MH_EXECUTE) (create_main_cmd ctx)) @
     cmd_if (lx_encryptable ctx) (Some (create_encryption_info_cmd ctx)) @
     cmd_if (ChSplitInfo \<in> set (lx_chunks ctx))
       (Some (create_linkedit_data_cmd LC_SEGMENT_SPLIT_INFO (lx_hdr ctx ChSplitInfo))) @
     map create_load_dylib_cmd (linked_dylibs ctx) @
     map (Some \<circ> lazy_dylib_cmd ctx) (lx_lazy_dylibs ctx) @
     map (create_string_cmd LC_RPATH) (lx_rpaths ctx) @
     (if lx_output_type ctx = MH_DYLIB then
        map (create_string_cmd LC_SUB_CLIENT) (lx_allowable_clients ctx) @
        (case lx_umbrella ctx of None \<Rightarrow> [] | Some name \<Rightarrow> [create_string_cmd LC_SUB_FRAMEWORK name])
      else []) @
     map (create_string_cmd LC_DYLD_ENVIRONMENT) (lx_dyld_envs ctx) @
     cmd_if (lx_function_starts ctx) (Some (create_linkedit_data_cmd LC_FUNCTION_STARTS (lx_hdr ctx ChFunctionStarts))) @
     cmd_if (ChDataInCode \<in> set (lx_chunks ctx)) (Some (create_linkedit_data_cmd LC_DATA_IN_CODE (lx_hdr ctx ChDataInCode))) @
     cmd_if (ChMergeableRecord \<in> set (lx_chunks ctx))
       (Some (create_linkedit_data_cmd LC_ATOM_INFO (lx_hdr ctx ChMergeableRecord))) @
     cmd_if (ChCodeSignature \<in> set (lx_chunks ctx))
       (Some (create_linkedit_data_cmd LC_CODE_SIGNATURE (lx_hdr ctx ChCodeSignature)))"

definition create_load_commands :: "lx \<Rightarrow> bytes list option" where
  "create_load_commands ctx =
     those (load_cmds_before ctx @ cmd_if (lx_has_uuid ctx) (Some (create_uuid_cmd ctx)) @ load_cmds_after ctx)"

subsection \<open>The header\<close>

definition header_pad :: "lx \<Rightarrow> u64" where
  "header_pad ctx =
     (if lx_preload ctx \<or> lx_is_dylinker ctx then 0
      else
        let pad = (if lx_without_dyld ctx then lx_headerpad ctx else max (lx_headerpad ctx) 32);
            pad = (if lx_headerpad_max ctx then
                     let loads = length (filter (\<lambda>d. \<not> dyi_is_bundle_loader d \<and> \<not> dyi_is_lazy d) (lx_dylibs ctx));
                         id = (if lx_output_type ctx = MH_DYLIB then 1 else 0)
                     in max pad (of_nat (loads + id) * 1024)
                   else pad);
            simulator = (if is_simulator (lx_platform ctx) then 16 else 0)
        in pad + 32 + 8 * of_nat (length (lx_dylibs ctx)) + simulator)"

definition mach_header_size :: "lx \<Rightarrow> u64 option" where
  "mach_header_size ctx =
     do { cmds \<leftarrow> create_load_commands ctx;
          let sz = sum_list (map length cmds);
          let sz = of_nat (fr_size mach_header_rec) + of_nat sz + header_pad ctx;
          Some (if lx_encryptable ctx \<and> \<not> lx_is_dylinker ctx then align_to sz (lx_segment_align ctx) else sz) }"

text \<open>\<open>lx_weak_import\<close> is whether some chained import binds by weak lookup.\<close>

definition binds_to_weak :: "lx \<Rightarrow> bool" where
  "binds_to_weak ctx \<longleftrightarrow>
     list_ex (\<lambda>sy. case syi_dylib sy of
                     Some idx \<Rightarrow> idx \<noteq> 2 ^ 32 - 1 \<and> syi_is_used sy \<and> syi_name sy \<in> set (dyi_weak_exports (lx_dylibs ctx ! idx))
                   | None \<Rightarrow> False) (lx_syms ctx)
     \<or> lx_weak_import ctx \<or> lx_weak_bind_contents ctx \<noteq> []"

definition mach_header_flags :: "lx \<Rightarrow> u32" where
  "mach_header_flags ctx =
     (let ty = lx_output_type ctx;
          flags = (if ty = MH_EXECUTE \<and> lx_static_link ctx then MH_NOUNDEFS
                   else if lx_flat_namespace ctx then MH_DYLDLINK
                   else MH_NOUNDEFS OR MH_DYLDLINK OR MH_TWOLEVEL);
          flags = (if ty = MH_EXECUTE \<and> lx_pie ctx then flags OR MH_PIE
                   else if ty = MH_DYLIB \<and> \<not> list_ex dyi_is_reexported (lx_dylibs ctx)
                   then flags OR MH_NO_REEXPORTED_DYLIBS else flags);
          flags = (if lx_simulator_support ctx \<and> ty = MH_DYLIB then flags OR MH_SIM_SUPPORT else flags);
          flags = (if binds_to_weak ctx then flags OR MH_BINDS_TO_WEAK else flags);
          flags = (if list_ex syi_exports_weak_def (lx_syms ctx) then flags OR (MH_WEAK_DEFINES OR MH_BINDS_TO_WEAK) else flags);
          flags = (if list_ex syi_overrides_weak_export (lx_syms ctx) then flags OR MH_WEAK_DEFINES else flags);
          flags = (if lx_application_extension ctx \<and> ty = MH_DYLIB then flags OR MH_APP_EXTENSION_SAFE else flags);
          flags = (if lx_no_dynamic_access ctx then flags OR MH_NOFIXPREBINDING else flags)
      in if list_ex (\<lambda>id. ch_flags (lx_hdr ctx id) AND SECTION_TYPE = S_THREAD_LOCAL_VARIABLES) (lx_chunks ctx)
         then flags OR MH_HAS_TLV_DESCRIPTORS else flags)"

fun write_cmds :: "bytes \<Rightarrow> nat \<Rightarrow> bytes list \<Rightarrow> bytes option" where
  "write_cmds buf off [] = Some buf"
| "write_cmds buf off (cmd # cmds) = do { buf \<leftarrow> copy_at buf off cmd; write_cmds buf (off + length cmd) cmds }"

definition mach_header_of :: "lx \<Rightarrow> bytes list \<Rightarrow> mach_header" where
  "mach_header_of ctx cmds =
     \<lparr>mh_magic = MH_MAGIC_64, mh_cputype = ai_cputype (lx_arch ctx), mh_cpusubtype = ai_cpusubtype (lx_arch ctx),
      mh_filetype = (if lx_preload ctx then MH_PRELOAD else lx_output_type ctx),
      mh_ncmds = of_nat (length cmds), mh_sizeofcmds = of_nat (sum_list (map length cmds)),
      mh_flags = mach_header_flags ctx, mh_reserved = 0\<rparr>"

definition write_mach_header :: "lx \<Rightarrow> bytes \<Rightarrow> bytes option" where
  "write_mach_header ctx buf =
     do { cmds \<leftarrow> create_load_commands ctx;
          buf \<leftarrow> write_to mach_header_rec (mach_header_of ctx cmds) buf;
          write_cmds buf (fr_size mach_header_rec) cmds }"

fun write_uuid_loop :: "bytes \<Rightarrow> nat \<Rightarrow> nat \<Rightarrow> bytes \<Rightarrow> bytes option" where
  "write_uuid_loop uuid 0 off buf = Some buf"
| "write_uuid_loop uuid (Suc n) off buf =
     do { rest \<leftarrow> slice_from buf off;
          lc \<leftarrow> read_from load_command_rec rest;
          if lc_cmd lc = LC_UUID then
            do { cmd \<leftarrow> read_from uuid_command_rec rest;
                 rest \<leftarrow> write_to uuid_command_rec (cmd\<lparr>uu_uuid := uuid\<rparr>) rest;
                 Some (take off buf @ rest) }
          else write_uuid_loop uuid n (off + unat (lc_cmdsize lc)) buf }"

definition write_uuid :: "bytes \<Rightarrow> bytes \<Rightarrow> bytes option" where
  "write_uuid uuid buf =
     do { hdr \<leftarrow> read_from mach_header_rec buf;
          write_uuid_loop uuid (unat (mh_ncmds hdr)) (fr_size mach_header_rec) buf }"

subsection \<open>Every command is well formed\<close>

text \<open>
  What a reader of the commands relies on: a command is a whole number of 8-byte words, and its size
  field is its length.
\<close>

definition cmd_kind :: "bytes \<Rightarrow> u32" where
  "cmd_kind c = from_le (take 4 c)"

definition cmd_size :: "bytes \<Rightarrow> u32" where
  "cmd_size c = from_le (take 4 (drop 4 c))"

definition cmd_ok :: "bytes \<Rightarrow> bool" where
  "cmd_ok c \<longleftrightarrow> 8 \<le> length c \<and> 8 dvd length c \<and> cmd_size c = of_nat (length c)"

named_theorems cmd_oks \<open>well-formed commands\<close>

lemmas rec_defs = mach_header_rec_def load_command_rec_def segment_command_rec_def mach_section_rec_def symtab_command_rec_def
  dysymtab_command_rec_def dylib_command_rec_def dylinker_command_rec_def uuid_command_rec_def build_version_command_rec_def
  version_min_command_rec_def source_version_command_rec_def entry_point_command_rec_def routines_command_64_rec_def
  link_edit_data_command_rec_def dyld_info_command_rec_def

lemma cmd_size_append [simp]: "8 \<le> length c \<Longrightarrow> cmd_size (c @ x) = cmd_size c"
  by (simp add: cmd_size_def)

lemma fixed_cmds [cmd_oks]:
  "cmd_ok (create_symtab_cmd ctx)" "cmd_ok (create_dysymtab_cmd ctx)" "cmd_ok (create_dyld_info_cmd ctx)"
  "length (lx_uuid ctx) = 16 \<Longrightarrow> cmd_ok (create_uuid_cmd ctx)" "cmd_ok (create_version_cmd cpu pl mi sdk)"
  "cmd_ok (create_source_version_cmd v)" "cmd_ok (create_routines_cmd sy)" "cmd_ok (create_encryption_info_cmd ctx)"
  "cmd_ok (create_linkedit_data_cmd k hdr)" "cmd_ok (lazy_dylib_cmd ctx d)"
  by (auto simp: cmd_ok_def cmd_size_def to_vec_def as_bytes_def rec_defs create_symtab_cmd_def create_dysymtab_cmd_def
    create_dyld_info_cmd_def create_uuid_cmd_def create_version_cmd_def create_source_version_cmd_def create_routines_cmd_def
    create_encryption_info_cmd_def create_linkedit_data_cmd_def lazy_dylib_cmd_def Let_def case_prod_beta length_concat sum_list_replicate
    split: option.splits)

lemma append_string_eq:
  assumes "8 \<le> length buf"
  shows "append_string buf s = Some (take 4 buf @ le_bytes 4 (of_nat (length (pad_to (buf @ s @ [0]) 8)) :: u32) @ drop 8 (pad_to (buf @ s @ [0]) 8))"
  using assms by (simp add: append_string_def copy_at_def Let_def pad_to_def)

lemma append_string_ok: "8 \<le> length buf \<Longrightarrow> append_string buf s = Some c \<Longrightarrow> cmd_ok c \<and> cmd_kind c = cmd_kind buf"
proof -
  assume b: "8 \<le> length buf" and "append_string buf s = Some c"
  let ?p = "pad_to (buf @ s @ [0]) 8"
  have c: "c = take 4 buf @ le_bytes 4 (of_nat (length ?p) :: u32) @ drop 8 ?p"
    using append_string_eq [OF b, of s] \<open>append_string buf s = Some c\<close> by simp
  have "8 \<le> length (buf @ s @ [0])" using b by simp
  then have "8 \<le> length ?p" using next_multiple_of_ge [of 8 "length (buf @ s @ [0])"]
    unfolding length_pad_to [OF zero_less_numeral] by linarith
  then have l: "8 \<le> length ?p" "8 dvd length ?p" by (simp_all add: next_multiple_of_dvd del: length_append)
  then have "length c = length ?p" using b by (simp add: c)
  with l b show ?thesis by (simp add: cmd_ok_def cmd_size_def cmd_kind_def c)
qed

lemma string_cmds [cmd_oks]:
  "create_string_cmd k p = Some c \<Longrightarrow> cmd_ok c" "create_id_dylib_cmd ctx = Some c \<Longrightarrow> cmd_ok c"
  "create_load_dylib_cmd d = Some c \<Longrightarrow> cmd_ok c"
  by (auto simp: create_string_cmd_def create_id_dylib_cmd_def create_load_dylib_cmd_def Let_def to_vec_def as_bytes_def rec_defs
      dest!: append_string_ok [rotated])

lemma those_map_Some_iff: "those (map f xs) = Some ys \<Longrightarrow> length ys = length xs \<and> (\<forall>y \<in> set ys. \<exists>x \<in> set xs. f x = Some y)"
proof -
  assume "those (map f xs) = Some ys"
  then have m: "map f xs = map Some ys" by (rule those_Some)
  then have "length ys = length xs" by (rule map_eq_imp_length_eq [symmetric])
  moreover have "\<exists>x \<in> set xs. f x = Some y" if "y \<in> set ys" for y
  proof -
    have "Some y \<in> set (map f xs)" unfolding m using that by simp
    then show ?thesis by (auto simp: eq_commute)
  qed
  ultimately show ?thesis by blast
qed

lemma bytes_to_name_16: "bytes_to_name s = Some n \<Longrightarrow> length n = 16"
  using copy_at_length [of "replicate 16 0" 0 s n] by (simp add: bytes_to_name_def)

lemma section_bytes_80: "section_bytes seg hdr = Some bs \<Longrightarrow> length bs = 80"
  by (auto simp: section_bytes_def as_bytes_def mach_section_rec_def split: bind_splits dest!: bytes_to_name_16)

lemma segment_cmd [cmd_oks]: "create_segment_cmd ctx seg = Some c \<Longrightarrow> cmd_ok c"
proof -
  assume "create_segment_cmd ctx seg = Some c"
  then obtain name bss cmd where n: "bytes_to_name (os_name seg) = Some name"
    and b: "those (map (section_bytes seg) (filter ch_is_sect (map (lx_hdr ctx) (os_chunks seg)))) = Some bss"
    and c: "c = to_vec segment_command_rec cmd @ concat bss" "length (seg_segname cmd) = 16"
      "seg_cmdsize cmd = of_nat (72 + length (filter ch_is_sect (map (lx_hdr ctx) (os_chunks seg))) * 80)"
    by (auto simp: create_segment_cmd_def Let_def rec_defs split: bind_splits prod.splits if_splits dest!: bytes_to_name_16)
  have "length bss = length (filter ch_is_sect (map (lx_hdr ctx) (os_chunks seg)))" "\<forall>bs \<in> set bss. length bs = 80"
    using those_map_Some_iff [OF b] section_bytes_80 by auto
  moreover from this(2) have "length (concat bss) = 80 * length bss" by (induction bss) auto
  ultimately show ?thesis using c
    by (simp add: cmd_ok_def cmd_size_def to_vec_def as_bytes_def segment_command_rec_def)
qed

lemma main_cmd [cmd_oks]: "create_main_cmd ctx = Some c \<Longrightarrow> cmd_ok c"
  by (auto simp: create_main_cmd_def cmd_ok_def cmd_size_def to_vec_def as_bytes_def rec_defs split: bind_splits)

lemma copy_at_head: "copy_at xs off ys = Some zs \<Longrightarrow> n \<le> off \<Longrightarrow> take n zs = take n xs"
  by (auto simp: copy_at_def min_def split: if_splits)

lemma unixthread_cmd [cmd_oks]: "even (unat (ai_state_count (lx_arch ctx))) \<Longrightarrow>
  create_unixthread_cmd ctx = Some c \<Longrightarrow> cmd_ok c"
proof -
  let ?count = "ai_state_count (lx_arch ctx)"
  let ?sz = "16 + unat ?count * 4"
  define hd4 where "hd4 = concat (map (le_bytes 4) [LC_UNIXTHREAD :: u32, of_nat ?sz, ai_state_flavor (lx_arch ctx), ?count])"
  assume e: "even (unat ?count)" and c: "create_unixthread_cmd ctx = Some c"
  have l: "length hd4 = 16" by (simp add: hd4_def)
  obtain b1 where b1: "copy_at (hd4 @ replicate (?sz - 16) 0) (16 + ai_pc_offset (lx_arch ctx)) (le_bytes 8 (entry_addr ctx)) = Some b1"
    and b2: "b1 = c \<or> (\<exists>w. copy_at b1 (16 + ai_sp_offset (lx_arch ctx)) (le_bytes 8 (w :: u64)) = Some c)"
    using c unfolding create_unixthread_cmd_def Let_def hd4_def [symmetric]
    by (auto simp: l split: bind_splits option.splits)
  have "length b1 = ?sz" "take 16 b1 = hd4" using copy_at_length [OF b1] copy_at_head [OF b1, of 16] l by simp_all
  then have "length c = ?sz" "take 16 c = hd4" using b2 by (auto dest: copy_at_length copy_at_head [of _ _ _ _ 16])
  moreover from this(2) have "cmd_size c = of_nat ?sz"
  proof -
    have "take 4 (drop 4 c) = take 4 (drop 4 (take 16 c))" by (simp add: drop_take)
    also have "\<dots> = le_bytes 4 (of_nat ?sz :: u32)" using \<open>take 16 c = hd4\<close> by (simp add: hd4_def)
    finally show ?thesis by (simp add: cmd_size_def)
  qed
  ultimately show ?thesis using e by (auto simp: cmd_ok_def elim!: evenE)
qed

lemma create_load_commands_ok:
  assumes "create_load_commands ctx = Some cmds" and "length (lx_uuid ctx) = 16" and "even (unat (ai_state_count (lx_arch ctx)))"
  shows "\<forall>c \<in> set cmds. cmd_ok c"
proof
  fix c assume "c \<in> set cmds"
  obtain l where l: "those l = Some cmds" and ll: "\<forall>x \<in> set l. \<forall>c. x = Some c \<longrightarrow> cmd_ok c"
    using assms(1) unfolding create_load_commands_def load_cmds_before_def load_cmds_after_def
    by (rule that) (auto simp: cmd_if_def dyld_cmds_def cmd_oks assms(2) unixthread_cmd [OF assms(3)] split: if_splits option.splits)
  have "l = map Some cmds" using l by (rule those_Some)
  with \<open>c \<in> set cmds\<close> ll show "cmd_ok c" by auto
qed

subsection \<open>The header reads back\<close>

text \<open>A reader of \<open>n\<close> commands, each by its size field, as \<open>dyld\<close> walks them.\<close>

fun read_cmds :: "nat \<Rightarrow> bytes \<Rightarrow> bytes list option" where
  "read_cmds 0 bs = Some []"
| "read_cmds (Suc n) bs =
     (let sz = unat (cmd_size bs)
      in if 8 \<le> sz \<and> sz \<le> length bs then map_option ((#) (take sz bs)) (read_cmds n (drop sz bs)) else None)"

lemma write_cmds_eq:
  "length pre = off \<Longrightarrow> length (concat cmds) \<le> length rest \<Longrightarrow>
   write_cmds (pre @ rest) off cmds = Some (pre @ concat cmds @ drop (length (concat cmds)) rest)"
proof (induction cmds arbitrary: pre off rest)
  case Nil
  then show ?case by simp
next
  case (Cons c cmds)
  have "copy_at (pre @ rest) off c = Some ((pre @ c) @ drop (length c) rest)"
    using Cons.prems by (simp add: copy_at_def)
  moreover have "write_cmds ((pre @ c) @ drop (length c) rest) (off + length c) cmds =
      Some ((pre @ c) @ concat cmds @ drop (length (concat cmds)) (drop (length c) rest))"
    using Cons.prems by (intro Cons.IH) auto
  ultimately show ?case by (simp add: add.commute)
qed

lemma cmd_ok_size: "cmd_ok c \<Longrightarrow> length c < 2 ^ 32 \<Longrightarrow> unat (cmd_size (c @ rest)) = length c"
  by (simp add: cmd_ok_def unat_of_nat take_bit_nat_eq_self)

lemma read_cmds_concat:
  "\<forall>c \<in> set cmds. cmd_ok c \<Longrightarrow> length (concat cmds) < 2 ^ 32 \<Longrightarrow> read_cmds (length cmds) (concat cmds @ rest) = Some cmds"
proof (induction cmds)
  case Nil
  then show ?case by simp
next
  case (Cons c cmds)
  then have sz: "unat (cmd_size (c @ concat cmds @ rest)) = length c" by (intro cmd_ok_size) auto
  moreover have "8 \<le> length c" using Cons.prems by (simp add: cmd_ok_def)
  moreover have "read_cmds (length cmds) (concat cmds @ rest) = Some cmds" using Cons by auto
  ultimately show ?case by (simp add: Let_def)
qed

lemma length_concat_sum: "length (concat xs) = sum_list (map length xs)"
  by (simp add: length_concat)

lemma cmds_count: "\<forall>c \<in> set cmds. cmd_ok c \<Longrightarrow> 8 * length cmds \<le> length (concat cmds)"
  by (induction cmds) (auto simp: cmd_ok_def)

lemma write_mach_header_eq:
  assumes "create_load_commands ctx = Some cmds" and "32 + length (concat cmds) \<le> length buf"
  shows "write_mach_header ctx buf =
    Some (fr_bytes mach_header_rec (mach_header_of ctx cmds) @ concat cmds @ drop (32 + length (concat cmds)) buf)"
proof -
  let ?h = "fr_bytes mach_header_rec (mach_header_of ctx cmds)"
  have l: "length ?h = 32" by (simp add: mach_header_rec_def)
  have sz: "fr_size mach_header_rec = 32" by (simp add: mach_header_rec_def)
  have "write_cmds (?h @ drop 32 buf) 32 cmds = Some (?h @ concat cmds @ drop (length (concat cmds)) (drop 32 buf))"
    using assms(2) l by (intro write_cmds_eq) auto
  then show ?thesis using assms by (simp add: write_mach_header_def write_to_def sz add.commute)
qed

text \<open>
  C5. The header and the commands that are written read back: the header gives the number and the size
  of the commands, and a reader that steps by their size fields finds exactly the commands that were
  made, each a whole number of words; nothing past them changes.
\<close>

theorem write_mach_header_reads_back:
  assumes cmds: "create_load_commands ctx = Some cmds"
    and uuid: "length (lx_uuid ctx) = 16" and even: "even (unat (ai_state_count (lx_arch ctx)))"
    and room: "32 + length (concat cmds) \<le> length buf" and small: "length (concat cmds) < 2 ^ 32"
  shows "\<exists>out. write_mach_header ctx buf = Some out \<and> length out = length buf \<and>
    drop (32 + length (concat cmds)) out = drop (32 + length (concat cmds)) buf \<and>
    (\<exists>hdr. read_from mach_header_rec out = Some hdr \<and> mh_magic hdr = MH_MAGIC_64 \<and>
      unat (mh_sizeofcmds hdr) = length (concat cmds) \<and>
      read_cmds (unat (mh_ncmds hdr)) (take (unat (mh_sizeofcmds hdr)) (drop 32 out)) = Some cmds) \<and>
    (\<forall>c \<in> set cmds. 8 dvd length c)"
proof -
  let ?hdr = "mach_header_of ctx cmds" and ?n = "length (concat cmds)"
  let ?out = "fr_bytes mach_header_rec ?hdr @ concat cmds @ drop (32 + ?n) buf"
  have ok: "\<forall>c \<in> set cmds. cmd_ok c" using create_load_commands_ok [OF cmds uuid even] .
  have l: "length (fr_bytes mach_header_rec ?hdr) = 32" by (simp add: mach_header_rec_def)
  have r: "read_from mach_header_rec ?out = Some ?hdr"
    using mach_header.of_bytes [of ?hdr] l by (simp add: read_from_def mach_header_rec_def)
  have n: "unat (of_nat (length cmds) :: u32) = length cmds" "unat (of_nat ?n :: u32) = ?n"
    using cmds_count [OF ok] small by (simp_all add: unat_of_nat take_bit_nat_eq_self)
  have f: "unat (mh_sizeofcmds ?hdr) = ?n" "unat (mh_ncmds ?hdr) = length cmds" "mh_magic ?hdr = MH_MAGIC_64"
    using n by (simp_all add: mach_header_of_def length_concat_sum)
  have "read_cmds (length cmds) (concat cmds) = Some cmds"
    using read_cmds_concat [OF ok small, of "[]"] by simp
  then have "read_cmds (unat (mh_ncmds ?hdr)) (take (unat (mh_sizeofcmds ?hdr)) (drop 32 ?out)) = Some cmds"
    using l by (simp add: f)
  moreover have "\<forall>c \<in> set cmds. 8 dvd length c" using ok by (simp add: cmd_ok_def)
  ultimately show ?thesis
    using write_mach_header_eq [OF cmds room] r f l room by (intro exI [of _ ?out] conjI exI [of _ ?hdr]) simp_all
qed

subsection \<open>The UUID's update\<close>

named_theorems cmd_kinds \<open>the kinds of the commands\<close>

lemma cmd_kind_le [cmd_kinds]: "cmd_kind (le_bytes 4 k @ x) = k"
  by (simp add: cmd_kind_def)

lemma fixed_kinds [cmd_kinds]:
  "cmd_kind (create_symtab_cmd ctx) \<noteq> LC_UUID" "cmd_kind (create_dysymtab_cmd ctx) \<noteq> LC_UUID"
  "cmd_kind (create_dyld_info_cmd ctx) \<noteq> LC_UUID" "cmd_kind (create_version_cmd cpu pl mi sdk) \<noteq> LC_UUID"
  "cmd_kind (create_source_version_cmd v) \<noteq> LC_UUID" "cmd_kind (create_routines_cmd sy) \<noteq> LC_UUID"
  "cmd_kind (create_encryption_info_cmd ctx) \<noteq> LC_UUID" "cmd_kind (create_linkedit_data_cmd k hdr) = k"
  "cmd_kind (lazy_dylib_cmd ctx d) \<noteq> LC_UUID"
  by (auto simp: cmd_kind_le to_vec_def as_bytes_def rec_defs create_symtab_cmd_def create_dysymtab_cmd_def
    create_dyld_info_cmd_def create_version_cmd_def create_source_version_cmd_def create_routines_cmd_def
    create_encryption_info_cmd_def create_linkedit_data_cmd_def lazy_dylib_cmd_def Let_def case_prod_beta split: option.splits)

lemma string_kinds [cmd_kinds]:
  "create_string_cmd k p = Some c \<Longrightarrow> cmd_kind c = k" "create_id_dylib_cmd ctx = Some c \<Longrightarrow> cmd_kind c \<noteq> LC_UUID"
  "create_load_dylib_cmd d = Some c \<Longrightarrow> cmd_kind c \<noteq> LC_UUID"
  by (auto simp: create_string_cmd_def create_id_dylib_cmd_def create_load_dylib_cmd_def Let_def to_vec_def as_bytes_def rec_defs
      cmd_kind_le append_assoc dest!: append_string_ok [rotated] split: if_splits)

lemma segment_kind [cmd_kinds]: "create_segment_cmd ctx seg = Some c \<Longrightarrow> cmd_kind c \<noteq> LC_UUID"
  by (auto simp: create_segment_cmd_def Let_def rec_defs to_vec_def as_bytes_def cmd_kind_le split: bind_splits prod.splits if_splits)

lemma main_kind [cmd_kinds]: "create_main_cmd ctx = Some c \<Longrightarrow> cmd_kind c \<noteq> LC_UUID"
  by (auto simp: create_main_cmd_def to_vec_def as_bytes_def rec_defs cmd_kind_le split: bind_splits)

lemma unixthread_cmd_kind: "create_unixthread_cmd ctx = Some c \<Longrightarrow> cmd_kind c = LC_UNIXTHREAD"
proof -
  let ?sz = "16 + unat (ai_state_count (lx_arch ctx)) * 4"
  assume "create_unixthread_cmd ctx = Some c"
  then obtain b0 b1 off off' w w' where "copy_at b0 (16 + off) w = Some b1" "take 4 b0 = le_bytes 4 (LC_UNIXTHREAD :: u32)"
    "b1 = c \<or> copy_at b1 (16 + off') w' = Some c"
    by (fastforce simp: create_unixthread_cmd_def Let_def split: bind_splits option.splits)
  then have "take 4 c = le_bytes 4 (LC_UNIXTHREAD :: u32)"
    using copy_at_head [of b0 "16 + off" w b1 4] copy_at_head [of b1 "16 + off'" w' c 4] by auto
  then show ?thesis by (simp add: cmd_kind_def)
qed

lemma unixthread_kind [cmd_kinds]: "create_unixthread_cmd ctx = Some c \<Longrightarrow> cmd_kind c \<noteq> LC_UUID"
  by (simp add: unixthread_cmd_kind)

lemma no_uuid_before: "Some c \<in> set (load_cmds_before ctx) \<Longrightarrow> cmd_kind c \<noteq> LC_UUID"
  by (auto simp: load_cmds_before_def cmd_if_def dyld_cmds_def cmd_kinds dest!: sym [of "Some c"] split: if_splits option.splits)

lemma no_uuid_after: "Some c \<in> set (load_cmds_after ctx) \<Longrightarrow> cmd_kind c \<noteq> LC_UUID"
  by (auto simp: load_cmds_after_def cmd_if_def cmd_kinds dest!: sym [of "Some c"] split: if_splits option.splits)

lemma uuid_dylinker [simp]: "lx_is_dylinker (ctx\<lparr>lx_uuid := u\<rparr>) = lx_is_dylinker ctx"
  by (cases ctx, hypsubst, unfold lx_is_dylinker_def lx.simps, rule refl)

lemma uuid_without_dyld [simp]: "lx_without_dyld (ctx\<lparr>lx_uuid := u\<rparr>) = lx_without_dyld ctx"
  by (cases ctx, hypsubst, unfold lx_without_dyld_def lx_is_dylinker_def lx.simps, rule refl)

lemma uuid_has_entry [simp]: "lx_has_entry_point (ctx\<lparr>lx_uuid := u\<rparr>) = lx_has_entry_point ctx"
  by (cases ctx, hypsubst, unfold lx_has_entry_point_def lx_without_dyld_def lx_is_dylinker_def lx.simps, rule refl)

lemma uuid_moved [simp]: "holds_moved_code (ctx\<lparr>lx_uuid := u\<rparr>) = holds_moved_code ctx"
  by (cases ctx, hypsubst, unfold holds_moved_code_def lx.simps, rule refl)

lemma uuid_prots [simp]: "segment_prots (ctx\<lparr>lx_uuid := u\<rparr>) = segment_prots ctx"
  by (cases ctx, hypsubst, unfold segment_prots_def holds_moved_code_def lx_is_dylinker_def lx.simps, rule refl)

lemma uuid_segment [simp]: "create_segment_cmd (ctx\<lparr>lx_uuid := u\<rparr>) = create_segment_cmd ctx"
  by (cases ctx, hypsubst, unfold create_segment_cmd_def segment_prots_def holds_moved_code_def lx_is_dylinker_def lx.simps, rule refl)

lemma uuid_id_dylib [simp]: "create_id_dylib_cmd (ctx\<lparr>lx_uuid := u\<rparr>) = create_id_dylib_cmd ctx"
  by (cases ctx, hypsubst, unfold create_id_dylib_cmd_def lx.simps, rule refl)

lemma uuid_dyld_info [simp]: "create_dyld_info_cmd (ctx\<lparr>lx_uuid := u\<rparr>) = create_dyld_info_cmd ctx"
  by (cases ctx, hypsubst, unfold create_dyld_info_cmd_def lx.simps, rule refl)

lemma uuid_dyld [simp]: "dyld_cmds (ctx\<lparr>lx_uuid := u\<rparr>) = dyld_cmds ctx"
  by (cases ctx, hypsubst, unfold dyld_cmds_def use_chained_fixups_def lx_without_dyld_def lx_is_dylinker_def create_dyld_info_cmd_def lx.simps, rule refl)

lemma uuid_symtab [simp]: "create_symtab_cmd (ctx\<lparr>lx_uuid := u\<rparr>) = create_symtab_cmd ctx"
  by (cases ctx, hypsubst, unfold create_symtab_cmd_def lx.simps, rule refl)

lemma uuid_dysymtab [simp]: "create_dysymtab_cmd (ctx\<lparr>lx_uuid := u\<rparr>) = create_dysymtab_cmd ctx"
  by (cases ctx, hypsubst, unfold create_dysymtab_cmd_def lx.simps, rule refl)

lemma uuid_has_version [simp]: "has_version_cmd (ctx\<lparr>lx_uuid := u\<rparr>) = has_version_cmd ctx"
  by (cases ctx, hypsubst, unfold has_version_cmd_def lx_without_dyld_def lx_is_dylinker_def lx.simps, rule refl)

lemma uuid_entry_addr [simp]: "entry_addr (ctx\<lparr>lx_uuid := u\<rparr>) = entry_addr ctx"
  by (cases ctx, hypsubst, unfold entry_addr_def lx_has_entry_point_def lx_without_dyld_def lx_is_dylinker_def lx.simps, rule refl)

lemma uuid_unixthread [simp]: "create_unixthread_cmd (ctx\<lparr>lx_uuid := u\<rparr>) = create_unixthread_cmd ctx"
  by (cases ctx, hypsubst, unfold create_unixthread_cmd_def entry_addr_def lx_has_entry_point_def lx_without_dyld_def lx_is_dylinker_def lx.simps, rule refl)

lemma uuid_main [simp]: "create_main_cmd (ctx\<lparr>lx_uuid := u\<rparr>) = create_main_cmd ctx"
  by (cases ctx, hypsubst, unfold create_main_cmd_def entry_addr_def lx_has_entry_point_def lx_without_dyld_def lx_is_dylinker_def lx.simps, rule refl)

lemma uuid_encryption [simp]: "create_encryption_info_cmd (ctx\<lparr>lx_uuid := u\<rparr>) = create_encryption_info_cmd ctx"
  by (cases ctx, hypsubst, unfold create_encryption_info_cmd_def lx.simps, rule refl)

lemma uuid_linked [simp]: "linked_dylibs (ctx\<lparr>lx_uuid := u\<rparr>) = linked_dylibs ctx"
  by (cases ctx, hypsubst, unfold linked_dylibs_def lx.simps, rule refl)

lemma uuid_lazy [simp]: "lazy_dylib_cmd (ctx\<lparr>lx_uuid := u\<rparr>) = lazy_dylib_cmd ctx"
  by (cases ctx, hypsubst, unfold lazy_dylib_cmd_def lx.simps, rule refl)

lemma uuid_flags [simp]: "mach_header_flags (ctx\<lparr>lx_uuid := u\<rparr>) = mach_header_flags ctx"
  by (cases ctx, hypsubst, unfold mach_header_flags_def binds_to_weak_def lx_has_entry_point_def lx_without_dyld_def lx_is_dylinker_def lx.simps, rule refl)

lemma uuid_commands:
  "load_cmds_before (ctx\<lparr>lx_uuid := u\<rparr>) = load_cmds_before ctx" "load_cmds_after (ctx\<lparr>lx_uuid := u\<rparr>) = load_cmds_after ctx"
  "mach_header_of (ctx\<lparr>lx_uuid := u\<rparr>) cmds = mach_header_of ctx cmds"
  by (simp_all add: load_cmds_before_def load_cmds_after_def lx_is_dylinker_def mach_header_of_def)

lemma load_command_fields:
  "8 \<le> length bs \<Longrightarrow> read_from load_command_rec bs = Some \<lparr>lc_cmd = cmd_kind bs, lc_cmdsize = cmd_size bs\<rparr>"
  by (simp add: read_from_def load_command_rec_def get_le_def cmd_kind_def cmd_size_def)

lemma cmd_kind_append [simp]: "8 \<le> length c \<Longrightarrow> cmd_kind (c @ x) = cmd_kind c"
  by (simp add: cmd_kind_def)

lemma write_uuid_skip:
  "\<forall>c \<in> set cmds. cmd_ok c \<and> cmd_kind c \<noteq> LC_UUID \<Longrightarrow> length (concat cmds) < 2 ^ 32 \<Longrightarrow> length pre = off \<Longrightarrow>
   write_uuid_loop u (length cmds + n) off (pre @ concat cmds @ rest) =
     write_uuid_loop u n (off + length (concat cmds)) (pre @ concat cmds @ rest)"
proof (induction cmds arbitrary: off pre)
  case Nil
  then show ?case by simp
next
  case (Cons c cmds)
  have c: "8 \<le> length c" "cmd_kind c \<noteq> LC_UUID" "unat (cmd_size c) = length c"
    using Cons.prems cmd_ok_size [of c "[]"] by (auto simp: cmd_ok_def)
  have "write_uuid_loop u (length cmds + n) (off + length c) ((pre @ c) @ concat cmds @ rest) =
      write_uuid_loop u n (off + length c + length (concat cmds)) ((pre @ c) @ concat cmds @ rest)"
    using Cons.prems by (intro Cons.IH) auto
  then show ?case using Cons.prems c
    by (simp add: slice_from_def load_command_fields add.assoc)
qed

text \<open>
  C13. Writing the UUID into a header that was written without it gives the header that would have been
  written with it: of all commands only the UUID's changes, and with no such command nothing does.
\<close>

theorem write_uuid_correct:
  assumes cmds: "create_load_commands ctx = Some cmds"
    and uuid: "length (lx_uuid ctx) = 16" "length u = 16" and even: "even (unat (ai_state_count (lx_arch ctx)))"
    and room: "32 + length (concat cmds) \<le> length buf" and small: "length (concat cmds) < 2 ^ 32"
  shows "Option.bind (write_mach_header ctx buf) (write_uuid u) = write_mach_header (ctx\<lparr>lx_uuid := u\<rparr>) buf"
proof -
  let ?hdr = "mach_header_of ctx cmds" and ?n = "length (concat cmds)"
  let ?h = "fr_bytes mach_header_rec ?hdr" and ?rest = "drop (32 + ?n) buf"
  have ok: "\<forall>c \<in> set cmds. cmd_ok c" using create_load_commands_ok [OF cmds uuid(1) even] .
  have l: "length ?h = 32" and sz: "fr_size mach_header_rec = 32" by (simp_all add: mach_header_rec_def)
  obtain as bs where as: "load_cmds_before ctx = map Some as" and bs: "load_cmds_after ctx = map Some bs"
    and c: "cmds = as @ (if lx_has_uuid ctx then [create_uuid_cmd ctx] else []) @ bs"
  proof -
    have m: "load_cmds_before ctx @ cmd_if (lx_has_uuid ctx) (Some (create_uuid_cmd ctx)) @ load_cmds_after ctx = map Some cmds"
      using cmds unfolding create_load_commands_def by (rule those_Some)
    then obtain as' bs' where "cmds = as' @ bs'" "map Some as' = load_cmds_before ctx"
      "cmd_if (lx_has_uuid ctx) (Some (create_uuid_cmd ctx)) @ load_cmds_after ctx = map Some bs'"
      by (auto simp: append_eq_map_conv)
    then show ?thesis by (intro that [of as' "if lx_has_uuid ctx then tl bs' else bs'"]) (auto simp: cmd_if_def Cons_eq_map_conv)
  qed
  have r: "read_from mach_header_rec (?h @ x) = Some ?hdr" for x
    using mach_header.of_bytes [of ?hdr x] l by (simp add: read_from_def mach_header_rec_def)
  have n: "unat (mh_ncmds ?hdr) = length cmds"
    using cmds_count [OF ok] small by (simp add: mach_header_of_def unat_of_nat take_bit_nat_eq_self)
  have w: "write_mach_header ctx buf = Some (?h @ concat cmds @ ?rest)" by (rule write_mach_header_eq [OF cmds room])
  have kas: "\<forall>c \<in> set as. cmd_ok c \<and> cmd_kind c \<noteq> LC_UUID"
    using ok c no_uuid_before [of _ ctx] as by auto
  have kbs: "\<forall>c \<in> set bs. cmd_ok c \<and> cmd_kind c \<noteq> LC_UUID"
    using ok c no_uuid_after [of _ ctx] bs by auto
  show ?thesis
  proof (cases "lx_has_uuid ctx")
    case False
    have "create_load_commands (ctx\<lparr>lx_uuid := u\<rparr>) = Some cmds"
      using cmds False by (simp add: create_load_commands_def uuid_commands cmd_if_def)
    then have "write_mach_header (ctx\<lparr>lx_uuid := u\<rparr>) buf = Some (?h @ concat cmds @ ?rest)"
      using write_mach_header_eq [of "ctx\<lparr>lx_uuid := u\<rparr>" cmds buf] room by (simp add: uuid_commands)
    moreover have "write_uuid_loop u (length cmds + 0) 32 (?h @ concat cmds @ ?rest) = Some (?h @ concat cmds @ ?rest)"
      by (subst write_uuid_skip) (use c False kas kbs small l in auto)
    ultimately show ?thesis using w by (simp add: write_uuid_def r sz n)
  next
    case True
    let ?u = "create_uuid_cmd ctx" and ?u' = "create_uuid_cmd (ctx\<lparr>lx_uuid := u\<rparr>)"
    have cs: "cmds = as @ [?u] @ bs" using c True by simp
    have lu: "length ?u = 24" "length ?u' = 24" "cmd_kind ?u = LC_UUID"
      using uuid by (simp_all add: create_uuid_cmd_def to_vec_def as_bytes_def uuid_command_rec_def cmd_kinds)
    have "create_load_commands (ctx\<lparr>lx_uuid := u\<rparr>) = Some (as @ [?u'] @ bs)"
      using True by (simp add: create_load_commands_def uuid_commands cmd_if_def as bs flip: map_append list.map(2))
    moreover have e: "mach_header_of ctx (as @ [?u'] @ bs) = ?hdr" by (simp add: mach_header_of_def cs lu)
    ultimately have w': "write_mach_header (ctx\<lparr>lx_uuid := u\<rparr>) buf = Some (?h @ concat (as @ [?u'] @ bs) @ ?rest)"
      using write_mach_header_eq [of "ctx\<lparr>lx_uuid := u\<rparr>" "as @ [?u'] @ bs" buf] room cs lu
      by (simp add: uuid_commands del: append.simps)
    let ?tail = "concat bs @ ?rest"
    have skip: "write_uuid_loop u (length as + (1 + length bs)) 32 (?h @ concat as @ (?u @ ?tail)) =
        write_uuid_loop u (1 + length bs) (32 + length (concat as)) (?h @ concat as @ (?u @ ?tail))"
      by (rule write_uuid_skip) (use kas l small cs in auto)
    have rd: "read_from uuid_command_rec (?u @ ?tail) = Some \<lparr>uu_cmd = LC_UUID, uu_cmdsize = 24, uu_uuid = lx_uuid ctx\<rparr>"
      using uuid_command.of_bytes [of "\<lparr>uu_cmd = LC_UUID, uu_cmdsize = 24, uu_uuid = lx_uuid ctx\<rparr>" ?tail] uuid lu
      by (simp add: read_from_def create_uuid_cmd_def to_vec_def as_bytes_def uuid_command_rec_def)
    have wr: "write_to uuid_command_rec \<lparr>uu_cmd = LC_UUID, uu_cmdsize = 24, uu_uuid = u\<rparr> (?u @ ?tail) = Some (?u' @ ?tail)"
      using lu by (simp add: write_to_def create_uuid_cmd_def to_vec_def as_bytes_def uuid_command_rec_def)
    have "write_uuid_loop u (1 + length bs) (32 + length (concat as)) (?h @ concat as @ (?u @ ?tail)) =
        Some (?h @ concat as @ ?u' @ ?tail)"
      using lu rd wr by (simp add: slice_from_def l load_command_fields)
    with skip have "write_uuid_loop u (length cmds) 32 (?h @ concat cmds @ ?rest) = Some (?h @ concat as @ ?u' @ ?tail)"
      by (simp add: cs)
    then show ?thesis using w w' by (simp add: write_uuid_def r sz n)
  qed
qed

subsection \<open>Room for the header\<close>

lemma unat_max_u64: "unat (max (a :: u64) b) = max (unat a) (unat b)"
  by (simp add: max_def word_le_nat_alt)

text \<open>The commands that carry the install name of a library, which a later step may rewrite.\<close>

definition install_name_kinds :: "u32 set" where
  "install_name_kinds = {LC_ID_DYLIB, LC_LOAD_DYLIB, LC_LOAD_WEAK_DYLIB, LC_REEXPORT_DYLIB, LC_LOAD_UPWARD_DYLIB}"

definition install_names :: "bytes list \<Rightarrow> nat" where
  "install_names cmds = length (filter (\<lambda>c. cmd_kind c \<in> install_name_kinds) cmds)"

named_theorems name_kinds \<open>which commands carry an install name\<close>

lemma fixed_name_kinds [name_kinds]:
  "cmd_kind (create_symtab_cmd ctx) \<notin> install_name_kinds" "cmd_kind (create_dysymtab_cmd ctx) \<notin> install_name_kinds"
  "cmd_kind (create_dyld_info_cmd ctx) \<notin> install_name_kinds" "cmd_kind (create_version_cmd cpu pl mi sdk) \<notin> install_name_kinds"
  "cmd_kind (create_source_version_cmd v) \<notin> install_name_kinds" "cmd_kind (create_routines_cmd sy) \<notin> install_name_kinds"
  "cmd_kind (create_encryption_info_cmd ctx) \<notin> install_name_kinds" "cmd_kind (create_linkedit_data_cmd k hdr) = k"
  "cmd_kind (lazy_dylib_cmd ctx d) \<notin> install_name_kinds" "cmd_kind (create_uuid_cmd ctx) \<notin> install_name_kinds"
  by (auto simp: install_name_kinds_def cmd_kind_le to_vec_def as_bytes_def rec_defs create_symtab_cmd_def create_dysymtab_cmd_def
    create_dyld_info_cmd_def create_version_cmd_def create_source_version_cmd_def create_routines_cmd_def create_uuid_cmd_def
    create_encryption_info_cmd_def create_linkedit_data_cmd_def lazy_dylib_cmd_def Let_def case_prod_beta split: option.splits)

lemma string_name_kinds [name_kinds]:
  "create_string_cmd k p = Some c \<Longrightarrow> cmd_kind c = k" "create_id_dylib_cmd ctx = Some c \<Longrightarrow> cmd_kind c \<in> install_name_kinds"
  "create_load_dylib_cmd d = Some c \<Longrightarrow> cmd_kind c \<in> install_name_kinds"
  by (auto simp: install_name_kinds_def create_string_cmd_def create_id_dylib_cmd_def create_load_dylib_cmd_def Let_def to_vec_def as_bytes_def rec_defs
      cmd_kind_le append_assoc dest!: append_string_ok [rotated] split: if_splits)

lemma segment_name_kind [name_kinds]: "create_segment_cmd ctx seg = Some c \<Longrightarrow> cmd_kind c \<notin> install_name_kinds"
  by (auto simp: install_name_kinds_def create_segment_cmd_def Let_def rec_defs to_vec_def as_bytes_def cmd_kind_le split: bind_splits prod.splits if_splits)

lemma main_name_kind [name_kinds]: "create_main_cmd ctx = Some c \<Longrightarrow> cmd_kind c \<notin> install_name_kinds"
  by (auto simp: install_name_kinds_def create_main_cmd_def to_vec_def as_bytes_def rec_defs cmd_kind_le split: bind_splits)

lemma unixthread_name_kind [name_kinds]: "create_unixthread_cmd ctx = Some c \<Longrightarrow> cmd_kind c \<notin> install_name_kinds"
  by (simp add: unixthread_cmd_kind install_name_kinds_def)

text \<open>How many of a list of commands, none of them a panic, carry one.\<close>

definition named :: "bytes option list \<Rightarrow> nat" where
  "named xs = length (filter (\<lambda>x. case x of Some c \<Rightarrow> cmd_kind c \<in> install_name_kinds | None \<Rightarrow> False) xs)"

lemma named_simps [simp]:
  "named [] = 0" "named (xs @ ys) = named xs + named ys"
  "named (x # xs) = (case x of Some c \<Rightarrow> if cmd_kind c \<in> install_name_kinds then 1 else 0 | None \<Rightarrow> 0) + named xs"
  by (auto simp: named_def split: option.splits)

lemma named_map_Some: "named (map Some cmds) = install_names cmds"
  by (simp add: named_def install_names_def filter_map comp_def)

lemma named_none: "(\<And>c. Some c \<in> set xs \<Longrightarrow> cmd_kind c \<notin> install_name_kinds) \<Longrightarrow> named xs = 0"
  by (auto simp: named_def filter_empty_conv split: option.splits)

lemma named_map: "(\<And>x c. f x = Some c \<Longrightarrow> cmd_kind c \<notin> install_name_kinds) \<Longrightarrow> named (map f xs) = 0"
  by (induction xs) (auto split: option.splits)

lemma named_cmd_if: "(\<And>c. x = Some c \<Longrightarrow> cmd_kind c \<notin> install_name_kinds) \<Longrightarrow> named (cmd_if b x) = 0"
  by (auto simp: cmd_if_def split: option.splits)

lemma named_all: "(\<And>x. x \<in> set xs \<Longrightarrow> \<exists>c. x = Some c \<and> cmd_kind c \<in> install_name_kinds) \<Longrightarrow> named xs = length xs"
  unfolding named_def by (subst filter_True) fastforce+

lemma install_names_count:
  assumes "create_load_commands ctx = Some cmds"
  shows "install_names cmds = length (filter (\<lambda>d. \<not> dyi_is_bundle_loader d \<and> \<not> dyi_is_lazy d) (lx_dylibs ctx)) +
    (if lx_output_type ctx = MH_DYLIB then 1 else 0)"
proof -
  have m: "load_cmds_before ctx @ cmd_if (lx_has_uuid ctx) (Some (create_uuid_cmd ctx)) @ load_cmds_after ctx = map Some cmds"
    using assms unfolding create_load_commands_def by (rule those_Some)
  have some: "x \<noteq> None" if "x \<in> set (load_cmds_before ctx) \<union> set (load_cmds_after ctx)" for x
  proof -
    have "x \<in> set (map Some cmds)" using that unfolding m [symmetric] by auto
    then show ?thesis by auto
  qed
  have id: "lx_output_type ctx = MH_DYLIB \<Longrightarrow> \<exists>c. create_id_dylib_cmd ctx = Some c"
    using some [of "create_id_dylib_cmd ctx"] by (auto simp: load_cmds_before_def cmd_if_def)
  have before: "named (load_cmds_before ctx) = (if lx_output_type ctx = MH_DYLIB then 1 else 0)"
  proof -
    have 1: "named (map (create_segment_cmd ctx) (filter P (lx_segments ctx))) = 0" for P
      by (rule named_map) (rule segment_name_kind)
    have 2: "named (map Some (dyld_cmds ctx)) = 0"
    proof (rule named_none)
      have "LC_DYLD_CHAINED_FIXUPS \<notin> install_name_kinds" "LC_DYLD_EXPORTS_TRIE \<notin> install_name_kinds"
        by (simp_all add: install_name_kinds_def)
      then show "cmd_kind c \<notin> install_name_kinds" if "Some c \<in> set (map Some (dyld_cmds ctx))" for c
        using that by (auto simp: dyld_cmds_def cmd_if_def name_kinds split: if_splits)
    qed
    have 3: "named (cmd_if (lx_output_type ctx = MH_DYLIB) (create_id_dylib_cmd ctx)) = (if lx_output_type ctx = MH_DYLIB then 1 else 0)"
      using id by (auto simp: cmd_if_def name_kinds)
    have 4: "named (case lx_init_routine ctx of None \<Rightarrow> [] | Some sy \<Rightarrow> [Some (create_routines_cmd sy)]) = 0"
      "named [Some (create_symtab_cmd ctx)] = 0" "named (cmd_if b (Some (create_dysymtab_cmd ctx))) = 0" for b
      by (auto simp: name_kinds cmd_if_def split: option.splits)
    have 5: "named (if lx_is_dylinker ctx then [create_string_cmd LC_ID_DYLINKER p] else cmd_if b (create_string_cmd LC_LOAD_DYLINKER q)) = 0" for p q b
      by (auto simp: install_name_kinds_def dest!: string_name_kinds(1) intro!: named_cmd_if split: option.splits)
    show ?thesis unfolding load_cmds_before_def named_simps(2) 1 2 3 4 5 by simp
  qed
  have dy: "\<exists>c. x = Some c \<and> cmd_kind c \<in> install_name_kinds" if x: "x \<in> set (map create_load_dylib_cmd (linked_dylibs ctx))" for x
  proof -
    obtain d where d: "x = create_load_dylib_cmd d" using x by auto
    have "x \<noteq> None" using x some [of x] by (auto simp: load_cmds_after_def)
    then show ?thesis using string_name_kinds(3) [of d] unfolding d by blast
  qed
  have after: "named (load_cmds_after ctx) = length (linked_dylibs ctx)"
  proof -
    have 1: "named (map create_load_dylib_cmd (linked_dylibs ctx)) = length (linked_dylibs ctx)"
      by (subst named_all) (use dy in simp_all)
    have 2: "named (map (create_string_cmd k) ps) = 0" if "k \<notin> install_name_kinds" for k ps
      using that by (intro named_map) (metis string_name_kinds(1))
    have 3: "named (cmd_if b (Some (create_linkedit_data_cmd k hdr))) = 0" if "k \<notin> install_name_kinds" for b k hdr
      using that by (auto simp: cmd_if_def name_kinds)
    have 4: "named (cmd_if b (Some (create_version_cmd cpu pl mi sdk))) = 0" "named (cmd_if b (Some (create_encryption_info_cmd ctx))) = 0"
      "named (case lx_source_version ctx of None \<Rightarrow> [] | Some version \<Rightarrow> [Some (create_source_version_cmd version)]) = 0"
      "named (map (Some \<circ> lazy_dylib_cmd ctx) ds) = 0" for b cpu pl mi sdk ds
      by (auto simp: cmd_if_def name_kinds intro!: named_none split: option.splits)
    have 5: "named (if lx_unixthread ctx then [create_unixthread_cmd ctx] else cmd_if b (create_main_cmd ctx)) = 0" for b
      using named_cmd_if [OF main_name_kind] unixthread_name_kind by (auto split: option.splits)
    have 6: "named (if lx_output_type ctx = MH_DYLIB then map (create_string_cmd LC_SUB_CLIENT) ps @
        (case lx_umbrella ctx of None \<Rightarrow> [] | Some name \<Rightarrow> [create_string_cmd LC_SUB_FRAMEWORK name]) else []) = 0" for ps
      using 2 [of LC_SUB_CLIENT ps] string_name_kinds(1) [of LC_SUB_FRAMEWORK]
      by (auto simp: install_name_kinds_def split: option.splits)
    have k: "LC_SEGMENT_SPLIT_INFO \<notin> install_name_kinds" "LC_FUNCTION_STARTS \<notin> install_name_kinds" "LC_DATA_IN_CODE \<notin> install_name_kinds"
      "LC_ATOM_INFO \<notin> install_name_kinds" "LC_CODE_SIGNATURE \<notin> install_name_kinds" "LC_RPATH \<notin> install_name_kinds"
      "LC_DYLD_ENVIRONMENT \<notin> install_name_kinds"
      by (simp_all add: install_name_kinds_def)
    show ?thesis
      unfolding load_cmds_after_def named_simps(2) 1 4 5 6 2 [OF k(6)] 2 [OF k(7)] 3 [OF k(1)] 3 [OF k(2)] 3 [OF k(3)] 3 [OF k(4)] 3 [OF k(5)] by simp
  qed
  have "install_names cmds = named (load_cmds_before ctx) + named (cmd_if (lx_has_uuid ctx) (Some (create_uuid_cmd ctx))) + named (load_cmds_after ctx)"
    unfolding named_map_Some [symmetric] m [symmetric] by simp
  moreover have "named (cmd_if (lx_has_uuid ctx) (Some (create_uuid_cmd ctx))) = 0" by (simp add: cmd_if_def name_kinds)
  ultimately show ?thesis by (simp add: before after linked_dylibs_def)
qed

text \<open>
  The room to keep behind the commands: what was asked for; enough for one more command in an image
  that dyld loads; with \<^verbatim>\<open>-headerpad_max_install_names\<close> 1024 bytes for each install name; and on top
  32 bytes, eight for each library, and sixteen in a simulator's image.
\<close>

definition room_wanted :: "lx \<Rightarrow> bytes list \<Rightarrow> nat" where
  "room_wanted ctx cmds =
     (if lx_preload ctx \<or> lx_is_dylinker ctx then 0
      else Max {unat (lx_headerpad ctx), if lx_without_dyld ctx then 0 else 32,
                if lx_headerpad_max ctx then 1024 * install_names cmds else 0}
           + 32 + 8 * length (lx_dylibs ctx) + (if is_simulator (lx_platform ctx) then 16 else 0))"

lemma header_pad_nat:
  assumes c: "create_load_commands ctx = Some cmds" and n: "length (lx_dylibs ctx) < 2 ^ 32" and p: "unat (lx_headerpad ctx) < 2 ^ 48"
  shows "unat (header_pad ctx) = room_wanted ctx cmds" and "room_wanted ctx cmds < 2 ^ 50"
proof -
  let ?ds = "filter (\<lambda>d. \<not> dyi_is_bundle_loader d \<and> \<not> dyi_is_lazy d) (lx_dylibs ctx)"
  define m where "m = length ?ds + (if lx_output_type ctx = MH_DYLIB then 1 else 0)"
  define p0 where "p0 = (if lx_without_dyld ctx then lx_headerpad ctx else max (lx_headerpad ctx) 32)"
  define p1 where "p1 = (if lx_headerpad_max ctx then max p0 (of_nat m * 1024) else p0)"
  define sim :: u64 where "sim = (if is_simulator (lx_platform ctx) then 16 else 0)"
  have nm: "install_names cmds = m" using install_names_count [OF c] by (simp add: m_def)
  have m: "m \<le> 2 ^ 32" using le_less_trans [OF length_filter_le n, of "\<lambda>d. \<not> dyi_is_bundle_loader d \<and> \<not> dyi_is_lazy d"] by (simp add: m_def)
  have m64: "unat (of_nat m * 1024 :: u64) = m * 1024"
    using m unat_of_nat_small [of "m * 1024", where 'a = 64] by simp
  have p0: "unat p0 = max (unat (lx_headerpad ctx)) (if lx_without_dyld ctx then 0 else 32)" "unat p0 < 2 ^ 48"
    using p by (auto simp: p0_def unat_max_u64)
  have p1: "unat p1 = Max {unat (lx_headerpad ctx), if lx_without_dyld ctx then 0 else 32, if lx_headerpad_max ctx then 1024 * install_names cmds else 0}"
    using p0(1) by (simp add: p1_def unat_max_u64 m64 nm max.assoc mult.commute)
  have p1': "unat p1 < 2 ^ 49"
    using p0 m by (auto simp: p1_def unat_max_u64 m64)
  have d: "unat (8 * of_nat (length (lx_dylibs ctx)) :: u64) = 8 * length (lx_dylibs ctx)"
    using n unat_of_nat_small [of "8 * length (lx_dylibs ctx)", where 'a = 64] by simp
  have s: "unat sim = (if is_simulator (lx_platform ctx) then 16 else 0)" "unat sim \<le> 16" by (simp_all add: sim_def)
  have a: "unat (p1 + 32) = unat p1 + 32" using p1' by (subst unat_plus_small) auto
  have b: "unat (p1 + 32 + 8 * of_nat (length (lx_dylibs ctx))) = unat p1 + 32 + 8 * length (lx_dylibs ctx)"
    using p1' n by (subst unat_plus_small) (auto simp: a d)
  have c: "unat (p1 + 32 + 8 * of_nat (length (lx_dylibs ctx)) + sim) = unat p1 + 32 + 8 * length (lx_dylibs ctx) + unat sim"
    using p1' n s(2) by (subst unat_plus_small) (auto simp: b)
  have "header_pad ctx = (if lx_preload ctx \<or> lx_is_dylinker ctx then 0 else p1 + 32 + 8 * of_nat (length (lx_dylibs ctx)) + sim)"
    by (simp add: header_pad_def Let_def p1_def p0_def m_def sim_def)
  moreover have "room_wanted ctx cmds = (if lx_preload ctx \<or> lx_is_dylinker ctx then 0 else unat p1 + 32 + 8 * length (lx_dylibs ctx) + unat sim)"
    unfolding room_wanted_def p1 s(1) by simp
  ultimately show "unat (header_pad ctx) = room_wanted ctx cmds" and "room_wanted ctx cmds < 2 ^ 50"
    using c p1' s(2) n by simp_all
qed

text \<open>
  C14. The size set aside for the header is exactly the header, every command and the room wanted
  behind them, which counts the install names in the commands themselves; in an encryptable image,
  whose text starts on a segment boundary, it is that rounded up to the next one. The header always
  fits into it.
\<close>

theorem mach_header_room:
  assumes cmds: "create_load_commands ctx = Some cmds" and small: "length (concat cmds) < 2 ^ 32"
    and dylibs: "length (lx_dylibs ctx) < 2 ^ 32" and pad: "unat (lx_headerpad ctx) < 2 ^ 48"
    and align: "lx_segment_align ctx = 2 ^ k" "k < 48"
  shows "\<exists>sz. mach_header_size ctx = Some sz \<and>
    (if lx_encryptable ctx \<and> \<not> lx_is_dylinker ctx
     then 2 ^ k dvd unat sz \<and> 32 + length (concat cmds) + room_wanted ctx cmds \<le> unat sz \<and>
       unat sz < 32 + length (concat cmds) + room_wanted ctx cmds + 2 ^ k
     else unat sz = 32 + length (concat cmds) + room_wanted ctx cmds) \<and>
    (\<forall>buf. length buf = unat sz \<longrightarrow> write_mach_header ctx buf \<noteq> None)"
proof -
  let ?n = "length (concat cmds)"
  define sz :: u64 where "sz = of_nat (fr_size mach_header_rec) + of_nat ?n + header_pad ctx"
  define res where "res = (if lx_encryptable ctx \<and> \<not> lx_is_dylinker ctx then align_to sz (lx_segment_align ctx) else sz)"
  note hp = header_pad_nat [OF cmds dylibs pad]
  have n: "unat (of_nat ?n :: u64) = ?n" using small by (simp add: unat_of_nat_small)
  have h: "unat (32 + of_nat ?n :: u64) = 32 + ?n" using small n by (subst unat_plus_small) auto
  have sz: "unat sz = 32 + ?n + room_wanted ctx cmds"
    using small hp unfolding sz_def by (simp add: mach_header_rec_def) (subst unat_plus_small, auto simp: h)
  then have sz': "unat sz < 2 ^ 51" using hp small by simp
  have "(2::nat) ^ k < 2 ^ 48" using align(2) by (rule power_strict_increasing) simp
  then have fit: "unat sz + 2 ^ k \<le> 2 ^ 64" using sz' by simp
  have al: "2 ^ k dvd unat (align_to sz (2 ^ k))" "unat sz \<le> unat (align_to sz (2 ^ k))" "unat (align_to sz (2 ^ k)) < unat sz + 2 ^ k"
    using align_to_props [of k sz] align(2) fit by auto
  have "mach_header_size ctx = Some res"
    by (simp add: mach_header_size_def cmds res_def sz_def length_concat_sum Let_def)
  moreover have "if lx_encryptable ctx \<and> \<not> lx_is_dylinker ctx
     then 2 ^ k dvd unat res \<and> 32 + ?n + room_wanted ctx cmds \<le> unat res \<and> unat res < 32 + ?n + room_wanted ctx cmds + 2 ^ k
     else unat res = 32 + ?n + room_wanted ctx cmds"
    using sz al by (simp add: res_def align(1))
  moreover have "write_mach_header ctx buf \<noteq> None" if "length buf = unat res" for buf
    using write_mach_header_eq [OF cmds, of buf] that calculation(2) by (simp split: if_splits)
  ultimately show ?thesis by blast
qed

subsection \<open>Witnesses\<close>

definition sample_segment :: segment_command where
  "sample_segment =
     \<lparr>seg_cmd = LC_SEGMENT_64, seg_cmdsize = 0, seg_segname = replicate 16 0, seg_vmaddr = 0, seg_vmsize = 0x4000, seg_fileoff = 0,
      seg_filesize = 0x4000, seg_maxprot = 5, seg_initprot = 5, seg_nsects = 0, seg_flags = 0\<rparr>"

definition sample_link :: lx where
  "sample_link =
     \<lparr>lx_arch = \<lparr>ai_cputype = 0x0100000c, ai_cpusubtype = 0, ai_state_flavor = 6, ai_state_count = 68, ai_sp_offset = 248, ai_pc_offset = 256\<rparr>,
      lx_output_type = MH_DYLIB, lx_static_link = False, lx_is_kext = False, lx_pie = True, lx_relocatable = False,
      lx_preload = False, lx_fixup_chains = True, lx_chains_disabled = False, lx_fixup_chains_section = False,
      lx_no_fixup_chains = False, lx_legacy_linkedit = False, lx_text_exec = False, lx_shared_region = False,
      lx_flat_namespace = False, lx_simulator_support = False, lx_application_extension = False, lx_no_dynamic_access = False,
      lx_segprots = [], lx_has_uuid = True, lx_uuid = replicate 16 7, lx_platform = 1, lx_platform_minos = 0x000b0000,
      lx_platform_sdk = 0x000c0000, lx_version_load_command = False, lx_source_version = Some 1, lx_unixthread = False,
      lx_encryptable = True, lx_segment_align = 0x4000, lx_stack_size = 0, lx_install_name = bstr ''libx.dylib'',
      lx_current_version = 0x10000, lx_compatibility_version = 0x10000, lx_rpaths = [bstr ''@loader_path''],
      lx_allowable_clients = [], lx_umbrella = None, lx_dyld_envs = [], lx_function_starts = True, lx_headerpad = 64,
      lx_headerpad_max = True,
      lx_segments = [\<lparr>os_name = bstr ''__TEXT'', os_chunks = [], os_cmd = sample_segment\<rparr>],
      lx_chunks = [], lx_hdr = (\<lambda>_. chunk_header_new [] []), lx_moved_ro = (\<lambda>_. False),
      lx_dylibs = [\<lparr>dyi_install_name = bstr ''/usr/lib/libSystem.B.dylib'', dyi_current_version = 1, dyi_compatibility_version = 1,
        dyi_dylib_idx = 1, dyi_is_weak = False, dyi_is_weak_asserted = False, dyi_is_reexported = False, dyi_is_upward = False,
        dyi_has_delay_init = False, dyi_is_bundle_loader = False, dyi_is_lazy = False, dyi_weak_exports = []\<rparr>],
      lx_lazy_dylibs = [], lx_entry = None, lx_init_routine = None, lx_syms = [], lx_weak_import = False,
      lx_weak_bind_contents = [], lx_symtab_len = 3, lx_nlocal = 1, lx_nextdef = 1, lx_nundef = 1, lx_nlocrels = 0, lx_nextrels = 0\<rparr>"

lemma sample_commands:
  "case create_load_commands sample_link of None \<Rightarrow> False | Some cmds \<Rightarrow> length (concat cmds) < 1000"
  by code_simp

lemma sample_cmds: obtains cmds where "create_load_commands sample_link = Some cmds" "length (concat cmds) < 1000"
  using sample_commands by (auto split: option.splits)

lemma sample_uuid: "length (lx_uuid sample_link) = 16"
  by (simp add: sample_link_def)

lemma sample_even: "even (unat (ai_state_count (lx_arch sample_link)))"
  by (simp add: sample_link_def)

lemma write_mach_header_reads_back_witness:
  "\<exists>cmds out. create_load_commands sample_link = Some cmds \<and> write_mach_header sample_link (replicate 1032 9) = Some out \<and>
     length out = 1032"
proof -
  obtain cmds where c: "create_load_commands sample_link = Some cmds" "length (concat cmds) < 1000" by (rule sample_cmds)
  show ?thesis
    using write_mach_header_reads_back [OF c(1) sample_uuid sample_even, of "replicate 1032 9"] c by auto
qed

lemma write_uuid_correct_witness:
  "Option.bind (write_mach_header sample_link (replicate 1032 9)) (write_uuid (replicate 16 5)) =
     write_mach_header (sample_link\<lparr>lx_uuid := replicate 16 5\<rparr>) (replicate 1032 9)"
proof -
  obtain cmds where c: "create_load_commands sample_link = Some cmds" "length (concat cmds) < 1000" by (rule sample_cmds)
  show ?thesis
    using c by (intro write_uuid_correct [OF c(1) sample_uuid _ sample_even]) auto
qed

lemma mach_header_room_witness:
  "\<exists>cmds sz. create_load_commands sample_link = Some cmds \<and> install_names cmds = 2 \<and> room_wanted sample_link cmds = 2088 \<and>
     mach_header_size sample_link = Some sz \<and> 2 ^ 14 dvd unat sz \<and> 2120 + length (concat cmds) \<le> unat sz"
proof -
  obtain cmds where c: "create_load_commands sample_link = Some cmds" "length (concat cmds) < 1000" by (rule sample_cmds)
  have n: "install_names cmds = 2" using install_names_count [OF c(1)] by (simp add: sample_link_def)
  have s: "\<not> lx_preload sample_link" "\<not> lx_is_dylinker sample_link" "lx_headerpad_max sample_link" "lx_headerpad sample_link = 64"
    "length (lx_dylibs sample_link) = 1" "\<not> is_simulator (lx_platform sample_link)" "lx_encryptable sample_link" "lx_segment_align sample_link = 2 ^ 14"
    by (simp_all add: sample_link_def lx_is_dylinker_def is_simulator_def)
  have r: "room_wanted sample_link cmds = 2088" unfolding room_wanted_def n using s by simp
  obtain sz where "mach_header_size sample_link = Some sz" "2 ^ 14 dvd unat sz" "32 + length (concat cmds) + 2088 \<le> unat sz"
    using mach_header_room [OF c(1), of 14] c(2) s unfolding r by auto
  then show ?thesis using c(1) n r by (intro exI [of _ cmds] exI [of _ sz]) simp
qed

end
