(* ===== verification/ExportTrie.thy ===== *)
theory ExportTrie
  imports Chunks "HOL-Library.List_Lexorder" "HOL-Library.Multiset"
begin

unbundle bit_operations_syntax

section \<open>The export trie (\<open>chunks/export_trie.rs\<close>)\<close>

text \<open>
  dyld's index of the exported names: the terminals, the building of the radix tree from the sorted
  names, its numbering, the placement of the nodes with its explicit stack, and the writing. The
  reader is dyld's walk along a name (\<open>trie_walk\<close>). \<open>build_trie\<close> recurses over groups of names,
  with the sum of what is left of them as its measure; the parallel iterators are maps. \<open>None\<close> is a
  panic, or for \<open>place_loop\<close> a loop that does not end; the last theorem excludes both.
\<close>

subsection \<open>Exports\<close>

datatype export = Addr u32 u64 | Reexport u32 bytes

fun terminal_size :: "export \<Rightarrow> nat" where
  "terminal_size (Addr flags addr) = uleb_size (ucast flags) + uleb_size addr"
| "terminal_size (Reexport ordinal name) =
     uleb_size (ucast EXPORT_SYMBOL_FLAGS_REEXPORT) + uleb_size (ucast ordinal) + length name + 1"

text \<open>What the code reads of a symbol. \<open>xy_bind_ordinal\<close> is \<^verbatim>\<open>bind_ordinal\<close>, cast to \<^verbatim>\<open>u32\<close>.\<close>

record export_sym =
  xy_name :: bytes
  xy_is_weak_def :: bool
  xy_is_tlv :: bool
  xy_is_absolute :: bool
  xy_addr :: u64
  xy_in_dylib :: bool
  xy_bind_ordinal :: u32

record export_ctx =
  xc_without_dyld :: bool
  xc_base :: u64
  xc_syms :: "export_sym list"
  xc_indirect_aliases :: "(nat \<times> nat) list"

definition addr_export :: "export_ctx \<Rightarrow> export_sym \<Rightarrow> export" where
  "addr_export ctx sy =
     (let flags = 0;
          flags = (if xy_is_weak_def sy then flags OR EXPORT_SYMBOL_FLAGS_WEAK_DEFINITION else flags);
          flags = (if xy_is_tlv sy then flags OR EXPORT_SYMBOL_FLAGS_KIND_THREAD_LOCAL else flags)
      in if xy_is_absolute sy then Addr (flags OR EXPORT_SYMBOL_FLAGS_KIND_ABSOLUTE) (xy_addr sy)
         else Addr flags (xy_addr sy - xc_base ctx))"

definition export_of :: "export_ctx \<Rightarrow> nat \<Rightarrow> (bytes \<times> export) option" where
  "export_of ctx sid =
     (let sy = xc_syms ctx ! sid in
      case List.find (\<lambda>(a, t). a = sid) (xc_indirect_aliases ctx) of
        Some (_, target) \<Rightarrow>
          let ty = xc_syms ctx ! target;
              same_name = (xy_name ty = xy_name sy)
          in if \<not> xy_in_dylib ty then None
             else Some (xy_name sy, Reexport (xy_bind_ordinal ty) (if same_name then [] else xy_name ty))
      | None \<Rightarrow> Some (xy_name sy, addr_export ctx sy))"

definition exports :: "export_ctx \<Rightarrow> nat list \<Rightarrow> (bytes \<times> export) list" where
  "exports ctx sorted_globals = List.map_filter (export_of ctx) sorted_globals"

subsection \<open>Building the tree\<close>

datatype trie_node =
  TrieNode (tn_children: "(bytes \<times> trie_node) list") (tn_export: "export option") (tn_index: u32) (tn_size: u32)

text \<open>\<open>rest.iter().take_while(|(n, _)| n[depth] == b).count()\<close>\<close>

fun group_count :: "nat \<Rightarrow> u8 \<Rightarrow> (bytes \<times> export) list \<Rightarrow> nat option" where
  "group_count depth b [] = Some 0"
| "group_count depth b ((n, x) # rest) =
     (if depth < length n then
        if n ! depth = b then map_option Suc (group_count depth b rest) else Some 0
      else None)"

function trie_groups :: "nat \<Rightarrow> (bytes \<times> export) list \<Rightarrow> (bytes \<times> export) list list option" where
  "trie_groups depth [] = Some []"
| "trie_groups depth ((first, x) # rest) =
     (if depth < length first then
        case group_count depth (first ! depth) rest of
          None \<Rightarrow> None
        | Some n \<Rightarrow> map_option (Cons ((first, x) # take n rest)) (trie_groups depth (drop n rest))
      else None)"
  by pat_completeness auto
termination by (relation "measure (\<lambda>(d, names). length names)") auto

definition common_depth :: "(bytes \<times> export) list \<Rightarrow> nat \<Rightarrow> nat" where
  "common_depth grp depth =
     depth + length (takeWhile (\<lambda>(a, b). a = b) (zip (drop depth (fst (hd grp))) (drop depth (fst (List.last grp)))))"

definition after_export :: "(bytes \<times> export) list \<Rightarrow> nat \<Rightarrow> export option \<times> (bytes \<times> export) list" where
  "after_export names depth =
     (case names of
        [] \<Rightarrow> (None, [])
      | (name, x) # rest \<Rightarrow> if length name = depth then (Some x, rest) else (None, names))"

lemma group_count_le: "group_count d b names = Some n \<Longrightarrow> n \<le> length names"
  by (induction d b names arbitrary: n rule: group_count.induct) (auto split: if_splits)

lemma group_count_take: "group_count d b names = Some n \<Longrightarrow> (m, x) \<in> set (take n names) \<Longrightarrow> d < length m \<and> m ! d = b"
  by (induction d b names arbitrary: n rule: group_count.induct) (auto split: if_splits)

lemma trie_groups_concat: "trie_groups d names = Some gs \<Longrightarrow> concat gs = names"
  by (induction d names arbitrary: gs rule: trie_groups.induct) (auto split: if_splits option.splits)

lemma trie_groups_mem:
  "trie_groups d names = Some gs \<Longrightarrow> g \<in> set gs \<Longrightarrow> g \<noteq> [] \<and> (\<forall>(n, x) \<in> set g. d < length n \<and> n ! d = fst (hd g) ! d)"
proof (induction d names arbitrary: gs rule: trie_groups.induct)
  case (2 d first x rest)
  then obtain n hs where n: "group_count d (first ! d) rest = Some n" "trie_groups d (drop n rest) = Some hs"
    and gs: "gs = ((first, x) # take n rest) # hs" and d: "d < length first"
    by (auto split: if_splits option.splits)
  show ?case
  proof (cases "g \<in> set hs")
    case True
    then show ?thesis using "2.IH" [OF d n] by simp
  next
    case False
    then show ?thesis using 2 gs d group_count_take [OF n(1)] by auto
  qed
qed simp

lemma common_depth_greater:
  assumes "trie_groups d names = Some gs" and "g \<in> set gs"
  shows "d < common_depth g d"
proof -
  have g: "g \<noteq> []" "\<forall>(n, x) \<in> set g. d < length n \<and> n ! d = fst (hd g) ! d"
    using trie_groups_mem [OF assms] by auto
  then have "d < length (fst (hd g))" "d < length (fst (List.last g))" "fst (List.last g) ! d = fst (hd g) ! d"
    using hd_in_set [of g] last_in_set [of g] by (fastforce simp del: hd_in_set last_in_set)+
  then show ?thesis by (simp add: common_depth_def flip: Cons_nth_drop_Suc)
qed

definition left_over :: "nat \<Rightarrow> (bytes \<times> export) list \<Rightarrow> nat" where
  "left_over d names = sum_list (map (\<lambda>(n, x). length n - d) names)"

lemma left_over_append [simp]: "left_over d (xs @ ys) = left_over d xs + left_over d ys"
  by (simp add: left_over_def)

lemma left_over_mono: "d \<le> d' \<Longrightarrow> left_over d' names \<le> left_over d names"
  by (auto simp: left_over_def intro!: sum_list_mono)

lemma left_over_less:
  assumes "g \<noteq> []" and "\<forall>(n, x) \<in> set g. d < length n" and "d < d'"
  shows "left_over d' g < left_over d g"
  using assms
proof (induction g)
  case (Cons y g)
  obtain n x where y: "y = (n, x)" by (cases y)
  have "left_over d' g \<le> left_over d g" using Cons.prems(3) by (simp add: left_over_mono)
  moreover have "length n - d' < length n - d" using Cons.prems y by auto
  ultimately show ?case by (simp add: left_over_def y)
qed simp

lemma left_over_concat: "g \<in> set gs \<Longrightarrow> left_over d g \<le> left_over d (concat gs)"
  by (induction gs) auto

lemma left_over_after: "left_over d (snd (after_export names d)) \<le> left_over d names"
  by (auto simp: after_export_def left_over_def split: list.splits)

function build_trie :: "(bytes \<times> export) list \<Rightarrow> nat \<Rightarrow> trie_node option" where
  "build_trie names depth =
     (case trie_groups depth (snd (after_export names depth)) of
        None \<Rightarrow> None
      | Some groups \<Rightarrow>
          map_option (\<lambda>children. TrieNode children (fst (after_export names depth)) 0 0)
            (those (map (\<lambda>grp.
               map_option (Pair (take (common_depth grp depth - depth) (drop depth (fst (hd grp)))))
                 (build_trie grp (common_depth grp depth))) groups)))"
  by pat_completeness auto
termination
proof (relation "measure (\<lambda>(names, d). left_over d names)", goal_cases)
  case (2 names d gs g)
  have "left_over (common_depth g d) g < left_over d g"
    using common_depth_greater [OF 2] trie_groups_mem [OF 2] by (intro left_over_less) auto
  also have "\<dots> \<le> left_over d (concat gs)" using 2 by (intro left_over_concat)
  also have "\<dots> \<le> left_over d names" using left_over_after [of d names] trie_groups_concat [OF 2(1)] by simp
  finally show ?case by simp
qed simp

declare build_trie.simps [simp del]

subsection \<open>Numbering\<close>

lemma size_child: "(l, c) \<in> set ch \<Longrightarrow> size c < size (TrieNode ch x i z)"
  by (induction ch) auto

text \<open>\<^verbatim>\<open>count\<close>: sorts the children by label and counts the subtree.\<close>

function trie_count :: "trie_node \<Rightarrow> trie_node" where
  "trie_count (TrieNode ch x i z) =
     (let ch = map (\<lambda>(l, c). (l, trie_count c)) (sort_key fst ch)
      in TrieNode ch x i (1 + sum_list (map (\<lambda>(l, c). tn_size c) ch)))"
  by pat_completeness auto
termination
  by (relation "measure size") (auto intro: size_child simp del: trie_node.size)

text \<open>
  \<^verbatim>\<open>fill\<close>: stamps each node with its index and stores it in the slot of that index. A slot holds a
  pointer, so it shows the node with its descendants stamped too.
\<close>

fun trie_fill :: "trie_node \<Rightarrow> u32 \<Rightarrow> trie_node option list \<Rightarrow> (trie_node \<times> trie_node option list) option"
  and trie_fills :: "(bytes \<times> trie_node) list \<Rightarrow> u32 \<Rightarrow> trie_node option list \<Rightarrow>
    ((bytes \<times> trie_node) list \<times> trie_node option list) option" where
  "trie_fill (TrieNode ch x i z) base slots =
     do { (ch, slots) \<leftarrow> trie_fills ch (base + 1) slots;
          if unat base < length slots
          then Some (TrieNode ch x base z, slots[unat base := Some (TrieNode ch x base z)]) else None }"
| "trie_fills [] b slots = Some ([], slots)"
| "trie_fills ((l, c) # cs) b slots =
     do { (c', slots) \<leftarrow> trie_fill c b slots;
          (cs, slots) \<leftarrow> trie_fills cs (b + tn_size c) slots;
          Some ((l, c') # cs, slots) }"

definition number_nodes :: "trie_node \<Rightarrow> trie_node list option" where
  "number_nodes root =
     (let root = trie_count root in
      do { (root, slots) \<leftarrow> trie_fill root 0 (replicate (unat (tn_size root)) None);
           those slots })"

subsection \<open>Placement\<close>

record placement =
  pl_offs :: "u32 list"
  pl_sizes :: "u32 list"
  pl_order :: "u32 list"
  pl_total :: u32

definition node_fixed :: "trie_node \<Rightarrow> nat" where
  "node_fixed node =
     (let terminal_size = (case tn_export node of None \<Rightarrow> 0 | Some x \<Rightarrow> terminal_size x)
      in uleb_size (of_nat terminal_size) + terminal_size + 1 + sum_list (map (\<lambda>(l, c). length l + 1) (tn_children node)))"

definition node_kids :: "trie_node \<Rightarrow> u32 list" where
  "node_kids node = map (\<lambda>(l, c). tn_index c) (tn_children node)"

text \<open>One node popped off the stack: its offset, its size with the offsets of its children, its place.\<close>

definition place_node :: "nat list \<Rightarrow> u32 list list \<Rightarrow> nat \<Rightarrow> placement \<Rightarrow> placement option" where
  "place_node fixed kids node pl =
     do { ks \<leftarrow> nth_opt kids node;
          offs \<leftarrow> those (map (\<lambda>c. nth_opt (pl_offs pl) (unat c)) ks);
          f \<leftarrow> nth_opt fixed node;
          let edges = sum_list (map (\<lambda>off. uleb_size (ucast off)) offs);
              sz = of_nat (f + edges) :: u32
          in if node < length (pl_offs pl) \<and> node < length (pl_sizes pl)
             then Some (pl\<lparr>pl_offs := (pl_offs pl)[node := pl_total pl], pl_sizes := (pl_sizes pl)[node := sz],
                           pl_order := pl_order pl @ [of_nat node], pl_total := pl_total pl + sz\<rparr>)
             else None }"

partial_function (option) place_loop ::
    "nat list \<Rightarrow> u32 list list \<Rightarrow> (nat \<times> nat) list \<Rightarrow> placement \<Rightarrow> placement option" where
  "place_loop fixed kids stack pl =
     (case stack of
        [] \<Rightarrow> Some pl
      | (node, nxt) # rest \<Rightarrow>
          do { ks \<leftarrow> nth_opt kids node;
               case nth_opt ks nxt of
                 Some child \<Rightarrow> place_loop fixed kids ((unat child, 0) # (node, nxt + 1) # rest) pl
               | None \<Rightarrow> do { pl \<leftarrow> place_node fixed kids node pl; place_loop fixed kids rest pl } })"

fun place_tops :: "nat list \<Rightarrow> u32 list list \<Rightarrow> u32 list \<Rightarrow> placement \<Rightarrow> placement option" where
  "place_tops fixed kids [] pl = Some pl"
| "place_tops fixed kids (t # tops) pl =
     do { pl \<leftarrow> place_loop fixed kids [(unat t, 0)] pl; place_tops fixed kids tops pl }"

definition place_nodes :: "trie_node list \<Rightarrow> placement option" where
  "place_nodes nodes =
     (let fixed = map node_fixed nodes; kids = map node_kids nodes; zeros = replicate (length nodes) 0 in
      do { f \<leftarrow> nth_opt fixed 0; ks \<leftarrow> nth_opt kids 0;
           let sz = of_nat (f + 5 * length ks) :: u32
           in place_tops fixed kids ks \<lparr>pl_offs = zeros, pl_sizes = zeros[0 := sz], pl_order = [0], pl_total = sz\<rparr> })"

subsection \<open>Writing\<close>

definition put_uleb :: "bytes \<times> nat \<Rightarrow> u64 \<Rightarrow> (bytes \<times> nat) option" where
  "put_uleb dp v =
     (case dp of (dst, p) \<Rightarrow>
        if p \<le> length dst then map_option (\<lambda>(bs, n). (take p dst @ bs, p + n)) (write_uleb (drop p dst) v) else None)"

definition put_bytes :: "bytes \<times> nat \<Rightarrow> bytes \<Rightarrow> (bytes \<times> nat) option" where
  "put_bytes dp bs = (case dp of (dst, p) \<Rightarrow> map_option (\<lambda>dst. (dst, p + length bs)) (copy_at dst p bs))"

fun write_edges :: "u32 list \<Rightarrow> (bytes \<times> trie_node) list \<Rightarrow> bytes \<times> nat \<Rightarrow> (bytes \<times> nat) option" where
  "write_edges offs [] dp = Some dp"
| "write_edges offs ((label, child) # es) dp =
     do { dp \<leftarrow> put_bytes dp label;
          dp \<leftarrow> put_bytes dp [0];
          off \<leftarrow> nth_opt offs (unat (tn_index child));
          dp \<leftarrow> put_uleb dp (ucast off);
          write_edges offs es dp }"

definition write_node :: "trie_node \<Rightarrow> u32 list \<Rightarrow> bytes \<Rightarrow> bytes option" where
  "write_node node offs dst =
     do { dp \<leftarrow> (case tn_export node of
                   Some (Addr flags addr) \<Rightarrow>
                     do { dp \<leftarrow> put_uleb (dst, 0) (of_nat (terminal_size (Addr flags addr)));
                          dp \<leftarrow> put_uleb dp (ucast flags);
                          put_uleb dp addr }
                 | Some (Reexport ordinal name) \<Rightarrow>
                     do { dp \<leftarrow> put_uleb (dst, 0) (of_nat (terminal_size (Reexport ordinal name)));
                          dp \<leftarrow> put_uleb dp (ucast EXPORT_SYMBOL_FLAGS_REEXPORT);
                          dp \<leftarrow> put_uleb dp (ucast ordinal);
                          dp \<leftarrow> put_bytes dp name;
                          put_bytes dp [0] }
                 | None \<Rightarrow> put_bytes (dst, 0) [0]);
          dp \<leftarrow> put_bytes dp [of_nat (length (tn_children node))];
          dp \<leftarrow> write_edges offs (tn_children node) dp;
          Some (fst dp) }"

text \<open>The nodes' slices are cut off the buffer one after another in file order.\<close>

fun write_nodes_loop :: "trie_node list \<Rightarrow> placement \<Rightarrow> bytes \<Rightarrow> u32 list \<Rightarrow> bytes option" where
  "write_nodes_loop nodes pl rest [] = Some rest"
| "write_nodes_loop nodes pl rest (i # order) =
     do { sz \<leftarrow> nth_opt (pl_sizes pl) (unat i);
          node \<leftarrow> nth_opt nodes (unat i);
          dst \<leftarrow> slice_at rest 0 (unat sz);
          dst \<leftarrow> write_node node (pl_offs pl) dst;
          map_option ((@) dst) (write_nodes_loop nodes pl (drop (unat sz) rest) order) }"

definition write_nodes :: "trie_node list \<Rightarrow> placement \<Rightarrow> bytes option" where
  "write_nodes nodes pl = write_nodes_loop nodes pl (replicate (unat (pl_total pl)) 0) (pl_order pl)"

definition encode_export_trie :: "export_ctx \<Rightarrow> nat list \<Rightarrow> bytes option" where
  "encode_export_trie ctx sorted_globals =
     (if xc_without_dyld ctx then Some []
      else let xs = exports ctx sorted_globals in
        if xs = [] then Some (replicate 8 0)
        else
          do { root \<leftarrow> build_trie xs 0;
               nodes \<leftarrow> number_nodes root;
               pl \<leftarrow> place_nodes nodes;
               buf \<leftarrow> write_nodes nodes pl;
               Some (pad_to buf 8) })"

subsection \<open>dyld's walk\<close>

text \<open>
  How a reader looks a name up in the encoded trie: at each node the terminal, if the name ends there,
  or else the first edge whose label the name goes on with. The fuel is the number of nodes it may
  visit; a label being nonempty, one more than the length of the name is enough.
\<close>

definition parse_terminal :: "bytes \<Rightarrow> export option" where
  "parse_terminal bs =
     do { (flags, bs) \<leftarrow> read_uleb bs;
          if ucast flags AND EXPORT_SYMBOL_FLAGS_REEXPORT \<noteq> 0
          then do { (ordinal, bs) \<leftarrow> read_uleb bs;
                    (name, bs) \<leftarrow> read_cstr bs;
                    Some (Reexport (ucast ordinal) name) }
          else do { (addr, bs) \<leftarrow> read_uleb bs; Some (Addr (ucast flags) addr) } }"

fun find_edge :: "nat \<Rightarrow> bytes \<Rightarrow> bytes \<Rightarrow> (u64 \<times> bytes) option" where
  "find_edge 0 bs s = None"
| "find_edge (Suc n) bs s =
     do { (label, bs) \<leftarrow> read_cstr bs;
          (off, bs) \<leftarrow> read_uleb bs;
          if take (length label) s = label then (if off = 0 then None else Some (off, drop (length label) s))
          else find_edge n bs s }"

fun trie_walk :: "nat \<Rightarrow> bytes \<Rightarrow> nat \<Rightarrow> bytes \<Rightarrow> export option" where
  "trie_walk 0 trie off s = None"
| "trie_walk (Suc fuel) trie off s =
     do { (sz, bs) \<leftarrow> read_uleb (drop off trie);
          if s = [] \<and> sz \<noteq> 0 then parse_terminal (take (unat sz) bs)
          else do { n \<leftarrow> nth_opt bs (unat sz);
                    (off, s) \<leftarrow> find_edge (unat n) (drop (unat sz + 1) bs) s;
                    trie_walk fuel trie (unat off) s } }"

subsection \<open>Looking a name up in the tree\<close>

fun trie_lookup :: "trie_node \<Rightarrow> bytes \<Rightarrow> export option"
  and edge_lookup :: "(bytes \<times> trie_node) list \<Rightarrow> bytes \<Rightarrow> export option" where
  "trie_lookup (TrieNode ch x i z) s = (if s = [] then x else edge_lookup ch s)"
| "edge_lookup [] s = None"
| "edge_lookup ((l, c) # es) s =
     (if take (length l) s = l then trie_lookup c (drop (length l) s) else edge_lookup es s)"

fun trie_nodes :: "trie_node \<Rightarrow> trie_node list" and edge_nodes :: "(bytes \<times> trie_node) list \<Rightarrow> trie_node list" where
  "trie_nodes (TrieNode ch x i z) = TrieNode ch x i z # edge_nodes ch"
| "edge_nodes [] = []"
| "edge_nodes ((l, c) # es) = trie_nodes c @ edge_nodes es"

definition labels_ok :: "(bytes \<times> trie_node) list \<Rightarrow> bool" where
  "labels_ok ch \<longleftrightarrow> (\<forall>(l, c) \<in> set ch. l \<noteq> [] \<and> 0 \<notin> set l) \<and> sorted_wrt (\<lambda>a b. hd (fst a) < hd (fst b)) ch"

text \<open>The most bytes a node may take.\<close>

definition node_cap :: "trie_node \<Rightarrow> nat" where
  "node_cap n = node_fixed n + 5 * length (tn_children n)"

definition node_exports :: "trie_node list \<Rightarrow> export set" where
  "node_exports ns = {x. \<exists>n \<in> set ns. tn_export n = Some x}"

definition trie_bound :: "nat \<Rightarrow> (bytes \<times> export) list \<Rightarrow> nat" where
  "trie_bound d names = sum_list (map (\<lambda>(n, x). 9 * (length n - d) + terminal_size x + 10) names)"

lemma trie_nodes_ne [simp]: "trie_nodes t \<noteq> []"
  by (cases t) simp

lemma trie_nodes_self [simp]: "t \<in> set (trie_nodes t)"
  by (cases t) simp

lemma edge_nodes_set: "set (edge_nodes ch) = (\<Union>(l, c) \<in> set ch. set (trie_nodes c))"
  by (induction ch) auto

lemma edge_lookup_miss: "\<forall>(l, c) \<in> set ch. l \<noteq> [] \<and> hd l \<noteq> hd s \<Longrightarrow> edge_lookup ch s = None"
proof (induction ch)
  case (Cons y ch)
  obtain l c where y: "y = (l, c)" by (cases y)
  have "take (length l) s \<noteq> l" using Cons.prems y by (cases l; cases s) auto
  then show ?case using Cons y by simp
qed simp

lemma edge_lookup_groups:
  assumes "list_all2 (\<lambda>g (l, c). l \<noteq> [] \<and> (\<forall>(n, x) \<in> set g. take (length (p @ l)) n = p @ l) \<and>
      (\<forall>s. trie_lookup c s = map_of g (p @ l @ s))) gs ch"
    and "sorted_wrt (\<lambda>a b. hd (fst a) < hd (fst b)) ch" and "\<forall>(l, c) \<in> set ch. l \<noteq> []"
  shows "s \<noteq> [] \<Longrightarrow> edge_lookup ch s = map_of (concat gs) (p @ s)"
  using assms
proof (induction rule: list_all2_induct)
  case (Cons g gs y ch)
  obtain l c where y: "y = (l, c)" by (cases y)
  have IH: "edge_lookup ch s = map_of (concat gs) (p @ s)" using Cons by auto
  show ?case
  proof (cases "take (length l) s = l")
    case True
    have "edge_lookup ch s = None"
      using True Cons.prems y by (intro edge_lookup_miss) (cases l; cases s; fastforce)
    then have "map_of (concat gs) (p @ s) = None" using IH by simp
    moreover obtain s' where s: "s = l @ s'" using True by (metis append_take_drop_id)
    have "trie_lookup c s' = map_of g (p @ s)" using Cons.hyps(1) y s by simp
    ultimately show ?thesis using y s by (simp add: map_add_def split: option.splits)
  next
    case False
    have "(p @ s, x) \<notin> set g" for x
    proof
      assume "(p @ s, x) \<in> set g"
      then have "take (length (p @ l)) (p @ s) = p @ l" using Cons.hyps y by blast
      then show False using False by simp
    qed
    then have "map_of g (p @ s) = None" by (auto simp: map_of_eq_None_iff)
    then show ?thesis using False y IH by (simp add: map_add_def)
  qed
qed simp

subsection \<open>The tree built looks up as the list of names\<close>

lemma lex_between:
  fixes a :: bytes
  assumes "a \<le> b" "b \<le> c" "take k a = take k c" "k \<le> length a" "k \<le> length c"
  shows "take k b = take k a"
  using assms
proof (induction k arbitrary: a b c)
  case (Suc k)
  then obtain x a' c' where "a = x # a'" "c = x # c'" by (cases a; cases c) auto
  then show ?case using Suc by (cases b) (auto simp: less_le_not_le)
qed simp

lemma common_prefix:
  "take (length (takeWhile (\<lambda>(a, b). a = b) (zip xs ys))) xs = take (length (takeWhile (\<lambda>(a, b). a = b) (zip xs ys))) ys"
  by (induction xs ys rule: list_induct2') auto

lemma common_length: "length (takeWhile (\<lambda>(a, b). a = b) (zip xs ys)) \<le> min (length xs) (length ys)"
  by (metis length_takeWhile_le length_zip)

lemma group_common:
  assumes sorted: "sorted_wrt (\<lambda>a b. fst a < fst b) g" and g: "g \<noteq> []" and pre: "\<forall>(n, x) \<in> set g. take d n = p \<and> d < length n"
    and k: "k = common_depth g d" and m: "(n, x) \<in> set g"
  shows "take k n = take k (fst (hd g)) \<and> k \<le> length n"
proof -
  let ?a = "fst (hd g)" and ?c = "fst (List.last g)"
  have a: "take d ?a = p" "d < length ?a" "take d ?c = p" "d < length ?c"
    using pre hd_in_set [OF g] last_in_set [OF g] by (auto simp: case_prod_beta)
  let ?l = "length (takeWhile (\<lambda>(a, b). a = b) (zip (drop d ?a) (drop d ?c)))"
  have kd: "k = d + ?l" by (simp add: k common_depth_def)
  have l: "?l \<le> length ?a - d" "?l \<le> length ?c - d"
    using common_length [of "drop d ?a" "drop d ?c"] by simp_all
  have ac: "take k ?a = take k ?c"
    using common_prefix [of "drop d ?a" "drop d ?c"] a by (simp add: kd take_add)
  have "?a \<le> n" "n \<le> ?c"
  proof -
    obtain i where i: "i < length g" "g ! i = (n, x)" using m by (auto simp: in_set_conv_nth)
    have "?a \<le> fst (g ! i)"
      using sorted_wrt_nth_less [OF sorted, of 0 i] i g by (cases i) (auto simp: hd_conv_nth)
    moreover have "i = length g - 1 \<or> i < length g - 1" using i(1) by linarith
    then have "fst (g ! i) \<le> ?c"
      using sorted_wrt_nth_less [OF sorted, of i "length g - 1"] g by (auto simp: last_conv_nth intro: less_imp_le)
    ultimately show "?a \<le> n" "n \<le> ?c" using i by simp_all
  qed
  then have t: "take k n = take k ?a" by (rule lex_between) (use ac l kd a in auto)
  have "k \<le> length (take k ?a)" using l kd a by simp
  then have "k \<le> length n" unfolding t [symmetric] by simp
  then show ?thesis using t by simp
qed

lemma byte_mono:
  fixes a :: bytes
  assumes "take d a = take d b" "d < length a" "d < length b" "a < b"
  shows "a ! d \<le> b ! d"
proof -
  have "p @ x # a' < p @ y # b' \<Longrightarrow> x \<le> y" for p a' b' :: bytes and x y by (induction p) auto
  from this [of "take d a" "a ! d" "drop (Suc d) a" "b ! d" "drop (Suc d) b"] show ?thesis
    using assms by (metis id_take_nth_drop)
qed

lemma group_count_total: "\<forall>(n, x) \<in> set names. d < length n \<Longrightarrow> \<exists>k. group_count d b names = Some k"
  by (induction d b names rule: group_count.induct) (auto simp: case_prod_beta)

lemma group_count_stop: "group_count d b names = Some k \<Longrightarrow> k < length names \<Longrightarrow> fst (names ! k) ! d \<noteq> b"
  by (induction d b names arbitrary: k rule: group_count.induct) (auto split: if_splits)

lemma trie_groups_ok:
  assumes "sorted_wrt (\<lambda>a b. fst a < fst b) names" and "\<forall>(n, x) \<in> set names. take d n = p \<and> d < length n"
  shows "\<exists>gs. trie_groups d names = Some gs \<and> sorted_wrt (\<lambda>g h. fst (hd g) ! d < fst (hd h) ! d) gs"
  using assms
proof (induction d names rule: trie_groups.induct)
  case (2 d first x rest)
  have d: "d < length first" using "2.prems" by simp
  obtain k where k: "group_count d (first ! d) rest = Some k"
    using group_count_total [of rest d] "2.prems" by (fastforce simp: case_prod_beta)
  have rest: "sorted_wrt (\<lambda>a b. fst a < fst b) (drop k rest)" "\<forall>(n, x) \<in> set (drop k rest). take d n = p \<and> d < length n"
    using "2.prems" set_drop_subset [of k rest] by (auto intro: sorted_wrt_drop)
  obtain gs where gs: "trie_groups d (drop k rest) = Some gs" "sorted_wrt (\<lambda>g h. fst (hd g) ! d < fst (hd h) ! d) gs"
    using "2.IH" [OF d k rest] by blast
  have later: "first ! d < fst y ! d" if y: "y \<in> set (drop k rest)" for y
  proof -
    have k': "k < length rest" using y by (cases "k < length rest") auto
    have z: "rest ! k \<in> set rest" using k' by simp
    have "first ! d \<le> fst (rest ! k) ! d" "first ! d \<noteq> fst (rest ! k) ! d"
      using byte_mono [of d first "fst (rest ! k)"] "2.prems" z group_count_stop [OF k k'] by (auto simp: case_prod_beta)
    moreover have "fst (rest ! k) ! d \<le> fst y ! d"
    proof (cases "y = rest ! k")
      case False
      then have "fst (rest ! k) < fst y"
        using y rest(1) k' by (auto simp flip: Cons_nth_drop_Suc)
      then show ?thesis using byte_mono [of d "fst (rest ! k)" "fst y"] rest(2) "2.prems"(2) z y by (auto simp: case_prod_beta)
    qed simp
    ultimately show ?thesis by simp
  qed
  have "first ! d < fst (hd g) ! d" if "g \<in> set gs" for g
  proof -
    have "hd g \<in> set (concat gs)" using that trie_groups_mem [OF gs(1) that] hd_in_set by fastforce
    then show ?thesis using later trie_groups_concat [OF gs(1)] by simp
  qed
  then show ?case using d k gs by simp
qed simp

definition built :: "bytes \<Rightarrow> (bytes \<times> export) list \<Rightarrow> trie_node \<Rightarrow> bool" where
  "built p names t \<longleftrightarrow> (\<forall>s. trie_lookup t s = map_of names (p @ s)) \<and> (\<forall>n \<in> set (trie_nodes t). labels_ok (tn_children n)) \<and>
     node_exports (trie_nodes t) \<subseteq> snd ` set names \<and> sum_list (map node_cap (trie_nodes t)) \<le> 2 + trie_bound (length p) names"

definition group_label :: "nat \<Rightarrow> (bytes \<times> export) list \<Rightarrow> bytes" where
  "group_label d g = take (common_depth g d - d) (drop d (fst (hd g)))"

lemma trie_bound_group:
  assumes "g \<noteq> []" and "\<forall>(n, x) \<in> set g. d + k \<le> length n" and "0 < k"
  shows "k + 8 + trie_bound (d + k) g \<le> trie_bound d g"
  using assms
proof (induction g rule: list_nonempty_induct)
  case (single y)
  then show ?case by (auto simp: trie_bound_def)
next
  case (cons y g)
  then show ?case by (auto simp: trie_bound_def)
qed

lemma unat_drop_7: "unat (drop_bit 7 (v :: u64)) = unat v div 128"
  by (subst unat_drop_bit_eq) (simp add: drop_bit_eq_div)

lemma length_encode_uleb: "unat v < 2 ^ (7 * Suc k) \<Longrightarrow> length (encode_uleb v) \<le> Suc k"
proof (induction k arbitrary: v)
  case 0
  then have "drop_bit 7 v = 0" by (simp add: word_unat_eq_iff unat_drop_7)
  then show ?case by (simp add: encode_uleb.simps [of v])
next
  case (Suc k)
  have "unat (drop_bit 7 v) < 2 ^ (7 * Suc k)"
    using Suc.prems by (simp add: unat_drop_7 less_mult_imp_div_less power_add mult.commute)
  then show ?case using Suc.IH [of "drop_bit 7 v"] by (auto simp: encode_uleb.simps [of v] Let_def)
qed

lemma uleb_size_le: "uleb_size v \<le> 10"
  using length_encode_uleb [of v 9] unsigned_less [of v, where ?'a = nat] by (simp add: uleb_size_eq)

lemma unat_ucast_u32: "unat (ucast (v :: u32) :: u64) = unat v"
  using unsigned_less [of v, where ?'a = nat] by (simp add: unsigned_ucast_eq take_bit_nat_eq_self)

lemma uleb_size_u32: "uleb_size (ucast (v :: u32)) \<le> 5"
  using length_encode_uleb [of "ucast v" 4] unsigned_less [of v, where ?'a = nat] by (simp add: uleb_size_eq unat_ucast_u32)

lemma bytes_take_le: "take d (m :: bytes) \<le> m"
proof (induction m arbitrary: d)
  case (Cons b m)
  then show ?case by (cases d) auto
qed simp

lemma after_export_ok:
  assumes sorted: "sorted_wrt (\<lambda>a b. fst a < fst b) names" and pre: "\<forall>(n, x) \<in> set names. take d n = p \<and> d \<le> length n"
    and ar: "after_export names d = (x, rest)"
  shows "\<forall>(n, x) \<in> set rest. d < length n" and "names = (case x of None \<Rightarrow> rest | Some e \<Rightarrow> (p, e) # rest)"
proof -
  have "(\<forall>(n, x) \<in> set rest. d < length n) \<and> names = (case x of None \<Rightarrow> rest | Some e \<Rightarrow> (p, e) # rest)"
  proof (cases names)
    case Nil
    then show ?thesis using ar by (auto simp: after_export_def)
  next
    case (Cons y r)
    obtain m e where y: "y = (m, e)" by (cases y)
    have m: "take d m = p" "d \<le> length m" "p \<le> m" using pre Cons y bytes_take_le [of d m] by auto
    have "d < length n" if "(n, x') \<in> set r" for n x'
    proof (rule ccontr)
      assume "\<not> d < length n"
      then have "n = p" using pre Cons that by fastforce
      moreover have "m < n" using sorted Cons y that by auto
      ultimately show False using m(3) by simp
    qed
    moreover have "d < length m" if "length m \<noteq> d" using that m by simp
    ultimately show ?thesis using ar Cons y m by (auto simp: after_export_def split: if_splits)
  qed
  then show "\<forall>(n, x) \<in> set rest. d < length n" and "names = (case x of None \<Rightarrow> rest | Some e \<Rightarrow> (p, e) # rest)" by auto
qed

lemma sorted_wrt_part: "sorted_wrt P (concat gs) \<Longrightarrow> g \<in> set gs \<Longrightarrow> sorted_wrt P g"
  by (induction gs) (auto simp: sorted_wrt_append)

lemma group_label_ok:
  assumes gs: "trie_groups d rest = Some gs" "g \<in> set gs" and sorted: "sorted_wrt (\<lambda>a b. fst a < fst b) g"
    and pre: "\<forall>(n, x) \<in> set g. take d n = p \<and> d < length n \<and> 0 \<notin> set n"
  shows "\<forall>(n, x) \<in> set g. take (common_depth g d) n = p @ group_label d g \<and> common_depth g d \<le> length n"
    and "common_depth g d = d + length (group_label d g)" and "group_label d g \<noteq> []" and "0 \<notin> set (group_label d g)"
    and "hd (group_label d g) = fst (hd g) ! d"
proof -
  let ?k = "common_depth g d" and ?f = "fst (hd g)"
  have g: "g \<noteq> []" using trie_groups_mem [OF gs] by simp
  have k: "d < ?k" using common_depth_greater [OF gs] .
  have f: "(?f, snd (hd g)) \<in> set g" using hd_in_set [OF g] by simp
  have c: "take ?k n = take ?k ?f \<and> ?k \<le> length n" if "(n, x) \<in> set g" for n x
    by (rule group_common [OF sorted g _ refl that]) (use pre in auto)
  have kf: "?k \<le> length ?f" "take d ?f = p" "0 \<notin> set ?f" using c [OF f] pre f by auto
  have "take ?k ?f = p @ group_label d g"
    using take_add [of d "?k - d" ?f] k kf by (simp add: group_label_def)
  then show "\<forall>(n, x) \<in> set g. take ?k n = p @ group_label d g \<and> ?k \<le> length n" using c by fastforce
  show "?k = d + length (group_label d g)" using k kf by (simp add: group_label_def)
  show "group_label d g \<noteq> []" using k kf by (simp add: group_label_def)
  show "0 \<notin> set (group_label d g)"
    using kf(3) by (auto simp: group_label_def dest!: in_set_takeD in_set_dropD)
  show "hd (group_label d g) = ?f ! d" using k kf by (simp add: group_label_def hd_take hd_drop_conv_nth)
qed

lemma node_exports_Cons:
  "node_exports (TrieNode ch x i z # ns) = set_option x \<union> node_exports ns"
  by (auto simp: node_exports_def)

lemma node_exports_edges: "node_exports (edge_nodes ch) = (\<Union>(l, c) \<in> set ch. node_exports (trie_nodes c))"
  by (fastforce simp: node_exports_def edge_nodes_set)

lemma cap_edges: "sum_list (map node_cap (edge_nodes ch)) = sum_list (map (\<lambda>(l, c). sum_list (map node_cap (trie_nodes c))) ch)"
  by (induction ch) auto

lemma node_cap_le:
  "node_cap (TrieNode ch x i z) \<le>
     2 + (case x of None \<Rightarrow> 0 | Some e \<Rightarrow> terminal_size e + 10) + sum_list (map (\<lambda>(l, c). length l + 6) ch)"
proof -
  have e: "sum_list (map (\<lambda>(l, c). length l + 1) ch) + 5 * length ch = sum_list (map (\<lambda>(l, c). length l + 6) ch)"
    by (induction ch) auto
  have "uleb_size 0 = 1" by code_simp
  then show ?thesis
    using e by (auto simp: node_cap_def node_fixed_def Let_def split: option.splits intro: le_trans [OF uleb_size_le])
qed

lemma build_trie_ok:
  assumes "sorted_wrt (\<lambda>a b. fst a < fst b) names" and "\<forall>(n, x) \<in> set names. take d n = p \<and> d \<le> length n \<and> 0 \<notin> set n"
    and "length p = d"
  shows "\<exists>t. build_trie names d = Some t \<and> built p names t"
  using assms
proof (induction names d arbitrary: p rule: build_trie.induct)
  case (1 names d)
  obtain x rest where ar: "after_export names d = (x, rest)" by (cases "after_export names d")
  have pre: "\<forall>(n, x) \<in> set names. take d n = p \<and> d \<le> length n" using "1.prems"(2) by auto
  have names: "names = (case x of None \<Rightarrow> rest | Some e \<Rightarrow> (p, e) # rest)" and long: "\<forall>(n, x) \<in> set rest. d < length n"
    using after_export_ok [OF "1.prems"(1) pre ar] by simp_all
  have rest: "sorted_wrt (\<lambda>a b. fst a < fst b) rest" "\<forall>(n, x) \<in> set rest. take d n = p \<and> d < length n \<and> 0 \<notin> set n"
    using names long "1.prems" by (auto split: option.splits)
  obtain gs where gs: "trie_groups d rest = Some gs" "sorted_wrt (\<lambda>g h. fst (hd g) ! d < fst (hd h) ! d) gs"
    using trie_groups_ok [of rest d p] rest by (auto simp: case_prod_beta)
  have cat: "concat gs = rest" using trie_groups_concat [OF gs(1)] .
  have grp: "g \<noteq> []" "sorted_wrt (\<lambda>a b. fst a < fst b) g" "\<forall>(n, x) \<in> set g. take d n = p \<and> d < length n \<and> 0 \<notin> set n"
    if g: "g \<in> set gs" for g
  proof -
    have sub: "set g \<subseteq> set rest" using g cat by auto
    show "g \<noteq> []" using trie_groups_mem [OF gs(1) g] by simp
    show "sorted_wrt (\<lambda>a b. fst a < fst b) g" using sorted_wrt_part [OF _ g] rest(1) by (simp add: cat)
    show "\<forall>(n, x) \<in> set g. take d n = p \<and> d < length n \<and> 0 \<notin> set n" using rest(2) sub by blast
  qed
  let ?k = "\<lambda>g. common_depth g d" and ?l = "group_label d"
  note lab = group_label_ok [OF gs(1) _ grp(2,3)]
  have "\<exists>t. build_trie g (?k g) = Some t \<and> built (p @ ?l g) g t" if g: "g \<in> set gs" for g
  proof (rule "1.IH")
    show "trie_groups d (snd (after_export names d)) = Some gs" using ar gs by simp
    show "\<forall>(n, x) \<in> set g. take (?k g) n = p @ ?l g \<and> ?k g \<le> length n \<and> 0 \<notin> set n"
      using lab(1) [OF g g g] grp(3) [OF g] by auto
    show "length (p @ ?l g) = ?k g" using lab(2) [OF g g g] "1.prems"(3) by simp
  qed (use g grp in auto)
  then obtain T where T: "\<And>g. g \<in> set gs \<Longrightarrow> build_trie g (?k g) = Some (T g) \<and> built (p @ ?l g) g (T g)"
    by metis
  let ?ch = "map (\<lambda>g. (?l g, T g)) gs"
  have "build_trie names d = Some (TrieNode ?ch x 0 0)"
    using T by (simp add: build_trie.simps [of names d] ar gs group_label_def those_map_total [where g = "\<lambda>g. (?l g, T g)"])
  moreover have "built p names (TrieNode ?ch x 0 0)"
    unfolding built_def
  proof (intro conjI allI)
    have hds: "sorted_wrt (\<lambda>a b. hd (fst a) < hd (fst b)) ?ch"
      using lab(5) by (auto simp: sorted_wrt_map intro: sorted_wrt_mono_rel [OF _ gs(2)])
    have "edge_lookup ?ch s = map_of rest (p @ s)" if "s \<noteq> []" for s
      unfolding cat [symmetric]
      by (rule edge_lookup_groups [OF _ hds _ that])
        (use T lab(1,2,3) grp "1.prems"(3) in \<open>auto simp: list_all2_map2 list_all2_same built_def case_prod_beta\<close>)
    moreover have "map_of rest p = None" using long "1.prems"(3) by (auto simp: map_of_eq_None_iff)
    ultimately show "trie_lookup (TrieNode ?ch x 0 0) s = map_of names (p @ s)" for s
      using names by (auto split: option.splits)
    have "labels_ok ?ch" using hds lab(3,4) grp by (auto simp: labels_ok_def)
    then show "\<forall>n \<in> set (trie_nodes (TrieNode ?ch x 0 0)). labels_ok (tn_children n)"
      using T by (auto simp: edge_nodes_set built_def)
    have "node_exports (trie_nodes (T g)) \<subseteq> snd ` set rest" if "g \<in> set gs" for g
      using T [OF that] that by (fastforce simp: built_def simp flip: cat)
    then show "node_exports (trie_nodes (TrieNode ?ch x 0 0)) \<subseteq> snd ` set names"
      using names by (fastforce simp: node_exports_Cons node_exports_edges split: option.splits)
    have "length (?l g) + 6 + sum_list (map node_cap (trie_nodes (T g))) \<le> trie_bound d g" if g: "g \<in> set gs" for g
    proof -
      have "length (?l g) + 8 + trie_bound (d + length (?l g)) g \<le> trie_bound d g"
        using lab(1,2,3) [OF g] grp [OF g] g by (intro trie_bound_group) auto
      then show ?thesis using T [OF g] "1.prems"(3) by (simp add: built_def)
    qed
    then have "sum_list (map (\<lambda>g. length (?l g) + 6 + sum_list (map node_cap (trie_nodes (T g)))) gs) \<le> sum_list (map (trie_bound d) gs)"
      by (intro sum_list_mono) auto
    moreover have "sum_list (map (trie_bound d) gs) = trie_bound d rest"
      unfolding cat [symmetric] by (induction gs) (auto simp: trie_bound_def)
    moreover have "trie_bound d names = (case x of None \<Rightarrow> 0 | Some e \<Rightarrow> terminal_size e + 10) + trie_bound d rest"
      using names "1.prems"(3) by (auto simp: trie_bound_def split: option.splits)
    ultimately show "sum_list (map node_cap (trie_nodes (TrieNode ?ch x 0 0))) \<le> 2 + trie_bound (length p) names"
      using node_cap_le [of ?ch x 0 0] "1.prems"(3) by (simp add: cap_edges sum_list_addf comp_def)
  qed
  ultimately show ?case by blast
qed

subsection \<open>Numbering keeps the tree\<close>

text \<open>The tree without its numbers.\<close>

fun strip :: "trie_node \<Rightarrow> trie_node" and strips :: "(bytes \<times> trie_node) list \<Rightarrow> (bytes \<times> trie_node) list" where
  "strip (TrieNode ch x i z) = TrieNode (strips ch) x 0 0"
| "strips [] = []"
| "strips ((l, c) # es) = (l, strip c) # strips es"

lemma strip_lookup: "trie_lookup (strip t) s = trie_lookup t s" "edge_lookup (strips es) s = edge_lookup es s"
  by (induction t s and es s rule: trie_lookup_edge_lookup.induct) auto

lemma strip_nodes: "trie_nodes (strip t) = map strip (trie_nodes t)" "edge_nodes (strips es) = map strip (edge_nodes es)"
  by (induction t and es rule: trie_nodes_edge_nodes.induct) auto

lemma strips_labels [simp]: "map fst (strips es) = map fst es"
  by (induction es) auto

lemma strip_fields [simp]: "tn_export (strip n) = tn_export n" "tn_children (strip n) = strips (tn_children n)"
  by (cases n; simp)+

lemma labels_ok_fst:
  "labels_ok ch \<longleftrightarrow> (\<forall>l \<in> set (map fst ch). l \<noteq> [] \<and> 0 \<notin> set l) \<and> sorted_wrt (\<lambda>a b. hd a < hd b) (map fst ch)"
  by (auto simp: labels_ok_def sorted_wrt_map)

lemma strip_node [simp]: "labels_ok (strips ch) = labels_ok ch" "node_cap (strip n) = node_cap n"
proof -
  have m: "length (strips ch) = length ch" for ch by (metis length_map strips_labels)
  have f: "map (\<lambda>(l, c). length l + 1) ch = map (\<lambda>l. length l + 1) (map fst ch)" for ch :: "(bytes \<times> trie_node) list" by auto
  show "labels_ok (strips ch) = labels_ok ch" by (simp only: labels_ok_fst strips_labels)
  show "node_cap (strip n) = node_cap n" by (simp only: node_cap_def node_fixed_def f strips_labels strip_fields m)
qed

lemma strip_built: "strip t = strip u \<Longrightarrow> built p names t \<Longrightarrow> built p names u"
proof -
  assume e: "strip t = strip u" and b: "built p names t"
  have n: "map strip (trie_nodes t) = map strip (trie_nodes u)" using e by (simp flip: strip_nodes)
  have m: "map f (trie_nodes t) = map f (trie_nodes u)" if "\<And>n. f (strip n) = f n" for f :: "trie_node \<Rightarrow> 'c"
  proof -
    have "map f ns = map f (map strip ns)" for ns using that by (simp add: comp_def)
    then show ?thesis using n by metis
  qed
  have "trie_lookup u s = trie_lookup t s" for s using e by (metis strip_lookup(1))
  moreover have "set (map (\<lambda>n. labels_ok (tn_children n)) (trie_nodes t)) = set (map (\<lambda>n. labels_ok (tn_children n)) (trie_nodes u))"
    by (subst m) auto
  then have "(\<forall>n \<in> set (trie_nodes u). labels_ok (tn_children n)) = (\<forall>n \<in> set (trie_nodes t). labels_ok (tn_children n))"
    by (auto simp: image_iff set_eq_iff)
  moreover have "node_exports ns = {x. Some x \<in> set (map tn_export ns)}" for ns by (auto simp: node_exports_def image_iff) metis
  then have "node_exports (trie_nodes t) = node_exports (trie_nodes u)" using m [of tn_export, OF strip_fields(1)] by (simp only:)
  moreover have "map node_cap (trie_nodes t) = map node_cap (trie_nodes u)" by (rule m) simp
  ultimately show ?thesis using b by (simp add: built_def)
qed

lemma labels_sorted: "labels_ok ch \<Longrightarrow> sort_key fst ch = ch"
proof (rule sort_key_id_if_sorted)
  assume ok: "labels_ok ch"
  have "sorted_wrt (\<lambda>a b. a \<le> b) (map fst ch)"
    unfolding sorted_wrt_map
  proof (rule sorted_wrt_mono_rel)
    show "sorted_wrt (\<lambda>a b. hd (fst a) < hd (fst b)) ch" using ok by (simp add: labels_ok_def)
    show "fst a \<le> fst b" if "a \<in> set ch" "b \<in> set ch" "hd (fst a) < hd (fst b)" for a b
      using that ok by (cases "fst a"; cases "fst b") (auto simp: labels_ok_def)
  qed
  then show "sorted (map fst ch)" by simp
qed

definition sized :: "trie_node \<Rightarrow> bool" where
  "sized t \<longleftrightarrow> (\<forall>n \<in> set (trie_nodes t). tn_size n = of_nat (length (trie_nodes n)))"

lemma strips_map: "\<forall>(l, c) \<in> set ch. strip (f c) = strip c \<Longrightarrow> strips (map (\<lambda>(l, c). (l, f c)) ch) = strips ch"
  by (induction ch) auto

lemma sizes_sum:
  "\<forall>(l, c) \<in> set ch. sized c \<Longrightarrow> sum_list (map (\<lambda>(l, c). tn_size c) ch) = of_nat (length (edge_nodes ch))"
proof (induction ch)
  case (Cons y ch)
  obtain l c where y: "y = (l, c)" by (cases y)
  have "tn_size c = of_nat (length (trie_nodes c))" using Cons.prems y by (cases c) (auto simp: sized_def)
  then show ?case using Cons y by simp
qed simp

lemma count_ok: "\<forall>n \<in> set (trie_nodes t). labels_ok (tn_children n) \<Longrightarrow> strip (trie_count t) = strip t \<and> sized (trie_count t)"
proof (induction t rule: trie_count.induct)
  case (1 ch x i z)
  let ?ch = "map (\<lambda>(l, c). (l, trie_count c)) ch"
  have s: "sort_key fst ch = ch" using 1(2) by (intro labels_sorted) simp
  have c: "strip (trie_count c) = strip c \<and> sized (trie_count c)" if "(l, c) \<in> set ch" for l c
    using that 1(2) by (intro "1.IH" [of "(l, c)" l c]) (auto simp: s edge_nodes_set)
  have "strips ?ch = strips ch" using c by (intro strips_map) auto
  moreover have "sum_list (map (\<lambda>(l, c). tn_size c) ?ch) = of_nat (length (edge_nodes ?ch))"
    using c by (intro sizes_sum) auto
  moreover have "\<forall>n \<in> set (edge_nodes ?ch). tn_size n = of_nat (length (trie_nodes n))"
    using c by (fastforce simp: edge_nodes_set sized_def)
  ultimately show ?case by (simp add: s sized_def Let_def)
qed

lemma nodes_length: "strip t = strip u \<Longrightarrow> length (trie_nodes t) = length (trie_nodes u)"
  "strips es = strips fs \<Longrightarrow> length (edge_nodes es) = length (edge_nodes fs)"
  by (metis length_map strip_nodes)+

lemma fill_ok:
  "sized t \<Longrightarrow> unat base + length (trie_nodes t) \<le> length slots \<Longrightarrow> length slots < 2 ^ 32 \<Longrightarrow>
     \<exists>t'. trie_fill t base slots =
       Some (t', take (unat base) slots @ map Some (trie_nodes t') @ drop (unat base + length (trie_nodes t)) slots) \<and>
       strip t' = strip t \<and> map tn_index (trie_nodes t') = map of_nat [unat base..<unat base + length (trie_nodes t)]"
  "(\<forall>(l, c) \<in> set es. sized c) \<Longrightarrow> unat b + length (edge_nodes es) \<le> length slots \<Longrightarrow> length slots < 2 ^ 32 \<Longrightarrow>
     \<exists>es'. trie_fills es b slots =
       Some (es', take (unat b) slots @ map Some (edge_nodes es') @ drop (unat b + length (edge_nodes es)) slots) \<and>
       strips es' = strips es \<and> map tn_index (edge_nodes es') = map of_nat [unat b..<unat b + length (edge_nodes es)]"
proof (induction t base slots and es b slots rule: trie_fill_trie_fills.induct)
  case (1 ch x i z base slots)
  have b: "unat (base + 1) = unat base + 1" "unat base < length slots" using "1.prems" by (simp_all add: unat_plus_small)
  have "\<forall>(l, c) \<in> set ch. sized c" using "1.prems"(1) by (fastforce simp: sized_def edge_nodes_set)
  then obtain ch' where f: "trie_fills ch (base + 1) slots = Some (ch', take (unat base + 1) slots @
        map Some (edge_nodes ch') @ drop (unat base + 1 + length (edge_nodes ch)) slots)" and e: "strips ch' = strips ch"
      "map tn_index (edge_nodes ch') = map of_nat [unat base + 1..<unat base + 1 + length (edge_nodes ch)]"
    using "1.IH" "1.prems" b by fastforce
  have "take (unat base + 1) slots = take (unat base) slots @ [slots ! unat base]"
    using b(2) by (simp add: take_Suc_conv_app_nth)
  moreover have "[unat base..<unat base + length (trie_nodes (TrieNode ch x i z))] =
      unat base # [unat base + 1..<unat base + 1 + length (edge_nodes ch)]"
    by (simp add: upt_conv_Cons del: upt_Suc)
  ultimately show ?case using f e b by (simp add: list_update_append del: upt_Suc)
next
  case (2 b slots)
  then show ?case by simp
next
  case (3 l c cs b slots)
  obtain c' where f: "trie_fill c b slots =
       Some (c', take (unat b) slots @ map Some (trie_nodes c') @ drop (unat b + length (trie_nodes c)) slots)"
    and e: "strip c' = strip c" "map tn_index (trie_nodes c') = map of_nat [unat b..<unat b + length (trie_nodes c)]"
    using "3.IH"(1) "3.prems" by fastforce
  let ?slots = "take (unat b) slots @ map Some (trie_nodes c') @ drop (unat b + length (trie_nodes c)) slots"
  have n: "length (trie_nodes c') = length (trie_nodes c)" using e by (intro nodes_length)
  have l: "length ?slots = length slots" using "3.prems" n by simp
  have "tn_size c = of_nat (length (trie_nodes c))" using "3.prems" by (cases c) (auto simp: sized_def)
  then have b: "unat (b + tn_size c) = unat b + length (trie_nodes c)"
    using "3.prems" by (subst unat_plus_small) (simp_all add: unat_of_nat take_bit_nat_eq_self)
  obtain cs' where g: "trie_fills cs (b + tn_size c) ?slots = Some (cs', take (unat b + length (trie_nodes c)) ?slots @
        map Some (edge_nodes cs') @ drop (unat b + length (trie_nodes c) + length (edge_nodes cs)) ?slots)"
    and h: "strips cs' = strips cs" "map tn_index (edge_nodes cs') =
        map of_nat [unat b + length (trie_nodes c)..<unat b + length (trie_nodes c) + length (edge_nodes cs)]"
    using "3.IH"(2) [OF f refl] "3.prems" b l by fastforce
  have t: "take (unat b + length (trie_nodes c)) ?slots = take (unat b) slots @ map Some (trie_nodes c')"
    using "3.prems" n by simp
  have d: "drop (unat b + (length (trie_nodes c) + k)) ?slots = drop (unat b + (length (trie_nodes c) + k)) slots" for k
    using "3.prems" n by (simp add: ac_simps)
  have r: "trie_fills ((l, c) # cs) b slots = Some ((l, c') # cs', take (unat b) slots @
      map Some (edge_nodes ((l, c') # cs')) @ drop (unat b + length (edge_nodes ((l, c) # cs))) slots)"
    by (simp only: trie_fills.simps f g t d Option.bind.simps prod.case edge_nodes.simps map_append append_assoc length_append add.assoc)
  have "map tn_index (edge_nodes ((l, c') # cs')) = map of_nat [unat b..<unat b + length (edge_nodes ((l, c) # cs))]"
    by (simp only: edge_nodes.simps map_append length_append e h flip: add.assoc) (simp only: upt_add_eq_append [of "unat b" "unat b + length (trie_nodes c)", OF le_add1] map_append)
  then show ?case using r e h by (intro exI [of _ "(l, c') # cs'"]) (simp only: strips.simps simp_thms)
qed

text \<open>The nodes in pre-order, each at the place its index names, and the tree otherwise as it was.\<close>

lemma number_nodes_ok:
  assumes "\<forall>n \<in> set (trie_nodes t). labels_ok (tn_children n)" and "length (trie_nodes t) < 2 ^ 32"
  shows "\<exists>u. number_nodes t = Some (trie_nodes u) \<and> strip u = strip t \<and>
    map tn_index (trie_nodes u) = map of_nat [0..<length (trie_nodes u)]"
proof -
  let ?t = "trie_count t"
  have c: "strip ?t = strip t" "sized ?t" using count_ok [OF assms(1)] by auto
  have n: "length (trie_nodes ?t) = length (trie_nodes t)" using c(1) by (rule nodes_length)
  have "tn_size ?t = of_nat (length (trie_nodes ?t))" using c(2) by (cases ?t) (auto simp: sized_def)
  then have sz: "unat (tn_size ?t) = length (trie_nodes ?t)"
    using assms(2) n by (simp add: unat_of_nat take_bit_nat_eq_self)
  let ?s = "replicate (length (trie_nodes ?t)) (None :: trie_node option)"
  obtain u where u: "trie_fill ?t 0 ?s = Some (u, map Some (trie_nodes u))" "strip u = strip ?t"
      "map tn_index (trie_nodes u) = map of_nat [0..<length (trie_nodes ?t)]"
    using fill_ok(1) [OF c(2), of 0 ?s] assms(2) n by auto
  have "length (trie_nodes u) = length (trie_nodes ?t)" using u(2) by (rule nodes_length)
  then show ?thesis using u c by (intro exI [of _ u]) (simp add: number_nodes_def Let_def sz)
qed

subsection \<open>The stack loop places the nodes in post-order\<close>

fun post :: "trie_node \<Rightarrow> trie_node list" and posts :: "(bytes \<times> trie_node) list \<Rightarrow> trie_node list" where
  "post (TrieNode ch x i z) = posts ch @ [TrieNode ch x i z]"
| "posts [] = []"
| "posts ((l, c) # es) = post c @ posts es"

text \<open>A node's bytes, the children being at the offsets \<open>offs\<close>.\<close>

fun export_bytes :: "export \<Rightarrow> bytes" where
  "export_bytes (Addr flags addr) = encode_uleb (ucast flags) @ encode_uleb addr"
| "export_bytes (Reexport ordinal name) =
     encode_uleb (ucast EXPORT_SYMBOL_FLAGS_REEXPORT) @ encode_uleb (ucast ordinal) @ name @ [0]"

definition terminal_bytes :: "export option \<Rightarrow> bytes" where
  "terminal_bytes x =
     (case x of None \<Rightarrow> [0] | Some e \<Rightarrow> encode_uleb (of_nat (terminal_size e)) @ export_bytes e)"

definition edge_bytes :: "u32 list \<Rightarrow> bytes \<times> trie_node \<Rightarrow> bytes" where
  "edge_bytes offs e = fst e @ [0] @ encode_uleb (ucast (offs ! unat (tn_index (snd e))))"

definition node_bytes :: "u32 list \<Rightarrow> trie_node \<Rightarrow> bytes" where
  "node_bytes offs n =
     terminal_bytes (tn_export n) @ [of_nat (length (tn_children n))] @ concat (map (edge_bytes offs) (tn_children n))"

definition edges_size :: "u32 list \<Rightarrow> trie_node \<Rightarrow> nat" where
  "edges_size offs n = sum_list (map (\<lambda>(l, c). uleb_size (ucast (offs ! unat (tn_index c)))) (tn_children n))"

definition place_own :: "trie_node \<Rightarrow> placement \<Rightarrow> placement" where
  "place_own n pl =
     (let sz = of_nat (node_fixed n + edges_size (pl_offs pl) n) :: u32
      in pl\<lparr>pl_offs := (pl_offs pl)[unat (tn_index n) := pl_total pl], pl_sizes := (pl_sizes pl)[unat (tn_index n) := sz],
            pl_order := pl_order pl @ [tn_index n], pl_total := pl_total pl + sz\<rparr>)"

lemma length_export_bytes [simp]: "length (export_bytes e) = terminal_size e"
  by (cases e) (simp_all add: uleb_size_eq)

lemma length_terminal_bytes:
  "length (terminal_bytes x) = (let ts = (case x of None \<Rightarrow> 0 | Some e \<Rightarrow> terminal_size e) in uleb_size (of_nat ts) + ts)"
proof -
  have "uleb_size 0 = 1" by code_simp
  then show ?thesis by (auto simp: terminal_bytes_def uleb_size_eq Let_def split: option.splits)
qed

lemma length_node_bytes: "length (node_bytes offs n) = node_fixed n + edges_size offs n"
proof -
  have "sum_list (map (\<lambda>e. length (edge_bytes offs e)) es) =
      sum_list (map (\<lambda>(l, c). length l + 1) es) + sum_list (map (\<lambda>(l, c). uleb_size (ucast (offs ! unat (tn_index c)))) es)" for es
    by (induction es) (auto simp: edge_bytes_def uleb_size_eq)
  then show ?thesis
    by (simp add: node_bytes_def node_fixed_def edges_size_def length_terminal_bytes length_concat comp_def Let_def)
qed

lemma edges_size_le: "edges_size offs n \<le> 5 * length (tn_children n)"
proof -
  have "sum_list (map (\<lambda>(l, c). uleb_size (ucast (offs ! unat (tn_index c)))) es) \<le> 5 * length es" for es
    by (induction es) (auto intro!: add_mono uleb_size_u32 simp: case_prod_beta)
  then show ?thesis by (simp add: edges_size_def)
qed

lemma node_bytes_cap: "length (node_bytes offs n) \<le> node_cap n"
  using edges_size_le [of offs n] by (simp add: length_node_bytes node_cap_def)

lemma place_own_lengths [simp]:
  "length (pl_offs (place_own n pl)) = length (pl_offs pl)" "length (pl_sizes (place_own n pl)) = length (pl_sizes pl)"
  by (simp_all add: place_own_def Let_def)

lemma fold_place_lengths [simp]:
  "length (pl_offs (fold place_own ns pl)) = length (pl_offs pl)" "length (pl_sizes (fold place_own ns pl)) = length (pl_sizes pl)"
  by (induction ns arbitrary: pl) auto

definition holds_tree :: "trie_node list \<Rightarrow> trie_node list \<Rightarrow> bool" where
  "holds_tree N ns \<longleftrightarrow> (\<forall>n \<in> set ns. unat (tn_index n) < length N \<and> N ! unat (tn_index n) = n)"

lemma place_node_own:
  assumes "unat (tn_index n) < length N" "N ! unat (tn_index n) = n" and "length (pl_offs pl) = length N" "length (pl_sizes pl) = length N"
    and "\<forall>(l, c) \<in> set (tn_children n). unat (tn_index c) < length N"
  shows "place_node (map node_fixed N) (map node_kids N) (unat (tn_index n)) pl = Some (place_own n pl)"
proof -
  have "those (map (\<lambda>c. nth_opt (pl_offs pl) (unat c)) (node_kids n)) = Some (map (\<lambda>c. pl_offs pl ! unat c) (node_kids n))"
    using assms by (intro those_map_total) (auto simp: node_kids_def nth_opt_def)
  moreover have "sum_list (map (\<lambda>off. uleb_size (ucast off)) (map (\<lambda>c. pl_offs pl ! unat c) (node_kids n))) = edges_size (pl_offs pl) n"
    by (simp add: node_kids_def edges_size_def comp_def case_prod_unfold)
  ultimately show ?thesis
    using assms by (simp add: place_node_def nth_opt_def place_own_def Let_def)
qed

lemma place_loop_step:
  "place_loop fixed kids ((node, nxt) # rest) pl =
     do { ks \<leftarrow> nth_opt kids node;
          case nth_opt ks nxt of
            Some child \<Rightarrow> place_loop fixed kids ((unat child, 0) # (node, nxt + 1) # rest) pl
          | None \<Rightarrow> do { pl \<leftarrow> place_node fixed kids node pl; place_loop fixed kids rest pl } }"
  by (subst place_loop.simps) simp

lemma place_loop_tree:
  "holds_tree N (trie_nodes t) \<Longrightarrow> length (pl_offs pl) = length N \<Longrightarrow> length (pl_sizes pl) = length N \<Longrightarrow>
     place_loop (map node_fixed N) (map node_kids N) ((unat (tn_index t), 0) # stk) pl =
       place_loop (map node_fixed N) (map node_kids N) stk (fold place_own (post t) pl)"
  "holds_tree N (edge_nodes es) \<Longrightarrow> length (pl_offs pl) = length N \<Longrightarrow> length (pl_sizes pl) = length N \<Longrightarrow>
     node < length N \<Longrightarrow> drop k (node_kids (N ! node)) = map (\<lambda>(l, c). tn_index c) es \<Longrightarrow>
     place_loop (map node_fixed N) (map node_kids N) ((node, k) # stk) pl =
       place_loop (map node_fixed N) (map node_kids N) ((node, k + length es) # stk) (fold place_own (posts es) pl)"
proof (induction t and es arbitrary: pl stk and pl stk k node rule: trie_nodes_edge_nodes.induct)
  case (1 ch x i z)
  let ?n = "TrieNode ch x i z"
  have h: "unat i < length N" "N ! unat i = ?n" "holds_tree N (edge_nodes ch)" using "1.prems"(1) by (auto simp: holds_tree_def)
  have c: "\<forall>(l, c) \<in> set ch. unat (tn_index c) < length N"
    using h(3) trie_nodes_self by (fastforce simp: holds_tree_def edge_nodes_set)
  have k: "node_kids (N ! unat i) = map (\<lambda>(l, c). tn_index c) ch" by (simp add: h node_kids_def)
  let ?pl = "fold place_own (posts ch) pl"
  have "place_loop (map node_fixed N) (map node_kids N) ((unat i, 0) # stk) pl =
      place_loop (map node_fixed N) (map node_kids N) ((unat i, length ch) # stk) ?pl"
    using "1.IH" [OF h(3) "1.prems"(2,3) h(1), of 0] k by simp
  also have "\<dots> = place_loop (map node_fixed N) (map node_kids N) stk (place_own ?n ?pl)"
    using place_node_own [of ?n N ?pl] h c "1.prems"(2,3) by (subst place_loop_step) (simp add: nth_opt_def node_kids_def)
  finally show ?case by simp
next
  case 2
  then show ?case by simp
next
  case (3 l c es)
  have h: "holds_tree N (trie_nodes c)" "holds_tree N (edge_nodes es)" using "3.prems"(1) by (auto simp: holds_tree_def)
  have k: "k < length (node_kids (N ! node))" "node_kids (N ! node) ! k = tn_index c"
      "drop (k + 1) (node_kids (N ! node)) = map (\<lambda>(l, c). tn_index c) es"
    using "3.prems"(5) by (cases "k < length (node_kids (N ! node))"; simp flip: Cons_nth_drop_Suc)+
  have "place_loop (map node_fixed N) (map node_kids N) ((node, k) # stk) pl =
      place_loop (map node_fixed N) (map node_kids N) ((unat (tn_index c), 0) # (node, k + 1) # stk) pl"
    using k "3.prems"(4) by (subst place_loop_step) (simp add: nth_opt_def)
  also have "\<dots> = place_loop (map node_fixed N) (map node_kids N) ((node, k + 1) # stk) (fold place_own (post c) pl)"
    by (rule "3.IH"(1)) (use h "3.prems" in auto)
  also have "\<dots> = place_loop (map node_fixed N) (map node_kids N) ((node, k + 1 + length es) # stk)
      (fold place_own (posts es) (fold place_own (post c) pl))"
    by (rule "3.IH"(2)) (use h k "3.prems" in auto)
  finally show ?case by (simp add: add.commute)
qed

lemma place_tops_tree:
  assumes "holds_tree N (edge_nodes es)" and "length (pl_offs pl) = length N" "length (pl_sizes pl) = length N"
  shows "place_tops (map node_fixed N) (map node_kids N) (map (\<lambda>(l, c). tn_index c) es) pl = Some (fold place_own (posts es) pl)"
  using assms
proof (induction es arbitrary: pl)
  case (Cons y es)
  obtain l c where y: "y = (l, c)" by (cases y)
  have h: "holds_tree N (trie_nodes c)" "holds_tree N (edge_nodes es)" using Cons.prems y by (auto simp: holds_tree_def)
  have "place_loop (map node_fixed N) (map node_kids N) [] pl = Some pl" for pl by (subst place_loop.simps) simp
  then have "place_loop (map node_fixed N) (map node_kids N) [(unat (tn_index c), 0)] pl = Some (fold place_own (post c) pl)"
    using place_loop_tree(1) [OF h(1) Cons.prems(2,3), of "[]"] by simp
  then show ?case using Cons h y by simp
qed simp

text \<open>The nodes are placed before those that refer to them.\<close>

fun kids_first :: "trie_node set \<Rightarrow> trie_node list \<Rightarrow> bool" where
  "kids_first seen [] \<longleftrightarrow> True"
| "kids_first seen (n # ns) \<longleftrightarrow> snd ` set (tn_children n) \<subseteq> seen \<and> kids_first (insert n seen) ns"

lemma kids_first_append: "kids_first seen (xs @ ys) \<longleftrightarrow> kids_first seen xs \<and> kids_first (seen \<union> set xs) ys"
  by (induction xs arbitrary: seen) auto

lemma post_self: "t \<in> set (post t)"
  by (cases t) simp

lemma posts_children: "snd ` set es \<subseteq> set (posts es)"
  by (induction es) (auto intro: post_self)

lemma kids_first_post: "kids_first seen (post t)" "kids_first seen (posts es)"
proof (induction t and es arbitrary: seen and seen rule: post_posts.induct)
  case (1 ch x i z)
  then show ?case using posts_children [of ch] by (auto simp: kids_first_append)
qed (auto simp: kids_first_append)

lemma mset_post: "mset (post t) = mset (trie_nodes t)" "mset (posts es) = mset (edge_nodes es)"
  by (induction t and es rule: post_posts.induct) auto

lemma kids_closed: "kids_first seen ns \<Longrightarrow> n \<in> set ns \<Longrightarrow> snd ` set (tn_children n) \<subseteq> seen \<union> set ns"
  by (induction seen ns rule: kids_first.induct) auto

lemma kids_below: "n \<in> set (trie_nodes (TrieNode ch x i z)) \<Longrightarrow> snd ` set (tn_children n) \<subseteq> set (edge_nodes ch)"
proof -
  assume n: "n \<in> set (trie_nodes (TrieNode ch x i z))"
  have s: "set (posts ch) = set (edge_nodes ch)" using mset_post(2) [of ch] by (rule mset_eq_setD)
  show ?thesis
  proof (cases "n = TrieNode ch x i z")
    case True
    then show ?thesis using posts_children [of ch] s by simp
  next
    case False
    then show ?thesis using n kids_closed [OF kids_first_post(2) [of "{}" ch], of n] s by simp
  qed
qed

subsection \<open>Offsets are running sums\<close>

lemma place_own_total: "pl_total (place_own n pl) = pl_total pl + of_nat (length (node_bytes (pl_offs pl) n))"
  by (simp add: place_own_def Let_def length_node_bytes)

lemma fold_place_other:
  "i \<notin> tn_index ` set ns \<Longrightarrow> pl_offs (fold place_own ns pl) ! unat i = pl_offs pl ! unat i"
  "i \<notin> tn_index ` set ns \<Longrightarrow> pl_sizes (fold place_own ns pl) ! unat i = pl_sizes pl ! unat i"
  by (induction ns arbitrary: pl) (auto simp: place_own_def Let_def nth_list_update word_unat_eq_iff)

lemma fold_place_order: "pl_order (fold place_own ns pl) = pl_order pl @ map tn_index ns"
  by (induction ns arbitrary: pl) (auto simp: place_own_def Let_def)

lemma node_bytes_cong:
  "(\<And>l c. (l, c) \<in> set (tn_children n) \<Longrightarrow> offs ! unat (tn_index c) = offs' ! unat (tn_index c)) \<Longrightarrow> node_bytes offs n = node_bytes offs' n"
  by (auto simp: node_bytes_def edge_bytes_def intro!: arg_cong [where f = concat] map_cong)

text \<open>Nodes placed one after another: their offsets and sizes are those of the bytes that will be written.\<close>

definition placed_ok :: "trie_node list \<Rightarrow> u32 \<Rightarrow> placement \<Rightarrow> bool" where
  "placed_ok ns start pl \<longleftrightarrow>
     (\<forall>as n bs. ns = as @ n # bs \<longrightarrow>
        unat (pl_offs pl ! unat (tn_index n)) = unat start + length (concat (map (node_bytes (pl_offs pl)) as)) \<and>
        unat (pl_sizes pl ! unat (tn_index n)) = length (node_bytes (pl_offs pl) n)) \<and>
     unat (pl_total pl) = unat start + length (concat (map (node_bytes (pl_offs pl)) ns))"

lemma fold_place_spec:
  assumes "kids_first {} ns" and "distinct (map tn_index ns)"
    and "\<forall>n \<in> set ns. unat (tn_index n) < length (pl_offs pl) \<and> unat (tn_index n) < length (pl_sizes pl)"
    and "unat (pl_total pl) + sum_list (map node_cap ns) < 2 ^ 32"
  shows "placed_ok ns (pl_total pl) (fold place_own ns pl)"
  using assms
proof (induction ns rule: rev_induct)
  case Nil
  then show ?case by (simp add: placed_ok_def)
next
  case (snoc m ns)
  define Q where "Q = fold place_own ns pl"
  let ?R = "place_own m Q" and ?nb = "node_bytes (pl_offs Q)"
  have k: "kids_first {} ns" "snd ` set (tn_children m) \<subseteq> set ns" using snoc.prems(1) by (simp_all add: kids_first_append)
  have IH: "placed_ok ns (pl_total pl) Q"
    unfolding Q_def using snoc.prems k by (intro snoc.IH) auto
  have lens: "length (pl_offs Q) = length (pl_offs pl)" "length (pl_sizes Q) = length (pl_sizes pl)" by (simp_all add: Q_def)
  have other: "tn_index n \<noteq> tn_index m" if "n \<in> set ns" for n using snoc.prems(2) imageI [OF that, of tn_index] by auto
  have offs: "pl_offs ?R ! unat (tn_index n) = pl_offs Q ! unat (tn_index n)"
      "pl_sizes ?R ! unat (tn_index n) = pl_sizes Q ! unat (tn_index n)" if "n \<in> set ns" for n
    using other [OF that] by (auto simp: place_own_def Let_def word_unat_eq_iff)
  have nb: "node_bytes (pl_offs ?R) n = ?nb n" if "n = m \<or> n \<in> set ns" for n
    using that k(2) kids_closed [OF k(1), of n] by (intro node_bytes_cong offs) force
  have cat: "concat (map (node_bytes (pl_offs ?R)) as) = concat (map ?nb as)" if "set as \<subseteq> set ns" for as
    using that nb by (metis (no_types, lifting) map_cong subsetD)
  have tot: "unat (pl_total Q) = unat (pl_total pl) + length (concat (map ?nb ns))" using IH by (simp add: placed_ok_def)
  have cap: "length (concat (map ?nb ns)) \<le> sum_list (map node_cap ns)"
    by (auto simp: length_concat comp_def intro!: sum_list_mono node_bytes_cap)
  have sz: "unat (of_nat (length (?nb m)) :: u32) = length (?nb m)"
    using snoc.prems(4) node_bytes_cap [of "pl_offs Q" m] by (simp add: unat_of_nat take_bit_nat_eq_self)
  have total: "unat (pl_total ?R) = unat (pl_total Q) + length (?nb m)"
    using snoc.prems(4) tot cap sz node_bytes_cap [of "pl_offs Q" m] by (simp add: place_own_total unat_plus_small)
  have own: "pl_offs ?R ! unat (tn_index m) = pl_total Q" "unat (pl_sizes ?R ! unat (tn_index m)) = length (?nb m)"
    using snoc.prems(3) lens sz by (simp_all add: place_own_def Let_def length_node_bytes)
  have "placed_ok (ns @ [m]) (pl_total pl) ?R"
    unfolding placed_ok_def
  proof (intro conjI allI impI)
    fix as n bs assume split: "ns @ [m] = as @ n # bs"
    consider "bs = []" "as = ns" "n = m" | bs' where "bs = bs' @ [m]" "ns = as @ n # bs'"
      using split by (cases bs rule: rev_exhaust) auto
    then have "unat (pl_offs ?R ! unat (tn_index n)) = unat (pl_total pl) + length (concat (map (node_bytes (pl_offs ?R)) as)) \<and>
        unat (pl_sizes ?R ! unat (tn_index n)) = length (node_bytes (pl_offs ?R) n)"
    proof cases
      case 1
      then show ?thesis using own tot nb [of m] cat [of ns] by simp
    next
      case 2
      then have "n \<in> set ns" "set as \<subseteq> set ns" by auto
      moreover have "unat (pl_offs Q ! unat (tn_index n)) = unat (pl_total pl) + length (concat (map ?nb as)) \<and>
          unat (pl_sizes Q ! unat (tn_index n)) = length (?nb n)"
        using IH 2(2) unfolding placed_ok_def by blast
      ultimately show ?thesis using offs [of n] nb [of n] cat [of as] by simp
    qed
    then show "unat (pl_offs ?R ! unat (tn_index n)) = unat (pl_total pl) + length (concat (map (node_bytes (pl_offs ?R)) as))"
      "unat (pl_sizes ?R ! unat (tn_index n)) = length (node_bytes (pl_offs ?R) n)" by auto
  next
    show "unat (pl_total ?R) = unat (pl_total pl) + length (concat (map (node_bytes (pl_offs ?R)) (ns @ [m])))"
      using total tot nb [of m] cat [of ns] by simp
  qed
  then show ?case by (simp add: Q_def)
qed

lemma placed_node:
  assumes "placed_ok ns start pl" and "n \<in> set ns"
  shows "unat (pl_sizes pl ! unat (tn_index n)) = length (node_bytes (pl_offs pl) n)"
    and "\<exists>rest. drop (unat (pl_offs pl ! unat (tn_index n)) - unat start) (concat (map (node_bytes (pl_offs pl)) ns)) =
      node_bytes (pl_offs pl) n @ rest"
    and "unat start \<le> unat (pl_offs pl ! unat (tn_index n))"
proof -
  obtain as bs where s: "ns = as @ n # bs" using assms(2) by (meson split_list)
  then have p: "unat (pl_offs pl ! unat (tn_index n)) = unat start + length (concat (map (node_bytes (pl_offs pl)) as))"
    "unat (pl_sizes pl ! unat (tn_index n)) = length (node_bytes (pl_offs pl) n)"
    using assms(1) unfolding placed_ok_def by blast+
  show "unat (pl_sizes pl ! unat (tn_index n)) = length (node_bytes (pl_offs pl) n)" by (rule p)
  show "unat start \<le> unat (pl_offs pl ! unat (tn_index n))" using p by simp
  show "\<exists>rest. drop (unat (pl_offs pl ! unat (tn_index n)) - unat start) (concat (map (node_bytes (pl_offs pl)) ns)) =
      node_bytes (pl_offs pl) n @ rest"
    by (simp add: p s)
qed

subsection \<open>Writing the nodes\<close>

lemma put_bytes_eq:
  "p + length bs \<le> length dst \<Longrightarrow> put_bytes (dst, p) bs = Some (take p dst @ bs @ drop (p + length bs) dst, p + length bs)"
  by (simp add: put_bytes_def copy_at_def)

lemma put_uleb_eq:
  "p + length (encode_uleb v) \<le> length dst \<Longrightarrow>
     put_uleb (dst, p) v = Some (take p dst @ encode_uleb v @ drop (p + length (encode_uleb v)) dst, p + length (encode_uleb v))"
  by (simp add: put_uleb_def write_uleb_eq copy_at_def add.commute)

text \<open>A writer that has written \<open>pre\<close> so far.\<close>

definition wrote :: "bytes \<Rightarrow> bytes \<Rightarrow> bytes \<times> nat" where
  "wrote dst pre = (pre @ drop (length pre) dst, length pre)"

lemma wrote_start: "(dst, 0) = wrote dst []"
  by (simp add: wrote_def)

lemma wrote_bytes: "length pre + length bs \<le> length dst \<Longrightarrow> put_bytes (wrote dst pre) bs = Some (wrote dst (pre @ bs))"
  by (simp add: wrote_def put_bytes_eq add.commute)

lemma wrote_uleb:
  "length pre + length (encode_uleb v) \<le> length dst \<Longrightarrow> put_uleb (wrote dst pre) v = Some (wrote dst (pre @ encode_uleb v))"
  by (simp add: wrote_def put_uleb_eq add.commute)

lemma wrote_edges:
  "length pre + length (concat (map (edge_bytes offs) es)) \<le> length dst \<Longrightarrow> \<forall>(l, c) \<in> set es. unat (tn_index c) < length offs \<Longrightarrow>
     write_edges offs es (wrote dst pre) = Some (wrote dst (pre @ concat (map (edge_bytes offs) es)))"
proof (induction es arbitrary: pre)
  case (Cons y es)
  obtain l c where y: "y = (l, c)" by (cases y)
  let ?u = "encode_uleb (ucast (offs ! unat (tn_index c)))"
  have "write_edges offs es (wrote dst (pre @ edge_bytes offs y)) = Some (wrote dst ((pre @ edge_bytes offs y) @ concat (map (edge_bytes offs) es)))"
    using Cons.prems by (intro Cons.IH) auto
  moreover have e: "edge_bytes offs y = l @ [0] @ ?u" by (simp add: y edge_bytes_def)
  moreover have "put_bytes (wrote dst pre) l = Some (wrote dst (pre @ l))"
    "put_bytes (wrote dst (pre @ l)) [0] = Some (wrote dst (pre @ l @ [0]))"
    "put_uleb (wrote dst (pre @ l @ [0])) (ucast (offs ! unat (tn_index c))) = Some (wrote dst (pre @ l @ [0] @ ?u))"
    using Cons.prems(1) e wrote_bytes [of pre l dst] wrote_bytes [of "pre @ l" "[0]" dst] wrote_uleb [of "pre @ l @ [0]" _ dst]
    by simp_all
  ultimately show ?case using Cons.prems(2) by (simp add: y nth_opt_def)
qed simp

lemma write_node_eq:
  assumes "length (node_bytes offs n) \<le> length dst" and "\<forall>(l, c) \<in> set (tn_children n). unat (tn_index c) < length offs"
  shows "write_node n offs dst = Some (node_bytes offs n @ drop (length (node_bytes offs n)) dst)"
proof -
  let ?t = "terminal_bytes (tn_export n)" and ?k = "[of_nat (length (tn_children n))] :: bytes"
  let ?e = "concat (map (edge_bytes offs) (tn_children n))"
  have len: "length ?t + 1 + length ?e \<le> length dst" using assms(1) by (simp add: node_bytes_def)
  have tm: "(case tn_export n of
                   Some (Addr flags addr) \<Rightarrow>
                     do { dp \<leftarrow> put_uleb (dst, 0) (of_nat (terminal_size (Addr flags addr)));
                          dp \<leftarrow> put_uleb dp (ucast flags);
                          put_uleb dp addr }
                 | Some (Reexport ordinal name) \<Rightarrow>
                     do { dp \<leftarrow> put_uleb (dst, 0) (of_nat (terminal_size (Reexport ordinal name)));
                          dp \<leftarrow> put_uleb dp (ucast EXPORT_SYMBOL_FLAGS_REEXPORT);
                          dp \<leftarrow> put_uleb dp (ucast ordinal);
                          dp \<leftarrow> put_bytes dp name;
                          put_bytes dp [0] }
                 | None \<Rightarrow> put_bytes (dst, 0) [0]) = Some (wrote dst ?t)"
  proof (cases "tn_export n")
    case None
    then show ?thesis using len by (simp add: wrote_start wrote_bytes terminal_bytes_def)
  next
    case (Some e)
    define ts where "ts = terminal_size e"
    have t: "?t = encode_uleb (of_nat ts) @ export_bytes e" by (simp add: Some ts_def terminal_bytes_def)
    then have l: "length (encode_uleb (of_nat ts)) + length (export_bytes e) \<le> length dst" using len by (simp del: length_export_bytes)
    show ?thesis
      using l t Some ts_def [symmetric]
      by (cases e) (simp_all add: wrote_start wrote_bytes wrote_uleb del: terminal_size.simps length_export_bytes)
  qed
  have "write_node n offs dst = Some (fst (wrote dst (?t @ ?k @ ?e)))"
    using len assms(2) by (simp only: write_node_def tm) (simp add: wrote_bytes wrote_edges)
  then show ?thesis by (simp add: wrote_def node_bytes_def)
qed

text \<open>Writing nodes whose sizes are exact gives their bytes one after another.\<close>

lemma write_nodes_exact:
  assumes "\<forall>n \<in> set ns. unat (tn_index n) < length N \<and> N ! unat (tn_index n) = n \<and> unat (tn_index n) < length (pl_sizes pl) \<and>
      unat (pl_sizes pl ! unat (tn_index n)) = length (node_bytes (pl_offs pl) n) \<and>
      (\<forall>(l, c) \<in> set (tn_children n). unat (tn_index c) < length (pl_offs pl))"
    and "length rest = length (concat (map (node_bytes (pl_offs pl)) ns))"
  shows "write_nodes_loop N pl rest (map tn_index ns) = Some (concat (map (node_bytes (pl_offs pl)) ns))"
  using assms
proof (induction ns arbitrary: rest)
  case (Cons n ns)
  let ?b = "node_bytes (pl_offs pl) n"
  have "write_nodes_loop N pl (drop (length ?b) rest) (map tn_index ns) = Some (concat (map (node_bytes (pl_offs pl)) ns))"
    using Cons.prems by (intro Cons.IH) auto
  then show ?case using Cons.prems by (simp add: nth_opt_def slice_at_def write_node_eq)
qed simp

subsection \<open>The encoded trie holds every node where its parent says\<close>

definition trie_image :: "bytes \<Rightarrow> u32 list \<Rightarrow> trie_node list \<Rightarrow> bool" where
  "trie_image buf offs ns \<longleftrightarrow>
     (\<forall>n \<in> set ns. \<exists>rest. drop (unat (offs ! unat (tn_index n))) buf = node_bytes offs n @ rest)"

lemma numbered_holds:
  assumes "map tn_index N = map of_nat [0..<length N]" and "length N < 2 ^ 32"
  shows "holds_tree N N" and "distinct (map tn_index N)"
proof -
  have i: "tn_index (N ! k) = of_nat k" if "k < length N" for k
    using arg_cong [OF assms(1), of "\<lambda>xs. xs ! k"] that by simp
  have u: "unat (of_nat k :: u32) = k" if "k < length N" for k
    using that assms(2) by (simp add: unat_of_nat take_bit_nat_eq_self)
  show "holds_tree N N" using i u by (auto simp: holds_tree_def in_set_conv_nth)
  have "map unat (map tn_index N) = [0..<length N]"
    by (rule nth_equalityI) (use i u in auto)
  then show "distinct (map tn_index N)" by (metis distinct_map distinct_upt)
qed

lemma encode_nodes_ok:
  fixes ch x i z
  defines "u \<equiv> TrieNode ch x i z" and "N \<equiv> trie_nodes (TrieNode ch x i z)"
  assumes num: "map tn_index N = map of_nat [0..<length N]" and cap: "sum_list (map node_cap N) < 2 ^ 32"
  shows "\<exists>pl buf. place_nodes N = Some pl \<and> write_nodes N pl = Some buf \<and> trie_image buf (pl_offs pl) N \<and>
    i = 0 \<and> pl_offs pl ! 0 = 0 \<and> (\<forall>n \<in> set (edge_nodes ch). pl_offs pl ! unat (tn_index n) \<noteq> 0)"
proof -
  have N: "N = u # edge_nodes ch" by (simp add: N_def u_def)
  have small: "length N < 2 ^ 32"
  proof -
    have "1 \<le> node_cap n" for n by (simp add: node_cap_def node_fixed_def Let_def)
    then have "length ns \<le> sum_list (map node_cap ns)" for ns by (induction ns) (auto intro: add_mono simp: Suc_le_eq add_strict_increasing)
    then show ?thesis using cap by (meson le_less_trans)
  qed
  have h: "holds_tree N N" and d: "distinct (map tn_index N)" using numbered_holds [OF num small] by auto
  have i: "i = 0" using arg_cong [OF num, of hd] N by (simp add: u_def upt_conv_Cons del: upt_Suc)
  define sz :: u32 where "sz = of_nat (node_cap u)"
  have usz: "unat sz = node_cap u" using cap N by (simp add: sz_def unat_of_nat take_bit_nat_eq_self)
  define zs :: "u32 list" where "zs = replicate (length N) 0"
  define pl0 where "pl0 = \<lparr>pl_offs = zs, pl_sizes = zs[0 := sz], pl_order = [0], pl_total = sz\<rparr>"
  define pl where "pl = fold place_own (posts ch) pl0"
  let ?nb = "node_bytes (pl_offs pl)"
  have lens: "length (pl_offs pl) = length N" "length (pl_sizes pl) = length N" by (simp_all add: pl_def pl0_def zs_def)
  have m: "set (posts ch) = set (edge_nodes ch)" "mset (posts ch) = mset (edge_nodes ch)"
    using mset_post(2) [of ch] by (auto dest: mset_eq_setD)
  have inN: "unat (tn_index n) < length N" "N ! unat (tn_index n) = n" if "n \<in> set N" for n
    using h that by (auto simp: holds_tree_def)
  have kids: "\<forall>(l, c) \<in> set (tn_children n). unat (tn_index c) < length N" if "n \<in> set (u # posts ch)" for n
  proof -
    have "snd ` set (tn_children n) \<subseteq> set N" using kids_below [of n ch x i z] that N m by (auto simp: u_def)
    then have "c \<in> set N" if "(l, c) \<in> set (tn_children n)" for l c using that by force
    then show ?thesis using inN(1) by blast
  qed
  have dist: "distinct (map tn_index (posts ch))" "0 \<notin> tn_index ` set (posts ch)"
    using d N i m by (auto simp: u_def distinct_map dest: mset_eq_imp_distinct_iff)
  have "place_tops (map node_fixed N) (map node_kids N) (map (\<lambda>(l, c). tn_index c) ch) pl0 = Some pl"
    unfolding pl_def by (rule place_tops_tree) (use h N in \<open>auto simp: holds_tree_def pl0_def zs_def\<close>)
  then have place: "place_nodes N = Some pl"
    by (simp add: place_nodes_def nth_opt_def N node_kids_def u_def sz_def node_cap_def pl0_def zs_def Let_def)
  have caps: "sum_list (map node_cap (posts ch)) = sum_list (map node_cap (edge_nodes ch))"
    using m(2) by (metis mset_map sum_mset_sum_list)
  have ok: "placed_ok (posts ch) sz pl"
    using fold_place_spec [OF kids_first_post(2) dist(1), of pl0] inN N m cap caps
    by (simp add: pl_def pl0_def zs_def usz)
  have own0: "pl_offs pl ! 0 = 0" "pl_sizes pl ! 0 = sz"
    using fold_place_other [OF dist(2), of pl0] N by (simp_all add: pl_def pl0_def zs_def)
  have u: "unat (tn_index u) = 0" by (simp add: u_def i)
  let ?tail = "concat (map ?nb (posts ch))"
  have tot: "unat (pl_total pl) = unat sz + length ?tail" using ok by (simp add: placed_ok_def)
  define buf where "buf = (?nb u @ replicate (unat sz - length (?nb u)) 0) @ ?tail"
  have lu: "length (?nb u) \<le> unat sz" using node_bytes_cap usz by simp
  have "write_nodes_loop N pl (replicate (length ?tail) 0) (map tn_index (posts ch)) = Some ?tail"
  proof (rule write_nodes_exact; (intro ballI conjI)?)
    fix n assume n: "n \<in> set (posts ch)"
    then have "n \<in> set N" "n \<in> set (u # posts ch)" using N m by auto
    then show "unat (tn_index n) < length N" "N ! unat (tn_index n) = n" "unat (tn_index n) < length (pl_sizes pl)"
      "\<And>x. x \<in> set (tn_children n) \<Longrightarrow> case x of (l, c) \<Rightarrow> unat (tn_index c) < length (pl_offs pl)"
      using inN [of n] kids [of n] by (auto simp: lens)
    show "unat (pl_sizes pl ! unat (tn_index n)) = length (?nb n)" by (rule placed_node(1) [OF ok n])
  qed simp
  moreover have "pl_order pl = 0 # map tn_index (posts ch)" by (simp add: pl_def fold_place_order pl0_def)
  moreover have "N ! 0 = u" "0 < length N" by (simp_all add: N)
  ultimately have "write_nodes N pl = Some buf"
    using kids [of u] lens lu by (simp add: write_nodes_def nth_opt_def own0 slice_at_def tot write_node_eq buf_def)
  moreover have "trie_image buf (pl_offs pl) N"
    unfolding trie_image_def
  proof
    fix n assume "n \<in> set N"
    then consider "n = u" | "n \<in> set (posts ch)" using N m by auto
    then show "\<exists>rest. drop (unat (pl_offs pl ! unat (tn_index n))) buf = ?nb n @ rest"
    proof cases
      case 1
      then show ?thesis by (simp add: u own0 buf_def)
    next
      case 2
      have "drop (unat (pl_offs pl ! unat (tn_index n))) buf = drop (unat (pl_offs pl ! unat (tn_index n)) - unat sz) ?tail"
        using placed_node(3) [OF ok 2] lu by (simp add: buf_def)
      then show ?thesis using placed_node(2) [OF ok 2] by simp
    qed
  qed
  moreover have "pl_offs pl ! unat (tn_index n) \<noteq> 0" if "n \<in> set (edge_nodes ch)" for n
  proof -
    have "0 < unat sz" by (simp add: usz node_cap_def node_fixed_def Let_def)
    then show ?thesis using placed_node(3) [OF ok, of n] that m by auto
  qed
  ultimately show ?thesis using place i own0 by blast
qed

subsection \<open>The walk finds what the tree holds\<close>

fun export_ok :: "export \<Rightarrow> bool" where
  "export_ok (Addr flags addr) \<longleftrightarrow> flags AND EXPORT_SYMBOL_FLAGS_REEXPORT = 0"
| "export_ok (Reexport ordinal name) \<longleftrightarrow> 0 \<notin> set name"

lemma ucast_back: "ucast (ucast (v :: u32) :: u64) = v"
  by (rule bit_word_eqI) (simp add: bit_ucast_iff)

lemma parse_export_bytes: "export_ok e \<Longrightarrow> parse_terminal (export_bytes e) = Some e"
  using read_encode_uleb [of _ "[]"]
  by (cases e) (simp_all add: parse_terminal_def read_encode_uleb read_cstr_append [of _ "[]", simplified] ucast_back)

lemma find_edge_ok:
  "\<forall>(l, c) \<in> set es. 0 \<notin> set l \<Longrightarrow>
     find_edge (length es) (concat (map (edge_bytes offs) es) @ rest) s =
       (case List.find (\<lambda>(l, c). take (length l) s = l) es of
          None \<Rightarrow> None
        | Some (l, c) \<Rightarrow> if offs ! unat (tn_index c) = 0 then None
                          else Some (ucast (offs ! unat (tn_index c)), drop (length l) s))"
proof (induction es)
  case (Cons y es)
  obtain l c where y: "y = (l, c)" by (cases y)
  have z: "(ucast (v :: u32) = (0 :: u64)) = (v = 0)" for v
    by (metis ucast_back ucast_0)
  show ?case using Cons y by (simp add: edge_bytes_def read_cstr_append read_encode_uleb z)
qed simp

lemma edge_lookup_find:
  "edge_lookup es s = (case List.find (\<lambda>(l, c). take (length l) s = l) es of None \<Rightarrow> None | Some (l, c) \<Rightarrow> trie_lookup c (drop (length l) s))"
  by (induction es) auto

lemma edge_lookup_nil: "\<forall>(l, c) \<in> set es. l \<noteq> [] \<Longrightarrow> edge_lookup es [] = None"
  by (induction es) auto

lemma terminal_size_pos: "terminal_size e \<noteq> 0"
proof -
  have "encode_uleb v \<noteq> []" for v by (subst encode_uleb.simps) (simp add: Let_def)
  then show ?thesis by (cases e) (simp_all add: uleb_size_eq)
qed

lemma labels_count: "labels_ok ch \<Longrightarrow> length ch \<le> 255"
proof -
  assume ok: "labels_ok ch"
  let ?hs = "map (\<lambda>(l, c). unat (hd l)) ch"
  have "sorted_wrt (<) ?hs"
    using ok by (simp add: labels_ok_def sorted_wrt_map case_prod_unfold word_less_nat_alt)
  then have d: "distinct ?hs" by (simp only: strict_sorted_iff)
  have "unat (hd l) \<noteq> 0" if "(l, c) \<in> set ch" for l c
  proof -
    have "l \<noteq> []" "0 \<notin> set l" using ok that by (auto simp: labels_ok_def)
    then have "hd l \<noteq> 0" using hd_in_set [of l] by metis
    then show ?thesis by (simp add: unat_eq_0)
  qed
  then have "unat (hd l) \<in> {1..255}" if "(l, c) \<in> set ch" for l c
    using that unat_u8_less [of "hd l"] by (fastforce simp: Suc_le_eq)
  then have "set ?hs \<subseteq> {1..255}" by fastforce
  then have "card (set ?hs) \<le> card {1..255 :: nat}" by (intro card_mono) auto
  then show ?thesis using distinct_card [OF d] by simp
qed

lemma trie_walk_ok:
  assumes "trie_image buf offs (trie_nodes t)" and "\<forall>n \<in> set (trie_nodes t). labels_ok (tn_children n)"
    and "\<forall>e \<in> node_exports (trie_nodes t). export_ok e \<and> terminal_size e < 2 ^ 64"
    and "\<forall>n \<in> set (trie_nodes t). \<forall>(l, c) \<in> set (tn_children n). offs ! unat (tn_index c) \<noteq> 0" and "length s < fuel"
  shows "trie_walk fuel buf (unat (offs ! unat (tn_index t))) s = trie_lookup t s"
  using assms
proof (induction fuel arbitrary: t s)
  case (Suc fuel)
  obtain ch x i z where t: "t = TrieNode ch x i z" by (cases t)
  obtain rest where r: "drop (unat (offs ! unat i)) buf =
      terminal_bytes x @ [of_nat (length ch)] @ concat (map (edge_bytes offs) ch) @ rest"
    using Suc.prems(1) t by (fastforce simp: trie_image_def node_bytes_def)
  have lab: "labels_ok ch" using Suc.prems(2) t by simp
  have cnt: "unat (of_nat (length ch) :: u8) = length ch"
    using labels_count [OF lab] by (simp add: unat_of_nat take_bit_nat_eq_self)
  have z: "\<forall>(l, c) \<in> set ch. 0 \<notin> set l" using lab by (auto simp: labels_ok_def)
  define ts where "ts = (case x of None \<Rightarrow> 0 | Some e \<Rightarrow> terminal_size e)"
  define tb where "tb = (case x of None \<Rightarrow> [] | Some e \<Rightarrow> export_bytes e)"
  have tb: "length tb = ts" "terminal_bytes x = encode_uleb (of_nat ts) @ tb"
    using encode_uleb.simps [of 0] by (auto simp: tb_def ts_def terminal_bytes_def split: option.splits)
  have ts: "ts < 2 ^ 64" using Suc.prems(3) t by (auto simp: ts_def node_exports_def split: option.splits)
  then have uts: "unat (of_nat ts :: u64) = ts" by (simp add: unat_of_nat take_bit_nat_eq_self)
  let ?more = "of_nat (length ch) # concat (map (edge_bytes offs) ch) @ rest"
  have nth: "nth_opt (tb @ ?more) ts = Some (of_nat (length ch))" "drop (ts + 1) (tb @ ?more) = concat (map (edge_bytes offs) ch) @ rest"
    using tb(1) by (auto simp: nth_opt_def nth_append)
  have rd: "read_uleb (drop (unat (offs ! unat i)) buf) = Some (of_nat ts, tb @ ?more)"
    by (simp add: r tb(2) read_encode_uleb)
  have edges: "(do { n \<leftarrow> nth_opt (tb @ ?more) ts;
                     (off, s) \<leftarrow> find_edge (unat n) (drop (ts + 1) (tb @ ?more)) s;
                     trie_walk fuel buf (unat off) s }) = edge_lookup ch s"
  proof (cases "List.find (\<lambda>(l, c). take (length l) s = l) ch")
    case None
    then show ?thesis using cnt z by (simp only: nth) (simp add: find_edge_ok edge_lookup_find)
  next
    case (Some lc)
    obtain l c where lc: "lc = (l, c)" by (cases lc)
    have m: "(l, c) \<in> set ch" "take (length l) s = l" using Some lc by (auto simp: find_Some_iff) (metis nth_mem)
    have l: "l \<noteq> []" "offs ! unat (tn_index c) \<noteq> 0" using lab m(1) Suc.prems(4) t by (auto simp: labels_ok_def)
    have sub: "set (trie_nodes c) \<subseteq> set (trie_nodes t)" using m(1) t by (auto simp: edge_nodes_set)
    then have ex: "node_exports (trie_nodes c) \<subseteq> node_exports (trie_nodes t)" by (auto simp: node_exports_def)
    have "length l \<le> length s" using m(2) by (metis length_take min.cobounded1)
    then have "length (drop (length l) s) < fuel" using l(1) Suc.prems(5) by (cases l) auto
    then have "trie_walk fuel buf (unat (offs ! unat (tn_index c))) (drop (length l) s) = trie_lookup c (drop (length l) s)"
    proof (rule Suc.IH [rotated -1])
      show "trie_image buf offs (trie_nodes c)" using Suc.prems(1) sub unfolding trie_image_def by blast
    qed (use Suc.prems(2,3,4) sub ex in blast)+
    then show ?thesis using cnt z l Some lc by (simp only: nth) (simp add: find_edge_ok edge_lookup_find unat_ucast_u32)
  qed
  show ?case
  proof (cases "s = [] \<and> ts \<noteq> 0")
    case True
    then obtain e where e: "x = Some e" by (auto simp: ts_def split: option.splits)
    have "export_ok e" using Suc.prems(3) t e by (auto simp: node_exports_def)
    then show ?thesis using True rd tb ts e uts
      by (simp add: t tb_def parse_export_bytes word_unat_eq_iff)
  next
    case False
    have "edge_lookup ch [] = None" using lab by (intro edge_lookup_nil) (auto simp: labels_ok_def)
    moreover have "x = None" if "ts = 0" using that by (auto simp: ts_def terminal_size_pos split: option.splits)
    ultimately show ?thesis using False rd edges uts
      by (auto simp: t word_unat_eq_iff)
  qed
qed simp

subsection \<open>The trie is an index of the exports\<close>

text \<open>What the linker hands over: symbols that exist, in name order, with names of C strings.\<close>

definition export_input :: "export_ctx \<Rightarrow> nat list \<Rightarrow> bool" where
  "export_input ctx ids \<longleftrightarrow>
     list_all (\<lambda>i. i < length (xc_syms ctx)) ids \<and>
     sorted_wrt (\<lambda>i j. xy_name (xc_syms ctx ! i) < xy_name (xc_syms ctx ! j)) ids \<and>
     list_all (\<lambda>(a, t). t < length (xc_syms ctx)) (xc_indirect_aliases ctx) \<and>
     list_all (\<lambda>sy. 0 \<notin> set (xy_name sy)) (xc_syms ctx)"

lemma export_of_name: "export_of ctx i = Some (n, e) \<Longrightarrow> n = xy_name (xc_syms ctx ! i)"
  by (auto simp: export_of_def Let_def split: option.splits if_splits prod.splits)

lemma export_of_fst: "export_of ctx i \<noteq> None \<Longrightarrow> fst (the (export_of ctx i)) = xy_name (xc_syms ctx ! i)"
  using export_of_name by (cases "export_of ctx i") force+

lemma find_in_set: "List.find P xs = Some y \<Longrightarrow> y \<in> set xs \<and> P y"
  by (auto simp: find_Some_iff)

lemma export_of_ok:
  assumes "export_of ctx i = Some (n, e)" and "export_input ctx ids"
  shows "export_ok e"
proof -
  have "export_ok (addr_export ctx sy)" for sy by (simp add: addr_export_def Let_def)
  moreover have "0 \<notin> set (xy_name (xc_syms ctx ! t))" if "(a, t) \<in> set (xc_indirect_aliases ctx)" for a t
    using assms(2) that by (fastforce simp: export_input_def list_all_iff)
  ultimately show ?thesis
    using assms(1) by (auto simp: export_of_def Let_def dest!: find_in_set split: option.splits if_splits prod.splits)
qed

lemma exports_ok:
  assumes inp: "export_input ctx ids"
  shows "sorted_wrt (\<lambda>a b. fst a < fst b) (exports ctx ids)" and "\<forall>(n, e) \<in> set (exports ctx ids). 0 \<notin> set n \<and> export_ok e"
proof -
  have e: "exports ctx ids = map (\<lambda>i. the (export_of ctx i)) (filter (\<lambda>i. export_of ctx i \<noteq> None) ids)"
    by (simp add: exports_def List.map_filter_def comp_def)
  have "sorted_wrt (\<lambda>i j. xy_name (xc_syms ctx ! i) < xy_name (xc_syms ctx ! j)) (filter (\<lambda>i. export_of ctx i \<noteq> None) ids)"
    using inp by (simp add: export_input_def sorted_wrt_filter)
  then show "sorted_wrt (\<lambda>a b. fst a < fst b) (exports ctx ids)"
    unfolding e sorted_wrt_map
    by (rule sorted_wrt_mono_rel [rotated]) (simp add: export_of_fst)
  have "0 \<notin> set n \<and> export_ok e" if i: "i \<in> set ids" and x: "export_of ctx i = Some (n, e)" for i n e
    using inp i export_of_name [OF x] export_of_ok [OF x inp] by (auto simp: export_input_def list_all_iff)
  then show "\<forall>(n, e) \<in> set (exports ctx ids). 0 \<notin> set n \<and> export_ok e" by (fastforce simp: e)
qed

lemma walk_padded:
  assumes "trie_image buf offs ns" shows "trie_image (buf @ x) offs ns"
  using assms by (fastforce simp: trie_image_def drop_append)

text \<open>
  C1. dyld's walk over the encoded trie finds every exported name with its export and no other name; the
  trie is a whole number of 8-byte words. The bound on the names keeps the trie below 4 GiB.
\<close>

theorem export_trie_correct:
  assumes dyld: "\<not> xc_without_dyld ctx" and inp: "export_input ctx ids"
    and small: "(\<Sum>(n, e)\<leftarrow>exports ctx ids. 9 * length n + terminal_size e + 10) + 2 < 2 ^ 32"
  shows "\<exists>trie. encode_export_trie ctx ids = Some trie \<and> 8 dvd length trie \<and>
    (\<forall>name. trie_walk (Suc (length name)) trie 0 name = map_of (exports ctx ids) name)"
proof (cases "exports ctx ids = []")
  case True
  have "trie_walk (Suc k) (replicate 8 0) 0 name = None" for k name by (simp add: read_uleb_def nth_opt_def numeral_eq_Suc)
  then show ?thesis using True dyld by (simp add: encode_export_trie_def Let_def)
next
  case False
  let ?xs = "exports ctx ids"
  have b: "trie_bound 0 ?xs + 2 < 2 ^ 32" using small by (simp add: trie_bound_def)
  obtain t where t: "build_trie ?xs 0 = Some t" "built [] ?xs t"
    using build_trie_ok [of ?xs 0 "[]"] exports_ok [OF inp] by (fastforce simp: case_prod_beta)
  then have cap: "sum_list (map node_cap (trie_nodes t)) < 2 ^ 32" using b by (simp add: built_def)
  have "1 \<le> node_cap n" for n by (simp add: node_cap_def node_fixed_def Let_def)
  then have "length ns \<le> sum_list (map node_cap ns)" for ns
    by (induction ns) (auto intro: add_mono simp: Suc_le_eq add_strict_increasing)
  then have len: "length (trie_nodes t) < 2 ^ 32" using cap by (meson le_less_trans)
  obtain u where u: "number_nodes t = Some (trie_nodes u)" "strip u = strip t"
      "map tn_index (trie_nodes u) = map of_nat [0..<length (trie_nodes u)]"
    using number_nodes_ok [OF _ len] t(2) by (auto simp: built_def)
  have bu: "built [] ?xs u" using strip_built [OF u(2) [symmetric] t(2)] .
  obtain ch x i z where uu: "u = TrieNode ch x i z" by (cases u)
  have capu: "sum_list (map node_cap (trie_nodes u)) < 2 ^ 32" using bu b by (simp add: built_def)
  obtain pl buf where p: "place_nodes (trie_nodes u) = Some pl" "write_nodes (trie_nodes u) pl = Some buf"
      "trie_image buf (pl_offs pl) (trie_nodes u)" "i = 0" "pl_offs pl ! 0 = 0"
      "\<forall>n \<in> set (edge_nodes ch). pl_offs pl ! unat (tn_index n) \<noteq> 0"
    using encode_nodes_ok [of ch x i z] u(3) capu by (auto simp: uu)
  have enc: "encode_export_trie ctx ids = Some (pad_to buf 8)"
    using dyld False t u p by (simp add: encode_export_trie_def Let_def)
  have img: "trie_image (pad_to buf 8) (pl_offs pl) (trie_nodes u)" using walk_padded [OF p(3)] by (simp add: pad_to_def)
  have ex: "export_ok e \<and> terminal_size e < 2 ^ 64" if e: "e \<in> node_exports (trie_nodes u)" for e
  proof -
    obtain n where n: "(n, e) \<in> set ?xs" using bu e by (fastforce simp: built_def)
    have "9 * (length n - 0) + terminal_size e + 10 \<in> set (map (\<lambda>(n, x). 9 * (length n - 0) + terminal_size x + 10) ?xs)"
      using n by force
    then have "9 * (length n - 0) + terminal_size e + 10 \<le> trie_bound 0 ?xs" unfolding trie_bound_def by (intro member_le_sum_list) simp_all
    then show ?thesis using n exports_ok(2) [OF inp] b by auto
  qed
  have kids: "snd ` set (tn_children n) \<subseteq> set (edge_nodes ch)" if "n \<in> set (trie_nodes u)" for n
    using kids_below [of n ch x i z] that by (simp add: uu)
  have "trie_walk (Suc (length s)) (pad_to buf 8) (unat (pl_offs pl ! unat (tn_index u))) s = trie_lookup u s" for s
    by (rule trie_walk_ok [OF img]) (use bu ex kids p(6) in \<open>fastforce simp: built_def\<close>)+
  then have "trie_walk (Suc (length s)) (pad_to buf 8) 0 s = map_of ?xs s" for s
    using bu by (simp add: uu p built_def)
  then show ?thesis using enc next_multiple_of_dvd by simp
qed

text \<open>Three symbols, one of them an alias of an imported one under another name.\<close>

definition sample_exports :: export_ctx where
  "sample_exports =
     \<lparr>xc_without_dyld = False, xc_base = 0x100000000,
      xc_syms = [\<lparr>xy_name = bstr ''_a'', xy_is_weak_def = True, xy_is_tlv = False, xy_is_absolute = False, xy_addr = 0x100000480,
                   xy_in_dylib = False, xy_bind_ordinal = 0\<rparr>,
                 \<lparr>xy_name = bstr ''_main'', xy_is_weak_def = False, xy_is_tlv = False, xy_is_absolute = False, xy_addr = 0x100000500,
                   xy_in_dylib = False, xy_bind_ordinal = 0\<rparr>,
                 \<lparr>xy_name = bstr ''_map'', xy_is_weak_def = False, xy_is_tlv = False, xy_is_absolute = False, xy_addr = 0,
                   xy_in_dylib = False, xy_bind_ordinal = 0\<rparr>,
                 \<lparr>xy_name = bstr ''_puts'', xy_is_weak_def = False, xy_is_tlv = False, xy_is_absolute = False, xy_addr = 0,
                   xy_in_dylib = True, xy_bind_ordinal = 1\<rparr>],
      xc_indirect_aliases = [(2, 3)]\<rparr>"

lemma export_trie_correct_witness:
  "\<exists>trie. encode_export_trie sample_exports [0, 1, 2] = Some trie \<and>
     trie_walk 5 trie 0 (bstr ''_map'') = Some (Reexport 1 (bstr ''_puts''))"
proof -
  have i: "export_input sample_exports [0, 1, 2]" by code_simp
  have d: "\<not> xc_without_dyld sample_exports" by code_simp
  have "(\<Sum>(n, e)\<leftarrow>exports sample_exports [0, 1, 2]. 9 * length n + terminal_size e + 10) + 2 < 1000" by code_simp
  then have s: "(\<Sum>(n, e)\<leftarrow>exports sample_exports [0, 1, 2]. 9 * length n + terminal_size e + 10) + 2 < 2 ^ 32" by simp
  have l: "Suc (length (bstr ''_map'')) = 5" by code_simp
  have m: "map_of (exports sample_exports [0, 1, 2]) (bstr ''_map'') = Some (Reexport 1 (bstr ''_puts''))" by code_simp
  show ?thesis using export_trie_correct [OF d i s] l m by metis
qed

text \<open>
  C17. The placement's stack loop, whose definition allows it to run on for ever, ends on every tree, with
  the nodes in post-order: each one's subtrees right before it.
\<close>

theorem place_loop_ends:
  assumes "holds_tree N (trie_nodes t)" and "length (pl_offs pl) = length N" "length (pl_sizes pl) = length N"
  shows "\<exists>pl'. place_loop (map node_fixed N) (map node_kids N) [(unat (tn_index t), 0)] pl = Some pl' \<and>
    pl' = fold place_own (post t) pl \<and> pl_order pl' = pl_order pl @ map tn_index (post t)"
proof -
  have "place_loop (map node_fixed N) (map node_kids N) [] pl = Some pl" for pl by (subst place_loop.simps) simp
  then show ?thesis using place_loop_tree(1) [OF assms, of "[]"] by (simp add: fold_place_order)
qed

definition sample_tree :: trie_node where
  "sample_tree = TrieNode [([97], TrieNode [] (Some (Addr 0 16)) 1 1), ([98], TrieNode [] (Some (Addr 0 32)) 2 1)] None 0 3"

lemma place_loop_ends_witness:
  "\<exists>pl'. place_loop (map node_fixed (trie_nodes sample_tree)) (map node_kids (trie_nodes sample_tree)) [(0, 0)]
       \<lparr>pl_offs = [0, 0, 0], pl_sizes = [0, 0, 0], pl_order = [], pl_total = 0\<rparr> = Some pl' \<and> pl_order pl' = [1, 2, 0]"
proof -
  have "holds_tree (trie_nodes sample_tree) (trie_nodes sample_tree)"
    by (simp add: holds_tree_def sample_tree_def)
  then show ?thesis
    using place_loop_ends [of "trie_nodes sample_tree" sample_tree "\<lparr>pl_offs = [0, 0, 0], pl_sizes = [0, 0, 0], pl_order = [], pl_total = 0\<rparr>"]
    by (simp add: sample_tree_def)
qed

end
