(* ===== verification/SplitInfo.thy ===== *)
theory SplitInfo
  imports Chunks
begin

section \<open>The split info's encoding (\<open>chunks/split_info.rs\<close>)\<close>

text \<open>
  The V2 format: references grouped by their sections, then by target offset, then by kind, offsets as
  differences. The reader of the format (\<open>rd_split_info\<close>) gets back the references, one by one, in
  the order given. How the references are found in the image is not modelled.
\<close>

record split_entry =
  se_from_sect :: u8
  se_to_sect :: u8
  se_to_off :: u64
  se_kind :: u8
  se_from_off :: u64

text \<open>\<^verbatim>\<open>slice::chunk_by\<close> for the comparison of a key: the runs of equal keys.\<close>

function chunk_by :: "('a \<Rightarrow> 'k) \<Rightarrow> 'a list \<Rightarrow> 'a list list" where
  "chunk_by key [] = []"
| "chunk_by key (x # xs) =
     (x # takeWhile (\<lambda>y. key y = key x) xs) # chunk_by key (dropWhile (\<lambda>y. key y = key x) xs)"
  by pat_completeness auto
termination by (relation "measure (\<lambda>(key, xs). length xs)") (auto simp: length_dropWhile_le le_imp_less_Suc)

fun encode_froms :: "u64 \<Rightarrow> split_entry list \<Rightarrow> bytes" where
  "encode_froms last_from [] = []"
| "encode_froms last_from (e # es) = encode_uleb (se_from_off e - last_from) @ encode_froms (se_from_off e) es"

definition encode_kind :: "split_entry list \<Rightarrow> bytes" where
  "encode_kind kind = encode_uleb (ucast (se_kind (hd kind))) @ encode_uleb (of_nat (length kind)) @ encode_froms 0 kind"

fun encode_targets :: "u64 \<Rightarrow> split_entry list list \<Rightarrow> bytes" where
  "encode_targets last_to [] = []"
| "encode_targets last_to (target # targets) =
     (let kinds = chunk_by se_kind target
      in encode_uleb (se_to_off (hd target) - last_to) @ encode_uleb (of_nat (length kinds)) @
         concat (map encode_kind kinds) @ encode_targets (se_to_off (hd target)) targets)"

definition encode_sect :: "split_entry list \<Rightarrow> bytes" where
  "encode_sect sect =
     (let targets = chunk_by se_to_off sect
      in encode_uleb (ucast (se_from_sect (hd sect))) @ encode_uleb (ucast (se_to_sect (hd sect))) @
         encode_uleb (of_nat (length targets)) @ encode_targets 0 targets)"

definition split_encode :: "split_entry list \<Rightarrow> bytes" where
  "split_encode entries =
     (let sects = chunk_by (\<lambda>e. (se_from_sect e, se_to_sect e)) entries
      in pad_to ([DYLD_CACHE_ADJ_V2_FORMAT] @ encode_uleb (of_nat (length sects)) @ concat (map encode_sect sects) @ [0]) 8)"

subsection \<open>The reader\<close>

fun rd_froms :: "nat \<Rightarrow> (u64 \<Rightarrow> split_entry) \<Rightarrow> u64 \<Rightarrow> bytes \<Rightarrow> (split_entry list \<times> bytes) option" where
  "rd_froms 0 mk last_from bs = Some ([], bs)"
| "rd_froms (Suc n) mk last_from bs =
     do { (d, bs) \<leftarrow> read_uleb bs;
          (es, bs) \<leftarrow> rd_froms n mk (last_from + d) bs;
          Some (mk (last_from + d) # es, bs) }"

fun rd_kinds :: "nat \<Rightarrow> (u8 \<Rightarrow> u64 \<Rightarrow> split_entry) \<Rightarrow> bytes \<Rightarrow> (split_entry list \<times> bytes) option" where
  "rd_kinds 0 mk bs = Some ([], bs)"
| "rd_kinds (Suc n) mk bs =
     do { (kind, bs) \<leftarrow> read_uleb bs;
          (count, bs) \<leftarrow> read_uleb bs;
          (es, bs) \<leftarrow> rd_froms (unat count) (mk (ucast kind)) 0 bs;
          (more, bs) \<leftarrow> rd_kinds n mk bs;
          Some (es @ more, bs) }"

fun rd_targets :: "nat \<Rightarrow> (u64 \<Rightarrow> u8 \<Rightarrow> u64 \<Rightarrow> split_entry) \<Rightarrow> u64 \<Rightarrow> bytes \<Rightarrow> (split_entry list \<times> bytes) option" where
  "rd_targets 0 mk last_to bs = Some ([], bs)"
| "rd_targets (Suc n) mk last_to bs =
     do { (d, bs) \<leftarrow> read_uleb bs;
          (count, bs) \<leftarrow> read_uleb bs;
          (es, bs) \<leftarrow> rd_kinds (unat count) (mk (last_to + d)) bs;
          (more, bs) \<leftarrow> rd_targets n mk (last_to + d) bs;
          Some (es @ more, bs) }"

definition split_entry_of :: "u64 \<Rightarrow> u64 \<Rightarrow> u64 \<Rightarrow> u8 \<Rightarrow> u64 \<Rightarrow> split_entry" where
  "split_entry_of from to to_off kind from_off =
     \<lparr>se_from_sect = ucast from, se_to_sect = ucast to, se_to_off = to_off, se_kind = kind, se_from_off = from_off\<rparr>"

fun rd_sects :: "nat \<Rightarrow> bytes \<Rightarrow> (split_entry list \<times> bytes) option" where
  "rd_sects 0 bs = Some ([], bs)"
| "rd_sects (Suc n) bs =
     do { (from, bs) \<leftarrow> read_uleb bs;
          (to, bs) \<leftarrow> read_uleb bs;
          (count, bs) \<leftarrow> read_uleb bs;
          (es, bs) \<leftarrow> rd_targets (unat count) (split_entry_of from to) 0 bs;
          (more, bs) \<leftarrow> rd_sects n bs;
          Some (es @ more, bs) }"

definition rd_split_info :: "bytes \<Rightarrow> split_entry list option" where
  "rd_split_info bs =
     (case bs of
        [] \<Rightarrow> None
      | fmt # bs \<Rightarrow> if fmt \<noteq> DYLD_CACHE_ADJ_V2_FORMAT then None
                     else do { (count, bs) \<leftarrow> read_uleb bs; map_option fst (rd_sects (unat count) bs) })"

subsection \<open>Every run is read back\<close>

lemma chunk_by_concat: "concat (chunk_by key xs) = xs"
  by (induction key xs rule: chunk_by.induct) simp_all

lemma chunk_by_runs: "g \<in> set (chunk_by key xs) \<Longrightarrow> g \<noteq> [] \<and> (\<forall>e \<in> set g. key e = key (hd g))"
proof (induction key xs rule: chunk_by.induct)
  case (2 key x xs)
  show ?case
  proof (cases "g = x # takeWhile (\<lambda>y. key y = key x) xs")
    case True
    have "\<forall>y \<in> set (takeWhile (\<lambda>y. key y = key x) xs). key y = key x" by (blast dest: set_takeWhileD)
    then show ?thesis unfolding True by (metis list.distinct(1) list.sel(1) set_ConsD)
  next
    case False
    then have "g \<in> set (chunk_by key (dropWhile (\<lambda>y. key y = key x) xs))" using "2.prems" by simp
    then show ?thesis by (rule "2.IH")
  qed
qed simp

lemma chunk_by_length: "length (chunk_by key xs) \<le> length xs"
proof (induction key xs rule: chunk_by.induct)
  case (2 key x xs)
  then show ?case using length_dropWhile_le [of "\<lambda>y. key y = key x" xs] by simp
qed simp

lemma run_length: "g \<in> set gs \<Longrightarrow> length g \<le> length (concat gs)"
  by (induction gs) auto

lemma u8_back: "ucast (ucast (b :: u8) :: u64) = b"
  by (rule bit_word_eqI) (simp add: bit_ucast_iff)

lemma rd_froms_encode:
  "\<forall>e \<in> set es. mk (se_from_off e) = e \<Longrightarrow> rd_froms (length es) mk last_from (encode_froms last_from es @ rest) = Some (es, rest)"
  by (induction es arbitrary: last_from) (auto simp: read_encode_uleb)

text \<open>Runs as the reader makes them: every entry is what its run's header and its own offset make.\<close>

definition kind_run :: "(u8 \<Rightarrow> u64 \<Rightarrow> split_entry) \<Rightarrow> split_entry list \<Rightarrow> bool" where
  "kind_run mk g \<longleftrightarrow> length g < 2 ^ 64 \<and> (\<forall>e \<in> set g. mk (se_kind (hd g)) (se_from_off e) = e)"

definition target_run :: "(u64 \<Rightarrow> u8 \<Rightarrow> u64 \<Rightarrow> split_entry) \<Rightarrow> split_entry list \<Rightarrow> bool" where
  "target_run mk g \<longleftrightarrow> length g < 2 ^ 64 \<and> (\<forall>e \<in> set g. mk (se_to_off (hd g)) (se_kind e) (se_from_off e) = e)"

definition sect_run :: "split_entry list \<Rightarrow> bool" where
  "sect_run g \<longleftrightarrow> length g < 2 ^ 64 \<and>
     (\<forall>e \<in> set g. split_entry_of (ucast (se_from_sect (hd g))) (ucast (se_to_sect (hd g))) (se_to_off e) (se_kind e) (se_from_off e) = e)"

lemma chunk_run:
  assumes "c \<in> set (chunk_by key g)"
  shows "\<forall>e \<in> set c. e \<in> set g \<and> key e = key (hd c)" and "length c \<le> length g"
proof -
  have "set c \<subseteq> set g" using assms chunk_by_concat [of key g] by (metis UN_upper set_concat)
  then show "\<forall>e \<in> set c. e \<in> set g \<and> key e = key (hd c)" using chunk_by_runs [OF assms] by blast
  show "length c \<le> length g" using run_length [OF assms] by (simp add: chunk_by_concat)
qed

lemma rd_kinds_encode:
  assumes "\<forall>g \<in> set gs. kind_run mk g"
  shows "rd_kinds (length gs) mk (concat (map encode_kind gs) @ rest) = Some (concat gs, rest)"
  using assms
proof (induction gs)
  case (Cons g gs)
  have "rd_froms (length g) (mk (se_kind (hd g))) 0 (encode_froms 0 g @ more) = Some (g, more)" for more
    using Cons.prems by (intro rd_froms_encode) (simp add: kind_run_def)
  moreover have "length g < 2 ^ 64" using Cons.prems by (simp add: kind_run_def)
  ultimately show ?case using Cons by (simp add: encode_kind_def read_encode_uleb u8_back unat_of_nat_small)
qed simp

lemma rd_targets_encode:
  assumes "\<forall>g \<in> set gs. target_run mk g"
  shows "rd_targets (length gs) mk last_to (encode_targets last_to gs @ rest) = Some (concat gs, rest)"
  using assms
proof (induction gs arbitrary: last_to)
  case (Cons g gs)
  let ?ks = "chunk_by se_kind g"
  have g: "target_run mk g" using Cons.prems by simp
  have "\<forall>k \<in> set ?ks. kind_run (mk (se_to_off (hd g))) k"
    using g chunk_run by (fastforce simp: kind_run_def target_run_def)
  then have "rd_kinds (length ?ks) (mk (se_to_off (hd g))) (concat (map encode_kind ?ks) @ more) = Some (g, more)" for more
    using rd_kinds_encode [of ?ks] by (simp add: chunk_by_concat)
  moreover have "length ?ks < 2 ^ 64" using chunk_by_length [of se_kind g] g by (simp add: target_run_def)
  ultimately show ?case using Cons by (simp add: read_encode_uleb unat_of_nat_small Let_def)
qed simp

lemma rd_sects_encode:
  assumes "\<forall>g \<in> set gs. sect_run g"
  shows "rd_sects (length gs) (concat (map encode_sect gs) @ rest) = Some (concat gs, rest)"
  using assms
proof (induction gs)
  case (Cons g gs)
  let ?ts = "chunk_by se_to_off g"
  let ?mk = "split_entry_of (ucast (se_from_sect (hd g))) (ucast (se_to_sect (hd g)))"
  have g: "sect_run g" using Cons.prems by simp
  have "\<forall>t \<in> set ?ts. target_run ?mk t"
    using g chunk_run by (fastforce simp: sect_run_def target_run_def)
  then have "rd_targets (length ?ts) ?mk 0 (encode_targets 0 ?ts @ more) = Some (g, more)" for more
    using rd_targets_encode [of ?ts ?mk] by (simp add: chunk_by_concat)
  moreover have "length ?ts < 2 ^ 64" using chunk_by_length [of se_to_off g] g by (simp add: sect_run_def)
  ultimately show ?case using Cons by (simp add: encode_sect_def read_encode_uleb unat_of_nat_small Let_def)
qed simp

text \<open>
  C19. A reader of the split info gets back every reference, in the order they were given; the table is a
  whole number of 8-byte words.
\<close>

theorem split_info_round_trip:
  assumes "length entries < 2 ^ 64"
  shows "rd_split_info (split_encode entries) = Some entries \<and> 8 dvd length (split_encode entries)"
proof -
  let ?key = "\<lambda>e. (se_from_sect e, se_to_sect e)"
  let ?gs = "chunk_by ?key entries"
  have "sect_run g" if g: "g \<in> set ?gs" for g
    using chunk_run [OF g] assms by (auto simp: sect_run_def split_entry_of_def u8_back)
  then have "rd_sects (length ?gs) (concat (map encode_sect ?gs) @ rest) = Some (entries, rest)" for rest
    using rd_sects_encode [of ?gs] by (simp add: chunk_by_concat)
  moreover have "length ?gs < 2 ^ 64" using chunk_by_length [of ?key entries] assms by simp
  ultimately have r: "rd_split_info (DYLD_CACHE_ADJ_V2_FORMAT # encode_uleb (of_nat (length ?gs)) @ concat (map encode_sect ?gs) @ rest) = Some entries" for rest
    by (simp only: rd_split_info_def list.case simp_thms if_False read_encode_uleb) (simp add: unat_of_nat_small)
  have "8 dvd length (split_encode entries)"
    unfolding split_encode_def Let_def by (simp only: length_pad_to zero_less_numeral next_multiple_of_dvd)
  moreover have "rd_split_info (split_encode entries) = Some entries"
    by (simp only: split_encode_def Let_def pad_to_def append_assoc append_Cons append_Nil r)
  ultimately show ?thesis by blast
qed

definition sample_refs :: "split_entry list" where
  "sample_refs =
     [\<lparr>se_from_sect = 1, se_to_sect = 2, se_to_off = 8, se_kind = 3, se_from_off = 16\<rparr>,
      \<lparr>se_from_sect = 1, se_to_sect = 2, se_to_off = 8, se_kind = 3, se_from_off = 300\<rparr>,
      \<lparr>se_from_sect = 1, se_to_sect = 3, se_to_off = 0, se_kind = 1, se_from_off = 4\<rparr>]"

lemma split_info_round_trip_witness: "rd_split_info (split_encode sample_refs) = Some sample_refs"
  using split_info_round_trip [of sample_refs] by (simp add: sample_refs_def)

end
