(* ===== verification/UnwindInfo.thy ===== *)
theory UnwindInfo
  imports Chunks "HOL-Library.Product_Lexorder"
begin

unbundle bit_operations_syntax

section \<open>The compact unwind table (\<open>chunks/unwind_info.rs\<close>)\<close>

text \<open>
  From the records of the functions to the two-level table: the records' order, their personality
  indices, the merging of equal neighbours, the pages and the bytes. The reader is the unwinder's:
  it finds the page, then the entry, that covers an address. What the code reads of an input section
  is a record, looked up by the function \<open>uw_isec\<close>; \<open>None\<close> is a panic or the fatal error for too many
  personality routines.
\<close>

subsection \<open>Records\<close>

abbreviation (input) UNWIND_NONE :: u32 where "UNWIND_NONE \<equiv> 0xffffffff"

record unwind_record =
  ur_isec :: u32
  ur_input_offset :: u32
  ur_code_len :: u32
  ur_encoding :: u32
  ur_personality_sym :: u32
  ur_lsda_isec :: u32
  ur_lsda_off :: u32
  ur_fde_idx :: u32

definition ur_personality :: "unwind_record \<Rightarrow> u32 option" where
  "ur_personality r = (if ur_personality_sym r \<noteq> UNWIND_NONE then Some (ur_personality_sym r) else None)"

definition ur_lsda :: "unwind_record \<Rightarrow> (u32 \<times> u32) option" where
  "ur_lsda r = (if ur_lsda_isec r \<noteq> UNWIND_NONE then Some (ur_lsda_isec r, ur_lsda_off r) else None)"

definition ur_fde :: "unwind_record \<Rightarrow> u32 option" where
  "ur_fde r = (if ur_fde_idx r \<noteq> UNWIND_NONE then Some (ur_fde_idx r) else None)"

record uw_isec_info =
  ui_addr :: u64
  ui_size :: u32
  ui_is_emitted :: bool
  ui_subsections_via_symbols :: bool
  ui_unwind_offset :: nat
  ui_nunwind :: nat
  ui_output :: "chunk_header option"

text \<open>\<open>uw_got_addr\<close> is a symbol's GOT slot's address, \<open>uw_fde_offset\<close> an FDE's output offset.\<close>

record uw_ctx =
  uw_x86_64 :: bool
  uw_base :: u64
  uw_nisecs :: nat
  uw_isec :: "u32 \<Rightarrow> uw_isec_info"
  uw_records :: "unwind_record list"
  uw_fde_offset :: "u32 \<Rightarrow> u32"
  uw_got_addr :: "u32 \<Rightarrow> u64"

definition func_addr :: "uw_ctx \<Rightarrow> unwind_record \<Rightarrow> u64" where
  "func_addr ctx r = ui_addr (uw_isec ctx (ur_isec r)) + ucast (ur_input_offset r)"

definition bare_record :: "u32 \<Rightarrow> u32 \<Rightarrow> unwind_record" where
  "bare_record isec off =
     \<lparr>ur_isec = isec, ur_input_offset = off, ur_code_len = 0, ur_encoding = 0, ur_personality_sym = UNWIND_NONE,
      ur_lsda_isec = UNWIND_NONE, ur_lsda_off = 0, ur_fde_idx = UNWIND_NONE\<rparr>"

definition is_code_subsec :: "uw_isec_info \<Rightarrow> bool" where
  "is_code_subsec isec \<longleftrightarrow>
     ui_is_emitted isec \<and>
     (case ui_output isec of None \<Rightarrow> False | Some hdr \<Rightarrow> ch_flags hdr AND S_ATTR_PURE_INSTRUCTIONS \<noteq> 0)"

text \<open>
  The records of a subsection are a range of the link's; one that ran past the end would be a panic of
  the source and is cut short here.
\<close>

definition bare_offsets :: "uw_ctx \<Rightarrow> uw_isec_info \<Rightarrow> u32 list" where
  "bare_offsets ctx isec =
     (let recs = take (ui_nunwind isec) (drop (ui_unwind_offset isec) (uw_records ctx));
          unsplit = (if ui_subsections_via_symbols isec then [] else recs);
          ends = filter (\<lambda>off. off < ui_size isec) (map (\<lambda>r. ur_input_offset r + ur_code_len r) unsplit)
      in filter (\<lambda>off. \<not> list_ex (\<lambda>r. ur_input_offset r = off) recs) (0 # ends))"

definition bare_code_records :: "uw_ctx \<Rightarrow> unwind_record list" where
  "bare_code_records ctx =
     concat (map (\<lambda>i. map (bare_record (of_nat i)) (bare_offsets ctx (uw_isec ctx (of_nat i))))
       (filter (\<lambda>i. is_code_subsec (uw_isec ctx (of_nat i))) [0..<uw_nisecs ctx]))"

definition MAX_FDE_OFFSET :: u32 where
  "MAX_FDE_OFFSET = 0xffffff"

definition mode_dwarf :: "uw_ctx \<Rightarrow> u32" where
  "mode_dwarf ctx = (if uw_x86_64 ctx then UNWIND_X86_64_MODE_DWARF else UNWIND_ARM64_MODE_DWARF)"

definition dwarf_record :: "uw_ctx \<Rightarrow> unwind_record \<Rightarrow> unwind_record" where
  "dwarf_record ctx r =
     (case ur_fde r of
        None \<Rightarrow> r
      | Some fde \<Rightarrow>
          let off = uw_fde_offset ctx fde
          in r\<lparr>ur_encoding := mode_dwarf ctx OR (if off \<le> MAX_FDE_OFFSET then off else 0)\<rparr>)"

definition table_records :: "uw_ctx \<Rightarrow> unwind_record list" where
  "table_records ctx =
     (let records = filter (\<lambda>r. ui_is_emitted (uw_isec ctx (ur_isec r))) (uw_records ctx) @ bare_code_records ctx;
          records = map (dwarf_record ctx) records
      in sort_key (\<lambda>r. (func_addr ctx r, ur_encoding r)) records)"

subsection \<open>Personalities and merging\<close>

text \<open>The index of a routine in the array, which grows at its first use.\<close>

definition personality_index :: "u32 \<Rightarrow> u32 list \<Rightarrow> nat \<times> u32 list" where
  "personality_index p ps = (case position (\<lambda>s. s = p) ps of Some idx \<Rightarrow> (idx, ps) | None \<Rightarrow> (length ps, ps @ [p]))"

fun assign_personalities :: "u32 list \<Rightarrow> unwind_record list \<Rightarrow> (unwind_record list \<times> u32 list) option" where
  "assign_personalities ps [] = Some ([], ps)"
| "assign_personalities ps (r # rs) =
     (case ur_personality r of
        None \<Rightarrow> map_option (\<lambda>(rs, ps). (r # rs, ps)) (assign_personalities ps rs)
      | Some p \<Rightarrow>
          let (idx, ps) = personality_index p ps
          in if idx \<ge> 3 then None
             else map_option (\<lambda>(rs, ps). (r\<lparr>ur_encoding := ur_encoding r OR push_bit 28 (of_nat (idx + 1))\<rparr> # rs, ps))
                    (assign_personalities ps rs))"

definition stack_ind :: "uw_ctx \<Rightarrow> u32 \<Rightarrow> bool" where
  "stack_ind ctx enc \<longleftrightarrow> uw_x86_64 ctx \<and> enc AND UNWIND_MODE_MASK = UNWIND_X86_64_MODE_STACK_IND"

text \<open>\<^verbatim>\<open>Vec::dedup_by\<close>: drops an element when the test holds of it and the last one kept.\<close>

fun dedup_after :: "('a \<Rightarrow> 'a \<Rightarrow> bool) \<Rightarrow> 'a \<Rightarrow> 'a list \<Rightarrow> 'a list" where
  "dedup_after same prev [] = []"
| "dedup_after same prev (x # xs) = (if same x prev then dedup_after same prev xs else x # dedup_after same x xs)"

definition mergeable :: "uw_ctx \<Rightarrow> unwind_record \<Rightarrow> unwind_record \<Rightarrow> bool" where
  "mergeable ctx r prev \<longleftrightarrow>
     \<not> stack_ind ctx (ur_encoding r) \<and> ur_encoding prev = ur_encoding r \<and> ur_personality prev = ur_personality r \<and>
     ur_lsda prev = None \<and> ur_lsda r = None"

definition merge_records :: "uw_ctx \<Rightarrow> unwind_record list \<Rightarrow> unwind_record list" where
  "merge_records ctx rs = (case rs of [] \<Rightarrow> [] | r # rs \<Rightarrow> r # dedup_after (mergeable ctx) r rs)"

subsection \<open>Pages\<close>

abbreviation (input) uw_page_size :: nat where "uw_page_size \<equiv> 4096"
abbreviation (input) uw_page_hdr :: nat where "uw_page_hdr \<equiv> 12"

text \<open>
  How many of the records go into the page that starts at \<open>first\<close>, \<open>n\<close> being in it already, and the
  page's encodings.
\<close>

fun page_take :: "uw_ctx \<Rightarrow> u64 \<Rightarrow> nat \<Rightarrow> u32 list \<Rightarrow> unwind_record list \<Rightarrow> nat \<times> u32 list" where
  "page_take ctx first_addr n encs [] = (n, encs)"
| "page_take ctx first_addr n encs (r # rs) =
     (let enc = ur_encoding r; new_enc = (if enc \<in> set encs then 0 else 1)
      in if length encs + new_enc > 256 \<or> uw_page_hdr + (n + 1 + length encs + new_enc) * 4 > uw_page_size
            \<or> func_addr ctx r - first_addr \<ge> push_bit 24 1
         then (n, encs)
         else page_take ctx first_addr (n + 1) (if new_enc = 1 then encs @ [enc] else encs) rs)"

lemma page_take_ge: "n \<le> fst (page_take ctx a n encs rs)"
  by (induction ctx a n encs rs rule: page_take.induct) (auto simp: Let_def intro: Suc_leD)

lemma page_take_progress: "0 < fst (page_take ctx (func_addr ctx r) 0 [] (r # rs))"
  using page_take_ge [of 1 ctx "func_addr ctx r" "[ur_encoding r]" rs] by (simp add: Let_def)

text \<open>A page holds its run of the records (in the source, the range of their indices).\<close>

function split_pages :: "uw_ctx \<Rightarrow> unwind_record list \<Rightarrow> (unwind_record list \<times> u32 list) list" where
  "split_pages ctx [] = []"
| "split_pages ctx (r # rs) =
     (let (n, encs) = page_take ctx (func_addr ctx r) 0 [] (r # rs)
      in (take n (r # rs), encs) # split_pages ctx (drop n (r # rs)))"
  by pat_completeness auto
termination
proof (relation "measure (\<lambda>(ctx, rs). length rs)", goal_cases)
  case (2 ctx r rs x n encs)
  then have "0 < n" using page_take_progress [of ctx r rs] by (metis fst_conv)
  then show ?case by simp
qed simp

declare split_pages.simps [simp del]

subsection \<open>The table's bytes\<close>

record encoded_page =
  ep_page2 :: bytes
  ep_lsda :: bytes
  ep_first :: u32

definition image_off :: "uw_ctx \<Rightarrow> u64 \<Rightarrow> u32" where
  "image_off ctx addr = ucast (addr - uw_base ctx)"

definition lsda_row :: "uw_ctx \<Rightarrow> unwind_record \<Rightarrow> bytes" where
  "lsda_row ctx r =
     (case ur_lsda r of
        None \<Rightarrow> []
      | Some (isec, off) \<Rightarrow>
          le_bytes 4 (image_off ctx (func_addr ctx r)) @
          le_bytes 4 (image_off ctx (ui_addr (uw_isec ctx isec) + ucast off)))"

definition encode_page :: "uw_ctx \<Rightarrow> unwind_record list \<times> u32 list \<Rightarrow> encoded_page option" where
  "encode_page ctx page =
     (let (span, encs) = page; lsda = concat (map (lsda_row ctx) span) in
      case span of
        [] \<Rightarrow> None
      | r # _ \<Rightarrow>
          let page_base = func_addr ctx r in
          do { entries \<leftarrow> those (map (\<lambda>r. map_option
                 (\<lambda>idx. le_bytes 4 (ucast (func_addr ctx r - page_base) OR push_bit 24 (of_nat idx) :: u32))
                 (position (\<lambda>e. e = ur_encoding r) encs)) span);
               Some \<lparr>ep_page2 =
                       le_bytes 4 (UNWIND_SECOND_LEVEL_COMPRESSED :: u32) @ le_bytes 2 (of_nat uw_page_hdr :: u16) @
                       le_bytes 2 (of_nat (length span) :: u16) @ le_bytes 2 (of_nat (uw_page_hdr + length span * 4) :: u16) @
                       le_bytes 2 (of_nat (length encs) :: u16) @ concat entries @ concat (map (le_bytes 4) encs),
                     ep_lsda = lsda, ep_first = image_off ctx page_base\<rparr> })"

text \<open>The rows of the first-level index, with the offsets of the pages and LSDA rows so far.\<close>

fun index_rows :: "nat \<Rightarrow> nat \<Rightarrow> encoded_page list \<Rightarrow> bytes" where
  "index_rows page2 lsda [] = []"
| "index_rows page2 lsda (p # ps) =
     le_bytes 4 (ep_first p) @ le_bytes 4 (of_nat page2 :: u32) @ le_bytes 4 (of_nat lsda :: u32) @
     index_rows (page2 + length (ep_page2 p)) (lsda + length (ep_lsda p)) ps"

definition write_table ::
    "uw_ctx \<Rightarrow> unwind_record list \<Rightarrow> u32 list \<Rightarrow> (unwind_record list \<times> u32 list) list \<Rightarrow> u64 \<Rightarrow> bytes option" where
  "write_table ctx records personalities pages fin =
     (let num_lsda = length (filter (\<lambda>r. ur_lsda r \<noteq> None) records);
          personality_off = 28;
          page1_off = personality_off + length personalities * 4;
          lsda_off = page1_off + (length pages + 1) * 12;
          page2_off = lsda_off + num_lsda * 8
      in do { outs \<leftarrow> those (map (encode_page ctx) pages);
              let lsda = concat (map ep_lsda outs);
                  page1 = index_rows page2_off lsda_off outs @
                          le_bytes 4 (image_off ctx (fin + 1)) @ le_bytes 4 (0 :: u32) @ le_bytes 4 (of_nat (lsda_off + length lsda) :: u32)
              in Some (le_bytes 4 (UNWIND_SECTION_VERSION :: u32) @ le_bytes 4 (of_nat personality_off :: u32) @ le_bytes 4 (0 :: u32) @
                       le_bytes 4 (of_nat personality_off :: u32) @ le_bytes 4 (of_nat (length personalities) :: u32) @
                       le_bytes 4 (of_nat page1_off :: u32) @ le_bytes 4 (of_nat (length pages) + 1 :: u32) @
                       concat (map (\<lambda>_. le_bytes 4 (0 :: u32)) personalities) @ page1 @ lsda @ concat (map ep_page2 outs)) })"

definition encode_unwind_info :: "uw_ctx \<Rightarrow> (bytes \<times> u32 list) option" where
  "encode_unwind_info ctx =
     (let records = table_records ctx in
      if records = [] then Some ([], [])
      else
        do { (records, personalities) \<leftarrow> assign_personalities [] records;
             let isec = uw_isec ctx (ur_isec (List.last records));
                 fin = ui_addr isec + ucast (ui_size isec);
                 records = merge_records ctx records;
                 pages = split_pages ctx records
             in map_option (\<lambda>t. (t, personalities)) (write_table ctx records personalities pages fin) })"

text \<open>\<^verbatim>\<open>copy_buf\<close>: the table with the personality cells filled in, into the section's buffer.\<close>

fun patch_personalities :: "uw_ctx \<Rightarrow> nat \<Rightarrow> u32 list \<Rightarrow> bytes \<Rightarrow> bytes option" where
  "patch_personalities ctx off [] buf = Some buf"
| "patch_personalities ctx off (sy # syms) buf =
     do { buf \<leftarrow> copy_at buf off (le_bytes 4 (image_off ctx (uw_got_addr ctx sy)));
          patch_personalities ctx (off + 4) syms buf }"

definition unwind_copy_buf :: "uw_ctx \<Rightarrow> bytes \<Rightarrow> u32 list \<Rightarrow> bytes \<Rightarrow> bytes option" where
  "unwind_copy_buf ctx contents personalities buf =
     do { buf \<leftarrow> copy_at buf 0 contents;
          off \<leftarrow> slice_at contents 12 4;
          patch_personalities ctx (unat (from_le off :: u32)) personalities buf }"

subsection \<open>The unwinder's lookup\<close>

definition rd16 :: "bytes \<Rightarrow> nat \<Rightarrow> nat option" where
  "rd16 buf off = map_option (\<lambda>b. unat (from_le b :: u16)) (slice_at buf off 2)"

definition rd32 :: "bytes \<Rightarrow> nat \<Rightarrow> nat option" where
  "rd32 buf off = map_option (\<lambda>b. unat (from_le b :: u32)) (slice_at buf off 4)"

text \<open>The row (or entry) that covers a target: it starts at or before it, and the next one after it.\<close>

fun find_row :: "nat \<Rightarrow> nat \<Rightarrow> bytes \<Rightarrow> nat \<Rightarrow> (nat \<times> nat) option" where
  "find_row target 0 buf off = None"
| "find_row target (Suc n) buf off =
     do { a \<leftarrow> rd32 buf off;
          b \<leftarrow> rd32 buf (off + 12);
          if a \<le> target \<and> target < b then do { page \<leftarrow> rd32 buf (off + 4); Some (a, page) }
          else find_row target n buf (off + 12) }"

text \<open>The index of the page's last entry whose function is at or before the target, and its word.\<close>

fun find_entry :: "nat \<Rightarrow> nat \<Rightarrow> bytes \<Rightarrow> nat \<Rightarrow> (nat \<times> nat) option" where
  "find_entry target 0 buf off = None"
| "find_entry target (Suc n) buf off =
     (case find_entry target n buf (off + 4) of
        Some x \<Rightarrow> Some x
      | None \<Rightarrow> do { w \<leftarrow> rd32 buf off;
                     let func = w mod 2 ^ 24
                     in if func \<le> target then Some (func, w div 2 ^ 24) else None })"

text \<open>The function that covers an image offset, and its encoding.\<close>

definition unwind_find :: "bytes \<Rightarrow> nat \<Rightarrow> (nat \<times> u32) option" where
  "unwind_find buf target =
     do { common_off \<leftarrow> rd32 buf 4;
          common_count \<leftarrow> rd32 buf 8;
          index_off \<leftarrow> rd32 buf 20;
          index_count \<leftarrow> rd32 buf 24;
          (func, page) \<leftarrow> find_row target (index_count - 1) buf index_off;
          kind \<leftarrow> rd32 buf page;
          entries_off \<leftarrow> rd16 buf (page + 4);
          count \<leftarrow> rd16 buf (page + 6);
          encs_off \<leftarrow> rd16 buf (page + 8);
          if kind \<noteq> 3 then None
          else do { (start, idx) \<leftarrow> find_entry (target - func) count buf (page + entries_off);
                    enc \<leftarrow> (if idx < common_count then rd32 buf (common_off + 4 * idx)
                            else rd32 buf (page + encs_off + 4 * (idx - common_count)));
                    Some (func + start, of_nat enc) } }"

subsection \<open>The pages\<close>

definition page_ok :: "uw_ctx \<Rightarrow> unwind_record list \<times> u32 list \<Rightarrow> bool" where
  "page_ok ctx p \<longleftrightarrow> fst p \<noteq> [] \<and> length (snd p) \<le> 256 \<and> 12 + (length (fst p) + length (snd p)) * 4 \<le> 4096 \<and>
     (\<forall>r \<in> set (fst p). ur_encoding r \<in> set (snd p) \<and> func_addr ctx r - func_addr ctx (hd (fst p)) < 2 ^ 24)"

lemma page_take_ok:
  "page_take ctx a n encs rs = (m, encs') \<Longrightarrow> length encs \<le> 256 \<Longrightarrow> 12 + (n + length encs) * 4 \<le> 4096 \<Longrightarrow>
     n \<le> m \<and> m \<le> n + length rs \<and> set encs \<subseteq> set encs' \<and> length encs' \<le> 256 \<and> 12 + (m + length encs') * 4 \<le> 4096 \<and>
     (\<forall>r \<in> set (take (m - n) rs). ur_encoding r \<in> set encs' \<and> func_addr ctx r - a < 2 ^ 24)"
proof (induction ctx a n encs rs rule: page_take.induct)
  case (2 ctx a n encs r rs)
  let ?new = "if ur_encoding r \<in> set encs then 0 else 1 :: nat"
  let ?encs = "if ?new = 1 then encs @ [ur_encoding r] else encs"
  show ?case
  proof (cases "length encs + ?new > 256 \<or> 12 + (n + 1 + length encs + ?new) * 4 > 4096 \<or> func_addr ctx r - a \<ge> push_bit 24 1")
    case True
    then show ?thesis using "2.prems" by (auto simp: Let_def split: if_splits)
  next
    case False
    then have t: "page_take ctx a (n + 1) ?encs rs = (m, encs')" using "2.prems"(1) by (simp add: Let_def split: if_splits)
    have l: "length ?encs \<le> 256" "12 + (n + 1 + length ?encs) * 4 \<le> 4096" "ur_encoding r \<in> set ?encs" "set encs \<subseteq> set ?encs"
      using False by (auto split: if_splits)
    have IH: "n + 1 \<le> m \<and> m \<le> n + 1 + length rs \<and> set ?encs \<subseteq> set encs' \<and> length encs' \<le> 256 \<and> 12 + (m + length encs') * 4 \<le> 4096 \<and>
       (\<forall>r \<in> set (take (m - (n + 1)) rs). ur_encoding r \<in> set encs' \<and> func_addr ctx r - a < 2 ^ 24)"
      by (rule "2.IH" [OF refl refl False t l(1,2)])
    have "take (m - n) (r # rs) = r # take (m - (n + 1)) rs" 
    using IH by (metis Suc_diff_Suc Suc_eq_plus1 less_eq_Suc_le take_Suc_Cons)
    moreover have "func_addr ctx r - a < 2 ^ 24" using False by (simp add: not_le)
    ultimately show ?thesis using IH l by auto
  qed
qed simp

lemma split_pages_ok:
  "concat (map fst (split_pages ctx rs)) = rs \<and> (\<forall>p \<in> set (split_pages ctx rs). page_ok ctx p)"
proof (induction ctx rs rule: split_pages.induct)
  case (2 ctx r rs)
  obtain n encs where t: "page_take ctx (func_addr ctx r) 0 [] (r # rs) = (n, encs)" by fastforce
  have n: "0 < n" using page_take_progress [of ctx r rs] t by simp
  have "page_ok ctx (take n (r # rs), encs)"
    using page_take_ok [OF t] n by (cases n) (auto simp: page_ok_def)
  then show ?case using "2.IH" t by (simp add: split_pages.simps(2) [of ctx r rs] del: take_Suc_Cons page_take.simps)
qed (simp add: split_pages.simps)

definition entry_word :: "uw_ctx \<Rightarrow> u64 \<Rightarrow> u32 list \<Rightarrow> unwind_record \<Rightarrow> u32" where
  "entry_word ctx page_base encs r =
     ucast (func_addr ctx r - page_base) OR push_bit 24 (of_nat (the (position (\<lambda>e. e = ur_encoding r) encs)))"

definition page_bytes :: "uw_ctx \<Rightarrow> unwind_record list \<times> u32 list \<Rightarrow> bytes" where
  "page_bytes ctx p =
     le_bytes 4 (UNWIND_SECOND_LEVEL_COMPRESSED :: u32) @ le_bytes 2 (12 :: u16) @ le_bytes 2 (of_nat (length (fst p)) :: u16) @
     le_bytes 2 (of_nat (12 + length (fst p) * 4) :: u16) @ le_bytes 2 (of_nat (length (snd p)) :: u16) @
     concat (map (le_bytes 4 \<circ> entry_word ctx (func_addr ctx (hd (fst p))) (snd p)) (fst p)) @ concat (map (le_bytes 4) (snd p))"

lemma position_mem: "e \<in> set es \<Longrightarrow> \<exists>i. position (\<lambda>x. x = e) es = Some i \<and> i < length es \<and> es ! i = e"
proof -
  assume "e \<in> set es"
  then have "length (takeWhile (\<lambda>x. x \<noteq> e) es) < length es" 
    by (metis (mono_tags, lifting) le_neq_implies_less length_takeWhile_le order_refl takeWhile_eq_all_conv takeWhile_eq_take take_all)
  moreover from this have "es ! length (takeWhile (\<lambda>x. x \<noteq> e) es) = e" using nth_length_takeWhile [of "\<lambda>x. x \<noteq> e" es] by simp
  ultimately show ?thesis by (auto simp: position_def Let_def)
qed

lemma encode_page_eq:
  assumes "page_ok ctx p"
  shows "encode_page ctx p = Some \<lparr>ep_page2 = page_bytes ctx p, ep_lsda = concat (map (lsda_row ctx) (fst p)),
    ep_first = image_off ctx (func_addr ctx (hd (fst p)))\<rparr>"
proof -
  obtain span encs where p: "p = (span, encs)" by (cases p)
  obtain r rs where s: "span = r # rs" using assms p by (cases span) (auto simp: page_ok_def)
  have "those (map (\<lambda>r'. map_option (\<lambda>idx. le_bytes 4 (ucast (func_addr ctx r' - func_addr ctx r) OR push_bit 24 (of_nat idx) :: u32))
          (position (\<lambda>e. e = ur_encoding r') encs)) span) =
      Some (map (le_bytes 4 \<circ> entry_word ctx (func_addr ctx r) encs) span)"
    using assms position_mem by (intro those_map_total) (fastforce simp: p page_ok_def entry_word_def)
  then show ?thesis by (simp add: encode_page_def p s page_bytes_def Let_def del: list.map(2))
qed

subsection \<open>Reading the table back\<close>

lemma rd32_at: "off = length pre \<Longrightarrow> rd32 (pre @ le_bytes 4 (w :: u32) @ post) off = Some (unat w)"
  by (simp add: rd32_def)

lemma rd16_at: "off = length pre \<Longrightarrow> rd16 (pre @ le_bytes 2 (w :: u16) @ post) off = Some (unat w)"
  by (simp add: rd16_def)

lemma rd32_drop: "a \<le> length buf \<Longrightarrow> rd32 buf (a + k) = rd32 (drop a buf) k"
  by (auto simp: rd32_def slice_at_def add.commute)

lemma rd16_drop: "a \<le> length buf \<Longrightarrow> rd16 buf (a + k) = rd16 (drop a buf) k"
  by (auto simp: rd16_def slice_at_def add.commute)

text \<open>The \<open>i\<close>-th of a list of 4-byte words.\<close>

lemma rd32_words:
  assumes "i < length ws"
  shows "rd32 (pre @ concat (map (le_bytes 4) ws) @ post) (length pre + 4 * i) = Some (unat (ws ! i :: u32))"
proof -
  have "concat (map (le_bytes 4) ws) = concat (map (le_bytes 4) (take i ws)) @ le_bytes 4 (ws ! i) @ concat (map (le_bytes 4) (drop (Suc i) ws))"
    using assms by (metis (no_types, lifting) concat.simps(2) concat_append id_take_nth_drop list.simps(9) map_append)
  moreover have "length (concat (map (le_bytes 4) (take i ws))) = 4 * i"
    using assms by (simp add: length_concat comp_def sum_list_triv)
  ultimately show ?thesis
    using rd32_at [of "length pre + 4 * i" "pre @ concat (map (le_bytes 4) (take i ws))" "ws ! i"] by simp
qed

text \<open>The search in a page returns the last entry at or before the target.\<close>

lemma find_entry_words:
  "find_entry t (length ws) (pre @ concat (map (le_bytes 4) ws) @ post) (length pre) =
     (case filter (\<lambda>w. unat (w :: u32) mod 2 ^ 24 \<le> t) ws of
        [] \<Rightarrow> None | x # xs \<Rightarrow> (let w = unat (List.last (x # xs)) in Some (w mod 2 ^ 24, w div 2 ^ 24)))"
proof (induction ws arbitrary: pre)
  case (Cons w ws)
  have r: "rd32 (pre @ le_bytes 4 w @ rest) (length pre) = Some (unat w)" for rest by (rule rd32_at) simp
  have "find_entry t (length ws) ((pre @ le_bytes 4 w) @ concat (map (le_bytes 4) ws) @ post) (length (pre @ le_bytes 4 w)) =
     (case filter (\<lambda>w. unat w mod 2 ^ 24 \<le> t) ws of
        [] \<Rightarrow> None | x # xs \<Rightarrow> (let w = unat (List.last (x # xs)) in Some (w mod 2 ^ 24, w div 2 ^ 24)))"
    by (rule Cons.IH)
  then show ?case using r by (auto simp: Let_def split: list.splits)
qed simp

lemma or_high:
  assumes "unat (d :: u32) < 2 ^ 24" and "i < 256"
  shows "unat (d OR push_bit 24 (of_nat i)) = unat d + i * 2 ^ 24"
proof -
  have "\<not> bit d n" if "24 \<le> n" for n
    using bit_less_exp [of d 24 n] assms(1) that by (auto simp: word_less_nat_alt)
  then have "d AND push_bit 24 (of_nat i) = 0" by (auto intro!: bit_word_eqI simp: bit_simps)
  then have "d OR push_bit 24 (of_nat i) = d + push_bit 24 (of_nat i)" by (rule disjunctive_add_eq_or [symmetric])
  moreover have "unat (push_bit 24 (of_nat i :: u32)) = i * 2 ^ 24"
  proof -
    have "i * 2 ^ 24 < 2 ^ LENGTH(32)" using assms(2) by simp
    then have "unat (of_nat (i * 2 ^ 24) :: u32) = i * 2 ^ 24" by (rule unat_of_nat_small)
    moreover have "push_bit 24 (of_nat i :: u32) = of_nat (i * 2 ^ 24)" by (simp add: push_bit_eq_mult)
    ultimately show ?thesis by metis
  qed
  moreover have "unat d + i * 2 ^ 24 < 2 ^ 32" using assms by simp
  ultimately show ?thesis using unat_plus_small [of d "push_bit 24 (of_nat i)"] by simp
qed

lemma entry_word_parts:
  assumes "func_addr ctx r - b < 2 ^ 24" and "length encs \<le> 256" and "ur_encoding r \<in> set encs"
  shows "unat (entry_word ctx b encs r) mod 2 ^ 24 = unat (func_addr ctx r - b)"
    and "unat (entry_word ctx b encs r) div 2 ^ 24 < length encs"
    and "encs ! (unat (entry_word ctx b encs r) div 2 ^ 24) = ur_encoding r"
proof -
  obtain i where i: "position (\<lambda>e. e = ur_encoding r) encs = Some i" "i < length encs" "encs ! i = ur_encoding r"
    using position_mem [OF assms(3)] by auto
  let ?d = "func_addr ctx r - b"
  have d: "unat ?d < 2 ^ 24" using assms(1) by (simp add: word_less_nat_alt)
  have c: "unat (ucast ?d :: u32) = unat ?d"
    using d by (simp add: unsigned_ucast_eq take_bit_nat_eq_self)
  have w: "unat (entry_word ctx b encs r) = unat ?d + i * 2 ^ 24"
    using or_high [of "ucast ?d" i] d i assms(2) c by (simp add: entry_word_def)
  show "unat (entry_word ctx b encs r) mod 2 ^ 24 = unat ?d" using d by (simp add: w)
  have "unat (entry_word ctx b encs r) div 2 ^ 24 = i" using d by (simp add: w)
  then show "unat (entry_word ctx b encs r) div 2 ^ 24 < length encs" "encs ! (unat (entry_word ctx b encs r) div 2 ^ 24) = ur_encoding r"
    using i by simp_all
qed

text \<open>A page in the table.\<close>

definition uw_off :: "uw_ctx \<Rightarrow> unwind_record \<Rightarrow> nat" where
  "uw_off ctx r = unat (func_addr ctx r - uw_base ctx)"

lemma page_count: "page_ok ctx p \<Longrightarrow> length (fst p) \<le> 1021"
  by (auto simp: page_ok_def)

lemma read_page:
  assumes ok: "page_ok ctx p" and b: "buf = pre @ page_bytes ctx p @ post" and pg: "pg = length pre"
  defines "n \<equiv> length (fst p)" and "ew \<equiv> entry_word ctx (func_addr ctx (hd (fst p))) (snd p)"
  shows "rd32 buf pg = Some 3" and "rd16 buf (pg + 4) = Some 12" and "rd16 buf (pg + 6) = Some n" and "rd16 buf (pg + 8) = Some (12 + 4 * n)"
    and "find_entry t n buf (pg + 12) =
      (case filter (\<lambda>r. unat (func_addr ctx r - func_addr ctx (hd (fst p))) \<le> t) (fst p) of
         [] \<Rightarrow> None
       | x # xs \<Rightarrow> (let r = List.last (x # xs)
                   in Some (unat (func_addr ctx r - func_addr ctx (hd (fst p))), unat (ew r) div 2 ^ 24)))"
    and "r \<in> set (fst p) \<Longrightarrow> rd32 buf (pg + (12 + 4 * n) + 4 * (unat (ew r) div 2 ^ 24)) = Some (unat (ur_encoding r))"
proof -
  define hdr where "hdr = le_bytes 4 (UNWIND_SECOND_LEVEL_COMPRESSED :: u32) @ le_bytes 2 (12 :: u16) @ le_bytes 2 (of_nat n :: u16) @
     le_bytes 2 (of_nat (12 + n * 4) :: u16) @ le_bytes 2 (of_nat (length (snd p)) :: u16)"
  let ?es = "concat (map (le_bytes 4) (map ew (fst p)))" and ?encs = "concat (map (le_bytes 4) (snd p))"
  have pb: "page_bytes ctx p = hdr @ ?es @ ?encs" by (simp add: page_bytes_def hdr_def n_def ew_def)
  have lh: "length hdr = 12" by (simp add: hdr_def)
  have n: "n \<le> 1021" using page_count [OF ok] by (simp add: n_def)
  have u: "unat (of_nat n :: u16) = n" "unat (of_nat (12 + n * 4) :: u16) = 12 + 4 * n"
    using n unat_of_nat_small [of n, where 'a = 16] unat_of_nat_small [of "12 + n * 4", where 'a = 16] by simp_all
  show "rd32 buf pg = Some 3" by (simp add: b pb hdr_def pg rd32_at)
  show "rd16 buf (pg + 4) = Some 12"
    using rd16_at [of "pg + 4" "pre @ le_bytes 4 (UNWIND_SECOND_LEVEL_COMPRESSED :: u32)" 12] by (simp add: b pb hdr_def pg)
  show "rd16 buf (pg + 6) = Some n"
    using rd16_at [of "pg + 6" "pre @ le_bytes 4 (UNWIND_SECOND_LEVEL_COMPRESSED :: u32) @ le_bytes 2 (12 :: u16)" "of_nat n"] u
    by (simp add: b pb hdr_def pg)
  show "rd16 buf (pg + 8) = Some (12 + 4 * n)"
    using rd16_at [of "pg + 8" "pre @ le_bytes 4 (UNWIND_SECOND_LEVEL_COMPRESSED :: u32) @ le_bytes 2 (12 :: u16) @ le_bytes 2 (of_nat n :: u16)"
        "of_nat (12 + n * 4)"] u
    by (simp add: b pb hdr_def pg)
  have parts: "unat (ew r) mod 2 ^ 24 = unat (func_addr ctx r - func_addr ctx (hd (fst p)))" "unat (ew r) div 2 ^ 24 < length (snd p)"
      "snd p ! (unat (ew r) div 2 ^ 24) = ur_encoding r" if "r \<in> set (fst p)" for r
    using entry_word_parts [of ctx r "func_addr ctx (hd (fst p))" "snd p"] ok that by (auto simp: page_ok_def ew_def)
  have "find_entry t (length (map ew (fst p))) ((pre @ hdr) @ concat (map (le_bytes 4) (map ew (fst p))) @ (?encs @ post)) (length (pre @ hdr)) =
     (case filter (\<lambda>w. unat w mod 2 ^ 24 \<le> t) (map ew (fst p)) of
        [] \<Rightarrow> None | x # xs \<Rightarrow> (let w = unat (List.last (x # xs)) in Some (w mod 2 ^ 24, w div 2 ^ 24)))"
    by (rule find_entry_words)
  moreover have "filter (\<lambda>w. unat w mod 2 ^ 24 \<le> t) (map ew (fst p)) =
      map ew (filter (\<lambda>r. unat (func_addr ctx r - func_addr ctx (hd (fst p))) \<le> t) (fst p))" (is "_ = map ew ?xs")
    using parts(1) by (simp add: filter_map comp_def cong: filter_cong)
  ultimately have fe: "find_entry t n buf (pg + 12) =
     (case map ew ?xs of [] \<Rightarrow> None | x # xs \<Rightarrow> (let w = unat (List.last (x # xs)) in Some (w mod 2 ^ 24, w div 2 ^ 24)))"
    by (simp add: b pb pg lh n_def)
  have sub: "set ?xs \<subseteq> set (fst p)" by auto
  show "find_entry t n buf (pg + 12) =
      (case ?xs of
         [] \<Rightarrow> None
       | x # xs \<Rightarrow> (let r = List.last (x # xs)
                   in Some (unat (func_addr ctx r - func_addr ctx (hd (fst p))), unat (ew r) div 2 ^ 24)))"
  proof (cases ?xs)
    case (Cons x xs)
    have "List.last (x # xs) \<in> set (fst p)" using sub Cons last_in_set [of "x # xs"] by (metis list.distinct(1) subsetD)
    moreover have "List.last (map ew (x # xs)) = ew (List.last (x # xs))" by (rule last_map) simp
    ultimately show ?thesis unfolding fe Cons using parts(1) by (simp only: list.case list.map Let_def)
  qed (simp add: fe)
  assume r: "r \<in> set (fst p)"
  have "length (pre @ hdr @ ?es) = pg + (12 + 4 * n)" using lh by (simp add: pg n_def length_concat comp_def sum_list_triv)
  then show "rd32 buf (pg + (12 + 4 * n) + 4 * (unat (ew r) div 2 ^ 24)) = Some (unat (ur_encoding r))"
    using rd32_words [OF parts(2) [OF r], of "pre @ hdr @ ?es" post] parts(3) [OF r] by (simp add: b pb)
qed

text \<open>The first-level index.\<close>

fun index_words :: "nat \<Rightarrow> nat \<Rightarrow> encoded_page list \<Rightarrow> u32 list" where
  "index_words page2 lsda [] = []"
| "index_words page2 lsda (p # ps) =
     ep_first p # of_nat page2 # of_nat lsda # index_words (page2 + length (ep_page2 p)) (lsda + length (ep_lsda p)) ps"

lemma index_rows_words: "index_rows page2 lsda ps = concat (map (le_bytes 4) (index_words page2 lsda ps))"
  by (induction page2 lsda ps rule: index_words.induct) auto

lemma length_index_words [simp]: "length (index_words page2 lsda ps) = 3 * length ps"
  by (induction page2 lsda ps rule: index_words.induct) auto

lemma index_words_nth:
  "i < length ps \<Longrightarrow> index_words page2 lsda ps ! (3 * i) = ep_first (ps ! i) \<and>
     index_words page2 lsda ps ! (3 * i + 1) = of_nat (page2 + length (concat (map ep_page2 (take i ps))))"
proof (induction page2 lsda ps arbitrary: i rule: index_words.induct)
  case (2 page2 lsda p ps)
  then show ?case by (cases i) (auto simp: nth_Cons' add.assoc)
qed simp

lemma find_row_at:
  assumes "\<And>j. j \<le> n \<Longrightarrow> rd32 buf (off + 12 * j) = Some (a j)" and "\<And>j. j < n \<Longrightarrow> rd32 buf (off + 12 * j + 4) = Some (pg j)"
    and "i < n" and "a i \<le> t" and "t < a (Suc i)" and "\<And>j. j < i \<Longrightarrow> a (Suc j) \<le> t"
  shows "find_row t n buf off = Some (a i, pg i)"
  using assms
proof (induction n arbitrary: off a pg i)
  case (Suc n)
  have r: "rd32 buf off = Some (a 0)" "rd32 buf (off + 12) = Some (a 1)" "rd32 buf (off + 4) = Some (pg 0)"
    using Suc.prems(1) [of 0] Suc.prems(1) [of 1] Suc.prems(2) [of 0] by simp_all
  show ?case
  proof (cases i)
    case 0
    then show ?thesis using r Suc.prems by simp
  next
    case (Suc k)
    have "find_row t n buf (off + 12) = Some (a (Suc k), pg (Suc k))"
      using Suc.prems(1) [of "Suc _"] Suc.prems(2) [of "Suc _"] Suc.prems(3-6) Suc
      by (intro Suc.IH [where a = "\<lambda>j. a (Suc j)" and pg = "\<lambda>j. pg (Suc j)"]) (auto simp: algebra_simps)
    moreover have "a 1 \<le> t" using Suc.prems(6) [of 0] Suc by simp
    ultimately show ?thesis using r Suc by simp
  qed
qed simp

definition table_index :: "uw_ctx \<Rightarrow> u32 list \<Rightarrow> (unwind_record list \<times> u32 list) list \<Rightarrow> u64 \<Rightarrow> nat \<Rightarrow> encoded_page list \<Rightarrow> u32 list" where
  "table_index ctx personalities pages fin num_lsda outs =
     (let lsda_off = 28 + length personalities * 4 + (length pages + 1) * 12
      in index_words (lsda_off + num_lsda * 8) lsda_off outs @
         [image_off ctx (fin + 1), 0, of_nat (lsda_off + length (concat (map ep_lsda outs)))])"

definition page_out :: "uw_ctx \<Rightarrow> unwind_record list \<times> u32 list \<Rightarrow> encoded_page" where
  "page_out ctx p = \<lparr>ep_page2 = page_bytes ctx p, ep_lsda = concat (map (lsda_row ctx) (fst p)),
    ep_first = image_off ctx (func_addr ctx (hd (fst p)))\<rparr>"

definition table_head :: "u32 list \<Rightarrow> nat \<Rightarrow> bytes" where
  "table_head personalities npages =
     le_bytes 4 (UNWIND_SECTION_VERSION :: u32) @ le_bytes 4 (28 :: u32) @ le_bytes 4 (0 :: u32) @
     le_bytes 4 (28 :: u32) @ le_bytes 4 (of_nat (length personalities) :: u32) @
     le_bytes 4 (of_nat (28 + length personalities * 4) :: u32) @ le_bytes 4 (of_nat npages + 1 :: u32) @
     concat (map (\<lambda>_. le_bytes 4 (0 :: u32)) personalities)"

lemma length_table_head: "length (table_head personalities n) = 28 + length personalities * 4"
  by (simp add: table_head_def length_concat comp_def sum_list_triv)

lemma write_table_eq:
  fixes records :: "unwind_record list"
  assumes "\<forall>p \<in> set pages. page_ok ctx p"
  defines "outs \<equiv> map (page_out ctx) pages"
  defines "num \<equiv> length (filter (\<lambda>r. ur_lsda r \<noteq> None) records)"
  shows "write_table ctx records personalities pages fin =
    Some (table_head personalities (length pages) @
      concat (map (le_bytes 4) (table_index ctx personalities pages fin num outs)) @
      concat (map ep_lsda outs) @ concat (map (page_bytes ctx) pages))"
proof -
  have "those (map (encode_page ctx) pages) = Some outs"
    unfolding outs_def using assms(1) by (intro those_map_total) (simp add: encode_page_eq page_out_def)
  moreover have "map ep_page2 outs = map (page_bytes ctx) pages" by (simp add: outs_def page_out_def)
  ultimately show ?thesis
    by (simp add: write_table_def Let_def table_head_def table_index_def index_rows_words num_def)
qed

lemma concat_concat_map: "concat (map (\<lambda>x. concat (g x)) xs) = concat (concat (map g xs))"
  by (induction xs) auto

lemma lsda_length: "length (concat (map (lsda_row ctx) rs)) = 8 * length (filter (\<lambda>r. ur_lsda r \<noteq> None) rs)"
  by (induction rs) (auto simp: lsda_row_def split: option.splits)

text \<open>Each page sits where its row of the index says.\<close>

lemma table_page:
  assumes ok: "\<forall>p \<in> set pages. page_ok ctx p" and cat: "concat (map fst pages) = records"
    and w: "write_table ctx records personalities pages fin = Some table" and small: "length table < 2 ^ 32"
    and i: "i < length pages"
  defines "off \<equiv> 28 + length personalities * 4"
  shows "rd32 table (off + 12 * i) = Some (unat (image_off ctx (func_addr ctx (hd (fst (pages ! i))))))"
    and "\<exists>pre post. table = pre @ page_bytes ctx (pages ! i) @ post \<and> rd32 table (off + 12 * i + 4) = Some (length pre) \<and> off \<le> length pre"
    and "rd32 table (off + 12 * length pages) = Some (unat (image_off ctx (fin + 1)))"
    and "rd32 table 4 = Some 28" and "rd32 table 8 = Some 0" and "rd32 table 20 = Some off" and "rd32 table 24 = Some (length pages + 1)"
proof -
  define outs where "outs = map (page_out ctx) pages"
  define num where "num = length (filter (\<lambda>r. ur_lsda r \<noteq> None) records)"
  let ?head = "table_head personalities (length pages)" and ?ws = "table_index ctx personalities pages fin num outs"
  let ?lsda = "concat (map ep_lsda outs)" and ?pgs = "concat (map (page_bytes ctx) pages)"
  have t: "table = ?head @ concat (map (le_bytes 4) ?ws) @ ?lsda @ ?pgs"
    using w write_table_eq [OF ok, of records personalities fin] by (simp add: outs_def num_def)
  have lh: "length ?head = off" by (simp add: length_table_head off_def)
  have lw: "length ?ws = 3 * (length pages + 1)" by (simp add: table_index_def Let_def outs_def)
  have rd: "rd32 table (off + 4 * k) = Some (unat (?ws ! k))" if "k < 3 * (length pages + 1)" for k
    using rd32_words [of k ?ws ?head] that by (simp add: t lw lh)
  have io: "i < length outs" using i by (simp add: outs_def)
  have n: "?ws ! (3 * i) = ep_first (outs ! i)" "?ws ! (3 * i + 1) = of_nat (off + (length pages + 1) * 12 + num * 8 + length (concat (map ep_page2 (take i outs))))"
    using index_words_nth [OF io] io by (simp_all add: table_index_def Let_def nth_append off_def outs_def add.assoc)
  show "rd32 table (off + 12 * i) = Some (unat (image_off ctx (func_addr ctx (hd (fst (pages ! i))))))"
    using rd [of "3 * i"] i n by (simp add: outs_def page_out_def)
  show "rd32 table (off + 12 * length pages) = Some (unat (image_off ctx (fin + 1)))"
    using rd [of "3 * length pages"] by (simp add: table_index_def Let_def nth_append outs_def)
  have ll: "length ?lsda = 8 * num"
  proof -
    have "?lsda = concat (map (lsda_row ctx) records)"
      unfolding cat [symmetric] by (simp add: outs_def page_out_def comp_def map_concat concat_concat_map)
    then show ?thesis by (simp add: lsda_length num_def)
  qed
  let ?pre = "?head @ concat (map (le_bytes 4) ?ws) @ ?lsda @ concat (map (page_bytes ctx) (take i pages))"
  have "map (page_bytes ctx) pages = map (page_bytes ctx) (take i pages) @ page_bytes ctx (pages ! i) # map (page_bytes ctx) (drop (Suc i) pages)"
    using i by (metis id_take_nth_drop list.simps(9) map_append)
  then have tp: "table = ?pre @ page_bytes ctx (pages ! i) @ concat (map (page_bytes ctx) (drop (Suc i) pages))"
    by (simp add: t)
  have take: "map ep_page2 (take i outs) = map (page_bytes ctx) (take i pages)" by (simp add: outs_def page_out_def take_map)
  have lp: "length ?pre = off + (length pages + 1) * 12 + num * 8 + length (concat (map ep_page2 (take i outs)))"
    using ll by (simp add: lh lw take length_concat comp_def sum_list_triv)
  have "length ?pre \<le> length table" by (subst tp) simp
  then have "unat (of_nat (length ?pre) :: u32) = length ?pre" using small by (intro unat_of_nat_small) simp
  then have "rd32 table (off + 12 * i + 4) = Some (length ?pre)"
    using rd [of "3 * i + 1"] i n(2) by (simp only: lp) (simp add: algebra_simps)
  moreover have "off \<le> length ?pre" by (simp only: lp)
  ultimately show "\<exists>pre post. table = pre @ page_bytes ctx (pages ! i) @ post \<and> rd32 table (off + 12 * i + 4) = Some (length pre) \<and> off \<le> length pre"
    using tp by blast
  have "off + 12 * (length pages + 1) \<le> length table" by (subst t) (simp add: lh lw length_concat comp_def sum_list_triv)
  then have s: "unat (of_nat off :: u32) = off" "unat (of_nat (length pages + 1) :: u32) = length pages + 1"
    using small by (simp_all add: unat_of_nat_small del: of_nat_add of_nat_Suc)
  let ?hd = "[UNWIND_SECTION_VERSION, 28, 0, 28, of_nat (length personalities), of_nat off, of_nat (length pages) + 1] :: u32 list"
  have hw: "?head = concat (map (le_bytes 4) ?hd) @ concat (map (\<lambda>_. le_bytes 4 (0 :: u32)) personalities)"
    by (simp add: table_head_def off_def)
  have hr: "rd32 (?head @ post) (4 * k) = Some (unat (?hd ! k))" if "k < 7" for k post
    unfolding hw append_assoc using rd32_words [of k ?hd "[]"] that by simp
  have h: "rd32 (?head @ post) 4 = Some 28" "rd32 (?head @ post) 8 = Some 0" "rd32 (?head @ post) 20 = Some (unat (of_nat off :: u32))"
    "rd32 (?head @ post) 24 = Some (unat (of_nat (length pages + 1) :: u32))" for post
    using hr [of 1 post] hr [of 2 post] hr [of 5 post] hr [of 6 post]
    by (simp_all add: add.commute [of 1 "of_nat (length pages)"])
  then show "rd32 table 4 = Some 28" "rd32 table 8 = Some 0" "rd32 table 20 = Some off" "rd32 table 24 = Some (length pages + 1)"
    using s by (simp_all add: t)
qed


text \<open>The search in a whole table: the last record at or before the target.\<close>

lemma uw_off_diff:
  assumes "uw_off ctx a \<le> uw_off ctx b"
  shows "unat (func_addr ctx b - func_addr ctx a) = uw_off ctx b - uw_off ctx a"
proof -
  have "func_addr ctx b - func_addr ctx a = (func_addr ctx b - uw_base ctx) - (func_addr ctx a - uw_base ctx)" by simp
  moreover have "func_addr ctx a - uw_base ctx \<le> func_addr ctx b - uw_base ctx"
    using assms by (simp add: uw_off_def word_le_nat_alt)
  ultimately show ?thesis unfolding uw_off_def by (simp only: unat_sub)
qed

lemma image_off_small: "uw_off ctx r < 2 ^ 32 \<Longrightarrow> unat (image_off ctx (func_addr ctx r)) = uw_off ctx r"
  by (simp add: image_off_def uw_off_def unsigned_ucast_eq take_bit_nat_eq_self)

lemma last_index:
  assumes "\<exists>i < n. P i"
  shows "\<exists>i < n. P i \<and> (\<forall>j < n. i < j \<longrightarrow> \<not> P (j :: nat))"
proof -
  let ?i = "Max {i. i < n \<and> P i}"
  have f: "finite {i. i < n \<and> P i}" by simp
  have "?i \<in> {i. i < n \<and> P i}" using assms by (intro Max_in) auto
  moreover have "j \<le> ?i" if "j < n" "P j" for j using f that by (intro Max_ge) auto
  ultimately show ?thesis by (metis (no_types, lifting) mem_Collect_eq not_le)
qed

lemma find_in_page:
  assumes ok: "page_ok ctx p" and b: "buf = pre @ page_bytes ctx p @ post"
    and sorted: "\<forall>r \<in> set (fst p). uw_off ctx (hd (fst p)) \<le> uw_off ctx r" and t: "uw_off ctx (hd (fst p)) \<le> t"
    and head: "rd32 buf 4 = Some c" "rd32 buf 8 = Some 0" "rd32 buf 20 = Some off" "rd32 buf 24 = Some (n + 1)"
    and row: "find_row t n buf off = Some (uw_off ctx (hd (fst p)), length pre)"
  defines "r \<equiv> List.last (filter (\<lambda>r. uw_off ctx r \<le> t) (fst p))"
  shows "unwind_find buf t = Some (uw_off ctx r, ur_encoding r)"
proof -
  let ?h = "hd (fst p)"
  have ne: "fst p \<noteq> []" using ok by (simp add: page_ok_def)
  have "?h \<in> set (filter (\<lambda>r. uw_off ctx r \<le> t) (fst p))" using ne t by simp
  then have f: "filter (\<lambda>r. uw_off ctx r \<le> t) (fst p) \<noteq> []" by (metis list.set_cases list.distinct(1))
  have r: "r \<in> set (fst p)" using last_in_set [OF f] by (auto simp: r_def)
  have d: "unat (func_addr ctx r - func_addr ctx ?h) = uw_off ctx r - uw_off ctx ?h" if "r \<in> set (fst p)" for r
    using uw_off_diff sorted that by blast
  have "filter (\<lambda>r. unat (func_addr ctx r - func_addr ctx ?h) \<le> t - uw_off ctx ?h) (fst p) = filter (\<lambda>r. uw_off ctx r \<le> t) (fst p)"
    using sorted d t by (intro filter_cong refl) auto
  moreover obtain x xs where x: "filter (\<lambda>r. uw_off ctx r \<le> t) (fst p) = x # xs" using f by (meson list.exhaust)
  moreover have "r = List.last (x # xs)" unfolding r_def x by (rule refl)
  ultimately have fe: "find_entry (t - uw_off ctx ?h) (length (fst p)) buf (length pre + 12) =
      Some (uw_off ctx r - uw_off ctx ?h, unat (entry_word ctx (func_addr ctx ?h) (snd p) r) div 2 ^ 24)"
    using read_page(5) [OF ok b refl, of "t - uw_off ctx ?h"] d [OF r] by (simp only: list.case Let_def)
  show ?thesis
    using head row read_page(1-4) [OF ok b refl] fe read_page(6) [OF ok b refl r] sorted r
    by (simp add: unwind_find_def Let_def)
qed

text \<open>The table in a buffer, with other bytes in the cells of the personality routines.\<close>

definition with_cells :: "bytes \<Rightarrow> bytes \<Rightarrow> bytes \<Rightarrow> bytes" where
  "with_cells table cells extra = take 28 table @ cells @ drop (28 + length cells) table @ extra"

lemma rd32_with_cells:
  assumes r: "rd32 table k = Some v" and k: "k + 4 \<le> 28 \<or> 28 + length cells \<le> k"
  shows "rd32 (with_cells table cells extra) k = Some v"
proof -
  have l: "k + 4 \<le> length table" and v: "v = unat (from_le (take 4 (drop k table)) :: u32)"
    using r by (auto simp: rd32_def slice_at_def split: if_splits)
  have "slice_at (with_cells table cells extra) k 4 = Some (take 4 (drop k table))"
  proof (cases "k + 4 \<le> 28")
    case True
    then show ?thesis using l by (auto simp: with_cells_def slice_at_def min_def drop_take)
  next
    case False
    then have k': "28 + length cells \<le> k" using k by blast
    then obtain m where m: "k = 28 + length cells + m" using le_Suc_ex by blast
    then show ?thesis using l by (simp add: with_cells_def slice_at_def min_def add.commute)
  qed
  then show ?thesis by (simp add: rd32_def v)
qed

lemma table_finds:
  assumes w: "write_table ctx ms personalities (split_pages ctx ms) fin = Some table" and small: "length table < 2 ^ 32"
    and sorted: "sorted (map (uw_off ctx) ms)" and offs: "\<forall>r \<in> set ms. uw_off ctx r < 2 ^ 32"
    and first: "\<exists>r \<in> set ms. uw_off ctx r \<le> t" and fin: "t < unat (image_off ctx (fin + 1))"
    and cells: "length cells = 4 * length personalities"
  defines "r \<equiv> List.last (filter (\<lambda>r. uw_off ctx r \<le> t) ms)"
  shows "unwind_find (with_cells table cells extra) t = Some (uw_off ctx r, ur_encoding r)"
proof -
  define pages where "pages = split_pages ctx ms"
  have cat: "concat (map fst pages) = ms" and ok: "\<forall>p \<in> set pages. page_ok ctx p" using split_pages_ok by (auto simp: pages_def)
  have srt: "sorted (map (uw_off ctx) (concat (map fst pages)))" using sorted cat by simp
  define hds where "hds j = hd (fst (pages ! j))" for j
  have mem: "fst (pages ! j) \<noteq> []" "hds j \<in> set (fst (pages ! j))" if "j < length pages" for j
    using ok that by (auto simp: page_ok_def hds_def)
  have cats: "concat (map fst pages) = concat (map fst (take j pages)) @ concat (map fst (drop j pages))" for j
    by (metis append_take_drop_id concat_append map_append)
  have split: "ms = concat (map fst (take j pages)) @ fst (pages ! j) @ concat (map fst (drop (Suc j) pages))" if "j < length pages" for j
    using cats [of j] that by (simp add: cat Cons_nth_drop_Suc [symmetric])
  have in_ms: "x \<in> set ms" if "j < length pages" "x \<in> set (fst (pages ! j))" for j x using split [OF that(1)] that(2) by (metis Un_iff set_append)
  have later: "uw_off ctx (hds j) \<le> uw_off ctx x" if "j < length pages" "x \<in> set (fst (pages ! j)) \<union> set (concat (map fst (drop (Suc j) pages)))" for j x
  proof -
    have "fst (pages ! j) = hds j # tl (fst (pages ! j))" using mem [OF that(1)] by (simp add: hds_def)
    then have "ms = concat (map fst (take j pages)) @ hds j # tl (fst (pages ! j)) @ concat (map fst (drop (Suc j) pages))"
      using split [OF that(1)] by (metis append_Cons)
    moreover have "x = hds j \<or> x \<in> set (tl (fst (pages ! j)) @ concat (map fst (drop (Suc j) pages)))"
      using that(2) \<open>fst (pages ! j) = _\<close> by (metis Un_iff set_append set_ConsD)
    ultimately show ?thesis using sorted by (auto simp: sorted_append)
  qed
  have mono: "uw_off ctx (hds j) \<le> uw_off ctx (hds k)" if "j < k" "k < length pages" for j k
  proof -
    have "pages ! k = drop (Suc j) pages ! (k - Suc j)" using that by simp
    then have "pages ! k \<in> set (drop (Suc j) pages)" using that nth_mem [of "k - Suc j" "drop (Suc j) pages"] by simp
    then have "hds k \<in> set (concat (map fst (drop (Suc j) pages)))" using mem [OF that(2)] by auto
    then show ?thesis using later [of j] that by simp
  qed
  obtain x where x: "x \<in> set ms" "uw_off ctx x \<le> t" using first by blast
  then have "x \<in> set (concat (map fst pages))" by (simp add: cat)
  then obtain p where "p \<in> set pages" "x \<in> set (fst p)" by auto
  then obtain k where k: "k < length pages" "x \<in> set (fst (pages ! k))" by (metis in_set_conv_nth)
  have "uw_off ctx (hds k) \<le> t" using later [of k x] k x by simp
  then obtain i where i: "i < length pages" "uw_off ctx (hds i) \<le> t" and max: "\<And>j. j < length pages \<Longrightarrow> i < j \<Longrightarrow> t < uw_off ctx (hds j)"
    using last_index [of "length pages" "\<lambda>i. uw_off ctx (hds i) \<le> t"] k by (meson not_le)
  define off where "off = 28 + length personalities * 4"
  define a where "a j = (if j < length pages then uw_off ctx (hds j) else unat (image_off ctx (fin + 1)))" for j
  note tp = table_page [OF ok cat, unfolded pages_def [symmetric], OF w [unfolded pages_def [symmetric]] small, folded off_def]
  let ?out = "with_cells table cells extra"
  have out: "rd32 ?out k = Some v" if "rd32 table k = Some v" "k + 4 \<le> 28 \<or> off \<le> k" for k v
    using rd32_with_cells [OF that(1), of cells extra] that(2) cells by (auto simp: off_def)
  have "rd32 table (off + 12 * j) = Some (a j)" if "j \<le> length pages" for j
  proof (cases "j < length pages")
    case True
    have "uw_off ctx (hds j) < 2 ^ 32" using offs in_ms mem True by blast
    then show ?thesis using tp(1) [OF True] True image_off_small by (simp add: a_def hds_def)
  next
    case False
    then show ?thesis using tp(3) [OF i(1)] that by (simp add: a_def)
  qed
  then have "rd32 ?out (off + 12 * j) = Some (a j)" if "j \<le> length pages" for j using that out by simp
  moreover define pg where "pg j = the (rd32 table (off + 12 * j + 4))" for j
  have pg: "\<exists>pre post. table = pre @ page_bytes ctx (pages ! j) @ post \<and> pg j = length pre \<and> rd32 table (off + 12 * j + 4) = Some (pg j) \<and> off \<le> length pre"
    if "j < length pages" for j
    using tp(2) [OF that] by (auto simp: pg_def)
  moreover have "rd32 ?out (off + 12 * j + 4) = Some (pg j)" if "j < length pages" for j
    by (rule out) (use pg [OF that] in auto)
  moreover have "a (Suc j) \<le> t" if "j < i" for j
    using mono [of "Suc j" i] i that by (cases "Suc j = i") (auto simp: a_def)
  moreover have "t < a (Suc i)" using max [of "Suc i"] fin by (auto simp: a_def)
  ultimately have row: "find_row t (length pages) ?out off = Some (a i, pg i)"
    using i by (intro find_row_at) (auto simp: a_def)
  obtain pre0 post where t0: "table = pre0 @ page_bytes ctx (pages ! i) @ post" "pg i = length pre0" "off \<le> length pre0" using pg [OF i(1)] by blast
  define pre where "pre = take 28 pre0 @ cells @ drop off pre0"
  have t: "?out = pre @ page_bytes ctx (pages ! i) @ post @ extra" "pg i = length pre"
    using t0 cells by (simp_all add: with_cells_def pre_def off_def mult.commute)
  have "set (concat (map fst (drop (Suc i) pages))) \<subseteq> {x. t < uw_off ctx x}"
  proof (cases "Suc i < length pages")
    case True
    have "t < uw_off ctx y" if y: "y \<in> set (concat (map fst (drop (Suc i) pages)))" for y
    proof -
      have "y \<in> set (fst (pages ! Suc i)) \<union> set (concat (map fst (drop (Suc (Suc i)) pages)))"
        using y True by (simp add: Cons_nth_drop_Suc [symmetric])
      then show ?thesis using later [OF True] max [OF True] by (meson lessI less_le_trans)
    qed
    then show ?thesis by blast
  qed simp
  then have "filter (\<lambda>r. uw_off ctx r \<le> t) (concat (map fst (drop (Suc i) pages))) = []" by (auto simp: filter_empty_conv)
  moreover have "hds i \<in> set (filter (\<lambda>r. uw_off ctx r \<le> t) (fst (pages ! i)))" using mem i by simp
  then have "filter (\<lambda>r. uw_off ctx r \<le> t) (fst (pages ! i)) \<noteq> []" by (metis list.set_cases list.distinct(1))
  ultimately have r: "r = List.last (filter (\<lambda>r. uw_off ctx r \<le> t) (fst (pages ! i)))"
    unfolding r_def by (subst split [OF i(1)]) (simp add: last_append)
  show ?thesis
    unfolding r
  proof (rule find_in_page [OF _ t(1)])
    show "page_ok ctx (pages ! i)" using ok i by simp
    show "\<forall>r \<in> set (fst (pages ! i)). uw_off ctx (hd (fst (pages ! i))) \<le> uw_off ctx r" using later [OF i(1)] by (simp add: hds_def)
    show "uw_off ctx (hd (fst (pages ! i))) \<le> t" using i by (simp add: hds_def)
    show "rd32 ?out 4 = Some 28" "rd32 ?out 8 = Some 0" "rd32 ?out 20 = Some off" "rd32 ?out 24 = Some (length pages + 1)"
      using tp(4-7) [OF i(1)] out by simp_all
    show "find_row t (length pages) ?out off = Some (uw_off ctx (hd (fst (pages ! i))), length pre)"
      using row i t by (simp add: a_def hds_def)
  qed
qed

subsection \<open>Merging and personalities\<close>

text \<open>What a merged record may stand for: itself, or one of the same unwinding with no data of its own.\<close>

definition stands_for :: "uw_ctx \<Rightarrow> unwind_record \<Rightarrow> unwind_record \<Rightarrow> bool" where
  "stands_for ctx q r \<longleftrightarrow>
     q = r \<or> \<not> stack_ind ctx (ur_encoding r) \<and> ur_encoding q = ur_encoding r \<and> ur_personality q = ur_personality r \<and>
              ur_lsda q = None \<and> ur_lsda r = None"

lemma stands_for_trans: "stands_for ctx p q \<Longrightarrow> stands_for ctx q r \<Longrightarrow> stands_for ctx p r"
  by (auto simp: stands_for_def)

lemma stands_for_refl [simp]: "stands_for ctx r r"
  by (simp add: stands_for_def)

lemma mergeable_stands: "mergeable ctx r prev \<Longrightarrow> stands_for ctx prev r"
  by (auto simp: mergeable_def stands_for_def)

lemma set_dedup_after: "set (dedup_after same prev rs) \<subseteq> set rs"
  by (induction same prev rs rule: dedup_after.induct) auto

lemma sorted_dedup_after:
  "sorted (map f (prev # rs)) \<Longrightarrow> sorted (map f (prev # dedup_after same prev rs))"
proof (induction same prev rs rule: dedup_after.induct)
  case (2 same prev x xs)
  then show ?case using set_dedup_after [of same x xs] by (cases "same x prev") auto
qed simp

lemma dedup_after_last:
  assumes "sorted (map f (prev # rs))" and "stands_for ctx q prev"
  shows "stands_for ctx (List.last (q # filter (\<lambda>r. f r \<le> t) (dedup_after (mergeable ctx) prev rs)))
    (List.last (prev # filter (\<lambda>r. f r \<le> t) rs))"
  using assms
proof (induction rs arbitrary: prev q)
  case (Cons x xs)
  show ?case
  proof (cases "mergeable ctx x prev")
    case True
    have s: "stands_for ctx q x" using stands_for_trans [OF Cons.prems(2) mergeable_stands [OF True]] .
    have d: "dedup_after (mergeable ctx) x xs = dedup_after (mergeable ctx) prev xs"
      if "mergeable ctx x prev" for xs
    proof (induction xs)
      case (Cons y ys)
      have "mergeable ctx y x = mergeable ctx y prev" using that by (auto simp: mergeable_def)
      then show ?case using Cons by simp
    qed simp
    have o: "sorted (map f (prev # xs))" "sorted (map f (x # xs))" using Cons.prems(1) by simp_all
    show ?thesis
    proof (cases "f x \<le> t")
      case le: True
      then show ?thesis using Cons.IH [OF o(2) s] True d [OF True, of xs] by simp
    next
      case False
      then show ?thesis using Cons.IH [OF o(1) Cons.prems(2)] True by simp
    qed
  next
    case False
    show ?thesis
    proof (cases "f x \<le> t")
      case True
      then show ?thesis using False Cons.IH [of x x] Cons.prems(1) by simp
    next
      case F: False
      then have n: "filter (\<lambda>r. f r \<le> t) xs = []" using Cons.prems(1) by (auto simp: filter_empty_conv)
      have "filter (\<lambda>r. f r \<le> t) (dedup_after (mergeable ctx) x xs) = []"
        using n set_dedup_after [of "mergeable ctx" x xs] by (auto simp: filter_empty_conv)
      then show ?thesis using False F n Cons.prems(2) by simp
    qed
  qed
qed simp

lemma merge_records_last:
  assumes s: "sorted (map f rs)" and ex: "\<exists>r \<in> set rs. f r \<le> t"
  shows "stands_for ctx (List.last (filter (\<lambda>r. f r \<le> t) (merge_records ctx rs))) (List.last (filter (\<lambda>r. f r \<le> t) rs))"
    and "sorted (map f (merge_records ctx rs))" and "set (merge_records ctx rs) \<subseteq> set rs"
    and "\<exists>r \<in> set (merge_records ctx rs). f r \<le> t"
proof -
  obtain x xs where rs: "rs = x # xs" using ex by (cases rs) auto
  have x: "f x \<le> t" using s ex rs by auto
  show "stands_for ctx (List.last (filter (\<lambda>r. f r \<le> t) (merge_records ctx rs))) (List.last (filter (\<lambda>r. f r \<le> t) rs))"
    using dedup_after_last [of f x xs ctx x t] s x by (simp add: rs merge_records_def)
  show "sorted (map f (merge_records ctx rs))" using sorted_dedup_after [of f x xs] s by (simp add: rs merge_records_def)
  show "set (merge_records ctx rs) \<subseteq> set rs" using set_dedup_after [of _ x xs] by (auto simp: rs merge_records_def)
  show "\<exists>r \<in> set (merge_records ctx rs). f r \<le> t" using x by (simp add: rs merge_records_def)
qed

lemma personality_index_nth:
  "personality_index p ps = (i, ps') \<Longrightarrow> i < length ps' \<and> ps' ! i = p \<and> (\<exists>ext. ps' = ps @ ext)"
  using nth_length_takeWhile [of "\<lambda>x. x \<noteq> p" ps]
  by (auto simp: personality_index_def position_def Let_def split: option.splits if_splits)

text \<open>The records keep their places; each one with a personality gets the index of its routine.\<close>

definition assigned :: "u32 list \<Rightarrow> unwind_record \<Rightarrow> unwind_record \<Rightarrow> bool" where
  "assigned ps r q \<longleftrightarrow>
     (case ur_personality r of
        None \<Rightarrow> q = r
      | Some p \<Rightarrow> \<exists>i < 3. i < length ps \<and> ps ! i = p \<and> q = r\<lparr>ur_encoding := ur_encoding r OR push_bit 28 (of_nat (i + 1))\<rparr>)"

lemma assigned_mono: "assigned ps r q \<Longrightarrow> assigned (ps @ ext) r q"
  by (fastforce simp: assigned_def nth_append split: option.splits)

lemma assign_ok:
  "assign_personalities ps rs = Some (qs, ps') \<Longrightarrow> list_all2 (assigned ps') rs qs \<and> (\<exists>ext. ps' = ps @ ext)"
proof (induction ps rs arbitrary: qs rule: assign_personalities.induct)
  case (2 ps r rs)
  show ?case
  proof (cases "ur_personality r")
    case None
    then show ?thesis using "2.prems" "2.IH"(1) by (auto simp: assigned_def)
  next
    case (Some p)
    obtain i ps1 where pi: "personality_index p ps = (i, ps1)" by fastforce
    have i: "i < 3" using "2.prems" Some pi by (auto split: if_splits)
    obtain qs' where q: "assign_personalities ps1 rs = Some (qs', ps')"
        "qs = r\<lparr>ur_encoding := ur_encoding r OR push_bit 28 (of_nat (i + 1))\<rparr> # qs'"
      using "2.prems" Some pi i by (auto simp: Let_def)
    have IH: "list_all2 (assigned ps') rs qs' \<and> (\<exists>ext. ps' = ps1 @ ext)"
      by (rule "2.IH"(2) [OF Some pi [symmetric] refl]) (use i q in auto)
    have "assigned ps1 r (hd qs)"
      using personality_index_nth [OF pi] i Some q by (auto simp: assigned_def)
    then show ?thesis using IH personality_index_nth [OF pi] assigned_mono q by fastforce
  qed
qed auto

lemma assigned_func_addr: "assigned ps r q \<Longrightarrow> func_addr ctx q = func_addr ctx r"
  by (auto simp: assigned_def func_addr_def split: option.splits)

lemma table_records_sorted: "sorted (map (func_addr ctx) (table_records ctx))"
proof -
  have "sorted (map (\<lambda>r. (func_addr ctx r, ur_encoding r)) (table_records ctx))" by (simp add: table_records_def Let_def)
  then show ?thesis unfolding sorted_map by (rule sorted_wrt_mono_rel [rotated]) (auto simp: less_eq_prod_def)
qed

lemma list_all2_filter_same:
  "list_all2 R xs ys \<Longrightarrow> (\<And>x y. R x y \<Longrightarrow> P y = P x) \<Longrightarrow> list_all2 R (filter P xs) (filter P ys)"
  by (induction rule: list_all2_induct) auto

lemma list_all2_last: "list_all2 R xs ys \<Longrightarrow> xs \<noteq> [] \<Longrightarrow> R (List.last xs) (List.last ys)"
  by (induction rule: list_all2_induct) (auto simp: list_all2_Nil)

lemma assigned_uw_off: "assigned ps r q \<Longrightarrow> uw_off ctx q = uw_off ctx r"
  by (simp add: uw_off_def assigned_func_addr)

lemma assigned_isec: "assigned ps r q \<Longrightarrow> ur_isec q = ur_isec r \<and> ur_lsda q = ur_lsda r \<and> ur_personality q = ur_personality r"
  by (auto simp: assigned_def ur_lsda_def ur_personality_def split: option.splits)

lemma uw_off_mono:
  "uw_base ctx \<le> func_addr ctx r \<Longrightarrow> uw_base ctx \<le> func_addr ctx q \<Longrightarrow> func_addr ctx r \<le> func_addr ctx q \<Longrightarrow> uw_off ctx r \<le> uw_off ctx q"
  by (simp add: uw_off_def word_le_nat_alt unat_sub diff_le_mono)

definition table_end :: "uw_ctx \<Rightarrow> u64" where
  "table_end ctx = (let isec = uw_isec ctx (ur_isec (List.last (table_records ctx))) in ui_addr isec + ucast (ui_size isec))"

lemma encode_unwind_cases:
  assumes e: "encode_unwind_info ctx = Some (table, ps)" and ne: "table_records ctx \<noteq> []"
  shows "\<exists>rs. assign_personalities [] (table_records ctx) = Some (rs, ps) \<and>
    write_table ctx (merge_records ctx rs) ps (split_pages ctx (merge_records ctx rs)) (table_end ctx) = Some table"
proof -
  obtain rs where a: "assign_personalities [] (table_records ctx) = Some (rs, ps)"
    using e ne by (auto simp: encode_unwind_info_def Let_def split: bind_splits)
  have "list_all2 (assigned ps) (table_records ctx) rs" using assign_ok [OF a] by blast
  then have "assigned ps (List.last (table_records ctx)) (List.last rs)" using ne by (rule list_all2_last)
  then have "ur_isec (List.last rs) = ur_isec (List.last (table_records ctx))" using assigned_isec by blast
  then show ?thesis using e ne a by (auto simp: encode_unwind_info_def Let_def table_end_def)
qed

lemma unwind_finds:
  assumes e: "encode_unwind_info ctx = Some (table, ps)" and small: "length table < 2 ^ 32"
    and range: "\<forall>r \<in> set (table_records ctx). uw_base ctx \<le> func_addr ctx r \<and> uw_off ctx r < 2 ^ 32"
    and first: "\<exists>r \<in> set (table_records ctx). uw_off ctx r \<le> t" and fin: "t < unat (image_off ctx (table_end ctx + 1))"
    and cells: "length cells = 4 * length ps"
  shows "\<exists>q start. assigned ps (List.last (filter (\<lambda>r. uw_off ctx r \<le> t) (table_records ctx))) q \<and>
    unwind_find (with_cells table cells extra) t = Some (start, ur_encoding q) \<and>
    (start = uw_off ctx q \<or> ur_lsda q = None \<and> \<not> stack_ind ctx (ur_encoding q))"
proof -
  let ?rs = "table_records ctx" and ?f = "filter (\<lambda>r. uw_off ctx r \<le> t)"
  have ne: "?rs \<noteq> []" using first by auto
  obtain rs where a: "assign_personalities [] ?rs = Some (rs, ps)"
    and w: "write_table ctx (merge_records ctx rs) ps (split_pages ctx (merge_records ctx rs)) (table_end ctx) = Some table"
    using encode_unwind_cases [OF e ne] by blast
  have al: "list_all2 (assigned ps) ?rs rs" using assign_ok [OF a] by blast
  have map: "map (uw_off ctx) rs = map (uw_off ctx) ?rs"
    using al assigned_uw_off by (auto simp: list_all2_conv_all_nth intro!: nth_equalityI)
  have "sorted (map (uw_off ctx) ?rs)"
    unfolding sorted_map using range table_records_sorted [of ctx, unfolded sorted_map]
    by (elim sorted_wrt_mono_rel [rotated]) (simp add: uw_off_mono)
  then have s: "sorted (map (uw_off ctx) rs)" by (simp add: map)
  have im: "uw_off ctx ` set rs = uw_off ctx ` set ?rs" using arg_cong [OF map, of set] by simp
  have "\<forall>x \<in> uw_off ctx ` set rs. x < 2 ^ 32" "\<exists>x \<in> uw_off ctx ` set rs. x \<le> t"
    unfolding im using range first by blast+
  then have offs: "\<forall>r \<in> set rs. uw_off ctx r < 2 ^ 32" and fst: "\<exists>r \<in> set rs. uw_off ctx r \<le> t" by blast+
  note m = merge_records_last [OF s fst, where ctx = ctx]
  let ?m = "List.last (?f (merge_records ctx rs))" and ?q = "List.last (?f rs)"
  have u: "unwind_find (with_cells table cells extra) t = Some (uw_off ctx ?m, ur_encoding ?m)"
    using offs m(3) by (intro table_finds [OF w small m(2) _ m(4) fin cells]) blast
  have "list_all2 (assigned ps) (?f ?rs) (?f rs)"
    using al by (rule list_all2_filter_same) (simp add: assigned_uw_off)
  moreover have "?f ?rs \<noteq> []" using first by (simp add: filter_empty_conv)
  ultimately have "assigned ps (List.last (?f ?rs)) ?q" by (rule list_all2_last)
  then show ?thesis using m(1) u by (auto simp: stands_for_def)
qed

lemma write_table_head:
  assumes "write_table ctx ms ps (split_pages ctx ms) fin = Some table"
  shows "\<exists>rest. table = table_head ps (length (split_pages ctx ms)) @ rest"
  using assms write_table_eq [of "split_pages ctx ms" ctx ms ps fin] split_pages_ok [of ctx ms] by auto

lemma encoded_head:
  assumes "encode_unwind_info ctx = Some (table, ps)" "table_records ctx \<noteq> []"
  shows "28 + 4 * length ps \<le> length table" "slice_at table 12 4 = Some (le_bytes 4 (28 :: u32))"
proof -
  obtain n rest where t: "table = table_head ps n @ rest"
    using encode_unwind_cases [OF assms] write_table_head by blast
  show "28 + 4 * length ps \<le> length table" by (simp add: t length_table_head)
  show "slice_at table 12 4 = Some (le_bytes 4 (28 :: u32))" by (simp add: t table_head_def slice_at_def)
qed

text \<open>
  C6. The table leads an unwinder to the right function: for an image offset \<open>t\<close> between the first
  record and the end of the text, the two-level search ends at the encoding of the last record at or
  before \<open>t\<close>, with its personality index, and at that record's own start when it has an LSDA or a
  stack size to read from its instructions.
\<close>

theorem unwind_table_correct:
  assumes e: "encode_unwind_info ctx = Some (table, ps)" and small: "length table < 2 ^ 32"
    and range: "\<forall>r \<in> set (table_records ctx). uw_base ctx \<le> func_addr ctx r \<and> uw_off ctx r < 2 ^ 32"
    and first: "\<exists>r \<in> set (table_records ctx). uw_off ctx r \<le> t" and fin: "t < unat (image_off ctx (table_end ctx + 1))"
  shows "\<exists>q start. assigned ps (List.last (filter (\<lambda>r. uw_off ctx r \<le> t) (table_records ctx))) q \<and>
    unwind_find table t = Some (start, ur_encoding q) \<and>
    (start = uw_off ctx q \<or> ur_lsda q = None \<and> \<not> stack_ind ctx (ur_encoding q))"
proof -
  have l: "28 + 4 * length ps \<le> length table" using encoded_head(1) [OF e] first by fastforce
  define cells where "cells = take (4 * length ps) (drop 28 table)"
  have c: "length cells = 4 * length ps" using l by (simp add: cells_def)
  have "with_cells table cells [] = table"
    using append_take_drop_id [of "4 * length ps" "drop 28 table"] c by (simp add: with_cells_def cells_def add.commute)
  then show ?thesis using unwind_finds [OF e small range first fin c, of "[]"] by simp
qed

subsection \<open>The buffer\<close>

definition personality_cells :: "uw_ctx \<Rightarrow> u32 list \<Rightarrow> bytes" where
  "personality_cells ctx syms = concat (map (\<lambda>sy. le_bytes 4 (image_off ctx (uw_got_addr ctx sy))) syms)"

lemma length_personality_cells: "length (personality_cells ctx syms) = 4 * length syms"
  by (simp add: personality_cells_def length_concat comp_def sum_list_triv)

lemma patch_personalities_eq:
  "patch_personalities ctx off syms buf = Some out \<Longrightarrow> off \<le> length buf \<Longrightarrow>
     off + 4 * length syms \<le> length buf \<and> out = take off buf @ personality_cells ctx syms @ drop (off + 4 * length syms) buf"
proof (induction syms arbitrary: off buf)
  case (Cons sy syms)
  let ?c = "le_bytes 4 (image_off ctx (uw_got_addr ctx sy))"
  obtain buf' where c: "copy_at buf off ?c = Some buf'" and p: "patch_personalities ctx (off + 4) syms buf' = Some out"
    using Cons.prems(1) by (auto split: bind_splits)
  have b: "off + 4 \<le> length buf" "buf' = take off buf @ ?c @ drop (off + 4) buf"
    using c by (auto simp: copy_at_def split: if_splits)
  then have l: "length buf' = length buf" by simp
  have "out = take (off + 4) buf' @ personality_cells ctx syms @ drop (off + 4 + 4 * length syms) buf'"
    "off + 4 + 4 * length syms \<le> length buf"
    using Cons.IH [OF p] b(1) l by simp_all
  moreover have "take (off + 4) buf' = take off buf @ ?c" using b by simp
  moreover have "drop (off + 4 + 4 * length syms) buf' = drop (off + 4 * length (sy # syms)) buf" using b by (simp add: algebra_simps)
  ultimately show ?case by (simp add: personality_cells_def)
qed (simp add: personality_cells_def)

lemma personality_index_bound: "personality_index p ps = (i, ps') \<Longrightarrow> i < 3 \<Longrightarrow> length ps \<le> 3 \<Longrightarrow> length ps' \<le> 3"
  by (auto simp: personality_index_def split: option.splits)

lemma assign_bound: "assign_personalities ps rs = Some (qs, ps') \<Longrightarrow> length ps \<le> 3 \<Longrightarrow> length ps' \<le> 3"
proof (induction ps rs arbitrary: qs rule: assign_personalities.induct)
  case (2 ps r rs)
  show ?case
  proof (cases "ur_personality r")
    case None
    then show ?thesis using "2.prems" "2.IH"(1) by auto
  next
    case (Some p)
    obtain i ps1 where pi: "personality_index p ps = (i, ps1)" by fastforce
    have i: "i < 3" using "2.prems" Some pi by (auto split: if_splits)
    then have "\<exists>qs'. assign_personalities ps1 rs = Some (qs', ps')" using "2.prems"(1) Some pi by (auto simp: Let_def)
    then show ?thesis using "2.IH"(2) [OF Some pi [symmetric] refl] i personality_index_bound [OF pi] "2.prems"(2) by auto
  qed
qed simp

text \<open>The routine of an encoding: the cell that its index, one-based, names in the header's array.\<close>

definition find_personality :: "bytes \<Rightarrow> u32 \<Rightarrow> nat option" where
  "find_personality buf enc =
     (let k = unat (take_bit 2 (drop_bit 28 enc))
      in if k = 0 then None else do { off \<leftarrow> rd32 buf 12; rd32 buf (off + 4 * (k - 1)) })"

lemma assigned_encoding:
  assumes "assigned ps r q" "ur_encoding r AND UNWIND_PERSONALITY_MASK = 0"
  shows "ur_encoding q AND NOT UNWIND_PERSONALITY_MASK = ur_encoding r"
    and "case ur_personality r of None \<Rightarrow> take_bit 2 (drop_bit 28 (ur_encoding q)) = 0
      | Some p \<Rightarrow> \<exists>i < length ps. i < 3 \<and> ps ! i = p \<and> take_bit 2 (drop_bit 28 (ur_encoding q)) = of_nat (i + 1)"
proof -
  have m: "(0x30000000 :: u32) = push_bit 28 (mask 2)" by (simp add: mask_eq_exp_minus_1 push_bit_eq_mult)
  have z: "take_bit 2 (drop_bit 28 (ur_encoding r)) = 0"
  proof (rule bit_word_eqI)
    fix n assume "n < LENGTH(32)"
    show "bit (take_bit 2 (drop_bit 28 (ur_encoding r))) n = bit (0 :: u32) n"
      using arg_cong [OF assms(2), of "\<lambda>w. bit w (28 + n)"] by (auto simp: m bit_simps)
  qed
  have keep: "w AND NOT 0x30000000 = (w :: u32)" if "take_bit 2 (drop_bit 28 w) = 0" for w
  proof (rule bit_word_eqI)
    fix n assume "n < LENGTH(32)"
    then show "bit (w AND NOT 0x30000000) n = bit w n"
      using arg_cong [OF that, of "\<lambda>w. bit w (n - 28)"] by (auto simp: m bit_simps)
  qed
  have idx: "take_bit 2 (drop_bit 28 (w OR push_bit 28 i)) = i" "(w OR push_bit 28 i) AND NOT 0x30000000 = w"
    if "take_bit 2 (drop_bit 28 w) = 0" "i = take_bit 2 i" for w i :: u32
  proof -
    have b: "bit i n \<longleftrightarrow> n < 2 \<and> bit i n" for n by (subst that(2)) (simp add: bit_take_bit_iff)
    have c: "n < 2 \<Longrightarrow> \<not> bit w (28 + n)" for n using arg_cong [OF that(1), of "\<lambda>w. bit w n"] by (auto simp: bit_simps)
    show "take_bit 2 (drop_bit 28 (w OR push_bit 28 i)) = i"
    proof (rule bit_word_eqI)
      fix n assume "n < LENGTH(32)"
      then show "bit (take_bit 2 (drop_bit 28 (w OR push_bit 28 i))) n = bit i n"
        using b [of n] c [of n] by (auto simp: bit_simps)
    qed
    show "(w OR push_bit 28 i) AND NOT 0x30000000 = w"
    proof (rule bit_word_eqI)
      fix n assume "n < LENGTH(32)"
      then show "bit ((w OR push_bit 28 i) AND NOT 0x30000000) n = bit w n"
        using b [of "n - 28"] c [of "n - 28"] by (auto simp: m bit_simps)
    qed
  qed
  have "i = take_bit 2 i" if "i = of_nat (k + 1)" "k < 3" for k and i :: u32
    using that by (auto simp: less_Suc_eq numeral_3_eq_3 take_bit_eq_mod)
  note idx' = idx [OF z this [OF refl]]
  show "ur_encoding q AND NOT UNWIND_PERSONALITY_MASK = ur_encoding r"
    using assms(1) keep [OF z] idx'(2) by (auto simp: assigned_def split: option.splits)
  show "case ur_personality r of None \<Rightarrow> take_bit 2 (drop_bit 28 (ur_encoding q)) = 0
      | Some p \<Rightarrow> \<exists>i < length ps. i < 3 \<and> ps ! i = p \<and> take_bit 2 (drop_bit 28 (ur_encoding q)) = of_nat (i + 1)"
    using assms(1) z idx'(1) by (auto simp: assigned_def simp del: of_nat_add split: option.splits)
qed

text \<open>
  C11. In the buffer that \<^verbatim>\<open>copy_buf\<close> leaves, an unwinder finds the personality routine of a function:
  for an image offset as above, the search in the buffer ends at an encoding that is the last record's
  own apart from the routine's index, and the cell of that index, in the array the header names,
  holds the image offset of the GOT slot of the record's routine; a record with no routine has no
  index. There are three routines at most, and what follows the table is untouched. The encodings
  of the records must not use the two bits of the index already.
\<close>

theorem unwind_personalities_correct:
  assumes e: "encode_unwind_info ctx = Some (table, ps)" and small: "length table < 2 ^ 32"
    and range: "\<forall>r \<in> set (table_records ctx). uw_base ctx \<le> func_addr ctx r \<and> uw_off ctx r < 2 ^ 32"
    and first: "\<exists>r \<in> set (table_records ctx). uw_off ctx r \<le> t" and fin: "t < unat (image_off ctx (table_end ctx + 1))"
    and free: "\<forall>r \<in> set (table_records ctx). ur_encoding r AND UNWIND_PERSONALITY_MASK = 0"
    and c: "unwind_copy_buf ctx table ps buf = Some out"
  defines "r \<equiv> List.last (filter (\<lambda>r. uw_off ctx r \<le> t) (table_records ctx))"
  shows "(\<exists>start enc. unwind_find out t = Some (start, enc) \<and> enc AND NOT UNWIND_PERSONALITY_MASK = ur_encoding r \<and>
      find_personality out enc = map_option (\<lambda>p. unat (image_off ctx (uw_got_addr ctx p))) (ur_personality r)) \<and>
    length ps \<le> 3 \<and> length out = length buf \<and> drop (length table) out = drop (length table) buf"
proof -
  have ne: "table_records ctx \<noteq> []" using first by auto
  note hd = encoded_head [OF e ne]
  obtain buf1 where b1: "copy_at buf 0 table = Some buf1" and p: "patch_personalities ctx 28 ps buf1 = Some out"
    using c hd(2) by (auto simp: unwind_copy_buf_def split: bind_splits)
  have b: "length table \<le> length buf" "buf1 = table @ drop (length table) buf"
    using b1 by (auto simp: copy_at_def split: if_splits)
  let ?cells = "personality_cells ctx ps"
  have cl: "length ?cells = 4 * length ps" by (rule length_personality_cells)
  have o: "out = with_cells table ?cells (drop (length table) buf)"
    using patch_personalities_eq [OF p] b hd(1) by (simp add: with_cells_def cl)
  obtain q start where q: "assigned ps r q" "unwind_find out t = Some (start, ur_encoding q)"
    using unwind_finds [OF e small range first fin cl, of "drop (length table) buf"] unfolding o r_def by blast
  have "r \<in> set (table_records ctx)"
    using last_in_set [of "filter (\<lambda>r. uw_off ctx r \<le> t) (table_records ctx)"] first by (auto simp: r_def filter_empty_conv)
  then have fr: "ur_encoding r AND UNWIND_PERSONALITY_MASK = 0" using free by blast
  note ae = assigned_encoding [OF q(1) fr]
  have cell: "rd32 out (28 + 4 * i) = Some (unat (image_off ctx (uw_got_addr ctx (ps ! i))))" if "i < length ps" for i
    using rd32_words [of i "map (\<lambda>sy. image_off ctx (uw_got_addr ctx sy)) ps" "take 28 table"] that hd(1)
    by (simp add: o with_cells_def personality_cells_def comp_def)
  have "rd32 table 12 = Some 28" using hd(2) by (simp add: rd32_def)
  then have h12: "rd32 out 12 = Some 28" unfolding o by (rule rd32_with_cells) simp
  have "find_personality out (ur_encoding q) = map_option (\<lambda>p. unat (image_off ctx (uw_got_addr ctx p))) (ur_personality r)"
  proof (cases "ur_personality r")
    case None
    then show ?thesis using ae(2) by (simp add: find_personality_def)
  next
    case (Some p)
    then obtain i where i: "i < length ps" "i < 3" "ps ! i = p" "take_bit 2 (drop_bit 28 (ur_encoding q)) = of_nat (i + 1)"
      using ae(2) by auto
    have "unat (of_nat (i + 1) :: u32) = i + 1" using i(2) by (intro unat_of_nat_small) simp
    then show ?thesis using cell [OF i(1)] i(3) Some by (simp add: find_personality_def i(4) h12 del: of_nat_add)
  qed
  moreover have "length ps \<le> 3"
    using encode_unwind_cases [OF e ne] assign_bound by fastforce
  moreover have "length out = length buf" "drop (length table) out = drop (length table) buf"
    using b hd(1) by (simp_all add: o with_cells_def cl)
  ultimately show ?thesis using q(2) ae(1) by blast
qed

subsection \<open>A concrete table\<close>

text \<open>Three functions: two that unwind alike and merge, and one with a personality and an LSDA.\<close>

definition wit_uw_record :: "u32 \<Rightarrow> u32 \<Rightarrow> u32 \<Rightarrow> u32 \<Rightarrow> unwind_record" where
  "wit_uw_record off enc pers lsda =
     \<lparr>ur_isec = 0, ur_input_offset = off, ur_code_len = 16, ur_encoding = enc, ur_personality_sym = pers,
      ur_lsda_isec = lsda, ur_lsda_off = 8, ur_fde_idx = UNWIND_NONE\<rparr>"

definition wit_uw_ctx :: uw_ctx where
  "wit_uw_ctx =
     \<lparr>uw_x86_64 = False, uw_base = 0x1000, uw_nisecs = 1,
      uw_isec = (\<lambda>_. \<lparr>ui_addr = 0x1010, ui_size = 48, ui_is_emitted = True, ui_subsections_via_symbols = True,
        ui_unwind_offset = 0, ui_nunwind = 3, ui_output = None\<rparr>),
      uw_records = [wit_uw_record 32 0x02000000 7 0, wit_uw_record 0 0x02001000 UNWIND_NONE UNWIND_NONE,
        wit_uw_record 16 0x02001000 UNWIND_NONE UNWIND_NONE],
      uw_fde_offset = (\<lambda>_. 0), uw_got_addr = (\<lambda>_. 0x3000)\<rparr>"

definition wit_uw_table :: bytes where
  "wit_uw_table = (case encode_unwind_info wit_uw_ctx of Some (t, _) \<Rightarrow> t | None \<Rightarrow> [])"

lemma wit_uw_encodes:
  "encode_unwind_info wit_uw_ctx = Some (wit_uw_table, [7])" "length wit_uw_table = 92"
  "map ur_input_offset (table_records wit_uw_ctx) = [0, 16, 32]"
  by code_simp+

lemma wit_uw_range:
  "map (uw_off wit_uw_ctx) (table_records wit_uw_ctx) = [16, 32, 48]"
  "list_all (\<lambda>r. uw_base wit_uw_ctx \<le> func_addr wit_uw_ctx r) (table_records wit_uw_ctx)"
  "unat (image_off wit_uw_ctx (table_end wit_uw_ctx + 1)) = 65"
  by code_simp+

theorem unwind_table_correct_witness:
  "\<exists>q start. assigned [7] (List.last (filter (\<lambda>r. uw_off wit_uw_ctx r \<le> 0x28) (table_records wit_uw_ctx))) q \<and>
    unwind_find wit_uw_table 0x28 = Some (start, ur_encoding q) \<and>
    (start = uw_off wit_uw_ctx q \<or> ur_lsda q = None \<and> \<not> stack_ind wit_uw_ctx (ur_encoding q))"
proof -
  have "set (map (uw_off wit_uw_ctx) (table_records wit_uw_ctx)) = {16, 32, 48}" unfolding wit_uw_range by simp
  then have im: "uw_off wit_uw_ctx ` set (table_records wit_uw_ctx) = {16, 32, 48}" by simp
  have "\<forall>x \<in> uw_off wit_uw_ctx ` set (table_records wit_uw_ctx). x < 2 ^ 32"
    "\<exists>x \<in> uw_off wit_uw_ctx ` set (table_records wit_uw_ctx). x \<le> 0x28"
    unfolding im by simp_all
  then show ?thesis
    using wit_uw_encodes(1,2) wit_uw_range(2,3) by (intro unwind_table_correct) (auto simp: list_all_iff)
qed

definition wit_uw_buf :: bytes where
  "wit_uw_buf = (case unwind_copy_buf wit_uw_ctx wit_uw_table [7] (replicate 92 0) of Some b \<Rightarrow> b | None \<Rightarrow> [])"

lemma wit_uw_copies: "unwind_copy_buf wit_uw_ctx wit_uw_table [7] (replicate 92 0) = Some wit_uw_buf"
  by code_simp

theorem unwind_personalities_correct_witness:
  "(\<exists>start enc. unwind_find wit_uw_buf 0x35 = Some (start, enc) \<and> enc AND NOT UNWIND_PERSONALITY_MASK = 0x02000000 \<and>
     find_personality wit_uw_buf enc = Some (unat (image_off wit_uw_ctx 0x3000))) \<and> length wit_uw_buf = 92"
proof -
  have "set (map (uw_off wit_uw_ctx) (table_records wit_uw_ctx)) = {16, 32, 48}" unfolding wit_uw_range by simp
  then have im: "uw_off wit_uw_ctx ` set (table_records wit_uw_ctx) = {16, 32, 48}" by simp
  have im': "\<forall>x \<in> uw_off wit_uw_ctx ` set (table_records wit_uw_ctx). x < 2 ^ 32"
    "\<exists>x \<in> uw_off wit_uw_ctx ` set (table_records wit_uw_ctx). x \<le> 0x35"
    unfolding im by simp_all
  have f: "list_all (\<lambda>r. ur_encoding r AND UNWIND_PERSONALITY_MASK = 0) (table_records wit_uw_ctx)"
    "ur_encoding (List.last (filter (\<lambda>r. uw_off wit_uw_ctx r \<le> 0x35) (table_records wit_uw_ctx))) = 0x02000000"
    "ur_personality (List.last (filter (\<lambda>r. uw_off wit_uw_ctx r \<le> 0x35) (table_records wit_uw_ctx))) = Some 7"
    "uw_got_addr wit_uw_ctx 7 = 0x3000"
    by code_simp+
  have "(\<exists>start enc. unwind_find wit_uw_buf 0x35 = Some (start, enc) \<and>
      enc AND NOT UNWIND_PERSONALITY_MASK = ur_encoding (List.last (filter (\<lambda>r. uw_off wit_uw_ctx r \<le> 0x35) (table_records wit_uw_ctx))) \<and>
      find_personality wit_uw_buf enc = map_option (\<lambda>p. unat (image_off wit_uw_ctx (uw_got_addr wit_uw_ctx p)))
        (ur_personality (List.last (filter (\<lambda>r. uw_off wit_uw_ctx r \<le> 0x35) (table_records wit_uw_ctx))))) \<and>
      length [7 :: u32] \<le> 3 \<and> length wit_uw_buf = length (replicate 92 (0 :: u8)) \<and>
      drop (length wit_uw_table) wit_uw_buf = drop (length wit_uw_table) (replicate 92 0)"
    using wit_uw_encodes(2) wit_uw_range(2,3) f(1) im'
    by (intro unwind_personalities_correct [OF wit_uw_encodes(1) _ _ _ _ _ wit_uw_copies]) (auto simp: list_all_iff)
  then show ?thesis unfolding f(2,3) option.map f(4) length_replicate by blast
qed

end
