(* ===== verification/InputSections.thy ===== *)
theory InputSections
  imports UnwindInfo
begin

unbundle bit_operations_syntax

section \<open>Subsections and relocations (\<open>input_sections.rs\<close>)\<close>

text \<open>
  The link's unit, the subsection: its record with the flag byte the passes set, its relocations, its
  place after alignment, and the chain of copies it was merged into. The raw pointer to the contents
  is the bytes themselves; an atomic read-modify-write is the pair of what it returns and the new
  record. \<open>None\<close> is an index out of range.
\<close>

subsection \<open>Relocations\<close>

datatype reloc_target = RtSym u32 | RtSection u32

definition TARGET_SECTION :: u32 where
  "TARGET_SECTION = push_bit 31 1"

definition target_pack :: "reloc_target \<Rightarrow> u32" where
  "target_pack t = (case t of RtSym i \<Rightarrow> i | RtSection i \<Rightarrow> i OR TARGET_SECTION)"

record reloc =
  rl_offset :: u32
  rl_ty :: u8
  rl_size :: u8
  rl_is_pcrel :: bool
  rl_is_subtracted :: bool
  rl_target :: u32
  rl_addend :: u64

definition reloc_target_of :: "reloc \<Rightarrow> reloc_target" where
  "reloc_target_of r =
     (if rl_target r AND TARGET_SECTION \<noteq> 0 then RtSection (rl_target r AND NOT TARGET_SECTION) else RtSym (rl_target r))"

definition set_target :: "reloc_target \<Rightarrow> reloc \<Rightarrow> reloc" where
  "set_target t r = r\<lparr>rl_target := target_pack t\<rparr>"

subsection \<open>Subsections\<close>

abbreviation (input) NO_REPLACEMENT :: u32 where "NO_REPLACEMENT \<equiv> 0xffffffff"

definition IS_ALIVE :: u8 where "IS_ALIVE = push_bit 0 1"
definition IS_VISITED :: u8 where "IS_VISITED = push_bit 1 1"
definition IS_PLACED :: u8 where "IS_PLACED = push_bit 2 1"
definition NO_MODULUS :: u8 where "NO_MODULUS = push_bit 3 1"
definition IS_LABELED :: u8 where "IS_LABELED = push_bit 4 1"
definition IS_ADDRESS_TAKEN :: u8 where "IS_ADDRESS_TAKEN = push_bit 5 1"

lemmas isec_flag_defs = IS_ALIVE_def IS_VISITED_def IS_PLACED_def NO_MODULUS_def IS_LABELED_def IS_ADDRESS_TAKEN_def

record input_section =
  is_file :: u32
  is_shndx :: u32
  is_p2align :: u8
  is_input_addr :: u32
  is_size :: u32
  is_contents :: bytes
  is_rel_offset :: u32
  is_nrels :: u32
  is_output_section :: u32
  is_offset :: u32
  is_flags :: u8
  is_replacement :: u32
  is_unwind_offset :: u32
  is_nunwind :: u32

definition flags_alive :: u8 where "flags_alive = IS_ALIVE"
definition flags_alive_no_modulus :: u8 where "flags_alive_no_modulus = IS_ALIVE OR NO_MODULUS"
definition flags_dead :: u8 where "flags_dead = 0"
definition flags_placed :: u8 where "flags_placed = IS_ALIVE OR IS_PLACED"

definition input_section_new :: "u32 \<Rightarrow> u32 \<Rightarrow> u8 \<Rightarrow> u32 \<Rightarrow> bytes \<Rightarrow> input_section" where
  "input_section_new file shndx p2align sz data =
     \<lparr>is_file = file, is_shndx = shndx, is_p2align = p2align, is_input_addr = 0, is_size = sz, is_contents = data,
      is_rel_offset = 0, is_nrels = 0, is_output_section = - 1, is_offset = 0, is_flags = flags_alive,
      is_replacement = NO_REPLACEMENT, is_unwind_offset = 0, is_nunwind = 0\<rparr>"

definition isec_output_section :: "input_section \<Rightarrow> chunk_id option" where
  "isec_output_section s = (if is_output_section s = - 1 then None else chunk_unpack (is_output_section s))"

definition set_output_section :: "chunk_id \<Rightarrow> input_section \<Rightarrow> input_section option" where
  "set_output_section c s = map_option (\<lambda>w. s\<lparr>is_output_section := w\<rparr>) (chunk_pack c)"

definition is_placed :: "input_section \<Rightarrow> bool" where "is_placed s \<longleftrightarrow> is_flags s AND IS_PLACED \<noteq> 0"
definition is_record :: "input_section \<Rightarrow> bool" where "is_record s \<longleftrightarrow> is_flags s AND NO_MODULUS \<noteq> 0"
definition is_alive :: "input_section \<Rightarrow> bool" where "is_alive s \<longleftrightarrow> is_flags s AND IS_ALIVE \<noteq> 0"
definition is_emitted :: "input_section \<Rightarrow> bool" where "is_emitted s \<longleftrightarrow> is_alive s \<and> is_replacement s = NO_REPLACEMENT"
definition is_visited :: "input_section \<Rightarrow> bool" where "is_visited s \<longleftrightarrow> is_flags s AND IS_VISITED \<noteq> 0"
definition is_labeled :: "input_section \<Rightarrow> bool" where "is_labeled s \<longleftrightarrow> is_flags s AND IS_LABELED \<noteq> 0"
definition is_address_taken :: "input_section \<Rightarrow> bool" where "is_address_taken s \<longleftrightarrow> is_flags s AND IS_ADDRESS_TAKEN \<noteq> 0"

definition set_alive :: "bool \<Rightarrow> input_section \<Rightarrow> input_section" where
  "set_alive v s = s\<lparr>is_flags := (if v then is_flags s OR IS_ALIVE else is_flags s AND NOT IS_ALIVE)\<rparr>"

definition kill :: "input_section \<Rightarrow> input_section" where
  "kill s = s\<lparr>is_flags := is_flags s AND NOT IS_ALIVE\<rparr>"

definition visit :: "input_section \<Rightarrow> bool \<times> input_section" where
  "visit s = (is_flags s AND IS_VISITED = 0, s\<lparr>is_flags := is_flags s OR IS_VISITED\<rparr>)"

definition unmark_visited :: "input_section \<Rightarrow> input_section" where
  "unmark_visited s = s\<lparr>is_flags := is_flags s AND NOT IS_VISITED\<rparr>"

definition take_visited :: "input_section \<Rightarrow> bool \<times> input_section" where
  "take_visited s = (is_flags s AND IS_VISITED \<noteq> 0, s\<lparr>is_flags := is_flags s AND NOT IS_VISITED\<rparr>)"

definition mark_labeled :: "input_section \<Rightarrow> input_section" where
  "mark_labeled s = s\<lparr>is_flags := is_flags s OR IS_LABELED\<rparr>"

definition set_address_taken :: "input_section \<Rightarrow> input_section" where
  "set_address_taken s =
     (if is_flags s AND IS_ADDRESS_TAKEN = 0 then s\<lparr>is_flags := is_flags s OR IS_ADDRESS_TAKEN\<rparr> else s)"

definition align_offset :: "input_section \<Rightarrow> u64 \<Rightarrow> u64" where
  "align_offset s off =
     (let align = push_bit (unat (is_p2align s)) 1
      in if is_flags s AND NO_MODULUS \<noteq> 0 then align_to off align
         else align_to_mod off align (ucast (is_input_addr s) AND (align - 1)))"

text \<open>\<^verbatim>\<open>trailing_zeros\<close> of a nonzero word.\<close>

definition p2align_at :: "input_section \<Rightarrow> u64 \<Rightarrow> u8" where
  "p2align_at s addr =
     (let modulus = addr AND (push_bit (unat (is_p2align s)) 1 - 1)
      in if is_record s \<or> modulus = 0 then is_p2align s
         else of_nat (length (takeWhile (\<lambda>i. \<not> bit modulus i) [0..<64])))"

definition isec_rels :: "input_section \<Rightarrow> reloc list \<Rightarrow> reloc list option" where
  "isec_rels s relocs = slice_at relocs (unat (is_rel_offset s)) (unat (is_nrels s))"

text \<open>Follows the merges to the surviving copy; a cycle of them would never return.\<close>

partial_function (option) resolve :: "input_section list \<Rightarrow> nat \<Rightarrow> nat option" where
  "resolve secs i =
     do { s \<leftarrow> nth_opt secs i;
          if is_replacement s \<noteq> NO_REPLACEMENT then resolve secs (unat (is_replacement s)) else Some i }"

subsection \<open>Laws of the flags\<close>

lemma flag_test: "k < LENGTH('a::len) \<Longrightarrow> ((w :: 'a word) AND push_bit k 1 \<noteq> 0) = bit w k"
  by (simp add: push_bit_of_1 and_exp_eq_0_iff_not_bit)

lemma flag_test0: "k < LENGTH('a::len) \<Longrightarrow> ((w :: 'a word) AND push_bit k 1 = 0) = (\<not> bit w k)"
  by (simp add: push_bit_of_1 and_exp_eq_0_iff_not_bit)

lemma flag_set: "k < LENGTH('a::len) \<Longrightarrow> bit ((w :: 'a word) OR push_bit k 1) i = (bit w i \<or> i = k)"
  by (auto simp: bit_simps)

lemma flag_clear: "bit ((w :: 'a::len word) AND NOT (push_bit k 1)) i = (bit w i \<and> i \<noteq> k)"
  by (auto simp: bit_simps dest: bit_imp_le_length)

named_theorems isec_simps \<open>what a flag's setter does to the flags\<close>

lemma flag_bits [isec_simps]:
  "is_alive s = bit (is_flags s) 0" "is_visited s = bit (is_flags s) 1" "is_placed s = bit (is_flags s) 2"
  "is_record s = bit (is_flags s) 3" "is_labeled s = bit (is_flags s) 4" "is_address_taken s = bit (is_flags s) 5"
  unfolding is_alive_def is_visited_def is_placed_def is_record_def is_labeled_def is_address_taken_def isec_flag_defs
  by (rule flag_test, simp)+

lemma flag_words:
  "bit (w OR IS_ALIVE) i = (bit w i \<or> i = 0)" "bit (w AND NOT IS_ALIVE) i = (bit w i \<and> i \<noteq> 0)"
  "bit (w OR IS_VISITED) i = (bit w i \<or> i = 1)" "bit (w AND NOT IS_VISITED) i = (bit w i \<and> i \<noteq> 1)"
  "(w AND IS_VISITED = 0) = (\<not> bit w 1)"
  unfolding isec_flag_defs
  by (rule flag_set, simp) (rule flag_clear, rule flag_set, simp, rule flag_clear, rule flag_test0, simp)

lemma alive_flag_set [isec_simps]:
  "bit (is_flags (set_alive v s)) i = (if i = 0 then v else bit (is_flags s) i)"
  "bit (is_flags (kill s)) i = (bit (is_flags s) i \<and> i \<noteq> 0)"
  by (auto simp: set_alive_def kill_def flag_words)

lemma visited_flag_set [isec_simps]:
  "bit (is_flags (snd (visit s))) i = (bit (is_flags s) i \<or> i = 1)" "fst (visit s) = (\<not> bit (is_flags s) 1)"
  "bit (is_flags (unmark_visited s)) i = (bit (is_flags s) i \<and> i \<noteq> 1)"
  "bit (is_flags (snd (take_visited s))) i = (bit (is_flags s) i \<and> i \<noteq> 1)" "fst (take_visited s) = bit (is_flags s) 1"
  by (auto simp: visit_def unmark_visited_def take_visited_def flag_words)

text \<open>A target comes back from its packed form, when its index leaves the tag bit free.\<close>

lemma target_round_trip:
  assumes "case t of RtSym i \<Rightarrow> i < 2 ^ 31 | RtSection i \<Rightarrow> i < 2 ^ 31"
  shows "reloc_target_of (set_target t r) = t"
proof (cases t)
  case (RtSym i)
  then have "\<not> bit i 31" using assms bit_less_exp [of i 31 31] by auto
  then show ?thesis using flag_test [of 31 i] RtSym by (simp add: reloc_target_of_def set_target_def target_pack_def TARGET_SECTION_def)
next
  case (RtSection i)
  then have b: "bit i n \<Longrightarrow> n < 31" for n using assms bit_less_exp [of i 31 n] by simp
  have "(i OR push_bit 31 1) AND NOT (push_bit 31 1) = i"
    by (rule bit_word_eqI, subst flag_clear, subst flag_set) (use b in auto)
  moreover have "(i OR push_bit 31 1) AND push_bit 31 1 \<noteq> 0" using flag_test [of 31 "i OR push_bit 31 1"] by (simp add: flag_set)
  ultimately show ?thesis using RtSection by (simp add: reloc_target_of_def set_target_def target_pack_def TARGET_SECTION_def)
qed

end
