(* ===== verification/SymbolTable.thy ===== *)
theory SymbolTable
  imports InputSections
begin

unbundle bit_operations_syntax

section \<open>Symbols and the symbol table (\<open>symbol.rs\<close>)\<close>

text \<open>
  The symbol's record, its owning file packed into a word, its flags, and the table that interns
  names: one at a time, or a whole batch shard by shard. The hash of a name is the argument
  \<open>hash\<close> (the crate \<open>xxhash_rust\<close>); a shard's hash map is an association list whose first entry for
  a key counts. The shards work in parallel on maps of their own, so their order does not matter.
\<close>

subsection \<open>Symbols\<close>

datatype file_id = FObj u32 | FDylib u32

abbreviation (input) NONE :: u32 where "NONE \<equiv> 0xffffffff"
abbreviation (input) NO_IDX :: u32 where "NO_IDX \<equiv> 0xffffffff"

definition SF_DYLIB :: u32 where "SF_DYLIB = push_bit 31 1"
definition SF_NONE :: u32 where "SF_NONE = 0xffffffff"
definition SF_DYNAMIC_LOOKUP :: u32 where "SF_DYNAMIC_LOOKUP = 0xffffffff - 1"

definition symbol_file_some :: "file_id \<Rightarrow> u32" where
  "symbol_file_some f =
     (case f of FObj i \<Rightarrow> i | FDylib i \<Rightarrow> if i = 0xffffffff then SF_DYNAMIC_LOOKUP else i OR SF_DYLIB)"

definition symbol_file_get :: "u32 \<Rightarrow> file_id option" where
  "symbol_file_get raw =
     (if raw = SF_NONE then None
      else if raw = SF_DYNAMIC_LOOKUP then Some (FDylib 0xffffffff)
      else if raw AND SF_DYLIB \<noteq> 0 then Some (FDylib (raw AND NOT SF_DYLIB))
      else Some (FObj raw))"

record symbol =
  sy_name :: bytes
  sy_file_word :: u32
  sy_isec :: u32
  sy_value :: u64
  sy_aux_idx :: u32
  sy_flags :: u8
  sy_bits :: u16
  sy_common_p2align :: u8

definition NEEDS_GOT :: u8 where "NEEDS_GOT = push_bit 0 1"
definition NEEDS_STUB :: u8 where "NEEDS_STUB = push_bit 1 1"

definition symbol_new :: "bytes \<Rightarrow> symbol" where
  "symbol_new name =
     \<lparr>sy_name = name, sy_file_word = SF_NONE, sy_isec = NONE, sy_value = 0, sy_aux_idx = NONE,
      sy_flags = 0, sy_bits = 0, sy_common_p2align = 0\<rparr>"

definition sy_file :: "symbol \<Rightarrow> file_id option" where "sy_file s = symbol_file_get (sy_file_word s)"
definition set_file :: "file_id \<Rightarrow> symbol \<Rightarrow> symbol" where "set_file f s = s\<lparr>sy_file_word := symbol_file_some f\<rparr>"
definition clear_file :: "symbol \<Rightarrow> symbol" where "clear_file s = s\<lparr>sy_file_word := SF_NONE\<rparr>"
definition sy_is_defined :: "symbol \<Rightarrow> bool" where "sy_is_defined s \<longleftrightarrow> sy_file s \<noteq> None"

definition sy_input_section :: "symbol \<Rightarrow> u32 option" where
  "sy_input_section s = (if sy_isec s \<noteq> NONE then Some (sy_isec s) else None)"

definition set_input_section :: "u32 option \<Rightarrow> symbol \<Rightarrow> symbol" where
  "set_input_section i s = s\<lparr>sy_isec := (case i of Some i \<Rightarrow> i | None \<Rightarrow> NONE)\<rparr>"

definition F_EXTERN :: u16 where "F_EXTERN = push_bit 0 1"
definition F_WEAK_DEF :: u16 where "F_WEAK_DEF = push_bit 1 1"
definition F_IMPORTED :: u16 where "F_IMPORTED = push_bit 2 1"
definition F_USED :: u16 where "F_USED = push_bit 3 1"
definition F_PRIVATE_EXTERN :: u16 where "F_PRIVATE_EXTERN = push_bit 4 1"
definition F_WEAK_REF :: u16 where "F_WEAK_REF = push_bit 5 1"
definition F_NO_DEAD_STRIP :: u16 where "F_NO_DEAD_STRIP = push_bit 6 1"
definition F_COMMON :: u16 where "F_COMMON = push_bit 7 1"
definition F_MARK :: u16 where "F_MARK = push_bit 8 1"
definition F_STRONG_REF :: u16 where "F_STRONG_REF = push_bit 9 1"
definition F_REFERENCED_DYNAMICALLY :: u16 where "F_REFERENCED_DYNAMICALLY = push_bit 10 1"
definition F_ALT_ENTRY :: u16 where "F_ALT_ENTRY = push_bit 11 1"

text \<open>The macro \<^verbatim>\<open>sym_flag!\<close>, and the attributes it declares.\<close>

definition flag_get :: "u16 \<Rightarrow> symbol \<Rightarrow> bool" where
  "flag_get b s \<longleftrightarrow> sy_bits s AND b \<noteq> 0"

definition flag_put :: "u16 \<Rightarrow> bool \<Rightarrow> symbol \<Rightarrow> symbol" where
  "flag_put b v s = s\<lparr>sy_bits := (if v then sy_bits s OR b else sy_bits s AND NOT b)\<rparr>"

definition sy_is_extern where "sy_is_extern = flag_get F_EXTERN"
definition sy_is_weak_def where "sy_is_weak_def = flag_get F_WEAK_DEF"
definition sy_is_imported where "sy_is_imported = flag_get F_IMPORTED"
definition sy_is_used where "sy_is_used = flag_get F_USED"
definition set_used where "set_used = flag_put F_USED"
definition sy_is_private_extern where "sy_is_private_extern = flag_get F_PRIVATE_EXTERN"
definition sy_is_strong_ref where "sy_is_strong_ref = flag_get F_STRONG_REF"
definition sy_is_weak_ref where "sy_is_weak_ref = flag_get F_WEAK_REF"
definition sy_no_dead_strip where "sy_no_dead_strip = flag_get F_NO_DEAD_STRIP"
definition sy_is_referenced_dynamically where "sy_is_referenced_dynamically = flag_get F_REFERENCED_DYNAMICALLY"
definition sy_is_alt_entry where "sy_is_alt_entry = flag_get F_ALT_ENTRY"
definition sy_is_common where "sy_is_common = flag_get F_COMMON"

definition add_flags :: "u8 \<Rightarrow> symbol \<Rightarrow> symbol" where
  "add_flags f s = (if sy_flags s AND f \<noteq> f then s\<lparr>sy_flags := sy_flags s OR f\<rparr> else s)"

definition clear_flags :: "symbol \<Rightarrow> symbol" where
  "clear_flags s = s\<lparr>sy_flags := 0\<rparr>"

text \<open>The transient mark; \<open>sy_mark\<close> also gives whether this call set it.\<close>

definition sy_mark :: "symbol \<Rightarrow> bool \<times> symbol" where
  "sy_mark s = (sy_bits s AND F_MARK = 0, s\<lparr>sy_bits := sy_bits s OR F_MARK\<rparr>)"

definition sy_unmark :: "symbol \<Rightarrow> symbol" where
  "sy_unmark s = s\<lparr>sy_bits := sy_bits s AND NOT F_MARK\<rparr>"

definition sy_is_marked where "sy_is_marked = flag_get F_MARK"

subsection \<open>The side table of slots\<close>

record symbol_aux =
  sa_stub_idx :: u32
  sa_got_idx :: u32
  sa_objc_stub_idx :: u32
  sa_lazy_stub_idx :: u32
  sa_lazy_got_idx :: u32
  sa_delay_stub_idx :: u32
  sa_thunk_addrs :: "u64 list"

definition symbol_aux_default :: symbol_aux where
  "symbol_aux_default =
     \<lparr>sa_stub_idx = NO_IDX, sa_got_idx = NO_IDX, sa_objc_stub_idx = NO_IDX, sa_lazy_stub_idx = NO_IDX,
      sa_lazy_got_idx = NO_IDX, sa_delay_stub_idx = NO_IDX, sa_thunk_addrs = []\<rparr>"

subsection \<open>The table\<close>

type_synonym shard_map = "((u64 \<times> bytes) \<times> u32) list"

record symbol_table =
  st_shards :: "shard_map list"
  st_syms :: "symbol list"
  st_aux :: "symbol_aux list"

abbreviation (input) NUM_SHARDS :: nat where "NUM_SHARDS \<equiv> 64"

definition symbol_table_default :: symbol_table where
  "symbol_table_default = \<lparr>st_shards = map (\<lambda>_. []) [0..<NUM_SHARDS], st_syms = [], st_aux = []\<rparr>"

definition shard_of :: "u64 \<Rightarrow> nat" where
  "shard_of h = unat (h mod of_nat NUM_SHARDS)"

definition intern :: "(bytes \<Rightarrow> u64) \<Rightarrow> symbol_table \<Rightarrow> bytes \<Rightarrow> (u32 \<times> symbol_table) option" where
  "intern hash st name =
     (let h = hash name in
      do { shard \<leftarrow> nth_opt (st_shards st) (shard_of h);
           case map_of shard (h, name) of
             Some sid \<Rightarrow> Some (sid, st)
           | None \<Rightarrow>
               let syms = st_syms st @ [symbol_new name]; new_id = of_nat (length syms - 1)
               in Some (new_id, st\<lparr>st_syms := syms,
                    st_shards := (st_shards st)[shard_of h := ((h, name), new_id) # shard]\<rparr>) })"

definition lookup :: "(bytes \<Rightarrow> u64) \<Rightarrow> symbol_table \<Rightarrow> bytes \<Rightarrow> u32 option" where
  "lookup hash st name =
     (let h = hash name in do { shard \<leftarrow> nth_opt (st_shards st) (shard_of h); map_of shard (h, name) })"

definition add_local :: "symbol_table \<Rightarrow> bytes \<Rightarrow> u32 \<times> symbol_table" where
  "add_local st name =
     (let syms = st_syms st @ [symbol_new name] in (of_nat (length syms - 1), st\<lparr>st_syms := syms\<rparr>))"

text \<open>\<^verbatim>\<open>aux_mut\<close>: the index of a symbol's slots, made at its first use, and the table.\<close>

definition aux_mut :: "symbol_table \<Rightarrow> u32 \<Rightarrow> (nat \<times> symbol_table) option" where
  "aux_mut st sid =
     do { s \<leftarrow> nth_opt (st_syms st) (unat sid);
          let st = (if sy_aux_idx s = NONE
                    then st\<lparr>st_syms := (st_syms st)[unat sid := s\<lparr>sy_aux_idx := of_nat (length (st_aux st))\<rparr>],
                            st_aux := st_aux st @ [symbol_aux_default]\<rparr>
                    else st);
              i = unat (sy_aux_idx (st_syms st ! unat sid))
          in if i < length (st_aux st) then Some (i, st) else None }"

subsection \<open>Interning a batch\<close>

datatype resolved = Old u32 | New u32

fun bin_names :: "(bytes \<times> u64) list \<Rightarrow> nat \<Rightarrow> nat list list \<Rightarrow> nat list list option" where
  "bin_names [] i bins = Some bins"
| "bin_names ((name, h) # batch) i bins =
     do { bin \<leftarrow> nth_opt bins (shard_of h);
          bin_names batch (i + 1) (bins[shard_of h := bin @ [i]]) }"

text \<open>One shard: what each of its batch entries resolves to, and the names it sees first.\<close>

fun resolve_bin ::
    "(bytes \<times> u64) list \<Rightarrow> shard_map \<Rightarrow> nat list \<Rightarrow> shard_map \<Rightarrow> (bytes \<times> u64) list \<Rightarrow>
     ((nat \<times> resolved) list \<times> (bytes \<times> u64) list) option" where
  "resolve_bin batch shard [] newmap news = Some ([], news)"
| "resolve_bin batch shard (i # bin) newmap news =
     do { (name, h) \<leftarrow> nth_opt batch i;
          case map_of shard (h, name) of
            Some sid \<Rightarrow> map_option (\<lambda>(out, news). ((i, Old sid) # out, news)) (resolve_bin batch shard bin newmap news)
          | None \<Rightarrow>
              let (idx, newmap, news) =
                (case map_of newmap (h, name) of
                   Some idx \<Rightarrow> (idx, newmap, news)
                 | None \<Rightarrow> (of_nat (length news), ((h, name), of_nat (length news)) # newmap, news @ [(name, h)]))
              in map_option (\<lambda>(out, news). ((i, New idx) # out, news)) (resolve_bin batch shard bin newmap news) }"

text \<open>Where each shard's new symbols start.\<close>

fun shard_bases :: "nat \<Rightarrow> ('a \<times> 'b list) list \<Rightarrow> nat list" where
  "shard_bases base [] = []"
| "shard_bases base ((out, news) # results) = base # shard_bases (base + length news) results"

definition insert_news :: "shard_map \<Rightarrow> (bytes \<times> u64) list \<Rightarrow> nat \<Rightarrow> shard_map" where
  "insert_news shard news b = fold (\<lambda>k m. ((snd (news ! k), fst (news ! k)), of_nat (b + k)) # m) [0..<length news] shard"

fun scatter :: "nat \<Rightarrow> (nat \<times> resolved) list \<Rightarrow> u32 list \<Rightarrow> u32 list option" where
  "scatter b [] ids = Some ids"
| "scatter b ((i, r) # out) ids =
     (let v = (case r of Old sid \<Rightarrow> sid | New k \<Rightarrow> of_nat (b + unat k))
      in if i < length ids then scatter b out (ids[i := v]) else None)"

fun scatter_all :: "((nat \<times> resolved) list \<times> (bytes \<times> u64) list) list \<Rightarrow> nat list \<Rightarrow> u32 list \<Rightarrow> u32 list option" where
  "scatter_all ((out, news) # results) (b # bases) ids = do { ids \<leftarrow> scatter b out ids; scatter_all results bases ids }"
| "scatter_all _ _ ids = Some ids"

definition gather :: "symbol_table \<Rightarrow> (bytes \<times> u64) list \<Rightarrow> (u32 list \<times> symbol_table) option" where
  "gather st batch =
     do { bins \<leftarrow> bin_names batch 0 (replicate NUM_SHARDS []);
          results \<leftarrow> those (map (\<lambda>(shard, bin). resolve_bin batch shard bin [] []) (zip (st_shards st) bins));
          let bases = shard_bases (length (st_syms st)) results;
          let syms = st_syms st @ concat (map (\<lambda>(out, news). map (\<lambda>(name, h). symbol_new name) news) results);
          let shards = map (\<lambda>(shard, (out, news), b). insert_news shard news b) (zip (st_shards st) (zip results bases));
          ids \<leftarrow> scatter_all results bases (replicate (length batch) 0);
          Some (ids, st\<lparr>st_syms := syms, st_shards := shards\<rparr>) }"

subsection \<open>The table's invariant\<close>

text \<open>A shard's names are those whose hash falls to it, each once, and its ids are symbols of those names.\<close>

definition shard_ok :: "(bytes \<Rightarrow> u64) \<Rightarrow> symbol list \<Rightarrow> nat \<Rightarrow> shard_map \<Rightarrow> bool" where
  "shard_ok hash syms k m \<longleftrightarrow>
     distinct (map fst m) \<and>
     (\<forall>((h, key), sid) \<in> set m. h = hash key \<and> shard_of h = k \<and> unat sid < length syms \<and> sy_name (syms ! unat sid) = key)"

definition table_ok :: "(bytes \<Rightarrow> u64) \<Rightarrow> symbol_table \<Rightarrow> bool" where
  "table_ok hash st \<longleftrightarrow>
     length (st_shards st) = NUM_SHARDS \<and> (\<forall>k < NUM_SHARDS. shard_ok hash (st_syms st) k (st_shards st ! k))"

lemma shard_of_less: "shard_of h < 64"
proof -
  have "unat (h mod 64) = unat h mod 64" by (simp add: unat_mod)
  then show ?thesis by (simp add: shard_of_def)
qed

lemma shard_ok_mono: "shard_ok hash syms k m \<Longrightarrow> shard_ok hash (syms @ extra) k m"
  by (fastforce simp: shard_ok_def nth_append)

lemma table_ok_default: "table_ok hash symbol_table_default"
  by (simp add: table_ok_def symbol_table_default_def shard_ok_def)

lemma lookup_name:
  assumes "table_ok hash st" and "lookup hash st n = Some sid"
  shows "unat sid < length (st_syms st) \<and> sy_name (st_syms st ! unat sid) = n"
  using assms shard_of_less [of "hash n"]
  by (fastforce simp: lookup_def Let_def table_ok_def shard_ok_def nth_opt_def split: if_splits dest: map_of_SomeD)

lemma intern_ok:
  assumes t: "table_ok hash st" and l: "length (st_syms st) < 2 ^ 32"
  shows "\<exists>sid st'. intern hash st n = Some (sid, st') \<and> table_ok hash st' \<and> lookup hash st' n = Some sid \<and>
    (\<forall>m. m \<noteq> n \<longrightarrow> lookup hash st' m = lookup hash st m) \<and> take (length (st_syms st)) (st_syms st') = st_syms st"
proof -
  let ?k = "shard_of (hash n)"
  have k: "?k < length (st_shards st)" "length (st_shards st) = 64" using t shard_of_less by (simp_all add: table_ok_def)
  show ?thesis
  proof (cases "map_of (st_shards st ! ?k) (hash n, n)")
    case None
    let ?new = "of_nat (length (st_syms st)) :: u32"
    let ?st = "st\<lparr>st_syms := st_syms st @ [symbol_new n], st_shards := (st_shards st)[?k := ((hash n, n), ?new) # st_shards st ! ?k]\<rparr>"
    have u: "unat ?new = length (st_syms st)" using l by (intro unat_of_nat_small) simp
    have "shard_ok hash (st_syms st @ [symbol_new n]) j (st_shards ?st ! j)" if "j < 64" for j
    proof (cases "j = ?k")
      case True
      have "shard_ok hash (st_syms st @ [symbol_new n]) ?k (st_shards st ! ?k)" using t that k by (simp add: table_ok_def shard_ok_mono)
      then show ?thesis using None True k u by (auto simp: shard_ok_def symbol_new_def map_of_eq_None_iff)
    next
      case False
      then show ?thesis using t that by (simp add: table_ok_def shard_ok_mono)
    qed
    then have "table_ok hash ?st" using k by (simp add: table_ok_def)
    moreover have "intern hash st n = Some (?new, ?st)" using k None by (simp add: intern_def Let_def nth_opt_def)
    moreover have "lookup hash ?st n = Some ?new" using k by (simp add: lookup_def nth_opt_def)
    moreover have "\<forall>m. m \<noteq> n \<longrightarrow> lookup hash ?st m = lookup hash st m"
      using k by (auto simp: lookup_def nth_opt_def Let_def nth_list_update)
    ultimately show ?thesis by force
  next
    case (Some sid)
    then show ?thesis using k t by (simp add: intern_def lookup_def Let_def nth_opt_def)
  qed
qed

subsection \<open>A batch\<close>

lemma bin_names_ok:
  "length bins = 64 \<Longrightarrow> \<exists>bins'. bin_names batch i bins = Some bins' \<and> length bins' = 64 \<and>
     (\<forall>k < 64. \<forall>j. j \<in> set (bins' ! k) \<longleftrightarrow>
        j \<in> set (bins ! k) \<or> i \<le> j \<and> j < i + length batch \<and> shard_of (snd (batch ! (j - i))) = k) \<and>
     sum_list (map length bins') = sum_list (map length bins) + length batch"
proof (induction batch i bins rule: bin_names.induct)
  case (2 name h batch i bins)
  let ?bins = "bins[shard_of h := bins ! shard_of h @ [i]]"
  have k: "shard_of h < length bins" using 2(2) shard_of_less by simp
  have "sum_list (map length ?bins) = sum_list (map length bins) + 1"
    using k member_le_sum_list [of "length (bins ! shard_of h)" "map length bins"] by (simp add: map_update sum_list_update)
  then obtain bins' where b: "bin_names batch (i + 1) ?bins = Some bins'" "length bins' = 64"
      "sum_list (map length bins') = sum_list (map length bins) + length ((name, h) # batch)"
    and m: "\<And>k j. k < 64 \<Longrightarrow> j \<in> set (bins' ! k) \<longleftrightarrow>
      j \<in> set (?bins ! k) \<or> i + 1 \<le> j \<and> j < i + 1 + length batch \<and> shard_of (snd (batch ! (j - (i + 1)))) = k"
    using "2.IH" [of "bins ! shard_of h"] 2(2) k by (auto simp: nth_opt_def)
  have n: "((name, h) # batch) ! (j - i) = (if j = i then (name, h) else batch ! (j - (i + 1)))" if "i \<le> j" for j
    using that by (auto simp: nth_Cons')
  have "j \<in> set (bins' ! k) \<longleftrightarrow> j \<in> set (bins ! k) \<or> i \<le> j \<and> j < i + length ((name, h) # batch) \<and> shard_of (snd (((name, h) # batch) ! (j - i))) = k"
    if "k < 64" for k j
    unfolding m [OF that] using k 2(2) that n [of j] by (cases "i \<le> j") (auto simp: nth_list_update)
  then show ?case using b k by (simp add: nth_opt_def)
qed auto

definition news_map :: "(bytes \<times> u64) list \<Rightarrow> nat \<Rightarrow> shard_map" where
  "news_map news b = rev (map (\<lambda>k. ((snd (news ! k), fst (news ! k)), of_nat (b + k))) [0..<length news])"

lemma news_map_snoc: "news_map (news @ [(n, h)]) b = ((h, n), of_nat (b + length news)) # news_map news b"
  by (simp add: news_map_def nth_append)

lemma position_nth: "position (\<lambda>y. y = x) xs = Some k \<Longrightarrow> k < length xs \<and> xs ! k = x"
  using nth_length_takeWhile [of "\<lambda>y. y \<noteq> x" xs] by (auto simp: position_def Let_def split: if_splits)

lemma position_absent: "position (\<lambda>y. y = x) xs = None \<longleftrightarrow> x \<notin> set xs"
proof (cases "x \<in> set xs")
  case True
  then show ?thesis using position_mem [OF True] by auto
next
  case False
  then show ?thesis using position_nth [of x xs] by (cases "position (\<lambda>y. y = x) xs") auto
qed

lemma map_of_news_map:
  assumes "distinct news"
  shows "map_of (news_map news b) (h, n) =
    (case position (\<lambda>x. x = (n, h)) news of None \<Rightarrow> None | Some k \<Rightarrow> Some (of_nat (b + k)))"
  using assms
proof (induction news rule: rev_induct)
  case Nil
  then show ?case by (simp add: news_map_def position_def)
next
  case (snoc x news)
  have p: "position (\<lambda>y. y = (n, h)) (news @ [x]) =
      (if (n, h) \<in> set news then position (\<lambda>y. y = (n, h)) news else if x = (n, h) then Some (length news) else None)"
  proof (cases "(n, h) \<in> set news")
    case True
    then have "takeWhile (\<lambda>y. y \<noteq> (n, h)) (news @ [x]) = takeWhile (\<lambda>y. y \<noteq> (n, h)) news" by (intro takeWhile_append1) auto
    moreover have "length (takeWhile (\<lambda>y. y \<noteq> (n, h)) news) < length news" using position_mem [OF True] by (auto simp: position_def Let_def split: if_splits)
    ultimately show ?thesis using True by (simp add: position_def)
  next
    case False
    then have "takeWhile (\<lambda>y. y \<noteq> (n, h)) (news @ [x]) = news @ takeWhile (\<lambda>y. y \<noteq> (n, h)) [x]" by (intro takeWhile_append2) auto
    then show ?thesis using False by (simp add: position_def)
  qed
  have q: "position (\<lambda>y. y = (n, h)) news = None" if "(n, h) \<notin> set news" using that by (simp add: position_absent)
  obtain n' h' where x: "x = (n', h')" by (cases x)
  show ?case using snoc p q by (auto simp: x news_map_snoc)
qed

text \<open>What a shard's pass over its entries leaves.\<close>

definition news_ok :: "shard_map \<Rightarrow> (bytes \<times> u64) list \<Rightarrow> (bytes \<times> u64) list \<Rightarrow> bool" where
  "news_ok shard batch news \<longleftrightarrow> distinct news \<and> (\<forall>(n, h) \<in> set news. (n, h) \<in> set batch \<and> map_of shard (h, n) = None)"

definition entry_ok :: "shard_map \<Rightarrow> (bytes \<times> u64) list \<Rightarrow> (bytes \<times> u64) list \<Rightarrow> nat \<times> resolved \<Rightarrow> bool" where
  "entry_ok shard batch news e \<longleftrightarrow>
     (case e of (i, Old sid) \<Rightarrow> map_of shard (snd (batch ! i), fst (batch ! i)) = Some sid
      | (i, New k) \<Rightarrow> unat k < length news \<and> news ! unat k = batch ! i)"

lemma entry_ok_mono: "entry_ok shard batch news e \<Longrightarrow> entry_ok shard batch (news @ ext) e"
  by (auto simp: entry_ok_def nth_append split: prod.splits resolved.splits)

lemma resolve_bin_ok:
  "news_ok shard batch news \<Longrightarrow> \<forall>i \<in> set bin. i < length batch \<Longrightarrow> length news + length bin < 2 ^ 32 \<Longrightarrow>
   \<exists>out news'. resolve_bin batch shard bin (news_map news 0) news = Some (out, news') \<and> news_ok shard batch news' \<and>
     (\<exists>ext. news' = news @ ext) \<and> fst ` set out = set bin \<and> (\<forall>e \<in> set out. entry_ok shard batch news' e) \<and>
     length news' \<le> length news + length bin \<and> set news' \<subseteq> set news \<union> (!) batch ` set bin"
proof (induction bin arbitrary: news)
  case (Cons i bin)
  obtain n h where e: "batch ! i = (n, h)" by (cases "batch ! i")
  have i: "nth_opt batch i = Some (n, h)" using Cons.prems(2) e by (simp add: nth_opt_def)
  have prems: "\<forall>i \<in> set bin. i < length batch" "length news + length bin < 2 ^ 32" using Cons.prems by simp_all
  show ?case
  proof (cases "map_of shard (h, n)")
    case (Some sid)
    then show ?thesis using Cons.IH [OF Cons.prems(1) prems] i e by (fastforce simp: entry_ok_def)
  next
    case None
    note m = map_of_news_map [of news 0 h n]
    have d: "distinct news" using Cons.prems(1) by (simp add: news_ok_def)
    show ?thesis
    proof (cases "position (\<lambda>x. x = (n, h)) news")
      case (Some k)
      have k: "k < length news" "news ! k = (n, h)" using position_nth [OF Some] by simp_all
      have u: "unat (of_nat k :: u32) = k" using k prems(2) by (intro unat_of_nat_small) simp
      obtain out news' where r: "resolve_bin batch shard bin (news_map news 0) news = Some (out, news')" "news_ok shard batch news'"
          "\<exists>ext. news' = news @ ext" "fst ` set out = set bin" "\<forall>e \<in> set out. entry_ok shard batch news' e"
          "length news' \<le> length news + length bin" "set news' \<subseteq> set news \<union> (!) batch ` set bin"
        using Cons.IH [OF Cons.prems(1) prems] by blast
      have "entry_ok shard batch news' (i, New (of_nat k))" using r(3) k u e by (auto simp: entry_ok_def nth_append)
      then show ?thesis using r i None m d Some by auto
    next
      case N: None
      let ?news = "news @ [(n, h)]"
      have mem: "(n, h) \<in> set batch" using e Cons.prems(2) by (metis list.set_intros(1) nth_mem)
      have "(n, h) \<notin> set news" using N position_absent [of "(n, h)" news] by simp
      then have ok: "news_ok shard batch ?news" using Cons.prems(1) None mem by (auto simp: news_ok_def)
      obtain out news' where r: "resolve_bin batch shard bin (news_map ?news 0) ?news = Some (out, news')" "news_ok shard batch news'"
          "\<exists>ext. news' = ?news @ ext" "fst ` set out = set bin" "\<forall>e \<in> set out. entry_ok shard batch news' e"
          "length news' \<le> length ?news + length bin" "set news' \<subseteq> set ?news \<union> (!) batch ` set bin"
        using Cons.IH [OF ok prems(1)] Cons.prems(3) by auto
      have u: "unat (of_nat (length news) :: u32) = length news" using Cons.prems(3) by (intro unat_of_nat_small) simp
      have "entry_ok shard batch news' (i, New (of_nat (length news)))" using r(3) u e by (auto simp: entry_ok_def nth_append)
      then show ?thesis using r i None m d N e by (auto simp: news_map_snoc)
    qed
  qed
qed auto

lemma insert_news_eq: "insert_news shard news b = news_map news b @ shard"
proof -
  have "fold (\<lambda>k m. (f k, g k) # m) ks shard = rev (map (\<lambda>k. (f k, g k)) ks) @ shard" for f g and ks :: "nat list"
    by (induction ks arbitrary: shard) auto
  then show ?thesis by (simp add: insert_news_def news_map_def)
qed

text \<open>Where the new symbols go.\<close>

lemma shard_bases_ok:
  fixes results :: "('a \<times> (bytes \<times> u64) list) list"
  shows "length (shard_bases base results) = length results \<and>
    (\<forall>k < length results. \<forall>j < length (snd (results ! k)). \<forall>syms. length syms = base \<longrightarrow>
      (let all = syms @ concat (map (\<lambda>(out, news). map (\<lambda>(name, h). symbol_new name) news) results); p = shard_bases base results ! k + j
       in p < length all \<and> all ! p = symbol_new (fst (snd (results ! k) ! j))))"
proof (induction results arbitrary: base)
  case (Cons r results)
  obtain out news where r: "r = (out, news)" by (cases r)
  note IH = Cons [of "base + length news"]
  have "let all = syms @ concat (map (\<lambda>(out, news). map (\<lambda>(name, h). symbol_new name) news) (r # results)); p = shard_bases base (r # results) ! k + j
       in p < length all \<and> all ! p = symbol_new (fst (snd ((r # results) ! k) ! j))"
    if k: "k < length (r # results)" and j: "j < length (snd ((r # results) ! k))" and l: "length syms = base" for k j syms
  proof (cases k)
    case 0
    then show ?thesis using j l by (auto simp: r Let_def nth_append split_beta)
  next
    case (Suc k')
    have "length (syms @ map (\<lambda>(name, h). symbol_new name) news) = base + length news" using l by simp
    then show ?thesis using IH Suc k j by (fastforce simp: r Let_def)
  qed
  then show ?case using IH by (auto simp: r)
qed simp

text \<open>The ids come back to their entries.\<close>

definition res_val :: "nat \<Rightarrow> resolved \<Rightarrow> u32" where
  "res_val b r = (case r of Old sid \<Rightarrow> sid | New k \<Rightarrow> of_nat (b + unat k))"

lemma scatter_ok:
  "\<forall>(i, r) \<in> set out. i < length ids \<and> P i (res_val b r) \<Longrightarrow> \<forall>i \<in> I. P i (ids ! i) \<Longrightarrow>
   \<exists>ids'. scatter b out ids = Some ids' \<and> length ids' = length ids \<and> (\<forall>i \<in> I \<union> fst ` set out. P i (ids' ! i))"
proof (induction b out ids arbitrary: I rule: scatter.induct)
  case (2 b i r out ids)
  have i: "i < length ids" "P i (res_val b r)" using "2.prems"(1) by auto
  have "\<forall>j \<in> insert i I. P j (ids[i := res_val b r] ! j)" using i "2.prems"(2) by (auto simp: nth_list_update)
  moreover have "\<forall>(j, r') \<in> set out. j < length (ids[i := res_val b r]) \<and> P j (res_val b r')" using "2.prems"(1) by auto
  ultimately obtain ids' where "scatter b out (ids[i := res_val b r]) = Some ids'" "length ids' = length ids"
      "\<forall>j \<in> insert i I \<union> fst ` set out. P j (ids' ! j)"
    using "2.IH" [OF refl, of "insert i I"] i by (auto simp: res_val_def)
  then show ?case using i by (auto simp: res_val_def Let_def)
qed auto

lemma scatter_all_ok:
  "length bases = length results \<Longrightarrow>
   \<forall>k < length results. \<forall>(i, r) \<in> set (fst (results ! k)). i < length ids \<and> P i (res_val (bases ! k) r) \<Longrightarrow> \<forall>i \<in> I. P i (ids ! i) \<Longrightarrow>
   \<exists>ids'. scatter_all results bases ids = Some ids' \<and> length ids' = length ids \<and>
     (\<forall>i \<in> I \<union> (\<Union>k < length results. fst ` set (fst (results ! k))). P i (ids' ! i))"
proof (induction results bases ids arbitrary: I rule: scatter_all.induct)
  case (1 out news results b bases ids)
  have "\<forall>(i, r) \<in> set out. i < length ids \<and> P i (res_val b r)" using "1.prems"(2) by (force dest: spec [of _ 0])
  then obtain ids1 where s: "scatter b out ids = Some ids1" "length ids1 = length ids" "\<forall>i \<in> I \<union> fst ` set out. P i (ids1 ! i)"
    using scatter_ok [of out ids P b I] "1.prems"(3) by blast
  have "\<forall>k < length results. \<forall>(i, r) \<in> set (fst (results ! k)). i < length ids1 \<and> P i (res_val (bases ! k) r)"
    using "1.prems"(2) [rule_format, of "Suc _"] s(2) by fastforce
  then obtain ids2 where t: "scatter_all results bases ids1 = Some ids2" "length ids2 = length ids"
      "\<forall>i \<in> (I \<union> fst ` set out) \<union> (\<Union>k < length results. fst ` set (fst (results ! k))). P i (ids2 ! i)"
    using "1.IH" [OF s(1), of "I \<union> fst ` set out"] "1.prems"(1) s by auto
  have "I \<union> (\<Union>k < length ((out, news) # results). fst ` set (fst (((out, news) # results) ! k))) =
      (I \<union> fst ` set out) \<union> (\<Union>k < length results. fst ` set (fst (results ! k)))"
    by (simp add: lessThan_Suc_eq_insert_0 image_Un Un_assoc)
  then show ?case using s t by simp
qed auto

lemma map_of_news_none: "distinct news \<Longrightarrow> map_of (news_map news b) (h, n) = None \<longleftrightarrow> (n, h) \<notin> set news"
  using position_absent [of "(n, h)" news] by (auto simp: map_of_news_map split: option.splits)

lemma map_of_news_nth: "distinct news \<Longrightarrow> j < length news \<Longrightarrow> news ! j = (n, h) \<Longrightarrow> map_of (news_map news b) (h, n) = Some (of_nat (b + j))"
  using position_distinct [of news j] by (simp add: map_of_news_map)

text \<open>A shard of the new table: its new names have ids of their own, its old ones keep theirs.\<close>

lemma shard_ok_news:
  assumes old: "shard_ok hash syms k m" and news: "news_ok m batch news" and syms': "length syms \<le> length syms'" "take (length syms) syms' = syms"
    and h: "\<forall>(n, h) \<in> set news. h = hash n \<and> shard_of h = k" and l: "length syms' < 2 ^ 32"
    and new: "\<And>j. j < length news \<Longrightarrow> b + j < length syms' \<and> syms' ! (b + j) = symbol_new (fst (news ! j))"
  shows "shard_ok hash syms' k (news_map news b @ m)"
proof -
  have d: "distinct news" "\<And>n h. (n, h) \<in> set news \<Longrightarrow> (h, n) \<notin> fst ` set m" using news by (auto simp: news_ok_def map_of_eq_None_iff)
  have keys: "map fst (news_map news b) = rev (map (\<lambda>(n, h). (h, n)) news)"
    unfolding news_map_def rev_map [symmetric] by (intro arg_cong [of _ _ rev] nth_equalityI) (auto simp: split_beta)
  have "distinct (map fst (news_map news b))" unfolding keys using d(1) by (simp add: distinct_map inj_on_def split_beta prod_eq_iff)
  moreover have "set (map fst (news_map news b)) \<inter> set (map fst m) = {}" unfolding keys using d(2) by auto
  moreover have "syms' ! unat sid = syms ! unat sid" if "unat sid < length syms" for sid using that syms' by (metis nth_take)
  moreover have "h' = hash key \<and> shard_of h' = k \<and> unat sid < length syms' \<and> sy_name (syms' ! unat sid) = key"
    if m: "((h', key), sid) \<in> set (news_map news b)" for h' key sid
  proof -
    obtain j where j: "j < length news" "news ! j = (key, h')" "sid = of_nat (b + j)" using m by (auto simp: news_map_def prod_eq_iff simp del: of_nat_add)
    have "unat sid = b + j" unfolding j(3) using new [OF j(1)] l by (intro unat_of_nat_small) simp
    moreover have "(key, h') \<in> set news" using j by (metis nth_mem)
    ultimately show ?thesis using h new [OF j(1)] j by (auto simp: symbol_new_def)
  qed
  ultimately show ?thesis using old syms'(1) by (fastforce simp: shard_ok_def)
qed

text \<open>
  C36. Interning keeps the symbol table's invariant: a batch of names (with their hashes) is taken in
  without a panic, each entry gets the one symbol of its name, equal names the same one, a name that
  was there keeps its symbol, and no other name appears; the old symbols are untouched.
\<close>

theorem gather_ok:
  assumes t: "table_ok hash st" and hash: "\<forall>(n, h) \<in> set batch. h = hash n" and l: "length (st_syms st) + length batch < 2 ^ 32"
  shows "\<exists>ids st'. gather st batch = Some (ids, st') \<and> table_ok hash st' \<and> length ids = length batch \<and>
    (\<forall>i < length batch. lookup hash st' (fst (batch ! i)) = Some (ids ! i)) \<and>
    (\<forall>n sid. lookup hash st n = Some sid \<longrightarrow> lookup hash st' n = Some sid) \<and>
    (\<forall>n. n \<notin> fst ` set batch \<longrightarrow> lookup hash st' n = lookup hash st n) \<and>
    take (length (st_syms st)) (st_syms st') = st_syms st"
proof -
  have ls: "length (st_shards st) = 64" using t by (simp add: table_ok_def)
  obtain bins where bins: "bin_names batch 0 (replicate NUM_SHARDS []) = Some bins" "length bins = 64"
    "\<And>k j. k < 64 \<Longrightarrow> j \<in> set (bins ! k) \<longleftrightarrow> j < length batch \<and> shard_of (snd (batch ! j)) = k"
    "sum_list (map length bins) = length batch"
    using bin_names_ok [of "replicate 64 []" batch 0] by (auto simp: sum_list_triv)
  define sh where "sh k = st_shards st ! k" for k
  define f where "f x = (case x of (shard, bin) \<Rightarrow> resolve_bin batch shard bin [] [])" for x
  define results where "results = map (the \<circ> f) (zip (st_shards st) bins)"
  have lb: "length (bins ! k) \<le> length batch" if "k < 64" for k
    using bins(2,4) that member_le_sum_list [of "length (bins ! k)" "map length bins"] by simp
  have res: "\<exists>out news. f (sh k, bins ! k) = Some (out, news) \<and> results ! k = (out, news) \<and> news_ok (sh k) batch news \<and>
      fst ` set out = set (bins ! k) \<and> (\<forall>e \<in> set out. entry_ok (sh k) batch news e) \<and>
      length news \<le> length (bins ! k) \<and> set news \<subseteq> (!) batch ` set (bins ! k)" if k: "k < 64" for k
  proof -
    have "news_ok (sh k) batch []" by (simp add: news_ok_def)
    moreover have "\<forall>i \<in> set (bins ! k). i < length batch" using bins(3) [OF k] by simp
    moreover have "length ([] :: (bytes \<times> u64) list) + length (bins ! k) < 2 ^ 32" using lb [OF k] l by simp
    ultimately obtain out news where "resolve_bin batch (sh k) (bins ! k) (news_map [] 0) [] = Some (out, news)" "news_ok (sh k) batch news"
        "fst ` set out = set (bins ! k)" "\<forall>e \<in> set out. entry_ok (sh k) batch news e" "length news \<le> length (bins ! k)"
        "set news \<subseteq> (!) batch ` set (bins ! k)"
      using resolve_bin_ok [of "sh k" batch "[]" "bins ! k"] by auto
    then show ?thesis using k ls bins(2) by (auto simp: results_def f_def sh_def news_map_def)
  qed
  have lr: "length results = 64" using ls bins(2) by (simp add: results_def)
  have those: "those (map f (zip (st_shards st) bins)) = Some results"
    unfolding results_def
  proof (rule those_map_total)
    fix x assume "x \<in> set (zip (st_shards st) bins)"
    then obtain k where "k < 64" "x = (sh k, bins ! k)" using ls by (auto simp: in_set_zip sh_def)
    then show "f x = Some ((the \<circ> f) x)" using res [of k] by auto
  qed
  define news where "news k = snd (results ! k)" for k
  define out where "out k = fst (results ! k)" for k
  have news: "news_ok (sh k) batch (news k)" "length (news k) \<le> length (bins ! k)" "set (news k) \<subseteq> (!) batch ` set (bins ! k)"
    "fst ` set (out k) = set (bins ! k)" "\<forall>e \<in> set (out k). entry_ok (sh k) batch (news k) e" if k: "k < 64" for k
  proof -
    obtain ou ne where "results ! k = (ou, ne)" "news_ok (sh k) batch ne" "fst ` set ou = set (bins ! k)"
        "\<forall>e \<in> set ou. entry_ok (sh k) batch ne e" "length ne \<le> length (bins ! k)" "set ne \<subseteq> (!) batch ` set (bins ! k)"
      using res [OF k] by blast
    then show "news_ok (sh k) batch (news k)" "length (news k) \<le> length (bins ! k)" "set (news k) \<subseteq> (!) batch ` set (bins ! k)"
      "fst ` set (out k) = set (bins ! k)" "\<forall>e \<in> set (out k). entry_ok (sh k) batch (news k) e"
      by (simp_all add: news_def out_def)
  qed
  let ?bases = "shard_bases (length (st_syms st)) results"
  define syms where "syms = st_syms st @ concat (map (\<lambda>(out, news). map (\<lambda>(name, h). symbol_new name) news) results)"
  define shards where "shards = map (\<lambda>(shard, (out, news), b). insert_news shard news b) (zip (st_shards st) (zip results ?bases))"
  have bases: "length ?bases = 64"
    and place: "\<And>k j. k < 64 \<Longrightarrow> j < length (news k) \<Longrightarrow> ?bases ! k + j < length syms \<and> syms ! (?bases ! k + j) = symbol_new (fst (news k ! j))"
    using shard_bases_ok [of "length (st_syms st)" results] lr by (auto simp: Let_def news_def syms_def)
  have shk: "shards ! k = news_map (news k) (?bases ! k) @ sh k" if "k < 64" for k
    using that ls lr bases by (simp add: shards_def insert_news_eq news_def sh_def split_beta)
  have "length syms = length (st_syms st) + sum_list (map (length \<circ> snd) results)"
    by (simp add: syms_def length_concat comp_def split_beta)
  also have "sum_list (map (length \<circ> snd) results) \<le> sum_list (map length bins)"
    using lr bins(2) news(2) by (intro sum_list_mono2) (auto simp: news_def)
  finally have lsyms: "length syms < 2 ^ 32" using bins(4) l by simp
  let ?P = "\<lambda>i v. map_of (shards ! shard_of (snd (batch ! i))) (snd (batch ! i), fst (batch ! i)) = Some v"
  have d: "distinct (news k)" "\<And>n h. (n, h) \<in> set (news k) \<Longrightarrow> map_of (sh k) (h, n) = None" if "k < 64" for k
    using news(1) [OF that] by (auto simp: news_ok_def)
  have "i < length (replicate (length batch) (0 :: u32)) \<and> ?P i (res_val (?bases ! k) r)" if "k < 64" "(i, r) \<in> set (out k)" for k i r
  proof -
    have i: "i \<in> set (bins ! k)" using news(4) [OF that(1)] that(2) by force
    then have i: "i < length batch" "shard_of (snd (batch ! i)) = k" using bins(3) [OF that(1)] by simp_all
    have e: "entry_ok (sh k) batch (news k) (i, r)" using news(5) that by blast
    obtain n h where b: "batch ! i = (n, h)" by (cases "batch ! i")
    show ?thesis
    proof (cases r)
      case (Old sid)
      then have "(n, h) \<notin> set (news k)" using e b d [OF that(1)] by (auto simp: entry_ok_def)
      then have "map_of (news_map (news k) (?bases ! k)) (h, n) = None" using map_of_news_none d that by blast
      then show ?thesis using e Old i b shk [OF that(1)] by (simp add: entry_ok_def res_val_def map_add_def)
    next
      case (New j)
      then show ?thesis using e i b shk [OF that(1)] map_of_news_nth [OF d(1) [OF that(1)], of "unat j" n h "?bases ! k"]
        by (auto simp: entry_ok_def res_val_def map_add_def)
    qed
  qed
  then obtain ids where ids: "scatter_all results ?bases (replicate (length batch) 0) = Some ids" "length ids = length batch"
      "\<forall>i \<in> {} \<union> (\<Union>k < length results. fst ` set (fst (results ! k))). ?P i (ids ! i)"
    using scatter_all_ok [of ?bases results "replicate (length batch) 0" ?P "{}"] lr bases by (auto simp: out_def)
  have P: "?P i (ids ! i)" if "i < length batch" for i
  proof -
    have "i \<in> set (bins ! shard_of (snd (batch ! i)))" using bins(3) [OF shard_of_less] that by simp
    then show ?thesis using ids(3) news(4) [OF shard_of_less] shard_of_less lr by (fastforce simp: out_def)
  qed
  let ?st = "st\<lparr>st_syms := syms, st_shards := shards\<rparr>"
  have g: "gather st batch = Some (ids, ?st)"
    using those bins(1) ids(1) by (simp add: gather_def f_def [abs_def] Let_def syms_def shards_def)
  have lsh: "length shards = 64" using ls lr bases by (simp add: shards_def)
  have take: "take (length (st_syms st)) syms = st_syms st" by (simp add: syms_def)
  have nh: "\<forall>(n, h) \<in> set (news k). h = hash n \<and> shard_of h = k \<and> n \<in> fst ` set batch" if k: "k < 64" for k
  proof -
    have "h = hash n \<and> shard_of h = k \<and> n \<in> fst ` set batch" if m: "(n, h) \<in> set (news k)" for n h
    proof -
      obtain i where i: "i \<in> set (bins ! k)" "(n, h) = batch ! i" using news(3) [OF k] m by blast
      then have "(n, h) \<in> set batch" using bins(3) [OF k] by (metis nth_mem)
      moreover have "shard_of h = k" using i bins(3) [OF k] by (metis snd_conv)
      ultimately show ?thesis using hash by force
    qed
    then show ?thesis by blast
  qed
  have "shard_ok hash syms k (shards ! k)" if k: "k < 64" for k
    unfolding shk [OF k]
    using t k nh [OF k] place [OF k] news(1) [OF k] take lsyms
    by (intro shard_ok_news [where syms = "st_syms st" and batch = batch]) (auto simp: table_ok_def sh_def syms_def)
  then have "table_ok hash ?st" using lsh by (simp add: table_ok_def)
  moreover have lk: "lookup hash ?st n = (case map_of (news_map (news (shard_of (hash n))) (?bases ! shard_of (hash n))) (hash n, n) of
      Some v \<Rightarrow> Some v | None \<Rightarrow> lookup hash st n)" for n
    using shard_of_less [of "hash n"] lsh ls by (simp add: lookup_def Let_def nth_opt_def shk sh_def map_add_def split: option.splits)
  have "lookup hash ?st n = Some sid" if "lookup hash st n = Some sid" for n sid
  proof -
    have "map_of (sh (shard_of (hash n))) (hash n, n) = Some sid" using that shard_of_less [of "hash n"] ls by (simp add: lookup_def Let_def nth_opt_def sh_def)
    then have "(n, hash n) \<notin> set (news (shard_of (hash n)))" using d(2) [OF shard_of_less] by fastforce
    then have "map_of (news_map (news (shard_of (hash n))) b) (hash n, n) = None" for b
      using map_of_news_none [OF d(1) [OF shard_of_less]] by blast
    then show ?thesis using that by (simp add: lk)
  qed
  moreover have "lookup hash ?st n = lookup hash st n" if "n \<notin> fst ` set batch" for n
  proof -
    have "(n, hash n) \<notin> set (news (shard_of (hash n)))" using nh [OF shard_of_less] that by fastforce
    then have "map_of (news_map (news (shard_of (hash n))) b) (hash n, n) = None" for b
      using map_of_news_none [OF d(1) [OF shard_of_less]] by blast
    then show ?thesis by (simp add: lk)
  qed
  moreover have "lookup hash ?st (fst (batch ! i)) = Some (ids ! i)" if "i < length batch" for i
  proof -
    have "snd (batch ! i) = hash (fst (batch ! i))" using hash that by (metis (mono_tags, lifting) case_prod_beta nth_mem)
    then show ?thesis using P [OF that] shard_of_less lsh by (simp add: lookup_def Let_def nth_opt_def)
  qed
  ultimately show ?thesis using g ids(2) take by auto
qed

text \<open>A batch with a name that is in the table already, and one that comes twice.\<close>

definition wit_hash :: "bytes \<Rightarrow> u64" where
  "wit_hash n = of_nat (length n)"

definition wit_table :: symbol_table where
  "wit_table = (case intern wit_hash symbol_table_default (bstr ''_a'') of Some (_, st) \<Rightarrow> st | None \<Rightarrow> symbol_table_default)"

definition wit_batch :: "(bytes \<times> u64) list" where
  "wit_batch = map (\<lambda>n. (n, wit_hash n)) [bstr ''_b'', bstr ''_main'', bstr ''_a'', bstr ''_b'']"

lemma wit_table_ok: "table_ok wit_hash wit_table" "length (st_syms wit_table) = 1"
proof -
  obtain sid st' where i: "intern wit_hash symbol_table_default (bstr ''_a'') = Some (sid, st')" "table_ok wit_hash st'"
    using intern_ok [OF table_ok_default [of wit_hash], of "bstr ''_a''"] by (auto simp: symbol_table_default_def)
  then show "table_ok wit_hash wit_table" by (simp add: wit_table_def)
  show "length (st_syms wit_table) = 1" by code_simp
qed

theorem gather_ok_witness:
  "\<exists>ids st'. gather wit_table wit_batch = Some (ids, st') \<and> table_ok wit_hash st' \<and>
     lookup wit_hash st' (bstr ''_main'') = Some (ids ! 1) \<and> ids ! 0 = ids ! 3"
proof -
  have h: "\<forall>(n, h) \<in> set wit_batch. h = wit_hash n" by (auto simp: wit_batch_def)
  have l: "length (st_syms wit_table) + length wit_batch < 2 ^ 32" by (simp add: wit_table_ok wit_batch_def)
  obtain ids st' where g: "gather wit_table wit_batch = Some (ids, st')" "table_ok wit_hash st'"
      "\<forall>i < length wit_batch. lookup wit_hash st' (fst (wit_batch ! i)) = Some (ids ! i)"
    using gather_ok [OF wit_table_ok(1) h l] by blast
  have "lookup wit_hash st' (bstr ''_main'') = Some (ids ! 1)" using g(3) [rule_format, of 1] by (simp add: wit_batch_def)
  moreover have "lookup wit_hash st' (bstr ''_b'') = Some (ids ! 0)" "lookup wit_hash st' (bstr ''_b'') = Some (ids ! 3)"
    using g(3) [rule_format, of 0] g(3) [rule_format, of 3] by (simp_all add: wit_batch_def)
  ultimately show ?thesis using g by auto
qed

end
