(* ===== verification/Link.thy ===== *)
theory Link
  imports SymbolTable
begin

unbundle bit_operations_syntax

section \<open>The link's context, as the passes read it (\<open>context.rs\<close>, \<open>symbol.rs\<close>)\<close>

text \<open>
  The context's arenas (subsections, symbols, objects, dylibs, unwind records) and the questions the
  passes ask of a symbol: how it binds, where it is, what a branch to it reaches. \<open>None\<close> is an index
  out of range, or an \<^verbatim>\<open>unwrap\<close> of nothing. Option values of the command line that are compiled
  patterns are the functions their \<^verbatim>\<open>find\<close> computes.
\<close>

subsection \<open>Targets\<close>

record arch =
  ar_cputype :: u32
  ar_page_size :: u64
  ar_stub_size :: u64
  ar_objc_stub_size :: u64
  ar_objc_small_stub_size :: u64
  ar_delay_stub_size :: u64
  ar_branch_range :: u64
  ar_thunk_size :: u64
  ar_reloc_unsigned :: u8
  ar_reloc_branch :: u8
  ar_stub_helper_header_size :: u64
  ar_stub_helper_entry_size :: u64
  ar_lazy_helpers_p2align :: u32
  ar_dlopen_helper_size :: u32
  ar_delay_p2align :: u32

definition arch_arm64 :: arch where
  "arch_arm64 =
     \<lparr>ar_cputype = CPU_TYPE_ARM64, ar_page_size = 16384, ar_stub_size = 12, ar_objc_stub_size = 32,
      ar_objc_small_stub_size = 12, ar_delay_stub_size = 40, ar_branch_range = push_bit 28 1, ar_thunk_size = 12,
      ar_reloc_unsigned = ARM64_RELOC_UNSIGNED, ar_reloc_branch = ARM64_RELOC_BRANCH26,
      ar_stub_helper_header_size = 24, ar_stub_helper_entry_size = 12, ar_lazy_helpers_p2align = 2,
      ar_dlopen_helper_size = 160, ar_delay_p2align = 2\<rparr>"

definition arch_x86_64 :: arch where
  "arch_x86_64 =
     \<lparr>ar_cputype = CPU_TYPE_X86_64, ar_page_size = 4096, ar_stub_size = 6, ar_objc_stub_size = 13,
      ar_objc_small_stub_size = 13, ar_delay_stub_size = 25, ar_branch_range = push_bit 32 1, ar_thunk_size = 0,
      ar_reloc_unsigned = X86_64_RELOC_UNSIGNED, ar_reloc_branch = X86_64_RELOC_BRANCH,
      ar_stub_helper_header_size = 16, ar_stub_helper_entry_size = 12, ar_lazy_helpers_p2align = 0,
      ar_dlopen_helper_size = 153, ar_delay_p2align = 0\<rparr>"

definition is_func_call :: "arch \<Rightarrow> reloc \<Rightarrow> bool" where
  "is_func_call e r \<longleftrightarrow> rl_ty r = ar_reloc_branch e"

definition is_absrel :: "arch \<Rightarrow> reloc \<Rightarrow> bool" where
  "is_absrel e rel \<longleftrightarrow> rl_ty rel = ar_reloc_unsigned e \<and> rl_size rel = 8 \<and> \<not> rl_is_pcrel rel \<and> \<not> rl_is_subtracted rel"

subsection \<open>The context\<close>

record link_args =
  la_output_type :: u32
  la_relocatable :: bool
  la_flat_namespace :: bool
  la_static_link :: bool
  la_shared_region :: bool
  la_legacy_linkedit :: bool
  la_lazy_binding :: bool
  la_preload :: bool
  la_export_dynamic :: bool
  la_objc_stubs_small :: bool
  la_no_branch_islands :: bool
  la_fixup_chains :: bool
  la_fixup_chains_section :: bool
  la_dead_strip :: bool
  la_segment_align :: u64
  la_platform :: u32
  la_platform_minos :: u32
  la_entry :: bytes
  la_aliases :: "(bytes \<times> bytes) list"
  la_forced_undefined :: "bytes list"
  la_interposable :: "(bytes \<Rightarrow> int) option"
  la_exported_symbols :: "(bytes \<Rightarrow> int) option"

definition la_is_kext :: "link_args \<Rightarrow> bool" where
  "la_is_kext a \<longleftrightarrow> la_output_type a = MH_KEXT_BUNDLE"

definition la_is_dylinker :: "link_args \<Rightarrow> bool" where
  "la_is_dylinker a \<longleftrightarrow> la_output_type a = MH_DYLINKER"

definition la_has_entry_point :: "link_args \<Rightarrow> bool" where
  "la_has_entry_point a \<longleftrightarrow> (la_output_type a = MH_EXECUTE \<and> \<not> la_relocatable a) \<or> la_is_dylinker a"

definition la_without_dyld :: "link_args \<Rightarrow> bool" where
  "la_without_dyld a \<longleftrightarrow> la_static_link a \<or> la_is_kext a"

record object_file =
  ob_is_reachable :: bool
  ob_subsections_via_symbols :: bool
  ob_sect_hdrs :: "mach_section list"
  ob_relocs :: "reloc list"
  ob_symbols :: "u32 list"

text \<open>The sets of exports are the lists of their elements.\<close>

record dylib_file =
  dl_dylib_idx :: int
  dl_binds_to_image :: bool
  dl_is_lazy :: bool
  dl_delay_init :: "bytes option"
  dl_tlv_exports :: "bytes list"
  dl_weak_exports :: "bytes list"

definition dylib_bind_ordinal :: "dylib_file \<Rightarrow> bool \<Rightarrow> int" where
  "dylib_bind_ordinal d flat_namespace =
     (if flat_namespace then BIND_SPECIAL_DYLIB_FLAT_LOOKUP
      else if dl_binds_to_image d then BIND_SPECIAL_DYLIB_SELF
      else dl_dylib_idx d)"

record cie_record =
  ci_personality :: "u32 option"

record fde_record =
  fd_cie :: u32
  fd_isec :: u32
  fd_lsda :: "(u32 \<times> u32) option"
  fd_output_offset :: u32

record thunk =
  th_offset :: u64
  th_syms :: "u32 list"

record output_section =
  ose_hdr :: chunk_header
  ose_members :: "u32 list"
  ose_thunks :: "thunk list"
  ose_tail_off :: u64

datatype init_func = InitLocal nat u64 | InitImported u32

text \<open>\<open>lk_hdr\<close> gives the headers of the chunks that are fields of the context.\<close>

record link =
  lk_arch :: arch
  lk_args :: link_args
  lk_hash :: "bytes \<Rightarrow> u64"
  lk_isecs :: "input_section list"
  lk_objs :: "object_file list"
  lk_dylibs :: "dylib_file list"
  lk_symbols :: symbol_table
  lk_unwind_records :: "unwind_record list"
  lk_fdes :: "fde_record list"
  lk_cies :: "cie_record list"
  lk_internal_obj :: "nat option"
  lk_chunks :: "chunk_id list"
  lk_hdr :: "chunk_id \<Rightarrow> chunk_header"
  lk_output_sections :: "output_section list"
  lk_segments :: "out_segment list"
  lk_chained_disabled :: bool
  lk_stubs_lazy :: "u32 list"
  lk_lazy_helper_offsets :: "u32 list"
  lk_init_funcs :: "init_func list"

definition lk_syms :: "link \<Rightarrow> symbol list" where
  "lk_syms ctx = st_syms (lk_symbols ctx)"

definition chunk_header_of :: "link \<Rightarrow> chunk_id \<Rightarrow> chunk_header option" where
  "chunk_header_of ctx c =
     (case c of
        ChOutput i \<Rightarrow> map_option ose_hdr (nth_opt (lk_output_sections ctx) (unat i))
      | _ \<Rightarrow> Some (lk_hdr ctx c))"

definition is_internal :: "link \<Rightarrow> nat \<Rightarrow> bool" where
  "is_internal ctx i \<longleftrightarrow> lk_internal_obj ctx = Some i"

definition link_use_chained_fixups :: "link \<Rightarrow> bool" where
  "link_use_chained_fixups ctx \<longleftrightarrow> la_fixup_chains (lk_args ctx) \<and> \<not> lk_chained_disabled ctx"

definition isec_hdr :: "link \<Rightarrow> input_section \<Rightarrow> mach_section option" where
  "isec_hdr ctx s =
     do { file \<leftarrow> nth_opt (lk_objs ctx) (unat (is_file s)); nth_opt (ob_sect_hdrs file) (unat (is_shndx s)) }"

definition isec_addr :: "link \<Rightarrow> input_section \<Rightarrow> u64 option" where
  "isec_addr ctx s =
     do { s \<leftarrow> (if is_replacement s \<noteq> NO_REPLACEMENT
               then do { i \<leftarrow> resolve (lk_isecs ctx) (unat (is_replacement s)); nth_opt (lk_isecs ctx) i }
               else Some s);
          case isec_output_section s of
            None \<Rightarrow> Some 0
          | Some chunk \<Rightarrow>
              if is_offset s = 0xffffffff then Some 0
              else map_option (\<lambda>hdr. ch_addr hdr + ucast (is_offset s)) (chunk_header_of ctx chunk) }"

text \<open>The symbol a relocation refers to, in its object; the inner \<open>None\<close> is a section target.\<close>

definition reloc_sym :: "object_file \<Rightarrow> reloc \<Rightarrow> u32 option option" where
  "reloc_sym file r =
     (case reloc_target_of r of
        RtSym i \<Rightarrow> map_option Some (nth_opt (ob_symbols file) (unat i))
      | RtSection _ \<Rightarrow> Some None)"

definition reloc_subsec :: "link \<Rightarrow> object_file \<Rightarrow> reloc \<Rightarrow> u32 option option" where
  "reloc_subsec ctx file rel =
     (case reloc_target_of rel of
        RtSym i \<Rightarrow> do { sid \<leftarrow> nth_opt (ob_symbols file) (unat i);
                        map_option sy_input_section (nth_opt (lk_syms ctx) (unat sid)) }
      | RtSection i \<Rightarrow> Some (Some i))"

definition refers_to_tls :: "link \<Rightarrow> object_file \<Rightarrow> reloc \<Rightarrow> bool option" where
  "refers_to_tls ctx file rel =
     do { target \<leftarrow> reloc_subsec ctx file rel;
          case target of
            None \<Rightarrow> Some False
          | Some i \<Rightarrow>
              do { isec \<leftarrow> nth_opt (lk_isecs ctx) (unat i);
                   hdr \<leftarrow> isec_hdr ctx isec;
                   Some (section_type hdr \<in> {S_THREAD_LOCAL_REGULAR, S_THREAD_LOCAL_ZEROFILL}) } }"

definition function_personality :: "link \<Rightarrow> unwind_record \<Rightarrow> u32 option option" where
  "function_personality ctx r =
     (case ur_personality r of
        Some p \<Rightarrow> Some (Some p)
      | None \<Rightarrow>
          (case ur_fde r of
             None \<Rightarrow> Some None
           | Some f \<Rightarrow>
               do { fde \<leftarrow> nth_opt (lk_fdes ctx) (unat f);
                    map_option ci_personality (nth_opt (lk_cies ctx) (unat (fd_cie fde))) }))"

definition function_lsda :: "link \<Rightarrow> unwind_record \<Rightarrow> (u32 \<times> u32) option option" where
  "function_lsda ctx r =
     (case ur_lsda r of
        Some l \<Rightarrow> Some (Some l)
      | None \<Rightarrow>
          (case ur_fde r of
             None \<Rightarrow> Some None
           | Some f \<Rightarrow> map_option fd_lsda (nth_opt (lk_fdes ctx) (unat f))))"

subsection \<open>How a symbol binds\<close>

definition is_obj_sym :: "symbol \<Rightarrow> bool" where
  "is_obj_sym s \<longleftrightarrow> (case sy_file s of Some (FObj _) \<Rightarrow> True | _ \<Rightarrow> False)"

text \<open>The dylib a symbol comes from, if it names one.\<close>

definition sy_dylib :: "link \<Rightarrow> symbol \<Rightarrow> dylib_file option option" where
  "sy_dylib ctx s =
     (case sy_file s of
        Some (FDylib d) \<Rightarrow> if d \<noteq> 0xffffffff then map_option Some (nth_opt (lk_dylibs ctx) (unat d)) else Some None
      | _ \<Rightarrow> Some None)"

definition is_delay_import :: "link \<Rightarrow> symbol \<Rightarrow> bool option" where
  "is_delay_import ctx s = map_option (\<lambda>d. case d of Some d \<Rightarrow> dl_delay_init d \<noteq> None | None \<Rightarrow> False) (sy_dylib ctx s)"

definition is_lazy_import :: "link \<Rightarrow> symbol \<Rightarrow> bool option" where
  "is_lazy_import ctx s = map_option (\<lambda>d. case d of Some d \<Rightarrow> dl_is_lazy d | None \<Rightarrow> False) (sy_dylib ctx s)"

definition is_tlv :: "link \<Rightarrow> symbol \<Rightarrow> bool option" where
  "is_tlv ctx s =
     (case sy_file s of
        Some (FObj _) \<Rightarrow>
          (case sy_input_section s of
             None \<Rightarrow> Some False
           | Some i \<Rightarrow>
               do { isec \<leftarrow> nth_opt (lk_isecs ctx) (unat i);
                    hdr \<leftarrow> isec_hdr ctx isec;
                    Some (section_type hdr = S_THREAD_LOCAL_VARIABLES) })
      | Some (FDylib _) \<Rightarrow> map_option (\<lambda>d. case d of Some d \<Rightarrow> sy_name s \<in> set (dl_tlv_exports d) | None \<Rightarrow> False) (sy_dylib ctx s)
      | None \<Rightarrow> Some False)"

definition is_weak_coalesced :: "link \<Rightarrow> symbol \<Rightarrow> bool" where
  "is_weak_coalesced ctx s \<longleftrightarrow>
     \<not> (la_relocatable (lk_args ctx) \<or> la_is_dylinker (lk_args ctx)) \<and>
     is_obj_sym s \<and> sy_is_weak_def s \<and> sy_is_extern s \<and> \<not> sy_is_private_extern s"

definition exports_weak_def :: "link \<Rightarrow> symbol \<Rightarrow> bool option" where
  "exports_weak_def ctx s =
     (if sy_is_weak_def s \<and> sy_is_extern s \<and> \<not> sy_is_private_extern s
      then (case sy_input_section s of
              None \<Rightarrow> Some False
            | Some i \<Rightarrow> map_option is_alive (nth_opt (lk_isecs ctx) (unat i)))
      else Some False)"

definition is_interposable_export :: "link \<Rightarrow> symbol \<Rightarrow> bool" where
  "is_interposable_export ctx s \<longleftrightarrow>
     (let args = lk_args ctx;
          flat = (la_flat_namespace args \<and> la_output_type args \<in> {MH_DYLIB, MH_BUNDLE});
          listed = (\<not> la_relocatable args \<and> \<not> la_without_dyld args \<and> \<not> la_is_dylinker args \<and>
                    (case la_interposable args of Some g \<Rightarrow> g (sy_name s) \<noteq> - 1 | None \<Rightarrow> False))
      in (flat \<or> listed) \<and> is_obj_sym s \<and> sy_input_section s \<noteq> None \<and> sy_is_extern s \<and> \<not> sy_is_private_extern s)"

definition binds_as_import :: "link \<Rightarrow> symbol \<Rightarrow> bool" where
  "binds_as_import ctx s \<longleftrightarrow> sy_is_imported s \<or> is_interposable_export ctx s"

definition binds_pointer :: "link \<Rightarrow> symbol \<Rightarrow> bool" where
  "binds_pointer ctx s \<longleftrightarrow> binds_as_import ctx s \<or> (la_legacy_linkedit (lk_args ctx) \<and> is_weak_coalesced ctx s)"

definition is_dtrace_symbol :: "bytes \<Rightarrow> bool" where
  "is_dtrace_symbol name \<longleftrightarrow> take 10 name = bstr ''___dtrace_''"

definition is_dtrace_pointer_target :: "symbol \<Rightarrow> bool" where
  "is_dtrace_pointer_target s \<longleftrightarrow> sy_file s = None \<and> is_dtrace_symbol (sy_name s)"

definition export_bind_ordinal :: "link \<Rightarrow> int" where
  "export_bind_ordinal ctx =
     (if la_flat_namespace (lk_args ctx) then BIND_SPECIAL_DYLIB_FLAT_LOOKUP else BIND_SPECIAL_DYLIB_SELF)"

definition bind_ordinal :: "link \<Rightarrow> symbol \<Rightarrow> int option" where
  "bind_ordinal ctx s =
     (case sy_file s of
        Some (FDylib d) \<Rightarrow>
          if d \<noteq> 0xffffffff
          then map_option (\<lambda>d. dylib_bind_ordinal d (la_flat_namespace (lk_args ctx))) (nth_opt (lk_dylibs ctx) (unat d))
          else Some BIND_SPECIAL_DYLIB_FLAT_LOOKUP
      | _ \<Rightarrow> if is_dtrace_pointer_target s then Some BIND_SPECIAL_DYLIB_FLAT_LOOKUP else Some (export_bind_ordinal ctx))"

definition is_interposable :: "link \<Rightarrow> symbol \<Rightarrow> bool" where
  "is_interposable ctx s \<longleftrightarrow> is_weak_coalesced ctx s \<or> is_interposable_export ctx s"

definition binds_at_runtime :: "link \<Rightarrow> symbol \<Rightarrow> bool" where
  "binds_at_runtime ctx s \<longleftrightarrow> sy_is_imported s \<or> is_interposable ctx s"

definition is_absolute :: "link \<Rightarrow> symbol \<Rightarrow> bool" where
  "is_absolute ctx s \<longleftrightarrow>
     sy_input_section s = None \<and> (case sy_file s of Some (FObj obj) \<Rightarrow> \<not> is_internal ctx (unat obj) | _ \<Rightarrow> False)"

definition binds_weak_lookup :: "link \<Rightarrow> symbol \<Rightarrow> bool option" where
  "binds_weak_lookup ctx s =
     (if la_static_link (lk_args ctx) \<or> (la_is_kext (lk_args ctx) \<and> \<not> la_shared_region (lk_args ctx)) then Some False
      else if is_weak_coalesced ctx s then Some True
      else map_option (\<lambda>d. case d of Some d \<Rightarrow> sy_name s \<in> set (dl_weak_exports d) | None \<Rightarrow> False) (sy_dylib ctx s))"

definition can_relax_got :: "link \<Rightarrow> symbol \<Rightarrow> bool option" where
  "can_relax_got ctx s =
     (if binds_as_import ctx s then Some False
      else map_option (\<lambda>w. \<not> w \<and> \<not> is_absolute ctx s) (binds_weak_lookup ctx s))"

definition overrides_weak_export :: "link \<Rightarrow> symbol \<Rightarrow> bool" where
  "overrides_weak_export ctx s \<longleftrightarrow>
     is_obj_sym s \<and> sy_is_extern s \<and> \<not> sy_is_private_extern s \<and> \<not> sy_is_weak_def s \<and>
     list_ex (\<lambda>d. sy_name s \<in> set (dl_weak_exports d)) (lk_dylibs ctx)"

definition name_starts_with :: "bytes \<Rightarrow> bytes \<Rightarrow> bool" where
  "name_starts_with s p \<longleftrightarrow> take (length p) s = p"

definition binds_to_self :: "link \<Rightarrow> symbol \<Rightarrow> bool" where
  "binds_to_self ctx s \<longleftrightarrow>
     la_shared_region (lk_args ctx) \<and> la_output_type (lk_args ctx) = MH_DYLIB \<and> link_use_chained_fixups ctx \<and>
     is_obj_sym s \<and> sy_is_extern s \<and> \<not> sy_is_private_extern s \<and>
     (name_starts_with (sy_name s) (bstr ''_OBJC_CLASS_$_'') \<or> name_starts_with (sy_name s) (bstr ''_OBJC_METACLASS_$_''))"

subsection \<open>Slots, stubs and addresses\<close>

text \<open>The outer \<open>None\<close> is a bad index; the inner one is no slot.\<close>

definition sy_aux :: "symbol \<Rightarrow> link \<Rightarrow> symbol_aux option option" where
  "sy_aux s ctx =
     (if sy_aux_idx s \<noteq> NONE then map_option Some (nth_opt (st_aux (lk_symbols ctx)) (unat (sy_aux_idx s))) else Some None)"

definition slot_idx :: "(symbol_aux \<Rightarrow> u32) \<Rightarrow> symbol \<Rightarrow> link \<Rightarrow> u32 option option" where
  "slot_idx f s ctx =
     map_option (\<lambda>a. case a of None \<Rightarrow> None | Some a \<Rightarrow> if f a \<noteq> NO_IDX then Some (f a) else None) (sy_aux s ctx)"

definition stub_idx where "stub_idx = slot_idx sa_stub_idx"
definition got_idx where "got_idx = slot_idx sa_got_idx"
definition objc_stub_idx where "objc_stub_idx = slot_idx sa_objc_stub_idx"
definition lazy_stub_idx where "lazy_stub_idx = slot_idx sa_lazy_stub_idx"
definition lazy_got_idx where "lazy_got_idx = slot_idx sa_lazy_got_idx"
definition delay_stub_idx where "delay_stub_idx = slot_idx sa_delay_stub_idx"

definition has_stub :: "symbol \<Rightarrow> link \<Rightarrow> bool option" where
  "has_stub s ctx =
     map_option (\<lambda>a. case a of
         None \<Rightarrow> False
       | Some a \<Rightarrow> sa_stub_idx a \<noteq> NO_IDX \<or> sa_lazy_stub_idx a \<noteq> NO_IDX \<or> sa_delay_stub_idx a \<noteq> NO_IDX) (sy_aux s ctx)"

definition has_got :: "symbol \<Rightarrow> link \<Rightarrow> bool option" where
  "has_got s ctx = map_option (\<lambda>i. i \<noteq> None) (got_idx s ctx)"

definition stub_entry_offset :: "link \<Rightarrow> u32 \<Rightarrow> u64" where
  "stub_entry_offset ctx i = ucast i * ar_stub_size (lk_arch ctx)"

definition objc_entry_size :: "link \<Rightarrow> u64" where
  "objc_entry_size ctx =
     (if la_objc_stubs_small (lk_args ctx) then ar_objc_small_stub_size (lk_arch ctx) else ar_objc_stub_size (lk_arch ctx))"

definition objc_entry_offset :: "link \<Rightarrow> u32 \<Rightarrow> u64" where
  "objc_entry_offset ctx i = ucast i * objc_entry_size ctx"

definition got_slot_addr :: "link \<Rightarrow> nat \<Rightarrow> u64" where
  "got_slot_addr ctx i = ch_addr (lk_hdr ctx ChGot) + of_nat i * 8"

definition lazy_ptr_slot_addr :: "link \<Rightarrow> nat \<Rightarrow> u64" where
  "lazy_ptr_slot_addr ctx i = ch_addr (lk_hdr ctx ChLazyPtrs) + of_nat i * 8"

definition lazy_load_got_slot_addr :: "link \<Rightarrow> u32 \<Rightarrow> u64" where
  "lazy_load_got_slot_addr ctx i = ch_addr (lk_hdr ctx ChLazyLoadGot) + ucast i * 8"

definition lazy_helper_addr :: "link \<Rightarrow> nat \<Rightarrow> u64 option" where
  "lazy_helper_addr ctx i =
     map_option (\<lambda>off. ch_addr (lk_hdr ctx ChLazyHelpers) + ucast off) (nth_opt (lk_lazy_helper_offsets ctx) i)"

definition delay_stub_offset :: "link \<Rightarrow> u32 \<Rightarrow> u64" where
  "delay_stub_offset ctx i = ucast i * ar_delay_stub_size (lk_arch ctx)"

definition delay_stub_addr :: "link \<Rightarrow> u32 \<Rightarrow> u64" where
  "delay_stub_addr ctx i = ch_addr (lk_hdr ctx ChDelayStubs) + delay_stub_offset ctx i"

definition stub_addr :: "link \<Rightarrow> symbol \<Rightarrow> u64 option" where
  "stub_addr ctx s = do { i \<leftarrow> stub_idx s ctx; i \<leftarrow> i; Some (ch_addr (lk_hdr ctx ChStubs) + stub_entry_offset ctx i) }"

definition stub_entry :: "link \<Rightarrow> symbol \<Rightarrow> (chunk_id \<times> u64) option option" where
  "stub_entry ctx s =
     (case sy_file s of
        None \<Rightarrow> Some None
      | Some (FObj _) \<Rightarrow>
          map_option (map_option (\<lambda>i. (ChObjcStubs, ch_addr (lk_hdr ctx ChObjcStubs) + objc_entry_offset ctx i))) (objc_stub_idx s ctx)
      | Some (FDylib _) \<Rightarrow>
          do { st \<leftarrow> stub_idx s ctx;
               if st \<noteq> None then map_option (\<lambda>a. Some (ChStubs, a)) (stub_addr ctx s)
               else do { lz \<leftarrow> lazy_stub_idx s ctx;
                         case lz of
                           Some i \<Rightarrow> map_option (\<lambda>a. Some (ChLazyHelpers, a)) (lazy_helper_addr ctx (unat i))
                         | None \<Rightarrow> map_option (map_option (\<lambda>i. (ChDelayStubs, delay_stub_addr ctx i))) (delay_stub_idx s ctx) } })"

text \<open>The error for an undefined symbol is reported beside the result.\<close>

definition sy_addr :: "link \<Rightarrow> symbol \<Rightarrow> u64 option" where
  "sy_addr ctx s =
     (case sy_file s of
        None \<Rightarrow> Some 0
      | Some (FObj _) \<Rightarrow>
          (case sy_input_section s of
             Some i \<Rightarrow>
               do { isec \<leftarrow> nth_opt (lk_isecs ctx) (unat i); a \<leftarrow> isec_addr ctx isec; Some (a + sy_value s) }
           | None \<Rightarrow> map_option (\<lambda>e. case e of Some (_, a) \<Rightarrow> a | None \<Rightarrow> sy_value s) (stub_entry ctx s))
      | Some (FDylib _) \<Rightarrow> map_option (\<lambda>e. case e of Some (_, a) \<Rightarrow> a | None \<Rightarrow> 0) (stub_entry ctx s))"

definition got_slot :: "link \<Rightarrow> symbol \<Rightarrow> (chunk_id \<times> u64) option" where
  "got_slot ctx s =
     do { i \<leftarrow> got_idx s ctx;
          case i of
            Some i \<Rightarrow> Some (ChGot, got_slot_addr ctx (unat i))
          | None \<Rightarrow> do { i \<leftarrow> lazy_got_idx s ctx; i \<leftarrow> i; Some (ChLazyLoadGot, lazy_load_got_slot_addr ctx i) } }"

definition got_addr :: "link \<Rightarrow> symbol \<Rightarrow> u64 option" where
  "got_addr ctx s = map_option snd (got_slot ctx s)"

text \<open>\<^verbatim>\<open>binary_search\<close> in the sorted list of lazily bound stubs, whose entries are distinct.\<close>

definition stub_ptr_addr :: "link \<Rightarrow> symbol \<Rightarrow> u32 \<Rightarrow> u64 option" where
  "stub_ptr_addr ctx s i =
     do { w \<leftarrow> (if la_lazy_binding (lk_args ctx) then map_option Not (binds_weak_lookup ctx s) else Some False);
          if w then map_option (lazy_ptr_slot_addr ctx) (position (\<lambda>j. j = i) (lk_stubs_lazy ctx)) else got_addr ctx s }"

definition branch_target_addr :: "link \<Rightarrow> symbol \<Rightarrow> u64 option" where
  "branch_target_addr ctx s =
     do { st \<leftarrow> stub_idx s ctx;
          if is_interposable ctx s \<and> st \<noteq> None then stub_addr ctx s else sy_addr ctx s }"

text \<open>\<open>(-range..range).contains(&(a.wrapping_sub(b) as i64))\<close>.\<close>

definition in_branch_range :: "link \<Rightarrow> u64 \<Rightarrow> u64 \<Rightarrow> bool" where
  "in_branch_range ctx a b \<longleftrightarrow>
     (let range = sint (ar_branch_range (lk_arch ctx) div 2); d = sint (a - b) in - range \<le> d \<and> d < range)"

definition thunk_addr :: "link \<Rightarrow> symbol \<Rightarrow> u64 \<Rightarrow> u64 option option" where
  "thunk_addr ctx s pc =
     map_option (\<lambda>a. List.find (\<lambda>t. in_branch_range ctx t pc) (case a of None \<Rightarrow> [] | Some a \<Rightarrow> sa_thunk_addrs a)) (sy_aux s ctx)"

subsection \<open>Plain options\<close>

text \<open>The options of an ordinary executable, for the concrete links of the later theories.\<close>

definition plain_args :: link_args where
  "plain_args =
     \<lparr>la_output_type = MH_EXECUTE, la_relocatable = False, la_flat_namespace = False, la_static_link = False,
      la_shared_region = False, la_legacy_linkedit = False, la_lazy_binding = False, la_preload = False,
      la_export_dynamic = False, la_objc_stubs_small = False, la_no_branch_islands = False, la_fixup_chains = True,
      la_fixup_chains_section = False, la_dead_strip = True, la_segment_align = 16384, la_platform = 1,
      la_platform_minos = 0, la_entry = bstr ''_main'', la_aliases = [], la_forced_undefined = [],
      la_interposable = None, la_exported_symbols = None\<rparr>"

definition plain_link :: link where
  "plain_link =
     \<lparr>lk_arch = arch_arm64, lk_args = plain_args, lk_hash = (\<lambda>_. 0), lk_isecs = [], lk_objs = [], lk_dylibs = [],
      lk_symbols = \<lparr>st_shards = [], st_syms = [], st_aux = []\<rparr>,
      lk_unwind_records = [], lk_fdes = [], lk_cies = [], lk_internal_obj = None, lk_chunks = [],
      lk_hdr = (\<lambda>_. chunk_header_new [] []), lk_output_sections = [], lk_segments = [], lk_chained_disabled = False,
      lk_stubs_lazy = [], lk_lazy_helper_offsets = [], lk_init_funcs = []\<rparr>"

end
