(* ===== verification/DeadStrip.thy ===== *)
theory DeadStrip
  imports Link "HOL-Library.Multiset"
begin

section \<open>Dead stripping (\<open>dead_strip.rs\<close>)\<close>

text \<open>
  The roots, the walk over the references, the live-support pass and the sweep. The parallel walk is
  a step relation: the workers of the task pool take their steps in any order, each step one atomic
  \<^verbatim>\<open>visit\<close> at most. The serial walk is a function. Reasons (\<open>-why_live\<close>) are recorded by the serial
  walk. \<open>None\<close> is an index out of range.
\<close>

subsection \<open>References\<close>

definition unwind_range :: "link \<Rightarrow> input_section \<Rightarrow> unwind_record list option" where
  "unwind_range ctx isec =
     (let first = unat (is_unwind_offset isec); end_idx = unat (is_unwind_offset isec + is_nunwind isec)
      in if first \<le> end_idx \<and> end_idx \<le> length (lk_unwind_records ctx)
         then Some (take (end_idx - first) (drop first (lk_unwind_records ctx))) else None)"

definition record_edges :: "link \<Rightarrow> unwind_record \<Rightarrow> (nat \<times> u32 option) list option" where
  "record_edges ctx r =
     (let own = (case ur_lsda r of Some (lsda, _) \<Rightarrow> [(unat lsda, None)] | None \<Rightarrow> []) in
      do { (lsda, personality) \<leftarrow>
             (case ur_fde r of
                None \<Rightarrow> Some ([], ur_personality r)
              | Some f \<Rightarrow>
                  do { fde \<leftarrow> nth_opt (lk_fdes ctx) (unat f);
                       cie \<leftarrow> nth_opt (lk_cies ctx) (unat (fd_cie fde));
                       Some (case fd_lsda fde of Some (lsda, _) \<Rightarrow> [(unat lsda, None)] | None \<Rightarrow> [],
                             case ur_personality r of Some p \<Rightarrow> Some p | None \<Rightarrow> ci_personality cie) });
           pers \<leftarrow>
             (case personality of
                None \<Rightarrow> Some []
              | Some p \<Rightarrow>
                  do { s \<leftarrow> nth_opt (lk_syms ctx) (unat p);
                       Some (case sy_input_section s of Some target \<Rightarrow> [(unat target, Some p)] | None \<Rightarrow> []) });
           Some (own @ lsda @ pers) })"

definition unwind_edges :: "link \<Rightarrow> nat \<Rightarrow> (nat \<times> u32 option) list option" where
  "unwind_edges ctx i =
     do { isec \<leftarrow> nth_opt (lk_isecs ctx) i;
          recs \<leftarrow> unwind_range ctx isec;
          map_option concat (those (map (record_edges ctx) recs)) }"

definition reloc_edges :: "link \<Rightarrow> object_file \<Rightarrow> reloc \<Rightarrow> nat list option" where
  "reloc_edges ctx file r =
     (case reloc_target_of r of
        RtSym idx \<Rightarrow>
          do { sid \<leftarrow> nth_opt (ob_symbols file) (unat idx);
               s \<leftarrow> nth_opt (lk_syms ctx) (unat sid);
               Some (case sy_input_section s of Some target \<Rightarrow> [unat target] | None \<Rightarrow> []) }
      | RtSection target \<Rightarrow> Some [unat target])"

text \<open>\<^verbatim>\<open>for_each_edge\<close>: the subsections it calls its function with, in order.\<close>

definition edges :: "link \<Rightarrow> nat \<Rightarrow> nat list option" where
  "edges ctx i =
     do { isec \<leftarrow> nth_opt (lk_isecs ctx) i;
          file \<leftarrow> nth_opt (lk_objs ctx) (unat (is_file isec));
          rels \<leftarrow> isec_rels isec (ob_relocs file);
          targets \<leftarrow> map_option concat (those (map (reloc_edges ctx file) rels));
          unw \<leftarrow> unwind_edges ctx i;
          Some (targets @ map fst unw) }"

subsection \<open>Roots\<close>

datatype root = Undefined | Export | Kept | Initializer | LiveSupport
datatype why = Dead | Root root | From u32

definition keeps_export :: "link \<Rightarrow> bytes \<Rightarrow> bool" where
  "keeps_export ctx name \<longleftrightarrow>
     la_output_type (lk_args ctx) \<noteq> MH_EXECUTE
     \<or> (la_export_dynamic (lk_args ctx) \<and> \<not> la_preload (lk_args ctx))
     \<or> (case la_exported_symbols (lk_args ctx) of Some g \<Rightarrow> g name \<noteq> - 1 | None \<Rightarrow> False)"

definition is_symbol_root :: "link \<Rightarrow> symbol \<Rightarrow> bool" where
  "is_symbol_root ctx s \<longleftrightarrow>
     sy_no_dead_strip s \<or>
     (sy_is_extern s \<and> \<not> sy_is_private_extern s \<and> sy_is_defined s \<and> keeps_export ctx (sy_name s))"

definition initial_undefines :: "link \<Rightarrow> u32 list" where
  "initial_undefines ctx =
     (let args = lk_args ctx; entry = (if la_has_entry_point args then [la_entry args] else [])
      in List.map_filter (lookup (lk_hash ctx) (lk_symbols ctx))
           (la_forced_undefined args @ entry @ map fst (la_aliases args)))"

definition is_pointer_list :: "mach_section \<Rightarrow> bool" where
  "is_pointer_list sect \<longleftrightarrow>
     ms_sectname_bytes sect \<in> {bstr ''__objc_classrefs'', bstr ''__objc_superrefs'', bstr ''__objc_protorefs'', bstr ''__got''}"

definition is_literal_section :: "mach_section \<Rightarrow> bool" where
  "is_literal_section sect \<longleftrightarrow>
     section_type sect \<in> {S_CSTRING_LITERALS, S_4BYTE_LITERALS, S_8BYTE_LITERALS, S_16BYTE_LITERALS, S_LITERAL_POINTERS}
     \<or> (ms_segname_bytes sect = bstr ''__DATA'' \<and> (ms_sectname_bytes sect = bstr ''__cfstring'' \<or> is_pointer_list sect))"

definition should_keep :: "link \<Rightarrow> input_section \<Rightarrow> bool option" where
  "should_keep ctx isec =
     do { file \<leftarrow> nth_opt (lk_objs ctx) (unat (is_file isec));
          hdr \<leftarrow> nth_opt (ob_sect_hdrs file) (unat (is_shndx isec));
          Some (section_type hdr \<in> {S_MOD_INIT_FUNC_POINTERS, S_MOD_TERM_FUNC_POINTERS}
            \<or> section_type hdr = S_INIT_FUNC_OFFSETS
            \<or> (ms_flags hdr AND S_ATTR_NO_DEAD_STRIP \<noteq> 0
                \<and> \<not> (ms_segname_bytes hdr = bstr ''__DATA'' \<and> ms_sectname_bytes hdr = bstr ''__objc_classrefs''))
            \<or> (\<not> ob_subsections_via_symbols file \<and> \<not> is_literal_section hdr
                \<and> section_type hdr \<noteq> S_THREAD_LOCAL_VARIABLES)) }"

text \<open>
  The candidates for roots in the order they are enqueued, each with its reason: the sections the
  format keeps, the initializers, the sections of root symbols, the initial undefines and crt1.o's
  binding helper.
\<close>

definition kept_sections :: "link \<Rightarrow> (nat \<times> root) list option" where
  "kept_sections ctx =
     do { kept \<leftarrow> those (map (\<lambda>isec. if is_alive isec then should_keep ctx isec else Some False) (lk_isecs ctx));
          Some (map (\<lambda>i. (i, Kept)) (filter ((!) kept) [0..<length (lk_isecs ctx)])) }"

definition root_symbols :: "link \<Rightarrow> (u32 \<Rightarrow> symbol \<Rightarrow> bool) \<Rightarrow> (nat \<times> root) list option" where
  "root_symbols ctx is_root =
     map_option concat (those (map (\<lambda>(i, s).
       if \<not> is_root (of_nat i) s then Some []
       else (case sy_input_section s of
               None \<Rightarrow> Some []
             | Some isec \<Rightarrow>
                 do { sec \<leftarrow> nth_opt (lk_isecs ctx) (unat isec);
                      Some (if is_alive sec then [(unat isec, if sy_no_dead_strip s then Kept else Export)] else []) }))
       (List.enumerate 0 (lk_syms ctx))))"

definition named_root :: "link \<Rightarrow> root \<Rightarrow> u32 \<Rightarrow> (nat \<times> root) list option" where
  "named_root ctx why sid =
     do { s \<leftarrow> nth_opt (lk_syms ctx) (unat sid);
          Some (case sy_input_section s of Some isec \<Rightarrow> [(unat isec, why)] | None \<Rightarrow> []) }"

definition root_candidates :: "link \<Rightarrow> (u32 \<Rightarrow> symbol \<Rightarrow> bool) \<Rightarrow> (nat \<times> root) list option" where
  "root_candidates ctx is_root =
     do { kept \<leftarrow> kept_sections ctx;
          let inits = concat (map (\<lambda>f. case f of InitLocal isec _ \<Rightarrow> [(isec, Initializer)] | InitImported _ \<Rightarrow> []) (lk_init_funcs ctx));
          syms \<leftarrow> root_symbols ctx is_root;
          undefs \<leftarrow> map_option concat (those (map (named_root ctx Undefined) (initial_undefines ctx)));
          helper \<leftarrow> (if la_legacy_linkedit (lk_args ctx) \<and> la_lazy_binding (lk_args ctx)
                    then (case lookup (lk_hash ctx) (lk_symbols ctx) (bstr ''dyld_stub_binding_helper'') of
                            Some sid \<Rightarrow> named_root ctx Kept sid
                          | None \<Rightarrow> Some [])
                    else Some []);
          Some (kept @ inits @ syms @ undefs @ helper) }"

subsection \<open>Marking\<close>

text \<open>
  The state of the walk: the subsections with their visited bits, and what made each live (kept under
  \<open>-why_live\<close> only; the empty list otherwise).
\<close>

definition visit_at :: "nat \<Rightarrow> input_section list \<Rightarrow> (bool \<times> input_section list) option" where
  "visit_at i secs =
     do { s \<leftarrow> nth_opt secs i; let (fresh, s) = visit s in Some (fresh, secs[i := s]) }"

definition note_why :: "nat \<Rightarrow> why \<Rightarrow> why list option \<Rightarrow> why list option" where
  "note_why i w = map_option (\<lambda>ws. ws[i := w])"

fun enqueue_all ::
    "nat list \<Rightarrow> (nat \<times> root) list \<Rightarrow> input_section list \<Rightarrow> why list option \<Rightarrow>
     (nat list \<times> input_section list \<times> why list option) option" where
  "enqueue_all redirects [] secs ws = Some ([], secs, ws)"
| "enqueue_all redirects ((i, r) # cands) secs ws =
     do { i \<leftarrow> nth_opt redirects i;
          (fresh, secs) \<leftarrow> visit_at i secs;
          (roots, secs, ws) \<leftarrow> enqueue_all redirects cands secs (if fresh then note_why i (Root r) ws else ws);
          Some (if fresh then i # roots else roots, secs, ws) }"

definition collect_root_set where
  "collect_root_set ctx redirects is_root secs ws =
     do { cands \<leftarrow> root_candidates ctx is_root; enqueue_all redirects cands secs ws }"

text \<open>The serial walk, breadth first: one subsection's edges, then the queue.\<close>

fun walk_edges ::
    "nat list \<Rightarrow> nat \<Rightarrow> nat list \<Rightarrow> input_section list \<Rightarrow> why list option \<Rightarrow>
     (nat list \<times> input_section list \<times> why list option) option" where
  "walk_edges redirects i [] secs ws = Some ([], secs, ws)"
| "walk_edges redirects i (t # ts) secs ws =
     do { t \<leftarrow> nth_opt redirects t;
          (fresh, secs) \<leftarrow> visit_at t secs;
          (found, secs, ws) \<leftarrow> walk_edges redirects i ts secs (if fresh then note_why t (From (of_nat i)) ws else ws);
          Some (if fresh then t # found else found, secs, ws) }"

lemma length_visit_at: "visit_at i secs = Some (f, secs') \<Longrightarrow> length secs' = length secs"
  by (auto simp: visit_at_def split: bind_splits prod.splits)

definition unvisited :: "input_section list \<Rightarrow> nat" where
  "unvisited secs = length (filter (\<lambda>s. \<not> is_visited s) secs)"

lemma nth_opt_Some: "nth_opt xs i = Some x \<longleftrightarrow> i < length xs \<and> xs ! i = x"
  by (auto simp: nth_opt_def)

lemma visit_at_Some:
  "visit_at i secs = Some (f, secs') \<longleftrightarrow> i < length secs \<and> f = (\<not> is_visited (secs ! i)) \<and> secs' = secs[i := snd (visit (secs ! i))]"
  by (auto simp: visit_at_def nth_opt_def visit_def is_visited_def)

lemma unvisited_visit:
  "visit_at i secs = Some (f, secs') \<Longrightarrow> unvisited secs = unvisited secs' + (if f then 1 else 0)"
proof -
  assume v: "visit_at i secs = Some (f, secs')"
  then have i: "i < length secs" and s: "secs' = secs[i := snd (visit (secs ! i))]" and f: "f = (\<not> is_visited (secs ! i))"
    by (simp_all add: visit_at_Some)
  have vis: "is_visited (snd (visit (secs ! i)))" by (simp add: isec_simps)
  have split: "secs = take i secs @ secs ! i # drop (Suc i) secs" using i by (rule id_take_nth_drop)
  have "secs' = take i secs @ snd (visit (secs ! i)) # drop (Suc i) secs" using i by (simp add: s upd_conv_take_nth_drop)
  then show ?thesis unfolding unvisited_def by (subst split) (simp add: vis f)
qed

lemma walk_edges_unvisited:
  "walk_edges redirects i ts secs ws = Some (found, secs', ws') \<Longrightarrow> length found + unvisited secs' = unvisited secs"
proof (induction redirects i ts secs ws arbitrary: found secs' ws' rule: walk_edges.induct)
  case (2 redirects i t ts secs ws)
  obtain t' fresh secs1 found1 where s: "nth_opt redirects t = Some t'" "visit_at t' secs = Some (fresh, secs1)"
      "walk_edges redirects i ts secs1 (if fresh then note_why t' (From (of_nat i)) ws else ws) = Some (found1, secs', ws')"
      "found = (if fresh then t' # found1 else found1)"
    using "2.prems" by (auto split: bind_splits prod.splits)
  show ?case using "2.IH" [OF s(1,2) refl s(3)] unvisited_visit [OF s(2)] s(4) by simp
qed simp

function walk ::
    "link \<Rightarrow> nat list \<Rightarrow> nat list \<Rightarrow> input_section list \<Rightarrow> why list option \<Rightarrow> (input_section list \<times> why list option) option" where
  "walk ctx redirects [] secs ws = Some (secs, ws)"
| "walk ctx redirects (i # queue) secs ws =
     (case edges ctx i of
        None \<Rightarrow> None
      | Some ts \<Rightarrow>
          (case walk_edges redirects i ts secs ws of
             None \<Rightarrow> None
           | Some (found, secs, ws) \<Rightarrow> walk ctx redirects (queue @ found) secs ws))"
  by pat_completeness auto
termination
  by (relation "measure (\<lambda>(ctx, redirects, queue, secs, ws). length queue + unvisited secs)")
    (auto dest!: walk_edges_unvisited)

subsection \<open>The parallel walk\<close>

text \<open>
  A worker visits the sections of its batch one after another. Visiting one reads its edges, then
  takes them one by one, going into a section it visits first for three levels (the frames of the
  recursion) and banking it in \<open>wk_next\<close> below; what is banked becomes a worker of its own.
\<close>

record worker =
  wk_batch :: "nat list"
  wk_frames :: "(nat list \<times> nat) list"
  wk_next :: "nat list"

abbreviation (input) GC_BATCH :: nat where "GC_BATCH \<equiv> 16"

definition new_worker :: "nat list \<Rightarrow> worker" where
  "new_worker batch = \<lparr>wk_batch = batch, wk_frames = [], wk_next = []\<rparr>"

type_synonym gc_state = "input_section list \<times> worker multiset"

inductive gc_step :: "link \<Rightarrow> nat list \<Rightarrow> gc_state \<Rightarrow> gc_state \<Rightarrow> bool" for ctx redirects where
  gc_start: "length nx < GC_BATCH \<Longrightarrow> edges ctx i = Some ts \<Longrightarrow>
     gc_step ctx redirects (secs, add_mset \<lparr>wk_batch = i # b, wk_frames = [], wk_next = nx\<rparr> w)
       (secs, add_mset \<lparr>wk_batch = b, wk_frames = [(ts, 0)], wk_next = nx\<rparr> w)"
| gc_return: "gc_step ctx redirects (secs, add_mset \<lparr>wk_batch = b, wk_frames = ([], d) # fs, wk_next = nx\<rparr> w)
       (secs, add_mset \<lparr>wk_batch = b, wk_frames = fs, wk_next = nx\<rparr> w)"
| gc_seen: "nth_opt redirects t = Some t' \<Longrightarrow> visit_at t' secs = Some (False, secs') \<Longrightarrow>
     gc_step ctx redirects (secs, add_mset \<lparr>wk_batch = b, wk_frames = (t # ts, d) # fs, wk_next = nx\<rparr> w)
       (secs', add_mset \<lparr>wk_batch = b, wk_frames = (ts, d) # fs, wk_next = nx\<rparr> w)"
| gc_enter: "nth_opt redirects t = Some t' \<Longrightarrow> visit_at t' secs = Some (True, secs') \<Longrightarrow> d < 3 \<Longrightarrow> edges ctx t' = Some us \<Longrightarrow>
     gc_step ctx redirects (secs, add_mset \<lparr>wk_batch = b, wk_frames = (t # ts, d) # fs, wk_next = nx\<rparr> w)
       (secs', add_mset \<lparr>wk_batch = b, wk_frames = (us, d + 1) # (ts, d) # fs, wk_next = nx\<rparr> w)"
| gc_bank: "nth_opt redirects t = Some t' \<Longrightarrow> visit_at t' secs = Some (True, secs') \<Longrightarrow> \<not> d < 3 \<Longrightarrow>
     gc_step ctx redirects (secs, add_mset \<lparr>wk_batch = b, wk_frames = (t # ts, d) # fs, wk_next = nx\<rparr> w)
       (secs', add_mset \<lparr>wk_batch = b, wk_frames = (ts, d) # fs, wk_next = nx @ [t']\<rparr> w)"
| gc_spawn: "GC_BATCH \<le> length nx \<Longrightarrow>
     gc_step ctx redirects (secs, add_mset \<lparr>wk_batch = b, wk_frames = [], wk_next = nx\<rparr> w)
       (secs, add_mset (new_worker nx) (add_mset \<lparr>wk_batch = b, wk_frames = [], wk_next = []\<rparr> w))"
| gc_last: "nx \<noteq> [] \<Longrightarrow> length nx < GC_BATCH \<Longrightarrow>
     gc_step ctx redirects (secs, add_mset \<lparr>wk_batch = [], wk_frames = [], wk_next = nx\<rparr> w) (secs, add_mset (new_worker nx) w)"
| gc_end: "gc_step ctx redirects (secs, add_mset \<lparr>wk_batch = [], wk_frames = [], wk_next = []\<rparr> w) (secs, w)"

function chunks_of :: "nat \<Rightarrow> 'a list \<Rightarrow> 'a list list" where
  "chunks_of n xs = (if xs = [] \<or> n = 0 then [] else take n xs # chunks_of n (drop n xs))"
  by pat_completeness auto
termination by (relation "measure (\<lambda>(n, xs). length xs)") auto

declare chunks_of.simps [simp del]

definition mark_start :: "nat list \<Rightarrow> worker multiset" where
  "mark_start roots = mset (map new_worker (chunks_of GC_BATCH roots))"

subsection \<open>Live support, sweep and the whole pass\<close>

definition live_support_sections :: "link \<Rightarrow> nat list option" where
  "live_support_sections ctx =
     do { sup \<leftarrow> those (map (\<lambda>isec. if is_alive isec then map_option (\<lambda>hdr. ms_flags hdr AND S_ATTR_LIVE_SUPPORT \<noteq> 0) (isec_hdr ctx isec)
                              else Some False) (lk_isecs ctx));
          Some (filter ((!) sup) [0..<length (lk_isecs ctx)]) }"

text \<open>Whether one of the targets is visited.\<close>

definition references_live :: "nat list \<Rightarrow> nat list \<Rightarrow> input_section list \<Rightarrow> bool option" where
  "references_live redirects ts secs =
     map_option (\<lambda>vs. True \<in> set vs) (those (map (\<lambda>t. do { t \<leftarrow> nth_opt redirects t; map_option is_visited (nth_opt secs t) }) ts))"

fun live_support_loop ::
    "link \<Rightarrow> nat list \<Rightarrow> nat list \<Rightarrow> input_section list \<Rightarrow> why list option \<Rightarrow> (input_section list \<times> why list option) option" where
  "live_support_loop ctx redirects [] secs ws = Some (secs, ws)"
| "live_support_loop ctx redirects (i # ids) secs ws =
     do { ts \<leftarrow> edges ctx i;
          live \<leftarrow> references_live redirects ts secs;
          i \<leftarrow> nth_opt redirects i;
          if \<not> live then live_support_loop ctx redirects ids secs ws
          else do { (fresh, secs) \<leftarrow> visit_at i secs;
                    if \<not> fresh then live_support_loop ctx redirects ids secs ws
                    else do { (secs, ws) \<leftarrow> walk ctx redirects [i] secs (note_why i (Root LiveSupport) ws);
                              live_support_loop ctx redirects ids secs ws } } }"

definition mark_live_support where
  "mark_live_support ctx redirects secs ws =
     do { ids \<leftarrow> live_support_sections ctx; live_support_loop ctx redirects ids secs ws }"

definition sweep_section :: "input_section \<Rightarrow> input_section" where
  "sweep_section s = (let (visited, s) = take_visited s; alive = is_alive s in set_alive (visited \<and> alive) s)"

text \<open>\<^verbatim>\<open>remove_dead_unwind_info\<close>: the FDEs kept, and where each one went.\<close>

fun keep_fdes :: "input_section list \<Rightarrow> fde_record list \<Rightarrow> nat \<Rightarrow> (nat option list \<times> fde_record list) option" where
  "keep_fdes secs [] n = Some ([], [])"
| "keep_fdes secs (fde # fdes) n =
     do { s \<leftarrow> nth_opt secs (unat (fd_isec fde));
          if is_alive s then map_option (\<lambda>(m, kept). (Some n # m, fde # kept)) (keep_fdes secs fdes (n + 1))
          else map_option (\<lambda>(m, kept). (None # m, kept)) (keep_fdes secs fdes n) }"

text \<open>A dropped FDE's place, \<^verbatim>\<open>usize::MAX\<close>, narrows to \<open>UNWIND_NONE\<close>.\<close>

fun keep_records :: "input_section list \<Rightarrow> nat option list \<Rightarrow> unwind_record list \<Rightarrow> unwind_record list option" where
  "keep_records secs m [] = Some []"
| "keep_records secs m (r # rs) =
     do { s \<leftarrow> nth_opt secs (unat (ur_isec r));
          if \<not> is_alive s then keep_records secs m rs
          else if ur_fde_idx r \<noteq> UNWIND_NONE
          then do { f \<leftarrow> nth_opt m (unat (ur_fde_idx r));
                    map_option ((#) (r\<lparr>ur_fde_idx := (case f of Some k \<Rightarrow> of_nat k | None \<Rightarrow> UNWIND_NONE)\<rparr>)) (keep_records secs m rs) }
          else map_option ((#) r) (keep_records secs m rs) }"

function refresh_ranges :: "nat \<Rightarrow> unwind_record list \<Rightarrow> input_section list \<Rightarrow> input_section list option" where
  "refresh_ranges i [] secs = Some secs"
| "refresh_ranges i (r # rs) secs =
     (let n = 1 + length (takeWhile (\<lambda>q. ur_isec q = ur_isec r) rs)
      in if unat (ur_isec r) < length secs
         then refresh_ranges (i + n) (drop n (r # rs))
                (secs[unat (ur_isec r) := (secs ! unat (ur_isec r))\<lparr>is_unwind_offset := of_nat i, is_nunwind := of_nat n\<rparr>])
         else None)"
  by pat_completeness auto
termination by (relation "measure (\<lambda>(i, rs, secs). length rs)") auto

definition remove_dead_unwind_info :: "link \<Rightarrow> link option" where
  "remove_dead_unwind_info ctx =
     do { (m, fdes) \<leftarrow> keep_fdes (lk_isecs ctx) (lk_fdes ctx) 0;
          recs \<leftarrow> keep_records (lk_isecs ctx) m (lk_unwind_records ctx);
          secs \<leftarrow> refresh_ranges 0 recs (lk_isecs ctx);
          Some (ctx\<lparr>lk_fdes := fdes, lk_unwind_records := recs, lk_isecs := secs\<rparr>) }"

definition sweep :: "link \<Rightarrow> input_section list \<Rightarrow> link option" where
  "sweep ctx secs = remove_dead_unwind_info (ctx\<lparr>lk_isecs := map sweep_section secs\<rparr>)"

definition redirect_all :: "link \<Rightarrow> nat list option" where
  "redirect_all ctx = those (map (resolve (lk_isecs ctx)) [0..<length (lk_isecs ctx)])"

text \<open>The pass, \<open>why_live\<close> telling whether the reasons are wanted; the parallel walk may end in any way it can.\<close>

inductive dead_strip :: "link \<Rightarrow> bool \<Rightarrow> link \<Rightarrow> why list option \<Rightarrow> bool" where
  strip_parallel: "redirect_all ctx = Some redirects \<Longrightarrow>
     collect_root_set ctx redirects (\<lambda>_. is_symbol_root ctx) (lk_isecs ctx) None = Some (roots, secs, ws) \<Longrightarrow>
     (gc_step ctx redirects)\<^sup>*\<^sup>* (secs, mark_start roots) (secs1, {#}) \<Longrightarrow>
     mark_live_support ctx redirects secs1 ws = Some (secs2, ws2) \<Longrightarrow> sweep ctx secs2 = Some ctx' \<Longrightarrow>
     dead_strip ctx False ctx' ws2"
| strip_serial: "redirect_all ctx = Some redirects \<Longrightarrow>
     collect_root_set ctx redirects (\<lambda>_. is_symbol_root ctx) (lk_isecs ctx) (Some (map (\<lambda>_. Dead) (lk_isecs ctx))) = Some (roots, secs, ws) \<Longrightarrow>
     walk ctx redirects roots secs ws = Some (secs1, ws1) \<Longrightarrow>
     mark_live_support ctx redirects secs1 ws1 = Some (secs2, ws2) \<Longrightarrow> sweep ctx secs2 = Some ctx' \<Longrightarrow>
     dead_strip ctx True ctx' ws2"

declare resolve.simps [code]

subsection \<open>What is reachable\<close>

definition edge_rel :: "link \<Rightarrow> nat list \<Rightarrow> (nat \<times> nat) set" where
  "edge_rel ctx redirects = {(i, j). \<exists>ts t. edges ctx i = Some ts \<and> t \<in> set ts \<and> nth_opt redirects t = Some j}"

definition visited :: "input_section list \<Rightarrow> nat set" where
  "visited secs = {i. i < length secs \<and> is_visited (secs ! i)}"

text \<open>Two states of the subsections that differ in their visited bits alone.\<close>

definition same_sections :: "input_section list \<Rightarrow> input_section list \<Rightarrow> bool" where
  "same_sections secs secs' \<longleftrightarrow> map unmark_visited secs = map unmark_visited secs'"

text \<open>Every index the walk follows is in range.\<close>

definition link_wf :: "link \<Rightarrow> nat list \<Rightarrow> bool" where
  "link_wf ctx redirects \<longleftrightarrow>
     length redirects = length (lk_isecs ctx) \<and> (\<forall>j \<in> set redirects. j < length (lk_isecs ctx)) \<and>
     (\<forall>i < length (lk_isecs ctx). \<exists>ts. edges ctx i = Some ts \<and> (\<forall>t \<in> set ts. t < length redirects))"

lemma same_sections_length: "same_sections a b \<Longrightarrow> length a = length b"
  unfolding same_sections_def by (drule arg_cong [of _ _ length]) simp

lemma same_sections_trans: "same_sections a b \<Longrightarrow> same_sections b c \<Longrightarrow> same_sections a c"
  by (simp add: same_sections_def)

lemma same_sections_refl [simp]: "same_sections a a"
  by (simp add: same_sections_def)

lemma unmark_visit [simp]: "unmark_visited (snd (visit s)) = unmark_visited s"
proof -
  have "(is_flags s OR IS_VISITED) AND NOT IS_VISITED = is_flags s AND NOT IS_VISITED"
    by (rule bit_word_eqI) (auto simp: flag_words)
  then show ?thesis by (simp add: unmark_visited_def visit_def)
qed

lemma visit_at_ok:
  assumes "visit_at i secs = Some (f, secs')"
  shows "visited secs' = insert i (visited secs)" and "f \<longleftrightarrow> i \<notin> visited secs" and "same_sections secs secs'" and "length secs' = length secs"
proof -
  have v: "i < length secs" "f = (\<not> is_visited (secs ! i))" "secs' = secs[i := snd (visit (secs ! i))]" using assms by (simp_all add: visit_at_Some)
  have "is_visited (snd (visit (secs ! i)))" by (simp add: isec_simps)
  then show "visited secs' = insert i (visited secs)" using v by (auto simp: visited_def nth_list_update)
  show "f \<longleftrightarrow> i \<notin> visited secs" using v by (simp add: visited_def)
  show "same_sections secs secs'" using v by (simp add: same_sections_def map_update) (metis list_update_id nth_map)
  show "length secs' = length secs" using v by simp
qed

lemma visit_at_total: "i < length secs \<Longrightarrow> \<exists>f secs'. visit_at i secs = Some (f, secs')"
  by (simp add: visit_at_Some)

lemma edge_image:
  "edges ctx i = Some ts \<Longrightarrow> \<forall>t \<in> set ts. t < length redirects \<Longrightarrow> edge_rel ctx redirects `` {i} = (!) redirects ` set ts"
  by (auto simp: edge_rel_def nth_opt_Some image_iff)

lemma reach_closed: "\<forall>i \<in> V. E `` {i} \<subseteq> V \<Longrightarrow> E\<^sup>* `` V = V"
proof -
  assume c: "\<forall>i \<in> V. E `` {i} \<subseteq> V"
  have "j \<in> V" if "(i, j) \<in> E\<^sup>*" "i \<in> V" for i j
    using that by (induction rule: rtrancl_induct) (use c in auto)
  then show ?thesis by auto
qed

lemma reach_between: "S \<subseteq> V \<Longrightarrow> V \<subseteq> E\<^sup>* `` S \<Longrightarrow> E\<^sup>* `` V = E\<^sup>* `` S"
  by (auto dest: subsetD intro: rtrancl_trans) (metis Image_iff rtrancl_trans subsetD)

subsection \<open>The serial walk\<close>

lemma walk_edges_ok:
  assumes "\<forall>t \<in> set ts. t < length redirects" and "\<forall>j \<in> set redirects. j < length secs"
  shows "\<exists>found secs' ws'. walk_edges redirects i ts secs ws = Some (found, secs', ws') \<and> same_sections secs secs' \<and>
    visited secs' = visited secs \<union> (!) redirects ` set ts \<and> set found = visited secs' - visited secs"
  using assms
proof (induction ts arbitrary: secs ws)
  case (Cons t ts)
  let ?t = "redirects ! t"
  have t: "nth_opt redirects t = Some ?t" "?t < length secs" using Cons.prems by (simp_all add: nth_opt_Some)
  obtain f secs1 where v: "visit_at ?t secs = Some (f, secs1)" using visit_at_total [OF t(2)] by blast
  note v' = visit_at_ok [OF v]
  obtain found secs' ws' where w: "walk_edges redirects i ts secs1 (if f then note_why ?t (From (of_nat i)) ws else ws) = Some (found, secs', ws')"
    "same_sections secs1 secs'" "visited secs' = visited secs1 \<union> (!) redirects ` set ts" "set found = visited secs' - visited secs1"
    using Cons.IH [of secs1 "if f then note_why ?t (From (of_nat i)) ws else ws"] Cons.prems v'(4) by auto
  have "walk_edges redirects i (t # ts) secs ws = Some (if f then ?t # found else found, secs', ws')"
    using t v w(1) by simp
  moreover have "same_sections secs secs'" using v'(3) w(2) by (rule same_sections_trans)
  moreover have "set (if f then ?t # found else found) = visited secs' - visited secs" using w(3,4) v'(1,2) by auto
  ultimately show ?case using w(3) v'(1) by auto
qed simp

lemma walk_ok:
  "link_wf ctx redirects \<Longrightarrow> length secs = length (lk_isecs ctx) \<Longrightarrow> set queue \<subseteq> visited secs \<Longrightarrow>
    \<forall>i \<in> visited secs - set queue. edge_rel ctx redirects `` {i} \<subseteq> visited secs \<Longrightarrow>
    \<exists>secs' ws'. walk ctx redirects queue secs ws = Some (secs', ws') \<and> same_sections secs secs' \<and>
      visited secs' = (edge_rel ctx redirects)\<^sup>* `` visited secs"
proof (induction ctx redirects queue secs ws rule: walk.induct)
  case (1 ctx redirects secs ws)
  then show ?case by (simp add: reach_closed)
next
  case (2 ctx redirects i queue secs ws)
  let ?E = "edge_rel ctx redirects"
  have i: "i \<in> visited secs" "i < length (lk_isecs ctx)" using "2.prems" by (auto simp: visited_def)
  then obtain ts where ts: "edges ctx i = Some ts" "\<forall>t \<in> set ts. t < length redirects" using "2.prems"(1) by (auto simp: link_wf_def)
  have rd: "\<forall>j \<in> set redirects. j < length secs" using "2.prems" by (simp add: link_wf_def)
  obtain found secs1 ws1 where w: "walk_edges redirects i ts secs ws = Some (found, secs1, ws1)" "same_sections secs secs1"
    "visited secs1 = visited secs \<union> (!) redirects ` set ts" "set found = visited secs1 - visited secs"
    using walk_edges_ok [OF ts(2) rd] by blast
  have img: "?E `` {i} = (!) redirects ` set ts" by (rule edge_image [OF ts])
  have len: "length secs1 = length (lk_isecs ctx)" using same_sections_length [OF w(2)] "2.prems"(2) by simp
  have q: "set (queue @ found) \<subseteq> visited secs1" using w(3,4) "2.prems"(3) by auto
  have cl: "\<forall>k \<in> visited secs1 - set (queue @ found). ?E `` {k} \<subseteq> visited secs1"
  proof
    fix k assume k: "k \<in> visited secs1 - set (queue @ found)"
    then have "k \<in> visited secs" using w(4) by auto
    then show "?E `` {k} \<subseteq> visited secs1"
      using k "2.prems"(4) img w(3) by (cases "k = i") auto
  qed
  obtain secs' ws' where r: "walk ctx redirects (queue @ found) secs1 ws1 = Some (secs', ws')" "same_sections secs1 secs'"
      "visited secs' = ?E\<^sup>* `` visited secs1"
    using "2.IH" [OF ts(1) w(1) refl refl "2.prems"(1) len q cl] by blast
  have "?E\<^sup>* `` visited secs1 = ?E\<^sup>* `` visited secs"
  proof (rule reach_between)
    have "?E `` {i} \<subseteq> ?E\<^sup>* `` visited secs" using i(1) by auto
    moreover have "visited secs \<subseteq> ?E\<^sup>* `` visited secs" by auto
    ultimately show "visited secs1 \<subseteq> ?E\<^sup>* `` visited secs" unfolding w(3) img by (rule Un_least [rotated])
  qed (simp add: w(3))
  then show ?case using ts w r same_sections_trans [OF w(2) r(2)] by simp
qed

subsection \<open>The parallel walk\<close>

definition worker_nodes :: "worker multiset \<Rightarrow> nat set" where
  "worker_nodes w = (\<Union>x \<in> set_mset w. set (wk_batch x) \<union> set (wk_next x))"

definition worker_targets :: "worker multiset \<Rightarrow> nat set" where
  "worker_targets w = (\<Union>x \<in> set_mset w. \<Union>(ts, d) \<in> set (wk_frames x). set ts)"

lemma worker_sets [simp]:
  "worker_nodes {#} = {}" "worker_targets {#} = {}"
  "worker_nodes (add_mset x w) = set (wk_batch x) \<union> set (wk_next x) \<union> worker_nodes w"
  "worker_targets (add_mset x w) = (\<Union>(ts, d) \<in> set (wk_frames x). set ts) \<union> worker_targets w"
  by (auto simp: worker_nodes_def worker_targets_def)

text \<open>
  The invariant of the pool: nothing is marked that is not reachable, and every marked subsection is
  waiting for its visit or has every edge taken or still in some worker's frame.
\<close>

definition gc_inv :: "link \<Rightarrow> nat list \<Rightarrow> input_section list \<Rightarrow> gc_state \<Rightarrow> bool" where
  "gc_inv ctx redirects secs0 st \<longleftrightarrow>
     (case st of (secs, w) \<Rightarrow>
        same_sections secs0 secs \<and> visited secs0 \<subseteq> visited secs \<and>
        visited secs \<subseteq> (edge_rel ctx redirects)\<^sup>* `` visited secs0 \<and> worker_nodes w \<subseteq> visited secs \<and>
        (\<forall>t \<in> worker_targets w. \<exists>i \<in> visited secs. \<exists>ts. edges ctx i = Some ts \<and> t \<in> set ts) \<and>
        (\<forall>i \<in> visited secs - worker_nodes w. \<forall>ts t j. edges ctx i = Some ts \<longrightarrow> t \<in> set ts \<longrightarrow> nth_opt redirects t = Some j \<longrightarrow>
           j \<in> visited secs \<or> t \<in> worker_targets w))"

lemma gc_target_reachable:
  assumes "gc_inv ctx redirects secs0 (secs, w)" and "t \<in> worker_targets w" and "nth_opt redirects t = Some j"
  shows "j \<in> (edge_rel ctx redirects)\<^sup>* `` visited secs0"
proof -
  obtain i ts where i: "i \<in> visited secs" "edges ctx i = Some ts" "t \<in> set ts" using assms(1,2) by (auto simp: gc_inv_def)
  then have "(i, j) \<in> edge_rel ctx redirects" using assms(3) by (auto simp: edge_rel_def)
  moreover have "i \<in> (edge_rel ctx redirects)\<^sup>* `` visited secs0" using assms(1) i(1) by (auto simp: gc_inv_def)
  ultimately show ?thesis by (auto intro: rtrancl_into_rtrancl)
qed

lemma gc_invI:
  assumes "same_sections secs0 secs" and "visited secs0 \<subseteq> visited secs" and "visited secs \<subseteq> (edge_rel ctx redirects)\<^sup>* `` visited secs0"
    and "worker_nodes w \<subseteq> visited secs" and "\<And>t. t \<in> worker_targets w \<Longrightarrow> \<exists>i \<in> visited secs. \<exists>ts. edges ctx i = Some ts \<and> t \<in> set ts"
    and "\<And>i ts t j. i \<in> visited secs \<Longrightarrow> i \<notin> worker_nodes w \<Longrightarrow> edges ctx i = Some ts \<Longrightarrow> t \<in> set ts \<Longrightarrow> nth_opt redirects t = Some j \<Longrightarrow>
           j \<in> visited secs \<or> t \<in> worker_targets w"
  shows "gc_inv ctx redirects secs0 (secs, w)"
  using assms unfolding gc_inv_def by blast

lemma gc_invD:
  assumes "gc_inv ctx redirects secs0 (secs, w)"
  shows "same_sections secs0 secs" and "visited secs0 \<subseteq> visited secs" and "visited secs \<subseteq> (edge_rel ctx redirects)\<^sup>* `` visited secs0"
    and "worker_nodes w \<subseteq> visited secs" and "\<And>t. t \<in> worker_targets w \<Longrightarrow> \<exists>i \<in> visited secs. \<exists>ts. edges ctx i = Some ts \<and> t \<in> set ts"
    and "\<And>i ts t j. i \<in> visited secs \<Longrightarrow> i \<notin> worker_nodes w \<Longrightarrow> edges ctx i = Some ts \<Longrightarrow> t \<in> set ts \<Longrightarrow> nth_opt redirects t = Some j \<Longrightarrow>
           j \<in> visited secs \<or> t \<in> worker_targets w"
  using assms unfolding gc_inv_def by auto

text \<open>A step that marks \<open>t'\<close>, taken from an edge, and puts it among the nodes or its edges among the targets.\<close>

lemma gc_inv_mark:
  assumes inv: "gc_inv ctx redirects secs0 (secs, w)" and t: "nth_opt redirects t = Some t'" "t \<in> worker_targets w"
    and v: "visited secs' = insert t' (visited secs)" "same_sections secs secs'"
    and nodes: "worker_nodes w \<subseteq> worker_nodes w'" "worker_nodes w' \<subseteq> insert t' (worker_nodes w)"
    and targets: "worker_targets w \<subseteq> insert t (worker_targets w')"
      "\<And>u. u \<in> worker_targets w' \<Longrightarrow> u \<in> worker_targets w \<or> (\<exists>us. edges ctx t' = Some us \<and> u \<in> set us)"
    and taken: "t' \<in> visited secs \<or> t' \<in> worker_nodes w' \<or> (\<forall>us. edges ctx t' = Some us \<longrightarrow> set us \<subseteq> worker_targets w')"
  shows "gc_inv ctx redirects secs0 (secs', w')"
proof (rule gc_invI)
  note i = gc_invD [OF inv]
  show "same_sections secs0 secs'" using i(1) v(2) by (rule same_sections_trans)
  show "visited secs0 \<subseteq> visited secs'" using i(2) v(1) by blast
  show "visited secs' \<subseteq> (edge_rel ctx redirects)\<^sup>* `` visited secs0"
    unfolding v(1) using i(3) gc_target_reachable [OF inv t(2,1)] by simp
  show "worker_nodes w' \<subseteq> visited secs'" using i(4) nodes(2) v(1) by blast
  show "\<exists>i \<in> visited secs'. \<exists>ts. edges ctx i = Some ts \<and> u \<in> set ts" if "u \<in> worker_targets w'" for u
    using targets(2) [OF that] i(5) [of u] v(1) by blast
  show "j \<in> visited secs' \<or> u \<in> worker_targets w'"
    if h: "k \<in> visited secs'" "k \<notin> worker_nodes w'" "edges ctx k = Some ts" "u \<in> set ts" "nth_opt redirects u = Some j" for k ts u j
  proof (cases "k \<in> visited secs")
    case True
    then have "j \<in> visited secs \<or> u \<in> worker_targets w" using i(6) [OF True _ h(3-5)] nodes(1) h(2) by blast
    then show ?thesis using targets(1) t(1) h(5) v(1) by auto
  next
    case False
    then show ?thesis using h v(1) taken by auto
  qed
qed

lemma gc_step_inv: "gc_step ctx redirects s s' \<Longrightarrow> gc_inv ctx redirects secs0 s \<Longrightarrow> gc_inv ctx redirects secs0 s'"
proof (induction rule: gc_step.induct)
  case (gc_start nx i ts secs b w)
  note inv = gc_invD [OF gc_start.prems]
  have i: "i \<in> visited secs" using inv(4) by simp
  show ?case
  proof (rule gc_invI [OF inv(1-3)])
    show "j \<in> visited secs \<or> t \<in> worker_targets (add_mset \<lparr>wk_batch = b, wk_frames = [(ts, 0)], wk_next = nx\<rparr> w)"
      if "k \<in> visited secs" "k \<notin> worker_nodes (add_mset \<lparr>wk_batch = b, wk_frames = [(ts, 0)], wk_next = nx\<rparr> w)"
        "edges ctx k = Some us" "t \<in> set us" "nth_opt redirects t = Some j" for k us t j
      using inv(6) [of k us t j] that gc_start.hyps by (cases "k = i") auto
  qed (use inv(4,5) i gc_start.hyps in auto)
next
  case (gc_return secs b d fs nx w)
  then show ?case by (simp add: gc_inv_def)
next
  case (gc_seen t t' secs secs' b ts d fs nx w)
  note v = visit_at_ok [OF gc_seen.hyps(2)]
  show ?case by (rule gc_inv_mark [OF gc_seen.prems gc_seen.hyps(1) _ v(1,3)]) (use v(2) in auto)
next
  case (gc_enter t t' secs secs' d us b ts fs nx w)
  note v = visit_at_ok [OF gc_enter.hyps(2)]
  show ?case by (rule gc_inv_mark [OF gc_enter.prems gc_enter.hyps(1) _ v(1,3)]) (use v(2) gc_enter.hyps(4) in auto)
next
  case (gc_bank t t' secs secs' d b ts fs nx w)
  note v = visit_at_ok [OF gc_bank.hyps(2)]
  show ?case by (rule gc_inv_mark [OF gc_bank.prems gc_bank.hyps(1) _ v(1,3)]) (use v(2) in auto)
next
  case (gc_spawn nx secs b w)
  then show ?case by (simp add: gc_inv_def new_worker_def Un_commute Un_left_commute)
next
  case (gc_last nx secs w)
  then show ?case by (simp add: gc_inv_def new_worker_def)
next
  case (gc_end secs w)
  then show ?case by (simp add: gc_inv_def)
qed

text \<open>Every step brings the pool nearer to its end: it marks a subsection or uses up waiting work.\<close>

definition edge_count :: "link \<Rightarrow> nat \<Rightarrow> nat" where
  "edge_count ctx i = (case edges ctx i of Some ts \<Rightarrow> length ts | None \<Rightarrow> 0)"

definition worker_work :: "link \<Rightarrow> worker \<Rightarrow> nat" where
  "worker_work ctx x =
     1 + sum_list (map (\<lambda>i. edge_count ctx i + 2) (wk_batch x)) + sum_list (map (\<lambda>(ts, d). length ts + 1) (wk_frames x)) +
     sum_list (map (\<lambda>i. edge_count ctx i + 4) (wk_next x))"

definition gc_measure :: "link \<Rightarrow> gc_state \<Rightarrow> nat \<times> nat" where
  "gc_measure ctx st = (case st of (secs, w) \<Rightarrow> (unvisited secs, sum_mset (image_mset (worker_work ctx) w)))"

lemma next_work: "sum_list (map (\<lambda>i. edge_count ctx i + 4) nx) = sum_list (map (\<lambda>i. edge_count ctx i + 2) nx) + 2 * length nx"
  by (induction nx) auto

lemma gc_step_decreases:
  "gc_step ctx redirects s s' \<Longrightarrow> (gc_measure ctx s', gc_measure ctx s) \<in> less_than <*lex*> less_than"
proof (induction rule: gc_step.induct)
  case (gc_spawn nx secs b w)
  then show ?case using next_work [of ctx nx] by (simp add: gc_measure_def worker_work_def new_worker_def)
next
  case (gc_last nx secs w)
  then show ?case using next_work [of ctx nx] by (simp add: gc_measure_def worker_work_def new_worker_def)
qed (auto simp: gc_measure_def worker_work_def edge_count_def dest: unvisited_visit)

lemma gc_step_wf: "wf {(s', s). gc_step ctx redirects s s'}"
proof (rule wf_subset [OF wf_inv_image [OF wf_lex_prod [OF wf_less_than wf_less_than], of "gc_measure ctx"]])
  show "{(s', s). gc_step ctx redirects s s'} \<subseteq> inv_image (less_than <*lex*> less_than) (gc_measure ctx)"
    using gc_step_decreases by (auto simp: inv_image_def)
qed

lemma gc_progress:
  assumes wf: "link_wf ctx redirects" and l: "length secs = length (lk_isecs ctx)" and inv: "gc_inv ctx redirects secs0 (secs, w)"
    and ne: "w \<noteq> {#}"
  shows "\<exists>s'. gc_step ctx redirects (secs, w) s'"
proof -
  obtain x v where w: "w = add_mset x v" using ne by (meson multiset_cases)
  obtain b fs nx where x: "x = \<lparr>wk_batch = b, wk_frames = fs, wk_next = nx\<rparr>" by (cases x) auto
  note inv = gc_invD [OF inv, unfolded w x]
  show ?thesis
  proof (cases fs)
    case Nil
    show ?thesis
    proof (cases "16 \<le> length nx")
      case True
      then show ?thesis using gc_spawn w x Nil by blast
    next
      case nx: False
      show ?thesis
      proof (cases b)
        case Nb: Nil
        show ?thesis
        proof (cases "nx = []")
          case True
          show ?thesis unfolding w x Nil Nb True by (rule exI) (rule gc_end)
        next
          case False
          then show ?thesis unfolding w x Nil Nb by (intro exI) (rule gc_last, use nx in simp_all)
        qed
      next
        case (Cons i b')
        then have "i < length (lk_isecs ctx)" using inv(4) l by (auto simp: visited_def)
        then obtain ts where "edges ctx i = Some ts" using wf by (auto simp: link_wf_def)
        then show ?thesis unfolding w x Nil Cons by (intro exI) (rule gc_start, use nx in simp_all)
      qed
    qed
  next
    case (Cons f fs')
    obtain ts d where f: "f = (ts, d)" by (cases f)
    show ?thesis
    proof (cases ts)
      case Nil
      then show ?thesis using gc_return w x Cons f by blast
    next
      case t: (Cons t ts')
      then obtain i us where i: "i \<in> visited secs" "edges ctx i = Some us" "t \<in> set us" using inv(5) [of t] f Cons by auto
      then have "t < length redirects" using wf l by (fastforce simp: link_wf_def visited_def)
      then have r: "nth_opt redirects t = Some (redirects ! t)" "redirects ! t < length secs" using wf l by (auto simp: link_wf_def nth_opt_Some)
      then obtain fr secs' where v: "visit_at (redirects ! t) secs = Some (fr, secs')" using visit_at_total by blast
      obtain us where us: "edges ctx (redirects ! t) = Some us" using r wf l by (auto simp: link_wf_def)
      show ?thesis
      proof (cases fr)
        case True
        show ?thesis
        proof (cases "d < 3")
          case d: True
          show ?thesis unfolding w x Cons f t by (intro exI) (rule gc_enter, use r(1) v True d us in simp_all)
        next
          case d: False
          show ?thesis unfolding w x Cons f t by (intro exI) (rule gc_bank, use r(1) v True d in simp_all)
        qed
      next
        case False
        show ?thesis unfolding w x Cons f t by (intro exI) (rule gc_seen, use r(1) v False in simp_all)
      qed
    qed
  qed
qed

lemma concat_chunks: "n \<noteq> 0 \<Longrightarrow> concat (chunks_of n xs) = xs"
  by (induction n xs rule: chunks_of.induct) (simp add: chunks_of.simps)

lemma mark_start_sets: "worker_nodes (mark_start roots) = set roots" "worker_targets (mark_start roots) = {}"
proof -
  have sets: "worker_nodes (mset (map new_worker bs)) = set (concat bs)" "worker_targets (mset (map new_worker bs)) = {}" for bs
    by (induction bs) (auto simp: new_worker_def)
  show "worker_nodes (mark_start roots) = set roots" unfolding mark_start_def sets by (subst concat_chunks) simp_all
  show "worker_targets (mark_start roots) = {}" unfolding mark_start_def by (rule sets)
qed

lemma gc_steps_inv: "(gc_step ctx redirects)\<^sup>*\<^sup>* s s' \<Longrightarrow> gc_inv ctx redirects secs0 s \<Longrightarrow> gc_inv ctx redirects secs0 s'"
  by (induction rule: rtranclp_induct) (auto intro: gc_step_inv)

lemma gc_runs_end:
  assumes wf: "link_wf ctx redirects" and l: "length secs0 = length (lk_isecs ctx)"
  shows "gc_inv ctx redirects secs0 s \<Longrightarrow> \<exists>secs'. (gc_step ctx redirects)\<^sup>*\<^sup>* s (secs', {#})"
proof (induction s rule: wf_induct_rule [OF gc_step_wf [of ctx redirects]])
  case (1 s)
  obtain secs w where s: "s = (secs, w)" by (cases s)
  have len: "length secs = length (lk_isecs ctx)" using 1(2) l same_sections_length by (fastforce simp: s gc_inv_def)
  show ?case
  proof (cases "w = {#}")
    case True
    then show ?thesis using s by blast
  next
    case False
    then obtain s' where st: "gc_step ctx redirects s s'" using gc_progress [OF wf len] 1(2) s by blast
    then have "\<exists>secs'. (gc_step ctx redirects)\<^sup>*\<^sup>* s' (secs', {#})" using 1(1) gc_step_inv [OF st 1(2)] by blast
    then show ?thesis using st by (meson converse_rtranclp_into_rtranclp)
  qed
qed

lemma gc_inv_start: "set roots = visited secs \<Longrightarrow> gc_inv ctx redirects secs (secs, mark_start roots)"
  by (rule gc_invI) (auto simp: mark_start_sets)

lemma marking_ends:
  assumes wf: "link_wf ctx redirects" and secs: "same_sections (lk_isecs ctx) secs" and roots: "set roots = visited secs"
  shows "\<exists>secs'. (gc_step ctx redirects)\<^sup>*\<^sup>* (secs, mark_start roots) (secs', {#})"
  using gc_runs_end [OF wf] gc_inv_start [OF roots] same_sections_length [OF secs] by metis

lemma marking_reaches:
  assumes wf: "link_wf ctx redirects" and secs: "same_sections (lk_isecs ctx) secs" and roots: "set roots = visited secs"
    and run: "(gc_step ctx redirects)\<^sup>*\<^sup>* (secs, mark_start roots) (secs', {#})"
  shows "same_sections secs secs' \<and> visited secs' = (edge_rel ctx redirects)\<^sup>* `` visited secs"
proof
  let ?E = "edge_rel ctx redirects"
  note inv = gc_invD [OF gc_steps_inv [OF run gc_inv_start [OF roots]]]
  show "same_sections secs secs'" by (rule inv(1))
  have "\<forall>i \<in> visited secs'. ?E `` {i} \<subseteq> visited secs'" using inv(6) by (fastforce simp: edge_rel_def)
  then have "?E\<^sup>* `` visited secs' = visited secs'" by (rule reach_closed)
  then show "visited secs' = ?E\<^sup>* `` visited secs" using reach_between [OF inv(2,3)] by simp
qed

text \<open>
  C35. The parallel marking, whatever the order in which the workers take their steps, can always go on
  until no worker is left, never runs forever, and then exactly the subsections reachable from the
  roots are marked.
\<close>

theorem mark_correct:
  assumes wf: "link_wf ctx redirects" and secs: "same_sections (lk_isecs ctx) secs" and roots: "set roots = visited secs"
  shows "wf {(s', s). gc_step ctx redirects s s'} \<and>
    (\<forall>s. (gc_step ctx redirects)\<^sup>*\<^sup>* (secs, mark_start roots) s \<longrightarrow> (\<exists>secs'. (gc_step ctx redirects)\<^sup>*\<^sup>* s (secs', {#}))) \<and>
    (\<forall>secs'. (gc_step ctx redirects)\<^sup>*\<^sup>* (secs, mark_start roots) (secs', {#}) \<longrightarrow>
       same_sections secs secs' \<and> visited secs' = (edge_rel ctx redirects)\<^sup>* `` visited secs)"
proof (intro conjI allI impI)
  show "wf {(s', s). gc_step ctx redirects s s'}" by (rule gc_step_wf)
  show "\<exists>secs'. (gc_step ctx redirects)\<^sup>*\<^sup>* s (secs', {#})" if "(gc_step ctx redirects)\<^sup>*\<^sup>* (secs, mark_start roots) s" for s
    using gc_runs_end [OF wf] gc_steps_inv [OF that gc_inv_start [OF roots]] same_sections_length [OF secs] by metis
qed (use marking_reaches [OF wf secs roots] in auto)


subsection \<open>The roots, the live support and the sweep\<close>

lemma enqueue_all_ok:
  assumes "\<forall>t \<in> fst ` set cands. t < length redirects" and "\<forall>j \<in> set redirects. j < length secs"
  shows "\<exists>roots secs' ws'. enqueue_all redirects cands secs ws = Some (roots, secs', ws') \<and> same_sections secs secs' \<and>
    visited secs' = visited secs \<union> (!) redirects ` fst ` set cands \<and> set roots = visited secs' - visited secs"
  using assms
proof (induction cands arbitrary: secs ws)
  case (Cons c cands)
  obtain t r where c: "c = (t, r)" by (cases c)
  let ?t = "redirects ! t"
  have t: "nth_opt redirects t = Some ?t" "?t < length secs" using Cons.prems c by (simp_all add: nth_opt_Some)
  obtain f secs1 where v: "visit_at ?t secs = Some (f, secs1)" using visit_at_total [OF t(2)] by blast
  note v' = visit_at_ok [OF v]
  obtain roots secs' ws' where w: "enqueue_all redirects cands secs1 (if f then note_why ?t (Root r) ws else ws) = Some (roots, secs', ws')"
    "same_sections secs1 secs'" "visited secs' = visited secs1 \<union> (!) redirects ` fst ` set cands" "set roots = visited secs' - visited secs1"
    using Cons.IH [of secs1 "if f then note_why ?t (Root r) ws else ws"] Cons.prems v'(4) by auto
  have "enqueue_all redirects (c # cands) secs ws = Some (if f then ?t # roots else roots, secs', ws')"
    using t v w(1) c by simp
  moreover have "same_sections secs secs'" using v'(3) w(2) by (rule same_sections_trans)
  moreover have "set (if f then ?t # roots else roots) = visited secs' - visited secs" using w(3,4) v'(1,2) by auto
  ultimately show ?case using w(3) v'(1) c by auto
qed simp

text \<open>
  What is live in the end: what the roots reach, and then, subsection by subsection, what the
  live-support sections that refer to something live reach.
\<close>

fun live_support_set :: "(nat \<times> nat) set \<Rightarrow> nat list \<Rightarrow> nat set \<Rightarrow> nat list \<Rightarrow> nat set" where
  "live_support_set E redirects V [] = V"
| "live_support_set E redirects V (i # ids) =
     live_support_set E redirects (if E `` {i} \<inter> V = {} then V else V \<union> E\<^sup>* `` {redirects ! i}) ids"

definition live_set :: "link \<Rightarrow> nat list \<Rightarrow> nat list \<Rightarrow> nat list \<Rightarrow> nat set" where
  "live_set ctx redirects roots ids =
     (let E = edge_rel ctx redirects in live_support_set E redirects (E\<^sup>* `` (!) redirects ` set roots) ids)"

lemma references_live_ok:
  assumes "\<forall>t \<in> set ts. t < length redirects" and "\<forall>j \<in> set redirects. j < length secs"
  shows "references_live redirects ts secs = Some (\<exists>t \<in> set ts. redirects ! t \<in> visited secs)"
proof -
  have "those (map (\<lambda>t. do { t \<leftarrow> nth_opt redirects t; map_option is_visited (nth_opt secs t) }) ts) =
      Some (map (\<lambda>t. redirects ! t \<in> visited secs) ts)"
    using assms(1) by (induction ts) (use assms(2) in \<open>simp_all add: nth_opt_def visited_def\<close>)
  then show ?thesis by (auto simp: references_live_def)
qed

lemma rtrancl_Un_image: "E\<^sup>* `` V = V \<Longrightarrow> E\<^sup>* `` (insert i V) = V \<union> E\<^sup>* `` {i}"
  by auto

lemma rtrancl_image_idem: "E\<^sup>* `` (E\<^sup>* `` V) = E\<^sup>* `` V"
  by (auto intro: rtrancl_trans)

lemma live_support_loop_ok:
  assumes wf: "link_wf ctx redirects"
  shows "length secs = length (lk_isecs ctx) \<Longrightarrow> (edge_rel ctx redirects)\<^sup>* `` visited secs = visited secs \<Longrightarrow>
    \<forall>i \<in> set ids. i < length (lk_isecs ctx) \<Longrightarrow>
    \<exists>secs' ws'. live_support_loop ctx redirects ids secs ws = Some (secs', ws') \<and> same_sections secs secs' \<and>
      visited secs' = live_support_set (edge_rel ctx redirects) redirects (visited secs) ids"
proof (induction ids arbitrary: secs ws)
  case (Cons i ids)
  let ?E = "edge_rel ctx redirects" and ?i = "redirects ! i"
  have rd: "length redirects = length (lk_isecs ctx)" "\<forall>j \<in> set redirects. j < length secs" using wf Cons.prems by (auto simp: link_wf_def)
  have i: "nth_opt redirects i = Some ?i" "?i < length secs" using Cons.prems rd by (simp_all add: nth_opt_Some)
  obtain ts where ts: "edges ctx i = Some ts" "\<forall>t \<in> set ts. t < length redirects" using wf Cons.prems(3) by (auto simp: link_wf_def)
  have img: "?E `` {i} = (!) redirects ` set ts" by (rule edge_image [OF ts])
  have live: "references_live redirects ts secs = Some (?E `` {i} \<inter> visited secs \<noteq> {})"
    unfolding references_live_ok [OF ts(2) rd(2)] img by auto
  have skip: ?case if same: "live_support_set ?E redirects (visited secs) (i # ids) = live_support_set ?E redirects (visited secs) ids"
    and run: "live_support_loop ctx redirects (i # ids) secs ws = live_support_loop ctx redirects ids secs1 ws"
    and s1: "same_sections secs secs1" "visited secs1 = visited secs" for secs1
  proof -
    obtain secs' ws' where "live_support_loop ctx redirects ids secs1 ws = Some (secs', ws')" "same_sections secs1 secs'"
        "visited secs' = live_support_set ?E redirects (visited secs1) ids"
      using Cons.IH [of secs1 ws] Cons.prems same_sections_length [OF s1(1)] s1(2) by auto
    then show ?thesis using same run s1 same_sections_trans by metis
  qed
  show ?case
  proof (cases "?E `` {i} \<inter> visited secs = {}")
    case True
    show ?thesis by (rule skip [of secs]) (use True ts live i in simp_all)
  next
    case lv: False
    obtain f secs1 where v: "visit_at ?i secs = Some (f, secs1)" using visit_at_total [OF i(2)] by blast
    note v' = visit_at_ok [OF v]
    show ?thesis
    proof (cases f)
      case False
      then have "?i \<in> visited secs" using v'(2) by simp
      then have "visited secs \<union> ?E\<^sup>* `` {?i} = visited secs" "visited secs1 = visited secs" using Cons.prems(2) v'(1) by auto
      then show ?thesis using skip [of secs1] v'(3) ts live lv i v False by simp
    next
      case True
      have len: "length secs1 = length (lk_isecs ctx)" using v'(4) Cons.prems(1) by simp
      have cl: "\<forall>k \<in> visited secs1 - set [?i]. ?E `` {k} \<subseteq> visited secs1"
        using Cons.prems(2) v'(1) by auto
      have st: "set [?i] \<subseteq> visited secs1" using v'(1) by simp
      obtain secs2 ws2 where w: "walk ctx redirects [?i] secs1 (note_why ?i (Root LiveSupport) ws) = Some (secs2, ws2)"
          "same_sections secs1 secs2" "visited secs2 = ?E\<^sup>* `` visited secs1"
        using walk_ok [OF wf len st cl] by blast
      have vis: "visited secs2 = visited secs \<union> ?E\<^sup>* `` {?i}" unfolding w(3) v'(1) by (rule rtrancl_Un_image) (rule Cons.prems(2))
      have len2: "length secs2 = length (lk_isecs ctx)" using len same_sections_length [OF w(2)] by simp
      have closed: "?E\<^sup>* `` visited secs2 = visited secs2" unfolding w(3) by (rule rtrancl_image_idem)
      have ids: "\<forall>i \<in> set ids. i < length (lk_isecs ctx)" using Cons.prems(3) by simp
      obtain secs' ws' where r: "live_support_loop ctx redirects ids secs2 ws2 = Some (secs', ws')" "same_sections secs2 secs'"
          "visited secs' = live_support_set ?E redirects (visited secs2) ids"
        using Cons.IH [OF len2 closed ids, of ws2] by blast
      have "live_support_loop ctx redirects (i # ids) secs ws = Some (secs', ws')"
        using ts live lv i v True w(1) r(1) by simp
      moreover have "same_sections secs secs'" using v'(3) w(2) r(2) same_sections_trans by blast
      ultimately show ?thesis using r(3) vis lv by auto
    qed
  qed
qed simp


lemma sweep_section_ok: "is_alive (sweep_section s) = (is_alive s \<and> is_visited s)" "\<not> is_visited (sweep_section s)"
  by (simp_all add: sweep_section_def Let_def case_prod_unfold isec_simps conj_commute)

lemma same_alive: "same_sections a b \<Longrightarrow> i < length a \<Longrightarrow> is_alive (a ! i) = is_alive (b ! i)"
proof -
  assume s: "same_sections a b" and i: "i < length a"
  then have "map unmark_visited a ! i = map unmark_visited b ! i" by (simp add: same_sections_def)
  then have "unmark_visited (a ! i) = unmark_visited (b ! i)" using i same_sections_length [OF s] by simp
  then show "is_alive (a ! i) = is_alive (b ! i)" unfolding isec_simps(1) by (metis isec_simps(1) visited_flag_set(3) zero_neq_one)
qed

text \<open>The unwind data of the sections: every index of it is in range.\<close>

definition unwind_wf :: "link \<Rightarrow> bool" where
  "unwind_wf ctx \<longleftrightarrow>
     (\<forall>f \<in> set (lk_fdes ctx). unat (fd_isec f) < length (lk_isecs ctx)) \<and>
     (\<forall>r \<in> set (lk_unwind_records ctx). unat (ur_isec r) < length (lk_isecs ctx) \<and>
        (ur_fde_idx r \<noteq> UNWIND_NONE \<longrightarrow> unat (ur_fde_idx r) < length (lk_fdes ctx)))"

lemma keep_fdes_ok:
  "\<forall>f \<in> set fdes. unat (fd_isec f) < length secs \<Longrightarrow>
   \<exists>m. keep_fdes secs fdes n = Some (m, filter (\<lambda>f. is_alive (secs ! unat (fd_isec f))) fdes) \<and> length m = length fdes"
proof (induction fdes arbitrary: n)
  case (Cons f fdes)
  have n: "nth_opt secs (unat (fd_isec f)) = Some (secs ! unat (fd_isec f))" using Cons.prems by (simp add: nth_opt_Some)
  obtain m m' where "keep_fdes secs fdes n = Some (m, filter (\<lambda>f. is_alive (secs ! unat (fd_isec f))) fdes)" "length m = length fdes"
    "keep_fdes secs fdes (n + 1) = Some (m', filter (\<lambda>f. is_alive (secs ! unat (fd_isec f))) fdes)" "length m' = length fdes"
    using Cons.IH [of n] Cons.IH [of "n + 1"] Cons.prems by auto
  then show ?case using n by simp
qed simp

lemma keep_records_ok:
  "\<forall>r \<in> set recs. unat (ur_isec r) < length secs \<and> (ur_fde_idx r \<noteq> UNWIND_NONE \<longrightarrow> unat (ur_fde_idx r) < length m) \<Longrightarrow>
   \<exists>recs'. keep_records secs m recs = Some recs' \<and>
     map ur_isec recs' = filter (\<lambda>i. is_alive (secs ! unat i)) (map ur_isec recs)"
proof (induction recs)
  case (Cons r recs)
  have n: "nth_opt secs (unat (ur_isec r)) = Some (secs ! unat (ur_isec r))" using Cons.prems by (simp add: nth_opt_Some)
  obtain recs' where r: "keep_records secs m recs = Some recs'"
    "map ur_isec recs' = filter (\<lambda>i. is_alive (secs ! unat i)) (map ur_isec recs)" using Cons by auto
  have "\<exists>f. nth_opt m (unat (ur_fde_idx r)) = Some f" if "ur_fde_idx r \<noteq> UNWIND_NONE" using Cons.prems that by (simp add: nth_opt_Some)
  then show ?case using n r by (cases "ur_fde_idx r = UNWIND_NONE") auto
qed simp

lemma refresh_ranges_ok:
  "\<forall>r \<in> set recs. unat (ur_isec r) < length secs \<Longrightarrow>
   \<exists>secs'. refresh_ranges i recs secs = Some secs' \<and> map is_flags secs' = map is_flags secs"
proof (induction i recs secs rule: refresh_ranges.induct)
  case (2 i r rs secs)
  define n where "n = 1 + length (takeWhile (\<lambda>q. ur_isec q = ur_isec r) rs)"
  define secs1 where "secs1 = secs[unat (ur_isec r) := (secs ! unat (ur_isec r))\<lparr>is_unwind_offset := of_nat i, is_nunwind := of_nat n\<rparr>]"
  have lt: "unat (ur_isec r) < length secs" using "2.prems" by simp
  have flags: "map is_flags secs1 = map is_flags secs" using lt by (simp add: secs1_def map_update) (metis list_update_id nth_map)
  have "\<forall>q \<in> set (drop n (r # rs)). unat (ur_isec q) < length secs1"
    using "2.prems" set_drop_subset [of n "r # rs"] unfolding secs1_def by (metis length_list_update subsetD)
  then obtain secs' where "refresh_ranges (i + n) (drop n (r # rs)) secs1 = Some secs'" "map is_flags secs' = map is_flags secs1"
    using "2.IH" [OF n_def lt] unfolding secs1_def by blast
  then show ?case using lt flags by (simp add: n_def secs1_def)
qed simp

lemma sweep_ok:
  assumes "unwind_wf ctx" and "length secs = length (lk_isecs ctx)"
  shows "\<exists>ctx'. sweep ctx secs = Some ctx' \<and> length (lk_isecs ctx') = length secs \<and>
    (\<forall>i < length secs. is_alive (lk_isecs ctx' ! i) = (is_alive (secs ! i) \<and> is_visited (secs ! i)) \<and> \<not> is_visited (lk_isecs ctx' ! i)) \<and>
    lk_fdes ctx' = filter (\<lambda>f. is_alive (lk_isecs ctx' ! unat (fd_isec f))) (lk_fdes ctx) \<and>
    map ur_isec (lk_unwind_records ctx') = filter (\<lambda>i. is_alive (lk_isecs ctx' ! unat i)) (map ur_isec (lk_unwind_records ctx))"
proof -
  let ?s = "map sweep_section secs"
  have w: "\<forall>f \<in> set (lk_fdes ctx). unat (fd_isec f) < length ?s"
    "\<forall>r \<in> set (lk_unwind_records ctx). unat (ur_isec r) < length ?s \<and> (ur_fde_idx r \<noteq> UNWIND_NONE \<longrightarrow> unat (ur_fde_idx r) < length (lk_fdes ctx))"
    using assms by (auto simp: unwind_wf_def)
  obtain m where k: "keep_fdes ?s (lk_fdes ctx) 0 = Some (m, filter (\<lambda>f. is_alive (?s ! unat (fd_isec f))) (lk_fdes ctx))" "length m = length (lk_fdes ctx)"
    using keep_fdes_ok [OF w(1)] by blast
  obtain recs where r: "keep_records ?s m (lk_unwind_records ctx) = Some recs"
      "map ur_isec recs = filter (\<lambda>i. is_alive (?s ! unat i)) (map ur_isec (lk_unwind_records ctx))"
    using keep_records_ok [of "lk_unwind_records ctx" ?s m] w(2) k(2) by auto
  have "ur_isec ` set recs \<subseteq> ur_isec ` set (lk_unwind_records ctx)" using arg_cong [OF r(2), of set] by auto
  then have "\<forall>q \<in> set recs. unat (ur_isec q) < length ?s" using w(2) by fastforce
  then obtain secs' where f: "refresh_ranges 0 recs ?s = Some secs'" "map is_flags secs' = map is_flags ?s"
    using refresh_ranges_ok by blast
  have len: "length secs' = length secs" using arg_cong [OF f(2), of length] by simp
  have fl: "is_flags (secs' ! i) = is_flags (?s ! i)" if "i < length secs" for i
    using arg_cong [OF f(2), of "\<lambda>xs. xs ! i"] that len by simp
  then have alive: "is_alive (secs' ! i) = is_alive (?s ! i)" "is_visited (secs' ! i) = is_visited (?s ! i)" if "i < length secs" for i
    using that by (simp_all add: isec_simps)
  let ?c = "ctx\<lparr>lk_isecs := secs', lk_fdes := filter (\<lambda>f. is_alive (?s ! unat (fd_isec f))) (lk_fdes ctx), lk_unwind_records := recs\<rparr>"
  have "sweep ctx secs = Some ?c" using k r f by (simp add: sweep_def remove_dead_unwind_info_def)
  moreover have "filter (\<lambda>f. is_alive (?s ! unat (fd_isec f))) (lk_fdes ctx) = filter (\<lambda>f. is_alive (secs' ! unat (fd_isec f))) (lk_fdes ctx)"
    by (rule filter_cong) (use w(1) alive in auto)
  moreover have "filter (\<lambda>i. is_alive (?s ! unat i)) (map ur_isec (lk_unwind_records ctx)) = filter (\<lambda>i. is_alive (secs' ! unat i)) (map ur_isec (lk_unwind_records ctx))"
    by (rule filter_cong) (use w(2) alive in auto)
  ultimately show ?thesis using len alive r(2) sweep_section_ok by (intro exI [of _ ?c]) simp
qed


text \<open>
  C34. Dead stripping, parallel or serial and whatever the schedule of the workers, yields a link, and
  in every link it can yield the live subsections are those that were live and are reachable from the
  roots or, in turn, from a live-support subsection that refers to something reachable; no visited
  bit is left, and the unwind records and FDEs that stay are those of the live subsections.
\<close>

theorem dead_strip_correct:
  assumes red: "redirect_all ctx = Some redirects" and wf: "link_wf ctx redirects" and uw: "unwind_wf ctx"
    and cands: "root_candidates ctx (\<lambda>_. is_symbol_root ctx) = Some cands" "\<forall>i \<in> fst ` set cands. i < length (lk_isecs ctx)"
    and ids: "live_support_sections ctx = Some ids" and clear: "\<forall>s \<in> set (lk_isecs ctx). \<not> is_visited s"
  shows "(\<exists>ctx' ws. dead_strip ctx why ctx' ws) \<and>
    (\<forall>ctx' ws. dead_strip ctx why ctx' ws \<longrightarrow> length (lk_isecs ctx') = length (lk_isecs ctx) \<and>
       (\<forall>i < length (lk_isecs ctx).
          is_alive (lk_isecs ctx' ! i) = (is_alive (lk_isecs ctx ! i) \<and> i \<in> live_set ctx redirects (map fst cands) ids) \<and>
          \<not> is_visited (lk_isecs ctx' ! i)) \<and>
       lk_fdes ctx' = filter (\<lambda>f. is_alive (lk_isecs ctx' ! unat (fd_isec f))) (lk_fdes ctx) \<and>
       map ur_isec (lk_unwind_records ctx') = filter (\<lambda>i. is_alive (lk_isecs ctx' ! unat i)) (map ur_isec (lk_unwind_records ctx)))"
    (is "_ \<and> (\<forall>ctx' ws. _ \<longrightarrow> ?result ctx')")
proof -
  let ?E = "edge_rel ctx redirects" and ?live = "live_set ctx redirects (map fst cands) ids"
  have rd: "\<forall>j \<in> set redirects. j < length (lk_isecs ctx)" "\<forall>t \<in> fst ` set cands. t < length redirects"
    using wf cands(2) by (auto simp: link_wf_def)
  have clr: "visited (lk_isecs ctx) = {}" using clear by (auto simp: visited_def)
  have idr: "\<forall>i \<in> set ids. i < length (lk_isecs ctx)"
    using ids by (auto simp: live_support_sections_def split: bind_splits)
  have start: "\<exists>roots secs ws'. collect_root_set ctx redirects (\<lambda>_. is_symbol_root ctx) (lk_isecs ctx) ws = Some (roots, secs, ws') \<and>
      same_sections (lk_isecs ctx) secs \<and> visited secs = (!) redirects ` fst ` set cands \<and> set roots = visited secs" for ws
    using enqueue_all_ok [OF rd(2,1), of ws] cands(1) clr by (simp add: collect_root_set_def)
  have finish: "\<exists>secs2 ws2 ctx'. mark_live_support ctx redirects secs1 ws = Some (secs2, ws2) \<and> sweep ctx secs2 = Some ctx' \<and>
      length (lk_isecs ctx') = length (lk_isecs ctx) \<and>
      (\<forall>i < length (lk_isecs ctx). is_alive (lk_isecs ctx' ! i) = (is_alive (lk_isecs ctx ! i) \<and> i \<in> ?live) \<and> \<not> is_visited (lk_isecs ctx' ! i)) \<and>
      lk_fdes ctx' = filter (\<lambda>f. is_alive (lk_isecs ctx' ! unat (fd_isec f))) (lk_fdes ctx) \<and>
      map ur_isec (lk_unwind_records ctx') = filter (\<lambda>i. is_alive (lk_isecs ctx' ! unat i)) (map ur_isec (lk_unwind_records ctx))"
    if s1: "same_sections (lk_isecs ctx) secs1" "visited secs1 = ?E\<^sup>* `` (!) redirects ` fst ` set cands" for secs1 ws
  proof -
    have len: "length secs1 = length (lk_isecs ctx)" using same_sections_length [OF s1(1)] by simp
    have cl: "?E\<^sup>* `` visited secs1 = visited secs1" unfolding s1(2) by (rule rtrancl_image_idem)
    obtain secs2 ws2 where l: "live_support_loop ctx redirects ids secs1 ws = Some (secs2, ws2)" "same_sections secs1 secs2"
        "visited secs2 = live_support_set ?E redirects (visited secs1) ids"
      using live_support_loop_ok [OF wf len cl idr] by blast
    have same: "same_sections (lk_isecs ctx) secs2" using s1(1) l(2) by (rule same_sections_trans)
    note len2 = same_sections_length [OF same]
    have vis: "visited secs2 = ?live" unfolding l(3) s1(2) live_set_def Let_def by simp
    obtain ctx' where c: "sweep ctx secs2 = Some ctx'" "length (lk_isecs ctx') = length secs2"
        "\<forall>i < length secs2. is_alive (lk_isecs ctx' ! i) = (is_alive (secs2 ! i) \<and> is_visited (secs2 ! i)) \<and> \<not> is_visited (lk_isecs ctx' ! i)"
        "lk_fdes ctx' = filter (\<lambda>f. is_alive (lk_isecs ctx' ! unat (fd_isec f))) (lk_fdes ctx)"
        "map ur_isec (lk_unwind_records ctx') = filter (\<lambda>i. is_alive (lk_isecs ctx' ! unat i)) (map ur_isec (lk_unwind_records ctx))"
      using sweep_ok [OF uw len2 [symmetric]] by blast
    have "is_alive (secs2 ! i) = is_alive (lk_isecs ctx ! i) \<and> is_visited (secs2 ! i) = (i \<in> ?live)" if "i < length secs2" for i
      using same_alive [OF same] that len2 vis [symmetric] by (simp add: visited_def)
    then show ?thesis using l(1) ids c len2 by (intro exI [of _ secs2] exI [of _ ws2] exI [of _ ctx']) (simp add: mark_live_support_def)
  qed
  have marked: "same_sections (lk_isecs ctx) secs1" "visited secs1 = ?E\<^sup>* `` (!) redirects ` fst ` set cands"
    if st: "same_sections (lk_isecs ctx) secs" "visited secs = (!) redirects ` fst ` set cands" "set roots = visited secs"
      and run: "(gc_step ctx redirects)\<^sup>*\<^sup>* (secs, mark_start roots) (secs1, {#})" for secs roots secs1
  proof -
    note m = marking_reaches [OF wf st(1,3) run]
    show "same_sections (lk_isecs ctx) secs1" using st(1) conjunct1 [OF m] by (rule same_sections_trans)
    show "visited secs1 = ?E\<^sup>* `` (!) redirects ` fst ` set cands" using m st(2) by simp
  qed
  have walked: "\<exists>secs1 ws1. walk ctx redirects roots secs ws = Some (secs1, ws1) \<and> same_sections (lk_isecs ctx) secs1 \<and>
      visited secs1 = ?E\<^sup>* `` (!) redirects ` fst ` set cands"
    if st: "same_sections (lk_isecs ctx) secs" "visited secs = (!) redirects ` fst ` set cands" "set roots = visited secs" for secs roots ws
  proof -
    have "length secs = length (lk_isecs ctx)" using same_sections_length [OF st(1)] by simp
    then obtain secs1 ws1 where w: "walk ctx redirects roots secs ws = Some (secs1, ws1)" "same_sections secs secs1" "visited secs1 = ?E\<^sup>* `` visited secs"
      using walk_ok [OF wf, of secs roots ws] st(3) by auto
    then show ?thesis using st(2) same_sections_trans [OF st(1) w(2)] by metis
  qed
  obtain roots secs ws where par: "collect_root_set ctx redirects (\<lambda>_. is_symbol_root ctx) (lk_isecs ctx) None = Some (roots, secs, ws)"
    and par': "same_sections (lk_isecs ctx) secs" "visited secs = (!) redirects ` fst ` set cands" "set roots = visited secs" using start [of None] by blast
  obtain roots2 secs2 ws2 where ser: "collect_root_set ctx redirects (\<lambda>_. is_symbol_root ctx) (lk_isecs ctx)
      (Some (map (\<lambda>_. Dead) (lk_isecs ctx))) = Some (roots2, secs2, ws2)"
    and ser': "same_sections (lk_isecs ctx) secs2" "visited secs2 = (!) redirects ` fst ` set cands" "set roots2 = visited secs2"
    using start [of "Some (map (\<lambda>_. Dead) (lk_isecs ctx))"] by blast
  obtain s1 w1 where wk: "walk ctx redirects roots2 secs2 ws2 = Some (s1, w1)" "same_sections (lk_isecs ctx) s1"
    "visited s1 = ?E\<^sup>* `` (!) redirects ` fst ` set cands" using walked [OF ser', of ws2] by blast
  have ex: "\<exists>ctx' ws. dead_strip ctx why ctx' ws"
  proof (cases why)
    case True
    then show ?thesis using finish [OF wk(2,3), of w1] strip_serial [OF red ser wk(1)] by metis
  next
    case False
    obtain secs1 where e: "(gc_step ctx redirects)\<^sup>*\<^sup>* (secs, mark_start roots) (secs1, {#})"
      using marking_ends [OF wf par'(1,3)] by blast
    show ?thesis using finish [OF marked [OF par' e], of ws] strip_parallel [OF red par e] False by metis
  qed
  have "?result ctx'" if run: "dead_strip ctx why ctx' ws" for ctx' ws
    using run
  proof (cases rule: dead_strip.cases)
    case (strip_parallel red' roots' secs' ws' secs1 secs2')
    then have "red' = redirects" "roots' = roots" "secs' = secs" using red par by simp_all
    then show ?thesis using strip_parallel finish [OF marked [OF par', of secs1], of ws'] by simp
  next
    case (strip_serial red' roots' secs' ws' secs1 ws1 secs2')
    then have "red' = redirects" "secs1 = s1" using red ser wk(1) by simp_all
    then show ?thesis using strip_serial finish [OF wk(2,3), of ws1] by simp
  qed
  then show ?thesis using ex by blast
qed


text \<open>
  A link of six subsections: the entry point in 0 refers to 1; 2 refers to 3; the live-support
  subsection 4 refers to 1 and 5.
\<close>

definition wit_reloc :: "u32 \<Rightarrow> reloc" where
  "wit_reloc t =
     \<lparr>rl_offset = 0, rl_ty = ARM64_RELOC_UNSIGNED, rl_size = 8, rl_is_pcrel = False, rl_is_subtracted = False,
      rl_target = target_pack (RtSection t), rl_addend = 0\<rparr>"

definition wit_isec :: "u32 \<Rightarrow> u32 \<Rightarrow> u32 \<Rightarrow> input_section" where
  "wit_isec shndx first n = (input_section_new 0 shndx 0 8 [])\<lparr>is_rel_offset := first, is_nrels := n\<rparr>"

definition wit_hdr :: "u32 \<Rightarrow> mach_section" where
  "wit_hdr flags =
     \<lparr>ms_sectname = bstr ''__text'', ms_segname = bstr ''__TEXT'', ms_addr = 0, ms_size = 8, ms_offset = 0, ms_p2align = 0,
      ms_reloff = 0, ms_nreloc = 0, ms_flags = flags, ms_reserved1 = 0, ms_reserved2 = 0, ms_reserved3 = 0\<rparr>"

definition wit_link :: link where
  "wit_link =
     \<lparr>lk_arch = arch_arm64, lk_args = plain_args, lk_hash = wit_hash,
      lk_isecs = [wit_isec 0 0 1, wit_isec 0 0 0, wit_isec 0 1 1, wit_isec 0 0 0, wit_isec 1 2 2, wit_isec 0 0 0],
      lk_objs = [\<lparr>ob_is_reachable = True, ob_subsections_via_symbols = True, ob_sect_hdrs = [wit_hdr 0, wit_hdr S_ATTR_LIVE_SUPPORT],
                  ob_relocs = map wit_reloc [1, 3, 1, 5], ob_symbols = [0]\<rparr>],
      lk_dylibs = [],
      lk_symbols = (case intern wit_hash symbol_table_default (bstr ''_main'') of
          Some (_, st) \<Rightarrow> st\<lparr>st_syms := map (set_input_section (Some 0)) (st_syms st)\<rparr> | None \<Rightarrow> symbol_table_default),
      lk_unwind_records = [], lk_fdes = [], lk_cies = [], lk_internal_obj = None, lk_chunks = [],
      lk_hdr = (\<lambda>_. chunk_header_new [] []), lk_output_sections = [], lk_segments = [], lk_chained_disabled = False,
      lk_stubs_lazy = [], lk_lazy_helper_offsets = [], lk_init_funcs = []\<rparr>"

abbreviation (input) wit_redirects :: "nat list" where "wit_redirects \<equiv> [0..<6]"

lemma wit_link_redirects: "redirect_all wit_link = Some wit_redirects" by code_simp
lemma wit_link_cands: "root_candidates wit_link (\<lambda>_. is_symbol_root wit_link) = Some [(0, Undefined)]" by code_simp
lemma wit_link_support: "live_support_sections wit_link = Some [4]" by code_simp
lemma wit_link_length: "length (lk_isecs wit_link) = 6" by code_simp
lemma wit_link_edges: "map (edges wit_link) [0..<6] = [Some [1], Some [], Some [3], Some [], Some [1, 5], Some []]" by code_simp


lemma wit_link_wf: "link_wf wit_link wit_redirects"
proof -
  have e: "edges wit_link i = [Some [1], Some [], Some [3], Some [], Some [1, 5], Some []] ! i" if "i < 6" for i
    using arg_cong [OF wit_link_edges, of "\<lambda>xs. xs ! i"] that by simp
  have "\<exists>ts. edges wit_link i = Some ts \<and> (\<forall>t \<in> set ts. t < 6)" if "i < 6" for i
  proof -
    have "i \<in> {0, 1, 2, 3, 4, 5}" using that by auto
    then show ?thesis using e [OF that] by auto
  qed
  then show ?thesis by (simp add: link_wf_def wit_link_length)
qed

lemma wit_link_edge:
  "edges wit_link 0 = Some [1]" "edges wit_link 1 = Some []" "edges wit_link 4 = Some [1, 5]" "edges wit_link 5 = Some []"
  by code_simp+

lemma wit_link_image:
  "edge_rel wit_link wit_redirects `` {0} = {1}" "edge_rel wit_link wit_redirects `` {1} = {}"
  "edge_rel wit_link wit_redirects `` {4} = {1, 5}" "edge_rel wit_link wit_redirects `` {5} = {}"
  using wit_link_edge by (auto dest!: edge_image [where redirects = wit_redirects])

lemma wit_link_clear: "\<forall>s \<in> set (lk_isecs wit_link). \<not> is_visited s" by code_simp

lemma reach_finite: "x \<in> V \<Longrightarrow> V \<subseteq> E\<^sup>* `` {x} \<Longrightarrow> \<forall>i \<in> V. E `` {i} \<subseteq> V \<Longrightarrow> E\<^sup>* `` {x} = V"
  using reach_closed [of V E] reach_between [of "{x}" V E] by simp

lemma wit_link_reach:
  "(edge_rel wit_link wit_redirects)\<^sup>* `` {0} = {0, 1}" "(edge_rel wit_link wit_redirects)\<^sup>* `` {4} = {4, 1, 5}"
  by (rule reach_finite; use wit_link_image in auto)+

lemma wit_link_live: "live_set wit_link wit_redirects [0] [4] = {0, 1, 4, 5}"
  by (simp add: live_set_def wit_link_reach wit_link_image) auto

theorem dead_strip_correct_witness:
  "(\<exists>ctx' ws. dead_strip wit_link False ctx' ws \<and>
      map is_alive (lk_isecs ctx') = [True, True, False, False, True, True])"
proof -
  have "unwind_wf wit_link" by code_simp
  moreover have "\<forall>i \<in> fst ` set [(0::nat, Undefined)]. i < length (lk_isecs wit_link)" by (simp add: wit_link_length)
  moreover note dead_strip_correct [OF wit_link_redirects wit_link_wf _ wit_link_cands _ wit_link_support wit_link_clear, of False]
  ultimately obtain ctx' ws where r: "dead_strip wit_link False ctx' ws" "length (lk_isecs ctx') = 6"
    "\<forall>i < 6. is_alive (lk_isecs ctx' ! i) = (is_alive (lk_isecs wit_link ! i) \<and> i \<in> {0, 1, 4, 5})"
    by (simp add: wit_link_length wit_link_live) blast
  have "\<forall>s \<in> set (lk_isecs wit_link). is_alive s" by code_simp
  then have "map is_alive (lk_isecs ctx') = map (\<lambda>i. i \<in> {0, 1, 4, 5}) [0..<6]"
    using r wit_link_length by (intro nth_equalityI) auto
  then show ?thesis using r(1) by (auto simp: upt_rec)
qed

theorem mark_correct_witness:
  "\<exists>secs secs'. visited secs = {0} \<and> (gc_step wit_link wit_redirects)\<^sup>*\<^sup>* (secs, mark_start [0]) (secs', {#}) \<and> visited secs' = {0, 1}"
proof -
  obtain f secs where v: "visit_at 0 (lk_isecs wit_link) = Some (f, secs)"
    using visit_at_total [of 0 "lk_isecs wit_link"] by (auto simp: wit_link_length)
  have vis: "visited secs = {0}" using visit_at_ok(1) [OF v] wit_link_clear by (auto simp: visited_def)
  note m = mark_correct [OF wit_link_wf visit_at_ok(3) [OF v], of "[0]"]
  obtain secs' where r: "(gc_step wit_link wit_redirects)\<^sup>*\<^sup>* (secs, mark_start [0]) (secs', {#})"
    using m [THEN conjunct2, THEN conjunct1, rule_format, OF _ rtranclp.rtrancl_refl] vis by auto
  then have "visited secs' = {0, 1}" using m vis wit_link_reach(1) by auto
  then show ?thesis using vis r by blast
qed

end
