(* ===== verification/Thunks.thy ===== *)
theory Thunks
  imports Link
begin

section \<open>Range-extension thunks (\<open>thunks.rs\<close>)\<close>

text \<open>
  The layout of a code section with thunks: members are placed one after another, and behind the
  farthest point a batch of them reaches goes a thunk with an entry for each symbol the batch may not
  reach. Positions in the section and sums of sizes (\<^verbatim>\<open>u64\<close> locals, which sections of any size that
  fits a file do not overflow) are \<open>nat\<close>; what is stored in a record's field has the field's width.
  The parallel scan of a batch claims each symbol once, by its mark, and sorts what it claimed, so it
  is a scan in order. \<open>None\<close> is an index out of range.
\<close>

abbreviation (input) BATCH_SIZE :: nat where "BATCH_SIZE \<equiv> 10485760"
abbreviation (input) MAX_THUNK_SIZE :: nat where "MAX_THUNK_SIZE \<equiv> 1048576"
abbreviation (input) THUNK_ALIGN :: nat where "THUNK_ALIGN \<equiv> 16"
abbreviation (input) UNPLACED :: u32 where "UNPLACED \<equiv> 0xffffffff"

subsection \<open>The span of the code\<close>

definition is_code :: "link \<Rightarrow> chunk_id \<Rightarrow> bool option" where
  "is_code ctx c =
     map_option (\<lambda>hdr. ch_flags hdr AND (S_ATTR_PURE_INSTRUCTIONS OR S_ATTR_SOME_INSTRUCTIONS) \<noteq> 0 \<and> 0 < ch_size hdr)
       (chunk_header_of ctx c)"

text \<open>\<^verbatim>\<open>position\<close> and \<^verbatim>\<open>rposition\<close>, of the chunks whether they are code.\<close>

definition code_range :: "link \<Rightarrow> (nat \<times> nat) option option" where
  "code_range ctx =
     map_option (\<lambda>code. case (List.find ((!) code) [0..<length code], List.find ((!) code) (rev [0..<length code])) of
         (Some first, Some l) \<Rightarrow> Some (first, l) | _ \<Rightarrow> None)
       (those (map (is_code ctx) (lk_chunks ctx)))"

definition code_span :: "link \<Rightarrow> nat option" where
  "code_span ctx =
     do { code \<leftarrow> those (map (is_code ctx) (lk_chunks ctx));
          hdrs \<leftarrow> those (map (\<lambda>(c, _). chunk_header_of ctx c) (filter snd (zip (lk_chunks ctx) code)));
          let (lo, hi) = fold (\<lambda>hdr (lo, hi). (min lo (unat (ch_addr hdr)), max hi (unat (ch_addr hdr + ch_size hdr))))
                           hdrs (2 ^ 64 - 1, 0)
          in Some (hi - lo) }"

text \<open>The room of a chunk; the inner \<open>None\<close> is the source's.\<close>

definition chunk_room :: "link \<Rightarrow> chunk_id \<Rightarrow> bytes \<Rightarrow> bool \<Rightarrow> nat option option" where
  "chunk_room ctx c segname grows =
     do { hdr \<leftarrow> chunk_header_of ctx c;
          code \<leftarrow> is_code ctx c;
          if ch_segname hdr \<noteq> segname \<or> c = ChMachHeader \<or> c = ChUnwindInfo then Some None
          else let align = 2 ^ unat (ch_p2align hdr); room = unat (ch_size hdr) + align - 1
               in (case c of
                     ChOutput i \<Rightarrow>
                       do { osec \<leftarrow> nth_opt (lk_output_sections ctx) (unat i);
                            Some (Some (if grows \<and> code
                              then room + min (length (ose_members osec)) (2 * div_ceil (unat (ch_size hdr)) BATCH_SIZE + 1)
                                          * (MAX_THUNK_SIZE + THUNK_ALIGN + align)
                              else room)) }
                   | _ \<Rightarrow> Some (Some room)) }"

definition sum_rooms :: "link \<Rightarrow> chunk_id list \<Rightarrow> bytes \<Rightarrow> bool \<Rightarrow> nat option option" where
  "sum_rooms ctx chunks segname grows =
     map_option (\<lambda>rooms. map_option sum_list (those rooms)) (those (map (\<lambda>c. chunk_room ctx c segname grows) chunks))"

definition branch_distance :: "link \<Rightarrow> nat" where
  "branch_distance ctx = unat (ar_branch_range (lk_arch ctx) div 2)"

definition need_thunks :: "link \<Rightarrow> bool option option" where
  "need_thunks ctx =
     (if ar_thunk_size (lk_arch ctx) = 0 \<or> la_no_branch_islands (lk_args ctx) then Some (Some False)
      else do { range \<leftarrow> code_range ctx;
                case range of
                  None \<Rightarrow> Some (Some False)
                | Some (first, l) \<Rightarrow>
                    do { hdr \<leftarrow> chunk_header_of ctx (lk_chunks ctx ! first);
                         span \<leftarrow> sum_rooms ctx (take (l + 1 - first) (drop first (lk_chunks ctx))) (ch_segname hdr) False;
                         Some (map_option (\<lambda>s. branch_distance ctx < s) span) } })"

subsection \<open>What a branch reaches\<close>

datatype side = Before | After | Outside

record branch_reach =
  re_osec :: u32
  re_sides :: "side list"
  re_stubs :: side
  re_objc_stubs :: side
  re_before :: "nat option"
  re_after :: "nat option"
  re_backward :: bool
  re_forward :: bool

text \<open>The loop over the chunks that notes the side of each; \<open>sd i\<close> is the side of position \<open>i\<close>.\<close>

fun note_sides :: "(nat \<Rightarrow> side) \<Rightarrow> nat \<Rightarrow> chunk_id list \<Rightarrow> side list \<Rightarrow> side \<Rightarrow> side \<Rightarrow> (side list \<times> side \<times> side) option" where
  "note_sides sd i [] sides stubs objc = Some (sides, stubs, objc)"
| "note_sides sd i (c # chunks) sides stubs objc =
     (case c of
        ChOutput k \<Rightarrow> if unat k < length sides then note_sides sd (i + 1) chunks (sides[unat k := sd i]) stubs objc else None
      | ChStubs \<Rightarrow> note_sides sd (i + 1) chunks sides (sd i) objc
      | ChObjcStubs \<Rightarrow> note_sides sd (i + 1) chunks sides stubs (sd i)
      | _ \<Rightarrow> note_sides sd (i + 1) chunks sides stubs objc)"

definition reach_new :: "link \<Rightarrow> u32 \<Rightarrow> nat \<Rightarrow> nat \<Rightarrow> nat \<Rightarrow> branch_reach option" where
  "reach_new ctx osec first pos l =
     do { c \<leftarrow> nth_opt (lk_chunks ctx) pos;
          hdr \<leftarrow> chunk_header_of ctx c;
          in_span \<leftarrow> those (map (\<lambda>d. do { code \<leftarrow> is_code ctx d; h \<leftarrow> chunk_header_of ctx d;
                                        Some (code \<and> ch_segname h = ch_segname hdr) }) (lk_chunks ctx));
          first \<leftarrow> List.find ((!) in_span) [first..<pos + 1];
          l \<leftarrow> List.find ((!) in_span) (rev [pos..<l + 1]);
          let sd = (\<lambda>i. if i < first \<or> l < i then Outside else if i < pos then Before else After);
          (sides, stubs, objc) \<leftarrow> note_sides sd 0 (lk_chunks ctx) (map (\<lambda>_. Outside) (lk_output_sections ctx)) Outside Outside;
          before \<leftarrow> sum_rooms ctx (take (pos - first) (drop first (lk_chunks ctx))) (ch_segname hdr) False;
          after \<leftarrow> sum_rooms ctx (take (l - pos) (drop (pos + 1) (lk_chunks ctx))) (ch_segname hdr) True;
          Some \<lparr>re_osec = osec, re_sides = sides, re_stubs = stubs, re_objc_stubs = objc,
                re_before = map_option (\<lambda>room. room + 2 ^ unat (ch_p2align hdr) - 1) before, re_after = after,
                re_backward = False, re_forward = False\<rparr> }"

text \<open>
  Where a branch to a symbol goes: a place in the section being laid out, a side of it, or, for a
  DTrace symbol, nowhere.
\<close>

datatype place = Place nat | Side side | Nowhere

definition branch_place :: "link \<Rightarrow> branch_reach \<Rightarrow> u32 \<Rightarrow> place option" where
  "branch_place ctx re sid =
     do { s \<leftarrow> nth_opt (lk_syms ctx) (unat sid);
          stub \<leftarrow> map_option (\<lambda>i. i \<noteq> None) (stub_idx s ctx);
          if stub \<and> is_interposable ctx s then Some (Side (re_stubs re))
          else (case sy_file s of
              Some (FDylib _) \<Rightarrow> Some (Side (if stub then re_stubs re else Outside))
            | Some (FObj _) \<Rightarrow>
                (case sy_input_section s of
                   Some target \<Rightarrow>
                     do { i \<leftarrow> resolve (lk_isecs ctx) (unat target);
                          isec \<leftarrow> nth_opt (lk_isecs ctx) i;
                          case isec_output_section isec of
                            Some (ChOutput k) \<Rightarrow>
                              if k = re_osec re
                              then Some (if is_offset isec = UNPLACED then Side After
                                         else Place (unat (ucast (is_offset isec) + sy_value s)))
                              else map_option Side (nth_opt (re_sides re) (unat k))
                          | _ \<Rightarrow> Some (Side Outside) }
                 | None \<Rightarrow> map_option (\<lambda>i. Side (if i \<noteq> None then re_objc_stubs re else Outside)) (objc_stub_idx s ctx))
            | None \<Rightarrow> Some Nowhere) }"

text \<open>\<open>(-distance..distance).contains(&(t.wrapping_sub(p) as i64))\<close> on positions in a section.\<close>

definition near :: "link \<Rightarrow> nat \<Rightarrow> nat \<Rightarrow> bool" where
  "near ctx t p \<longleftrightarrow> in_branch_range ctx (of_nat t) (of_nat p)"

definition requires_thunk :: "link \<Rightarrow> branch_reach \<Rightarrow> nat \<Rightarrow> u32 \<Rightarrow> bool option" where
  "requires_thunk ctx re p sid =
     map_option (\<lambda>pl. case pl of
         Place t \<Rightarrow> \<not> near ctx t p
       | Nowhere \<Rightarrow> False
       | Side Before \<Rightarrow> \<not> re_backward re
       | Side After \<Rightarrow> \<not> re_forward re
       | Side Outside \<Rightarrow> True) (branch_place ctx re sid)"

subsection \<open>Scanning a batch\<close>

definition set_symbol :: "nat \<Rightarrow> symbol \<Rightarrow> link \<Rightarrow> link" where
  "set_symbol i s ctx = ctx\<lparr>lk_symbols := (lk_symbols ctx)\<lparr>st_syms := (lk_syms ctx)[i := s]\<rparr>\<rparr>"

definition set_isec :: "nat \<Rightarrow> input_section \<Rightarrow> link \<Rightarrow> link" where
  "set_isec i s ctx = ctx\<lparr>lk_isecs := (lk_isecs ctx)[i := s]\<rparr>"

fun unmark_all :: "u32 list \<Rightarrow> link \<Rightarrow> link option" where
  "unmark_all [] ctx = Some ctx"
| "unmark_all (sid # sids) ctx =
     do { s \<leftarrow> nth_opt (lk_syms ctx) (unat sid); unmark_all sids (set_symbol (unat sid) (sy_unmark s) ctx) }"

text \<open>The relocations of one member, at section offset \<open>off\<close>.\<close>

fun scan_rels :: "branch_reach \<Rightarrow> object_file \<Rightarrow> nat \<Rightarrow> reloc list \<Rightarrow> link \<Rightarrow> (u32 list \<times> link) option" where
  "scan_rels re file off [] ctx = Some ([], ctx)"
| "scan_rels re file off (rel # rels) ctx =
     (if \<not> is_func_call (lk_arch ctx) rel \<or> rl_addend rel \<noteq> 0 then scan_rels re file off rels ctx
      else do { sid \<leftarrow> reloc_sym file rel;
                case sid of
                  None \<Rightarrow> scan_rels re file off rels ctx
                | Some sid \<Rightarrow>
                    do { need \<leftarrow> requires_thunk ctx re (off + unat (rl_offset rel)) sid;
                         if \<not> need then scan_rels re file off rels ctx
                         else do { s \<leftarrow> nth_opt (lk_syms ctx) (unat sid);
                                   let (fresh, s) = sy_mark s;
                                   (syms, ctx) \<leftarrow> scan_rels re file off rels (set_symbol (unat sid) s ctx);
                                   Some (if fresh then sid # syms else syms, ctx) } } })"

fun scan_members :: "branch_reach \<Rightarrow> u32 list \<Rightarrow> link \<Rightarrow> (u32 list \<times> link) option" where
  "scan_members re [] ctx = Some ([], ctx)"
| "scan_members re (m # ms) ctx =
     do { isec \<leftarrow> nth_opt (lk_isecs ctx) (unat m);
          file \<leftarrow> nth_opt (lk_objs ctx) (unat (is_file isec));
          rels \<leftarrow> isec_rels isec (ob_relocs file);
          (a, ctx) \<leftarrow> scan_rels re file (unat (is_offset isec)) rels ctx;
          (b, ctx) \<leftarrow> scan_members re ms ctx;
          Some (a @ b, ctx) }"

definition scan_batch :: "link \<Rightarrow> u32 list \<Rightarrow> branch_reach \<Rightarrow> (u32 list \<times> link) option" where
  "scan_batch ctx batch re = map_option (\<lambda>(syms, ctx). (sort syms, ctx)) (scan_members re batch ctx)"

subsection \<open>The layout of a section\<close>

definition member_offset :: "link \<Rightarrow> u32 \<Rightarrow> nat option" where
  "member_offset ctx m = map_option (\<lambda>s. unat (is_offset s)) (nth_opt (lk_isecs ctx) (unat m))"

text \<open>The inner loop: places the members \<open>rest\<close>, from position \<open>d\<close> on, as far as the batch at \<open>b\<close> allows.\<close>

fun place_members :: "u32 list \<Rightarrow> nat \<Rightarrow> u32 list \<Rightarrow> nat \<Rightarrow> nat \<Rightarrow> link \<Rightarrow> (nat \<times> nat \<times> link) option" where
  "place_members members b [] d offset ctx = Some (d, offset, ctx)"
| "place_members members b (m # rest) d offset ctx =
     do { isec \<leftarrow> nth_opt (lk_isecs ctx) (unat m);
          let start = unat (align_offset isec (of_nat offset));
          let last = start + unat (is_size isec);
          bm \<leftarrow> nth_opt members b;
          bo \<leftarrow> member_offset ctx bm;
          if b \<noteq> d \<and> bo + branch_distance ctx < unat (align_to (of_nat last) (of_nat THUNK_ALIGN)) + MAX_THUNK_SIZE
          then Some (d, offset, ctx)
          else place_members members b rest (d + 1) last (set_isec (unat m) (isec\<lparr>is_offset := of_nat start\<rparr>) ctx) }"

definition ends_before :: "link \<Rightarrow> nat \<Rightarrow> u32 \<Rightarrow> bool" where
  "ends_before ctx limit m =
     (case nth_opt (lk_isecs ctx) (unat m) of
        Some s \<Rightarrow> unat (is_offset s) + unat (is_size s) < limit
      | None \<Rightarrow> False)"

text \<open>\<^verbatim>\<open>partition_point\<close> on members in order is the length of the longest prefix that satisfies the test.\<close>

definition batch_end :: "link \<Rightarrow> u32 list \<Rightarrow> nat \<Rightarrow> nat \<Rightarrow> nat option" where
  "batch_end ctx members b d =
     do { m \<leftarrow> nth_opt members b;
          off \<leftarrow> member_offset ctx m;
          Some (b + 1 + length (takeWhile (ends_before ctx (off + BATCH_SIZE)) (take (d - (b + 1)) (drop (b + 1) members)))) }"

function batches_left :: "link \<Rightarrow> u32 list \<Rightarrow> nat \<Rightarrow> nat option" where
  "batches_left ctx members i =
     (if i < length members
      then (case batch_end ctx members i (length members) of
              None \<Rightarrow> None
            | Some c \<Rightarrow> map_option Suc (batches_left ctx members c))
      else Some 0)"
  by pat_completeness auto
termination
  by (relation "measure (\<lambda>(ctx, members, i). length members - i)") (auto simp: batch_end_def split: bind_splits)

declare batches_left.simps [simp del]

text \<open>The thunks that are out of reach from now on give their symbols up.\<close>

fun drop_thunks :: "thunk list \<Rightarrow> nat \<Rightarrow> nat \<Rightarrow> link \<Rightarrow> (nat \<times> link) option" where
  "drop_thunks [] t limit ctx = Some (t, ctx)"
| "drop_thunks (th # ths) t limit ctx =
     (if unat (th_offset th) < limit then do { ctx \<leftarrow> unmark_all (th_syms th) ctx; drop_thunks ths (t + 1) limit ctx }
      else Some (t, ctx))"

record layout =
  ly_ctx :: link
  ly_reach :: branch_reach
  ly_thunks :: "thunk list"
  ly_a :: nat
  ly_b :: nat
  ly_d :: nat
  ly_offset :: nat
  ly_t :: nat

text \<open>One batch: its members, its reach, its thunk.\<close>

definition batch_step :: "u32 list \<Rightarrow> layout \<Rightarrow> layout option" where
  "batch_step members ly =
     do { let n = length members;
          let b = ly_b ly;
          (d, offset, ctx) \<leftarrow> place_members members b (drop (ly_d ly) members) (ly_d ly) (ly_offset ly) (ly_ctx ly);
          let distance = branch_distance ctx;
          c \<leftarrow> batch_end ctx members b d;
          c_offset \<leftarrow> (if c = d then Some offset else do { m \<leftarrow> nth_opt members c; member_offset ctx m });
          offs \<leftarrow> those (map (member_offset ctx) (take (b - ly_a ly) (drop (ly_a ly) members)));
          let a = ly_a ly + length (takeWhile (\<lambda>off. off < c_offset - distance) offs);
          am \<leftarrow> nth_opt members a;
          a_offset \<leftarrow> member_offset ctx am;
          (t, ctx) \<leftarrow> drop_thunks (drop (ly_t ly) (ly_thunks ly)) (ly_t ly) a_offset ctx;
          bm \<leftarrow> nth_opt members b;
          b_offset \<leftarrow> member_offset ctx bm;
          batches \<leftarrow> (if d = n then batches_left ctx members b else Some 0);
          let re = (ly_reach ly)\<lparr>
              re_backward := (case re_before (ly_reach ly) of Some before \<Rightarrow> before + c_offset \<le> distance | None \<Rightarrow> False),
              re_forward := (d = n \<and> (case re_after (ly_reach ly) of
                  Some after \<Rightarrow> offset + batches * (MAX_THUNK_SIZE + THUNK_ALIGN) + after - b_offset \<le> distance
                | None \<Rightarrow> False))\<rparr>;
          (syms, ctx) \<leftarrow> scan_batch ctx (take (c - b) (drop b members)) re;
          let at = unat (align_to (of_nat offset) (of_nat THUNK_ALIGN));
          let ly = ly\<lparr>ly_ctx := ctx, ly_reach := re, ly_a := a, ly_b := c, ly_d := d, ly_t := t, ly_offset := offset\<rparr>;
          Some (if syms = [] then ly
                else ly\<lparr>ly_thunks := ly_thunks ly @ [\<lparr>th_offset = of_nat at, th_syms = syms\<rparr>],
                        ly_offset := at + length syms * unat (ar_thunk_size (lk_arch ctx))\<rparr>) }"

lemma batch_step_advances: "batch_step members ly = Some ly' \<Longrightarrow> ly_b ly < ly_b ly'"
  by (auto simp: batch_step_def batch_end_def Let_def split: bind_splits if_splits)

function batch_loop :: "u32 list \<Rightarrow> layout \<Rightarrow> layout option" where
  "batch_loop members ly =
     (if ly_b ly < length members
      then (case batch_step members ly of None \<Rightarrow> None | Some ly' \<Rightarrow> batch_loop members ly')
      else Some ly)"
  by pat_completeness auto
termination
  by (relation "measure (\<lambda>(members, ly). length members - ly_b ly)") (auto dest: batch_step_advances)

declare batch_loop.simps [simp del]

fun unplace :: "u32 list \<Rightarrow> link \<Rightarrow> link option" where
  "unplace [] ctx = Some ctx"
| "unplace (m # ms) ctx =
     do { isec \<leftarrow> nth_opt (lk_isecs ctx) (unat m); unplace ms (set_isec (unat m) (isec\<lparr>is_offset := UNPLACED\<rparr>) ctx) }"

definition create_thunks :: "link \<Rightarrow> branch_reach \<Rightarrow> (link \<times> branch_reach) option" where
  "create_thunks ctx re =
     do { let i = unat (re_osec re);
          osec \<leftarrow> nth_opt (lk_output_sections ctx) i;
          let members = ose_members osec;
          ctx \<leftarrow> unplace members ctx;
          ly \<leftarrow> batch_loop members \<lparr>ly_ctx = ctx, ly_reach = re, ly_thunks = [], ly_a = 0, ly_b = 0, ly_d = 0, ly_offset = 0, ly_t = 0\<rparr>;
          ctx \<leftarrow> unmark_all (concat (map th_syms (drop (ly_t ly) (ly_thunks ly)))) (ly_ctx ly);
          let osec = osec\<lparr>ose_hdr := (ose_hdr osec)\<lparr>ch_size := of_nat (ly_offset ly)\<rparr>, ose_thunks := ly_thunks ly\<rparr>;
          Some (ctx\<lparr>lk_output_sections := (lk_output_sections ctx)[i := osec]\<rparr>, ly_reach ly) }"

fun create_loop :: "nat \<Rightarrow> nat \<Rightarrow> nat list \<Rightarrow> link \<Rightarrow> link option" where
  "create_loop first l [] ctx = Some ctx"
| "create_loop first l (pos # rest) ctx =
     do { c \<leftarrow> nth_opt (lk_chunks ctx) pos;
          code \<leftarrow> is_code ctx c;
          ctx \<leftarrow> (case c of
             ChOutput k \<Rightarrow>
               if code then do { re \<leftarrow> reach_new ctx k first pos l; map_option fst (create_thunks ctx re) } else Some ctx
           | _ \<Rightarrow> Some ctx);
          create_loop first l rest ctx }"

definition create_range_extension_thunks :: "link \<Rightarrow> link option" where
  "create_range_extension_thunks ctx =
     do { range \<leftarrow> code_range ctx;
          case range of None \<Rightarrow> Some ctx | Some (first, l) \<Rightarrow> create_loop first l [first..<l + 1] ctx }"

subsection \<open>The entries' addresses\<close>

definition push_thunk_addr :: "u32 \<Rightarrow> u64 \<Rightarrow> symbol_table \<Rightarrow> symbol_table option" where
  "push_thunk_addr sid addr st =
     do { (i, st) \<leftarrow> aux_mut st sid;
          Some (st\<lparr>st_aux := (st_aux st)[i := (st_aux st ! i)\<lparr>sa_thunk_addrs := sa_thunk_addrs (st_aux st ! i) @ [addr]\<rparr>]\<rparr>) }"

fun gather_entries :: "u64 \<Rightarrow> u64 \<Rightarrow> u32 list \<Rightarrow> symbol_table \<Rightarrow> symbol_table option" where
  "gather_entries sz addr [] st = Some st"
| "gather_entries sz addr (sid # sids) st =
     do { st \<leftarrow> push_thunk_addr sid addr st; gather_entries sz (addr + sz) sids st }"

fun gather_thunks :: "u64 \<Rightarrow> u64 \<Rightarrow> thunk list \<Rightarrow> symbol_table \<Rightarrow> symbol_table option" where
  "gather_thunks sz base [] st = Some st"
| "gather_thunks sz base (th # ths) st =
     do { st \<leftarrow> gather_entries sz (base + th_offset th) (th_syms th) st; gather_thunks sz base ths st }"

fun gather_chunks :: "link \<Rightarrow> chunk_id list \<Rightarrow> symbol_table \<Rightarrow> symbol_table option" where
  "gather_chunks ctx [] st = Some st"
| "gather_chunks ctx (c # chunks) st =
     (case c of
        ChOutput k \<Rightarrow>
          do { osec \<leftarrow> nth_opt (lk_output_sections ctx) (unat k);
               st \<leftarrow> gather_thunks (ar_thunk_size (lk_arch ctx)) (ch_addr (ose_hdr osec)) (ose_thunks osec) st;
               gather_chunks ctx chunks st }
      | _ \<Rightarrow> gather_chunks ctx chunks st)"

definition gather_thunk_addresses :: "link \<Rightarrow> link option" where
  "gather_thunk_addresses ctx = map_option (\<lambda>st. ctx\<lparr>lk_symbols := st\<rparr>) (gather_chunks ctx (lk_chunks ctx) (lk_symbols ctx))"


subsection \<open>What the layout leaves as it is\<close>

text \<open>The link without the members' offsets and the symbols' marks, which is all a layout changes.\<close>

definition frame :: "link \<Rightarrow> link" where
  "frame ctx =
     ctx\<lparr>lk_isecs := map (\<lambda>s. s\<lparr>is_offset := 0\<rparr>) (lk_isecs ctx),
         lk_symbols := (lk_symbols ctx)\<lparr>st_syms := map sy_unmark (lk_syms ctx)\<rparr>\<rparr>"

lemma frameD:
  assumes "frame a = frame b"
  shows "lk_args a = lk_args b" and "lk_arch a = lk_arch b" and "lk_objs a = lk_objs b" and "lk_chunks a = lk_chunks b"
    and "lk_output_sections a = lk_output_sections b" and "st_aux (lk_symbols a) = st_aux (lk_symbols b)"
    and "map (\<lambda>s. s\<lparr>is_offset := 0\<rparr>) (lk_isecs a) = map (\<lambda>s. s\<lparr>is_offset := 0\<rparr>) (lk_isecs b)"
    and "map sy_unmark (lk_syms a) = map sy_unmark (lk_syms b)"
proof -
  note f = assms [unfolded frame_def]
  show "lk_args a = lk_args b" using arg_cong [OF f, of lk_args] by simp
  show "lk_arch a = lk_arch b" using arg_cong [OF f, of lk_arch] by simp
  show "lk_objs a = lk_objs b" using arg_cong [OF f, of lk_objs] by simp
  show "lk_chunks a = lk_chunks b" using arg_cong [OF f, of lk_chunks] by simp
  show "lk_output_sections a = lk_output_sections b" using arg_cong [OF f, of lk_output_sections] by simp
  show "st_aux (lk_symbols a) = st_aux (lk_symbols b)" using arg_cong [OF f, of "\<lambda>c. st_aux (lk_symbols c)"] by simp
  show "map (\<lambda>s. s\<lparr>is_offset := 0\<rparr>) (lk_isecs a) = map (\<lambda>s. s\<lparr>is_offset := 0\<rparr>) (lk_isecs b)" using arg_cong [OF f, of lk_isecs] by simp
  show "map sy_unmark (lk_syms a) = map sy_unmark (lk_syms b)" using arg_cong [OF f, of "\<lambda>c. st_syms (lk_symbols c)"] by simp
qed

text \<open>One subsection of two links with the same frame: the same but for its offset.\<close>

lemma frame_isec:
  assumes "frame a = frame b"
  shows "length (lk_isecs a) = length (lk_isecs b)"
    and "i < length (lk_isecs a) \<Longrightarrow> (lk_isecs a ! i)\<lparr>is_offset := x\<rparr> = (lk_isecs b ! i)\<lparr>is_offset := x\<rparr>"
proof -
  note m = frameD(7) [OF assms]
  show l: "length (lk_isecs a) = length (lk_isecs b)" using arg_cong [OF m, of length] by simp
  assume i: "i < length (lk_isecs a)"
  have "(lk_isecs a ! i)\<lparr>is_offset := 0\<rparr> = (lk_isecs b ! i)\<lparr>is_offset := 0\<rparr>" using arg_cong [OF m, of "\<lambda>xs. xs ! i"] i l by simp
  then have "(lk_isecs a ! i)\<lparr>is_offset := 0, is_offset := x\<rparr> = (lk_isecs b ! i)\<lparr>is_offset := 0, is_offset := x\<rparr>" by simp
  then show "(lk_isecs a ! i)\<lparr>is_offset := x\<rparr> = (lk_isecs b ! i)\<lparr>is_offset := x\<rparr>" by simp
qed

lemma frame_isec_fields:
  assumes "frame a = frame b" and "i < length (lk_isecs a)"
  shows "is_size (lk_isecs a ! i) = is_size (lk_isecs b ! i)" and "is_p2align (lk_isecs a ! i) = is_p2align (lk_isecs b ! i)"
    and "is_file (lk_isecs a ! i) = is_file (lk_isecs b ! i)" and "is_rel_offset (lk_isecs a ! i) = is_rel_offset (lk_isecs b ! i)"
    and "is_nrels (lk_isecs a ! i) = is_nrels (lk_isecs b ! i)" and "is_replacement (lk_isecs a ! i) = is_replacement (lk_isecs b ! i)"
    and "is_output_section (lk_isecs a ! i) = is_output_section (lk_isecs b ! i)"
proof -
  note e = frame_isec(2) [OF assms, of 0]
  show "is_size (lk_isecs a ! i) = is_size (lk_isecs b ! i)" using arg_cong [OF e, of is_size] by simp
  show "is_p2align (lk_isecs a ! i) = is_p2align (lk_isecs b ! i)" using arg_cong [OF e, of is_p2align] by simp
  show "is_file (lk_isecs a ! i) = is_file (lk_isecs b ! i)" using arg_cong [OF e, of is_file] by simp
  show "is_rel_offset (lk_isecs a ! i) = is_rel_offset (lk_isecs b ! i)" using arg_cong [OF e, of is_rel_offset] by simp
  show "is_nrels (lk_isecs a ! i) = is_nrels (lk_isecs b ! i)" using arg_cong [OF e, of is_nrels] by simp
  show "is_replacement (lk_isecs a ! i) = is_replacement (lk_isecs b ! i)" using arg_cong [OF e, of is_replacement] by simp
  show "is_output_section (lk_isecs a ! i) = is_output_section (lk_isecs b ! i)" using arg_cong [OF e, of is_output_section] by simp
qed

lemma frame_set_isec:
  assumes "i < length (lk_isecs ctx)"
  shows "frame (set_isec i ((lk_isecs ctx ! i)\<lparr>is_offset := x\<rparr>) ctx) = frame ctx"
proof -
  have "map (\<lambda>s. s\<lparr>is_offset := 0\<rparr>) ((lk_isecs ctx)[i := (lk_isecs ctx ! i)\<lparr>is_offset := x\<rparr>]) = map (\<lambda>s. s\<lparr>is_offset := 0\<rparr>) (lk_isecs ctx)"
    using assms by (simp add: map_update) (metis list_update_id nth_map)
  then show ?thesis by (simp add: frame_def set_isec_def lk_syms_def)
qed

lemma frame_set_symbol:
  assumes "i < length (lk_syms ctx)" and "sy_unmark s = sy_unmark (lk_syms ctx ! i)"
  shows "frame (set_symbol i s ctx) = frame ctx"
proof -
  have "map sy_unmark ((lk_syms ctx)[i := s]) = map sy_unmark (lk_syms ctx)"
    using assms by (simp add: map_update) (metis list_update_id nth_map)
  then show ?thesis by (simp add: frame_def set_symbol_def lk_syms_def)
qed

lemma unmark_mark: "sy_unmark (snd (sy_mark s)) = sy_unmark s" "sy_unmark (sy_unmark s) = sy_unmark s"
proof -
  have "(sy_bits s OR F_MARK) AND NOT F_MARK = sy_bits s AND NOT F_MARK" "(sy_bits s AND NOT F_MARK) AND NOT F_MARK = sy_bits s AND NOT F_MARK"
    unfolding F_MARK_def by (rule bit_word_eqI, auto simp: bit_simps)+
  then show "sy_unmark (snd (sy_mark s)) = sy_unmark s" "sy_unmark (sy_unmark s) = sy_unmark s" by (simp_all add: sy_unmark_def sy_mark_def)
qed

lemma mark_test:
  "sy_is_marked (snd (sy_mark s))" "fst (sy_mark s) = (\<not> sy_is_marked s)" "\<not> sy_is_marked (sy_unmark s)"
proof -
  show "sy_is_marked (snd (sy_mark s))"
    unfolding sy_is_marked_def flag_get_def sy_mark_def F_MARK_def by (simp only: snd_conv symbol.simps flag_test) (simp add: bit_simps)
  show "fst (sy_mark s) = (\<not> sy_is_marked s)" by (simp add: sy_is_marked_def flag_get_def sy_mark_def)
  have "(sy_bits s AND NOT F_MARK) AND F_MARK = 0" by (rule bit_word_eqI) (auto simp: bit_simps)
  then show "\<not> sy_is_marked (sy_unmark s)" by (simp add: sy_is_marked_def flag_get_def sy_unmark_def)
qed

text \<open>What an unmarked symbol keeps.\<close>

lemma unmark_fields [simp]:
  "sy_name (sy_unmark s) = sy_name s" "sy_file_word (sy_unmark s) = sy_file_word s" "sy_isec (sy_unmark s) = sy_isec s"
  "sy_value (sy_unmark s) = sy_value s" "sy_aux_idx (sy_unmark s) = sy_aux_idx s"
  by (simp_all add: sy_unmark_def)

lemma unmark_flags:
  "sy_is_extern (sy_unmark s) = sy_is_extern s" "sy_is_weak_def (sy_unmark s) = sy_is_weak_def s"
  "sy_is_private_extern (sy_unmark s) = sy_is_private_extern s"
proof -
  have "(sy_bits s AND NOT F_MARK) AND b = sy_bits s AND b" if "b AND F_MARK = 0" for b
  proof (rule bit_word_eqI)
    fix n assume "n < LENGTH(16)"
    show "bit ((sy_bits s AND NOT F_MARK) AND b) n = bit (sy_bits s AND b) n"
      using that by (auto simp: bit_simps dest: bit_imp_le_length) (metis bit_0_eq bit_and_iff bot_apply bot_bool_def)
  qed
  from this [of F_EXTERN] this [of F_WEAK_DEF] this [of F_PRIVATE_EXTERN]
  show "sy_is_extern (sy_unmark s) = sy_is_extern s" "sy_is_weak_def (sy_unmark s) = sy_is_weak_def s"
    "sy_is_private_extern (sy_unmark s) = sy_is_private_extern s"
    unfolding sy_is_extern_def sy_is_weak_def_def sy_is_private_extern_def flag_get_def
    by (simp_all add: sy_unmark_def F_MARK_def F_EXTERN_def F_WEAK_DEF_def F_PRIVATE_EXTERN_def)
qed

lemma unmark_functions:
  "sy_file (sy_unmark s) = sy_file s" "sy_input_section (sy_unmark s) = sy_input_section s"
  "is_interposable ctx (sy_unmark s) = is_interposable ctx s" "slot_idx f (sy_unmark s) ctx = slot_idx f s ctx"
  unfolding sy_file_def sy_input_section_def is_interposable_def is_weak_coalesced_def is_interposable_export_def
    is_obj_sym_def slot_idx_def sy_aux_def unmark_flags unmark_fields
  by (rule refl)+

text \<open>Following merges reads the merges alone.\<close>

lemma resolve_mono:
  "resolve xs i = Some j \<Longrightarrow> map is_replacement ys = map is_replacement xs \<Longrightarrow> resolve ys i = Some j"
proof (induction rule: resolve.raw_induct [rotated, consumes 1])
  case (1 res xs i j)
  have l: "length ys = length xs" using arg_cong [OF 1(3), of length] by simp
  obtain s where s: "nth_opt xs i = Some s"
    "(if is_replacement s \<noteq> NO_REPLACEMENT then res xs (unat (is_replacement s)) else Some i) = Some j"
    using 1(2) by (auto split: bind_splits)
  then have i: "i < length ys" "is_replacement (ys ! i) = is_replacement s"
    using l arg_cong [OF 1(3), of "\<lambda>zs. zs ! i"] by (auto simp: nth_opt_def split: if_splits)
  show ?case
  proof (cases "is_replacement s \<noteq> NO_REPLACEMENT")
    case True
    then have "resolve ys (unat (is_replacement s)) = Some j" using s(2) 1(1) 1(3) by simp
    then show ?thesis using i True by (subst resolve.simps) (simp add: nth_opt_def)
  next
    case False
    then show ?thesis using i s(2) by (subst resolve.simps) (simp add: nth_opt_def)
  qed
qed

lemma resolve_cong: "map is_replacement xs = map is_replacement ys \<Longrightarrow> resolve xs i = resolve ys i"
  by (metis not_Some_eq resolve_mono)


lemma frame_syms:
  assumes "frame a = frame b"
  shows "length (lk_syms a) = length (lk_syms b)" and "i < length (lk_syms a) \<Longrightarrow> sy_unmark (lk_syms a ! i) = sy_unmark (lk_syms b ! i)"
proof -
  note m = frameD(8) [OF assms]
  show l: "length (lk_syms a) = length (lk_syms b)" using arg_cong [OF m, of length] by simp
  show "i < length (lk_syms a) \<Longrightarrow> sy_unmark (lk_syms a ! i) = sy_unmark (lk_syms b ! i)"
    using arg_cong [OF m, of "\<lambda>xs. xs ! i"] l by simp
qed

lemma frame_resolve: "frame a = frame b \<Longrightarrow> resolve (lk_isecs a) i = resolve (lk_isecs b) i"
proof (rule resolve_cong)
  assume f: "frame a = frame b"
  show "map is_replacement (lk_isecs a) = map is_replacement (lk_isecs b)"
    by (rule nth_equalityI) (use frame_isec(1) [OF f] frame_isec_fields(6) [OF f] in simp_all)
qed

text \<open>
  A link in which more members are placed. A branch that went to a known place goes there still; all
  branches do when no offset differs.
\<close>

definition more_placed :: "link \<Rightarrow> link \<Rightarrow> bool" where
  "more_placed a b \<longleftrightarrow> frame a = frame b \<and>
     (\<forall>j < length (lk_isecs a). is_offset (lk_isecs a ! j) \<noteq> UNPLACED \<longrightarrow> is_offset (lk_isecs b ! j) = is_offset (lk_isecs a ! j))"

lemma more_placed_trans: "more_placed a b \<Longrightarrow> more_placed b c \<Longrightarrow> more_placed a c"
  unfolding more_placed_def by (metis frame_isec(1))

lemma branch_place_more:
  assumes "frame a = frame b" and pl: "branch_place a re sid = Some pl"
    and off: "\<And>j. j < length (lk_isecs a) \<Longrightarrow> is_offset (lk_isecs a ! j) = is_offset (lk_isecs b ! j) \<or>
        (is_offset (lk_isecs a ! j) = UNPLACED \<and> pl \<noteq> Side After)"
  shows "branch_place b re sid = Some pl"
proof -
  note f = assms(1)
  have i: "unat sid < length (lk_syms a)" using pl by (auto simp: branch_place_def nth_opt_def split: bind_splits if_splits)
  define s where "s = lk_syms a ! unat sid"
  define s' where "s' = lk_syms b ! unat sid"
  have u: "sy_unmark s = sy_unmark s'" using frame_syms(2) [OF f i] by (simp add: s_def s'_def)
  have s: "nth_opt (lk_syms a) (unat sid) = Some s" "nth_opt (lk_syms b) (unat sid) = Some s'"
    using i frame_syms(1) [OF f] by (simp_all add: nth_opt_def s_def s'_def)
  have eq: "sy_file s' = sy_file s" "sy_input_section s' = sy_input_section s" "sy_value s' = sy_value s"
    "stub_idx s' b = stub_idx s a" "objc_stub_idx s' b = objc_stub_idx s a" "is_interposable b s' = is_interposable a s"
  proof -
    show "sy_file s' = sy_file s" "sy_input_section s' = sy_input_section s" using u by (metis unmark_functions(1,2))+
    show "sy_value s' = sy_value s" using u by (metis unmark_fields(4))
    have slot: "slot_idx g s' b = slot_idx g s a" for g
    proof -
      have "slot_idx g s' b = slot_idx g (sy_unmark s) b" unfolding u by (simp add: unmark_functions)
      also have "\<dots> = slot_idx g (sy_unmark s) a" by (simp add: slot_idx_def sy_aux_def frameD(6) [OF f])
      finally show ?thesis by (simp add: unmark_functions)
    qed
    show "stub_idx s' b = stub_idx s a" "objc_stub_idx s' b = objc_stub_idx s a" by (simp_all add: stub_idx_def objc_stub_idx_def slot)
    have "is_interposable b s' = is_interposable b (sy_unmark s)" unfolding u by (simp add: unmark_functions)
    also have "\<dots> = is_interposable a (sy_unmark s)"
      by (simp add: is_interposable_def is_weak_coalesced_def is_interposable_export_def frameD(1) [OF f])
    finally show "is_interposable b s' = is_interposable a s" by (simp add: unmark_functions)
  qed
  let ?go = "\<lambda>c j v. (case isec_output_section (lk_isecs c ! j) of
                Some (ChOutput k) \<Rightarrow>
                  if k = re_osec re
                  then Some (if is_offset (lk_isecs c ! j) = UNPLACED then Side After
                             else Place (unat (ucast (is_offset (lk_isecs c ! j)) + v)))
                  else map_option Side (nth_opt (re_sides re) (unat k))
              | _ \<Rightarrow> Some (Side Outside))"
  have own: "?go b j (sy_value s') = Some pl" if j: "j < length (lk_isecs a)" and pj: "?go a j (sy_value s) = Some pl" for j
  proof -
    have "isec_output_section (lk_isecs b ! j) = isec_output_section (lk_isecs a ! j)"
      using frame_isec_fields(7) [OF f j] by (simp add: isec_output_section_def)
    then show ?thesis using off [OF j] pj eq(3) by (auto split: option.splits chunk_id.splits if_splits)
  qed
  obtain z where z: "stub_idx s a = Some z" using pl s by (auto simp: branch_place_def split: bind_splits)
  show ?thesis
  proof (cases "z \<noteq> None \<and> is_interposable a s")
    case True
    then show ?thesis using pl by (simp add: branch_place_def s eq z)
  next
    case False
    then have nostub: "(z \<noteq> None \<and> is_interposable a s) = False" by simp
    show ?thesis
    proof (cases "sy_file s")
      case None
      then show ?thesis using pl by (simp add: branch_place_def s eq z nostub del: not_None_eq)
    next
      case fl: (Some fl)
      show ?thesis
      proof (cases fl)
        case (FDylib d)
        then show ?thesis using pl fl by (simp add: branch_place_def s eq z nostub del: not_None_eq)
      next
        case (FObj obj)
        show ?thesis
        proof (cases "sy_input_section s")
          case None
          then show ?thesis using pl fl FObj by (simp add: branch_place_def s eq z nostub del: not_None_eq)
        next
          case tg: (Some target)
          obtain i where i: "resolve (lk_isecs a) (unat target) = Some i" "i < length (lk_isecs a)"
          proof -
            have "resolve (lk_isecs a) (unat target) \<bind> nth_opt (lk_isecs a) \<noteq> None"
              using pl fl FObj tg by (auto simp: branch_place_def s z nostub simp del: not_None_eq split: bind_splits)
            then show ?thesis using that by (auto simp: nth_opt_def split: bind_splits if_splits)
          qed
          have r: "resolve (lk_isecs b) (unat target) = Some i" "nth_opt (lk_isecs b) i = Some (lk_isecs b ! i)" "nth_opt (lk_isecs a) i = Some (lk_isecs a ! i)"
            using i frame_resolve [OF f] frame_isec(1) [OF f] by (simp_all add: nth_opt_def)
          have "?go a i (sy_value s) = Some pl" using pl fl FObj tg i r by (simp add: branch_place_def s z nostub del: not_None_eq)
          then have "?go b i (sy_value s') = Some pl" by (rule own [OF i(2)])
          then show ?thesis using fl FObj tg r by (cases "is_offset (lk_isecs b ! i) = UNPLACED") (simp_all add: branch_place_def s eq(1,2,4-6) z nostub del: not_None_eq)
        qed
      qed
    qed
  qed
qed

lemma branch_place_same:
  assumes f: "frame a = frame b" and off: "map is_offset (lk_isecs a) = map is_offset (lk_isecs b)"
  shows "branch_place b re sid = branch_place a re sid"
proof -
  have o': "is_offset (lk_isecs a ! j) = is_offset (lk_isecs b ! j)" if "j < length (lk_isecs a)" for j
    using arg_cong [OF off, of "\<lambda>xs. xs ! j"] that frame_isec(1) [OF f] by simp
  show ?thesis
  proof (cases "branch_place a re sid")
    case (Some pl)
    then show ?thesis using branch_place_more [OF f Some] o' by simp
  next
    case None
    show ?thesis
    proof (cases "branch_place b re sid")
      case (Some pl)
      then show ?thesis using branch_place_more [OF f [symmetric] Some] o' None frame_isec(1) [OF f] by simp
    qed (simp add: None)
  qed
qed

lemma requires_thunk_same:
  assumes "frame a = frame b" and "map is_offset (lk_isecs a) = map is_offset (lk_isecs b)"
  shows "requires_thunk b re p sid = requires_thunk a re p sid"
  using branch_place_same [OF assms] by (simp add: requires_thunk_def near_def in_branch_range_def frameD(2) [OF assms(1)] cong: place.case_cong side.case_cong)


subsection \<open>The scan of a batch\<close>

definition marked :: "link \<Rightarrow> u32 set" where
  "marked ctx = {sid. unat sid < length (lk_syms ctx) \<and> sy_is_marked (lk_syms ctx ! unat sid)}"

lemma set_symbol_simps [simp]:
  "lk_isecs (set_symbol i s ctx) = lk_isecs ctx" "lk_syms (set_symbol i s ctx) = (lk_syms ctx)[i := s]"
  by (simp_all add: set_symbol_def lk_syms_def)

lemma marked_set:
  assumes "unat sid < length (lk_syms ctx)"
  shows "marked (set_symbol (unat sid) (snd (sy_mark s)) ctx) = insert sid (marked ctx)"
    and "marked (set_symbol (unat sid) (sy_unmark s) ctx) = marked ctx - {sid}"
  using assms by (auto simp: marked_def nth_list_update mark_test word_unat_eq_iff split: if_splits)

text \<open>The calls of a member that may get an entry, with their targets.\<close>

definition is_call :: "link \<Rightarrow> object_file \<Rightarrow> reloc \<Rightarrow> u32 \<Rightarrow> bool" where
  "is_call ctx file rel sid \<longleftrightarrow> is_func_call (lk_arch ctx) rel \<and> rl_addend rel = 0 \<and> reloc_sym file rel = Some (Some sid)"

lemma scan_rels_ok:
  assumes "scan_rels re obj off rels ctx = Some (syms, ctx')"
  shows "frame ctx' = frame ctx \<and> lk_isecs ctx' = lk_isecs ctx \<and> distinct syms \<and> marked ctx \<inter> set syms = {} \<and>
    marked ctx' = marked ctx \<union> set syms \<and> length syms \<le> length rels \<and>
    (\<forall>rel \<in> set rels. \<forall>sid. is_call ctx obj rel sid \<longrightarrow>
       (\<exists>need. requires_thunk ctx re (off + unat (rl_offset rel)) sid = Some need \<and> (need \<longrightarrow> sid \<in> marked ctx')))"
  using assms
proof (induction re obj off rels ctx arbitrary: syms ctx' rule: scan_rels.induct)
  case (1 re obj off ctx)
  then show ?case by simp
next
  case (2 re obj off rel rels ctx)
  show ?case
  proof (cases "\<not> is_func_call (lk_arch ctx) rel \<or> rl_addend rel \<noteq> 0")
    case True
    then show ?thesis using "2.IH"(1) [OF True] "2.prems" by (auto simp: is_call_def)
  next
    case call: False
    obtain tg where tg: "reloc_sym obj rel = Some tg" using call "2.prems" by (auto split: bind_splits)
    show ?thesis
    proof (cases tg)
      case None
      then show ?thesis using "2.IH"(2) [OF call tg None] "2.prems" call tg by (auto simp: is_call_def)
    next
      case (Some sid)
      obtain need where need: "requires_thunk ctx re (off + unat (rl_offset rel)) sid = Some need"
        using call tg Some "2.prems" by (auto split: bind_splits)
      show ?thesis
      proof (cases need)
        case False
        then show ?thesis using "2.IH"(3) [OF call tg Some need] "2.prems" call tg Some need by (auto simp: is_call_def)
      next
        case True
        obtain s where s: "nth_opt (lk_syms ctx) (unat sid) = Some s" using call tg Some need True "2.prems" by (auto split: bind_splits)
        let ?ctx = "set_symbol (unat sid) (snd (sy_mark s)) ctx"
        obtain syms1 where r: "scan_rels re obj off rels ?ctx = Some (syms1, ctx')" "syms = (if fst (sy_mark s) then sid # syms1 else syms1)"
          using call tg Some need True s "2.prems" by (auto simp: Let_def case_prod_beta split: bind_splits)
        have si: "unat sid < length (lk_syms ctx)" "s = lk_syms ctx ! unat sid" using s by (auto simp: nth_opt_def split: if_splits)
        have fr: "frame ?ctx = frame ctx" by (rule frame_set_symbol) (use si unmark_mark in simp_all)
        have mk: "marked ?ctx = insert sid (marked ctx)" by (rule marked_set [OF si(1)])
        have fst: "fst (sy_mark s) = (sid \<notin> marked ctx)" using si mark_test(2) by (simp add: marked_def)
        have same: "requires_thunk ?ctx re p k = requires_thunk ctx re p k" for p k
          by (rule requires_thunk_same) (simp_all add: fr)
        have "\<not> \<not> need" using True by simp
        note IH = "2.IH"(4) [OF call tg Some need this s refl prod.collapse r(1)]
        have "is_call ?ctx = is_call ctx" using frameD(2) [OF fr] by (intro ext) (simp add: is_call_def)
        then show ?thesis using IH r(2) fr mk fst need tg Some by (auto simp: same is_call_def split: if_splits)
      qed
    qed
  qed
qed


definition calls :: "link \<Rightarrow> u32 \<Rightarrow> (reloc \<times> u32) set" where
  "calls ctx m =
     {(rel, sid). \<exists>isec file rels. nth_opt (lk_isecs ctx) (unat m) = Some isec \<and> nth_opt (lk_objs ctx) (unat (is_file isec)) = Some file \<and>
        isec_rels isec (ob_relocs file) = Some rels \<and> rel \<in> set rels \<and> is_call ctx file rel sid}"

definition isec_of :: "link \<Rightarrow> u32 \<Rightarrow> input_section" where
  "isec_of ctx m = lk_isecs ctx ! unat m"

definition off_of :: "link \<Rightarrow> u32 \<Rightarrow> nat" where
  "off_of ctx m = unat (is_offset (isec_of ctx m))"

definition end_of :: "link \<Rightarrow> u32 \<Rightarrow> nat" where
  "end_of ctx m = off_of ctx m + unat (is_size (isec_of ctx m))"

lemma member_offset_Some [simp]:
  "member_offset ctx m = Some o' \<longleftrightarrow> unat m < length (lk_isecs ctx) \<and> o' = off_of ctx m"
  by (auto simp: member_offset_def nth_opt_def off_of_def isec_of_def)

lemma calls_frame: "frame a = frame b \<Longrightarrow> calls a m = calls b m"
proof -
  have sub: "calls a m \<subseteq> calls b m" if f: "frame a = frame b" for a b
  proof safe
    fix rel sid assume c: "(rel, sid) \<in> calls a m"
    then obtain obj rels where m: "unat m < length (lk_isecs a)" and fl: "nth_opt (lk_objs a) (unat (is_file (lk_isecs a ! unat m))) = Some obj"
      and rels: "isec_rels (lk_isecs a ! unat m) (ob_relocs obj) = Some rels" "rel \<in> set rels" "is_call a obj rel sid"
      by (auto simp: calls_def nth_opt_def split: if_splits)
    note fields = frame_isec_fields [OF f m]
    have "nth_opt (lk_isecs b) (unat m) = Some (lk_isecs b ! unat m)" using m frame_isec(1) [OF f] by (simp add: nth_opt_def)
    moreover have "nth_opt (lk_objs b) (unat (is_file (lk_isecs b ! unat m))) = Some obj" using fl fields frameD(3) [OF f] by simp
    moreover have "isec_rels (lk_isecs b ! unat m) (ob_relocs obj) = Some rels" using rels(1) fields by (simp add: isec_rels_def)
    moreover have "is_call b obj rel sid" using rels(3) frameD(2) [OF f] by (simp add: is_call_def)
    ultimately show "(rel, sid) \<in> calls b m" using rels(2) by (auto simp: calls_def)
  qed
  assume "frame a = frame b"
  then show "calls a m = calls b m" using sub by (metis subset_antisym)
qed

lemma scan_members_ok:
  assumes "scan_members re ms ctx = Some (syms, ctx')"
  shows "frame ctx' = frame ctx \<and> lk_isecs ctx' = lk_isecs ctx \<and> distinct syms \<and> marked ctx \<inter> set syms = {} \<and>
    marked ctx' = marked ctx \<union> set syms \<and> length syms \<le> (\<Sum>m\<leftarrow>ms. unat (is_nrels (isec_of ctx m))) \<and>
    (\<forall>m \<in> set ms. \<forall>(rel, sid) \<in> calls ctx m.
       (\<exists>need. requires_thunk ctx re (off_of ctx m + unat (rl_offset rel)) sid = Some need \<and> (need \<longrightarrow> sid \<in> marked ctx')))"
  using assms
proof (induction re ms ctx arbitrary: syms ctx' rule: scan_members.induct)
  case (1 re ctx)
  then show ?case by simp
next
  case (2 re m ms ctx)
  obtain isec obj rels a ctx1 b where i: "nth_opt (lk_isecs ctx) (unat m) = Some isec" and o': "nth_opt (lk_objs ctx) (unat (is_file isec)) = Some obj"
    and r: "isec_rels isec (ob_relocs obj) = Some rels" and a: "scan_rels re obj (unat (is_offset isec)) rels ctx = Some (a, ctx1)"
    and b: "scan_members re ms ctx1 = Some (b, ctx')" and syms: "syms = a @ b"
    using "2.prems" by (auto split: bind_splits)
  note A = scan_rels_ok [OF a]
  note B = "2.IH" [OF i o' r a refl b]
  have fr: "frame ctx1 = frame ctx" and secs: "lk_isecs ctx1 = lk_isecs ctx" using A by blast+
  have im: "isec = isec_of ctx m" using i by (auto simp: nth_opt_def isec_of_def split: if_splits)
  have len: "length rels = unat (is_nrels isec)" using r by (simp add: isec_rels_def slice_at_length)
  have same: "requires_thunk ctx1 re p k = requires_thunk ctx re p k" "isec_of ctx1 = isec_of ctx" "off_of ctx1 = off_of ctx" "calls ctx1 = calls ctx" for p k
    using requires_thunk_same [of ctx ctx1] fr secs calls_frame [OF fr] by (auto simp: isec_of_def off_of_def intro!: ext)
  have "\<exists>need. requires_thunk ctx re (off_of ctx m + unat (rl_offset rel)) sid = Some need \<and> (need \<longrightarrow> sid \<in> marked ctx')"
    if "(rel, sid) \<in> calls ctx m" for rel sid
  proof -
    have c: "rel \<in> set rels" "is_call ctx obj rel sid" using that i o' r by (auto simp: calls_def)
    have "\<exists>need. requires_thunk ctx re (unat (is_offset isec) + unat (rl_offset rel)) sid = Some need \<and> (need \<longrightarrow> sid \<in> marked ctx1)"
      using A c by blast
    moreover have "marked ctx1 \<subseteq> marked ctx'" using B by blast
    ultimately show ?thesis unfolding off_of_def im by blast
  qed
  moreover have "length syms \<le> (\<Sum>m\<leftarrow>m # ms. unat (is_nrels (isec_of ctx m)))" using A B len im by (simp add: syms same)
  moreover have "\<forall>k \<in> set ms. \<forall>(rel, sid) \<in> calls ctx k.
      (\<exists>need. requires_thunk ctx re (off_of ctx k + unat (rl_offset rel)) sid = Some need \<and> (need \<longrightarrow> sid \<in> marked ctx'))"
    using B unfolding same by blast
  ultimately have "\<forall>k \<in> set (m # ms). \<forall>(rel, sid) \<in> calls ctx k.
      (\<exists>need. requires_thunk ctx re (off_of ctx k + unat (rl_offset rel)) sid = Some need \<and> (need \<longrightarrow> sid \<in> marked ctx'))"
    "length syms \<le> (\<Sum>m\<leftarrow>m # ms. unat (is_nrels (isec_of ctx m)))" by auto
  moreover have "frame ctx' = frame ctx \<and> lk_isecs ctx' = lk_isecs ctx \<and> distinct syms \<and> marked ctx \<inter> set syms = {} \<and>
      marked ctx' = marked ctx \<union> set syms" using A B fr secs by (auto simp: syms)
  ultimately show ?case by blast
qed

subsection \<open>Distances\<close>

lemma in_range_near:
  assumes arch: "lk_arch ctx = arch_arm64" and "t < 2 ^ 62" "p < 2 ^ 62" "t < p + branch_distance ctx" "p \<le> t + branch_distance ctx"
  shows "near ctx t p"
proof -
  have d: "branch_distance ctx = 134217728" "sint (ar_branch_range (lk_arch ctx) div 2) = 134217728"
    by (simp_all add: branch_distance_def arch arch_arm64_def push_bit_eq_mult)
  have "sint (of_nat t - of_nat p :: u64) = int t - int p"
  proof -
    have "(of_nat t - of_nat p :: u64) = word_of_int (int t - int p)" by (simp add: wi_hom_sub [symmetric])
    then have "sint (of_nat t - of_nat p :: u64) = signed_take_bit 63 (int t - int p)" by (simp only: signed_of_int) simp
    also have "\<dots> = int t - int p" by (rule signed_take_bit_int_eq_self) (use assms(2,3) in simp_all)
    finally show ?thesis .
  qed
  then show ?thesis using assms(4,5) d by (simp add: near_def in_branch_range_def)
qed

lemma align_offset_bounds:
  assumes "unat (is_p2align s) < 32" and "off < 2 ^ 32"
  shows "off \<le> unat (align_offset s (of_nat off))" and "unat (align_offset s (of_nat off)) \<le> off + 2 ^ unat (is_p2align s)"
proof -
  let ?k = "unat (is_p2align s)" and ?m = "ucast (is_input_addr s) AND (push_bit (unat (is_p2align s)) 1 - 1) :: u64"
  have k: "(2::nat) ^ ?k \<le> 2 ^ 32" using assms(1) by (intro power_increasing) simp_all
  have o': "unat (of_nat off :: u64) = off" using assms(2) by (simp add: unat_of_nat_small)
  have align: "x \<le> unat (align_to (of_nat x) (2 ^ ?k)) \<and> unat (align_to (of_nat x) (2 ^ ?k)) < x + 2 ^ ?k" if "x \<le> off" for x
    using align_to_props [of ?k "of_nat x"] that assms k by (simp add: unat_of_nat_small)
  have m: "unat ?m < 2 ^ ?k"
  proof -
    have "?m = take_bit ?k (ucast (is_input_addr s))" by (simp add: take_bit_eq_mask mask_eq_exp_minus_1 push_bit_of_1)
    then have "unat ?m = take_bit ?k (unat (ucast (is_input_addr s) :: u64))" by (simp only: unsigned_take_bit_eq)
    then show ?thesis by simp
  qed
  have al: "push_bit ?k 1 = (2 ^ ?k :: u64)" by (simp add: push_bit_of_1)
  consider (plain) "is_flags s AND NO_MODULUS \<noteq> 0" | (modulus) "is_flags s AND NO_MODULUS = 0" "of_nat off \<le> ?m"
    | (past) "is_flags s AND NO_MODULUS = 0" "\<not> of_nat off \<le> ?m" by blast
  then have "off \<le> unat (align_offset s (of_nat off)) \<and> unat (align_offset s (of_nat off)) \<le> off + 2 ^ ?k"
  proof cases
    case plain
    then show ?thesis using align [of off] by (simp add: align_offset_def Let_def al)
  next
    case modulus
    then have "align_offset s (of_nat off) = ?m" by (simp add: align_offset_def Let_def align_to_mod_def)
    moreover have "off \<le> unat ?m" using modulus(2) o' by (simp only: word_le_nat_alt)
    ultimately show ?thesis using m by simp
  next
    case past
    have lt: "unat ?m < off" using past(2) o' by (simp only: word_le_nat_alt not_le)
    have sub: "of_nat off - ?m = of_nat (off - unat ?m)" using lt by (simp add: of_nat_diff)
    have "align_offset s (of_nat off) = align_to (of_nat off - ?m) (2 ^ ?k) + ?m"
      using past by (simp add: align_offset_def Let_def align_to_mod_def al)
    then have e: "align_offset s (of_nat off) = align_to (of_nat (off - unat ?m)) (2 ^ ?k) + ?m" unfolding sub .
    note a = align [OF diff_le_self, of "unat ?m"]
    have "y + u < 2 ^ 64" if "y < off - u + 2 ^ ?k" "u < off" for y u using that k assms(2) by simp
    then have "unat (align_to (of_nat (off - unat ?m)) (2 ^ ?k)) + unat ?m < 2 ^ LENGTH(64)" using a lt by simp
    then have "unat (align_offset s (of_nat off)) = unat (align_to (of_nat (off - unat ?m)) (2 ^ ?k)) + unat ?m"
      unfolding e by (rule unat_plus_small)
    then show ?thesis using a lt by linarith
  qed
  then show "off \<le> unat (align_offset s (of_nat off))" "unat (align_offset s (of_nat off)) \<le> off + 2 ^ ?k" by blast+
qed


subsection \<open>Placing members\<close>

text \<open>
  The room a section may take: its members with their padding, and an entry with its alignment for
  every relocation. A section of arm64 code that fits: its members are distinct, none is so large that
  a branch does not span it, and its offsets fit 32 bits.
\<close>

definition budget :: "link \<Rightarrow> u32 list \<Rightarrow> nat \<Rightarrow> nat \<Rightarrow> nat" where
  "budget ctx members d b =
     (\<Sum>m\<leftarrow>take d members. unat (is_size (isec_of ctx m)) + 2 ^ unat (is_p2align (isec_of ctx m))) +
     28 * (\<Sum>m\<leftarrow>take b members. unat (is_nrels (isec_of ctx m)))"

definition section_fits :: "link \<Rightarrow> u32 list \<Rightarrow> bool" where
  "section_fits ctx members \<longleftrightarrow>
     lk_arch ctx = arch_arm64 \<and> distinct members \<and>
     (\<forall>m \<in> set members. unat m < length (lk_isecs ctx) \<and> unat (is_p2align (isec_of ctx m)) < 32 \<and>
        unat (is_size (isec_of ctx m)) + THUNK_ALIGN + MAX_THUNK_SIZE \<le> branch_distance ctx) \<and>
     budget ctx members (length members) (length members) < 2 ^ 32 - 1"

lemma budget_frame:
  assumes "frame a = frame b" and "\<forall>m \<in> set members. unat m < length (lk_isecs a)"
  shows "budget a members d k = budget b members d k"
proof -
  have e: "is_size (isec_of a m) = is_size (isec_of b m)" "is_p2align (isec_of a m) = is_p2align (isec_of b m)"
      "is_nrels (isec_of a m) = is_nrels (isec_of b m)" if "m \<in> set members" for m
    using frame_isec_fields [OF assms(1)] assms(2) that by (simp_all add: isec_of_def)
  have "map (\<lambda>m. unat (is_size (isec_of a m)) + 2 ^ unat (is_p2align (isec_of a m))) (take d members) =
      map (\<lambda>m. unat (is_size (isec_of b m)) + 2 ^ unat (is_p2align (isec_of b m))) (take d members)"
    "map (\<lambda>m. unat (is_nrels (isec_of a m))) (take k members) = map (\<lambda>m. unat (is_nrels (isec_of b m))) (take k members)"
    by (rule map_cong; use e in_set_takeD in force)+
  then show ?thesis unfolding budget_def by (simp only:)
qed

lemma section_fits_frame:
  assumes "frame a = frame b" and "section_fits a members"
  shows "section_fits b members"
proof -
  have m: "\<forall>m \<in> set members. unat m < length (lk_isecs a)" using assms(2) by (simp add: section_fits_def)
  have e: "is_size (isec_of b k) = is_size (isec_of a k)" "is_p2align (isec_of b k) = is_p2align (isec_of a k)" if "k \<in> set members" for k
    using frame_isec_fields(1,2) [OF assms(1)] m that by (simp_all add: isec_of_def)
  have "lk_arch b = lk_arch a" "branch_distance b = branch_distance a" "length (lk_isecs b) = length (lk_isecs a)"
    using frameD(2) [OF assms(1)] frame_isec(1) [OF assms(1)] by (simp_all add: branch_distance_def)
  then show ?thesis using assms(2) budget_frame [OF assms(1) m] e by (simp add: section_fits_def)
qed

lemma budget_mono:
  assumes "d \<le> d'" and "b \<le> b'"
  shows "budget ctx members d b \<le> budget ctx members d' b'"
proof -
  have le: "sum_list (map f (take i members)) \<le> sum_list (map f (take j members))" if "i \<le> j" for f :: "u32 \<Rightarrow> nat" and i j
  proof -
    have "take j members = take i members @ take (j - i) (drop i members)" using that by (metis le_add_diff_inverse take_add)
    then show ?thesis by simp
  qed
  show ?thesis unfolding budget_def using le [OF assms(1)] le [OF assms(2)] by (intro add_mono mult_le_mono2)
qed

lemma budget_less:
  assumes "section_fits ctx members"
  shows "budget ctx members d b < 2 ^ 32 - 1"
proof -
  have "budget ctx members d b = budget ctx members (min d (length members)) (min b (length members))"
    by (simp add: budget_def min_def)
  also have "\<dots> \<le> budget ctx members (length members) (length members)" by (rule budget_mono) simp_all
  finally show ?thesis using assms by (simp add: section_fits_def)
qed

text \<open>The members before \<open>d\<close> lie one after another below \<open>offset\<close>; the others wait.\<close>

definition placed :: "link \<Rightarrow> u32 list \<Rightarrow> nat \<Rightarrow> nat \<Rightarrow> bool" where
  "placed ctx members d offset \<longleftrightarrow>
     (\<forall>k < d. end_of ctx (members ! k) \<le> offset \<and> is_offset (isec_of ctx (members ! k)) \<noteq> UNPLACED) \<and>
     (\<forall>k < d. \<forall>j < k. end_of ctx (members ! j) \<le> off_of ctx (members ! k)) \<and>
     (\<forall>k < length members. d \<le> k \<longrightarrow> is_offset (isec_of ctx (members ! k)) = UNPLACED)"

lemma align16_bounds:
  assumes "x < 2 ^ 32 + 2 ^ 32"
  shows "x \<le> unat (align_to (of_nat x) (of_nat THUNK_ALIGN))" and "unat (align_to (of_nat x) (of_nat THUNK_ALIGN)) \<le> x + 15"
proof -
  have "(of_nat THUNK_ALIGN :: u64) = 2 ^ 4" by simp
  moreover have "unat (of_nat x :: u64) = x" using assms by (simp add: unat_of_nat_small)
  ultimately show "x \<le> unat (align_to (of_nat x) (of_nat THUNK_ALIGN))" "unat (align_to (of_nat x) (of_nat THUNK_ALIGN)) \<le> x + 15"
    using align_to_props [of 4 "of_nat x"] assms by simp_all
qed

lemma set_isec_simps [simp]:
  "lk_symbols (set_isec i s ctx) = lk_symbols ctx" "lk_arch (set_isec i s ctx) = lk_arch ctx"
  "lk_isecs (set_isec i s ctx) = (lk_isecs ctx)[i := s]"
  by (simp_all add: set_isec_def)

text \<open>One member placed at the end.\<close>

lemma place_one:
  assumes fits: "section_fits ctx members" and pl: "placed ctx members d offset" and d: "d < length members"
    and off: "offset \<le> budget ctx members d b"
  defines "m \<equiv> members ! d"
  defines "start \<equiv> unat (align_offset (isec_of ctx m) (of_nat offset))"
  defines "ctx' \<equiv> set_isec (unat m) ((isec_of ctx m)\<lparr>is_offset := of_nat start\<rparr>) ctx"
  defines "last_off \<equiv> start + unat (is_size (isec_of ctx m))"
  shows "frame ctx' = frame ctx" and "more_placed ctx ctx'" and "placed ctx' members (d + 1) last_off" and "offset \<le> start"
    and "last_off \<le> budget ctx' members (d + 1) b" and "off_of ctx' m = start" and "\<And>k. k < length members \<Longrightarrow> k \<noteq> d \<Longrightarrow> isec_of ctx' (members ! k) = isec_of ctx (members ! k)"
proof -
  have m: "unat m < length (lk_isecs ctx)" "unat (is_p2align (isec_of ctx m)) < 32" using fits d by (auto simp: section_fits_def m_def)
  have o32: "offset < 2 ^ 32" using off budget_less [OF fits, of d b] by simp
  note st = align_offset_bounds [OF m(2) o32]
  have bud: "budget ctx members (d + 1) b = budget ctx members d b + (unat (is_size (isec_of ctx m)) + 2 ^ unat (is_p2align (isec_of ctx m)))"
    using d by (simp add: budget_def take_Suc_conv_app_nth m_def)
  have last: "last_off \<le> budget ctx members (d + 1) b" using st(2) off bud by (simp add: last_off_def start_def)
  have small: "start < 2 ^ 32 - 1" using last budget_less [OF fits, of "d + 1" b] by (simp add: last_off_def)
  then have us: "unat (of_nat start :: u32) = start" by (simp add: unat_of_nat_small)
  have up: "(of_nat start :: u32) \<noteq> UNPLACED"
  proof
    assume "(of_nat start :: u32) = UNPLACED"
    then have "unat (of_nat start :: u32) = unat (UNPLACED :: u32)" by (rule arg_cong)
    then show False using us small by simp
  qed
  show fr: "frame ctx' = frame ctx" using frame_set_isec [OF m(1)] by (simp add: ctx'_def isec_of_def)
  have inj: "unat (members ! k) \<noteq> unat m" if "k < length members" "k \<noteq> d" for k
    using that d fits by (simp add: section_fits_def m_def nth_eq_iff_index_eq word_unat_eq_iff [symmetric])
  show other: "isec_of ctx' (members ! k) = isec_of ctx (members ! k)" if "k < length members" "k \<noteq> d" for k
    using inj [OF that] by (simp add: ctx'_def isec_of_def)
  have mine: "isec_of ctx' m = (isec_of ctx m)\<lparr>is_offset := of_nat start\<rparr>" using m(1) by (simp add: ctx'_def isec_of_def)
  then show off': "off_of ctx' m = start" by (simp add: off_of_def us)
  show "offset \<le> start" using st(1) by (simp add: start_def)
  have un: "is_offset (isec_of ctx m) = UNPLACED" using pl d by (simp add: placed_def m_def)
  show "more_placed ctx ctx'"
    using fr un m(1) by (auto simp: more_placed_def ctx'_def nth_list_update isec_of_def)
  have "budget ctx' members (d + 1) b = budget ctx members (d + 1) b"
    by (rule budget_frame [OF fr]) (use fits frame_isec(1) [OF fr] in \<open>auto simp: section_fits_def\<close>)
  then show "last_off \<le> budget ctx' members (d + 1) b" using last by simp
  have endm: "end_of ctx' m = last_off" using off' mine by (simp add: end_of_def last_off_def)
  have le: "offset \<le> last_off" using st(1) by (simp add: last_off_def start_def)
  have ends: "end_of ctx' (members ! k) = end_of ctx (members ! k)" "off_of ctx' (members ! k) = off_of ctx (members ! k)" if "k < length members" "k \<noteq> d" for k
    using other [OF that] by (simp_all add: end_of_def off_of_def)
  show "placed ctx' members (d + 1) last_off"
    unfolding placed_def
  proof (intro conjI allI impI)
    fix k assume k: "k < d + 1"
    show "end_of ctx' (members ! k) \<le> last_off"
    proof (cases "k = d")
      case True
      then show ?thesis using endm by (simp add: m_def)
    next
      case False
      then have "end_of ctx (members ! k) \<le> offset" using k pl by (simp add: placed_def)
      then show ?thesis using ends(1) [of k] False k d le by simp
    qed
    show "is_offset (isec_of ctx' (members ! k)) \<noteq> UNPLACED"
      using k pl mine up other [of k] d by (cases "k = d") (simp_all add: placed_def m_def)
    show "end_of ctx' (members ! j) \<le> off_of ctx' (members ! k)" if "j < k" for j
    proof (cases "k = d")
      case True
      have "end_of ctx (members ! j) \<le> offset" using pl that True by (simp add: placed_def)
      then show ?thesis using True off' st(1) that d ends [of j] by (simp add: m_def start_def)
    next
      case False
      then show ?thesis using pl that k d ends [of j] ends [of k] by (simp add: placed_def)
    qed
  next
    fix k assume "k < length members" "d + 1 \<le> k"
    then show "is_offset (isec_of ctx' (members ! k)) = UNPLACED" using pl other [of k] by (simp add: placed_def)
  qed
qed


lemma more_placed_off:
  assumes "section_fits ctx members" and "placed ctx members d offset" and "more_placed ctx ctx'" and "k < d" "d \<le> length members"
  shows "off_of ctx' (members ! k) = off_of ctx (members ! k)" and "end_of ctx' (members ! k) = end_of ctx (members ! k)"
proof -
  have i: "unat (members ! k) < length (lk_isecs ctx)" using assms(1,4,5) by (simp add: section_fits_def)
  have u: "is_offset (isec_of ctx (members ! k)) \<noteq> UNPLACED" using assms(2,4) by (simp add: placed_def)
  show o': "off_of ctx' (members ! k) = off_of ctx (members ! k)" using assms(3) i u by (simp add: more_placed_def off_of_def isec_of_def)
  show "end_of ctx' (members ! k) = end_of ctx (members ! k)"
    using o' frame_isec_fields(1) [of ctx ctx', OF _ i] assms(3) by (simp add: end_of_def isec_of_def more_placed_def)
qed

lemma more_placed_refl [simp]: "more_placed a a"
  by (simp add: more_placed_def)

lemma frame_distance: "frame a = frame b \<Longrightarrow> branch_distance a = branch_distance b"
  unfolding branch_distance_def by (drule frameD(2)) (rule arg_cong)

lemma place_members_ok:
  assumes "place_members members b rest d offset ctx = Some (d', offset', ctx')"
    and "section_fits ctx members" and "placed ctx members d offset" and "offset \<le> budget ctx members d b"
    and "rest = drop d members" and "d \<le> length members" and "b \<le> d"
  shows "d \<le> d' \<and> d' \<le> length members \<and> frame ctx' = frame ctx \<and> lk_symbols ctx' = lk_symbols ctx \<and> more_placed ctx ctx' \<and>
    placed ctx' members d' offset' \<and> offset \<le> offset' \<and> offset' \<le> budget ctx' members d' b \<and>
    (d' = d \<longrightarrow> offset' = offset \<and> ctx' = ctx) \<and>
    (d < d' \<longrightarrow> offset' + MAX_THUNK_SIZE \<le> off_of ctx' (members ! b) + branch_distance ctx') \<and>
    (b = d \<longrightarrow> b < length members \<longrightarrow> d < d' \<and> offset \<le> off_of ctx' (members ! b))"
  using assms
proof (induction members b rest d offset ctx rule: place_members.induct)
  case (1 members b d offset ctx)
  then show ?case by simp
next
  case (2 members b m rest d offset ctx)
  note fits = "2.prems"(2) and pl = "2.prems"(3) and off = "2.prems"(4)
  have d: "d < length members" and m: "m = members ! d" and rest: "rest = drop (d + 1) members"
    using "2.prems"(5) by (metis drop_eq_Nil list.distinct(1) not_le, metis hd_drop_conv_nth drop_eq_Nil list.distinct(1) list.sel(1) not_le, metis Suc_eq_plus1 drop_Suc list.sel(3) tl_drop)
  define start where "start = unat (align_offset (isec_of ctx m) (of_nat offset))"
  define last_off where "last_off = start + unat (is_size (isec_of ctx m))"
  define ctx1 where "ctx1 = set_isec (unat m) ((isec_of ctx m)\<lparr>is_offset := of_nat start\<rparr>) ctx"
  have b: "b < length members" using "2.prems"(7) d by simp
  have idx: "unat m < length (lk_isecs ctx)" "unat (members ! b) < length (lk_isecs ctx)" using fits d b m by (simp_all add: section_fits_def)
  have nth: "nth_opt (lk_isecs ctx) (unat m) = Some (isec_of ctx m)" "nth_opt members b = Some (members ! b)" "member_offset ctx (members ! b) = Some (off_of ctx (members ! b))"
    using idx b by (simp_all add: nth_opt_def isec_of_def)
  let ?stop = "b \<noteq> d \<and> off_of ctx (members ! b) + branch_distance ctx < unat (align_to (of_nat last_off) (of_nat THUNK_ALIGN)) + MAX_THUNK_SIZE"
  have run: "(if ?stop then Some (d, offset, ctx) else place_members members b rest (d + 1) last_off ctx1) = Some (d', offset', ctx')"
    using "2.prems"(1) unfolding place_members.simps nth bind.simps Let_def start_def last_off_def ctx1_def .
  show ?case
  proof (cases ?stop)
    case True
    then show ?thesis using run "2.prems" by auto
  next
    case go: False
    note one = place_one [OF fits pl d off, folded m, folded start_def, folded ctx1_def last_off_def]
    have fits1: "section_fits ctx1 members" by (rule section_fits_frame [OF one(1) [symmetric] fits])
    have run1: "place_members members b rest (d + 1) last_off ctx1 = Some (d', offset', ctx')" using run unfolding if_not_P [OF go] .
    have IH: "d + 1 \<le> d' \<and> d' \<le> length members \<and> frame ctx' = frame ctx1 \<and> lk_symbols ctx' = lk_symbols ctx1 \<and> more_placed ctx1 ctx' \<and>
        placed ctx' members d' offset' \<and> last_off \<le> offset' \<and> offset' \<le> budget ctx' members d' b \<and>
        (d' = d + 1 \<longrightarrow> offset' = last_off \<and> ctx' = ctx1) \<and>
        (d + 1 < d' \<longrightarrow> offset' + MAX_THUNK_SIZE \<le> off_of ctx' (members ! b) + branch_distance ctx')"
      using "2.IH" [OF nth(1) refl refl nth(2,3), folded start_def, folded last_off_def ctx1_def, OF go run1 fits1 one(3,5) rest] d "2.prems"(7) by simp
    have small: "last_off < 2 ^ 32" using one(5) budget_less [OF fits1, of "d + 1" b] by simp
    have slack: "last_off + MAX_THUNK_SIZE \<le> off_of ctx1 (members ! b) + branch_distance ctx1"
    proof (cases "b = d")
      case True
      have "m \<in> set members" using d m by simp
      then have "unat (is_size (isec_of ctx m)) + THUNK_ALIGN + MAX_THUNK_SIZE \<le> branch_distance ctx" using fits unfolding section_fits_def by blast
      then show ?thesis using one(6) True m frame_distance [OF one(1)] by (simp add: last_off_def)
    next
      case False
      then have "unat (align_to (of_nat last_off) (of_nat THUNK_ALIGN)) + MAX_THUNK_SIZE \<le> off_of ctx (members ! b) + branch_distance ctx" using go by simp
      moreover have "last_off \<le> unat (align_to (of_nat last_off) (of_nat THUNK_ALIGN))" by (rule align16_bounds) (use small in simp)
      ultimately show ?thesis using one(7) [OF b False] frame_distance [OF one(1)] by (simp add: off_of_def)
    qed
    have keep: "off_of ctx' (members ! b) = off_of ctx1 (members ! b)"
      using more_placed_off(1) [OF fits1 one(3), of ctx' b] IH d "2.prems"(7) by simp
    have fr: "frame ctx' = frame ctx" using IH one(1) by simp
    have sy: "lk_symbols ctx' = lk_symbols ctx" using IH by (simp add: ctx1_def)
    have mp: "more_placed ctx ctx'" using more_placed_trans [OF one(2)] IH by blast
    have slack': "offset' + MAX_THUNK_SIZE \<le> off_of ctx' (members ! b) + branch_distance ctx'"
      using IH slack by (cases "d' = d + 1") auto
    have le: "offset \<le> offset'" using IH one(4) by (simp add: last_off_def)
    have "offset \<le> off_of ctx' (members ! b)" if "b = d" using that keep one(4,6) m by simp
    then show ?thesis using IH fr sy mp slack' le by simp
  qed
qed


subsection \<open>Batches and the thunks in reach\<close>

lemma batch_end_ok:
  assumes "batch_end ctx members b d = Some c" and "b < d" "d \<le> length members" and "\<forall>m \<in> set members. unat m < length (lk_isecs ctx)"
  shows "b < c" and "c \<le> d" and "c < d \<Longrightarrow> off_of ctx (members ! b) + BATCH_SIZE \<le> end_of ctx (members ! c)"
proof -
  let ?P = "ends_before ctx (off_of ctx (members ! b) + BATCH_SIZE)" and ?xs = "take (d - (b + 1)) (drop (b + 1) members)"
  have c: "c = b + 1 + length (takeWhile ?P ?xs)"
    using assms(1) by (auto simp: batch_end_def nth_opt_def split: bind_splits if_splits)
  have len: "length ?xs = d - (b + 1)" using assms(2,3) by simp
  show "b < c" using c by simp
  have le: "length (takeWhile ?P ?xs) \<le> length ?xs" by (rule length_takeWhile_le)
  then show "c \<le> d" unfolding len using c assms(2) by linarith
  assume "c < d"
  then have lt: "length (takeWhile ?P ?xs) < length ?xs" using c len by simp
  then have "\<not> ?P (?xs ! length (takeWhile ?P ?xs))" by (rule nth_length_takeWhile)
  moreover have "?xs ! length (takeWhile ?P ?xs) = members ! c" using lt c assms(2,3) by simp
  moreover have "unat (members ! c) < length (lk_isecs ctx)" using \<open>c < d\<close> assms(3,4) by simp
  ultimately show "off_of ctx (members ! b) + BATCH_SIZE \<le> end_of ctx (members ! c)"
    by (simp add: ends_before_def nth_opt_def end_of_def off_of_def isec_of_def)
qed

lemma unmark_all_ok:
  "unmark_all sids ctx = Some ctx' \<Longrightarrow> frame ctx' = frame ctx \<and> lk_isecs ctx' = lk_isecs ctx \<and> marked ctx' = marked ctx - set sids"
proof (induction sids ctx rule: unmark_all.induct)
  case (2 sid sids ctx)
  then obtain s where s: "nth_opt (lk_syms ctx) (unat sid) = Some s" and r: "unmark_all sids (set_symbol (unat sid) (sy_unmark s) ctx) = Some ctx'"
    by (auto split: bind_splits)
  have i: "unat sid < length (lk_syms ctx)" "s = lk_syms ctx ! unat sid" using s by (auto simp: nth_opt_def split: if_splits)
  have "frame (set_symbol (unat sid) (sy_unmark s) ctx) = frame ctx" by (rule frame_set_symbol) (use i unmark_mark in simp_all)
  then show ?case using "2.IH" [OF s r] marked_set(2) [OF i(1)] by auto
qed simp

lemma drop_thunks_ok:
  "drop_thunks ths t limit ctx = Some (t', ctx') \<Longrightarrow>
   frame ctx' = frame ctx \<and> lk_isecs ctx' = lk_isecs ctx \<and> t \<le> t' \<and> t' - t \<le> length ths \<and>
   marked ctx' = marked ctx - set (concat (map th_syms (take (t' - t) ths))) \<and>
   (\<forall>th. t' - t < length ths \<longrightarrow> limit \<le> unat (th_offset (ths ! (t' - t))))"
proof (induction ths t limit ctx rule: drop_thunks.induct)
  case (2 th ths t limit ctx)
  show ?case
  proof (cases "unat (th_offset th) < limit")
    case True
    then obtain ctx1 where u: "unmark_all (th_syms th) ctx = Some ctx1" and r: "drop_thunks ths (t + 1) limit ctx1 = Some (t', ctx')"
      using "2.prems" by (auto split: bind_splits)
    note IH = "2.IH" [OF True u r] and U = unmark_all_ok [OF u]
    then have "t + 1 \<le> t'" by blast
    then have e: "t' - t = Suc (t' - (t + 1))" "t \<le> t'" by arith+
    show ?thesis using IH U e(2) unfolding e(1) by auto
  qed (use 2 in auto)
qed simp

definition thunk_end :: "thunk \<Rightarrow> nat" where
  "thunk_end th = unat (th_offset th) + 12 * length (th_syms th)"

definition covered :: "link \<Rightarrow> thunk list \<Rightarrow> nat \<Rightarrow> u32 \<Rightarrow> bool" where
  "covered ctx thunks p sid \<longleftrightarrow>
     (\<exists>th \<in> set thunks. \<exists>k < length (th_syms th). th_syms th ! k = sid \<and> near ctx (unat (th_offset th) + 12 * k) p)"

text \<open>
  Why a branch needs no entry, \<open>rest\<close> being the most the section still grows: its target is placed in
  reach, or the whole span on its side is.
\<close>

definition reaches :: "link \<Rightarrow> branch_reach \<Rightarrow> nat option \<Rightarrow> nat \<Rightarrow> u32 \<Rightarrow> bool" where
  "reaches ctx re whole p sid \<longleftrightarrow>
     (\<exists>pl. branch_place ctx re sid = Some pl \<and>
        (case pl of
           Place t \<Rightarrow> near ctx t p
         | Nowhere \<Rightarrow> True
         | Side Before \<Rightarrow> (\<exists>x. re_before re = Some x \<and> x + p \<le> branch_distance ctx)
         | Side After \<Rightarrow> (\<exists>x y. re_after re = Some x \<and> whole = Some y \<and> y + x \<le> branch_distance ctx + p)
         | Side Outside \<Rightarrow> False))"

definition served :: "link \<Rightarrow> branch_reach \<Rightarrow> thunk list \<Rightarrow> nat option \<Rightarrow> u32 \<Rightarrow> bool" where
  "served ctx re thunks whole m \<longleftrightarrow>
     (\<forall>(rel, sid) \<in> calls ctx m. unat (rl_offset rel) < unat (is_size (isec_of ctx m)) \<longrightarrow>
        covered ctx thunks (off_of ctx m + unat (rl_offset rel)) sid \<or> reaches ctx re whole (off_of ctx m + unat (rl_offset rel)) sid)"

abbreviation (input) HALF :: nat where "HALF \<equiv> 524288"

definition whole_of :: "u32 list \<Rightarrow> layout \<Rightarrow> nat option" where
  "whole_of members ly =
     (if ly_d ly = length members
      then map_option (\<lambda>k. ly_offset ly + k * (MAX_THUNK_SIZE + THUNK_ALIGN)) (batches_left (ly_ctx ly) members (ly_b ly))
      else None)"

text \<open>
  The loop's invariant. A thunk goes at the end of what is placed, so it is in reach of the batch as
  long as the thunks put there since are small: the end is a whole \<open>MAX_THUNK_SIZE\<close> within reach when
  a member is placed, and every second batch starts a whole batch further on.
\<close>

definition slack :: "link \<Rightarrow> u32 \<Rightarrow> nat \<Rightarrow> bool" where
  "slack ctx m offset \<longleftrightarrow>
     offset + 2 * HALF \<le> off_of ctx m + branch_distance ctx \<or>
     (\<exists>x. offset + HALF \<le> x + branch_distance ctx \<and> x \<le> off_of ctx m \<and> x + BATCH_SIZE \<le> end_of ctx m)"

definition layout_inv :: "u32 list \<Rightarrow> layout \<Rightarrow> bool" where
  "layout_inv members ly \<longleftrightarrow>
     section_fits (ly_ctx ly) members \<and> placed (ly_ctx ly) members (ly_d ly) (ly_offset ly) \<and>
     ly_a ly \<le> ly_b ly \<and> ly_b ly \<le> ly_d ly \<and> ly_d ly \<le> length members \<and>
     ly_offset ly \<le> budget (ly_ctx ly) members (ly_d ly) (ly_b ly) \<and>
     ly_t ly \<le> length (ly_thunks ly) \<and> sorted (map (\<lambda>th. unat (th_offset th)) (ly_thunks ly)) \<and>
     (\<forall>th \<in> set (ly_thunks ly). thunk_end th \<le> ly_offset ly \<and>
        (ly_b ly < ly_d ly \<longrightarrow> thunk_end th \<le> off_of (ly_ctx ly) (members ! ly_b ly) + branch_distance (ly_ctx ly))) \<and>
     marked (ly_ctx ly) = set (concat (map th_syms (drop (ly_t ly) (ly_thunks ly)))) \<and>
     distinct (concat (map th_syms (drop (ly_t ly) (ly_thunks ly)))) \<and>
     (ly_b ly < ly_d ly \<longrightarrow> slack (ly_ctx ly) (members ! ly_b ly) (ly_offset ly)) \<and>
     (\<forall>k < ly_b ly. served (ly_ctx ly) (ly_reach ly) (ly_thunks ly) (whole_of members ly) (members ! k))"


lemma branch_place_re:
  assumes "re_osec a = re_osec b" "re_sides a = re_sides b" "re_stubs a = re_stubs b" "re_objc_stubs a = re_objc_stubs b"
  shows "branch_place ctx a sid = branch_place ctx b sid"
  unfolding branch_place_def assms ..

lemma branch_place_flags [simp]: "branch_place ctx (re\<lparr>re_backward := x, re_forward := y\<rparr>) sid = branch_place ctx re sid"
  by (rule branch_place_re) simp_all

lemma near_frame: "frame a = frame b \<Longrightarrow> near a t p = near b t p"
  by (drule frameD(2)) (simp add: near_def in_branch_range_def)

lemma thunk_covers:
  assumes "lk_arch ctx = arch_arm64" and th: "th \<in> set thunks" "sid \<in> set (th_syms th)"
    and "thunk_end th \<le> lo + branch_distance ctx" "lo \<le> p" "p < hi" "hi \<le> unat (th_offset th) + branch_distance ctx" "p < 2 ^ 33"
  shows "covered ctx thunks p sid"
proof -
  obtain k where k: "k < length (th_syms th)" "th_syms th ! k = sid" using th(2) by (auto simp: in_set_conv_nth)
  have d: "branch_distance ctx = 134217728" using assms(1) by (simp add: branch_distance_def arch_arm64_def push_bit_eq_mult)
  have "near ctx (unat (th_offset th) + 12 * k) p"
    by (rule in_range_near [OF assms(1)]) (use assms(4-8) k(1) in \<open>simp_all add: d thunk_end_def\<close>)
  then show ?thesis using th(1) k by (auto simp: covered_def)
qed

lemma served_mono:
  assumes s: "served ctx re thunks whole m" and f: "frame ctx = frame ctx'" and mp: "more_placed ctx ctx'" and m: "unat m < length (lk_isecs ctx)"
    and off: "off_of ctx' m = off_of ctx m" and th: "set thunks \<subseteq> set thunks'"
    and whole: "\<And>y. whole = Some y \<Longrightarrow> lk_isecs ctx' = lk_isecs ctx \<and> (\<exists>y'. whole' = Some y' \<and> y' \<le> y)"
  shows "served ctx' (re\<lparr>re_backward := b1, re_forward := b2\<rparr>) thunks' whole' m"
  unfolding served_def
proof safe
  fix rel :: reloc and sid
  let ?p = "off_of ctx m + unat (rl_offset rel)" and ?re = "re\<lparr>re_backward := b1, re_forward := b2\<rparr>"
  assume c: "(rel, sid) \<in> calls ctx' m" "unat (rl_offset rel) < unat (is_size (isec_of ctx' m))"
    and nr: "\<not> reaches ctx' ?re whole' (off_of ctx' m + unat (rl_offset rel)) sid"
  have "(rel, sid) \<in> calls ctx m" "unat (rl_offset rel) < unat (is_size (isec_of ctx m))"
    using c calls_frame [OF f] frame_isec_fields(1) [OF f m] by (simp_all add: isec_of_def)
  then have "covered ctx thunks ?p sid \<or> reaches ctx re whole ?p sid" using s by (auto simp: served_def)
  moreover have "reaches ctx' ?re whole' ?p sid" if r: "reaches ctx re whole ?p sid"
  proof -
    obtain pl where pl: "branch_place ctx re sid = Some pl" and ok: "(case pl of
           Place t \<Rightarrow> near ctx t ?p | Nowhere \<Rightarrow> True
         | Side Before \<Rightarrow> (\<exists>x. re_before re = Some x \<and> x + ?p \<le> branch_distance ctx)
         | Side After \<Rightarrow> (\<exists>x y. re_after re = Some x \<and> whole = Some y \<and> y + x \<le> branch_distance ctx + ?p)
         | Side Outside \<Rightarrow> False)" using r unfolding reaches_def by blast
    have "branch_place ctx' re sid = Some pl"
    proof (cases "pl = Side After")
      case True
      then have "lk_isecs ctx' = lk_isecs ctx" using ok whole by auto
      then show ?thesis using branch_place_same [OF f] pl by simp
    next
      case False
      show ?thesis by (rule branch_place_more [OF f pl]) (use mp False in \<open>auto simp: more_placed_def\<close>)
    qed
    moreover have "(case pl of
           Place t \<Rightarrow> near ctx' t ?p | Nowhere \<Rightarrow> True
         | Side Before \<Rightarrow> (\<exists>x. re_before ?re = Some x \<and> x + ?p \<le> branch_distance ctx')
         | Side After \<Rightarrow> (\<exists>x y. re_after ?re = Some x \<and> whole' = Some y \<and> y + x \<le> branch_distance ctx' + ?p)
         | Side Outside \<Rightarrow> False)"
      using ok near_frame [OF f] frame_distance [OF f] whole by (auto split: place.splits side.splits)
    ultimately show ?thesis by (auto simp: reaches_def)
  qed
  moreover have "covered ctx' thunks' ?p sid" if "covered ctx thunks ?p sid"
    using that th near_frame [OF f] by (auto simp: covered_def)
  ultimately show "covered ctx' thunks' (off_of ctx' m + unat (rl_offset rel)) sid" using nr off by auto
qed

lemma reaches_flags: "reaches ctx (re\<lparr>re_backward := x, re_forward := y\<rparr>) = reaches ctx re"
proof -
  have "reaches ctx a whole p sid = reaches ctx b whole p sid"
    if "\<And>sid. branch_place ctx a sid = branch_place ctx b sid" "re_before a = re_before b" "re_after a = re_after b" for a b whole p sid
    unfolding reaches_def that ..
  note e = this [of "re\<lparr>re_backward := x, re_forward := y\<rparr>" re]
  show ?thesis by (intro ext e) simp_all
qed

text \<open>A branch the scan left without an entry.\<close>

lemma not_required_reaches:
  assumes "requires_thunk ctx (re\<lparr>re_backward := back, re_forward := forw\<rparr>) p sid = Some False"
    and "back \<Longrightarrow> \<exists>x. re_before re = Some x \<and> x + p \<le> branch_distance ctx"
    and "forw \<Longrightarrow> \<exists>x y. re_after re = Some x \<and> whole = Some y \<and> y + x \<le> branch_distance ctx + p"
  shows "reaches ctx re whole p sid"
proof -
  obtain pl where pl: "branch_place ctx re sid = Some pl" using assms(1) by (auto simp: requires_thunk_def)
  show ?thesis
  proof (cases pl)
    case (Side sd)
    then show ?thesis using assms pl by (cases sd) (auto simp: requires_thunk_def reaches_def)
  qed (use assms(1) pl in \<open>auto simp: requires_thunk_def reaches_def\<close>)
qed


text \<open>The thunks that stay are in reach of the whole batch.\<close>

lemma reach_back:
  assumes pl: "placed ctx members d offset" and m: "\<forall>m \<in> set members. unat m < length (lk_isecs ctx)"
    and ab: "a \<le> b" "b < d" "d \<le> length members"
    and offs: "those (map (member_offset ctx) (take (b - a) (drop a members))) = Some offs"
    and a': "a' = a + length (takeWhile (\<lambda>x. x < limit) offs)" and lim: "limit \<le> off_of ctx (members ! b)"
  shows "a' \<le> b" and "limit \<le> off_of ctx (members ! a')"
proof -
  let ?xs = "take (b - a) (drop a members)"
  have o': "offs = map (off_of ctx) ?xs"
  proof -
    have "those (map (member_offset ctx) ?xs) = Some (map (off_of ctx) ?xs)"
      by (rule those_map_total) (use m in_set_takeD in_set_dropD in fastforce)
    then show ?thesis using offs by simp
  qed
  have len: "length offs = b - a" using o' ab by simp
  have tw: "length (takeWhile (\<lambda>x. x < limit) offs) \<le> length offs" by (rule length_takeWhile_le)
  then show "a' \<le> b" using a' len ab(1) by simp
  show "limit \<le> off_of ctx (members ! a')"
  proof (cases "length (takeWhile (\<lambda>x. x < limit) offs) = length offs")
    case True
    then show ?thesis using a' len ab(1) lim by simp
  next
    case False
    then have lt: "length (takeWhile (\<lambda>x. x < limit) offs) < length offs" using tw by simp
    then have "limit \<le> offs ! (a' - a)" using nth_length_takeWhile [OF lt] a' by simp
    moreover have "offs ! (a' - a) = off_of ctx (members ! a')" using lt a' o' len ab by simp
    ultimately show ?thesis by simp
  qed
qed

text \<open>What is known once a batch has its members placed and its end chosen.\<close>

lemma batch_ready:
  assumes inv: "layout_inv members ly" and b: "ly_b ly < length members"
    and pm: "place_members members (ly_b ly) (drop (ly_d ly) members) (ly_d ly) (ly_offset ly) (ly_ctx ly) = Some (d, offset, ctx)"
  shows "section_fits ctx members" and "placed ctx members d offset" and "ly_b ly < d" and "d \<le> length members" and "frame ctx = frame (ly_ctx ly)"
    and "more_placed (ly_ctx ly) ctx" and "marked ctx = marked (ly_ctx ly)" and "ly_offset ly \<le> offset"
    and "offset \<le> budget ctx members d (ly_b ly)" and "slack ctx (members ! ly_b ly) offset"
    and "\<forall>th \<in> set (ly_thunks ly). thunk_end th \<le> offset \<and> thunk_end th \<le> off_of ctx (members ! ly_b ly) + branch_distance ctx"
    and "ly_d ly = length members \<Longrightarrow> ctx = ly_ctx ly \<and> offset = ly_offset ly \<and> d = ly_d ly"
    and "ly_d ly \<le> d"
proof -
  note I = inv [unfolded layout_inv_def]
  have fits0: "section_fits (ly_ctx ly) members" and pl0: "placed (ly_ctx ly) members (ly_d ly) (ly_offset ly)" using I by blast+
  have le: "ly_offset ly \<le> budget (ly_ctx ly) members (ly_d ly) (ly_b ly)" "ly_d ly \<le> length members" "ly_b ly \<le> ly_d ly" using I by blast+
  note P = place_members_ok [OF pm fits0 pl0 le(1) refl le(2,3)]
  show fr: "frame ctx = frame (ly_ctx ly)" and mp: "more_placed (ly_ctx ly) ctx" and "placed ctx members d offset" and "d \<le> length members"
    and "ly_offset ly \<le> offset" and "offset \<le> budget ctx members d (ly_b ly)" and dd: "ly_d ly \<le> d" using P by blast+
  show "section_fits ctx members" by (rule section_fits_frame [OF fr [symmetric] fits0])
  show "marked ctx = marked (ly_ctx ly)" using P by (simp add: marked_def lk_syms_def)
  show bd: "ly_b ly < d" using P b le(3) by (cases "ly_b ly = ly_d ly") auto
  show "ly_d ly = length members \<Longrightarrow> ctx = ly_ctx ly \<and> offset = ly_offset ly \<and> d = ly_d ly" using P by auto
  note dist = frame_distance [OF fr]
  have keep: "off_of ctx (members ! ly_b ly) = off_of (ly_ctx ly) (members ! ly_b ly)"
      "end_of ctx (members ! ly_b ly) = end_of (ly_ctx ly) (members ! ly_b ly)" if "ly_b ly < ly_d ly"
    by (rule more_placed_off [OF fits0 pl0 mp that le(2)])+
  show "slack ctx (members ! ly_b ly) offset"
  proof (cases "ly_d ly < d")
    case True
    then show ?thesis using P by (simp add: slack_def)
  next
    case False
    then have "d = ly_d ly" using dd by simp
    then have "offset = ly_offset ly" "ctx = ly_ctx ly" "ly_b ly < ly_d ly" using P bd by auto
    then show ?thesis using I by blast
  qed
  show "\<forall>th \<in> set (ly_thunks ly). thunk_end th \<le> offset \<and> thunk_end th \<le> off_of ctx (members ! ly_b ly) + branch_distance ctx"
  proof
    fix th assume "th \<in> set (ly_thunks ly)"
    then have e: "thunk_end th \<le> ly_offset ly" "ly_b ly < ly_d ly \<longrightarrow> thunk_end th \<le> off_of (ly_ctx ly) (members ! ly_b ly) + branch_distance (ly_ctx ly)"
      using I by blast+
    show "thunk_end th \<le> offset \<and> thunk_end th \<le> off_of ctx (members ! ly_b ly) + branch_distance ctx"
    proof (cases "ly_b ly < ly_d ly")
      case True
      then show ?thesis using e P keep(1) dist by auto
    next
      case False
      then have "ly_b ly = ly_d ly" using le(3) by simp
      then have "ly_offset ly \<le> off_of ctx (members ! ly_b ly)" using P b by blast
      then show ?thesis using e(1) P by auto
    qed
  qed
qed


text \<open>The calls of a batch after its scan: each has an entry in reach or needs none.\<close>

lemma batch_served:
  assumes arch: "lk_arch ctx = arch_arm64" and scan: "scan_members (re\<lparr>re_backward := back, re_forward := forw\<rparr>) ms ctx = Some (syms, ctx')"
    and m: "m \<in> set ms" "lo \<le> off_of ctx m" "end_of ctx m \<le> hi" "hi < 2 ^ 33"
    and th: "marked ctx' \<subseteq> \<Union>(set ` th_syms ` set ths)" "set ths \<subseteq> set thunks"
    and reach: "\<forall>th \<in> set ths. thunk_end th \<le> lo + branch_distance ctx \<and> hi \<le> unat (th_offset th) + branch_distance ctx"
    and bck: "back \<Longrightarrow> \<exists>x. re_before re = Some x \<and> x + hi \<le> branch_distance ctx"
    and forw: "forw \<Longrightarrow> \<exists>x y. re_after re = Some x \<and> whole = Some y \<and> y + x \<le> branch_distance ctx + lo"
  shows "served ctx' (re\<lparr>re_backward := back, re_forward := forw\<rparr>) thunks whole m"
  unfolding served_def
proof safe
  let ?re = "re\<lparr>re_backward := back, re_forward := forw\<rparr>"
  note S = scan_members_ok [OF scan]
  have fr: "frame ctx = frame ctx'" and secs: "lk_isecs ctx' = lk_isecs ctx" using S by simp_all
  have eq: "off_of ctx' = off_of ctx" "isec_of ctx' = isec_of ctx" using secs by (auto simp: off_of_def isec_of_def intro!: ext)
  fix rel :: reloc and sid
  let ?p = "off_of ctx m + unat (rl_offset rel)"
  assume c: "(rel, sid) \<in> calls ctx' m" and lt: "unat (rl_offset rel) < unat (is_size (isec_of ctx' m))"
    and nr: "\<not> reaches ctx' ?re whole (off_of ctx' m + unat (rl_offset rel)) sid"
  have p: "lo \<le> ?p" "?p < hi" using m(2,3) lt eq by (simp_all add: end_of_def)
  obtain need where need: "requires_thunk ctx ?re ?p sid = Some need" "need \<longrightarrow> sid \<in> marked ctx'"
    using S m(1) c calls_frame [OF fr] by blast
  have "need"
  proof (rule ccontr)
    assume "\<not> need"
    then have "requires_thunk ctx' ?re ?p sid = Some False" using need(1) requires_thunk_same [OF fr] secs by simp
    then have "reaches ctx' re whole ?p sid"
      by (rule not_required_reaches) (use bck forw p frame_distance [OF fr] in fastforce)+
    then show False using nr eq by (simp add: reaches_flags)
  qed
  then obtain th' where t: "th' \<in> set ths" "sid \<in> set (th_syms th')" using need(2) th(1) by auto
  have "covered ctx thunks ?p sid"
    by (rule thunk_covers [OF arch _ t(2), of _ lo _ hi]) (use t(1) th(2) reach p m(4) in auto)
  then show "covered ctx' thunks (off_of ctx' m + unat (rl_offset rel)) sid"
    using near_frame [OF fr] eq by (simp add: covered_def)
qed


lemma batches_left_same: "lk_isecs a = lk_isecs b \<Longrightarrow> batches_left a members i = batches_left b members i"
proof (induction a members i rule: batches_left.induct)
  case (1 a members i)
  have be: "batch_end b members i n = batch_end a members i n" for n
    using "1.prems" by (simp add: batch_end_def member_offset_def ends_before_def [abs_def])
  show ?case
    using 1 by (subst (1 2) batches_left.simps) (auto simp: be split: option.splits)
qed

lemma drop_marks:
  assumes "distinct (concat (map f (drop t0 xs)))" and "t0 \<le> t"
  shows "set (concat (map f (drop t0 xs))) - set (concat (map f (take (t - t0) (drop t0 xs)))) = set (concat (map f (drop t xs)))"
    and "distinct (concat (map f (drop t xs)))"
proof -
  have e: "drop t0 xs = take (t - t0) (drop t0 xs) @ drop t xs" using assms(2) by (metis append_take_drop_id drop_drop le_add_diff_inverse2)
  let ?u = "concat (map f (take (t - t0) (drop t0 xs)))" and ?v = "concat (map f (drop t xs))"
  have c: "concat (map f (drop t0 xs)) = ?u @ ?v" by (subst e) simp
  have d: "distinct (?u @ ?v)" using assms(1) unfolding c .
  show "distinct ?v" using d by simp
  show "set (concat (map f (drop t0 xs))) - set ?u = set ?v" unfolding c using d by auto
qed

text \<open>What a step does, in the terms of the invariant.\<close>

lemma batch_step_parts:
  assumes "batch_step members ly = Some ly'"
  obtains d offset ctx1 c c_off offs t ctx2 batches syms ctx3 bwd fwd where
    "place_members members (ly_b ly) (drop (ly_d ly) members) (ly_d ly) (ly_offset ly) (ly_ctx ly) = Some (d, offset, ctx1)"
    and "batch_end ctx1 members (ly_b ly) d = Some c"
    and "c = d \<and> c_off = offset \<or> c \<noteq> d \<and> c_off = off_of ctx1 (members ! c)"
    and "those (map (member_offset ctx1) (take (ly_b ly - ly_a ly) (drop (ly_a ly) members))) = Some offs"
    and "drop_thunks (drop (ly_t ly) (ly_thunks ly)) (ly_t ly)
           (off_of ctx1 (members ! (ly_a ly + length (takeWhile (\<lambda>x. x < c_off - branch_distance ctx1) offs)))) ctx1 = Some (t, ctx2)"
    and "bwd \<Longrightarrow> \<exists>x. re_before (ly_reach ly) = Some x \<and> x + c_off \<le> branch_distance ctx1"
    and "fwd \<Longrightarrow> d = length members \<and> batches_left ctx2 members (ly_b ly) = Some batches \<and>
           (\<exists>x. re_after (ly_reach ly) = Some x \<and> offset + batches * (MAX_THUNK_SIZE + THUNK_ALIGN) + x \<le> branch_distance ctx1 + off_of ctx2 (members ! ly_b ly))"
    and "d = length members \<Longrightarrow> batches_left ctx2 members (ly_b ly) = Some batches"
    and "scan_members ((ly_reach ly)\<lparr>re_backward := bwd, re_forward := fwd\<rparr>) (take (c - ly_b ly) (drop (ly_b ly) members)) ctx2 = Some (syms, ctx3)"
    and "ly_ctx ly' = ctx3" and "ly_reach ly' = (ly_reach ly)\<lparr>re_backward := bwd, re_forward := fwd\<rparr>"
    and "ly_a ly' = ly_a ly + length (takeWhile (\<lambda>x. x < c_off - branch_distance ctx1) offs)" and "ly_b ly' = c" and "ly_d ly' = d" and "ly_t ly' = t"
    and "syms = [] \<and> ly_thunks ly' = ly_thunks ly \<and> ly_offset ly' = offset \<or>
         syms \<noteq> [] \<and> ly_thunks ly' = ly_thunks ly @ [\<lparr>th_offset = align_to (of_nat offset) (of_nat THUNK_ALIGN), th_syms = sort syms\<rparr>] \<and>
           ly_offset ly' = unat (align_to (of_nat offset) (of_nat THUNK_ALIGN)) + length syms * unat (ar_thunk_size (lk_arch ctx3))"
proof -
  let ?b = "ly_b ly" and ?a = "ly_a ly" and ?n = "length members"
  obtain d offset ctx1 where pm: "place_members members ?b (drop (ly_d ly) members) (ly_d ly) (ly_offset ly) (ly_ctx ly) = Some (d, offset, ctx1)"
    using assms by (auto simp: batch_step_def Let_def split: bind_splits)
  obtain c where c: "batch_end ctx1 members ?b d = Some c"
    using assms pm by (auto simp: batch_step_def Let_def split: bind_splits)
  obtain c_off where co: "(if c = d then Some offset else do { m \<leftarrow> nth_opt members c; member_offset ctx1 m }) = Some c_off"
    using assms pm c by (auto simp: batch_step_def Let_def split: bind_splits)
  obtain offs where offs: "those (map (member_offset ctx1) (take (?b - ?a) (drop ?a members))) = Some offs"
    using assms pm c co by (auto simp: batch_step_def Let_def split: bind_splits)
  let ?a' = "?a + length (takeWhile (\<lambda>x. x < c_off - branch_distance ctx1) offs)"
  obtain am ao where am: "nth_opt members ?a' = Some am" "member_offset ctx1 am = Some ao"
    using assms pm c co offs by (auto simp: batch_step_def Let_def split: bind_splits)
  obtain t ctx2 where dt: "drop_thunks (drop (ly_t ly) (ly_thunks ly)) (ly_t ly) ao ctx1 = Some (t, ctx2)"
    using assms pm c co offs am by (auto simp: batch_step_def Let_def split: bind_splits)
  obtain bm bo where bm: "nth_opt members ?b = Some bm" "member_offset ctx2 bm = Some bo"
    using assms pm c co offs am dt by (auto simp: batch_step_def Let_def split: bind_splits)
  obtain batches where ba: "(if d = ?n then batches_left ctx2 members ?b else Some 0) = Some batches"
    using assms pm c co offs am dt bm by (auto simp: batch_step_def Let_def split: bind_splits)
  define bwd where "bwd = (case re_before (ly_reach ly) of Some before \<Rightarrow> before + c_off \<le> branch_distance ctx1 | None \<Rightarrow> False)"
  define fwd where "fwd = (d = ?n \<and> (case re_after (ly_reach ly) of
                  Some after \<Rightarrow> offset + batches * (MAX_THUNK_SIZE + THUNK_ALIGN) + after - bo \<le> branch_distance ctx1 | None \<Rightarrow> False))"
  let ?re = "(ly_reach ly)\<lparr>re_backward := bwd, re_forward := fwd\<rparr>"
  obtain syms ctx3 where sc: "scan_members ?re (take (c - ?b) (drop ?b members)) ctx2 = Some (syms, ctx3)"
    using assms pm c co offs am dt bm ba by (auto simp: batch_step_def scan_batch_def Let_def bwd_def fwd_def split: bind_splits)
  have r: "ly' = (let at = unat (align_to (of_nat offset) (of_nat THUNK_ALIGN));
          ly = ly\<lparr>ly_ctx := ctx3, ly_reach := ?re, ly_a := ?a', ly_b := c, ly_d := d, ly_t := t, ly_offset := offset\<rparr>
        in if sort syms = [] then ly
           else ly\<lparr>ly_thunks := ly_thunks ly @ [\<lparr>th_offset = of_nat at, th_syms = sort syms\<rparr>],
                   ly_offset := at + length (sort syms) * unat (ar_thunk_size (lk_arch ctx3))\<rparr>)"
    using assms unfolding batch_step_def scan_batch_def Let_def pm bind.simps prod.case c co offs am dt bm ba
      bwd_def [symmetric] fwd_def [symmetric] sc option.map by (simp only: option.inject)
  have e: "sort xs = [] \<longleftrightarrow> xs = []" for xs :: "u32 list" by (metis length_0_conv length_sort)
  show thesis
  proof (rule that [OF pm c _ offs _ _ _ _ sc])
    show "c = d \<and> c_off = offset \<or> c \<noteq> d \<and> c_off = off_of ctx1 (members ! c)" using co by (auto simp: nth_opt_def split: if_splits bind_splits)
    show "drop_thunks (drop (ly_t ly) (ly_thunks ly)) (ly_t ly) (off_of ctx1 (members ! ?a')) ctx1 = Some (t, ctx2)"
      using dt am by (auto simp: nth_opt_def split: if_splits)
    show "bwd \<Longrightarrow> \<exists>x. re_before (ly_reach ly) = Some x \<and> x + c_off \<le> branch_distance ctx1" by (auto simp: bwd_def split: option.splits)
    show "fwd \<Longrightarrow> d = ?n \<and> batches_left ctx2 members ?b = Some batches \<and>
           (\<exists>x. re_after (ly_reach ly) = Some x \<and> offset + batches * (MAX_THUNK_SIZE + THUNK_ALIGN) + x \<le> branch_distance ctx1 + off_of ctx2 (members ! ?b))"
      using ba bm by (auto simp: fwd_def nth_opt_def split: option.splits if_splits)
    show "d = ?n \<Longrightarrow> batches_left ctx2 members ?b = Some batches" using ba by simp
  qed (use r e in \<open>auto simp: Let_def\<close>)
qed


lemma batch_step_inv:
  assumes inv: "layout_inv members ly" and b: "ly_b ly < length members" and step: "batch_step members ly = Some ly'"
    and small: "\<forall>th \<in> set (ly_thunks ly'). 12 * length (th_syms th) + 16 \<le> HALF"
  shows "layout_inv members ly' \<and> frame (ly_ctx ly') = frame (ly_ctx ly)"
proof -
  let ?b = "ly_b ly" and ?n = "length members" and ?ths = "ly_thunks ly"
  obtain d offset ctx1 c c_off offs t ctx2 batches syms ctx3 bwd fwd where
    pm: "place_members members ?b (drop (ly_d ly) members) (ly_d ly) (ly_offset ly) (ly_ctx ly) = Some (d, offset, ctx1)"
    and be: "batch_end ctx1 members ?b d = Some c"
    and co: "c = d \<and> c_off = offset \<or> c \<noteq> d \<and> c_off = off_of ctx1 (members ! c)"
    and offs: "those (map (member_offset ctx1) (take (?b - ly_a ly) (drop (ly_a ly) members))) = Some offs"
    and dt: "drop_thunks (drop (ly_t ly) ?ths) (ly_t ly)
           (off_of ctx1 (members ! (ly_a ly + length (takeWhile (\<lambda>x. x < c_off - branch_distance ctx1) offs)))) ctx1 = Some (t, ctx2)"
    and bwd: "bwd \<Longrightarrow> \<exists>x. re_before (ly_reach ly) = Some x \<and> x + c_off \<le> branch_distance ctx1"
    and fwd: "fwd \<Longrightarrow> d = ?n \<and> batches_left ctx2 members ?b = Some batches \<and>
           (\<exists>x. re_after (ly_reach ly) = Some x \<and> offset + batches * (MAX_THUNK_SIZE + THUNK_ALIGN) + x \<le> branch_distance ctx1 + off_of ctx2 (members ! ?b))"
    and bl: "d = ?n \<Longrightarrow> batches_left ctx2 members ?b = Some batches"
    and sc: "scan_members ((ly_reach ly)\<lparr>re_backward := bwd, re_forward := fwd\<rparr>) (take (c - ?b) (drop ?b members)) ctx2 = Some (syms, ctx3)"
    and ly': "ly_ctx ly' = ctx3" "ly_reach ly' = (ly_reach ly)\<lparr>re_backward := bwd, re_forward := fwd\<rparr>"
      "ly_a ly' = ly_a ly + length (takeWhile (\<lambda>x. x < c_off - branch_distance ctx1) offs)" "ly_b ly' = c" "ly_d ly' = d" "ly_t ly' = t"
    and out: "syms = [] \<and> ly_thunks ly' = ?ths \<and> ly_offset ly' = offset \<or>
         syms \<noteq> [] \<and> ly_thunks ly' = ?ths @ [\<lparr>th_offset = align_to (of_nat offset) (of_nat THUNK_ALIGN), th_syms = sort syms\<rparr>] \<and>
           ly_offset ly' = unat (align_to (of_nat offset) (of_nat THUNK_ALIGN)) + length syms * unat (ar_thunk_size (lk_arch ctx3))"
    by (rule batch_step_parts [OF step]) blast
  note I = inv [unfolded layout_inv_def]
  note R = batch_ready [OF inv b pm]
  note fits1 = R(1) and pl1 = R(2) and bd = R(3) and dn = R(4)
  have mem: "\<forall>m \<in> set members. unat m < length (lk_isecs ctx1)" and arch1: "lk_arch ctx1 = arch_arm64" using fits1 by (simp_all add: section_fits_def)
  note C = batch_end_ok [OF be bd dn mem]
  let ?dist = "branch_distance ctx1" and ?lo = "off_of ctx1 (members ! ?b)"
  have room: "offset + HALF \<le> ?lo + ?dist" using R(10) by (auto simp: slack_def)
  have o32: "offset < 2 ^ 32 - 1" using R(9) budget_less [OF fits1, of d ?b] by simp

  text \<open>The batch's end bounds its members, and the thunks kept reach back to it.\<close>
  have ends: "end_of ctx1 (members ! k) \<le> c_off" if "k < c" for k
    using co pl1 that C(2) by (auto simp: placed_def)
  have c_le: "c_off \<le> offset"
  proof (cases "c = d")
    case False
    then have "end_of ctx1 (members ! c) \<le> offset" using pl1 C(2) by (simp add: placed_def)
    then show ?thesis using co False by (simp add: end_of_def)
  qed (use co in simp)
  have lim: "c_off - ?dist \<le> ?lo" using c_le room by simp
  have ab: "ly_a ly \<le> ?b" using I by blast
  note B = reach_back [OF pl1 mem ab bd dn offs refl lim]
  have fr2: "frame ctx2 = frame ctx1" and secs2: "lk_isecs ctx2 = lk_isecs ctx1" and tt: "ly_t ly \<le> t" "t \<le> length ?ths"
    and mk2: "marked ctx2 = marked ctx1 - set (concat (map th_syms (take (t - ly_t ly) (drop (ly_t ly) ?ths))))"
    using drop_thunks_ok [OF dt] I by auto
  have dist0: "distinct (concat (map th_syms (drop (ly_t ly) ?ths)))" using I by blast
  have marks: "marked ctx2 = set (concat (map th_syms (drop t ?ths)))" and dist2: "distinct (concat (map th_syms (drop t ?ths)))"
    using drop_marks [OF dist0 tt(1)] mk2 R(7) I by simp_all
  have sorted: "sorted (map (\<lambda>th. unat (th_offset th)) ?ths)" using I by blast
  have kept: "c_off \<le> unat (th_offset th) + ?dist" if mem_th: "th \<in> set (drop t ?ths)" for th
  proof -
    obtain k where "k < length (drop t ?ths)" "drop t ?ths ! k = th" using mem_th unfolding in_set_conv_nth by blast
    then have k: "t + k < length ?ths" "th = ?ths ! (t + k)" using tt by auto
    then have "off_of ctx1 (members ! ly_a ly') \<le> unat (th_offset (?ths ! t))"
      using drop_thunks_ok [OF dt] tt ly'(3) by auto
    also have "\<dots> \<le> unat (th_offset th)" using sorted_nth_mono [OF sorted, of t "t + k"] k by simp
    finally show ?thesis using B(2) ly'(3) by simp
  qed

  text \<open>The new thunk, right behind what is placed.\<close>
  note S = scan_members_ok [OF sc]
  have fr3: "frame ctx3 = frame ctx1" and secs3: "lk_isecs ctx3 = lk_isecs ctx1" using S fr2 secs2 by simp_all
  have arch3: "lk_arch ctx3 = arch_arm64" "lk_arch ctx2 = arch_arm64" using frameD(2) [OF fr3] frameD(2) [OF fr2] arch1 by simp_all
  have eq3: "off_of ctx3 = off_of ctx1" "end_of ctx3 = end_of ctx1" "isec_of ctx3 = isec_of ctx1" "off_of ctx2 = off_of ctx1" "end_of ctx2 = end_of ctx1"
    using secs2 secs3 by (auto simp: off_of_def end_of_def isec_of_def intro!: ext)
  have dist3: "branch_distance ctx3 = ?dist" "branch_distance ctx2 = ?dist" using frame_distance [OF fr3] frame_distance [OF fr2] by simp_all
  let ?T = "\<lparr>th_offset = align_to (of_nat offset) (of_nat THUNK_ALIGN), th_syms = sort syms\<rparr> :: thunk"
  have al: "offset \<le> unat (th_offset ?T)" "unat (th_offset ?T) \<le> offset + 15" using align16_bounds [of offset] o32 by simp_all
  have endT: "ly_offset ly' = thunk_end ?T \<and> thunk_end ?T \<le> offset + HALF \<and> ly_thunks ly' = ?ths @ [?T]" if ne: "syms \<noteq> []"
  proof -
    have o': "ly_thunks ly' = ?ths @ [?T]" "ly_offset ly' = thunk_end ?T" using out ne arch3 by (auto simp: thunk_end_def arch_arm64_def)
    then have "12 * length syms + 16 \<le> HALF" using small by simp
    then show ?thesis using o' al(2) by (simp add: thunk_end_def)
  qed
  have grow: "offset \<le> ly_offset ly'" "ly_offset ly' \<le> offset + HALF"
    using out endT al by (cases "syms = []"; fastforce simp: thunk_end_def)+
  have room': "ly_offset ly' \<le> offset + 28 * length syms"
  proof (cases "syms = []")
    case False
    then have "1 \<le> length syms" by (cases syms) simp_all
    then show ?thesis using endT [OF False] al(2) by (simp add: thunk_end_def)
  qed (use out in simp)
  have thunks': "ly_thunks ly' = ?ths @ (if syms = [] then [] else [?T])" using out by auto
  have drop': "drop t (ly_thunks ly') = drop t ?ths @ (if syms = [] then [] else [?T])" using thunks' tt by simp

  text \<open>The invariant, conjunct by conjunct.\<close>
  have fits3: "section_fits ctx3 members" by (rule section_fits_frame [OF fr3 [symmetric] fits1])
  have pl3: "placed ctx3 members d (ly_offset ly')"
    using pl1 grow(1) by (force simp: placed_def eq3)
  have bud: "ly_offset ly' \<le> budget ctx3 members d c"
  proof -
    have "take c members = take ?b members @ take (c - ?b) (drop ?b members)" using C(1) by (metis le_add_diff_inverse less_imp_le take_add)
    then have "budget ctx1 members d c = budget ctx1 members d ?b + 28 * (\<Sum>m\<leftarrow>take (c - ?b) (drop ?b members). unat (is_nrels (isec_of ctx1 m)))"
      by (simp add: budget_def)
    moreover have "length syms \<le> (\<Sum>m\<leftarrow>take (c - ?b) (drop ?b members). unat (is_nrels (isec_of ctx1 m)))"
      using S secs2 by (simp add: isec_of_def)
    ultimately have "ly_offset ly' \<le> budget ctx1 members d c" using room' R(9) by simp
    then show ?thesis using budget_frame [OF fr3] mem frame_isec(1) [OF fr3] by simp
  qed
  have th_sorted: "sorted (map (\<lambda>th. unat (th_offset th)) (ly_thunks ly'))"
  proof -
    have "\<forall>th \<in> set ?ths. unat (th_offset th) \<le> unat (th_offset ?T)" using R(11) al(1) by (fastforce simp: thunk_end_def)
    then show ?thesis using sorted by (simp add: thunks' sorted_append)
  qed
  have th_ends: "thunk_end th \<le> ly_offset ly' \<and> thunk_end th \<le> ?lo + ?dist" if mem_th: "th \<in> set (ly_thunks ly')" for th
  proof (cases "th \<in> set ?ths")
    case True
    then show ?thesis using R(11) grow(1) by fastforce
  next
    case False
    then have ne: "syms \<noteq> []" "th = ?T" using mem_th thunks' by (auto split: if_splits)
    then show ?thesis using endT [OF ne(1)] room by simp
  qed
  have lo_c: "?lo \<le> off_of ctx1 (members ! c)" if "c < d"
  proof -
    have "end_of ctx1 (members ! ?b) \<le> off_of ctx1 (members ! c)" using pl1 that C(1) by (simp add: placed_def)
    then show ?thesis by (simp add: end_of_def)
  qed
  have mk: "marked ctx3 = set (concat (map th_syms (drop t (ly_thunks ly'))))" "distinct (concat (map th_syms (drop t (ly_thunks ly'))))"
    using S marks dist2 by (auto simp: drop')
  have sl: "slack ctx3 (members ! c) (ly_offset ly')" if cd: "c < d"
  proof -
    consider (far) "offset + 2 * HALF \<le> ?lo + ?dist"
      | (near) x where "offset + HALF \<le> x + ?dist" "x \<le> ?lo" "x + BATCH_SIZE \<le> end_of ctx1 (members ! ?b)"
      using R(10) by (auto simp: slack_def)
    then show ?thesis
    proof cases
      case far
      then have "ly_offset ly' + HALF \<le> ?lo + ?dist" using grow(2) by simp
      then show ?thesis using lo_c [OF cd] C(3) [OF cd] by (auto simp: slack_def eq3 dist3)
    next
      case near
      have "end_of ctx1 (members ! ?b) \<le> off_of ctx1 (members ! c)" using pl1 cd C(1) by (simp add: placed_def)
      then show ?thesis using near grow(2) by (simp add: slack_def eq3 dist3)
    qed
  qed
  have whole': "\<exists>k. batches = Suc k \<and> whole_of members ly' = Some (ly_offset ly' + k * (MAX_THUNK_SIZE + THUNK_ALIGN))" if dn': "d = ?n"
  proof -
    have "batch_end ctx2 members ?b ?n = Some c"
      using be dn' secs2 by (simp add: batch_end_def member_offset_def ends_before_def [abs_def])
    then obtain k where k: "batches_left ctx2 members c = Some k" "batches = Suc k"
      using bl [OF dn'] b by (subst (asm) batches_left.simps) auto
    have "lk_isecs ctx3 = lk_isecs ctx2" using secs2 secs3 by simp
    then have "batches_left ctx3 members c = Some k" using k(1) batches_left_same [of ctx3 ctx2] by simp
    then show ?thesis using k(2) dn' by (simp add: whole_of_def ly')
  qed
  have new: "served ctx3 (ly_reach ly') (ly_thunks ly') (whole_of members ly') (members ! k)" if k: "?b \<le> k" "k < c" for k
    unfolding ly'(2)
  proof (rule batch_served [OF arch3(2) sc, where lo = ?lo and hi = c_off and ths = "drop t (ly_thunks ly')"])
    have "k - ?b < length (take (c - ?b) (drop ?b members))" "take (c - ?b) (drop ?b members) ! (k - ?b) = members ! k"
      using k C(2) dn by simp_all
    then show "members ! k \<in> set (take (c - ?b) (drop ?b members))" using nth_mem by metis
    show "?lo \<le> off_of ctx2 (members ! k)"
    proof (cases "k = ?b")
      case False
      then have "end_of ctx1 (members ! ?b) \<le> off_of ctx1 (members ! k)" using pl1 k C(2) by (simp add: placed_def)
      then show ?thesis by (simp add: eq3 end_of_def)
    qed (simp add: eq3)
    show "end_of ctx2 (members ! k) \<le> c_off" using ends [OF k(2)] by (simp add: eq3)
    show "c_off < 2 ^ 33" using c_le o32 by simp
    show "marked ctx3 \<subseteq> \<Union> (set ` th_syms ` set (drop t (ly_thunks ly')))" unfolding mk(1) by auto
    show "set (drop t (ly_thunks ly')) \<subseteq> set (ly_thunks ly')" by (rule set_drop_subset)
    show "\<forall>th \<in> set (drop t (ly_thunks ly')). thunk_end th \<le> ?lo + branch_distance ctx2 \<and> c_off \<le> unat (th_offset th) + branch_distance ctx2"
    proof
      fix th assume th: "th \<in> set (drop t (ly_thunks ly'))"
      have "thunk_end th \<le> ?lo + ?dist" using th_ends in_set_dropD [OF th] by blast
      moreover have "c_off \<le> unat (th_offset th) + ?dist"
        using th kept al(1) c_le by (auto simp: drop' split: if_splits)
      ultimately show "thunk_end th \<le> ?lo + branch_distance ctx2 \<and> c_off \<le> unat (th_offset th) + branch_distance ctx2" by (simp add: dist3)
    qed
    show "\<exists>x. re_before (ly_reach ly) = Some x \<and> x + c_off \<le> branch_distance ctx2" if bwd using bwd [OF that] by (simp add: dist3)
    show "\<exists>x y. re_after (ly_reach ly) = Some x \<and> whole_of members ly' = Some y \<and> y + x \<le> branch_distance ctx2 + ?lo" if f: fwd
    proof -
      obtain x where x: "d = ?n" "re_after (ly_reach ly) = Some x" "offset + batches * (MAX_THUNK_SIZE + THUNK_ALIGN) + x \<le> ?dist + ?lo"
        using fwd [OF f] eq3 by auto
      then show ?thesis using whole' [OF x(1)] grow(2) by (auto simp: dist3)
    qed
  qed
  have old: "served ctx3 (ly_reach ly') (ly_thunks ly') (whole_of members ly') (members ! k)" if k: "k < ?b" for k
    unfolding ly'(2)
  proof (rule served_mono)
    have bd0: "?b \<le> ly_d ly" "ly_d ly \<le> ?n" and fits0: "section_fits (ly_ctx ly) members" and pl0: "placed (ly_ctx ly) members (ly_d ly) (ly_offset ly)"
      using I by blast+
    show "served (ly_ctx ly) (ly_reach ly) ?ths (whole_of members ly) (members ! k)" using I k by blast
    show "frame (ly_ctx ly) = frame ctx3" using fr3 R(5) by simp
    show "more_placed (ly_ctx ly) ctx3" using R(6) secs3 fr3 by (simp add: more_placed_def)
    show "unat (members ! k) < length (lk_isecs (ly_ctx ly))" using fits0 k b by (simp add: section_fits_def)
    show "off_of ctx3 (members ! k) = off_of (ly_ctx ly) (members ! k)"
      unfolding eq3 by (rule more_placed_off(1) [OF fits0 pl0 R(6)]) (use k bd0 in simp_all)
    show "set ?ths \<subseteq> set (ly_thunks ly')" by (auto simp: thunks')
    show "lk_isecs ctx3 = lk_isecs (ly_ctx ly) \<and> (\<exists>y'. whole_of members ly' = Some y' \<and> y' \<le> y)" if w: "whole_of members ly = Some y" for y
    proof -
      have dn0: "ly_d ly = ?n" using w by (auto simp: whole_of_def split: if_splits)
      note same = R(12) [OF dn0]
      then have dn': "d = ?n" using dn0 by simp
      have "batches_left (ly_ctx ly) members ?b = Some batches" using bl [OF dn'] batches_left_same [of ctx2 "ly_ctx ly"] secs2 same by simp
      then have "y = ly_offset ly + batches * (MAX_THUNK_SIZE + THUNK_ALIGN)" using w dn0 by (simp add: whole_of_def)
      then show ?thesis using whole' [OF dn'] grow(2) same secs3 by auto
    qed
  qed
  have tl: "ly_t ly' \<le> length (ly_thunks ly')" using ly'(6) tt(2) thunks' by simp
  have served: "\<forall>k < c. served ctx3 (ly_reach ly') (ly_thunks ly') (whole_of members ly') (members ! k)"
    using old new by (meson not_le)
  have te: "\<forall>th \<in> set (ly_thunks ly'). thunk_end th \<le> ly_offset ly' \<and> (c < d \<longrightarrow> thunk_end th \<le> off_of ctx3 (members ! c) + branch_distance ctx3)"
    using th_ends lo_c by (fastforce simp: eq3 dist3)
  have "frame ctx3 = frame (ly_ctx ly)" using fr3 R(5) by simp
  then show ?thesis
    unfolding layout_inv_def ly'(1,4,5,6)
    using fits3 pl3 B(1) C(1,2) dn bud tl th_sorted te mk sl served ly'(3,6) by simp
qed


subsection \<open>The whole section\<close>

lemma batch_step_thunks:
  "batch_step members ly = Some ly' \<Longrightarrow> set (ly_thunks ly) \<subseteq> set (ly_thunks ly') \<and>
     (\<exists>b1 b2. ly_reach ly' = (ly_reach ly)\<lparr>re_backward := b1, re_forward := b2\<rparr>)"
  by (erule batch_step_parts) auto

lemma batch_loop_thunks: "batch_loop members ly = Some ly' \<Longrightarrow> set (ly_thunks ly) \<subseteq> set (ly_thunks ly')"
proof (induction members ly rule: batch_loop.induct)
  case (1 members ly)
  show ?case
  proof (cases "ly_b ly < length members")
    case True
    then obtain ly1 where "batch_step members ly = Some ly1" "batch_loop members ly1 = Some ly'"
      using "1.prems" by (subst (asm) batch_loop.simps) (auto split: option.splits)
    then show ?thesis using "1.IH" [OF True] batch_step_thunks by blast
  qed (use "1.prems" in \<open>subst (asm) batch_loop.simps, simp\<close>)
qed

lemma batch_loop_inv:
  "batch_loop members ly = Some ly' \<Longrightarrow> layout_inv members ly \<Longrightarrow>
   \<forall>th \<in> set (ly_thunks ly'). 12 * length (th_syms th) + 16 \<le> HALF \<Longrightarrow>
   layout_inv members ly' \<and> length members \<le> ly_b ly' \<and>
   (\<exists>b1 b2. ly_reach ly' = (ly_reach ly)\<lparr>re_backward := b1, re_forward := b2\<rparr>) \<and> frame (ly_ctx ly') = frame (ly_ctx ly)"
proof (induction members ly rule: batch_loop.induct)
  case (1 members ly)
  show ?case
  proof (cases "ly_b ly < length members")
    case True
    then obtain ly1 where st: "batch_step members ly = Some ly1" and lp: "batch_loop members ly1 = Some ly'"
      using "1.prems" by (subst (asm) batch_loop.simps) (auto split: option.splits)
    have "\<forall>th \<in> set (ly_thunks ly1). 12 * length (th_syms th) + 16 \<le> HALF" using "1.prems"(3) batch_loop_thunks [OF lp] by blast
    then have inv: "layout_inv members ly1 \<and> frame (ly_ctx ly1) = frame (ly_ctx ly)" by (rule batch_step_inv [OF "1.prems"(2) True st])
    obtain b1 b2 where re1: "ly_reach ly1 = (ly_reach ly)\<lparr>re_backward := b1, re_forward := b2\<rparr>" using batch_step_thunks [OF st] by blast
    note IH = "1.IH" [OF True st lp conjunct1 [OF inv] "1.prems"(3)]
    have "\<exists>b1 b2. ly_reach ly' = (ly_reach ly)\<lparr>re_backward := b1, re_forward := b2\<rparr>" using IH re1 by auto
    then show ?thesis using IH inv by simp
  next
    case False
    then have "ly' = ly" using "1.prems"(1) by (subst (asm) batch_loop.simps) simp
    moreover have "ly_reach ly = (ly_reach ly)\<lparr>re_backward := re_backward (ly_reach ly), re_forward := re_forward (ly_reach ly)\<rparr>" by simp
    ultimately show ?thesis using "1.prems"(2) False by (metis not_le)
  qed
qed

lemma place_members_secs:
  "place_members members b rest d offset ctx = Some (d', offset', ctx') \<Longrightarrow> lk_output_sections ctx' = lk_output_sections ctx"
proof (induction rest arbitrary: d offset ctx)
  case (Cons m rest)
  show ?case using Cons.prems by (auto simp: Let_def set_isec_def dest!: Cons.IH split: bind_splits if_splits)
qed simp

lemma batch_loop_secs: "batch_loop members ly = Some ly' \<Longrightarrow> lk_output_sections (ly_ctx ly') = lk_output_sections (ly_ctx ly)"
proof (induction members ly rule: batch_loop.induct)
  case (1 members ly)
  show ?case
  proof (cases "ly_b ly < length members")
    case True
    then obtain ly1 where st: "batch_step members ly = Some ly1" and lp: "batch_loop members ly1 = Some ly'"
      using "1.prems" by (subst (asm) batch_loop.simps) (auto split: option.splits)
    from st have "lk_output_sections (ly_ctx ly1) = lk_output_sections (ly_ctx ly)"
      by (rule batch_step_parts) (auto dest!: place_members_secs drop_thunks_ok scan_members_ok frameD(5))
    then show ?thesis using "1.IH" [OF True st lp] by simp
  qed (use "1.prems" in \<open>subst (asm) batch_loop.simps, simp\<close>)
qed

lemma unplace_ok:
  "unplace ms ctx = Some ctx' \<Longrightarrow>
   frame ctx' = frame ctx \<and> lk_symbols ctx' = lk_symbols ctx \<and> (\<forall>m \<in> set ms. is_offset (isec_of ctx' m) = UNPLACED) \<and>
   (\<forall>m. is_offset (isec_of ctx m) = UNPLACED \<longrightarrow> is_offset (isec_of ctx' m) = UNPLACED)"
proof (induction ms ctx rule: unplace.induct)
  case (2 m ms ctx)
  obtain isec where i: "nth_opt (lk_isecs ctx) (unat m) = Some isec"
    and r: "unplace ms (set_isec (unat m) (isec\<lparr>is_offset := UNPLACED\<rparr>) ctx) = Some ctx'"
    using "2.prems" by (auto split: bind_splits)
  let ?c = "set_isec (unat m) (isec\<lparr>is_offset := UNPLACED\<rparr>) ctx"
  have m: "unat m < length (lk_isecs ctx)" "isec = lk_isecs ctx ! unat m" using i by (auto simp: nth_opt_def split: if_splits)
  have fr: "frame ?c = frame ctx" using frame_set_isec [OF m(1)] m(2) by simp
  have un: "is_offset (isec_of ?c m) = UNPLACED" using m by (simp add: isec_of_def)
  have keep: "is_offset (isec_of ?c k) = UNPLACED" if "is_offset (isec_of ctx k) = UNPLACED" for k
    using that m by (cases "unat k = unat m") (simp_all add: isec_of_def)
  show ?case using "2.IH" [OF i r] fr un keep by auto
qed simp

lemma outside_output_sections:
  fixes ctx and xs
  defines "c \<equiv> ctx\<lparr>lk_output_sections := xs\<rparr>"
  shows "branch_place c re sid = branch_place ctx re sid" and "near c = near ctx" and "calls c m = calls ctx m" and "off_of c = off_of ctx"
    and "end_of c = end_of ctx" and "isec_of c = isec_of ctx" and "branch_distance c = branch_distance ctx" and "marked c = marked ctx"
proof -
  have f: "lk_isecs c = lk_isecs ctx" "lk_syms c = lk_syms ctx" "lk_objs c = lk_objs ctx" "lk_arch c = lk_arch ctx" "lk_args c = lk_args ctx"
    "st_aux (lk_symbols c) = st_aux (lk_symbols ctx)" by (simp_all add: c_def lk_syms_def)
  have g: "is_interposable c = is_interposable ctx" "stub_idx s c = stub_idx s ctx" "objc_stub_idx s c = objc_stub_idx s ctx" for s
    unfolding is_interposable_def [abs_def] is_weak_coalesced_def is_interposable_export_def stub_idx_def objc_stub_idx_def slot_idx_def sy_aux_def f
    by (rule refl)+
  show "branch_place c re sid = branch_place ctx re sid" unfolding branch_place_def f g ..
  show "near c = near ctx" unfolding near_def [abs_def] in_branch_range_def f ..
  show "isec_of c = isec_of ctx" and o': "off_of c = off_of ctx" unfolding isec_of_def [abs_def] off_of_def [abs_def] f by (rule refl)+
  show "end_of c = end_of ctx" unfolding end_of_def [abs_def] isec_of_def o' f ..
  show "branch_distance c = branch_distance ctx" unfolding branch_distance_def f ..
  show "marked c = marked ctx" unfolding marked_def f ..
  show "calls c m = calls ctx m" unfolding calls_def is_call_def f ..
qed

lemma served_cong:
  assumes "\<And>sid. branch_place a re sid = branch_place b re sid" "near a = near b" "\<And>m. calls a m = calls b m" "off_of a = off_of b"
    "isec_of a = isec_of b" "branch_distance a = branch_distance b"
  shows "served a re thunks whole m = served b re thunks whole m"
  unfolding served_def covered_def reaches_def assms ..


text \<open>
  C37. Laying out a section of arm64 code that fits its field widths and a branch's reach member by
  member, with thunks of at most 43,689 entries: the members keep their order and do not overlap, no
  symbol stays marked, and every call in the section has an entry for its symbol within the branch's
  reach, or needs none, its target being in reach where it was placed or the whole code before or
  after the section being in reach.
\<close>

theorem create_thunks_reach:
  assumes osec: "nth_opt (lk_output_sections ctx) (unat (re_osec re)) = Some osec"
    and fits: "section_fits ctx (ose_members osec)" and unmarked: "marked ctx = {}"
    and run: "create_thunks ctx re = Some (ctx', re')"
    and small: "\<forall>th \<in> set (ose_thunks (lk_output_sections ctx' ! unat (re_osec re))). 12 * length (th_syms th) + 16 \<le> HALF"
  shows "marked ctx' = {} \<and>
    (\<forall>j < length (ose_members osec). \<forall>i < j. end_of ctx' (ose_members osec ! i) \<le> off_of ctx' (ose_members osec ! j)) \<and>
    (\<forall>m \<in> set (ose_members osec). served ctx' re (ose_thunks (lk_output_sections ctx' ! unat (re_osec re)))
       (Some (unat (ch_size (ose_hdr (lk_output_sections ctx' ! unat (re_osec re)))))) m)"
proof -
  let ?ms = "ose_members osec" and ?i = "unat (re_osec re)"
  obtain ctx0 ly ctx1 where up: "unplace ?ms ctx = Some ctx0"
    and lp: "batch_loop ?ms \<lparr>ly_ctx = ctx0, ly_reach = re, ly_thunks = [], ly_a = 0, ly_b = 0, ly_d = 0, ly_offset = 0, ly_t = 0\<rparr> = Some ly"
    and um: "unmark_all (concat (map th_syms (drop (ly_t ly) (ly_thunks ly)))) (ly_ctx ly) = Some ctx1"
    and ctx': "ctx' = ctx1\<lparr>lk_output_sections := (lk_output_sections ctx1)
        [?i := osec\<lparr>ose_hdr := (ose_hdr osec)\<lparr>ch_size := of_nat (ly_offset ly)\<rparr>, ose_thunks := ly_thunks ly\<rparr>]\<rparr>"
    using run osec by (auto simp: create_thunks_def Let_def split: bind_splits)
  note U = unplace_ok [OF up]
  have fits0: "section_fits ctx0 ?ms" using section_fits_frame [of ctx ctx0] U fits by simp
  have "placed ctx0 ?ms 0 0" using U by (simp add: placed_def)
  moreover have "marked ctx0 = {}" using U unmarked by (simp add: marked_def lk_syms_def)
  ultimately have start: "layout_inv ?ms \<lparr>ly_ctx = ctx0, ly_reach = re, ly_thunks = [], ly_a = 0, ly_b = 0, ly_d = 0, ly_offset = 0, ly_t = 0\<rparr>"
    using fits0 by (simp add: layout_inv_def)
  note M = unmark_all_ok [OF um]
  have lks: "lk_output_sections ctx1 = lk_output_sections ctx" 
    using frameD(5) [of ctx1 "ly_ctx ly"] frameD(5) [of ctx0 ctx] M U batch_loop_secs [OF lp] by simp
  have i: "?i < length (lk_output_sections ctx1)" using osec by (simp add: lks nth_opt_def split: if_splits)
  have out: "ose_thunks (lk_output_sections ctx' ! ?i) = ly_thunks ly" "ch_size (ose_hdr (lk_output_sections ctx' ! ?i)) = of_nat (ly_offset ly)"
    using i by (simp_all add: ctx')
  have inv: "layout_inv ?ms ly" "length ?ms \<le> ly_b ly"
    using batch_loop_inv [OF lp start] small out by simp_all
  obtain b1 b2 where re: "ly_reach ly = re\<lparr>re_backward := b1, re_forward := b2\<rparr>" using batch_loop_inv [OF lp start] small out by auto
  note I = inv(1) [unfolded layout_inv_def]
  have n: "ly_b ly = length ?ms" "ly_d ly = length ?ms" using I inv(2) by simp_all
  have pl: "placed (ly_ctx ly) ?ms (length ?ms) (ly_offset ly)" and mk: "marked (ly_ctx ly) = set (concat (map th_syms (drop (ly_t ly) (ly_thunks ly))))"
    and sv: "k < length ?ms \<Longrightarrow> served (ly_ctx ly) (ly_reach ly) (ly_thunks ly) (whole_of ?ms ly) (?ms ! k)" for k
    using I n by simp_all
  have "ly_offset ly < 2 ^ 32 - 1" using I budget_less [of "ly_ctx ly" ?ms "ly_d ly" "ly_b ly"] by simp
  then have fin: "unat (of_nat (ly_offset ly) :: u64) = ly_offset ly" by (simp add: unat_of_nat_small)
  have whole: "whole_of ?ms ly = Some (ly_offset ly)" by (simp add: whole_of_def n batches_left.simps)
  have fr: "frame ctx1 = frame (ly_ctx ly)" and secs: "lk_isecs ctx1 = lk_isecs (ly_ctx ly)" using M by simp_all
  note O = outside_output_sections [where ctx = ctx1 and xs = "(lk_output_sections ctx1)[?i := osec\<lparr>ose_hdr := (ose_hdr osec)\<lparr>ch_size := of_nat (ly_offset ly)\<rparr>, ose_thunks := ly_thunks ly\<rparr>]", folded ctx']
  have offs: "off_of ctx' = off_of (ly_ctx ly)" "isec_of ctx' = isec_of (ly_ctx ly)" "end_of ctx' = end_of (ly_ctx ly)"
    using O(4-6) secs by (auto simp: off_of_def isec_of_def end_of_def intro!: ext)
  have "served ctx' re ths w m = served (ly_ctx ly) (ly_reach ly) ths w m" for ths w m
  proof -
    have "served ctx' re ths w m = served (ly_ctx ly) re ths w m"
    proof (rule served_cong)
      show "branch_place ctx' re sid = branch_place (ly_ctx ly) re sid" for sid
        using O(1) branch_place_same [OF fr [symmetric]] secs by simp
      show "near ctx' = near (ly_ctx ly)" using O(2) near_frame [OF fr] by (auto intro!: ext)
      show "calls ctx' m = calls (ly_ctx ly) m" for m using O(3) calls_frame [OF fr] by simp
      show "branch_distance ctx' = branch_distance (ly_ctx ly)" using O(7) frame_distance [OF fr] by simp
    qed (fact offs)+
    then show ?thesis by (simp add: served_def re reaches_flags)
  qed
  then have "served ctx' re (ly_thunks ly) (Some (ly_offset ly)) m" if "m \<in> set ?ms" for m
    using that sv whole by (auto simp: in_set_conv_nth)
  moreover have "marked ctx' = {}" using O(8) M mk by simp
  moreover have "end_of ctx' (?ms ! i) \<le> off_of ctx' (?ms ! j)" if "j < length ?ms" "i < j" for i j
    using pl that by (simp add: placed_def offs)
  ultimately show ?thesis unfolding out fin by blast
qed

text \<open>
  A section of two members of 100 MiB, the first of which calls the second: the callee is not placed
  when the first member is laid out, so the member gets a thunk.
\<close>

definition far_isec :: "u32 \<Rightarrow> u32 \<Rightarrow> input_section" where
  "far_isec n off = (input_section_new 0 0 2 104857600 [])\<lparr>is_nrels := n, is_output_section := 0, is_offset := off\<rparr>"

definition far_callee :: symbol where
  "far_callee = (symbol_new (bstr ''_far''))\<lparr>sy_file_word := symbol_file_some (FObj 0), sy_isec := 1\<rparr>"

definition far_osec :: output_section where
  "far_osec = \<lparr>ose_hdr = chunk_header_new (bstr ''__TEXT'') (bstr ''__text''), ose_members = [0, 1], ose_thunks = [], ose_tail_off = 0\<rparr>"

definition far_obj :: object_file where
  "far_obj = \<lparr>ob_is_reachable = True, ob_subsections_via_symbols = True, ob_sect_hdrs = [],
     ob_relocs = [\<lparr>rl_offset = 16, rl_ty = ARM64_RELOC_BRANCH26, rl_size = 4, rl_is_pcrel = True, rl_is_subtracted = False,
                   rl_target = 0, rl_addend = 0\<rparr>], ob_symbols = [0]\<rparr>"

definition far_link :: "u32 \<Rightarrow> u32 \<Rightarrow> symbol \<Rightarrow> output_section \<Rightarrow> link" where
  "far_link off0 off1 s osec =
     \<lparr>lk_arch = arch_arm64, lk_args = plain_args, lk_hash = (\<lambda>_. 0), lk_isecs = [far_isec 1 off0, far_isec 0 off1],
      lk_objs = [far_obj],
      lk_dylibs = [], lk_symbols = \<lparr>st_shards = [], st_syms = [s], st_aux = []\<rparr>,
      lk_unwind_records = [], lk_fdes = [], lk_cies = [], lk_internal_obj = None, lk_chunks = [ChOutput 0],
      lk_hdr = (\<lambda>_. chunk_header_new [] []), lk_output_sections = [osec], lk_segments = [], lk_chained_disabled = False,
      lk_stubs_lazy = [], lk_lazy_helper_offsets = [], lk_init_funcs = []\<rparr>"

definition far_reach :: branch_reach where
  "far_reach = \<lparr>re_osec = 0, re_sides = [Outside], re_stubs = Outside, re_objc_stubs = Outside, re_before = Some 0, re_after = Some 0,
     re_backward = False, re_forward = False\<rparr>"

lemma far_sizes:
  "align_offset (far_isec n off) 0 = 0" "align_offset (far_isec n off) 104857600 = 104857600" "align_offset (far_isec n off) 104857612 = 104857612"
  "is_size (far_isec n off) = 104857600" "is_offset (far_isec n off) = off" "(far_isec n off)\<lparr>is_offset := off'\<rparr> = far_isec n off'"
  by (simp_all add: align_offset_def align_to_def align_to_mod_def far_isec_def input_section_new_def flags_alive_def IS_ALIVE_def NO_MODULUS_def push_bit_eq_mult Let_def)

lemma far_distance: "branch_distance (far_link a b s k) = 134217728"
  by (simp add: branch_distance_def far_link_def arch_arm64_def push_bit_eq_mult)

lemma far_secs:
  "is_file (far_isec n a) = 0" "is_rel_offset (far_isec n a) = 0" "is_nrels (far_isec n a) = n" "lk_objs (far_link a b s k) = [far_obj]"
  "lk_isecs (far_link a b s k) = [far_isec 1 a, far_isec 0 b]" "lk_syms (far_link a b s k) = [s]" "lk_output_sections (far_link a b s k) = [k]"
  "lk_arch (far_link a b s k) = arch_arm64"
  "set_isec 0 (far_isec 1 a') (far_link a b s k) = far_link a' b s k" "set_isec (Suc 0) (far_isec 0 b') (far_link a b s k) = far_link a b' s k"
  "set_symbol 0 s' (far_link a b s k) = far_link a b s' k" "(far_link a b s k)\<lparr>lk_output_sections := [k']\<rparr> = far_link a b s k'"
  by (simp_all add: far_link_def lk_syms_def set_isec_def set_symbol_def far_isec_def input_section_new_def)

lemmas far = far_sizes far_distance far_secs

lemma far_place: "place_members [0, 1] 0 [0, 1] 0 0 (far_link a UNPLACED s k) = Some (1, 104857600, far_link 0 UNPLACED s k)"
  "place_members [0, 1] 1 [1] 1 104857612 (far_link a UNPLACED s k) = Some (2, 209715212, far_link a 104857612 s k)"
  by (simp_all add: far nth_opt_def Let_def member_offset_def align_to_def)

lemma far_place_of:
  "re_osec re = 0 \<Longrightarrow> branch_place (far_link a b far_callee k) re 0 = Some (if b = UNPLACED then Side After else Place (unat (ucast b :: u64)))"
proof -
  have "resolve [far_isec 1 a, far_isec 0 b] (Suc 0) = Some (Suc 0)"
    by (subst resolve.simps) (simp add: nth_opt_def far_isec_def input_section_new_def)
  moreover have "stub_idx far_callee (far_link a b far_callee k) = Some None"
    by (simp add: stub_idx_def slot_idx_def sy_aux_def far_callee_def symbol_new_def)
  moreover have "sy_file far_callee = Some (FObj 0)" "sy_input_section far_callee = Some 1" "sy_value far_callee = 0"
    by (simp_all add: far_callee_def sy_file_def symbol_file_get_def symbol_file_some_def SF_NONE_def SF_DYNAMIC_LOOKUP_def SF_DYLIB_def symbol_new_def sy_input_section_def)
  moreover have "isec_output_section (far_isec 0 b) = Some (ChOutput 0)"
    by (simp add: far_isec_def isec_output_section_def input_section_new_def chunk_unpack_def output_section_id_def)
  ultimately show "re_osec re = 0 \<Longrightarrow> ?thesis"
    by (simp add: branch_place_def far nth_opt_def)
qed

lemma far_call:
  assumes "re_osec re = 0" "\<not> re_forward re"
  shows "scan_members re [0] (far_link a UNPLACED far_callee k) = Some ([0], far_link a UNPLACED (snd (sy_mark far_callee)) k)"
proof -
  obtain s where "sy_mark far_callee = (True, s)" by (simp add: sy_mark_def far_callee_def symbol_new_def)
  then show ?thesis
    by (simp add: far nth_opt_def Let_def assms far_place_of requires_thunk_def reloc_sym_def isec_rels_def far_obj_def slice_at_def
        reloc_target_of_def is_func_call_def arch_arm64_def TARGET_SECTION_def)
qed

lemma far_call_none: "scan_members re [1] (far_link a b s k) = Some ([], far_link a b s k)"
  by (simp add: far nth_opt_def Let_def isec_rels_def slice_at_def)

lemma far_batches: "batches_left (far_link a b s k) [0, 1] (Suc 0) = Some 1"
  by (simp add: batches_left.simps batch_end_def nth_opt_def far member_offset_def)

lemma far_step1:
  "batch_step [0, 1] \<lparr>ly_ctx = far_link a UNPLACED far_callee k, ly_reach = far_reach, ly_thunks = [], ly_a = 0, ly_b = 0, ly_d = 0, ly_offset = 0, ly_t = 0\<rparr> =
     Some \<lparr>ly_ctx = far_link 0 UNPLACED (snd (sy_mark far_callee)) k, ly_reach = far_reach\<lparr>re_backward := True\<rparr>,
           ly_thunks = [\<lparr>th_offset = 104857600, th_syms = [0]\<rparr>], ly_a = 0, ly_b = 1, ly_d = 1, ly_offset = 104857612, ly_t = 0\<rparr>"
  unfolding batch_step_def
  by (simp only: layout.simps Let_def list.size drop_0 far_place bind.simps option.simps prod.case)
    (simp add: batch_end_def nth_opt_def far member_offset_def
      scan_batch_def far_reach_def far_call far align_to_def arch_arm64_def del: scan_members.simps)

lemma far_step2:
  "batch_step [0, 1] \<lparr>ly_ctx = far_link 0 UNPLACED s k, ly_reach = far_reach\<lparr>re_backward := True\<rparr>,
           ly_thunks = [\<lparr>th_offset = 104857600, th_syms = [0]\<rparr>], ly_a = 0, ly_b = 1, ly_d = 1, ly_offset = 104857612, ly_t = 0\<rparr> =
     Some \<lparr>ly_ctx = far_link 0 104857612 (sy_unmark s) k, ly_reach = far_reach\<lparr>re_backward := False, re_forward := True\<rparr>,
           ly_thunks = [\<lparr>th_offset = 104857600, th_syms = [0]\<rparr>], ly_a = 1, ly_b = 2, ly_d = 2, ly_offset = 209715212, ly_t = 1\<rparr>"
  by (simp add: batch_step_def far_place Let_def batch_end_def nth_opt_def far member_offset_def scan_batch_def far_reach_def far_call_none far_batches align_to_def del: scan_members.simps)

lemma far_run:
  "\<exists>ctx' re'. create_thunks (far_link 0 0 far_callee far_osec) far_reach = Some (ctx', re') \<and> map th_syms (ose_thunks (lk_output_sections ctx' ! 0)) = [[0]]"
  by (simp add: create_thunks_def far_osec_def far nth_opt_def Let_def far_reach_def)
    (simp add: far_reach_def [symmetric] batch_loop.simps far_step1 far_step2 far nth_opt_def del: One_nat_def)

lemma far_fits: "section_fits (far_link 0 0 far_callee far_osec) [0, 1]" "marked (far_link 0 0 far_callee far_osec) = {}"
proof -
  have "is_p2align (far_isec n a) = 2" for n a by (simp add: far_isec_def input_section_new_def)
  then show "section_fits (far_link 0 0 far_callee far_osec) [0, 1]"
    by (simp add: section_fits_def budget_def isec_of_def far)
  show "marked (far_link 0 0 far_callee far_osec) = {}"
    by (simp add: marked_def far_secs far_callee_def symbol_new_def sy_is_marked_def flag_get_def cong: conj_cong)
qed

theorem create_thunks_reach_witness:
  "\<exists>ctx' re'. create_thunks (far_link 0 0 far_callee far_osec) far_reach = Some (ctx', re') \<and>
     map th_syms (ose_thunks (lk_output_sections ctx' ! 0)) = [[0]] \<and> marked ctx' = {} \<and>
     served ctx' far_reach (ose_thunks (lk_output_sections ctx' ! 0)) (Some (unat (ch_size (ose_hdr (lk_output_sections ctx' ! 0))))) 0"
proof -
  obtain ctx' re' where r: "create_thunks (far_link 0 0 far_callee far_osec) far_reach = Some (ctx', re')"
    and th: "map th_syms (ose_thunks (lk_output_sections ctx' ! 0)) = [[0]]" using far_run by (elim exE conjE)
  have i: "unat (re_osec far_reach) = 0" by (simp add: far_reach_def)
  have o': "nth_opt (lk_output_sections (far_link 0 0 far_callee far_osec)) (unat (re_osec far_reach)) = Some far_osec"
    by (simp add: i far nth_opt_def)
  have m: "ose_members far_osec = [0, 1]" by (simp add: far_osec_def)
  have small: "\<forall>t \<in> set (ose_thunks (lk_output_sections ctx' ! unat (re_osec far_reach))). 12 * length (th_syms t) + 16 \<le> HALF"
    using th by (auto simp: i)
  show ?thesis using create_thunks_reach [OF o' _ far_fits(2) r small] far_fits(1) r th by (simp add: m i)
qed

end
