(* ===== verification/ChainedFixups.thy ===== *)
theory ChainedFixups
  imports Link LoadCommands RebaseInfo
begin

section \<open>Chained fixups (\<open>macho/chunks/chained_fixups.rs\<close>)\<close>

text \<open>
  The payload of \<^verbatim>\<open>LC_DYLD_CHAINED_FIXUPS\<close> and the chains threaded through the data. \<open>None\<close> is a panic
  or a fatal error. The specification is dyld's side: it reads the starts of the chains from the
  payload, walks each chain through the written image and decodes every word.
\<close>

subsection \<open>Synthesized records\<close>

datatype objc_ref = RefIsec u32 u64 | RefSym u32 u64 | TailSelref nat | NullRef

datatype data_field = FieldBytes bytes | FieldPtr objc_ref

record data_blob =
  db_isec :: u32
  db_fields :: "data_field list"

datatype treatment = TrWarning | TrError | TrSuppress

text \<open>A fixup: its address, the symbol it binds or none for a rebase, and the addend.\<close>

type_synonym fixup = "u64 \<times> u32 option \<times> u64"

text \<open>What the chunk reads of the context beside \<open>link\<close>.\<close>

record chain_ctx =
  cc_link :: link
  cc_pie :: bool
  cc_got_syms :: "u32 list"
  cc_num_selrefs :: nat
  cc_selrefs :: "u32 option"
  cc_data_blobs :: "data_blob list"
  cc_text_reloc_ranges :: "(u64 \<times> u64) list"
  cc_unaligned_pointers :: treatment
  cc_fixups :: "fixup list"
  cc_ordinals :: "(u32 \<times> u64) \<Rightarrow> nat option"

definition selref_addr :: "chain_ctx \<Rightarrow> nat \<Rightarrow> u64 option" where
  "selref_addr ctx i =
     do { k \<leftarrow> cc_selrefs ctx;
          osec \<leftarrow> nth_opt (lk_output_sections (cc_link ctx)) (unat k);
          Some (ch_addr (ose_hdr osec) + ose_tail_off osec + of_nat i * 8) }"

definition ref_import :: "link \<Rightarrow> objc_ref \<Rightarrow> u32 option option" where
  "ref_import ctx r =
     (case r of
        RefSym i _ \<Rightarrow> map_option (\<lambda>s. if sy_is_imported s then Some i else None) (nth_opt (lk_syms ctx) (unat i))
      | _ \<Rightarrow> Some None)"

definition ref_addr :: "chain_ctx \<Rightarrow> objc_ref \<Rightarrow> u64 option" where
  "ref_addr ctx r =
     (case r of
        RefIsec i off \<Rightarrow> do { isec \<leftarrow> nth_opt (lk_isecs (cc_link ctx)) (unat i); map_option (\<lambda>a. a + off) (isec_addr (cc_link ctx) isec) }
      | RefSym i addend \<Rightarrow> do { s \<leftarrow> nth_opt (lk_syms (cc_link ctx)) (unat i); map_option (\<lambda>a. a + addend) (sy_addr (cc_link ctx) s) }
      | TailSelref n \<Rightarrow> selref_addr ctx n
      | NullRef \<Rightarrow> Some 0)"

fun blob_fields :: "u64 \<Rightarrow> data_field list \<Rightarrow> (u64 \<times> objc_ref) list" where
  "blob_fields at [] = []"
| "blob_fields at (f # fs) =
     (case f of
        FieldBytes bs \<Rightarrow> blob_fields (at + of_nat (length bs)) fs
      | FieldPtr r \<Rightarrow> (at, r) # blob_fields (at + 8) fs)"

definition data_blob_fields :: "chain_ctx \<Rightarrow> (u64 \<times> objc_ref) list option" where
  "data_blob_fields ctx =
     map_option concat (those (map (\<lambda>b. do { isec \<leftarrow> nth_opt (lk_isecs (cc_link ctx)) (unat (db_isec b));
                                             map_option (\<lambda>at. blob_fields at (db_fields b)) (isec_addr (cc_link ctx) isec) })
                                   (cc_data_blobs ctx)))"

definition data_blob_pointers :: "chain_ctx \<Rightarrow> (u64 \<times> u64) list option" where
  "data_blob_pointers ctx =
     do { fields \<leftarrow> data_blob_fields ctx;
          rows \<leftarrow> those (map (\<lambda>(at, r). do { im \<leftarrow> ref_import (cc_link ctx) r;
                                            if im = None then map_option (\<lambda>t. [(at, t)]) (ref_addr ctx r) else Some [] }) fields);
          Some (filter (\<lambda>(_, target). target \<noteq> 0) (concat rows)) }"

definition data_blob_binds :: "chain_ctx \<Rightarrow> (u64 \<times> u32) list option" where
  "data_blob_binds ctx =
     do { fields \<leftarrow> data_blob_fields ctx;
          rows \<leftarrow> those (map (\<lambda>(at, r). map_option (\<lambda>im. case im of Some i \<Rightarrow> [(at, i)] | None \<Rightarrow> []) (ref_import (cc_link ctx) r)) fields);
          Some (concat rows) }"

subsection \<open>Collecting the fixups\<close>

definition pointer_relocs :: "link \<Rightarrow> input_section \<Rightarrow> (u64 \<times> reloc) list option" where
  "pointer_relocs ctx isec =
     do { chunk \<leftarrow> isec_output_section isec;
          hdr \<leftarrow> chunk_header_of ctx chunk;
          file \<leftarrow> nth_opt (lk_objs ctx) (unat (is_file isec));
          rels \<leftarrow> isec_rels isec (ob_relocs file);
          Some (map (\<lambda>rel. (ch_addr hdr + ucast (is_offset isec) + ucast (rl_offset rel), rel)) (filter (is_absrel (lk_arch ctx)) rels)) }"

text \<open>The fixup of one pointer, if it needs any.\<close>

definition reloc_fixup :: "link \<Rightarrow> object_file \<Rightarrow> u64 \<Rightarrow> reloc \<Rightarrow> fixup option option" where
  "reloc_fixup ctx file addr rel =
     do { target \<leftarrow> reloc_sym file rel;
          early \<leftarrow> (case target of
              None \<Rightarrow> Some None
            | Some i \<Rightarrow>
                do { s \<leftarrow> nth_opt (lk_syms ctx) (unat i);
                     Some (if is_absolute ctx s \<and> \<not> binds_at_runtime ctx s then Some None
                           else if binds_at_runtime ctx s \<or> binds_to_self ctx s \<or> is_dtrace_pointer_target s
                           then Some (Some (addr, Some i, rl_addend rel)) else None) });
          case early of
            Some fixup \<Rightarrow> Some fixup
          | None \<Rightarrow> map_option (\<lambda>tls. if tls then None else Some (addr, None, 0)) (refers_to_tls ctx file rel) }"

definition isec_fixups :: "link \<Rightarrow> input_section \<Rightarrow> fixup list option" where
  "isec_fixups ctx isec =
     (if \<not> is_emitted isec then Some []
      else do { file \<leftarrow> nth_opt (lk_objs ctx) (unat (is_file isec));
                rels \<leftarrow> pointer_relocs ctx isec;
                fx \<leftarrow> those (map (\<lambda>(addr, rel). reloc_fixup ctx file addr rel) rels);
                Some (List.map_filter (\<lambda>x. x) fx) })"

definition got_fixups :: "chain_ctx \<Rightarrow> fixup list option" where
  "got_fixups ctx =
     map_option concat (those (map (\<lambda>(i, sid).
         do { s \<leftarrow> nth_opt (lk_syms (cc_link ctx)) (unat sid);
              Some (if is_absolute (cc_link ctx) s \<and> \<not> binds_at_runtime (cc_link ctx) s then []
                    else [(got_slot_addr (cc_link ctx) i, if binds_at_runtime (cc_link ctx) s then Some sid else None, 0)]) })
       (enumerate 0 (cc_got_syms ctx))))"

definition collect_fixups :: "chain_ctx \<Rightarrow> (fixup list \<times> (u32 \<times> u64) list) option" where
  "collect_fixups ctx =
     do { rows \<leftarrow> those (map (isec_fixups (cc_link ctx)) (lk_isecs (cc_link ctx)));
          let unaligned = concat (map (\<lambda>(id, fx). map (\<lambda>(addr, _). (of_nat id, addr)) (filter (\<lambda>(addr, _). addr mod 8 \<noteq> 0) fx)) (enumerate 0 rows));
          got \<leftarrow> got_fixups ctx;
          selrefs \<leftarrow> those (map (selref_addr ctx) [0..<cc_num_selrefs ctx]);
          ptrs \<leftarrow> data_blob_pointers ctx;
          binds \<leftarrow> data_blob_binds ctx;
          let fixups = concat rows @ got @ map (\<lambda>a. (a, None, 0)) selrefs @ map (\<lambda>(a, _). (a, None, 0)) ptrs @
                       map (\<lambda>(a, sid). (a, Some sid, 0)) binds;
          let args = lk_args (cc_link ctx);
          let fixups = (if is_never_slid (la_output_type args) (cc_pie ctx) (la_static_link args)
                        then filter (\<lambda>(_, sm, _). sm \<noteq> None) fixups else fixups);
          Some (sort_key fst fixups, unaligned) }"

text \<open>
  The check gives whether the image keeps its chains, and the subsections it reports, as errors or
  warnings by the option.
\<close>

definition check_pointer_alignment :: "chain_ctx \<Rightarrow> fixup list \<Rightarrow> (u32 \<times> u64) list \<Rightarrow> bool \<Rightarrow> bool \<times> (u32 \<times> u64) list" where
  "check_pointer_alignment ctx fixups unaligned chained =
     (let unaligned = sort_key snd (filter (\<lambda>(_, addr). \<not> list_ex (\<lambda>(lo, hi). lo \<le> addr \<and> addr < hi) (cc_text_reloc_ranges ctx)) unaligned);
          fallback = (chained \<and> ar_cputype (lk_arch (cc_link ctx)) = CPU_TYPE_X86_64 \<and> \<not> la_without_dyld (lk_args (cc_link ctx)) \<and>
                      (unaligned \<noteq> [] \<or> list_ex (\<lambda>(addr, _). addr mod 8 \<noteq> 0) fixups));
          reported = (case cc_unaligned_pointers ctx of TrError \<Rightarrow> take 1 unaligned | TrWarning \<Rightarrow> unaligned | TrSuppress \<Rightarrow> [])
      in (\<not> fallback, reported))"

definition check_classic_pointers :: "chain_ctx \<Rightarrow> (u32 \<times> u64) list option" where
  "check_classic_pointers ctx =
     (if cc_unaligned_pointers ctx \<noteq> TrSuppress
      then map_option (\<lambda>(fixups, unaligned). snd (check_pointer_alignment ctx fixups unaligned False)) (collect_fixups ctx)
      else Some [])"

subsection \<open>The import table\<close>

definition MAX_INLINE_ADDEND :: u64 where "MAX_INLINE_ADDEND = 255"

definition table_addend :: "u64 \<Rightarrow> u64" where
  "table_addend addend = (if addend \<le> MAX_INLINE_ADDEND then 0 else addend)"

text \<open>The loop over the fixups; the map of ordinals has an entry per pair in the table.\<close>

fun import_loop :: "fixup list \<Rightarrow> (u32 \<times> u64) list \<Rightarrow> ((u32 \<times> u64) \<Rightarrow> nat option) \<Rightarrow> (u32 \<times> u64) list \<times> ((u32 \<times> u64) \<Rightarrow> nat option)" where
  "import_loop [] imports ordinals = (imports, ordinals)"
| "import_loop ((_, sm, addend) # fixups) imports ordinals =
     (case sm of
        None \<Rightarrow> import_loop fixups imports ordinals
      | Some s \<Rightarrow>
          let key = (s, table_addend addend)
          in (case ordinals key of
                Some _ \<Rightarrow> import_loop fixups imports ordinals
              | None \<Rightarrow> import_loop fixups (imports @ [key]) (ordinals(key \<mapsto> length imports))))"

definition import_table :: "fixup list \<Rightarrow> (u32 \<times> u64) list \<times> ((u32 \<times> u64) \<Rightarrow> nat option)" where
  "import_table fixups = import_loop fixups [] Map.empty"

definition pointer_format :: "link \<Rightarrow> u16" where
  "pointer_format ctx =
     (if la_static_link (lk_args ctx) \<or> reached_by VERSION_2021_FALL (la_platform (lk_args ctx)) (la_platform_minos (lk_args ctx))
      then DYLD_CHAINED_PTR_64_OFFSET else DYLD_CHAINED_PTR_64)"

text \<open>\<^verbatim>\<open>i32::try_from(a as i64).is_ok()\<close> is that the word is a sign-extended 32-bit one.\<close>

definition import_format :: "(u32 \<times> u64) list \<Rightarrow> u32" where
  "import_format imports =
     (if Max (insert 0 (snd ` set imports)) = 0 then DYLD_CHAINED_IMPORT
      else if list_all (\<lambda>(_, a). - (2 ^ 31) \<le> sint a \<and> sint a < 2 ^ 31) imports then DYLD_CHAINED_IMPORT_ADDEND
      else DYLD_CHAINED_IMPORT_ADDEND64)"

definition low_bits :: "nat \<Rightarrow> int \<Rightarrow> u64" where
  "low_bits nbits n = word_of_int n AND (push_bit nbits 1 - 1)"

definition chained_import_ordinal :: "link \<Rightarrow> symbol \<Rightarrow> nat \<Rightarrow> u64 option" where
  "chained_import_ordinal ctx s nbits =
     map_option (\<lambda>n. low_bits nbits (if n = BIND_SPECIAL_DYLIB_MAIN_EXECUTABLE then - 1 else n)) (bind_ordinal ctx s)"

definition import_ordinal :: "link \<Rightarrow> u32 \<Rightarrow> nat \<Rightarrow> u64 option" where
  "import_ordinal ctx sid nbits =
     do { s \<leftarrow> nth_opt (lk_syms ctx) (unat sid);
          dylib \<leftarrow> (case sy_file s of Some (FDylib _) \<Rightarrow> map_option Not (binds_weak_lookup ctx s) | _ \<Rightarrow> Some False);
          if dylib then chained_import_ordinal ctx s nbits
          else if binds_to_self ctx s then Some (word_of_int BIND_SPECIAL_DYLIB_SELF)
          else do { export \<leftarrow> (if is_interposable_export ctx s then map_option Not (binds_weak_lookup ctx s) else Some False);
                    Some (low_bits nbits (if export then export_bind_ordinal ctx
                                         else if is_dtrace_pointer_target s then BIND_SPECIAL_DYLIB_FLAT_LOOKUP
                                         else BIND_SPECIAL_DYLIB_WEAK_LOOKUP)) } }"

text \<open>
  The entries of the imports, the first of which names the string at \<open>name_off\<close>; a \<^verbatim>\<open>u32\<close>, whose
  shift drops the high bits.
\<close>

fun write_imports_loop :: "link \<Rightarrow> (u32 \<times> u64) list \<Rightarrow> u32 \<Rightarrow> u32 \<Rightarrow> bytes \<Rightarrow> bytes option" where
  "write_imports_loop ctx [] fmt name_off buf = Some buf"
| "write_imports_loop ctx ((sid, addend) # imports) fmt name_off buf =
     do { s \<leftarrow> nth_opt (lk_syms ctx) (unat sid);
          let weak = (if sy_is_weak_ref s then 1 else 0);
          buf \<leftarrow> (if fmt = DYLD_CHAINED_IMPORT then
                    do { ordinal \<leftarrow> import_ordinal ctx sid 8;
                         Some (push32 buf (ucast ordinal OR push_bit 8 weak OR push_bit 9 name_off)) }
                  else if fmt = DYLD_CHAINED_IMPORT_ADDEND then
                    do { ordinal \<leftarrow> import_ordinal ctx sid 8;
                         Some (push32 (push32 buf (ucast ordinal OR push_bit 8 weak OR push_bit 9 name_off)) (ucast addend)) }
                  else
                    do { ordinal \<leftarrow> import_ordinal ctx sid 16;
                         Some (push64 (push64 buf (ordinal OR push_bit 16 (ucast weak) OR push_bit 32 (ucast name_off))) addend) });
          write_imports_loop ctx imports fmt (name_off + of_nat (length (sy_name s)) + 1) buf }"

definition write_imports :: "link \<Rightarrow> bytes \<Rightarrow> (u32 \<times> u64) list \<Rightarrow> u32 \<Rightarrow> bytes option" where
  "write_imports ctx buf imports fmt = write_imports_loop ctx imports fmt 1 buf"

subsection \<open>The starts of the chains\<close>

definition chain_page_size :: "link \<Rightarrow> u64" where
  "chain_page_size ctx = (if ar_cputype (lk_arch ctx) = CPU_TYPE_X86_64 then 0x1000 else la_segment_align (lk_args ctx))"

abbreviation fixup_addr :: "fixup \<Rightarrow> u64" where "fixup_addr \<equiv> fst"

text \<open>\<^verbatim>\<open>partition_point\<close> on what is sorted; the slice panics where the segment's end wraps around.\<close>

definition fixups_between :: "fixup list \<Rightarrow> u64 \<Rightarrow> u64 \<Rightarrow> nat \<times> nat" where
  "fixups_between fixups lo hi =
     (length (takeWhile (\<lambda>f. fixup_addr f < lo) fixups), length (takeWhile (\<lambda>f. fixup_addr f < hi) fixups))"

definition segment_fixups :: "fixup list \<Rightarrow> out_segment \<Rightarrow> fixup list option" where
  "segment_fixups fixups seg =
     (case fixups_between fixups (seg_vmaddr (os_cmd seg)) (seg_vmaddr (os_cmd seg) + seg_vmsize (os_cmd seg)) of
        (lo, hi) \<Rightarrow> if lo \<le> hi then Some (take (hi - lo) (drop lo fixups)) else None)"

fun write_page_starts :: "u64 \<Rightarrow> u64 \<Rightarrow> nat \<Rightarrow> nat \<Rightarrow> fixup list \<Rightarrow> bytes \<Rightarrow> bytes" where
  "write_page_starts vmaddr page_size i 0 fx buf = buf"
| "write_page_starts vmaddr page_size i (Suc n) fx buf =
     (let page_addr = vmaddr + of_nat i * page_size;
          fx = dropWhile (\<lambda>f. fixup_addr f < page_addr) fx;
          start = (case fx of
              f # _ \<Rightarrow> if fixup_addr f < page_addr + page_size then ucast (fixup_addr f - page_addr) else DYLD_CHAINED_PTR_START_NONE
            | [] \<Rightarrow> DYLD_CHAINED_PTR_START_NONE)
      in write_page_starts vmaddr page_size (i + 1) n fx (push16 buf start))"

definition segment_pages :: "u64 \<Rightarrow> u64 \<Rightarrow> fixup list \<Rightarrow> nat" where
  "segment_pages vmaddr page_size fx = div_ceil (unat (fixup_addr (last fx) + 1 - vmaddr)) (unat page_size)"

text \<open>The loop over the segments; the flag is an error reported, which ends the loop.\<close>

fun write_segment_starts :: "link \<Rightarrow> fixup list \<Rightarrow> nat \<Rightarrow> nat \<Rightarrow> nat \<Rightarrow> out_segment list \<Rightarrow> bytes \<Rightarrow> (bytes \<times> bool) option" where
  "write_segment_starts ctx fixups starts_offset table i [] buf = Some (buf, False)"
| "write_segment_starts ctx fixups starts_offset table i (seg # segs) buf =
     do { fx \<leftarrow> segment_fixups fixups seg;
          if fx = [] then write_segment_starts ctx fixups starts_offset table (i + 1) segs buf
          else do {
            let buf = pad_to buf 8;
            buf \<leftarrow> copy_at buf (table + i * 4) (le_bytes 4 (of_nat (length buf - starts_offset) :: u32));
            let page_size = chain_page_size ctx;
            if page_size \<notin> {0x1000, 0x4000} then Some (buf, True)
            else
              let vmaddr = seg_vmaddr (os_cmd seg);
                  npages = segment_pages vmaddr page_size fx;
                  buf = push32 buf (22 + of_nat npages * 2);
                  buf = push16 (push16 buf (ucast page_size)) (pointer_format ctx);
                  buf = push64 buf (vmaddr - ch_addr (lk_hdr ctx ChMachHeader));
                  buf = push16 (push32 buf 0) (of_nat npages)
              in write_segment_starts ctx fixups starts_offset table (i + 1) segs (write_page_starts vmaddr page_size 0 npages fx buf) } }"

definition write_starts_in_image :: "link \<Rightarrow> bytes \<Rightarrow> fixup list \<Rightarrow> (bytes \<times> bool) option" where
  "write_starts_in_image ctx buf fixups =
     (let starts_offset = length buf;
          preload = (if la_preload (lk_args ctx) then 1 else 0)
      in if length (lk_segments ctx) < preload then None
         else let seg_count = length (lk_segments ctx) - preload;
                  buf = push32 buf (of_nat seg_count);
                  table = length buf
              in write_segment_starts ctx fixups starts_offset table 0 (lk_segments ctx) (buf @ replicate (4 * seg_count) 0))"

subsection \<open>The payload\<close>

fun push_names :: "link \<Rightarrow> (u32 \<times> u64) list \<Rightarrow> bytes \<Rightarrow> bytes option" where
  "push_names ctx [] buf = Some buf"
| "push_names ctx ((sid, _) # imports) buf =
     do { s \<leftarrow> nth_opt (lk_syms ctx) (unat sid); push_names ctx imports (buf @ sy_name s @ [0]) }"

definition encode_payload :: "link \<Rightarrow> fixup list \<Rightarrow> (u32 \<times> u64) list \<Rightarrow> (bytes \<times> bool) option" where
  "encode_payload ctx fixups imports =
     do { let fmt = import_format imports;
          let buf = push32 (push32 (push32 (push32 [] 0) 0) 0) 0;
          let buf = push32 (push32 (push32 buf (of_nat (length imports))) fmt) 0;
          let buf = pad_to buf 8;
          buf \<leftarrow> copy_at buf 4 (le_bytes 4 (of_nat (length buf) :: u32));
          (buf, err) \<leftarrow> write_starts_in_image ctx buf fixups;
          let buf = pad_to buf (if fmt = DYLD_CHAINED_IMPORT_ADDEND64 then 8 else 4);
          buf \<leftarrow> copy_at buf 8 (le_bytes 4 (of_nat (length buf) :: u32));
          buf \<leftarrow> write_imports ctx buf imports fmt;
          buf \<leftarrow> copy_at buf 12 (le_bytes 4 (of_nat (length buf) :: u32));
          buf \<leftarrow> push_names ctx imports (buf @ [0]);
          Some (pad_to buf 8, err) }"

text \<open>The inner \<open>None\<close> is an image that must have classic dyld info instead.\<close>

definition build_chained_fixups ::
  "chain_ctx \<Rightarrow> ((bytes \<times> bool) \<times> fixup list \<times> (u32 \<times> u64) list \<times> ((u32 \<times> u64) \<Rightarrow> nat option)) option option" where
  "build_chained_fixups ctx =
     do { (fixups, unaligned) \<leftarrow> collect_fixups ctx;
          if \<not> fst (check_pointer_alignment ctx fixups unaligned True) then Some None
          else do { let (imports, ordinals) = import_table fixups;
                    payload \<leftarrow> encode_payload (cc_link ctx) fixups imports;
                    Some (Some (payload, fixups, imports, ordinals)) } }"

subsection \<open>The chains\<close>

definition MAX_CHAIN_STRIDE :: u64 where "MAX_CHAIN_STRIDE = 0xfff * 4"

fun section_chains :: "u64 option \<Rightarrow> u64 list \<Rightarrow> u64 list" where
  "section_chains prev [] = []"
| "section_chains prev (a # addrs) =
     (if case prev of None \<Rightarrow> True | Some p \<Rightarrow> MAX_CHAIN_STRIDE < a - p then a # section_chains (Some a) addrs
      else section_chains (Some a) addrs)"

definition section_chain_starts :: "chain_ctx \<Rightarrow> u32 list option" where
  "section_chain_starts ctx =
     do { (fixups, _) \<leftarrow> collect_fixups ctx;
          let base = ch_addr (lk_hdr (cc_link ctx) ChMachHeader);
          Some (map (\<lambda>a. ucast (a - base)) (concat (map (\<lambda>seg.
            case fixups_between fixups (seg_vmaddr (os_cmd seg)) (seg_vmaddr (os_cmd seg) + seg_vmsize (os_cmd seg)) of
              (lo, hi) \<Rightarrow> section_chains None (map fixup_addr (take (hi - lo) (drop lo fixups)))) (lk_segments (cc_link ctx))))) }"

definition rebase_word :: "u64 \<Rightarrow> u64 \<Rightarrow> u64 option" where
  "rebase_word val target_base =
     (let high8 = drop_bit 56 val;
          target = (val AND 0x00ffffffffffffff) - target_base
      in if drop_bit 36 target \<noteq> 0 then None else Some (target OR push_bit 36 high8))"

definition bind_word :: "nat \<Rightarrow> u64 \<Rightarrow> u64" where
  "bind_word ordinal addend =
     of_nat ordinal OR push_bit 24 (if addend \<le> MAX_INLINE_ADDEND then addend else 0) OR push_bit 63 1"

definition word_trailing_zeros :: "u64 \<Rightarrow> nat" where
  "word_trailing_zeros w = length (takeWhile (\<lambda>i. \<not> bit w i) [0..<64])"

text \<open>A shift takes its distance modulo the width.\<close>

definition chains_to :: "link \<Rightarrow> out_segment \<Rightarrow> u64 \<Rightarrow> u64 \<Rightarrow> bool" where
  "chains_to ctx seg addr nxt \<longleftrightarrow>
     (let vmaddr = seg_vmaddr (os_cmd seg);
          page_shift = word_trailing_zeros (chain_page_size ctx) mod 64
      in if la_fixup_chains_section (lk_args ctx) then nxt - addr \<le> MAX_CHAIN_STRIDE
         else drop_bit page_shift (nxt - vmaddr) = drop_bit page_shift (addr - vmaddr))"

definition fixup_word :: "chain_ctx \<Rightarrow> u64 \<Rightarrow> fixup \<Rightarrow> u64 \<Rightarrow> u64 option" where
  "fixup_word ctx target_base f val =
     (case f of
        (_, Some s, addend) \<Rightarrow> map_option (\<lambda>ordinal. bind_word ordinal addend) (cc_ordinals ctx (s, table_addend addend))
      | (_, None, _) \<Rightarrow> rebase_word val target_base)"

text \<open>The distance to the next fixup of the chain, in strides.\<close>

definition chain_link :: "link \<Rightarrow> out_segment \<Rightarrow> u64 \<Rightarrow> fixup list \<Rightarrow> u64" where
  "chain_link ctx seg addr fx =
     (case fx of
        f # _ \<Rightarrow> if chains_to ctx seg addr (fixup_addr f) then (fixup_addr f - addr) div 4 else 0
      | [] \<Rightarrow> 0)"

definition fixup_off :: "out_segment \<Rightarrow> fixup \<Rightarrow> nat" where
  "fixup_off seg f = unat (seg_fileoff (os_cmd seg) + (fixup_addr f - seg_vmaddr (os_cmd seg)))"

text \<open>The loop over a segment's fixups.\<close>

fun write_chain :: "chain_ctx \<Rightarrow> u64 \<Rightarrow> out_segment \<Rightarrow> fixup list \<Rightarrow> bytes \<Rightarrow> bytes option" where
  "write_chain ctx target_base seg [] buf = Some buf"
| "write_chain ctx target_base seg (f # fx) buf =
     (if fixup_addr f mod 4 \<noteq> 0 then None
      else do { bs \<leftarrow> slice_at buf (fixup_off seg f) 8;
                word \<leftarrow> fixup_word ctx target_base f (from_le bs);
                buf \<leftarrow> copy_at buf (fixup_off seg f) (le_bytes 8 (word OR push_bit 51 (chain_link (cc_link ctx) seg (fixup_addr f) fx)));
                write_chain ctx target_base seg fx buf })"

fun write_chains :: "chain_ctx \<Rightarrow> u64 \<Rightarrow> out_segment list \<Rightarrow> bytes \<Rightarrow> bytes option" where
  "write_chains ctx target_base [] buf = Some buf"
| "write_chains ctx target_base (seg # segs) buf =
     do { fx \<leftarrow> segment_fixups (cc_fixups ctx) seg;
          buf \<leftarrow> write_chain ctx target_base seg fx buf;
          write_chains ctx target_base segs buf }"

definition chain_target_base :: "link \<Rightarrow> u64" where
  "chain_target_base ctx = (if pointer_format ctx = DYLD_CHAINED_PTR_64_OFFSET then ch_addr (lk_hdr ctx ChMachHeader) else 0)"

definition write_fixup_chains :: "chain_ctx \<Rightarrow> bytes \<Rightarrow> bytes option" where
  "write_fixup_chains ctx buf = write_chains ctx (chain_target_base (cc_link ctx)) (lk_segments (cc_link ctx)) buf"

subsection \<open>dyld's side\<close>

datatype dyld_fixup = DBind nat u64 | DRebase u64 u64

definition decode_word :: "u64 \<Rightarrow> dyld_fixup" where
  "decode_word w =
     (if bit w 63 then DBind (unat (w AND 0xffffff)) (drop_bit 24 w AND 0xff)
      else DRebase (w AND 0xfffffffff) (drop_bit 36 w AND 0xff))"

text \<open>A chain from an offset of the image on, for at most so many fixups.\<close>

fun dyld_walk :: "nat \<Rightarrow> bytes \<Rightarrow> nat \<Rightarrow> (nat \<times> dyld_fixup) list option" where
  "dyld_walk 0 buf off = None"
| "dyld_walk (Suc n) buf off =
     do { bs \<leftarrow> slice_at buf off 8;
          let w = (from_le bs :: u64);
          let stride = unat (drop_bit 51 w AND 0xfff);
          if stride = 0 then Some [(off, decode_word w)]
          else map_option ((#) (off, decode_word w)) (dyld_walk n buf (off + 4 * stride)) }"

definition dyld16 :: "bytes \<Rightarrow> nat \<Rightarrow> nat option" where
  "dyld16 buf off = map_option (\<lambda>bs. unat (from_le bs :: u16)) (slice_at buf off 2)"

definition dyld32 :: "bytes \<Rightarrow> nat \<Rightarrow> nat option" where
  "dyld32 buf off = map_option (\<lambda>bs. unat (from_le bs :: u32)) (slice_at buf off 4)"

text \<open>The page size and the page starts of a segment, if it has any.\<close>

definition dyld_starts :: "bytes \<Rightarrow> nat \<Rightarrow> (nat \<times> nat list) option option" where
  "dyld_starts payload k =
     do { starts \<leftarrow> dyld32 payload 4;
          info \<leftarrow> dyld32 payload (starts + 4 + 4 * k);
          if info = 0 then Some None
          else do { page_size \<leftarrow> dyld16 payload (starts + info + 4);
                    pages \<leftarrow> dyld16 payload (starts + info + 20);
                    offs \<leftarrow> those (map (\<lambda>i. dyld16 payload (starts + info + 22 + 2 * i)) [0..<pages]);
                    Some (Some (page_size, offs)) } }"

text \<open>All the fixups dyld applies to a segment; a page of 16 KiB has at most 4096 strides.\<close>

definition dyld_segment :: "bytes \<Rightarrow> bytes \<Rightarrow> nat \<Rightarrow> nat \<Rightarrow> (nat \<times> dyld_fixup) list option" where
  "dyld_segment payload buf fileoff k =
     do { starts \<leftarrow> dyld_starts payload k;
          case starts of
            None \<Rightarrow> Some []
          | Some (page_size, offs) \<Rightarrow>
              map_option concat (those (map (\<lambda>(i, off).
                if off = 0xffff then Some [] else dyld_walk 4096 buf (fileoff + i * page_size + off)) (enumerate 0 offs))) }"

subsection \<open>Words\<close>

lemma low_masks: "(0xffffff :: u64) = mask 24" "(0xff :: u64) = mask 8" "(0xfff :: u64) = mask 12" "(0xfffffffff :: u64) = mask 36"
  "(0x00ffffffffffffff :: u64) = mask 56"
  by (simp_all add: mask_eq_exp_minus_1)

lemma word_link:
  assumes "w AND push_bit 51 (mask 12) = (0 :: u64)" and "k < 2 ^ 12"
  shows "drop_bit 51 (w OR push_bit 51 k) AND 0xfff = k"
proof (rule bit_word_eqI)
  fix n assume n: "n < LENGTH(64)"
  have "bit (w AND push_bit 51 (mask 12)) (51 + n) = False" unfolding assms(1) by simp
  then have "n < 12 \<Longrightarrow> \<not> bit w (51 + n)" by (auto simp: bit_simps)
  moreover have "bit k n \<Longrightarrow> n < 12" using bit_less_exp [OF assms(2)] .
  ultimately show "bit (drop_bit 51 (w OR push_bit 51 k) AND 0xfff) n = bit k n"
    unfolding low_masks by (auto simp: bit_simps)
qed

lemma decode_bind:
  assumes "o' < 2 ^ 24" and "k < (2 ^ 12 :: u64)"
  shows "decode_word (bind_word o' addend OR push_bit 51 k) = DBind o' (if addend \<le> MAX_INLINE_ADDEND then addend else 0)"
    and "drop_bit 51 (bind_word o' addend OR push_bit 51 k) AND 0xfff = k"
proof -
  define a where "a = (if addend \<le> MAX_INLINE_ADDEND then addend else 0)"
  have "a \<le> 255" by (simp add: a_def MAX_INLINE_ADDEND_def)
  then have "a < 2 ^ 8" by (rule order_le_less_trans) simp
  note a = bit_less_exp [OF this]
  have "(of_nat o' :: u64) < 2 ^ 24" using assms(1) by (simp add: word_less_nat_alt unat_of_nat_small)
  note o = bit_less_exp [OF this]
  note k = bit_less_exp [OF assms(2)]
  obtain p where p: "p = (push_bit 63 1 :: u64)" by blast
  have pn: "n < 64 \<Longrightarrow> bit p n \<longleftrightarrow> n = 63" for n unfolding p by (subst bit_push_bit_iff) (auto simp: bit_1_iff)
  have w: "bind_word o' addend = of_nat o' OR push_bit 24 a OR p" by (simp add: bind_word_def a_def p)
  show "drop_bit 51 (bind_word o' addend OR push_bit 51 k) AND 0xfff = k"
    by (rule word_link [OF _ assms(2)], unfold w, rule bit_word_eqI) (auto simp: bit_or_iff bit_and_iff bit_push_bit_iff bit_mask_iff pn dest!: a o)
  have "bit (bind_word o' addend OR push_bit 51 k) 63" by (simp add: w bit_or_iff pn)
  moreover have "(bind_word o' addend OR push_bit 51 k) AND mask 24 = of_nat o'"
    unfolding w by (rule bit_word_eqI) (auto simp: bit_or_iff bit_and_iff bit_push_bit_iff bit_mask_iff pn dest: o)
  moreover have "drop_bit 24 (bind_word o' addend OR push_bit 51 k) AND mask 8 = a"
    unfolding w by (rule bit_word_eqI) (auto simp: bit_or_iff bit_and_iff bit_push_bit_iff bit_mask_iff bit_drop_bit_eq pn dest: a o)
  moreover have "unat (of_nat o' :: u64) = o'" using assms(1) by (simp add: unat_of_nat_small)
  ultimately show "decode_word (bind_word o' addend OR push_bit 51 k) = DBind o' (if addend \<le> MAX_INLINE_ADDEND then addend else 0)"
    by (simp add: decode_word_def low_masks a_def)
qed

lemma decode_rebase:
  assumes "rebase_word val base = Some w" and "k < (2 ^ 12 :: u64)"
  shows "decode_word (w OR push_bit 51 k) = DRebase ((val AND mask 56) - base) (drop_bit 56 val)"
    and "drop_bit 51 (w OR push_bit 51 k) AND 0xfff = k"
proof -
  define t where "t = (val AND mask 56) - base"
  have t0: "drop_bit 36 t = 0" and w: "w = t OR push_bit 36 (drop_bit 56 val)"
    using assms(1) by (simp_all add: rebase_word_def low_masks t_def Let_def split: if_splits)
  have t: "bit t n \<Longrightarrow> n < 36" for n
  proof (rule ccontr)
    assume "bit t n" "\<not> n < 36"
    then have "bit (drop_bit 36 t) (n - 36)" by (simp add: bit_simps)
    then show False unfolding t0 by simp
  qed
  have v: "bit val n \<Longrightarrow> n < 64" for n using bit_imp_le_length by fastforce
  note k = bit_less_exp [OF assms(2)]
  show "drop_bit 51 (w OR push_bit 51 k) AND 0xfff = k"
    by (rule word_link [OF _ assms(2)], unfold w, rule bit_word_eqI) (use t v in \<open>fastforce simp: bit_simps\<close>)
  have "\<not> bit (w OR push_bit 51 k) 63" unfolding w using t [of 63] k [of 12] v [of 83] by (auto simp: bit_simps)
  moreover have "(w OR push_bit 51 k) AND mask 36 = t"
    unfolding w by (rule bit_word_eqI) (use t in \<open>auto simp: bit_simps\<close>)
  moreover have "drop_bit 36 (w OR push_bit 51 k) AND mask 8 = drop_bit 56 val"
    unfolding w by (rule bit_word_eqI) (use t v k in \<open>fastforce simp: bit_simps\<close>)
  ultimately show "decode_word (w OR push_bit 51 k) = DRebase ((val AND mask 56) - base) (drop_bit 56 val)"
    by (simp add: decode_word_def low_masks t_def)
qed

subsection \<open>What the loop over a segment writes\<close>

abbreviation apart :: "nat \<Rightarrow> nat \<Rightarrow> bool" where "apart a b \<equiv> a + 8 \<le> b \<or> b + 8 \<le> a"

text \<open>Every slot of \<open>buf'\<close> holds the word for what \<open>buf\<close> held in it.\<close>

fun chain_written :: "chain_ctx \<Rightarrow> u64 \<Rightarrow> out_segment \<Rightarrow> bytes \<Rightarrow> bytes \<Rightarrow> fixup list \<Rightarrow> bool" where
  "chain_written ctx base seg buf buf' [] \<longleftrightarrow> True"
| "chain_written ctx base seg buf buf' (f # fx) \<longleftrightarrow>
     fixup_addr f mod 4 = 0 \<and>
     (\<exists>bs w. slice_at buf (fixup_off seg f) 8 = Some bs \<and> fixup_word ctx base f (from_le bs) = Some w \<and>
        slice_at buf' (fixup_off seg f) 8 = Some (le_bytes 8 (w OR push_bit 51 (chain_link (cc_link ctx) seg (fixup_addr f) fx)))) \<and>
     chain_written ctx base seg buf buf' fx"

lemma chain_written_cong:
  assumes "\<And>f. f \<in> set fx \<Longrightarrow> slice_at a (fixup_off seg f) 8 = slice_at a' (fixup_off seg f) 8"
    and "\<And>f. f \<in> set fx \<Longrightarrow> slice_at b (fixup_off seg f) 8 = slice_at b' (fixup_off seg f) 8"
  shows "chain_written ctx base seg a b fx = chain_written ctx base seg a' b' fx"
  using assms by (induction fx) simp_all

lemma write_chain_ok:
  "write_chain ctx base seg fx buf = Some buf' \<Longrightarrow> sorted_wrt apart (map (fixup_off seg) fx) \<Longrightarrow>
   length buf' = length buf \<and>
   (\<forall>p n. (\<forall>f \<in> set fx. p + n \<le> fixup_off seg f \<or> fixup_off seg f + 8 \<le> p) \<longrightarrow> slice_at buf' p n = slice_at buf p n) \<and>
   chain_written ctx base seg buf buf' fx"
proof (induction fx arbitrary: buf)
  case (Cons f fx)
  let ?o = "fixup_off seg f"
  obtain bs w b1 where f: "fixup_addr f mod 4 = 0" "slice_at buf ?o 8 = Some bs" "fixup_word ctx base f (from_le bs) = Some w"
    and c: "copy_at buf ?o (le_bytes 8 (w OR push_bit 51 (chain_link (cc_link ctx) seg (fixup_addr f) fx))) = Some b1"
    and r: "write_chain ctx base seg fx b1 = Some buf'"
    using Cons.prems(1) by (auto split: if_splits bind_splits)
  have ap: "\<forall>g \<in> set fx. apart ?o (fixup_off seg g)" and srt: "sorted_wrt apart (map (fixup_off seg) fx)" using Cons.prems(2) by auto
  note IH = Cons.IH [OF r srt]
  have own: "slice_at buf' ?o 8 = Some (le_bytes 8 (w OR push_bit 51 (chain_link (cc_link ctx) seg (fixup_addr f) fx)))"
    using IH ap copy_then_slice [OF c] by auto
  have "chain_written ctx base seg b1 buf' fx = chain_written ctx base seg buf buf' fx"
    by (rule chain_written_cong) (use ap copy_then_slice_apart [OF c] in auto)
  then have w: "chain_written ctx base seg buf buf' (f # fx)" using IH f own by auto
  have "slice_at buf' p n = slice_at buf p n" if "\<forall>g \<in> set (f # fx). p + n \<le> fixup_off seg g \<or> fixup_off seg g + 8 \<le> p" for p n
  proof -
    have "slice_at buf' p n = slice_at b1 p n" using IH that by simp
    also have "\<dots> = slice_at buf p n" by (rule copy_then_slice_apart [OF c]) (use that in simp)
    finally show ?thesis .
  qed
  then show ?case using IH w copy_at_length [OF c] by (intro conjI allI impI) simp_all
qed simp

subsection \<open>The walk of a chain\<close>

fun chain_of :: "link \<Rightarrow> out_segment \<Rightarrow> fixup list \<Rightarrow> fixup list" where
  "chain_of ctx seg [] = []"
| "chain_of ctx seg (f # fx) =
     f # (case fx of [] \<Rightarrow> [] | g # _ \<Rightarrow> if chains_to ctx seg (fixup_addr f) (fixup_addr g) then chain_of ctx seg fx else [])"

text \<open>A fixup as dyld sees it, \<open>buf\<close> being the image before the chains are written.\<close>

definition dyld_view :: "chain_ctx \<Rightarrow> u64 \<Rightarrow> out_segment \<Rightarrow> bytes \<Rightarrow> fixup \<Rightarrow> dyld_fixup" where
  "dyld_view ctx base seg buf f =
     (case f of
        (_, Some s, addend) \<Rightarrow> DBind (the (cc_ordinals ctx (s, table_addend addend))) (if addend \<le> MAX_INLINE_ADDEND then addend else 0)
      | (_, None, _) \<Rightarrow>
          (let val = from_le (the (slice_at buf (fixup_off seg f) 8))
           in DRebase ((val AND mask 56) - base) (drop_bit 56 val)))"

definition seg_pos :: "out_segment \<Rightarrow> fixup \<Rightarrow> nat" where
  "seg_pos seg f = unat (fixup_addr f) - unat (seg_vmaddr (os_cmd seg))"

definition in_segment :: "out_segment \<Rightarrow> fixup \<Rightarrow> bool" where
  "in_segment seg f \<longleftrightarrow> seg_vmaddr (os_cmd seg) \<le> fixup_addr f \<and>
     unat (seg_fileoff (os_cmd seg)) + seg_pos seg f < 2 ^ 64"

lemma in_segment_off:
  assumes "in_segment seg f"
  shows "fixup_off seg f = unat (seg_fileoff (os_cmd seg)) + seg_pos seg f"
    and "unat (fixup_addr f - seg_vmaddr (os_cmd seg)) = seg_pos seg f"
proof -
  show e: "unat (fixup_addr f - seg_vmaddr (os_cmd seg)) = seg_pos seg f"
    using assms by (simp add: in_segment_def seg_pos_def unat_sub word_le_nat_alt)
  then show "fixup_off seg f = unat (seg_fileoff (os_cmd seg)) + seg_pos seg f"
    using assms by (simp add: fixup_off_def in_segment_def unat_plus_small)
qed

definition pages_ok :: "link \<Rightarrow> bool" where
  "pages_ok ctx \<longleftrightarrow> \<not> la_fixup_chains_section (lk_args ctx) \<and> chain_page_size ctx \<in> {0x1000, 0x4000}"

lemma page_shift:
  assumes "pages_ok ctx"
  obtains k where "k \<in> {12, 14}" "word_trailing_zeros (chain_page_size ctx) mod 64 = k" "unat (chain_page_size ctx) = 2 ^ k"
proof -
  have "word_trailing_zeros 0x1000 = 12" "word_trailing_zeros 0x4000 = 14" by code_simp+
  then show thesis using assms that [of 12] that [of 14] by (auto simp: pages_ok_def)
qed

lemma chains_to_page:
  assumes "pages_ok ctx" and "in_segment seg f" "in_segment seg g"
  shows "chains_to ctx seg (fixup_addr f) (fixup_addr g) \<longleftrightarrow>
    seg_pos seg g div unat (chain_page_size ctx) = seg_pos seg f div unat (chain_page_size ctx)"
proof -
  obtain k where k: "k \<in> {12, 14}" "word_trailing_zeros (chain_page_size ctx) mod 64 = k" "unat (chain_page_size ctx) = 2 ^ k"
    by (rule page_shift [OF assms(1)])
  have "chains_to ctx seg (fixup_addr f) (fixup_addr g) \<longleftrightarrow>
      unat (drop_bit k (fixup_addr g - seg_vmaddr (os_cmd seg))) = unat (drop_bit k (fixup_addr f - seg_vmaddr (os_cmd seg)))"
    using assms(1) by (simp add: chains_to_def pages_ok_def k(2) word_unat_eq_iff Let_def)
  moreover have "unat (drop_bit k (fixup_addr h - seg_vmaddr (os_cmd seg))) = seg_pos seg h div 2 ^ k" if "in_segment seg h" for h
    unfolding unat_drop_bit_eq in_segment_off(2) [OF that] by (rule drop_bit_eq_div)
  ultimately show ?thesis using assms(2,3) k(3) by simp
qed

lemma link_value:
  fixes fx
  assumes "pages_ok ctx" "in_segment seg f" "in_segment seg g" "seg_pos seg f < seg_pos seg g"
    and "fixup_addr f mod 4 = 0" "fixup_addr g mod 4 = 0"
    and c: "chains_to ctx seg (fixup_addr f) (fixup_addr g)"
  defines "k \<equiv> chain_link ctx seg (fixup_addr f) (g # fx)"
  shows "k < 2 ^ 12" and "unat k \<noteq> 0" and "fixup_off seg f + 4 * unat k = fixup_off seg g"
proof -
  let ?a = "unat (fixup_addr f)" and ?b = "unat (fixup_addr g)"
  have lt: "?a < ?b" and d: "?b - ?a = seg_pos seg g - seg_pos seg f" using assms(2,3,4) by (auto simp: seg_pos_def in_segment_def word_le_nat_alt)
  have ud: "unat (fixup_addr g - fixup_addr f) = ?b - ?a" using lt by (simp add: unat_sub word_le_nat_alt)
  have "unat (fixup_addr f mod 4) = ?a mod 4" "unat (fixup_addr g mod 4) = ?b mod 4" by (simp_all add: unat_mod)
  then have m: "?a mod 4 = 0" "?b mod 4 = 0" using assms(5,6) by simp_all
  have k: "unat k = (?b - ?a) div 4" using c by (simp add: k_def chain_link_def unat_div ud)
  have "4 dvd ?b - ?a" using m by (simp add: dvd_eq_mod_eq_0 [symmetric])
  then have k4: "4 * unat k = ?b - ?a" by (simp add: k)
  then show "unat k \<noteq> 0" using lt by auto
  show "fixup_off seg f + 4 * unat k = fixup_off seg g"
    using k4 d assms(4) in_segment_off(1) [OF assms(2)] in_segment_off(1) [OF assms(3)] by simp
  have "seg_pos seg g div unat (chain_page_size ctx) = seg_pos seg f div unat (chain_page_size ctx)" using chains_to_page [OF assms(1-3)] c by blast
  moreover obtain e where e: "e \<in> {12, 14}" "unat (chain_page_size ctx) = 2 ^ e" by (rule page_shift [OF assms(1)])
  ultimately have q: "seg_pos seg g div 2 ^ e = seg_pos seg f div 2 ^ e" by simp
  have "seg_pos seg g = 2 ^ e * (seg_pos seg g div 2 ^ e) + seg_pos seg g mod 2 ^ e" "2 ^ e * (seg_pos seg f div 2 ^ e) \<le> seg_pos seg f"
    "seg_pos seg g mod 2 ^ e < 2 ^ e" by simp_all
  then have "seg_pos seg g < seg_pos seg f + 2 ^ e" unfolding q by linarith
  then have "4 * unat k < 2 ^ 14" using k4 d e(1) by auto
  then show "k < 2 ^ 12" by (simp add: word_less_nat_alt)
qed

definition ordinals_ok :: "chain_ctx \<Rightarrow> bool" where
  "ordinals_ok ctx \<longleftrightarrow> (\<forall>o' \<in> ran (cc_ordinals ctx). o' < 2 ^ 24)"

lemma written_word:
  assumes "chain_written ctx base seg buf buf' (f # fx)" and "ordinals_ok ctx" and "chain_link (cc_link ctx) seg (fixup_addr f) fx < 2 ^ 12"
  obtains w where "slice_at buf' (fixup_off seg f) 8 = Some (le_bytes 8 (w :: u64))" "decode_word w = dyld_view ctx base seg buf f"
    "drop_bit 51 w AND 0xfff = chain_link (cc_link ctx) seg (fixup_addr f) fx"
proof -
  let ?k = "chain_link (cc_link ctx) seg (fixup_addr f) fx"
  obtain bs w where w: "slice_at buf (fixup_off seg f) 8 = Some bs" "fixup_word ctx base f (from_le bs) = Some w"
    "slice_at buf' (fixup_off seg f) 8 = Some (le_bytes 8 (w OR push_bit 51 ?k))"
    using assms(1) by auto
  obtain a s d where f: "f = (a, s, d)" by (cases f)
  have "decode_word (w OR push_bit 51 ?k) = dyld_view ctx base seg buf f \<and> drop_bit 51 (w OR push_bit 51 ?k) AND 0xfff = ?k"
  proof (cases s)
    case None
    then have "rebase_word (from_le bs) base = Some w" using w(2) f by (simp add: fixup_word_def)
    from decode_rebase [OF this assms(3)] show ?thesis using w(1) f None by (simp add: dyld_view_def Let_def)
  next
    case (Some t)
    then obtain o' where o: "cc_ordinals ctx (t, table_addend d) = Some o'" "w = bind_word o' d" using w(2) f by (auto simp: fixup_word_def)
    then have "o' < 2 ^ 24" using assms(2) by (auto simp: ordinals_ok_def ran_def)
    from decode_bind [OF this assms(3), of d] show ?thesis using o f Some by (simp add: dyld_view_def)
  qed
  then show thesis using that [of "w OR push_bit 51 ?k"] w(3) by blast
qed

lemma walk_chain:
  assumes "pages_ok (cc_link ctx)" and "ordinals_ok ctx"
  shows "chain_written ctx base seg buf buf' fx \<Longrightarrow> fx \<noteq> [] \<Longrightarrow> \<forall>f \<in> set fx. in_segment seg f \<Longrightarrow>
    sorted_wrt (\<lambda>f g. seg_pos seg f < seg_pos seg g) fx \<Longrightarrow> length (chain_of (cc_link ctx) seg fx) \<le> n \<Longrightarrow>
    dyld_walk n buf' (fixup_off seg (hd fx)) = Some (map (\<lambda>f. (fixup_off seg f, dyld_view ctx base seg buf f)) (chain_of (cc_link ctx) seg fx))"
proof (induction fx arbitrary: n)
  case (Cons f fx)
  obtain m where n: "n = Suc m" using Cons.prems(5) by (cases n) auto
  let ?k = "chain_link (cc_link ctx) seg (fixup_addr f) fx"
  show ?case
  proof (cases "fx \<noteq> [] \<and> chains_to (cc_link ctx) seg (fixup_addr f) (fixup_addr (hd fx))")
    case True
    then obtain g gx where fx: "fx = g # gx" "chains_to (cc_link ctx) seg (fixup_addr f) (fixup_addr g)" by (cases fx) auto
    have k: "?k < 2 ^ 12" "unat ?k \<noteq> 0" "fixup_off seg f + 4 * unat ?k = fixup_off seg g"
      unfolding fx(1) by (rule link_value [OF assms(1)]; use Cons.prems fx in simp)+
    obtain w where w: "slice_at buf' (fixup_off seg f) 8 = Some (le_bytes 8 (w :: u64))" "decode_word w = dyld_view ctx base seg buf f"
      "drop_bit 51 w AND 0xfff = ?k" by (rule written_word [OF Cons.prems(1) assms(2) k(1)])
    have "dyld_walk m buf' (fixup_off seg (hd fx)) = Some (map (\<lambda>f. (fixup_off seg f, dyld_view ctx base seg buf f)) (chain_of (cc_link ctx) seg fx))"
      by (rule Cons.IH) (use Cons.prems fx n in simp_all)
    then show ?thesis using w k fx by (simp add: n)
  next
    case False
    then have k: "?k = 0" and c: "chain_of (cc_link ctx) seg (f # fx) = [f]" by (cases fx; auto simp: chain_link_def)+
    obtain w where w: "slice_at buf' (fixup_off seg f) 8 = Some (le_bytes 8 (w :: u64))" "decode_word w = dyld_view ctx base seg buf f"
      "drop_bit 51 w AND 0xfff = ?k" by (rule written_word [OF Cons.prems(1) assms(2)]) (simp add: k)
    then show ?thesis unfolding c using k by (simp add: n)
  qed
qed simp

subsection \<open>The fixups of a segment\<close>

definition fixups_of :: "fixup list \<Rightarrow> out_segment \<Rightarrow> fixup list" where
  "fixups_of fixups seg = (case segment_fixups fixups seg of Some fx \<Rightarrow> fx | None \<Rightarrow> [])"

definition spaced :: "fixup list \<Rightarrow> bool" where
  "spaced fx \<longleftrightarrow> sorted_wrt (\<lambda>f g. unat (fixup_addr f) + 8 \<le> unat (fixup_addr g)) fx"

definition segment_small :: "out_segment \<Rightarrow> bool" where
  "segment_small seg \<longleftrightarrow>
     unat (seg_vmaddr (os_cmd seg)) + unat (seg_vmsize (os_cmd seg)) \<le> 2 ^ 62 \<and>
     unat (seg_fileoff (os_cmd seg)) + unat (seg_vmsize (os_cmd seg)) \<le> 2 ^ 62"

lemma dropWhile_sorted:
  "sorted_wrt R xs \<Longrightarrow> (\<And>x y. R x y \<Longrightarrow> P y \<Longrightarrow> P x) \<Longrightarrow> x \<in> set (dropWhile P xs) \<Longrightarrow> \<not> P x"
  by (induction xs) (auto split: if_splits)

lemma segment_fixups_ok:
  assumes "spaced fixups" and "segment_small seg"
  shows "segment_fixups fixups seg = Some (fixups_of fixups seg)"
    and "spaced (fixups_of fixups seg)"
    and "f \<in> set (fixups_of fixups seg) \<Longrightarrow> in_segment seg f \<and> seg_pos seg f < unat (seg_vmsize (os_cmd seg)) \<and> f \<in> set fixups"
proof -
  let ?vm = "seg_vmaddr (os_cmd seg)" and ?sz = "seg_vmsize (os_cmd seg)"
  let ?lo = "length (takeWhile (\<lambda>f. fixup_addr f < ?vm) fixups)" and ?hi = "length (takeWhile (\<lambda>f. fixup_addr f < ?vm + ?sz) fixups)"
  have e: "unat (?vm + ?sz) = unat ?vm + unat ?sz" using assms(2) by (simp add: segment_small_def unat_plus_small)
  have longer: "length (takeWhile P xs) \<le> length (takeWhile Q xs)" if "\<And>x. P x \<Longrightarrow> Q x" for P Q and xs :: "fixup list"
    by (induction xs) (use that in auto)
  have le: "?lo \<le> ?hi" by (rule longer) (use e in \<open>simp add: word_less_nat_alt\<close>)
  show s: "segment_fixups fixups seg = Some (fixups_of fixups seg)"
    using le by (simp add: fixups_of_def segment_fixups_def fixups_between_def)
  then have fx: "fixups_of fixups seg = take (?hi - ?lo) (drop ?lo fixups)"
    using le by (simp add: segment_fixups_def fixups_between_def split: if_splits)
  show "spaced (fixups_of fixups seg)" using assms(1) unfolding fx spaced_def by (intro sorted_wrt_take sorted_wrt_drop)
  assume f: "f \<in> set (fixups_of fixups seg)"
  have "fixups_of fixups seg = drop ?lo (take ?hi fixups)" by (simp add: fx drop_take)
  then have "f \<in> set (takeWhile (\<lambda>f. fixup_addr f < ?vm + ?sz) fixups)" using f by (metis in_set_dropD takeWhile_eq_take)
  then have hi: "unat (fixup_addr f) < unat ?vm + unat ?sz" "f \<in> set fixups" using e by (auto dest!: set_takeWhileD simp: word_less_nat_alt)
  have "f \<in> set (dropWhile (\<lambda>f. fixup_addr f < ?vm) fixups)" using f unfolding fx dropWhile_eq_drop by (rule in_set_takeD)
  then have "\<not> fixup_addr f < ?vm" by (rule dropWhile_sorted [OF assms(1) [unfolded spaced_def], rotated]) (auto simp: word_less_nat_alt)
  then show "in_segment seg f \<and> seg_pos seg f < unat ?sz \<and> f \<in> set fixups"
    using hi assms(2) by (auto simp: in_segment_def seg_pos_def segment_small_def word_less_nat_alt word_le_nat_alt)
qed

lemma spaced_pos:
  assumes "spaced fx" and "\<forall>f \<in> set fx. in_segment seg f"
  shows "sorted_wrt (\<lambda>f g. seg_pos seg f + 8 \<le> seg_pos seg g) fx"
  using assms unfolding spaced_def
  by (elim sorted_wrt_mono_rel [rotated]) (auto simp: in_segment_def seg_pos_def word_le_nat_alt)

lemma write_chains_ok:
  "write_chains ctx base segs buf = Some buf' \<Longrightarrow>
   (\<And>seg. seg \<in> set segs \<Longrightarrow> segment_fixups (cc_fixups ctx) seg = Some (fixups_of (cc_fixups ctx) seg)) \<Longrightarrow>
   sorted_wrt apart (concat (map (\<lambda>seg. map (fixup_off seg) (fixups_of (cc_fixups ctx) seg)) segs)) \<Longrightarrow>
   length buf' = length buf \<and>
   (\<forall>p n. (\<forall>seg \<in> set segs. \<forall>f \<in> set (fixups_of (cc_fixups ctx) seg). p + n \<le> fixup_off seg f \<or> fixup_off seg f + 8 \<le> p) \<longrightarrow>
      slice_at buf' p n = slice_at buf p n) \<and>
   (\<forall>seg \<in> set segs. chain_written ctx base seg buf buf' (fixups_of (cc_fixups ctx) seg))"
proof (induction segs arbitrary: buf)
  case (Cons seg segs)
  let ?fx = "fixups_of (cc_fixups ctx) seg"
  obtain b1 where w: "write_chain ctx base seg ?fx buf = Some b1" and r: "write_chains ctx base segs b1 = Some buf'"
    using Cons.prems(1) Cons.prems(2) [of seg] by (auto split: bind_splits)
  have srt: "sorted_wrt apart (map (fixup_off seg) ?fx)"
      "sorted_wrt apart (concat (map (\<lambda>seg. map (fixup_off seg) (fixups_of (cc_fixups ctx) seg)) segs))"
    and ap: "\<And>f s g. f \<in> set ?fx \<Longrightarrow> s \<in> set segs \<Longrightarrow> g \<in> set (fixups_of (cc_fixups ctx) s) \<Longrightarrow> apart (fixup_off seg f) (fixup_off s g)"
    using Cons.prems(3) by (auto simp: sorted_wrt_append)
  note W = write_chain_ok [OF w srt(1)]
  have sub: "segment_fixups (cc_fixups ctx) s = Some (fixups_of (cc_fixups ctx) s)" if "s \<in> set segs" for s using Cons.prems(2) that by simp
  note IH = Cons.IH [OF r sub srt(2)]
  have keep: "slice_at buf' p n = slice_at buf p n"
    if "\<forall>s \<in> set (seg # segs). \<forall>f \<in> set (fixups_of (cc_fixups ctx) s). p + n \<le> fixup_off s f \<or> fixup_off s f + 8 \<le> p" for p n
    using that W IH by simp
  have own: "chain_written ctx base seg buf buf' ?fx"
  proof -
    have "slice_at buf' (fixup_off seg f) 8 = slice_at b1 (fixup_off seg f) 8" if f: "f \<in> set ?fx" for f
    proof -
      have "\<forall>s \<in> set segs. \<forall>g \<in> set (fixups_of (cc_fixups ctx) s). fixup_off seg f + 8 \<le> fixup_off s g \<or> fixup_off s g + 8 \<le> fixup_off seg f"
        using ap f by blast
      then show ?thesis using IH by blast
    qed
    then have "chain_written ctx base seg buf buf' ?fx = chain_written ctx base seg buf b1 ?fx" by (intro chain_written_cong) simp_all
    then show ?thesis using W by blast
  qed
  have "chain_written ctx base s buf buf' (fixups_of (cc_fixups ctx) s)" if s: "s \<in> set segs" for s
  proof -
    have "slice_at b1 (fixup_off s g) 8 = slice_at buf (fixup_off s g) 8" if g: "g \<in> set (fixups_of (cc_fixups ctx) s)" for g
    proof -
      have "\<forall>f \<in> set ?fx. fixup_off s g + 8 \<le> fixup_off seg f \<or> fixup_off seg f + 8 \<le> fixup_off s g" using ap s g by blast
      then show ?thesis using W by blast
    qed
    then have "chain_written ctx base s buf buf' (fixups_of (cc_fixups ctx) s) = chain_written ctx base s b1 buf' (fixups_of (cc_fixups ctx) s)"
      by (intro chain_written_cong) simp_all
    then show ?thesis using IH s by blast
  qed
  moreover have "length buf' = length buf" using W IH by simp
  ultimately show ?case using own keep by simp
qed simp

subsection \<open>Pages\<close>

text \<open>The fixups of page \<open>j\<close>, its start as the payload has it, and the payload's list of them.\<close>

definition page_of :: "out_segment \<Rightarrow> nat \<Rightarrow> nat \<Rightarrow> fixup list \<Rightarrow> fixup list" where
  "page_of seg p j fx = filter (\<lambda>f. seg_pos seg f div p = j) fx"

definition page_start :: "out_segment \<Rightarrow> nat \<Rightarrow> nat \<Rightarrow> fixup list \<Rightarrow> u16" where
  "page_start seg p j fx =
     (case dropWhile (\<lambda>f. seg_pos seg f < j * p) fx of
        f # _ \<Rightarrow> if seg_pos seg f < j * p + p then of_nat (seg_pos seg f - j * p) else DYLD_CHAINED_PTR_START_NONE
      | [] \<Rightarrow> DYLD_CHAINED_PTR_START_NONE)"

lemma dropWhile_dropWhile: "(\<And>x. P x \<Longrightarrow> Q x) \<Longrightarrow> dropWhile Q (dropWhile P xs) = dropWhile Q xs"
  by (induction xs) auto

lemma page_addr:
  assumes "segment_small seg" and "j * unat psz < 2 ^ 63"
  shows "unat (seg_vmaddr (os_cmd seg) + of_nat j * psz) = unat (seg_vmaddr (os_cmd seg)) + j * unat (psz :: u64)"
proof -
  have "unat (of_nat j * psz) = j * unat psz"
  proof (cases "unat psz = 0")
    case True
    then have "psz = 0" by (metis unat_eq_zero)
    then show ?thesis by simp
  next
    case False
    then have "j * 1 \<le> j * unat psz" by (intro mult_le_mono) simp_all
    then have "j \<le> j * unat psz" unfolding mult_1_right .
    then have "j < 2 ^ 63" using assms(2) by (rule le_less_trans)
    then have "unat (of_nat j :: u64) = j" by (intro unat_of_nat_small) simp
    then show ?thesis using assms(2) by (simp add: unat_word_ariths)
  qed
  moreover have "unat (seg_vmaddr (os_cmd seg)) < 2 ^ 63 + 1" using assms(1) by (simp add: segment_small_def)
  ultimately show ?thesis using assms(2) by (subst unat_plus_small) simp_all
qed

lemma write_page_starts_eq:
  assumes small: "segment_small seg" and p: "unat psz \<in> {4096, 16384}"
  shows "\<forall>f \<in> set fx. in_segment seg f \<Longrightarrow> (i + n) * unat psz < 2 ^ 63 \<Longrightarrow>
    write_page_starts (seg_vmaddr (os_cmd seg)) psz i n fx buf =
    buf @ concat (map (\<lambda>j. le_bytes 2 (page_start seg (unat psz) j fx)) [i..<i + n])"
proof (induction n arbitrary: i fx buf)
  case (Suc n)
  let ?vm = "seg_vmaddr (os_cmd seg)" and ?p = "unat psz"
  have b: "i * ?p + ?p < 2 ^ 63" using Suc.prems(2) by (simp add: algebra_simps)
  have a: "unat (?vm + of_nat i * psz) = unat ?vm + i * ?p" by (rule page_addr [OF small]) (use b in simp)
  have "unat ?vm \<le> 2 ^ 63" using small by (simp add: segment_small_def)
  then have a': "unat (?vm + of_nat i * psz + psz) = unat ?vm + (i * ?p + ?p)" using a b by (subst unat_plus_small) simp_all
  have lt: "fixup_addr f < ?vm + of_nat i * psz \<longleftrightarrow> seg_pos seg f < i * ?p"
    and lt': "fixup_addr f < ?vm + of_nat i * psz + psz \<longleftrightarrow> seg_pos seg f < i * ?p + ?p"
    and d: "i * ?p \<le> seg_pos seg f \<Longrightarrow> unat (fixup_addr f - (?vm + of_nat i * psz)) = seg_pos seg f - i * ?p"
    if "in_segment seg f" for f
    using that a a' by (auto simp: word_less_nat_alt word_le_nat_alt in_segment_def seg_pos_def unat_sub)
  let ?fx = "dropWhile (\<lambda>f. seg_pos seg f < i * ?p) fx"
  have e: "dropWhile (\<lambda>f. fixup_addr f < ?vm + of_nat i * psz) fx = ?fx"
    using Suc.prems(1) lt by (intro dropWhile_cong) simp_all
  have mem: "\<forall>f \<in> set ?fx. in_segment seg f" using Suc.prems(1) by (auto dest: set_dropWhileD)
  have "(case ?fx of f # _ \<Rightarrow> if fixup_addr f < ?vm + of_nat i * psz + psz then ucast (fixup_addr f - (?vm + of_nat i * psz))
              else DYLD_CHAINED_PTR_START_NONE | [] \<Rightarrow> DYLD_CHAINED_PTR_START_NONE) = page_start seg ?p i fx"
  proof (cases ?fx)
    case (Cons f gx)
    then have f: "in_segment seg f" "i * ?p \<le> seg_pos seg f" using mem hd_dropWhile [of "\<lambda>f. seg_pos seg f < i * ?p" fx] by auto
    have "(ucast (fixup_addr f - (?vm + of_nat i * psz)) :: u16) = of_nat (seg_pos seg f - i * ?p)"
      by (simp flip: d [OF f])
    then show ?thesis using Cons lt' [OF f(1)] by (simp add: page_start_def)
  next
    case Nil
    then show ?thesis unfolding page_start_def Nil by simp
  qed
  then have step: "write_page_starts ?vm psz i (Suc n) fx buf = write_page_starts ?vm psz (i + 1) n ?fx (push16 buf (page_start seg ?p i fx))"
    by (simp add: e Let_def del: One_nat_def)
  have later: "page_start seg ?p j ?fx = page_start seg ?p j fx" if "i < j" for j
  proof -
    have "i * ?p \<le> j * ?p" using that by simp
    then have "dropWhile (\<lambda>f. seg_pos seg f < j * ?p) ?fx = dropWhile (\<lambda>f. seg_pos seg f < j * ?p) fx"
      by (intro dropWhile_dropWhile) (erule less_le_trans)
    then show ?thesis by (simp add: page_start_def)
  qed
  have "(i + 1 + n) * ?p < 2 ^ 63" using Suc.prems(2) by simp
  note IH = Suc.IH [OF mem this]
  have "[i..<i + Suc n] = i # [i + 1..<i + 1 + n]" by (simp add: upt_rec)
  moreover have "map (\<lambda>j. le_bytes 2 (page_start seg ?p j ?fx)) [i + 1..<i + 1 + n] = map (\<lambda>j. le_bytes 2 (page_start seg ?p j fx)) [i + 1..<i + 1 + n]"
    by (intro map_cong refl arg_cong [where f = "le_bytes 2"] later) auto
  ultimately show ?case unfolding step IH by (simp only: list.map concat.simps push16_def append_assoc)
qed simp

text \<open>The page's chain, from its start on, is the page's fixups.\<close>

lemma dropWhile_filter_sorted:
  "sorted_wrt R xs \<Longrightarrow> (\<And>x y. R x y \<Longrightarrow> P y \<Longrightarrow> P x) \<Longrightarrow> dropWhile P xs = filter (\<lambda>x. \<not> P x) xs"
proof (induction xs)
  case (Cons x xs)
  show ?case
  proof (cases "P x")
    case False
    then have "\<forall>y \<in> set xs. \<not> P y" using Cons.prems by auto
    then show ?thesis using False by simp
  qed (use Cons in simp)
qed simp

lemma chain_of_page:
  assumes "pages_ok ctx"
  defines "p \<equiv> unat (chain_page_size ctx)"
  shows "sorted_wrt (\<lambda>f g. seg_pos seg f \<le> seg_pos seg g) fx \<Longrightarrow> \<forall>f \<in> set fx. in_segment seg f \<Longrightarrow>
    fx \<noteq> [] \<Longrightarrow> seg_pos seg (hd fx) div p = j \<Longrightarrow> chain_of ctx seg fx = page_of seg p j fx"
proof (induction fx)
  case (Cons f fx)
  show ?case
  proof (cases fx)
    case Nil
    then show ?thesis using Cons.prems(4) by (simp add: page_of_def)
  next
    case (Cons g gx)
    have c: "chains_to ctx seg (fixup_addr f) (fixup_addr g) \<longleftrightarrow> seg_pos seg g div p = j"
      using chains_to_page [OF assms(1)] Cons.prems Cons by (simp add: p_def)
    show ?thesis
    proof (cases "seg_pos seg g div p = j")
      case True
      then have "chain_of ctx seg fx = page_of seg p j fx" using Cons.IH Cons.prems Cons by simp
      then show ?thesis using c True Cons Cons.prems(4) by (simp add: page_of_def)
    next
      case False
      have "seg_pos seg h div p \<noteq> j" if h: "h \<in> set fx" for h
      proof -
        have "seg_pos seg g \<le> seg_pos seg h" "seg_pos seg f \<le> seg_pos seg g" using h Cons.prems(1) Cons by auto
        then have "seg_pos seg g div p \<le> seg_pos seg h div p" "j \<le> seg_pos seg g div p" using Cons.prems(4) by (auto intro: div_le_mono)
        then show ?thesis using False by simp
      qed
      then have "filter (\<lambda>f. seg_pos seg f div p = j) fx = []" by simp
      then show ?thesis using c False Cons Cons.prems(4) by (simp add: page_of_def)
    qed
  qed
qed simp

lemma page_start_cases:
  assumes srt: "sorted_wrt (\<lambda>f g. seg_pos seg f + 8 \<le> seg_pos seg g) fx" and p: "p \<in> {4096, 16384}"
  shows "page_of seg p j fx = [] \<and> page_start seg p j fx = 0xffff \<or>
    (let rest = dropWhile (\<lambda>f. seg_pos seg f < j * p) fx
     in rest \<noteq> [] \<and> seg_pos seg (hd rest) div p = j \<and> page_of seg p j fx = page_of seg p j rest \<and>
        unat (page_start seg p j fx) = seg_pos seg (hd rest) - j * p \<and> j * p \<le> seg_pos seg (hd rest) \<and> page_start seg p j fx \<noteq> 0xffff)"
proof -
  let ?rest = "dropWhile (\<lambda>f. seg_pos seg f < j * p) fx"
  have r: "?rest = filter (\<lambda>f. \<not> seg_pos seg f < j * p) fx" by (rule dropWhile_filter_sorted [OF srt]) simp
  have pg: "seg_pos seg f div p = j \<longleftrightarrow> j * p \<le> seg_pos seg f \<and> seg_pos seg f < j * p + p" for f
    using p div_nat_eqI [of p j "seg_pos seg f"] div_times_less_eq_dividend [of "seg_pos seg f" p] dividend_less_div_times [of p "seg_pos seg f"]
    by (auto simp: algebra_simps)
  have sub: "page_of seg p j fx = page_of seg p j ?rest" by (auto simp: page_of_def r pg intro!: filter_cong)
  show ?thesis
  proof (cases ?rest)
    case Nil
    have "page_of seg p j fx = []" unfolding sub Nil by (simp add: page_of_def)
    moreover have "page_start seg p j fx = 0xffff" unfolding page_start_def Nil by simp
    ultimately show ?thesis by blast
  next
    case (Cons f gx)
    then have f: "f \<in> set ?rest" and rest: "?rest = f # gx" by simp_all
    from f have lo: "j * p \<le> seg_pos seg f" unfolding r by simp
    have srt': "sorted_wrt (\<lambda>f g. seg_pos seg f + 8 \<le> seg_pos seg g) (f # gx)" using sorted_wrt_filter [OF srt] r Cons by metis
    show ?thesis
    proof (cases "seg_pos seg f < j * p + p")
      case True
      then have small: "seg_pos seg f - j * p < 16384" using lo p by auto
      then have s: "unat (of_nat (seg_pos seg f - j * p) :: u16) = seg_pos seg f - j * p" by (intro unat_of_nat_small) simp
      have "(of_nat (seg_pos seg f - j * p) :: u16) \<noteq> 0xffff"
      proof
        assume "(of_nat (seg_pos seg f - j * p) :: u16) = 0xffff"
        from arg_cong [OF this, of unat] show False using s small by simp
      qed
      then show ?thesis using sub lo True s by (simp add: page_start_def rest pg)
    next
      case False
      then have "\<forall>g \<in> set (f # gx). \<not> (j * p \<le> seg_pos seg g \<and> seg_pos seg g < j * p + p)" using srt' by fastforce
      then have "page_of seg p j (f # gx) = []" unfolding page_of_def pg by (intro filter_False) simp
      then show ?thesis using sub False rest by (simp add: page_start_def)
    qed
  qed
qed

lemma chain_written_dropWhile: "chain_written ctx base seg buf buf' fx \<Longrightarrow> chain_written ctx base seg buf buf' (dropWhile P fx)"
  by (induction fx) auto

lemma spaced_length:
  "sorted_wrt (\<lambda>f g. h f + 8 \<le> (h g :: nat)) (x # xs) \<Longrightarrow> \<forall>y \<in> set (x # xs). h y < b \<Longrightarrow> h x + 8 * length xs < b"
proof (induction xs arbitrary: x)
  case (Cons y ys)
  then have "h y + 8 * length ys < b" "h x + 8 \<le> h y" by simp_all
  then show ?case by simp
qed simp

lemma walk_page:
  assumes "pages_ok (cc_link ctx)" "ordinals_ok ctx" and w: "chain_written ctx base seg buf buf' fx" and mem: "\<forall>f \<in> set fx. in_segment seg f"
    and srt: "sorted_wrt (\<lambda>f g. seg_pos seg f + 8 \<le> seg_pos seg g) fx"
  defines "p \<equiv> unat (chain_page_size (cc_link ctx))"
  shows "(if page_start seg p j fx = 0xffff then Some []
          else dyld_walk 4096 buf' (unat (seg_fileoff (os_cmd seg)) + j * p + unat (page_start seg p j fx))) =
    Some (map (\<lambda>f. (fixup_off seg f, dyld_view ctx base seg buf f)) (page_of seg p j fx))"
proof -
  let ?rest = "dropWhile (\<lambda>f. seg_pos seg f < j * p) fx"
  have p: "p \<in> {4096, 16384}" using assms(1) by (auto simp: pages_ok_def p_def)
  show ?thesis
  proof (cases "page_of seg p j fx = [] \<and> page_start seg p j fx = 0xffff")
    case False
    then have r: "?rest \<noteq> []" "seg_pos seg (hd ?rest) div p = j" "page_of seg p j fx = page_of seg p j ?rest"
      "unat (page_start seg p j fx) = seg_pos seg (hd ?rest) - j * p" "j * p \<le> seg_pos seg (hd ?rest)" "page_start seg p j fx \<noteq> 0xffff"
      using page_start_cases [OF srt p, of j] by (auto simp: Let_def)
    have mem': "\<forall>f \<in> set ?rest. in_segment seg f" using mem by (auto dest: set_dropWhileD)
    have "?rest = filter (\<lambda>f. \<not> seg_pos seg f < j * p) fx" by (rule dropWhile_filter_sorted [OF srt]) simp
    then have srt': "sorted_wrt (\<lambda>f g. seg_pos seg f + 8 \<le> seg_pos seg g) ?rest" using sorted_wrt_filter [OF srt] by metis
    have "sorted_wrt (\<lambda>f g. seg_pos seg f \<le> seg_pos seg g) ?rest" by (rule sorted_wrt_mono_rel [OF _ srt']) simp
    then have ch: "chain_of (cc_link ctx) seg ?rest = page_of seg p j ?rest"
      by (rule chain_of_page [OF assms(1), folded p_def, OF _ mem' r(1,2)])
    have "length (page_of seg p j ?rest) \<le> 4096"
    proof (cases "page_of seg p j ?rest")
      case (Cons f gx)
      have "sorted_wrt (\<lambda>f g. seg_pos seg f + 8 \<le> seg_pos seg g) (f # gx)"
        using sorted_wrt_filter [OF srt'] Cons unfolding page_of_def by metis
      moreover have in_page: "\<forall>g \<in> set (f # gx). seg_pos seg g div p = j" unfolding Cons [symmetric] by (simp add: page_of_def)
      then have "\<forall>g \<in> set (f # gx). seg_pos seg g < j * p + p" using p dividend_less_div_times [of p] by force
      ultimately have "seg_pos seg f + 8 * length gx < j * p + p" by (rule spaced_length)
      moreover have "j * p \<le> seg_pos seg f" using in_page div_times_less_eq_dividend [of "seg_pos seg f" p] by auto
      ultimately show ?thesis using p Cons by auto
    qed simp
    moreover have "sorted_wrt (\<lambda>f g. seg_pos seg f < seg_pos seg g) ?rest" by (rule sorted_wrt_mono_rel [OF _ srt']) simp
    ultimately have "dyld_walk 4096 buf' (fixup_off seg (hd ?rest)) = Some (map (\<lambda>f. (fixup_off seg f, dyld_view ctx base seg buf f)) (page_of seg p j ?rest))"
      using walk_chain [OF assms(1,2) chain_written_dropWhile [OF w] r(1) mem', of 4096] ch by simp
    moreover have "fixup_off seg (hd ?rest) = unat (seg_fileoff (os_cmd seg)) + j * p + unat (page_start seg p j fx)"
      using in_segment_off(1) [of seg "hd ?rest"] mem' r(1,4,5) by simp
    ultimately show ?thesis using r(3,6) by simp
  qed simp
qed

lemma filter_split_sorted:
  "sorted_wrt (\<lambda>f g. h f \<le> (h g :: nat)) xs \<Longrightarrow> filter (\<lambda>x. h x < n) xs @ filter (\<lambda>x. h x = n) xs = filter (\<lambda>x. h x < Suc n) xs"
proof (induction xs)
  case (Cons x xs)
  have "h x < n \<or> filter (\<lambda>x. h x < n) xs = []" using Cons.prems by (auto simp: filter_empty_conv)
  then show ?case using Cons by auto
qed simp

lemma pages_concat:
  assumes srt: "sorted_wrt (\<lambda>f g. seg_pos seg f \<le> seg_pos seg g) fx" and "\<forall>f \<in> set fx. seg_pos seg f div p < n"
  shows "concat (map (\<lambda>j. page_of seg p j fx) [0..<n]) = fx"
proof -
  have "sorted_wrt (\<lambda>f g. seg_pos seg f div p \<le> seg_pos seg g div p) fx"
    by (rule sorted_wrt_mono_rel [OF _ srt]) (simp add: div_le_mono)
  note split = filter_split_sorted [OF this]
  have "concat (map (\<lambda>j. page_of seg p j fx) [0..<n]) = filter (\<lambda>f. seg_pos seg f div p < n) fx"
    by (induction n) (simp_all add: page_of_def split)
  then show ?thesis using assms(2) by simp
qed

subsection \<open>Reading the starts back\<close>

lemma slice_at_prefix: "i + n \<le> length xs \<Longrightarrow> slice_at (xs @ ys) i n = slice_at xs i n"
  by (simp add: slice_at_def)

lemma slice_at_concat:
  assumes "\<And>x. length (g x) = w" and "j < n"
  shows "slice_at (xs @ concat (map g [0..<n]) @ ys) (length xs + w * j) w = Some (g j)"
proof -
  have "length (concat (map g zs)) = w * length zs" for zs by (induction zs) (simp_all add: assms(1))
  then have l: "length (xs @ concat (map g [0..<j])) = length xs + w * j" by simp
  have "[0..<n] = [0..<j] @ [j..<n]" using upt_add_eq_append [of 0 j "n - j"] assms(2) by simp
  also have "[j..<n] = j # [j + 1..<n]" using assms(2) by (simp add: upt_conv_Cons)
  finally have "[0..<n] = [0..<j] @ j # [j + 1..<n]" .
  then have "xs @ concat (map g [0..<n]) @ ys = (xs @ concat (map g [0..<j])) @ g j @ (concat (map g [j + 1..<n]) @ ys)" by simp
  then show ?thesis using slice_at_append1 [OF l assms(1) [of j]] by simp
qed

definition segment_record :: "link \<Rightarrow> out_segment \<Rightarrow> fixup list \<Rightarrow> nat \<Rightarrow> bytes \<Rightarrow> bool" where
  "segment_record ctx seg fx at buf \<longleftrightarrow>
     (let psz = chain_page_size ctx; n = segment_pages (seg_vmaddr (os_cmd seg)) psz fx
      in slice_at buf (at + 4) 2 = Some (le_bytes 2 (ucast psz :: u16)) \<and> slice_at buf (at + 20) 2 = Some (le_bytes 2 (of_nat n :: u16)) \<and>
         (\<forall>j < n. slice_at buf (at + 22 + 2 * j) 2 = Some (le_bytes 2 (page_start seg (unat psz) j fx))))"

lemma segment_pages_eq:
  assumes "segment_small seg" and "in_segment seg (last fx)" and "seg_pos seg (last fx) < unat (seg_vmsize (os_cmd seg))"
  shows "segment_pages (seg_vmaddr (os_cmd seg)) psz fx = div_ceil (seg_pos seg (last fx) + 1) (unat psz)"
proof -
  have "unat (seg_vmsize (os_cmd seg)) \<le> 2 ^ 62" using assms(1) by (simp add: segment_small_def)
  then have "seg_pos seg (last fx) + 1 < 2 ^ 64" using assms(3) by simp
  then have "unat (fixup_addr (last fx) - seg_vmaddr (os_cmd seg) + 1) = seg_pos seg (last fx) + 1"
    using in_segment_off(2) [OF assms(2)] by (subst unat_plus_small) simp_all
  moreover have "fixup_addr (last fx) + 1 - seg_vmaddr (os_cmd seg) = fixup_addr (last fx) - seg_vmaddr (os_cmd seg) + 1" by simp
  ultimately show ?thesis by (simp only: segment_pages_def)
qed

lemma div_ceil_between: "0 < p \<Longrightarrow> x < div_ceil (x + 1) p * p \<and> div_ceil (x + 1) p * p < x + 1 + p"
proof -
  assume "0 < p"
  then show ?thesis using next_multiple_of_ge [of p "x + 1"] next_multiple_of_lt [of p "x + 1"] by (simp add: next_multiple_of_def div_ceil_def)
qed

text \<open>One segment's record, behind \<open>b2\<close>.\<close>

lemma segment_record_written:
  fixes b2 and fmt :: u16 and off :: u64
  assumes small: "segment_small seg" and ok: "pages_ok ctx" and fx: "fx \<noteq> []" "\<forall>f \<in> set fx. in_segment seg f \<and> seg_pos seg f < unat (seg_vmsize (os_cmd seg))"
  defines "n \<equiv> segment_pages (seg_vmaddr (os_cmd seg)) (chain_page_size ctx) fx"
  defines "b \<equiv> write_page_starts (seg_vmaddr (os_cmd seg)) (chain_page_size ctx) 0 n fx
      (push16 (push32 (push64 (push16 (push16 (push32 b2 (22 + of_nat n * 2)) (ucast (chain_page_size ctx))) fmt) off) 0) (of_nat n))"
  shows "segment_record ctx seg fx (length b2) b" and "\<exists>ys. b = b2 @ ys" and "\<exists>n. length b = length b2 + 22 + 2 * n"
proof -
  let ?p = "unat (chain_page_size ctx)"
  have p: "?p \<in> {4096, 16384}" using ok by (auto simp: pages_ok_def)
  have lf: "in_segment seg (last fx)" "seg_pos seg (last fx) < unat (seg_vmsize (os_cmd seg))" using fx by auto
  have "n * ?p < seg_pos seg (last fx) + 1 + ?p"
    unfolding n_def segment_pages_eq [OF small lf] using p div_ceil_between [of ?p "seg_pos seg (last fx)"] by auto
  moreover have "unat (seg_vmsize (os_cmd seg)) \<le> 2 ^ 62" using small by (simp add: segment_small_def)
  ultimately have "(0 + n) * ?p < 2 ^ 63" using lf(2) p by auto
  then have b: "b = b2 @ le_bytes 4 (22 + of_nat n * 2 :: u32) @ le_bytes 2 (ucast (chain_page_size ctx) :: u16) @ le_bytes 2 fmt @
      le_bytes 8 off @ le_bytes 4 (0 :: u32) @ le_bytes 2 (of_nat n :: u16) @
      concat (map (\<lambda>j. le_bytes 2 (page_start seg ?p j fx)) [0..<n])"
    unfolding b_def using write_page_starts_eq [OF small p, of fx 0 n] fx(2)
    by (simp add: push16_def push32_def push64_def)
  have s1: "slice_at b (length b2 + 4) 2 = Some (le_bytes 2 (ucast (chain_page_size ctx) :: u16))"
    unfolding b using slice_at_append1 [of "b2 @ le_bytes 4 (22 + of_nat n * 2 :: u32)" "length b2 + 4" "le_bytes 2 (ucast (chain_page_size ctx) :: u16)" 2] by simp
  have s2: "slice_at b (length b2 + 20) 2 = Some (le_bytes 2 (of_nat n :: u16))"
    unfolding b using slice_at_append1 [of "b2 @ le_bytes 4 (22 + of_nat n * 2 :: u32) @ le_bytes 2 (ucast (chain_page_size ctx) :: u16) @
      le_bytes 2 fmt @ le_bytes 8 off @ le_bytes 4 (0 :: u32)" "length b2 + 20" "le_bytes 2 (of_nat n :: u16)" 2] by simp
  have s3: "slice_at b (length b2 + 22 + 2 * j) 2 = Some (le_bytes 2 (page_start seg ?p j fx))" if "j < n" for j
    unfolding b using slice_at_concat [of "\<lambda>j. le_bytes 2 (page_start seg ?p j fx)" 2 j n "b2 @ le_bytes 4 (22 + of_nat n * 2 :: u32) @
      le_bytes 2 (ucast (chain_page_size ctx) :: u16) @ le_bytes 2 fmt @ le_bytes 8 off @ le_bytes 4 (0 :: u32) @ le_bytes 2 (of_nat n :: u16)" "[]"] that
    by simp
  show "segment_record ctx seg fx (length b2) b" unfolding segment_record_def Let_def n_def [symmetric] using s1 s2 s3 by simp
  show "\<exists>ys. b = b2 @ ys" unfolding b by blast
  have "length (concat (map (\<lambda>j. le_bytes 2 (page_start seg ?p j fx)) zs)) = 2 * length zs" for zs by (induction zs) simp_all
  then show "\<exists>n. length b = length b2 + 22 + 2 * n" unfolding b by (intro exI [of _ n]) simp
qed

lemma segment_record_mono:
  assumes "segment_record ctx seg fx at b" and keep: "\<And>p n. at \<le> p \<Longrightarrow> slice_at b p n \<noteq> None \<Longrightarrow> slice_at b' p n = slice_at b p n"
  shows "segment_record ctx seg fx at b'"
  using assms(1) unfolding segment_record_def Let_def by (auto simp: keep)

text \<open>The entry of a segment at \<open>pos\<close> of \<open>buf'\<close>, an extension of \<open>buf\<close>.\<close>

definition segment_entry :: "link \<Rightarrow> fixup list \<Rightarrow> nat \<Rightarrow> bytes \<Rightarrow> bytes \<Rightarrow> out_segment \<Rightarrow> nat \<Rightarrow> bool" where
  "segment_entry ctx fixups so buf buf' seg pos \<longleftrightarrow>
     (if fixups_of fixups seg = [] then slice_at buf' pos 4 = slice_at buf pos 4
      else \<exists>at. length buf \<le> at \<and> at \<le> length buf' \<and> slice_at buf' pos 4 = Some (le_bytes 4 (of_nat (at - so) :: u32)) \<and>
             segment_record ctx seg (fixups_of fixups seg) at buf')"

lemma segment_entry_shift:
  assumes "segment_entry ctx fixups so b b' seg pos" and "slice_at b pos 4 = slice_at a pos 4" and "length a \<le> length b"
  shows "segment_entry ctx fixups so a b' seg pos"
proof (cases "fixups_of fixups seg = []")
  case False
  then obtain at where "length b \<le> at" "at \<le> length b'" "slice_at b' pos 4 = Some (le_bytes 4 (of_nat (at - so) :: u32))"
    "segment_record ctx seg (fixups_of fixups seg) at b'" using assms(1) by (auto simp: segment_entry_def)
  then show ?thesis using False assms(3) by (auto simp: segment_entry_def intro!: exI [of _ at])
qed (use assms(1,2) in \<open>simp add: segment_entry_def\<close>)

lemma segment_starts_ok:
  assumes ok: "pages_ok ctx" and sp: "spaced fixups"
  shows "write_segment_starts ctx fixups so table i segs buf = Some (buf', err) \<Longrightarrow> \<forall>seg \<in> set segs. segment_small seg \<Longrightarrow>
    table + 4 * (i + length segs) \<le> length buf \<Longrightarrow>
    length buf \<le> length buf' \<and>
    (\<forall>p n. p + n \<le> length buf \<and> (p + n \<le> table + 4 * i \<or> table + 4 * (i + length segs) \<le> p) \<longrightarrow> slice_at buf' p n = slice_at buf p n) \<and>
    (\<forall>k < length segs. segment_entry ctx fixups so buf buf' (segs ! k) (table + 4 * (i + k)))"
proof (induction segs arbitrary: i buf)
  case (Cons seg segs)
  let ?fx = "fixups_of fixups seg"
  have small: "segment_small seg" and rest: "\<forall>s \<in> set segs. segment_small s" using Cons.prems(2) by simp_all
  note F = segment_fixups_ok [OF sp small]
  show ?case
  proof (cases "?fx = []")
    case True
    then have r: "write_segment_starts ctx fixups so table (i + 1) segs buf = Some (buf', err)" using Cons.prems(1) F(1) by simp
    have len: "table + 4 * (i + 1 + length segs) \<le> length buf" using Cons.prems(3) by simp
    note IH = Cons.IH [OF r rest len]
    have keep: "slice_at buf' p n = slice_at buf p n" if "p + n \<le> length buf" "p + n \<le> table + 4 * (i + 1) \<or> table + 4 * (i + 1 + length segs) \<le> p" for p n
      using IH that by blast
    have "slice_at buf' (table + 4 * i) 4 = slice_at buf (table + 4 * i) 4" by (rule keep) (use len in simp_all)
    then have "segment_entry ctx fixups so buf buf' seg (table + 4 * i)" using True by (simp add: segment_entry_def)
    then have "segment_entry ctx fixups so buf buf' ((seg # segs) ! k) (table + 4 * (i + k))"
      if "k < length (seg # segs)" for k
      using IH that by (cases k) simp_all
    moreover have "slice_at buf' p n = slice_at buf p n" if "p + n \<le> length buf" "p + n \<le> table + 4 * i \<or> table + 4 * (i + length (seg # segs)) \<le> p" for p n
      by (rule keep) (use that in auto)
    ultimately show ?thesis using IH by simp
  next
    case False
    let ?b1 = "pad_to buf 8" and ?p = "chain_page_size ctx"
    let ?at = "length ?b1"
    have p: "?p = 0x1000 \<or> ?p = 0x4000" using ok by (simp add: pages_ok_def)
    have b1: "length buf \<le> ?at" "\<And>q n. q + n \<le> length buf \<Longrightarrow> slice_at ?b1 q n = slice_at buf q n"
      by (simp_all add: next_multiple_of_ge) (simp add: pad_to_def slice_at_prefix)
    obtain b2 where c: "copy_at ?b1 (table + i * 4) (le_bytes 4 (of_nat (?at - so) :: u32)) = Some b2"
      using Cons.prems(1) F(1) False by (auto simp: Let_def split: bind_splits)
    let ?b3 = "write_page_starts (seg_vmaddr (os_cmd seg)) ?p 0 (segment_pages (seg_vmaddr (os_cmd seg)) ?p ?fx) ?fx
      (push16 (push32 (push64 (push16 (push16 (push32 b2 (22 + of_nat (segment_pages (seg_vmaddr (os_cmd seg)) ?p ?fx) * 2)) (ucast ?p)) (pointer_format ctx))
         (seg_vmaddr (os_cmd seg) - ch_addr (lk_hdr ctx ChMachHeader))) 0) (of_nat (segment_pages (seg_vmaddr (os_cmd seg)) ?p ?fx)))"
    have r: "write_segment_starts ctx fixups so table (i + 1) segs ?b3 = Some (buf', err)"
      using Cons.prems(1) F(1) False c p by (auto simp: Let_def)
    have b2: "length b2 = ?at" by (rule copy_at_length [OF c])
    have mem: "\<forall>f \<in> set ?fx. in_segment seg f \<and> seg_pos seg f < unat (seg_vmsize (os_cmd seg))" using F(3) by blast
    note W = segment_record_written [OF small ok False mem, of b2 "pointer_format ctx" "seg_vmaddr (os_cmd seg) - ch_addr (lk_hdr ctx ChMachHeader)"]
    obtain ys where b3: "?b3 = b2 @ ys" using W(2) by blast
    have len: "table + 4 * (i + 1 + length segs) \<le> length ?b3" using Cons.prems(3) b1(1) b2 unfolding b3 by simp
    note IH = Cons.IH [OF r rest len]
    have keep: "slice_at buf' q n = slice_at ?b3 q n" if "q + n \<le> length ?b3" "q + n \<le> table + 4 * (i + 1) \<or> table + 4 * (i + 1 + length segs) \<le> q" for q n
      using IH that by blast
    have old: "slice_at ?b3 q n = slice_at buf q n" if "q + n \<le> length buf" "q + n \<le> table + 4 * i \<or> table + 4 * (i + 1) \<le> q" for q n
    proof -
      have "slice_at ?b3 q n = slice_at b2 q n" unfolding b3 by (rule slice_at_prefix) (use that(1) b1(1) b2 in simp)
      also have "\<dots> = slice_at ?b1 q n" by (rule copy_then_slice_apart [OF c]) (use that(2) in auto)
      finally show ?thesis using b1(2) [OF that(1)] by simp
    qed
    have grow: "length buf \<le> length ?b3" "length ?b3 \<le> length buf'" "?at \<le> length ?b3" using b1(1) b2 IH unfolding b3 by simp_all
    have entry: "slice_at buf' (table + 4 * i) 4 = Some (le_bytes 4 (of_nat (?at - so) :: u32))"
    proof -
      have "slice_at buf' (table + 4 * i) 4 = slice_at ?b3 (table + 4 * i) 4" by (rule keep) (use len in simp_all)
      also have "\<dots> = slice_at b2 (table + 4 * i) 4" unfolding b3 by (rule slice_at_prefix) (use Cons.prems(3) b1(1) b2 in simp)
      finally show ?thesis using copy_then_slice [OF c] by (simp add: mult.commute)
    qed
    have rec: "segment_record ctx seg ?fx ?at buf'"
    proof (rule segment_record_mono [OF W(1) [unfolded b2]])
      fix q n assume "?at \<le> q" "slice_at ?b3 q n \<noteq> None"
      then show "slice_at buf' q n = slice_at ?b3 q n" using keep [of q n] Cons.prems(3) b1(1) by (auto simp: slice_at_def split: if_splits)
    qed
    have first: "segment_entry ctx fixups so buf buf' seg (table + 4 * i)"
      using entry rec b1(1) grow False unfolding segment_entry_def by (auto intro!: exI [of _ ?at])
    have all_keep: "slice_at buf' q n = slice_at buf q n" if "q + n \<le> length buf" "q + n \<le> table + 4 * i \<or> table + 4 * (i + length (seg # segs)) \<le> q" for q n
    proof -
      have "slice_at buf' q n = slice_at ?b3 q n" by (rule keep) (use that grow in auto)
      also have "\<dots> = slice_at buf q n" by (rule old) (use that in auto)
      finally show ?thesis .
    qed
    have later: "segment_entry ctx fixups so buf buf' (segs ! k) (table + 4 * (i + Suc k))" if k: "k < length segs" for k
    proof -
      have "slice_at ?b3 (table + 4 * (i + Suc k)) 4 = slice_at buf (table + 4 * (i + Suc k)) 4"
        by (rule old) (use k Cons.prems(3) in simp_all)
      moreover have "segment_entry ctx fixups so ?b3 buf' (segs ! k) (table + 4 * (i + 1 + k))" using IH k by blast
      then have "segment_entry ctx fixups so ?b3 buf' (segs ! k) (table + 4 * (i + Suc k))" by simp
      ultimately show ?thesis using grow(1) segment_entry_shift by blast
    qed
    have "segment_entry ctx fixups so buf buf' ((seg # segs) ! k) (table + 4 * (i + k))"
      if "k < length (seg # segs)" for k
    proof (cases k)
      case 0
      then show ?thesis using first by simp
    next
      case (Suc m)
      then show ?thesis using later [of m] that by simp
    qed
    then show ?thesis using all_keep grow by simp
  qed
qed simp

text \<open>What comes after the starts leaves them, and their offset in the header, as they are.\<close>

definition keeps_starts :: "bytes \<Rightarrow> bytes \<Rightarrow> bool" where
  "keeps_starts a b \<longleftrightarrow> length a \<le> length b \<and>
     (\<forall>p n. p + n \<le> length a \<and> (p + n \<le> 8 \<or> 16 \<le> p) \<longrightarrow> slice_at b p n = slice_at a p n)"

lemma keeps_starts_trans [trans]: "keeps_starts a b \<Longrightarrow> keeps_starts b c \<Longrightarrow> keeps_starts a c"
proof -
  assume a: "keeps_starts a b" and b: "keeps_starts b c"
  have "slice_at c p n = slice_at a p n" if "p + n \<le> length a" "p + n \<le> 8 \<or> 16 \<le> p" for p n
  proof -
    have "p + n \<le> length b" using a that(1) by (simp add: keeps_starts_def)
    then have "slice_at c p n = slice_at b p n" using b that(2) by (simp add: keeps_starts_def)
    then show ?thesis using a that by (simp add: keeps_starts_def)
  qed
  then show ?thesis using a b by (simp add: keeps_starts_def)
qed

lemma keeps_starts_append: "keeps_starts a (a @ ys)"
  by (simp add: keeps_starts_def slice_at_prefix)

lemma keeps_starts_pad: "keeps_starts a (pad_to a n)"
  unfolding pad_to_def by (rule keeps_starts_append)

lemma keeps_starts_copy: "copy_at a off ys = Some b \<Longrightarrow> 8 \<le> off \<Longrightarrow> off + length ys \<le> 16 \<Longrightarrow> keeps_starts a b"
  using copy_at_length [of a off ys b] copy_then_slice_apart [of a off ys b] by (auto simp: keeps_starts_def)

lemma write_imports_appends: "write_imports_loop ctx imports fmt off buf = Some buf' \<Longrightarrow> \<exists>ys. buf' = buf @ ys"
proof (induction ctx "imports" fmt off buf rule: write_imports_loop.induct)
  case (2 ctx sid addend "imports" fmt name_off buf)
  obtain s where s: "nth_opt (lk_syms ctx) (unat sid) = Some s" using "2.prems" by (auto split: bind_splits)
  let ?weak = "(if sy_is_weak_ref s then 1 else 0) :: u32"
  let ?entry = "(if fmt = DYLD_CHAINED_IMPORT then
                    do { ordinal \<leftarrow> import_ordinal ctx sid 8;
                         Some (push32 buf (ucast ordinal OR push_bit 8 ?weak OR push_bit 9 name_off)) }
                  else if fmt = DYLD_CHAINED_IMPORT_ADDEND then
                    do { ordinal \<leftarrow> import_ordinal ctx sid 8;
                         Some (push32 (push32 buf (ucast ordinal OR push_bit 8 ?weak OR push_bit 9 name_off)) (ucast addend)) }
                  else
                    do { ordinal \<leftarrow> import_ordinal ctx sid 16;
                         Some (push64 (push64 buf (ordinal OR push_bit 16 (ucast ?weak) OR push_bit 32 (ucast name_off))) addend) })"
  obtain b1 where e: "?entry = Some b1" and r: "write_imports_loop ctx imports fmt (name_off + of_nat (length (sy_name s)) + 1) b1 = Some buf'"
    using "2.prems" by (simp only: write_imports_loop.simps s bind.simps Let_def) (auto simp only: bind_eq_Some_conv)
  obtain zs where z: "b1 = buf @ zs" using e by (auto simp: push32_def push64_def split: if_splits bind_splits)
  show ?case using "2.IH" [OF s refl e r] z by auto
qed simp

lemma push_names_appends: "push_names ctx imports buf = Some buf' \<Longrightarrow> \<exists>ys. buf' = buf @ ys"
  by (induction ctx "imports" buf rule: push_names.induct) (fastforce split: bind_splits)+

lemma encode_payload_parts:
  assumes "encode_payload ctx fixups imports = Some (payload, err)"
  obtains h b where "slice_at h 4 4 = Some (le_bytes 4 (32 :: u32))" "length h = 32"
    "write_starts_in_image ctx h fixups = Some (b, err)" "keeps_starts b payload"
proof -
  let ?fmt = "import_format imports"
  let ?h0 = "pad_to (push32 (push32 (push32 (push32 (push32 (push32 (push32 [] 0) 0) 0) 0) (of_nat (length imports))) ?fmt) 0) 8"
  have l0: "length ?h0 = 32" by (simp add: push32_def next_multiple_of_def)
  let ?pad = "\<lambda>b. pad_to b (if ?fmt = DYLD_CHAINED_IMPORT_ADDEND64 then 8 else 4)"
  note run = assms [unfolded encode_payload_def Let_def]
  obtain h where h: "copy_at ?h0 4 (le_bytes 4 (of_nat (length ?h0) :: u32)) = Some h" using run by (auto split: bind_splits)
  note run = run [unfolded h bind.simps]
  obtain b where b: "write_starts_in_image ctx h fixups = Some (b, err)" using run by (auto split: bind_splits)
  note run = run [unfolded b bind.simps prod.case]
  obtain b1 where b1: "copy_at (?pad b) 8 (le_bytes 4 (of_nat (length (?pad b)) :: u32)) = Some b1" using run by (auto split: bind_splits)
  note run = run [unfolded b1 bind.simps]
  obtain b2 where b2: "write_imports ctx b1 imports ?fmt = Some b2" using run by (auto split: bind_splits)
  note run = run [unfolded b2 bind.simps]
  obtain b3 where b3: "copy_at b2 12 (le_bytes 4 (of_nat (length b2) :: u32)) = Some b3" using run by (auto split: bind_splits)
  note run = run [unfolded b3 bind.simps]
  obtain b4 where b4: "push_names ctx imports (b3 @ [0]) = Some b4" and payload: "payload = pad_to b4 8" using run by (auto split: bind_splits)
  have "keeps_starts b (pad_to b (if ?fmt = DYLD_CHAINED_IMPORT_ADDEND64 then 8 else 4))" by (rule keeps_starts_pad)
  also have "keeps_starts \<dots> b1" by (rule keeps_starts_copy [OF b1]) simp_all
  also have "keeps_starts b1 b2" using write_imports_appends b2 keeps_starts_append unfolding write_imports_def by blast
  also have "keeps_starts b2 b3" by (rule keeps_starts_copy [OF b3]) simp_all
  also have "keeps_starts b3 (b3 @ [0])" by (rule keeps_starts_append)
  also have "keeps_starts (b3 @ [0]) b4" using push_names_appends [OF b4] keeps_starts_append by blast
  also have "keeps_starts b4 payload" unfolding payload by (rule keeps_starts_pad)
  finally have "keeps_starts b payload" .
  moreover have "slice_at h 4 4 = Some (le_bytes 4 (32 :: u32))" using copy_then_slice [OF h] l0 by simp
  ultimately show thesis using that b copy_at_length [OF h] l0 by simp
qed

lemma rd_Some:
  "slice_at buf off 2 = Some (le_bytes 2 (v :: u16)) \<Longrightarrow> dyld16 buf off = Some (unat v)"
  "slice_at buf off 4 = Some (le_bytes 4 (w :: u32)) \<Longrightarrow> dyld32 buf off = Some (unat w)"
  by (simp_all add: dyld16_def dyld32_def)

lemma dyld_starts_payload:
  assumes run: "encode_payload ctx fixups imps = Some (payload, err)" and ok: "pages_ok ctx" and sp: "spaced fixups"
    and pre: "\<not> la_preload (lk_args ctx)" and small: "\<forall>seg \<in> set (lk_segments ctx). segment_small seg" and len: "length payload < 2 ^ 32"
    and k: "k < length (lk_segments ctx)"
  defines "seg \<equiv> lk_segments ctx ! k" and "fx \<equiv> fixups_of fixups (lk_segments ctx ! k)"
  assumes fits: "fx \<noteq> [] \<Longrightarrow> segment_pages (seg_vmaddr (os_cmd seg)) (chain_page_size ctx) fx < 2 ^ 16"
  shows "dyld_starts payload k = Some (if fx = [] then None
    else Some (unat (chain_page_size ctx),
      map (\<lambda>j. unat (page_start seg (unat (chain_page_size ctx)) j fx)) [0..<segment_pages (seg_vmaddr (os_cmd seg)) (chain_page_size ctx) fx]))"
proof -
  obtain h b where h: "slice_at h 4 4 = Some (le_bytes 4 (32 :: u32))" "length h = 32"
    and w: "write_starts_in_image ctx h fixups = Some (b, err)" and kp: "keeps_starts b payload"
    by (rule encode_payload_parts [OF run])
  let ?n = "length (lk_segments ctx)"
  let ?b0 = "push32 h (of_nat ?n) @ replicate (4 * ?n) 0"
  have w': "write_segment_starts ctx fixups 32 36 0 (lk_segments ctx) ?b0 = Some (b, err)"
    using w pre h(2) by (simp add: write_starts_in_image_def Let_def push32_def)
  have l0: "36 + 4 * (0 + ?n) \<le> length ?b0" by (simp add: push32_def h(2))
  note S = segment_starts_ok [OF ok sp w' small l0]
  have later: "slice_at payload q m = slice_at b q m" if "q + m \<le> length b" "q + m \<le> 8 \<or> 16 \<le> q" for q m
    using kp that by (simp add: keeps_starts_def)
  have "slice_at b 4 4 = slice_at ?b0 4 4" using S by (simp add: push32_def h(2))
  also have "\<dots> = slice_at h 4 4" unfolding push32_def append_assoc by (rule slice_at_prefix) (simp add: h(2))
  finally have so: "dyld32 payload 4 = Some 32" using h(1) later [of 4 4] S rd_Some(2) [of payload 4 32] by (simp add: push32_def h(2))
  let ?pos = "36 + 4 * k"
  have entry: "segment_entry ctx fixups 32 ?b0 b seg ?pos" using S k by (simp add: seg_def)
  have inb: "?pos + 4 \<le> length b" using S l0 k by simp
  then have info: "dyld32 payload (32 + 4 + 4 * k) = dyld32 b ?pos"
    using later [of ?pos 4] by (simp add: dyld32_def)
  show ?thesis
  proof (cases "fx = []")
    case True
    have "slice_at b ?pos 4 = slice_at ?b0 ?pos 4" using entry True by (simp add: segment_entry_def fx_def seg_def)
    also have "\<dots> = Some (replicate 4 0)" using k by (simp add: slice_at_def push32_def h(2) min_def)
    finally have "dyld32 payload (32 + 4 + 4 * k) = Some 0" unfolding info by (simp add: dyld32_def numeral_eq_Suc)
    then show ?thesis using so True by (simp add: dyld_starts_def)
  next
    case False
    then obtain at where at: "length ?b0 \<le> at" "at \<le> length b" "slice_at b ?pos 4 = Some (le_bytes 4 (of_nat (at - 32) :: u32))"
      and rec: "segment_record ctx seg fx at b" using entry by (auto simp: segment_entry_def fx_def seg_def)
    have at': "36 \<le> at" using at(1) by (simp add: push32_def h(2))
    have "length b \<le> length payload" using kp by (simp add: keeps_starts_def)
    then have "at - 32 < 2 ^ 32" using at(2) len by simp
    then have i: "dyld32 payload (32 + 4 + 4 * k) = Some (at - 32)" unfolding info using rd_Some(2) [OF at(3)] by (simp add: unat_of_nat_small)
    have rec': "segment_record ctx seg fx at payload"
    proof (rule segment_record_mono [OF rec])
      fix q m assume q: "at \<le> q" "slice_at b q m \<noteq> None"
      then have "q + m \<le> length b" by (auto simp: slice_at_def split: if_splits)
      then show "slice_at payload q m = slice_at b q m" using q(1) at' by (intro later) simp_all
    qed
    let ?np = "segment_pages (seg_vmaddr (os_cmd seg)) (chain_page_size ctx) fx"
    have p: "unat (ucast (chain_page_size ctx) :: u16) = unat (chain_page_size ctx)" using ok by (auto simp: pages_ok_def)
    have "dyld16 payload (at + 4) = Some (unat (chain_page_size ctx))" "dyld16 payload (at + 20) = Some ?np"
      and "\<And>j. j < ?np \<Longrightarrow> dyld16 payload (at + 22 + 2 * j) = Some (unat (page_start seg (unat (chain_page_size ctx)) j fx))"
      using rec' fits [OF False] p by (simp_all add: segment_record_def Let_def unat_of_nat_small rd_Some)
    moreover have "those (map (\<lambda>j. dyld16 payload (at + 22 + 2 * j)) [0..<?np]) =
        Some (map (\<lambda>j. unat (page_start seg (unat (chain_page_size ctx)) j fx)) [0..<?np])"
      by (rule those_map_total) (use calculation(3) in simp)
    moreover have "32 + (at - 32) = at" "at - 32 \<noteq> 0" using at' by simp_all
    ultimately show ?thesis using so i False by (simp add: dyld_starts_def)
  qed
qed

subsection \<open>dyld applies the fixups\<close>

text \<open>The table of imports and the map of their ordinals agree, and every bind is in them.\<close>

definition imports_ok :: "(u32 \<times> u64) list \<Rightarrow> ((u32 \<times> u64) \<Rightarrow> nat option) \<Rightarrow> bool" where
  "imports_ok imps ords \<longleftrightarrow> distinct imps \<and> (\<forall>key i. ords key = Some i \<longleftrightarrow> i < length imps \<and> imps ! i = key)"

lemma imports_ok_add:
  assumes "imports_ok imps ords" and new: "ords key = None"
  shows "imports_ok (imps @ [key]) (ords(key \<mapsto> length imps))"
proof -
  have "key \<notin> set imps"
  proof
    assume "key \<in> set imps"
    then obtain i where "i < length imps" "imps ! i = key" by (auto simp: in_set_conv_nth)
    then have "ords key = Some i" using assms(1) unfolding imports_ok_def by blast
    then show False using new by simp
  qed
  then show ?thesis using assms(1) by (auto simp: imports_ok_def nth_append less_Suc_eq in_set_conv_nth)
qed

lemma import_loop_ok:
  "imports_ok imps ords \<Longrightarrow> import_loop fixups imps ords = (imps', ords') \<Longrightarrow>
   imports_ok imps' ords' \<and> set imps' = set imps \<union> {(s, table_addend a) | s a. \<exists>addr. (addr, Some s, a) \<in> set fixups}"
proof (induction fixups imps ords rule: import_loop.induct)
  case (2 addr sm addend fixups imps ords)
  show ?case
  proof (cases sm)
    case None
    then show ?thesis using "2.IH"(1) "2.prems" by auto
  next
    case (Some s)
    let ?key = "(s, table_addend addend)"
    show ?thesis
    proof (cases "ords ?key")
      case None
      have "import_loop fixups (imps @ [?key]) (ords(?key \<mapsto> length imps)) = (imps', ords')" using "2.prems"(2) Some None by (simp add: Let_def)
      note step = "2.IH"(2) [OF Some refl None imports_ok_add [OF "2.prems"(1) None] this]
      then show ?thesis using Some by auto
    next
      case old: (Some i)
      then have "i < length imps" "imps ! i = ?key" using "2.prems"(1) unfolding imports_ok_def by blast+
      then have "?key \<in> set imps" using nth_mem by metis
      moreover have "import_loop fixups imps ords = (imps', ords')" using "2.prems"(2) Some old by (simp add: Let_def)
      ultimately show ?thesis using "2.IH"(3) [OF Some refl old "2.prems"(1)] Some by auto
    qed
  qed
qed auto

lemma import_table_ok:
  assumes "import_table fixups = (imps, ords)"
  shows "imports_ok imps ords" and "set imps = {(s, table_addend a) | s a. \<exists>addr. (addr, Some s, a) \<in> set fixups}"
  using import_loop_ok [of "[]" Map.empty fixups imps ords] assms by (auto simp: import_table_def imports_ok_def)

text \<open>
  What dyld must read for a fixup: its slot, and for a bind an import that names the symbol, with
  the addends adding up; for a rebase a target and a top byte that make up the pointer the image had.
\<close>

definition dyld_reads :: "(u32 \<times> u64) list \<Rightarrow> u64 \<Rightarrow> out_segment \<Rightarrow> bytes \<Rightarrow> fixup \<Rightarrow> nat \<times> dyld_fixup \<Rightarrow> bool" where
  "dyld_reads imps base seg buf f e \<longleftrightarrow>
     fst e = fixup_off seg f \<and>
     (case (f, snd e) of
        ((_, Some s, addend), DBind i inl) \<Rightarrow> i < length imps \<and> fst (imps ! i) = s \<and> snd (imps ! i) + inl = addend
      | ((_, None, _), DRebase target high8) \<Rightarrow>
          slice_at buf (fixup_off seg f) 8 = Some (le_bytes 8 ((target + base) OR push_bit 56 high8))
      | _ \<Rightarrow> False)"

lemma dyld_view_reads:
  assumes w: "chain_written ctx base seg buf buf' fx" and f: "f \<in> set fx" and ok: "imports_ok imps (cc_ordinals ctx)"
  shows "dyld_reads imps base seg buf f (fixup_off seg f, dyld_view ctx base seg buf f)"
proof -
  obtain bs w where w: "slice_at buf (fixup_off seg f) 8 = Some bs" "fixup_word ctx base f (from_le bs) = Some w"
    using w f by (induction fx) auto
  obtain addr sm addend where e: "f = (addr, sm, addend)" by (cases f)
  show ?thesis
  proof (cases sm)
    case None
    let ?v = "from_le bs :: u64"
    have "(?v AND mask 56) OR push_bit 56 (drop_bit 56 ?v) = ?v"
    proof (rule bit_word_eqI)
      fix n assume "n < LENGTH(64)"
      then show "bit ((?v AND mask 56) OR push_bit 56 (drop_bit 56 ?v)) n = bit ?v n" by (cases "n < 56") (auto simp: bit_simps)
    qed
    moreover have "length bs = 8" using slice_at_length [OF w(1)] .
    then have "le_bytes 8 ?v = bs" using le_bytes_from_le [where 'a = 64, of bs] by simp
    ultimately show ?thesis using w(1) None e by (simp add: dyld_reads_def dyld_view_def Let_def)
  next
    case (Some s)
    then obtain i where i: "cc_ordinals ctx (s, table_addend addend) = Some i" using w(2) e by (auto simp: fixup_word_def)
    then have "i < length imps" "imps ! i = (s, table_addend addend)" using ok by (auto simp: imports_ok_def)
    then show ?thesis using i Some e by (simp add: dyld_reads_def dyld_view_def table_addend_def)
  qed
qed

text \<open>An image whose chains dyld can represent.\<close>

definition chains_fit :: "chain_ctx \<Rightarrow> bool" where
  "chains_fit ctx \<longleftrightarrow>
     (let lk = cc_link ctx; slots = (\<lambda>seg. fixups_of (cc_fixups ctx) seg) in
        pages_ok lk \<and> \<not> la_preload (lk_args lk) \<and> spaced (cc_fixups ctx) \<and> list_all segment_small (lk_segments lk) \<and>
        sorted_wrt apart (concat (map (\<lambda>seg. map (fixup_off seg) (slots seg)) (lk_segments lk))) \<and>
        list_all (\<lambda>seg. slots seg = [] \<or> segment_pages (seg_vmaddr (os_cmd seg)) (chain_page_size lk) (slots seg) < 2 ^ 16) (lk_segments lk))"

text \<open>
  C38. Once the payload is encoded and the chains are written into an image they fit, dyld, going by
  the payload's page starts and walking every chain, applies to each segment exactly the fixups that
  were collected for it, in order: binds name an import with the right symbol and addend, and
  rebases make up the pointer that was there. No other byte of the image changes.
\<close>

theorem chains_applied:
  assumes fit: "chains_fit ctx" and table: "import_table (cc_fixups ctx) = (imps, cc_ordinals ctx)" and count: "length imps \<le> 2 ^ 24"
    and payload: "encode_payload (cc_link ctx) (cc_fixups ctx) imps = Some (payload, err)" and short: "length payload < 2 ^ 32"
    and run: "write_fixup_chains ctx buf = Some buf'"
    and k: "k < length (lk_segments (cc_link ctx))"
  shows "\<exists>es. dyld_segment payload buf' (unat (seg_fileoff (os_cmd (lk_segments (cc_link ctx) ! k)))) k = Some es \<and>
      list_all2 (dyld_reads imps (chain_target_base (cc_link ctx)) (lk_segments (cc_link ctx) ! k) buf)
        (fixups_of (cc_fixups ctx) (lk_segments (cc_link ctx) ! k)) es \<and>
      length buf' = length buf \<and>
      (\<forall>p. (\<forall>seg \<in> set (lk_segments (cc_link ctx)). \<forall>f \<in> set (fixups_of (cc_fixups ctx) seg). p < fixup_off seg f \<or> fixup_off seg f + 8 \<le> p) \<longrightarrow>
         slice_at buf' p 1 = slice_at buf p 1)"
proof -
  let ?lk = "cc_link ctx" and ?base = "chain_target_base (cc_link ctx)"
  define seg where "seg = lk_segments ?lk ! k"
  define fx where "fx = fixups_of (cc_fixups ctx) seg"
  let ?p = "unat (chain_page_size ?lk)" and ?np = "segment_pages (seg_vmaddr (os_cmd seg)) (chain_page_size ?lk) fx"
  have F: "pages_ok ?lk" "\<not> la_preload (lk_args ?lk)" "spaced (cc_fixups ctx)" "\<forall>seg \<in> set (lk_segments ?lk). segment_small seg"
    "sorted_wrt apart (concat (map (\<lambda>seg. map (fixup_off seg) (fixups_of (cc_fixups ctx) seg)) (lk_segments ?lk)))"
    and seg: "seg \<in> set (lk_segments ?lk)" and np: "fx \<noteq> [] \<Longrightarrow> ?np < 2 ^ 16"
    using fit k by (auto simp: chains_fit_def Let_def list_all_iff seg_def fx_def)
  have small: "segment_small seg" using F(4) seg by blast
  note SF = segment_fixups_ok [OF F(3)]
  have W: "length buf' = length buf" "chain_written ctx ?base seg buf buf' fx"
    "\<And>p n. \<forall>seg \<in> set (lk_segments ?lk). \<forall>f \<in> set (fixups_of (cc_fixups ctx) seg). p + n \<le> fixup_off seg f \<or> fixup_off seg f + 8 \<le> p \<Longrightarrow>
       slice_at buf' p n = slice_at buf p n"
    using write_chains_ok [OF run [unfolded write_fixup_chains_def] _ F(5)] SF(1) F(4) seg by (auto simp: fx_def)
  have ords: "ordinals_ok ctx" using import_table_ok(1) [OF table] count by (fastforce simp: ordinals_ok_def imports_ok_def ran_def)
  have mem: "\<forall>f \<in> set fx. in_segment seg f" and pos: "\<forall>f \<in> set fx. seg_pos seg f < unat (seg_vmsize (os_cmd seg))"
    using SF(3) [OF small] by (auto simp: fx_def)
  have srt: "sorted_wrt (\<lambda>f g. seg_pos seg f + 8 \<le> seg_pos seg g) fx" by (rule spaced_pos [OF SF(2) [OF small, folded fx_def] mem])
  define es where "es = map (\<lambda>f. (fixup_off seg f, dyld_view ctx ?base seg buf f)) fx"
  have st: "dyld_starts payload k = Some (if fx = [] then None else Some (?p, map (\<lambda>j. unat (page_start seg ?p j fx)) [0..<?np]))"
    using dyld_starts_payload [OF payload F(1,3,2,4) short k] np unfolding fx_def seg_def by blast
  have "dyld_segment payload buf' (unat (seg_fileoff (os_cmd seg))) k = Some es"
  proof (cases "fx = []")
    case False
    have walks: "(if unat (page_start seg ?p j fx) = 0xffff then Some [] else dyld_walk 4096 buf' (unat (seg_fileoff (os_cmd seg)) + j * ?p + unat (page_start seg ?p j fx))) =
        Some (map (\<lambda>f. (fixup_off seg f, dyld_view ctx ?base seg buf f)) (page_of seg ?p j fx))" for j
    proof -
      have "unat (page_start seg ?p j fx) = 0xffff \<longleftrightarrow> page_start seg ?p j fx = 0xffff" by (simp add: word_unat_eq_iff)
      then show ?thesis using walk_page [OF F(1) ords W(2) mem srt, of j] by simp
    qed
    have "\<forall>f \<in> set fx. seg_pos seg f div ?p < ?np"
    proof
      fix f assume f: "f \<in> set fx"
      have p0: "0 < ?p" using F(1) by (auto simp: pages_ok_def)
      have "last fx \<in> set fx" using False by simp
      then have lst: "in_segment seg (last fx)" "seg_pos seg (last fx) < unat (seg_vmsize (os_cmd seg))" using mem pos by blast+
      have "sorted_wrt (\<lambda>f g. seg_pos seg f + 8 \<le> seg_pos seg g) (butlast fx @ [last fx])" using srt False by simp
      then have "\<forall>g \<in> set (butlast fx). seg_pos seg g + 8 \<le> seg_pos seg (last fx)" by (simp add: sorted_wrt_append)
      moreover have "f \<in> set (butlast fx) \<or> f = last fx" using f False by (metis append_butlast_last_id in_set_butlastD rotate1.simps(2) set_ConsD set_rotate1)
      ultimately have "seg_pos seg f \<le> seg_pos seg (last fx)" by fastforce
      moreover have "seg_pos seg (last fx) < ?np * ?p"
        unfolding segment_pages_eq [OF small lst] using div_ceil_between [OF p0] by blast
      ultimately show "seg_pos seg f div ?p < ?np" using p0 by (simp add: div_less_iff_less_mult)
    qed
    moreover have "sorted_wrt (\<lambda>f g. seg_pos seg f \<le> seg_pos seg g) fx" by (rule sorted_wrt_mono_rel [OF _ srt]) simp
    ultimately have all: "concat (map (\<lambda>j. page_of seg ?p j fx) [0..<?np]) = fx" using pages_concat by blast
    have en: "enumerate 0 (map g [0..<n]) = map (\<lambda>j. (j, g j)) [0..<n]" for g :: "nat \<Rightarrow> nat" and n
      by (rule nth_equalityI) (simp_all add: nth_enumerate_eq)
    have "those (map (\<lambda>j. if unat (page_start seg ?p j fx) = 0xffff then Some []
          else dyld_walk 4096 buf' (unat (seg_fileoff (os_cmd seg)) + j * ?p + unat (page_start seg ?p j fx))) [0..<?np]) =
        Some (map (\<lambda>j. map (\<lambda>f. (fixup_off seg f, dyld_view ctx ?base seg buf f)) (page_of seg ?p j fx)) [0..<?np])"
      unfolding walks by (rule those_map_total) simp
    moreover have "concat (map (\<lambda>j. map (\<lambda>f. (fixup_off seg f, dyld_view ctx ?base seg buf f)) (page_of seg ?p j fx)) [0..<?np]) = es"
      unfolding es_def by (subst (2) all [symmetric]) (simp add: map_concat comp_def)
    ultimately show ?thesis using False by (simp add: dyld_segment_def st en comp_def)
  qed (simp add: dyld_segment_def st es_def)
  moreover have "list_all2 (dyld_reads imps ?base seg buf) fx es"
    unfolding es_def list_all2_map2 by (rule list_all2_all_nthI) (use dyld_view_reads [OF W(2) _ import_table_ok(1) [OF table]] in simp_all)
  moreover have "slice_at buf' p 1 = slice_at buf p 1"
    if "\<forall>seg \<in> set (lk_segments ?lk). \<forall>f \<in> set (fixups_of (cc_fixups ctx) seg). p < fixup_off seg f \<or> fixup_off seg f + 8 \<le> p" for p
    by (rule W(3)) (use that in \<open>simp add: Suc_le_eq\<close>)
  ultimately show ?thesis using W(1) unfolding seg_def [symmetric] fx_def [symmetric] by blast
qed

subsection \<open>A concrete image\<close>

text \<open>A segment of 24 bytes with a bind, a rebase and a bind of the same symbol with a large addend.\<close>

definition puts :: symbol where
  "puts = (symbol_new (bstr ''_puts''))\<lparr>sy_file_word := symbol_file_some (FDylib 0), sy_bits := F_IMPORTED\<rparr>"

definition data_segment :: out_segment where
  "data_segment =
     \<lparr>os_name = bstr ''__DATA'', os_chunks = [],
      os_cmd = \<lparr>seg_cmd = 0, seg_cmdsize = 0, seg_segname = [], seg_vmaddr = 8, seg_vmsize = 32, seg_fileoff = 0, seg_filesize = 32,
                seg_maxprot = 0, seg_initprot = 0, seg_nsects = 0, seg_flags = 0\<rparr>\<rparr>"

definition chain_link_ctx :: link where
  "chain_link_ctx = plain_link\<lparr>lk_arch := arch_x86_64, lk_segments := [data_segment],
     lk_dylibs := [\<lparr>dl_dylib_idx = 1, dl_binds_to_image = False, dl_is_lazy = False, dl_delay_init = None, dl_tlv_exports = [], dl_weak_exports = []\<rparr>],
     lk_symbols := \<lparr>st_shards = [], st_syms = [puts], st_aux = []\<rparr>\<rparr>"

definition three_fixups :: "fixup list" where
  "three_fixups = [(8, Some 0, 3), (16, None, 0), (32, Some 0, 1000)]"

definition chain_ctx_of :: "fixup list \<Rightarrow> chain_ctx" where
  "chain_ctx_of fx =
     \<lparr>cc_link = chain_link_ctx, cc_pie = True, cc_got_syms = [], cc_num_selrefs = 0, cc_selrefs = None, cc_data_blobs = [],
      cc_text_reloc_ranges = [], cc_unaligned_pointers = TrWarning, cc_fixups = fx, cc_ordinals = snd (import_table fx)\<rparr>"

definition three_image :: bytes where
  "three_image = replicate 8 0 @ le_bytes 8 (0x0100000000000018 :: u64) @ replicate 16 0"

definition three_payload :: bytes where
  "three_payload = fst (the (encode_payload chain_link_ctx three_fixups [(0, 0), (0, 1000)]))"

lemma three_table: "import_table three_fixups = ([(0, 0), (0, 1000)], cc_ordinals (chain_ctx_of three_fixups))"
proof -
  have "fst (import_table three_fixups) = [(0, 0), (0, 1000)]" by code_simp
  then show ?thesis by (simp add: chain_ctx_of_def prod_eq_iff)
qed

lemma three_run:
  "encode_payload chain_link_ctx three_fixups [(0, 0), (0, 1000)] \<noteq> None"
  "length three_payload = 96"
  "write_fixup_chains (chain_ctx_of three_fixups) three_image \<noteq> None"
  "fixups_of three_fixups data_segment = three_fixups"
  by code_simp+

lemma three_fit: "chains_fit (chain_ctx_of three_fixups)"
proof -
  have "pages_ok chain_link_ctx" by code_simp
  moreover have "\<not> la_preload (lk_args chain_link_ctx)" by code_simp
  moreover have "spaced three_fixups" by (simp add: spaced_def three_fixups_def)
  moreover have "segment_small data_segment" by (simp add: segment_small_def data_segment_def)
  moreover have "sorted_wrt apart (map (fixup_off data_segment) three_fixups)"
    by (simp add: three_fixups_def fixup_off_def data_segment_def)
  moreover have "segment_pages (seg_vmaddr (os_cmd data_segment)) (chain_page_size chain_link_ctx) three_fixups < 2 ^ 16"
    by (simp add: segment_pages_def data_segment_def three_fixups_def chain_page_size_def chain_link_ctx_def arch_x86_64_def div_ceil_def)
  moreover have "lk_segments chain_link_ctx = [data_segment]" by (simp add: chain_link_ctx_def)
  ultimately show ?thesis using three_run(4) by (simp add: chains_fit_def chain_ctx_of_def)
qed

theorem chains_applied_witness:
  "\<exists>payload err buf' es. encode_payload chain_link_ctx three_fixups [(0, 0), (0, 1000)] = Some (payload, err) \<and>
     write_fixup_chains (chain_ctx_of three_fixups) three_image = Some buf' \<and> dyld_segment payload buf' 0 0 = Some es \<and>
     list_all2 (dyld_reads [(0, 0), (0, 1000)] 0 data_segment three_image) three_fixups es \<and> length buf' = 32"
proof -
  obtain payload err where p: "encode_payload chain_link_ctx three_fixups [(0, 0), (0, 1000)] = Some (payload, err)" using three_run(1) by fastforce
  obtain buf' where b: "write_fixup_chains (chain_ctx_of three_fixups) three_image = Some buf'" using three_run(3) by fastforce
  have c: "cc_link (chain_ctx_of three_fixups) = chain_link_ctx" "cc_fixups (chain_ctx_of three_fixups) = three_fixups" by (simp_all add: chain_ctx_of_def)
  have "payload = three_payload" by (simp add: three_payload_def p)
  then have len: "length payload < 2 ^ 32" using three_run(2) by simp
  have s: "lk_segments chain_link_ctx = [data_segment]" "unat (seg_fileoff (os_cmd data_segment)) = 0" by (simp_all add: chain_link_ctx_def data_segment_def)
  have base: "chain_target_base chain_link_ctx = 0" by code_simp
  have img: "length three_image = 32" by code_simp
  from chains_applied [OF three_fit, unfolded c, OF three_table _ p len b, of 0]
  obtain es where "dyld_segment payload buf' 0 0 = Some es" "list_all2 (dyld_reads [(0, 0), (0, 1000)] 0 data_segment three_image) three_fixups es"
    "length buf' = 32" using s base img three_run(4) by auto
  then show ?thesis using p b by blast
qed

text \<open>
  The 8-bit field of the narrow import formats takes a large library ordinal for a special one: the
  254th library reads as a flat lookup. The name's offset loses its high bits in the same word.
\<close>

lemma narrow_import_fields:
  "low_bits 8 254 = low_bits 8 BIND_SPECIAL_DYLIB_FLAT_LOOKUP" "push_bit 9 (2 ^ 23 + n :: u32) = push_bit 9 n"
proof -
  show "low_bits 8 254 = low_bits 8 BIND_SPECIAL_DYLIB_FLAT_LOOKUP" by code_simp
  have "push_bit 9 (2 ^ 23) = (0 :: u32)" by code_simp
  then show "push_bit 9 (2 ^ 23 + n) = push_bit 9 n" by (simp only: push_bit_add add_0)
qed

end
