(* ===== verification/Arm64.thy ===== *)
theory Arm64
  imports Link
begin

unbundle bit_operations_syntax

section \<open>ARM64 instructions and the compiler's hints (\<open>arch/arm64.rs\<close>)\<close>

text \<open>
  The immediates relocations fill, the instructions the linker takes apart and makes, and the
  linker optimization hints, by which it shortens the address sequences a compiler marked. Slices of
  the output are the bytes from their start on; \<open>None\<close> is an access out of range.
\<close>

subsection \<open>Immediates\<close>

definition B_IMM :: u32 where "B_IMM = 0x03ffffff"
definition ADRP_IMM :: u32 where "ADRP_IMM = 0x60ffffe0"
definition IMM12 :: u32 where "IMM12 = 0x003ffc00"
definition NOP_INSN :: u32 where "NOP_INSN = 0xd503201f"

definition page :: "u64 \<Rightarrow> u64" where
  "page val = val AND NOT 0xfff"

definition page_offset :: "u64 \<Rightarrow> u64 \<Rightarrow> u32" where
  "page_offset hi lo =
     (let val = page hi - page lo in ucast (push_bit 29 (bits val 13 12) OR push_bit 5 (bits val 32 14)))"

definition write_adrp :: "bytes \<Rightarrow> u64 \<Rightarrow> u64 \<Rightarrow> bytes option" where
  "write_adrp loc hi lo =
     do { insn \<leftarrow> read32 loc; write32 loc ((insn AND NOT ADRP_IMM) OR page_offset hi lo) }"

definition adrp_reaches :: "u64 \<Rightarrow> u64 \<Rightarrow> bool" where
  "adrp_reaches hi lo \<longleftrightarrow> (let delta = sint (page hi - page lo) in - (2 ^ 32) \<le> delta \<and> delta < 2 ^ 32)"

definition is_ldr_imm :: "u32 \<Rightarrow> bool" where
  "is_ldr_imm insn \<longleftrightarrow> insn AND 0xbfc00000 = 0xb9400000"

text \<open>The left value is the access size that does not divide the target.\<close>

definition ldst_scale :: "u32 \<Rightarrow> nat" where
  "ldst_scale insn =
     (if insn AND 0x3b000000 = 0x39000000
      then let scale = unat (bits (ucast insn) 31 30)
           in if scale = 0 \<and> insn AND 0x04800000 = 0x04800000 then 4 else scale
      else 0)"

definition write_add_ldst :: "bytes \<Rightarrow> u64 \<Rightarrow> (u32 + bytes) option" where
  "write_add_ldst loc val =
     do { insn \<leftarrow> read32 loc;
          let scale = ldst_scale insn;
          if 0 < scale \<and> val AND (push_bit scale 1 - 1) \<noteq> 0 then Some (Inl (push_bit scale 1))
          else do { let imm = push_bit 10 (ucast (bits val 11 scale));
                    map_option Inr (write32 loc ((insn AND NOT IMM12) OR imm)) } }"

text \<open>ld64's withinOneMeg: whether \<open>to\<close> is in reach of an adr or a literal load at \<open>from\<close>.\<close>

definition within_1mb :: "u64 \<Rightarrow> u64 \<Rightarrow> bool" where
  "within_1mb frm to \<longleftrightarrow> (let delta = sint (to - frm) in - (2 ^ 20) < delta \<and> delta < 2 ^ 20)"

definition is_adrp :: "u32 \<Rightarrow> bool" where
  "is_adrp insn \<longleftrightarrow> insn AND 0x9f000000 = 0x90000000"

definition adrp_page :: "u32 \<Rightarrow> u64 \<Rightarrow> u64" where
  "adrp_page insn pc =
     (let imm = bits (ucast insn) 30 29 OR push_bit 2 (bits (ucast insn) 23 5)
      in page pc + push_bit 12 (sign_extend imm 21))"

definition adr :: "u32 \<Rightarrow> u64 \<Rightarrow> u64 \<Rightarrow> u32" where
  "adr rd target pc =
     (let delta = ucast (target - pc)
      in 0x10000000 OR push_bit 29 (delta AND 3) OR push_bit 3 (delta AND 0x1ffffc) OR rd)"

subsection \<open>Instructions taken apart\<close>

record add_insn =
  ad_rd :: u32
  ad_rn :: u32
  ad_imm :: u64

definition parse_add :: "u32 \<Rightarrow> add_insn option" where
  "parse_add insn =
     (if insn AND 0xffc00000 = 0x91000000
      then Some \<lparr>ad_rd = insn AND 0x1f, ad_rn = drop_bit 5 insn AND 0x1f, ad_imm = bits (ucast insn) 21 10\<rparr>
      else None)"

record load_store =
  ls_insn :: u32
  ls_reg :: u32
  ls_base :: u32
  ls_offset :: u64
  ls_size :: u64
  ls_is_store :: bool
  ls_is_float :: bool
  ls_is_ldrsw :: bool

definition ldst_kind :: "u32 \<Rightarrow> bool \<Rightarrow> (u64 \<times> bool) option" where
  "ldst_kind f is_float =
     (if f = 0 then Some (1, True)
      else if f = 0x00400000 then Some (1, False)
      else if f = 0x00800000 \<and> is_float then Some (16, True)
      else if f = 0x00c00000 \<and> is_float then Some (16, False)
      else if f = 0x00800000 \<or> f = 0x00c00000 then Some (1, False)
      else if f = 0x40000000 then Some (2, True)
      else if f = 0x40400000 \<or> f = 0x40800000 \<or> f = 0x40c00000 then Some (2, False)
      else if f = 0x80000000 then Some (4, True)
      else if f = 0x80400000 \<or> f = 0x80800000 then Some (4, False)
      else if f = 0xc0000000 then Some (8, True)
      else if f = 0xc0400000 then Some (8, False)
      else None)"

definition parse_ldst :: "u32 \<Rightarrow> load_store option" where
  "parse_ldst insn =
     (if insn AND 0x3b000000 \<noteq> 0x39000000 then None
      else let is_float = (insn AND 0x04000000 \<noteq> 0)
           in map_option (\<lambda>(sz, is_store).
                \<lparr>ls_insn = insn, ls_reg = insn AND 0x1f, ls_base = drop_bit 5 insn AND 0x1f,
                 ls_offset = bits (ucast insn) 21 10 * sz, ls_size = sz, ls_is_store = is_store,
                 ls_is_float = is_float, ls_is_ldrsw = (insn AND 0xc0c00000 = 0x80800000)\<rparr>)
                (ldst_kind (insn AND 0xc0c00000) is_float))"

definition has_literal_form :: "load_store \<Rightarrow> bool" where
  "has_literal_form ls \<longleftrightarrow> 4 \<le> ls_size ls \<and> \<not> ls_is_store ls"

definition literal_op :: "load_store \<Rightarrow> u32" where
  "literal_op ls =
     (if ls_size ls = 4 \<and> ls_is_float ls then 0x1c000000
      else if ls_size ls = 4 \<and> ls_is_ldrsw ls then 0x98000000
      else if ls_size ls = 4 then 0x18000000
      else if ls_size ls = 8 \<and> ls_is_float ls then 0x5c000000
      else if ls_size ls = 8 then 0x58000000
      else 0x9c000000)"

definition to_literal :: "load_store \<Rightarrow> u64 \<Rightarrow> u64 \<Rightarrow> u32" where
  "to_literal ls target pc =
     (let delta = ucast (target - pc) in literal_op ls OR (push_bit 3 delta AND 0x00ffffe0) OR ls_reg ls)"

definition with_base :: "load_store \<Rightarrow> u32 \<Rightarrow> u64 \<Rightarrow> u32" where
  "with_base ls base offset =
     (ls_insn ls AND 0xffc0001f) OR push_bit 5 base OR push_bit 10 (ucast (offset div ls_size ls))"

subsection \<open>Hints\<close>

text \<open>Whether a relocation is a half of a reference: of a GOT slot's, or one relaxed from it, if \<open>got\<close>.\<close>

definition is_page_rel :: "reloc option \<Rightarrow> bool \<Rightarrow> bool" where
  "is_page_rel rel got \<longleftrightarrow>
     (case rel of
        Some r \<Rightarrow> (if rl_ty r = ARM64_RELOC_PAGE21 then \<not> got
                  else rl_ty r \<in> {ARM64_RELOC_GOT_LOAD_PAGE21, ARM64_RELOC_TLVP_LOAD_PAGE21})
      | None \<Rightarrow> False)"

definition is_pageoff_rel :: "reloc option \<Rightarrow> bool \<Rightarrow> bool" where
  "is_pageoff_rel rel got \<longleftrightarrow>
     (case rel of
        Some r \<Rightarrow> (if rl_ty r = ARM64_RELOC_PAGEOFF12 then \<not> got
                  else rl_ty r \<in> {ARM64_RELOC_GOT_LOAD_PAGEOFF12, ARM64_RELOC_TLVP_LOAD_PAGEOFF12})
      | None \<Rightarrow> False)"

text \<open>A hint's three places are a function of their index.\<close>

record hint_insn =
  hi_off :: nat
  hi_addr :: u64
  hi_rel :: "reloc option"

record hint =
  ht_buf :: bytes
  ht_insns :: "nat \<Rightarrow> hint_insn"
  ht_n :: nat

definition hint_get :: "hint \<Rightarrow> nat \<Rightarrow> u32 option" where
  "hint_get h i = read32 (drop (hi_off (ht_insns h i)) (ht_buf h))"

definition hint_set :: "nat \<Rightarrow> u32 \<Rightarrow> hint \<Rightarrow> hint option" where
  "hint_set i insn h = map_option (\<lambda>b. h\<lparr>ht_buf := b\<rparr>) (copy_at (ht_buf h) (hi_off (ht_insns h i)) (le_bytes 4 insn))"

definition hint_addr :: "hint \<Rightarrow> nat \<Rightarrow> u64" where
  "hint_addr h i = hi_addr (ht_insns h i)"

definition hint_rel :: "hint \<Rightarrow> nat \<Rightarrow> reloc option" where
  "hint_rel h i = hi_rel (ht_insns h i)"

definition has_page_pair :: "hint \<Rightarrow> bool \<Rightarrow> bool" where
  "has_page_pair h got \<longleftrightarrow>
     (let a = hint_rel h 0; b = hint_rel h 1
      in is_page_rel a got \<and> is_pageoff_rel b got \<and>
         map_option (\<lambda>r. (reloc_target_of r, rl_addend r)) a = map_option (\<lambda>r. (reloc_target_of r, rl_addend r)) b \<and>
         (ht_n h < 3 \<or> hint_rel h 2 = None))"

definition loh_adrp_adrp :: "hint \<Rightarrow> hint option" where
  "loh_adrp_adrp h =
     do { a \<leftarrow> hint_get h 0; b \<leftarrow> hint_get h 1;
          if is_page_rel (hint_rel h 0) False \<and> is_page_rel (hint_rel h 1) False \<and> is_adrp a \<and> is_adrp b \<and>
             a AND 0x1f = b AND 0x1f \<and> adrp_page a (hint_addr h 0) = adrp_page b (hint_addr h 1)
          then hint_set 1 NOP_INSN h else Some h }"

definition loh_adrp_ldr :: "hint \<Rightarrow> hint option" where
  "loh_adrp_ldr h =
     do { a \<leftarrow> hint_get h 0; b \<leftarrow> hint_get h 1;
          case parse_ldst b of
            None \<Rightarrow> Some h
          | Some ld \<Rightarrow>
              if \<not> has_page_pair h False \<or> \<not> is_adrp a \<or> ls_base ld \<noteq> a AND 0x1f then Some h
              else let target = adrp_page a (hint_addr h 0) + ls_offset ld
                   in if has_literal_form ld \<and> target mod 4 = 0 \<and> within_1mb (hint_addr h 1) target
                      then do { h \<leftarrow> hint_set 0 NOP_INSN h; hint_set 1 (to_literal ld target (hint_addr h 1)) h }
                      else Some h }"

definition loh_adrp_add :: "hint \<Rightarrow> hint option" where
  "loh_adrp_add h =
     do { a \<leftarrow> hint_get h 0; b \<leftarrow> hint_get h 1;
          case parse_add b of
            None \<Rightarrow> Some h
          | Some add \<Rightarrow>
              if \<not> has_page_pair h False \<or> \<not> is_adrp a \<or> ad_rn add \<noteq> a AND 0x1f then Some h
              else let target = adrp_page a (hint_addr h 0) + ad_imm add
                   in if within_1mb (hint_addr h 0) target
                      then do { h \<leftarrow> hint_set 0 (adr (ad_rd add) target (hint_addr h 0)) h; hint_set 1 NOP_INSN h }
                      else Some h }"

definition adrp_add_ldst :: "hint \<Rightarrow> (u64 \<times> add_insn \<times> load_store) option option" where
  "adrp_add_ldst h =
     do { a \<leftarrow> hint_get h 0; b \<leftarrow> hint_get h 1;
          case parse_add b of
            None \<Rightarrow> Some None
          | Some add \<Rightarrow>
              do { c \<leftarrow> hint_get h 2;
                   case parse_ldst c of
                     None \<Rightarrow> Some None
                   | Some ls \<Rightarrow>
                       Some (if has_page_pair h False \<and> is_adrp a \<and> ad_rn add = a AND 0x1f \<and> ls_base ls = ad_rd add
                             then Some (adrp_page a (hint_addr h 0) + ad_imm add, add, ls) else None) } }"

definition loh_adrp_add_ldr :: "hint \<Rightarrow> hint option" where
  "loh_adrp_add_ldr h =
     do { r \<leftarrow> adrp_add_ldst h;
          case r of
            None \<Rightarrow> Some h
          | Some (addr, add, ld) \<Rightarrow>
              let target = addr + ls_offset ld
              in if has_literal_form ld \<and> target mod 4 = 0 \<and> within_1mb (hint_addr h 2) target
                 then do { h \<leftarrow> hint_set 0 NOP_INSN h; h \<leftarrow> hint_set 1 NOP_INSN h;
                           hint_set 2 (to_literal ld target (hint_addr h 2)) h }
                 else if within_1mb (hint_addr h 0) target
                 then do { h \<leftarrow> hint_set 0 (adr (ls_base ld) target (hint_addr h 0)) h; h \<leftarrow> hint_set 1 NOP_INSN h;
                           hint_set 2 (with_base ld (ls_base ld) 0) h }
                 else if addr mod ls_size ld = 0 \<and> ls_offset ld = 0
                 then do { h \<leftarrow> hint_set 1 NOP_INSN h; hint_set 2 (with_base ld (ad_rn add) (ad_imm add)) h }
                 else Some h }"

definition loh_adrp_add_str :: "hint \<Rightarrow> hint option" where
  "loh_adrp_add_str h =
     do { r \<leftarrow> adrp_add_ldst h;
          case r of
            None \<Rightarrow> Some h
          | Some (addr, add, st) \<Rightarrow>
              if \<not> ls_is_store st then Some h
              else let target = addr + ls_offset st
              in if within_1mb (hint_addr h 0) target
                 then do { h \<leftarrow> hint_set 0 (adr (ls_base st) target (hint_addr h 0)) h; h \<leftarrow> hint_set 1 NOP_INSN h;
                           hint_set 2 (with_base st (ls_base st) 0) h }
                 else if addr mod ls_size st = 0 \<and> ls_offset st = 0
                 then do { h \<leftarrow> hint_set 1 NOP_INSN h; hint_set 2 (with_base st (ad_rn add) (ad_imm add)) h }
                 else Some h }"

datatype got_load = GlSlot u64 load_store | GlRelaxed u64 add_insn

definition hint_got_load :: "hint \<Rightarrow> got_load option option" where
  "hint_got_load h =
     do { a \<leftarrow> hint_get h 0;
          if \<not> has_page_pair h True \<or> \<not> is_adrp a then Some None
          else do { let pg = adrp_page a (hint_addr h 0);
                    b \<leftarrow> hint_get h 1;
                    Some (case parse_ldst b of
                            Some ld \<Rightarrow>
                              if ls_size ld = 8 \<and> \<not> ls_is_float ld \<and> \<not> ls_is_store ld \<and> ls_base ld = a AND 0x1f
                              then Some (GlSlot (pg + ls_offset ld) ld) else None
                          | None \<Rightarrow>
                              (case parse_add b of
                                 None \<Rightarrow> None
                               | Some add \<Rightarrow> if ad_rn add = a AND 0x1f then Some (GlRelaxed (pg + ad_imm add) add) else None)) } }"

definition loh_adrp_ldr_got :: "hint \<Rightarrow> hint option" where
  "loh_adrp_ldr_got h =
     do { g \<leftarrow> hint_got_load h;
          case g of
            None \<Rightarrow> Some h
          | Some (GlSlot slot got) \<Rightarrow>
              if within_1mb (hint_addr h 1) slot
              then do { h \<leftarrow> hint_set 0 NOP_INSN h; hint_set 1 (to_literal got slot (hint_addr h 1)) h }
              else Some h
          | Some (GlRelaxed target add) \<Rightarrow>
              if within_1mb (hint_addr h 0) target
              then do { h \<leftarrow> hint_set 0 (adr (ad_rd add) target (hint_addr h 0)) h; hint_set 1 NOP_INSN h }
              else Some h }"

definition got_literal :: "hint \<Rightarrow> u64 \<Rightarrow> load_store \<Rightarrow> load_store \<Rightarrow> hint option" where
  "got_literal h slot got ls =
     (let to = slot + ls_offset ls
      in if ls_base ls = ls_reg got \<and> to mod 4 = 0 \<and> within_1mb (hint_addr h 1) to \<and> within_1mb (hint_addr h 1) slot
         then do { h \<leftarrow> hint_set 0 NOP_INSN h; hint_set 1 (to_literal got slot (hint_addr h 1)) h }
         else Some h)"

definition loh_adrp_ldr_got_ldr :: "hint \<Rightarrow> hint option" where
  "loh_adrp_ldr_got_ldr h =
     do { c \<leftarrow> hint_get h 2;
          case parse_ldst c of
            None \<Rightarrow> Some h
          | Some ld \<Rightarrow>
              do { g \<leftarrow> hint_got_load h;
                   case g of
                     None \<Rightarrow> Some h
                   | Some (GlSlot slot got) \<Rightarrow> got_literal h slot got ld
                   | Some (GlRelaxed target add) \<Rightarrow>
                       if ad_rd add \<noteq> ls_base ld then Some h
                       else if has_literal_form ld \<and> target mod 4 = 0 \<and> within_1mb (hint_addr h 2) (target + ls_offset ld)
                       then do { h \<leftarrow> hint_set 0 NOP_INSN h; h \<leftarrow> hint_set 1 NOP_INSN h;
                                 hint_set 2 (to_literal ld (target + ls_offset ld) (hint_addr h 2)) h }
                       else if within_1mb (hint_addr h 0) target
                       then do { h \<leftarrow> hint_set 0 (adr (ls_base ld) target (hint_addr h 0)) h; hint_set 1 NOP_INSN h }
                       else if target mod ls_size ld = 0 \<and> ad_imm add + ls_offset ld < 4096
                       then do { h \<leftarrow> hint_set 1 NOP_INSN h; hint_set 2 (with_base ld (ad_rn add) (ad_imm add + ls_offset ld)) h }
                       else Some h } }"

definition loh_adrp_ldr_got_str :: "hint \<Rightarrow> hint option" where
  "loh_adrp_ldr_got_str h =
     do { c \<leftarrow> hint_get h 2;
          case (case parse_ldst c of Some st \<Rightarrow> if ls_is_store st then Some st else None | None \<Rightarrow> None) of
            None \<Rightarrow> Some h
          | Some st \<Rightarrow>
              do { g \<leftarrow> hint_got_load h;
                   case g of
                     None \<Rightarrow> Some h
                   | Some (GlSlot slot got) \<Rightarrow> got_literal h slot got st
                   | Some (GlRelaxed target add) \<Rightarrow>
                       if ad_rd add \<noteq> ls_base st then Some h
                       else if within_1mb (hint_addr h 0) target
                       then do { h \<leftarrow> hint_set 0 (adr (ls_base st) target (hint_addr h 0)) h; hint_set 1 NOP_INSN h }
                       else if target mod ls_size st = 0 \<and> ls_offset st = 0
                       then do { h \<leftarrow> hint_set 1 NOP_INSN h; hint_set 2 (with_base st (ad_rn add) (ad_imm add)) h }
                       else Some h } }"

text \<open>How many instructions a kind of hint names, and what is done with it; \<open>None\<close> for a kind left alone.\<close>

definition hint_kind :: "u8 \<Rightarrow> (nat \<times> (hint \<Rightarrow> hint option)) option" where
  "hint_kind kind =
     (if kind = LOH_ARM64_ADRP_ADRP then Some (2, loh_adrp_adrp)
      else if kind = LOH_ARM64_ADRP_LDR then Some (2, loh_adrp_ldr)
      else if kind = LOH_ARM64_ADRP_ADD_LDR then Some (3, loh_adrp_add_ldr)
      else if kind = LOH_ARM64_ADRP_LDR_GOT_LDR then Some (3, loh_adrp_ldr_got_ldr)
      else if kind = LOH_ARM64_ADRP_ADD_STR then Some (3, loh_adrp_add_str)
      else if kind = LOH_ARM64_ADRP_LDR_GOT_STR then Some (3, loh_adrp_ldr_got_str)
      else if kind = LOH_ARM64_ADRP_ADD then Some (2, loh_adrp_add)
      else if kind = LOH_ARM64_ADRP_LDR_GOT then Some (2, loh_adrp_ldr_got)
      else None)"


subsection \<open>Where a hint's instructions are\<close>

record hint_object =
  hb_obj :: object_file
  hb_subsecs :: "u32 list"
  hb_mach_syms :: "mach_sym list"
  hb_loh :: "(u8 \<times> u64 list) list"

definition find_subsec :: "link \<Rightarrow> u32 list \<Rightarrow> u64 \<Rightarrow> (nat \<times> u64) option option" where
  "find_subsec ctx subsecs addr =
     do { starts \<leftarrow> those (map (\<lambda>i. map_option is_input_addr (nth_opt (lk_isecs ctx) (unat i))) subsecs);
          let i = length (takeWhile (\<lambda>a. ucast a \<le> addr) starts);
          if i = 0 then Some None
          else do { sid \<leftarrow> map_option unat (nth_opt subsecs (i - 1));
                    isec \<leftarrow> nth_opt (lk_isecs ctx) sid;
                    Some (if addr < ucast (is_input_addr isec) + ucast (is_size isec) \<or>
                             is_size isec = 0 \<and> addr = ucast (is_input_addr isec)
                          then Some (sid, addr - ucast (is_input_addr isec)) else None) } }"

definition spans_symbol :: "mach_sym list \<Rightarrow> u32 \<Rightarrow> u64 \<Rightarrow> u64 \<Rightarrow> bool" where
  "spans_symbol msyms sect lo hi \<longleftrightarrow>
     list_ex (\<lambda>m. \<not> is_stab m \<and> sym_ty m = N_SECT \<and> ucast (sym_sect m) = sect \<and> lo < sym_value m \<and> sym_value m \<le> hi) msyms"

definition hint_subsec :: "link \<Rightarrow> hint_object \<Rightarrow> u64 list \<Rightarrow> nat option option" where
  "hint_subsec ctx obj addrs =
     (if addrs = [] then Some None
      else let lo = Min (set addrs); hi = Max (set addrs)
      in do { found \<leftarrow> find_subsec ctx (hb_subsecs obj) lo;
              case found of
                None \<Rightarrow> Some None
              | Some (sid, _) \<Rightarrow>
                  do { isec \<leftarrow> nth_opt (lk_isecs ctx) sid;
                       hdr \<leftarrow> nth_opt (ob_sect_hdrs (hb_obj obj)) (unat (is_shndx isec));
                       Some (if ms_flags hdr AND S_ATTR_PURE_INSTRUCTIONS \<noteq> 0 \<and> length addrs \<le> 3 \<and>
                                list_all (\<lambda>a. a mod 4 = 0) addrs \<and> hi - lo \<le> 0xffff \<and>
                                hi + 4 \<le> ucast (is_input_addr isec) + ucast (is_size isec) \<and>
                                (ob_subsections_via_symbols (hb_obj obj) \<or>
                                 \<not> spans_symbol (hb_mach_syms obj) (is_shndx isec + 1) lo hi)
                             then Some sid else None) } })"

definition no_hint_insn :: hint_insn where
  "no_hint_insn = \<lparr>hi_off = 0, hi_addr = 0, hi_rel = None\<rparr>"

definition hint_insn_at :: "u64 \<Rightarrow> input_section \<Rightarrow> reloc list \<Rightarrow> u64 \<Rightarrow> hint_insn" where
  "hint_insn_at base isec rels addr =
     (let off = addr - ucast (is_input_addr isec);
          i = length (takeWhile (\<lambda>r. ucast (rl_offset r) < off) rels)
      in \<lparr>hi_off = unat off, hi_addr = base + off,
          hi_rel = (case nth_opt rels i of Some r \<Rightarrow> if ucast (rl_offset r) = off then Some r else None | None \<Rightarrow> None)\<rparr>)"

text \<open>The range of the output the hint's subsection takes, its start and its length.\<close>

definition hint_insns :: "link \<Rightarrow> hint_object \<Rightarrow> u64 list \<Rightarrow> ((nat \<times> nat) \<times> (nat \<Rightarrow> hint_insn)) option option" where
  "hint_insns ctx obj addrs =
     do { found \<leftarrow> hint_subsec ctx obj addrs;
          case found of
            None \<Rightarrow> Some None
          | Some sid \<Rightarrow>
              do { isec \<leftarrow> nth_opt (lk_isecs ctx) sid;
                   if \<not> is_emitted isec \<or> is_offset isec = 0xffffffff then Some None
                   else case isec_output_section isec of
                     None \<Rightarrow> Some None
                   | Some osec \<Rightarrow>
                       do { hdr \<leftarrow> chunk_header_of ctx osec;
                            file \<leftarrow> nth_opt (lk_objs ctx) (unat (is_file isec));
                            rels \<leftarrow> isec_rels isec (ob_relocs file);
                            let base = ch_addr hdr + ucast (is_offset isec);
                            let start = unat (ch_fileoff hdr + ucast (is_offset isec) :: u64);
                            Some (Some ((start, unat (is_size isec)),
                              (\<lambda>i. if i < min 3 (length addrs) then hint_insn_at base isec rels (addrs ! i) else no_hint_insn))) } } }"

definition apply_hint :: "link \<Rightarrow> hint_object \<Rightarrow> u8 \<times> u64 list \<Rightarrow> bytes \<Rightarrow> bytes option" where
  "apply_hint ctx obj = (\<lambda>(kind, addrs) buf.
     case hint_kind kind of
       None \<Rightarrow> Some buf
     | Some (n, rewrite) \<Rightarrow>
         if length addrs \<noteq> n then Some buf
         else do { found \<leftarrow> hint_insns ctx obj addrs;
                   case found of
                     None \<Rightarrow> Some buf
                   | Some ((start, len), insns) \<Rightarrow>
                       do { part \<leftarrow> slice_at buf start len;
                            h \<leftarrow> rewrite \<lparr>ht_buf = part, ht_insns = insns, ht_n = n\<rparr>;
                            copy_at buf start (ht_buf h) } })"

fun apply_hint_list :: "link \<Rightarrow> hint_object \<Rightarrow> (u8 \<times> u64 list) list \<Rightarrow> bytes \<Rightarrow> bytes option" where
  "apply_hint_list ctx obj [] buf = Some buf"
| "apply_hint_list ctx obj (l # loh) buf = do { buf \<leftarrow> apply_hint ctx obj l buf; apply_hint_list ctx obj loh buf }"

text \<open>
  The objects run in parallel in the code, each on subsections of its own; here they go one after
  another. AdrpAdrp goes last.
\<close>

fun apply_hints :: "link \<Rightarrow> hint_object list \<Rightarrow> bytes \<Rightarrow> bytes option" where
  "apply_hints ctx [] buf = Some buf"
| "apply_hints ctx (obj # objs) buf =
     (if \<not> ob_is_reachable (hb_obj obj) then apply_hints ctx objs buf
      else do { buf \<leftarrow> apply_hint_list ctx obj (filter (\<lambda>l. fst l \<noteq> LOH_ARM64_ADRP_ADRP) (hb_loh obj)) buf;
                buf \<leftarrow> apply_hint_list ctx obj (filter (\<lambda>l. fst l = LOH_ARM64_ADRP_ADRP) (hb_loh obj)) buf;
                apply_hints ctx objs buf })"

end
