(* ===== verification/Arm64Machine.thy ===== *)
theory Arm64Machine
  imports Arm64
begin

unbundle bit_operations_syntax

section \<open>What ARM64 instructions do\<close>

text \<open>
  A machine for the instructions the linker writes and takes apart, from the architecture manual:
  the general registers, the stack pointer, the vector registers and memory. The lemmas give what an
  instruction encoded or parsed by \<open>Arm64\<close> does on it.
\<close>

subsection \<open>What the instructions do\<close>

text \<open>
  The state of a thread, as far as these instructions go: the general registers, the stack
  pointer, the vector registers and memory. Register 31 is the stack pointer as a base and in an
  add, and zero elsewhere.
\<close>

record mach =
  mx :: "u32 \<Rightarrow> u64"
  msp :: u64
  mv :: "u32 \<Rightarrow> 128 word"
  mm :: "u64 \<Rightarrow> u8"

definition fld :: "nat \<Rightarrow> nat \<Rightarrow> u32 \<Rightarrow> u32" where
  "fld lo n insn = take_bit n (drop_bit lo insn)"

definition sext :: "nat \<Rightarrow> u32 \<Rightarrow> u64" where
  "sext n w = signed_take_bit (n - 1) (ucast w)"

definition get_sp :: "u32 \<Rightarrow> mach \<Rightarrow> u64" where
  "get_sp r s = (if r = 31 then msp s else mx s r)"

definition get_z :: "u32 \<Rightarrow> mach \<Rightarrow> u64" where
  "get_z r s = (if r = 31 then 0 else mx s r)"

definition set_sp :: "u32 \<Rightarrow> u64 \<Rightarrow> mach \<Rightarrow> mach" where
  "set_sp r v s = (if r = 31 then s\<lparr>msp := v\<rparr> else s\<lparr>mx := (mx s)(r := v)\<rparr>)"

definition set_z :: "u32 \<Rightarrow> u64 \<Rightarrow> mach \<Rightarrow> mach" where
  "set_z r v s = (if r = 31 then s else s\<lparr>mx := (mx s)(r := v)\<rparr>)"

definition set_v :: "u32 \<Rightarrow> 128 word \<Rightarrow> mach \<Rightarrow> mach" where
  "set_v r v s = s\<lparr>mv := (mv s)(r := v)\<rparr>"

definition load_mem :: "nat \<Rightarrow> u64 \<Rightarrow> mach \<Rightarrow> 'a::len word" where
  "load_mem n a s = from_le (map (\<lambda>i. mm s (a + of_nat i)) [0..<n])"

definition store_mem :: "nat \<Rightarrow> u64 \<Rightarrow> 'a::len word \<Rightarrow> mach \<Rightarrow> mach" where
  "store_mem n a v s =
     s\<lparr>mm := fold (\<lambda>i m. m(a + of_nat i := ucast (drop_bit (8 * i) v))) [0..<n] (mm s)\<rparr>"

text \<open>
  A load or store of register \<open>t\<close> at an address, by the size field and the opc field; \<open>None\<close> is an
  unallocated encoding or a prefetch.
\<close>

definition access :: "bool \<Rightarrow> u32 \<Rightarrow> u32 \<Rightarrow> u32 \<Rightarrow> u64 \<Rightarrow> mach \<Rightarrow> mach option" where
  "access vec sz opc t a s =
     (let n = 2 ^ unat sz
      in if vec
         then if opc = 0 then Some (store_mem n a (mv s t) s)
              else if opc = 1 then Some (set_v t (load_mem n a s) s)
              else if sz \<noteq> 0 then None
              else if opc = 2 then Some (store_mem 16 a (mv s t) s)
              else Some (set_v t (load_mem 16 a s) s)
         else if opc = 0 then Some (store_mem n a (get_z t s) s)
              else if opc = 1 then Some (set_z t (load_mem n a s) s)
              else if opc = 2 then
                if sz = 3 then None
                else Some (set_z t (signed_take_bit (8 * n - 1) (load_mem n a s)) s)
              else if 2 \<le> sz then None
              else Some (set_z t (ucast (signed_take_bit (8 * n - 1) (load_mem n a s :: u32))) s))"

definition access_scale :: "bool \<Rightarrow> u32 \<Rightarrow> u32 \<Rightarrow> nat" where
  "access_scale vec sz opc = (if vec \<and> sz = 0 \<and> 2 \<le> opc then 4 else unat sz)"

text \<open>A load from a literal by its opc field: w, x, sign-extended w, or s, d, q.\<close>

definition literal_access :: "bool \<Rightarrow> u32 \<Rightarrow> u32 \<Rightarrow> u64 \<Rightarrow> mach \<Rightarrow> mach option" where
  "literal_access vec opc t a s =
     (if vec then if opc = 0 then access True 2 1 t a s
                  else if opc = 1 then access True 3 1 t a s
                  else if opc = 2 then access True 0 3 t a s else None
      else if opc = 0 then access False 2 1 t a s
      else if opc = 1 then access False 3 1 t a s
      else if opc = 2 then access False 2 2 t a s else None)"

text \<open>One instruction at \<open>pc\<close>: where the next one is, and the state.\<close>

definition step :: "u64 \<Rightarrow> u32 \<Rightarrow> mach \<Rightarrow> (u64 \<times> mach) option" where
  "step pc insn s =
     (if insn = NOP_INSN then Some (pc + 4, s)
      else if insn AND 0x9f000000 = 0x90000000 then
        Some (pc + 4, set_z (fld 0 5 insn) (push_bit 12 (drop_bit 12 pc + sext 21 (push_bit 2 (fld 5 19 insn) OR fld 29 2 insn))) s)
      else if insn AND 0x9f000000 = 0x10000000 then
        Some (pc + 4, set_z (fld 0 5 insn) (pc + sext 21 (push_bit 2 (fld 5 19 insn) OR fld 29 2 insn)) s)
      else if insn AND 0xffc00000 = 0x91000000 then
        Some (pc + 4, set_sp (fld 0 5 insn) (get_sp (fld 5 5 insn) s + ucast (fld 10 12 insn)) s)
      else if insn AND 0x3b000000 = 0x39000000 then
        let vec = (fld 26 1 insn = 1); sz = fld 30 2 insn; opc = fld 22 2 insn
        in map_option (Pair (pc + 4))
             (access vec sz opc (fld 0 5 insn) (get_sp (fld 5 5 insn) s + push_bit (access_scale vec sz opc) (ucast (fld 10 12 insn))) s)
      else if insn AND 0x3b000000 = 0x18000000 then
        map_option (Pair (pc + 4))
          (literal_access (fld 26 1 insn = 1) (fld 30 2 insn) (fld 0 5 insn) (pc + push_bit 2 (sext 19 (fld 5 19 insn))) s)
      else if insn AND 0xfc000000 = 0x14000000 then Some (pc + push_bit 2 (sext 26 (fld 0 26 insn)), s)
      else if insn AND 0xfc000000 = 0x94000000 then Some (pc + push_bit 2 (sext 26 (fld 0 26 insn)), set_z 30 (pc + 4) s)
      else if insn AND 0xfffffc1f = 0xd61f0000 then Some (get_z (fld 5 5 insn) s, s)
      else if insn AND 0xfffffc1f = 0xd65f0000 then Some (get_z (fld 5 5 insn) s, s)
      else if insn AND 0xff000000 = 0x34000000 then
        Some (if take_bit 32 (get_z (fld 0 5 insn) s) = 0 then pc + push_bit 2 (sext 19 (fld 5 19 insn)) else pc + 4, s)
      else if insn AND 0xff000000 = 0x35000000 then
        Some (if take_bit 32 (get_z (fld 0 5 insn) s) \<noteq> 0 then pc + push_bit 2 (sext 19 (fld 5 19 insn)) else pc + 4, s)
      else if insn AND 0xffc00000 = 0xa9800000 then
        let a = get_sp (fld 5 5 insn) s + push_bit 3 (sext 7 (fld 15 7 insn))
        in Some (pc + 4, set_sp (fld 5 5 insn) a
             (store_mem 8 (a + 8) (get_z (fld 10 5 insn) s) (store_mem 8 a (get_z (fld 0 5 insn) s) s)))
      else if insn AND 0xffc00000 = 0xa8c00000 then
        let a = get_sp (fld 5 5 insn) s
        in Some (pc + 4, set_sp (fld 5 5 insn) (a + push_bit 3 (sext 7 (fld 15 7 insn)))
             (set_z (fld 10 5 insn) (load_mem 8 (a + 8) s) (set_z (fld 0 5 insn) (load_mem 8 a s) s)))
      else if insn AND 0xfffffc00 = 0x88dffc00 then
        Some (pc + 4, set_z (fld 0 5 insn) (load_mem 4 (get_sp (fld 5 5 insn) s) s) s)
      else None)"

subsection \<open>Masks and fields\<close>

lemma mask_clash:
  fixes x m c :: "'a :: len word"
  assumes "x AND m = c" "c AND m' \<noteq> c' AND m"
  shows "x AND m' \<noteq> c'"
proof
  assume "x AND m' = c'"
  then have "c AND m' = c' AND m" unfolding assms(1) [symmetric] by (auto simp: ac_simps)
  then show False using assms(2) by simp
qed

lemma numeral_clash: "(x :: 'a :: len word) AND m = c \<Longrightarrow> c' AND m \<noteq> c \<Longrightarrow> x \<noteq> c'"
  by auto

lemma bits_take: "bits v hi lo = take_bit (hi - lo + 1) (drop_bit lo v)"
proof -
  have "push_bit n 1 - 1 = (mask n :: u64)" for n by (simp add: mask_eq_exp_minus_1 push_bit_eq_mult)
  then show ?thesis by (simp only: bits_def take_bit_eq_mask)
qed

lemma bit_fld: "bit (fld lo n w) i \<longleftrightarrow> i < n \<and> bit w (lo + i)"
  by (simp add: fld_def bit_simps)

lemma bit_range: "w = push_bit lo (mask n) \<Longrightarrow> bit (w :: 'a::len word) i \<longleftrightarrow> lo \<le> i \<and> i < lo + n \<and> i < LENGTH('a)"
  by (auto simp: bit_simps)

lemma bit_ranges: "w = push_bit lo (mask n) OR push_bit lo' (mask n') \<Longrightarrow>
   bit (w :: 'a::len word) i \<longleftrightarrow> (lo \<le> i \<and> i < lo + n \<or> lo' \<le> i \<and> i < lo' + n') \<and> i < LENGTH('a)"
  by (auto simp: bit_simps)

lemma bit_consts:
  "bit (0x1f :: u32) i \<longleftrightarrow> i < 5" "bit (3 :: u32) i \<longleftrightarrow> i < 2" "bit (0x1ffffc :: u32) i \<longleftrightarrow> 2 \<le> i \<and> i < 21"
  "bit (0xffffe0 :: u32) i \<longleftrightarrow> 5 \<le> i \<and> i < 24" "bit (0xffc0001f :: u32) i \<longleftrightarrow> i < 5 \<or> 22 \<le> i \<and> i < 32"
  "bit (0x10000000 :: u32) i \<longleftrightarrow> i = 28" "bit (0x9f000000 :: u32) i \<longleftrightarrow> i = 31 \<or> 24 \<le> i \<and> i < 29"
  "bit (0x3b000000 :: u32) i \<longleftrightarrow> 27 \<le> i \<and> i < 30 \<or> 24 \<le> i \<and> i < 26"
  "bit (0x90000000 :: u32) i \<longleftrightarrow> i = 31 \<or> i = 28" 
  apply (subst bit_range [of _ 0 5]; auto simp: mask_eq_exp_minus_1 push_bit_eq_mult)
  apply (subst bit_range [of _ 0 2]; auto simp: mask_eq_exp_minus_1 push_bit_eq_mult)
  apply (subst bit_range [of _ 2 19]; auto simp: mask_eq_exp_minus_1 push_bit_eq_mult)
  apply (subst bit_range [of _ 5 19]; auto simp: mask_eq_exp_minus_1 push_bit_eq_mult)
  apply (subst bit_ranges [of _ 0 5 22 10]; auto simp: mask_eq_exp_minus_1 push_bit_eq_mult)
  apply (subst bit_range [of _ 28 1]; auto simp: mask_eq_exp_minus_1 push_bit_eq_mult)
  apply (subst bit_ranges [of _ 31 1 24 5]; auto simp: mask_eq_exp_minus_1 push_bit_eq_mult)
  apply (subst bit_ranges [of _ 27 3 24 2]; auto simp: mask_eq_exp_minus_1 push_bit_eq_mult)
  apply (subst bit_ranges [of _ 31 1 28 1]; auto simp: mask_eq_exp_minus_1 push_bit_eq_mult)
  done

lemmas insn_bits = bit_simps bit_fld bit_consts

lemma fld_masks: "insn AND 0x1f = fld 0 5 insn" "drop_bit 5 insn AND 0x1f = fld 5 5 insn"
  by (rule bit_word_eqI; auto simp: insn_bits simp del: push_bit_and bit_numeral_word_iff)+
lemma fld_bits:  "bits (ucast insn) 21 10 = ucast (fld 10 12 insn)" "bits (ucast insn) 30 29 = ucast (fld 29 2 insn)"
   "bits (ucast insn) 23 5 = ucast (fld 5 19 insn)" 
  by (simp_all only: bits_take) (rule bit_word_eqI; auto simp: insn_bits simp del: push_bit_and bit_numeral_word_iff dest: bit_imp_le_length)+

lemma adr_class: "adr (rd AND 0x1f) target pc AND 0x9f000000 = 0x10000000"
  unfolding adr_def Let_def 
  by (rule bit_word_eqI) (auto simp: insn_bits simp del: push_bit_and bit_numeral_word_iff)

lemma adr_fields: "fld 0 5 (adr (rd AND 0x1f) target pc) = rd AND 0x1f" "fld 29 2 (adr (rd AND 0x1f) target pc) = fld 0 2 (ucast (target - pc))"
 "fld 5 19 (adr (rd AND 0x1f) target pc) = fld 2 19 (ucast (target - pc))"
  unfolding adr_def Let_def
  by (rule bit_word_eqI; auto simp: insn_bits simp del: push_bit_and bit_numeral_word_iff)+


lemma fld_drop [simp]: "fld 0 n (drop_bit k w) = fld k n w"
  by (simp add: fld_def)

lemma suc_suc_minus: "\<not> n < 2 \<Longrightarrow> Suc (Suc (n - 2)) = n" "2 \<le> n \<Longrightarrow> Suc (Suc (n - 2)) = n"
  by simp_all

lemma is_adrp_step: "is_adrp insn \<Longrightarrow> step pc insn s = Some (pc + 4, set_z (insn AND 0x1f) (adrp_page insn pc) s)"
proof -
  assume a: "is_adrp insn"
  then have m: "insn AND 0x9f000000 = 0x90000000" by (simp add: is_adrp_def)
  then have "insn \<noteq> NOP_INSN" unfolding NOP_INSN_def by (rule numeral_clash) simp
  have e: "sign_extend (ucast (fld 29 2 insn) OR push_bit 2 (ucast (fld 5 19 insn))) 21 =
      sext 21 (push_bit 2 (fld 5 19 insn) OR fld 29 2 insn)"
    unfolding sign_extend_def sext_def
    by (rule bit_word_eqI) (auto simp: insn_bits min_def; fastforce dest: le_antisym simp: not_le less_Suc_eq_le)
  have p: "page pc + push_bit 12 w = push_bit 12 (drop_bit 12 pc + w)" for w
  proof -
    have m: "(0xfff :: u64) = mask 12" by (simp add: mask_eq_exp_minus_1)
    have "page pc = push_bit 12 (drop_bit 12 pc)" unfolding page_def m by (rule bit_word_eqI) (auto simp: bit_simps)
    then show ?thesis by (simp add: push_bit_add)
  qed
  show ?thesis using \<open>insn \<noteq> NOP_INSN\<close> m by (simp add: step_def adrp_page_def fld_bits fld_masks e p)
qed

lemma parse_add_step:
  "parse_add insn = Some add \<Longrightarrow> step pc insn s = Some (pc + 4, set_sp (ad_rd add) (get_sp (ad_rn add) s + ad_imm add) s)"
proof -
  assume "parse_add insn = Some add"
  then have m: "insn AND 0xffc00000 = 0x91000000" and add: "add = \<lparr>ad_rd = fld 0 5 insn, ad_rn = fld 5 5 insn, ad_imm = ucast (fld 10 12 insn)\<rparr>"
    by (auto simp: parse_add_def fld_masks fld_bits split: if_splits)
  have "insn \<noteq> NOP_INSN" unfolding NOP_INSN_def by (rule numeral_clash [OF m]) simp
  moreover have "insn AND 0x9f000000 \<noteq> 0x90000000" "insn AND 0x9f000000 \<noteq> 0x10000000" by (rule mask_clash [OF m]; simp)+
  ultimately show ?thesis using m by (simp add: step_def add)
qed

lemma ldst_class:
  assumes m: "insn AND 0x3b000000 = 0x39000000"
  shows "step pc insn s = map_option (Pair (pc + 4))
     (access (fld 26 1 insn = 1) (fld 30 2 insn) (fld 22 2 insn) (fld 0 5 insn)
        (get_sp (fld 5 5 insn) s + push_bit (access_scale (fld 26 1 insn = 1) (fld 30 2 insn) (fld 22 2 insn)) (ucast (fld 10 12 insn))) s)"
proof -
  have "insn \<noteq> NOP_INSN" unfolding NOP_INSN_def by (rule numeral_clash [OF m]) simp
  moreover have "insn AND 0x9f000000 \<noteq> 0x90000000" "insn AND 0x9f000000 \<noteq> 0x10000000" "insn AND 0xffc00000 \<noteq> 0x91000000"
    by (rule mask_clash [OF m]; simp)+
  ultimately show ?thesis using m by (simp add: step_def Let_def)
qed

lemma literal_class:
  assumes m: "insn AND 0x3b000000 = 0x18000000"
  shows "step pc insn s = map_option (Pair (pc + 4))
     (literal_access (fld 26 1 insn = 1) (fld 30 2 insn) (fld 0 5 insn) (pc + push_bit 2 (sext 19 (fld 5 19 insn))) s)"
proof -
  have "insn \<noteq> NOP_INSN" unfolding NOP_INSN_def by (rule numeral_clash [OF m]) simp
  moreover have "insn AND 0x9f000000 \<noteq> 0x90000000" "insn AND 0x9f000000 \<noteq> 0x10000000" "insn AND 0xffc00000 \<noteq> 0x91000000"
    "insn AND 0x3b000000 \<noteq> 0x39000000"
    by (rule mask_clash [OF m]; simp)+
  ultimately show ?thesis using m by (simp add: step_def Let_def)
qed

lemma adr_class_step:
  assumes m: "insn AND 0x9f000000 = 0x10000000"
  shows "step pc insn s = Some (pc + 4, set_z (fld 0 5 insn) (pc + sext 21 (push_bit 2 (fld 5 19 insn) OR fld 29 2 insn)) s)"
proof -
  have "insn \<noteq> NOP_INSN" unfolding NOP_INSN_def by (rule numeral_clash [OF m]) simp
  then show ?thesis using m by (simp add: step_def)
qed

lemma signed_small: 
  assumes "- (2 ^ 20) \<le> sint d" "sint d < 2 ^ 20"
  shows "signed_take_bit 20 d = (d :: u64)"
proof (rule bit_word_eqI)
  fix n assume n: "n < LENGTH(64)"
  have s: "signed_take_bit 20 (sint d) = sint d" using assms by (intro signed_take_bit_int_eq_self) simp_all
  have "bit d (min 20 n) = bit (sint d) (min 20 n)" by (auto simp: bit_sint_iff min_def dest: bit_imp_le_length)
  also have "\<dots> = bit (signed_take_bit 20 (sint d)) n" by (simp add: bit_signed_take_bit_iff)
  also have "\<dots> = bit d n" using n by (auto simp: s bit_sint_iff dest: bit_imp_le_length)
  finally show "bit (signed_take_bit 20 d) n = bit d n" using n by (simp add: bit_signed_take_bit_iff)
qed

lemma within_signed: "within_1mb pc t \<Longrightarrow> signed_take_bit 20 (t - pc) = t - pc"
  by (rule signed_small) (auto simp: within_1mb_def Let_def)

lemma adr_step: 
  assumes "within_1mb pc target" 
  shows "step pc (adr (rd AND 0x1f) target pc) s = Some (pc + 4, set_z (rd AND 0x1f) target s)"
proof -
  have "sext 21 (push_bit 2 (fld 2 19 (ucast (target - pc))) OR fld 0 2 (ucast (target - pc))) = signed_take_bit 20 (target - pc)"
    unfolding sext_def by (rule bit_word_eqI) (auto simp: insn_bits min_def suc_suc_minus simp del: push_bit_and bit_numeral_word_iff)
  then show ?thesis by (simp add: adr_class_step [OF adr_class] adr_fields within_signed [OF assms])
qed

lemma low_two: "(w :: u64) mod 4 = 0 \<longleftrightarrow> take_bit 2 w = 0"
  by (simp add: take_bit_eq_mod)

lemma literal_delta:
  assumes "within_1mb pc t" and "t mod 4 = 0" "pc mod 4 = 0"
  shows "push_bit 2 (sext 19 (fld 2 19 (ucast (t - pc)))) = t - pc"
proof -
  have quarter: "w = 4 * drop_bit 2 w" if "w mod 4 = 0" for w :: u64
    using that by (simp add: drop_bit_eq_div minus_mod_eq_mult_div [symmetric])
  have "t - pc = push_bit 2 (drop_bit 2 t - drop_bit 2 pc)"
    by (subst quarter [OF assms(2)], subst quarter [OF assms(3)]) (simp add: push_bit_eq_mult algebra_simps)
  moreover have "take_bit 2 (push_bit 2 w) = 0" for w :: u64 by (rule bit_word_eqI) (auto simp: bit_simps)
  ultimately have z: "take_bit 2 (t - pc) = 0" by simp
  have low: "\<not> bit (t - pc) i" if "i < 2" for i
    using arg_cong [OF z, of "\<lambda>w. bit w i"] that by (simp add: bit_take_bit_iff)
  then have high: "2 \<le> i" if "bit (t - pc) i" for i using that not_le_imp_less by blast
  have "push_bit 2 (sext 19 (fld 2 19 (ucast (t - pc)))) = signed_take_bit 20 (t - pc)"
    unfolding sext_def by (rule bit_word_eqI) (auto simp: insn_bits min_def low dest: high simp del: push_bit_and bit_numeral_word_iff;
      use high in \<open>force simp: suc_suc_minus\<close>)
  then show ?thesis by (simp add: within_signed [OF assms(1)])
qed


text \<open>What \<open>parse_ldst\<close> reads is what the machine accesses.\<close>

lemma field_values: "fld lo 2 w = 0 \<or> fld lo 2 w = 1 \<or> fld lo 2 w = 2 \<or> fld lo 2 w = 3"
proof -
  have "unat (fld lo 2 w) < 4" using take_bit_nat_less_exp [of 2 "unat (drop_bit lo w)"] by (simp add: fld_def unsigned_take_bit_eq)
  then have "unat (fld lo 2 w) = 0 \<or> unat (fld lo 2 w) = 1 \<or> unat (fld lo 2 w) = 2 \<or> unat (fld lo 2 w) = 3" by linarith
  then show ?thesis by (simp add: word_unat_eq_iff)
qed

lemma ldst_kind_table:
  "ldst_kind (push_bit 30 0 OR push_bit 22 0) v = Some (1, True)"
  "ldst_kind (push_bit 30 0 OR push_bit 22 1) v = Some (1, False)"
  "ldst_kind (push_bit 30 0 OR push_bit 22 2) v = Some (if v then 16 else 1, v)"
  "ldst_kind (push_bit 30 0 OR push_bit 22 3) v = Some (if v then 16 else 1, False)"
  "ldst_kind (push_bit 30 1 OR push_bit 22 0) v = Some (2, True)"
  "ldst_kind (push_bit 30 1 OR push_bit 22 1) v = Some (2, False)"
  "ldst_kind (push_bit 30 1 OR push_bit 22 2) v = Some (2, False)"
  "ldst_kind (push_bit 30 1 OR push_bit 22 3) v = Some (2, False)"
  "ldst_kind (push_bit 30 2 OR push_bit 22 0) v = Some (4, True)"
  "ldst_kind (push_bit 30 2 OR push_bit 22 1) v = Some (4, False)"
  "ldst_kind (push_bit 30 2 OR push_bit 22 2) v = Some (4, False)"
  "ldst_kind (push_bit 30 2 OR push_bit 22 3) v = None"
  "ldst_kind (push_bit 30 3 OR push_bit 22 0) v = Some (8, True)"
  "ldst_kind (push_bit 30 3 OR push_bit 22 1) v = Some (8, False)"
  "ldst_kind (push_bit 30 3 OR push_bit 22 2) v = None"
  "ldst_kind (push_bit 30 3 OR push_bit 22 3) v = None"
  by (simp_all add: ldst_kind_def push_bit_eq_mult)

lemma ldst_kind_fields:
  assumes "ldst_kind (insn AND 0xc0c00000) v = Some (n, st)"
  shows "n = 2 ^ access_scale v (fld 30 2 insn) (fld 22 2 insn)"
    and "st \<longleftrightarrow> fld 22 2 insn = 0 \<or> v \<and> fld 30 2 insn = 0 \<and> fld 22 2 insn = 2"
proof -
  have "insn AND 0xc0c00000 = push_bit 30 (fld 30 2 insn) OR push_bit 22 (fld 22 2 insn)"
  proof -
    have m: "(0xc0c00000 :: u32) = push_bit 30 (mask 2) OR push_bit 22 (mask 2)" by (simp add: mask_eq_exp_minus_1 push_bit_eq_mult)
    show ?thesis unfolding m by (rule bit_word_eqI) (auto simp: bit_simps bit_fld)
  qed
  note a = assms [unfolded this]
  have "n = 2 ^ access_scale v (fld 30 2 insn) (fld 22 2 insn) \<and> (st \<longleftrightarrow> fld 22 2 insn = 0 \<or> v \<and> fld 30 2 insn = 0 \<and> fld 22 2 insn = 2)"
    using field_values [of 30 insn] field_values [of 22 insn] a
    by (elim disjE; cases v) (simp_all only: ldst_kind_table access_scale_def option.inject prod.inject option.distinct, simp_all add: word_le_nat_alt)
  then show "n = 2 ^ access_scale v (fld 30 2 insn) (fld 22 2 insn)"
    and "st \<longleftrightarrow> fld 22 2 insn = 0 \<or> v \<and> fld 30 2 insn = 0 \<and> fld 22 2 insn = 2" by blast+
qed

lemma vec_bit: "insn AND 0x04000000 \<noteq> 0 \<longleftrightarrow> fld 26 1 insn = 1"
proof -
  have "insn AND 0x04000000 = push_bit 26 (fld 26 1 insn)"
  proof -
    have m: "bit (0x04000000 :: u32) i \<longleftrightarrow> i = 26" for i
      by (subst bit_range [of _ 26 1]; auto simp: mask_eq_exp_minus_1 push_bit_eq_mult)
    show ?thesis by (rule bit_word_eqI) (auto simp: bit_simps bit_fld m simp del: bit_numeral_word_iff)
  qed
  moreover have "fld 26 1 insn = 0 \<or> fld 26 1 insn = 1"
    by (cases "bit insn 26") (auto simp: fld_def take_bit_Suc bit_iff_odd drop_bit_eq_div simp flip: mod_2_eq_odd)
  ultimately show ?thesis by auto
qed

text \<open>A parsed access, by the machine's fields.\<close>

definition ls_access :: "u32 \<Rightarrow> u64 \<Rightarrow> mach \<Rightarrow> mach option" where
  "ls_access insn a s = access (fld 26 1 insn = 1) (fld 30 2 insn) (fld 22 2 insn) (fld 0 5 insn) a s"

lemma parse_ldst_fields:
  assumes "parse_ldst insn = Some ls"
  defines "k \<equiv> access_scale (fld 26 1 insn = 1) (fld 30 2 insn) (fld 22 2 insn)"
  shows "insn AND 0x3b000000 = 0x39000000" "ls_insn ls = insn" "ls_reg ls = fld 0 5 insn" "ls_base ls = fld 5 5 insn"
    "ls_size ls = 2 ^ k" "ls_offset ls = push_bit k (ucast (fld 10 12 insn))" "k \<le> 4"
    "ls_is_float ls \<longleftrightarrow> fld 26 1 insn = 1" "ls_is_ldrsw ls \<longleftrightarrow> fld 30 2 insn = 2 \<and> fld 22 2 insn = 2"
    "ls_is_store ls \<longleftrightarrow> fld 22 2 insn = 0 \<or> fld 26 1 insn = 1 \<and> fld 30 2 insn = 0 \<and> fld 22 2 insn = 2"
proof -
  let ?v = "fld 26 1 insn = 1"
  obtain n st where kind: "ldst_kind (insn AND 0xc0c00000) ?v = Some (n, st)" and c: "insn AND 0x3b000000 = 0x39000000"
    and ls: "ls = \<lparr>ls_insn = insn, ls_reg = insn AND 0x1f, ls_base = drop_bit 5 insn AND 0x1f, ls_offset = bits (ucast insn) 21 10 * n,
               ls_size = n, ls_is_store = st, ls_is_float = ?v, ls_is_ldrsw = (insn AND 0xc0c00000 = 0x80800000)\<rparr>"
    using assms(1) unfolding parse_ldst_def Let_def vec_bit by (auto split: if_splits)
  note f = ldst_kind_fields [OF kind]
  show "insn AND 0x3b000000 = 0x39000000" by (fact c)
  show "ls_insn ls = insn" "ls_reg ls = fld 0 5 insn" "ls_base ls = fld 5 5 insn" "ls_is_float ls \<longleftrightarrow> ?v" by (simp_all add: ls fld_masks(1) fld_masks(2))
  show "ls_size ls = 2 ^ k" by (simp add: ls f(1) k_def)
  show "ls_offset ls = push_bit k (ucast (fld 10 12 insn))" by (simp add: ls f(1) k_def fld_bits push_bit_eq_mult)
  show "k \<le> 4" using field_values [of 30 insn] unfolding k_def access_scale_def by auto
  show "ls_is_store ls \<longleftrightarrow> fld 22 2 insn = 0 \<or> ?v \<and> fld 30 2 insn = 0 \<and> fld 22 2 insn = 2" by (simp add: ls f(2))
  have "insn AND 0xc0c00000 = push_bit 30 (fld 30 2 insn) OR push_bit 22 (fld 22 2 insn)"
  proof -
    have m: "(0xc0c00000 :: u32) = push_bit 30 (mask 2) OR push_bit 22 (mask 2)" by (simp add: mask_eq_exp_minus_1 push_bit_eq_mult)
    show ?thesis unfolding m by (rule bit_word_eqI) (auto simp: bit_simps bit_fld)
  qed
  then show "ls_is_ldrsw ls \<longleftrightarrow> fld 30 2 insn = 2 \<and> fld 22 2 insn = 2"
    using field_values [of 30 insn] field_values [of 22 insn] by (auto simp: ls)
qed

lemma parse_ldst_step:
  assumes "parse_ldst insn = Some ls"
  shows "step pc insn s = map_option (Pair (pc + 4)) (ls_access insn (get_sp (ls_base ls) s + ls_offset ls) s)"
  using parse_ldst_fields [OF assms] by (simp add: ldst_class ls_access_def)


lemma bit_18000000: "bit (0x18000000 :: u32) i \<longleftrightarrow> 27 \<le> i \<and> i < 29"
  by (subst bit_range [of _ 27 2]; auto simp: mask_eq_exp_minus_1 push_bit_eq_mult)

lemma literal_fields:
  fixes d r oc v :: u32
  defines "w \<equiv> (push_bit 30 (take_bit 2 oc) OR push_bit 26 (take_bit 1 v) OR 0x18000000) OR (push_bit 3 d AND 0x00ffffe0) OR fld 0 5 r"
  shows "w AND 0x3b000000 = 0x18000000" "fld 0 5 w = fld 0 5 r" "fld 5 19 w = fld 2 19 d" "fld 26 1 w = take_bit 1 v" "fld 30 2 w = take_bit 2 oc"
  unfolding w_def
  by (rule bit_word_eqI; auto simp: insn_bits bit_18000000 simp del: push_bit_and bit_numeral_word_iff)+

lemma literal_word:
  assumes "op = push_bit 30 (take_bit 2 oc) OR push_bit 26 (take_bit 1 v) OR 0x18000000"
    and "within_1mb pc target" "target mod 4 = 0" "pc mod 4 = 0"
  shows "step pc (op OR (push_bit 3 (ucast (target - pc)) AND 0x00ffffe0) OR fld 0 5 r) s =
     map_option (Pair (pc + 4)) (literal_access (take_bit 1 v = 1) (take_bit 2 oc) (fld 0 5 r) target s)"
  unfolding assms(1)
  by (simp only: literal_class [OF literal_fields(1)] literal_fields literal_delta [OF assms(2-4)] add_diff_cancel_left' diff_add_cancel)
     (simp add: algebra_simps)

lemma to_literal_step:
  assumes ls: "parse_ldst insn = Some ls" "has_literal_form ls" and near: "within_1mb pc target" "target mod 4 = 0" "pc mod 4 = 0"
    and ok: "ls_access insn target s \<noteq> None"
  shows "step pc (to_literal ls target pc) s = map_option (Pair (pc + 4)) (ls_access insn target s)"
proof -
  note f = parse_ldst_fields [OF ls(1)]
  have big: "(4 :: u64) \<le> 2 ^ access_scale (fld 26 1 insn = 1) (fld 30 2 insn) (fld 22 2 insn)" and ld: "\<not> ls_is_store ls"
    using ls(2) by (simp_all add: has_literal_form_def f(5))
  have shape: "to_literal ls target pc = literal_op ls OR (push_bit 3 (ucast (target - pc)) AND 0x00ffffe0) OR fld 0 5 insn"
    by (simp add: to_literal_def f(3))
  note w = literal_word [OF _ near, where r = insn and s = s]
  have bits: "take_bit 2 (2 :: u32) = 2" "take_bit 2 (1 :: u32) = 1" "take_bit 1 (1 :: u32) = 1" "take_bit 2 (0 :: u32) = 0" "take_bit 1 (0 :: u32) = 0"
    by simp_all
  show ?thesis
  proof (cases "fld 26 1 insn = 1")
    case True
    then consider (q) "fld 30 2 insn = 0" "fld 22 2 insn = 3" | (s) "fld 30 2 insn = 2" "fld 22 2 insn = 1" | (d) "fld 30 2 insn = 3" "fld 22 2 insn = 1"
      using field_values [of 30 insn] field_values [of 22 insn] big ld ok
      by (elim disjE) (simp_all add: f(10) ls_access_def access_def access_scale_def word_le_nat_alt)
    then show ?thesis
    proof cases
      case q
      then have "literal_op ls = 0x9c000000" using True by (simp add: literal_op_def f access_scale_def)
      then have "literal_op ls = push_bit 30 (take_bit 2 2) OR push_bit 26 (take_bit 1 1) OR 0x18000000" by (simp add: push_bit_eq_mult)
      from w [OF this] show ?thesis using True q by (simp only: shape) (simp add: literal_access_def ls_access_def)
    next
      case s
      then have "literal_op ls = 0x1c000000" using True by (simp add: literal_op_def f access_scale_def)
      then have "literal_op ls = push_bit 30 (take_bit 2 0) OR push_bit 26 (take_bit 1 1) OR 0x18000000" by (simp add: push_bit_eq_mult)
      from w [OF this] show ?thesis using True s by (simp only: shape) (simp add: literal_access_def ls_access_def)
    next
      case d
      then have "literal_op ls = 0x5c000000" using True by (simp add: literal_op_def f access_scale_def)
      then have "literal_op ls = push_bit 30 (take_bit 2 1) OR push_bit 26 (take_bit 1 1) OR 0x18000000" by (simp add: push_bit_eq_mult)
      from w [OF this] show ?thesis using True d by (simp only: shape) (simp add: literal_access_def ls_access_def)
    qed
  next
    case False
    then consider (sw) "fld 30 2 insn = 2" "fld 22 2 insn = 2" | (w) "fld 30 2 insn = 2" "fld 22 2 insn = 1" | (x) "fld 30 2 insn = 3" "fld 22 2 insn = 1"
      using field_values [of 30 insn] field_values [of 22 insn] big ld ok
      by (elim disjE) (simp_all add: f(10) ls_access_def access_def access_scale_def word_le_nat_alt)
    then show ?thesis
    proof cases
      case sw
      then have "literal_op ls = 0x98000000" using False by (simp add: literal_op_def f access_scale_def)
      then have "literal_op ls = push_bit 30 (take_bit 2 2) OR push_bit 26 (take_bit 1 0) OR 0x18000000" by (simp add: push_bit_eq_mult)
      from w [OF this] show ?thesis using False sw by (simp only: shape) (simp add: literal_access_def ls_access_def)
    next
      case w
      then have "literal_op ls = 0x18000000" using False by (simp add: literal_op_def f access_scale_def)
      then have "literal_op ls = push_bit 30 (take_bit 2 0) OR push_bit 26 (take_bit 1 0) OR 0x18000000" by (simp add: push_bit_eq_mult)
      from literal_word [OF this near, where r = insn and s = s] show ?thesis using False w by (simp only: shape) (simp add: literal_access_def ls_access_def)
    next
      case x
      then have "literal_op ls = 0x58000000" using False by (simp add: literal_op_def f access_scale_def)
      then have "literal_op ls = push_bit 30 (take_bit 2 1) OR push_bit 26 (take_bit 1 0) OR 0x18000000" by (simp add: push_bit_eq_mult)
      from w [OF this] show ?thesis using False x by (simp only: shape) (simp add: literal_access_def ls_access_def)
    qed
  qed
qed

lemma base_fields:
  fixes insn b q :: u32
  defines "w \<equiv> (insn AND 0xffc0001f) OR push_bit 5 (b AND 0x1f) OR push_bit 10 (take_bit 12 q)"
  shows "fld 0 5 w = fld 0 5 insn" "fld 5 5 w = b AND 0x1f" "fld 10 12 w = take_bit 12 q" "fld 22 2 w = fld 22 2 insn"
    "fld 26 1 w = fld 26 1 insn" "fld 30 2 w = fld 30 2 insn" "w AND 0x3b000000 = insn AND 0x3b000000"
  unfolding w_def
  by (rule bit_word_eqI; auto simp: insn_bits simp del: push_bit_and bit_numeral_word_iff)+

lemma with_base_step:
  assumes ls: "parse_ldst insn = Some ls" and div: "off mod ls_size ls = 0" and small: "off < 4096"
  shows "step pc (with_base ls (b AND 0x1f) off) s = map_option (Pair (pc + 4)) (ls_access insn (get_sp (b AND 0x1f) s + off) s)"
proof -
  note f = parse_ldst_fields [OF ls]
  let ?k = "access_scale (fld 26 1 insn = 1) (fld 30 2 insn) (fld 22 2 insn)"
  let ?q = "ucast (off div ls_size ls) :: u32"
  have sz: "ls_size ls = 2 ^ ?k" by (fact f(5))
  have "unat (off div ls_size ls) = unat off div 2 ^ ?k" using f(7) by (simp add: sz unat_div unat_two_power)
  then have "unat (off div ls_size ls) < 4096" using small by (simp add: word_less_nat_alt less_mult_imp_div_less le_less_trans [OF div_le_dividend])
  then have q: "take_bit 12 ?q = ?q" and uq: "ucast ?q = off div ls_size ls"
    by (simp_all add: word_unat_eq_iff unsigned_take_bit_eq take_bit_nat_eq_self unsigned_ucast_eq)
  have whole: "push_bit ?k (off div ls_size ls) = off"
    using div by (simp add: sz push_bit_eq_mult) (metis add.right_neutral mult.commute word_mod_div_equality)
  have e: "with_base ls (b AND 0x1f) off = (insn AND 0xffc0001f) OR push_bit 5 (b AND 0x1f) OR push_bit 10 (take_bit 12 ?q)"
    by (simp add: with_base_def f(2) q)
  have c: "(insn AND 0xffc0001f OR push_bit 5 (b AND 0x1f) OR push_bit 10 (take_bit 12 ?q)) AND 0x3b000000 = 0x39000000"
    by (simp only: base_fields(7) f(1))
  show ?thesis unfolding e ldst_class [OF c] base_fields unfolding q uq whole ls_access_def ..
qed

end
