(* ===== verification/Arm64Hints.thy ===== *)
theory Arm64Hints
  imports Arm64Machine
begin

unbundle bit_operations_syntax

section \<open>Linker optimization hints keep what the code does\<close>

text \<open>
  A sequence as the hint functions leave it is one of a few shorter ones (\<open>shorter\<close>), and each of
  them takes the machine to the state the original one did, but for the registers only the sequence
  itself uses.
\<close>

subsection \<open>Running a hinted sequence\<close>

definition exec :: "u64 \<Rightarrow> u32 \<Rightarrow> mach \<Rightarrow> mach option" where
  "exec pc insn s = map_option snd (step pc insn s)"

text \<open>
  A hint's instructions, one after another, \<open>f k\<close> being the code between the \<open>k\<close>-th and the next.
\<close>

definition run_hint :: "hint \<Rightarrow> (nat \<Rightarrow> mach \<Rightarrow> mach) \<Rightarrow> mach \<Rightarrow> mach option" where
  "run_hint h f s =
     do { i \<leftarrow> hint_get h 0; s \<leftarrow> exec (hint_addr h 0) i s;
          i \<leftarrow> hint_get h 1; s \<leftarrow> exec (hint_addr h 1) i (f 0 s);
          if ht_n h < 3 then Some s
          else do { i \<leftarrow> hint_get h 2; exec (hint_addr h 2) i (f 1 s) } }"

definition agree :: "u32 set \<Rightarrow> mach \<Rightarrow> mach \<Rightarrow> bool" where
  "agree S s t \<longleftrightarrow> mm s = mm t \<and> mv s = mv t \<and> msp s = msp t \<and> (\<forall>r. r \<notin> S \<longrightarrow> mx s r = mx t r)"

text \<open>Code that does not write the registers, and code that does not read them.\<close>

definition leaves :: "u32 set \<Rightarrow> (mach \<Rightarrow> mach) \<Rightarrow> bool" where
  "leaves S f \<longleftrightarrow> (\<forall>s. \<forall>r \<in> S. mx (f s) r = mx s r)"

definition blind :: "u32 set \<Rightarrow> (mach \<Rightarrow> mach) \<Rightarrow> bool" where
  "blind S f \<longleftrightarrow> (\<forall>s t. agree S s t \<longrightarrow> agree S (f s) (f t))"

text \<open>
  The registers a hint's sequence works through: the adrp's, and that of an add or a GOT load that
  an access goes through. They are the sequence's own but for a pair of adrps. What its last
  instruction computes is its result.
\<close>

definition hint_word :: "hint \<Rightarrow> nat \<Rightarrow> u32" where
  "hint_word h i = the (hint_get h i)"

definition temps :: "hint \<Rightarrow> u32 set" where
  "temps h = insert (fld 0 5 (hint_word h 0))
     (if 3 \<le> ht_n h \<or> parse_add (hint_word h 1) \<noteq> None then {fld 0 5 (hint_word h 1)} else {})"

definition hidden :: "u8 \<Rightarrow> hint \<Rightarrow> u32 set" where
  "hidden kind h = (if kind = LOH_ARM64_ADRP_ADRP then {} else temps h)"

definition hint_results :: "hint \<Rightarrow> u32 set" where
  "hint_results h =
     (let w = hint_word h (if ht_n h < 3 then 1 else 2)
      in case parse_ldst w of
           Some ls \<Rightarrow> if ls_is_store ls \<or> ls_is_float ls then {} else {ls_reg ls}
         | None \<Rightarrow> {fld 0 5 w})"

text \<open>
  What a compiler's hint grants: instructions at places of their own, working through registers
  that are neither the stack pointer nor zero, and a store that does not store such a register.
\<close>

definition hint_ok :: "hint \<Rightarrow> bool" where
  "hint_ok h \<longleftrightarrow>
     (ht_n h = 2 \<or> ht_n h = 3) \<and>
     list_all (\<lambda>i. hi_off (ht_insns h i) + 4 \<le> length (ht_buf h) \<and> hint_addr h i mod 4 = 0) [0..<ht_n h] \<and>
     list_all (\<lambda>i. list_all (\<lambda>j. hi_off (ht_insns h i) + 4 \<le> hi_off (ht_insns h j) \<or>
        hi_off (ht_insns h j) + 4 \<le> hi_off (ht_insns h i)) [0..<i]) [0..<ht_n h] \<and>
     31 \<notin> temps h \<and>
     (ht_n h = 3 \<longrightarrow>
        (case parse_ldst (hint_word h 2) of
           Some st \<Rightarrow> ls_is_store st \<and> \<not> ls_is_float st \<longrightarrow> ls_reg st \<notin> temps h
         | None \<Rightarrow> True))"

lemma load_mem_cong: "mm s = mm t \<Longrightarrow> load_mem n a s = load_mem n a t"
  by (simp add: load_mem_def)

lemma agree_refl [simp]: "agree S s s"
  by (simp add: agree_def)

lemma agree_mono: "agree S s t \<Longrightarrow> S \<subseteq> T \<Longrightarrow> agree T s t"
  by (auto simp: agree_def)

lemma agree_set: "agree S s t \<Longrightarrow> r \<in> S \<Longrightarrow> agree S (set_z r v s) t" "agree S s t \<Longrightarrow> r \<in> S \<Longrightarrow> agree S s (set_z r v t)"
  by (auto simp: agree_def set_z_def)

lemma agree_same: "agree S s t \<Longrightarrow> agree (S - {r}) (set_z r v s) (set_z r v t) \<or> r = 31"
  by (auto simp: agree_def set_z_def)

lemma access_agree:
  assumes a: "agree S s t" and run: "access vec sz opc r a s = Some s'"
    and data: "\<not> vec \<Longrightarrow> opc = 0 \<Longrightarrow> r \<notin> S"
  obtains t' where "access vec sz opc r a t = Some t'" "agree (S - (if vec \<or> opc = 0 \<or> r = 31 then {} else {r})) s' t'"
proof -
  have m: "mm s = mm t" "mv s = mv t" "msp s = msp t" and x: "\<And>r. r \<notin> S \<Longrightarrow> mx s r = mx t r" using a by (auto simp: agree_def)
  have l: "load_mem n p s = (load_mem n p t :: 'b::len word)" for n p using m(1) by (rule load_mem_cong)
  have "\<exists>t'. access vec sz opc r a t = Some t' \<and> agree (S - (if vec \<or> opc = 0 \<or> r = 31 then {} else {r})) s' t'"
  proof (cases vec)
    case True
    then show ?thesis using run m x
      by (auto simp: access_def Let_def l agree_def set_v_def store_mem_def split: if_splits)
  next
    case False
    have z: "get_z r s = get_z r t" if "opc = 0" using data [OF False that] x by (simp add: get_z_def)
    show ?thesis using run m x False z
      by (auto simp: access_def Let_def l agree_def set_z_def store_mem_def split: if_splits)
  qed
  then show thesis using that by blast
qed


lemma ls_access_agree:
  assumes ls: "parse_ldst insn = Some ls" and a: "agree S s t" and run: "ls_access insn p s = Some s'"
    and data: "ls_is_store ls \<Longrightarrow> \<not> ls_is_float ls \<Longrightarrow> ls_reg ls \<notin> S" and z: "31 \<notin> S"
  obtains t' where "ls_access insn p t = Some t'" "agree (S - (if ls_is_store ls \<or> ls_is_float ls then {} else {ls_reg ls})) s' t'"
proof -
  note f = parse_ldst_fields [OF ls]
  obtain t' where t: "ls_access insn p t = Some t'"
    and g: "agree (S - (if fld 26 1 insn = 1 \<or> fld 22 2 insn = 0 \<or> fld 0 5 insn = 31 then {} else {fld 0 5 insn})) s' t'"
    by (rule access_agree [OF a run [unfolded ls_access_def]]) (use data in \<open>auto simp: f ls_access_def\<close>)
  have "S - (if fld 26 1 insn = 1 \<or> fld 22 2 insn = 0 \<or> fld 0 5 insn = 31 then {} else {fld 0 5 insn}) =
      S - (if ls_is_store ls \<or> ls_is_float ls then {} else {ls_reg ls})"
    using z by (auto simp: f)
  then show thesis using that t g by simp
qed

text \<open>The ways a sequence becomes shorter.\<close>

inductive shorter :: "nat \<Rightarrow> (nat \<Rightarrow> u64) \<Rightarrow> (nat \<Rightarrow> u32) \<Rightarrow> (nat \<Rightarrow> u32) \<Rightarrow> bool"
  for n pc w where
  same: "shorter n pc w w"
| literal:
    "is_adrp (w 0) \<Longrightarrow> parse_ldst (w 1) = Some ld \<Longrightarrow> ls_base ld = w 0 AND 0x1f \<Longrightarrow> has_literal_form ld \<Longrightarrow>
     to = adrp_page (w 0) (pc 0) + ls_offset ld \<Longrightarrow> to mod 4 = 0 \<Longrightarrow> within_1mb (pc 1) to \<Longrightarrow>
     n = 2 \<or> n = 3 \<and> parse_ldst (w 2) = Some ls \<and> ls_base ls = ls_reg ld \<and> \<not> ls_is_float ld \<Longrightarrow>
     shorter n pc w (w(0 := NOP_INSN, 1 := to_literal ld to (pc 1)))"
| adr_add:
    "n = 2 \<Longrightarrow> is_adrp (w 0) \<Longrightarrow> parse_add (w 1) = Some add \<Longrightarrow> ad_rn add = w 0 AND 0x1f \<Longrightarrow>
     to = adrp_page (w 0) (pc 0) + ad_imm add \<Longrightarrow> within_1mb (pc 0) to \<Longrightarrow>
     shorter n pc w (w(0 := adr (ad_rd add) to (pc 0), 1 := NOP_INSN))"
| literal_through:
    "n = 3 \<Longrightarrow> is_adrp (w 0) \<Longrightarrow> parse_add (w 1) = Some add \<Longrightarrow> ad_rn add = w 0 AND 0x1f \<Longrightarrow>
     parse_ldst (w 2) = Some ld \<Longrightarrow> ls_base ld = ad_rd add \<Longrightarrow> has_literal_form ld \<Longrightarrow>
     to = adrp_page (w 0) (pc 0) + ad_imm add + ls_offset ld \<Longrightarrow> to mod 4 = 0 \<Longrightarrow> within_1mb (pc 2) to \<Longrightarrow>
     shorter n pc w (w(0 := NOP_INSN, 1 := NOP_INSN, 2 := to_literal ld to (pc 2)))"
| adr_through:
    "n = 3 \<Longrightarrow> is_adrp (w 0) \<Longrightarrow> parse_add (w 1) = Some add \<Longrightarrow> ad_rn add = w 0 AND 0x1f \<Longrightarrow>
     parse_ldst (w 2) = Some ld \<Longrightarrow> ls_base ld = ad_rd add \<Longrightarrow>
     to = adrp_page (w 0) (pc 0) + ad_imm add + ls_offset ld \<Longrightarrow> within_1mb (pc 0) to \<Longrightarrow>
     shorter n pc w (w(0 := adr (ls_base ld) to (pc 0), 1 := NOP_INSN, 2 := with_base ld (ls_base ld) 0))"
| adr_keep:
    "n = 3 \<Longrightarrow> is_adrp (w 0) \<Longrightarrow> parse_add (w 1) = Some add \<Longrightarrow> ad_rn add = w 0 AND 0x1f \<Longrightarrow>
     parse_ldst (w 2) = Some ld \<Longrightarrow> ls_base ld = ad_rd add \<Longrightarrow>
     to = adrp_page (w 0) (pc 0) + ad_imm add \<Longrightarrow> within_1mb (pc 0) to \<Longrightarrow>
     shorter n pc w (w(0 := adr (ls_base ld) to (pc 0), 1 := NOP_INSN))"
| fold_add:
    "n = 3 \<Longrightarrow> is_adrp (w 0) \<Longrightarrow> parse_add (w 1) = Some add \<Longrightarrow> ad_rn add = w 0 AND 0x1f \<Longrightarrow>
     parse_ldst (w 2) = Some ld \<Longrightarrow> ls_base ld = ad_rd add \<Longrightarrow>
     to = adrp_page (w 0) (pc 0) + ad_imm add \<Longrightarrow> to mod ls_size ld = 0 \<Longrightarrow> ad_imm add + ls_offset ld < 4096 \<Longrightarrow>
     shorter n pc w (w(1 := NOP_INSN, 2 := with_base ld (ad_rn add) (ad_imm add + ls_offset ld)))"

definition run_words :: "nat \<Rightarrow> (nat \<Rightarrow> u64) \<Rightarrow> (nat \<Rightarrow> u32) \<Rightarrow> (nat \<Rightarrow> mach \<Rightarrow> mach) \<Rightarrow> mach \<Rightarrow> mach option" where
  "run_words n pc w f s =
     do { s \<leftarrow> exec (pc 0) (w 0) s; s \<leftarrow> exec (pc 1) (w 1) (f 0 s);
          if n < 3 then Some s else exec (pc 2) (w 2) (f 1 s) }"

lemma exec_nop: "exec pc NOP_INSN s = Some s"
  by (simp add: exec_def step_def)

lemma exec_adrp: "is_adrp i \<Longrightarrow> exec pc i s = Some (set_z (fld 0 5 i) (adrp_page i pc) s)"
  by (simp add: exec_def is_adrp_step fld_masks(1))

lemma exec_add: "parse_add i = Some add \<Longrightarrow> exec pc i s = Some (set_sp (ad_rd add) (get_sp (ad_rn add) s + ad_imm add) s)"
  by (simp add: exec_def parse_add_step)

lemma exec_ldst: "parse_ldst i = Some ls \<Longrightarrow> exec pc i s = ls_access i (get_sp (ls_base ls) s + ls_offset ls) s"
  by (simp add: exec_def parse_ldst_step option.map_comp o_def option.map_ident)

lemma exec_adr: "within_1mb pc to \<Longrightarrow> exec pc (adr (rd AND 0x1f) to pc) s = Some (set_z (rd AND 0x1f) to s)"
  by (simp add: exec_def adr_step)

lemma exec_literal:
  "parse_ldst i = Some ls \<Longrightarrow> has_literal_form ls \<Longrightarrow> within_1mb pc to \<Longrightarrow> to mod 4 = 0 \<Longrightarrow> pc mod 4 = 0 \<Longrightarrow>
   ls_access i to s = Some s' \<Longrightarrow> exec pc (to_literal ls to pc) s = Some s'"
  by (simp add: exec_def to_literal_step)

lemma exec_with_base:
  "parse_ldst i = Some ls \<Longrightarrow> off mod ls_size ls = 0 \<Longrightarrow> off < 4096 \<Longrightarrow>
   exec pc (with_base ls (b AND 0x1f) off) s = ls_access i (get_sp (b AND 0x1f) s + off) s"
  by (simp add: exec_def with_base_step option.map_comp o_def option.map_ident)

lemma parse_add_fields:
  "parse_add i = Some add \<Longrightarrow> ad_rd add = fld 0 5 i \<and> ad_rn add = fld 5 5 i \<and> ad_imm add = ucast (fld 10 12 i)"
  by (auto simp: parse_add_def fld_masks fld_bits split: if_splits)

lemma set_get [simp]: "r \<noteq> 31 \<Longrightarrow> set_sp r v s = set_z r v s" "r \<noteq> 31 \<Longrightarrow> get_sp r s = mx s r" "r \<noteq> 31 \<Longrightarrow> mx (set_z r v s) r = v"
  by (simp_all add: set_sp_def set_z_def get_sp_def)

lemma leaves_mx: "leaves S f \<Longrightarrow> r \<in> S \<Longrightarrow> mx (f s) r = mx s r"
  by (simp add: leaves_def)

lemma blind_agree: "blind S f \<Longrightarrow> agree S s t \<Longrightarrow> agree S (f s) (f t)"
  by (simp add: blind_def)


declare One_nat_def [simp del]

definition word_result :: "u32 \<Rightarrow> u32 set" where
  "word_result v =
     (case parse_ldst v of
        Some ls \<Rightarrow> if ls_is_store ls \<or> ls_is_float ls then {} else {ls_reg ls}
      | None \<Rightarrow> {fld 0 5 v})"

lemma last_access:
  assumes "parse_ldst v = Some ls" "agree T b c" "ls_access v a b = Some s1"
    "ls_is_store ls \<Longrightarrow> \<not> ls_is_float ls \<Longrightarrow> ls_reg ls \<notin> T" "31 \<notin> T"
  shows "\<exists>s2. ls_access v a c = Some s2 \<and> agree (T - word_result v) s1 s2"
  by (rule ls_access_agree [OF assms]) (auto simp: word_result_def assms(1))

lemma parse_add_not_ldst: "parse_add v = Some add \<Longrightarrow> parse_ldst v = None"
  unfolding parse_add_def parse_ldst_def using mask_clash [of v "0xffc00000" "0x91000000" "0x3b000000" "0x39000000"]
  by (auto split: if_splits)

text \<open>What all the rules share: the sequence works through \<open>T\<close>, which is its own.\<close>

definition works_through :: "u32 set \<Rightarrow> nat \<Rightarrow> (nat \<Rightarrow> u64) \<Rightarrow> (nat \<Rightarrow> u32) \<Rightarrow> (nat \<Rightarrow> mach \<Rightarrow> mach) \<Rightarrow> bool" where
  "works_through T n pc w f \<longleftrightarrow>
     T = insert (fld 0 5 (w 0)) (if 3 \<le> n \<or> parse_add (w 1) \<noteq> None then {fld 0 5 (w 1)} else {}) \<and>
     31 \<notin> T \<and> (\<forall>i < n. pc i mod 4 = 0) \<and> (\<forall>k. leaves T (f k)) \<and> (\<forall>k. blind T (f k)) \<and>
     (\<forall>st. n = 3 \<longrightarrow> parse_ldst (w 2) = Some st \<longrightarrow> ls_is_store st \<longrightarrow> \<not> ls_is_float st \<longrightarrow> ls_reg st \<notin> T)"

lemma works_throughD:
  assumes "works_through T n pc w f"
  shows "31 \<notin> T" "i < n \<Longrightarrow> pc i mod 4 = 0" "leaves T (f k)" "blind T (f k)" "fld 0 5 (w 0) \<in> T"
    "n = 3 \<Longrightarrow> fld 0 5 (w 1) \<in> T" "parse_add (w 1) = Some add \<Longrightarrow> fld 0 5 (w 1) \<in> T"
    "n = 3 \<Longrightarrow> parse_ldst (w 2) = Some st \<Longrightarrow> ls_is_store st \<Longrightarrow> \<not> ls_is_float st \<Longrightarrow> ls_reg st \<notin> T"
  using assms by (auto simp: works_through_def)

lemma after_adrp:
  assumes "works_through T n pc w f" "is_adrp (w 0)"
  defines "x \<equiv> fld 0 5 (w 0)" and "P \<equiv> adrp_page (w 0) (pc 0)"
  shows "exec (pc 0) (w 0) s = Some (set_z x P s)" "mx (f k (set_z x P s)) x = P" "x \<in> T" "x \<noteq> 31"
    "agree T (f k (set_z x P s)) (f k s)" "r \<in> T \<Longrightarrow> agree T (f k (set_z x P s)) (f k (set_z r v s))"
proof -
  have T: "x \<in> T" "31 \<notin> T" "leaves T (f k)" "blind T (f k)" for k using assms(1) by (auto simp: works_through_def x_def)
  show x: "x \<in> T" "x \<noteq> 31" using T by auto
  show "exec (pc 0) (w 0) s = Some (set_z x P s)" using exec_adrp [OF assms(2)] by (simp add: x_def P_def)
  show "mx (f k (set_z x P s)) x = P" using leaves_mx [OF T(3) x(1)] x(2) by simp
  show "agree T (f k (set_z x P s)) (f k s)" by (rule blind_agree [OF T(4)]) (simp add: agree_set x)
  show "r \<in> T \<Longrightarrow> agree T (f k (set_z x P s)) (f k (set_z r v s))" by (rule blind_agree [OF T(4)]) (simp add: agree_set x)
qed

lemma shorter_literal:
  assumes w: "works_through T n pc w f" and run: "run_words n pc w f s = Some s1"
    and a: "is_adrp (w 0)" and ld: "parse_ldst (w 1) = Some ld" "ls_base ld = w 0 AND 0x1f" "has_literal_form ld"
    and to: "to = adrp_page (w 0) (pc 0) + ls_offset ld" "to mod 4 = 0" "within_1mb (pc 1) to"
    and n: "n = 2 \<or> n = 3 \<and> parse_ldst (w 2) = Some ls \<and> ls_base ls = ls_reg ld \<and> \<not> ls_is_float ld"
  shows "\<exists>s2. run_words n pc (w(0 := NOP_INSN, 1 := to_literal ld to (pc 1))) f s = Some s2 \<and>
     agree (T - word_result (w (if n < 3 then 1 else 2))) s1 s2"
proof -
  note o = after_adrp [OF w a]
  let ?b = "f 0 (set_z (fld 0 5 (w 0)) (adrp_page (w 0) (pc 0)) s)"
  have T: "31 \<notin> T" "leaves T (f k)" "blind T (f k)" "pc 1 mod 4 = 0" for k using w n by (auto simp: works_through_def)
  have base: "get_sp (ls_base ld) ?b + ls_offset ld = to" using o(2,4) by (simp add: ld(2) fld_masks(1) to(1))
  obtain a1 where a1: "ls_access (w 1) to ?b = Some a1" and rest: "(if n < 3 then Some a1 else exec (pc 2) (w 2) (f 1 a1)) = Some s1"
    using run by (auto simp: run_words_def o(1) exec_ldst [OF ld(1)] base split: bind_splits)
  have load: "\<not> ls_is_store ld" using ld(3) by (simp add: has_literal_form_def)
  obtain a2 where a2: "ls_access (w 1) to (f 0 s) = Some a2" and g: "agree (T - word_result (w 1)) a1 a2"
    using last_access [OF ld(1) o(5) a1 _ T(1)] load by blast
  note new = exec_literal [OF ld(1,3) to(3,2) T(4) a2]
  show ?thesis
  proof (cases "n = 2")
    case True
    then show ?thesis using rest g by (simp add: run_words_def exec_nop new)
  next
    case False
    then have n3: "n = 3" and ls: "parse_ldst (w 2) = Some ls" "ls_base ls = ls_reg ld" "\<not> ls_is_float ld" using n by auto
    have reg: "ls_reg ld = fld 0 5 (w 1)" "ls_reg ld \<in> T" "ls_reg ld \<noteq> 31"
      using w n3 parse_ldst_fields(3) [OF ld(1)] by (auto simp: works_through_def)
    have b: "mx (f 1 a1) (ls_reg ld) = mx (f 1 a2) (ls_reg ld)"
      using g load ls(3) by (simp add: leaves_mx [OF T(2) reg(2)] word_result_def ld(1) agree_def)
    have "agree T a1 a2" using g by (rule agree_mono) auto
    then have g1: "agree T (f 1 a1) (f 1 a2)" by (rule blind_agree [OF T(3)])
    have st: "ls_reg ls \<notin> T" if "ls_is_store ls" "\<not> ls_is_float ls" using w n3 ls(1) that by (auto simp: works_through_def)
    have "ls_access (w 2) (get_sp (ls_base ls) (f 1 a2) + ls_offset ls) (f 1 a1) = Some s1"
      using rest n3 b reg(3) by (simp add: exec_ldst [OF ls(1)] ls(2))
    from last_access [OF ls(1) g1 this st T(1)]
    show ?thesis using n3 by (simp add: run_words_def exec_nop new exec_ldst [OF ls(1)])
  qed
qed


lemma through_add:
  assumes w: "works_through T n pc w f" and run: "run_words n pc w f s = Some s1" and n: "n = 3"
    and a: "is_adrp (w 0)" and add: "parse_add (w 1) = Some add" "ad_rn add = w 0 AND 0x1f"
    and ld: "parse_ldst (w 2) = Some ld" "ls_base ld = ad_rd add"
  obtains b where "ls_access (w 2) (adrp_page (w 0) (pc 0) + ad_imm add + ls_offset ld) b = Some s1" "agree T b (f 1 (f 0 s))"
    "\<And>r v. r \<in> T \<Longrightarrow> agree T b (f 1 (f 0 (set_z r v s)))" "ad_rd add \<in> T" "ad_rd add \<noteq> 31"
    "ls_is_store ld \<Longrightarrow> \<not> ls_is_float ld \<Longrightarrow> ls_reg ld \<notin> T" "31 \<notin> T"
proof -
  note o = after_adrp [OF w a]
  let ?x = "fld 0 5 (w 0)" and ?P = "adrp_page (w 0) (pc 0)" and ?rd = "ad_rd add"
  let ?first = "f 0 (set_z ?x ?P s)" and ?A = "?P + ad_imm add"
  have T: "31 \<notin> T" "leaves T (f k)" "blind T (f k)" for k using w by (auto simp: works_through_def)
  have rd: "?rd \<in> T" using w n parse_add_fields [OF add(1)] by (auto simp: works_through_def)
  then have rd31: "?rd \<noteq> 31" using T(1) by auto
  let ?b = "f 1 (set_z ?rd ?A ?first)"
  have "exec (pc 1) (w 1) ?first = Some (set_z ?rd ?A ?first)"
    using o(2,4) rd31 by (simp add: exec_add [OF add(1)] add(2) fld_masks(1))
  then have r: "exec (pc 2) (w 2) ?b = Some s1" using run n by (simp add: run_words_def o(1))
  have "mx ?b ?rd = ?A" using rd31 by (simp add: leaves_mx [OF T(2) rd])
  then have "ls_access (w 2) (?A + ls_offset ld) ?b = Some s1" using r rd31 by (simp add: exec_ldst [OF ld(1)] ld(2))
  moreover have "agree T ?b (f 1 (f 0 s))" by (rule blind_agree [OF T(3)]) (simp add: agree_set(1) o(5) rd)
  moreover have "agree T ?b (f 1 (f 0 (set_z r v s)))" if "r \<in> T" for r v
    by (rule blind_agree [OF T(3)]) (simp add: agree_set(1) o(6) [OF that] rd)
  moreover have "ls_is_store ld \<Longrightarrow> \<not> ls_is_float ld \<Longrightarrow> ls_reg ld \<notin> T" using w n ld(1) by (auto simp: works_through_def)
  ultimately show thesis using that rd rd31 T(1) by blast
qed

lemma multiple_parts:
  fixes i off sz :: u64
  assumes "sz = 2 ^ k" "k \<le> 4" "(page q + i) mod sz = 0" "off = push_bit k v"
  shows "(i + off) mod sz = 0"
proof -
  have m: "w mod sz = take_bit k w" for w by (simp add: assms(1) take_bit_eq_mod)
  have mult: "w = push_bit k (drop_bit k w)" if "take_bit k w = 0" for w :: u64
    using bits_ident [of k w] that by simp
  have none: "take_bit k (push_bit k w) = 0" for w :: u64
    by (rule bit_word_eqI) (auto simp: bit_simps)
  have "take_bit k (page q) = 0"
  proof (rule bit_word_eqI)
    have f: "(0xfff :: u64) = mask 12" by (simp add: mask_eq_exp_minus_1)
    show "bit (take_bit k (page q)) n = bit 0 n" for n using assms(2) by (auto simp: page_def f bit_simps)
  qed
  then have p: "page q = push_bit k (drop_bit k (page q))" by (rule mult)
  have "page q + i = push_bit k (drop_bit k (page q + i))" using assms(3) unfolding m by (rule mult)
  then have "i = push_bit k (drop_bit k (page q + i)) - push_bit k (drop_bit k (page q))" using p by (metis add_diff_cancel_left')
  also have "\<dots> = push_bit k (drop_bit k (page q + i) - drop_bit k (page q))" by (simp add: push_bit_eq_mult algebra_simps)
  finally have "i + off = push_bit k (drop_bit k (page q + i) - drop_bit k (page q) + v)" by (simp add: assms(4) push_bit_add)
  then show ?thesis unfolding m by (simp only: none)
qed

lemma adrp_page_is_page: "\<exists>q. adrp_page i pc = page q"
proof -
  have f: "(0xfff :: u64) = mask 12" by (simp add: mask_eq_exp_minus_1)
  have e: "page v = push_bit 12 (drop_bit 12 v)" for v unfolding page_def f by (rule bit_word_eqI) (auto simp: bit_simps)
  have "adrp_page i pc = push_bit 12 (drop_bit 12 pc + sign_extend (bits (ucast i) 30 29 OR push_bit 2 (bits (ucast i) 23 5)) 21)"
    by (simp add: adrp_page_def Let_def e push_bit_add)
  moreover have "push_bit 12 u = page (push_bit 12 u)" for u unfolding e by (rule bit_word_eqI) (auto simp: bit_simps)
  ultimately show ?thesis by metis
qed

lemma shorter_through:
  assumes w: "works_through T n pc w f" and run: "run_words n pc w f s = Some s1" and n: "n = 3"
    and a: "is_adrp (w 0)" and add: "parse_add (w 1) = Some add" "ad_rn add = w 0 AND 0x1f"
    and ld: "parse_ldst (w 2) = Some ld" "ls_base ld = ad_rd add"
  defines "A \<equiv> adrp_page (w 0) (pc 0) + ad_imm add"
  shows literal_through_ok: "has_literal_form ld \<Longrightarrow> (A + ls_offset ld) mod 4 = 0 \<Longrightarrow> within_1mb (pc 2) (A + ls_offset ld) \<Longrightarrow>
      \<exists>s2. run_words n pc (w(0 := NOP_INSN, 1 := NOP_INSN, 2 := to_literal ld (A + ls_offset ld) (pc 2))) f s = Some s2 \<and> agree (T - word_result (w 2)) s1 s2"
    and adr_through_ok: "within_1mb (pc 0) (A + ls_offset ld) \<Longrightarrow>
      \<exists>s2. run_words n pc (w(0 := adr (ls_base ld) (A + ls_offset ld) (pc 0), 1 := NOP_INSN, 2 := with_base ld (ls_base ld) 0)) f s = Some s2 \<and> agree (T - word_result (w 2)) s1 s2"
    and adr_keep_ok: "within_1mb (pc 0) A \<Longrightarrow>
      \<exists>s2. run_words n pc (w(0 := adr (ls_base ld) A (pc 0), 1 := NOP_INSN)) f s = Some s2 \<and> agree (T - word_result (w 2)) s1 s2"
    and fold_add_ok: "A mod ls_size ld = 0 \<Longrightarrow> ad_imm add + ls_offset ld < 4096 \<Longrightarrow>
      \<exists>s2. run_words n pc (w(1 := NOP_INSN, 2 := with_base ld (ad_rn add) (ad_imm add + ls_offset ld))) f s = Some s2 \<and> agree (T - word_result (w 2)) s1 s2"
proof -
  obtain b where b: "ls_access (w 2) (A + ls_offset ld) b = Some s1" "agree T b (f 1 (f 0 s))"
    "\<And>r v. r \<in> T \<Longrightarrow> agree T b (f 1 (f 0 (set_z r v s)))" "ad_rd add \<in> T" "ad_rd add \<noteq> 31"
    "ls_is_store ld \<Longrightarrow> \<not> ls_is_float ld \<Longrightarrow> ls_reg ld \<notin> T" "31 \<notin> T"
    by (rule through_add [OF w run n a add ld]) (auto simp: A_def)
  have lv: "mx (f 1 (f 0 (set_z r v s))) r = v" if "r \<in> T" for r v
  proof -
    have "r \<noteq> 31" using that b(7) by auto
    then show ?thesis using that by (simp add: leaves_mx [OF works_throughD(3) [OF w]])
  qed
  have last: "\<exists>s2. ls_access (w 2) (A + ls_offset ld) c = Some s2 \<and> agree (T - word_result (w 2)) s1 s2" if "agree T b c" for c
    by (rule last_access [OF ld(1) that b(1) b(6) b(7)])
  have pc2: "pc 2 mod 4 = 0" using works_throughD(2) [OF w, of 2] n by simp
  have rd: "ad_rd add AND 0x1f = ad_rd add"
    using parse_add_fields [OF add(1)] by (simp add: fld_masks(1)) (simp add: fld_def)
  show "\<exists>s2. run_words n pc (w(0 := NOP_INSN, 1 := NOP_INSN, 2 := to_literal ld (A + ls_offset ld) (pc 2))) f s = Some s2 \<and> agree (T - word_result (w 2)) s1 s2"
    if "has_literal_form ld" "(A + ls_offset ld) mod 4 = 0" "within_1mb (pc 2) (A + ls_offset ld)"
    using last [OF b(2)] exec_literal [OF ld(1) that(1,3,2) pc2] n by (fastforce simp: run_words_def exec_nop)
  have adr: "exec (pc 0) (adr (ls_base ld) to (pc 0)) s = Some (set_z (ls_base ld) to s)" if "within_1mb (pc 0) to" for to
    using exec_adr [OF that, of "ad_rd add"] by (simp add: ld(2) rd)
  show "\<exists>s2. run_words n pc (w(0 := adr (ls_base ld) (A + ls_offset ld) (pc 0), 1 := NOP_INSN, 2 := with_base ld (ls_base ld) 0)) f s = Some s2 \<and> agree (T - word_result (w 2)) s1 s2"
    if "within_1mb (pc 0) (A + ls_offset ld)"
    using last [OF b(3) [OF b(4)]] n lv [OF b(4)] exec_with_base [OF ld(1), of 0 "pc 2" "ad_rd add"] b(5)
    by (simp add: run_words_def exec_nop adr [OF that, unfolded ld(2)] ld(2) rd)
  show "\<exists>s2. run_words n pc (w(0 := adr (ls_base ld) A (pc 0), 1 := NOP_INSN)) f s = Some s2 \<and> agree (T - word_result (w 2)) s1 s2"
    if "within_1mb (pc 0) A"
    using last [OF b(3) [OF b(4)]] n lv [OF b(4)] exec_ldst [OF ld(1), of "pc 2"] b(5)
    by (simp add: run_words_def exec_nop adr [OF that, unfolded ld(2)] ld(2))
  show "\<exists>s2. run_words n pc (w(1 := NOP_INSN, 2 := with_base ld (ad_rn add) (ad_imm add + ls_offset ld))) f s = Some s2 \<and> agree (T - word_result (w 2)) s1 s2"
    if "A mod ls_size ld = 0" "ad_imm add + ls_offset ld < 4096"
  proof -
    note o = after_adrp [OF w a]
    note p = parse_ldst_fields [OF ld(1)]
    obtain q where q: "adrp_page (w 0) (pc 0) = page q" using adrp_page_is_page by blast
    have div: "(ad_imm add + ls_offset ld) mod ls_size ld = 0"
      by (rule multiple_parts [OF p(5,7) _ p(6)]) (use that(1) q in \<open>simp add: A_def\<close>)
    have x: "get_sp (w 0 AND 0x1f) (f 1 (f 0 (set_z (fld 0 5 (w 0)) (adrp_page (w 0) (pc 0)) s))) = adrp_page (w 0) (pc 0)"
      using lv [OF o(3)] o(4) by (simp add: fld_masks(1))
    show ?thesis
      using last [OF b(3) [OF o(3)]] n exec_with_base [OF ld(1) div that(2), of "pc 2" "w 0"] x
      by (simp add: run_words_def exec_nop o(1) add(2) A_def add.assoc)
  qed
qed

lemma shorter_adr_add:
  assumes w: "works_through T n pc w f" and run: "run_words n pc w f s = Some s1" and n: "n = 2"
    and a: "is_adrp (w 0)" and add: "parse_add (w 1) = Some add" "ad_rn add = w 0 AND 0x1f"
    and to: "to = adrp_page (w 0) (pc 0) + ad_imm add" "within_1mb (pc 0) to"
  shows "\<exists>s2. run_words n pc (w(0 := adr (ad_rd add) to (pc 0), 1 := NOP_INSN)) f s = Some s2 \<and> agree (T - word_result (w 1)) s1 s2"
proof -
  note o = after_adrp [OF w a]
  let ?rd = "ad_rd add" and ?b = "f 0 (set_z (fld 0 5 (w 0)) (adrp_page (w 0) (pc 0)) s)"
  have rd: "?rd = fld 0 5 (w 1)" "?rd \<in> T" using w add(1) parse_add_fields [OF add(1)] by (auto simp: works_through_def)
  then have rd31: "?rd \<noteq> 31" using works_throughD(1) [OF w] by auto
  have rdm: "?rd AND 0x1f = ?rd" by (simp add: rd(1) fld_masks(1)) (simp add: fld_def)
  have res: "word_result (w 1) = {?rd}" by (simp add: word_result_def parse_add_not_ldst [OF add(1)] rd(1))
  have s1: "s1 = set_z ?rd to ?b"
    using run n o(2,4) rd31 by (simp add: run_words_def o(1) exec_add [OF add(1)] add(2) fld_masks(1) to(1))
  let ?c = "f 0 (set_z ?rd to s)"
  have c: "mx ?c ?rd = to" using leaves_mx [OF works_throughD(3) [OF w] rd(2)] rd31 by simp
  have "agree T ?b ?c" by (rule o(6) [OF rd(2)])
  then have "agree (T - {?rd}) s1 ?c" using c rd31 by (auto simp: s1 agree_def set_z_def)
  then show ?thesis using n exec_adr [OF to(2), of ?rd] by (simp add: run_words_def exec_nop rdm res)
qed

lemma shorter_sound:
  assumes "shorter n pc w w'" and w: "works_through T n pc w f" and run: "run_words n pc w f s = Some s1"
  shows "\<exists>s2. run_words n pc w' f s = Some s2 \<and> agree (T - word_result (w (if n < 3 then 1 else 2))) s1 s2"
  using assms(1)
proof cases
  case same
  then show ?thesis using run by auto
next
  case (literal ld to ls)
  show ?thesis using shorter_literal [OF w run literal(2-)] literal(1) by simp
next
  case (adr_add add to)
  show ?thesis using shorter_adr_add [OF w run adr_add(2-7)] adr_add(1,2) by simp
next
  case (literal_through add ld to)
  show ?thesis using literal_through_ok [OF w run literal_through(2-7)] literal_through(1,2,8-) by (simp add: add.assoc)
next
  case (adr_through add ld to)
  show ?thesis using adr_through_ok [OF w run adr_through(2-7)] adr_through(1,2,8-) by (simp add: add.assoc)
next
  case (adr_keep add ld to)
  show ?thesis using adr_keep_ok [OF w run adr_keep(2-7)] adr_keep(1,2,8-) by (simp add: add.assoc)
next
  case (fold_add add ld to)
  show ?thesis using fold_add_ok [OF w run fold_add(2-7)] fold_add(1,2,8-) by (simp add: add.assoc)
qed


text \<open>Hints with room for their instructions, and a rewrite that changes only these.\<close>

definition places :: "hint \<Rightarrow> bool" where
  "places h \<longleftrightarrow>
     (\<forall>i < ht_n h. hi_off (ht_insns h i) + 4 \<le> length (ht_buf h)) \<and>
     (\<forall>i < ht_n h. \<forall>j < i. hi_off (ht_insns h i) + 4 \<le> hi_off (ht_insns h j) \<or> hi_off (ht_insns h j) + 4 \<le> hi_off (ht_insns h i))"

definition holds_words :: "hint \<Rightarrow> (nat \<Rightarrow> u32) \<Rightarrow> bool" where
  "holds_words h w \<longleftrightarrow> (\<forall>i < ht_n h. hint_get h i = Some (w i))"

definition same_place :: "hint \<Rightarrow> hint \<Rightarrow> bool" where
  "same_place h h' \<longleftrightarrow>
     ht_insns h' = ht_insns h \<and> ht_n h' = ht_n h \<and> length (ht_buf h') = length (ht_buf h) \<and>
     (\<forall>p. (\<forall>i < ht_n h. p < hi_off (ht_insns h i) \<or> hi_off (ht_insns h i) + 4 \<le> p) \<longrightarrow> ht_buf h' ! p = ht_buf h ! p)"

definition rewritten :: "hint \<Rightarrow> (nat \<Rightarrow> u32) \<Rightarrow> hint option \<Rightarrow> bool" where
  "rewritten h w r \<longleftrightarrow> (\<exists>h'. r = Some h' \<and> same_place h h' \<and> holds_words h' w)"

lemma same_place_trans: "same_place h h1 \<Longrightarrow> same_place h1 h2 \<Longrightarrow> same_place h h2"
  by (auto simp: same_place_def)

lemma same_place_places: "same_place h h1 \<Longrightarrow> places h \<Longrightarrow> places h1"
  by (simp add: same_place_def places_def)

lemma same_place_n: "same_place h h1 \<Longrightarrow> ht_n h1 = ht_n h"
  by (simp add: same_place_def)

lemma same_place_addr: "same_place h h1 \<Longrightarrow> hint_addr h1 i = hint_addr h i"
  by (simp add: same_place_def hint_addr_def)

lemma hint_set_ok:
  assumes p: "places h" and w: "holds_words h w" and i: "i < ht_n h"
  obtains h1 where "hint_set i v h = Some h1" "same_place h h1" "holds_words h1 (w(i := v))"
proof -
  let ?off = "\<lambda>i. hi_off (ht_insns h i)"
  have room: "?off i + 4 \<le> length (ht_buf h)" using p i by (simp add: places_def)
  then obtain b where b: "copy_at (ht_buf h) (?off i) (le_bytes 4 v) = Some b" by (auto simp: copy_at_def)
  then have bb: "b = take (?off i) (ht_buf h) @ le_bytes 4 v @ drop (?off i + 4) (ht_buf h)" and len: "length b = length (ht_buf h)"
    using room by (auto simp: copy_at_def)
  let ?h1 = "h\<lparr>ht_buf := b\<rparr>"
  have set: "hint_set i v h = Some ?h1" by (simp add: hint_set_def b)
  have out: "b ! p = ht_buf h ! p" if "p < ?off i \<or> ?off i + 4 \<le> p" for p
    using that room by (auto simp: bb nth_append)
  then have place: "same_place h ?h1" using len i by (auto simp: same_place_def)
  have slices: "slice_at (drop o' bs) 0 4 = (if o' + 4 \<le> length bs then Some (map (\<lambda>k. bs ! (o' + k)) [0..<4]) else None)" for o' and bs :: bytes
    by (auto simp: slice_at_def take_map [symmetric] list_eq_iff_nth_eq)
  have "hint_get ?h1 j = Some ((w(i := v)) j)" if j: "j < ht_n h" for j
  proof (cases "j = i")
    case True
    have "slice_at (drop (?off i) b) 0 4 = Some (le_bytes 4 v)" using room by (simp add: bb slice_at_def)
    then show ?thesis using True by (simp add: hint_get_def read32_def)
  next
    case False
    then have apart: "?off i + 4 \<le> ?off j \<or> ?off j + 4 \<le> ?off i" using p i j unfolding places_def by (metis linorder_neqE_nat)
    have "map (\<lambda>k. b ! (?off j + k)) [0..<4] = map (\<lambda>k. ht_buf h ! (?off j + k)) [0..<4]"
      using apart by (intro map_cong refl out) auto
    moreover have "ht_buf ?h1 = b" "ht_insns ?h1 = ht_insns h" by simp_all
    ultimately have "hint_get ?h1 j = hint_get h j" by (simp only: hint_get_def read32_def slices len)
    then show ?thesis using w j False by (simp add: holds_words_def)
  qed
  then have "holds_words ?h1 (w(i := v))" by (simp add: holds_words_def)
  then show thesis using that set place by blast
qed

lemma rewritten_Some: "holds_words h w \<Longrightarrow> rewritten h w (Some h)"
  by (auto simp: rewritten_def same_place_def)

lemma rewritten_set: "places h \<Longrightarrow> holds_words h w \<Longrightarrow> i < ht_n h \<Longrightarrow> rewritten h (w(i := v)) (hint_set i v h)"
  by (rule hint_set_ok [of h w i v]) (auto simp: rewritten_def)

lemma rewritten_bind:
  assumes "places h" "holds_words h w" "i < ht_n h"
    and "\<And>h1. places h1 \<Longrightarrow> same_place h h1 \<Longrightarrow> ht_n h1 = ht_n h \<Longrightarrow> holds_words h1 (w(i := v)) \<Longrightarrow> rewritten h1 w' (g h1)"
  shows "rewritten h w' (do { h1 \<leftarrow> hint_set i v h; g h1 })"
proof -
  obtain h1 where h1: "hint_set i v h = Some h1" "same_place h h1" "holds_words h1 (w(i := v))" using hint_set_ok [OF assms(1-3)] .
  from assms(4) [OF same_place_places [OF h1(2) assms(1)] h1(2) same_place_n [OF h1(2)] h1(3)]
  show ?thesis using h1 same_place_trans by (auto simp: rewritten_def)
qed

lemma rewritten_set2:
  assumes "places h" "holds_words h w" "i < ht_n h" "j < ht_n h"
    and "\<And>h1. same_place h h1 \<Longrightarrow> u h1 = u'"
  shows "rewritten h (w(i := v, j := u')) (do { h1 \<leftarrow> hint_set i v h; hint_set j (u h1) h1 })"
  by (rule rewritten_bind [OF assms(1-3)]) (use assms(4) in \<open>auto simp: assms(5) intro!: rewritten_set\<close>)

lemma rewritten_set3:
  assumes "places h" "holds_words h w" "i < ht_n h" "j < ht_n h" "k < ht_n h"
    and "\<And>h1. same_place h h1 \<Longrightarrow> t h1 = t'"
  shows "rewritten h (w(i := v, j := u, k := t')) (do { h1 \<leftarrow> hint_set i v h; h2 \<leftarrow> hint_set j u h1; hint_set k (t h2) h2 })"
  by (rule rewritten_bind [OF assms(1-3)])
    (use assms(4,5) in \<open>auto intro!: rewritten_set2 simp: assms(6) dest: same_place_trans\<close>)

definition shortens :: "(hint \<Rightarrow> hint option) \<Rightarrow> hint \<Rightarrow> (nat \<Rightarrow> u32) \<Rightarrow> bool" where
  "shortens g h w \<longleftrightarrow> (\<exists>w'. shorter (ht_n h) (hint_addr h) w w' \<and> rewritten h w' (g h))"

lemma shortens_none: "holds_words h w \<Longrightarrow> g h = Some h \<Longrightarrow> shortens g h w"
  unfolding shortens_def using shorter.same rewritten_Some by metis

lemma shortensI: "shorter (ht_n h) (hint_addr h) w w' \<Longrightarrow> rewritten h w' (g h) \<Longrightarrow> shortens g h w"
  by (auto simp: shortens_def)

lemma loh_adrp_ldr_shortens:
  assumes p: "places h" and w: "holds_words h w" and n: "ht_n h = 2"
  shows "shortens loh_adrp_ldr h w"
proof -
  have get: "hint_get h 0 = Some (w 0)" "hint_get h 1 = Some (w 1)" using w n by (auto simp: holds_words_def)
  show ?thesis
  proof (cases "parse_ldst (w 1)")
    case None
    then show ?thesis by (intro shortens_none [OF w]) (simp add: loh_adrp_ldr_def get)
  next
    case (Some ld)
    define to where "to = adrp_page (w 0) (hint_addr h 0) + ls_offset ld"
    show ?thesis
    proof (cases "has_page_pair h False \<and> is_adrp (w 0) \<and> ls_base ld = w 0 AND 0x1f \<and> has_literal_form ld \<and> to mod 4 = 0 \<and> within_1mb (hint_addr h 1) to")
      case True
      have "loh_adrp_ldr h = do { h1 \<leftarrow> hint_set 0 NOP_INSN h; hint_set 1 (to_literal ld to (hint_addr h1 1)) h1 }"
        using True by (simp add: loh_adrp_ldr_def get Some to_def [symmetric])
      moreover have "rewritten h (w(0 := NOP_INSN, 1 := to_literal ld to (hint_addr h 1))) \<dots>"
        by (rule rewritten_set2 [OF p w]) (simp_all add: n same_place_addr)
      ultimately show ?thesis
        using True n by (intro shortensI [OF shorter.literal [where n = "ht_n h" and pc = "hint_addr h" and w = w, OF _ Some _ _ to_def]]) auto
    next
      case False
      then show ?thesis by (intro shortens_none [OF w]) (auto simp: loh_adrp_ldr_def get Some to_def)
    qed
  qed
qed

lemma loh_adrp_add_shortens:
  assumes p: "places h" and w: "holds_words h w" and n: "ht_n h = 2"
  shows "shortens loh_adrp_add h w"
proof -
  have get: "hint_get h 0 = Some (w 0)" "hint_get h 1 = Some (w 1)" using w n by (auto simp: holds_words_def)
  show ?thesis
  proof (cases "parse_add (w 1)")
    case None
    then show ?thesis by (intro shortens_none [OF w]) (simp add: loh_adrp_add_def get)
  next
    case (Some add)
    define to where "to = adrp_page (w 0) (hint_addr h 0) + ad_imm add"
    show ?thesis
    proof (cases "has_page_pair h False \<and> is_adrp (w 0) \<and> ad_rn add = w 0 AND 0x1f \<and> within_1mb (hint_addr h 0) to")
      case True
      have "loh_adrp_add h = do { h1 \<leftarrow> hint_set 0 (adr (ad_rd add) to (hint_addr h 0)) h; hint_set 1 NOP_INSN h1 }"
        using True by (simp add: loh_adrp_add_def get Some to_def [symmetric])
      moreover have "rewritten h (w(0 := adr (ad_rd add) to (hint_addr h 0), 1 := NOP_INSN)) \<dots>"
        by (rule rewritten_set2 [OF p w]) (simp_all add: n)
      ultimately show ?thesis
        using True n by (intro shortensI [OF shorter.adr_add [where n = "ht_n h" and pc = "hint_addr h" and w = w, OF _ _ Some _ to_def]]) auto
    next
      case False
      then show ?thesis by (intro shortens_none [OF w]) (auto simp: loh_adrp_add_def get Some to_def)
    qed
  qed
qed


lemma adrp_add_ldst_cases:
  assumes w: "holds_words h w" and n: "ht_n h = 3"
  obtains "adrp_add_ldst h = Some None"
  | add ls where "adrp_add_ldst h = Some (Some (adrp_page (w 0) (hint_addr h 0) + ad_imm add, add, ls))"
      "is_adrp (w 0)" "parse_add (w 1) = Some add" "ad_rn add = w 0 AND 0x1f" "parse_ldst (w 2) = Some ls" "ls_base ls = ad_rd add"
proof -
  have get: "hint_get h 0 = Some (w 0)" "hint_get h 1 = Some (w 1)" "hint_get h 2 = Some (w 2)" using w n by (auto simp: holds_words_def)
  show thesis
  proof (cases "parse_add (w 1)")
    case None
    then show ?thesis by (intro that(1)) (simp add: adrp_add_ldst_def get)
  next
    case add: (Some add)
    show ?thesis
    proof (cases "parse_ldst (w 2)")
      case None
      then show ?thesis by (intro that(1)) (simp add: adrp_add_ldst_def get add)
    next
      case (Some ls)
      show ?thesis
      proof (cases "has_page_pair h False \<and> is_adrp (w 0) \<and> ad_rn add = w 0 AND 0x1f \<and> ls_base ls = ad_rd add")
        case True
        then show ?thesis by (intro that(2) [of add ls]) (simp_all add: adrp_add_ldst_def get add Some)
      next
        case False
        then show ?thesis by (intro that(1)) (auto simp: adrp_add_ldst_def get add Some)
      qed
    qed
  qed
qed

lemma rewritten_all:
  assumes p: "places h" and w: "holds_words h w" and n: "ht_n h = 3"
  shows "rewritten h (w(0 := a, 1 := b, 2 := t (hint_addr h 2))) (do { h1 \<leftarrow> hint_set 0 a h; h2 \<leftarrow> hint_set 1 b h1; hint_set 2 (t (hint_addr h2 2)) h2 })"
    and "rewritten h (w(1 := b, 2 := c)) (do { h1 \<leftarrow> hint_set 1 b h; hint_set 2 c h1 })"
    and "rewritten h (w(0 := a, 1 := b)) (do { h1 \<leftarrow> hint_set 0 a h; hint_set 1 b h1 })"
    and "rewritten h (w(0 := a, 1 := t (hint_addr h 1))) (do { h1 \<leftarrow> hint_set 0 a h; hint_set 1 (t (hint_addr h1 1)) h1 })"
  by (rule rewritten_set3 [OF p w]; simp add: n same_place_addr) (rule rewritten_set2 [OF p w]; simp add: n same_place_addr)+

lemmas shorter_at =
  shorter.literal [where n = "ht_n h" and pc = "hint_addr h" and w = w for h w]
  shorter.literal_through [where n = "ht_n h" and pc = "hint_addr h" and w = w for h w]
  shorter.adr_through [where n = "ht_n h" and pc = "hint_addr h" and w = w for h w]
  shorter.adr_keep [where n = "ht_n h" and pc = "hint_addr h" and w = w for h w]
  shorter.fold_add [where n = "ht_n h" and pc = "hint_addr h" and w = w for h w]
  shorter.adr_add [where n = "ht_n h" and pc = "hint_addr h" and w = w for h w]

lemma add_imm_small: "parse_add v = Some add \<Longrightarrow> ad_imm add < 4096"
proof -
  assume "parse_add v = Some add"
  then have "ad_imm add = ucast (fld 10 12 v)" by (simp add: parse_add_fields)
  moreover have "unat (fld 10 12 v) < 4096"
    using take_bit_nat_less_exp [of 12 "unat (drop_bit 10 v)"] by (simp add: fld_def unsigned_take_bit_eq)
  ultimately show ?thesis by (simp add: word_less_nat_alt unsigned_ucast_eq take_bit_nat_eq_self)
qed

lemma loh_adrp_add_ldst_shortens:
  assumes p: "places h" and w: "holds_words h w" and n: "ht_n h = 3"
  shows "shortens loh_adrp_add_ldr h w" "shortens loh_adrp_add_str h w"
proof -
  note r = rewritten_all [OF p w n]
  show "shortens loh_adrp_add_ldr h w"
  proof (rule adrp_add_ldst_cases [OF w n])
    assume "adrp_add_ldst h = Some None"
    then show ?thesis by (intro shortens_none [OF w]) (simp add: loh_adrp_add_ldr_def)
  next
    fix add :: add_insn and ld
    let ?A = "adrp_page (w 0) (hint_addr h 0) + ad_imm add"
    assume e: "adrp_add_ldst h = Some (Some (?A, add, ld))"
      and c: "is_adrp (w 0)" "parse_add (w 1) = Some add" "ad_rn add = w 0 AND 0x1f" "parse_ldst (w 2) = Some ld" "ls_base ld = ad_rd add"
    let ?to = "?A + ls_offset ld"
    consider (lit) "has_literal_form ld \<and> ?to mod 4 = 0 \<and> within_1mb (hint_addr h 2) ?to"
      | (adr) "\<not> (has_literal_form ld \<and> ?to mod 4 = 0 \<and> within_1mb (hint_addr h 2) ?to)" "within_1mb (hint_addr h 0) ?to"
      | (fold) "\<not> (has_literal_form ld \<and> ?to mod 4 = 0 \<and> within_1mb (hint_addr h 2) ?to)" "\<not> within_1mb (hint_addr h 0) ?to" "?A mod ls_size ld = 0 \<and> ls_offset ld = 0"
      | (none) "\<not> (has_literal_form ld \<and> ?to mod 4 = 0 \<and> within_1mb (hint_addr h 2) ?to)" "\<not> within_1mb (hint_addr h 0) ?to"
          "\<not> (?A mod ls_size ld = 0 \<and> ls_offset ld = 0)"
      by blast
    then show ?thesis
    proof cases
      case lit
      then have x: "loh_adrp_add_ldr h = do { h1 \<leftarrow> hint_set 0 NOP_INSN h; h2 \<leftarrow> hint_set 1 NOP_INSN h1; hint_set 2 (to_literal ld ?to (hint_addr h2 2)) h2 }"
        by (simp add: loh_adrp_add_ldr_def e)
      show ?thesis
        by (rule shortensI [OF shorter_at(2) [OF n c _ refl]]) (use lit x r(1) [where t = "to_literal ld ?to"] in auto)
    next
      case adr
      then have x: "loh_adrp_add_ldr h = do { h1 \<leftarrow> hint_set 0 (adr (ls_base ld) ?to (hint_addr h 0)) h; h2 \<leftarrow> hint_set 1 NOP_INSN h1; hint_set 2 (with_base ld (ls_base ld) 0) h2 }"
        by (auto simp: loh_adrp_add_ldr_def e)
      show ?thesis
        by (rule shortensI [OF shorter_at(3) [OF n c refl]]) (use adr x r(1) [where t = "\<lambda>_. with_base ld (ls_base ld) 0"] in auto)
    next
      case fold
      then have x: "loh_adrp_add_ldr h = do { h1 \<leftarrow> hint_set 1 NOP_INSN h; hint_set 2 (with_base ld (ad_rn add) (ad_imm add + ls_offset ld)) h1 }"
        by (simp only: loh_adrp_add_ldr_def e Let_def fold if_False if_True bind.simps option.case prod.case simp_thms add_0_right)
      show ?thesis
        by (rule shortensI [OF shorter_at(5) [OF n c refl]]) (use fold x r(2) add_imm_small [OF c(2)] in auto)
    next
      case none
      show ?thesis by (rule shortens_none [OF w]) (simp only: loh_adrp_add_ldr_def e Let_def none if_False bind.simps option.case prod.case)
    qed
  qed
  show "shortens loh_adrp_add_str h w"
  proof (rule adrp_add_ldst_cases [OF w n])
    assume "adrp_add_ldst h = Some None"
    then show ?thesis by (intro shortens_none [OF w]) (simp add: loh_adrp_add_str_def)
  next
    fix add :: add_insn and ld
    let ?A = "adrp_page (w 0) (hint_addr h 0) + ad_imm add"
    assume e: "adrp_add_ldst h = Some (Some (?A, add, ld))"
      and c: "is_adrp (w 0)" "parse_add (w 1) = Some add" "ad_rn add = w 0 AND 0x1f" "parse_ldst (w 2) = Some ld" "ls_base ld = ad_rd add"
    let ?to = "?A + ls_offset ld"
    consider (adr) "ls_is_store ld" "within_1mb (hint_addr h 0) ?to"
      | (fold) "ls_is_store ld" "\<not> within_1mb (hint_addr h 0) ?to" "?A mod ls_size ld = 0 \<and> ls_offset ld = 0"
      | (load) "\<not> ls_is_store ld"
      | (none) "ls_is_store ld" "\<not> within_1mb (hint_addr h 0) ?to" "\<not> (?A mod ls_size ld = 0 \<and> ls_offset ld = 0)"
      by blast
    then show ?thesis
    proof cases
      case adr
      then have x: "loh_adrp_add_str h = do { h1 \<leftarrow> hint_set 0 (adr (ls_base ld) ?to (hint_addr h 0)) h; h2 \<leftarrow> hint_set 1 NOP_INSN h1; hint_set 2 (with_base ld (ls_base ld) 0) h2 }"
        by (simp add: loh_adrp_add_str_def e)
      show ?thesis
        by (rule shortensI [OF shorter_at(3) [OF n c refl]]) (use adr x r(1) [where t = "\<lambda>_. with_base ld (ls_base ld) 0"] in auto)
    next
      case fold
      then have x: "loh_adrp_add_str h = do { h1 \<leftarrow> hint_set 1 NOP_INSN h; hint_set 2 (with_base ld (ad_rn add) (ad_imm add + ls_offset ld)) h1 }"
        by (simp only: loh_adrp_add_str_def e Let_def fold if_False if_True bind.simps option.case prod.case simp_thms add_0_right)
      show ?thesis
        by (rule shortensI [OF shorter_at(5) [OF n c refl]]) (use fold x r(2) add_imm_small [OF c(2)] in auto)
    next
      case load
      then show ?thesis by (intro shortens_none [OF w]) (simp add: loh_adrp_add_str_def e)
    next
      case none
      show ?thesis by (rule shortens_none [OF w]) (simp only: loh_adrp_add_str_def e Let_def none if_False simp_thms bind.simps option.case prod.case)
    qed
  qed
qed


lemma got_load_cases:
  assumes w: "holds_words h w" and n: "2 \<le> ht_n h"
  obtains "hint_got_load h = Some None"
  | ld where "hint_got_load h = Some (Some (GlSlot (adrp_page (w 0) (hint_addr h 0) + ls_offset ld) ld))" "is_adrp (w 0)" "parse_ldst (w 1) = Some ld"
      "ls_base ld = w 0 AND 0x1f" "has_literal_form ld" "\<not> ls_is_float ld" "ls_offset ld mod 8 = 0"
  | add where "hint_got_load h = Some (Some (GlRelaxed (adrp_page (w 0) (hint_addr h 0) + ad_imm add) add))"
      "is_adrp (w 0)" "parse_add (w 1) = Some add" "ad_rn add = w 0 AND 0x1f"
proof -
  have get: "hint_get h 0 = Some (w 0)" "hint_get h 1 = Some (w 1)" using w n by (auto simp: holds_words_def)
  let ?g = "has_page_pair h True \<and> is_adrp (w 0)"
  show thesis
  proof (cases ?g)
    case False
    then show ?thesis by (intro that(1)) (auto simp: hint_got_load_def get)
  next
    case g: True
    show ?thesis
    proof (cases "parse_ldst (w 1)")
      case None
      show ?thesis
      proof (cases "parse_add (w 1)")
        case None
        then show ?thesis using g \<open>parse_ldst (w 1) = None\<close> by (intro that(1)) (simp add: hint_got_load_def get)
      next
        case (Some add)
        show ?thesis
          by (cases "ad_rn add = w 0 AND 0x1f"; intro that(1) that(3) [of add]) (use g None Some in \<open>simp_all add: hint_got_load_def get\<close>)
      qed
    next
      case (Some ld)
      show ?thesis
      proof (cases "ls_size ld = 8 \<and> \<not> ls_is_float ld \<and> \<not> ls_is_store ld \<and> ls_base ld = w 0 AND 0x1f")
        case False
        then show ?thesis using g by (intro that(1)) (auto simp: hint_got_load_def get Some)
      next
        case True
        note f = parse_ldst_fields [OF Some]
        define k where "k = access_scale (fld 26 1 (w 1) = 1) (fld 30 2 (w 1)) (fld 22 2 (w 1))"
        have p: "ls_offset ld = ucast (fld 10 12 (w 1)) * 2 ^ k" "(2 :: u64) ^ k = 8" using True f(5,6) by (simp_all add: k_def push_bit_eq_mult)
        have "take_bit 3 (push_bit 3 v) = 0" for v :: u64 by (rule bit_word_eqI) (auto simp: bit_simps)
        then have "ls_offset ld mod 8 = 0" unfolding p by (simp add: take_bit_eq_mod push_bit_eq_mult)
        then show ?thesis using g True by (intro that(2) [of ld]) (auto simp: hint_got_load_def get Some has_literal_form_def word_le_nat_alt)
      qed
    qed
  qed
qed

lemma slot_aligned: "off mod 8 = 0 \<Longrightarrow> (adrp_page i pc + off) mod 4 = 0"
proof -
  assume "off mod 8 = 0"
  then have o: "take_bit 3 off = 0" by (simp add: take_bit_eq_mod)
  obtain q where q: "adrp_page i pc = page q" using adrp_page_is_page by blast
  have f: "(0xfff :: u64) = mask 12" by (simp add: mask_eq_exp_minus_1)
  have a: "page q = push_bit 2 (push_bit 10 (drop_bit 12 q))" unfolding page_def f by (rule bit_word_eqI) (auto simp: bit_simps)
  have b: "off = push_bit 2 (drop_bit 2 off)"
  proof (rule bit_word_eqI)
    fix j assume "j < LENGTH(64)"
    have "\<not> bit off j" if "j < 2" using arg_cong [OF o, of "\<lambda>v. bit v j"] that by (simp add: bit_take_bit_iff)
    then show "bit off j = bit (push_bit 2 (drop_bit 2 off)) j"
      by (cases "j < 2") (auto simp: bit_simps suc_suc_minus dest: bit_imp_le_length)
  qed
  have "adrp_page i pc + off = push_bit 2 (push_bit 10 (drop_bit 12 q) + drop_bit 2 off)" using a b q by (metis push_bit_add)
  moreover have "take_bit 2 (push_bit 2 v) = 0" for v :: u64 by (rule bit_word_eqI) (auto simp: bit_simps)
  ultimately show ?thesis by (simp add: low_two)
qed

lemma loh_adrp_ldr_got_shortens:
  assumes p: "places h" and w: "holds_words h w" and n: "ht_n h = 2"
  shows "shortens loh_adrp_ldr_got h w"
proof (rule got_load_cases [OF w])
  show "2 \<le> ht_n h" using n by simp
next
  assume "hint_got_load h = Some None"
  then show ?thesis by (intro shortens_none [OF w]) (simp add: loh_adrp_ldr_got_def)
next
  fix ld :: load_store
  let ?to = "adrp_page (w 0) (hint_addr h 0) + ls_offset ld"
  assume g: "hint_got_load h = Some (Some (GlSlot ?to ld))" and a: "is_adrp (w 0)" "parse_ldst (w 1) = Some ld" "ls_base ld = w 0 AND 0x1f" "has_literal_form ld"
    and o: "ls_offset ld mod 8 = 0"
  show ?thesis
  proof (cases "within_1mb (hint_addr h 1) ?to")
    case True
    have x: "loh_adrp_ldr_got h = do { h1 \<leftarrow> hint_set 0 NOP_INSN h; hint_set 1 (to_literal ld ?to (hint_addr h1 1)) h1 }"
      using True by (simp add: loh_adrp_ldr_got_def g)
    have "rewritten h (w(0 := NOP_INSN, 1 := to_literal ld ?to (hint_addr h 1))) (loh_adrp_ldr_got h)"
      unfolding x by (rule rewritten_set2 [OF p w]) (simp_all add: n same_place_addr)
    then show ?thesis by (intro shortensI [OF shorter_at(1) [OF a refl slot_aligned [OF o] True]]) (simp_all add: n)
  next
    case False
    then show ?thesis by (intro shortens_none [OF w]) (simp add: loh_adrp_ldr_got_def g)
  qed
next
  fix add :: add_insn
  let ?to = "adrp_page (w 0) (hint_addr h 0) + ad_imm add"
  assume g: "hint_got_load h = Some (Some (GlRelaxed ?to add))" and a: "is_adrp (w 0)" "parse_add (w 1) = Some add" "ad_rn add = w 0 AND 0x1f"
  show ?thesis
  proof (cases "within_1mb (hint_addr h 0) ?to")
    case True
    have x: "loh_adrp_ldr_got h = do { h1 \<leftarrow> hint_set 0 (adr (ad_rd add) ?to (hint_addr h 0)) h; hint_set 1 NOP_INSN h1 }"
      using True by (simp add: loh_adrp_ldr_got_def g)
    have "rewritten h (w(0 := adr (ad_rd add) ?to (hint_addr h 0), 1 := NOP_INSN)) (loh_adrp_ldr_got h)"
      unfolding x by (rule rewritten_set2 [OF p w]) (simp_all add: n)
    then show ?thesis by (intro shortensI [OF shorter_at(6) [OF n a refl True]]) simp
  next
    case False
    then show ?thesis by (intro shortens_none [OF w]) (simp add: loh_adrp_ldr_got_def g)
  qed
qed


lemma word_mod_4_add: "(a :: u64) mod 4 = 0 \<Longrightarrow> b mod 4 = 0 \<Longrightarrow> (a + b) mod 4 = 0"
proof -
  assume "a mod 4 = 0" "b mod 4 = 0"
  then have "take_bit 2 a = 0" "take_bit 2 b = 0" by (simp_all add: low_two)
  then have "a = push_bit 2 (drop_bit 2 a)" "b = push_bit 2 (drop_bit 2 b)" using bits_ident [of 2 a] bits_ident [of 2 b] by simp_all
  then have "a + b = push_bit 2 (drop_bit 2 a + drop_bit 2 b)" by (metis push_bit_add)
  moreover have "take_bit 2 (push_bit 2 v) = 0" for v :: u64 by (rule bit_word_eqI) (auto simp: bit_simps)
  ultimately show ?thesis by (simp add: low_two)
qed

lemma four_le_power: "(4 :: u64) \<le> 2 ^ k \<Longrightarrow> k \<le> 4 \<Longrightarrow> 2 \<le> k"
proof -
  assume a: "(4 :: u64) \<le> 2 ^ k" and "k \<le> 4"
  moreover have "k = 0 \<or> k = 1 \<or> 2 \<le> k" by linarith
  ultimately show ?thesis by (auto simp: word_le_nat_alt)
qed

lemma got_literal_shortens:
  assumes p: "places h" and w: "holds_words h w" and n: "ht_n h = 3"
    and a: "is_adrp (w 0)" "parse_ldst (w 1) = Some got" "ls_base got = w 0 AND 0x1f" "has_literal_form got" "\<not> ls_is_float got" "ls_offset got mod 8 = 0"
    and ls: "parse_ldst (w 2) = Some ls"
  shows "shortens (\<lambda>h. got_literal h (adrp_page (w 0) (hint_addr h 0) + ls_offset got) got ls) h w"
proof -
  let ?slot = "adrp_page (w 0) (hint_addr h 0) + ls_offset got"
  show ?thesis
  proof (cases "ls_base ls = ls_reg got \<and> (?slot + ls_offset ls) mod 4 = 0 \<and> within_1mb (hint_addr h 1) (?slot + ls_offset ls) \<and> within_1mb (hint_addr h 1) ?slot")
    case True
    have x: "got_literal h ?slot got ls = do { h1 \<leftarrow> hint_set 0 NOP_INSN h; hint_set 1 (to_literal got ?slot (hint_addr h1 1)) h1 }"
      using True by (simp add: got_literal_def)
    have "rewritten h (w(0 := NOP_INSN, 1 := to_literal got ?slot (hint_addr h 1))) (got_literal h ?slot got ls)"
      unfolding x by (rule rewritten_all(4) [OF p w n])
    then show ?thesis
      by (intro shortensI [OF shorter_at(1) [OF a(1-4) refl slot_aligned [OF a(6)]]]) (use True ls a(5) n in auto)
  next
    case False
    then show ?thesis by (intro shortens_none [OF w]) (auto simp: got_literal_def)
  qed
qed

lemma shortens_cong: "g h = g' h \<Longrightarrow> shortens g' h w \<Longrightarrow> shortens g h w"
  by (simp add: shortens_def)

lemma loh_adrp_ldr_got_ldr_shortens:
  assumes p: "places h" and w: "holds_words h w" and n: "ht_n h = 3"
  shows "shortens loh_adrp_ldr_got_ldr h w"
proof -
  have get: "hint_get h 2 = Some (w 2)" using w n by (simp add: holds_words_def)
  show ?thesis
  proof (cases "parse_ldst (w 2)")
    case None
    then show ?thesis by (intro shortens_none [OF w]) (simp add: loh_adrp_ldr_got_ldr_def get)
  next
    case ls: (Some ld)
    show ?thesis
    proof (rule got_load_cases [OF w])
      show "2 \<le> ht_n h" using n by simp
    next
      assume "hint_got_load h = Some None"
      then show ?thesis by (intro shortens_none [OF w]) (simp add: loh_adrp_ldr_got_ldr_def get ls)
    next
      fix got :: load_store
      assume g: "hint_got_load h = Some (Some (GlSlot (adrp_page (w 0) (hint_addr h 0) + ls_offset got) got))"
        and a: "is_adrp (w 0)" "parse_ldst (w 1) = Some got" "ls_base got = w 0 AND 0x1f" "has_literal_form got" "\<not> ls_is_float got" "ls_offset got mod 8 = 0"
      show ?thesis by (rule shortens_cong [OF _ got_literal_shortens [OF p w n a ls]]) (simp add: loh_adrp_ldr_got_ldr_def get ls g)
    next
      fix add :: add_insn
      let ?A = "adrp_page (w 0) (hint_addr h 0) + ad_imm add"
      let ?lit = "has_literal_form ld \<and> ?A mod 4 = 0 \<and> within_1mb (hint_addr h 2) (?A + ls_offset ld)"
      let ?fold = "?A mod ls_size ld = 0 \<and> ad_imm add + ls_offset ld < 4096"
      assume g: "hint_got_load h = Some (Some (GlRelaxed ?A add))" and a: "is_adrp (w 0)" "parse_add (w 1) = Some add" "ad_rn add = w 0 AND 0x1f"
      note r = rewritten_all [OF p w n]
      note e = loh_adrp_ldr_got_ldr_def get ls g bind.simps option.case got_load.case if_True if_False simp_thms
      consider (other) "ad_rd add \<noteq> ls_base ld" | (lit) "ls_base ld = ad_rd add" ?lit
        | (adr) "ls_base ld = ad_rd add" "\<not> ?lit" "within_1mb (hint_addr h 0) ?A"
        | (fold) "ls_base ld = ad_rd add" "\<not> ?lit" "\<not> within_1mb (hint_addr h 0) ?A" ?fold
        | (none) "ls_base ld = ad_rd add" "\<not> ?lit" "\<not> within_1mb (hint_addr h 0) ?A" "\<not> ?fold"
        by metis
      then show ?thesis
      proof cases
        case other
        then show ?thesis by (intro shortens_none [OF w]) (simp only: e)
      next
        case lit
        have x: "loh_adrp_ldr_got_ldr h = do { h1 \<leftarrow> hint_set 0 NOP_INSN h; h2 \<leftarrow> hint_set 1 NOP_INSN h1; hint_set 2 (to_literal ld (?A + ls_offset ld) (hint_addr h2 2)) h2 }"
          by (simp only: e lit)
        have four: "ls_offset ld mod 4 = 0"
        proof -
          note f = parse_ldst_fields [OF ls]
          let ?k = "access_scale (fld 26 1 (w 2) = 1) (fld 30 2 (w 2)) (fld 22 2 (w 2))"
          have "(4 :: u64) \<le> 2 ^ ?k" using lit(2) f(5) by (simp add: has_literal_form_def)
          then have k: "2 \<le> ?k" using f(7) by (rule four_le_power)
          have "take_bit 2 (push_bit ?k v) = 0" for v :: u64 using k by (intro bit_word_eqI) (auto simp: bit_simps)
          then show ?thesis by (simp add: low_two f(6))
        qed
        have "(?A + ls_offset ld) mod 4 = 0" by (rule word_mod_4_add) (use lit(2) four in auto)
        then show ?thesis
          by (intro shortensI [OF shorter_at(2) [OF n a ls _ _ refl]]) (use lit x r(1) [where t = "to_literal ld (?A + ls_offset ld)"] in auto)
      next
        case adr
        have x: "loh_adrp_ldr_got_ldr h = do { h1 \<leftarrow> hint_set 0 (adr (ls_base ld) ?A (hint_addr h 0)) h; hint_set 1 NOP_INSN h1 }"
          by (simp only: e adr)
        show ?thesis by (rule shortensI [OF shorter_at(4) [OF n a ls _ refl]]) (use adr x r(3) in auto)
      next
        case fold
        have x: "loh_adrp_ldr_got_ldr h = do { h1 \<leftarrow> hint_set 1 NOP_INSN h; hint_set 2 (with_base ld (ad_rn add) (ad_imm add + ls_offset ld)) h1 }"
          by (simp only: e fold)
        show ?thesis by (rule shortensI [OF shorter_at(5) [OF n a ls _ refl]]) (use fold x r(2) in auto)
      next
        case none
        show ?thesis by (rule shortens_none [OF w]) (simp only: e none)
      qed
    qed
  qed
qed

lemma loh_adrp_ldr_got_str_shortens:
  assumes p: "places h" and w: "holds_words h w" and n: "ht_n h = 3"
  shows "shortens loh_adrp_ldr_got_str h w"
proof -
  have get: "hint_get h 2 = Some (w 2)" using w n by (simp add: holds_words_def)
  show ?thesis
  proof (cases "\<exists>st. parse_ldst (w 2) = Some st \<and> ls_is_store st")
    case False
    then show ?thesis by (intro shortens_none [OF w]) (auto simp: loh_adrp_ldr_got_str_def get split: option.splits)
  next
    case True
    then obtain st where ls: "parse_ldst (w 2) = Some st" and store: "ls_is_store st" by blast
    show ?thesis
    proof (rule got_load_cases [OF w])
      show "2 \<le> ht_n h" using n by simp
    next
      assume "hint_got_load h = Some None"
      then show ?thesis by (intro shortens_none [OF w]) (simp add: loh_adrp_ldr_got_str_def get ls store)
    next
      fix got :: load_store
      assume g: "hint_got_load h = Some (Some (GlSlot (adrp_page (w 0) (hint_addr h 0) + ls_offset got) got))"
        and a: "is_adrp (w 0)" "parse_ldst (w 1) = Some got" "ls_base got = w 0 AND 0x1f" "has_literal_form got" "\<not> ls_is_float got" "ls_offset got mod 8 = 0"
      show ?thesis by (rule shortens_cong [OF _ got_literal_shortens [OF p w n a ls]]) (simp add: loh_adrp_ldr_got_str_def get ls g store)
    next
      fix add :: add_insn
      let ?A = "adrp_page (w 0) (hint_addr h 0) + ad_imm add"
      let ?fold = "?A mod ls_size st = 0 \<and> ls_offset st = 0"
      assume g: "hint_got_load h = Some (Some (GlRelaxed ?A add))" and a: "is_adrp (w 0)" "parse_add (w 1) = Some add" "ad_rn add = w 0 AND 0x1f"
      note r = rewritten_all [OF p w n]
      note e = loh_adrp_ldr_got_str_def get ls g store bind.simps option.case got_load.case if_True if_False simp_thms
      consider (other) "ad_rd add \<noteq> ls_base st" | (adr) "ls_base st = ad_rd add" "within_1mb (hint_addr h 0) ?A"
        | (fold) "ls_base st = ad_rd add" "\<not> within_1mb (hint_addr h 0) ?A" ?fold
        | (none) "ls_base st = ad_rd add" "\<not> within_1mb (hint_addr h 0) ?A" "\<not> ?fold"
        by metis
      then show ?thesis
      proof cases
        case other
        then show ?thesis by (intro shortens_none [OF w]) (simp only: e)
      next
        case adr
        have x: "loh_adrp_ldr_got_str h = do { h1 \<leftarrow> hint_set 0 (adr (ls_base st) ?A (hint_addr h 0)) h; hint_set 1 NOP_INSN h1 }"
          by (simp only: e adr)
        show ?thesis by (rule shortensI [OF shorter_at(4) [OF n a ls _ refl]]) (use adr x r(3) in auto)
      next
        case fold
        have x: "loh_adrp_ldr_got_str h = do { h1 \<leftarrow> hint_set 1 NOP_INSN h; hint_set 2 (with_base st (ad_rn add) (ad_imm add + ls_offset st)) h1 }"
          by (simp only: e fold add_0_right)
        show ?thesis by (rule shortensI [OF shorter_at(5) [OF n a ls _ refl]]) (use fold x r(2) add_imm_small [OF a(2)] in auto)
      next
        case none
        show ?thesis by (rule shortens_none [OF w]) (simp only: e none)
      qed
    qed
  qed
qed

lemma adrp_adrp_keeps:
  assumes p: "places h" and w: "holds_words h w" and n: "ht_n h = 2"
    and lv: "leaves {fld 0 5 (w 0)} (f 0)" and z: "fld 0 5 (w 0) \<noteq> 31" and run: "run_words 2 (hint_addr h) w f s = Some s1"
  shows "\<exists>w'. rewritten h w' (loh_adrp_adrp h) \<and> run_words 2 (hint_addr h) w' f s = Some s1"
proof -
  have get: "hint_get h 0 = Some (w 0)" "hint_get h 1 = Some (w 1)" using w n by (auto simp: holds_words_def)
  show ?thesis
  proof (cases "is_page_rel (hint_rel h 0) False \<and> is_page_rel (hint_rel h 1) False \<and> is_adrp (w 0) \<and> is_adrp (w 1) \<and>
      w 0 AND 0x1f = w 1 AND 0x1f \<and> adrp_page (w 0) (hint_addr h 0) = adrp_page (w 1) (hint_addr h 1)")
    case True
    then have a: "is_adrp (w 0)" "is_adrp (w 1)" "fld 0 5 (w 1) = fld 0 5 (w 0)" "adrp_page (w 1) (hint_addr h 1) = adrp_page (w 0) (hint_addr h 0)"
      by (simp_all add: fld_masks(1))
    have "rewritten h (w(1 := NOP_INSN)) (loh_adrp_adrp h)"
      using True rewritten_set [OF p w, of 1] n by (simp add: loh_adrp_adrp_def get)
    moreover have "run_words 2 (hint_addr h) (w(1 := NOP_INSN)) f s = Some s1"
    proof -
      let ?x = "fld 0 5 (w 0)" and ?P = "adrp_page (w 0) (hint_addr h 0)"
      let ?b = "f 0 (set_z ?x ?P s)"
      have "mx ?b ?x = ?P" using leaves_mx [OF lv] z by simp
      then have "set_z ?x ?P ?b = ?b" using z by (cases ?b) (auto simp: set_z_def fun_eq_iff)
      then show ?thesis using run by (simp add: run_words_def exec_adrp [OF a(1)] exec_adrp [OF a(2)] exec_nop a(3,4))
    qed
    ultimately show ?thesis by blast
  next
    case False
    then have "loh_adrp_adrp h = Some h" by (auto simp: loh_adrp_adrp_def get)
    then show ?thesis using run rewritten_Some [OF w] by auto
  qed
qed

lemma run_hint_words: "holds_words h w \<Longrightarrow> ht_n h = 2 \<or> ht_n h = 3 \<Longrightarrow> run_hint h f s = run_words (ht_n h) (hint_addr h) w f s"
  by (auto simp: run_hint_def run_words_def holds_words_def)

lemma hint_okD:
  assumes "hint_ok h"
  shows "ht_n h = 2 \<or> ht_n h = 3" "i < ht_n h \<Longrightarrow> hi_off (ht_insns h i) + 4 \<le> length (ht_buf h)"
    "i < ht_n h \<Longrightarrow> hint_addr h i mod 4 = 0" "31 \<notin> temps h"
    "i < ht_n h \<Longrightarrow> j < i \<Longrightarrow> hi_off (ht_insns h i) + 4 \<le> hi_off (ht_insns h j) \<or> hi_off (ht_insns h j) + 4 \<le> hi_off (ht_insns h i)"
    "ht_n h = 3 \<Longrightarrow> parse_ldst (hint_word h 2) = Some st \<Longrightarrow> ls_is_store st \<Longrightarrow> \<not> ls_is_float st \<Longrightarrow> ls_reg st \<notin> temps h"
  using assms unfolding hint_ok_def list_all_iff by (simp_all add: less_numeral_extra)

lemma hint_ok_places: "hint_ok h \<Longrightarrow> places h"
  unfolding places_def using hint_okD(2,5) by blast

lemma places_words: "places h \<Longrightarrow> holds_words h (hint_word h)"
  by (auto simp: places_def holds_words_def hint_word_def hint_get_def read32_def slice_at_def)

lemma hint_kind_shortens:
  assumes "hint_kind kind = Some (n, rewrite)" "kind \<noteq> LOH_ARM64_ADRP_ADRP" "ht_n h = n" "places h" "holds_words h w"
  shows "shortens rewrite h w"
  using assms loh_adrp_ldr_shortens loh_adrp_add_shortens loh_adrp_add_ldst_shortens loh_adrp_ldr_got_shortens
    loh_adrp_ldr_got_ldr_shortens loh_adrp_ldr_got_str_shortens
  by (auto simp: hint_kind_def split: if_splits)

text \<open>
  C39. A linker optimization hint of any kind is applied without an access out of range and changes
  only the bytes of its instructions; run on the machine, between any other code, the rewritten
  sequence ends in the state the original one ends in, but for the registers only the sequence works
  through. The code between the hint's instructions leaves these registers alone, as the compiler's
  hint promises.
\<close>

theorem hints_preserve:
  assumes kind: "hint_kind kind = Some (n, rewrite)" and n: "ht_n h = n" and ok: "hint_ok h"
    and lv: "\<forall>k. leaves (temps h) (f k)" and bl: "\<forall>k. blind (hidden kind h) (f k)"
    and run: "run_hint h f s = Some s1"
  shows "\<exists>h' s2. rewrite h = Some h' \<and> same_place h h' \<and> run_hint h' f s = Some s2 \<and>
     agree (hidden kind h - hint_results h) s1 s2"
proof -
  let ?w = "hint_word h"
  note p = hint_ok_places [OF ok] and w = places_words [OF hint_ok_places [OF ok]]
  have n23: "ht_n h = 2 \<or> ht_n h = 3" using ok by (simp add: hint_ok_def)
  have run': "run_words (ht_n h) (hint_addr h) ?w f s = Some s1" using run by (simp add: run_hint_words [OF w n23])
  have same_run: "run_hint h' f s = run_words (ht_n h) (hint_addr h) w' f s" if "same_place h h'" "holds_words h' w'" for h' w'
    using run_hint_words [OF that(2)] n23 same_place_n [OF that(1)] same_place_addr [OF that(1)] by (metis (no_types, lifting) ext)
  show ?thesis
  proof (cases "kind = LOH_ARM64_ADRP_ADRP")
    case True
    then have r: "rewrite = loh_adrp_adrp" and n2: "ht_n h = 2" using kind n by (auto simp: hint_kind_def)
    have lv0: "leaves {fld 0 5 (?w 0)} (f 0)" using lv by (auto simp: leaves_def temps_def)
    have z: "fld 0 5 (?w 0) \<noteq> 31" using hint_okD(4) [OF ok] by (auto simp: temps_def)
    obtain w' where "rewritten h w' (loh_adrp_adrp h)" "run_words 2 (hint_addr h) w' f s = Some s1"
      using adrp_adrp_keeps [where w = ?w and f = f, OF p w n2 lv0 z] run' n2 by auto
    then show ?thesis using same_run n2 by (auto simp: rewritten_def r)
  next
    case False
    have wt: "works_through (temps h) (ht_n h) (hint_addr h) ?w f"
      unfolding works_through_def using hint_okD [OF ok] lv bl False by (auto simp: hidden_def temps_def)
    obtain w' where w': "shorter (ht_n h) (hint_addr h) ?w w'" "rewritten h w' (rewrite h)"
      using hint_kind_shortens [OF kind False n p w] by (auto simp: shortens_def)
    obtain s2 where "run_words (ht_n h) (hint_addr h) w' f s = Some s2"
      "agree (temps h - word_result (?w (if ht_n h < 3 then 1 else 2))) s1 s2"
      using shorter_sound [OF w'(1) wt run'] by blast
    moreover have "hidden kind h = temps h" "hint_results h = word_result (?w (if ht_n h < 3 then 1 else 2))"
      using False by (simp_all only: hidden_def hint_results_def word_result_def Let_def if_False)
    ultimately show ?thesis using w'(2) same_run unfolding rewritten_def by metis
  qed
qed

definition wit_hint :: hint where
  "wit_hint =
     \<lparr>ht_buf = le_bytes 4 (0x90000008 :: u32) @ le_bytes 4 (0xf9400909 :: u32),
      ht_insns = (\<lambda>i. \<lparr>hi_off = 4 * i, hi_addr = 0x4000 + 4 * of_nat i,
        hi_rel = Some \<lparr>rl_offset = 4 * of_nat i, rl_ty = (if i = 0 then ARM64_RELOC_PAGE21 else ARM64_RELOC_PAGEOFF12), rl_size = 4,
          rl_is_pcrel = (i = 0), rl_is_subtracted = False, rl_target = 7, rl_addend = 0\<rparr>\<rparr>),
      ht_n = 2\<rparr>"

theorem hints_preserve_witness:
  "\<exists>h' s1 s2. loh_adrp_ldr wit_hint = Some h' \<and> hint_get h' 0 = Some NOP_INSN \<and>
     run_hint wit_hint (\<lambda>_ s. s) \<lparr>mx = (\<lambda>_. 0), msp = 0, mv = (\<lambda>_. 0), mm = (\<lambda>a. ucast a)\<rparr> = Some s1 \<and>
     run_hint h' (\<lambda>_ s. s) \<lparr>mx = (\<lambda>_. 0), msp = 0, mv = (\<lambda>_. 0), mm = (\<lambda>a. ucast a)\<rparr> = Some s2 \<and>
     agree {8} s1 s2"
proof -
  let ?s = "\<lparr>mx = (\<lambda>_. 0), msp = 0, mv = (\<lambda>_. 0), mm = (\<lambda>a. ucast a)\<rparr>"
  have ok: "hint_ok wit_hint" and k: "hint_kind LOH_ARM64_ADRP_LDR = Some (2, loh_adrp_ldr)" and n: "ht_n wit_hint = 2" and
    set: "Option.bind (loh_adrp_ldr wit_hint) (\<lambda>h. hint_get h 0) = Some NOP_INSN"
    by code_simp (simp add: hint_kind_def, code_simp+)
  have "run_hint wit_hint (\<lambda>_ s. s) ?s \<noteq> None" by code_simp
  then obtain s1 where run: "run_hint wit_hint (\<lambda>_ s. s) ?s = Some s1" by blast
  have sub: "hidden LOH_ARM64_ADRP_LDR wit_hint - hint_results wit_hint \<subseteq> {8}"
  proof -
    have "hidden LOH_ARM64_ADRP_LDR wit_hint = {8}" by code_simp
    then show ?thesis by auto
  qed
  obtain h' s2 where "loh_adrp_ldr wit_hint = Some h'" "run_hint h' (\<lambda>_ s. s) ?s = Some s2"
    "agree (hidden LOH_ARM64_ADRP_LDR wit_hint - hint_results wit_hint) s1 s2"
    using hints_preserve [OF k n ok _ _ run] by (auto simp: leaves_def blind_def)
  moreover have "hint_get h' 0 = Some NOP_INSN" using set calculation(1) by simp
  ultimately show ?thesis using run agree_mono [OF _ sub] by blast
qed

declare One_nat_def [simp]

end
