(* ===== verification/Stubs.thy ===== *)
theory Stubs
  imports Arm64
begin

unbundle bit_operations_syntax

section \<open>The code the linker writes: stubs, helpers and their slots\<close>

text \<open>
  The chunks of \<^verbatim>\<open>chunks/stubs.rs\<close>, \<^verbatim>\<open>stub_helper.rs\<close>, \<^verbatim>\<open>lazy_ptrs.rs\<close>, \<^verbatim>\<open>got.rs\<close>, \<^verbatim>\<open>objc_stubs.rs\<close>,
  \<^verbatim>\<open>lazy_helpers.rs\<close>, \<^verbatim>\<open>lazy_load_got.rs\<close> and \<^verbatim>\<open>delay_init.rs\<close>, with the ARM64 code that fills them and
  the thunks' (\<^verbatim>\<open>arch/arm64.rs\<close>). A chunk's bytes are the whole buffer; \<open>None\<close> is a panic. A
  reported error that does not stop the link is a flag beside the result.
\<close>

subsection \<open>What the chunks keep\<close>

text \<open>A load's site is the adrp it replaces: its subsection and offset.\<close>

datatype lazy_use = LzCall | LzLoad u8 "(u32 \<times> u32) option" | LzCmp

datatype lazy_target = LtFlag | LtSlot | LtHeader | LtLazyLoad | LtSite

record lazy_helper =
  lh_sym :: u32
  lh_kind :: lazy_use
  lh_name :: bytes
  lh_flag :: u32
  lh_slot :: u32
  lh_offset :: u32

record delay_stub =
  ds_sym :: u32
  ds_name :: bytes
  ds_dlopen :: u32
  ds_got :: u32

datatype delay_use = DyLoad u8 "(u32 \<times> u32) option" | DyCmp

datatype delay_code = DcStub | DcHelper delay_use | DcDlopen

datatype delay_target = DtFlag | DtSlot | DtDlopenHelper | DtSite | DtName | DtDlopen

record delay_helper =
  dh_sym :: u32
  dh_kind :: delay_use
  dh_name :: bytes
  dh_dlopen :: u32
  dh_offset :: u32

record dlopen_helper =
  do_install_name :: bytes
  do_name :: bytes
  do_flag_name :: bytes
  do_flag :: u32
  do_string :: u32
  do_offset :: u32

record lazy_load_dylib =
  ll_got_start :: u32
  ll_nsyms :: nat

record code_ctx =
  kc_link :: link
  kc_text_exec :: bool
  kc_pie :: bool
  kc_data_const :: bool
  kc_stub_syms :: "u32 list"
  kc_got_syms :: "u32 list"
  kc_stand_ins :: "(u32 \<times> u32) list"
  kc_dyld_private_isec :: u32
  kc_stub_binder :: "u32 option"
  kc_lazy_offsets :: "u32 list"
  kc_objc_syms :: "u32 list"
  kc_extra_selrefs :: "u32 list"
  kc_methname_data :: bytes
  kc_methname_offs :: "u64 list"
  kc_methname :: "u32 option"
  kc_selrefs :: "u32 option"
  kc_msgsend :: "u32 option"
  kc_lazy_helpers :: "lazy_helper list"
  kc_lazy_sites :: "(u32 \<times> u32) \<Rightarrow> u32 option"
  kc_dyld_lazy_load :: "u32 option"
  kc_lazy_got_slots :: "(u32 \<times> bytes) list"
  kc_lazy_load_dylibs :: "lazy_load_dylib list"
  kc_delay_stubs :: "delay_stub list"
  kc_delay_helpers :: "delay_helper list"
  kc_dlopens :: "dlopen_helper list"
  kc_delay_sites :: "(u32 \<times> u32) \<Rightarrow> u32 option"
  kc_dlopen_sym :: "u32 option"

definition kc_hdr :: "code_ctx \<Rightarrow> chunk_id \<Rightarrow> chunk_header" where
  "kc_hdr ctx c = lk_hdr (kc_link ctx) c"

definition set_hdr :: "chunk_id \<Rightarrow> chunk_header \<Rightarrow> code_ctx \<Rightarrow> code_ctx" where
  "set_hdr c h ctx = ctx\<lparr>kc_link := (kc_link ctx)\<lparr>lk_hdr := (lk_hdr (kc_link ctx))(c := h)\<rparr>\<rparr>"

definition kc_arch :: "code_ctx \<Rightarrow> arch" where
  "kc_arch ctx = lk_arch (kc_link ctx)"

definition kc_args :: "code_ctx \<Rightarrow> link_args" where
  "kc_args ctx = lk_args (kc_link ctx)"

definition kc_symbol :: "code_ctx \<Rightarrow> u32 \<Rightarrow> symbol option" where
  "kc_symbol ctx i = nth_opt (lk_syms (kc_link ctx)) (unat i)"

definition kc_isec_addr :: "code_ctx \<Rightarrow> u32 \<Rightarrow> u64 option" where
  "kc_isec_addr ctx i = do { s \<leftarrow> nth_opt (lk_isecs (kc_link ctx)) (unat i); isec_addr (kc_link ctx) s }"

definition kc_got_addr :: "code_ctx \<Rightarrow> u32 \<Rightarrow> u64 option" where
  "kc_got_addr ctx i = do { s \<leftarrow> kc_symbol ctx i; got_addr (kc_link ctx) s }"

definition data_seg :: "code_ctx \<Rightarrow> bytes" where
  "data_seg ctx = (if kc_data_const ctx then bstr ''__DATA_CONST'' else bstr ''__DATA'')"

definition code_flags :: u32 where
  "code_flags = S_ATTR_PURE_INSTRUCTIONS OR S_ATTR_SOME_INSTRUCTIONS"

text \<open>\<^verbatim>\<open>for (i, x) in xs.iter().enumerate()\<close>.\<close>

fun for_each :: "(nat \<Rightarrow> 'a \<Rightarrow> 'b \<Rightarrow> 'b option) \<Rightarrow> nat \<Rightarrow> 'a list \<Rightarrow> 'b \<Rightarrow> 'b option" where
  "for_each f i [] b = Some b"
| "for_each f i (x # xs) b = do { b \<leftarrow> f i x b; for_each f (i + 1) xs b }"

text \<open>Consecutive words written at an offset, each \<^verbatim>\<open>write32\<close> checking its own place.\<close>

fun put_insns :: "nat \<Rightarrow> u32 list \<Rightarrow> bytes \<Rightarrow> bytes option" where
  "put_insns off [] buf = Some buf"
| "put_insns off (w # ws) buf = do { buf \<leftarrow> copy_at buf off (le_bytes 4 w); put_insns (off + 4) ws buf }"

text \<open>\<^verbatim>\<open>write_code\<close> writes as many words as there is room for.\<close>

definition write_code :: "nat \<Rightarrow> u32 list \<Rightarrow> bytes \<Rightarrow> bytes option" where
  "write_code off code buf =
     (if off \<le> length buf then put_insns off (take ((length buf - off) div 4) code) buf else None)"

subsection \<open>Stubs, the stub helper and lazy pointers\<close>

definition stubs_new :: chunk_header where
  "stubs_new = (chunk_header_new (bstr ''__TEXT'') (bstr ''__stubs''))
     \<lparr>ch_flags := S_SYMBOL_STUBS OR S_ATTR_PURE_INSTRUCTIONS OR S_ATTR_SOME_INSTRUCTIONS, ch_p2align := 2\<rparr>"

definition stubs_update_shdr :: "code_ctx \<Rightarrow> code_ctx" where
  "stubs_update_shdr ctx =
     (let h = kc_hdr ctx ChStubs;
          h = (if kc_text_exec ctx then h\<lparr>ch_segname := bstr ''__TEXT_EXEC''\<rparr> else h);
          h = h\<lparr>ch_reserved2 := ucast (ar_stub_size (kc_arch ctx)),
                ch_size := of_nat (length (kc_stub_syms ctx)) * ar_stub_size (kc_arch ctx)\<rparr>
      in set_hdr ChStubs h ctx)"

definition stub_helper_new :: chunk_header where
  "stub_helper_new = (chunk_header_new (bstr ''__TEXT'') (bstr ''__stub_helper''))\<lparr>ch_flags := code_flags, ch_p2align := 2\<rparr>"

definition header_size :: "code_ctx \<Rightarrow> u64" where
  "header_size ctx = (if la_legacy_linkedit (kc_args ctx) then 0 else ar_stub_helper_header_size (kc_arch ctx))"

definition helper_entry_offset :: "code_ctx \<Rightarrow> u32 \<Rightarrow> u64" where
  "helper_entry_offset ctx idx = header_size ctx + ucast idx * ar_stub_helper_entry_size (kc_arch ctx)"

definition stub_helper_update_shdr :: "code_ctx \<Rightarrow> code_ctx" where
  "stub_helper_update_shdr ctx =
     set_hdr ChStubHelper ((kc_hdr ctx ChStubHelper)
       \<lparr>ch_size := header_size ctx + of_nat (length (lk_stubs_lazy (kc_link ctx))) * ar_stub_helper_entry_size (kc_arch ctx)\<rparr>) ctx"

definition lazy_ptrs_new :: chunk_header where
  "lazy_ptrs_new = (chunk_header_new (bstr ''__DATA'') (bstr ''__la_symbol_ptr''))\<lparr>ch_flags := S_LAZY_SYMBOL_POINTERS, ch_p2align := 3\<rparr>"

definition lazy_ptrs_update_shdr :: "code_ctx \<Rightarrow> code_ctx" where
  "lazy_ptrs_update_shdr ctx =
     (let h = kc_hdr ctx ChLazyPtrs;
          h = (if la_shared_region (kc_args ctx) then h\<lparr>ch_segname := data_seg ctx\<rparr> else h)
      in set_hdr ChLazyPtrs (h\<lparr>ch_size := of_nat (length (lk_stubs_lazy (kc_link ctx))) * 8\<rparr>) ctx)"

definition lazy_ptrs_copy_buf :: "code_ctx \<Rightarrow> bytes \<Rightarrow> bytes option" where
  "lazy_ptrs_copy_buf ctx buf =
     (let helper = ch_addr (kc_hdr ctx ChStubHelper)
      in for_each (\<lambda>i _ buf. copy_at buf (i * 8) (le_bytes 8 (helper + helper_entry_offset ctx (of_nat i))))
           0 (lk_stubs_lazy (kc_link ctx)) buf)"

definition lazy_ptrs_rebase_locations :: "code_ctx \<Rightarrow> u64 list option" where
  "lazy_ptrs_rebase_locations ctx =
     those (map (\<lambda>i. do { sid \<leftarrow> nth_opt (kc_stub_syms ctx) (unat i); s \<leftarrow> kc_symbol ctx sid; stub_ptr_addr (kc_link ctx) s i })
       (lk_stubs_lazy (kc_link ctx)))"

text \<open>An entry's words, and whether its adrp reaches.\<close>

definition stub_code :: "code_ctx \<Rightarrow> u64 \<Rightarrow> nat \<Rightarrow> u32 \<Rightarrow> (nat \<times> u32 list \<times> bool) option" where
  "stub_code ctx addr i sid =
     do { let off = stub_entry_offset (kc_link ctx) (of_nat i);
          let ent_addr = addr + off;
          s \<leftarrow> kc_symbol ctx sid;
          ptr_addr \<leftarrow> stub_ptr_addr (kc_link ctx) s (of_nat i);
          Some (unat off,
            [0x90000010 OR page_offset ptr_addr ent_addr,
             0xf9400210 OR push_bit 10 (ucast (bits ptr_addr 11 3)),
             0xd61f0200], adrp_reaches ptr_addr ent_addr) }"

definition write_stubs :: "code_ctx \<Rightarrow> u64 \<Rightarrow> bytes \<Rightarrow> (bytes \<times> bool) option" where
  "write_stubs ctx addr buf =
     for_each (\<lambda>i sid (buf, err).
         do { (off, code, ok) \<leftarrow> stub_code ctx addr i sid; buf \<leftarrow> put_insns off code buf; Some (buf, err \<or> \<not> ok) })
       0 (kc_stub_syms ctx) (buf, False)"

definition stub_helper_header :: "u64 \<Rightarrow> u64 \<Rightarrow> u64 \<Rightarrow> u32 list" where
  "stub_helper_header private bslot addr =
     [0x90000011 OR page_offset private addr,
      0x91000231 OR push_bit 10 (ucast private AND 0xfff),
      0xa9bf47f0,
      0x90000010 OR page_offset bslot (addr + 12),
      0xf9400210 OR push_bit 10 (ucast (bits bslot 11 3)),
      0xd61f0200]"

definition stub_helper_entry :: "u64 \<Rightarrow> u64 \<Rightarrow> u32 \<Rightarrow> u32 list" where
  "stub_helper_entry addr ent_addr lazy_off =
     [0x18000050,
      0x14000000 OR (ucast (signed_drop_bit 2 (addr - (ent_addr + 4))) AND 0x03ffffff),
      lazy_off]"

definition write_stub_helper :: "code_ctx \<Rightarrow> u64 \<Rightarrow> bytes \<Rightarrow> bytes option" where
  "write_stub_helper ctx addr buf =
     do { private \<leftarrow> kc_isec_addr ctx (kc_dyld_private_isec ctx);
          bslot \<leftarrow> Option.bind (kc_stub_binder ctx) (kc_got_addr ctx);
          buf \<leftarrow> put_insns 0 (stub_helper_header private bslot addr) buf;
          offsets \<leftarrow> slice_at (kc_lazy_offsets ctx) 0 (length (lk_stubs_lazy (kc_link ctx)));
          for_each (\<lambda>i lazy_off buf.
              let off = helper_entry_offset ctx (of_nat i)
              in put_insns (unat off) (stub_helper_entry addr (addr + off) lazy_off) buf)
            0 offsets buf }"

subsection \<open>The global offset table\<close>

definition got_new :: chunk_header where
  "got_new = (chunk_header_new (bstr ''__DATA'') (bstr ''__got''))\<lparr>ch_flags := S_NON_LAZY_SYMBOL_POINTERS, ch_p2align := 3\<rparr>"

definition got_update_shdr :: "code_ctx \<Rightarrow> code_ctx option" where
  "got_update_shdr ctx =
     (let plain = (la_is_kext (kc_args ctx) \<or> (la_static_link (kc_args ctx) \<and> \<not> kc_pie ctx));
          h = (kc_hdr ctx ChGot)\<lparr>ch_size := of_nat (length (kc_got_syms ctx)) * 8, ch_segname := data_seg ctx,
                ch_flags := (if plain then S_REGULAR else S_NON_LAZY_SYMBOL_POINTERS)\<rparr>
      in for_each (\<lambda>_ (stand_in, cls) ctx.
             do { s \<leftarrow> kc_symbol ctx cls;
                  i \<leftarrow> got_idx s (kc_link ctx);
                  i \<leftarrow> i;
                  isec \<leftarrow> nth_opt (lk_isecs (kc_link ctx)) (unat stand_in);
                  Some (ctx\<lparr>kc_link := (kc_link ctx)\<lparr>lk_isecs :=
                    (lk_isecs (kc_link ctx))[unat stand_in := isec\<lparr>is_offset := i * 8\<rparr>]\<rparr>\<rparr>) })
           0 (kc_stand_ins ctx) (set_hdr ChGot h ctx))"

definition got_copy_buf :: "code_ctx \<Rightarrow> bytes \<Rightarrow> bytes option" where
  "got_copy_buf ctx buf =
     for_each (\<lambda>i sid buf.
         do { s \<leftarrow> kc_symbol ctx sid;
              if (if la_legacy_linkedit (kc_args ctx) then sy_is_imported s else binds_as_import (kc_link ctx) s) then Some buf
              else do { a \<leftarrow> sy_addr (kc_link ctx) s; copy_at buf (i * 8) (le_bytes 8 a) } })
       0 (kc_got_syms ctx) buf"

definition got_rebase_locations :: "code_ctx \<Rightarrow> u64 list option" where
  "got_rebase_locations ctx =
     (if la_legacy_linkedit (kc_args ctx) then Some []
      else for_each (\<lambda>i sid locs.
               do { s \<leftarrow> kc_symbol ctx sid;
                    Some (if \<not> binds_as_import (kc_link ctx) s \<and> \<not> is_absolute (kc_link ctx) s
                          then locs @ [got_slot_addr (kc_link ctx) i] else locs) })
             0 (kc_got_syms ctx) [])"

subsection \<open>Selector stubs\<close>

definition objc_stubs_new :: chunk_header where
  "objc_stubs_new = (chunk_header_new (bstr ''__TEXT'') (bstr ''__objc_stubs''))\<lparr>ch_flags := code_flags, ch_p2align := 5\<rparr>"

definition tail_base :: "code_ctx \<Rightarrow> u32 option \<Rightarrow> u64 option" where
  "tail_base ctx sec =
     do { k \<leftarrow> sec; osec \<leftarrow> nth_opt (lk_output_sections (kc_link ctx)) (unat k); Some (ch_addr (ose_hdr osec) + ose_tail_off osec) }"

definition kc_selref_addr :: "code_ctx \<Rightarrow> nat \<Rightarrow> u64 option" where
  "kc_selref_addr ctx i = map_option (\<lambda>a. a + of_nat i * 8) (tail_base ctx (kc_selrefs ctx))"

definition objc_stubs_update_shdr :: "code_ctx \<Rightarrow> code_ctx" where
  "objc_stubs_update_shdr ctx =
     (let h = (kc_hdr ctx ChObjcStubs)\<lparr>ch_size := of_nat (length (kc_objc_syms ctx)) * objc_entry_size (kc_link ctx)\<rparr>;
          h = (if kc_text_exec ctx then h\<lparr>ch_segname := bstr ''__TEXT_EXEC''\<rparr> else h);
          h = (if la_objc_stubs_small (kc_args ctx) then h\<lparr>ch_p2align := 2\<rparr> else h)
      in set_hdr ChObjcStubs h ctx)"

definition write_methnames :: "code_ctx \<Rightarrow> bytes \<Rightarrow> bytes option" where
  "write_methnames ctx buf = copy_at buf 0 (kc_methname_data ctx)"

definition write_selrefs :: "code_ctx \<Rightarrow> bytes \<Rightarrow> bytes option" where
  "write_selrefs ctx buf =
     do { buf \<leftarrow> for_each (\<lambda>i _ buf.
              do { base \<leftarrow> tail_base ctx (kc_methname ctx); off \<leftarrow> nth_opt (kc_methname_offs ctx) i;
                   copy_at buf (i * 8) (le_bytes 8 (base + off)) })
            0 (kc_objc_syms ctx) buf;
          for_each (\<lambda>j name buf.
              do { a \<leftarrow> kc_isec_addr ctx name; copy_at buf ((length (kc_objc_syms ctx) + j) * 8) (le_bytes 8 a) })
            0 (kc_extra_selrefs ctx) buf }"

definition objc_rebase_locations :: "code_ctx \<Rightarrow> u64 list option" where
  "objc_rebase_locations ctx = those (map (kc_selref_addr ctx) [0..<length (kc_objc_syms ctx) + length (kc_extra_selrefs ctx)])"

definition objc_small_stub :: "u64 \<Rightarrow> u64 \<Rightarrow> u64 \<Rightarrow> u32 list" where
  "objc_small_stub ent_addr sel_addr msgsend =
     [0x90000001 OR page_offset sel_addr ent_addr,
      0xf9400021 OR push_bit 10 (ucast (bits sel_addr 11 3)),
      0x14000000 OR (ucast (drop_bit 2 (msgsend - (ent_addr + 8))) AND B_IMM)]"

definition objc_stub :: "u64 \<Rightarrow> u64 \<Rightarrow> u64 \<Rightarrow> u32 list" where
  "objc_stub ent_addr sel_addr msgsend_got =
     [0x90000001 OR page_offset sel_addr ent_addr,
      0xf9400021 OR push_bit 10 (ucast (bits sel_addr 11 3)),
      0x90000010 OR page_offset msgsend_got (ent_addr + 8),
      0xf9400210 OR push_bit 10 (ucast (bits msgsend_got 11 3)),
      0xd61f0200, 0xd4200020, 0xd4200020, 0xd4200020]"

definition write_objc_stubs :: "code_ctx \<Rightarrow> u64 \<Rightarrow> bytes \<Rightarrow> bytes option" where
  "write_objc_stubs ctx addr buf =
     do { mid \<leftarrow> kc_msgsend ctx;
          if la_objc_stubs_small (kc_args ctx)
          then do { m \<leftarrow> kc_symbol ctx mid; msgsend \<leftarrow> branch_target_addr (kc_link ctx) m;
                    for_each (\<lambda>i _ buf.
                        do { let off = objc_entry_offset (kc_link ctx) (of_nat i);
                             sel_addr \<leftarrow> kc_selref_addr ctx i;
                             put_insns (unat off) (objc_small_stub (addr + off) sel_addr msgsend) buf })
                      0 (kc_objc_syms ctx) buf }
          else do { msgsend_got \<leftarrow> kc_got_addr ctx mid;
                    for_each (\<lambda>i _ buf.
                        do { let off = objc_entry_offset (kc_link ctx) (of_nat i);
                             sel_addr \<leftarrow> kc_selref_addr ctx i;
                             put_insns (unat off) (objc_stub (addr + off) sel_addr msgsend_got) buf })
                      0 (kc_objc_syms ctx) buf } }"

subsection \<open>Range-extension thunks\<close>

definition thunk_entry :: "u64 \<Rightarrow> u64 \<Rightarrow> u32 list" where
  "thunk_entry ent_addr target =
     [0x90000010 OR page_offset target ent_addr,
      0x91000210 OR push_bit 10 (ucast (bits target 11 0)),
      0xd61f0200]"

definition write_thunk :: "code_ctx \<Rightarrow> u64 \<Rightarrow> u32 list \<Rightarrow> bytes \<Rightarrow> bytes option" where
  "write_thunk ctx addr syms buf =
     for_each (\<lambda>i sid buf.
         do { s \<leftarrow> kc_symbol ctx sid; target \<leftarrow> branch_target_addr (kc_link ctx) s;
              put_insns (i * 12) (thunk_entry (addr + of_nat i * 12) target) buf })
       0 syms buf"

subsection \<open>Instructions that refer to other places\<close>

definition hi_pc :: "u64 \<Rightarrow> nat \<Rightarrow> u64" where
  "hi_pc base k = base + of_nat k * 4"

definition hi_adrp :: "u64 \<Rightarrow> nat \<Rightarrow> u32 \<Rightarrow> u64 \<Rightarrow> u32" where
  "hi_adrp base k rd target = 0x90000000 OR rd OR page_offset target (hi_pc base k)"

definition hi_add :: "u32 \<Rightarrow> u64 \<Rightarrow> u32" where
  "hi_add rd target = 0x91000000 OR push_bit 5 rd OR rd OR push_bit 10 (ucast target AND 0xfff)"

definition hi_ldr :: "u32 \<Rightarrow> u64 \<Rightarrow> u32" where
  "hi_ldr rt target = 0xf9400000 OR push_bit 5 rt OR rt OR push_bit 10 (ucast (bits target 11 3))"

definition hi_ldr_w :: "u32 \<Rightarrow> u64 \<Rightarrow> u32" where
  "hi_ldr_w rt target = 0xb9400000 OR push_bit 5 rt OR rt OR push_bit 10 (ucast (bits target 11 2))"

definition hi_b :: "u64 \<Rightarrow> nat \<Rightarrow> u64 \<Rightarrow> u32" where
  "hi_b base k target = 0x14000000 OR (ucast (drop_bit 2 (target - hi_pc base k)) AND B_IMM)"

definition hi_bl :: "u64 \<Rightarrow> nat \<Rightarrow> u64 \<Rightarrow> u32" where
  "hi_bl base k target = 0x94000000 OR (ucast (drop_bit 2 (target - hi_pc base k)) AND B_IMM)"

text \<open>The last instruction of a load helper: ret, or in a site's own helper a branch past the site's adrp.\<close>

definition ret_or_back :: "code_ctx \<Rightarrow> u64 \<Rightarrow> nat \<Rightarrow> (u32 \<times> u32) option \<Rightarrow> u32 option" where
  "ret_or_back ctx base k site =
     (case site of
        None \<Rightarrow> Some 0xd65f03c0
      | Some (isec, off) \<Rightarrow> map_option (\<lambda>a. hi_b base k (a + ucast off + 4)) (kc_isec_addr ctx isec))"

subsection \<open>Lazy helpers\<close>

definition lazy_helpers_new :: chunk_header where
  "lazy_helpers_new = (chunk_header_new (bstr ''__TEXT'') (bstr ''__lazy_helpers''))\<lparr>ch_flags := code_flags\<rparr>"

definition lazy_helper_at :: "code_ctx \<Rightarrow> nat \<Rightarrow> u64 option" where
  "lazy_helper_at ctx i = map_option (\<lambda>h. ch_addr (kc_hdr ctx ChLazyHelpers) + ucast (lh_offset h)) (nth_opt (kc_lazy_helpers ctx) i)"

text \<open>A map that is empty has no sites.\<close>

definition lazy_load_helper :: "code_ctx \<Rightarrow> nat \<Rightarrow> reloc \<Rightarrow> (u64 \<times> bool) option option" where
  "lazy_load_helper ctx isec r =
     (case kc_lazy_sites ctx (of_nat isec, rl_offset r) of
        None \<Rightarrow> Some None
      | Some i \<Rightarrow>
          do { h \<leftarrow> nth_opt (kc_lazy_helpers ctx) (unat i);
               a \<leftarrow> lazy_helper_at ctx (unat i);
               Some (Some (a, case lh_kind h of LzLoad _ (Some _) \<Rightarrow> True | _ \<Rightarrow> False)) })"

definition lazy_helper_size :: "lazy_use \<Rightarrow> u32" where
  "lazy_helper_size kind = 64"

definition lazy_helpers_update_shdr :: "code_ctx \<Rightarrow> code_ctx option" where
  "lazy_helpers_update_shdr ctx =
     (if kc_lazy_helpers ctx = [] then None
      else let l = List.last (kc_lazy_helpers ctx)
           in Some (set_hdr ChLazyHelpers ((kc_hdr ctx ChLazyHelpers)
                \<lparr>ch_segname := ch_segname (kc_hdr ctx ChStubs), ch_p2align := ar_lazy_helpers_p2align (kc_arch ctx),
                 ch_size := ucast (lh_offset l + lazy_helper_size (lh_kind l))\<rparr>) ctx))"

definition local_msym :: "u8 \<Rightarrow> u64 \<Rightarrow> mach_sym" where
  "local_msym sect val = \<lparr>sym_stroff = 0, sym_n_type = N_SECT, sym_sect = sect, sym_desc = 0, sym_value = val\<rparr>"

type_synonym named_entry = "bytes \<times> mach_sym \<times> u32 option"

definition lazy_helpers_populate_symtab :: "code_ctx \<Rightarrow> named_entry list \<Rightarrow> named_entry list option" where
  "lazy_helpers_populate_symtab ctx out =
     for_each (\<lambda>i h out.
         do { addr \<leftarrow> lazy_helper_at ctx i;
              let n_type = (case lh_kind h of LzCall \<Rightarrow> N_PEXT OR N_SECT | _ \<Rightarrow> N_SECT);
              Some (out @ [(lh_name h, (local_msym (ch_sect_idx (kc_hdr ctx ChLazyHelpers)) addr)\<lparr>sym_n_type := n_type\<rparr>, None)]) })
       0 (kc_lazy_helpers ctx) out"

text \<open>The call of \<^verbatim>\<open>__dyld_lazy_load\<close> from instruction \<open>k\<close> on.\<close>

definition lazy_call :: "u64 \<Rightarrow> u64 \<Rightarrow> u64 \<Rightarrow> u64 \<Rightarrow> nat \<Rightarrow> u32 list" where
  "lazy_call base flag header lazy_load k =
     [hi_adrp base k 0 flag, hi_add 0 flag, hi_adrp base (k + 2) 1 header, hi_add 1 header, hi_bl base (k + 4) lazy_load]"

definition lazy_call_code :: "u64 \<Rightarrow> u64 \<Rightarrow> u64 \<Rightarrow> u64 \<Rightarrow> u64 \<Rightarrow> u32 list" where
  "lazy_call_code base flag slot header lazy_load =
     [hi_adrp base 0 16 flag, hi_ldr_w 16 flag, 0x34000090, hi_adrp base 3 16 slot, hi_ldr 16 slot, 0xd61f0200,
      0xa9bf03e1, 0xa9bf7bfd] @ lazy_call base flag header lazy_load 8 @
     [0xa8c17bfd, 0xa8c103e1, hi_b base 15 (hi_pc base 3)]"

definition lazy_load_code :: "code_ctx \<Rightarrow> u64 \<Rightarrow> u64 \<Rightarrow> u64 \<Rightarrow> u64 \<Rightarrow> u64 \<Rightarrow> u8 \<Rightarrow> (u32 \<times> u32) option \<Rightarrow> u32 list option" where
  "lazy_load_code ctx base flag slot header lazy_load reg site =
     (let rd = ucast reg
      in map_option (\<lambda>ret.
           [hi_adrp base 0 rd flag, hi_ldr_w rd flag, 0x35000180 OR rd, 0xa9bf03e1, 0xa9bf47f0, 0xa9bf7bfd] @
           lazy_call base flag header lazy_load 6 @
           [0xa8c17bfd, 0xa8c147f0, 0xa8c103e1, hi_adrp base 14 rd slot, ret]) (ret_or_back ctx base 15 site))"

definition write_lazy_helpers :: "code_ctx \<Rightarrow> u64 \<Rightarrow> bytes \<Rightarrow> bytes option" where
  "write_lazy_helpers ctx addr buf =
     do { lid \<leftarrow> kc_dyld_lazy_load ctx;
          l \<leftarrow> kc_symbol ctx lid;
          lazy_load \<leftarrow> stub_addr (kc_link ctx) l;
          let header = ch_addr (kc_hdr ctx ChMachHeader);
          for_each (\<lambda>_ h buf.
              do { let base = addr + ucast (lh_offset h);
                   flag \<leftarrow> kc_isec_addr ctx (lh_flag h);
                   let slot = lazy_load_got_slot_addr (kc_link ctx) (lh_slot h);
                   code \<leftarrow> (case lh_kind h of
                       LzCall \<Rightarrow> Some (lazy_call_code base flag slot header lazy_load)
                     | LzLoad reg site \<Rightarrow> lazy_load_code ctx base flag slot header lazy_load reg site
                     | LzCmp \<Rightarrow> None);
                   write_code (unat (lh_offset h)) code buf })
            0 (kc_lazy_helpers ctx) buf }"

definition lazy_call_refs :: "u32 \<Rightarrow> (u32 \<times> u8 \<times> lazy_target) list" where
  "lazy_call_refs k =
     (let k = k * 4
      in [(k, DYLD_CACHE_ADJ_V2_ARM64_ADRP, LtFlag), (k + 4, DYLD_CACHE_ADJ_V2_ARM64_OFF12, LtFlag),
          (k + 8, DYLD_CACHE_ADJ_V2_ARM64_ADRP, LtHeader), (k + 12, DYLD_CACHE_ADJ_V2_ARM64_OFF12, LtHeader),
          (k + 16, DYLD_CACHE_ADJ_V2_ARM64_BR26, LtLazyLoad)])"

definition lazy_helper_refs :: "lazy_use \<Rightarrow> (u32 \<times> u8 \<times> lazy_target) list option" where
  "lazy_helper_refs kind =
     (let refs = [(0, DYLD_CACHE_ADJ_V2_ARM64_ADRP, LtFlag), (4, DYLD_CACHE_ADJ_V2_ARM64_OFF12, LtFlag)]
      in case kind of
           LzCall \<Rightarrow> Some (refs @ [(12, DYLD_CACHE_ADJ_V2_ARM64_ADRP, LtSlot), (16, DYLD_CACHE_ADJ_V2_ARM64_OFF12, LtSlot)] @ lazy_call_refs 8)
         | LzLoad _ site \<Rightarrow>
             Some (refs @ lazy_call_refs 6 @ [(56, DYLD_CACHE_ADJ_V2_ARM64_ADRP, LtSlot)] @
                   (if site \<noteq> None then [(60, DYLD_CACHE_ADJ_V2_ARM64_BR26, LtSite)] else []))
         | LzCmp \<Rightarrow> None)"

definition lazy_load_got_new :: chunk_header where
  "lazy_load_got_new = (chunk_header_new (bstr ''__DATA'') (bstr ''__lazy_load_got''))\<lparr>ch_p2align := 3\<rparr>"

definition lazy_load_got_update_shdr :: "code_ctx \<Rightarrow> code_ctx" where
  "lazy_load_got_update_shdr ctx =
     (let h = kc_hdr ctx ChLazyLoadGot;
          h = (if la_shared_region (kc_args ctx) then h\<lparr>ch_segname := data_seg ctx\<rparr> else h)
      in set_hdr ChLazyLoadGot (h\<lparr>ch_size := of_nat (length (kc_lazy_got_slots ctx)) * 8\<rparr>) ctx)"

definition lazy_load_got_populate_symtab :: "code_ctx \<Rightarrow> named_entry list \<Rightarrow> named_entry list option" where
  "lazy_load_got_populate_symtab ctx out =
     for_each (\<lambda>i (_, name) out.
         Some (out @ [(name, local_msym (ch_sect_idx (kc_hdr ctx ChLazyLoadGot)) (lazy_load_got_slot_addr (kc_link ctx) (of_nat i)), None)]))
       0 (kc_lazy_got_slots ctx) out"

text \<open>Each dylib's slots are one chain of binds.\<close>

definition lazy_load_got_copy_buf :: "code_ctx \<Rightarrow> bytes \<Rightarrow> bytes option" where
  "lazy_load_got_copy_buf ctx buf =
     for_each (\<lambda>_ dylib buf.
         for_each (\<lambda>i _ buf.
             let nxt = (if i + 1 < ll_nsyms dylib then 2 else 0)
             in copy_at buf ((unat (ll_got_start dylib) + i) * 8)
                  (le_bytes 8 (push_bit 63 1 OR push_bit 51 nxt OR of_nat i :: u64)))
           0 (replicate (ll_nsyms dylib) ()) buf)
       0 (kc_lazy_load_dylibs ctx) buf"

subsection \<open>Delay-init stubs and helpers\<close>

definition delay_stubs_new :: chunk_header where
  "delay_stubs_new = (chunk_header_new (bstr ''__TEXT'') (bstr ''__delay_stubs''))\<lparr>ch_flags := code_flags\<rparr>"

definition delay_helper_new :: chunk_header where
  "delay_helper_new = (chunk_header_new (bstr ''__TEXT'') (bstr ''__delay_helper''))\<lparr>ch_flags := code_flags\<rparr>"

definition delay_helper_addr :: "code_ctx \<Rightarrow> nat \<Rightarrow> u64 option" where
  "delay_helper_addr ctx i = map_option (\<lambda>h. ch_addr (kc_hdr ctx ChDelayHelper) + ucast (dh_offset h)) (nth_opt (kc_delay_helpers ctx) i)"

definition dlopen_helper_addr :: "code_ctx \<Rightarrow> nat \<Rightarrow> u64 option" where
  "dlopen_helper_addr ctx i = map_option (\<lambda>d. ch_addr (kc_hdr ctx ChDelayHelper) + ucast (do_offset d)) (nth_opt (kc_dlopens ctx) i)"

definition delay_load_helper :: "code_ctx \<Rightarrow> nat \<Rightarrow> reloc \<Rightarrow> (u64 \<times> bool) option option" where
  "delay_load_helper ctx isec r =
     (case kc_delay_sites ctx (of_nat isec, rl_offset r) of
        None \<Rightarrow> Some None
      | Some i \<Rightarrow>
          do { h \<leftarrow> nth_opt (kc_delay_helpers ctx) (unat i);
               a \<leftarrow> delay_helper_addr ctx (unat i);
               Some (Some (a, case dh_kind h of DyLoad _ (Some _) \<Rightarrow> True | _ \<Rightarrow> False)) })"

definition delay_update_stubs_shdr :: "code_ctx \<Rightarrow> code_ctx" where
  "delay_update_stubs_shdr ctx =
     set_hdr ChDelayStubs ((kc_hdr ctx ChDelayStubs)
       \<lparr>ch_segname := ch_segname (kc_hdr ctx ChStubs), ch_p2align := ar_delay_p2align (kc_arch ctx),
        ch_size := of_nat (length (kc_delay_stubs ctx)) * ar_delay_stub_size (kc_arch ctx)\<rparr>) ctx"

definition delay_update_helper_shdr :: "code_ctx \<Rightarrow> code_ctx option" where
  "delay_update_helper_shdr ctx =
     (if kc_dlopens ctx = [] then None
      else Some (set_hdr ChDelayHelper ((kc_hdr ctx ChDelayHelper)
             \<lparr>ch_segname := ch_segname (kc_hdr ctx ChStubs), ch_p2align := ar_delay_p2align (kc_arch ctx),
              ch_size := ucast (do_offset (List.last (kc_dlopens ctx)) + ar_dlopen_helper_size (kc_arch ctx))\<rparr>) ctx))"

definition delay_populate_stubs_symtab :: "code_ctx \<Rightarrow> named_entry list \<Rightarrow> named_entry list option" where
  "delay_populate_stubs_symtab ctx out =
     for_each (\<lambda>i stub out.
         Some (out @ [(ds_name stub, (local_msym (ch_sect_idx (kc_hdr ctx ChDelayStubs)) (delay_stub_addr (kc_link ctx) (of_nat i)))
                         \<lparr>sym_n_type := N_PEXT OR N_SECT\<rparr>, None)]))
       0 (kc_delay_stubs ctx) out"

definition delay_populate_helper_symtab :: "code_ctx \<Rightarrow> named_entry list \<Rightarrow> named_entry list option" where
  "delay_populate_helper_symtab ctx out =
     do { let sect = ch_sect_idx (kc_hdr ctx ChDelayHelper);
          out \<leftarrow> for_each (\<lambda>i h out. do { a \<leftarrow> delay_helper_addr ctx i; Some (out @ [(dh_name h, local_msym sect a, None)]) })
                   0 (kc_delay_helpers ctx) out;
          for_each (\<lambda>i d out. do { a \<leftarrow> dlopen_helper_addr ctx i; Some (out @ [(do_name d, local_msym sect a, None)]) })
            0 (kc_dlopens ctx) out }"

definition delay_stub_code :: "u64 \<Rightarrow> u64 \<Rightarrow> u64 \<Rightarrow> u64 \<Rightarrow> u32 list" where
  "delay_stub_code base flag helper slot =
     [hi_adrp base 0 16 flag, hi_add 16 flag, 0x88dffe10, 0x35000090, 0xa9bf7bfd, hi_bl base 5 helper, 0xa8c17bfd,
      hi_adrp base 7 16 slot, hi_ldr 16 slot, 0xd61f0200]"

definition write_delay_stubs :: "code_ctx \<Rightarrow> u64 \<Rightarrow> bytes \<Rightarrow> bytes option" where
  "write_delay_stubs ctx addr buf =
     for_each (\<lambda>i stub buf.
         do { let off = delay_stub_offset (kc_link ctx) (of_nat i);
              d \<leftarrow> nth_opt (kc_dlopens ctx) (unat (ds_dlopen stub));
              flag \<leftarrow> kc_isec_addr ctx (do_flag d);
              helper \<leftarrow> dlopen_helper_addr ctx (unat (ds_dlopen stub));
              let slot = got_slot_addr (kc_link ctx) (unat (ds_got stub));
              write_code (unat off) (delay_stub_code (addr + off) flag helper slot) buf })
       0 (kc_delay_stubs ctx) buf"

definition delay_load_code :: "code_ctx \<Rightarrow> u64 \<Rightarrow> u64 \<Rightarrow> u64 \<Rightarrow> u64 \<Rightarrow> u8 \<Rightarrow> (u32 \<times> u32) option \<Rightarrow> u32 list option" where
  "delay_load_code ctx base flag helper slot reg site =
     (let rd = ucast reg
      in map_option (\<lambda>ret.
           [hi_adrp base 0 rd flag, hi_add rd flag, 0x88dffc00 OR push_bit 5 rd OR rd, 0x35000080 OR rd, 0xa9bf7bfd,
            hi_bl base 5 helper, 0xa8c17bfd, hi_adrp base 7 rd slot, ret]) (ret_or_back ctx base 8 site))"

definition DLOPEN_HELPER :: "u32 list" where
  "DLOPEN_HELPER =
     [0xd10483ff, 0xa90003e1, 0xa9010be3, 0xa90213e5, 0xa9031be7, 0xa90423e9, 0xa9052beb, 0xa90633ed, 0xa9073bef,
      0xa90843f1, 0xad0483e1, 0xad058be3, 0xad0693e5, 0xad079be7, 0xa9117bfd, 0x910483fd, 0, 0, 0xd2800001, 0, 0, 0,
      0x52800020, 0x889ffc20, 0xad479be7, 0xad4693e5, 0xad458be3, 0xad4483e1, 0xa94843f1, 0xa9473bef, 0xa94633ed,
      0xa9452beb, 0xa94423e9, 0xa9431be7, 0xa94213e5, 0xa9410be3, 0xa94003e1, 0xa9517bfd, 0x910483ff, 0xd65f03c0]"

definition dlopen_code :: "u64 \<Rightarrow> u64 \<Rightarrow> u64 \<Rightarrow> u64 \<Rightarrow> u32 list" where
  "dlopen_code base name flag dlopen =
     DLOPEN_HELPER[16 := hi_adrp base 16 0 name, 17 := hi_add 0 name, 19 := hi_bl base 19 dlopen,
       20 := hi_adrp base 20 1 flag, 21 := hi_add 1 flag]"

definition write_delay_helper :: "code_ctx \<Rightarrow> u64 \<Rightarrow> bytes \<Rightarrow> bytes option" where
  "write_delay_helper ctx addr buf =
     do { buf \<leftarrow> for_each (\<lambda>_ h buf.
              case dh_kind h of
                DyCmp \<Rightarrow> None
              | DyLoad reg site \<Rightarrow>
                  do { d \<leftarrow> nth_opt (kc_dlopens ctx) (unat (dh_dlopen h));
                       flag \<leftarrow> kc_isec_addr ctx (do_flag d);
                       helper \<leftarrow> dlopen_helper_addr ctx (unat (dh_dlopen h));
                       slot \<leftarrow> kc_got_addr ctx (dh_sym h);
                       code \<leftarrow> delay_load_code ctx (addr + ucast (dh_offset h)) flag helper slot reg site;
                       write_code (unat (dh_offset h)) code buf })
            0 (kc_delay_helpers ctx) buf;
          for_each (\<lambda>_ d buf.
              do { name \<leftarrow> kc_isec_addr ctx (do_string d);
                   flag \<leftarrow> kc_isec_addr ctx (do_flag d);
                   did \<leftarrow> kc_dlopen_sym ctx;
                   s \<leftarrow> kc_symbol ctx did;
                   dlopen \<leftarrow> stub_addr (kc_link ctx) s;
                   write_code (unat (do_offset d)) (dlopen_code (addr + ucast (do_offset d)) name flag dlopen) buf })
            0 (kc_dlopens ctx) buf }"

definition delay_helper_size :: "delay_use \<Rightarrow> u32" where
  "delay_helper_size kind = 36"

definition delay_refs :: "delay_code \<Rightarrow> (u32 \<times> u8 \<times> delay_target) list" where
  "delay_refs code =
     (let adrp = DYLD_CACHE_ADJ_V2_ARM64_ADRP; off12 = DYLD_CACHE_ADJ_V2_ARM64_OFF12; br26 = DYLD_CACHE_ADJ_V2_ARM64_BR26
      in case code of
           DcStub \<Rightarrow> [(0, adrp, DtFlag), (4, off12, DtFlag), (20, br26, DtDlopenHelper), (28, adrp, DtSlot), (32, off12, DtSlot)]
         | DcHelper _ \<Rightarrow> [(0, adrp, DtFlag), (4, off12, DtFlag), (20, br26, DtDlopenHelper), (28, adrp, DtSlot), (32, br26, DtSite)]
         | DcDlopen \<Rightarrow> [(64, adrp, DtName), (68, off12, DtName), (76, br26, DtDlopen), (80, adrp, DtFlag), (84, off12, DtFlag)])"

end
