(* ===== verification/StubsCode.thy ===== *)
theory StubsCode
  imports Stubs Arm64Machine
begin

unbundle bit_operations_syntax

section \<open>What the linker's own code does\<close>

text \<open>
  The stubs, thunks and helpers of \<open>Stubs\<close>, run on the machine of \<open>Arm64Machine\<close> from memory that
  holds the chunks as written.
\<close>

subsection \<open>Running code in memory\<close>

fun run :: "nat \<Rightarrow> u64 \<Rightarrow> mach \<Rightarrow> (u64 \<times> mach) option" where
  "run 0 pc s = Some (pc, s)"
| "run (Suc k) pc s = do { (pc, s) \<leftarrow> step pc (load_mem 4 pc s) s; run k pc s }"

definition code_at :: "u64 \<Rightarrow> u32 list \<Rightarrow> mach \<Rightarrow> bool" where
  "code_at a ws s \<longleftrightarrow> (\<forall>i < length ws. load_mem 4 (a + 4 * of_nat i) s = ws ! i)"

definition holds_bytes :: "u64 \<Rightarrow> bytes \<Rightarrow> mach \<Rightarrow> bool" where
  "holds_bytes a bs s \<longleftrightarrow> (\<forall>i < length bs. mm s (a + of_nat i) = bs ! i)"

lemma run_add: "run (m + n) pc s = do { (pc, s) \<leftarrow> run m pc s; run n pc s }"
  by (induction m arbitrary: pc s) (auto split: bind_splits)

lemma load_mem_bytes:
  assumes "holds_bytes a bs s" "slice_at bs off n = Some xs"
  shows "load_mem n (a + of_nat off) s = from_le xs"
proof -
  have b: "off + n \<le> length bs" "xs = take n (drop off bs)" using assms(2) by (auto simp: slice_at_def split: if_splits)
  have "map (\<lambda>i. mm s (a + of_nat off + of_nat i)) [0..<n] = xs"
  proof (rule nth_equalityI)
    show "length (map (\<lambda>i. mm s (a + of_nat off + of_nat i)) [0..<n]) = length xs" using b by simp
    fix i assume "i < length (map (\<lambda>i. mm s (a + of_nat off + of_nat i)) [0..<n])"
    then have i: "i < n" by simp
    have "off + i < length bs" using b(1) i by simp
    then have "mm s (a + of_nat (off + i)) = bs ! (off + i)" using assms(1) unfolding holds_bytes_def by blast
    then show "map (\<lambda>i. mm s (a + of_nat off + of_nat i)) [0..<n] ! i = xs ! i" using i b by (simp add: add.assoc)
  qed
  then show ?thesis by (simp add: load_mem_def)
qed

lemma code_at_bytes:
  assumes "holds_bytes a bs s" "slice_at bs off (4 * length ws) = Some (concat (map (le_bytes 4) ws))"
  shows "code_at (a + of_nat off) ws s"
  unfolding code_at_def
proof (intro allI impI)
  fix i assume i: "i < length ws"
  have b: "off + 4 * length ws \<le> length bs" "take (4 * length ws) (drop off bs) = concat (map (le_bytes 4) ws)"
    using assms(2) by (auto simp: slice_at_def split: if_splits)
  have len: "length (concat (map (le_bytes 4) (vs :: u32 list))) = 4 * length vs" for vs by (induction vs) auto
  have "concat (map (le_bytes 4) ws) = concat (map (le_bytes 4) (take i ws)) @ le_bytes 4 (ws ! i) @ concat (map (le_bytes 4) (drop (Suc i) ws))"
    by (subst id_take_nth_drop [OF i]) simp
  then have "take 4 (drop (4 * i) (concat (map (le_bytes 4) ws))) = le_bytes 4 (ws ! i)"
    using i len [of "take i ws"] by simp
  moreover have "take 4 (drop (4 * i) (take (4 * length ws) (drop off bs))) = take 4 (drop (off + 4 * i) bs)"
    using i by (simp add: drop_take add.commute)
  ultimately have "slice_at bs (off + 4 * i) 4 = Some (le_bytes 4 (ws ! i))" using i b by (simp add: slice_at_def)
  from load_mem_bytes [OF assms(1) this]
  have "load_mem 4 (a + of_nat (off + 4 * i)) s = (from_le (le_bytes 4 (ws ! i)) :: u32)" .
  then show "load_mem 4 (a + of_nat off + 4 * of_nat i) s = ws ! i" by (simp add: add.assoc)
qed

lemma load_mem_mm: "mm s' = mm s \<Longrightarrow> load_mem n a s' = load_mem n a s"
  by (simp only: load_mem_def)

lemma code_at_mem: "mm s' = mm s \<Longrightarrow> code_at a ws s' = code_at a ws s"
  by (simp only: code_at_def load_mem_mm [of s' s])

lemma code_at_Cons: "code_at a (w # ws) s \<longleftrightarrow> load_mem 4 a s = w \<and> code_at (a + 4) ws s"
proof -
  have e: "a + 4 * of_nat (Suc i) = a + 4 + 4 * of_nat i" for i by (simp add: distrib_left)
  show ?thesis unfolding code_at_def length_Cons All_less_Suc2 e by simp
qed

lemma mm_set [simp]: "mm (set_z r v s) = mm s" "mm (set_sp r v s) = mm s"
  by (simp_all add: set_z_def set_sp_def)

lemma code_at_set [simp]: "code_at a ws (set_z r v s) = code_at a ws s" "code_at a ws (set_sp r v s) = code_at a ws s"
  by (rule code_at_mem; simp)+

lemma load_mem_set [simp]: "load_mem n a (set_z r v s) = load_mem n a s" "load_mem n a (set_sp r v s) = load_mem n a s"
  by (rule load_mem_mm; simp)+

subsection \<open>The instructions written\<close>

lemma signed_small_n:
  assumes "- (2 ^ n) \<le> sint d" "sint d < 2 ^ n"
  shows "signed_take_bit n d = (d :: u64)"
proof (rule bit_word_eqI)
  fix i assume i: "i < LENGTH(64)"
  have s: "signed_take_bit n (sint d) = sint d" using assms by (intro signed_take_bit_int_eq_self) simp_all
  have "bit d (min n i) = bit (sint d) (min n i)" using i by (auto simp: bit_sint_iff min_def)
  also have "\<dots> = bit (signed_take_bit n (sint d)) i" by (simp add: bit_signed_take_bit_iff)
  also have "\<dots> = bit d i" using i by (auto simp: s bit_sint_iff)
  finally show "bit (signed_take_bit n d) i = bit d i" using i by (simp add: bit_signed_take_bit_iff)
qed

lemma mask_12: "(0xfff :: u64) = mask 12" "(0xfff :: u32) = mask 12"
  by (simp_all add: mask_eq_exp_minus_1)

lemma page_push: "page v = push_bit 12 (drop_bit 12 v)"
  unfolding page_def mask_12 by (rule bit_word_eqI) (auto simp: bit_simps)

lemma page_plus: "page t + (t AND 0xfff) = t"
  using bits_ident [of 12 t] by (simp add: page_push mask_12 take_bit_eq_mask)

text \<open>The bits of a constant, from the runs of ones in it.\<close>

fun in_runs :: "(nat \<times> nat) list \<Rightarrow> nat \<Rightarrow> bool" where
  "in_runs [] i = False"
| "in_runs ((lo, n) # rs) i = (lo \<le> i \<and> i < lo + n \<or> in_runs rs i)"

definition of_runs :: "(nat \<times> nat) list \<Rightarrow> u32" where
  "of_runs rs = foldr (\<lambda>(lo, n) w. push_bit lo (mask n) OR w) rs 0"

lemma bit_runs: "c = of_runs rs \<Longrightarrow> bit c i \<longleftrightarrow> i < 32 \<and> in_runs rs i"
proof -
  have "bit (of_runs rs) i \<longleftrightarrow> i < 32 \<and> in_runs rs i" by (induction rs) (auto simp: of_runs_def bit_simps)
  then show "c = of_runs rs \<Longrightarrow> bit c i \<longleftrightarrow> i < 32 \<and> in_runs rs i" by simp
qed

lemma bit_consts2:
  "bit (0x91000000 :: u32) i \<longleftrightarrow> i = 31 \<or> i = 28 \<or> i = 24"
  "bit (0xffc00000 :: u32) i \<longleftrightarrow> 22 \<le> i \<and> i < 32"
  "bit (0xf9400000 :: u32) i \<longleftrightarrow> 27 \<le> i \<and> i < 32 \<or> i = 24 \<or> i = 22"
  "bit (0xb9400000 :: u32) i \<longleftrightarrow> i = 31 \<or> 27 \<le> i \<and> i < 30 \<or> i = 24 \<or> i = 22"
  "bit (0x39000000 :: u32) i \<longleftrightarrow> 27 \<le> i \<and> i < 30 \<or> i = 24"
  "bit (0x14000000 :: u32) i \<longleftrightarrow> i = 28 \<or> i = 26"
  "bit (0x94000000 :: u32) i \<longleftrightarrow> i = 31 \<or> i = 28 \<or> i = 26"
  "bit (0xfc000000 :: u32) i \<longleftrightarrow> 26 \<le> i \<and> i < 32"
  "bit (0x03ffffff :: u32) i \<longleftrightarrow> i < 26"
  apply (subst bit_runs [of _ "[(31, 1), (28, 1), (24, 1)]"]; auto simp: of_runs_def mask_eq_exp_minus_1 push_bit_eq_mult)
  apply (subst bit_runs [of _ "[(22, 10)]"]; auto simp: of_runs_def mask_eq_exp_minus_1 push_bit_eq_mult)
  apply (subst bit_runs [of _ "[(27, 5), (24, 1), (22, 1)]"]; auto simp: of_runs_def mask_eq_exp_minus_1 push_bit_eq_mult)
  apply (subst bit_runs [of _ "[(31, 1), (27, 3), (24, 1), (22, 1)]"]; auto simp: of_runs_def mask_eq_exp_minus_1 push_bit_eq_mult)
  apply (subst bit_runs [of _ "[(27, 3), (24, 1)]"]; auto simp: of_runs_def mask_eq_exp_minus_1 push_bit_eq_mult)
  apply (subst bit_runs [of _ "[(28, 1), (26, 1)]"]; auto simp: of_runs_def mask_eq_exp_minus_1 push_bit_eq_mult)
  apply (subst bit_runs [of _ "[(31, 1), (28, 1), (26, 1)]"]; auto simp: of_runs_def mask_eq_exp_minus_1 push_bit_eq_mult)
  apply (subst bit_runs [of _ "[(26, 6)]"]; auto simp: of_runs_def mask_eq_exp_minus_1 push_bit_eq_mult)
  apply (subst bit_runs [of _ "[(0, 26)]"]; auto simp: of_runs_def mask_eq_exp_minus_1 push_bit_eq_mult)
  done

lemmas code_bits = insn_bits bit_consts2

lemma adrp_fields:
  defines "w r t pc \<equiv> 0x90000000 OR (r AND 0x1f) OR page_offset t pc"
  shows "w r t pc AND 0x9f000000 = 0x90000000" "fld 0 5 (w r t pc) = r AND 0x1f"
    "fld 29 2 (w r t pc) = ucast (take_bit 2 (drop_bit 12 (page t - page pc)))"
    "fld 5 19 (w r t pc) = ucast (take_bit 19 (drop_bit 14 (page t - page pc)))"
  unfolding w_def page_offset_def Let_def bits_take
  by (rule bit_word_eqI; auto simp: code_bits simp del: push_bit_and bit_numeral_word_iff)+


lemma pages_apart: "page t - page pc = push_bit 12 (drop_bit 12 t - drop_bit 12 pc)"
  by (simp add: page_push push_bit_eq_mult algebra_simps)

lemma step_adrp_word:
  assumes "adrp_reaches t pc"
  shows "step pc (0x90000000 OR (r AND 0x1f) OR page_offset t pc) s = Some (pc + 4, set_z (r AND 0x1f) (page t) s)"
proof -
  let ?w = "0x90000000 OR (r AND 0x1f) OR page_offset t pc" and ?d = "page t - page pc"
  note f = adrp_fields [of r t pc]
  have n: "?w \<noteq> NOP_INSN" unfolding NOP_INSN_def by (rule numeral_clash [OF f(1)]) simp
  have low: "\<not> bit ?d i" if "i < 12" for i using that by (simp add: pages_apart bit_push_bit_iff)
  have "push_bit 12 (sext 21 (push_bit 2 (fld 5 19 ?w) OR fld 29 2 ?w)) = signed_take_bit 32 ?d"
    unfolding f sext_def
  proof (rule bit_word_eqI)
    fix i assume "i < LENGTH(64)"
    then have i: "i < 64" by simp
    have imm: "bit (push_bit 2 (ucast (take_bit 19 (drop_bit 14 ?d))) OR ucast (take_bit 2 (drop_bit 12 ?d)) :: u32) m \<longleftrightarrow> bit ?d (12 + m)" if "m < 21" for m
    proof (cases "m < 2")
      case False
      then obtain k where m: "m = 2 + k" using le_Suc_ex [of 2 m] by auto
      show ?thesis using that by (simp add: m bit_simps)
    qed (use that in \<open>auto simp: bit_simps\<close>)
    show "bit (push_bit 12 (signed_take_bit (21 - 1) (ucast (push_bit 2 (ucast (take_bit 19 (drop_bit 14 ?d))) OR ucast (take_bit 2 (drop_bit 12 ?d)) :: u32)) :: u64)) i =
        bit (signed_take_bit 32 ?d) i"
    proof (cases "i < 12")
      case True
      then show ?thesis using low by (simp add: bit_simps)
    next
      case False
      then obtain k where k: "i = 12 + k" using le_Suc_ex [of 12 i] by auto
      have m: "min 32 i = 12 + min 20 k" by (simp add: k)
      have "bit (push_bit 12 (signed_take_bit 20 (ucast (u :: u32)) :: u64)) i = bit u (min 20 k)" for u
        using i by (simp add: k bit_simps min_def)
      then show ?thesis using i imm [of "min 20 k"] by (simp add: bit_signed_take_bit_iff m)
    qed
  qed
  also have "\<dots> = ?d"
    by (rule signed_small_n) (use assms in \<open>auto simp: adrp_reaches_def Let_def\<close>)
  finally have "push_bit 12 (drop_bit 12 pc + sext 21 (push_bit 2 (fld 5 19 ?w) OR fld 29 2 ?w)) = page t"
    by (simp add: push_bit_add page_push)
  then show ?thesis using n f by (simp add: step_def)
qed


lemma add_fields:
  defines "w n r v \<equiv> 0x91000000 OR push_bit 5 (n AND 0x1f) OR (r AND 0x1f) OR push_bit 10 (take_bit 12 v) :: u32"
  shows "w n r v AND 0xffc00000 = 0x91000000" "fld 0 5 (w n r v) = r AND 0x1f" "fld 5 5 (w n r v) = n AND 0x1f"
    "fld 10 12 (w n r v) = take_bit 12 v"
  unfolding w_def
  by (rule bit_word_eqI; auto simp: code_bits simp del: push_bit_and bit_numeral_word_iff)+

lemma step_add_word:
  "step pc (0x91000000 OR push_bit 5 (n AND 0x1f) OR (r AND 0x1f) OR push_bit 10 (take_bit 12 v)) s =
     Some (pc + 4, set_sp (r AND 0x1f) (get_sp (n AND 0x1f) s + ucast (take_bit 12 v)) s)"
proof -
  note f = add_fields [of n r v]
  have "0x91000000 OR push_bit 5 (n AND 0x1f) OR (r AND 0x1f) OR push_bit 10 (take_bit 12 v) \<noteq> NOP_INSN"
    unfolding NOP_INSN_def by (rule numeral_clash [OF f(1)]) simp
  moreover have "(0x91000000 OR push_bit 5 (n AND 0x1f) OR (r AND 0x1f) OR push_bit 10 (take_bit 12 v)) AND 0x9f000000 \<noteq> 0x90000000"
    "(0x91000000 OR push_bit 5 (n AND 0x1f) OR (r AND 0x1f) OR push_bit 10 (take_bit 12 v)) AND 0x9f000000 \<noteq> 0x10000000"
    by (rule mask_clash [OF f(1)]; simp)+
  ultimately show ?thesis using f by (simp add: step_def)
qed

lemma ldr_fields:
  defines "w n r v \<equiv> 0xf9400000 OR push_bit 5 (n AND 0x1f) OR (r AND 0x1f) OR push_bit 10 (take_bit 12 v) :: u32"
  shows "w n r v AND 0x3b000000 = 0x39000000" "fld 0 5 (w n r v) = r AND 0x1f" "fld 5 5 (w n r v) = n AND 0x1f"
    "fld 10 12 (w n r v) = take_bit 12 v" "fld 26 1 (w n r v) = 0" "fld 30 2 (w n r v) = mask 2" "fld 22 2 (w n r v) = mask 1"
  unfolding w_def
  by (rule bit_word_eqI; auto simp: code_bits simp del: push_bit_and bit_numeral_word_iff mask_1)+

lemma ldr_w_fields:
  defines "w n r v \<equiv> 0xb9400000 OR push_bit 5 (n AND 0x1f) OR (r AND 0x1f) OR push_bit 10 (take_bit 12 v) :: u32"
  shows "w n r v AND 0x3b000000 = 0x39000000" "fld 0 5 (w n r v) = r AND 0x1f" "fld 5 5 (w n r v) = n AND 0x1f"
    "fld 10 12 (w n r v) = take_bit 12 v" "fld 26 1 (w n r v) = 0" "fld 30 2 (w n r v) = push_bit 1 (mask 1)" "fld 22 2 (w n r v) = mask 1"
  unfolding w_def
  by (rule bit_word_eqI; auto simp: code_bits simp del: push_bit_and bit_numeral_word_iff mask_1)+

lemma step_ldr_word:
  "step pc (0xf9400000 OR push_bit 5 (n AND 0x1f) OR (r AND 0x1f) OR push_bit 10 (take_bit 12 v)) s =
     Some (pc + 4, set_z (r AND 0x1f) (load_mem 8 (get_sp (n AND 0x1f) s + push_bit 3 (ucast (take_bit 12 v))) s) s)"
  by (simp add: ldst_class [OF ldr_fields(1)] ldr_fields access_def access_scale_def mask_eq_exp_minus_1 del: push_bit_and One_nat_def)

lemma step_ldr_w_word:
  "step pc (0xb9400000 OR push_bit 5 (n AND 0x1f) OR (r AND 0x1f) OR push_bit 10 (take_bit 12 v)) s =
     Some (pc + 4, set_z (r AND 0x1f) (load_mem 4 (get_sp (n AND 0x1f) s + push_bit 2 (ucast (take_bit 12 v))) s) s)"
  by (simp add: ldst_class [OF ldr_w_fields(1)] ldr_w_fields access_def access_scale_def mask_eq_exp_minus_1 del: push_bit_and One_nat_def)

text \<open>The page offset in a load's immediate, scaled.\<close>

lemma page_offset_8: "t mod 8 = 0 \<Longrightarrow> push_bit 3 (ucast (take_bit 12 (ucast (bits t 11 3) :: u32))) = t AND 0xfff"
proof -
  assume "t mod 8 = 0"
  then have z: "take_bit 3 t = 0" by (simp add: take_bit_eq_mod)
  have low: "3 \<le> i" if "bit t i" for i using arg_cong [OF z, of "\<lambda>v. bit v i"] that by (auto simp: bit_take_bit_iff not_less)
  show ?thesis
    unfolding bits_take mask_12
  proof (rule bit_word_eqI)
    fix i assume "i < LENGTH(64)"
    show "bit (push_bit 3 (ucast (take_bit 12 (ucast (take_bit (11 - 3 + 1) (drop_bit 3 t)) :: u32))) :: u64) i = bit (t AND mask 12) i"
    proof (cases "i < 3")
      case True
      then show ?thesis using low [of i] by (auto simp: bit_simps)
    next
      case False
      then obtain k where "i = 3 + k" using le_Suc_ex [of 3 i] by auto
      then show ?thesis by (auto simp: bit_simps)
    qed
  qed
qed

lemma page_offset_4: "t mod 4 = 0 \<Longrightarrow> push_bit 2 (ucast (take_bit 12 (ucast (bits t 11 2) :: u32))) = t AND 0xfff"
proof -
  assume "t mod 4 = 0"
  then have z: "take_bit 2 t = 0" by (simp add: take_bit_eq_mod)
  have low: "2 \<le> i" if "bit t i" for i using arg_cong [OF z, of "\<lambda>v. bit v i"] that by (auto simp: bit_take_bit_iff not_less)
  show ?thesis
    unfolding bits_take mask_12
  proof (rule bit_word_eqI)
    fix i assume "i < LENGTH(64)"
    show "bit (push_bit 2 (ucast (take_bit 12 (ucast (take_bit (11 - 2 + 1) (drop_bit 2 t)) :: u32))) :: u64) i = bit (t AND mask 12) i"
    proof (cases "i < 2")
      case True
      then show ?thesis using low [of i] by (auto simp: bit_simps)
    next
      case False
      then obtain k where "i = 2 + k" using le_Suc_ex [of 2 i] by auto
      then show ?thesis by (auto simp: bit_simps)
    qed
  qed
qed

lemma page_offset_1: "ucast (take_bit 12 (ucast t :: u32)) = (t :: u64) AND 0xfff"
  unfolding mask_12 by (rule bit_word_eqI) (auto simp: bit_simps)

lemma imm_12: "(ucast t :: u32) AND 0xfff = take_bit 12 (ucast t)" "ucast (bits t 11 0) = take_bit 12 (ucast t :: u32)"
  "ucast (bits t 11 3) = take_bit 12 (ucast (bits t 11 3) :: u32)" "ucast (bits t 11 2) = take_bit 12 (ucast (bits t 11 2) :: u32)"
  unfolding bits_take mask_12 by (rule bit_word_eqI; auto simp: bit_simps)+

text \<open>Branches.\<close>

lemma b_fields:
  fixes v :: u32
  shows "(0x14000000 OR (v AND 0x03ffffff)) AND 0xfc000000 = 0x14000000" "fld 0 26 (0x14000000 OR (v AND 0x03ffffff)) = take_bit 26 v"
    "(0x94000000 OR (v AND 0x03ffffff)) AND 0xfc000000 = 0x94000000" "fld 0 26 (0x94000000 OR (v AND 0x03ffffff)) = take_bit 26 v"
  by (rule bit_word_eqI; auto simp: code_bits simp del: push_bit_and bit_numeral_word_iff)+

lemma b_class:
  assumes m: "insn AND 0xfc000000 = 0x14000000"
  shows "step pc insn s = Some (pc + push_bit 2 (sext 26 (fld 0 26 insn)), s)"
proof -
  have "insn \<noteq> NOP_INSN" unfolding NOP_INSN_def by (rule numeral_clash [OF m]) simp
  moreover have "insn AND 0x9f000000 \<noteq> 0x90000000" "insn AND 0x9f000000 \<noteq> 0x10000000" "insn AND 0xffc00000 \<noteq> 0x91000000"
    "insn AND 0x3b000000 \<noteq> 0x39000000" "insn AND 0x3b000000 \<noteq> 0x18000000"
    by (rule mask_clash [OF m]; simp)+
  ultimately show ?thesis using m by (simp add: step_def)
qed

lemma bl_class:
  assumes m: "insn AND 0xfc000000 = 0x94000000"
  shows "step pc insn s = Some (pc + push_bit 2 (sext 26 (fld 0 26 insn)), set_z 30 (pc + 4) s)"
proof -
  have "insn \<noteq> NOP_INSN" unfolding NOP_INSN_def by (rule numeral_clash [OF m]) simp
  moreover have "insn AND 0x9f000000 \<noteq> 0x90000000" "insn AND 0x9f000000 \<noteq> 0x10000000" "insn AND 0xffc00000 \<noteq> 0x91000000"
    "insn AND 0x3b000000 \<noteq> 0x39000000" "insn AND 0x3b000000 \<noteq> 0x18000000" "insn AND 0xfc000000 \<noteq> 0x14000000"
    by (rule mask_clash [OF m]; simp)+
  ultimately show ?thesis using m by (simp add: step_def)
qed

text \<open>A branch reaches 128 MiB, in words.\<close>

definition branch_near :: "u64 \<Rightarrow> u64 \<Rightarrow> bool" where
  "branch_near t pc \<longleftrightarrow> (t - pc) mod 4 = 0 \<and> - (2 ^ 27) \<le> sint (t - pc) \<and> sint (t - pc) < 2 ^ 27"

lemma branch_delta:
  assumes "branch_near t pc" and d: "take_bit 26 d = take_bit 26 (ucast (drop_bit 2 (t - pc)) :: u32)"
  shows "pc + push_bit 2 (sext 26 (take_bit 26 d)) = t"
proof -
  have z: "take_bit 2 (t - pc) = 0" and s: "signed_take_bit 27 (t - pc) = t - pc"
    using assms(1) signed_small_n by (auto simp: branch_near_def low_two)
  have low: "2 \<le> i" if "bit (t - pc) i" for i
    using arg_cong [OF z, of "\<lambda>v. bit v i"] that by (auto simp: bit_take_bit_iff not_less)
  have "push_bit 2 (sext 26 (take_bit 26 (ucast (drop_bit 2 (t - pc)) :: u32))) = signed_take_bit 27 (t - pc)"
    unfolding sext_def
  proof (rule bit_word_eqI)
    fix i assume "i < LENGTH(64)"
    then have i: "i < 64" by simp
    show "bit (push_bit 2 (signed_take_bit (26 - 1) (ucast (take_bit 26 (ucast (drop_bit 2 (t - pc)) :: u32)))) :: u64) i = bit (signed_take_bit 27 (t - pc)) i"
    proof (cases "i < 2")
      case True
      then show ?thesis using low [of i] by (auto simp: bit_simps min_def)
    next
      case False
      then obtain k where k: "i = 2 + k" using le_Suc_ex [of 2 i] by auto
      have "min 27 i = 2 + min 25 k" by (simp add: k)
      then show ?thesis using i by (auto simp: k bit_simps min_def)
    qed
  qed
  then show ?thesis by (simp add: s d)
qed

lemma step_b_word:
  "branch_near t pc \<Longrightarrow> step pc (0x14000000 OR (ucast (drop_bit 2 (t - pc)) AND 0x03ffffff)) s = Some (t, s)"
  by (simp only: b_class [OF b_fields(1)] b_fields branch_delta)

lemma step_bl_word:
  "branch_near t pc \<Longrightarrow> step pc (0x94000000 OR (ucast (drop_bit 2 (t - pc)) AND 0x03ffffff)) s = Some (t, set_z 30 (pc + 4) s)"
  by (simp only: bl_class [OF b_fields(3)] b_fields branch_delta)

lemma step_br16: "step pc 0xd61f0200 s = Some (mx s 16, s)"
  by (simp add: step_def NOP_INSN_def fld_def get_z_def)


subsection \<open>Entries as written\<close>

lemma length_words4 [simp]: "length (concat (map (le_bytes 4) (ws :: u32 list))) = 4 * length ws"
  by (induction ws) auto

lemma put_insns_copy: "put_insns off ws buf = Some buf' \<Longrightarrow> off \<le> length buf \<Longrightarrow> copy_at buf off (concat (map (le_bytes 4) ws)) = Some buf'"
proof (induction off ws buf rule: put_insns.induct)
  case (1 off buf)
  then show ?case by (simp add: copy_at_def)
next
  case (2 off w ws buf)
  obtain b where b: "copy_at buf off (le_bytes 4 w) = Some b" and r: "put_insns (off + 4) ws b = Some buf'"
    using "2.prems"(1) by (auto split: bind_splits)
  have bb: "b = take off buf @ le_bytes 4 w @ drop (off + 4) buf" "off + 4 \<le> length buf" "length b = length buf"
    using b by (auto simp: copy_at_def split: if_splits)
  have "copy_at b (off + 4) (concat (map (le_bytes 4) ws)) = Some buf'" using "2.IH" [OF b r] bb by simp
  then show ?case using bb by (auto simp: copy_at_def add_ac split: if_splits)
qed

lemma put_insns_Nil_or: "put_insns off ws buf = Some buf' \<Longrightarrow> ws = [] \<and> buf' = buf \<or> off \<le> length buf"
  by (cases ws) (auto simp: copy_at_def split: bind_splits if_splits)

lemma put_insns_ok:
  assumes "put_insns off ws buf = Some buf'" "ws \<noteq> []"
  shows "length buf' = length buf" "slice_at buf' off (4 * length ws) = Some (concat (map (le_bytes 4) ws))"
    "p + n \<le> off \<or> off + 4 * length ws \<le> p \<Longrightarrow> slice_at buf' p n = slice_at buf p n"
proof -
  have c: "copy_at buf off (concat (map (le_bytes 4) ws)) = Some buf'"
    using assms put_insns_Nil_or by (intro put_insns_copy) auto
  show "length buf' = length buf" using copy_at_length [OF c] .
  show "slice_at buf' off (4 * length ws) = Some (concat (map (le_bytes 4) ws))" using copy_then_slice [OF c] by simp
  show "p + n \<le> off \<or> off + 4 * length ws \<le> p \<Longrightarrow> slice_at buf' p n = slice_at buf p n"
    using copy_then_slice_apart [OF c] by simp
qed

lemma for_each_copies:
  assumes step: "\<And>i x b b'. i < top' \<Longrightarrow> g i x b = Some b' \<Longrightarrow> length (code i x) \<le> sz \<and> copy_at (\<pi> b) (lo + i * sz) (code i x) = Some (\<pi> b')"
    and run: "for_each g i xs b = Some b'" and le: "i + length xs \<le> top'"
  shows "length (\<pi> b') = length (\<pi> b) \<and> (\<forall>p n. p + n \<le> lo + i * sz \<longrightarrow> slice_at (\<pi> b') p n = slice_at (\<pi> b) p n) \<and>
     (\<forall>j < length xs. slice_at (\<pi> b') (lo + (i + j) * sz) (length (code (i + j) (xs ! j))) = Some (code (i + j) (xs ! j)))"
  using run le
proof (induction xs arbitrary: i b)
  case Nil
  then show ?case by simp
next
  case (Cons x xs)
  obtain b1 where b1: "g i x b = Some b1" and r: "for_each g (i + 1) xs b1 = Some b'"
    using Cons.prems(1) by (auto split: bind_splits)
  have c: "length (code i x) \<le> sz" "copy_at (\<pi> b) (lo + i * sz) (code i x) = Some (\<pi> b1)"
    using step [OF _ b1] Cons.prems(2) by auto
  have IH: "length (\<pi> b') = length (\<pi> b1)" "\<And>p n. p + n \<le> lo + (i + 1) * sz \<Longrightarrow> slice_at (\<pi> b') p n = slice_at (\<pi> b1) p n"
    "\<And>j. j < length xs \<Longrightarrow> slice_at (\<pi> b') (lo + (i + 1 + j) * sz) (length (code (i + 1 + j) (xs ! j))) = Some (code (i + 1 + j) (xs ! j))"
    using Cons.IH [OF r] Cons.prems(2) by auto
  have low: "slice_at (\<pi> b') p n = slice_at (\<pi> b) p n" if "p + n \<le> lo + i * sz" for p n
    using IH(2) [of p n] copy_then_slice_apart [OF c(2), of p n] that by simp
  have own: "slice_at (\<pi> b') (lo + i * sz) (length (code i x)) = Some (code i x)"
    using IH(2) [of "lo + i * sz" "length (code i x)"] copy_then_slice [OF c(2)] c(1) by simp
  have all: "slice_at (\<pi> b') (lo + (i + j) * sz) (length (code (i + j) ((x # xs) ! j))) = Some (code (i + j) ((x # xs) ! j))"
    if "j < length (x # xs)" for j
  proof (cases j)
    case 0
    then show ?thesis using own by simp
  next
    case (Suc k)
    then show ?thesis using IH(3) [of k] that by simp
  qed
  show ?case using IH(1) copy_at_length [OF c(2)] by (intro conjI allI impI low all) simp_all
qed

lemma for_each_entries:
  assumes step: "\<And>i x b b'. i < length xs \<Longrightarrow> g i x b = Some b' \<Longrightarrow> code i x \<noteq> [] \<and> 4 * length (code i x) \<le> sz \<and> put_insns (lo + i * sz) (code i x) (\<pi> b) = Some (\<pi> b')"
    and run: "for_each g 0 xs b = Some b'"
  shows "length (\<pi> b') = length (\<pi> b)" "p + n \<le> lo \<Longrightarrow> slice_at (\<pi> b') p n = slice_at (\<pi> b) p n"
    "j < length xs \<Longrightarrow> slice_at (\<pi> b') (lo + j * sz) (4 * length (code j (xs ! j))) = Some (concat (map (le_bytes 4) (code j (xs ! j))))"
proof -
  have s: "length (concat (map (le_bytes 4) (code i x))) \<le> sz \<and> copy_at (\<pi> b) (lo + i * sz) (concat (map (le_bytes 4) (code i x))) = Some (\<pi> b')"
    if "i < length xs" "g i x b = Some b'" for i x b b'
    using step [OF that] put_insns_Nil_or by (auto intro!: put_insns_copy)
  note f = for_each_copies [of "length xs" g "\<lambda>i x. concat (map (le_bytes 4) (code i x))" sz \<pi> lo, OF s run]
  show "length (\<pi> b') = length (\<pi> b)" "p + n \<le> lo \<Longrightarrow> slice_at (\<pi> b') p n = slice_at (\<pi> b) p n"
    "j < length xs \<Longrightarrow> slice_at (\<pi> b') (lo + j * sz) (4 * length (code j (xs ! j))) = Some (concat (map (le_bytes 4) (code j (xs ! j))))"
    using f by simp_all
qed

subsection \<open>Stubs and thunks\<close>

lemma const_regs:
  "(0x90000010 :: u32) = 0x90000000 OR (16 AND 0x1f)" "(0x90000011 :: u32) = 0x90000000 OR (17 AND 0x1f)"
  "(0x90000001 :: u32) = 0x90000000 OR (1 AND 0x1f)"
  "(0xf9400210 :: u32) = 0xf9400000 OR push_bit 5 (16 AND 0x1f) OR (16 AND 0x1f)"
  "(0xf9400021 :: u32) = 0xf9400000 OR push_bit 5 (1 AND 0x1f) OR (1 AND 0x1f)"
  "(0x91000210 :: u32) = 0x91000000 OR push_bit 5 (16 AND 0x1f) OR (16 AND 0x1f)"
  "(0x91000231 :: u32) = 0x91000000 OR push_bit 5 (17 AND 0x1f) OR (17 AND 0x1f)"
  by (simp_all add: push_bit_eq_mult)

lemma step_adrp16: "adrp_reaches t pc \<Longrightarrow> step pc (0x90000010 OR page_offset t pc) s = Some (pc + 4, set_z 16 (page t) s)"
proof -
  assume "adrp_reaches t pc"
  then have "step pc (0x90000000 OR (16 AND 0x1f) OR page_offset t pc) s = Some (pc + 4, set_z 16 (page t) s)"
    using step_adrp_word [of t pc 16 s] by simp
  then show ?thesis unfolding const_regs or.assoc .
qed

lemma step_ldr16:
  "t mod 8 = 0 \<Longrightarrow> step pc (0xf9400210 OR push_bit 10 (ucast (bits t 11 3))) s =
     Some (pc + 4, set_z 16 (load_mem 8 (mx s 16 + (t AND 0xfff)) s) s)"
proof -
  assume t: "t mod 8 = 0"
  have "step pc (0xf9400000 OR push_bit 5 (16 AND 0x1f) OR (16 AND 0x1f) OR push_bit 10 (take_bit 12 (ucast (bits t 11 3)))) s =
      Some (pc + 4, set_z 16 (load_mem 8 (mx s 16 + (t AND 0xfff)) s) s)"
    unfolding step_ldr_word page_offset_8 [OF t] by (simp add: get_sp_def)
  then show ?thesis unfolding const_regs imm_12(3) [of t, symmetric] by (simp only: or.assoc)
qed

lemma step_add16:
  "step pc (0x91000210 OR push_bit 10 (ucast (bits t 11 0))) s = Some (pc + 4, set_z 16 (mx s 16 + (t AND 0xfff)) s)"
proof -
  have "step pc (0x91000000 OR push_bit 5 (16 AND 0x1f) OR (16 AND 0x1f) OR push_bit 10 (take_bit 12 (ucast t))) s =
      Some (pc + 4, set_z 16 (mx s 16 + (t AND 0xfff)) s)"
    unfolding step_add_word page_offset_1 by (simp add: get_sp_def set_sp_def set_z_def)
  then show ?thesis unfolding const_regs imm_12(2) by (simp only: or.assoc)
qed

lemma set_z_twice [simp]: "set_z r v (set_z r w s) = set_z r v s"
  by (simp add: set_z_def)

lemma mx_set_z [simp]: "r \<noteq> 31 \<Longrightarrow> mx (set_z r v s) q = (if q = r then v else mx s q)"
  by (simp add: set_z_def)

lemma run_thunk_entry:
  assumes "code_at pc (thunk_entry pc t) s" "adrp_reaches t pc"
  shows "run 3 pc s = Some (t, set_z 16 t s)"
proof -
  have "load_mem 4 pc s = 0x90000010 OR page_offset t pc" "load_mem 4 (pc + 4) s = (0x91000210 OR push_bit 10 (ucast (bits t 11 0)) :: u32)"
    "load_mem 4 (pc + 4 + 4) s = (0xd61f0200 :: u32)"
    using assms(1) unfolding thunk_entry_def code_at_Cons by blast+
  then show ?thesis
    by (simp only: numeral_3_eq_3 run.simps step_adrp16 [OF assms(2)] bind.simps prod.case load_mem_set step_add16 step_br16)
      (simp add: page_plus)
qed

end
