(* ===== verification/LazyBinding.thy ===== *)
theory LazyBinding
  imports StubsCode
begin

unbundle bit_operations_syntax

section \<open>Calls through the linker's own code\<close>

text \<open>
  Range-extension thunks and lazily bound stubs, as written into the output by \<open>Stubs\<close>, run on the
  machine of \<open>Arm64Machine\<close>: where a call through them arrives and what it leaves in the registers
  and on the stack.
\<close>

declare One_nat_def [simp del]

subsection \<open>Sequences\<close>

lemma run_steps:
  "run 1 = run (Suc 0)" "run 2 = run (Suc (Suc 0))" "run 3 = run (Suc (Suc (Suc 0)))"
  "run 6 = run (Suc (Suc (Suc (Suc (Suc (Suc 0))))))"
  by (simp_all add: eval_nat_numeral One_nat_def)

lemma run_branch_slot:
  assumes "code_at pc [0x90000010 OR page_offset t pc, 0xf9400210 OR push_bit 10 (ucast (bits t 11 3)), 0xd61f0200] s"
    and "adrp_reaches t pc" and t: "t mod 8 = 0"
  shows "run 3 pc s = Some (load_mem 8 t s, set_z 16 (load_mem 8 t s) s)"
proof -
  have "load_mem 4 pc s = 0x90000010 OR page_offset t pc" "load_mem 4 (pc + 4) s = (0xf9400210 OR push_bit 10 (ucast (bits t 11 3)) :: u32)"
    "load_mem 4 (pc + 4 + 4) s = (0xd61f0200 :: u32)"
    using assms(1) unfolding code_at_Cons by blast+
  then show ?thesis
    by (simp only: run_steps run.simps step_adrp16 [OF assms(2)] bind.simps prod.case load_mem_set step_ldr16 [OF t] step_br16)
      (simp add: page_plus)
qed

text \<open>An entry of the stub helper: its third word in \<^verbatim>\<open>w16\<close>, then the header.\<close>

lemma bit_from_le: "bit (from_le bs :: 'a::len word) i \<longleftrightarrow> i < LENGTH('a) \<and> i div 8 < length bs \<and> bit (bs ! (i div 8)) (i mod 8)"
proof (induction bs arbitrary: i)
  case (Cons b bs)
  show ?case
  proof (cases "i < 8")
    case True
    then show ?thesis using bit_imp_le_length [of b i] by (auto simp: bit_simps)
  next
    case False
    then obtain k where "i = 8 + k" using le_Suc_ex [of 8 i] by auto
    then show ?thesis using Cons [of k] bit_imp_le_length [of b "8 + k"] by (auto simp: bit_simps div_add_self1)
  qed
qed simp

lemma load_word: "load_mem 4 a s = (w :: u32) \<Longrightarrow> (load_mem 4 a s :: u64) = ucast w"
proof -
  have "(from_le bs :: u64) = ucast (from_le bs :: u32)" if "length bs \<le> 4" for bs
    by (rule bit_word_eqI) (use that in \<open>auto simp: bit_from_le bit_ucast_iff\<close>)
  then show "load_mem 4 a s = w \<Longrightarrow> (load_mem 4 a s :: u64) = ucast w" by (simp add: load_mem_def)
qed

lemma step_literal: "step pc 0x18000050 s = Some (pc + 4, set_z 16 (load_mem 4 (pc + 8) s) s)"
  by (subst literal_class)
    (simp_all add: fld_def sext_def literal_access_def access_def take_bit_eq_mod drop_bit_eq_div signed_take_bit_def push_bit_eq_mult)

lemma run_helper_entry:
  assumes c: "code_at pc (stub_helper_entry helper pc off) s" and near: "branch_near helper (pc + 4)"
  shows "run 2 pc s = Some (helper, set_z 16 (ucast off) s)"
proof -
  have w: "load_mem 4 pc s = (0x18000050 :: u32)"
    "load_mem 4 (pc + 4) s = (0x14000000 OR (ucast (signed_drop_bit 2 (helper - (pc + 4))) AND 0x03ffffff) :: u32)"
    "load_mem 4 (pc + 8) s = off"
    using c unfolding stub_helper_entry_def code_at_Cons by (simp_all add: add.assoc)
  have "take_bit 26 (ucast (signed_drop_bit 2 (helper - (pc + 4))) :: u32) = take_bit 26 (ucast (drop_bit 2 (helper - (pc + 4))))"
    by (rule bit_word_eqI) (auto simp: bit_simps)
  then have e: "(ucast (signed_drop_bit 2 (helper - (pc + 4))) AND 0x03ffffff :: u32) = ucast (drop_bit 2 (helper - (pc + 4))) AND 0x03ffffff"
    by (simp add: take_bit_eq_mask mask_eq_exp_minus_1)
  show ?thesis
    by (simp only: run_steps run.simps w e step_literal bind.simps prod.case load_mem_set step_b_word [OF near] load_word [OF w(3)])
qed

text \<open>Stores do not reach other addresses.\<close>

lemma mm_store:
  "mm (store_mem n a v s) x = (if \<exists>i < n. x = a + of_nat i then mm (store_mem n a v s) x else mm s x)"
proof -
  have "fold (\<lambda>i m. m(a + of_nat i := f i)) is m x = m x" if "\<forall>i \<in> set is. x \<noteq> a + of_nat i" for f "is" m
    using that by (induction "is" arbitrary: m) auto
  from this [of "[0..<n]"] show ?thesis by (auto simp: store_mem_def)
qed

lemma load_store_apart:
  assumes "\<And>i j. i < m \<Longrightarrow> j < n \<Longrightarrow> b + of_nat i \<noteq> a + of_nat j"
  shows "load_mem m b (store_mem n a v s) = load_mem m b s"
proof -
  have "mm (store_mem n a v s) (b + of_nat i) = mm s (b + of_nat i)" if "i < m" for i
    by (subst mm_store) (use assms [OF that] in auto)
  then show ?thesis unfolding load_mem_def by (intro arg_cong [where f = from_le] map_cong) simp_all
qed

lemma nth_le_bytes: "i < n \<Longrightarrow> le_bytes n w ! i = ucast (drop_bit (8 * i) w)"
  by (induction n arbitrary: w i) (auto simp: nth_Cons drop_bit_drop_bit add.commute split: nat.split)

lemma load_store_same: "load_mem 8 a (store_mem 8 a v s) = (v :: u64)"
proof -
  have ne: "a + of_nat i \<noteq> a + of_nat j" if "i < 8" "j < 8" "i \<noteq> j" for i j :: nat
    using that by (simp add: word_of_nat_eq_iff take_bit_nat_eq_self)
  have "mm (store_mem 8 a v s) (a + of_nat i) = ucast (drop_bit (8 * i) v)" if "i < 8" for i
  proof -
    have "fold (\<lambda>i m. m(a + of_nat i := f i)) xs m (a + of_nat i) = f i" if "i \<in> set xs" "\<forall>j \<in> set xs. j < 8" for f xs m
      using that
    proof (induction xs rule: rev_induct)
      case (snoc j xs)
      then show ?case using ne [of i j] \<open>i < 8\<close> by (cases "i = j") auto
    qed simp
    from this [of "[0..<8]"] show ?thesis using that by (auto simp: store_mem_def)
  qed
  then have "map (\<lambda>i. mm (store_mem 8 a v s) (a + of_nat i)) [0..<8] = le_bytes 8 v"
    by (intro nth_equalityI) (simp_all add: nth_le_bytes)
  then show ?thesis by (simp add: load_mem_def)
qed

subsection \<open>The header of the stub helper\<close>

lemma step_adrp17: "adrp_reaches t pc \<Longrightarrow> step pc (0x90000011 OR page_offset t pc) s = Some (pc + 4, set_z 17 (page t) s)"
proof -
  assume "adrp_reaches t pc"
  then have "step pc (0x90000000 OR (17 AND 0x1f) OR page_offset t pc) s = Some (pc + 4, set_z 17 (page t) s)"
    using step_adrp_word [of t pc 17 s] by simp
  then show ?thesis unfolding const_regs or.assoc .
qed

lemma step_add17:
  "step pc (0x91000231 OR push_bit 10 (ucast t AND 0xfff)) s = Some (pc + 4, set_z 17 (mx s 17 + (t AND 0xfff)) s)"
proof -
  have "step pc (0x91000000 OR push_bit 5 (17 AND 0x1f) OR (17 AND 0x1f) OR push_bit 10 (take_bit 12 (ucast t))) s =
      Some (pc + 4, set_z 17 (mx s 17 + (t AND 0xfff)) s)"
    unfolding step_add_word page_offset_1 by (simp add: get_sp_def set_sp_def set_z_def)
  then show ?thesis unfolding const_regs imm_12(1) by (simp only: or.assoc)
qed

definition pushed :: "mach \<Rightarrow> mach" where
  "pushed s = (store_mem 8 (msp s - 8) (mx s 17) (store_mem 8 (msp s - 16) (mx s 16) s))\<lparr>msp := msp s - 16\<rparr>"

lemma step_push: "step pc 0xa9bf47f0 s = Some (pc + 4, pushed s)"
proof -
  have m: "fld 5 5 0xa9bf47f0 = 31" "fld 10 5 0xa9bf47f0 = 17" "fld 0 5 0xa9bf47f0 = 16" "push_bit 3 (sext 7 (fld 15 7 0xa9bf47f0)) = - 16"
    by code_simp+
  show ?thesis
    by (simp add: step_def NOP_INSN_def m get_sp_def get_z_def set_sp_def pushed_def Let_def)
qed

text \<open>Memory the push does not write.\<close>

definition off_stack :: "u64 \<Rightarrow> nat \<Rightarrow> u64 \<Rightarrow> bool" where
  "off_stack a n sp \<longleftrightarrow> (\<forall>i < n. \<forall>j < 16. a + of_nat i \<noteq> sp - 16 + of_nat j)"

lemma load_pushed:
  assumes "off_stack a n (msp s)"
  shows "load_mem n a (pushed s) = load_mem n a s"
proof -
  have ne: "a + of_nat i \<noteq> msp s - 16 + of_nat j" if "i < n" "j < 16" for i j using assms that by (auto simp: off_stack_def)
  have 1: "a + of_nat i \<noteq> msp s - 16 + of_nat j" if "i < n" "j < 8" for i j using ne [of i j] that by simp
  have 2: "a + of_nat i \<noteq> msp s - 8 + of_nat j" if "i < n" "j < 8" for i j using ne [of i "8 + j"] that by (simp add: algebra_simps)
  have "load_mem n a (pushed s) = load_mem n a (store_mem 8 (msp s - 8) (mx s 17) (store_mem 8 (msp s - 16) (mx s 16) s))"
    by (rule load_mem_mm) (simp add: pushed_def)
  also have "\<dots> = load_mem n a s"
    by (subst load_store_apart [OF 2], assumption, assumption, subst load_store_apart [OF 1], assumption, assumption, rule refl)
  finally show ?thesis .
qed

lemma pushed_stack: "load_mem 8 (msp s - 16) (pushed s) = mx s 16" "load_mem 8 (msp s - 8) (pushed s) = mx s 17"
proof -
  have m: "load_mem 8 a (pushed s) = load_mem 8 a (store_mem 8 (msp s - 8) (mx s 17) (store_mem 8 (msp s - 16) (mx s 16) s))" for a
    by (rule load_mem_mm) (simp add: pushed_def)
  have "msp s - 16 + of_nat i \<noteq> msp s - 8 + of_nat j" if "i < 8" "j < 8" for i j
  proof
    assume "msp s - 16 + of_nat i = msp s - 8 + of_nat j"
    then have "(of_nat i :: u64) = of_nat (8 + j)" by (simp add: algebra_simps)
    then show False using that by (simp add: word_of_nat_eq_iff take_bit_nat_eq_self del: of_nat_add)
  qed
  then show "load_mem 8 (msp s - 16) (pushed s) = mx s 16" unfolding m by (subst load_store_apart) (simp_all add: load_store_same)
  show "load_mem 8 (msp s - 8) (pushed s) = mx s 17" unfolding m by (rule load_store_same)
qed

lemma run_helper_header:
  assumes c: "code_at helper (stub_helper_header pvt bslot helper) s"
    and reach: "adrp_reaches pvt helper" "adrp_reaches bslot (helper + 12)" and b: "bslot mod 8 = 0"
    and stack: "off_stack helper 24 (msp s)" "off_stack bslot 8 (msp s)"
  shows "run 6 helper s = Some (load_mem 8 bslot s, set_z 16 (load_mem 8 bslot s) (pushed (set_z 17 pvt s)))"
proof -
  have p: "helper + 4 + 4 + 4 = helper + 12" by simp
  have w: "load_mem 4 helper s = 0x90000011 OR page_offset pvt helper"
    "load_mem 4 (helper + 4) s = 0x91000231 OR push_bit 10 (ucast pvt AND 0xfff :: u32)"
    "load_mem 4 (helper + 4 + 4) s = (0xa9bf47f0 :: u32)"
    and w': "code_at (helper + 12) [0x90000010 OR page_offset bslot (helper + 12), 0xf9400210 OR push_bit 10 (ucast (bits bslot 11 3)), 0xd61f0200] s"
    using c unfolding stub_helper_header_def code_at_Cons p by blast+
  let ?s = "set_z 17 pvt s"
  have ms: "msp ?s = msp s" by (simp add: set_z_def)
  have sub: "off_stack (helper + 12 + 4 * of_nat i) 4 (msp ?s)" if "i < 3" for i
    unfolding off_stack_def ms
  proof (intro allI impI)
    fix k j :: nat assume "k < 4" "j < 16"
    then show "helper + 12 + 4 * of_nat i + of_nat k \<noteq> msp s - 16 + of_nat j"
      using stack(1) [unfolded off_stack_def, rule_format, of "12 + 4 * i + k" j] that by (simp add: add_ac mult.commute)
  qed
  have "code_at (helper + 12) [0x90000010 OR page_offset bslot (helper + 12), 0xf9400210 OR push_bit 10 (ucast (bits bslot 11 3)), 0xd61f0200] (pushed ?s)"
    using w' unfolding code_at_def by (auto simp: load_pushed [OF sub] load_mem_set)
  note rest = run_branch_slot [OF this reach(2) b]
  have slot: "(load_mem 8 bslot (pushed ?s) :: u64) = load_mem 8 bslot s"
    by (simp add: load_pushed ms stack(2))
  have "run (3 + 3) helper s = run 3 (helper + 12) (pushed ?s)"
    unfolding run_add
    by (simp only: run_steps run.simps w step_adrp17 [OF reach(1)] bind.simps prod.case load_mem_set step_add17 step_push p mx_set_z [of 17])
       (simp add: page_plus)
  then show ?thesis using rest slot by simp
qed

subsection \<open>The chunks as written\<close>

lemma thunk_written:
  assumes w: "write_thunk ctx addr syms buf = Some buf'" and m: "holds_bytes addr buf' s" and i: "i < length syms"
    and sy: "kc_symbol ctx (syms ! i) = Some sy" and t: "branch_target_addr (kc_link ctx) sy = Some t"
  shows "code_at (addr + of_nat i * 12) (thunk_entry (addr + of_nat i * 12) t) s"
proof -
  define code where "code i sid = (case Option.bind (kc_symbol ctx sid) (branch_target_addr (kc_link ctx)) of
      Some t \<Rightarrow> thunk_entry (addr + of_nat i * 12) t | None \<Rightarrow> [])" for i :: nat and sid
  have "slice_at buf' (0 + i * 12) (4 * length (code i (syms ! i))) = Some (concat (map (le_bytes 4) (code i (syms ! i))))"
    by (rule for_each_entries(3) [OF _ w [unfolded write_thunk_def] i, where \<pi> = "\<lambda>b. b", of code 12 0])
       (auto simp: code_def thunk_entry_def split: bind_splits)
  moreover have "code i (syms ! i) = thunk_entry (addr + of_nat i * 12) t" by (simp add: code_def sy t)
  ultimately show ?thesis using code_at_bytes [OF m, of "i * 12"] by simp
qed

lemma stub_offset:
  assumes "kc_arch ctx = arch_arm64" "i < 2 ^ 32"
  shows "stub_entry_offset (kc_link ctx) (of_nat i) = of_nat i * 12" "unat (of_nat i * 12 :: u64) = i * 12"
proof -
  have u: "ucast (of_nat i :: u32) = (of_nat i :: u64)" using assms(2) by (simp add: unsigned_of_nat take_bit_nat_eq_self)
  show o: "stub_entry_offset (kc_link ctx) (of_nat i) = of_nat i * 12"
    using assms(1) by (simp add: stub_entry_offset_def kc_arch_def arch_arm64_def u)
  have "(of_nat i * 12 :: u64) = of_nat (i * 12)" by simp
  then show "unat (of_nat i * 12 :: u64) = i * 12"
    using assms(2) by (simp only: unat_of_nat) (simp add: take_bit_nat_eq_self)
qed

lemma for_each_flag:
  assumes "for_each (\<lambda>i x (buf, err). do { (off, code, ok) \<leftarrow> f i x; buf \<leftarrow> h off code buf; Some (buf, err \<or> \<not> ok) }) k xs (buf, err) = Some (buf', False)"
  shows "\<not> err \<and> (\<forall>j < length xs. \<exists>off code. f (k + j) (xs ! j) = Some (off, code, True))"
  using assms
proof (induction xs arbitrary: k buf err)
  case (Cons x xs)
  from Cons.prems obtain off code ok b where f: "f k x = Some (off, code, ok)" and
    r: "for_each (\<lambda>i x (buf, err). do { (off, code, ok) \<leftarrow> f i x; buf \<leftarrow> h off code buf; Some (buf, err \<or> \<not> ok) }) (k + 1) xs (b, err \<or> \<not> ok) = Some (buf', False)"
    by (auto split: bind_splits prod.splits)
  have "\<exists>off code. f (k + j) ((x # xs) ! j) = Some (off, code, True)" if "j < length (x # xs)" for j
    using Cons.IH [OF r] f that by (cases j) (auto simp: add.assoc One_nat_def)
  then show ?case using Cons.IH [OF r] by auto
qed simp

lemma stub_written:
  assumes w: "write_stubs ctx addr buf = Some (buf', False)" and m: "holds_bytes addr buf' s" and i: "i < length (kc_stub_syms ctx)"
    and a: "kc_arch ctx = arch_arm64" and len: "length (kc_stub_syms ctx) \<le> 2 ^ 32"
    and sy: "kc_symbol ctx (kc_stub_syms ctx ! i) = Some sy" and t: "stub_ptr_addr (kc_link ctx) sy (of_nat i) = Some ptr"
  shows "code_at (addr + of_nat i * 12)
      [0x90000010 OR page_offset ptr (addr + of_nat i * 12), 0xf9400210 OR push_bit 10 (ucast (bits ptr 11 3)), 0xd61f0200] s"
    "adrp_reaches ptr (addr + of_nat i * 12)"
proof -
  have i32: "j < 2 ^ 32" if "j < length (kc_stub_syms ctx)" for j using that len by simp
  define code where "code i sid = (case stub_code ctx addr i sid of Some (_, c, _) \<Rightarrow> c | None \<Rightarrow> [])" for i sid
  have "slice_at (fst (buf', False)) (0 + i * 12) (4 * length (code i (kc_stub_syms ctx ! i))) = Some (concat (map (le_bytes 4) (code i (kc_stub_syms ctx ! i))))"
    by (rule for_each_entries(3) [OF _ w [unfolded write_stubs_def] i, where \<pi> = fst, of code 12 0])
       (auto simp: code_def stub_code_def Let_def stub_offset [OF a i32] split: bind_splits)
  moreover have "stub_code ctx addr i (kc_stub_syms ctx ! i) = Some (i * 12,
      [0x90000010 OR page_offset ptr (addr + of_nat i * 12), 0xf9400210 OR push_bit 10 (ucast (bits ptr 11 3)), 0xd61f0200],
      adrp_reaches ptr (addr + of_nat i * 12))"
    using sy t by (simp add: stub_code_def Let_def stub_offset [OF a i32 [OF i]])
  moreover from this have "adrp_reaches ptr (addr + of_nat i * 12)"
    using for_each_flag [OF w [unfolded write_stubs_def]] i by auto
  ultimately show "code_at (addr + of_nat i * 12)
      [0x90000010 OR page_offset ptr (addr + of_nat i * 12), 0xf9400210 OR push_bit 10 (ucast (bits ptr 11 3)), 0xd61f0200] s"
    "adrp_reaches ptr (addr + of_nat i * 12)"
    using code_at_bytes [OF m, of "i * 12"] by (simp_all add: code_def)
qed

lemma lazy_ptr_written:
  assumes w: "lazy_ptrs_copy_buf ctx buf = Some buf'" and m: "holds_bytes (ch_addr (kc_hdr ctx ChLazyPtrs)) buf' s"
    and k: "k < length (lk_stubs_lazy (kc_link ctx))"
  shows "load_mem 8 (lazy_ptr_slot_addr (kc_link ctx) k) s = ch_addr (kc_hdr ctx ChStubHelper) + helper_entry_offset ctx (of_nat k)"
proof -
  let ?v = "\<lambda>i. le_bytes 8 (ch_addr (kc_hdr ctx ChStubHelper) + helper_entry_offset ctx (of_nat i))"
  have "\<forall>j < length (lk_stubs_lazy (kc_link ctx)). slice_at buf' (0 + (0 + j) * 8) (length (?v (0 + j))) = Some (?v (0 + j))"
    using for_each_copies [OF _ w [unfolded lazy_ptrs_copy_buf_def Let_def], where \<pi> = "\<lambda>b. b" and lo = 0 and sz = 8 and code = "\<lambda>i _. ?v i"
        and top' = "length (lk_stubs_lazy (kc_link ctx))"] by simp
  then have "slice_at buf' (k * 8) 8 = Some (?v k)" using k by simp
  from load_mem_bytes [OF m this]
  have "(load_mem 8 (ch_addr (kc_hdr ctx ChLazyPtrs) + of_nat (k * 8)) s :: u64) = from_le (?v k)" .
  then show ?thesis by (simp add: lazy_ptr_slot_addr_def kc_hdr_def)
qed

lemma helper_offset:
  assumes "kc_arch ctx = arch_arm64" "\<not> la_legacy_linkedit (kc_args ctx)" "i < 2 ^ 32"
  shows "helper_entry_offset ctx (of_nat i) = of_nat (24 + i * 12)" "unat (helper_entry_offset ctx (of_nat i)) = 24 + i * 12"
proof -
  have u: "ucast (of_nat i :: u32) = (of_nat i :: u64)" using assms(3) by (simp add: unsigned_of_nat take_bit_nat_eq_self)
  show o: "helper_entry_offset ctx (of_nat i) = of_nat (24 + i * 12)"
    using assms(1,2) by (simp add: helper_entry_offset_def header_size_def arch_arm64_def u)
  show "unat (helper_entry_offset ctx (of_nat i)) = 24 + i * 12"
    unfolding o using assms(3) by (simp only: unat_of_nat) (simp add: take_bit_nat_eq_self)
qed

lemma helper_written:
  assumes w: "write_stub_helper ctx addr buf = Some buf'" and m: "holds_bytes addr buf' s"
    and a: "kc_arch ctx = arch_arm64" "\<not> la_legacy_linkedit (kc_args ctx)"
    and len: "length (lk_stubs_lazy (kc_link ctx)) \<le> 2 ^ 32" and k: "k < length (lk_stubs_lazy (kc_link ctx))"
    and priv: "kc_isec_addr ctx (kc_dyld_private_isec ctx) = Some pvt"
    and bslot: "Option.bind (kc_stub_binder ctx) (kc_got_addr ctx) = Some bslot"
  shows "code_at addr (stub_helper_header pvt bslot addr) s"
    "code_at (addr + of_nat (24 + k * 12)) (stub_helper_entry addr (addr + of_nat (24 + k * 12)) (kc_lazy_offsets ctx ! k)) s"
    "24 \<le> length buf'"
proof -
  have hl: "length (stub_helper_header pvt bslot addr) = 6" by (simp add: stub_helper_header_def)
  let ?g = "\<lambda>i lazy_off buf. let off = helper_entry_offset ctx (of_nat i)
     in put_insns (unat off) (stub_helper_entry addr (addr + off) lazy_off) buf"
  obtain b1 offsets where h: "put_insns 0 (stub_helper_header pvt bslot addr) buf = Some b1"
    and o: "slice_at (kc_lazy_offsets ctx) 0 (length (lk_stubs_lazy (kc_link ctx))) = Some offsets"
    and r: "for_each ?g 0 offsets b1 = Some buf'"
    using w by (auto simp: write_stub_helper_def priv bslot split: bind_splits)
  have off: "offsets = take (length (lk_stubs_lazy (kc_link ctx))) (kc_lazy_offsets ctx)" "length offsets = length (lk_stubs_lazy (kc_link ctx))"
    using o slice_at_length [OF o] by (auto simp: slice_at_def split: if_splits)
  have i32: "j < 2 ^ 32" if "j < length offsets" for j using that len off by simp
  have k': "k < length offsets" using k unfolding off(2) .
  define code where "code i = stub_helper_entry addr (addr + of_nat (24 + i * 12))" for i
  have step: "code i x \<noteq> [] \<and> 4 * length (code i x) \<le> 12 \<and> put_insns (24 + i * 12) (code i x) b = Some b'"
    if "i < length offsets" "?g i x b = Some b'" for i x b b'
    using that(2) helper_offset [OF a i32 [OF that(1)]] by (simp add: code_def stub_helper_entry_def)
  note e = for_each_entries [where \<pi> = "\<lambda>b. b" and code = code and sz = 12 and lo = 24, OF step r]
  have "slice_at b1 0 (4 * 6) = Some (concat (map (le_bytes 4) (stub_helper_header pvt bslot addr)))"
    using put_insns_ok(2) [OF h] hl by (auto simp: stub_helper_header_def)
  then have s0: "slice_at buf' 0 (4 * 6) = Some (concat (map (le_bytes 4) (stub_helper_header pvt bslot addr)))"
    using e(2) [where p = 0 and n = 24] by simp
  then show "code_at addr (stub_helper_header pvt bslot addr) s"
    using code_at_bytes [OF m, of 0 "stub_helper_header pvt bslot addr"] hl by simp
  show "24 \<le> length buf'" using s0 by (auto simp: slice_at_def split: if_splits)
  have "slice_at buf' (24 + k * 12) (4 * length (code k (offsets ! k))) = Some (concat (map (le_bytes 4) (code k (offsets ! k))))"
    using e(3) [where j = k] k' by blast
  from code_at_bytes [OF m this]
  show "code_at (addr + of_nat (24 + k * 12)) (stub_helper_entry addr (addr + of_nat (24 + k * 12)) (kc_lazy_offsets ctx ! k)) s"
    using k off by (simp add: code_def del: of_nat_add of_nat_mult)
qed

text \<open>Where the pieces are apart.\<close>

lemma lazy_slot_aligned: "a mod 8 = 0 \<Longrightarrow> (a + of_nat k * 8 :: u64) mod 8 = 0"
proof -
  have m: "(x :: u64) mod 8 = take_bit 3 x" for x by (simp add: take_bit_eq_mod)
  assume "a mod 8 = 0"
  then have "a = push_bit 3 (drop_bit 3 a)" using bits_ident [of 3 a] unfolding m by simp
  then have "a + of_nat k * 8 = push_bit 3 (drop_bit 3 a + of_nat k)"
    by (simp add: push_bit_add) (simp add: push_bit_eq_mult)
  then show ?thesis unfolding m by (simp add: take_bit_push_bit)
qed

lemma entry_near: "24 + 12 * Suc k \<le> 2 ^ 27 \<Longrightarrow> branch_near addr (addr + of_nat (24 + k * 12) + 4)"
proof -
  assume k: "24 + 12 * Suc k \<le> 2 ^ 27"
  have d: "addr - (addr + of_nat (24 + k * 12) + 4) = - of_nat (28 + 12 * k)" by simp
  have p: "- of_nat (28 + 12 * k) = push_bit 2 (- of_nat (7 + 3 * k) :: u64)" by (simp add: push_bit_eq_mult)
  have "take_bit 2 (push_bit 2 (- of_nat (7 + 3 * k) :: u64)) = 0" by (simp add: take_bit_push_bit)
  then have "(- of_nat (28 + 12 * k) :: u64) mod 4 = 0" unfolding p by (simp add: take_bit_eq_mod)
  moreover have "sint (- of_nat (28 + 12 * k) :: u64) = - int (28 + 12 * k)"
  proof -
    have "(- of_nat (28 + 12 * k) :: u64) = of_int (- int (28 + 12 * k))" by simp
    moreover have "sint (of_int (- int (28 + 12 * k)) :: u64) = - int (28 + 12 * k)"
      unfolding signed_of_int using k by (subst signed_take_bit_int_eq_self) simp_all
    ultimately show ?thesis by simp
  qed
  ultimately show ?thesis using k unfolding branch_near_def d by simp
qed

subsection \<open>The call\<close>

text \<open>C32. Every entry of a range-extension thunk, run from the bytes \<open>write_thunk\<close> leaves, jumps to the
  branch target of its symbol in three instructions and changes nothing but x16.\<close>

theorem thunk_jumps:
  assumes "write_thunk ctx addr syms buf = Some buf'" and "holds_bytes addr buf' s" and "i < length syms"
    and "kc_symbol ctx (syms ! i) = Some sy" and "branch_target_addr (kc_link ctx) sy = Some t"
    and "adrp_reaches t (addr + of_nat i * 12)"
  shows "run 3 (addr + of_nat i * 12) s = Some (t, set_z 16 t s)"
  using run_thunk_entry [OF thunk_written [OF assms(1-5)] assms(6)] .

text \<open>C40. A lazily bound call. From the stubs, the lazy pointers and the stub helper as written, a call of
  stub \<open>i\<close> whose pointer dyld has not bound yet goes through its lazy pointer to its entry of the stub
  helper and on through the header to whatever dyld put into the binder's slot of the global offset
  table: in eleven instructions, with the lazy-bind offset of this import and the address of
  \<^verbatim>\<open>__dyld_private\<close> pushed on the stack, where \<^verbatim>\<open>dyld_stub_binder\<close> takes them from, and every
  register other than x16 and x17 as the caller left it.\<close>

theorem lazy_call_binds:
  assumes "write_stubs ctx stubs sbuf = Some (sbuf', False)" and "lazy_ptrs_copy_buf ctx pbuf = Some pbuf'"
    and "write_stub_helper ctx helper hbuf = Some hbuf'" and "helper = ch_addr (kc_hdr ctx ChStubHelper)"
    and "holds_bytes stubs sbuf' s" and "holds_bytes (ch_addr (kc_hdr ctx ChLazyPtrs)) pbuf' s" and "holds_bytes helper hbuf' s"
    and "kc_arch ctx = arch_arm64" and "\<not> la_legacy_linkedit (kc_args ctx)"
    and "length (kc_stub_syms ctx) \<le> 2 ^ 32" and "24 + 12 * length (lk_stubs_lazy (kc_link ctx)) \<le> 2 ^ 27"
    and "i < length (kc_stub_syms ctx)" and "k < length (lk_stubs_lazy (kc_link ctx))"
    and "kc_symbol ctx (kc_stub_syms ctx ! i) = Some sy"
    and "stub_ptr_addr (kc_link ctx) sy (of_nat i) = Some (lazy_ptr_slot_addr (kc_link ctx) k)"
    and "kc_isec_addr ctx (kc_dyld_private_isec ctx) = Some pvt" and "Option.bind (kc_stub_binder ctx) (kc_got_addr ctx) = Some bslot"
    and "adrp_reaches pvt helper" and "adrp_reaches bslot (helper + 12)"
    and "ch_addr (kc_hdr ctx ChLazyPtrs) mod 8 = 0" and "bslot mod 8 = 0"
    and "off_stack helper 24 (msp s)" and "off_stack bslot 8 (msp s)"
  shows "\<exists>s'. run 11 (stubs + of_nat i * 12) s = Some (load_mem 8 bslot s, s') \<and>
    msp s' = msp s - 16 \<and> load_mem 8 (msp s') s' = (ucast (kc_lazy_offsets ctx ! k) :: u64) \<and>
    load_mem 8 (msp s' + 8) s' = pvt \<and> (\<forall>r. mx s' r = (if r = 16 \<or> r = 17 then mx s' r else mx s r))"
proof -
  let ?slot = "lazy_ptr_slot_addr (kc_link ctx) k" and ?e = "helper + of_nat (24 + k * 12)"
  let ?s1 = "set_z 16 ?e s" and ?s2 = "set_z 16 (ucast (kc_lazy_offsets ctx ! k)) s"
  have al: "?slot mod 8 = 0" using lazy_slot_aligned [OF assms(20), of k] by (simp add: lazy_ptr_slot_addr_def kc_hdr_def)
  have k32: "k < 2 ^ 32" and len: "length (lk_stubs_lazy (kc_link ctx)) \<le> 2 ^ 32" and near: "24 + 12 * Suc k \<le> 2 ^ 27" using assms(11,13) by simp_all
  have ptr: "load_mem 8 ?slot s = ?e"
    using lazy_ptr_written [OF assms(2,6,13)] helper_offset(1) [OF assms(8,9) k32] assms(4) by simp
  note st = stub_written [OF assms(1,5,12,8,10,14,15)]
  note he = helper_written [OF assms(3,7,8,9) len assms(13,16,17)]
  have 1: "run 3 (stubs + of_nat i * 12) s = Some (?e, ?s1)" using run_branch_slot [OF st al] unfolding ptr .
  have 2: "run 2 ?e ?s1 = Some (helper, ?s2)"
    using run_helper_entry [of ?e helper "kc_lazy_offsets ctx ! k" ?s1] he(2) entry_near [OF near, of helper] unfolding code_at_set set_z_twice by blast
  have ms: "msp ?s2 = msp s" by (simp add: set_z_def)
  let ?s3 = "pushed (set_z 17 pvt ?s2)"
  have 3: "run 6 helper ?s2 = Some (load_mem 8 bslot s, set_z 16 (load_mem 8 bslot s) ?s3)"
    using run_helper_header [of helper pvt bslot ?s2] he(1) assms(18,19,21,22,23) unfolding code_at_set ms load_mem_set by blast
  have "run (3 + (2 + 6)) (stubs + of_nat i * 12) s = Some (load_mem 8 bslot s, set_z 16 (load_mem 8 bslot s) ?s3)"
    by (simp only: run_add 1 2 3 bind.simps prod.case)
  then have "run 11 (stubs + of_nat i * 12) s = Some (load_mem 8 bslot s, set_z 16 (load_mem 8 bslot s) ?s3)" by simp
  moreover have "msp (set_z 16 (load_mem 8 bslot s) ?s3) = msp s - 16" by (simp add: set_z_def pushed_def)
  moreover have "load_mem 8 (msp s - 16) (set_z 16 (load_mem 8 bslot s) ?s3) = (ucast (kc_lazy_offsets ctx ! k) :: u64)"
    "load_mem 8 (msp s - 16 + 8) (set_z 16 (load_mem 8 bslot s) ?s3) = pvt"
    using pushed_stack [of "set_z 17 pvt ?s2"] by (simp_all add: ms) (simp_all add: set_z_def)
  moreover have "mx (set_z 16 (load_mem 8 bslot s) ?s3) r = mx s r" if "r \<noteq> 16" "r \<noteq> 17" for r
    using that by (simp add: set_z_def pushed_def store_mem_def)
  ultimately show ?thesis by metis
qed

subsection \<open>A program with one import\<close>

definition lb_addr :: "chunk_id \<Rightarrow> u64" where
  "lb_addr c = (if c = ChStubs then 0x4000 else if c = ChStubHelper then 0x400c else if c = ChGot then 0x8000
     else if c = ChLazyPtrs then 0x8010 else 0)"

definition lb_link :: link where
  "lb_link = plain_link
     \<lparr>lk_args := plain_args\<lparr>la_lazy_binding := True\<rparr>,
      lk_isecs := [(input_section_new 0 0 3 8 [])\<lparr>is_output_section := 0\<rparr>],
      lk_symbols := \<lparr>st_shards = [],
        st_syms = [(symbol_new (bstr ''_f''))\<lparr>sy_file_word := symbol_file_some (FDylib 0xffffffff), sy_bits := F_EXTERN OR F_IMPORTED, sy_aux_idx := 0\<rparr>,
                   (symbol_new (bstr ''dyld_stub_binder''))\<lparr>sy_file_word := symbol_file_some (FDylib 0xffffffff), sy_bits := F_EXTERN OR F_IMPORTED, sy_aux_idx := 1\<rparr>],
        st_aux = [symbol_aux_default\<lparr>sa_stub_idx := 0\<rparr>, symbol_aux_default\<lparr>sa_got_idx := 0\<rparr>]\<rparr>,
      lk_hdr := (\<lambda>c. (chunk_header_new [] [])\<lparr>ch_addr := lb_addr c\<rparr>),
      lk_output_sections := [\<lparr>ose_hdr = (chunk_header_new (bstr ''__DATA'') (bstr ''__data''))\<lparr>ch_addr := 0x8020\<rparr>, ose_members = [0], ose_thunks = [], ose_tail_off = 0\<rparr>],
      lk_stubs_lazy := [0]\<rparr>"

definition lb_ctx :: code_ctx where
  "lb_ctx =
     \<lparr>kc_link = lb_link, kc_text_exec = False, kc_pie = True, kc_data_const = True, kc_stub_syms = [0], kc_got_syms = [1],
      kc_stand_ins = [], kc_dyld_private_isec = 0, kc_stub_binder = Some 1, kc_lazy_offsets = [0x1c], kc_objc_syms = [],
      kc_extra_selrefs = [], kc_methname_data = [], kc_methname_offs = [], kc_methname = None, kc_selrefs = None, kc_msgsend = None,
      kc_lazy_helpers = [], kc_lazy_sites = (\<lambda>_. None), kc_dyld_lazy_load = None, kc_lazy_got_slots = [], kc_lazy_load_dylibs = [],
      kc_delay_stubs = [], kc_delay_helpers = [], kc_dlopens = [], kc_delay_sites = (\<lambda>_. None), kc_dlopen_sym = None\<rparr>"

fun mem_of :: "(u64 \<times> bytes) list \<Rightarrow> u64 \<Rightarrow> u8" where
  "mem_of [] a = 0"
| "mem_of ((b, bs) # r) a = (if unat (a - b) < length bs then bs ! unat (a - b) else mem_of r a)"

definition lb_stub_bytes :: bytes where
  "lb_stub_bytes = [48, 0, 0, 144, 16, 10, 64, 249, 0, 2, 31, 214]"

definition lb_ptr_bytes :: bytes where
  "lb_ptr_bytes = [36, 64, 0, 0, 0, 0, 0, 0]"

definition lb_helper_bytes :: bytes where
  "lb_helper_bytes = [49, 0, 0, 144, 49, 130, 0, 145, 240, 71, 191, 169, 48, 0, 0, 144, 16, 2, 64, 249, 0, 2, 31, 214, 80, 0, 0, 24, 249, 255, 255, 23, 28, 0, 0, 0]"

definition lb_thunk_bytes :: bytes where
  "lb_thunk_bytes = [208, 255, 255, 144, 16, 2, 0, 145, 0, 2, 31, 214]"

definition lb_mach :: mach where
  "lb_mach = \<lparr>mx = (\<lambda>_. 7), msp = 0x20000, mv = (\<lambda>_. 0),
     mm = mem_of [(0x4000, lb_stub_bytes), (0x400c, lb_helper_bytes), (0x8000, le_bytes 8 (0x180001000 :: u64)),
       (0x8010, lb_ptr_bytes), (0xc000, lb_thunk_bytes)]\<rparr>"

lemma lb_isec: "kc_isec_addr lb_ctx 0 = Some 0x8020"
proof -
  have "isec_output_section (lk_isecs (kc_link lb_ctx) ! 0) = Some (ChOutput 0)" "is_offset (lk_isecs (kc_link lb_ctx) ! 0) = 0"
    "is_replacement (lk_isecs (kc_link lb_ctx) ! 0) = NO_REPLACEMENT" "nth_opt (lk_isecs (kc_link lb_ctx)) 0 = Some (lk_isecs (kc_link lb_ctx) ! 0)"
    "map_option ch_addr (chunk_header_of (kc_link lb_ctx) (ChOutput 0)) = Some 0x8020"
    by code_simp+
  then show ?thesis by (auto simp: kc_isec_addr_def isec_addr_def)
qed

lemma lb_private: "kc_dyld_private_isec lb_ctx = 0"
  by code_simp

lemma lb_bslot: "Option.bind (kc_stub_binder lb_ctx) (kc_got_addr lb_ctx) = Some 0x8000"
  by code_simp

lemma lb_symbol: "kc_symbol lb_ctx (kc_stub_syms lb_ctx ! 0) = Some (st_syms (lk_symbols lb_link) ! 0)" "kc_symbol lb_ctx 0 = Some (st_syms (lk_symbols lb_link) ! 0)"
  by code_simp+

lemma lb_target: "branch_target_addr (kc_link lb_ctx) (st_syms (lk_symbols lb_link) ! 0) = Some 0x4000"
proof -
  have s: "stub_idx (st_syms (lk_symbols lb_link) ! 0) (kc_link lb_ctx) = Some (Some 0)" "\<not> is_interposable (kc_link lb_ctx) (st_syms (lk_symbols lb_link) ! 0)"
    "sy_file (st_syms (lk_symbols lb_link) ! 0) = Some (FDylib 0xffffffff)"
    "stub_entry (kc_link lb_ctx) (st_syms (lk_symbols lb_link) ! 0) = Some (Some (ChStubs, 0x4000))"
    by code_simp+
  show ?thesis by (simp add: branch_target_addr_def sy_addr_def s)
qed

lemma lb_stubs: "write_stubs lb_ctx 0x4000 (replicate 12 0) = Some (lb_stub_bytes, False)"
  by code_simp

lemma lb_ptrs: "lazy_ptrs_copy_buf lb_ctx (replicate 8 0) = Some lb_ptr_bytes"
  by code_simp

lemma lb_helper: "write_stub_helper lb_ctx 0x400c (replicate 36 0) = Some lb_helper_bytes"
proof -
  show ?thesis unfolding write_stub_helper_def lb_bslot lb_private lb_isec bind.simps by code_simp
qed

lemma lb_thunk: "write_thunk lb_ctx 0xc000 [0] (replicate 12 0) = Some lb_thunk_bytes"
  unfolding write_thunk_def for_each.simps lb_symbol bind.simps lb_target by code_simp

lemma unat_plus_of_nat: "unat d + j < 2 ^ 64 \<Longrightarrow> unat (d + of_nat j :: u64) = unat d + j"
  by (simp add: unat_word_ariths unat_of_nat take_bit_nat_eq_self)

lemma holds_first: "length bs < 2 ^ 64 \<Longrightarrow> holds_bytes b bs \<lparr>mx = x, msp = y, mv = z, mm = mem_of ((b, bs) # r)\<rparr>"
  by (simp add: holds_bytes_def unat_of_nat take_bit_nat_eq_self)

lemma holds_later:
  assumes "holds_bytes a xs \<lparr>mx = x, msp = y, mv = z, mm = mem_of r\<rparr>" "length bs \<le> unat (a - b)" "unat (a - b) + length xs < 2 ^ 64"
  shows "holds_bytes a xs \<lparr>mx = x, msp = y, mv = z, mm = mem_of ((b, bs) # r)\<rparr>"
proof -
  have "unat (a + of_nat i - b) = unat (a - b) + i" if "i < length xs" for i
    using unat_plus_of_nat [of "a - b" i] assms(3) that by (simp add: algebra_simps)
  then show ?thesis using assms by (auto simp: holds_bytes_def)
qed

lemma off_stack_above:
  assumes "n \<le> unat (sp - 16 - a)" "unat (sp - 16 - a) + 16 < 2 ^ 64"
  shows "off_stack a n sp"
  unfolding off_stack_def
proof (intro allI impI notI)
  fix i j :: nat assume i: "i < n" and j: "j < 16" and "a + of_nat i = sp - 16 + of_nat j"
  then have "(of_nat i :: u64) = (sp - 16 - a) + of_nat j" by (simp add: algebra_simps)
  moreover have "unat (of_nat i :: u64) = i" using i assms by (simp add: unat_of_nat take_bit_nat_eq_self)
  ultimately show False using unat_plus_of_nat [of "sp - 16 - a" j] i j assms by simp
qed

lemma lb_holds:
  "holds_bytes 0x4000 lb_stub_bytes lb_mach" "holds_bytes (ch_addr (kc_hdr lb_ctx ChLazyPtrs)) lb_ptr_bytes lb_mach"
  "holds_bytes 0x400c lb_helper_bytes lb_mach" "holds_bytes 0xc000 lb_thunk_bytes lb_mach"
  "holds_bytes 0x8000 (le_bytes 8 (0x180001000 :: u64)) lb_mach"
proof -
  note len = lb_stub_bytes_def lb_ptr_bytes_def lb_helper_bytes_def lb_thunk_bytes_def
  have p: "ch_addr (kc_hdr lb_ctx ChLazyPtrs) = 0x8010" by code_simp
  show "holds_bytes 0x4000 lb_stub_bytes lb_mach"
    unfolding lb_mach_def by (rule holds_first) (simp add: len)
  show "holds_bytes (ch_addr (kc_hdr lb_ctx ChLazyPtrs)) lb_ptr_bytes lb_mach"
    unfolding lb_mach_def p by (rule holds_later, rule holds_later, rule holds_later, rule holds_first) (simp_all add: len)
  show "holds_bytes 0x400c lb_helper_bytes lb_mach"
    unfolding lb_mach_def by (rule holds_later, rule holds_first) (simp_all add: len)
  show "holds_bytes 0xc000 lb_thunk_bytes lb_mach"
    unfolding lb_mach_def by (rule holds_later, rule holds_later, rule holds_later, rule holds_later, rule holds_first) (simp_all add: len)
  show "holds_bytes 0x8000 (le_bytes 8 (0x180001000 :: u64)) lb_mach"
    unfolding lb_mach_def by (rule holds_later, rule holds_later, rule holds_first) (simp_all add: len)
qed

lemma lb_slot: "load_mem 8 0x8000 lb_mach = (0x180001000 :: u64)"
proof -
  have "slice_at (le_bytes 8 (0x180001000 :: u64)) 0 8 = Some (le_bytes 8 (0x180001000 :: u64))" by code_simp
  from load_mem_bytes [OF lb_holds(5) this]
  have "load_mem 8 (0x8000 + of_nat 0) lb_mach = (from_le (le_bytes 8 (0x180001000 :: u64)) :: u64)" .
  then show ?thesis unfolding from_le_le_bytes_64 by simp
qed

lemma lb_facts:
  "stub_ptr_addr (kc_link lb_ctx) (st_syms (lk_symbols lb_link) ! 0) (of_nat 0) = Some (lazy_ptr_slot_addr (kc_link lb_ctx) 0)"
  "kc_isec_addr lb_ctx (kc_dyld_private_isec lb_ctx) = Some 0x8020"
  "adrp_reaches 0x8020 0x400c" "adrp_reaches 0x8000 (0x400c + 12)" "adrp_reaches 0x4000 (0xc000 + of_nat 0 * 12)"
  "off_stack 0x400c 24 (msp lb_mach)" "off_stack 0x8000 8 (msp lb_mach)"
  apply code_simp
  apply (subst lb_private, rule lb_isec)
  apply code_simp
  apply code_simp
  apply code_simp
  apply (rule off_stack_above; simp add: lb_mach_def)+
  done

theorem thunk_jumps_witness:
  "run 3 0xc000 lb_mach = Some (0x4000, set_z 16 0x4000 lb_mach)"
proof -
  have "0 < length [0 :: u32]" "kc_symbol lb_ctx ([0] ! 0) = Some (st_syms (lk_symbols lb_link) ! 0)" using lb_symbol(2) by simp_all
  from thunk_jumps [OF lb_thunk lb_holds(4) this lb_target lb_facts(5)] show ?thesis by simp
qed

theorem lazy_call_binds_witness:
  "\<exists>s'. run 11 0x4000 lb_mach = Some (0x180001000, s') \<and> msp s' = 0x1fff0 \<and> load_mem 8 (msp s') s' = (0x1c :: u64) \<and>
     load_mem 8 (msp s' + 8) s' = (0x8020 :: u64) \<and> (\<forall>r. mx s' r = (if r = 16 \<or> r = 17 then mx s' r else 7))"
proof -
  have c: "0x400c = ch_addr (kc_hdr lb_ctx ChStubHelper)" "kc_arch lb_ctx = arch_arm64" "\<not> la_legacy_linkedit (kc_args lb_ctx)"
    "length (kc_stub_syms lb_ctx) \<le> 2 ^ 32" "24 + 12 * length (lk_stubs_lazy (kc_link lb_ctx)) \<le> 2 ^ 27"
    "0 < length (kc_stub_syms lb_ctx)" "0 < length (lk_stubs_lazy (kc_link lb_ctx))"
    "ch_addr (kc_hdr lb_ctx ChLazyPtrs) mod 8 = 0" "(0x8000 :: u64) mod 8 = 0" "kc_lazy_offsets lb_ctx ! 0 = 0x1c"
    by (simp_all add: lb_ctx_def lb_link_def plain_link_def kc_hdr_def kc_arch_def kc_args_def lb_addr_def plain_args_def)
  have m: "msp lb_mach = 0x20000" "mx lb_mach r = 7" for r by (simp_all add: lb_mach_def)
  show ?thesis
    using lazy_call_binds [OF lb_stubs lb_ptrs lb_helper c(1) lb_holds(1-3) c(2-7) lb_symbol(1) lb_facts(1,2) lb_bslot lb_facts(3,4) c(8,9) lb_facts(6,7)]
    unfolding m c(10) lb_slot by simp
qed

declare One_nat_def [simp]

end
