(* ===== verification/Spec2Isabelle.thy ===== *)
theory Spec2Isabelle
  imports Hashes GlobNfa RebaseInfo BindInfo CodeSignature LinkeditTables Dwarf InputFiles LoadCommands ExportTrie SplitInfo UnwindInfo
    InputSections SymbolTable Link DeadStrip Thunks ChainedFixups Arm64Hints LazyBinding
begin

text \<open>
  A verification development of the mold linker for Mach-O (the Rust crate under \<open>src/macho\<close>).

  \<^bold>\<open>The program.\<close> The linker reads object files, archives and dylib stubs (\<open>input_files.rs\<close>,
  \<open>archive_file.rs\<close>, \<open>filetype.rs\<close>, \<open>mapped_file.rs\<close>), resolves their symbols, lays the image out as
  chunks grouped into segments (\<open>passes.rs\<close>, \<open>chunks/mod.rs\<close>), and writes the chunks: sections with
  relocations applied, and the tables of \<open>__LINKEDIT\<close> that dyld reads when it loads the image. The
  development models the parts that turn data into bytes another program reads, and the readers of
  the bytes other programs write. Its theorems are about the two ends together: what the reader of a
  table gets is what the linker meant.

  \<^bold>\<open>Theories.\<close>
  \<^item> \<open>Prelude\<close>: machine types, byte order, checked slices, lemmas on words and lists of options.
  \<^item> \<open>Util\<close> (\<open>util/mod.rs\<close>): LEB128, alignment, little-endian access, sort keys, splitting of text.
  \<^item> \<open>Glob\<close>, \<open>GlobNfa\<close> (\<open>util/glob.rs\<close>): patterns, their compiler, the backtracking matcher against the
    language of a pattern, and the bit-parallel automaton against the list of patterns.
  \<^item> \<open>Hashes\<close> (\<open>util/siphash.rs\<close>, \<open>util/cityhash.rs\<close>): streaming and totality.
  \<^item> \<open>MachoConsts\<close>, \<open>Macho\<close> (\<open>macho_consts.rs\<close>, \<open>macho.rs\<close>): constants, and every file record as an
    interpretation of the locale \<open>file_record\<close>, whose laws are those of the trait \<open>FileRecord\<close>.
  \<^item> \<open>Chunks\<close> (\<open>chunks/mod.rs\<close>): chunk headers and identifiers, segments, finding an address's segment.
  \<^item> \<open>LoadCommands\<close> (\<open>chunks/mod.rs\<close>, the version sets of \<open>cmdline.rs\<close>): every load command, the mach
    header, its size and flags, its UUID. The record \<open>lx\<close> is what these functions read of the context.
  \<^item> \<open>RebaseInfo\<close>, \<open>Sleb\<close>, \<open>BindInfo\<close> (\<open>chunks/rebase_info.rs\<close>, \<open>bind_info.rs\<close>, \<open>weak_bind_info.rs\<close>,
    \<open>lazy_bind_info.rs\<close>): the opcode streams, each with dyld's interpreter of it.
  \<^item> \<open>ExportTrie\<close> (\<open>chunks/export_trie.rs\<close>): building, numbering, placing and writing of the trie, and
    dyld's walk along a name.
  \<^item> \<open>CodeSignature\<close> (\<open>chunks/code_signature.rs\<close>): the ad-hoc signature and its incremental rehashing.
  \<^item> \<open>LinkeditTables\<close> (\<open>chunks/function_starts.rs\<close>, \<open>data_in_code.rs\<close>, \<open>lazy_load_info.rs\<close>): small tables.
  \<^item> \<open>SplitInfo\<close> (\<open>chunks/split_info.rs\<close>): the encoding of the shared cache's references.
  \<^item> \<open>UnwindInfo\<close> (\<open>chunks/unwind_info.rs\<close>, the records of \<open>input_sections.rs\<close>): the compact unwind table and
    the unwinder's search in it.
  \<^item> \<open>InputSections\<close> (\<open>input_sections.rs\<close>): subsections, their flags, relocations and merges.
  \<^item> \<open>SymbolTable\<close>, \<open>Link\<close> (\<open>symbol.rs\<close>, \<open>context.rs\<close> and the slots of the stub and pointer chunks): symbols,
    the sharded table and its interning, how a symbol binds and its addresses. The record \<open>link\<close> is what
    the modelled passes read of the context.
  \<^item> \<open>DeadStrip\<close> (\<open>dead_strip.rs\<close>): roots, the parallel marking as a step relation over a pool of workers,
    the serial walk, live support and the sweep, against reachability.
  \<^item> \<open>Thunks\<close> (\<open>thunks.rs\<close>): the layout of a code section in batches, each with a thunk, the invariant of its
    four member indices and what it gives: every call reaches its target or an entry. The bound on a
    thunk is 43,689 entries, half of \<open>MAX_THUNK_SIZE\<close>, since two batches may put theirs at the same place.
  \<^item> \<open>ChainedFixups\<close> (\<open>chunks/chained_fixups.rs\<close>): collecting the fixups, the payload with its page starts
    and imports, the chains in the image; against dyld's walk of them, with fuel 4096, the strides of a
    16 KiB page.
  \<^item> \<open>Arm64\<close> (\<open>arch/arm64.rs\<close>, \<open>find_subsec\<close> and \<open>hint_subsec\<close> of \<open>input_files.rs\<close>): instruction fields, the linker
    optimization hints and what they rewrite. \<open>Arm64Machine\<close> gives the instructions their meaning, from
    the architecture manual: registers, memory and one step; it is a specification and models no code.
    \<open>Arm64Hints\<close> shows that a rewritten sequence does what the original did.
  \<^item> \<open>Stubs\<close> (\<open>arch/arm64.rs\<close>, \<open>chunks/stubs.rs\<close>, \<open>stub_helper.rs\<close>, \<open>lazy_ptrs.rs\<close>, \<open>got.rs\<close>, \<open>objc_stubs.rs\<close>,
    \<open>lazy_helpers.rs\<close>, \<open>lazy_load_got.rs\<close>, \<open>delay_init.rs\<close>): the code and the pointers the linker itself writes.
    \<open>StubsCode\<close> shows what the bytes written hold and what each piece of code does when it runs;
    \<open>LazyBinding\<close> follows a call through a thunk, and an unbound call to dyld's binder.
  \<^item> \<open>Dwarf\<close> (\<open>dwarf.rs\<close>): the reader of a compile unit's name and directory.
  \<^item> \<open>InputFiles\<close> (\<open>mapped_file.rs\<close>, \<open>filetype.rs\<close>, \<open>archive_file.rs\<close>, \<open>arch/mod.rs\<close>): views of a file, kinds
    of file, universal files and archives.

  \<^bold>\<open>How the code is modelled.\<close> A struct is a record, an enum a datatype, an integer a word of its width,
  with the wrap-around of the release build. A byte slice is a list of bytes; every index and slice is
  checked, and \<open>None\<close> is a panic (of an \<open>option\<close> of the source it is the source's \<open>None\<close>, as the text
  of each theory says). A loop is a recursive function: structural where it walks a list, with a
  measure where it advances a position, and \<open>partial_function (option)\<close> where nothing in its text
  bounds it (the glob matcher, the stack loop of the trie's placement); then termination is a theorem.
  Parallel iterators are maps: their results do not depend on the order. The one parallel algorithm
  whose tasks share state, the marking of live subsections, is an inductive step relation, and its
  theorems hold for every schedule. A writer that fills a buffer
  returns the buffer.

  \<^bold>\<open>What the lemmas show.\<close> For each stream or table, a reader is defined from the format's
  documentation and its result on the written bytes is computed: the operations an interpreter
  performs (rebase and bind streams), the map it represents (the export trie), the records it gets
  back (load commands, archives, small tables), the checks it makes (the signature). For optimised
  routines, equality with a plain definition is shown (glob automata, sort keys, streaming hashes,
  rehashing). The bounds in hypotheses are those of the format's fields: sizes below \<open>2 ^ 32\<close>, names
  without NUL. The walk over the export trie and the reader of load commands take fuel: one more than
  the length of the name (each step consumes a nonempty label), and the header's count of commands.

  The code the linker writes is run: a machine state is a memory and registers, a step decodes the word
  at the program counter, and a sequence of a known number of steps (three for a thunk, eleven for an
  unbound call) is composed of them, so no fuel is needed. For a hint the code between its instructions
  is any function on states that leaves the sequence's registers alone; that the hint's registers are
  its own is what the compiler promises by the hint, and a hypothesis (\<open>hint_ok\<close>, \<open>leaves\<close>, \<open>blind\<close>).
  For an unbound call the hypotheses are the layout's: slots aligned, pages within the reach of an
  adrp, and the stack apart from the helper's code and the binder's slot.

  Where a result is a selection (live data-in-code ranges, announced overrides, the language of a
  pattern, the room for install names), it is pinned by a specification that does not use the code's
  own filter: a count of index pairs, a second reader of the stream, a grammar, the names in the
  commands made.

  \<^bold>\<open>Parameters.\<close> Digests (\<open>sha1\<close>, \<open>sha256\<close>), the substring search of the crate \<open>memchr\<close>, and what is
  read of symbols and input sections are arguments of the definitions; hypotheses on them state
  documented behaviour (a digest's length, the first occurrence of a substring).

  \<^bold>\<open>Not modelled.\<close> The passes over the whole context (\<open>passes.rs\<close>), the parsing of object files
  (\<open>input_files.rs\<close>), the command line (but for its version sets), the search for files, Objective-C
  metadata, relocatable output, mergeable libraries, link-time optimisation, identical code folding,
  the stubs of \<open>tapi.rs\<close>, and the parts that are input and output alone: most of them read and write
  nearly every field of the context, or files. Of the targets, relocations and the code for x86-64
  are not modelled; the manifest lists every part with its reason.
\<close>

end
